(* ===== verification/Cache_Spec.thy ===== *)
theory Cache_Spec
  imports Main
begin

text \<open>
  What a look-aside cache in front of a key-value server promises, and what that is enough for.
  \<open>recv\<close> is any traffic that reaches the cache, \<open>kill\<close> the traffic that announces a write of a key,
  \<open>fill\<close> the passage of a reply of the server for a key. The cache may forget an entry at any moment
  (slots are shared), so every law allows \<open>None\<close>. The server may also change a key without any announcement:
  the key expires, is evicted, deleted, counted up, or written in a way the cache does not look at.
\<close>

text \<open>
  The server: its values, for each key the values it has had since the last announced write, and the keys changed
  without announcement since then.
\<close>

record ('k, 'v) kv_view =
  kv_db :: "'k \<rightharpoonup> 'v"
  kv_had :: "'k \<Rightarrow> 'v set"
  kv_silent :: "'k set"

definition kv_start :: "('k \<rightharpoonup> 'v) \<Rightarrow> ('k, 'v) kv_view" where
  "kv_start db = \<lparr>kv_db = db, kv_had = (\<lambda>k. set_option (db k)), kv_silent = {}\<rparr>"

definition kv_write :: "'k \<Rightarrow> 'v option \<Rightarrow> ('k, 'v) kv_view \<Rightarrow> ('k, 'v) kv_view" where
  "kv_write k w d = d\<lparr>kv_db := (kv_db d)(k := w), kv_had := (kv_had d)(k := set_option w), kv_silent := kv_silent d - {k}\<rparr>"

definition kv_change :: "'k \<Rightarrow> 'v option \<Rightarrow> ('k, 'v) kv_view \<Rightarrow> ('k, 'v) kv_view" where
  "kv_change k w d = d\<lparr>kv_db := (kv_db d)(k := w), kv_had := (kv_had d)(k := kv_had d k \<union> set_option w), kv_silent := insert k (kv_silent d)\<rparr>"

text \<open>A reply carries a value the key has had since the last announced write.\<close>

inductive cache_sys ::
  "('s \<Rightarrow> 's \<Rightarrow> bool) \<Rightarrow> ('k \<Rightarrow> 's \<Rightarrow> 's \<Rightarrow> bool) \<Rightarrow> ('k \<Rightarrow> 'v \<Rightarrow> 's \<Rightarrow> 's \<Rightarrow> bool) \<Rightarrow>
   's \<times> ('k, 'v) kv_view \<Rightarrow> 's \<times> ('k, 'v) kv_view \<Rightarrow> bool"
  for recv kill fill where
  sys_recv: "recv s s' \<Longrightarrow> cache_sys recv kill fill (s, d) (s', d)"
| sys_write: "kill k s s' \<Longrightarrow> cache_sys recv kill fill (s, d) (s', kv_write k w d)"
| sys_change: "cache_sys recv kill fill (s, d) (s, kv_change k w d)"
| sys_reply: "v \<in> kv_had d k \<Longrightarrow> fill k v s s' \<Longrightarrow> cache_sys recv kill fill (s, d) (s', d)"

inductive_cases cache_sysE: "cache_sys recv kill fill c c'"

text \<open>
  Every cached value is one the server has had since the last announced write of the key; that is the current value
  as long as the key was not changed in another way.
\<close>

definition coherent :: "('s \<Rightarrow> 'k \<Rightarrow> 'v option) \<Rightarrow> 's \<times> ('k, 'v) kv_view \<Rightarrow> bool" where
  "coherent look c \<longleftrightarrow> (\<forall>k v. look (fst c) k = Some v \<longrightarrow> v \<in> kv_had (snd c) k)"

definition announced :: "('k, 'v) kv_view \<Rightarrow> bool" where
  "announced d \<longleftrightarrow> (\<forall>k. k \<notin> kv_silent d \<longrightarrow> kv_had d k = set_option (kv_db d k))"

lemma step_announced: "cache_sys recv kill fill c c' \<Longrightarrow> announced (snd c) \<Longrightarrow> announced (snd c')"
  by (auto elim!: cache_sysE simp: announced_def kv_write_def kv_change_def)

lemma steps_announced: "(cache_sys recv kill fill)\<^sup>*\<^sup>* c c' \<Longrightarrow> announced (snd c) \<Longrightarrow> announced (snd c')"
  by (induction rule: rtranclp_induct) (auto intro: step_announced)

lemma start_announced [simp]: "announced (kv_start db)"
  by (simp add: announced_def kv_start_def)

locale lossy_cache =
  fixes look :: "'s \<Rightarrow> 'k \<Rightarrow> 'v option"
    and inv :: "'s \<Rightarrow> bool"
    and recv :: "'s \<Rightarrow> 's \<Rightarrow> bool"
    and kill :: "'k \<Rightarrow> 's \<Rightarrow> 's \<Rightarrow> bool"
    and fill :: "'k \<Rightarrow> 'v \<Rightarrow> 's \<Rightarrow> 's \<Rightarrow> bool"
  assumes inv_recv: "inv s \<Longrightarrow> recv s s' \<Longrightarrow> inv s'"
    and inv_kill: "inv s \<Longrightarrow> kill k s s' \<Longrightarrow> inv s'"
    and inv_fill: "inv s \<Longrightarrow> fill k v s s' \<Longrightarrow> inv s'"
    and look_recv: "inv s \<Longrightarrow> recv s s' \<Longrightarrow> look s' k = None \<or> look s' k = look s k"
    and look_kill: "inv s \<Longrightarrow> kill k s s' \<Longrightarrow> look s' k = None"
    and look_kill_other: "inv s \<Longrightarrow> kill k s s' \<Longrightarrow> look s' k' = None \<or> look s' k' = look s k'"
    and look_fill: "inv s \<Longrightarrow> fill k v s s' \<Longrightarrow> look s' k = Some v \<or> look s' k = look s k"
    and look_fill_other: "inv s \<Longrightarrow> fill k v s s' \<Longrightarrow> k' \<noteq> k \<Longrightarrow>
      look s' k' = None \<or> look s' k' = look s k'"
begin

lemma step_inv: "cache_sys recv kill fill c c' \<Longrightarrow> inv (fst c) \<Longrightarrow> inv (fst c')"
  by (auto elim!: cache_sysE intro: inv_recv inv_kill inv_fill)

lemma step_coherent:
  assumes "cache_sys recv kill fill c c'" and "inv (fst c)" and "coherent look c"
  shows "coherent look c'"
  unfolding coherent_def
proof (intro allI impI)
  fix k v
  assume l: "look (fst c') k = Some v"
  have old: "v \<in> kv_had (snd c) k" if "look (fst c) k = Some v"
    using assms(3) that by (simp add: coherent_def)
  from assms(1) show "v \<in> kv_had (snd c') k"
  proof cases
    case (sys_recv s s' d)
    then show ?thesis using look_recv [of s s' k] assms(2) l old by auto
  next
    case (sys_write k0 s s' d w)
    then show ?thesis
      using look_kill [of s k0 s'] look_kill_other [of s k0 s' k] assms(2) l old by (cases "k = k0") (auto simp: kv_write_def)
  next
    case (sys_change s d k0 w)
    then show ?thesis using l old by (auto simp: kv_change_def)
  next
    case (sys_reply w d k0 s s')
    then show ?thesis
      using look_fill [of s k0 w s'] look_fill_other [of s k0 w s' k] assms(2) l old
      by (cases "k = k0") auto
  qed
qed

lemma steps_coherent:
  assumes "(cache_sys recv kill fill)\<^sup>*\<^sup>* c c'" and "inv (fst c)" and "coherent look c"
  shows "inv (fst c') \<and> coherent look c'"
  using assms by (induction rule: rtranclp_induct) (auto intro: step_inv step_coherent)

end

end
