(* ===== verification/Prelude.thy ===== *)
theory Prelude
  imports Main "HOL-Library.Word"
begin

unbundle bit_operations_syntax

text \<open>
  Shared vocabulary of the development: the machine integer types of the C sources, byte memories
  as functions from addresses to bytes, the reads and writes of consecutive bytes the programs
  perform, and the list facts by which the component theories summarise their loops
  (\<open>takeWhile\<close> over the bytes a bounded loop can see).
\<close>

type_synonym byte = "8 word"
type_synonym u16 = "16 word"
type_synonym u32 = "32 word"
type_synonym u64 = "64 word"

text \<open>A C array or a packet buffer: bytes by index. The bounds are those the code checks.\<close>

type_synonym mem = "nat \<Rightarrow> byte"

named_theorems eval_simps \<open>equations that evaluate the model on closed terms\<close>
named_theorems frame_simps \<open>what an operation leaves unchanged\<close>

section \<open>Words as numbers\<close>

lemma unat_u8_less: "unat (w :: byte) < 256"
  and unat_u16_less: "unat (v :: u16) < 65536"
  and unat_u32_less: "unat (x :: u32) < 4294967296"
  and unat_u64_less: "unat (y :: u64) < 18446744073709551616"
  using unsigned_less [of w, where ?'a = nat] unsigned_less [of v, where ?'a = nat]
    unsigned_less [of x, where ?'a = nat] unsigned_less [of y, where ?'a = nat] by simp_all

lemma unat_and_mask: "unat (w AND mask n) = unat w mod 2 ^ n" for w :: "'a :: len word"
  by (metis take_bit_eq_mask take_bit_eq_mod unsigned_take_bit_eq)

lemma unat_ucast: "unat (ucast w :: 'b :: len word) = unat w mod 2 ^ LENGTH('b)" for w :: "'a :: len word"
  by (simp add: unsigned_ucast_eq take_bit_eq_mod)

lemma unat_not_u32: "unat (NOT w :: u32) = 4294967295 - unat w"
proof -
  have "NOT w = 0xffffffff - w" by (simp add: not_eq_complement)
  then show ?thesis using unat_u32_less [of w] by (simp add: unat_sub_if_size word_size)
qed

section \<open>Strings and characters\<close>

definition bytes :: "string \<Rightarrow> byte list" where
  "bytes s = map of_char s"

lemma bytes_simps [simp]: "bytes [] = []" "bytes (c # s) = of_char c # bytes s"
  by (simp_all add: bytes_def)

lemma length_bytes [simp]: "length (bytes s) = length s"
  by (simp add: bytes_def)

abbreviation (input) SP :: byte where "SP \<equiv> 32"
abbreviation (input) CR :: byte where "CR \<equiv> 13"
abbreviation (input) LF :: byte where "LF \<equiv> 10"

section \<open>Consecutive bytes of a memory\<close>

definition mem_read :: "mem \<Rightarrow> nat \<Rightarrow> nat \<Rightarrow> byte list" where
  "mem_read m a n = map m [a..<a + n]"

lemma length_mem_read [simp]: "length (mem_read m a n) = n"
  by (simp add: mem_read_def)

lemma mem_read_0 [simp]: "mem_read m a 0 = []"
  by (simp add: mem_read_def)

lemma mem_read_Suc: "mem_read m a (Suc n) = m a # mem_read m (Suc a) n"
  by (simp add: mem_read_def upt_conv_Cons del: upt_Suc)

lemma mem_read_nth [simp]: "i < n \<Longrightarrow> mem_read m a n ! i = m (a + i)"
  by (simp add: mem_read_def)

lemma mem_read_add: "mem_read m a (k + n) = mem_read m a k @ mem_read m (a + k) n"
  by (rule nth_equalityI) (auto simp: nth_append)

lemma mem_read_cong:
  "(\<And>i. i < n \<Longrightarrow> m (a + i) = m' (a' + i)) \<Longrightarrow> mem_read m a n = mem_read m' a' n"
  by (rule nth_equalityI) auto

lemma mem_read_eqI:
  "length bs = n \<Longrightarrow> (\<And>i. i < n \<Longrightarrow> m (a + i) = bs ! i) \<Longrightarrow> mem_read m a n = bs"
  by (rule nth_equalityI) auto

lemma mem_read_eqD:
  assumes "mem_read m a n = bs" and "i < n"
  shows "m (a + i) = bs ! i"
  using mem_read_nth [OF assms(2), of m a] assms(1) by simp

lemma mem_read_append_iff:
  "mem_read m a (length xs + length ys) = xs @ ys \<longleftrightarrow>
   mem_read m a (length xs) = xs \<and> mem_read m (a + length xs) (length ys) = ys"
  by (simp add: mem_read_add)

lemma take_mem_read: "k \<le> n \<Longrightarrow> take k (mem_read m a n) = mem_read m a k"
  by (rule nth_equalityI) auto

lemma drop_mem_read: "drop k (mem_read m a n) = mem_read m (a + k) (n - k)"
  by (rule nth_equalityI) (auto simp: add.assoc)

definition mem_write :: "mem \<Rightarrow> nat \<Rightarrow> byte list \<Rightarrow> mem" where
  "mem_write m a bs = (\<lambda>i. if a \<le> i \<and> i < a + length bs then bs ! (i - a) else m i)"

lemma mem_write_Nil [simp]: "mem_write m a [] = m"
  by (auto simp: mem_write_def fun_eq_iff)

lemma mem_write_out [simp]: "i < a \<or> a + length bs \<le> i \<Longrightarrow> mem_write m a bs i = m i"
  by (auto simp: mem_write_def)

lemma mem_write_in [simp]: "i < length bs \<Longrightarrow> mem_write m a bs (a + i) = bs ! i"
  by (simp add: mem_write_def)

lemma mem_write_single: "mem_write m a [b] = m(a := b)"
  by (auto simp: mem_write_def)

lemma mem_write_Cons: "mem_write m a (b # bs) = mem_write (m(a := b)) (Suc a) bs"
proof
  fix i
  show "mem_write m a (b # bs) i = mem_write (m(a := b)) (Suc a) bs i"
  proof (cases "Suc a \<le> i \<and> i < Suc a + length bs")
    case True
    then have "i - a = Suc (i - Suc a)" by linarith
    with True show ?thesis by (simp add: mem_write_def)
  qed (auto simp: mem_write_def)
qed

lemma mem_write_append:
  "mem_write (mem_write m a xs) (a + length xs) ys = mem_write m a (xs @ ys)"
  by (auto simp: mem_write_def nth_append fun_eq_iff)

lemma mem_read_write_same [simp]: "mem_read (mem_write m a bs) a (length bs) = bs"
  by (rule mem_read_eqI) simp_all

lemma mem_read_write_disjoint:
  "b + n \<le> a \<or> a + length bs \<le> b \<Longrightarrow> mem_read (mem_write m a bs) b n = mem_read m b n"
  by (rule mem_read_cong) auto

section \<open>Numbers in memory\<close>

text \<open>A 16-bit field in network byte order, and one read by a little-endian host.\<close>

definition be16 :: "mem \<Rightarrow> nat \<Rightarrow> u16" where
  "be16 m a = push_bit 8 (ucast (m a)) OR ucast (m (a + 1))"

definition le16 :: "mem \<Rightarrow> nat \<Rightarrow> u16" where
  "le16 m a = ucast (m a) OR push_bit 8 (ucast (m (a + 1)))"

definition put_be16 :: "mem \<Rightarrow> nat \<Rightarrow> u16 \<Rightarrow> mem" where
  "put_be16 m a v = m(a := ucast (drop_bit 8 v), a + 1 := ucast v)"

definition put_le16 :: "mem \<Rightarrow> nat \<Rightarrow> u16 \<Rightarrow> mem" where
  "put_le16 m a v = m(a := ucast v, a + 1 := ucast (drop_bit 8 v))"

lemma be16_put_be16 [simp]: "be16 (put_be16 m a v) a = v"
  by (rule bit_word_eqI) (auto simp: be16_def put_be16_def bit_simps)

lemma le16_put_le16 [simp]: "le16 (put_le16 m a v) a = v"
  by (rule bit_word_eqI) (auto simp: le16_def put_le16_def bit_simps)

lemma put_be16_out [simp]: "i \<noteq> a \<Longrightarrow> i \<noteq> Suc a \<Longrightarrow> put_be16 m a v i = m i"
  by (simp add: put_be16_def)

lemma put_le16_out [simp]: "i \<noteq> a \<Longrightarrow> i \<noteq> Suc a \<Longrightarrow> put_le16 m a v i = m i"
  by (simp add: put_le16_def)

section \<open>Bounded scans\<close>

lemma takeWhile_nth_length:
  "length (takeWhile P xs) < length xs \<Longrightarrow> \<not> P (xs ! length (takeWhile P xs))"
  by (rule nth_length_takeWhile)

lemma takeWhile_all_append:
  "\<forall>x \<in> set xs. P x \<Longrightarrow> \<not> P y \<Longrightarrow> takeWhile P (xs @ y # ys) = xs"
  by (simp add: takeWhile_append)

end
