(* ===== verification/Bmc_Common.thy ===== *)
theory Bmc_Common
  imports Prelude
begin

unbundle bit_operations_syntax

text \<open>
  The shared declarations of BMC (\<open>bmc/bmc_common.h\<close>), the eBPF maps of \<open>bmc/bmc_kern.c\<close>
  and the FNV-1a hash of \<open>bmc/bmc_user.c\<close>.

  The eBPF helper functions are kernel code outside the repository: they are the fields of a
  record \<open>bpf_ops\<close>, an argument of every program. \<open>bpf_ops_ok\<close> is what bpf-helpers(7) says of
  them: an array map lookup returns an element exactly for the indices below \<open>max_entries\<close>, and
  \<open>bpf_xdp_adjust_head\<close>/\<open>bpf_xdp_adjust_tail\<close> move one end of the packet by the given number of
  bytes and leave the bytes alone; moving the head succeeds when it stays inside the buffer with at
  least an Ethernet header in front of the end. \<open>ref_ops\<close> is an instance.
\<close>

section \<open>Constants\<close>

definition BMC_MAX_KEY_LENGTH :: nat where [simp]: "BMC_MAX_KEY_LENGTH = 250"
definition BMC_MAX_VAL_LENGTH :: nat where [simp]: "BMC_MAX_VAL_LENGTH = 1000"
definition BMC_MAX_ADDITIONAL_PAYLOAD_BYTES :: nat where
  [simp]: "BMC_MAX_ADDITIONAL_PAYLOAD_BYTES = 53"
definition BMC_MAX_CACHE_DATA_SIZE :: nat where
  [simp]: "BMC_MAX_CACHE_DATA_SIZE =
     BMC_MAX_KEY_LENGTH + BMC_MAX_VAL_LENGTH + BMC_MAX_ADDITIONAL_PAYLOAD_BYTES"
definition BMC_MAX_KEY_IN_MULTIGET :: nat where [simp]: "BMC_MAX_KEY_IN_MULTIGET = 30"
definition BMC_CACHE_ENTRY_COUNT :: nat where [simp]: "BMC_CACHE_ENTRY_COUNT = 3250000"
definition BMC_MAX_PACKET_LENGTH :: nat where [simp]: "BMC_MAX_PACKET_LENGTH = 1500"
definition BMC_MAX_KEY_IN_PACKET :: nat where
  [simp]: "BMC_MAX_KEY_IN_PACKET = BMC_MAX_KEY_IN_MULTIGET"
definition FNV_OFFSET_BASIS_32 :: u32 where "FNV_OFFSET_BASIS_32 = 2166136261"
definition FNV_PRIME_32 :: u32 where "FNV_PRIME_32 = 16777619"
definition ADJUST_HEAD_LEN :: nat where [simp]: "ADJUST_HEAD_LEN = 128"

text \<open>
  The header sizes the programs take with \<open>sizeof\<close>: Ethernet, IPv4 without options, UDP, TCP
  without options, memcached's UDP frame header, and the sum \<open>14 + 20 + 8 + 8\<close> of the four headers
  in front of a UDP request.
\<close>

abbreviation (input) ETH_LEN :: nat where "ETH_LEN \<equiv> 14"
abbreviation (input) IP_LEN :: nat where "IP_LEN \<equiv> 20"
abbreviation (input) UDP_LEN :: nat where "UDP_LEN \<equiv> 8"
abbreviation (input) TCP_LEN :: nat where "TCP_LEN \<equiv> 20"
abbreviation (input) MCUDP_LEN :: nat where "MCUDP_LEN \<equiv> 8"
abbreviation (input) HDRS_LEN :: nat where "HDRS_LEN \<equiv> 50"

text \<open>
  Return codes. XDP and TC verdicts are plain numbers to the kernel, so they are numbers here:
  \<open>XDP_PASS\<close> returned from a TC program means \<open>TC_ACT_SHOT\<close>.
\<close>

definition XDP_DROP :: nat where "XDP_DROP = 1"
definition XDP_PASS :: nat where "XDP_PASS = 2"
definition XDP_TX :: nat where "XDP_TX = 3"
definition TC_ACT_OK :: nat where "TC_ACT_OK = 0"
definition TC_ACT_SHOT :: nat where "TC_ACT_SHOT = 2"

lemmas verdict_defs = XDP_DROP_def XDP_PASS_def XDP_TX_def TC_ACT_OK_def TC_ACT_SHOT_def

lemma xdp_verdicts_distinct [simp]:
  "XDP_DROP \<noteq> XDP_PASS" "XDP_PASS \<noteq> XDP_DROP" "XDP_DROP \<noteq> XDP_TX" "XDP_TX \<noteq> XDP_DROP"
  "XDP_PASS \<noteq> XDP_TX" "XDP_TX \<noteq> XDP_PASS"
  by (simp_all add: verdict_defs)

section \<open>Data\<close>

record bmc_cache_entry =
  ce_len :: u32
  ce_valid :: byte
  ce_hash :: u32
  ce_data :: mem

record bmc_stats =
  get_recv_count :: u32
  set_recv_count :: u32
  get_resp_count :: u32
  hit_misprediction :: u32
  hit_count :: u32
  miss_count :: u32
  update_count :: u32
  invalidation_count :: u32

record memcached_key =
  mk_hash :: u32
  mk_data :: mem
  mk_len :: u32

record parsing_context =
  key_count :: u32
  current_key :: u32
  read_pkt_offset :: u16
  write_pkt_offset :: u16

text \<open>
  The maps of one CPU and the shared cache. \<open>map_kcache\<close> and \<open>map_keys\<close> are arrays: functions
  from the index, which every access checks against the map's size first.
\<close>

record bmc_state =
  st_kcache :: "nat \<Rightarrow> bmc_cache_entry"
  st_keys :: "nat \<Rightarrow> memcached_key"
  st_pctx :: parsing_context
  st_stats :: bmc_stats

datatype bpf_map = map_kcache | map_keys | map_parsing_context | map_stats

fun map_max_entries :: "bpf_map \<Rightarrow> nat" where
  "map_max_entries map_kcache = BMC_CACHE_ENTRY_COUNT"
| "map_max_entries map_keys = BMC_MAX_KEY_IN_PACKET"
| "map_max_entries map_parsing_context = 1"
| "map_max_entries map_stats = 1"

datatype bmc_prog_xdp =
    BMC_PROG_XDP_HASH_KEYS
  | BMC_PROG_XDP_PREPARE_PACKET
  | BMC_PROG_XDP_WRITE_REPLY
  | BMC_PROG_XDP_INVALIDATE_CACHE

datatype bmc_prog_tc = BMC_PROG_TC_UPDATE_CACHE

text \<open>
  A program ends by returning a verdict or by a tail call; the number that follows is the verdict
  the code returns if the kernel refuses the tail call and control falls through.
\<close>

datatype 'p bmc_ret = Return nat | TailCall 'p nat

section \<open>Packets and the kernel's helpers\<close>

text \<open>
  \<open>xdp_md\<close>: the frame's bytes, the lowest address the head may be moved to, and the current
  \<open>data\<close> and \<open>data_end\<close>. \<open>sk_buff\<close>: its linear bytes and its length \<open>skb->len\<close>.
\<close>

record xdp_md =
  pkt_mem :: mem
  pkt_start :: nat
  pkt_data :: nat
  pkt_end :: nat

record sk_buff =
  skb_mem :: mem
  skb_data :: nat
  skb_end :: nat
  skb_len :: nat

record bpf_ops =
  op_lookup :: "bpf_map \<Rightarrow> nat \<Rightarrow> bool"
  op_adjust_head :: "xdp_md \<Rightarrow> int \<Rightarrow> xdp_md option"
  op_adjust_tail :: "xdp_md \<Rightarrow> int \<Rightarrow> xdp_md option"
  op_tail_call_limit :: nat

definition bpf_ops_ok :: "bpf_ops \<Rightarrow> bool" where
  "bpf_ops_ok ops \<longleftrightarrow>
     (\<forall>m i. op_lookup ops m i \<longleftrightarrow> i < map_max_entries m) \<and>
     (\<forall>c d c'. op_adjust_head ops c d = Some c' \<longrightarrow>
        int (pkt_start c) \<le> int (pkt_data c) + d \<and> int (pkt_data c) + d + int ETH_LEN \<le> int (pkt_end c) \<and>
        c' = c\<lparr>pkt_data := nat (int (pkt_data c) + d)\<rparr>) \<and>
     (\<forall>c d. int (pkt_start c) \<le> int (pkt_data c) + d \<and>
        int (pkt_data c) + d + int ETH_LEN \<le> int (pkt_end c) \<longrightarrow> op_adjust_head ops c d \<noteq> None) \<and>
     (\<forall>c d c'. op_adjust_tail ops c d = Some c' \<longrightarrow>
        0 \<le> int (pkt_end c) + d \<and> c' = c\<lparr>pkt_end := nat (int (pkt_end c) + d)\<rparr>) \<and>
     (\<forall>c d. d \<le> 0 \<and> int (pkt_data c) + int ETH_LEN \<le> int (pkt_end c) + d \<longrightarrow>
        op_adjust_tail ops c d \<noteq> None)"

text \<open>The helpers as the Linux sources have them, with the limit of 33 successive tail calls.\<close>

definition ref_ops :: bpf_ops where
  "ref_ops = \<lparr>
     op_lookup = (\<lambda>m i. i < map_max_entries m),
     op_adjust_head = (\<lambda>c d.
       if int (pkt_start c) \<le> int (pkt_data c) + d \<and>
          int (pkt_data c) + d + int ETH_LEN \<le> int (pkt_end c)
       then Some (c\<lparr>pkt_data := nat (int (pkt_data c) + d)\<rparr>) else None),
     op_adjust_tail = (\<lambda>c d.
       if d \<le> 0 \<and> int (pkt_data c) + int ETH_LEN \<le> int (pkt_end c) + d
       then Some (c\<lparr>pkt_end := nat (int (pkt_end c) + d)\<rparr>) else None),
     op_tail_call_limit = 33\<rparr>"

lemma ref_ops_ok: "bpf_ops_ok ref_ops"
  by (auto simp: bpf_ops_ok_def ref_ops_def split: if_splits)

lemma lookup_ok [simp]: "bpf_ops_ok ops \<Longrightarrow> op_lookup ops m i \<longleftrightarrow> i < map_max_entries m"
  by (simp add: bpf_ops_ok_def)

lemma adjust_head_SomeD:
  "bpf_ops_ok ops \<Longrightarrow> op_adjust_head ops c d = Some c' \<Longrightarrow>
   int (pkt_start c) \<le> int (pkt_data c) + d \<and> int (pkt_data c) + d + int ETH_LEN \<le> int (pkt_end c) \<and>
   c' = c\<lparr>pkt_data := nat (int (pkt_data c) + d)\<rparr>"
  unfolding bpf_ops_ok_def by blast

lemma adjust_head_Some:
  assumes "bpf_ops_ok ops" and "int (pkt_start c) \<le> int (pkt_data c) + d"
    and "int (pkt_data c) + d + int ETH_LEN \<le> int (pkt_end c)"
  shows "op_adjust_head ops c d = Some (c\<lparr>pkt_data := nat (int (pkt_data c) + d)\<rparr>)"
proof -
  obtain c' where "op_adjust_head ops c d = Some c'"
    using assms unfolding bpf_ops_ok_def by (meson not_None_eq)
  with adjust_head_SomeD [OF assms(1)] show ?thesis by auto
qed

lemma adjust_tail_SomeD:
  "bpf_ops_ok ops \<Longrightarrow> op_adjust_tail ops c d = Some c' \<Longrightarrow>
   0 \<le> int (pkt_end c) + d \<and> c' = c\<lparr>pkt_end := nat (int (pkt_end c) + d)\<rparr>"
  unfolding bpf_ops_ok_def by blast

lemma adjust_tail_Some:
  assumes "bpf_ops_ok ops" and "d \<le> 0"
    and "int (pkt_data c) + int ETH_LEN \<le> int (pkt_end c) + d"
  shows "op_adjust_tail ops c d = Some (c\<lparr>pkt_end := nat (int (pkt_end c) + d)\<rparr>)"
proof -
  obtain c' where "op_adjust_tail ops c d = Some c'"
    using assms unfolding bpf_ops_ok_def by (meson not_None_eq)
  with adjust_tail_SomeD [OF assms(1)] show ?thesis by auto
qed

section \<open>The FNV-1a hash\<close>

text \<open>
  One round: \<open>hash ^= c; hash *= FNV_PRIME_32\<close>. The operand is a \<open>char\<close>, signed on the targets
  BMC is built for, so it is sign-extended before the exclusive or.
\<close>

definition fnv_step :: "u32 \<Rightarrow> byte \<Rightarrow> u32" where
  "fnv_step h c = (h XOR scast c) * FNV_PRIME_32"

fun fnv1a_hash32 :: "byte list \<Rightarrow> u32 \<Rightarrow> u32" where
  "fnv1a_hash32 [] h = h"
| "fnv1a_hash32 (c # cs) h = fnv1a_hash32 cs (fnv_step h c)"

abbreviation fnv :: "byte list \<Rightarrow> u32" where
  "fnv k \<equiv> fnv1a_hash32 k FNV_OFFSET_BASIS_32"

lemma fnv1a_append [simp]: "fnv1a_hash32 (xs @ ys) h = fnv1a_hash32 ys (fnv1a_hash32 xs h)"
  by (induction xs arbitrary: h) auto

text \<open>The slot of the cache a hash selects.\<close>

definition cache_idx :: "u32 \<Rightarrow> nat" where
  "cache_idx h = unat h mod BMC_CACHE_ENTRY_COUNT"

lemma cache_idx_bound [simp]: "cache_idx h < BMC_CACHE_ENTRY_COUNT"
  by (simp add: cache_idx_def)

lemma cache_idx_bound_num [simp]: "cache_idx h < 3250000"
  using cache_idx_bound by simp

lemmas fnv_eval [eval_simps] = fnv_step_def FNV_OFFSET_BASIS_32_def FNV_PRIME_32_def cache_idx_def

end
