(* ===== verification/Bmc_Xdp.thy ===== *)
theory Bmc_Xdp
  imports Bmc_Common
begin

unbundle bit_operations_syntax

text \<open>
  The receive side of BMC (\<open>bmc/bmc_kern.c\<close>, XDP programs): the receive filter, the key hashing
  program, the program that builds the reply headers, the one that copies cached replies into the
  packet, and the one that invalidates entries on a TCP set. Each is one definition from the state
  of the maps and the packet to their new values and the way the program ends; each loop is a
  recursive function over the loop's own variables. \<open>bmc_run_xdp\<close> is the chain of tail calls.

  A critical section under \<open>bpf_spin_lock\<close> is one update of the entry: every program enters an
  entry's lock at most once per lookup and does nothing else shared while it holds it.
\<close>

abbreviation (input) IPPROTO_TCP :: byte where "IPPROTO_TCP \<equiv> 6"
abbreviation (input) IPPROTO_UDP :: byte where "IPPROTO_UDP \<equiv> 17"

type_synonym xdp_result = "bmc_state \<times> xdp_md \<times> bmc_prog_xdp bmc_ret"

section \<open>The receive filter\<close>

text \<open>The loop that moves the offset past extra spaces after \<open>get\<close>.\<close>

function ws_skip :: "mem \<Rightarrow> nat \<Rightarrow> nat \<Rightarrow> nat \<Rightarrow> nat" where
  "ws_skip m payload data_end off =
     (if off < BMC_MAX_PACKET_LENGTH then
        if payload + off + 1 > data_end then off
        else if m (payload + off) \<noteq> SP then off
        else ws_skip m payload data_end (off + 1)
      else off)"
  by pat_completeness auto
termination
  by (relation "measure (\<lambda>(m, p, e, off). BMC_MAX_PACKET_LENGTH - off)") auto

text \<open>The branch for a GET request over UDP.\<close>

definition rx_get :: "bpf_ops \<Rightarrow> bmc_state \<Rightarrow> xdp_md \<Rightarrow> nat \<Rightarrow> xdp_result" where
  "rx_get ops st ctx payload =
     (if \<not> op_lookup ops map_stats 0 then (st, ctx, Return XDP_PASS)
      else
        let st = st_stats_update (get_recv_count_update (\<lambda>n. n + 1)) st in
        if \<not> op_lookup ops map_parsing_context 0 then (st, ctx, Return XDP_PASS)
        else
          let st = st\<lparr>st_pctx := (st_pctx st)\<lparr>key_count := 0, current_key := 0,
                                              write_pkt_offset := 0\<rparr>\<rparr>;
              off = ws_skip (pkt_mem ctx) payload (pkt_end ctx) 4
          in if off < BMC_MAX_PACKET_LENGTH then
               let st = st_pctx_update (read_pkt_offset_update (\<lambda>_. of_nat off)) st in
               case op_adjust_head ops ctx (int (HDRS_LEN + off)) of
                 None \<Rightarrow> (st, ctx, Return XDP_PASS)
               | Some ctx' \<Rightarrow> (st, ctx', TailCall BMC_PROG_XDP_HASH_KEYS XDP_PASS)
             else (st, ctx, Return XDP_PASS))"

text \<open>The destination port and the start of the payload, or \<open>None\<close> for the early returns.\<close>

definition rx_transport :: "mem \<Rightarrow> nat \<Rightarrow> nat \<Rightarrow> (u16 \<times> nat) option" where
  "rx_transport m data data_end =
     (let ip = data + ETH_LEN; transp = data + ETH_LEN + IP_LEN in
      if ip + IP_LEN > data_end then None
      else if m (ip + 9) = IPPROTO_UDP then
        (if transp + UDP_LEN > data_end then None
         else Some (be16 m (transp + 2), transp + UDP_LEN + MCUDP_LEN))
      else if m (ip + 9) = IPPROTO_TCP then
        (if transp + TCP_LEN > data_end then None
         else Some (be16 m (transp + 2), transp + TCP_LEN))
      else None)"

definition bmc_rx_filter_main :: "bpf_ops \<Rightarrow> bmc_state \<Rightarrow> xdp_md \<Rightarrow> xdp_result" where
  "bmc_rx_filter_main ops st ctx =
     (let m = pkt_mem ctx; protocol = m (pkt_data ctx + ETH_LEN + 9) in
      case rx_transport m (pkt_data ctx) (pkt_end ctx) of
        None \<Rightarrow> (st, ctx, Return XDP_PASS)
      | Some (dport, payload) \<Rightarrow>
          if dport = 11211 \<and> payload + 4 \<le> pkt_end ctx then
            if protocol = IPPROTO_UDP \<and> mem_read m payload 4 = bytes ''get '' then
              rx_get ops st ctx payload
            else if protocol = IPPROTO_TCP then
              (st, ctx, TailCall BMC_PROG_XDP_INVALIDATE_CACHE XDP_PASS)
            else (st, ctx, Return XDP_PASS)
          else (st, ctx, Return XDP_PASS))"

section \<open>Hashing the requested keys\<close>

text \<open>
  The hashing loop: the final offset, whether the end of the request was seen, the key length
  and the hash.
\<close>

function hash_keys_loop ::
  "mem \<Rightarrow> nat \<Rightarrow> nat \<Rightarrow> nat \<Rightarrow> u32 \<Rightarrow> nat \<Rightarrow> nat \<times> bool \<times> nat \<times> u32" where
  "hash_keys_loop m payload data_end off hash key_len =
     (if off < BMC_MAX_KEY_LENGTH + 1 \<and> payload + off + 1 \<le> data_end then
        if m (payload + off) = CR then (off, True, key_len, hash)
        else if m (payload + off) = SP then (off, False, key_len, hash)
        else hash_keys_loop m payload data_end (off + 1) (fnv_step hash (m (payload + off)))
               (key_len + 1)
      else (off, False, key_len, hash))"
  by pat_completeness auto
termination
  by (relation "measure (\<lambda>(m, p, e, off, h, n). BMC_MAX_KEY_LENGTH + 1 - off)") auto

text \<open>The loop that copies the request key into \<open>map_keys\<close>.\<close>

function key_copy_loop :: "mem \<Rightarrow> nat \<Rightarrow> nat \<Rightarrow> nat \<Rightarrow> mem \<Rightarrow> nat \<Rightarrow> mem" where
  "key_copy_loop m payload data_end key_len kd i =
     (if i < key_len \<and> payload + i + 1 \<le> data_end then
        key_copy_loop m payload data_end key_len (kd(i := m (payload + i))) (i + 1)
      else kd)"
  by pat_completeness auto
termination
  by (relation "measure (\<lambda>(m, p, e, n, kd, i). n - i)") auto

text \<open>Moving the head back over the headers and what was read, result ignored.\<close>

definition restore_head :: "bpf_ops \<Rightarrow> bmc_state \<Rightarrow> xdp_md \<Rightarrow> xdp_md" where
  "restore_head ops st ctx =
     (case op_adjust_head ops ctx (- int (HDRS_LEN + unat (read_pkt_offset (st_pctx st)))) of
        None \<Rightarrow> ctx | Some ctx' \<Rightarrow> ctx')"

text \<open>What follows the lookup of the key in the cache.\<close>

definition hash_keys_next ::
  "bpf_ops \<Rightarrow> bmc_state \<Rightarrow> xdp_md \<Rightarrow> nat \<Rightarrow> bool \<Rightarrow> xdp_result" where
  "hash_keys_next ops st ctx off done_parsing =
     (if done_parsing then
        let ctx = restore_head ops st ctx in
        if key_count (st_pctx st) > 0
        then (st, ctx, TailCall BMC_PROG_XDP_PREPARE_PACKET XDP_PASS)
        else (st, ctx, Return XDP_PASS)
      else
        let off = off + 1;
            st = st_pctx_update (read_pkt_offset_update (\<lambda>r. r + of_nat off)) st
        in case op_adjust_head ops ctx (int off) of
             None \<Rightarrow> (st, ctx, Return XDP_PASS)
           | Some ctx' \<Rightarrow> (st, ctx', TailCall BMC_PROG_XDP_HASH_KEYS XDP_PASS))"

definition bmc_hash_keys_main :: "bpf_ops \<Rightarrow> bmc_state \<Rightarrow> xdp_md \<Rightarrow> xdp_result" where
  "bmc_hash_keys_main ops st ctx =
     (let m = pkt_mem ctx; payload = pkt_data ctx; data_end = pkt_end ctx in
      if payload \<ge> data_end then (st, ctx, Return XDP_PASS)
      else if \<not> op_lookup ops map_parsing_context 0 then (st, ctx, Return XDP_PASS)
      else
        let ki = unat (key_count (st_pctx st)) in
        if \<not> op_lookup ops map_keys ki then (st, ctx, Return XDP_PASS)
        else
          let (off, done_parsing, key_len, hash) =
                hash_keys_loop m payload data_end 0 FNV_OFFSET_BASIS_32 0;
              st = st\<lparr>st_keys := (st_keys st)(ki := (st_keys st ki)\<lparr>mk_hash := hash\<rparr>)\<rparr>
          in if key_len = 0 \<or> key_len > BMC_MAX_KEY_LENGTH
             then (st, restore_head ops st ctx, Return XDP_PASS)
             else if \<not> op_lookup ops map_kcache (cache_idx hash) then (st, ctx, Return XDP_PASS)
             else
               let entry = st_kcache st (cache_idx hash) in
               if ce_valid entry \<noteq> 0 \<and> ce_hash entry = hash then
                 let key = st_keys st ki;
                     key = key\<lparr>mk_data := key_copy_loop m payload data_end key_len (mk_data key) 0,
                               mk_len := of_nat key_len\<rparr>;
                     st = st\<lparr>st_keys := (st_keys st)(ki := key)\<rparr>;
                     st = st_pctx_update (key_count_update (\<lambda>n. n + 1)) st
                 in hash_keys_next ops st ctx off done_parsing
               else if \<not> op_lookup ops map_stats 0 then (st, ctx, Return XDP_PASS)
               else hash_keys_next ops (st_stats_update (miss_count_update (\<lambda>n. n + 1)) st)
                      ctx off done_parsing)"

section \<open>Preparing the reply's headers\<close>

text \<open>The exchange of source and destination: \<open>n\<close> bytes at \<open>a\<close> with \<open>n\<close> bytes at \<open>b\<close>.\<close>

definition swap_bytes :: "mem \<Rightarrow> nat \<Rightarrow> nat \<Rightarrow> nat \<Rightarrow> mem" where
  "swap_bytes m a b n = mem_write (mem_write m a (mem_read m b n)) b (mem_read m a n)"

definition bmc_prepare_packet_main :: "bpf_ops \<Rightarrow> bmc_state \<Rightarrow> xdp_md \<Rightarrow> xdp_result" where
  "bmc_prepare_packet_main ops st ctx =
     (case op_adjust_head ops ctx (- int ADJUST_HEAD_LEN) of
        None \<Rightarrow> (st, ctx, Return XDP_PASS)
      | Some ctx \<Rightarrow>
          let eth = pkt_data ctx; ip = eth + ETH_LEN; udp = ip + IP_LEN;
              payload = udp + UDP_LEN + MCUDP_LEN;
              old_data = eth + ADJUST_HEAD_LEN; old_payload = old_data + HDRS_LEN
          in if payload \<ge> pkt_end ctx \<or> old_payload + 1 \<ge> pkt_end ctx
             then (st, ctx, Return XDP_PASS)
             else
               let m = mem_write (pkt_mem ctx) eth (mem_read (pkt_mem ctx) old_data HDRS_LEN);
                   m = swap_bytes m (eth + 6) eth 6;
                   m = swap_bytes m (ip + 12) (ip + 16) 4;
                   m = swap_bytes m udp (udp + 2) 2;
                   ctx = ctx\<lparr>pkt_mem := m\<rparr>
               in case op_adjust_head ops ctx (int HDRS_LEN) of
                    None \<Rightarrow> (st, ctx, Return XDP_PASS)
                  | Some ctx' \<Rightarrow> (st, ctx', TailCall BMC_PROG_XDP_WRITE_REPLY XDP_PASS))"

section \<open>Writing the reply\<close>

text \<open>The header checksum: \<open>ip->check = 0\<close>, ten 16-bit words summed, one fold, complement.\<close>

fun ip_csum_loop :: "mem \<Rightarrow> nat \<Rightarrow> nat \<Rightarrow> u32 \<Rightarrow> u32" where
  "ip_csum_loop m next_ip_u16 0 csum = csum"
| "ip_csum_loop m next_ip_u16 (Suc n) csum =
     ip_csum_loop m (next_ip_u16 + 2) n (csum + ucast (le16 m next_ip_u16))"

definition compute_ip_checksum :: "mem \<Rightarrow> nat \<Rightarrow> mem \<times> u16" where
  "compute_ip_checksum m ip =
     (let m = put_le16 m (ip + 10) 0;
          csum = ip_csum_loop m ip (IP_LEN div 2) 0
      in (m, ucast (NOT ((csum AND 0xffff) + drop_bit 16 csum))))"

text \<open>The comparison of the saved key with the cached one; it clears \<open>cache_hit\<close>, without a break.\<close>

function key_cmp_loop :: "memcached_key \<Rightarrow> bmc_cache_entry \<Rightarrow> nat \<Rightarrow> bool \<Rightarrow> bool" where
  "key_cmp_loop key entry i cache_hit =
     (if i < BMC_MAX_KEY_LENGTH \<and> i < unat (mk_len key) then
        key_cmp_loop key entry (i + 1)
          (if mk_data key i \<noteq> ce_data entry (6 + i) then False else cache_hit)
      else cache_hit)"
  by pat_completeness auto
termination
  by (relation "measure (\<lambda>(k, e, i, h). BMC_MAX_KEY_LENGTH - i)") auto

text \<open>The two copy loops, eight bytes at a time and then byte by byte: memory, \<open>off\<close>, \<open>written\<close>.\<close>

function copy_words ::
  "bmc_cache_entry \<Rightarrow> nat \<Rightarrow> nat \<Rightarrow> mem \<Rightarrow> nat \<Rightarrow> nat \<Rightarrow> mem \<times> nat \<times> nat" where
  "copy_words entry payload data_end m off written =
     (if off + 8 < BMC_MAX_CACHE_DATA_SIZE \<and> off + 8 \<le> unat (ce_len entry) \<and>
         payload + off + 8 \<le> data_end
      then copy_words entry payload data_end
             (mem_write m (payload + off) (mem_read (ce_data entry) off 8)) (off + 8) (written + 8)
      else (m, off, written))"
  by pat_completeness auto
termination
  by (relation "measure (\<lambda>(e, p, d, m, off, w). BMC_MAX_CACHE_DATA_SIZE - off)") auto

function copy_bytes ::
  "bmc_cache_entry \<Rightarrow> nat \<Rightarrow> nat \<Rightarrow> mem \<Rightarrow> nat \<Rightarrow> nat \<Rightarrow> mem \<times> nat" where
  "copy_bytes entry payload data_end m off written =
     (if off < BMC_MAX_CACHE_DATA_SIZE \<and> off < unat (ce_len entry) \<and>
         payload + off + 1 \<le> data_end
      then copy_bytes entry payload data_end (m(payload + off := ce_data entry off)) (off + 1)
             (written + 1)
      else (m, written))"
  by pat_completeness auto
termination
  by (relation "measure (\<lambda>(e, p, d, m, off, w). BMC_MAX_CACHE_DATA_SIZE - off)") auto

text \<open>The section under the entry's lock: the packet's new bytes, \<open>cache_hit\<close> and \<open>written\<close>.\<close>

definition reply_entry ::
  "memcached_key \<Rightarrow> bmc_cache_entry \<Rightarrow> nat \<Rightarrow> nat \<Rightarrow> mem \<Rightarrow> mem \<times> bool \<times> nat" where
  "reply_entry key entry payload data_end m =
     (if ce_valid entry \<noteq> 0 \<and> mk_hash key = ce_hash entry then
        if key_cmp_loop key entry 0 True then
          let (m, off, written) = copy_words entry payload data_end m 0 0;
              (m, written) = copy_bytes entry payload data_end m off written
          in (m, True, written)
        else (m, False, 0)
      else (m, True, 0))"

text \<open>The branch that terminates the reply and sends it.\<close>

definition reply_end :: "bpf_ops \<Rightarrow> bmc_state \<Rightarrow> xdp_md \<Rightarrow> nat \<Rightarrow> xdp_result" where
  "reply_end ops st ctx written =
     (let wpo = unat (write_pkt_offset (st_pctx st)); payload = pkt_data ctx in
      if payload + written + 5 \<le> pkt_end ctx then
        let ctx = ctx\<lparr>pkt_mem := mem_write (pkt_mem ctx) (payload + written) (bytes ''END'' @ [CR, LF])\<rparr>;
            written = written + 5
        in case op_adjust_head ops ctx (- int (HDRS_LEN + wpo)) of
             None \<Rightarrow> (st, ctx, Return XDP_DROP)
           | Some ctx \<Rightarrow>
               let ip = pkt_data ctx + ETH_LEN; udp = ip + IP_LEN;
                   payload = udp + UDP_LEN + MCUDP_LEN
               in if udp + UDP_LEN > pkt_end ctx then (st, ctx, Return XDP_PASS)
                  else
                    let m = put_be16 (pkt_mem ctx) (ip + 2) (of_nat (payload + wpo + written - ip));
                        (m, check) = compute_ip_checksum m ip;
                        m = put_le16 m (ip + 10) check;
                        m = put_be16 m (udp + 6) 0;
                        m = put_be16 m (udp + 4) (of_nat (payload + wpo + written - udp));
                        ctx = ctx\<lparr>pkt_mem := m\<rparr>
                    in case op_adjust_tail ops ctx
                              (- (int (pkt_end ctx) - int (payload + wpo + written))) of
                         None \<Rightarrow> (st, ctx, Return XDP_TX)
                       | Some ctx' \<Rightarrow> (st, ctx', Return XDP_TX)
      else (st, ctx, Return XDP_DROP))"

definition bmc_write_reply_main :: "bpf_ops \<Rightarrow> bmc_state \<Rightarrow> xdp_md \<Rightarrow> xdp_result" where
  "bmc_write_reply_main ops st ctx =
     (let payload = pkt_data ctx; data_end = pkt_end ctx in
      if payload \<ge> data_end then (st, ctx, Return XDP_PASS)
      else if \<not> op_lookup ops map_parsing_context 0 then (st, ctx, Return XDP_PASS)
      else
        let ki = unat (current_key (st_pctx st)) in
        if \<not> op_lookup ops map_keys ki then (st, ctx, Return XDP_PASS)
        else
          let key = st_keys st ki in
          if \<not> op_lookup ops map_kcache (cache_idx (mk_hash key)) then (st, ctx, Return XDP_DROP)
          else
            let (m, cache_hit, written) =
                  reply_entry key (st_kcache st (cache_idx (mk_hash key))) payload data_end
                    (pkt_mem ctx);
                ctx = ctx\<lparr>pkt_mem := m\<rparr>
            in if \<not> op_lookup ops map_stats 0 then (st, ctx, Return XDP_PASS)
               else
                 let st = (if cache_hit then st_stats_update (hit_count_update (\<lambda>n. n + 1)) st
                           else st_stats_update (miss_count_update (\<lambda>n. n + 1)) st);
                     st = st_pctx_update (current_key_update (\<lambda>n. n + 1)) st;
                     pctx = st_pctx st
                 in if current_key pctx = key_count pctx \<and> (write_pkt_offset pctx > 0 \<or> written > 0)
                    then reply_end ops st ctx written
                    else if current_key pctx = key_count pctx then
                      let st = st_stats_update (hit_misprediction_update (\<lambda>n. n + key_count pctx)) st
                      in case op_adjust_head ops ctx (int ADJUST_HEAD_LEN - int HDRS_LEN) of
                           None \<Rightarrow> (st, ctx, Return XDP_PASS)
                         | Some ctx' \<Rightarrow> (st, ctx', Return XDP_PASS)
                    else if unat (current_key pctx) < BMC_MAX_KEY_IN_PACKET then
                      let st = st_pctx_update (write_pkt_offset_update (\<lambda>w. w + of_nat written)) st
                      in case op_adjust_head ops ctx (int written) of
                           None \<Rightarrow> (st, ctx, Return XDP_DROP)
                         | Some ctx' \<Rightarrow> (st, ctx', TailCall BMC_PROG_XDP_WRITE_REPLY XDP_DROP)
                    else (st, ctx, Return XDP_DROP))"

section \<open>Invalidation\<close>

text \<open>
  The scan of a TCP payload. The early return on a failed lookup and the end of the loop return the
  same verdict, so the loop yields the state. \<open>hash\<close> is meaningful only while \<open>key_found\<close>.
\<close>

function invalidate_loop ::
  "bpf_ops \<Rightarrow> mem \<Rightarrow> nat \<Rightarrow> nat \<Rightarrow> nat \<Rightarrow> bool \<Rightarrow> bool \<Rightarrow> u32 \<Rightarrow> bmc_state \<Rightarrow> bmc_state" where
  "invalidate_loop ops m payload data_end off set_found key_found hash st =
     (if off < BMC_MAX_PACKET_LENGTH \<and> payload + off + 1 \<le> data_end then
        if \<not> set_found \<and> m (payload + off) = of_char (CHR ''s'') \<and> payload + off + 3 \<le> data_end \<and>
           m (payload + off + 1) = of_char (CHR ''e'') \<and> m (payload + off + 2) = of_char (CHR ''t'')
        then invalidate_loop ops m payload data_end (off + 3 + 1) True key_found hash
               (st_stats_update (set_recv_count_update (\<lambda>n. n + 1)) st)
        else if \<not> key_found \<and> set_found \<and> m (payload + off) \<noteq> SP then
          if m (payload + off) = CR
          then invalidate_loop ops m payload data_end (off + 1) False False hash st
          else invalidate_loop ops m payload data_end (off + 1) set_found True
                 (fnv_step FNV_OFFSET_BASIS_32 (m (payload + off))) st
        else if key_found then
          if m (payload + off) = SP then
            if \<not> op_lookup ops map_kcache (cache_idx hash) then st
            else
              let entry = st_kcache st (cache_idx hash);
                  st = (if ce_valid entry \<noteq> 0 then
                          st_stats_update (invalidation_count_update (\<lambda>n. n + 1))
                            (st\<lparr>st_kcache := (st_kcache st)(cache_idx hash := entry\<lparr>ce_valid := 0\<rparr>)\<rparr>)
                        else st)
              in invalidate_loop ops m payload data_end (off + 1) False False hash st
          else invalidate_loop ops m payload data_end (off + 1) set_found key_found
                 (fnv_step hash (m (payload + off))) st
        else invalidate_loop ops m payload data_end (off + 1) set_found key_found hash st
      else st)"
  by pat_completeness auto
termination
  by (relation "measure (\<lambda>(ops, m, p, e, off, s, k, h, st). BMC_MAX_PACKET_LENGTH - off)") auto

definition bmc_invalidate_cache_main :: "bpf_ops \<Rightarrow> bmc_state \<Rightarrow> xdp_md \<Rightarrow> xdp_result" where
  "bmc_invalidate_cache_main ops st ctx =
     (let payload = pkt_data ctx + ETH_LEN + IP_LEN + TCP_LEN in
      if payload \<ge> pkt_end ctx then (st, ctx, Return XDP_PASS)
      else if \<not> op_lookup ops map_stats 0 then (st, ctx, Return XDP_PASS)
      else (invalidate_loop ops (pkt_mem ctx) payload (pkt_end ctx) 0 False False 0 st, ctx,
            Return XDP_PASS))"

section \<open>The chain of tail calls\<close>

fun xdp_prog :: "bmc_prog_xdp \<Rightarrow> bpf_ops \<Rightarrow> bmc_state \<Rightarrow> xdp_md \<Rightarrow> xdp_result" where
  "xdp_prog BMC_PROG_XDP_HASH_KEYS = bmc_hash_keys_main"
| "xdp_prog BMC_PROG_XDP_PREPARE_PACKET = bmc_prepare_packet_main"
| "xdp_prog BMC_PROG_XDP_WRITE_REPLY = bmc_write_reply_main"
| "xdp_prog BMC_PROG_XDP_INVALIDATE_CACHE = bmc_invalidate_cache_main"

fun xdp_tail_calls :: "bpf_ops \<Rightarrow> nat \<Rightarrow> xdp_result \<Rightarrow> bmc_state \<times> xdp_md \<times> nat" where
  "xdp_tail_calls ops n (st, ctx, Return v) = (st, ctx, v)"
| "xdp_tail_calls ops 0 (st, ctx, TailCall p v) = (st, ctx, v)"
| "xdp_tail_calls ops (Suc n) (st, ctx, TailCall p v) =
     xdp_tail_calls ops n (xdp_prog p ops st ctx)"

text \<open>The program attached to the interface, with the tail calls the kernel allows.\<close>

definition bmc_run_xdp :: "bpf_ops \<Rightarrow> bmc_state \<Rightarrow> xdp_md \<Rightarrow> bmc_state \<times> xdp_md \<times> nat" where
  "bmc_run_xdp ops st ctx =
     xdp_tail_calls ops (op_tail_call_limit ops) (bmc_rx_filter_main ops st ctx)"

declare ws_skip.simps [simp del] hash_keys_loop.simps [simp del] key_copy_loop.simps [simp del]
  key_cmp_loop.simps [simp del] copy_words.simps [simp del] copy_bytes.simps [simp del]
  invalidate_loop.simps [simp del]

lemmas xdp_loops = ws_skip.simps hash_keys_loop.simps key_copy_loop.simps key_cmp_loop.simps
  copy_words.simps copy_bytes.simps invalidate_loop.simps

lemmas xdp_prog_defs = bmc_rx_filter_main_def rx_get_def rx_transport_def bmc_hash_keys_main_def
  hash_keys_next_def restore_head_def bmc_prepare_packet_main_def bmc_write_reply_main_def
  reply_entry_def reply_end_def bmc_invalidate_cache_main_def

end
