(* ===== verification/Bmc_Tc.thy ===== *)
theory Bmc_Tc
  imports Bmc_Common
begin

unbundle bit_operations_syntax

text \<open>
  The transmit side of BMC (\<open>bmc/bmc_kern.c\<close>, TC programs): the filter that recognises GET
  replies and the program that stores them in the cache.
\<close>

type_synonym tc_result = "bmc_state \<times> bmc_prog_tc bmc_ret"

section \<open>The transmit filter\<close>

definition bmc_tx_filter_main :: "bpf_ops \<Rightarrow> bmc_state \<Rightarrow> sk_buff \<Rightarrow> tc_result" where
  "bmc_tx_filter_main ops st skb =
     (let m = skb_mem skb; data = skb_data skb; data_end = skb_end skb;
          ip = data + ETH_LEN; udp = ip + IP_LEN; payload = udp + UDP_LEN + MCUDP_LEN
      in if skb_len skb > BMC_MAX_CACHE_DATA_SIZE + HDRS_LEN then (st, Return TC_ACT_OK)
         else if ip + IP_LEN > data_end then (st, Return XDP_PASS)
         else if m (ip + 9) \<noteq> 17 then (st, Return TC_ACT_OK)
         else if udp + UDP_LEN > data_end then (st, Return TC_ACT_OK)
         else if be16 m udp = 11211 \<and> payload + 5 + 1 \<le> data_end \<and>
                 mem_read m payload 6 = bytes ''VALUE '' then
           if \<not> op_lookup ops map_stats 0 then (st, Return XDP_PASS)
           else (st_stats_update (get_resp_count_update (\<lambda>n. n + 1)) st,
                 TailCall BMC_PROG_TC_UPDATE_CACHE TC_ACT_OK)
         else (st, Return TC_ACT_OK))"

section \<open>Updating the cache\<close>

text \<open>The hash of the key that follows \<open>VALUE \<close>.\<close>

function update_hash_loop :: "mem \<Rightarrow> nat \<Rightarrow> nat \<Rightarrow> nat \<Rightarrow> u32 \<Rightarrow> u32" where
  "update_hash_loop m payload data_end off hash =
     (if off - 6 < BMC_MAX_KEY_LENGTH \<and> payload + off + 1 \<le> data_end \<and> m (payload + off) \<noteq> SP
      then update_hash_loop m payload data_end (off + 1) (fnv_step hash (m (payload + off)))
      else hash)"
  by pat_completeness auto
termination
  by (relation "measure (\<lambda>(m, p, e, off, h). BMC_MAX_KEY_LENGTH + 6 - off)") auto

text \<open>Whether the entry already holds this key: the result is \<open>diff\<close>.\<close>

function update_diff_loop :: "mem \<Rightarrow> nat \<Rightarrow> nat \<Rightarrow> bmc_cache_entry \<Rightarrow> nat \<Rightarrow> bool" where
  "update_diff_loop m payload data_end entry off =
     (if off - 6 < BMC_MAX_KEY_LENGTH \<and> payload + off + 1 \<le> data_end \<and>
         off < unat (ce_len entry) \<and> (m (payload + off) \<noteq> SP \<or> ce_data entry off \<noteq> SP)
      then if ce_data entry off \<noteq> m (payload + off) then True
           else update_diff_loop m payload data_end entry (off + 1)
      else False)"
  by pat_completeness auto
termination
  by (relation "measure (\<lambda>(m, p, e, en, off). BMC_MAX_KEY_LENGTH + 6 - off)") auto

text \<open>The copy of the reply up to its second newline: the entry and \<open>count\<close>.\<close>

function update_copy_loop ::
  "mem \<Rightarrow> nat \<Rightarrow> nat \<Rightarrow> bmc_cache_entry \<Rightarrow> nat \<Rightarrow> nat \<Rightarrow> bmc_cache_entry \<times> nat" where
  "update_copy_loop m payload data_end entry j count =
     (if j < BMC_MAX_CACHE_DATA_SIZE \<and> payload + j + 1 \<le> data_end \<and> count < 2 then
        update_copy_loop m payload data_end
          (entry\<lparr>ce_data := (ce_data entry)(j := m (payload + j)), ce_len := ce_len entry + 1\<rparr>)
          (j + 1) (if m (payload + j) = LF then count + 1 else count)
      else (entry, count))"
  by pat_completeness auto
termination
  by (relation "measure (\<lambda>(m, p, e, en, j, c). BMC_MAX_CACHE_DATA_SIZE - j)") auto

definition bmc_update_cache_main :: "bpf_ops \<Rightarrow> bmc_state \<Rightarrow> sk_buff \<Rightarrow> tc_result" where
  "bmc_update_cache_main ops st skb =
     (let m = skb_mem skb; data_end = skb_end skb; payload = skb_data skb + HDRS_LEN;
          hash = update_hash_loop m payload data_end 6 FNV_OFFSET_BASIS_32;
          idx = cache_idx hash
      in if \<not> op_lookup ops map_kcache idx then (st, Return TC_ACT_OK)
         else
           let entry = st_kcache st idx in
           if ce_valid entry \<noteq> 0 \<and> ce_hash entry = hash \<and>
              \<not> update_diff_loop m payload data_end entry 6
           then (st, Return TC_ACT_OK)
           else
             let (entry, count) =
                   update_copy_loop m payload data_end (entry\<lparr>ce_len := 0\<rparr>) 0 0
             in if count = 2 then
                  let st = st\<lparr>st_kcache := (st_kcache st)(idx := entry\<lparr>ce_valid := 1, ce_hash := hash\<rparr>)\<rparr>
                  in if \<not> op_lookup ops map_stats 0 then (st, Return XDP_PASS)
                     else (st_stats_update (update_count_update (\<lambda>n. n + 1)) st, Return TC_ACT_OK)
                else (st\<lparr>st_kcache := (st_kcache st)(idx := entry)\<rparr>, Return TC_ACT_OK))"

section \<open>The chain of tail calls\<close>

fun tc_tail_calls :: "bpf_ops \<Rightarrow> sk_buff \<Rightarrow> tc_result \<Rightarrow> bmc_state \<times> nat" where
  "tc_tail_calls ops skb (st, Return v) = (st, v)"
| "tc_tail_calls ops skb (st, TailCall BMC_PROG_TC_UPDATE_CACHE v) =
     (if op_tail_call_limit ops = 0 then (st, v)
      else case bmc_update_cache_main ops st skb of
             (st', Return v') \<Rightarrow> (st', v')
           | (st', TailCall p v') \<Rightarrow> (st', v'))"

definition bmc_run_tc :: "bpf_ops \<Rightarrow> bmc_state \<Rightarrow> sk_buff \<Rightarrow> bmc_state \<times> nat" where
  "bmc_run_tc ops st skb = tc_tail_calls ops skb (bmc_tx_filter_main ops st skb)"

declare update_hash_loop.simps [simp del] update_diff_loop.simps [simp del]
  update_copy_loop.simps [simp del]

lemmas tc_loops = update_hash_loop.simps update_diff_loop.simps update_copy_loop.simps

end
