(* ===== verification/Bmc_Loops.thy ===== *)
theory Bmc_Loops
  imports Bmc_Xdp Bmc_Tc
begin

unbundle bit_operations_syntax

text \<open>
  What each loop of BMC computes, as list functions of the bytes it can see. \<open>avail lim p off e\<close> is
  the number of iterations a loop \<open>for (; off < lim && p + off + 1 <= e; off++)\<close> has left.
\<close>

definition avail :: "nat \<Rightarrow> nat \<Rightarrow> nat \<Rightarrow> nat \<Rightarrow> nat" where
  "avail lim p off e = min (lim - off) (e - (p + off))"

lemma avail_step: "off < lim \<Longrightarrow> p + off + 1 \<le> e \<Longrightarrow> avail lim p off e = Suc (avail lim p (off + 1) e)"
  by (auto simp: avail_def min_def)

lemma avail_stop: "\<not> (off < lim \<and> p + off + 1 \<le> e) \<Longrightarrow> avail lim p off e = 0"
  by (auto simp: avail_def min_def)

lemma mem_read_avail_step:
  "off < lim \<Longrightarrow> p + off + 1 \<le> e \<Longrightarrow>
   mem_read m (p + off) (avail lim p off e) =
   m (p + off) # mem_read m (p + (off + 1)) (avail lim p (off + 1) e)"
  by (simp add: avail_step mem_read_Suc)

lemma avail_0: "avail lim p 0 e = min lim (e - p)"
  by (simp add: avail_def)

section \<open>The receive side\<close>

definition key_char :: "byte \<Rightarrow> bool" where
  "key_char b \<longleftrightarrow> b \<noteq> CR \<and> b \<noteq> SP"

lemma hash_keys_loop_eq:
  "hash_keys_loop m p e off h n =
     (let bs = mem_read m (p + off) (avail (BMC_MAX_KEY_LENGTH + 1) p off e);
          k = takeWhile key_char bs
      in (off + length k, length k < length bs \<and> bs ! length k = CR, n + length k,
          fnv1a_hash32 k h))"
proof (induction m p e off h n rule: hash_keys_loop.induct)
  case (1 m p e off h n)
  show ?case
  proof (cases "off < BMC_MAX_KEY_LENGTH + 1 \<and> p + off + 1 \<le> e")
    case True
    then have read: "mem_read m (p + off) (avail (BMC_MAX_KEY_LENGTH + 1) p off e) =
        m (p + off) # mem_read m (p + (off + 1)) (avail (BMC_MAX_KEY_LENGTH + 1) p (off + 1) e)"
      by (intro mem_read_avail_step) auto
    show ?thesis
    proof (cases "key_char (m (p + off))")
      case kc: True
      then have "m (p + off) \<noteq> CR" "m (p + off) \<noteq> SP" by (auto simp: key_char_def)
      with "1.IH" [OF True] True kc show ?thesis
        unfolding hash_keys_loop.simps [of m p e off h n] read by (simp add: Let_def)
    next
      case False
      with True show ?thesis
        unfolding hash_keys_loop.simps [of m p e off h n] read by (auto simp: key_char_def)
    qed
  next
    case False
    then show ?thesis
      unfolding hash_keys_loop.simps [of m p e off h n] avail_stop [OF False] by auto
  qed
qed

lemma key_copy_loop_eq:
  "key_copy_loop m p e n kd i =
   (\<lambda>j. if i \<le> j \<and> j < n \<and> p + j + 1 \<le> e then m (p + j) else kd j)"
proof (induction "n - i" arbitrary: i kd)
  case 0
  then show ?case by (auto simp: key_copy_loop.simps [of m p e n kd i] fun_eq_iff)
next
  case (Suc d)
  then have d: "d = n - (i + 1)" by linarith
  show ?case
  proof (cases "i < n \<and> p + i + 1 \<le> e")
    case True
    show ?thesis
      unfolding key_copy_loop.simps [of m p e n kd i] if_P [OF True] Suc.hyps(1) [OF d]
      using True by (auto simp: fun_eq_iff)
  next
    case False
    then show ?thesis
      unfolding key_copy_loop.simps [of m p e n kd i] by (auto simp: fun_eq_iff)
  qed
qed

lemma key_cmp_loop_eq:
  "key_cmp_loop k en i hit \<longleftrightarrow>
   hit \<and> (\<forall>j. i \<le> j \<and> j < BMC_MAX_KEY_LENGTH \<and> j < unat (mk_len k) \<longrightarrow>
            mk_data k j = ce_data en (6 + j))"
proof (induction k en i hit rule: key_cmp_loop.induct)
  case (1 k en i hit)
  show ?case
  proof (cases "i < BMC_MAX_KEY_LENGTH \<and> i < unat (mk_len k)")
    case True
    have split: "(\<forall>j. i \<le> j \<and> Q j \<longrightarrow> P j) \<longleftrightarrow> (Q i \<longrightarrow> P i) \<and> (\<forall>j. i + 1 \<le> j \<and> Q j \<longrightarrow> P j)" for P Q
      by (metis Suc_eq_plus1 le_antisym not_less_eq_eq le_refl Suc_leD)
    show ?thesis
      unfolding key_cmp_loop.simps [of k en i hit] if_P [OF True] "1.IH" [OF True] split
      using True by auto
  next
    case False
    then show ?thesis
      unfolding key_cmp_loop.simps [of k en i hit] by auto
  qed
qed

text \<open>How many bytes of an entry the two copy loops put into the packet.\<close>

definition reply_len :: "bmc_cache_entry \<Rightarrow> nat \<Rightarrow> nat \<Rightarrow> nat" where
  "reply_len en p e = min BMC_MAX_CACHE_DATA_SIZE (min (unat (ce_len en)) (e - p))"

lemma copy_words_eq:
  assumes "off \<le> reply_len en p e"
  shows "\<exists>n. off + n \<le> reply_len en p e \<and>
    copy_words en p e m off w = (mem_write m (p + off) (mem_read (ce_data en) off n), off + n, w + n)"
  using assms
proof (induction en p e m off w rule: copy_words.induct)
  case (1 en p e m off w)
  let ?g = "off + 8 < BMC_MAX_CACHE_DATA_SIZE \<and> off + 8 \<le> unat (ce_len en) \<and> p + off + 8 \<le> e"
  show ?case
  proof (cases ?g)
    case True
    then have "off + 8 \<le> reply_len en p e" by (auto simp: reply_len_def)
    from "1.IH" [OF True this] obtain n where
      n: "off + 8 + n \<le> reply_len en p e" "copy_words en p e
          (mem_write m (p + off) (mem_read (ce_data en) off 8)) (off + 8) (w + 8) =
         (mem_write (mem_write m (p + off) (mem_read (ce_data en) off 8)) (p + (off + 8))
            (mem_read (ce_data en) (off + 8) n), off + 8 + n, w + 8 + n)"
      by blast
    have "mem_write (mem_write m (p + off) (mem_read (ce_data en) off 8)) (p + (off + 8))
            (mem_read (ce_data en) (off + 8) n) =
          mem_write m (p + off) (mem_read (ce_data en) off (8 + n))"
      using mem_write_append [of m "p + off" "mem_read (ce_data en) off 8"]
      by (simp add: mem_read_add add.assoc)
    with n True show ?thesis
      by (intro exI [of _ "8 + n"]) (simp add: copy_words.simps [of en p e m off w] add.assoc)
  next
    case False
    then show ?thesis
      using "1.prems" by (intro exI [of _ 0]) (auto simp: copy_words.simps [of en p e m off w])
  qed
qed

lemma copy_bytes_eq:
  assumes "off \<le> reply_len en p e"
  shows "copy_bytes en p e m off w =
    (mem_write m (p + off) (mem_read (ce_data en) off (reply_len en p e - off)),
     w + (reply_len en p e - off))"
  using assms
proof (induction en p e m off w rule: copy_bytes.induct)
  case (1 en p e m off w)
  let ?g = "off < BMC_MAX_CACHE_DATA_SIZE \<and> off < unat (ce_len en) \<and> p + off + 1 \<le> e"
  show ?case
  proof (cases ?g)
    case True
    then have le: "off + 1 \<le> reply_len en p e" by (auto simp: reply_len_def)
    then have n: "reply_len en p e - off = Suc (reply_len en p e - (off + 1))" by linarith
    show ?thesis
      unfolding copy_bytes.simps [of en p e m off w] n mem_read_Suc mem_write_Cons
      using True "1.IH" [OF True le] by (simp add: fun_upd_def)
  next
    case False
    with "1.prems" have "reply_len en p e = off" by (auto simp: reply_len_def)
    with False show ?thesis by (auto simp: copy_bytes.simps [of en p e m off w])
  qed
qed

lemma reply_entry_hit:
  assumes "ce_valid en \<noteq> 0" and "mk_hash k = ce_hash en" and "key_cmp_loop k en 0 True"
  shows "reply_entry k en p e m =
    (mem_write m p (mem_read (ce_data en) 0 (reply_len en p e)), True, reply_len en p e)"
proof -
  obtain n where n: "n \<le> reply_len en p e"
    "copy_words en p e m 0 0 = (mem_write m p (mem_read (ce_data en) 0 n), n, n)"
    using copy_words_eq [of 0 en p e m 0] by auto
  have "mem_write (mem_write m p (mem_read (ce_data en) 0 n)) (p + n)
      (mem_read (ce_data en) n (reply_len en p e - n)) =
      mem_write m p (mem_read (ce_data en) 0 (reply_len en p e))"
    using mem_write_append [of m p "mem_read (ce_data en) 0 n"] n(1)
      mem_read_add [of "ce_data en" 0 n "reply_len en p e - n"] by simp
  with assms n show ?thesis
    by (simp add: reply_entry_def copy_bytes_eq)
qed

section \<open>The transmit side\<close>

lemma update_hash_loop_eq:
  "6 \<le> off \<Longrightarrow> update_hash_loop m p e off h =
     fnv1a_hash32 (takeWhile (\<lambda>b. b \<noteq> SP) (mem_read m (p + off) (avail 256 p off e))) h"
proof (induction m p e off h rule: update_hash_loop.induct)
  case (1 m p e off h)
  have lim: "off - 6 < BMC_MAX_KEY_LENGTH \<longleftrightarrow> off < 256" using "1.prems" by auto
  show ?case
  proof (cases "off < 256 \<and> p + off + 1 \<le> e")
    case True
    then have read: "mem_read m (p + off) (avail 256 p off e) =
        m (p + off) # mem_read m (p + (off + 1)) (avail 256 p (off + 1) e)"
      by (intro mem_read_avail_step) auto
    show ?thesis
      unfolding update_hash_loop.simps [of m p e off h] read lim
      using "1.IH" "1.prems" True lim by auto
  next
    case False
    then show ?thesis
      unfolding update_hash_loop.simps [of m p e off h] lim avail_stop [OF False] by auto
  qed
qed

text \<open>The part of a byte list up to and including its \<open>n\<close>-th newline.\<close>

fun upto_lf :: "nat \<Rightarrow> byte list \<Rightarrow> byte list" where
  "upto_lf 0 bs = []"
| "upto_lf (Suc n) [] = []"
| "upto_lf (Suc n) (b # bs) = b # upto_lf (if b = LF then n else Suc n) bs"

lemma length_upto_lf: "length (upto_lf n bs) \<le> length bs"
  by (induction n bs rule: upto_lf.induct) auto

lemma upto_lf_take: "upto_lf n bs = take (length (upto_lf n bs)) bs"
  by (induction n bs rule: upto_lf.induct) auto

lemma count_upto_lf: "count_list (upto_lf n bs) LF \<le> n"
  by (induction n bs rule: upto_lf.induct) auto

lemma upto_lf_no_lf_append: "LF \<notin> set xs \<Longrightarrow> upto_lf (Suc n) (xs @ ys) = xs @ upto_lf (Suc n) ys"
  by (induction xs) auto

lemma update_copy_loop_eq:
  assumes "count \<le> 2"
  shows "update_copy_loop m p e en j count =
     (let r = upto_lf (2 - count) (mem_read m (p + j) (avail BMC_MAX_CACHE_DATA_SIZE p j e))
      in (en\<lparr>ce_data := mem_write (ce_data en) j r, ce_len := ce_len en + of_nat (length r)\<rparr>,
          count + count_list r LF))"
  using assms
proof (induction m p e en j count rule: update_copy_loop.induct)
  case (1 m p e en j count)
  show ?case
  proof (cases "j < BMC_MAX_CACHE_DATA_SIZE \<and> p + j + 1 \<le> e \<and> count < 2")
    case True
    then have read: "mem_read m (p + j) (avail BMC_MAX_CACHE_DATA_SIZE p j e) =
        m (p + j) # mem_read m (p + (j + 1)) (avail BMC_MAX_CACHE_DATA_SIZE p (j + 1) e)"
      by (intro mem_read_avail_step) auto
    from True have n: "2 - count = Suc (1 - count)" by linarith
    from True have n': "2 - (count + 1) = 1 - count" by linarith
    show ?thesis
    proof (cases "m (p + j) = LF")
      case lf: True
      with True have "count + 1 \<le> 2" by simp
      with "1.IH" [OF True] True show ?thesis
        unfolding update_copy_loop.simps [of m p e en j count] read n lf
        by (simp add: n' Let_def mem_write_Cons algebra_simps fun_upd_def)
    next
      case nlf: False
      from True have "count \<le> 2" by simp
      with "1.IH" [OF True] True nlf n show ?thesis
        unfolding update_copy_loop.simps [of m p e en j count] read
        by (simp add: Let_def mem_write_Cons algebra_simps fun_upd_def)
    qed
  next
    case False
    show ?thesis
    proof (cases "count = 2")
      case True
      then show ?thesis by (simp add: update_copy_loop.simps [of m p e en j 2])
    next
      case neq: False
      with False "1.prems" have "\<not> (j < BMC_MAX_CACHE_DATA_SIZE \<and> p + j + 1 \<le> e)" by auto
      from avail_stop [OF this] False "1.prems" neq show ?thesis
        unfolding update_copy_loop.simps [of m p e en j count]
        by (cases "2 - count") auto
    qed
  qed
qed

end
