(* ===== verification/Bmc_Get.thy ===== *)
theory Bmc_Get
  imports Bmc_Loops
begin

unbundle bit_operations_syntax

text \<open>
  What each receive program does on a GET request, program by program: the receive filter accepts
  it, the key is hashed and saved, the headers are prepared, the cached reply is copied. The
  lemmas are equations for one program each; the theorems about whole runs compose them.
\<close>

section \<open>Requests and cached replies\<close>

text \<open>A UDP datagram to port 11211 whose memcached payload is \<open>get\<close>, a space and \<open>req\<close>.\<close>

definition get_request :: "xdp_md \<Rightarrow> byte list \<Rightarrow> bool" where
  "get_request ctx req \<longleftrightarrow>
     pkt_data ctx + HDRS_LEN + 4 + length req \<le> pkt_end ctx \<and>
     pkt_mem ctx (pkt_data ctx + ETH_LEN + 9) = IPPROTO_UDP \<and>
     be16 (pkt_mem ctx) (pkt_data ctx + ETH_LEN + IP_LEN + 2) = 11211 \<and>
     mem_read (pkt_mem ctx) (pkt_data ctx + HDRS_LEN) (4 + length req) = bytes ''get '' @ req"

text \<open>A key BMC can cache.\<close>

definition wf_key :: "byte list \<Rightarrow> bool" where
  "wf_key k \<longleftrightarrow> k \<noteq> [] \<and> length k \<le> BMC_MAX_KEY_LENGTH \<and> list_all key_char k"

text \<open>
  The entry is valid, carries the hash of \<open>k\<close> and holds the bytes \<open>r\<close>, in which \<open>k\<close> stands after
  the six bytes of \<open>VALUE\<close> and a space.
\<close>

definition entry_holds :: "bmc_cache_entry \<Rightarrow> byte list \<Rightarrow> byte list \<Rightarrow> bool" where
  "entry_holds en k r \<longleftrightarrow>
     ce_valid en \<noteq> 0 \<and> ce_hash en = fnv k \<and> length r \<le> BMC_MAX_CACHE_DATA_SIZE \<and>
     unat (ce_len en) = length r \<and> mem_read (ce_data en) 0 (length r) = r \<and>
     6 + length k \<le> length r \<and> take (length k) (drop 6 r) = k"

text \<open>A saved request key.\<close>

definition key_saved :: "memcached_key \<Rightarrow> byte list \<Rightarrow> bool" where
  "key_saved key k \<longleftrightarrow>
     mk_hash key = fnv k \<and> unat (mk_len key) = length k \<and> mem_read (mk_data key) 0 (length k) = k"

lemma unat_of_nat_key: "n \<le> 250 \<Longrightarrow> unat (of_nat n :: u32) = n"
  by (simp add: unat_of_nat take_bit_eq_mod)

lemma unat_of_nat_u16: "n < 65536 \<Longrightarrow> unat (of_nat n :: u16) = n"
  by (simp add: unat_of_nat take_bit_eq_mod)

section \<open>Moving the head by a known distance\<close>

lemma adjust_head_fwd:
  assumes "bpf_ops_ok ops" and "pkt_start c \<le> pkt_data c + n"
    and "pkt_data c + n + ETH_LEN \<le> pkt_end c"
  shows "op_adjust_head ops c (int n) = Some (c\<lparr>pkt_data := pkt_data c + n\<rparr>)"
  using assms by (subst adjust_head_Some [OF assms(1)]) (auto simp: nat_add_distrib)

lemma adjust_head_back:
  assumes "bpf_ops_ok ops" and "pkt_start c + n \<le> pkt_data c"
    and "pkt_data c + ETH_LEN \<le> pkt_end c + n"
  shows "op_adjust_head ops c (- int n) = Some (c\<lparr>pkt_data := pkt_data c - n\<rparr>)"
proof -
  have "nat (int (pkt_data c) + - int n) = pkt_data c - n" using assms(2) by simp
  then show ?thesis using assms by (subst adjust_head_Some [OF assms(1)]) auto
qed

lemma restore_head_eq:
  assumes "bpf_ops_ok ops" and "n = HDRS_LEN + unat (read_pkt_offset (st_pctx st))"
    and "pkt_start ctx + n \<le> pkt_data ctx" and "pkt_data ctx \<le> pkt_end ctx"
  shows "restore_head ops st ctx = ctx\<lparr>pkt_data := pkt_data ctx - n\<rparr>"
proof -
  have "pkt_data ctx + ETH_LEN \<le> pkt_end ctx + n" using assms(2,4) by simp
  from adjust_head_back [OF assms(1,3) this] show ?thesis
    unfolding restore_head_def assms(2) [symmetric] by simp
qed

section \<open>The receive filter\<close>

definition rx_state :: "bmc_state \<Rightarrow> nat \<Rightarrow> bmc_state" where
  "rx_state st off =
     (st_stats_update (get_recv_count_update (\<lambda>n. n + 1)) st)
       \<lparr>st_pctx := \<lparr>key_count = 0, current_key = 0, read_pkt_offset = of_nat off,
                   write_pkt_offset = 0\<rparr>\<rparr>"

lemma ws_skip_stop: "m (p + off) \<noteq> SP \<Longrightarrow> ws_skip m p e off = off"
  by (simp add: ws_skip.simps [of m p e off])

lemma get_request_read:
  assumes "get_request ctx req"
  shows "mem_read (pkt_mem ctx) (pkt_data ctx + HDRS_LEN) 4 = bytes ''get ''"
    and "mem_read (pkt_mem ctx) (pkt_data ctx + HDRS_LEN + 4) (length req) = req"
proof -
  have "length (bytes ''get '') = 4" by simp
  then have "mem_read (pkt_mem ctx) (pkt_data ctx + HDRS_LEN) (length (bytes ''get '') + length req) =
      bytes ''get '' @ req"
    using assms unfolding get_request_def by (simp only:)
  then show "mem_read (pkt_mem ctx) (pkt_data ctx + HDRS_LEN) 4 = bytes ''get ''"
    and "mem_read (pkt_mem ctx) (pkt_data ctx + HDRS_LEN + 4) (length req) = req"
    unfolding mem_read_append_iff by (simp_all add: eval_nat_numeral)
qed

lemma rx_filter_get:
  assumes ops: "bpf_ops_ok ops" and req: "get_request ctx (c # req)" and c: "c \<noteq> SP"
    and room: "pkt_start ctx \<le> pkt_data ctx" "pkt_data ctx + HDRS_LEN + 4 + ETH_LEN \<le> pkt_end ctx"
  shows "bmc_rx_filter_main ops st ctx =
    (rx_state st 4, ctx\<lparr>pkt_data := pkt_data ctx + HDRS_LEN + 4\<rparr>,
     TailCall BMC_PROG_XDP_HASH_KEYS XDP_PASS)"
proof -
  note rd = get_request_read [OF req]
  have "pkt_mem ctx (pkt_data ctx + HDRS_LEN + 4 + 0) = (c # req) ! 0"
    by (rule mem_read_eqD [OF rd(2)]) simp
  then have skip: "ws_skip (pkt_mem ctx) (pkt_data ctx + HDRS_LEN) (pkt_end ctx) 4 = 4"
    using c by (intro ws_skip_stop) simp
  have "rx_transport (pkt_mem ctx) (pkt_data ctx) (pkt_end ctx) =
      Some (11211, pkt_data ctx + HDRS_LEN)"
    using req by (simp add: rx_transport_def get_request_def Let_def)
  then have "bmc_rx_filter_main ops st ctx = rx_get ops st ctx (pkt_data ctx + HDRS_LEN)"
    using req rd(1) by (simp add: bmc_rx_filter_main_def get_request_def)
  also have "\<dots> = (rx_state st 4, ctx\<lparr>pkt_data := pkt_data ctx + HDRS_LEN + 4\<rparr>,
     TailCall BMC_PROG_XDP_HASH_KEYS XDP_PASS)"
    using ops room adjust_head_Some [OF ops, of ctx "int (HDRS_LEN + 4)"]
    by (simp add: rx_get_def skip rx_state_def Let_def nat_add_distrib)
  finally show ?thesis .
qed

text \<open>With fewer than \<open>ETH_LEN\<close> bytes behind the command word the filter leaves the packet alone.\<close>

lemma rx_filter_tight:
  assumes ops: "bpf_ops_ok ops" and req: "get_request ctx (c # req)" and c: "c \<noteq> SP"
    and tight: "pkt_end ctx < pkt_data ctx + HDRS_LEN + 4 + ETH_LEN"
  shows "bmc_rx_filter_main ops st ctx = (rx_state st 4, ctx, Return XDP_PASS)"
proof -
  note rd = get_request_read [OF req]
  have "pkt_mem ctx (pkt_data ctx + HDRS_LEN + 4 + 0) = (c # req) ! 0"
    by (rule mem_read_eqD [OF rd(2)]) simp
  then have skip: "ws_skip (pkt_mem ctx) (pkt_data ctx + HDRS_LEN) (pkt_end ctx) 4 = 4"
    using c by (intro ws_skip_stop) simp
  have "rx_transport (pkt_mem ctx) (pkt_data ctx) (pkt_end ctx) =
      Some (11211, pkt_data ctx + HDRS_LEN)"
    using req by (simp add: rx_transport_def get_request_def Let_def)
  then have "bmc_rx_filter_main ops st ctx = rx_get ops st ctx (pkt_data ctx + HDRS_LEN)"
    using req rd(1) by (simp add: bmc_rx_filter_main_def get_request_def)
  moreover have "op_adjust_head ops ctx (int (HDRS_LEN + 4)) = None"
    using adjust_head_SomeD [OF ops, of ctx "int (HDRS_LEN + 4)"] tight by (cases "op_adjust_head ops ctx (int (HDRS_LEN + 4))") auto
  ultimately show ?thesis using ops by (simp add: rx_get_def skip rx_state_def Let_def)
qed

section \<open>Hashing the key\<close>

lemma hash_keys_loop_key:
  assumes k: "list_all key_char k" "length k \<le> BMC_MAX_KEY_LENGTH" and t: "t = CR \<or> t = SP"
    and rd: "mem_read m p (length k + 1) = k @ [t]" and fit: "p + length k + 1 \<le> e"
  shows "hash_keys_loop m p e 0 FNV_OFFSET_BASIS_32 0 = (length k, t = CR, length k, fnv k)"
proof -
  let ?n = "avail (BMC_MAX_KEY_LENGTH + 1) p 0 e"
  have n: "length k + 1 \<le> ?n" using k fit by (simp add: avail_def)
  have bs: "mem_read m p ?n = k @ t # mem_read m (p + length k + 1) (?n - (length k + 1))"
    using mem_read_add [of m p "length k + 1" "?n - (length k + 1)"] n rd by simp
  have tw: "takeWhile key_char (mem_read m p ?n) = k"
    unfolding bs using k t by (intro takeWhile_all_append) (auto simp: list_all_iff key_char_def)
  have "mem_read m p ?n ! length k = t" unfolding bs by simp
  with n tw show ?thesis by (auto simp: hash_keys_loop_eq Let_def)
qed

text \<open>The state after the key was found in the cache's slot, and after it was not.\<close>

definition hash_hit_state :: "bmc_state \<Rightarrow> xdp_md \<Rightarrow> byte list \<Rightarrow> bmc_state" where
  "hash_hit_state st ctx k =
     (let ki = unat (key_count (st_pctx st)) in
      st_pctx_update (key_count_update (\<lambda>n. n + 1))
        (st\<lparr>st_keys := (st_keys st)(ki := (st_keys st ki)
           \<lparr>mk_hash := fnv k,
            mk_data := (\<lambda>j. if j < length k then pkt_mem ctx (pkt_data ctx + j)
                            else mk_data (st_keys st ki) j),
            mk_len := of_nat (length k)\<rparr>)\<rparr>))"

definition hash_miss_state :: "bmc_state \<Rightarrow> byte list \<Rightarrow> bmc_state" where
  "hash_miss_state st k =
     (let ki = unat (key_count (st_pctx st)) in
      st_stats_update (miss_count_update (\<lambda>n. n + 1))
        (st\<lparr>st_keys := (st_keys st)(ki := (st_keys st ki)\<lparr>mk_hash := fnv k\<rparr>)\<rparr>))"

lemma hash_keys_key:
  assumes ops: "bpf_ops_ok ops" and k: "wf_key k" and t: "t = CR \<or> t = SP"
    and rd: "mem_read (pkt_mem ctx) (pkt_data ctx) (length k + 1) = k @ [t]"
    and fit: "pkt_data ctx + length k + 1 \<le> pkt_end ctx"
    and ki: "unat (key_count (st_pctx st)) < BMC_MAX_KEY_IN_PACKET"
  shows "bmc_hash_keys_main ops st ctx =
    (if ce_valid (st_kcache st (cache_idx (fnv k))) \<noteq> 0 \<and>
        ce_hash (st_kcache st (cache_idx (fnv k))) = fnv k
     then hash_keys_next ops (hash_hit_state st ctx k) ctx (length k) (t = CR)
     else hash_keys_next ops (hash_miss_state st k) ctx (length k) (t = CR))"
proof -
  have loop: "hash_keys_loop (pkt_mem ctx) (pkt_data ctx) (pkt_end ctx) 0 FNV_OFFSET_BASIS_32 0 =
      (length k, t = CR, length k, fnv k)"
    using k t rd fit by (intro hash_keys_loop_key) (auto simp: wf_key_def)
  have copy: "key_copy_loop (pkt_mem ctx) (pkt_data ctx) (pkt_end ctx) (length k) kd 0 =
      (\<lambda>j. if j < length k then pkt_mem ctx (pkt_data ctx + j) else kd j)" for kd
    using fit by (auto simp: key_copy_loop_eq fun_eq_iff)
  show ?thesis
    using k fit ki ops
    by (cases "ce_valid (st_kcache st (cache_idx (fnv k))) \<noteq> 0 \<and>
          ce_hash (st_kcache st (cache_idx (fnv k))) = fnv k")
      (auto simp: bmc_hash_keys_main_def loop copy Let_def wf_key_def hash_hit_state_def
        hash_miss_state_def cong: if_cong)
qed

lemma key_saved_hash_hit:
  assumes "wf_key k" and "mem_read (pkt_mem ctx) (pkt_data ctx) (length k + 1) = k @ [t]"
  shows "key_saved (st_keys (hash_hit_state st ctx k) (unat (key_count (st_pctx st)))) k"
proof -
  have "mem_read (pkt_mem ctx) (pkt_data ctx) (length k) = k"
    using assms(2) mem_read_add [of "pkt_mem ctx" "pkt_data ctx" "length k" 1] by simp
  then have "pkt_mem ctx (pkt_data ctx + i) = k ! i" if "i < length k" for i
    using that by (rule mem_read_eqD)
  then show ?thesis
    using assms(1) by (auto simp: key_saved_def hash_hit_state_def Let_def wf_key_def
        unat_of_nat_key intro!: mem_read_eqI)
qed

section \<open>Preparing the headers\<close>

text \<open>
  The four headers at \<open>old\<close> copied to \<open>new\<close>, with the two MAC addresses, the two IP addresses and
  the two ports exchanged.
\<close>

definition reply_headers :: "mem \<Rightarrow> nat \<Rightarrow> nat \<Rightarrow> mem" where
  "reply_headers m old new =
     swap_bytes (swap_bytes (swap_bytes (mem_write m new (mem_read m old HDRS_LEN))
       (new + 6) new 6) (new + 26) (new + 30) 4) (new + 34) (new + 36) 2"

lemma swap_bytes_nth:
  assumes "a + n \<le> b \<or> b + n \<le> a"
  shows "swap_bytes m a b n i =
    (if a \<le> i \<and> i < a + n then m (b + (i - a))
     else if b \<le> i \<and> i < b + n then m (a + (i - b)) else m i)"
  using assms by (auto simp: swap_bytes_def mem_write_def)

lemma swap_bytes_out:
  "i < min a b \<or> max a b + n \<le> i \<Longrightarrow> swap_bytes m a b n i = m i"
  by (auto simp: swap_bytes_def mem_write_def)

lemma reply_headers_out:
  assumes "i < new \<or> new + HDRS_LEN \<le> i"
  shows "reply_headers m old new i = m i"
proof -
  have "i < min (new + a) (new + b) \<or> max (new + a) (new + b) + n \<le> i"
    if "max a b + n \<le> HDRS_LEN" for a b n
    using assms that by (auto simp: min_def max_def split: if_splits)
  note swap_bytes_out [OF this]
  from this [of 34 36 2] this [of 26 30 4] this [of 6 0 6] show ?thesis
    unfolding reply_headers_def using assms by simp
qed

lemma prepare_packet_eq:
  assumes ops: "bpf_ops_ok ops" and room: "pkt_start ctx + ADJUST_HEAD_LEN \<le> pkt_data ctx"
    and len: "pkt_data ctx + HDRS_LEN + 2 \<le> pkt_end ctx"
  shows "bmc_prepare_packet_main ops st ctx =
    (st, ctx\<lparr>pkt_mem := reply_headers (pkt_mem ctx) (pkt_data ctx) (pkt_data ctx - ADJUST_HEAD_LEN),
             pkt_data := pkt_data ctx - ADJUST_HEAD_LEN + HDRS_LEN\<rparr>,
     TailCall BMC_PROG_XDP_WRITE_REPLY XDP_PASS)"
proof -
  obtain d where d: "pkt_data ctx = d + 128" using room le_Suc_ex [of 128 "pkt_data ctx"] by auto
  obtain m s e where ctx: "ctx = \<lparr>pkt_mem = m, pkt_start = s, pkt_data = d + 128, pkt_end = e\<rparr>"
    using d by (cases ctx) simp
  have "s \<le> d" and "d + 180 \<le> e" using room len by (simp_all add: ctx)
  then show ?thesis
    by (simp add: ctx bmc_prepare_packet_main_def adjust_head_Some [OF ops] Let_def
        reply_headers_def nat_add_distrib add.commute)
qed

section \<open>Writing the reply\<close>

text \<open>
  The length and checksum fields, for headers at \<open>hdr\<close> followed by \<open>n\<close> bytes of payload.
\<close>

definition finish_headers :: "mem \<Rightarrow> nat \<Rightarrow> nat \<Rightarrow> mem" where
  "finish_headers m hdr n =
     (let (m, check) = compute_ip_checksum (put_be16 m (hdr + 16) (of_nat (36 + n))) (hdr + 14)
      in put_be16 (put_be16 (put_le16 m (hdr + 24) check) (hdr + 40) 0) (hdr + 38) (of_nat (16 + n)))"

lemma finish_headers_out:
  "i \<notin> {hdr + 16, hdr + 17, hdr + 24, hdr + 25, hdr + 38, hdr + 39, hdr + 40, hdr + 41} \<Longrightarrow>
   finish_headers m hdr n i = m i"
  by (auto simp: finish_headers_def compute_ip_checksum_def Let_def)

abbreviation END_LINE :: "byte list" where "END_LINE \<equiv> bytes ''END'' @ [CR, LF]"

lemma reply_end_eq:
  assumes ops: "bpf_ops_ok ops" and fit: "pkt_data ctx + n + 5 \<le> pkt_end ctx"
    and wpo: "wpo = unat (write_pkt_offset (st_pctx st))"
    and room: "pkt_start ctx + HDRS_LEN + wpo \<le> pkt_data ctx"
  shows "reply_end ops st ctx n =
    (st, ctx\<lparr>pkt_mem := finish_headers (mem_write (pkt_mem ctx) (pkt_data ctx + n) END_LINE)
                          (pkt_data ctx - (HDRS_LEN + wpo)) (wpo + n + 5),
             pkt_data := pkt_data ctx - (HDRS_LEN + wpo), pkt_end := pkt_data ctx + n + 5\<rparr>,
     Return XDP_TX)"
proof -
  obtain h where h: "pkt_data ctx = h + (HDRS_LEN + wpo)"
    using room le_Suc_ex [of "HDRS_LEN + wpo" "pkt_data ctx"] by (auto simp: add.commute)
  obtain m s e where
    ctx: "ctx = \<lparr>pkt_mem = m, pkt_start = s, pkt_data = h + (HDRS_LEN + wpo), pkt_end = e\<rparr>"
    using h by (cases ctx) simp
  have s: "s \<le> h" and e: "h + 50 + wpo + n + 5 \<le> e" using room fit by (simp_all add: ctx)
  from s e show ?thesis
    by (simp add: ctx reply_end_def wpo [symmetric] adjust_head_Some [OF ops]
        adjust_tail_Some [OF ops] Let_def finish_headers_def add.commute add.left_commute
        split: prod.splits)
qed

end
