(* ===== verification/Bmc_Serve.thy ===== *)
theory Bmc_Serve
  imports Bmc_Get
begin

unbundle bit_operations_syntax

text \<open>
  Whole runs of the receive chain on a GET request whose keys are all cached: the phase that hashes
  and saves the keys, the phase that copies their replies, and the composition of both, with the
  number of tail calls each needs.
\<close>

section \<open>One key of the reply\<close>

abbreviation cached :: "bmc_state \<Rightarrow> byte list \<Rightarrow> byte list \<Rightarrow> bool" where
  "cached st k r \<equiv> entry_holds (st_kcache st (cache_idx (fnv k))) k r"

lemma key_cmp_cached:
  assumes key: "key_saved key k" and en: "entry_holds en k r"
  shows "key_cmp_loop key en 0 True"
proof -
  have "mk_data key j = ce_data en (6 + j)" if "j < length k" for j
  proof -
    have "mk_data key j = k ! j"
      using mem_read_eqD [of "mk_data key" 0 "length k" k j] key that by (simp add: key_saved_def)
    also have "\<dots> = r ! (6 + j)"
      using en that nth_take [of j "length k" "drop 6 r"]
      by (simp add: entry_holds_def)
    also have "\<dots> = ce_data en (6 + j)"
      using en that mem_read_eqD [of "ce_data en" 0 "length r" r "6 + j"]
      by (simp add: entry_holds_def)
    finally show ?thesis .
  qed
  with key show ?thesis by (simp add: key_cmp_loop_eq key_saved_def)
qed

lemma reply_entry_cached:
  assumes "key_saved key k" and "entry_holds en k r" and "p + length r \<le> e"
  shows "reply_entry key en p e m = (mem_write m p r, True, length r)"
proof -
  have "reply_len en p e = length r" using assms by (auto simp: reply_len_def entry_holds_def)
  with assms key_cmp_cached [OF assms(1,2)] show ?thesis
    by (simp add: reply_entry_hit key_saved_def entry_holds_def)
qed

text \<open>The state after one more reply was copied, and the packet then.\<close>

definition served_state :: "bmc_state \<Rightarrow> bmc_state" where
  "served_state st =
     st_pctx_update (current_key_update (\<lambda>n. n + 1))
       (st_stats_update (hit_count_update (\<lambda>n. n + 1)) st)"

lemma unat_Suc_key: "unat x < 30 \<Longrightarrow> unat (x + 1 :: u32) = Suc (unat x)"
  by (simp add: unat_word_ariths)

lemma write_reply_cached:
  assumes ops: "bpf_ops_ok ops" and i: "i = unat (current_key (st_pctx st))" "i < BMC_MAX_KEY_IN_PACKET"
    and key: "key_saved (st_keys st i) k" and en: "cached st k r"
    and fit: "pkt_data ctx + length r \<le> pkt_end ctx"
  shows "bmc_write_reply_main ops st ctx =
    (let st' = served_state st;
         ctx' = ctx\<lparr>pkt_mem := mem_write (pkt_mem ctx) (pkt_data ctx) r\<rparr>
     in if current_key (st_pctx st') = key_count (st_pctx st') then reply_end ops st' ctx' (length r)
        else if unat (current_key (st_pctx st')) < BMC_MAX_KEY_IN_PACKET then
          case op_adjust_head ops ctx' (int (length r)) of
            None \<Rightarrow> (st_pctx_update (write_pkt_offset_update (\<lambda>w. w + of_nat (length r))) st', ctx',
                     Return XDP_DROP)
          | Some c \<Rightarrow> (st_pctx_update (write_pkt_offset_update (\<lambda>w. w + of_nat (length r))) st', c,
                     TailCall BMC_PROG_XDP_WRITE_REPLY XDP_DROP)
        else (st', ctx', Return XDP_DROP))"
proof -
  have hash: "mk_hash (st_keys st i) = fnv k" using key by (simp add: key_saved_def)
  have r: "6 \<le> length r" "r \<noteq> []" using en by (auto simp: entry_holds_def)
  then have "pkt_data ctx < pkt_end ctx" using fit by simp
  then show ?thesis
    using ops i reply_entry_cached [OF key en fit] r
    by (simp add: bmc_write_reply_main_def Let_def hash served_state_def i(1) [symmetric]
        split: option.split)
qed

section \<open>The phase that writes the replies\<close>

text \<open>\<open>krs\<close> lists the keys still to serve with their cached replies.\<close>

definition pending :: "bmc_state \<Rightarrow> (byte list \<times> byte list) list \<Rightarrow> bool" where
  "pending st krs \<longleftrightarrow>
     unat (key_count (st_pctx st)) = unat (current_key (st_pctx st)) + length krs \<and>
     unat (key_count (st_pctx st)) \<le> BMC_MAX_KEY_IN_PACKET \<and>
     (\<forall>j < length krs. key_saved (st_keys st (unat (current_key (st_pctx st)) + j)) (fst (krs ! j)) \<and>
        cached st (fst (krs ! j)) (snd (krs ! j)))"

definition replies :: "(byte list \<times> byte list) list \<Rightarrow> byte list" where
  "replies krs = concat (map snd krs)"

lemma replies_simps [simp]: "replies [] = []" "replies (kr # krs) = snd kr @ replies krs"
  by (simp_all add: replies_def)

lemma pending_Cons:
  assumes "pending st ((k, r) # krs)"
  shows "key_saved (st_keys st (unat (current_key (st_pctx st)))) k" "cached st k r"
    "unat (current_key (st_pctx st)) < BMC_MAX_KEY_IN_PACKET"
    "current_key (st_pctx (served_state st)) = key_count (st_pctx (served_state st)) \<longleftrightarrow> krs = []"
    "krs \<noteq> [] \<Longrightarrow> unat (current_key (st_pctx (served_state st))) < BMC_MAX_KEY_IN_PACKET"
    "pending (st_pctx_update (write_pkt_offset_update f) (served_state st)) krs"
proof -
  from assms show *: "key_saved (st_keys st (unat (current_key (st_pctx st)))) k" "cached st k r"
    "unat (current_key (st_pctx st)) < BMC_MAX_KEY_IN_PACKET"
    by (auto simp: pending_def)
  then have cur: "unat (current_key (st_pctx (served_state st))) = Suc (unat (current_key (st_pctx st)))"
    by (simp add: served_state_def unat_Suc_key)
  have same: "key_count (st_pctx (served_state st)) = key_count (st_pctx st)"
    "st_keys (served_state st) = st_keys st" "st_kcache (served_state st) = st_kcache st"
    by (simp_all add: served_state_def)
  show "current_key (st_pctx (served_state st)) = key_count (st_pctx (served_state st)) \<longleftrightarrow> krs = []"
    unfolding word_unat_eq_iff cur same using assms by (auto simp: pending_def)
  show "krs \<noteq> [] \<Longrightarrow> unat (current_key (st_pctx (served_state st))) < BMC_MAX_KEY_IN_PACKET"
    unfolding cur using assms by (cases krs) (auto simp: pending_def)
  show "pending (st_pctx_update (write_pkt_offset_update f) (served_state st)) krs"
    using assms unfolding pending_def by (auto simp: cur same nth_Cons split: nat.splits)
qed

text \<open>What the phase leaves in the state: every key counted as a hit, the cursor at the end.\<close>

fun served_all :: "(byte list \<times> byte list) list \<Rightarrow> bmc_state \<Rightarrow> bmc_state" where
  "served_all [] st = st"
| "served_all [kr] st = served_state st"
| "served_all (kr # krs) st =
     served_all krs (st_pctx_update (write_pkt_offset_update (\<lambda>w. w + of_nat (length (snd kr))))
       (served_state st))"

lemma unat_add_u16: "unat w + n < 65536 \<Longrightarrow> unat (w + of_nat n :: u16) = unat w + n"
  by (simp add: unat_word_ariths unat_of_nat take_bit_eq_mod)

text \<open>
  Whether the replies fit in the packet from address \<open>d\<close> to its end \<open>e\<close>: an Ethernet header's worth
  of room after each reply but the last, for the kernel to move the head, and \<open>END\<close> after the last.
\<close>

fun fits :: "nat \<Rightarrow> nat \<Rightarrow> (byte list \<times> byte list) list \<Rightarrow> bool" where
  "fits d e [] \<longleftrightarrow> True"
| "fits d e [kr] \<longleftrightarrow> d + length (snd kr) + 5 \<le> e"
| "fits d e (kr # krs) \<longleftrightarrow> d + length (snd kr) + ETH_LEN \<le> e \<and> fits (d + length (snd kr)) e krs"

lemma fits_Cons:
  "krs \<noteq> [] \<Longrightarrow> fits d e (kr # krs) \<longleftrightarrow> d + length (snd kr) + ETH_LEN \<le> e \<and> fits (d + length (snd kr)) e krs"
  by (cases krs) auto

lemma fitsD: "fits d e krs \<Longrightarrow> krs \<noteq> [] \<Longrightarrow> d + length (replies krs) + 5 \<le> e"
  by (induction d e krs rule: fits.induct) auto

lemma fitsI: "d + length (replies krs) + ETH_LEN \<le> e \<Longrightarrow> fits d e krs"
  by (induction d e krs rule: fits.induct) auto

lemma write_phase:
  assumes ops: "bpf_ops_ok ops" and "krs \<noteq> []" and "pending st krs"
    and "fits (pkt_data ctx) (pkt_end ctx) krs"
    and "pkt_start ctx + HDRS_LEN + unat (write_pkt_offset (st_pctx st)) \<le> pkt_data ctx"
    and "unat (write_pkt_offset (st_pctx st)) + length (replies krs) < 65536"
    and "length krs \<le> Suc n"
  shows "xdp_tail_calls ops n (bmc_write_reply_main ops st ctx) =
    (served_all krs st,
     ctx\<lparr>pkt_mem := finish_headers
            (mem_write (pkt_mem ctx) (pkt_data ctx) (replies krs @ END_LINE))
            (pkt_data ctx - (HDRS_LEN + unat (write_pkt_offset (st_pctx st))))
            (unat (write_pkt_offset (st_pctx st)) + length (replies krs) + 5),
         pkt_data := pkt_data ctx - (HDRS_LEN + unat (write_pkt_offset (st_pctx st))),
         pkt_end := pkt_data ctx + length (replies krs) + 5\<rparr>, XDP_TX)"
  using assms(2-)
proof (induction krs arbitrary: st ctx n)
  case Nil
  then show ?case by simp
next
  case (Cons kr krs)
  obtain k r where kr: "kr = (k, r)" by (cases kr)
  note pc = pending_Cons [OF Cons.prems(2) [unfolded kr]]
  let ?st = "served_state st" and ?W = "write_pkt_offset (st_pctx st)"
  let ?m = "mem_write (pkt_mem ctx) (pkt_data ctx) r"
  have fit: "pkt_data ctx + length r \<le> pkt_end ctx" using fitsD [OF Cons.prems(3,1)] kr by simp
  have W: "write_pkt_offset (st_pctx ?st) = ?W" by (simp add: served_state_def)
  note wr = write_reply_cached [OF ops refl pc(3) pc(1) pc(2) fit]
  show ?case
  proof (cases "krs = []")
    case True
    have "reply_end ops ?st (ctx\<lparr>pkt_mem := ?m\<rparr>) (length r) =
      (?st, ctx\<lparr>pkt_mem := finish_headers (mem_write ?m (pkt_data ctx + length r) END_LINE)
               (pkt_data ctx - (HDRS_LEN + unat ?W)) (unat ?W + length r + 5),
             pkt_data := pkt_data ctx - (HDRS_LEN + unat ?W), pkt_end := pkt_data ctx + length r + 5\<rparr>,
       Return XDP_TX)"
      using Cons.prems True kr W by (subst reply_end_eq [OF ops _ refl]) simp_all
    then show ?thesis
      using True kr pc(4) by (simp add: wr Let_def mem_write_append)
  next
    case False
    then obtain kr' krs' where krs: "krs = kr' # krs'" by (cases krs) auto
    then obtain n' where n: "n = Suc n'" using Cons.prems(6) by (cases n) auto
    let ?st' = "st_pctx_update (write_pkt_offset_update (\<lambda>w. w + of_nat (length r))) ?st"
    let ?ctx = "ctx\<lparr>pkt_mem := ?m, pkt_data := pkt_data ctx + length r\<rparr>"
    have room: "pkt_data ctx + length r + ETH_LEN \<le> pkt_end ctx"
      and rest: "fits (pkt_data ctx + length r) (pkt_end ctx) krs"
      using Cons.prems(3) fits_Cons [OF False] kr by simp_all
    have "op_adjust_head ops (ctx\<lparr>pkt_mem := ?m\<rparr>) (int (length r)) = Some ?ctx"
      using Cons.prems(4) room by (subst adjust_head_Some [OF ops]) (simp_all add: nat_add_distrib)
    then have step: "bmc_write_reply_main ops st ctx =
        (?st', ?ctx, TailCall BMC_PROG_XDP_WRITE_REPLY XDP_DROP)"
      using pc(4,5) False by (simp add: wr Let_def)
    have W': "unat (write_pkt_offset (st_pctx ?st')) = unat ?W + length r"
      using Cons.prems(5) kr W by (simp add: unat_add_u16)
    have "xdp_tail_calls ops n' (bmc_write_reply_main ops ?st' ?ctx) =
      (served_all krs ?st',
       ?ctx\<lparr>pkt_mem := finish_headers
            (mem_write ?m (pkt_data ctx + length r) (replies krs @ END_LINE))
            (pkt_data ctx + length r - (HDRS_LEN + (unat ?W + length r)))
            (unat ?W + length r + length (replies krs) + 5),
         pkt_data := pkt_data ctx + length r - (HDRS_LEN + (unat ?W + length r)),
         pkt_end := pkt_data ctx + length r + length (replies krs) + 5\<rparr>, XDP_TX)"
      using Cons.prems False kr n pc(6) W' rest
      by (subst Cons.IH) simp_all
    then show ?thesis
      using kr krs by (simp add: n step mem_write_append add.assoc)
  qed
qed

text \<open>One reply that does not fit, or a refused tail call, and the half-written packet is dropped.\<close>

lemma write_reply_hit:
  assumes ops: "bpf_ops_ok ops" and i: "i = unat (current_key (st_pctx st))" "i < BMC_MAX_KEY_IN_PACKET"
    and key: "key_saved (st_keys st i) k" and en: "cached st k r" and data: "pkt_data ctx < pkt_end ctx"
  defines "w \<equiv> min (length r) (pkt_end ctx - pkt_data ctx)"
  shows "bmc_write_reply_main ops st ctx =
    (let st' = served_state st;
         ctx' = ctx\<lparr>pkt_mem := mem_write (pkt_mem ctx) (pkt_data ctx) (take w r)\<rparr>
     in if current_key (st_pctx st') = key_count (st_pctx st') then reply_end ops st' ctx' w
        else if unat (current_key (st_pctx st')) < BMC_MAX_KEY_IN_PACKET then
          case op_adjust_head ops ctx' (int w) of
            None \<Rightarrow> (st_pctx_update (write_pkt_offset_update (\<lambda>x. x + of_nat w)) st', ctx',
                     Return XDP_DROP)
          | Some c \<Rightarrow> (st_pctx_update (write_pkt_offset_update (\<lambda>x. x + of_nat w)) st', c,
                     TailCall BMC_PROG_XDP_WRITE_REPLY XDP_DROP)
        else (st', ctx', Return XDP_DROP))"
proof -
  let ?en = "st_kcache st (cache_idx (fnv k))"
  have hash: "mk_hash (st_keys st i) = fnv k" using key by (simp add: key_saved_def)
  have r: "6 \<le> length r" "mem_read (ce_data ?en) 0 (length r) = r" "unat (ce_len ?en) = length r"
    "length r \<le> 1303" "ce_valid ?en \<noteq> 0" "ce_hash ?en = fnv k"
    using en by (auto simp: entry_holds_def)
  have w: "w > 0" "w \<le> length r" using r(1) data by (auto simp: w_def)
  have "reply_len ?en (pkt_data ctx) (pkt_end ctx) = w"
    using r(3,4) by (simp add: reply_len_def w_def)
  moreover have "mem_read (ce_data ?en) 0 w = take w r"
    using take_mem_read [OF w(2), of "ce_data ?en" 0] r(2) by simp
  ultimately have "reply_entry (st_keys st i) ?en (pkt_data ctx) (pkt_end ctx) (pkt_mem ctx) =
      (mem_write (pkt_mem ctx) (pkt_data ctx) (take w r), True, w)"
    using reply_entry_hit [OF r(5) _ key_cmp_cached [OF key en]] hash r(6) by simp
  then show ?thesis
    using ops i(2) data w(1)
    by (simp add: bmc_write_reply_main_def Let_def hash served_state_def i(1) [symmetric]
        split: option.split)
qed

lemma write_phase_drop:
  assumes ops: "bpf_ops_ok ops" and "krs \<noteq> []" and "pending st krs" and "pkt_data ctx < pkt_end ctx"
    and "\<not> fits (pkt_data ctx) (pkt_end ctx) krs \<or> Suc n < length krs"
  shows "snd (snd (xdp_tail_calls ops n (bmc_write_reply_main ops st ctx))) = XDP_DROP"
  using assms(2-)
proof (induction krs arbitrary: st ctx n)
  case Nil
  then show ?case by simp
next
  case (Cons kr krs)
  obtain k r where kr: "kr = (k, r)" by (cases kr)
  note pc = pending_Cons [OF Cons.prems(2) [unfolded kr]]
  let ?st = "served_state st" and ?w = "min (length r) (pkt_end ctx - pkt_data ctx)"
  let ?ctx = "ctx\<lparr>pkt_mem := mem_write (pkt_mem ctx) (pkt_data ctx) (take ?w r)\<rparr>"
  let ?st' = "st_pctx_update (write_pkt_offset_update (\<lambda>x. x + of_nat ?w)) ?st"
  note wr = write_reply_hit [OF ops refl pc(3) pc(1) pc(2) Cons.prems(3)]
  show ?case
  proof (cases "krs = []")
    case True
    then have "\<not> pkt_data ctx + length r + 5 \<le> pkt_end ctx" using Cons.prems(4) kr by simp
    then show ?thesis
      using True pc(4) by (auto simp: wr Let_def reply_end_def)
  next
    case False
    show ?thesis
    proof (cases "op_adjust_head ops ?ctx (int ?w)")
      case None
      then show ?thesis using pc(4,5) False by (simp add: wr Let_def)
    next
      case (Some c)
      from adjust_head_SomeD [OF ops this] have c: "c = ?ctx\<lparr>pkt_data := pkt_data ctx + ?w\<rparr>"
        and room: "pkt_data ctx + ?w + ETH_LEN \<le> pkt_end ctx"
        by (simp_all add: nat_add_distrib)
      then have w: "?w = length r" by linarith
      have step: "bmc_write_reply_main ops st ctx = (?st', c, TailCall BMC_PROG_XDP_WRITE_REPLY XDP_DROP)"
        using pc(4,5) False Some by (simp add: wr Let_def)
      show ?thesis
      proof (cases n)
        case 0
        then show ?thesis by (simp add: step)
      next
        case (Suc n')
        have "\<not> fits (pkt_data c) (pkt_end c) krs \<or> Suc n' < length krs"
          using Cons.prems(4) room fits_Cons [OF False] w kr Suc by (auto simp: c)
        moreover have "pkt_data c < pkt_end c" using room by (simp add: c)
        ultimately have "snd (snd (xdp_tail_calls ops n' (bmc_write_reply_main ops ?st' c))) = XDP_DROP"
          using False pc(6) by (intro Cons.IH)
        then show ?thesis by (simp add: step Suc)
      qed
    qed
  qed
qed

section \<open>The phase that hashes the keys\<close>

text \<open>The keys of a request line, separated by single spaces and ended by a carriage return.\<close>

fun key_line :: "byte list list \<Rightarrow> byte list" where
  "key_line [] = []"
| "key_line [k] = k @ [CR]"
| "key_line (k # ks) = k @ SP # key_line ks"

lemma length_key_line_last: "ks \<noteq> [] \<Longrightarrow> length (last ks) + 1 \<le> length (key_line ks)"
  by (induction ks rule: key_line.induct) auto

abbreviation slot_hit :: "bmc_state \<Rightarrow> byte list \<Rightarrow> bool" where
  "slot_hit st k \<equiv>
     ce_valid (st_kcache st (cache_idx (fnv k))) \<noteq> 0 \<and> ce_hash (st_kcache st (cache_idx (fnv k))) = fnv k"

text \<open>\<open>st'\<close> is \<open>st\<close> with the keys \<open>ks\<close> saved behind those it had.\<close>

definition keys_added :: "bmc_state \<Rightarrow> byte list list \<Rightarrow> bmc_state \<Rightarrow> bool" where
  "keys_added st ks st' \<longleftrightarrow>
     st_kcache st' = st_kcache st \<and>
     current_key (st_pctx st') = current_key (st_pctx st) \<and>
     write_pkt_offset (st_pctx st') = write_pkt_offset (st_pctx st) \<and>
     unat (key_count (st_pctx st')) = unat (key_count (st_pctx st)) + length ks \<and>
     (\<forall>j < unat (key_count (st_pctx st)). st_keys st' j = st_keys st j) \<and>
     (\<forall>j < length ks. key_saved (st_keys st' (unat (key_count (st_pctx st)) + j)) (ks ! j))"

lemma keys_added_read [simp]:
  "keys_added st ks (st_pctx_update (read_pkt_offset_update f) st') \<longleftrightarrow> keys_added st ks st'"
  by (simp add: keys_added_def)

text \<open>The state after one key was hashed: saved when its slot matches, counted as a miss if not.\<close>

definition hash_state :: "bmc_state \<Rightarrow> xdp_md \<Rightarrow> byte list \<Rightarrow> bmc_state" where
  "hash_state st ctx k = (if slot_hit st k then hash_hit_state st ctx k else hash_miss_state st k)"

lemma keys_added_one:
  assumes "wf_key k" and "mem_read (pkt_mem ctx) (pkt_data ctx) (length k + 1) = k @ [t]"
    and "unat (key_count (st_pctx st)) < BMC_MAX_KEY_IN_PACKET"
  shows "keys_added st (filter (slot_hit st) [k]) (hash_state st ctx k)"
  using assms(3) key_saved_hash_hit [OF assms(1,2), of st]
  by (auto simp: keys_added_def hash_state_def hash_hit_state_def hash_miss_state_def Let_def
      unat_Suc_key)

lemma hash_state_kcache [simp]: "st_kcache (hash_state st ctx k) = st_kcache st"
  and hash_state_read [simp]:
    "read_pkt_offset (st_pctx (hash_state st ctx k)) = read_pkt_offset (st_pctx st)"
  by (simp_all add: hash_state_def hash_hit_state_def hash_miss_state_def Let_def)

lemma keys_added_trans:
  assumes 1: "keys_added st ks st1" and 2: "keys_added st1 ks' st2"
  shows "keys_added st (ks @ ks') st2"
proof -
  let ?n = "unat (key_count (st_pctx st))"
  have n1: "unat (key_count (st_pctx st1)) = ?n + length ks" using 1 by (simp add: keys_added_def)
  have "key_saved (st_keys st2 (?n + j)) ((ks @ ks') ! j)" if "j < length (ks @ ks')" for j
  proof (cases "j < length ks")
    case True
    then show ?thesis using 1 2 n1 by (simp add: keys_added_def nth_append)
  next
    case False
    then obtain i where i: "j = length ks + i" using le_Suc_ex [of "length ks" j] by auto
    then show ?thesis using 2 n1 that by (auto simp: keys_added_def nth_append add.assoc)
  qed
  moreover have "st_keys st2 j = st_keys st j" if "j < ?n" for j
    using 1 2 n1 that by (simp add: keys_added_def)
  ultimately show ?thesis using 1 2 n1 by (simp add: keys_added_def)
qed

text \<open>
  The whole phase: one program run per key; the keys whose slots match are saved in order, the head
  is moved back to the start of the packet, and the next program runs if any key was saved.
\<close>

definition hash_outcome ::
  "bpf_ops \<Rightarrow> nat \<Rightarrow> bmc_state \<Rightarrow> xdp_md \<Rightarrow> bmc_state \<times> xdp_md \<times> nat" where
  "hash_outcome ops n st ctx =
     (if key_count (st_pctx st) > 0 then xdp_tail_calls ops n (bmc_prepare_packet_main ops st ctx)
      else (st, ctx, XDP_PASS))"

lemma hash_phase:
  assumes ops: "bpf_ops_ok ops" and "ks \<noteq> []" and "list_all wf_key ks"
    and "mem_read (pkt_mem ctx) (pkt_data ctx) (length (key_line ks)) = key_line ks"
    and "pkt_data ctx + length (key_line ks) \<le> pkt_end ctx"
    and "pkt_data ctx + length (key_line ks) + ETH_LEN \<le> pkt_end ctx + length (last ks) + 1"
    and "unat (key_count (st_pctx st)) + length ks \<le> BMC_MAX_KEY_IN_PACKET"
    and "pkt_start ctx + HDRS_LEN + unat (read_pkt_offset (st_pctx st)) \<le> pkt_data ctx"
    and "unat (read_pkt_offset (st_pctx st)) + length (key_line ks) < 65536"
    and "length ks \<le> n"
  shows "\<exists>st'. keys_added st (filter (slot_hit st) ks) st' \<and>
    xdp_tail_calls ops n (bmc_hash_keys_main ops st ctx) =
    hash_outcome ops (n - length ks) st'
      (ctx\<lparr>pkt_data := pkt_data ctx - (HDRS_LEN + unat (read_pkt_offset (st_pctx st)))\<rparr>)"
  using assms(2-)
proof (induction ks arbitrary: st ctx n)
  case Nil
  then show ?case by simp
next
  case (Cons k ks)
  let ?R = "read_pkt_offset (st_pctx st)" and ?st = "hash_state st ctx k"
  have k: "wf_key k" using Cons.prems(2) by simp
  have ki: "unat (key_count (st_pctx st)) < BMC_MAX_KEY_IN_PACKET" using Cons.prems(6) by simp
  obtain n' where n: "n = Suc n'" using Cons.prems(9) by (cases n) auto
  have run: "bmc_hash_keys_main ops st ctx = hash_keys_next ops ?st ctx (length k) (t = CR)"
    if "t = CR \<or> t = SP" "mem_read (pkt_mem ctx) (pkt_data ctx) (length k + 1) = k @ [t]"
       "pkt_data ctx + length k + 1 \<le> pkt_end ctx" for t
    unfolding hash_keys_key [OF ops k that ki] hash_state_def by simp
  show ?case
  proof (cases ks)
    case Nil
    have rd: "mem_read (pkt_mem ctx) (pkt_data ctx) (length k + 1) = k @ [CR]"
      using Cons.prems(3) Nil by simp
    have restore: "restore_head ops ?st ctx = ctx\<lparr>pkt_data := pkt_data ctx - (HDRS_LEN + unat ?R)\<rparr>"
      using Cons.prems(4,7) by (intro restore_head_eq [OF ops]) simp_all
    have "xdp_tail_calls ops n (bmc_hash_keys_main ops st ctx) =
        hash_outcome ops n' ?st (ctx\<lparr>pkt_data := pkt_data ctx - (HDRS_LEN + unat ?R)\<rparr>)"
      using run [of CR] rd Cons.prems(4) Nil restore
      by (simp add: hash_keys_next_def hash_outcome_def n)
    with keys_added_one [OF k rd ki] Nil n show ?thesis by auto
  next
    case (Cons k2 ks2)
    have line: "key_line (k # ks) = (k @ [SP]) @ key_line ks" using Cons by simp
    have rd: "mem_read (pkt_mem ctx) (pkt_data ctx) (length k + 1) = k @ [SP]"
      and rd': "mem_read (pkt_mem ctx) (pkt_data ctx + (length k + 1)) (length (key_line ks)) = key_line ks"
      using mem_read_append_iff [of "pkt_mem ctx" "pkt_data ctx" "k @ [SP]" "key_line ks"]
        Cons.prems(3) line by simp_all
    let ?ctx = "ctx\<lparr>pkt_data := pkt_data ctx + (length k + 1)\<rparr>"
    let ?st' = "st_pctx_update (read_pkt_offset_update (\<lambda>r. r + of_nat (length k + 1))) ?st"
    have len: "length (last ks) + 1 \<le> length (key_line ks)"
      using Cons by (intro length_key_line_last) simp
    have "op_adjust_head ops ctx (int (length k + 1)) = Some ?ctx"
      using Cons.prems(5,7) len line Cons by (intro adjust_head_fwd [OF ops]) simp_all
    then have step: "bmc_hash_keys_main ops st ctx =
        (?st', ?ctx, TailCall BMC_PROG_XDP_HASH_KEYS XDP_PASS)"
      using run [of SP] rd Cons.prems(4) line by (simp add: hash_keys_next_def)
    have added: "keys_added st (filter (slot_hit st) [k]) ?st'"
      using keys_added_one [OF k rd ki] by simp
    have R': "unat (read_pkt_offset (st_pctx ?st')) = unat ?R + (length k + 1)"
      using Cons.prems(8) line unat_add_u16 [of ?R "length k + 1"] by simp
    have kc': "unat (key_count (st_pctx ?st')) \<le> Suc (unat (key_count (st_pctx st)))"
      using added by (auto simp: keys_added_def split: if_splits)
    obtain st2 where st2: "keys_added ?st' (filter (slot_hit ?st') ks) st2"
      "xdp_tail_calls ops n' (bmc_hash_keys_main ops ?st' ?ctx) =
       hash_outcome ops (n' - length ks) st2
         (?ctx\<lparr>pkt_data := pkt_data ctx + (length k + 1) - (HDRS_LEN + (unat ?R + (length k + 1)))\<rparr>)"
      using Cons.IH [of ?ctx ?st' n'] Cons.prems rd' line R' kc' n local.Cons by auto
    have "keys_added st (filter (slot_hit st) (k # ks)) st2"
      using keys_added_trans [OF added st2(1)] by (auto split: if_splits)
    with st2(2) show ?thesis
      by (auto simp: step n)
  qed
qed

text \<open>When the last key starts too close to the end of the packet, the head stays where it was moved to.\<close>

lemma adjust_head_None:
  assumes "bpf_ops_ok ops" and "pkt_end c < pkt_data c + n + ETH_LEN"
  shows "op_adjust_head ops c (int n) = None"
proof (cases "op_adjust_head ops c (int n)")
  case (Some c')
  then show ?thesis using adjust_head_SomeD [OF assms(1) Some] assms(2) by simp
qed

lemma hash_phase_stuck:
  assumes ops: "bpf_ops_ok ops" and "ks \<noteq> []" and "list_all wf_key ks"
    and "mem_read (pkt_mem ctx) (pkt_data ctx) (length (key_line ks)) = key_line ks"
    and "pkt_data ctx + length (key_line ks) \<le> pkt_end ctx"
    and "pkt_end ctx + length (last ks) + 1 < pkt_data ctx + length (key_line ks) + ETH_LEN"
    and "pkt_data ctx + ETH_LEN \<le> pkt_end ctx" and "pkt_start ctx \<le> pkt_data ctx"
    and "unat (key_count (st_pctx st)) + length ks \<le> BMC_MAX_KEY_IN_PACKET" and "length ks \<le> n"
  shows "\<exists>st' d. xdp_tail_calls ops n (bmc_hash_keys_main ops st ctx) = (st', ctx\<lparr>pkt_data := d\<rparr>, XDP_PASS) \<and>
    pkt_data ctx \<le> d \<and> st_kcache st' = st_kcache st"
  using assms(2-)
proof (induction ks arbitrary: st ctx n)
  case Nil
  then show ?case by simp
next
  case (Cons k ks)
  let ?st = "hash_state st ctx k"
  have k: "wf_key k" and ki: "unat (key_count (st_pctx st)) < BMC_MAX_KEY_IN_PACKET" using Cons.prems(2,8) by simp_all
  obtain n' where n: "n = Suc n'" using Cons.prems(9) by (cases n) auto
  obtain k2 ks2 where ks: "ks = k2 # ks2" using Cons.prems(5,6) by (cases ks) auto
  have line: "key_line (k # ks) = (k @ [SP]) @ key_line ks" using ks by simp
  have rd: "mem_read (pkt_mem ctx) (pkt_data ctx) (length k + 1) = k @ [SP]"
    and rd': "mem_read (pkt_mem ctx) (pkt_data ctx + (length k + 1)) (length (key_line ks)) = key_line ks"
    using mem_read_append_iff [of "pkt_mem ctx" "pkt_data ctx" "k @ [SP]" "key_line ks"] Cons.prems(3) line by simp_all
  let ?ctx = "ctx\<lparr>pkt_data := pkt_data ctx + (length k + 1)\<rparr>"
  let ?st' = "st_pctx_update (read_pkt_offset_update (\<lambda>r. r + of_nat (length k + 1))) ?st"
  have fit: "pkt_data ctx + length k + 1 \<le> pkt_end ctx" using Cons.prems(4) line by simp
  have run: "bmc_hash_keys_main ops st ctx = hash_keys_next ops ?st ctx (length k) False"
    using hash_keys_key [OF ops k _ rd fit ki] by (simp add: hash_state_def)
  show ?case
  proof (cases "pkt_data ctx + (length k + 1) + ETH_LEN \<le> pkt_end ctx")
    case False
    then have "op_adjust_head ops ctx (int (length k + 1)) = None" by (intro adjust_head_None [OF ops]) simp
    then have "bmc_hash_keys_main ops st ctx = (?st', ctx, Return XDP_PASS)" using run by (simp add: hash_keys_next_def)
    then show ?thesis by (intro exI [of _ ?st'] exI [of _ "pkt_data ctx"]) simp
  next
    case True
    then have "op_adjust_head ops ctx (int (length k + 1)) = Some ?ctx"
      using Cons.prems(7) by (intro adjust_head_fwd [OF ops]) simp_all
    then have step: "bmc_hash_keys_main ops st ctx = (?st', ?ctx, TailCall BMC_PROG_XDP_HASH_KEYS XDP_PASS)"
      using run by (simp add: hash_keys_next_def)
    have "keys_added st (filter (slot_hit st) [k]) ?st'" using keys_added_one [OF k rd ki] by simp
    then have "unat (key_count (st_pctx ?st')) \<le> Suc (unat (key_count (st_pctx st)))" by (auto simp: keys_added_def split: if_splits)
    then obtain st2 d where st2: "xdp_tail_calls ops n' (bmc_hash_keys_main ops ?st' ?ctx) = (st2, ?ctx\<lparr>pkt_data := d\<rparr>, XDP_PASS)"
        "pkt_data ?ctx \<le> d" "st_kcache st2 = st_kcache st"
      using Cons.IH [of ?ctx ?st' n'] Cons.prems rd' line True n ks by auto
    then show ?thesis using step n by (intro exI [of _ st2] exI [of _ d]) simp
  qed
qed

end
