(* ===== verification/Bmc_Run.thy ===== *)
theory Bmc_Run
  imports Bmc_Serve
begin

unbundle bit_operations_syntax

text \<open>
  The properties of the receive chain as a whole: what the client gets for a request whose keys are
  all cached, and when the kernel's limit on tail calls makes BMC drop such a request.
\<close>

section \<open>The headers of the reply\<close>

text \<open>
  The frame at \<open>new\<close> in \<open>m'\<close> answers the one at \<open>old\<close> in \<open>m\<close>: MAC addresses, IP addresses and
  ports exchanged, the lengths those of \<open>n\<close> bytes of payload, no UDP checksum.
\<close>

definition answers :: "mem \<Rightarrow> nat \<Rightarrow> mem \<Rightarrow> nat \<Rightarrow> nat \<Rightarrow> bool" where
  "answers m old m' new n \<longleftrightarrow>
     mem_read m' new 6 = mem_read m (old + 6) 6 \<and> mem_read m' (new + 6) 6 = mem_read m old 6 \<and>
     mem_read m' (new + 26) 4 = mem_read m (old + 30) 4 \<and>
     mem_read m' (new + 30) 4 = mem_read m (old + 26) 4 \<and>
     mem_read m' (new + 34) 2 = mem_read m (old + 36) 2 \<and>
     mem_read m' (new + 36) 2 = mem_read m (old + 34) 2 \<and>
     mem_read m' (new + 42) 8 = mem_read m (old + 42) 8 \<and>
     be16 m' (new + 16) = of_nat (36 + n) \<and> be16 m' (new + 38) = of_nat (16 + n) \<and>
     be16 m' (new + 40) = 0"

lemma swap_bytes_read:
  assumes "a + n \<le> b \<or> b + n \<le> a"
  shows "mem_read (swap_bytes m a b n) a n = mem_read m b n"
    and "mem_read (swap_bytes m a b n) b n = mem_read m a n"
  using assms by (auto intro!: mem_read_cong simp: swap_bytes_nth)

lemma swap_bytes_read_other:
  assumes "c + l \<le> a \<or> a + n \<le> c" and "c + l \<le> b \<or> b + n \<le> c"
  shows "mem_read (swap_bytes m a b n) c l = mem_read m c l"
  using assms by (auto intro!: mem_read_cong simp: swap_bytes_def mem_write_def)

lemma mem_read_write_window:
  "k + n \<le> length bs \<Longrightarrow> mem_read (mem_write m a bs) (a + k) n = take n (drop k bs)"
  by (rule nth_equalityI) (simp_all add: add.assoc)

lemma mem_read_copy_window:
  "k + n \<le> l \<Longrightarrow> mem_read (mem_write m a (mem_read m b l)) (a + k) n = mem_read m (b + k) n"
  by (rule nth_equalityI) (simp_all add: add.assoc)

lemma reply_headers_read:
  "mem_read (reply_headers m old new) new 6 = mem_read m (old + 6) 6"
  "mem_read (reply_headers m old new) (new + 6) 6 = mem_read m old 6"
  "mem_read (reply_headers m old new) (new + 26) 4 = mem_read m (old + 30) 4"
  "mem_read (reply_headers m old new) (new + 30) 4 = mem_read m (old + 26) 4"
  "mem_read (reply_headers m old new) (new + 34) 2 = mem_read m (old + 36) 2"
  "mem_read (reply_headers m old new) (new + 36) 2 = mem_read m (old + 34) 2"
  "mem_read (reply_headers m old new) (new + 42) 8 = mem_read m (old + 42) 8"
  by (simp_all add: reply_headers_def swap_bytes_read swap_bytes_read_other mem_read_copy_window
      mem_read_copy_window [where k = 0, simplified])

lemma finish_headers_read:
  assumes "\<forall>j \<in> {16, 17, 24, 25, 38, 39, 40, 41}. hdr + j < c \<or> c + l \<le> hdr + j"
  shows "mem_read (finish_headers m hdr n) c l = mem_read m c l"
proof (rule mem_read_cong)
  fix i assume "i < l"
  then have "c + i \<noteq> hdr + j" if "j \<in> {16, 17, 24, 25, 38, 39, 40, 41}" for j
    using bspec [OF assms that] by auto
  then show "finish_headers m hdr n (c + i) = m (c + i)"
    by (intro finish_headers_out) auto
qed

lemma finish_headers_fields:
  "be16 (finish_headers m hdr n) (hdr + 16) = of_nat (36 + n)"
  "be16 (finish_headers m hdr n) (hdr + 38) = of_nat (16 + n)"
  "be16 (finish_headers m hdr n) (hdr + 40) = 0"
proof -
  have frame: "be16 m1 a = be16 m2 a" if "m1 a = m2 a" "m1 (a + 1) = m2 (a + 1)" for m1 m2 a
    using that by (simp add: be16_def)
  obtain m' check where c: "compute_ip_checksum (put_be16 m (hdr + 16) (of_nat (36 + n))) (hdr + 14) =
      (m', check)" by (cases "compute_ip_checksum (put_be16 m (hdr + 16) (of_nat (36 + n))) (hdr + 14)")
  then have m': "m' = put_le16 (put_be16 m (hdr + 16) (of_nat (36 + n))) (hdr + 24) 0"
    by (auto simp: compute_ip_checksum_def Let_def add.commute)
  let ?m = "put_be16 (put_le16 m' (hdr + 24) check) (hdr + 40) 0"
  have f: "finish_headers m hdr n = put_be16 ?m (hdr + 38) (of_nat (16 + n))"
    unfolding finish_headers_def c by simp
  show "be16 (finish_headers m hdr n) (hdr + 38) = of_nat (16 + n)" by (simp add: f)
  have "be16 (finish_headers m hdr n) (hdr + 40) = be16 ?m (hdr + 40)"
    by (rule frame) (simp_all add: f)
  then show "be16 (finish_headers m hdr n) (hdr + 40) = 0" by simp
  have "be16 (finish_headers m hdr n) (hdr + 16) =
      be16 (put_be16 m (hdr + 16) (of_nat (36 + n))) (hdr + 16)"
    by (rule frame) (simp_all add: f m')
  then show "be16 (finish_headers m hdr n) (hdr + 16) = of_nat (36 + n)" by simp
qed

lemma answers_reply:
  "answers m old (finish_headers (mem_write (reply_headers m old new) (new + HDRS_LEN) body) new n) new n"
  unfolding answers_def
  by (simp add: finish_headers_fields finish_headers_read mem_read_write_disjoint reply_headers_read)

lemma reply_body:
  "mem_read (finish_headers (mem_write m (new + HDRS_LEN) body) new n) (new + HDRS_LEN) (length body) = body"
  by (subst finish_headers_read) auto

section \<open>GET requests\<close>

text \<open>
  A request line for the keys \<open>ks\<close> of which those in \<open>krs\<close> are found in the cache, each with its
  reply; room in front of the packet for the 128 bytes the reply may grow by, and enough bytes
  behind the request for the head adjustments.
\<close>

definition mget_request ::
  "bmc_state \<Rightarrow> xdp_md \<Rightarrow> byte list list \<Rightarrow> (byte list \<times> byte list) list \<Rightarrow> bool" where
  "mget_request st ctx ks krs \<longleftrightarrow>
     ks \<noteq> [] \<and> length ks \<le> BMC_MAX_KEY_IN_PACKET \<and> list_all wf_key ks \<and>
     map fst krs = filter (slot_hit st) ks \<and> (\<forall>(k, r) \<in> set krs. cached st k r) \<and>
     (\<exists>rest. get_request ctx (key_line ks @ rest)) \<and>
     length (key_line ks) + 4 < 65536 \<and>
     pkt_start ctx + ADJUST_HEAD_LEN \<le> pkt_data ctx \<and>
     pkt_data ctx + HDRS_LEN + 4 + length (key_line ks) + ETH_LEN
       \<le> pkt_end ctx + length (last ks) + 1"

text \<open>Whether the replies fit in the packet once it has grown by \<open>ADJUST_HEAD_LEN\<close> bytes.\<close>

definition reply_fits :: "xdp_md \<Rightarrow> (byte list \<times> byte list) list \<Rightarrow> bool" where
  "reply_fits ctx krs \<longleftrightarrow> fits (pkt_data ctx - ADJUST_HEAD_LEN + HDRS_LEN) (pkt_end ctx) krs"

lemma key_line_start:
  assumes "ks \<noteq> []" and "list_all wf_key ks"
  obtains c l where "key_line ks = c # l" "c \<noteq> SP"
proof -
  obtain k kt where ks: "ks = k # kt" using assms(1) by (cases ks) auto
  moreover from this obtain c k' where "k = c # k'" "key_char c"
    using assms(2) by (cases k) (auto simp: wf_key_def)
  ultimately show thesis by (cases kt) (auto simp: key_char_def intro: that)
qed

text \<open>The filter and the hashing phase together.\<close>

lemma mget_hash:
  assumes ops: "bpf_ops_ok ops" and req: "mget_request st ctx ks krs" and n: "Suc (length ks) \<le> n"
  shows "\<exists>st'. keys_added (rx_state st 4) (map fst krs) st' \<and>
    xdp_tail_calls ops n (bmc_rx_filter_main ops st ctx) =
    hash_outcome ops (n - Suc (length ks)) st' ctx"
proof -
  let ?st = "rx_state st 4" and ?ctx = "ctx\<lparr>pkt_data := pkt_data ctx + HDRS_LEN + 4\<rparr>"
  obtain rest where g: "get_request ctx (key_line ks @ rest)"
    using req by (auto simp: mget_request_def)
  have ks: "ks \<noteq> []" "list_all wf_key ks" using req by (auto simp: mget_request_def)
  obtain c l where cl: "key_line ks = c # l" "c \<noteq> SP" using key_line_start [OF ks] .
  have last: "length (last ks) + 1 \<le> length (key_line ks)"
    using length_key_line_last [OF ks(1)] by simp
  have rx: "bmc_rx_filter_main ops st ctx = (?st, ?ctx, TailCall BMC_PROG_XDP_HASH_KEYS XDP_PASS)"
    using rx_filter_get [OF ops, of ctx c "l @ rest"] g cl req last by (simp add: mget_request_def)
  have rd: "mem_read (pkt_mem ctx) (pkt_data ctx + HDRS_LEN + 4) (length (key_line ks)) = key_line ks"
    using get_request_read(2) [OF g] by (simp add: mem_read_append_iff)
  have fit: "pkt_data ctx + HDRS_LEN + 4 + length (key_line ks) \<le> pkt_end ctx"
    using g by (simp add: get_request_def)
  obtain n' where n': "n = Suc n'" "length ks \<le> n'" using n by (cases n) auto
  have R: "unat (read_pkt_offset (st_pctx ?st)) = 4" "key_count (st_pctx ?st) = 0"
    by (simp_all add: rx_state_def)
  have "filter (slot_hit ?st) ks = map fst krs"
    using req by (simp add: mget_request_def rx_state_def)
  moreover have "?ctx\<lparr>pkt_data := pkt_data ?ctx - (HDRS_LEN + unat (read_pkt_offset (st_pctx ?st)))\<rparr> = ctx"
    using R(1) by simp
  ultimately show ?thesis
    using hash_phase [OF ops ks, of ?ctx ?st n'] rd fit req n' R last
    by (auto simp: mget_request_def rx)
qed

text \<open>With at least one key found, control reaches the writing phase.\<close>

lemma mget_prepare:
  assumes ops: "bpf_ops_ok ops" and req: "mget_request st ctx ks krs" and ne: "krs \<noteq> []"
    and n: "Suc (Suc (length ks)) \<le> n"
  shows "\<exists>st'. pending st' krs \<and> write_pkt_offset (st_pctx st') = 0 \<and> st_kcache st' = st_kcache st \<and>
    xdp_tail_calls ops n (bmc_rx_filter_main ops st ctx) =
    xdp_tail_calls ops (n - Suc (Suc (length ks))) (bmc_write_reply_main ops st'
      (ctx\<lparr>pkt_mem := reply_headers (pkt_mem ctx) (pkt_data ctx) (pkt_data ctx - ADJUST_HEAD_LEN),
           pkt_data := pkt_data ctx - ADJUST_HEAD_LEN + HDRS_LEN\<rparr>))"
proof -
  from n obtain n' where n': "n = Suc (Suc n')" by (cases n; cases "n - 1") auto
  obtain st' where st': "keys_added (rx_state st 4) (map fst krs) st'"
    "xdp_tail_calls ops n (bmc_rx_filter_main ops st ctx) = hash_outcome ops (n - Suc (length ks)) st' ctx"
    using mget_hash [OF ops req, of n] n by auto
  then have "unat (key_count (st_pctx st')) = length krs"
    by (simp add: keys_added_def rx_state_def)
  then have kc: "key_count (st_pctx st') > 0" using ne by (cases krs) (auto simp: word_less_nat_alt)
  have hits: "map fst krs = filter (slot_hit st) ks" "length ks \<le> BMC_MAX_KEY_IN_PACKET"
    using req by (simp_all add: mget_request_def)
  from arg_cong [OF hits(1), of length] have len: "length krs \<le> BMC_MAX_KEY_IN_PACKET"
    using length_filter_le [of "slot_hit st" ks] hits(2) unfolding length_map by linarith
  have "cached st (fst (krs ! j)) (snd (krs ! j))" if "j < length krs" for j
    using req nth_mem [OF that] by (cases "krs ! j") (auto simp: mget_request_def)
  then have "pending st' krs"
    using st'(1) len unfolding pending_def keys_added_def by (simp add: rx_state_def)
  moreover have "bmc_prepare_packet_main ops st' ctx =
    (st', ctx\<lparr>pkt_mem := reply_headers (pkt_mem ctx) (pkt_data ctx) (pkt_data ctx - ADJUST_HEAD_LEN),
             pkt_data := pkt_data ctx - ADJUST_HEAD_LEN + HDRS_LEN\<rparr>,
     TailCall BMC_PROG_XDP_WRITE_REPLY XDP_PASS)"
    using req by (intro prepare_packet_eq [OF ops]) (auto simp: mget_request_def get_request_def)
  ultimately show ?thesis
    using st' kc n n' by (intro exI [of _ st'])
      (auto simp: keys_added_def rx_state_def hash_outcome_def Suc_diff_le)
qed

lemma served_all_kcache [simp]: "st_kcache (served_all krs st) = st_kcache st"
  by (induction krs st rule: served_all.induct) (simp_all add: served_state_def)

text \<open>The frame sent back for a request answered with \<open>body\<close>.\<close>

definition reply_frame :: "xdp_md \<Rightarrow> byte list \<Rightarrow> xdp_md \<Rightarrow> bool" where
  "reply_frame ctx body ctx' \<longleftrightarrow>
     pkt_data ctx' + ADJUST_HEAD_LEN = pkt_data ctx \<and>
     pkt_end ctx' = pkt_data ctx' + HDRS_LEN + length body \<and>
     mem_read (pkt_mem ctx') (pkt_data ctx' + HDRS_LEN) (length body) = body \<and>
     answers (pkt_mem ctx) (pkt_data ctx) (pkt_mem ctx') (pkt_data ctx') (length body)"

lemma mget_served:
  assumes ops: "bpf_ops_ok ops" and req: "mget_request st ctx ks krs" and ne: "krs \<noteq> []"
    and fit: "reply_fits ctx krs" "length (replies krs) < 65536"
    and n: "Suc (length ks) + length krs \<le> op_tail_call_limit ops"
  shows "\<exists>st' ctx'. bmc_run_xdp ops st ctx = (st', ctx', XDP_TX) \<and> st_kcache st' = st_kcache st \<and>
    reply_frame ctx (replies krs @ END_LINE) ctx'"
proof -
  from n ne have "Suc (Suc (length ks)) \<le> op_tail_call_limit ops" by (cases krs) auto
  from mget_prepare [OF ops req ne this] obtain st1 where st1: "pending st1 krs"
    "write_pkt_offset (st_pctx st1) = 0" "st_kcache st1 = st_kcache st"
    "bmc_run_xdp ops st ctx =
     xdp_tail_calls ops (op_tail_call_limit ops - Suc (Suc (length ks))) (bmc_write_reply_main ops st1
       (ctx\<lparr>pkt_mem := reply_headers (pkt_mem ctx) (pkt_data ctx) (pkt_data ctx - ADJUST_HEAD_LEN),
           pkt_data := pkt_data ctx - ADJUST_HEAD_LEN + HDRS_LEN\<rparr>))"
    by (auto simp: bmc_run_xdp_def)
  obtain d where d: "pkt_data ctx = d + ADJUST_HEAD_LEN"
    using req le_Suc_ex [of ADJUST_HEAD_LEN "pkt_data ctx"]
    by (auto simp: mget_request_def add.commute)
  have len: "length (replies krs @ END_LINE) = length (replies krs) + 5" by simp
  have "bmc_run_xdp ops st ctx = (served_all krs st1,
     ctx\<lparr>pkt_mem := finish_headers (mem_write (reply_headers (pkt_mem ctx) (pkt_data ctx) d)
            (d + HDRS_LEN) (replies krs @ END_LINE)) d (length (replies krs @ END_LINE)),
         pkt_data := d, pkt_end := d + HDRS_LEN + length (replies krs @ END_LINE)\<rparr>, XDP_TX)"
    unfolding st1(4) len using req n st1(2) d fit
    by (subst write_phase [OF ops ne st1(1)]) (auto simp: mget_request_def reply_fits_def)
  then show ?thesis
    using st1(3) d
    by (simp add: reply_frame_def answers_reply reply_body del: bytes_simps length_append)
qed

text \<open>
  C3. A GET request over UDP of which at least one key is in BMC's cache is answered by BMC
  itself, provided the kernel allows one tail call per key to hash it, one to prepare the packet
  and one per cached key to write its reply, and that the replies fit in the request's packet grown
  by 128 bytes: the verdict is XDP_TX, the payload sent is the cached replies in the order of the
  request followed by END, the packet ends there, the headers are the request's with source and
  destination exchanged and the right lengths, and the cache is unchanged. Keys of the request that
  are not cached are left out of the reply.
\<close>

theorem mget_answered:
  assumes "bpf_ops_ok ops" and "mget_request st ctx ks krs" and "krs \<noteq> []"
    and "reply_fits ctx krs" and "length (replies krs) < 65536"
    and "length ks + length krs + 1 \<le> op_tail_call_limit ops"
  shows "\<exists>st' ctx'. bmc_run_xdp ops st ctx = (st', ctx', XDP_TX) \<and> st_kcache st' = st_kcache st \<and>
    pkt_data ctx' + ADJUST_HEAD_LEN = pkt_data ctx \<and>
    pkt_end ctx' = pkt_data ctx' + HDRS_LEN + length (replies krs @ END_LINE) \<and>
    mem_read (pkt_mem ctx') (pkt_data ctx' + HDRS_LEN) (length (replies krs @ END_LINE)) =
      replies krs @ END_LINE \<and>
    answers (pkt_mem ctx) (pkt_data ctx) (pkt_mem ctx') (pkt_data ctx') (length (replies krs @ END_LINE))"
  using mget_served [OF assms(1-5)] assms(6) unfolding reply_frame_def by simp

lemma mget_drop:
  assumes ops: "bpf_ops_ok ops" and req: "mget_request st ctx ks krs" and ne: "krs \<noteq> []"
    and n: "length ks + 2 \<le> op_tail_call_limit ops"
    and bad: "\<not> reply_fits ctx krs \<or> op_tail_call_limit ops \<le> length ks + length krs"
  shows "snd (snd (bmc_run_xdp ops st ctx)) = XDP_DROP"
proof -
  from n have "Suc (Suc (length ks)) \<le> op_tail_call_limit ops" by simp
  from mget_prepare [OF ops req ne this] obtain st1 where st1: "pending st1 krs"
    "bmc_run_xdp ops st ctx =
     xdp_tail_calls ops (op_tail_call_limit ops - Suc (Suc (length ks))) (bmc_write_reply_main ops st1
       (ctx\<lparr>pkt_mem := reply_headers (pkt_mem ctx) (pkt_data ctx) (pkt_data ctx - ADJUST_HEAD_LEN),
           pkt_data := pkt_data ctx - ADJUST_HEAD_LEN + HDRS_LEN\<rparr>))"
    by (auto simp: bmc_run_xdp_def)
  have "pkt_data ctx + HDRS_LEN < pkt_end ctx"
    using req by (auto simp: mget_request_def get_request_def)
  then show ?thesis
    unfolding st1(2) using n bad
    by (intro write_phase_drop [OF ops ne st1(1)]) (auto simp: reply_fits_def)
qed

text \<open>
  C26. Outside those two limits the request is neither answered nor passed to memcached: if the
  cached replies do not fit in the request's packet grown by 128 bytes, or if the kernel's limit on
  successive tail calls is below the number needed, the verdict is XDP_DROP. With Linux's limit of
  33 the latter is every request for 17 to 30 cached keys, although BMC accepts 30 keys in a packet;
  the former is every request for a cached value that is longer than the request by about 128 bytes,
  although values of 1000 bytes are cached.
\<close>

theorem mget_dropped:
  assumes "bpf_ops_ok ops" and "mget_request st ctx ks krs" and "krs \<noteq> []"
    and "length ks + 2 \<le> op_tail_call_limit ops"
    and "\<not> reply_fits ctx krs \<or> op_tail_call_limit ops \<le> length ks + length krs"
  shows "snd (snd (bmc_run_xdp ops st ctx)) = XDP_DROP"
  by (rule mget_drop [OF assms])

lemma mget_missed:
  assumes ops: "bpf_ops_ok ops" and req: "mget_request st ctx ks []"
    and n: "length ks < op_tail_call_limit ops"
  shows "\<exists>st'. bmc_run_xdp ops st ctx = (st', ctx, XDP_PASS) \<and> st_kcache st' = st_kcache st"
proof -
  obtain st' where st': "keys_added (rx_state st 4) [] st'"
    "bmc_run_xdp ops st ctx = hash_outcome ops (op_tail_call_limit ops - Suc (length ks)) st' ctx"
    using mget_hash [OF ops req, of "op_tail_call_limit ops"] n by (auto simp: bmc_run_xdp_def)
  then have "key_count (st_pctx st') = 0" by (simp add: keys_added_def rx_state_def unat_eq_0)
  with st' show ?thesis by (auto simp: hash_outcome_def keys_added_def rx_state_def)
qed

text \<open>
  A request line for keys none of which has a slot in the cache; whether the frame leaves the room of an
  Ethernet header behind the place where the first and where the last key starts, as the kernel demands of a
  new head.
\<close>

definition missed_get :: "bmc_state \<Rightarrow> xdp_md \<Rightarrow> byte list list \<Rightarrow> bool" where
  "missed_get st ctx ks \<longleftrightarrow>
     ks \<noteq> [] \<and> length ks \<le> BMC_MAX_KEY_IN_PACKET \<and> list_all wf_key ks \<and> (\<forall>k \<in> set ks. \<not> slot_hit st k) \<and>
     (\<exists>rest. get_request ctx (key_line ks @ rest)) \<and>
     length (key_line ks) + 4 < 65536 \<and> pkt_start ctx + ADJUST_HEAD_LEN \<le> pkt_data ctx"

definition first_key_room :: "xdp_md \<Rightarrow> bool" where
  "first_key_room ctx \<longleftrightarrow> pkt_data ctx + HDRS_LEN + 4 + ETH_LEN \<le> pkt_end ctx"

definition last_key_room :: "xdp_md \<Rightarrow> byte list list \<Rightarrow> bool" where
  "last_key_room ctx ks \<longleftrightarrow>
     pkt_data ctx + HDRS_LEN + 4 + length (key_line ks) + ETH_LEN \<le> pkt_end ctx + length (last ks) + 1"

lemma mget_moved:
  assumes ops: "bpf_ops_ok ops" and req: "missed_get st ctx ks" and n: "length ks < op_tail_call_limit ops"
    and room: "first_key_room ctx" "\<not> last_key_room ctx ks"
  shows "\<exists>st' d. bmc_run_xdp ops st ctx = (st', ctx\<lparr>pkt_data := d\<rparr>, XDP_PASS) \<and> pkt_data ctx + HDRS_LEN + 4 \<le> d \<and>
    st_kcache st' = st_kcache st"
proof -
  let ?st = "rx_state st 4" and ?ctx = "ctx\<lparr>pkt_data := pkt_data ctx + HDRS_LEN + 4\<rparr>"
  obtain rest where g: "get_request ctx (key_line ks @ rest)" using req by (auto simp: missed_get_def)
  have ks: "ks \<noteq> []" "list_all wf_key ks" using req by (auto simp: missed_get_def)
  obtain c l where cl: "key_line ks = c # l" "c \<noteq> SP" using key_line_start [OF ks] .
  have rx: "bmc_rx_filter_main ops st ctx = (?st, ?ctx, TailCall BMC_PROG_XDP_HASH_KEYS XDP_PASS)"
    using rx_filter_get [OF ops, of ctx c "l @ rest"] g cl req room(1) by (simp add: missed_get_def first_key_room_def)
  have rd: "mem_read (pkt_mem ctx) (pkt_data ctx + HDRS_LEN + 4) (length (key_line ks)) = key_line ks"
    using get_request_read(2) [OF g] by (simp add: mem_read_append_iff)
  have fit: "pkt_data ctx + HDRS_LEN + 4 + length (key_line ks) \<le> pkt_end ctx" using g by (simp add: get_request_def)
  obtain n' where n': "op_tail_call_limit ops = Suc n'" "length ks \<le> n'" using n by (cases "op_tail_call_limit ops") auto
  obtain st' d where h: "xdp_tail_calls ops n' (bmc_hash_keys_main ops ?st ?ctx) = (st', ?ctx\<lparr>pkt_data := d\<rparr>, XDP_PASS)"
      "pkt_data ?ctx \<le> d" "st_kcache st' = st_kcache ?st"
    using hash_phase_stuck [OF ops ks, of ?ctx ?st n'] rd fit req n'(2) room
    by (auto simp: missed_get_def first_key_room_def last_key_room_def rx_state_def)
  then show ?thesis using rx n'(1) by (intro exI [of _ st'] exI [of _ d]) (simp add: bmc_run_xdp_def rx_state_def)
qed

lemma mget_tight:
  assumes ops: "bpf_ops_ok ops" and req: "missed_get st ctx ks" and room: "\<not> first_key_room ctx"
  shows "\<exists>st'. bmc_run_xdp ops st ctx = (st', ctx, XDP_PASS) \<and> st_kcache st' = st_kcache st"
proof -
  obtain rest where g: "get_request ctx (key_line ks @ rest)" using req by (auto simp: missed_get_def)
  have ks: "ks \<noteq> []" "list_all wf_key ks" using req by (auto simp: missed_get_def)
  obtain c l where cl: "key_line ks = c # l" "c \<noteq> SP" using key_line_start [OF ks] .
  have "bmc_rx_filter_main ops st ctx = (rx_state st 4, ctx, Return XDP_PASS)"
    using rx_filter_tight [OF ops, of ctx c "l @ rest"] g cl room by (simp add: first_key_room_def)
  then show ?thesis by (simp add: bmc_run_xdp_def rx_state_def)
qed

text \<open>
  C16. A GET request none of whose keys is cached is passed on (XDP_PASS) with its bytes and the cache unchanged. The packet has the bounds it
  was received with, whatever the programs moved meanwhile, if the frame has at least 14 bytes from the start of the last key on, or fewer
  than 14 from the start of the first. In between, moving the head fails at a later key and the
  packet goes to memcached's host with its head left behind the headers and the command word.
\<close>

theorem mget_passed:
  assumes "bpf_ops_ok ops" and "missed_get st ctx ks" and "length ks < op_tail_call_limit ops"
  shows "\<exists>st' d. bmc_run_xdp ops st ctx = (st', ctx\<lparr>pkt_data := d\<rparr>, XDP_PASS) \<and> st_kcache st' = st_kcache st \<and>
    (if last_key_room ctx ks \<or> \<not> first_key_room ctx then d = pkt_data ctx else pkt_data ctx + HDRS_LEN + 4 \<le> d)"
proof -
  have same: "ctx\<lparr>pkt_data := pkt_data ctx\<rparr> = ctx" by simp
  consider (room) "last_key_room ctx ks" | (tight) "\<not> first_key_room ctx" | (moved) "first_key_room ctx" "\<not> last_key_room ctx ks" by blast
  then show ?thesis
  proof cases
    case room
    then have "mget_request st ctx ks []" using assms(2) by (simp add: missed_get_def last_key_room_def mget_request_def)
    then show ?thesis using mget_missed [OF assms(1) _ assms(3)] room same by metis
  next
    case tight
    then show ?thesis using mget_tight [OF assms(1,2)] same by metis
  next
    case moved
    then show ?thesis using mget_moved [OF assms] by metis
  qed
qed

section \<open>Hash collisions\<close>

text \<open>The slot of \<open>k\<close> is valid and carries its hash, but the stored key differs from \<open>k\<close>.\<close>

definition mispredicted :: "bmc_state \<Rightarrow> byte list \<Rightarrow> bool" where
  "mispredicted st k \<longleftrightarrow> slot_hit st k \<and>
     (\<exists>j < length k. ce_data (st_kcache st (cache_idx (fnv k))) (6 + j) \<noteq> k ! j)"

lemma reply_entry_mispredicted:
  assumes "key_saved key k" and "mispredicted st k" and "length k \<le> BMC_MAX_KEY_LENGTH"
  shows "reply_entry key (st_kcache st (cache_idx (fnv k))) p e m = (m, False, 0)"
proof -
  obtain j where j: "j < length k" "ce_data (st_kcache st (cache_idx (fnv k))) (6 + j) \<noteq> k ! j"
    using assms(2) by (auto simp: mispredicted_def)
  moreover have "mk_data key (0 + j) = k ! j"
    using assms(1) j(1) by (intro mem_read_eqD) (auto simp: key_saved_def)
  moreover have "unat (mk_len key) = length k" "mk_hash key = fnv k"
    using assms(1) by (simp_all add: key_saved_def)
  ultimately have "\<not> key_cmp_loop key (st_kcache st (cache_idx (fnv k))) 0 True"
    using assms(3) by (auto simp: key_cmp_loop_eq intro!: exI [of _ j])
  then show ?thesis
    using assms(2) \<open>mk_hash key = fnv k\<close> by (simp add: reply_entry_def mispredicted_def)
qed

lemma write_reply_mispredicted:
  assumes ops: "bpf_ops_ok ops" and key: "key_saved (st_keys st 0) k" "length k \<le> BMC_MAX_KEY_LENGTH"
    and mis: "mispredicted st k" and data: "pkt_data ctx < pkt_end ctx"
    and pctx: "key_count (st_pctx st) = 1" "current_key (st_pctx st) = 0" "write_pkt_offset (st_pctx st) = 0"
    and head: "op_adjust_head ops ctx 78 = Some c"
  shows "\<exists>st'. bmc_write_reply_main ops st ctx = (st', c, Return XDP_PASS) \<and> st_kcache st' = st_kcache st"
proof -
  have "mk_hash (st_keys st 0) = fnv k" using key(1) by (simp add: key_saved_def)
  then show ?thesis
    using ops data pctx head reply_entry_mispredicted [OF key(1) mis key(2)]
    by (simp add: bmc_write_reply_main_def Let_def)
qed

text \<open>A request for one key, before anything is known about the cache.\<close>

definition get_one :: "xdp_md \<Rightarrow> byte list \<Rightarrow> bool" where
  "get_one ctx k \<longleftrightarrow>
     wf_key k \<and> (\<exists>rest. get_request ctx (k @ CR # rest)) \<and>
     pkt_start ctx + ADJUST_HEAD_LEN \<le> pkt_data ctx \<and> pkt_data ctx + HDRS_LEN + 4 + ETH_LEN \<le> pkt_end ctx"

lemma get_one_mget:
  assumes "get_one ctx k"
  shows "cached st k r \<Longrightarrow> mget_request st ctx [k] [(k, r)]" "\<not> slot_hit st k \<Longrightarrow> mget_request st ctx [k] []"
  using assms by (auto simp: get_one_def mget_request_def entry_holds_def wf_key_def)

lemma mispredict_passes:
  assumes ops: "bpf_ops_ok ops" and limit: "3 \<le> op_tail_call_limit ops" and req: "get_one ctx k"
    and mis: "mispredicted st k"
  shows "\<exists>st' ctx'. bmc_run_xdp ops st ctx = (st', ctx', XDP_PASS) \<and> st_kcache st' = st_kcache st \<and>
    pkt_data ctx' = pkt_data ctx \<and> pkt_end ctx' = pkt_end ctx \<and>
    (\<forall>a. pkt_data ctx \<le> a \<longrightarrow> pkt_mem ctx' a = pkt_mem ctx a)"
proof -
  let ?st = "rx_state st 4" and ?ctx = "ctx\<lparr>pkt_data := pkt_data ctx + HDRS_LEN + 4\<rparr>"
  obtain rest where g: "get_request ctx (k @ CR # rest)" using req by (auto simp: get_one_def)
  have k: "wf_key k" "length k \<le> 250" using req by (auto simp: get_one_def wf_key_def)
  obtain c k' where ck: "k = c # k'" "c \<noteq> SP" using k(1) by (cases k) (auto simp: wf_key_def key_char_def)
  have room: "pkt_start ctx + 128 \<le> pkt_data ctx" "pkt_data ctx + 68 \<le> pkt_end ctx"
    using req by (auto simp: get_one_def)
  have rx: "bmc_rx_filter_main ops st ctx = (?st, ?ctx, TailCall BMC_PROG_XDP_HASH_KEYS XDP_PASS)"
    using rx_filter_get [OF ops, of ctx c "k' @ CR # rest"] g ck room by simp
  have rd: "mem_read (pkt_mem ?ctx) (pkt_data ?ctx) (length (key_line [k])) = key_line [k]"
    using get_request_read(2) [OF g] mem_read_append_iff [of "pkt_mem ctx" _ "k @ [CR]" rest] by simp
  obtain d where d: "pkt_data ctx = d + 128" using room(1) le_Suc_ex [of 128 "pkt_data ctx"] by auto
  obtain n where n: "op_tail_call_limit ops = Suc (Suc (Suc n))"
    using limit le_Suc_ex [of 3 "op_tail_call_limit ops"] by (auto simp: numeral_3_eq_3)
  have hit: "filter (slot_hit ?st) [k] = [k]" using mis by (simp add: mispredicted_def rx_state_def)
  obtain st1 where st1: "keys_added ?st [k] st1"
    "xdp_tail_calls ops (Suc (Suc n)) (bmc_hash_keys_main ops ?st ?ctx) =
     hash_outcome ops (Suc n) st1 ctx"
    using hash_phase [OF ops, of "[k]" ?ctx ?st "Suc (Suc n)"] rd g k room hit
    by (auto simp: get_request_def rx_state_def)
  have kc: "key_count (st_pctx st1) = 1" "current_key (st_pctx st1) = 0" "write_pkt_offset (st_pctx st1) = 0"
    "key_saved (st_keys st1 0) k" "st_kcache st1 = st_kcache st"
    using st1(1) by (auto simp: keys_added_def rx_state_def word_unat_eq_iff)
  let ?ctx1 = "ctx\<lparr>pkt_mem := reply_headers (pkt_mem ctx) (pkt_data ctx) d, pkt_data := d + HDRS_LEN\<rparr>"
  have prep: "bmc_prepare_packet_main ops st1 ctx = (st1, ?ctx1, TailCall BMC_PROG_XDP_WRITE_REPLY XDP_PASS)"
    using room d prepare_packet_eq [OF ops, of ctx st1] by simp
  have mis': "mispredicted st1 k" using mis kc(5) by (simp add: mispredicted_def)
  have "op_adjust_head ops ?ctx1 (int 78) = Some (?ctx1\<lparr>pkt_data := d + HDRS_LEN + 78\<rparr>)"
    using room d by (subst adjust_head_fwd [OF ops]) auto
  then have head: "op_adjust_head ops ?ctx1 78 = Some (?ctx1\<lparr>pkt_data := d + 128\<rparr>)" by simp
  have "\<exists>st'. bmc_write_reply_main ops st1 ?ctx1 =
      (st', ?ctx1\<lparr>pkt_data := d + 128\<rparr>, Return XDP_PASS) \<and> st_kcache st' = st_kcache st1"
    using room d k(2) kc(1-4) mis' head by (intro write_reply_mispredicted [OF ops]) auto
  then obtain st' where wr: "bmc_write_reply_main ops st1 ?ctx1 =
      (st', ?ctx1\<lparr>pkt_data := d + 128\<rparr>, Return XDP_PASS)" "st_kcache st' = st_kcache st"
    unfolding kc(5) by blast
  then have "bmc_run_xdp ops st ctx = (st', ?ctx1\<lparr>pkt_data := d + 128\<rparr>, XDP_PASS)"
    using st1(2) kc(1) prep by (simp add: bmc_run_xdp_def n rx hash_outcome_def)
  with wr(2) d show ?thesis
    by (auto simp: reply_headers_out)
qed

text \<open>
  A GET for a key whose hash collides with that of a different cached key is not answered with
  the other key's value: the comparison of the stored key fails, the packet goes to memcached with
  its bounds restored and every one of its bytes as received.
\<close>

theorem collision_passed:
  assumes "bpf_ops_ok ops" and "3 \<le> op_tail_call_limit ops" and "get_one ctx k" and "mispredicted st k"
  shows "\<exists>st' ctx'. bmc_run_xdp ops st ctx = (st', ctx', XDP_PASS) \<and> st_kcache st' = st_kcache st \<and>
    pkt_data ctx' = pkt_data ctx \<and> pkt_end ctx' = pkt_end ctx \<and>
    (\<forall>a. pkt_data ctx \<le> a \<longrightarrow> pkt_mem ctx' a = pkt_mem ctx a)"
  by (rule mispredict_passes [OF assms])

end
