(* ===== verification/Bmc_Invalidate.thy ===== *)
theory Bmc_Invalidate
  imports Bmc_Get
begin

unbundle bit_operations_syntax

text \<open>
  What the program on the TCP path does to the cache: every entry keeps its contents and at most
  loses its validity, and the entry of the key of a set command loses it.
\<close>

section \<open>Only validity is lost\<close>

definition lost_validity :: "bmc_state \<Rightarrow> bmc_state \<Rightarrow> bool" where
  "lost_validity st st' \<longleftrightarrow>
     st_keys st' = st_keys st \<and> st_pctx st' = st_pctx st \<and>
     (\<forall>i. st_kcache st' i = st_kcache st i \<or> st_kcache st' i = (st_kcache st i)\<lparr>ce_valid := 0\<rparr>)"

lemma lost_validity_refl [simp, intro]: "lost_validity st st"
  by (simp add: lost_validity_def)

lemma lost_validity_stats [simp]: "lost_validity st (st_stats_update f st') \<longleftrightarrow> lost_validity st st'"
  by (simp add: lost_validity_def)

lemma lost_validity_trans:
  "lost_validity st1 st2 \<Longrightarrow> lost_validity st2 st3 \<Longrightarrow> lost_validity st1 st3"
  unfolding lost_validity_def by (metis bmc_cache_entry.update_convs(2) bmc_cache_entry.surjective)

text \<open>The critical section on the entry of a hash.\<close>

definition inval_slot :: "u32 \<Rightarrow> bmc_state \<Rightarrow> bmc_state" where
  "inval_slot hash st =
     (let entry = st_kcache st (cache_idx hash) in
      if ce_valid entry \<noteq> 0 then
        st_stats_update (invalidation_count_update (\<lambda>n. n + 1))
          (st\<lparr>st_kcache := (st_kcache st)(cache_idx hash := entry\<lparr>ce_valid := 0\<rparr>)\<rparr>)
      else st)"

lemma lost_validity_inval_slot [simp]: "lost_validity st (inval_slot hash st)"
  by (simp add: inval_slot_def lost_validity_def Let_def)

lemma inval_slot_invalid: "ce_valid (st_kcache (inval_slot hash st) (cache_idx hash)) = 0"
  by (simp add: inval_slot_def Let_def)

lemma lost_validity_invalid:
  "lost_validity st st' \<Longrightarrow> ce_valid (st_kcache st i) = 0 \<Longrightarrow> ce_valid (st_kcache st' i) = 0"
  unfolding lost_validity_def
  by (metis bmc_cache_entry.simps(2) bmc_cache_entry.surjective bmc_cache_entry.update_convs(2))

lemma if_cases_intro:
  "(P \<Longrightarrow> Q x) \<Longrightarrow> (\<not> P \<Longrightarrow> Q y) \<Longrightarrow> Q (if P then x else y)"
  by simp

lemma invalidate_loop_inval:
  assumes "off < BMC_MAX_PACKET_LENGTH" "p + off + 1 \<le> e" "m (p + off) = SP"
  shows "invalidate_loop ops m p e off True True h st =
    (if op_lookup ops map_kcache (cache_idx h)
     then invalidate_loop ops m p e (off + 1) False False h (inval_slot h st) else st)"
  using assms by (simp add: invalidate_loop.simps [of ops m p e off] inval_slot_def Let_def)

lemma invalidate_loop_lost_validity:
  "lost_validity st (invalidate_loop ops m p e off s k h st)"
proof (induction "BMC_MAX_PACKET_LENGTH - off" arbitrary: off s k h st rule: less_induct)
  case less
  let ?loop = "invalidate_loop ops m p e"
  show ?case
  proof (cases "off < BMC_MAX_PACKET_LENGTH \<and> p + off + 1 \<le> e")
    case True
    then have IH: "lost_validity st (?loop off' s' k' h' st)" if "off < off'" for off' s' k' h' st
      using less [of off'] that by auto
    have set: "lost_validity st
        (?loop (off + 3 + 1) s' k' h' (st_stats_update (set_recv_count_update (\<lambda>n. n + 1)) st))" for s' k' h'
      using IH [of "off + 3 + 1" "st_stats_update (set_recv_count_update (\<lambda>n. n + 1)) st"]
      by (simp add: lost_validity_def)
    have inval: "lost_validity st (?loop (off + 1) False False h (inval_slot h st))"
      using lost_validity_trans [OF lost_validity_inval_slot IH] by simp
    show ?thesis
      unfolding invalidate_loop.simps [of ops m p e off] if_P [OF True]
      by (intro if_cases_intro [of _ "lost_validity st"] set IH)
        (use inval in \<open>simp_all add: inval_slot_def Let_def\<close>)
  next
    case False
    then show ?thesis unfolding invalidate_loop.simps [of ops m p e off] if_not_P [OF False] by simp
  qed
qed

section \<open>A set command\<close>

text \<open>A prefix without the letter s is skipped.\<close>

lemma invalidate_loop_skip:
  assumes "\<forall>i < n. m (p + off + i) \<noteq> of_char (CHR ''s'')"
    and "off + n \<le> BMC_MAX_PACKET_LENGTH" and "p + off + n \<le> e"
  shows "invalidate_loop ops m p e off False False h st = invalidate_loop ops m p e (off + n) False False h st"
  using assms
proof (induction n arbitrary: off)
  case (Suc n)
  have "m (p + off) \<noteq> of_char (CHR ''s'')" using Suc.prems(1) by (metis add_0_right zero_less_Suc)
  moreover have "\<forall>i < n. m (p + (off + 1) + i) \<noteq> of_char (CHR ''s'')"
    using Suc.prems(1) by (metis Suc_eq_plus1 Suc_less_eq add.assoc add.commute)
  ultimately show ?case
    using Suc.IH [of "off + 1"] Suc.prems(2,3)
    by (simp add: invalidate_loop.simps [of ops m p e off])
qed simp

text \<open>Inside a key, bytes are hashed until the space that ends it.\<close>

lemma invalidate_loop_key:
  assumes "list_all (\<lambda>b. b \<noteq> SP) k" and "mem_read m (p + off) (length k) = k"
    and "off + length k \<le> BMC_MAX_PACKET_LENGTH" and "p + off + length k \<le> e"
  shows "invalidate_loop ops m p e off True True h st =
    invalidate_loop ops m p e (off + length k) True True (fnv1a_hash32 k h) st"
  using assms
proof (induction k arbitrary: off h)
  case (Cons b k)
  then show ?case
    using Cons.IH [of "off + 1" "fnv_step h b"]
    by (simp add: invalidate_loop.simps [of ops m p e off] mem_read_Suc)
qed simp

lemma invalidate_loop_set:
  assumes ops: "bpf_ops_ok ops" and k: "wf_key k"
    and rd: "mem_read m (p + off) (4 + length k + 1) = bytes ''set '' @ k @ [SP]"
    and fit: "off + 4 + length k < BMC_MAX_PACKET_LENGTH" "p + off + 4 + length k < e"
  shows "invalidate_loop ops m p e off False False h st =
    invalidate_loop ops m p e (off + 4 + length k + 1) False False (fnv k)
      (inval_slot (fnv k) (st_stats_update (set_recv_count_update (\<lambda>n. n + 1)) st))"
proof -
  let ?st = "st_stats_update (set_recv_count_update (\<lambda>n. n + 1)) st"
  obtain c k' where ck: "k = c # k'" "c \<noteq> SP" "c \<noteq> CR" "list_all (\<lambda>b. b \<noteq> SP) k'"
    using k by (cases k) (auto simp: wf_key_def key_char_def list_all_iff)
  have "mem_read m (p + off) (length (bytes ''set '') + length (k @ [SP])) = bytes ''set '' @ (k @ [SP])"
    using rd by (simp add: eval_nat_numeral)
  then have set: "mem_read m (p + off) 4 = bytes ''set ''"
    and key: "mem_read m (p + (off + 4)) (length k + 1) = k @ [SP]"
    unfolding mem_read_append_iff by (simp_all add: eval_nat_numeral)
  from key have key': "mem_read m (p + (off + 4)) (length k) = k" and sp: "m (p + (off + 4 + length k)) = SP"
    using mem_read_append_iff [of m "p + (off + 4)" k "[SP]"] by (simp_all add: mem_read_Suc add.assoc)
  from key' ck have c: "m (p + (off + 4)) = c" and rest: "mem_read m (p + (off + 4 + 1)) (length k') = k'"
    by (simp_all add: mem_read_Suc ac_simps)
  have s: "m (p + off) = of_char (CHR ''s'')" "m (p + off + 1) = of_char (CHR ''e'')"
    "m (p + off + 2) = of_char (CHR ''t'')"
    using mem_read_eqD [OF set, of 0] mem_read_eqD [OF set, of 1] mem_read_eqD [OF set, of 2] by simp_all
  have "invalidate_loop ops m p e off False False h st = invalidate_loop ops m p e (off + 4) True False h ?st"
    using fit s by (simp add: invalidate_loop.simps [of ops m p e off] ac_simps)
  also have "\<dots> = invalidate_loop ops m p e (off + 4 + 1) True True (fnv_step FNV_OFFSET_BASIS_32 c) ?st"
    using fit c ck by (simp add: invalidate_loop.simps [of ops m p e "off + 4"])
  also have "\<dots> = invalidate_loop ops m p e (off + 4 + length k) True True (fnv k) ?st"
    using fit ck by (subst invalidate_loop_key [OF ck(4) rest]) (simp_all add: ac_simps)
  also have "\<dots> = invalidate_loop ops m p e (off + 4 + length k + 1) False False (fnv k)
      (inval_slot (fnv k) ?st)"
    using fit sp ops by (subst invalidate_loop_inval) simp_all
  finally show ?thesis .
qed

text \<open>
  A TCP segment to port 11211 whose payload (as BMC sees it, behind 20 bytes of TCP header) holds
  \<open>pre\<close>, for instance TCP options, and then \<open>set\<close>, the key, a space and the rest of the command.
\<close>

definition set_segment :: "xdp_md \<Rightarrow> byte list \<Rightarrow> byte list \<Rightarrow> bool" where
  "set_segment ctx pre k \<longleftrightarrow>
     pkt_data ctx + 54 + length pre + 4 + length k + 1 \<le> pkt_end ctx \<and>
     pkt_mem ctx (pkt_data ctx + ETH_LEN + 9) = IPPROTO_TCP \<and>
     be16 (pkt_mem ctx) (pkt_data ctx + ETH_LEN + IP_LEN + 2) = 11211 \<and>
     of_char (CHR ''s'') \<notin> set pre \<and> length pre + 4 + length k < BMC_MAX_PACKET_LENGTH \<and>
     mem_read (pkt_mem ctx) (pkt_data ctx + 54) (length pre) = pre \<and>
     mem_read (pkt_mem ctx) (pkt_data ctx + 54 + length pre) (4 + length k + 1) = bytes ''set '' @ k @ [SP]"

lemma set_segment_run:
  assumes ops: "bpf_ops_ok ops" and limit: "0 < op_tail_call_limit ops"
    and seg: "set_segment ctx pre k" and k: "wf_key k"
  shows "\<exists>st'. bmc_run_xdp ops st ctx = (st', ctx, XDP_PASS) \<and> lost_validity st st' \<and>
    ce_valid (st_kcache st' (cache_idx (fnv k))) = 0"
proof -
  let ?m = "pkt_mem ctx" and ?p = "pkt_data ctx + 54" and ?e = "pkt_end ctx"
  let ?st = "inval_slot (fnv k) (st_stats_update (set_recv_count_update (\<lambda>n. n + 1)) st)"
  let ?st' = "invalidate_loop ops ?m ?p ?e (length pre + 4 + length k + 1) False False (fnv k) ?st"
  have "rx_transport ?m (pkt_data ctx) ?e = Some (11211, ?p)"
    using seg by (simp add: rx_transport_def set_segment_def Let_def)
  then have rx: "bmc_rx_filter_main ops st ctx = (st, ctx, TailCall BMC_PROG_XDP_INVALIDATE_CACHE XDP_PASS)"
    using seg by (simp add: bmc_rx_filter_main_def set_segment_def)
  have "?m (?p + 0 + i) \<noteq> of_char (CHR ''s'')" if "i < length pre" for i
  proof -
    have "?m (?p + i) = pre ! i" using seg that by (intro mem_read_eqD) (simp_all add: set_segment_def)
    moreover have "of_char (CHR ''s'') \<notin> set pre" using seg by (simp add: set_segment_def)
    ultimately show ?thesis using nth_mem [OF that] by (metis add_0_right)
  qed
  then have "invalidate_loop ops ?m ?p ?e 0 False False 0 st =
      invalidate_loop ops ?m ?p ?e (0 + length pre) False False 0 st"
    using seg by (intro invalidate_loop_skip) (auto simp: set_segment_def)
  also have "\<dots> = ?st'"
    using seg by (subst invalidate_loop_set [OF ops k]) (auto simp: set_segment_def)
  finally have "bmc_invalidate_cache_main ops st ctx = (?st', ctx, Return XDP_PASS)"
    using seg ops by (simp add: bmc_invalidate_cache_main_def set_segment_def add.commute)
  then have run: "bmc_run_xdp ops st ctx = (?st', ctx, XDP_PASS)"
    using limit by (cases "op_tail_call_limit ops") (simp_all add: bmc_run_xdp_def rx)
  have "lost_validity st ?st"
    using lost_validity_inval_slot [of "st_stats_update (set_recv_count_update (\<lambda>n. n + 1)) st" "fnv k"]
    by (simp add: lost_validity_def)
  from lost_validity_trans [OF this invalidate_loop_lost_validity]
  have "lost_validity st ?st'" .
  moreover have "ce_valid (st_kcache ?st' (cache_idx (fnv k))) = 0"
    by (rule lost_validity_invalid [OF invalidate_loop_lost_validity inval_slot_invalid])
  ultimately show ?thesis using run by blast
qed

text \<open>
  C10. A TCP segment with a set command, whatever precedes the command as long as it has no letter
  s (TCP options, for instance), leaves the cache entry of the command's key invalid; other entries
  keep their contents and at most become invalid too, and the segment itself goes on to memcached
  unchanged.
\<close>

theorem set_invalidates:
  assumes "bpf_ops_ok ops" and "0 < op_tail_call_limit ops"
    and "set_segment ctx pre k" and "wf_key k"
  shows "\<exists>st'. bmc_run_xdp ops st ctx = (st', ctx, XDP_PASS) \<and>
    ce_valid (st_kcache st' (cache_idx (fnv k))) = 0 \<and>
    (\<forall>i. st_kcache st' i = st_kcache st i \<or> st_kcache st' i = (st_kcache st i)\<lparr>ce_valid := 0\<rparr>)"
  using set_segment_run [OF assms, of st] unfolding lost_validity_def by blast

end
