(* ===== verification/Bmc_Frame.thy ===== *)
theory Bmc_Frame
  imports Bmc_Invalidate
begin

unbundle bit_operations_syntax

text \<open>
  What the receive chain leaves alone, for any packet, any state of the maps and any behaviour of
  the kernel's helpers: cache entries are never written except to clear their validity.
\<close>

definition cache_weaker :: "bmc_state \<Rightarrow> bmc_state \<Rightarrow> bool" where
  "cache_weaker st st' \<longleftrightarrow>
     (\<forall>i. st_kcache st' i = st_kcache st i \<or> st_kcache st' i = (st_kcache st i)\<lparr>ce_valid := 0\<rparr>)"

lemma cache_weaker_eq: "st_kcache st' = st_kcache st \<Longrightarrow> cache_weaker st st'"
  by (simp add: cache_weaker_def)

lemma cache_weaker_trans: "cache_weaker st1 st2 \<Longrightarrow> cache_weaker st2 st3 \<Longrightarrow> cache_weaker st1 st3"
  unfolding cache_weaker_def by (metis bmc_cache_entry.update_convs(2) bmc_cache_entry.surjective)

lemma rx_filter_kcache [frame_simps]:
  "st_kcache (fst (bmc_rx_filter_main ops st ctx)) = st_kcache st"
  by (auto simp: bmc_rx_filter_main_def rx_get_def Let_def split: option.split)

lemma hash_keys_next_kcache [frame_simps]:
  "st_kcache (fst (hash_keys_next ops st ctx off d)) = st_kcache st"
  by (auto simp: hash_keys_next_def Let_def split: option.split)

lemma hash_keys_kcache [frame_simps]:
  "st_kcache (fst (bmc_hash_keys_main ops st ctx)) = st_kcache st"
  by (auto simp: bmc_hash_keys_main_def hash_keys_next_kcache Let_def split: prod.split)

lemma prepare_packet_kcache [frame_simps]:
  "st_kcache (fst (bmc_prepare_packet_main ops st ctx)) = st_kcache st"
  by (auto simp: bmc_prepare_packet_main_def Let_def split: option.split)

lemma reply_end_kcache [frame_simps]:
  "st_kcache (fst (reply_end ops st ctx n)) = st_kcache st"
  by (auto simp: reply_end_def Let_def split: option.split prod.split)

lemma write_reply_kcache [frame_simps]:
  "st_kcache (fst (bmc_write_reply_main ops st ctx)) = st_kcache st"
  by (auto simp: bmc_write_reply_main_def reply_end_kcache Let_def split: option.split prod.split)

lemma invalidate_cache_weaker:
  "cache_weaker st (fst (bmc_invalidate_cache_main ops st ctx))"
  using invalidate_loop_lost_validity
  by (auto simp: bmc_invalidate_cache_main_def cache_weaker_def lost_validity_def Let_def)

lemma xdp_prog_weaker: "cache_weaker st (fst (xdp_prog p ops st ctx))"
  by (cases p) (simp_all add: cache_weaker_eq frame_simps invalidate_cache_weaker)

lemma xdp_tail_calls_weaker:
  "cache_weaker st (fst r) \<Longrightarrow> cache_weaker st (fst (xdp_tail_calls ops n r))"
proof (induction ops n r rule: xdp_tail_calls.induct)
  case (3 ops n st' ctx p v)
  then show ?case using cache_weaker_trans [OF _ xdp_prog_weaker] by simp
qed simp_all

lemma run_xdp_weaker: "cache_weaker st (fst (bmc_run_xdp ops st ctx))"
  unfolding bmc_run_xdp_def
  by (rule xdp_tail_calls_weaker) (simp add: cache_weaker_eq frame_simps)

text \<open>
  C28. Whatever packet arrives and however the kernel's helpers behave, the receive chain changes no
  byte, length or hash of any cache entry: each entry is the same afterwards or has only lost its
  validity.
\<close>

theorem run_xdp_cache:
  "st_kcache (fst (bmc_run_xdp ops st ctx)) i = st_kcache st i \<or>
   st_kcache (fst (bmc_run_xdp ops st ctx)) i = (st_kcache st i)\<lparr>ce_valid := 0\<rparr>"
  using run_xdp_weaker unfolding cache_weaker_def by blast

end
