(* ===== verification/Bmc_Update.thy ===== *)
theory Bmc_Update
  imports Bmc_Serve
begin

unbundle bit_operations_syntax

text \<open>
  What the transmit chain stores: a reply of memcached is cached up to its second newline under the
  hash of its key, unless the slot already holds that key.
\<close>

section \<open>Replies of memcached\<close>

text \<open>A linear UDP datagram from port 11211 with payload \<open>pl\<close>, small enough for a cache entry.\<close>

definition reply_skb :: "sk_buff \<Rightarrow> byte list \<Rightarrow> bool" where
  "reply_skb skb pl \<longleftrightarrow>
     skb_end skb = skb_data skb + HDRS_LEN + length pl \<and> skb_len skb = HDRS_LEN + length pl \<and>
     length pl \<le> BMC_MAX_CACHE_DATA_SIZE \<and>
     skb_mem skb (skb_data skb + ETH_LEN + 9) = 17 \<and>
     be16 (skb_mem skb) (skb_data skb + ETH_LEN + IP_LEN) = 11211 \<and>
     mem_read (skb_mem skb) (skb_data skb + HDRS_LEN) (length pl) = pl"

text \<open>The payload of a reply for \<open>k\<close>: a VALUE line, the data, anything behind them.\<close>

definition value_reply :: "byte list \<Rightarrow> byte list \<Rightarrow> bool" where
  "value_reply k pl \<longleftrightarrow>
     wf_key k \<and> LF \<notin> set k \<and> 2 \<le> count_list pl LF \<and>
     (\<exists>rest. pl = bytes ''VALUE '' @ k @ SP # rest)"

text \<open>An entry that holds the reply \<open>r\<close> for exactly the key \<open>k\<close>.\<close>

definition entry_for :: "bmc_cache_entry \<Rightarrow> byte list \<Rightarrow> byte list \<Rightarrow> bool" where
  "entry_for en k r \<longleftrightarrow>
     entry_holds en k r \<and> wf_key k \<and> 6 + length k < length r \<and> r ! (6 + length k) = SP"

lemma entry_for_holds: "entry_for en k r \<Longrightarrow> entry_holds en k r"
  by (simp add: entry_for_def)

lemma entry_for_bytes:
  assumes "entry_for en k r"
  shows "j < length k \<Longrightarrow> ce_data en (6 + j) = k ! j" "ce_data en (6 + length k) = SP"
    "unat (ce_len en) = length r"
proof -
  have r: "ce_data en i = r ! i" if "i < length r" for i
    using assms mem_read_eqD [of "ce_data en" 0 "length r" r i] that
    by (simp add: entry_for_def entry_holds_def)
  show "ce_data en (6 + j) = k ! j" if "j < length k"
  proof -
    have "k ! j = take (length k) (drop 6 r) ! j" using assms by (simp add: entry_for_def entry_holds_def)
    also have "\<dots> = r ! (6 + j)" using assms that by (simp add: entry_for_def)
    finally show ?thesis using r [of "6 + j"] assms that by (simp add: entry_for_def)
  qed
  show "ce_data en (6 + length k) = SP" "unat (ce_len en) = length r"
    using assms r [of "6 + length k"] by (simp_all add: entry_for_def entry_holds_def)
qed

lemma reply_bytes:
  assumes "reply_skb skb pl" and "value_reply k pl"
  shows "j < length pl \<Longrightarrow> skb_mem skb (skb_data skb + HDRS_LEN + j) = pl ! j"
    and "j < length k \<Longrightarrow> pl ! (6 + j) = k ! j" and "pl ! (6 + length k) = SP"
    and "6 + length k < length pl"
  using assms mem_read_eqD [of "skb_mem skb" "skb_data skb + HDRS_LEN" "length pl" pl j]
  by (auto simp: reply_skb_def value_reply_def nth_append eval_nat_numeral)

section \<open>The loops on such a reply\<close>

lemma update_hash_reply:
  assumes skb: "reply_skb skb pl" and pl: "value_reply k pl"
  shows "update_hash_loop (skb_mem skb) (skb_data skb + HDRS_LEN) (skb_end skb) 6 FNV_OFFSET_BASIS_32 = fnv k"
proof -
  let ?m = "skb_mem skb" and ?p = "skb_data skb + HDRS_LEN"
  let ?n = "avail 256 ?p 6 (skb_end skb)"
  note b = reply_bytes [OF skb pl]
  have k: "list_all key_char k" "length k \<le> 250" using pl by (auto simp: value_reply_def wf_key_def)
  have n: "?n = min 250 (length pl - 6)" using skb by (auto simp: avail_def reply_skb_def)
  have kn: "length k \<le> ?n" using b(4) k(2) n by simp
  have "mem_read ?m (?p + 6) (length k) = k"
    using b(1) [of "6 + _"] b(2,4) by (intro mem_read_eqI) (auto simp: ac_simps)
  then have split: "mem_read ?m (?p + 6) ?n = k @ mem_read ?m (?p + 6 + length k) (?n - length k)"
    using mem_read_add [of ?m "?p + 6" "length k" "?n - length k"] kn by simp
  have "takeWhile (\<lambda>b. b \<noteq> SP) (mem_read ?m (?p + 6) ?n) = k"
  proof (cases "?n = length k")
    case True
    then show ?thesis using split k(1) by (auto simp: list_all_iff key_char_def takeWhile_eq_all_conv)
  next
    case False
    then have "?n - length k = Suc (?n - length k - 1)" using kn by simp
    moreover have "?m (?p + 6 + length k) = SP"
      using b(1) [of "6 + length k"] b(3,4) by (simp add: ac_simps)
    ultimately have "mem_read ?m (?p + 6) ?n =
        k @ SP # mem_read ?m (Suc (?p + 6 + length k)) (?n - length k - 1)"
      using split mem_read_Suc by metis
    then show ?thesis using k(1) by (simp add: takeWhile_all_append list_all_iff key_char_def)
  qed
  then show ?thesis by (simp add: update_hash_loop_eq)
qed

lemma update_diff_False:
  assumes "\<not> update_diff_loop m p e en off" and "6 \<le> off" and "off \<le> j" and "j < 256"
    and "p + j + 1 \<le> e" and "j < unat (ce_len en)"
    and "\<forall>i. off \<le> i \<and> i \<le> j \<longrightarrow> m (p + i) \<noteq> SP \<or> ce_data en i \<noteq> SP"
  shows "ce_data en j = m (p + j)"
  using assms
proof (induction "j - off" arbitrary: off)
  case 0
  then show ?case
    by (auto simp: update_diff_loop.simps [of m p e en off] split: if_splits)
next
  case (Suc d)
  then have g: "off - 6 < BMC_MAX_KEY_LENGTH \<and> p + off + 1 \<le> e \<and> off < unat (ce_len en) \<and>
      (m (p + off) \<noteq> SP \<or> ce_data en off \<noteq> SP)" by auto
  from Suc.prems(1) have "\<not> update_diff_loop m p e en (off + 1)"
    unfolding update_diff_loop.simps [of m p e en off] if_P [OF g] by (auto split: if_splits)
  then show ?case
    using Suc.hyps(1) [of "off + 1"] Suc.hyps(2) Suc.prems by auto
qed

lemma update_diff_same:
  assumes "\<And>j. j < n \<Longrightarrow> ce_data en (6 + j) = m (p + (6 + j))"
    and "ce_data en (6 + n) = SP" and "m (p + (6 + n)) = SP" and "6 \<le> off" and "off \<le> 6 + n"
  shows "\<not> update_diff_loop m p e en off"
  using assms(4,5)
proof (induction "6 + n - off" arbitrary: off)
  case 0
  then have "off = 6 + n" by simp
  then show ?case using assms(2,3) by (simp add: update_diff_loop.simps [of m p e en "6 + n"])
next
  case (Suc d)
  then have "\<not> update_diff_loop m p e en (off + 1)" by simp
  moreover have "ce_data en off = m (p + off)"
    using assms(1) [of "off - 6"] Suc.hyps(2) Suc.prems by simp
  ultimately show ?case by (simp add: update_diff_loop.simps [of m p e en off])
qed

text \<open>On an entry with a key of its own the loop decides whether the keys differ.\<close>

lemma update_diff_keys:
  assumes skb: "reply_skb skb pl" and pl: "value_reply k pl" and en: "entry_for en k' r"
  shows "update_diff_loop (skb_mem skb) (skb_data skb + HDRS_LEN) (skb_end skb) en 6 \<longleftrightarrow> k \<noteq> k'"
proof
  let ?m = "skb_mem skb" and ?p = "skb_data skb + HDRS_LEN" and ?e = "skb_end skb"
  note b = reply_bytes [OF skb pl] and c = entry_for_bytes [OF en]
  have m: "?m (?p + (6 + j)) = pl ! (6 + j)" if "j \<le> length k" for j
    using b(1) [of "6 + j"] b(4) that by (simp add: ac_simps)
  show "k \<noteq> k'" if "update_diff_loop ?m ?p ?e en 6"
  proof
    assume "k = k'"
    with b c m have "\<not> update_diff_loop ?m ?p ?e en 6"
      by (intro update_diff_same [of "length k"]) auto
    with that show False by simp
  qed
  show "update_diff_loop ?m ?p ?e en 6" if ne: "k \<noteq> k'"
  proof (rule ccontr)
    assume nd: "\<not> update_diff_loop ?m ?p ?e en 6"
    have nsp: "k ! j \<noteq> SP" if "j < length k" for j
      using pl that by (auto simp: value_reply_def wf_key_def key_char_def list_all_length)
    have nsp': "k' ! j \<noteq> SP" if "j < length k'" for j
      using en that by (auto simp: entry_for_def wf_key_def key_char_def list_all_length)
    have bounds: "length k \<le> 250" "length k' \<le> 250" "6 + length k < length pl" "6 + length k' < length r"
      "?e = ?p + length pl"
      using pl en b(4) skb by (auto simp: value_reply_def wf_key_def entry_for_def reply_skb_def)
    have same: "ce_data en (6 + j) = ?m (?p + (6 + j))"
      if "j < length k \<or> j < length k'" "j \<le> length k" "j \<le> length k'" for j
    proof (rule update_diff_False [OF nd])
      show "\<forall>i. 6 \<le> i \<and> i \<le> 6 + j \<longrightarrow> ?m (?p + i) \<noteq> SP \<or> ce_data en i \<noteq> SP"
      proof (intro allI impI)
        fix i assume i: "6 \<le> i \<and> i \<le> 6 + j"
        then obtain l where l: "i = 6 + l" "l \<le> j" using le_Suc_ex [of 6 i] by auto
        with that have "l < length k \<or> l < length k'" "l \<le> length k" by auto
        then show "?m (?p + i) \<noteq> SP \<or> ce_data en i \<noteq> SP"
          using m [of l] b(2) [of l] c(1) [of l] nsp [of l] nsp' [of l] l(1) by auto
      qed
    qed (use that bounds c(3) in auto)
    show False
    proof (cases "length k = length k'")
      case True
      then have "k ! j = k' ! j" if "j < length k" for j
        using same [of j] that m [of j] b(2) [of j] c(1) [of j] by auto
      with True ne show False by (auto simp: list_eq_iff_nth_eq)
    next
      case False
      then consider "length k < length k'" | "length k' < length k" by linarith
      then show False
      proof cases
        case 1
        then show False using same [of "length k"] m [of "length k"] b(3) c(1) [of "length k"] nsp' [of "length k"]
          by auto
      next
        case 2
        then show False using same [of "length k'"] m [of "length k'"] b(2) [of "length k'"] c(2) nsp [of "length k'"]
          by auto
      qed
    qed
  qed
qed

section \<open>The whole chain\<close>

lemma upto_lf_count: "n \<le> count_list bs LF \<Longrightarrow> count_list (upto_lf n bs) LF = n"
proof (induction n bs rule: upto_lf.induct)
  case (3 n b bs)
  then show ?case by (cases "b = LF") auto
qed auto

lemma upto_lf_two:
  assumes "LF \<notin> set a" and "LF \<notin> set b"
  shows "upto_lf 2 (a @ LF # b @ LF # c) = a @ LF # b @ [LF]"
  using upto_lf_no_lf_append [OF assms(1), of 1] upto_lf_no_lf_append [OF assms(2), of 0]
  by (simp add: numeral_2_eq_2)

lemma upto_lf_reply:
  assumes "value_reply k pl"
  shows "take (length k) (drop 6 (upto_lf 2 pl)) = k" "6 + length k < length (upto_lf 2 pl)"
    "upto_lf 2 pl ! (6 + length k) = SP"
proof -
  obtain rest where pl: "pl = (bytes ''VALUE '' @ k @ [SP]) @ rest" and k: "LF \<notin> set k"
    using assms by (auto simp: value_reply_def)
  have "LF \<notin> set (bytes ''VALUE '' @ k @ [SP])" using k by simp
  then have "upto_lf 2 pl = (bytes ''VALUE '' @ k @ [SP]) @ upto_lf 2 rest"
    unfolding pl using upto_lf_no_lf_append [of _ 1] by (simp only: numeral_2_eq_2 One_nat_def)
  then show "take (length k) (drop 6 (upto_lf 2 pl)) = k" "6 + length k < length (upto_lf 2 pl)"
    "upto_lf 2 pl ! (6 + length k) = SP"
    by (simp_all add: nth_append eval_nat_numeral)
qed

text \<open>The entry the copy loop and the final assignments produce.\<close>

definition stored_entry :: "bmc_cache_entry \<Rightarrow> byte list \<Rightarrow> byte list \<Rightarrow> bmc_cache_entry" where
  "stored_entry en k r =
     en\<lparr>ce_len := of_nat (length r), ce_valid := 1, ce_hash := fnv k, ce_data := mem_write (ce_data en) 0 r\<rparr>"

lemma stored_entry_for:
  assumes "value_reply k pl" and "length pl \<le> BMC_MAX_CACHE_DATA_SIZE"
  shows "entry_for (stored_entry en k (upto_lf 2 pl)) k (upto_lf 2 pl)"
proof -
  have "length (upto_lf 2 pl) \<le> 1303" using assms(2) length_upto_lf [of 2 pl] by simp
  then show ?thesis
    using assms(1) upto_lf_reply [OF assms(1)]
    by (simp add: entry_for_def entry_holds_def stored_entry_def value_reply_def unat_of_nat take_bit_eq_mod)
qed

text \<open>The slot already holds a valid entry that the comparison takes for the same key.\<close>

definition up_to_date :: "bmc_state \<Rightarrow> sk_buff \<Rightarrow> byte list \<Rightarrow> bool" where
  "up_to_date st skb k \<longleftrightarrow>
     ce_valid (st_kcache st (cache_idx (fnv k))) \<noteq> 0 \<and> ce_hash (st_kcache st (cache_idx (fnv k))) = fnv k \<and>
     \<not> update_diff_loop (skb_mem skb) (skb_data skb + HDRS_LEN) (skb_end skb)
         (st_kcache st (cache_idx (fnv k))) 6"

lemma reply_run:
  assumes ops: "bpf_ops_ok ops" and limit: "0 < op_tail_call_limit ops"
    and skb: "reply_skb skb pl" and pl: "value_reply k pl"
  shows "\<exists>st'. bmc_run_tc ops st skb = (st', TC_ACT_OK) \<and>
    st_kcache st' = (if up_to_date st skb k then st_kcache st
      else (st_kcache st)(cache_idx (fnv k) := stored_entry (st_kcache st (cache_idx (fnv k))) k (upto_lf 2 pl)))"
proof -
  let ?m = "skb_mem skb" and ?p = "skb_data skb + HDRS_LEN" and ?e = "skb_end skb"
  let ?st = "st_stats_update (get_resp_count_update (\<lambda>n. n + 1)) st"
  obtain rest where rest: "pl = bytes ''VALUE '' @ k @ SP # rest" using pl by (auto simp: value_reply_def)
  have "mem_read ?m ?p (length pl) = pl" using skb by (simp add: reply_skb_def)
  then have "mem_read ?m ?p 6 = bytes ''VALUE ''"
    using mem_read_append_iff [of ?m ?p "bytes ''VALUE ''" "k @ SP # rest"] rest
    by (simp add: eval_nat_numeral)
  moreover have len: "6 \<le> length pl" using rest by simp
  ultimately have tx: "bmc_tx_filter_main ops st skb = (?st, TailCall BMC_PROG_TC_UPDATE_CACHE TC_ACT_OK)"
    using skb ops by (simp add: bmc_tx_filter_main_def reply_skb_def Let_def add.commute)
  have all: "mem_read ?m (?p + 0) (avail BMC_MAX_CACHE_DATA_SIZE ?p 0 ?e) = pl"
    using skb by (simp add: avail_0 reply_skb_def)
  have copy: "update_copy_loop ?m ?p ?e en 0 0 =
      (en\<lparr>ce_data := mem_write (ce_data en) 0 (upto_lf 2 pl),
          ce_len := ce_len en + of_nat (length (upto_lf 2 pl))\<rparr>, 2)" for en
    using pl upto_lf_count [of 2 pl] all by (simp add: update_copy_loop_eq Let_def value_reply_def)
  show ?thesis
    using limit ops
    by (cases "up_to_date st skb k")
      (auto simp: bmc_run_tc_def tx bmc_update_cache_main_def update_hash_reply [OF skb pl] copy
        up_to_date_def stored_entry_def Let_def)
qed

lemma reply_cached:
  assumes ops: "bpf_ops_ok ops" and limit: "0 < op_tail_call_limit ops"
    and skb: "reply_skb skb pl" and pl: "value_reply k pl" and new: "\<not> up_to_date st skb k"
  shows "\<exists>st'. bmc_run_tc ops st skb = (st', TC_ACT_OK) \<and>
    entry_for (st_kcache st' (cache_idx (fnv k))) k (upto_lf 2 pl) \<and>
    (\<forall>i. i \<noteq> cache_idx (fnv k) \<longrightarrow> st_kcache st' i = st_kcache st i)"
proof -
  have "length pl \<le> BMC_MAX_CACHE_DATA_SIZE" using skb by (simp add: reply_skb_def)
  with reply_run [OF assms(1-4), of st] stored_entry_for [OF pl] new show ?thesis by fastforce
qed

text \<open>
  C11. A reply of memcached on its way out (a VALUE line, the data, and whatever follows) is stored
  in the cache slot of its key, up to and including its second newline, unless that slot already
  holds a valid entry with the same hash: the entry then is valid, carries the key's hash and
  exactly those bytes. No other slot changes and the reply is sent on.
\<close>

theorem reply_stored:
  assumes "bpf_ops_ok ops" and "0 < op_tail_call_limit ops"
    and "reply_skb skb pl" and "value_reply k pl" and "\<not> slot_hit st k"
  shows "\<exists>st'. bmc_run_tc ops st skb = (st', TC_ACT_OK) \<and>
    entry_holds (st_kcache st' (cache_idx (fnv k))) k (upto_lf 2 pl) \<and>
    (\<forall>i. i \<noteq> cache_idx (fnv k) \<longrightarrow> st_kcache st' i = st_kcache st i)"
proof -
  from assms(5) have "\<not> up_to_date st skb k" by (auto simp: up_to_date_def)
  from reply_cached [OF assms(1-4) this] show ?thesis by (auto simp: entry_for_def)
qed

end
