(* ===== verification/Bmc_Coherence.thy ===== *)
theory Bmc_Coherence
  imports Cache_Spec Bmc_Run Bmc_Frame Bmc_Update
begin

unbundle bit_operations_syntax

text \<open>
  BMC as a look-aside cache: the lookup its programs implement, the three kinds of traffic that
  reach its maps, and the interpretation of \<open>lossy_cache\<close> on them. The transitions are atomic: a
  reply passes the transmit filter before the next set command of its key passes the receive chain.
\<close>

section \<open>The cache as a partial function of the key\<close>

definition bmc_look :: "bmc_state \<Rightarrow> byte list \<Rightarrow> byte list option" where
  "bmc_look st k =
     (let en = st_kcache st (cache_idx (fnv k)); r = mem_read (ce_data en) 0 (unat (ce_len en))
      in if entry_for en k r then Some r else None)"

lemma entry_for_data: "entry_for en k r \<Longrightarrow> mem_read (ce_data en) 0 (unat (ce_len en)) = r"
  by (simp add: entry_for_def entry_holds_def)

lemma bmc_look_iff: "bmc_look st k = Some r \<longleftrightarrow> entry_for (st_kcache st (cache_idx (fnv k))) k r"
proof
  assume "entry_for (st_kcache st (cache_idx (fnv k))) k r"
  moreover from entry_for_data [OF this]
  have "mem_read (ce_data (st_kcache st (cache_idx (fnv k)))) 0
      (unat (ce_len (st_kcache st (cache_idx (fnv k))))) = r" .
  ultimately show "bmc_look st k = Some r" by (simp only: bmc_look_def Let_def if_True)
qed (auto simp: bmc_look_def Let_def split: if_splits)

lemma entry_for_valid: "entry_for en k r \<Longrightarrow> ce_valid en \<noteq> 0"
  by (simp add: entry_for_def entry_holds_def)

lemma takeWhile_key: "wf_key k \<Longrightarrow> takeWhile (\<lambda>b. b \<noteq> SP) (k @ SP # xs) = k"
  by (rule takeWhile_all_append) (auto simp: wf_key_def list_all_iff key_char_def)

lemma entry_for_same_key:
  assumes "entry_for en k r" and "entry_for en k' r'"
  shows "k = k'"
proof -
  have key: "k = takeWhile (\<lambda>b. b \<noteq> SP) (drop 6 r)" if "entry_for en k r" for k r
  proof -
    have "drop (6 + length k) r = SP # drop (Suc (6 + length k)) r"
      using that Cons_nth_drop_Suc [of "6 + length k" r] by (simp add: entry_for_def)
    then have "drop 6 r = k @ SP # drop (Suc (6 + length k)) r"
      using that append_take_drop_id [of "length k" "drop 6 r"]
      by (simp add: entry_for_def entry_holds_def add.commute)
    with that show ?thesis using takeWhile_key by (simp add: entry_for_def)
  qed
  have "r = r'" using entry_for_data [OF assms(1)] entry_for_data [OF assms(2)] by simp
  with key [OF assms(1)] key [OF assms(2)] show ?thesis by simp
qed

text \<open>Every valid entry holds a reply for some key, in the slot of that key.\<close>

definition bmc_inv :: "bmc_state \<Rightarrow> bool" where
  "bmc_inv st \<longleftrightarrow>
     (\<forall>i. ce_valid (st_kcache st i) \<noteq> 0 \<longrightarrow>
        (\<exists>k r. i = cache_idx (fnv k) \<and> entry_for (st_kcache st i) k r))"

section \<open>The traffic\<close>

definition bmc_recv :: "bpf_ops \<Rightarrow> bmc_state \<Rightarrow> bmc_state \<Rightarrow> bool" where
  "bmc_recv ops st st' \<longleftrightarrow> (\<exists>ctx. st' = fst (bmc_run_xdp ops st ctx))"

definition bmc_kill :: "bpf_ops \<Rightarrow> byte list \<Rightarrow> bmc_state \<Rightarrow> bmc_state \<Rightarrow> bool" where
  "bmc_kill ops k st st' \<longleftrightarrow>
     (\<exists>ctx pre. set_segment ctx pre k \<and> wf_key k \<and> st' = fst (bmc_run_xdp ops st ctx))"

definition bmc_fill :: "bpf_ops \<Rightarrow> byte list \<Rightarrow> byte list \<Rightarrow> bmc_state \<Rightarrow> bmc_state \<Rightarrow> bool" where
  "bmc_fill ops k r st st' \<longleftrightarrow>
     (\<exists>skb pl. reply_skb skb pl \<and> value_reply k pl \<and> r = upto_lf 2 pl \<and> st' = fst (bmc_run_tc ops st skb))"

lemma entry_for_invalid [simp]: "\<not> entry_for (en\<lparr>ce_valid := 0\<rparr>) k r"
  by (simp add: entry_for_def entry_holds_def)

lemma weaker_look: "cache_weaker st st' \<Longrightarrow> bmc_look st' k = None \<or> bmc_look st' k = bmc_look st k"
  unfolding cache_weaker_def bmc_look_def Let_def by (metis entry_for_invalid)

lemma weaker_inv: "cache_weaker st st' \<Longrightarrow> bmc_inv st \<Longrightarrow> bmc_inv st'"
  unfolding cache_weaker_def bmc_inv_def
  by (metis bmc_cache_entry.select_convs(2) bmc_cache_entry.surjective bmc_cache_entry.update_convs(2))

lemma fill_cases:
  assumes "bpf_ops_ok ops" and "0 < op_tail_call_limit ops" and "bmc_inv st" and "bmc_fill ops k r st st'"
  obtains "st_kcache st' = st_kcache st"
  | en where "st_kcache st' = (st_kcache st)(cache_idx (fnv k) := en)" "entry_for en k r"
proof -
  obtain skb pl where skb: "reply_skb skb pl" "value_reply k pl" "r = upto_lf 2 pl"
    "st' = fst (bmc_run_tc ops st skb)"
    using assms(4) by (auto simp: bmc_fill_def)
  have "length pl \<le> BMC_MAX_CACHE_DATA_SIZE" using skb by (simp add: reply_skb_def)
  with reply_run [OF assms(1,2) skb(1,2), of st] stored_entry_for [OF skb(2)] skb(3,4) that
  show thesis by (fastforce split: if_splits)
qed

lemma bmc_lossy_cache:
  assumes ops: "bpf_ops_ok ops" and limit: "0 < op_tail_call_limit ops"
  shows "lossy_cache bmc_look bmc_inv (bmc_recv ops) (bmc_kill ops) (bmc_fill ops)"
proof
  fix s s' k k' v
  assume inv: "bmc_inv s"
  have weaker: "cache_weaker s s'" if "bmc_recv ops s s' \<or> bmc_kill ops k s s'"
    using that run_xdp_weaker by (auto simp: bmc_recv_def bmc_kill_def)
  show "bmc_inv s'" if "bmc_recv ops s s'" using that weaker weaker_inv inv by blast
  show "bmc_inv s'" if "bmc_kill ops k s s'" using that weaker weaker_inv inv by blast
  show "bmc_look s' k = None \<or> bmc_look s' k = bmc_look s k" if "bmc_recv ops s s'"
    using that weaker weaker_look by blast
  show "bmc_look s' k' = None \<or> bmc_look s' k' = bmc_look s k'" if "bmc_kill ops k s s'"
    using that weaker weaker_look by blast
  show "bmc_look s' k = None" if "bmc_kill ops k s s'"
  proof -
    have "ce_valid (st_kcache s' (cache_idx (fnv k))) = 0"
      using that set_segment_run [OF ops limit, of _ _ k s] by (fastforce simp: bmc_kill_def)
    then show ?thesis using entry_for_valid by (auto simp: bmc_look_def Let_def)
  qed
  assume fill: "bmc_fill ops k v s s'"
  show "bmc_inv s'"
    by (rule fill_cases [OF ops limit inv fill]) (use inv in \<open>auto simp: bmc_inv_def\<close>)
  show "bmc_look s' k = Some v \<or> bmc_look s' k = bmc_look s k"
    by (rule fill_cases [OF ops limit inv fill]) (simp_all add: bmc_look_iff, simp add: bmc_look_def)
  show "bmc_look s' k' = None \<or> bmc_look s' k' = bmc_look s k'" if "k' \<noteq> k"
  proof (rule fill_cases [OF ops limit inv fill])
    fix en assume en: "st_kcache s' = (st_kcache s)(cache_idx (fnv k) := en)" "entry_for en k v"
    then have "\<not> entry_for en k' r" for r using entry_for_same_key that by blast
    with en show ?thesis by (simp add: bmc_look_def Let_def)
  qed (simp add: bmc_look_def)
qed

interpretation bmc: lossy_cache bmc_look bmc_inv "bmc_recv ref_ops" "bmc_kill ref_ops" "bmc_fill ref_ops"
  by (rule bmc_lossy_cache) (simp_all add: ref_ops_ok, simp add: ref_ops_def)

section \<open>What a client gets\<close>


text \<open>The key of the entry a request hits has the requested key as a prefix, or BMC sees a collision.\<close>

lemma hit_cases:
  assumes en: "entry_for (st_kcache st (cache_idx (fnv k))) k' r" and hit: "slot_hit st k" and k: "wf_key k"
  shows "mispredicted st k \<or> take (length k) k' = k \<and> cached st k r"
proof (cases "mispredicted st k")
  case False
  let ?en = "st_kcache st (cache_idx (fnv k))"
  from False hit have same: "ce_data ?en (6 + j) = k ! j" if "j < length k" for j
    using that by (auto simp: mispredicted_def)
  note b = entry_for_bytes [OF en]
  have le: "length k \<le> length k'"
  proof (rule ccontr)
    assume "\<not> length k \<le> length k'"
    then have "k ! length k' = SP" "length k' < length k" using same [of "length k'"] b(2) by auto
    then show False using k by (auto simp: wf_key_def list_all_length key_char_def)
  qed
  then have pre: "take (length k) k' = k"
    using same b(1) by (intro nth_equalityI) auto
  have "take (length k) (drop 6 r) = take (length k) (take (length k') (drop 6 r))"
    using le by (simp add: min_def)
  also have "\<dots> = k" using en pre by (simp add: entry_for_def entry_holds_def)
  finally show ?thesis
    using en hit le pre by (auto simp: entry_for_def entry_holds_def)
qed simp



lemma alias_mget:
  assumes "get_one ctx k" and "bmc_look st k' = Some r" and "fnv k' = fnv k" and "take (length k) k' = k"
  shows "mget_request st ctx [k] [(k, r)]"
proof -
  have en: "entry_for (st_kcache st (cache_idx (fnv k))) k' r"
    using assms(2,3) by (simp add: bmc_look_iff)
  have "ce_data (st_kcache st (cache_idx (fnv k))) (6 + j) = k ! j" if "j < length k" for j
  proof -
    have "length k \<le> length k'" using assms(4) by (metis length_take min.absorb_iff2 min.commute)
    moreover from assms(4) have "k' ! j = k ! j" using that by (metis nth_take)
    ultimately show ?thesis using entry_for_bytes(1) [OF en, of j] that by simp
  qed
  then have "\<not> mispredicted st k" by (auto simp: mispredicted_def)
  moreover have "slot_hit st k" using en assms(3) by (simp add: entry_for_def entry_holds_def)
  ultimately have "cached st k r" using hit_cases [OF en] assms(1) by (auto simp: get_one_def)
  then show ?thesis by (rule get_one_mget(1) [OF assms(1)])
qed

text \<open>
  C27. The proviso of the previous property is needed. The comparison covers only as many bytes as
  the requested key has, so when a longer key that begins with it has the same hash and is cached,
  the request is answered with the reply for that other key.
\<close>

theorem alias_answered:
  assumes "bpf_ops_ok ops" and "3 \<le> op_tail_call_limit ops" and "get_one ctx k"
    and "bmc_look st k' = Some r" and "fnv k' = fnv k" and "take (length k) k' = k"
    and "reply_fits ctx [(k, r)]"
  shows "\<exists>st' ctx'. bmc_run_xdp ops st ctx = (st', ctx', XDP_TX) \<and>
    mem_read (pkt_mem ctx') (pkt_data ctx' + HDRS_LEN) (length (r @ END_LINE)) = r @ END_LINE"
proof -
  have "length (replies [(k, r)]) < 65536"
    using assms(4) by (simp add: bmc_look_iff entry_for_def entry_holds_def)
  with mget_served [OF assms(1) alias_mget [OF assms(3-6)]] assms(2,7) show ?thesis
    by (fastforce simp: reply_frame_def)
qed

text \<open>
  Nothing makes BMC forget a value that the server drops on its own: when a key is cached and its item expires (or is deleted, flushed or evicted) in memcached,
  the next GET for the key is still answered by BMC with the old value, although the server has none.
\<close>

theorem expired_still_served:
  assumes ops: "bpf_ops_ok ops" "3 \<le> op_tail_call_limit ops" and req: "get_one ctx k" "reply_fits ctx [(k, r)]"
    and steps: "(cache_sys (bmc_recv ops) (bmc_kill ops) (bmc_fill ops))\<^sup>*\<^sup>* (st0, kv_start db0) (st, d)" and look: "bmc_look st k = Some r"
  shows "\<exists>d'. (cache_sys (bmc_recv ops) (bmc_kill ops) (bmc_fill ops))\<^sup>*\<^sup>* (st0, kv_start db0) (st, d') \<and> kv_db d' k = None \<and>
    (\<exists>st' ctx'. bmc_run_xdp ops st ctx = (st', ctx', XDP_TX) \<and>
       mem_read (pkt_mem ctx') (pkt_data ctx' + HDRS_LEN) (length (r @ END_LINE)) = r @ END_LINE)"
proof -
  let ?S = "cache_sys (bmc_recv ops) (bmc_kill ops) (bmc_fill ops)"
  have "?S\<^sup>*\<^sup>* (st0, kv_start db0) (st, kv_change k None d)" using steps by (rule rtranclp.rtrancl_into_rtrancl) (rule sys_change)
  moreover have "kv_db (kv_change k None d) k = None" by (simp add: kv_change_def)
  moreover have "length (replies [(k, r)]) < 65536" using look by (simp add: bmc_look_iff entry_for_def entry_holds_def)
  with mget_served [OF ops(1) alias_mget [OF req(1) look refl]] ops(2) req(2)
  have "\<exists>st' ctx'. bmc_run_xdp ops st ctx = (st', ctx', XDP_TX) \<and>
       mem_read (pkt_mem ctx') (pkt_data ctx' + HDRS_LEN) (length (r @ END_LINE)) = r @ END_LINE"
    by (fastforce simp: reply_frame_def)
  ultimately show ?thesis by blast
qed

lemma reply_get_ok:
  assumes "bpf_ops_ok ops" and "3 \<le> op_tail_call_limit ops"
    and "reply_skb skb pl" and "value_reply k pl" and "\<not> slot_hit st k"
    and "get_one ctx k" and "reply_fits ctx [(k, upto_lf 2 pl)]"
  shows "\<exists>st' ctx'. bmc_run_xdp ops (fst (bmc_run_tc ops st skb)) ctx = (st', ctx', XDP_TX) \<and>
    pkt_end ctx' = pkt_data ctx' + HDRS_LEN + length (upto_lf 2 pl @ END_LINE) \<and>
    mem_read (pkt_mem ctx') (pkt_data ctx' + HDRS_LEN) (length (upto_lf 2 pl @ END_LINE)) =
      upto_lf 2 pl @ END_LINE"
proof -
  from assms(5) have "\<not> up_to_date st skb k" by (auto simp: up_to_date_def)
  with reply_cached [OF assms(1) _ assms(3,4)] assms(2)
  obtain st' where st': "fst (bmc_run_tc ops st skb) = st'" "cached st' k (upto_lf 2 pl)"
    by (fastforce simp: entry_for_def)
  have "length (replies [(k, upto_lf 2 pl)]) < 65536" using st'(2) by (simp add: entry_holds_def)
  with mget_served [OF assms(1) get_one_mget(1) [OF assms(6) st'(2)]] assms(2,7) show ?thesis
    unfolding st'(1) by (fastforce simp: reply_frame_def)
qed

text \<open>
  Store and fetch. After a reply of memcached for a key has passed the transmit chain, the next
  GET for that key is answered by BMC with the reply up to its second newline and END, if it fits,
  provided the slot did not hold a valid entry with that hash before.
\<close>

theorem reply_then_get:
  assumes "bpf_ops_ok ops" and "3 \<le> op_tail_call_limit ops"
    and "reply_skb skb pl" and "value_reply k pl" and "\<not> slot_hit st k"
    and "get_one ctx k" and "reply_fits ctx [(k, upto_lf 2 pl)]"
  shows "\<exists>st' ctx'. bmc_run_xdp ops (fst (bmc_run_tc ops st skb)) ctx = (st', ctx', XDP_TX) \<and>
    pkt_end ctx' = pkt_data ctx' + HDRS_LEN + length (upto_lf 2 pl @ END_LINE) \<and>
    mem_read (pkt_mem ctx') (pkt_data ctx' + HDRS_LEN) (length (upto_lf 2 pl @ END_LINE)) =
      upto_lf 2 pl @ END_LINE"
  by (rule reply_get_ok [OF assms])

text \<open>
  C21. Set, then fetch. After a TCP segment with a set command for a key has passed the receive chain,
  a GET for that key is not answered from the cache: the packet goes to memcached unchanged.
\<close>

theorem set_then_get:
  assumes "bpf_ops_ok ops" and "3 \<le> op_tail_call_limit ops"
    and "set_segment seg pre k" and "get_one ctx k"
  shows "\<exists>st'. bmc_run_xdp ops (fst (bmc_run_xdp ops st seg)) ctx = (st', ctx, XDP_PASS)"
proof -
  have "wf_key k" using assms(4) by (simp add: get_one_def)
  from set_segment_run [OF assms(1) _ assms(3) this, of st] assms(2)
  have "\<not> slot_hit (fst (bmc_run_xdp ops st seg)) k" by auto
  from mget_missed [OF assms(1) get_one_mget(2) [OF assms(4) this]] assms(2) show ?thesis by auto
qed

end
