(* ===== verification/Bmc_Samples.thy ===== *)
theory Bmc_Samples
  imports Bmc_Coherence
begin

unbundle bit_operations_syntax

text \<open>
  Concrete packets and cache contents on which the properties of BMC are applied: an empty cache and
  one that holds the reply for one key, UDP GET requests, a reply of memcached and a TCP set.
\<close>

section \<open>Packets and states\<close>

definition s_reply :: "byte list \<Rightarrow> byte list" where
  "s_reply k = bytes ''VALUE '' @ k @ bytes '' 0 1'' @ [CR, LF] @ bytes ''x'' @ [CR, LF]"

definition s_empty :: bmc_state where
  "s_empty = \<lparr>
     st_kcache = (\<lambda>_. \<lparr>ce_len = 0, ce_valid = 0, ce_hash = 0, ce_data = (\<lambda>_. 0)\<rparr>),
     st_keys = (\<lambda>_. \<lparr>mk_hash = 0, mk_data = (\<lambda>_. 0), mk_len = 0\<rparr>),
     st_pctx = \<lparr>key_count = 0, current_key = 0, read_pkt_offset = 0, write_pkt_offset = 0\<rparr>,
     st_stats = \<lparr>get_recv_count = 0, set_recv_count = 0, get_resp_count = 0, hit_misprediction = 0,
       hit_count = 0, miss_count = 0, update_count = 0, invalidation_count = 0\<rparr>\<rparr>"

text \<open>The headers of a packet at address 256: protocol, source and destination port.\<close>

definition s_headers :: "byte \<Rightarrow> byte list \<Rightarrow> byte list \<Rightarrow> mem" where
  "s_headers proto sport dport =
     mem_write (mem_write (mem_write (\<lambda>_. 0) 279 [proto]) 290 sport) 292 dport"

definition s_get :: "byte list list \<Rightarrow> xdp_md" where
  "s_get ks = \<lparr>
     pkt_mem = mem_write (s_headers 17 [0, 0] [0x2b, 0xcb]) 306 (bytes ''get '' @ key_line ks),
     pkt_start = 0, pkt_data = 256, pkt_end = 1256\<rparr>"

definition s_set :: "byte list \<Rightarrow> xdp_md" where
  "s_set k = \<lparr>
     pkt_mem = mem_write (s_headers 6 [0, 0] [0x2b, 0xcb]) 310 (bytes ''set '' @ k @ [SP]),
     pkt_start = 0, pkt_data = 256, pkt_end = 1256\<rparr>"

definition s_skb :: "byte list \<Rightarrow> sk_buff" where
  "s_skb pl = \<lparr>
     skb_mem = mem_write (s_headers 17 [0x2b, 0xcb] [0, 0]) 306 pl,
     skb_data = 256, skb_end = 306 + length pl, skb_len = 50 + length pl\<rparr>"

text \<open>The empty cache after the reply for \<open>k\<close> passed.\<close>

definition s_state :: "byte list \<Rightarrow> bmc_state" where
  "s_state k = fst (bmc_run_tc ref_ops s_empty (s_skb (s_reply k)))"

abbreviation (input) "s_key \<equiv> bytes ''k''"

definition s_key_ok :: "byte list \<Rightarrow> bool" where
  "s_key_ok k \<longleftrightarrow> wf_key k \<and> LF \<notin> set k \<and> length k \<le> 200"

lemmas s_key_defs = s_key_ok_def wf_key_def key_char_def

section \<open>They are what they claim to be\<close>

lemma ref_limit [simp]: "op_tail_call_limit ref_ops = 33"
  by (simp add: ref_ops_def)

lemma s_port: "be16 (mem_write (s_headers p [0, 0] [0x2b, 0xcb]) (306 + n) bs) 292 = 11211"
  "be16 (mem_write (s_headers p [0x2b, 0xcb] [0, 0]) (306 + n) bs) 290 = 11211"
  by (simp_all add: be16_def s_headers_def mem_write_def)

lemma s_proto: "mem_write (s_headers p [a, b] [c, d]) (306 + n) bs 279 = p"
  by (simp add: s_headers_def mem_write_def)

lemma s_reply_ok:
  assumes "s_key_ok k"
  shows "value_reply k (s_reply k)" "upto_lf 2 (s_reply k) = s_reply k"
proof -
  have k: "LF \<notin> set k" using assms by (simp add: s_key_ok_def)
  have "count_list (s_reply k) LF = 2" using k by (simp add: s_reply_def)
  then show "value_reply k (s_reply k)"
    using assms by (auto simp: value_reply_def s_reply_def s_key_ok_def)
  show "upto_lf 2 (s_reply k) = s_reply k"
    using k upto_lf_two [of "bytes ''VALUE '' @ k @ bytes '' 0 1'' @ [CR]" "bytes ''x'' @ [CR]" "[]"]
    by (simp add: s_reply_def)
qed

lemma s_skb_ok:
  assumes "length pl \<le> 1000"
  shows "reply_skb (s_skb pl) pl"
  using assms s_port(2) [of 17 0 pl] s_proto [of 17 _ _ _ _ 0 pl] mem_read_write_same [of _ 306 pl]
  by (simp add: reply_skb_def s_skb_def)

lemma length_s_reply: "length (s_reply k) = 15 + length k"
  by (simp add: s_reply_def)

lemma s_empty_miss: "\<not> slot_hit s_empty k"
  by (simp add: s_empty_def)

lemma s_state_for:
  assumes "s_key_ok k"
  shows "entry_for (st_kcache (s_state k) (cache_idx (fnv k))) k (s_reply k)"
    "i \<noteq> cache_idx (fnv k) \<Longrightarrow> st_kcache (s_state k) i = st_kcache s_empty i"
proof -
  have new: "\<not> up_to_date s_empty (s_skb (s_reply k)) k"
    using s_empty_miss [of k] by (auto simp: up_to_date_def)
  have "reply_skb (s_skb (s_reply k)) (s_reply k)"
    using assms by (intro s_skb_ok) (simp add: length_s_reply s_key_ok_def)
  from reply_cached [OF ref_ops_ok _ this s_reply_ok(1) [OF assms] new]
  show "entry_for (st_kcache (s_state k) (cache_idx (fnv k))) k (s_reply k)"
    "i \<noteq> cache_idx (fnv k) \<Longrightarrow> st_kcache (s_state k) i = st_kcache s_empty i"
    by (auto simp: s_state_def s_reply_ok [OF assms])
qed

lemma s_state_cached: "s_key_ok k \<Longrightarrow> cached (s_state k) k (s_reply k)"
  using s_state_for(1) by (simp add: entry_for_def)

lemma s_get_request:
  assumes "length (key_line ks) \<le> 900"
  shows "get_request (s_get ks) (key_line ks)"
proof -
  have len: "length (bytes ''get '' @ key_line ks) = 4 + length (key_line ks)" by simp
  have "mem_read (pkt_mem (s_get ks)) 306 (4 + length (key_line ks)) = bytes ''get '' @ key_line ks"
    unfolding s_get_def len [symmetric] by (simp only: xdp_md.simps mem_read_write_same)
  then show ?thesis
    using assms s_port(1) [of 17 0] s_proto [of 17 _ _ _ _ 0]
    by (simp add: get_request_def s_get_def)
qed

lemma s_get_one:
  assumes "s_key_ok k"
  shows "get_one (s_get [k]) k" "reply_fits (s_get [k]) [(k, s_reply k')] \<longleftrightarrow> length k' \<le> 1058"
proof -
  have "length (key_line [k]) \<le> 900" using assms by (simp add: s_key_ok_def)
  from s_get_request [OF this] show "get_one (s_get [k]) k"
    using assms by (auto simp: get_one_def s_key_ok_def s_get_def)
  show "reply_fits (s_get [k]) [(k, s_reply k')] \<longleftrightarrow> length k' \<le> 1058"
    by (simp add: reply_fits_def s_get_def length_s_reply)
qed

lemma s_set_segment:
  assumes "s_key_ok k"
  shows "set_segment (s_set k) [] k"
proof -
  have len: "length (bytes ''set '' @ k @ [SP]) = 4 + length k + 1" by simp
  have "mem_read (pkt_mem (s_set k)) 310 (4 + length k + 1) = bytes ''set '' @ k @ [SP]"
    unfolding s_set_def len [symmetric] by (simp only: xdp_md.simps mem_read_write_same)
  then show ?thesis
    using assms s_port(1) [of 6 4] s_proto [of 6 _ _ _ _ 4]
    by (simp add: set_segment_def s_set_def s_key_ok_def)
qed

lemma key_line_copies: "0 < n \<Longrightarrow> length (key_line (replicate n s_key)) = 2 * n"
proof (induction n)
  case (Suc n)
  then show ?case by (cases n) simp_all
qed simp

lemma replies_copies: "length (replies (replicate n (s_key, s_reply s_key))) = 16 * n"
  by (induction n) (simp_all add: length_s_reply)

lemma s_key_ok_k: "s_key_ok s_key" "s_key_ok (bytes ''zz'')"
  by (simp_all add: s_key_defs)

lemma s_other_miss: "\<not> slot_hit (s_state s_key) (bytes ''zz'')"
proof -
  have "cache_idx (fnv (bytes ''zz'')) \<noteq> cache_idx (fnv s_key)" by (simp add: eval_simps)
  from s_state_for(2) [OF s_key_ok_k(1) this] show ?thesis by (simp add: s_empty_def)
qed

lemma s_mget_copies:
  assumes "0 < n" and "n \<le> 30"
  shows "mget_request (s_state s_key) (s_get (replicate n s_key)) (replicate n s_key)
    (replicate n (s_key, s_reply s_key))"
proof -
  have "slot_hit (s_state s_key) s_key"
    using s_state_cached [OF s_key_ok_k(1)] by (simp add: entry_holds_def)
  moreover have "\<exists>rest. get_request (s_get (replicate n s_key)) (key_line (replicate n s_key) @ rest)"
    using assms s_get_request [of "replicate n s_key"] key_line_copies [of n]
    by (intro exI [of _ "[]"]) simp
  ultimately show ?thesis
    using assms s_key_ok_k s_state_cached [OF s_key_ok_k(1)] key_line_copies [of n]
    by (auto simp: mget_request_def s_get_def last_replicate list_all_iff s_key_ok_def)
qed

lemma s_mget_partial:
  "mget_request (s_state s_key) (s_get [bytes ''zz'', s_key]) [bytes ''zz'', s_key]
     [(s_key, s_reply s_key)]"
proof -
  have len: "length (key_line [bytes ''zz'', s_key]) = 5" by simp
  then have "\<exists>rest. get_request (s_get [bytes ''zz'', s_key]) (key_line [bytes ''zz'', s_key] @ rest)"
    using s_get_request [of "[bytes ''zz'', s_key]"] by (intro exI [of _ "[]"]) simp
  then show ?thesis
    using s_key_ok_k s_state_cached [OF s_key_ok_k(1)] s_other_miss len unfolding mget_request_def
    by (auto simp: s_get_def entry_holds_def s_key_ok_def simp del: key_line.simps bytes_simps)
qed

section \<open>Colliding keys\<close>

text \<open>The two keys the last line of \<open>bmc_kern.c\<close> names, and a key whose extension has its hash.\<close>

lemma collision_keys: "fnv (bytes ''declinate0123456'') = fnv (bytes ''macallums0123456'')"
  by (simp add: eval_simps)

lemma collision_prefix: "fnv (bytes ''kjbpwgv'') = fnv (bytes ''k'')"
  by (simp add: eval_simps)

lemma s_mispredicted:
  "mispredicted (s_state (bytes ''declinate0123456'')) (bytes ''macallums0123456'')"
proof -
  have ok: "s_key_ok (bytes ''declinate0123456'')" by (simp add: s_key_defs)
  note en = s_state_for(1) [OF ok]
  have "ce_data (st_kcache (s_state (bytes ''declinate0123456''))
      (cache_idx (fnv (bytes ''declinate0123456'')))) (6 + 0) = bytes ''declinate0123456'' ! 0"
    using entry_for_bytes(1) [OF en, of 0] by (simp del: bytes_simps)
  moreover have "slot_hit (s_state (bytes ''declinate0123456'')) (bytes ''declinate0123456'')"
    using s_state_cached [OF ok] by (simp add: entry_holds_def del: bytes_simps)
  ultimately show ?thesis
    unfolding mispredicted_def collision_keys by (auto intro!: exI [of _ 0] simp del: fnv1a_hash32.simps)
qed

section \<open>The properties at these inputs\<close>

theorem mget_answered_witness:
  "mget_request (s_state s_key) (s_get [bytes ''zz'', s_key]) [bytes ''zz'', s_key] [(s_key, s_reply s_key)] \<and>
   (\<exists>st' ctx'. bmc_run_xdp ref_ops (s_state s_key) (s_get [bytes ''zz'', s_key]) = (st', ctx', XDP_TX) \<and>
      pkt_end ctx' = 199 \<and> mem_read (pkt_mem ctx') 178 21 = s_reply s_key @ END_LINE)"
proof -
  have fit: "reply_fits (s_get [bytes ''zz'', s_key]) [(s_key, s_reply s_key)]"
    by (simp add: reply_fits_def s_get_def length_s_reply)
  have len: "length (s_reply s_key) = 16" by (simp add: length_s_reply)
  show ?thesis
    using s_mget_partial mget_answered [OF ref_ops_ok s_mget_partial _ fit] len
    by (auto simp: s_get_def simp del: bytes_simps)
qed

theorem mget_dropped_witness:
  "mget_request (s_state s_key) (s_get (replicate 17 s_key)) (replicate 17 s_key)
     (replicate 17 (s_key, s_reply s_key)) \<and>
   snd (snd (bmc_run_xdp ref_ops (s_state s_key) (s_get (replicate 17 s_key)))) = XDP_DROP"
  using s_mget_copies [of 17] mget_dropped [OF ref_ops_ok s_mget_copies [of 17]] by simp

text \<open>
  A request for the missing key \<open>zz\<close> seven times over, in a frame that ends \<open>n\<close> bytes behind its carriage return. With eleven there are 14 bytes from the
  start of the last key on.
\<close>

definition s_misses :: "byte list list" where
  "s_misses = replicate 7 (bytes ''zz'')"

definition s_frame :: "nat \<Rightarrow> xdp_md" where
  "s_frame n = (s_get s_misses)\<lparr>pkt_end := 306 + 4 + length (key_line s_misses) + n\<rparr>"

lemma s_frame_missed: "missed_get (s_state s_key) (s_frame n) s_misses" "last_key_room (s_frame n) s_misses \<longleftrightarrow> 11 \<le> n" "first_key_room (s_frame n)"
proof -
  have l: "length (key_line s_misses) = 21" by (simp add: s_misses_def eval_nat_numeral)
  have g: "get_request (s_get s_misses) (key_line s_misses)" by (rule s_get_request) (simp add: l)
  then have "get_request (s_frame n) (key_line s_misses @ [])" by (simp add: get_request_def s_frame_def s_get_def)
  then have "\<exists>rest. get_request (s_frame n) (key_line s_misses @ rest)" by blast
  moreover have "wf_key (bytes ''zz'')" using s_key_ok_k(2) by (simp add: s_key_ok_def)
  ultimately show "missed_get (s_state s_key) (s_frame n) s_misses"
    using s_other_miss l unfolding missed_get_def
    by (auto simp: s_misses_def s_frame_def s_get_def list_all_iff simp del: bytes_simps)
  show "last_key_room (s_frame n) s_misses \<longleftrightarrow> 11 \<le> n" "first_key_room (s_frame n)"
    using l by (auto simp: last_key_room_def first_key_room_def s_frame_def s_get_def s_misses_def)
qed

theorem mget_passed_witness:
  "snd (bmc_run_xdp ref_ops (s_state s_key) (s_frame 11)) = (s_frame 11, XDP_PASS) \<and>
   (\<exists>d. snd (bmc_run_xdp ref_ops (s_state s_key) (s_frame 10)) = (s_frame 10\<lparr>pkt_data := d\<rparr>, XDP_PASS) \<and> 310 \<le> d)"
proof -
  have n: "length s_misses < op_tail_call_limit ref_ops" by (simp add: s_misses_def ref_ops_def)
  have d: "pkt_data (s_frame m) = 256" for m by (simp add: s_frame_def s_get_def)
  have "s_frame 11\<lparr>pkt_data := 256\<rparr> = s_frame 11" by (simp add: s_frame_def s_get_def)
  then show ?thesis
    using mget_passed [OF ref_ops_ok s_frame_missed(1) n, of 11] mget_passed [OF ref_ops_ok s_frame_missed(1) n, of 10] s_frame_missed(2,3) d by auto
qed

theorem collision_passed_witness:
  "mispredicted (s_state (bytes ''declinate0123456'')) (bytes ''macallums0123456'') \<and>
   snd (snd (bmc_run_xdp ref_ops (s_state (bytes ''declinate0123456''))
     (s_get [bytes ''macallums0123456'']))) = XDP_PASS"
proof -
  have "s_key_ok (bytes ''macallums0123456'')" by (simp add: s_key_defs)
  from collision_passed [OF ref_ops_ok _ s_get_one(1) [OF this] s_mispredicted] s_mispredicted
  show ?thesis by (auto simp del: bytes_simps)
qed

theorem set_invalidates_witness:
  "set_segment (s_set s_key) [] s_key \<and> ce_valid (st_kcache (s_state s_key) (cache_idx (fnv s_key))) \<noteq> 0 \<and>
   ce_valid (st_kcache (fst (bmc_run_xdp ref_ops (s_state s_key) (s_set s_key))) (cache_idx (fnv s_key))) = 0"
proof -
  have "wf_key s_key" using s_key_ok_k(1) by (simp add: s_key_ok_def)
  from set_invalidates [OF ref_ops_ok _ s_set_segment [OF s_key_ok_k(1)] this, of "s_state s_key"]
  show ?thesis
    using s_set_segment [OF s_key_ok_k(1)] entry_for_valid [OF s_state_for(1) [OF s_key_ok_k(1)]]
    by (auto simp del: bytes_simps)
qed

theorem reply_stored_witness:
  "\<not> slot_hit s_empty s_key \<and>
   entry_holds (st_kcache (fst (bmc_run_tc ref_ops s_empty (s_skb (s_reply s_key)))) (cache_idx (fnv s_key)))
     s_key (s_reply s_key)"
proof -
  have "reply_skb (s_skb (s_reply s_key)) (s_reply s_key)" by (intro s_skb_ok) (simp add: length_s_reply)
  from reply_stored [OF ref_ops_ok _ this s_reply_ok(1) [OF s_key_ok_k(1)] s_empty_miss]
    s_empty_miss [of s_key] s_reply_ok(2) [OF s_key_ok_k(1)]
  show ?thesis by (auto simp del: bytes_simps)
qed

text \<open>The sample state is reached from the empty cache by the passage of one reply.\<close>

lemma s_state_reached:
  "cache_sys (bmc_recv ref_ops) (bmc_kill ref_ops) (bmc_fill ref_ops)
     (s_empty, kv_start [s_key \<mapsto> s_reply s_key]) (s_state s_key, kv_start [s_key \<mapsto> s_reply s_key])"
proof -
  have "reply_skb (s_skb (s_reply s_key)) (s_reply s_key)" by (intro s_skb_ok) (simp add: length_s_reply)
  then have "bmc_fill ref_ops s_key (s_reply s_key) s_empty (s_state s_key)"
    unfolding bmc_fill_def s_state_def using s_reply_ok [OF s_key_ok_k(1)]
    by (intro exI [of _ "s_skb (s_reply s_key)"] exI [of _ "s_reply s_key"]) (simp del: bytes_simps)
  then show ?thesis by (rule sys_reply [rotated]) (simp add: kv_start_def del: bytes_simps)
qed



theorem expired_still_served_witness:
  "\<exists>d st' ctx'. (cache_sys (bmc_recv ref_ops) (bmc_kill ref_ops) (bmc_fill ref_ops))\<^sup>*\<^sup>* (s_empty, kv_start [s_key \<mapsto> s_reply s_key]) (s_state s_key, d) \<and>
     kv_db d s_key = None \<and> bmc_run_xdp ref_ops (s_state s_key) (s_get [s_key]) = (st', ctx', XDP_TX) \<and>
     mem_read (pkt_mem ctx') (pkt_data ctx' + HDRS_LEN) 21 = s_reply s_key @ END_LINE"
proof -
  note one = s_get_one [OF s_key_ok_k(1)]
  have fit: "reply_fits (s_get [s_key]) [(s_key, s_reply s_key)]" using one(2) by simp
  have len: "length (s_reply s_key @ END_LINE) = 21" by (simp add: length_s_reply)
  have look: "bmc_look (s_state s_key) s_key = Some (s_reply s_key)" unfolding bmc_look_iff by (rule s_state_for(1) [OF s_key_ok_k(1)])
  have "3 \<le> op_tail_call_limit ref_ops" by simp
  from expired_still_served [OF ref_ops_ok this one(1) fit r_into_rtranclp [of "cache_sys _ _ _", OF s_state_reached] look]
  show ?thesis unfolding len by blast
qed

theorem alias_answered_witness:
  "\<exists>st' ctx'. bmc_run_xdp ref_ops (s_state (bytes ''kjbpwgv'')) (s_get [s_key]) = (st', ctx', XDP_TX) \<and>
     mem_read (pkt_mem ctx') (pkt_data ctx' + HDRS_LEN) 27 = s_reply (bytes ''kjbpwgv'') @ END_LINE"
proof -
  have ok: "s_key_ok (bytes ''kjbpwgv'')" by (simp add: s_key_defs)
  have look: "bmc_look (s_state (bytes ''kjbpwgv'')) (bytes ''kjbpwgv'') = Some (s_reply (bytes ''kjbpwgv''))"
    unfolding bmc_look_iff by (rule s_state_for(1) [OF ok])
  note one = s_get_one [OF s_key_ok_k(1)]
  have fit: "reply_fits (s_get [s_key]) [(s_key, s_reply (bytes ''kjbpwgv''))]" using one(2) by simp
  have pre: "take (length s_key) (bytes ''kjbpwgv'') = s_key" by simp
  have len: "length (s_reply (bytes ''kjbpwgv'') @ END_LINE) = 27" by (simp add: length_s_reply)
  from alias_answered [OF ref_ops_ok _ one(1) look collision_prefix pre fit] len show ?thesis
    by (auto simp del: bytes_simps length_append)
qed

theorem reply_then_get_witness:
  "\<exists>st' ctx'. bmc_run_xdp ref_ops (fst (bmc_run_tc ref_ops s_empty (s_skb (s_reply s_key)))) (s_get [s_key]) =
       (st', ctx', XDP_TX) \<and>
     mem_read (pkt_mem ctx') (pkt_data ctx' + HDRS_LEN) 21 = s_reply s_key @ END_LINE"
proof -
  have skb: "reply_skb (s_skb (s_reply s_key)) (s_reply s_key)" by (intro s_skb_ok) (simp add: length_s_reply)
  note one = s_get_one [OF s_key_ok_k(1)] and rep = s_reply_ok [OF s_key_ok_k(1)]
  have fit: "reply_fits (s_get [s_key]) [(s_key, upto_lf 2 (s_reply s_key))]" using one(2) rep(2) by simp
  have len: "length (s_reply s_key) = 16" by (simp add: length_s_reply)
  from reply_then_get [OF ref_ops_ok _ skb rep(1) s_empty_miss one(1) fit] rep(2) len show ?thesis
    by (auto simp del: bytes_simps)
qed

theorem set_then_get_witness:
  "snd (bmc_run_xdp ref_ops (fst (bmc_run_xdp ref_ops (s_state s_key) (s_set s_key))) (s_get [s_key])) =
   (s_get [s_key], XDP_PASS)"
  using set_then_get [OF ref_ops_ok _ s_set_segment [OF s_key_ok_k(1)] s_get_one(1) [OF s_key_ok_k(1)],
      of "s_state s_key"]
  by (auto simp del: bytes_simps)

end
