(* ===== verification/Bmc_Checksum.thy ===== *)
theory Bmc_Checksum
  imports Bmc_Xdp
begin

unbundle bit_operations_syntax

text \<open>
  The IPv4 header checksum of the replies BMC builds. A header is accepted when the ones' complement
  sum of its ten 16-bit words is zero, that is, when their sum is a multiple of 65535 (RFC 1071; the
  byte order does not matter to this test). \<open>compute_ip_checksum\<close> folds the carries once; the
  theorem says exactly when that is enough.
\<close>

fun hdr_sum :: "mem \<Rightarrow> nat \<Rightarrow> nat \<Rightarrow> nat" where
  "hdr_sum m a 0 = 0"
| "hdr_sum m a (Suc n) = unat (le16 m a) + hdr_sum m (a + 2) n"

definition header_ok :: "mem \<Rightarrow> nat \<Rightarrow> bool" where
  "header_ok m ip \<longleftrightarrow> hdr_sum m ip 10 mod 65535 = 0"

text \<open>The sum the code folds: that of the header with a zero checksum field.\<close>

definition folded :: "mem \<Rightarrow> nat \<Rightarrow> nat" where
  "folded m ip = (let s = hdr_sum (put_le16 m (ip + 10) 0) ip 10 in s mod 65536 + s div 65536)"

lemma hdr_sum_bound: "hdr_sum m a n \<le> n * 65535"
proof (induction n arbitrary: a)
  case (Suc n)
  have "unat (le16 m a) \<le> 65535" using unat_u16_less [of "le16 m a"] by simp
  with Suc [of "a + 2"] show ?case by simp
qed simp

lemma unat_ip_csum_loop:
  assumes "unat c + n * 65535 < 2 ^ 32"
  shows "unat (ip_csum_loop m a n c) = unat c + hdr_sum m a n"
  using assms
proof (induction n arbitrary: a c)
  case (Suc n)
  have w: "unat (ucast (le16 m a) :: u32) = unat (le16 m a)" "unat (le16 m a) \<le> 65535"
    using unat_u16_less [of "le16 m a"] by (simp_all add: unat_ucast)
  then have "unat (c + ucast (le16 m a)) = unat c + unat (le16 m a)"
    using Suc.prems by (simp add: unat_word_ariths)
  then show ?case using Suc.IH [of "c + ucast (le16 m a)" "a + 2"] Suc.prems w(2) by simp
qed simp

lemma hdr_sum_add: "hdr_sum m a (k + n) = hdr_sum m a k + hdr_sum m (a + 2 * k) n"
  by (induction k arbitrary: a) (simp_all add: add.assoc)

lemma hdr_sum_cong:
  "(\<And>i. i < n \<Longrightarrow> le16 m (a + 2 * i) = le16 m' (a + 2 * i)) \<Longrightarrow> hdr_sum m a n = hdr_sum m' a n"
proof (induction n arbitrary: a)
  case (Suc n)
  have "hdr_sum m (a + 2) n = hdr_sum m' (a + 2) n"
  proof (rule Suc.IH)
    fix i assume "i < n"
    then show "le16 m (a + 2 + 2 * i) = le16 m' (a + 2 + 2 * i)"
      using Suc.prems [of "Suc i"] by (simp add: add.assoc)
  qed
  then show ?case using Suc.prems [of 0] by simp
qed simp

lemma hdr_sum_put:
  "hdr_sum (put_le16 m (ip + 10) v) ip 10 = hdr_sum (put_le16 m (ip + 10) 0) ip 10 + unat v"
proof -
  have same: "le16 (put_le16 m (ip + 10) v) a = le16 (put_le16 m (ip + 10) 0) a"
    if "a + 1 < ip + 10 \<or> ip + 12 \<le> a" for a
    using that by (auto simp: le16_def)
  have split: "hdr_sum m ip 10 = hdr_sum m ip 5 + unat (le16 m (ip + 10)) + hdr_sum m (ip + 12) 4" for m
    using hdr_sum_add [of m ip 5 5] hdr_sum_add [of m "ip + 10" 1 4] by (simp add: add.commute)
  have "hdr_sum (put_le16 m (ip + 10) v) ip 5 = hdr_sum (put_le16 m (ip + 10) 0) ip 5"
    "hdr_sum (put_le16 m (ip + 10) v) (ip + 12) 4 = hdr_sum (put_le16 m (ip + 10) 0) (ip + 12) 4"
    by (rule hdr_sum_cong, rule same, simp)+
  then show ?thesis by (simp add: split)
qed

lemma put_le16_twice [simp]: "put_le16 (put_le16 m a u) a v = put_le16 m a v"
  by (simp add: put_le16_def fun_eq_iff)

lemma complement_mod16:
  assumes "x \<le> (65545 :: nat)"
  shows "(4294967295 - x) mod 65536 = (if x < 65536 then 65535 - x else 131071 - x)"
proof (cases "x < 65536")
  case True
  then have "4294967295 - x = (65535 - x) + 65535 * 65536" by simp
  then show ?thesis using True by (simp only: mod_mult_self1) simp
next
  case False
  then have "4294967295 - x = (131071 - x) + 65534 * 65536" using assms by simp
  then show ?thesis using False assms by (simp only: mod_mult_self1) simp
qed

lemma checksum_value:
  "unat (snd (compute_ip_checksum m ip)) =
   (if folded m ip < 65536 then 65535 - folded m ip else 131071 - folded m ip)"
proof -
  let ?s = "hdr_sum (put_le16 m (ip + 10) 0) ip 10"
  let ?c = "ip_csum_loop (put_le16 m (ip + 10) 0) ip 10 0"
  let ?f = "(?c AND 0xffff) + drop_bit 16 ?c"
  have s: "?s \<le> 655350" using hdr_sum_bound [of _ ip 10] by simp
  have c: "unat ?c = ?s" using unat_ip_csum_loop [of 0 10] by simp
  have lo: "unat (?c AND 0xffff) = ?s mod 65536"
    using c unat_and_mask [of ?c 16] by (simp add: mask_eq_exp_minus_1)
  have hi: "unat (drop_bit 16 ?c) = ?s div 65536"
    unfolding unat_drop_bit_eq c by (simp add: drop_bit_eq_div)
  have f: "unat ?f = folded m ip" "folded m ip \<le> 65545"
    using lo hi s by (simp_all add: unat_word_ariths folded_def Let_def)
  have "unat (ucast (NOT ?f) :: u16) = (2 ^ 32 - 1 - folded m ip) mod 65536"
    using f(1) by (simp add: unat_ucast unat_not_u32)
  also have "\<dots> = (if folded m ip < 65536 then 65535 - folded m ip else 131071 - folded m ip)"
    using complement_mod16 [OF f(2)] by simp
  finally show ?thesis by (simp add: compute_ip_checksum_def Let_def)
qed

text \<open>
  C29. The IP header of a reply, with the checksum BMC computes stored in it, passes the receiver's
  checksum test exactly when folding the carries of the header's sum once leaves no further carry:
  a single fold is not enough in general, and in the remaining cases the reply is sent with a wrong
  checksum.
\<close>

theorem ip_checksum_valid_iff:
  "header_ok (put_le16 (fst (compute_ip_checksum m ip)) (ip + 10) (snd (compute_ip_checksum m ip))) ip
   \<longleftrightarrow> folded m ip < 65536"
proof -
  let ?s = "hdr_sum (put_le16 m (ip + 10) 0) ip 10"
  have s: "?s = 65535 * (?s div 65536) + folded m ip"
    using mult_div_mod_eq [of 65536 ?s] by (simp add: folded_def Let_def)
  have le: "folded m ip \<le> 65545"
    using hdr_sum_bound [of "put_le16 m (ip + 10) 0" ip 10] by (simp add: folded_def Let_def)
  have fst: "fst (compute_ip_checksum m ip) = put_le16 m (ip + 10) 0"
    by (simp add: compute_ip_checksum_def Let_def)
  have "header_ok (put_le16 m (ip + 10) (snd (compute_ip_checksum m ip))) ip \<longleftrightarrow>
      (folded m ip + unat (snd (compute_ip_checksum m ip))) mod 65535 = 0"
    unfolding header_ok_def hdr_sum_put [of m ip "snd _"] by (subst s) (simp add: add.assoc)
  also have "\<dots> \<longleftrightarrow> folded m ip < 65536"
    using le by (auto simp: checksum_value)
  finally show ?thesis by (simp add: fst)
qed

end
