(* ===== verification/Bmc_User.thy ===== *)
theory Bmc_User
  imports Bmc_Common
begin

unbundle bit_operations_syntax

text \<open>
  The user-space loader (\<open>bmc/bmc_user.c\<close>): the checks on its options, the aggregation of the
  per-CPU counters, the two reports and the loop that waits for signals. Loading, pinning and
  attaching the programs is libbpf's work and is not modelled; what the loader writes to its two
  files is (a line is its label and value, before \<open>fprintf\<close> prints them in decimal).
\<close>

section \<open>Options\<close>

datatype option_error =
  NegativeCount | NegativeInterval | CountWithoutInterval | IntervalWithoutCount | NoInterface

definition check_options :: "int \<Rightarrow> int \<Rightarrow> int \<Rightarrow> option_error option" where
  "check_options stats_poll_count stats_poll_interval interface_count =
     (if stats_poll_count < 0 then Some NegativeCount
      else if stats_poll_interval < 0 then Some NegativeInterval
      else if stats_poll_count > 0 \<and> stats_poll_interval = 0 then Some CountWithoutInterval
      else if stats_poll_interval > 0 \<and> stats_poll_count = 0 then Some IntervalWithoutCount
      else if interface_count \<le> 0 then Some NoInterface
      else None)"

section \<open>Reports\<close>

definition zero_stats :: bmc_stats where
  "zero_stats = \<lparr>get_recv_count = 0, set_recv_count = 0, get_resp_count = 0, hit_misprediction = 0,
     hit_count = 0, miss_count = 0, update_count = 0, invalidation_count = 0\<rparr>"

definition add_stats :: "bmc_stats \<Rightarrow> bmc_stats \<Rightarrow> bmc_stats" where
  "add_stats a s = \<lparr>
     get_recv_count = get_recv_count a + get_recv_count s,
     set_recv_count = set_recv_count a + set_recv_count s,
     get_resp_count = get_resp_count a + get_resp_count s,
     hit_misprediction = hit_misprediction a + hit_misprediction s,
     hit_count = hit_count a + hit_count s,
     miss_count = miss_count a + miss_count s,
     update_count = update_count a + update_count s,
     invalidation_count = invalidation_count a + invalidation_count s\<rparr>"

text \<open>The loop over the CPUs; \<open>stats\<close> is the array the lookup filled.\<close>

fun aggregate :: "bmc_stats list \<Rightarrow> bmc_stats \<Rightarrow> bmc_stats" where
  "aggregate [] aggregate_stats = aggregate_stats"
| "aggregate (s # stats) aggregate_stats = aggregate stats (add_stats aggregate_stats s)"

text \<open>The return value and the lines written; \<open>fopen_ok\<close> says whether the file could be opened.\<close>

definition write_stats_to_file :: "bool \<Rightarrow> bmc_stats list \<Rightarrow> int \<times> (string \<times> u32) list option" where
  "write_stats_to_file fopen_ok stats =
     (let a = aggregate stats zero_stats in
      if \<not> fopen_ok then (- 1, None)
      else (0, Some
        [(''get_recv_count'', get_recv_count a), (''set_recv_count'', set_recv_count a),
         (''get_resp_count'', get_resp_count a), (''get_key_count'', hit_misprediction a),
         (''hit_count'', hit_count a), (''miss_count'', miss_count a),
         (''update_count'', update_count a), (''invalidation_count'', invalidation_count a)]))"

definition write_stat_line :: "u64 \<Rightarrow> bmc_stats list \<Rightarrow> int \<times> u64 \<times> u32 list" where
  "write_stat_line time stats =
     (let a = aggregate stats zero_stats in
      (0, time, [get_recv_count a, set_recv_count a, get_resp_count a, hit_misprediction a,
                 hit_count a, miss_count a, update_count a, invalidation_count a]))"

section \<open>The signal loop\<close>

datatype signal = SIGINT | SIGTERM | SIGALRM | SIGUSR1 | OtherSignal

text \<open>The alarm that is set, if one is: the second at which it goes off.\<close>

record user_state =
  us_ret :: int
  us_quit :: int
  us_polls :: int
  us_alarm :: "nat option"
  us_fp :: bool
  us_lines :: "(u64 \<times> u32 list) list"
  us_report :: "(string \<times> u32) list option"

text \<open>What the loader finds outside at a second: the counters of the CPUs, and whether the report can be opened.\<close>

record user_world =
  uw_stats :: "nat \<Rightarrow> bmc_stats list"
  uw_fopen_ok :: "nat \<Rightarrow> bool"

definition do_report :: "user_world \<Rightarrow> nat \<Rightarrow> user_state \<Rightarrow> int \<times> user_state" where
  "do_report w now us =
     (let (r, lines) = write_stats_to_file (uw_fopen_ok w now) (uw_stats w now) in
      (r, case lines of None \<Rightarrow> us | Some ls \<Rightarrow> us\<lparr>us_report := Some ls\<rparr>))"

fun handle_signal :: "int \<Rightarrow> int \<Rightarrow> user_world \<Rightarrow> nat \<Rightarrow> signal \<Rightarrow> user_state \<Rightarrow> user_state" where
  "handle_signal stats_poll_count stats_poll_interval w now SIGALRM us =
     (let (r, t, vs) = write_stat_line (of_nat now) (uw_stats w now);
          us = us\<lparr>us_ret := us_ret us OR r, us_lines := us_lines us @ [(t, vs)], us_polls := us_polls us + 1\<rparr>
      in if us_polls us < stats_poll_count then us\<lparr>us_alarm := Some (now + nat stats_poll_interval)\<rparr>
         else
           let (r, us) = do_report w now us
           in us\<lparr>us_ret := us_ret us OR r, us_fp := False, us_quit := 1\<rparr>)"
| "handle_signal stats_poll_count stats_poll_interval w now SIGUSR1 us =
     (let (r, us) = do_report w now us in us\<lparr>us_ret := r, us_quit := r\<rparr>)"
| "handle_signal stats_poll_count stats_poll_interval w now OtherSignal us = us"
| "handle_signal stats_poll_count stats_poll_interval w now _ us =
     (let (r, us) = do_report w now us in us\<lparr>us_ret := r, us_quit := 1\<rparr>)"

text \<open>A bound on the signals the loop still handles.\<close>

definition user_left :: "int \<Rightarrow> (nat \<times> signal) list \<Rightarrow> user_state \<Rightarrow> nat" where
  "user_left c ext us = length ext + nat (c - us_polls us) + (if us_quit us = 0 then 1 else 0)"

lemma handled_polls: "us_polls us \<le> us_polls (handle_signal c iv w now sg us)"
  by (cases sg) (auto simp: Let_def write_stat_line_def do_report_def split: prod.splits option.splits)

lemma handled_alarm:
  "us_polls (handle_signal c iv w now SIGALRM us) = us_polls us + 1"
  "us_quit (handle_signal c iv w now SIGALRM us) = (if us_polls us + 1 < c then us_quit us else 1)"
  by (auto simp: Let_def write_stat_line_def do_report_def split: prod.splits option.splits)

text \<open>
  The loop: \<open>sigwait\<close> returns what comes first, the alarm that is set or the next of the signals \<open>ext\<close> that others send (with the second at which
  they come); with neither it waits forever, which ends the recursion in the state that waits. An alarm goes off once.
\<close>

function user_loop :: "int \<Rightarrow> int \<Rightarrow> user_world \<Rightarrow> (nat \<times> signal) list \<Rightarrow> user_state \<Rightarrow> user_state" where
  "user_loop c iv w ext us =
     (if us_quit us \<noteq> 0 then us
      else if ext \<noteq> [] \<and> (case us_alarm us of None \<Rightarrow> True | Some t \<Rightarrow> fst (hd ext) < t)
      then user_loop c iv w (tl ext) (handle_signal c iv w (fst (hd ext)) (snd (hd ext)) us)
      else case us_alarm us of
          None \<Rightarrow> us
        | Some t \<Rightarrow> user_loop c iv w ext (handle_signal c iv w t SIGALRM (us\<lparr>us_alarm := None\<rparr>)))"
  by pat_completeness auto
termination
proof (relation "measure (\<lambda>(c, iv, w, ext, us). user_left c ext us)", goal_cases)
  case (2 c iv w ext us)
  then show ?case using handled_polls [of us c iv w "fst (hd ext)" "snd (hd ext)"] by (cases ext) (auto simp: user_left_def)
next
  case (3 c iv w ext us t)
  then show ?case
    by (cases "us_polls us + 1 < c") (auto simp: user_left_def handled_alarm simp del: handle_signal.simps)
qed simp

declare user_loop.simps [simp del]

definition user_start :: "int \<Rightarrow> int \<Rightarrow> nat \<Rightarrow> user_state" where
  "user_start c iv now =
     (let polling = (c > 0 \<and> iv > 0) in
      \<lparr>us_ret = 0, us_quit = 0, us_polls = 0, us_alarm = (if polling then Some (now + nat iv) else None), us_fp = polling,
       us_lines = [], us_report = None\<rparr>)"

text \<open>
  The loader from its options on, with the programs loaded and attached at second \<open>now\<close>; \<open>csv_ok\<close>: could the file for the lines be opened. The
  exit code, with the last state when the loop was entered.
\<close>

definition user_main :: "int \<Rightarrow> int \<Rightarrow> int \<Rightarrow> bool \<Rightarrow> user_world \<Rightarrow> (nat \<times> signal) list \<Rightarrow> nat \<Rightarrow> option_error + int \<times> user_state option" where
  "user_main c iv n csv_ok w ext now =
     (case check_options c iv n of
        Some e \<Rightarrow> Inl e
      | None \<Rightarrow>
          if c > 0 \<and> iv > 0 \<and> \<not> csv_ok then Inr (- 1, None)
          else let us = user_loop c iv w ext (user_start c iv now) in Inr (us_ret us, Some us))"

section \<open>Properties\<close>

lemma aggregate_fields:
  "get_recv_count (aggregate ss a) = get_recv_count a + sum_list (map get_recv_count ss)"
  "set_recv_count (aggregate ss a) = set_recv_count a + sum_list (map set_recv_count ss)"
  "get_resp_count (aggregate ss a) = get_resp_count a + sum_list (map get_resp_count ss)"
  "hit_misprediction (aggregate ss a) = hit_misprediction a + sum_list (map hit_misprediction ss)"
  "hit_count (aggregate ss a) = hit_count a + sum_list (map hit_count ss)"
  "miss_count (aggregate ss a) = miss_count a + sum_list (map miss_count ss)"
  "update_count (aggregate ss a) = update_count a + sum_list (map update_count ss)"
  "invalidation_count (aggregate ss a) = invalidation_count a + sum_list (map invalidation_count ss)"
  by (induction ss arbitrary: a) (simp_all add: add_stats_def)

text \<open>The sums of the counters over the CPUs, in the order in which they are written.\<close>

definition totals :: "bmc_stats list \<Rightarrow> u32 list" where
  "totals ss = map (\<lambda>f. sum_list (map f ss))
     [get_recv_count, set_recv_count, get_resp_count, hit_misprediction, hit_count, miss_count, update_count, invalidation_count]"

definition report_labels :: "string list" where
  "report_labels = [''get_recv_count'', ''set_recv_count'', ''get_resp_count'', ''get_key_count'', ''hit_count'', ''miss_count'',
     ''update_count'', ''invalidation_count'']"

lemma line_totals: "write_stat_line t ss = (0, t, totals ss)"
  by (simp add: write_stat_line_def aggregate_fields totals_def zero_stats_def)

lemma report_totals: "write_stats_to_file ok ss = (if ok then (0, Some (zip report_labels (totals ss))) else (- 1, None))"
  by (simp add: write_stats_to_file_def aggregate_fields totals_def report_labels_def zero_stats_def)

lemmas user_simps = Let_def line_totals report_totals do_report_def

text \<open>A signal that does not disturb the polling: it asks for a report, and gets it, or is unknown.\<close>

definition harmless_signal :: "user_world \<Rightarrow> nat \<Rightarrow> signal \<Rightarrow> bool" where
  "harmless_signal w u sg \<longleftrightarrow> sg = OtherSignal \<or> sg = SIGUSR1 \<and> uw_fopen_ok w u"

lemma harmless_handled:
  assumes "harmless_signal w u sg" "us_quit us = 0" "us_ret us = 0"
  shows "\<exists>rep. handle_signal c iv w u sg us = us\<lparr>us_report := rep\<rparr>"
proof (cases sg)
  case SIGUSR1
  then have "handle_signal c iv w u sg us = us\<lparr>us_report := Some (zip report_labels (totals (uw_stats w u)))\<rparr>"
    using assms by (cases us) (simp add: harmless_signal_def user_simps)
  then show ?thesis by blast
qed (use assms in \<open>auto simp: harmless_signal_def intro: exI [of _ "us_report us"]\<close>)

definition poll_line :: "user_world \<Rightarrow> nat \<Rightarrow> u64 \<times> u32 list" where
  "poll_line w t = (of_nat t, totals (uw_stats w t))"

lemma polling_run:
  assumes "us_quit us = 0" "us_ret us = 0" "us_alarm us = Some t" "us_polls us = c - int (Suc m)" "0 < iv"
    and "\<forall>(u, sg) \<in> set ext. u < t + m * nat iv \<longrightarrow> harmless_signal w u sg" "uw_fopen_ok w (t + m * nat iv)"
  shows "let us' = user_loop c iv w ext us in
    us_quit us' = 1 \<and> us_ret us' = 0 \<and> \<not> us_fp us' \<and> us_lines us' = us_lines us @ map (\<lambda>k. poll_line w (t + k * nat iv)) [0..<Suc m] \<and>
    us_report us' = Some (zip report_labels (totals (uw_stats w (t + m * nat iv))))"
  using assms
proof (induction "length ext + m" arbitrary: ext us m t rule: less_induct)
  case less
  show ?case
  proof (cases "ext \<noteq> [] \<and> fst (hd ext) < t")
    case True
    then obtain u sg ext' where e: "ext = (u, sg) # ext'" "u < t" by (cases ext) auto
    then have "harmless_signal w u sg" using less.prems(6) by auto
    then obtain rep where h: "handle_signal c iv w u sg us = us\<lparr>us_report := rep\<rparr>" using harmless_handled less.prems(1,2) by blast
    have "user_loop c iv w ext us = user_loop c iv w ext' (us\<lparr>us_report := rep\<rparr>)"
      using e h less.prems(1,3) by (subst user_loop.simps) simp
    then show ?thesis using less.hyps [of ext' m "us\<lparr>us_report := rep\<rparr>" t] less.prems e by simp
  next
    case False
    let ?us = "handle_signal c iv w t SIGALRM (us\<lparr>us_alarm := None\<rparr>)"
    have l: "user_loop c iv w ext us = user_loop c iv w ext ?us"
      using False less.prems(1,3) by (subst user_loop.simps) (auto simp del: handle_signal.simps)
    show ?thesis
    proof (cases m)
      case 0
      then have "us_quit ?us = 1" "us_ret ?us = 0" "\<not> us_fp ?us" "us_lines ?us = us_lines us @ [poll_line w t]"
          "us_report ?us = Some (zip report_labels (totals (uw_stats w t)))"
        using less.prems by (simp_all add: user_simps poll_line_def)
      moreover from this(1) have "user_loop c iv w ext ?us = ?us" by (subst user_loop.simps) (simp del: handle_signal.simps)
      ultimately show ?thesis unfolding l using 0 by (simp add: Let_def del: handle_signal.simps)
    next
      case (Suc j)
      then have u: "us_quit ?us = 0" "us_ret ?us = 0" "us_alarm ?us = Some (t + nat iv)" "us_polls ?us = c - int (Suc j)"
          "us_lines ?us = us_lines us @ [poll_line w t]"
        using less.prems by (simp_all add: user_simps poll_line_def)
      have k: "map (\<lambda>k. poll_line w (t + k * nat iv)) [0..<Suc m] = poll_line w t # map (\<lambda>k. poll_line w (t + nat iv + k * nat iv)) [0..<Suc j]"
        using Suc by (simp add: map_upt_Suc add.assoc del: upt_Suc)
      show ?thesis unfolding l k
        using less.hyps [of ext j ?us "t + nat iv"] u less.prems(5-7) Suc by (simp add: Let_def add.assoc del: handle_signal.simps upt_Suc)
    qed
  qed
qed

text \<open>
  C30. With accepted options and polling requested, the loader started at second \<open>now\<close> keeps its alarm going and stops by itself after the requested number of
  intervals: it has written one line per interval, with the second and the sums of the counters over the CPUs at that second, and the report with the sums at the last
  one, and returns 0. Requests for a report (SIGUSR1) and unknown signals meanwhile change nothing of this, as long as the reports can be
  written; what comes later is not waited for.
\<close>

theorem polling_ends:
  assumes "check_options c iv n = None" and "0 < c" and fin: "fin = now + nat c * nat iv"
    and "\<forall>(u, sg) \<in> set ext. u < fin \<longrightarrow> harmless_signal w u sg" and "uw_fopen_ok w fin"
  shows "\<exists>us. user_main c iv n True w ext now = Inr (0, Some us) \<and> us_quit us = 1 \<and> \<not> us_fp us \<and>
    us_lines us = map (\<lambda>k. poll_line w (now + k * nat iv)) [1..<Suc (nat c)] \<and>
    us_report us = Some (zip report_labels (totals (uw_stats w fin)))"
proof -
  have iv: "0 < iv" using assms(1,2) by (auto simp: check_options_def split: if_splits)
  obtain m where m: "nat c = Suc m" "c = int (Suc m)" using assms(2) that [of "nat c - 1"] by simp
  let ?us = "user_start c iv now"
  have u: "us_quit ?us = 0" "us_ret ?us = 0" "us_alarm ?us = Some (now + nat iv)" "us_polls ?us = c - int (Suc m)" "us_lines ?us = []"
    using assms(2) iv m by (simp_all add: user_start_def)
  have f: "now + nat iv + m * nat iv = fin" using fin m by simp
  have k: "map (\<lambda>k. poll_line w (now + k * nat iv)) [1..<Suc (nat c)] = map (\<lambda>k. poll_line w (now + nat iv + k * nat iv)) [0..<Suc m]"
    by (rule nth_equalityI) (simp_all add: m(1) add.assoc del: upt_Suc)
  show ?thesis
    using polling_run [OF u(1-4) iv, of ext w] assms(1,4,5) iv unfolding f k u(5) by (simp add: user_main_def Let_def del: upt_Suc)
qed

definition s_world :: user_world where
  "s_world = \<lparr>uw_stats = (\<lambda>t. [zero_stats\<lparr>hit_count := of_nat t\<rparr>, zero_stats\<lparr>hit_count := 1\<rparr>]), uw_fopen_ok = (\<lambda>_. True)\<rparr>"

theorem polling_ends_witness:
  "\<exists>us. user_main 2 5 1 True s_world [(107, SIGUSR1), (111, SIGINT)] 100 = Inr (0, Some us) \<and>
     us_lines us = [(105, [0, 0, 0, 0, 106, 0, 0, 0]), (110, [0, 0, 0, 0, 111, 0, 0, 0])]"
proof -
  have l: "[1..<Suc (nat 2)] = [1, 2]" by (simp add: upt_rec)
  show ?thesis
    using polling_ends [of 2 5 1 110 100 "[(107, SIGUSR1), (111, SIGINT)]" s_world] unfolding l
    by (auto simp: check_options_def harmless_signal_def s_world_def poll_line_def totals_def zero_stats_def)
qed

end
