(* ===== verification/Fifo_Spec.thy ===== *)
theory Fifo_Spec
  imports Prelude
begin

text \<open>
  The contract of a byte queue with one reader that looks at the front part of the queue, works on
  it without holding the lock, and then removes what it has dealt with, all of it or a part, while
  writers go on adding.
\<close>

text \<open>
  A state is the queue, the bytes the reader is looking at (if it is), and two logs: the bytes
  accepted from the writers and the bytes the reader has dealt with.
\<close>

type_synonym 'b fifo_state = "'b \<times> byte list option \<times> byte list \<times> byte list"

inductive fifo_step ::
  "('b \<Rightarrow> byte list option) \<Rightarrow> ('b \<Rightarrow> byte list \<Rightarrow> 'b option) \<Rightarrow> ('b \<Rightarrow> nat \<Rightarrow> 'b) \<Rightarrow>
   'b fifo_state \<Rightarrow> 'b fifo_state \<Rightarrow> bool"
  for peek put poll where
  fifo_put: "put b d = Some b' \<Longrightarrow> fifo_step peek put poll (b, f, acc, seen) (b', f, acc @ d, seen)"
| fifo_peek: "peek b = Some d \<Longrightarrow> fifo_step peek put poll (b, None, acc, seen) (b, Some d, acc, seen)"
| fifo_poll: "n \<le> length d \<Longrightarrow>
    fifo_step peek put poll (b, Some d, acc, seen) (poll b n, None, acc, seen @ take n d)"

inductive_cases fifo_stepE: "fifo_step peek put poll c c'"

locale byte_fifo =
  fixes inv :: "'b \<Rightarrow> bool"
    and contents :: "'b \<Rightarrow> byte list"
    and front :: "'b \<Rightarrow> byte list"
    and peek :: "'b \<Rightarrow> byte list option"
    and put :: "'b \<Rightarrow> byte list \<Rightarrow> 'b option"
    and poll :: "'b \<Rightarrow> nat \<Rightarrow> 'b"
  assumes put_inv: "inv b \<Longrightarrow> put b d = Some b' \<Longrightarrow> inv b'"
    and put_contents: "inv b \<Longrightarrow> put b d = Some b' \<Longrightarrow> contents b' = contents b @ d"
    and put_front: "inv b \<Longrightarrow> put b d = Some b' \<Longrightarrow> \<exists>xs. front b' = front b @ xs"
    and front_prefix: "inv b \<Longrightarrow> \<exists>xs. contents b = front b @ xs"
    and front_Nil: "inv b \<Longrightarrow> front b = [] \<longleftrightarrow> contents b = []"
    and peek_law: "inv b \<Longrightarrow> peek b = (if contents b = [] then None else Some (front b))"
    and poll_inv: "inv b \<Longrightarrow> front b \<noteq> [] \<Longrightarrow> n \<le> length (front b) \<Longrightarrow> inv (poll b n)"
    and poll_contents: "inv b \<Longrightarrow> front b \<noteq> [] \<Longrightarrow> n \<le> length (front b) \<Longrightarrow>
      contents (poll b n) = drop n (contents b)"
begin

text \<open>What the reader has dealt with, followed by the queue, is what the writers put in.\<close>

definition good :: "'b fifo_state \<Rightarrow> bool" where
  "good c \<longleftrightarrow> (case c of (b, f, acc, seen) \<Rightarrow> inv b \<and> acc = seen @ contents b \<and>
     (case f of None \<Rightarrow> True | Some d \<Rightarrow> d \<noteq> [] \<and> (\<exists>xs. front b = d @ xs)))"

lemma step_good:
  assumes "fifo_step peek put poll c c'" and "good c"
  shows "good c'"
  using assms
proof cases
  case (fifo_put b d b' f acc seen)
  with assms(2) have "inv b" by (simp add: good_def)
  with fifo_put assms(2) put_inv [of b d b'] put_contents [of b d b'] put_front [of b d b']
  show ?thesis by (cases f) (auto simp: good_def)
next
  case (fifo_peek b d acc seen)
  with assms(2) peek_law [of b] front_Nil [of b] show ?thesis by (auto simp: good_def split: if_splits)
next
  case (fifo_poll n d b acc seen)
  with assms(2) obtain xs where g: "inv b" "acc = seen @ contents b" "d \<noteq> []" "front b = d @ xs" by (auto simp: good_def)
  obtain ys where c: "contents b = front b @ ys" using front_prefix [OF g(1)] by blast
  have p: "front b \<noteq> []" "n \<le> length (front b)" using g fifo_poll(3) by auto
  have "contents b = take n d @ drop n (contents b)" using fifo_poll(3) g(4) c by simp
  then show ?thesis using fifo_poll g poll_inv [OF g(1) p] poll_contents [OF g(1) p] by (simp add: good_def)
qed

lemma steps_good:
  "(fifo_step peek put poll)\<^sup>*\<^sup>* c c' \<Longrightarrow> good c \<Longrightarrow> good c'"
  by (induction rule: rtranclp_induct) (auto intro: step_good)

lemma exactly_once:
  assumes "(fifo_step peek put poll)\<^sup>*\<^sup>* (b, None, [], []) (b', f, acc, seen)"
    and "inv b" and "contents b = []"
  shows "acc = seen @ contents b' \<and> (peek b' = None \<longleftrightarrow> seen = acc) \<and>
    (\<forall>d. f = Some d \<longrightarrow> (\<exists>xs. contents b' = d @ xs))"
proof -
  have "good (b, None, [], [])" using assms(2,3) by (simp add: good_def)
  from steps_good [OF assms(1) this] have g: "good (b', f, acc, seen)" .
  then have i: "inv b'" by (simp add: good_def)
  show ?thesis using g peek_law [OF i] front_prefix [OF i] by (cases f) (auto simp: good_def)
qed

end

end
