(* ===== verification/Bipbuffer.thy ===== *)
theory Bipbuffer
  imports Fifo_Spec
begin

unbundle bit_operations_syntax

text \<open>
  The bipartite ring buffer (\<open>memcached-sr/bipbuffer.c\<close>) the logger, the LRU crawler and the
  asynchronous LRU bumps queue their records in: one region of the array is read (A) while the free
  space in front of it is written (B). The fields keep their C widths; \<open>bb_data\<close> is the flexible
  array member. A pointer into the array is the index it points at.
\<close>

section \<open>Model\<close>

record bipbuf =
  bb_size :: u64
  bb_a_start :: u32
  bb_a_end :: u32
  bb_b_end :: u32
  bb_b_inuse :: bool
  bb_data :: mem

definition bipbuf_unused :: "bipbuf \<Rightarrow> int" where
  "bipbuf_unused me =
     (if bb_b_inuse me then sint (bb_a_start me - bb_b_end me)
      else sint (ucast (bb_size me - ucast (bb_a_end me)) :: u32))"

definition bipbuf_size :: "bipbuf \<Rightarrow> int" where
  "bipbuf_size me = sint (ucast (bb_size me) :: u32)"

definition bipbuf_used :: "bipbuf \<Rightarrow> int" where
  "bipbuf_used me = sint ((bb_a_end me - bb_a_start me) + bb_b_end me)"

definition bipbuf_init :: "mem \<Rightarrow> u32 \<Rightarrow> bipbuf" where
  "bipbuf_init data sz =
     \<lparr>bb_size = ucast sz, bb_a_start = 0, bb_a_end = 0, bb_b_end = 0, bb_b_inuse = False, bb_data = data\<rparr>"

text \<open>\<open>mem\<close> is what \<open>malloc\<close> returned: nothing, or some memory with arbitrary contents.\<close>

definition bipbuf_new :: "mem option \<Rightarrow> u32 \<Rightarrow> bipbuf option" where
  "bipbuf_new mem sz = (case mem of None \<Rightarrow> None | Some data \<Rightarrow> Some (bipbuf_init data sz))"

definition bipbuf_is_empty :: "bipbuf \<Rightarrow> bool" where
  "bipbuf_is_empty me \<longleftrightarrow> bb_a_start me = bb_a_end me"

definition check_for_switch_to_b :: "bipbuf \<Rightarrow> bipbuf" where
  "check_for_switch_to_b me =
     (if bb_size me - ucast (bb_a_end me) < ucast (bb_a_start me - bb_b_end me)
      then me\<lparr>bb_b_inuse := True\<rparr> else me)"

definition bipbuf_request :: "bipbuf \<Rightarrow> int \<Rightarrow> nat option" where
  "bipbuf_request me sz =
     (if bipbuf_unused me < sz then None
      else if bb_b_inuse me then Some (unat (bb_b_end me))
      else Some (unat (bb_a_end me)))"

definition bipbuf_push :: "bipbuf \<Rightarrow> int \<Rightarrow> bipbuf \<times> int" where
  "bipbuf_push me sz =
     (if bipbuf_unused me < sz then (me, 0)
      else
        let me = (if bb_b_inuse me then me\<lparr>bb_b_end := bb_b_end me + word_of_int sz\<rparr>
                  else me\<lparr>bb_a_end := bb_a_end me + word_of_int sz\<rparr>)
        in (check_for_switch_to_b me, sz))"

definition bipbuf_offer :: "bipbuf \<Rightarrow> byte list \<Rightarrow> bipbuf \<times> int" where
  "bipbuf_offer me data =
     (let sz = int (length data) in
      if bipbuf_unused me < sz then (me, 0)
      else
        let me = (if bb_b_inuse me
                  then me\<lparr>bb_data := mem_write (bb_data me) (unat (bb_b_end me)) data,
                          bb_b_end := bb_b_end me + word_of_int sz\<rparr>
                  else me\<lparr>bb_data := mem_write (bb_data me) (unat (bb_a_end me)) data,
                          bb_a_end := bb_a_end me + word_of_int sz\<rparr>)
        in (check_for_switch_to_b me, sz))"

definition bipbuf_peek :: "bipbuf \<Rightarrow> u32 \<Rightarrow> nat option" where
  "bipbuf_peek me sz =
     (if bb_size me < ucast (bb_a_start me + sz) then None
      else if bipbuf_is_empty me then None
      else Some (unat (bb_a_start me)))"

definition bipbuf_peek_all :: "bipbuf \<Rightarrow> (nat \<times> u32) option" where
  "bipbuf_peek_all me =
     (if bipbuf_is_empty me then None
      else Some (unat (bb_a_start me), bb_a_end me - bb_a_start me))"

definition bipbuf_poll :: "bipbuf \<Rightarrow> u32 \<Rightarrow> bipbuf \<times> nat option" where
  "bipbuf_poll me sz =
     (if bipbuf_is_empty me then (me, None)
      else if bb_size me < ucast (bb_a_start me + sz) then (me, None)
      else
        let end = unat (bb_a_start me);
            me = me\<lparr>bb_a_start := bb_a_start me + sz\<rparr>;
            me = (if bb_a_start me = bb_a_end me then
                    if bb_b_inuse me
                    then me\<lparr>bb_a_start := 0, bb_a_end := bb_b_end me, bb_b_end := 0, bb_b_inuse := False\<rparr>
                    else me\<lparr>bb_a_start := 0, bb_a_end := 0\<rparr>
                  else me)
        in (check_for_switch_to_b me, Some end))"

section \<open>Invariant and contents\<close>

abbreviation (input) "a_start me \<equiv> unat (bb_a_start me)"
abbreviation (input) "a_end me \<equiv> unat (bb_a_end me)"
abbreviation (input) "b_end me \<equiv> unat (bb_b_end me)"

text \<open>
  Sizes below \<open>2 ^ 31\<close>, as the code's \<open>int\<close> results need; region A lies inside the array, region B
  below it and only when in use, and an empty buffer has its cursors at the start.
\<close>

definition bip_inv :: "bipbuf \<Rightarrow> bool" where
  "bip_inv me \<longleftrightarrow>
     unat (bb_size me) < 2 ^ 31 \<and> a_start me \<le> a_end me \<and> a_end me \<le> unat (bb_size me) \<and>
     (if bb_b_inuse me then b_end me \<le> a_start me \<and> a_start me < a_end me else b_end me = 0) \<and>
     (a_start me = a_end me \<longrightarrow> a_start me = 0)"

text \<open>The bytes queued, oldest first, and the part of them a reader sees at once.\<close>

definition bip_front :: "bipbuf \<Rightarrow> byte list" where
  "bip_front me = mem_read (bb_data me) (a_start me) (a_end me - a_start me)"

definition bip_contents :: "bipbuf \<Rightarrow> byte list" where
  "bip_contents me = bip_front me @ mem_read (bb_data me) 0 (b_end me)"

lemma sint_small: "unat w < 2 ^ 31 \<Longrightarrow> sint w = int (unat w)" for w :: u32
proof -
  assume "unat w < 2 ^ 31"
  then have "int (unat w) < int (2 ^ 31)" by (simp only: of_nat_less_iff)
  moreover have "- (2 ^ 31) \<le> uint w" by (rule order_trans [OF _ uint_ge_0]) simp
  ultimately show ?thesis by (simp add: sint_uint signed_take_bit_int_eq_self_iff)
qed

lemma unat_diff: "unat y \<le> unat x \<Longrightarrow> unat (x - y) = unat x - unat y" for x y :: "'a :: len word"
  by (simp add: unat_sub_if_size)

lemma unat_plus: "unat x + n < 2 ^ 32 \<Longrightarrow> unat (x + of_nat n) = unat x + n" for x :: u32
  by (simp add: unat_word_ariths unat_of_nat)

lemma unat_word_sizes:
  assumes "bip_inv me"
  shows "unat (ucast (bb_a_end me) :: u64) = a_end me"
    "unat (bb_size me - ucast (bb_a_end me)) = unat (bb_size me) - a_end me"
    "a_start me < 2 ^ 31" "a_end me < 2 ^ 31" "b_end me \<le> a_start me"
    "unat (bb_a_start me - bb_b_end me) = a_start me - b_end me"
proof -
  show e: "unat (ucast (bb_a_end me) :: u64) = a_end me"
    using unat_u32_less [of "bb_a_end me"] by (simp add: unat_ucast)
  show "a_start me < 2 ^ 31" "a_end me < 2 ^ 31" and b: "b_end me \<le> a_start me"
    using assms by (auto simp: bip_inv_def split: if_splits)
  show "unat (bb_size me - ucast (bb_a_end me)) = unat (bb_size me) - a_end me"
    using assms e by (subst unat_diff) (auto simp: bip_inv_def)
  show "unat (bb_a_start me - bb_b_end me) = a_start me - b_end me" by (rule unat_diff [OF b])
qed

lemma unused_eq:
  assumes "bip_inv me"
  shows "bipbuf_unused me =
    int (if bb_b_inuse me then a_start me - b_end me else unat (bb_size me) - a_end me)"
proof -
  note w = unat_word_sizes [OF assms]
  have "unat (ucast (bb_size me - ucast (bb_a_end me)) :: u32) = unat (bb_size me) - a_end me"
    using assms w(2) by (auto simp: unat_ucast bip_inv_def)
  moreover have "unat (bb_size me) < 2 ^ 31" using assms by (simp add: bip_inv_def)
  ultimately show ?thesis
    using w by (simp add: bipbuf_unused_def sint_small)
qed

lemma check_eq:
  assumes "bip_inv me"
  shows "check_for_switch_to_b me =
    (if unat (bb_size me) - a_end me < a_start me - b_end me then me\<lparr>bb_b_inuse := True\<rparr> else me)"
proof -
  note w = unat_word_sizes [OF assms]
  have "unat (ucast (bb_a_start me - bb_b_end me) :: u64) = a_start me - b_end me"
    using w(3,6) by (simp add: unat_ucast)
  then show ?thesis by (simp add: check_for_switch_to_b_def word_less_nat_alt w(2))
qed

lemma check_inv:
  assumes "bip_inv me"
  shows "bip_inv (check_for_switch_to_b me)" "bip_contents (check_for_switch_to_b me) = bip_contents me"
    "bip_front (check_for_switch_to_b me) = bip_front me"
  using assms unfolding check_eq [OF assms]
  by (auto simp: bip_inv_def bip_contents_def bip_front_def split: if_splits)

section \<open>The operations on the contents\<close>

text \<open>The unused space as a number, and the index where a writer puts its bytes.\<close>

definition bip_room :: "bipbuf \<Rightarrow> nat" where
  "bip_room me = (if bb_b_inuse me then a_start me - b_end me else unat (bb_size me) - a_end me)"

definition bip_tail :: "bipbuf \<Rightarrow> nat" where
  "bip_tail me = (if bb_b_inuse me then b_end me else a_end me)"

lemma request_eq:
  "bip_inv me \<Longrightarrow> bipbuf_request me (int n) = (if n \<le> bip_room me then Some (bip_tail me) else None)"
  by (auto simp: bipbuf_request_def unused_eq bip_room_def bip_tail_def)

lemma contents_write:
  assumes "bip_inv me" and "length d \<le> bip_room me"
  shows "bip_contents (me\<lparr>bb_data := mem_write (bb_data me) (bip_tail me) d\<rparr>) = bip_contents me"
  using assms
  by (auto simp: bip_contents_def bip_front_def bip_tail_def bip_room_def bip_inv_def
      mem_read_write_disjoint split: if_splits)

lemma push_eq:
  assumes inv: "bip_inv me" and n: "n \<le> bip_room me"
  shows "\<exists>me'. bipbuf_push me (int n) = (me', int n) \<and> bip_inv me' \<and>
    bip_contents me' = bip_contents me @ mem_read (bb_data me) (bip_tail me) n \<and>
    bb_size me' = bb_size me"
proof -
  note w = unat_word_sizes [OF inv]
  let ?me = "if bb_b_inuse me then me\<lparr>bb_b_end := bb_b_end me + of_nat n\<rparr>
             else me\<lparr>bb_a_end := bb_a_end me + of_nat n\<rparr>"
  have push: "bipbuf_push me (int n) = (check_for_switch_to_b ?me, int n)"
    using n by (simp add: bipbuf_push_def unused_eq [OF inv] bip_room_def Let_def)
  have size: "unat (bb_size me) < 2 ^ 31" using inv by (simp add: bip_inv_def)
  have b: "bb_b_inuse me \<Longrightarrow> unat (bb_b_end me + of_nat n) = b_end me + n"
    using n w(3,5) by (intro unat_plus) (simp add: bip_room_def)
  have a: "\<not> bb_b_inuse me \<Longrightarrow> unat (bb_a_end me + of_nat n) = a_end me + n"
    using n w(4) size by (intro unat_plus) (simp add: bip_room_def)
  have inv': "bip_inv ?me"
    using inv n a b by (auto simp: bip_inv_def bip_room_def)
  have "bip_contents ?me = bip_contents me @ mem_read (bb_data me) (bip_tail me) n"
  proof (cases "bb_b_inuse me")
    case True
    then show ?thesis using b by (simp add: bip_contents_def bip_front_def bip_tail_def mem_read_add)
  next
    case False
    have len: "a_end me + n - a_start me = (a_end me - a_start me) + n" "a_start me \<le> a_end me"
      using inv by (simp_all add: bip_inv_def)
    then have "mem_read (bb_data me) (a_start me) (a_end me + n - a_start me) =
        bip_front me @ mem_read (bb_data me) (a_end me) n"
      unfolding len(1) mem_read_add bip_front_def by simp
    with False show ?thesis
      using a inv by (simp add: bip_contents_def bip_front_def bip_tail_def bip_inv_def)
  qed
  moreover have "bb_size (check_for_switch_to_b ?me) = bb_size me"
    by (simp add: check_for_switch_to_b_def)
  ultimately show ?thesis using push check_inv [OF inv'] by auto
qed

lemma offer_push:
  "bipbuf_offer me d =
   (if bipbuf_unused me < int (length d) then (me, 0)
    else bipbuf_push (me\<lparr>bb_data := mem_write (bb_data me) (bip_tail me) d\<rparr>) (int (length d)))"
  by (simp add: bipbuf_offer_def bipbuf_push_def bip_tail_def bipbuf_unused_def Let_def)

lemma offer_eq:
  assumes inv: "bip_inv me"
  shows "\<exists>me'. bipbuf_offer me d = (me', if length d \<le> bip_room me then int (length d) else 0) \<and>
    bip_inv me' \<and> bb_size me' = bb_size me \<and>
    bip_contents me' = (if length d \<le> bip_room me then bip_contents me @ d else bip_contents me)"
proof (cases "length d \<le> bip_room me")
  case True
  let ?me = "me\<lparr>bb_data := mem_write (bb_data me) (bip_tail me) d\<rparr>"
  have inv': "bip_inv ?me" using inv by (simp add: bip_inv_def)
  have "bip_room ?me = bip_room me" "bip_tail ?me = bip_tail me" by (simp_all add: bip_room_def bip_tail_def)
  with push_eq [OF inv', of "length d"] True contents_write [OF inv True] show ?thesis
    by (auto simp: offer_push unused_eq [OF inv] bip_room_def)
next
  case False
  then show ?thesis using inv by (auto simp: offer_push unused_eq bip_room_def)
qed

lemma front_empty:
  assumes "bip_inv me"
  shows "bip_front me = [] \<longleftrightarrow> bipbuf_is_empty me"
proof -
  have "bip_front me = [] \<longleftrightarrow> a_end me - a_start me = 0"
    unfolding bip_front_def by (metis length_0_conv length_mem_read)
  then show ?thesis
    using assms by (auto simp: bip_inv_def bipbuf_is_empty_def word_unat_eq_iff)
qed

lemma contents_empty:
  assumes "bip_inv me"
  shows "bip_contents me = [] \<longleftrightarrow> bipbuf_is_empty me"
proof -
  have "bip_contents me = [] \<longleftrightarrow> a_end me - a_start me = 0 \<and> b_end me = 0"
    unfolding bip_contents_def bip_front_def by (metis append_is_Nil_conv length_0_conv length_mem_read)
  also have "\<dots> \<longleftrightarrow> a_start me = a_end me"
    using assms by (auto simp: bip_inv_def split: if_splits)
  finally show ?thesis by (simp add: bipbuf_is_empty_def word_unat_eq_iff)
qed

lemma used_eq:
  assumes inv: "bip_inv me"
  shows "bipbuf_used me = int (length (bip_contents me))"
proof -
  note w = unat_word_sizes [OF inv]
  have d: "unat (bb_a_end me - bb_a_start me) = a_end me - a_start me"
    using inv by (intro unat_diff) (simp add: bip_inv_def)
  have le: "a_end me - a_start me + b_end me \<le> a_end me" using w(5) inv by (simp add: bip_inv_def)
  then have "unat (bb_a_end me - bb_a_start me + bb_b_end me) = a_end me - a_start me + b_end me"
    using d w(4) by (simp add: unat_word_ariths)
  then show ?thesis
    using le w(4) by (simp add: bipbuf_used_def sint_small bip_contents_def bip_front_def)
qed

lemma poll_eq:
  assumes inv: "bip_inv me" and n: "unat n \<le> length (bip_front me)" and ne: "bip_front me \<noteq> []"
  shows "\<exists>me'. bipbuf_poll me n = (me', Some (a_start me)) \<and> bip_inv me' \<and>
    bip_contents me' = drop (unat n) (bip_contents me) \<and> bb_size me' = bb_size me"
proof -
  note w = unat_word_sizes [OF inv]
  have size: "unat (bb_size me) < 2 ^ 31" "a_end me \<le> unat (bb_size me)" "a_start me \<le> a_end me"
    using inv by (auto simp: bip_inv_def)
  have len: "unat n \<le> a_end me - a_start me" using n by (simp add: bip_front_def)
  have sum: "unat (bb_a_start me + n) = a_start me + unat n"
    using len w(4) size by (simp add: unat_word_ariths)
  have "unat (ucast (bb_a_start me + n) :: u64) = a_start me + unat n"
    using sum unat_u32_less [of "bb_a_start me + n"] by (simp add: unat_ucast)
  then have guard: "\<not> bb_size me < ucast (bb_a_start me + n)"
    using len size by (simp add: word_less_nat_alt)
  have nempty: "\<not> bipbuf_is_empty me" using front_empty [OF inv] ne by simp
  let ?me1 = "me\<lparr>bb_a_start := bb_a_start me + n\<rparr>"
  let ?me = "if bb_a_start me + n = bb_a_end me then
      if bb_b_inuse me
      then ?me1\<lparr>bb_a_start := 0, bb_a_end := bb_b_end me, bb_b_end := 0, bb_b_inuse := False\<rparr>
      else ?me1\<lparr>bb_a_start := 0, bb_a_end := 0\<rparr> else ?me1"
  have poll: "bipbuf_poll me n = (check_for_switch_to_b ?me, Some (a_start me))"
    using guard nempty by (simp add: bipbuf_poll_def Let_def)
  have eq: "bb_a_start me + n = bb_a_end me \<longleftrightarrow> a_start me + unat n = a_end me"
    by (simp add: word_unat_eq_iff sum)
  have inv': "bip_inv ?me"
    using inv len sum eq w(5) size by (auto simp: bip_inv_def split: if_splits)
  have "bip_contents ?me = drop (unat n) (bip_contents me)"
  proof (cases "a_start me + unat n = a_end me")
    case True
    then show ?thesis
      using eq inv len by (auto simp: bip_contents_def bip_front_def bip_inv_def split: if_splits)
  next
    case False
    then show ?thesis
      using eq len sum by (simp add: bip_contents_def bip_front_def drop_mem_read)
  qed
  moreover have "bb_size (check_for_switch_to_b ?me) = bb_size me" by (simp add: check_for_switch_to_b_def)
  ultimately show ?thesis using poll check_inv [OF inv'] by auto
qed

section \<open>The buffer is a byte queue\<close>

text \<open>
  The writers' protocol: request room, write the bytes where the pointer says, push; and the
  reader's: look at the bytes where the pointer of \<open>bipbuf_peek_all\<close> says, poll what it has dealt with.
\<close>

definition bip_put :: "bipbuf \<Rightarrow> byte list \<Rightarrow> bipbuf option" where
  "bip_put me d =
     (case bipbuf_request me (int (length d)) of
        None \<Rightarrow> None
      | Some i \<Rightarrow> Some (fst (bipbuf_push (me\<lparr>bb_data := mem_write (bb_data me) i d\<rparr>) (int (length d)))))"

definition bip_peek :: "bipbuf \<Rightarrow> byte list option" where
  "bip_peek me = (case bipbuf_peek_all me of None \<Rightarrow> None | Some (i, n) \<Rightarrow> Some (mem_read (bb_data me) i (unat n)))"

definition bip_poll :: "bipbuf \<Rightarrow> nat \<Rightarrow> bipbuf" where
  "bip_poll me n = fst (bipbuf_poll me (of_nat n))"

lemma bip_put_Some:
  assumes inv: "bip_inv me" and put: "bip_put me d = Some me'"
  shows "bip_inv me' \<and> bip_contents me' = bip_contents me @ d \<and> (\<exists>xs. bip_front me' = bip_front me @ xs)"
proof -
  let ?me = "me\<lparr>bb_data := mem_write (bb_data me) (bip_tail me) d\<rparr>"
  have room: "length d \<le> bip_room me" and me': "me' = fst (bipbuf_push ?me (int (length d)))"
    using put by (simp_all add: bip_put_def request_eq [OF inv] split: if_splits)
  have inv': "bip_inv ?me" and same: "bip_room ?me = bip_room me" "bip_tail ?me = bip_tail me"
    using inv by (simp_all add: bip_inv_def bip_room_def bip_tail_def)
  have front: "bip_front ?me = bip_front me"
    using inv room by (auto simp: bip_front_def bip_tail_def bip_room_def bip_inv_def
        mem_read_write_disjoint split: if_splits)
  have grow: "\<exists>xs. bip_front (fst (bipbuf_push ?me (int (length d)))) = bip_front ?me @ xs"
  proof (cases "bb_b_inuse me")
    case True
    then show ?thesis using room
      by (simp add: bipbuf_push_def unused_eq [OF inv'] bip_room_def Let_def bip_front_def
          check_for_switch_to_b_def)
  next
    case False
    have "unat (bb_a_end me + of_nat (length d)) = a_end me + length d"
      using False room inv by (intro unat_plus) (auto simp: bip_room_def bip_inv_def)
    moreover have len: "a_end me + length d - a_start me = (a_end me - a_start me) + length d"
      using inv by (simp add: bip_inv_def)
    ultimately have "bip_front (fst (bipbuf_push ?me (int (length d)))) =
        mem_read (bb_data ?me) (a_start me) ((a_end me - a_start me) + length d)"
      using room False by (simp add: bipbuf_push_def unused_eq [OF inv'] bip_room_def Let_def bip_front_def
          check_for_switch_to_b_def)
    then show ?thesis unfolding mem_read_add by (auto simp: bip_front_def)
  qed
  with push_eq [OF inv', of "length d"] room same contents_write [OF inv room] front show ?thesis
    by (auto simp: me')
qed

lemma front_less: "bip_inv me \<Longrightarrow> length (bip_front me) < 2 ^ 31"
  by (auto simp: bip_front_def bip_inv_def)

lemma bip_poll_front:
  assumes "bip_inv me" and "bip_front me \<noteq> []" and "n \<le> length (bip_front me)"
  shows "bip_inv (bip_poll me n)" "bip_contents (bip_poll me n) = drop n (bip_contents me)"
proof -
  have n: "unat (of_nat n :: u32) = n" using front_less [OF assms(1)] assms(3) by (simp add: unat_of_nat)
  with poll_eq [OF assms(1), of "of_nat n"] assms(2,3)
  show "bip_inv (bip_poll me n)" "bip_contents (bip_poll me n) = drop n (bip_contents me)"
    by (auto simp: bip_poll_def)
qed

lemma bip_peek_front:
  assumes inv: "bip_inv me"
  shows "bip_peek me = (if bip_contents me = [] then None else Some (bip_front me))"
proof -
  have "unat (bb_a_end me - bb_a_start me) = a_end me - a_start me" using inv by (intro unat_diff) (simp add: bip_inv_def)
  then show ?thesis by (simp add: bip_peek_def bipbuf_peek_all_def bip_front_def contents_empty [OF inv])
qed

interpretation bip: byte_fifo bip_inv bip_contents bip_front bip_peek bip_put bip_poll
proof
  fix b d b' n
  assume inv: "bip_inv b"
  show "\<exists>xs. bip_contents b = bip_front b @ xs" by (simp add: bip_contents_def)
  show "bip_front b = [] \<longleftrightarrow> bip_contents b = []" using front_empty [OF inv] contents_empty [OF inv] by simp
  show "bip_peek b = (if bip_contents b = [] then None else Some (bip_front b))" by (rule bip_peek_front [OF inv])
  show "bip_inv b'" "bip_contents b' = bip_contents b @ d" "\<exists>xs. bip_front b' = bip_front b @ xs"
    if "bip_put b d = Some b'"
    using bip_put_Some [OF inv that] by blast+
  show "bip_inv (bip_poll b n)" "bip_contents (bip_poll b n) = drop n (bip_contents b)"
    if "bip_front b \<noteq> []" "n \<le> length (bip_front b)"
    using bip_poll_front [OF inv that] by blast+
qed

lemma init_good:
  assumes "unat sz < 2 ^ 31"
  shows "bip_inv (bipbuf_init data sz)" "bip_contents (bipbuf_init data sz) = []"
  using assms by (simp_all add: bip_inv_def bipbuf_init_def bip_contents_def bip_front_def unat_ucast)

text \<open>
  C22. Start from a fresh buffer of less than 2 GiB and let writers (request, write, push) and the
  reader (look at what \<open>bipbuf_peek_all\<close> returns, deal with all or a part of it, poll that much)
  interleave in any order: the bytes the reader has dealt with, followed by what the buffer still holds,
  are the bytes accepted from the writers, in order and without loss or repetition; what the reader is
  looking at is still the front of the buffer; and the buffer says it is empty exactly when the reader
  has dealt with every byte.
\<close>

theorem bipbuf_exactly_once:
  assumes "unat sz < 2 ^ 31"
    and "(fifo_step bip_peek bip_put bip_poll)\<^sup>*\<^sup>* (bipbuf_init data sz, None, [], []) (me, f, acc, seen)"
  shows "acc = seen @ bip_contents me \<and> (bipbuf_peek_all me = None \<longleftrightarrow> seen = acc) \<and>
    (\<forall>d. f = Some d \<longrightarrow> (\<exists>rest. bip_contents me = d @ rest))"
proof -
  have "bip_peek me = None \<longleftrightarrow> bipbuf_peek_all me = None" by (auto simp: bip_peek_def split: option.splits)
  then show ?thesis using bip.exactly_once [OF assms(2) init_good [OF assms(1)]] by simp
qed

text \<open>
  In a buffer that satisfies the invariant, the reported numbers are right: \<open>bipbuf_used\<close> is
  the number of bytes queued, an offer of \<open>d\<close> is accepted exactly when it is no longer than
  \<open>bipbuf_unused\<close>, and then the queue grows by \<open>d\<close>; otherwise nothing changes. The invariant is
  preserved.
\<close>

theorem bipbuf_offer_exact:
  assumes "bip_inv me"
  shows "bipbuf_used me = int (length (bip_contents me)) \<and>
    (\<exists>me'. bipbuf_offer me d = (me', if int (length d) \<le> bipbuf_unused me then int (length d) else 0) \<and>
      bip_inv me' \<and>
      bip_contents me' = (if int (length d) \<le> bipbuf_unused me then bip_contents me @ d else bip_contents me))"
  using used_eq [OF assms] offer_eq [OF assms, of d] by (auto simp: unused_eq [OF assms] bip_room_def)

section \<open>Witnesses\<close>

text \<open>Two records, the first of which is polled in two parts while the second arrives.\<close>

definition bip_a :: bipbuf where
  "bip_a = the (bip_put (bipbuf_init (\<lambda>_. 0) 8) [1, 2, 3])"

definition bip_b :: bipbuf where
  "bip_b = the (bip_put bip_a [4, 5])"

lemmas bip_eval = bip_put_def bipbuf_request_def bipbuf_push_def bipbuf_unused_def check_for_switch_to_b_def bipbuf_init_def
  Let_def mem_write_def mem_read_def upt_rec bip_peek_def bipbuf_peek_all_def bipbuf_is_empty_def bip_poll_def bipbuf_poll_def

lemma bip_sample:
  "bip_put (bipbuf_init (\<lambda>_. 0) 8) [1, 2, 3] = Some bip_a" "bip_put bip_a [4, 5] = Some bip_b"
  "bip_peek bip_a = Some [1, 2, 3]" "bip_peek (bip_poll bip_b 2) = Some [3, 4, 5]"
  by (simp_all add: bip_a_def bip_b_def bip_eval)

lemma bip_sample_steps:
  "(fifo_step bip_peek bip_put bip_poll)\<^sup>*\<^sup>* (bipbuf_init (\<lambda>_. 0) 8, None, [], [])
     (bip_poll (bip_poll bip_b 2) 3, None, [1, 2, 3, 4, 5], [1, 2, 3, 4, 5])"
proof -
  let ?S = "fifo_step bip_peek bip_put bip_poll"
  have "?S (bipbuf_init (\<lambda>_. 0) 8, None, [], []) (bip_a, None, [1, 2, 3], [])"
    using fifo_put [where put = bip_put, OF bip_sample(1), of bip_peek bip_poll None "[]" "[]"] by simp
  moreover have "?S (bip_a, None, [1, 2, 3], []) (bip_a, Some [1, 2, 3], [1, 2, 3], [])" by (rule fifo_peek) (rule bip_sample(3))
  moreover have "?S (bip_a, Some [1, 2, 3], [1, 2, 3], []) (bip_b, Some [1, 2, 3], [1, 2, 3, 4, 5], [])"
    using fifo_put [where put = bip_put, OF bip_sample(2), of bip_peek bip_poll "Some [1, 2, 3]" "[1, 2, 3]" "[]"] by simp
  moreover have "?S (bip_b, Some [1, 2, 3], [1, 2, 3, 4, 5], []) (bip_poll bip_b 2, None, [1, 2, 3, 4, 5], [1, 2])"
    using fifo_poll [of 2 "[1, 2, 3]" bip_peek bip_put bip_poll bip_b "[1, 2, 3, 4, 5]" "[]"] by simp
  moreover have "?S (bip_poll bip_b 2, None, [1, 2, 3, 4, 5], [1, 2]) (bip_poll bip_b 2, Some [3, 4, 5], [1, 2, 3, 4, 5], [1, 2])"
    by (rule fifo_peek) (rule bip_sample(4))
  moreover have "?S (bip_poll bip_b 2, Some [3, 4, 5], [1, 2, 3, 4, 5], [1, 2]) (bip_poll (bip_poll bip_b 2) 3, None, [1, 2, 3, 4, 5], [1, 2, 3, 4, 5])"
    using fifo_poll [of 3 "[3, 4, 5]" bip_peek bip_put bip_poll "bip_poll bip_b 2" "[1, 2, 3, 4, 5]" "[1, 2]"] by simp
  ultimately show ?thesis by (meson converse_rtranclp_into_rtranclp rtranclp.rtrancl_refl)
qed

theorem bipbuf_exactly_once_witness:
  "bip_contents (bip_poll (bip_poll bip_b 2) 3) = [] \<and> bipbuf_peek_all (bip_poll (bip_poll bip_b 2) 3) = None"
  using bipbuf_exactly_once [OF _ bip_sample_steps] by simp

theorem bipbuf_offer_exact_witness:
  "bip_inv (bipbuf_init (\<lambda>_. 0) 8) \<and> bipbuf_used (bipbuf_init (\<lambda>_. 0) 8) = 0 \<and>
   (\<exists>me'. bipbuf_offer (bipbuf_init (\<lambda>_. 0) 8) [1, 2] = (me', 2) \<and> bip_contents me' = [1, 2])"
proof -
  have inv: "bip_inv (bipbuf_init (\<lambda>_. 0) 8)" by (rule init_good) simp
  have "bip_contents (bipbuf_init (\<lambda>_. 0) 8) = []" by (rule init_good) simp
  moreover have "bipbuf_unused (bipbuf_init (\<lambda>_. 0) 8) = 8"
    by (simp add: unused_eq [OF inv]) (simp add: bipbuf_init_def)
  ultimately show ?thesis
    using inv bipbuf_offer_exact [OF inv, of "[1, 2]"] by auto
qed

end
