(* ===== verification/Itoa.thy ===== *)
theory Itoa
  imports Prelude
begin

unbundle bit_operations_syntax

text \<open>
  Integer to decimal text (\<open>memcached-sr/itoa_ljust.c\<close>), two digits per table lookup. The output
  pointer is the list of bytes written so far. \<open>d * 100000000\<close> is an \<open>int\<close> product in the source that
  overflows for arguments of 2200000000 and more; it is taken to wrap, as the compilers in use make it.
\<close>

section \<open>Model\<close>

definition lut :: "byte list" where
  "lut = bytes (
     ''0001020304050607080910111213141516171819'' @
     ''2021222324252627282930313233343536373839'' @
     ''4041424344454647484950515253545556575859'' @
     ''6061626364656667686970717273747576777879'' @
     ''8081828384858687888990919293949596979899'')"

definition out2 :: "u32 \<Rightarrow> byte list \<Rightarrow> byte list" where
  "out2 d p = p @ [lut ! (2 * unat d), lut ! (2 * unat d + 1)]"

definition out1 :: "byte \<Rightarrow> byte list \<Rightarrow> byte list" where
  "out1 c p = p @ [c]"

definition digits :: "u32 \<Rightarrow> u32 \<Rightarrow> u32 \<Rightarrow> byte list \<Rightarrow> nat \<Rightarrow> u32 \<times> byte list \<times> nat" where
  "digits u k d p n =
     (if u < k * 10 then let d = u div k in (d, out1 (48 + ucast d) p, n - 1) else (d, p, n))"

text \<open>
  The fall-through switch on \<open>n\<close>, one group of definitions per pair of cases: the even case computes
  a pair of digits, the odd case below it removes them from \<open>u\<close>. The final NUL is not part of the list.
\<close>

definition itoa :: "u32 \<Rightarrow> byte list \<Rightarrow> u32 \<Rightarrow> nat \<Rightarrow> byte list" where
  "itoa u p d n =
     (if n < 1 \<or> 10 < n then p
      else
        let (d, p) = (if 10 \<le> n then let d = u div 100000000 in (d, out2 d p) else (d, p));
            u = (if 9 \<le> n then u - d * 100000000 else u);
            (d, p) = (if 8 \<le> n then let d = u div 1000000 in (d, out2 d p) else (d, p));
            u = (if 7 \<le> n then u - d * 1000000 else u);
            (d, p) = (if 6 \<le> n then let d = u div 10000 in (d, out2 d p) else (d, p));
            u = (if 5 \<le> n then u - d * 10000 else u);
            (d, p) = (if 4 \<le> n then let d = u div 100 in (d, out2 d p) else (d, p));
            u = (if 3 \<le> n then u - d * 100 else u);
            (d, p) = (if 2 \<le> n then let d = u div 1 in (d, out2 d p) else (d, p))
        in p)"

definition itoa_u32 :: "u32 \<Rightarrow> byte list \<Rightarrow> byte list" where
  "itoa_u32 u p =
     (let (d, p, n) =
            (if u \<ge> 100000000 then digits u 100000000 0 p 10
             else if u < 100 then digits u 1 0 p 2
             else if u < 10000 then digits u 100 0 p 4
             else if u < 1000000 then digits u 10000 0 p 6
             else digits u 1000000 0 p 8)
      in itoa u p d n)"

definition itoa_32 :: "32 word \<Rightarrow> byte list \<Rightarrow> byte list" where
  "itoa_32 i p = (if sint i < 0 then itoa_u32 (- i) (p @ [of_char (CHR ''-'')]) else itoa_u32 i p)"

function itoa_u64 :: "u64 \<Rightarrow> byte list \<Rightarrow> byte list" where
  "itoa_u64 u p =
     (let lower = ucast u :: u32 in
      if ucast lower = u then itoa_u32 lower p
      else
        let upper = u div 1000000000;
            p = itoa_u64 upper p;
            lower = ucast (u - upper * 1000000000) :: u32;
            d = lower div 100000000;
            p = out1 (48 + ucast d) p
        in itoa lower p d 9)"
  by pat_completeness auto
termination
proof (relation "measure (\<lambda>(u, p). unat u)", simp)
  fix u :: u64 and p :: "byte list" and lower :: u32 and upper :: u64
  assume a: "lower = ucast u" "ucast lower \<noteq> u" "upper = u div 1000000000"
  have "u \<noteq> 0" using a by auto
  then have "unat u > 0" by (simp add: unat_gt_0)
  then have "unat upper < unat u" using a(3) by (simp add: unat_div_distrib)
  then show "((upper, p), u, p) \<in> measure (\<lambda>(u, p). unat u)" by simp
qed

declare itoa_u64.simps [simp del]

definition itoa_64 :: "64 word \<Rightarrow> byte list \<Rightarrow> byte list" where
  "itoa_64 i p = (if sint i < 0 then itoa_u64 (- i) (p @ [of_char (CHR ''-'')]) else itoa_u64 i p)"

section \<open>Decimal numerals\<close>

fun decimal :: "nat \<Rightarrow> byte list" where
  "decimal n = (if n < 10 then [of_nat (48 + n)] else decimal (n div 10) @ [of_nat (48 + n mod 10)])"

declare decimal.simps [simp del]

definition two :: "nat \<Rightarrow> byte list" where
  "two b = [of_nat (48 + b div 10), of_nat (48 + b mod 10)]"

fun pad2 :: "nat \<Rightarrow> nat \<Rightarrow> byte list" where
  "pad2 0 y = []"
| "pad2 (Suc j) y = two (y div 100 ^ j) @ pad2 j (y mod 100 ^ j)"

lemma decimal_digit: "0 < x \<Longrightarrow> b < 10 \<Longrightarrow> decimal (x * 10 + b) = decimal x @ [of_nat (48 + b)]"
  by (subst decimal.simps) simp

lemma decimal_two: "0 < x \<Longrightarrow> b < 100 \<Longrightarrow> decimal (x * 100 + b) = decimal x @ two b"
proof -
  assume x: "0 < x" and b: "b < 100"
  have split: "x * 100 + b = (x * 10 + b div 10) * 10 + b mod 10" by simp
  have "decimal (x * 100 + b) = decimal (x * 10 + b div 10) @ [of_nat (48 + b mod 10)]"
    unfolding split using x by (intro decimal_digit) auto
  also have "decimal (x * 10 + b div 10) = decimal x @ [of_nat (48 + b div 10)]"
    using x b by (intro decimal_digit) auto
  finally show ?thesis by (simp add: two_def)
qed

lemma decimal_pad2:
  "0 < x \<Longrightarrow> y < 100 ^ j \<Longrightarrow> decimal (x * 100 ^ j + y) = decimal x @ pad2 j y"
proof (induction j arbitrary: x y)
  case (Suc j)
  have "x * 100 ^ Suc j + y = (x * 100 + y div 100 ^ j) * 100 ^ j + y mod 100 ^ j"
    by (simp add: algebra_simps)
  moreover have b: "y div 100 ^ j < 100" using Suc.prems by (simp add: less_mult_imp_div_less mult.commute)
  moreover have "decimal ((x * 100 + y div 100 ^ j) * 100 ^ j + y mod 100 ^ j) =
      decimal (x * 100 + y div 100 ^ j) @ pad2 j (y mod 100 ^ j)"
    using Suc.prems by (intro Suc.IH) auto
  ultimately show ?case using decimal_two [OF Suc.prems(1) b] by simp
qed simp

lemma lut_two:
  assumes "d < 100"
  shows "[lut ! (2 * d), lut ! (2 * d + 1)] = two d"
proof -
  have "list_all (\<lambda>d. [lut ! (2 * d), lut ! (2 * d + 1)] = two d) [0..<100]" by code_simp
  then show ?thesis using assms by (simp add: list_all_iff)
qed

lemma out2_two: "unat d < 100 \<Longrightarrow> out2 d p = p @ two (unat d)"
  using lut_two [of "unat d"] by (simp add: out2_def)

section \<open>The switch\<close>

lemma rem_word: "u - u div k * k = u mod k" for u k :: "'a :: len word"
  by (rule minus_div_mult_eq_mod)

text \<open>Falling from an even case into the odd one below, and from an odd case into the even one.\<close>

lemma itoa_fall:
  "itoa u p d 10 = itoa u (out2 (u div 100000000) p) (u div 100000000) 9"
  "itoa u p (u div 100000000) 9 = itoa (u mod 100000000) p 0 8"
  "itoa u p d 8 = itoa u (out2 (u div 1000000) p) (u div 1000000) 7"
  "itoa u p (u div 1000000) 7 = itoa (u mod 1000000) p 0 6"
  "itoa u p d 6 = itoa u (out2 (u div 10000) p) (u div 10000) 5"
  "itoa u p (u div 10000) 5 = itoa (u mod 10000) p 0 4"
  "itoa u p d 4 = itoa u (out2 (u div 100) p) (u div 100) 3"
  "itoa u p (u div 100) 3 = itoa (u mod 100) p 0 2"
  "itoa u p d 2 = out2 u p"
  "itoa u p d 1 = p"
  by (simp_all add: itoa_def rem_word Let_def)

lemma unat_divmod [simp]:
  "unat (u div numeral k) = unat u div unat (numeral k :: u32)"
  "unat (u mod numeral k) = unat u mod unat (numeral k :: u32)" for u :: u32
  by (simp_all add: unat_div_distrib unat_mod_distrib)

lemma pad2_nums:
  "pad2 1 y = two y"
  "pad2 2 y = two (y div 100) @ pad2 1 (y mod 100)"
  "pad2 3 y = two (y div 10000) @ pad2 2 (y mod 10000)"
  "pad2 4 y = two (y div 1000000) @ pad2 3 (y mod 1000000)"
  "pad2 5 y = two (y div 100000000) @ pad2 4 (y mod 100000000)"
proof -
  have step: "pad2 n y = two (y div 100 ^ j) @ pad2 j (y mod 100 ^ j)" if "n = Suc j" for n j
    using that by simp
  show "pad2 1 y = two y" using step [of 1 0] by simp
  show "pad2 2 y = two (y div 100) @ pad2 1 (y mod 100)" using step [of 2 1] by simp
  show "pad2 3 y = two (y div 10000) @ pad2 2 (y mod 10000)" using step [of 3 2] by simp
  show "pad2 4 y = two (y div 1000000) @ pad2 3 (y mod 1000000)" using step [of 4 3] by simp
  show "pad2 5 y = two (y div 100000000) @ pad2 4 (y mod 100000000)" using step [of 5 4] by simp
qed

lemma itoa_pad:
  "unat u < 100 \<Longrightarrow> itoa u p d 2 = p @ pad2 1 (unat u)"
  "unat u < 10000 \<Longrightarrow> itoa u p d 4 = p @ pad2 2 (unat u)"
  "unat u < 1000000 \<Longrightarrow> itoa u p d 6 = p @ pad2 3 (unat u)"
  "unat u < 100000000 \<Longrightarrow> itoa u p d 8 = p @ pad2 4 (unat u)"
  "itoa u p d 10 = p @ pad2 5 (unat u)"
proof -
  have less: "x div k < 100" if "x < 100 * k" for x k :: nat
    using that by (simp add: less_mult_imp_div_less)
  show 2: "itoa u p d 2 = p @ pad2 1 (unat u)" if "unat u < 100" for u p d
    using that by (simp add: itoa_fall out2_two pad2_nums(1))
  show 4: "itoa u p d 4 = p @ pad2 2 (unat u)" if "unat u < 10000" for u p d
    using that less [of "unat u" 100] by (simp add: itoa_fall(7,8) 2 out2_two pad2_nums(2))
  show 6: "itoa u p d 6 = p @ pad2 3 (unat u)" if "unat u < 1000000" for u p d
    using that less [of "unat u" 10000] by (simp add: itoa_fall(5,6) 4 out2_two pad2_nums(3))
  show 8: "itoa u p d 8 = p @ pad2 4 (unat u)" if "unat u < 100000000" for u p d
    using that less [of "unat u" 1000000] by (simp add: itoa_fall(3,4) 6 out2_two pad2_nums(4))
  show "itoa u p d 10 = p @ pad2 5 (unat u)"
    using less [of "unat u" 100000000] unat_u32_less [of u]
    by (simp add: itoa_fall(1,2) 8 out2_two pad2_nums(5))
qed

text \<open>The odd cases, entered with the leading digit already written.\<close>

lemma itoa_odd:
  "itoa u p (u div 100000000) 9 = p @ pad2 4 (unat u mod 100000000)"
  "itoa u p (u div 1000000) 7 = p @ pad2 3 (unat u mod 1000000)"
  "itoa u p (u div 10000) 5 = p @ pad2 2 (unat u mod 10000)"
  "itoa u p (u div 100) 3 = p @ pad2 1 (unat u mod 100)"
  by (simp_all add: itoa_fall(2,4,6,8) itoa_pad)

section \<open>The conversions are right\<close>

lemma decimal_one: "x < 10 \<Longrightarrow> decimal x = [of_nat (48 + x)]"
  by (simp add: decimal.simps)

lemma decimal_two': "10 \<le> x \<Longrightarrow> x < 100 \<Longrightarrow> decimal x = two x"
  by (simp add: decimal.simps [of x] decimal_one two_def)

lemma digit_char: "unat d < 10 \<Longrightarrow> 48 + ucast d = (of_nat (48 + unat d) :: byte)" for d :: u32
  by (simp add: word_unat_eq_iff unat_word_ariths unat_of_nat unat_ucast del: of_nat_add)

text \<open>A number of 2j+1 or 2j+2 digits: the leading one or two digits and j pairs.\<close>

lemma decimal_split:
  assumes "100 ^ j \<le> x" and "x < 100 ^ Suc j"
  shows "decimal x = decimal (x div 100 ^ j) @ pad2 j (x mod 100 ^ j)" "x div 100 ^ j < 100"
proof -
  have "0 < x div 100 ^ j" using assms(1) by (simp add: div_greater_zero_iff)
  then show "decimal x = decimal (x div 100 ^ j) @ pad2 j (x mod 100 ^ j)"
    using decimal_pad2 [of "x div 100 ^ j" "x mod 100 ^ j" j] unfolding div_mult_mod_eq by simp
  show "x div 100 ^ j < 100" using assms(2) by (simp add: less_mult_imp_div_less mult.commute)
qed

lemma digits_itoa:
  assumes k: "unat k = 100 ^ j" "unat (k * 10) = 10 * 100 ^ j"
    and u: "100 ^ j \<le> unat u \<or> j = 0" "unat u < 100 ^ Suc j"
    and odd: "\<And>p. itoa u p (u div k) (2 * j + 1) = p @ pad2 j (unat u mod 100 ^ j)"
    and even: "\<And>p d. itoa u p d (2 * j + 2) = p @ pad2 (Suc j) (unat u)"
  shows "(let (d, p, n) = digits u k 0 p (2 * j + 2) in itoa u p d n) = p @ decimal (unat u)"
proof (cases "u < k * 10")
  case True
  have d: "unat (u div k) < 10"
    using True k by (simp add: unat_div_distrib word_less_nat_alt less_mult_imp_div_less)
  have "decimal (unat u) = [of_nat (48 + unat (u div k))] @ pad2 j (unat u mod 100 ^ j)"
  proof (cases "j = 0")
    case True
    then have "k = 1" using k(1) by (simp add: word_unat_eq_iff)
    then show ?thesis using d True by (simp add: decimal_one)
  next
    case False
    then show ?thesis
      using decimal_split(1) [of j "unat u"] u d k(1) by (simp add: unat_div_distrib decimal_one)
  qed
  then have "decimal (unat u) = [48 + ucast (u div k)] @ pad2 j (unat u mod 100 ^ j)"
    by (simp only: digit_char [OF d])
  then show ?thesis
    using True odd by (simp add: digits_def out1_def Let_def)
next
  case False
  have ge: "10 * 100 ^ j \<le> unat u" using False k(2) by (simp add: word_less_nat_alt)
  then have "10 \<le> unat u div 100 ^ j" by (simp add: less_eq_div_iff_mult_less_eq)
  moreover have "unat u div 100 ^ j < 100" using decimal_split(2) [of j "unat u"] u ge by simp
  ultimately have "decimal (unat u) = pad2 (Suc j) (unat u)"
    using decimal_split(1) [of j "unat u"] u ge by (simp add: decimal_two')
  then show ?thesis using False even by (simp add: digits_def)
qed

lemma itoa_u32_eq: "itoa_u32 u p = p @ decimal (unat u)"
proof -
  have *: "(let (d, p, n) = digits u k 0 p n in itoa u p d n) = p @ decimal (unat u)"
    if "n = 2 * j + 2" "unat k = 100 ^ j" "unat (k * 10) = 10 * 100 ^ j"
       "100 ^ j \<le> unat u \<or> j = 0" "unat u < 100 ^ Suc j"
       "\<And>p. itoa u p (u div k) (2 * j + 1) = p @ pad2 j (unat u mod 100 ^ j)"
       "\<And>p d. itoa u p d (2 * j + 2) = p @ pad2 (Suc j) (unat u)" for k j n
    unfolding that(1) using that(2-) by (rule digits_itoa)
  consider "100000000 \<le> unat u" | "unat u < 100" | "100 \<le> unat u" "unat u < 10000"
    | "10000 \<le> unat u" "unat u < 1000000" | "1000000 \<le> unat u" "unat u < 100000000" by linarith
  then show ?thesis
  proof cases
    case 1
    then show ?thesis
      using *[of 10 4 100000000] unat_u32_less [of u] itoa_odd(1) itoa_pad(5)
      by (simp add: itoa_u32_def word_less_nat_alt word_le_nat_alt)
  next
    case 2
    then show ?thesis
      using *[of 2 0 1] itoa_fall(10) itoa_pad(1) [of u, unfolded numeral_2_eq_2]
      by (simp add: itoa_u32_def word_less_nat_alt word_le_nat_alt)
  next
    case 3
    then show ?thesis
      using *[of 4 1 100] itoa_odd(4) itoa_pad(2) [of u, unfolded pad2_nums]
      by (simp add: itoa_u32_def word_less_nat_alt word_le_nat_alt)
  next
    case 4
    then show ?thesis
      using *[of 6 2 10000] itoa_odd(3) itoa_pad(3)
      by (simp add: itoa_u32_def word_less_nat_alt word_le_nat_alt)
  next
    case 5
    then show ?thesis
      using *[of 8 3 1000000] itoa_odd(2) itoa_pad(4)
      by (simp add: itoa_u32_def word_less_nat_alt word_le_nat_alt)
  qed
qed

lemma decimal_nine:
  assumes "1000000000 \<le> x"
  shows "decimal x = decimal (x div 1000000000) @ [of_nat (48 + x mod 1000000000 div 100000000)] @
    pad2 4 (x mod 1000000000 mod 100000000)"
proof -
  define h l where hl: "h = x div 1000000000" "l = x mod 1000000000"
  have h: "0 < h" using assms by (simp add: hl div_greater_zero_iff)
  have l: "l div 100000000 < 10" by (simp add: hl less_mult_imp_div_less)
  have "x = h * 1000000000 + l" by (simp add: hl)
  also have "\<dots> = (h * 10 + l div 100000000) * 100 ^ 4 + l mod 100000000" by simp
  finally have "decimal x = decimal (h * 10 + l div 100000000) @ pad2 4 (l mod 100000000)"
    using decimal_pad2 [of "h * 10 + l div 100000000" "l mod 100000000" 4] h by simp
  then show ?thesis using decimal_digit [OF h l] by (simp add: hl)
qed

lemma itoa_u64_eq: "itoa_u64 u p = p @ decimal (unat u)"
proof (induction u p rule: itoa_u64.induct)
  case (1 u p)
  have lower: "unat (ucast (ucast u :: u32) :: u64) = unat u mod 4294967296"
    by (simp add: unat_ucast)
  show ?case
  proof (cases "ucast (ucast u :: u32) = u")
    case True
    then have "unat (ucast u :: u32) = unat u" using lower by (simp add: unat_ucast)
    then show ?thesis by (simp add: itoa_u64.simps [of u] True itoa_u32_eq)
  next
    case False
    have "unat u \<noteq> unat u mod 4294967296"
    proof
      assume "unat u = unat u mod 4294967296"
      then have "ucast (ucast u :: u32) = u" using lower by (simp add: word_unat_eq_iff)
      with False show False ..
    qed
    have big: "1000000000 \<le> unat u"
    proof (rule ccontr)
      assume "\<not> 1000000000 \<le> unat u"
      then have "unat u mod 4294967296 = unat u" by simp
      with \<open>unat u \<noteq> unat u mod 4294967296\<close> show False by simp
    qed
    let ?l = "ucast (u - u div 1000000000 * 1000000000) :: u32"
    have l: "unat ?l = unat u mod 1000000000"
      by (simp add: rem_word unat_ucast unat_mod_distrib)
    then have d: "unat (?l div 100000000) < 10" by (simp add: less_mult_imp_div_less)
    have "itoa_u64 (u div 1000000000) p = p @ decimal (unat u div 1000000000)"
      using "1.IH" [OF refl False refl] by (simp add: unat_div_distrib)
    then have "itoa_u64 u p = p @ decimal (unat u div 1000000000) @ [48 + ucast (?l div 100000000)] @
        pad2 4 (unat ?l mod 100000000)"
      using False by (simp add: itoa_u64.simps [of u] Let_def out1_def itoa_odd(1))
    then show ?thesis
      unfolding digit_char [OF d] decimal_nine [OF big] by (simp add: l)
  qed
qed

text \<open>Signed numbers.\<close>

definition int_decimal :: "int \<Rightarrow> byte list" where
  "int_decimal z = (if z < 0 then of_char (CHR ''-'') # decimal (nat (- z)) else decimal (nat z))"

lemma unat_sint:
  "sint i < 0 \<Longrightarrow> unat (- i) = nat (- sint i)" "\<not> sint i < 0 \<Longrightarrow> unat i = nat (sint i)" for i :: "'a :: len word"
proof -
  have small: "2 ^ (LENGTH('a) - Suc 0) < (2 :: int) ^ LENGTH('a)"
    by (rule power_strict_increasing) simp_all
  have b: "- (2 ^ (LENGTH('a) - Suc 0)) \<le> sint i" "sint i < 2 ^ (LENGTH('a) - Suc 0)"
    by (rule sint_greater_eq, rule sint_less)
  show "unat (- i) = nat (- sint i)" if "sint i < 0"
  proof -
    have "- i = word_of_int (- sint i)" by simp
    then have "uint (- i) = - sint i mod 2 ^ LENGTH('a)" by (metis uint_word_of_int)
    also have "\<dots> = - sint i" using that b small by (intro mod_pos_pos_trivial) linarith+
    finally show ?thesis by (simp flip: nat_uint_eq)
  qed
  show "unat i = nat (sint i)" if "\<not> sint i < 0"
  proof -
    have "i = word_of_int (sint i)" by simp
    then have "uint i = sint i mod 2 ^ LENGTH('a)" by (metis uint_word_of_int)
    also have "\<dots> = sint i" using that b small by (intro mod_pos_pos_trivial) linarith+
    finally show ?thesis by (simp flip: nat_uint_eq)
  qed
qed

text \<open>
  C31. The table-driven conversions print exactly the decimal numeral of their argument, without
  leading zeros, behind what was written before: for every unsigned 32- and 64-bit value, and with
  a minus sign for negative signed ones, the most negative included.
\<close>

theorem itoa_decimal:
  "itoa_u32 u p = p @ decimal (unat u) \<and> itoa_u64 v p = p @ decimal (unat v) \<and>
   itoa_32 i p = p @ int_decimal (sint i) \<and> itoa_64 j p = p @ int_decimal (sint j)"
  by (simp add: itoa_u32_eq itoa_u64_eq itoa_32_def itoa_64_def int_decimal_def unat_sint)

end
