(* ===== verification/Util.thy ===== *)
theory Util
  imports Itoa
begin

unbundle bit_operations_syntax

text \<open>
  The helpers of \<open>memcached-sr/util.c\<close>: URI encoding of keys, the checked string to number
  conversions, the bounded string copy and the 64-bit byte swap. \<open>safe_strtod\<close> (floating point) and
  \<open>vperror\<close> (output) are not modelled. Of the C library the code uses \<open>isalnum\<close>, \<open>isspace\<close>,
  \<open>strtoul\<close>, \<open>strtoull\<close>, \<open>strtol\<close> and \<open>strtoll\<close>, modelled from the C standard for the "C" locale and a
  64-bit \<open>long\<close>. A string argument is the list of its bytes without the final NUL.
\<close>

section \<open>The C library's part\<close>

definition isdigit :: "byte \<Rightarrow> bool" where
  "isdigit c \<longleftrightarrow> 48 \<le> c \<and> c \<le> 57"

definition isalnum :: "byte \<Rightarrow> bool" where
  "isalnum c \<longleftrightarrow> isdigit c \<or> (65 \<le> c \<and> c \<le> 90) \<or> (97 \<le> c \<and> c \<le> 122)"

definition isspace :: "byte \<Rightarrow> bool" where
  "isspace c \<longleftrightarrow> c = 32 \<or> (9 \<le> c \<and> c \<le> 13)"

text \<open>The value of a digit in bases up to 36.\<close>

definition digit_val :: "byte \<Rightarrow> nat option" where
  "digit_val c =
     (if isdigit c then Some (unat c - 48)
      else if 65 \<le> c \<and> c \<le> 90 then Some (unat c - 55)
      else if 97 \<le> c \<and> c \<le> 122 then Some (unat c - 87)
      else None)"

text \<open>The longest prefix of digits: its value and what follows.\<close>

fun scan_digits :: "nat \<Rightarrow> byte list \<Rightarrow> nat \<Rightarrow> nat \<times> byte list" where
  "scan_digits base [] acc = (acc, [])"
| "scan_digits base (c # cs) acc =
     (case digit_val c of
        Some d \<Rightarrow> if d < base then scan_digits base cs (acc * base + d) else (acc, c # cs)
      | None \<Rightarrow> (acc, c # cs))"

definition has_digit :: "nat \<Rightarrow> byte list \<Rightarrow> bool" where
  "has_digit base cs \<longleftrightarrow>
     (case cs of [] \<Rightarrow> False | c # _ \<Rightarrow> (case digit_val c of Some d \<Rightarrow> d < base | None \<Rightarrow> False))"

text \<open>
  The common part of the \<open>strto\<close> functions: white space, an optional sign, for base 16 an optional
  prefix, digits. \<open>None\<close> when there is no number (\<open>endptr == str\<close>); otherwise whether it is negative,
  the magnitude and the rest of the string (\<open>endptr\<close>).
\<close>

definition scan_number :: "nat \<Rightarrow> byte list \<Rightarrow> (bool \<times> nat \<times> byte list) option" where
  "scan_number base str =
     (let s = dropWhile isspace str;
          neg = (case s of c # _ \<Rightarrow> c = of_char (CHR ''-'') | [] \<Rightarrow> False);
          s = (case s of c # cs \<Rightarrow> if c = of_char (CHR ''-'') \<or> c = of_char (CHR ''+'') then cs else s
               | [] \<Rightarrow> []);
          s' = (if base = 16 \<and> (take 2 s = bytes ''0x'' \<or> take 2 s = bytes ''0X'') \<and>
                   has_digit base (drop 2 s) then drop 2 s else s)
      in if has_digit base s' then let (v, r) = scan_digits base s' 0 in Some (neg, v, r) else None)"

text \<open>Value and \<open>errno == ERANGE\<close>, for the unsigned and the signed 64-bit functions.\<close>

definition strtoull_val :: "bool \<Rightarrow> nat \<Rightarrow> u64 \<times> bool" where
  "strtoull_val neg v =
     (if v \<ge> 2 ^ 64 then (- 1, True) else (if neg then - of_nat v else of_nat v, False))"

definition strtoll_val :: "bool \<Rightarrow> nat \<Rightarrow> 64 word \<times> bool" where
  "strtoll_val neg v =
     (if neg then (if v > 2 ^ 63 then (of_nat (2 ^ 63), True) else (- of_nat v, False))
      else (if v \<ge> 2 ^ 63 then (of_nat (2 ^ 63 - 1), True) else (of_nat v, False)))"

section \<open>Checked conversions\<close>

text \<open>\<open>xisspace(*endptr) || (*endptr == 0 && endptr != str)\<close>, for \<open>endptr\<close> at the rest \<open>r\<close>.\<close>

definition end_ok :: "byte list \<Rightarrow> bool" where
  "end_ok r \<longleftrightarrow> (case r of [] \<Rightarrow> True | c # _ \<Rightarrow> isspace c)"

definition safe_strtoull_base :: "nat \<Rightarrow> byte list \<Rightarrow> u64 option" where
  "safe_strtoull_base base str =
     (case scan_number base str of
        None \<Rightarrow> None
      | Some (neg, v, r) \<Rightarrow>
          let (ull, erange) = strtoull_val neg v in
          if erange then None
          else if end_ok r then
            if sint ull < 0 \<and> of_char (CHR ''-'') \<in> set str then None else Some ull
          else None)"

definition safe_strtoull :: "byte list \<Rightarrow> u64 option" where
  "safe_strtoull str = safe_strtoull_base 10 str"

definition safe_strtoull_hex :: "byte list \<Rightarrow> u64 option" where
  "safe_strtoull_hex str = safe_strtoull_base 16 str"

definition safe_strtoll :: "byte list \<Rightarrow> 64 word option" where
  "safe_strtoll str =
     (case scan_number 10 str of
        None \<Rightarrow> None
      | Some (neg, v, r) \<Rightarrow>
          let (ll, erange) = strtoll_val neg v in
          if erange then None else if end_ok r then Some ll else None)"

definition safe_strtoul :: "byte list \<Rightarrow> u32 option" where
  "safe_strtoul str =
     (case scan_number 10 str of
        None \<Rightarrow> None
      | Some (neg, v, r) \<Rightarrow>
          let (l, erange) = strtoull_val neg v in
          if erange then None
          else if end_ok r then
            if sint l < 0 \<and> of_char (CHR ''-'') \<in> set str then None else Some (ucast l)
          else None)"

definition safe_strtol :: "byte list \<Rightarrow> 32 word option" where
  "safe_strtol str =
     (case scan_number 10 str of
        None \<Rightarrow> None
      | Some (neg, v, r) \<Rightarrow>
          let (l, erange) = strtoll_val neg v in
          if erange then None else if end_ok r then Some (ucast l) else None)"

section \<open>URI encoding\<close>

definition unreserved :: "byte \<Rightarrow> bool" where
  "unreserved x \<longleftrightarrow> isalnum x \<or> x = of_char (CHR ''-'') \<or> x = of_char (CHR ''.'') \<or>
     x = of_char (CHR ''_'') \<or> x = of_char (CHR ''~'')"

definition hex_digit :: "nat \<Rightarrow> byte" where
  "hex_digit n = of_nat (if n < 10 then 48 + n else 55 + n)"

text \<open>\<open>snprintf(str, 4, "%%%02hhX", x)\<close> without its NUL.\<close>

definition pct :: "byte \<Rightarrow> byte list" where
  "pct x = [of_char (CHR ''%''), hex_digit (unat x div 16), hex_digit (unat x mod 16)]"

text \<open>The state of the initialisation: \<open>uriencode_map\<close>, \<open>uriencode_str\<close> and the offset of \<open>str\<close>.\<close>

type_synonym uri_tables = "(byte \<Rightarrow> nat option) \<times> mem \<times> nat"

definition uriencode_step :: "byte \<Rightarrow> uri_tables \<Rightarrow> uri_tables" where
  "uriencode_step x t =
     (case t of (m, buf, str) \<Rightarrow>
        if unreserved x then (m(x := None), buf, str)
        else (m(x := Some str), mem_write buf str (pct x @ [0]), str + 3))"

definition uriencode_init :: "uri_tables \<Rightarrow> uri_tables" where
  "uriencode_init t = fold uriencode_step (map of_nat [0..<256]) t"

fun uriencode :: "uri_tables \<Rightarrow> byte list \<Rightarrow> mem \<Rightarrow> nat \<Rightarrow> nat \<Rightarrow> bool \<times> mem" where
  "uriencode t [] dst d dstlen = (True, dst(d := 0))"
| "uriencode t (c # src) dst d dstlen =
     (if d + 4 > dstlen then (False, dst)
      else case fst t c of
             Some off \<Rightarrow>
               uriencode t src (mem_write dst d (mem_read (fst (snd t)) off 3)) (d + 3) dstlen
           | None \<Rightarrow> uriencode t src (dst(d := c)) (d + 1) dstlen)"

section \<open>Copy and byte order\<close>

text \<open>The copy loop; \<open>lim\<close> is \<open>dstmax - 1\<close> as a \<open>size_t\<close>. The result is the destination and \<open>x\<close>.\<close>

function strcpy_loop :: "mem \<Rightarrow> mem \<Rightarrow> nat \<Rightarrow> nat \<Rightarrow> mem \<times> nat" where
  "strcpy_loop dst src lim x =
     (if x < lim \<and> src x \<noteq> 0 then strcpy_loop (dst(x := src x)) src lim (x + 1) else (dst, x))"
  by pat_completeness auto
termination
  by (relation "measure (\<lambda>(dst, src, lim, x). lim - x)") auto

definition safe_strcpy :: "mem \<Rightarrow> mem \<Rightarrow> u64 \<Rightarrow> mem \<times> bool" where
  "safe_strcpy dst src dstmax =
     (let (dst, x) = strcpy_loop dst src (unat (dstmax - 1)) 0 in (dst(x := 0), src x = 0))"

declare strcpy_loop.simps [simp del]

fun swap_loop :: "nat \<Rightarrow> u64 \<Rightarrow> u64 \<Rightarrow> u64" where
  "swap_loop 0 rv in' = rv"
| "swap_loop (Suc n) rv in' = swap_loop n (push_bit 8 rv OR (in' AND 0xff)) (drop_bit 8 in')"

definition mc_swap64 :: "u64 \<Rightarrow> u64" where
  "mc_swap64 in' = swap_loop 8 0 in'"

definition ntohll :: "u64 \<Rightarrow> u64" where
  "ntohll val = mc_swap64 val"

definition htonll :: "u64 \<Rightarrow> u64" where
  "htonll val = mc_swap64 val"

section \<open>Numbers\<close>

lemma digit_char_val:
  assumes "b < 10"
  shows "isdigit (of_nat (48 + b))" "digit_val (of_nat (48 + b)) = Some b" "\<not> isspace (of_nat (48 + b))"
    "of_nat (48 + b) \<noteq> (45 :: byte)" "of_nat (48 + b) \<noteq> (43 :: byte)"
proof -
  have "list_all (\<lambda>b. isdigit (of_nat (48 + b)) \<and> digit_val (of_nat (48 + b)) = Some b \<and>
      \<not> isspace (of_nat (48 + b)) \<and> of_nat (48 + b) \<noteq> (45 :: byte) \<and> of_nat (48 + b) \<noteq> (43 :: byte)) [0..<10]"
    by code_simp
  with assms show "isdigit (of_nat (48 + b))" "digit_val (of_nat (48 + b)) = Some b"
    "\<not> isspace (of_nat (48 + b))" "of_nat (48 + b) \<noteq> (45 :: byte)" "of_nat (48 + b) \<noteq> (43 :: byte)"
    by (simp_all add: list_all_iff del: of_nat_add)
qed

lemma scan_decimal:
  "scan_digits 10 (decimal n @ r) acc = scan_digits 10 r (acc * 10 ^ length (decimal n) + n)"
proof (induction n arbitrary: r acc rule: decimal.induct)
  case (1 n)
  show ?case
  proof (cases "n < 10")
    case True
    then show ?thesis using digit_char_val(2) [OF True] by (simp add: decimal_one del: of_nat_add)
  next
    case False
    have d: "n mod 10 < 10" by simp
    have "decimal n = decimal (n div 10) @ [of_nat (48 + n mod 10)]"
      using False by (simp add: decimal.simps [of n] del: of_nat_add)
    then show ?thesis
      using "1.IH" [OF False] digit_char_val(2) [OF d] by (simp add: algebra_simps del: of_nat_add)
  qed
qed

lemma decimal_start: "\<exists>b cs. decimal n = of_nat (48 + b) # cs \<and> b < 10"
proof (induction n rule: decimal.induct)
  case (1 n)
  then show ?case by (cases "n < 10") (fastforce simp: decimal.simps [of n] simp del: of_nat_add)+
qed

lemma decimal_no_minus: "of_char (CHR ''-'') \<notin> set (decimal n)"
proof (induction n rule: decimal.induct)
  case (1 n)
  have "n mod 10 < 10" by simp
  then show ?case
    using 1 digit_char_val(4) [of n] digit_char_val(4) [of "n mod 10"]
    by (cases "n < 10") (auto simp: decimal.simps [of n] simp del: of_nat_add)
qed

lemma scan_number_decimal: "scan_number 10 (decimal n) = Some (False, n, [])"
  and scan_number_minus: "scan_number 10 (of_char (CHR ''-'') # decimal n) = Some (True, n, [])"
proof -
  obtain b cs where b: "decimal n = of_nat (48 + b) # cs" "b < 10" using decimal_start by blast
  have "has_digit 10 (decimal n)"
    using b digit_char_val(2) [OF b(2)] by (simp add: has_digit_def del: of_nat_add)
  moreover have "scan_digits 10 (decimal n) 0 = (n, [])" using scan_decimal [of n "[]" 0] by simp
  moreover have "dropWhile isspace (decimal n) = decimal n"
    using b digit_char_val(3) [OF b(2)] by (simp del: of_nat_add)
  ultimately show "scan_number 10 (decimal n) = Some (False, n, [])"
    "scan_number 10 (of_char (CHR ''-'') # decimal n) = Some (True, n, [])"
    using b digit_char_val(4,5) [OF b(2)]
    by (simp_all add: scan_number_def Let_def isspace_def del: of_nat_add)
qed

lemma safe_strtoull_decimal:
  "safe_strtoull (decimal n) = (if n < 2 ^ 64 then Some (of_nat n) else None)"
  using decimal_no_minus [of n]
  by (simp add: safe_strtoull_def safe_strtoull_base_def scan_number_decimal strtoull_val_def end_ok_def)

lemma safe_strtoll_int_decimal:
  "- (2 ^ 63) \<le> z \<Longrightarrow> z < 2 ^ 63 \<Longrightarrow> safe_strtoll (int_decimal z) = Some (of_int z)"
proof -
  assume z: "- (2 ^ 63) \<le> z" "z < 2 ^ 63"
  show ?thesis
  proof (cases "z < 0")
    case True
    then have "\<not> nat (- z) > 2 ^ 63" using z by simp
    with True show ?thesis
      by (simp add: safe_strtoll_def int_decimal_def scan_number_minus [simplified] strtoll_val_def
          end_ok_def of_nat_nat)
  next
    case False
    then have "\<not> nat z \<ge> 2 ^ 63" using z by simp
    with False show ?thesis
      by (simp add: safe_strtoll_def int_decimal_def scan_number_decimal strtoll_val_def end_ok_def of_nat_nat)
  qed
qed

text \<open>
  Printing and parsing are inverse: the checked conversions read back every 64-bit number,
  unsigned or signed, that the decimal conversions print, and a numeral too large for 64 bits is
  refused instead of wrapped.
\<close>

theorem print_parse:
  "safe_strtoull (itoa_u64 v []) = Some v \<and> safe_strtoll (itoa_64 j []) = Some j \<and>
   (safe_strtoull (decimal n) = None \<longleftrightarrow> 2 ^ 64 \<le> n)"
proof -
  have "safe_strtoull (itoa_u64 v []) = Some v"
    using unat_u64_less [of v] by (simp add: itoa_u64_eq safe_strtoull_decimal)
  moreover have "safe_strtoll (itoa_64 j []) = Some j"
    using safe_strtoll_int_decimal [of "sint j"] sint_greater_eq [of j] sint_less [of j]
    by (simp add: itoa_64_def itoa_u64_eq int_decimal_def unat_sint split: if_splits)
  ultimately show ?thesis by (auto simp: safe_strtoull_decimal)
qed

text \<open>
  The 32-bit conversions check the range of the 64-bit \<open>long\<close> only: every numeral below
  \<open>2 ^ 64\<close> (respectively \<open>2 ^ 63\<close>) is accepted and silently reduced modulo \<open>2 ^ 32\<close>.
\<close>

theorem strtoul_truncates:
  "(n < 2 ^ 64 \<longrightarrow> (\<exists>w. safe_strtoul (decimal n) = Some w \<and> unat w = n mod 2 ^ 32)) \<and>
   (n < 2 ^ 63 \<longrightarrow> (\<exists>w. safe_strtol (decimal n) = Some w \<and> unat w = n mod 2 ^ 32))"
  using decimal_no_minus [of n]
  by (simp add: safe_strtoul_def safe_strtol_def scan_number_decimal strtoull_val_def strtoll_val_def
      end_ok_def unat_ucast unat_of_nat mod_mod_cancel)

theorem strtoul_truncates_witness:
  "(\<exists>w. safe_strtoul (decimal 4294967301) = Some w \<and> unat w = 5)"
  using strtoul_truncates [of 4294967301] by simp

section \<open>Copying\<close>

lemma strcpy_loop_eq:
  assumes "\<And>i. i < length s \<Longrightarrow> src i = s ! i" and "0 \<notin> set s" and "src (length s) = 0"
    and "x \<le> length s" and "x \<le> lim"
  shows "strcpy_loop dst src lim x =
    (mem_write dst x (drop x (take lim s)), min lim (length s))"
  using assms(4,5)
proof (induction "length s - x" arbitrary: x dst)
  case 0
  then have "x = length s" by simp
  with assms(3) 0 show ?case by (simp add: strcpy_loop.simps [of dst src lim "length s"] min_def)
next
  case (Suc k)
  then have x: "x < length s" by simp
  have c: "src x = s ! x" "s ! x \<noteq> 0" using assms(1) [OF x] assms(2) nth_mem [OF x] by auto
  show ?case
  proof (cases "x < lim")
    case True
    have "drop x (take lim s) = s ! x # drop (Suc x) (take lim s)"
      using x True Cons_nth_drop_Suc [of x "take lim s"] by simp
    moreover have "strcpy_loop (dst(x := s ! x)) src lim (x + 1) =
        (mem_write (dst(x := s ! x)) (x + 1) (drop (x + 1) (take lim s)), min lim (length s))"
      using Suc.hyps(2) x True by (intro Suc.hyps(1)) auto
    ultimately show ?thesis
      using True c by (simp add: strcpy_loop.simps [of dst src lim x] mem_write_Cons)
  next
    case False
    with Suc.prems have "x = lim" by simp
    with x show ?thesis by (simp add: strcpy_loop.simps [of dst src lim lim])
  qed
qed

lemma unat_pred: "dstmax \<noteq> 0 \<Longrightarrow> unat (dstmax - 1) = unat dstmax - 1" for dstmax :: u64
  by (rule unat_minus_one)

text \<open>
  For a buffer of at least one byte, \<open>safe_strcpy\<close> leaves a NUL-terminated string in it: the
  source string if it fits with its terminator, its first \<open>dstmax - 1\<close> bytes otherwise; the result
  says which, and no byte at or beyond \<open>dstmax\<close> is written.
\<close>

theorem safe_strcpy_spec:
  assumes "\<And>i. i < length s \<Longrightarrow> src i = s ! i" and "0 \<notin> set s" and "src (length s) = 0" and "dstmax \<noteq> 0"
  shows "\<exists>dst'. safe_strcpy dst src dstmax = (dst', length s < unat dstmax) \<and>
    mem_read dst' 0 (min (unat dstmax) (Suc (length s))) = take (unat dstmax - 1) s @ [0] \<and>
    (\<forall>i \<ge> unat dstmax. dst' i = dst i)"
proof -
  let ?n = "unat dstmax - 1"
  have n: "0 < unat dstmax" using assms(4) by (simp add: unat_gt_0)
  have loop: "strcpy_loop dst src (unat (dstmax - 1)) 0 = (mem_write dst 0 (take ?n s), min ?n (length s))"
    using strcpy_loop_eq [OF assms(1-3), of 0 ?n dst] unat_pred [OF assms(4)] by simp
  have fin: "src (min ?n (length s)) = 0 \<longleftrightarrow> length s < unat dstmax"
  proof (cases "length s < unat dstmax")
    case True
    then have "min ?n (length s) = length s" by simp
    then show ?thesis using True assms(3) by simp
  next
    case False
    then have lt: "?n < length s" using n by simp
    have "s ! ?n \<noteq> 0" using nth_mem [OF lt] assms(2) by metis
    then show ?thesis using assms(1) [OF lt] lt False by (simp add: min_def)
  qed
  have len: "min (unat dstmax) (Suc (length s)) = Suc (min ?n (length s))" using n by simp
  let ?dst = "(mem_write dst 0 (take ?n s))(min ?n (length s) := 0)"
  have "mem_read ?dst 0 (Suc (min ?n (length s))) = take ?n s @ [0]"
    by (rule mem_read_eqI) (auto simp: nth_append min_def mem_write_def)
  moreover have "?dst i = dst i" if "unat dstmax \<le> i" for i using that n by auto
  ultimately show ?thesis using loop fin len by (simp add: safe_strcpy_def)
qed

theorem safe_strcpy_spec_witness:
  "\<exists>dst'. safe_strcpy (\<lambda>_. 7) (mem_write (\<lambda>_. 0) 0 [1, 2, 3]) 3 = (dst', False) \<and>
     mem_read dst' 0 3 = [1, 2, 0] \<and> (\<forall>i \<ge> 3. dst' i = 7)"
proof -
  have "mem_write (\<lambda>_. 0) 0 [1, 2, 3] i = ([1, 2, 3] :: byte list) ! i" if "i < length [1, 2, 3 :: byte]" for i
    using that by (simp add: mem_write_def)
  note spec = safe_strcpy_spec [of "[1, 2, 3]" "mem_write (\<lambda>_. 0) 0 [1, 2, 3]" 3 "\<lambda>_. 7", OF this]
  have "min (unat (3 :: u64)) (Suc (length [1, 2, 3 :: byte])) = 3" by simp
  note spec [unfolded this]
  then show ?thesis by (simp add: mem_write_def)
qed

section \<open>Byte order\<close>

lemma bit_mask8: "bit (w AND 0xff) k \<longleftrightarrow> k < 8 \<and> bit w k" for w :: u64
proof -
  have "(0xff :: u64) = mask 8" by (simp add: mask_eq_exp_minus_1)
  then have "bit (w AND 0xff) k \<longleftrightarrow> bit w k \<and> bit (mask 8 :: u64) k" by (simp add: bit_and_iff)
  then show ?thesis by (auto simp: bit_mask_iff)
qed

lemma swap_loop_bits:
  "k < 64 \<Longrightarrow> bit (swap_loop n rv x) k \<longleftrightarrow>
   (if k < 8 * n then bit x (8 * (n - 1 - k div 8) + k mod 8) else bit rv (k - 8 * n))"
proof (induction n arbitrary: rv x)
  case (Suc n)
  consider "k < 8 * n" | "8 * n \<le> k" "k < 8 * n + 8" | "8 * n + 8 \<le> k" by linarith
  then show ?case
  proof cases
    case 1
    then have "n - k div 8 = Suc (n - 1 - k div 8)" by linarith
    then obtain a where a: "n - k div 8 = Suc a" "n - Suc (k div 8) = a" by simp
    then show ?thesis using Suc 1 by (simp add: bit_drop_bit_eq add.assoc)
  next
    case 2
    then have "k div 8 = n" by linarith
    moreover from this 2 have "k mod 8 = k - 8 * n" by (simp add: minus_mult_div_eq_mod [symmetric] mult.commute)
    ultimately show ?thesis using Suc 2 by (auto simp: bit_or_iff bit_push_bit_iff bit_mask8)
  next
    case 3
    then show ?thesis using Suc by (auto simp: bit_or_iff bit_push_bit_iff bit_mask8 add.commute)
  qed
qed simp

lemma mc_swap64_bits: "k < 64 \<Longrightarrow> bit (mc_swap64 x) k \<longleftrightarrow> bit x (8 * (7 - k div 8) + k mod 8)"
  by (simp add: mc_swap64_def swap_loop_bits)

text \<open>
  \<open>htonll\<close> reverses the eight bytes of its argument (byte \<open>b\<close> of the result is byte \<open>7 - b\<close> of the
  argument) and \<open>ntohll\<close> undoes it.
\<close>

theorem swap64_involution:
  "ntohll (htonll x) = x \<and>
   (\<forall>b < 8. \<forall>i < 8. bit (htonll x) (8 * b + i) \<longleftrightarrow> bit x (8 * (7 - b) + i))"
proof
  show "ntohll (htonll x) = x"
  proof (rule bit_word_eqI)
    fix k assume "k < LENGTH(64)"
    then have k: "k < 64" by simp
    then have d: "k div 8 \<le> 7" by linarith
    let ?k = "8 * (7 - k div 8) + k mod 8"
    have "?k div 8 = 7 - k div 8" "?k mod 8 = k mod 8" by simp_all
    moreover have "8 * (7 - (7 - k div 8)) + k mod 8 = k" using d by simp
    moreover have "?k < 64" using d by linarith
    ultimately show "bit (ntohll (htonll x)) k \<longleftrightarrow> bit x k"
      using mc_swap64_bits [OF k, of "mc_swap64 x"] mc_swap64_bits [of ?k x]
      by (simp add: ntohll_def htonll_def)
  qed
  show "\<forall>b < 8. \<forall>i < 8. bit (htonll x) (8 * b + i) \<longleftrightarrow> bit x (8 * (7 - b) + i)"
    by (simp add: htonll_def mc_swap64_bits)
qed

theorem swap64_involution_witness: "bit (htonll 1) 56"
proof -
  have "bit (htonll 1) (8 * 7 + 0) \<longleftrightarrow> bit (1 :: u64) (8 * (7 - 7) + 0)"
    using swap64_involution [of 1] by (simp only:)
  then show ?thesis by simp
qed

section \<open>URI encoding\<close>

text \<open>The specification: percent-encode every byte that is not unreserved; and its inverse.\<close>

definition uri_char :: "byte \<Rightarrow> byte list" where
  "uri_char c = (if unreserved c then [c] else pct c)"

definition uri_enc :: "byte list \<Rightarrow> byte list" where
  "uri_enc src = concat (map uri_char src)"

definition hex_val :: "byte \<Rightarrow> nat" where
  "hex_val c = (if isdigit c then unat c - 48 else unat c - 55)"

fun uri_dec :: "byte list \<Rightarrow> byte list" where
  "uri_dec (p # h # l # cs) =
     (if p = of_char (CHR ''%'') then of_nat (16 * hex_val h + hex_val l) # uri_dec cs
      else p # uri_dec (h # l # cs))"
| "uri_dec (c # cs) = c # uri_dec cs"
| "uri_dec [] = []"

lemma byte_cases: "(\<forall>n \<in> set [0..<256]. P (of_nat n :: byte)) \<Longrightarrow> P c"
proof -
  assume "\<forall>n \<in> set [0..<256]. P (of_nat n :: byte)"
  moreover have "unat c \<in> set [0..<256]" using unat_u8_less [of c] by simp
  ultimately have "P (of_nat (unat c))" by blast
  then show "P c" by simp
qed

lemma hex_val_digit: "n < 16 \<Longrightarrow> hex_val (hex_digit n) = n"
proof -
  have "list_all (\<lambda>n. hex_val (hex_digit n) = n) [0..<16]" by code_simp
  then show "n < 16 \<Longrightarrow> hex_val (hex_digit n) = n" by (simp add: list_all_iff)
qed

lemma pct_dec:
  "of_nat (16 * hex_val (hex_digit (unat c div 16)) + hex_val (hex_digit (unat c mod 16))) = c"
  for c :: byte
proof -
  have "unat c div 16 < 16" using unat_u8_less [of c] by simp
  then have "16 * hex_val (hex_digit (unat c div 16)) + hex_val (hex_digit (unat c mod 16)) = unat c"
    by (simp add: hex_val_digit)
  then show ?thesis by simp
qed

lemma unreserved_not_pct: "unreserved c \<Longrightarrow> c \<noteq> of_char (CHR ''%'')"
  by (auto simp: unreserved_def isalnum_def isdigit_def)

lemma uri_dec_enc: "uri_dec (uri_enc src) = src"
proof (induction src)
  case (Cons c src)
  show ?case
  proof (cases "unreserved c")
    case True
    then have "uri_dec (c # cs) = c # uri_dec cs" for cs
      using unreserved_not_pct [OF True] by (cases cs rule: list.exhaust; cases "tl cs") auto
    with True Cons show ?thesis by (simp add: uri_enc_def uri_char_def)
  next
    case False
    then have "uri_enc (c # src) =
        of_char (CHR ''%'') # hex_digit (unat c div 16) # hex_digit (unat c mod 16) # uri_enc src"
      by (simp add: uri_enc_def uri_char_def pct_def)
    then show ?thesis
      using Cons pct_dec [of c] by (simp only: uri_dec.simps if_True refl)
  qed
qed (simp add: uri_enc_def)

text \<open>What the initialisation leaves in the tables.\<close>

definition tables_for :: "byte list \<Rightarrow> uri_tables \<Rightarrow> bool" where
  "tables_for xs t \<longleftrightarrow> (\<forall>x \<in> set xs.
     (case fst t x of None \<Rightarrow> unreserved x
      | Some off \<Rightarrow> \<not> unreserved x \<and> off + 3 \<le> snd (snd t) \<and> mem_read (fst (snd t)) off 3 = pct x))"

lemma length_pct [simp]: "length (pct x) = 3"
  by (simp add: pct_def)

lemma mem_read_pct: "mem_read (mem_write buf str (pct x @ [0])) str 3 = pct x"
proof -
  have "mem_read (mem_write buf str (pct x @ [0])) str (length (pct x @ [0])) = pct x @ [0]"
    by (rule mem_read_write_same)
  then have "take 3 (mem_read (mem_write buf str (pct x @ [0])) str 4) = take 3 (pct x @ [0])" by simp
  then show ?thesis by (simp add: take_mem_read)
qed

lemma tables_step:
  assumes "tables_for xs t"
  shows "tables_for (xs @ [x]) (uriencode_step x t)"
proof -
  obtain m buf str where t: "t = (m, buf, str)" by (cases t)
  show ?thesis
    unfolding tables_for_def
  proof
    fix y assume y: "y \<in> set (xs @ [x])"
    have old: "case m y of None \<Rightarrow> unreserved y
        | Some off \<Rightarrow> \<not> unreserved y \<and> off + 3 \<le> str \<and> mem_read buf off 3 = pct y" if "y \<noteq> x"
      using bspec [OF assms [unfolded tables_for_def t fst_conv snd_conv], of y] y that by simp
    then show "case fst (uriencode_step x t) y of None \<Rightarrow> unreserved y
        | Some off \<Rightarrow> \<not> unreserved y \<and> off + 3 \<le> snd (snd (uriencode_step x t)) \<and>
            mem_read (fst (snd (uriencode_step x t))) off 3 = pct y"
      by (cases "y = x"; cases "unreserved x"; cases "m y")
        (auto simp: uriencode_step_def t mem_read_pct mem_read_write_disjoint)
  qed
qed

lemma tables_init: "tables_for (map of_nat [0..<256]) (uriencode_init t)"
proof -
  have "tables_for xs (fold uriencode_step xs t)" for xs
    by (induction xs rule: rev_induct) (simp_all add: tables_for_def tables_step [unfolded tables_for_def])
  then show ?thesis by (simp add: uriencode_init_def)
qed

lemma tables_lookup:
  "(case fst (uriencode_init t) c of None \<Rightarrow> unreserved c
    | Some off \<Rightarrow> \<not> unreserved c \<and> mem_read (fst (snd (uriencode_init t))) off 3 = pct c)"
proof (rule byte_cases [of _ c], rule)
  fix n :: nat assume "n \<in> set [0..<256]"
  then have "of_nat n \<in> set (map of_nat [0..<256] :: byte list)" by simp
  with tables_init [of t] show "case fst (uriencode_init t) (of_nat n) of None \<Rightarrow> unreserved (of_nat n)
    | Some off \<Rightarrow> \<not> unreserved (of_nat n) \<and> mem_read (fst (snd (uriencode_init t))) off 3 = pct (of_nat n)"
    unfolding tables_for_def by (auto split: option.splits)
qed

text \<open>Whether the room suffices: four bytes before each source byte is encoded.\<close>

fun enc_fits :: "byte list \<Rightarrow> nat \<Rightarrow> nat \<Rightarrow> bool" where
  "enc_fits [] d dstlen = True"
| "enc_fits (c # src) d dstlen = (d + 4 \<le> dstlen \<and> enc_fits src (d + length (uri_char c)) dstlen)"

lemma uriencode_eq:
  "fst (uriencode (uriencode_init t) src dst d dstlen) = enc_fits src d dstlen \<and>
   (enc_fits src d dstlen \<longrightarrow>
      snd (uriencode (uriencode_init t) src dst d dstlen) = mem_write dst d (uri_enc src @ [0]))"
proof (induction src arbitrary: dst d)
  case Nil
  then show ?case by (simp add: uri_enc_def mem_write_single)
next
  case (Cons c src)
  have enc: "uri_enc (c # src) = uri_char c @ uri_enc src" by (simp add: uri_enc_def)
  show ?case
  proof (cases "d + 4 \<le> dstlen")
    case True
    have step: "uriencode (uriencode_init t) (c # src) dst d dstlen =
        uriencode (uriencode_init t) src (mem_write dst d (uri_char c)) (d + length (uri_char c)) dstlen"
      using True tables_lookup [where t = t and c = c]
      by (auto simp: uri_char_def mem_write_single split: option.splits)
    have "mem_write (mem_write dst d (uri_char c)) (d + length (uri_char c)) (uri_enc src @ [0]) =
        mem_write dst d (uri_enc (c # src) @ [0])"
      unfolding enc by (subst mem_write_append) simp
    with Cons.IH [of "mem_write dst d (uri_char c)" "d + length (uri_char c)"] True show ?thesis
      unfolding step by simp
  qed simp
qed

text \<open>
  After the initialisation, \<open>uriencode\<close> with room for three bytes per source byte and one more
  succeeds and leaves the percent-encoding of the source, NUL-terminated, in the destination; every
  byte that is not a letter, a digit or one of \<open>-._~\<close> becomes \<open>%XX\<close>, so the encoding can be decoded
  again. It succeeds exactly when four bytes of room are left before each source byte.
\<close>

theorem uriencode_roundtrip:
  "(fst (uriencode (uriencode_init t) src dst 0 dstlen) \<longleftrightarrow> enc_fits src 0 dstlen) \<and>
   (fst (uriencode (uriencode_init t) src dst 0 dstlen) \<longrightarrow>
      mem_read (snd (uriencode (uriencode_init t) src dst 0 dstlen)) 0 (length (uri_enc src) + 1) = uri_enc src @ [0]) \<and>
   uri_dec (uri_enc src) = src"
  using uriencode_eq [of t src dst 0 dstlen] uri_dec_enc [of src] mem_read_write_same [of dst 0 "uri_enc src @ [0]"]
  by simp

theorem uriencode_roundtrip_witness:
  "enc_fits [107, 32] 0 16 \<and>
   mem_read (snd (uriencode (uriencode_init (\<lambda>_. None, \<lambda>_. 0, 0)) [107, 32] (\<lambda>_. 0) 0 16)) 0
     (length (uri_enc [107, 32]) + 1) = bytes ''k%20'' @ [0]"
proof -
  have enc: "uri_enc [107, 32] = bytes ''k%20''" by code_simp
  have fit: "enc_fits [107, 32] 0 16" by code_simp
  then show ?thesis
    using uriencode_roundtrip [of "(\<lambda>_. None, \<lambda>_. 0, 0)" "[107, 32]" "\<lambda>_. 0" 16]
    by (simp only: enc)
qed

end
