(* ===== verification/Hashes.thy ===== *)
theory Hashes
  imports Prelude
begin

unbundle bit_operations_syntax

text \<open>
  The two hash functions of memcached (\<open>jenkins_hash.c\<close>, \<open>murmur3_hash.c\<close>) and their selection
  (\<open>hash.c\<close>). The key is a memory and an address, because the Jenkins hash reads whole words where the
  address is aligned and may read (and mask off) bytes behind the key. Both the little- and the
  big-endian version are modelled; the Valgrind variants of the last block are not.
\<close>

section \<open>Reading\<close>

abbreviation (input) b32 :: "byte \<Rightarrow> u32" where "b32 b \<equiv> ucast b"

text \<open>A \<open>uint16_t\<close> or \<open>uint32_t\<close> read on a little-endian host, and the latter on a big-endian one.\<close>

definition rd16 :: "mem \<Rightarrow> nat \<Rightarrow> u32" where
  "rd16 m a = b32 (m a) + push_bit 8 (b32 (m (a + 1)))"

definition rd32 :: "mem \<Rightarrow> nat \<Rightarrow> u32" where
  "rd32 m a = b32 (m a) + push_bit 8 (b32 (m (a + 1))) + push_bit 16 (b32 (m (a + 2))) +
     push_bit 24 (b32 (m (a + 3)))"

definition rd32_be :: "mem \<Rightarrow> nat \<Rightarrow> u32" where
  "rd32_be m a = push_bit 24 (b32 (m a)) + push_bit 16 (b32 (m (a + 1))) + push_bit 8 (b32 (m (a + 2))) +
     b32 (m (a + 3))"

section \<open>The Jenkins hash\<close>

definition rot :: "u32 \<Rightarrow> nat \<Rightarrow> u32" where
  "rot x k = push_bit k x XOR drop_bit (32 - k) x"

type_synonym jstate = "u32 \<times> u32 \<times> u32"

definition mix :: "jstate \<Rightarrow> jstate" where
  "mix s =
     (let (a, b, c) = s;
          a = a - c; a = a XOR rot c 4; c = c + b;
          b = b - a; b = b XOR rot a 6; a = a + c;
          c = c - b; c = c XOR rot b 8; b = b + a;
          a = a - c; a = a XOR rot c 16; c = c + b;
          b = b - a; b = b XOR rot a 19; a = a + c;
          c = c - b; c = c XOR rot b 4; b = b + a
      in (a, b, c))"

definition final_mix :: "jstate \<Rightarrow> u32" where
  "final_mix s =
     (let (a, b, c) = s;
          c = c XOR b; c = c - rot b 14;
          a = a XOR c; a = a - rot c 11;
          b = b XOR a; b = b - rot a 25;
          c = c XOR b; c = c - rot b 16;
          a = a XOR c; a = a - rot c 4;
          b = b XOR a; b = b - rot a 14;
          c = c XOR b; c = c - rot b 24
      in c)"

subsection \<open>Little endian, aligned to four bytes\<close>

function jh32_loop :: "mem \<Rightarrow> nat \<Rightarrow> nat \<Rightarrow> jstate \<Rightarrow> nat \<times> nat \<times> jstate" where
  "jh32_loop m k len (a, b, c) =
     (if len > 12
      then jh32_loop m (k + 12) (len - 12) (mix (a + rd32 m k, b + rd32 m (k + 4), c + rd32 m (k + 8)))
      else (k, len, (a, b, c)))"
  by pat_completeness auto
termination
  by (relation "measure (\<lambda>(m, k, len, s). len)") auto

definition jh32_last :: "mem \<Rightarrow> nat \<Rightarrow> nat \<Rightarrow> jstate \<Rightarrow> jstate" where
  "jh32_last m k len s =
     (case s of (a, b, c) \<Rightarrow>
        if len = 12 then (a + rd32 m k, b + rd32 m (k + 4), c + rd32 m (k + 8))
        else if len = 11 then (a + rd32 m k, b + rd32 m (k + 4), c + (rd32 m (k + 8) AND 0xffffff))
        else if len = 10 then (a + rd32 m k, b + rd32 m (k + 4), c + (rd32 m (k + 8) AND 0xffff))
        else if len = 9 then (a + rd32 m k, b + rd32 m (k + 4), c + (rd32 m (k + 8) AND 0xff))
        else if len = 8 then (a + rd32 m k, b + rd32 m (k + 4), c)
        else if len = 7 then (a + rd32 m k, b + (rd32 m (k + 4) AND 0xffffff), c)
        else if len = 6 then (a + rd32 m k, b + (rd32 m (k + 4) AND 0xffff), c)
        else if len = 5 then (a + rd32 m k, b + (rd32 m (k + 4) AND 0xff), c)
        else if len = 4 then (a + rd32 m k, b, c)
        else if len = 3 then (a + (rd32 m k AND 0xffffff), b, c)
        else if len = 2 then (a + (rd32 m k AND 0xffff), b, c)
        else if len = 1 then (a + (rd32 m k AND 0xff), b, c)
        else (a, b, c))"

subsection \<open>Little endian, aligned to two bytes\<close>

function jh16_loop :: "mem \<Rightarrow> nat \<Rightarrow> nat \<Rightarrow> jstate \<Rightarrow> nat \<times> nat \<times> jstate" where
  "jh16_loop m k len (a, b, c) =
     (if len > 12
      then jh16_loop m (k + 12) (len - 12)
             (mix (a + (rd16 m k + push_bit 16 (rd16 m (k + 2))),
                   b + (rd16 m (k + 4) + push_bit 16 (rd16 m (k + 6))),
                   c + (rd16 m (k + 8) + push_bit 16 (rd16 m (k + 10)))))
      else (k, len, (a, b, c)))"
  by pat_completeness auto
termination
  by (relation "measure (\<lambda>(m, k, len, s). len)") auto

definition jh16_last :: "mem \<Rightarrow> nat \<Rightarrow> nat \<Rightarrow> jstate \<Rightarrow> jstate" where
  "jh16_last m k len s =
     (case s of (a, b, c) \<Rightarrow>
        let w0 = rd16 m k + push_bit 16 (rd16 m (k + 2));
            w1 = rd16 m (k + 4) + push_bit 16 (rd16 m (k + 6));
            w2 = rd16 m (k + 8) + push_bit 16 (rd16 m (k + 10))
        in if len = 12 then (a + w0, b + w1, c + w2)
           else if len = 11 then (a + w0, b + w1, c + push_bit 16 (b32 (m (k + 10))) + rd16 m (k + 8))
           else if len = 10 then (a + w0, b + w1, c + rd16 m (k + 8))
           else if len = 9 then (a + w0, b + w1, c + b32 (m (k + 8)))
           else if len = 8 then (a + w0, b + w1, c)
           else if len = 7 then (a + w0, b + push_bit 16 (b32 (m (k + 6))) + rd16 m (k + 4), c)
           else if len = 6 then (a + w0, b + rd16 m (k + 4), c)
           else if len = 5 then (a + w0, b + b32 (m (k + 4)), c)
           else if len = 4 then (a + w0, b, c)
           else if len = 3 then (a + push_bit 16 (b32 (m (k + 2))) + rd16 m k, b, c)
           else if len = 2 then (a + rd16 m k, b, c)
           else if len = 1 then (a + b32 (m k), b, c)
           else (a, b, c))"

subsection \<open>Little endian, byte by byte\<close>

function jh8_loop :: "mem \<Rightarrow> nat \<Rightarrow> nat \<Rightarrow> jstate \<Rightarrow> nat \<times> nat \<times> jstate" where
  "jh8_loop m k len (a, b, c) =
     (if len > 12
      then jh8_loop m (k + 12) (len - 12)
             (mix (a + b32 (m k) + push_bit 8 (b32 (m (k + 1))) + push_bit 16 (b32 (m (k + 2))) +
                     push_bit 24 (b32 (m (k + 3))),
                   b + b32 (m (k + 4)) + push_bit 8 (b32 (m (k + 5))) + push_bit 16 (b32 (m (k + 6))) +
                     push_bit 24 (b32 (m (k + 7))),
                   c + b32 (m (k + 8)) + push_bit 8 (b32 (m (k + 9))) + push_bit 16 (b32 (m (k + 10))) +
                     push_bit 24 (b32 (m (k + 11)))))
      else (k, len, (a, b, c)))"
  by pat_completeness auto
termination
  by (relation "measure (\<lambda>(m, k, len, s). len)") auto

text \<open>The cases all fall through: each adds its byte when the length reaches it.\<close>

definition jh8_last :: "mem \<Rightarrow> nat \<Rightarrow> nat \<Rightarrow> jstate \<Rightarrow> jstate" where
  "jh8_last m k len s =
     (let (a, b, c) = s;
          c = (if 12 \<le> len then c + push_bit 24 (b32 (m (k + 11))) else c);
          c = (if 11 \<le> len then c + push_bit 16 (b32 (m (k + 10))) else c);
          c = (if 10 \<le> len then c + push_bit 8 (b32 (m (k + 9))) else c);
          c = (if 9 \<le> len then c + b32 (m (k + 8)) else c);
          b = (if 8 \<le> len then b + push_bit 24 (b32 (m (k + 7))) else b);
          b = (if 7 \<le> len then b + push_bit 16 (b32 (m (k + 6))) else b);
          b = (if 6 \<le> len then b + push_bit 8 (b32 (m (k + 5))) else b);
          b = (if 5 \<le> len then b + b32 (m (k + 4)) else b);
          a = (if 4 \<le> len then a + push_bit 24 (b32 (m (k + 3))) else a);
          a = (if 3 \<le> len then a + push_bit 16 (b32 (m (k + 2))) else a);
          a = (if 2 \<le> len then a + push_bit 8 (b32 (m (k + 1))) else a);
          a = (if 1 \<le> len then a + b32 (m k) else a)
      in (a, b, c))"

text \<open>The last block is mixed unless it is empty.\<close>

definition jh_finish :: "nat \<Rightarrow> jstate \<Rightarrow> jstate \<Rightarrow> u32" where
  "jh_finish len s s' = (if len = 0 then snd (snd s) else final_mix s')"

definition jenkins_hash :: "mem \<Rightarrow> nat \<Rightarrow> nat \<Rightarrow> u32" where
  "jenkins_hash m key n =
     (let s0 = 0xdeadbeef + of_nat n; s = (s0, s0, s0) in
      if key mod 4 = 0 then
        let (k, len, s) = jh32_loop m key n s in jh_finish len s (jh32_last m k len s)
      else if key mod 2 = 0 then
        let (k, len, s) = jh16_loop m key n s in jh_finish len s (jh16_last m k len s)
      else
        let (k, len, s) = jh8_loop m key n s in jh_finish len s (jh8_last m k len s))"

subsection \<open>Big endian\<close>

function jhb32_loop :: "mem \<Rightarrow> nat \<Rightarrow> nat \<Rightarrow> jstate \<Rightarrow> nat \<times> nat \<times> jstate" where
  "jhb32_loop m k len (a, b, c) =
     (if len > 12
      then jhb32_loop m (k + 12) (len - 12)
             (mix (a + rd32_be m k, b + rd32_be m (k + 4), c + rd32_be m (k + 8)))
      else (k, len, (a, b, c)))"
  by pat_completeness auto
termination
  by (relation "measure (\<lambda>(m, k, len, s). len)") auto

definition jhb32_last :: "mem \<Rightarrow> nat \<Rightarrow> nat \<Rightarrow> jstate \<Rightarrow> jstate" where
  "jhb32_last m k len s =
     (case s of (a, b, c) \<Rightarrow>
        if len = 12 then (a + rd32_be m k, b + rd32_be m (k + 4), c + rd32_be m (k + 8))
        else if len = 11 then (a + rd32_be m k, b + rd32_be m (k + 4), c + (rd32_be m (k + 8) AND 0xffffff00))
        else if len = 10 then (a + rd32_be m k, b + rd32_be m (k + 4), c + (rd32_be m (k + 8) AND 0xffff0000))
        else if len = 9 then (a + rd32_be m k, b + rd32_be m (k + 4), c + (rd32_be m (k + 8) AND 0xff000000))
        else if len = 8 then (a + rd32_be m k, b + rd32_be m (k + 4), c)
        else if len = 7 then (a + rd32_be m k, b + (rd32_be m (k + 4) AND 0xffffff00), c)
        else if len = 6 then (a + rd32_be m k, b + (rd32_be m (k + 4) AND 0xffff0000), c)
        else if len = 5 then (a + rd32_be m k, b + (rd32_be m (k + 4) AND 0xff000000), c)
        else if len = 4 then (a + rd32_be m k, b, c)
        else if len = 3 then (a + (rd32_be m k AND 0xffffff00), b, c)
        else if len = 2 then (a + (rd32_be m k AND 0xffff0000), b, c)
        else if len = 1 then (a + (rd32_be m k AND 0xff000000), b, c)
        else (a, b, c))"

function jhb8_loop :: "mem \<Rightarrow> nat \<Rightarrow> nat \<Rightarrow> jstate \<Rightarrow> nat \<times> nat \<times> jstate" where
  "jhb8_loop m k len (a, b, c) =
     (if len > 12
      then jhb8_loop m (k + 12) (len - 12)
             (mix (a + push_bit 24 (b32 (m k)) + push_bit 16 (b32 (m (k + 1))) +
                     push_bit 8 (b32 (m (k + 2))) + b32 (m (k + 3)),
                   b + push_bit 24 (b32 (m (k + 4))) + push_bit 16 (b32 (m (k + 5))) +
                     push_bit 8 (b32 (m (k + 6))) + b32 (m (k + 7)),
                   c + push_bit 24 (b32 (m (k + 8))) + push_bit 16 (b32 (m (k + 9))) +
                     push_bit 8 (b32 (m (k + 10))) + b32 (m (k + 11))))
      else (k, len, (a, b, c)))"
  by pat_completeness auto
termination
  by (relation "measure (\<lambda>(m, k, len, s). len)") auto

definition jhb8_last :: "mem \<Rightarrow> nat \<Rightarrow> nat \<Rightarrow> jstate \<Rightarrow> jstate" where
  "jhb8_last m k len s =
     (let (a, b, c) = s;
          c = (if 12 \<le> len then c + b32 (m (k + 11)) else c);
          c = (if 11 \<le> len then c + push_bit 8 (b32 (m (k + 10))) else c);
          c = (if 10 \<le> len then c + push_bit 16 (b32 (m (k + 9))) else c);
          c = (if 9 \<le> len then c + push_bit 24 (b32 (m (k + 8))) else c);
          b = (if 8 \<le> len then b + b32 (m (k + 7)) else b);
          b = (if 7 \<le> len then b + push_bit 8 (b32 (m (k + 6))) else b);
          b = (if 6 \<le> len then b + push_bit 16 (b32 (m (k + 5))) else b);
          b = (if 5 \<le> len then b + push_bit 24 (b32 (m (k + 4))) else b);
          a = (if 4 \<le> len then a + b32 (m (k + 3)) else a);
          a = (if 3 \<le> len then a + push_bit 8 (b32 (m (k + 2))) else a);
          a = (if 2 \<le> len then a + push_bit 16 (b32 (m (k + 1))) else a);
          a = (if 1 \<le> len then a + push_bit 24 (b32 (m k)) else a)
      in (a, b, c))"

definition jenkins_hash_big :: "mem \<Rightarrow> nat \<Rightarrow> nat \<Rightarrow> u32" where
  "jenkins_hash_big m key n =
     (let s0 = 0xdeadbeef + of_nat n; s = (s0, s0, s0) in
      if key mod 4 = 0 then
        let (k, len, s) = jhb32_loop m key n s in jh_finish len s (jhb32_last m k len s)
      else
        let (k, len, s) = jhb8_loop m key n s in jh_finish len s (jhb8_last m k len s))"

declare jh32_loop.simps [simp del] jh16_loop.simps [simp del] jh8_loop.simps [simp del]
  jhb32_loop.simps [simp del] jhb8_loop.simps [simp del]

section \<open>MurmurHash3\<close>

definition rotl32 :: "u32 \<Rightarrow> nat \<Rightarrow> u32" where
  "rotl32 x r = push_bit r x OR drop_bit (32 - r) x"

definition fmix32 :: "u32 \<Rightarrow> u32" where
  "fmix32 h =
     (let h = h XOR drop_bit 16 h; h = h * 0x85ebca6b;
          h = h XOR drop_bit 13 h; h = h * 0xc2b2ae35
      in h XOR drop_bit 16 h)"

definition murmur_k1 :: "u32 \<Rightarrow> u32" where
  "murmur_k1 k1 = rotl32 (k1 * 0xcc9e2d51) 15 * 0x1b873593"

text \<open>The body: the blocks from the first to the last (\<open>i\<close> from \<open>-nblocks\<close> up to \<open>-1\<close>).\<close>

fun murmur_body :: "mem \<Rightarrow> nat \<Rightarrow> nat \<Rightarrow> u32 \<Rightarrow> u32" where
  "murmur_body m blk 0 h1 = h1"
| "murmur_body m blk (Suc n) h1 =
     murmur_body m (blk + 4) n (rotl32 (h1 XOR murmur_k1 (rd32 m blk)) 13 * 5 + 0xe6546b64)"

definition murmur_tail :: "mem \<Rightarrow> nat \<Rightarrow> nat \<Rightarrow> u32 \<Rightarrow> u32" where
  "murmur_tail m tail l h1 =
     (let k1 = 0;
          k1 = (if l = 3 then k1 XOR push_bit 16 (b32 (m (tail + 2))) else k1);
          k1 = (if 2 \<le> l then k1 XOR push_bit 8 (b32 (m (tail + 1))) else k1);
          k1 = (if 1 \<le> l then k1 XOR b32 (m tail) else k1)
      in if 1 \<le> l then h1 XOR murmur_k1 k1 else h1)"

definition MurmurHash3_x86_32 :: "mem \<Rightarrow> nat \<Rightarrow> nat \<Rightarrow> u32" where
  "MurmurHash3_x86_32 m key n =
     (let nblocks = n div 4;
          h1 = murmur_body m key nblocks 0;
          h1 = murmur_tail m (key + nblocks * 4) (n mod 4) h1;
          h1 = h1 XOR of_nat n
      in fmix32 h1)"

section \<open>Selection\<close>

datatype hashfunc_type = JENKINS_HASH | MURMUR3_HASH | OTHER_HASH

text \<open>The function chosen and its name, or the error value \<open>-1\<close>.\<close>

fun hash_init :: "hashfunc_type \<Rightarrow> ((mem \<Rightarrow> nat \<Rightarrow> nat \<Rightarrow> u32) \<times> string) option" where
  "hash_init JENKINS_HASH = Some (jenkins_hash, ''jenkins'')"
| "hash_init MURMUR3_HASH = Some (MurmurHash3_x86_32, ''murmur3'')"
| "hash_init OTHER_HASH = None"

section \<open>Word arithmetic of the reads\<close>

lemma unat_b32 [simp]: "unat (b32 b) = unat b"
  using unat_u8_less [of b] by (simp add: unat_ucast)

lemma unat_push_byte:
  assumes "n \<le> 24"
  shows "unat (push_bit n (b32 b)) = unat b * 2 ^ n"
proof -
  have "unat b * 2 ^ n < 256 * 2 ^ 24"
    using unat_u8_less [of b] power_increasing [OF assms, of "2 :: nat"] by (intro mult_less_le_imp_less) auto
  then show ?thesis unfolding unsigned_push_bit_eq unat_b32 by (simp add: take_bit_eq_mod push_bit_eq_mult)
qed

text \<open>Four bytes, least significant first, as a sum without carries; the masks keep a prefix.\<close>

definition quad :: "byte \<Rightarrow> byte \<Rightarrow> byte \<Rightarrow> byte \<Rightarrow> u32" where
  "quad b0 b1 b2 b3 = b32 b0 + push_bit 8 (b32 b1) + push_bit 16 (b32 b2) + push_bit 24 (b32 b3)"

lemma unat_quad: "unat (quad b0 b1 b2 b3) = unat b0 + 256 * unat b1 + 65536 * unat b2 + 16777216 * unat b3"
  using unat_u8_less [of b0] unat_u8_less [of b1] unat_u8_less [of b2] unat_u8_less [of b3]
  by (simp add: quad_def unat_word_ariths unat_push_byte)

lemma and_low_mask:
  "unat (w AND 0xffffff) = unat w mod 16777216" "unat (w AND 0xffff) = unat w mod 65536"
  "unat (w AND 0xff) = unat w mod 256" for w :: u32
  using unat_and_mask [of w 24] unat_and_mask [of w 16] unat_and_mask [of w 8]
  by (simp_all add: mask_eq_exp_minus_1)

lemma and_high_mask: "unat (w AND NOT (mask n)) = unat w div 2 ^ n * 2 ^ n" for w :: u32
proof -
  have "w AND NOT (mask n) = push_bit n (drop_bit n w)"
    by (rule bit_word_eqI) (auto simp: bit_simps)
  moreover have "unat w div 2 ^ n * 2 ^ n < 4294967296"
    using unat_u32_less [of w] by (meson div_times_less_eq_dividend le_less_trans)
  ultimately show ?thesis
    unfolding \<open>w AND NOT (mask n) = push_bit n (drop_bit n w)\<close> unsigned_push_bit_eq unat_drop_bit_eq
    by (simp add: take_bit_eq_mod push_bit_eq_mult drop_bit_eq_div)
qed

lemma split_low: "a < k \<Longrightarrow> (a + k * b) mod k = a" "a < k \<Longrightarrow> (a + k * b) div k * k = k * b" for a b k :: nat
  by simp_all

text \<open>The value of a quad split at each byte boundary.\<close>

lemma quad_splits:
  fixes x0 x1 x2 x3 :: nat
  shows "x0 + 256 * x1 + 65536 * x2 + 16777216 * x3 = x0 + 256 * (x1 + 256 * x2 + 65536 * x3)"
    "x0 + 256 * x1 + 65536 * x2 + 16777216 * x3 = (x0 + 256 * x1) + 65536 * (x2 + 256 * x3)"
    "x0 + 256 * x1 + 65536 * x2 + 16777216 * x3 = (x0 + 256 * x1 + 65536 * x2) + 16777216 * x3"
  by simp_all

lemma quad_low:
  "quad b0 b1 b2 b3 AND 0xffffff = quad b0 b1 b2 0" "quad b0 b1 b2 b3 AND 0xffff = quad b0 b1 0 0"
  "quad b0 b1 b2 b3 AND 0xff = quad b0 0 0 0"
proof -
  note lt = unat_u8_less [of b0] unat_u8_less [of b1] unat_u8_less [of b2]
  show "quad b0 b1 b2 b3 AND 0xffffff = quad b0 b1 b2 0"
    unfolding word_unat_eq_iff and_low_mask unat_quad
    by (subst quad_splits(3), subst split_low(1)) (use lt in auto)
  show "quad b0 b1 b2 b3 AND 0xffff = quad b0 b1 0 0"
    unfolding word_unat_eq_iff and_low_mask unat_quad
    by (subst quad_splits(2), subst split_low(1)) (use lt in auto)
  show "quad b0 b1 b2 b3 AND 0xff = quad b0 0 0 0"
    unfolding word_unat_eq_iff and_low_mask unat_quad
    by (subst quad_splits(1), subst split_low(1)) (use lt in auto)
qed

lemma quad_high:
  "quad b0 b1 b2 b3 AND 0xffffff00 = quad 0 b1 b2 b3" "quad b0 b1 b2 b3 AND 0xffff0000 = quad 0 0 b2 b3"
  "quad b0 b1 b2 b3 AND 0xff000000 = quad 0 0 0 b3"
proof -
  have m: "(0xffffff00 :: u32) = NOT (mask 8)" "(0xffff0000 :: u32) = NOT (mask 16)"
    "(0xff000000 :: u32) = NOT (mask 24)"
    by (simp_all add: mask_eq_exp_minus_1)
  have p: "(2 :: nat) ^ 8 = 256" "(2 :: nat) ^ 16 = 65536" "(2 :: nat) ^ 24 = 16777216" by simp_all
  note lt = unat_u8_less [of b0] unat_u8_less [of b1] unat_u8_less [of b2]
  show "quad b0 b1 b2 b3 AND 0xffffff00 = quad 0 b1 b2 b3"
    unfolding m word_unat_eq_iff and_high_mask unat_quad p
    by (subst quad_splits(1), subst split_low(2)) (use lt in auto)
  show "quad b0 b1 b2 b3 AND 0xffff0000 = quad 0 0 b2 b3"
    unfolding m word_unat_eq_iff and_high_mask unat_quad p
    by (subst quad_splits(2), subst split_low(2)) (use lt in auto)
  show "quad b0 b1 b2 b3 AND 0xff000000 = quad 0 0 0 b3"
    unfolding m word_unat_eq_iff and_high_mask unat_quad p
    by (subst quad_splits(3), subst split_low(2)) (use lt in auto)
qed

lemma rd_quad:
  "rd32 m a = quad (m a) (m (a + 1)) (m (a + 2)) (m (a + 3))"
  "rd32_be m a = quad (m (a + 3)) (m (a + 2)) (m (a + 1)) (m a)"
  by (simp_all add: rd32_def rd32_be_def quad_def)

lemma rd16_quad: "rd16 m a = quad (m a) (m (a + 1)) 0 0"
  "rd16 m a + push_bit 16 (rd16 m (a + 2)) = quad (m a) (m (a + 1)) (m (a + 2)) (m (a + 3))"
  by (simp_all add: rd16_def quad_def push_bit_add add.assoc numeral_3_eq_3)

section \<open>The branches compute the same\<close>

lemmas offset_del = One_nat_def add_2_eq_Suc add_2_eq_Suc'

lemma jh_loops_same:
  "jh32_loop m k len s = jh8_loop m k len s" "jh16_loop m k len s = jh8_loop m k len s"
  "jhb32_loop m k len s = jhb8_loop m k len s"
proof -
  show "jh32_loop m k len s = jh8_loop m k len s"
  proof (induction m k len s rule: jh32_loop.induct)
    case (1 m k len a b c)
    then show ?case
      by (simp add: jh32_loop.simps [of m k len] jh8_loop.simps [of m k len] rd32_def add.assoc del: offset_del)
  qed
  show "jh16_loop m k len s = jh8_loop m k len s"
  proof (induction m k len s rule: jh16_loop.induct)
    case (1 m k len a b c)
    then show ?case
      by (simp add: jh16_loop.simps [of m k len] jh8_loop.simps [of m k len] rd16_def push_bit_add add.assoc
          del: offset_del)
  qed
  show "jhb32_loop m k len s = jhb8_loop m k len s"
  proof (induction m k len s rule: jhb32_loop.induct)
    case (1 m k len a b c)
    then show ?case
      by (simp add: jhb32_loop.simps [of m k len] jhb8_loop.simps [of m k len] rd32_be_def add.assoc
          del: offset_del)
  qed
qed

lemma le_12_cases:
  "len \<le> 12 \<Longrightarrow> len = 0 \<or> len = 1 \<or> len = 2 \<or> len = 3 \<or> len = 4 \<or> len = 5 \<or> len = 6 \<or> len = 7 \<or>
   len = 8 \<or> len = 9 \<or> len = 10 \<or> len = 11 \<or> len = (12 :: nat)"
  by presburger

lemma jh_last_same:
  assumes "len \<le> 12"
  shows "jh32_last m k len s = jh8_last m k len s" "jh16_last m k len s = jh8_last m k len s"
    "jhb32_last m k len s = jhb8_last m k len s"
proof -
  obtain a b c where s: "s = (a, b, c)" by (cases s) auto
  show "jh32_last m k len s = jh8_last m k len s"
    using le_12_cases [OF assms]
    by (elim disjE; hypsubst; simp add: s jh32_last_def jh8_last_def rd_quad quad_low del: offset_del;
        simp add: quad_def ac_simps del: offset_del)
  show "jh16_last m k len s = jh8_last m k len s"
    using le_12_cases [OF assms]
    by (elim disjE; hypsubst; simp add: s jh16_last_def jh8_last_def rd16_def push_bit_add ac_simps del: offset_del)
  show "jhb32_last m k len s = jhb8_last m k len s"
    using le_12_cases [OF assms]
    by (elim disjE; hypsubst; simp add: s jhb32_last_def jhb8_last_def rd_quad quad_high del: offset_del;
        simp add: quad_def ac_simps del: offset_del)
qed

section \<open>The hash is a function of the bytes of the key\<close>

definition jh8_hash :: "mem \<Rightarrow> nat \<Rightarrow> nat \<Rightarrow> jstate \<Rightarrow> u32" where
  "jh8_hash m k len s = (let (k, len, s) = jh8_loop m k len s in jh_finish len s (jh8_last m k len s))"

definition jhb8_hash :: "mem \<Rightarrow> nat \<Rightarrow> nat \<Rightarrow> jstate \<Rightarrow> u32" where
  "jhb8_hash m k len s = (let (k, len, s) = jhb8_loop m k len s in jh_finish len s (jhb8_last m k len s))"

lemma jh_loop_le:
  "jh8_loop m k len s = (k', len', s') \<Longrightarrow> len' \<le> 12" "jhb8_loop m k len s = (k', len', s') \<Longrightarrow> len' \<le> 12"
proof -
  show "jh8_loop m k len s = (k', len', s') \<Longrightarrow> len' \<le> 12"
  proof (induction m k len s rule: jh8_loop.induct)
    case (1 m k len a b c)
    then show ?case by (simp add: jh8_loop.simps [of m k len] split: if_splits)
  qed
  show "jhb8_loop m k len s = (k', len', s') \<Longrightarrow> len' \<le> 12"
  proof (induction m k len s rule: jhb8_loop.induct)
    case (1 m k len a b c)
    then show ?case by (simp add: jhb8_loop.simps [of m k len] split: if_splits)
  qed
qed

lemma jenkins_hash_jh8:
  "jenkins_hash m key n = jh8_hash m key n (0xdeadbeef + of_nat n, 0xdeadbeef + of_nat n, 0xdeadbeef + of_nat n)"
  "jenkins_hash_big m key n = jhb8_hash m key n (0xdeadbeef + of_nat n, 0xdeadbeef + of_nat n, 0xdeadbeef + of_nat n)"
  unfolding jenkins_hash_def jenkins_hash_big_def jh8_hash_def jhb8_hash_def Let_def jh_loops_same
  by (auto simp: jh_last_same dest: jh_loop_le split: prod.split)

lemma jh8_hash_rec:
  "jh8_hash m k len (a, b, c) =
     (if len > 12 then jh8_hash m (k + 12) (len - 12)
        (mix (a + quad (m k) (m (k + 1)) (m (k + 2)) (m (k + 3)),
              b + quad (m (k + 4)) (m (k + 5)) (m (k + 6)) (m (k + 7)),
              c + quad (m (k + 8)) (m (k + 9)) (m (k + 10)) (m (k + 11))))
      else jh_finish len (a, b, c) (jh8_last m k len (a, b, c)))"
  by (simp add: jh8_hash_def jh8_loop.simps [of m k len] quad_def add.assoc)

lemma jhb8_hash_rec:
  "jhb8_hash m k len (a, b, c) =
     (if len > 12 then jhb8_hash m (k + 12) (len - 12)
        (mix (a + quad (m (k + 3)) (m (k + 2)) (m (k + 1)) (m k),
              b + quad (m (k + 7)) (m (k + 6)) (m (k + 5)) (m (k + 4)),
              c + quad (m (k + 11)) (m (k + 10)) (m (k + 9)) (m (k + 8))))
      else jh_finish len (a, b, c) (jhb8_last m k len (a, b, c)))"
  by (simp add: jhb8_hash_def jhb8_loop.simps [of m k len] quad_def ac_simps)

definition same_bytes :: "nat \<Rightarrow> mem \<Rightarrow> nat \<Rightarrow> mem \<Rightarrow> nat \<Rightarrow> bool" where
  "same_bytes n m a m' a' = (\<forall>i < n. m (a + i) = m' (a' + i))"

lemma same_bytes_read: "same_bytes n m a m' a' \<longleftrightarrow> mem_read m a n = mem_read m' a' n"
  by (auto simp: same_bytes_def list_eq_iff_nth_eq)

lemma same_bytesD: "same_bytes n m a m' a' \<Longrightarrow> i < n \<Longrightarrow> m (a + i) = m' (a' + i)"
  by (simp add: same_bytes_def)

lemma same_bytes_0: "same_bytes n m a m' a' \<Longrightarrow> 0 < n \<Longrightarrow> m a = m' a'"
  using same_bytesD [of n m a m' a' 0] by simp

lemma same_bytes_skip: "same_bytes n m a m' a' \<Longrightarrow> same_bytes (n - j) m (a + j) m' (a' + j)"
  by (auto simp: same_bytes_def add.assoc)

lemma jh8_last_cong:
  assumes "same_bytes len m k m' k'"
  shows "jh8_last m k len s = jh8_last m' k' len s" "jhb8_last m k len s = jhb8_last m' k' len s"
  unfolding jh8_last_def jhb8_last_def Let_def
  by (simp_all add: same_bytesD [OF assms] same_bytes_0 [OF assms] cong: if_cong split: prod.split del: offset_del)

lemma jh8_hash_cong: "same_bytes len m k m' k' \<Longrightarrow> jh8_hash m k len s = jh8_hash m' k' len s"
proof (induction len arbitrary: k k' s rule: less_induct)
  case (less len)
  obtain a b c where s: "s = (a, b, c)" by (cases s) auto
  note eq = same_bytesD [OF less.prems] same_bytes_0 [OF less.prems]
  show ?case
    unfolding s jh8_hash_rec [of m k] jh8_hash_rec [of m' k']
    using less.IH [of "len - 12", OF _ same_bytes_skip [OF less.prems]]
    by (simp add: eq jh8_last_cong [OF less.prems] del: offset_del)
qed

lemma jhb8_hash_cong: "same_bytes len m k m' k' \<Longrightarrow> jhb8_hash m k len s = jhb8_hash m' k' len s"
proof (induction len arbitrary: k k' s rule: less_induct)
  case (less len)
  obtain a b c where s: "s = (a, b, c)" by (cases s) auto
  note eq = same_bytesD [OF less.prems] same_bytes_0 [OF less.prems]
  show ?case
    unfolding s jhb8_hash_rec [of m k] jhb8_hash_rec [of m' k']
    using less.IH [of "len - 12", OF _ same_bytes_skip [OF less.prems]]
    by (simp add: eq jh8_last_cong [OF less.prems] del: offset_del)
qed

lemma murmur_body_cong:
  "same_bytes (n * 4) m k m' k' \<Longrightarrow> murmur_body m k n h = murmur_body m' k' n h"
proof (induction n arbitrary: k k' h)
  case (Suc n)
  note eq = same_bytesD [OF Suc.prems] same_bytes_0 [OF Suc.prems]
  have "rd32 m k = rd32 m' k'" by (simp add: rd32_def eq del: offset_del)
  then show ?case using Suc.IH [of "k + 4" "k' + 4"] same_bytes_skip [OF Suc.prems, of 4] by simp
qed simp

lemma murmur_tail_cong: "same_bytes n m k m' k' \<Longrightarrow> murmur_tail m k n h = murmur_tail m' k' n h"
  by (simp add: murmur_tail_def same_bytesD same_bytes_0 Let_def cong: if_cong del: offset_del)

lemma MurmurHash3_cong:
  assumes "same_bytes n m k m' k'"
  shows "MurmurHash3_x86_32 m k n = MurmurHash3_x86_32 m' k' n"
proof -
  have "same_bytes (n div 4 * 4) m k m' k'" using assms by (auto simp: same_bytes_def)
  moreover have "same_bytes (n mod 4) m (k + n div 4 * 4) m' (k' + n div 4 * 4)"
    using same_bytes_skip [OF assms, of "n div 4 * 4"] by (simp add: minus_div_mult_eq_mod)
  ultimately show ?thesis
    by (simp add: MurmurHash3_x86_32_def murmur_body_cong [of "n div 4" m k m' k'] murmur_tail_cong [of "n mod 4"])
qed

section \<open>The mixing step loses nothing\<close>

text \<open>
  The six lines of the macro are one step, with the roles of the three words rotated. Each step can
  be undone, so the whole can.
\<close>

definition mstep :: "nat \<Rightarrow> jstate \<Rightarrow> jstate" where
  "mstep r s = (case s of (x, y, z) \<Rightarrow> (z, (x - y) XOR rot y r, y + z))"

lemma mstep_inj: "inj (mstep r)"
proof (rule injI)
  fix s s' :: jstate
  obtain x y z x' y' z' where s: "s = (x, y, z)" "s' = (x', y', z')" by (cases s, cases s') auto
  assume "mstep r s = mstep r s'"
  then have "z = z'" "y = y'" and e: "(x - y) XOR rot y r = (x' - y) XOR rot y r" by (auto simp: s mstep_def)
  from e have "((x - y) XOR rot y r) XOR rot y r = ((x' - y) XOR rot y r) XOR rot y r" by (rule arg_cong)
  then have "x = x'" by (simp add: xor.assoc)
  with \<open>z = z'\<close> \<open>y = y'\<close> show "s = s'" by (simp add: s)
qed

lemma mix_steps:
  "mix (a, b, c) =
     (case mstep 4 (mstep 19 (mstep 16 (mstep 8 (mstep 6 (mstep 4 (a, c, b)))))) of (x, z, y) \<Rightarrow> (x, y, z))"
  by (simp only: mix_def mstep_def Let_def prod.case)

section \<open>Properties\<close>

text \<open>
  C32. The Jenkins hash is a function of the key's bytes alone: whatever the alignment of the address
  (word, half-word or byte reads) and whatever follows the key in memory (the word reads of the last
  block cover bytes behind it, which are masked off), two keys with the same bytes hash to the same
  value. The big-endian version has the same property.
\<close>

theorem jenkins_hash_bytes:
  assumes "mem_read m key n = mem_read m' key' n"
  shows "jenkins_hash m key n = jenkins_hash m' key' n \<and> jenkins_hash_big m key n = jenkins_hash_big m' key' n"
  using assms by (simp add: jenkins_hash_jh8 jh8_hash_cong jhb8_hash_cong flip: same_bytes_read)

theorem jenkins_hash_bytes_witness:
  "jenkins_hash (\<lambda>i. of_nat i) 4 13 = jenkins_hash (\<lambda>i. of_nat (i + 1)) 3 13"
  using jenkins_hash_bytes [of "\<lambda>i. of_nat i" 4 13 "\<lambda>i. of_nat (i + 1)" 3]
  by (simp add: mem_read_def upt_rec)

text \<open>
  The mixing step of the Jenkins hash is reversible: no two internal states are mapped to the same
  one, so nothing of the blocks already absorbed is lost.
\<close>

theorem mix_reversible: "inj mix"
proof (rule injI)
  fix s s' :: jstate
  obtain a b c a' b' c' where s: "s = (a, b, c)" "s' = (a', b', c')" by (cases s, cases s') auto
  assume "mix s = mix s'"
  then have "mstep 4 (mstep 19 (mstep 16 (mstep 8 (mstep 6 (mstep 4 (a, c, b)))))) =
      mstep 4 (mstep 19 (mstep 16 (mstep 8 (mstep 6 (mstep 4 (a', c', b'))))))"
    unfolding s mix_steps by (auto split: prod.splits)
  then have "(a, c, b) = (a', c', b')" by (simp only: inj_eq [OF mstep_inj])
  then show "s = s'" by (simp add: s)
qed

text \<open>
  MurmurHash3 is a function of the key's bytes alone, and so is every hash function that
  \<open>hash_init\<close> installs.
\<close>

theorem hash_init_bytes:
  assumes "hash_init ty = Some (hash, name)" and "mem_read m key n = mem_read m' key' n"
  shows "hash m key n = hash m' key' n"
  using assms(1)
proof (cases ty)
  case MURMUR3_HASH
  with assms show ?thesis by (auto simp flip: same_bytes_read intro: MurmurHash3_cong)
next
  case JENKINS_HASH
  with assms show ?thesis by (auto simp: jenkins_hash_jh8 jh8_hash_cong simp flip: same_bytes_read)
qed simp

theorem hash_init_bytes_witness:
  "MurmurHash3_x86_32 (\<lambda>i. of_nat i) 4 7 = MurmurHash3_x86_32 (\<lambda>i. of_nat (i + 1)) 3 7"
  using hash_init_bytes [of MURMUR3_HASH MurmurHash3_x86_32 "''murmur3''" "\<lambda>i. of_nat i" 4 7 "\<lambda>i. of_nat (i + 1)" 3]
  by (simp add: mem_read_def upt_rec)

end
