(* ===== verification/Item.thy ===== *)
theory Item
  imports Prelude
begin

unbundle bit_operations_syntax

text \<open>
  The items of memcached (\<open>memcached.h\<close>) as objects of an explicit store, because the hash chains, the
  free lists and the LRU queues all link the same objects through pointer fields. An address is a
  number, \<open>NULL\<close> is \<open>0\<close>. The variable part behind the header (CAS value, key, client flags, data) is
  kept in fields of its own; the length of \<open>key\<close> is the header field \<open>nkey\<close>.

  The second half of the theory gives the shape of singly and doubly linked lists in the store.
\<close>

type_synonym addr = nat

abbreviation (input) NULL :: addr where "NULL \<equiv> 0"

record item =
  "next" :: addr
  prev :: addr
  h_next :: addr
  time :: u32
  exptime :: u32
  nbytes :: int
  refcount :: u16
  it_flags :: u16
  slabs_clsid :: byte
  cas :: u64
  key :: "byte list"
  cflags :: u32
  it_data :: "byte list"
  ch_size :: int
  ch_used :: int
  orig_clsid :: byte

text \<open>
  A chunk of a large item (\<open>item_chunk\<close>) begins like an item: its \<open>next\<close>, \<open>prev\<close>, \<open>it_flags\<close> and \<open>slabs_clsid\<close> are
  the same fields, its \<open>head\<close> is the field \<open>h_next\<close>; its \<open>size\<close>, \<open>used\<close> and \<open>orig_clsid\<close> are the last three.
\<close>

type_synonym heap = "addr \<Rightarrow> item"

section \<open>Flags\<close>

abbreviation (input) ITEM_LINKED :: u16 where "ITEM_LINKED \<equiv> 1"
abbreviation (input) ITEM_CAS :: u16 where "ITEM_CAS \<equiv> 2"
abbreviation (input) ITEM_SLABBED :: u16 where "ITEM_SLABBED \<equiv> 4"
abbreviation (input) ITEM_FETCHED :: u16 where "ITEM_FETCHED \<equiv> 8"
abbreviation (input) ITEM_ACTIVE :: u16 where "ITEM_ACTIVE \<equiv> 16"
abbreviation (input) ITEM_CHUNKED :: u16 where "ITEM_CHUNKED \<equiv> 32"
abbreviation (input) ITEM_CHUNK :: u16 where "ITEM_CHUNK \<equiv> 64"
abbreviation (input) ITEM_CFLAGS :: u16 where "ITEM_CFLAGS \<equiv> 256"
abbreviation (input) ITEM_TOKEN_SENT :: u16 where "ITEM_TOKEN_SENT \<equiv> 512"
abbreviation (input) ITEM_STALE :: u16 where "ITEM_STALE \<equiv> 2048"

text \<open>\<open>it->it_flags & f\<close> as a condition, \<open>it->it_flags |= f\<close> and \<open>it->it_flags &= ~f\<close>.\<close>

definition has_flag :: "item \<Rightarrow> u16 \<Rightarrow> bool" where
  "has_flag it f = (it_flags it AND f \<noteq> 0)"

definition set_flag :: "u16 \<Rightarrow> item \<Rightarrow> item" where
  "set_flag f it = it\<lparr>it_flags := it_flags it OR f\<rparr>"

definition clear_flag :: "u16 \<Rightarrow> item \<Rightarrow> item" where
  "clear_flag f it = it\<lparr>it_flags := it_flags it AND NOT f\<rparr>"

definition ITEM_get_cas :: "item \<Rightarrow> u64" where
  "ITEM_get_cas it = (if has_flag it ITEM_CAS then cas it else 0)"

definition ITEM_set_cas :: "u64 \<Rightarrow> item \<Rightarrow> item" where
  "ITEM_set_cas v it = (if has_flag it ITEM_CAS then it\<lparr>cas := v\<rparr> else it)"

text \<open>\<open>sizeof(struct _stritem)\<close> is 48 on the 64-bit targets of the release.\<close>

definition sizeof_item :: nat where
  "sizeof_item = 48"

definition ITEM_ntotal :: "item \<Rightarrow> u64" where
  "ITEM_ntotal it =
     of_nat sizeof_item + of_nat (length (key it)) + 1 + of_int (nbytes it) +
     (if has_flag it ITEM_CFLAGS then 4 else 0) + (if has_flag it ITEM_CAS then 8 else 0)"

definition ITEM_clsid :: "item \<Rightarrow> byte" where
  "ITEM_clsid it = slabs_clsid it AND NOT 192"

definition ITEM_lruid :: "item \<Rightarrow> byte" where
  "ITEM_lruid it = slabs_clsid it AND 192"

definition FLAGS_CONV :: "item \<Rightarrow> u32" where
  "FLAGS_CONV it = (if has_flag it ITEM_CFLAGS then cflags it else 0)"

text \<open>The address of the chunk header inside the header object of a chunked item (\<open>ITEM_schunk\<close>).\<close>

definition ITEM_schunk :: "heap \<Rightarrow> addr \<Rightarrow> addr" where
  "ITEM_schunk h a =
     a + sizeof_item + length (key (h a)) + 1 + (if has_flag (h a) ITEM_CFLAGS then 4 else 0) +
     (if has_flag (h a) ITEM_CAS then 8 else 0)"

section \<open>Updates of the store\<close>

text \<open>\<open>it->f = v\<close> for the object at an address.\<close>

definition upd :: "addr \<Rightarrow> (item \<Rightarrow> item) \<Rightarrow> heap \<Rightarrow> heap" where
  "upd a f h = h(a := f (h a))"

lemma upd_apply: "upd a f h x = (if x = a then f (h a) else h x)"
  by (simp add: upd_def)

section \<open>Chains\<close>

text \<open>\<open>chain nx p xs\<close>: following \<open>nx\<close> from \<open>p\<close> visits exactly the objects \<open>xs\<close> and ends in \<open>NULL\<close>.\<close>

fun chain :: "(addr \<Rightarrow> addr) \<Rightarrow> addr \<Rightarrow> addr list \<Rightarrow> bool" where
  "chain nx p [] = (p = NULL)"
| "chain nx p (x # xs) = (p = x \<and> x \<noteq> NULL \<and> chain nx (nx x) xs)"

lemma chain_NULL [simp]: "chain nx 0 xs \<longleftrightarrow> xs = []"
  by (cases xs) auto

lemma chain_unique: "chain nx p xs \<Longrightarrow> chain nx p ys \<Longrightarrow> xs = ys"
proof (induction xs arbitrary: p ys)
  case (Cons x xs)
  then show ?case by (cases ys) auto
qed (cases, auto)

lemma chain_cong: "(\<And>x. x \<in> set xs \<Longrightarrow> nx x = nx' x) \<Longrightarrow> chain nx p xs \<longleftrightarrow> chain nx' p xs"
  by (induction xs arbitrary: p) auto

lemma chain_upd [simp]: "a \<notin> set xs \<Longrightarrow> chain (nx(a := v)) p xs \<longleftrightarrow> chain nx p xs"
  by (induction xs arbitrary: p) auto

lemma chain_nonnull: "chain nx p xs \<Longrightarrow> 0 \<notin> set xs"
  by (induction xs arbitrary: p) auto

lemma chain_suffix: "chain nx p (xs @ ys) \<Longrightarrow> \<exists>q. chain nx q ys"
  by (induction xs arbitrary: p) auto

lemma chain_from: "chain nx p (xs @ x # ys) \<Longrightarrow> chain nx x (x # ys)"
  by (induction xs arbitrary: p) auto

text \<open>A chain has no cycle: from a repeated object both tails would be the same chain.\<close>

lemma chain_distinct: "chain nx p xs \<Longrightarrow> distinct xs"
proof (induction xs arbitrary: p)
  case (Cons x xs)
  then have "distinct xs" by auto
  moreover have "x \<notin> set xs"
  proof
    assume "x \<in> set xs"
    then obtain us vs where "xs = us @ x # vs" by (auto simp: in_set_conv_decomp)
    with Cons.prems have "chain nx x (x # us @ x # vs)" "chain nx x (x # vs)"
      using chain_from [of nx p "x # us" x vs] by auto
    then show False by (auto dest: chain_unique)
  qed
  ultimately show ?case by simp
qed simp

lemma chain_head: "chain nx p xs \<Longrightarrow> p = (if xs = [] then NULL else hd xs)"
  by (cases xs) auto

text \<open>Removing an object by redirecting the pointer of its predecessor.\<close>

lemma chain_remove:
  assumes "chain nx p (xs @ x # y # ys)"
  shows "chain (nx(x := nx y)) p (xs @ x # ys)"
  using assms chain_distinct [OF assms]
proof (induction xs arbitrary: p)
  case Nil
  then have "chain nx (nx y) ys" by auto
  then have "chain (nx(x := nx y)) (nx y) ys" using Nil(2) by auto
  then show ?case using Nil by (simp add: fun_upd_def)
next
  case (Cons z zs)
  then show ?case by auto
qed

section \<open>Doubly linked lists\<close>

text \<open>
  \<open>dseg nx pv q p xs r t\<close>: from \<open>p\<close> the objects \<open>xs\<close> are linked forward by \<open>nx\<close> and backward by \<open>pv\<close>;
  the first one points back to \<open>q\<close>, the last one, \<open>t\<close>, points on to \<open>r\<close>. A list is a segment between
  two \<open>NULL\<close> pointers.
\<close>

fun dseg :: "(addr \<Rightarrow> addr) \<Rightarrow> (addr \<Rightarrow> addr) \<Rightarrow> addr \<Rightarrow> addr \<Rightarrow> addr list \<Rightarrow> addr \<Rightarrow> addr \<Rightarrow> bool" where
  "dseg nx pv q p [] r t = (p = r \<and> t = q)"
| "dseg nx pv q p (x # xs) r t = (p = x \<and> x \<noteq> NULL \<and> pv x = q \<and> dseg nx pv x (nx x) xs r t)"

abbreviation dll :: "(addr \<Rightarrow> addr) \<Rightarrow> (addr \<Rightarrow> addr) \<Rightarrow> addr \<Rightarrow> addr list \<Rightarrow> addr \<Rightarrow> bool" where
  "dll nx pv p xs t \<equiv> dseg nx pv NULL p xs NULL t"

lemma dseg_append:
  "dseg nx pv q p (xs @ ys) r t \<longleftrightarrow> (\<exists>m l. dseg nx pv q p xs m l \<and> dseg nx pv l m ys r t)"
  by (induction xs arbitrary: q p) auto

lemma dseg_chain: "dseg nx pv q p xs 0 t \<Longrightarrow> chain nx p xs"
  by (induction xs arbitrary: q p) auto

lemmas dll_distinct = dseg_chain [THEN chain_distinct]
lemmas dll_nonnull = dseg_chain [THEN chain_nonnull]
lemmas dll_head = dseg_chain [THEN chain_head]

lemma dseg_cong:
  "(\<And>x. x \<in> set xs \<Longrightarrow> nx x = nx' x) \<Longrightarrow> (\<And>x. x \<in> set xs \<Longrightarrow> pv x = pv' x) \<Longrightarrow>
   dseg nx pv q p xs r t \<longleftrightarrow> dseg nx' pv' q p xs r t"
  by (induction xs arbitrary: q p) auto

lemma dseg_upd_nx [simp]: "a \<notin> set xs \<Longrightarrow> dseg (nx(a := v)) pv q p xs r t \<longleftrightarrow> dseg nx pv q p xs r t"
  by (induction xs arbitrary: q p) auto

lemma dseg_upd_pv [simp]: "a \<notin> set xs \<Longrightarrow> dseg nx (pv(a := v)) q p xs r t \<longleftrightarrow> dseg nx pv q p xs r t"
  by (induction xs arbitrary: q p) auto

lemma dseg_last: "dseg nx pv q p xs r t \<Longrightarrow> t = (if xs = [] then q else last xs)"
  by (induction xs arbitrary: q p) auto

text \<open>Redirecting the pointer out of a segment, and the one back from it.\<close>

lemma dseg_exit:
  "dseg nx pv q p xs r t \<Longrightarrow> xs \<noteq> [] \<Longrightarrow> distinct xs \<Longrightarrow> dseg (nx(t := r')) pv q p xs r' t"
proof (induction xs arbitrary: q p)
  case (Cons x xs)
  show ?case
  proof (cases "xs = []")
    case False
    then have "t \<noteq> x" using Cons.prems dseg_last [of nx pv x "nx x" xs r t] by (auto simp: last_in_set)
    then show ?thesis using Cons False by auto
  qed (use Cons.prems in auto)
qed simp

lemma dseg_entry:
  "dseg nx pv q p (y # ys) r t \<Longrightarrow> distinct (y # ys) \<Longrightarrow> dseg nx (pv(y := q')) q' p (y # ys) r t"
  by auto

text \<open>What the code does to unlink one object, and to push one in front.\<close>

lemma dll_unlink:
  assumes "dll nx pv p (xs @ y # ys) t"
  shows "dll (if pv y = 0 then nx else nx(pv y := nx y)) (if nx y = 0 then pv else pv(nx y := pv y))
     (if p = y then nx y else p) (xs @ ys) (if t = y then pv y else t)"
proof -
  have d: "distinct (xs @ y # ys)" using dll_distinct [OF assms] .
  from assms obtain m l where s1: "dseg nx pv 0 p xs y l" and l: "pv y = l" and y: "y \<noteq> 0"
    and s2: "dseg nx pv y (nx y) ys 0 t"
    by (auto simp: dseg_append)
  let ?nx = "if l = 0 then nx else nx(l := nx y)"
  let ?pv = "if nx y = 0 then pv else pv(nx y := l)"
  have l0: "l = (if xs = [] then 0 else last xs)" using dseg_last [OF s1] .
  have n0: "nx y = (if ys = [] then 0 else hd ys)" using s2 by (cases ys) auto
  have nz: "0 \<notin> set xs" "0 \<notin> set ys" using dll_nonnull [OF assms] by auto
  have out: "l \<notin> set ys" "xs \<noteq> [] \<Longrightarrow> l \<in> set xs" "nx y \<notin> set xs" "ys \<noteq> [] \<Longrightarrow> nx y \<in> set ys"
    using d nz by (auto simp: l0 n0 dest: last_in_set hd_in_set split: if_splits)
  have "dseg ?nx ?pv 0 (if xs = [] then nx y else p) xs (nx y) l"
  proof (cases "xs = []")
    case False
    have "dseg (nx(l := nx y)) pv 0 p xs (nx y) l" using dseg_exit [OF s1 False] d by simp
    moreover have "l \<noteq> 0" using out(2) [OF False] nz by metis
    ultimately show ?thesis
      using False out by auto
  qed (simp add: l0)
  moreover have "dseg ?nx ?pv l (nx y) ys 0 (if ys = [] then l else t)"
  proof (cases ys)
    case (Cons z zs)
    have "dseg nx (pv(z := l)) l z (z # zs) 0 t" using dseg_entry [of nx pv y z z zs] s2 d Cons by simp
    then have "dseg nx ?pv l (nx y) ys 0 t" using Cons n0 nz by simp
    then show ?thesis using out Cons by auto
  qed (simp add: n0)
  moreover have "(if p = y then nx y else p) = (if xs = [] then nx y else p)"
    using s1 d by (cases xs) auto
  moreover have "(if t = y then pv y else t) = (if ys = [] then l else t)"
    using dseg_last [OF s2] d l by (auto dest: last_in_set)
  ultimately show ?thesis
    unfolding l dseg_append by (simp only:) (intro exI conjI; assumption)
qed

lemma dll_push:
  assumes "dll nx pv p xs t" "x \<noteq> 0" "x \<notin> set xs"
  shows "dll (nx(x := p)) (if p = 0 then pv(x := 0) else pv(x := 0, p := x)) x (x # xs) (if t = 0 then x else t)"
proof (cases xs)
  case Nil
  with assms show ?thesis by auto
next
  case (Cons z zs)
  have d: "distinct xs" using dll_distinct [OF assms(1)] .
  have p: "p = z" "z \<noteq> 0" using assms(1) Cons by auto
  have t: "t \<noteq> 0" using dseg_last [OF assms(1)] dll_nonnull [OF assms(1)] Cons by (metis last_in_set list.discI)
  have "dseg nx (pv(z := x)) x z (z # zs) 0 t" using dseg_entry [of nx pv 0 z z zs 0 t x] assms d Cons by simp
  then have "dseg (nx(x := p)) (pv(x := 0, z := x)) x z xs 0 t"
    using assms(3) Cons by (subst dseg_cong [of xs _ nx _ "pv(z := x)"]) auto
  then show ?thesis using p t assms(2,3) Cons by auto
qed

end
