(* ===== verification/Dict_Spec.thy ===== *)
theory Dict_Spec
  imports Item
begin

text \<open>
  What the rest of memcached relies on of its hash table: a dictionary from keys to items, with
  maintenance work that may happen between any two operations and must not be seen. The clients'
  view of a whole history of operations is derived once, from the laws.
\<close>

datatype 'b dict_op = Insert_item addr | Delete_key "byte list" | Background 'b

text \<open>
  The history as the clients see it: an item may be inserted when it is not in the table and its key
  is not; a key may be deleted when it is there; \<open>None\<close> when a client breaks these rules.
\<close>

fun dict_history :: "(addr \<Rightarrow> byte list) \<Rightarrow> 'b dict_op list \<Rightarrow> (byte list \<rightharpoonup> addr) \<Rightarrow> (byte list \<rightharpoonup> addr) option" where
  "dict_history ky [] M = Some M"
| "dict_history ky (Insert_item it # ops) M =
     (if it = NULL \<or> it \<in> ran M \<or> M (ky it) \<noteq> None then None else dict_history ky ops (M(ky it \<mapsto> it)))"
| "dict_history ky (Delete_key k # ops) M = (if M k = None then None else dict_history ky ops (M(k := None)))"
| "dict_history ky (Background b # ops) M = dict_history ky ops M"

text \<open>The same operations on a concrete table; \<open>None\<close> when one of them does not return.\<close>

fun dict_exec ::
  "(addr \<Rightarrow> 's \<Rightarrow> 's option) \<Rightarrow> (byte list \<Rightarrow> 's \<Rightarrow> 's option) \<Rightarrow> ('b \<Rightarrow> 's \<Rightarrow> 's option) \<Rightarrow>
   'b dict_op list \<Rightarrow> 's \<Rightarrow> 's option" where
  "dict_exec ins del bg [] s = Some s"
| "dict_exec ins del bg (Insert_item it # ops) s = Option.bind (ins it s) (dict_exec ins del bg ops)"
| "dict_exec ins del bg (Delete_key k # ops) s = Option.bind (del k s) (dict_exec ins del bg ops)"
| "dict_exec ins del bg (Background b # ops) s = Option.bind (bg b s) (dict_exec ins del bg ops)"

locale item_dict =
  fixes rep :: "'s \<Rightarrow> (byte list \<rightharpoonup> addr) \<Rightarrow> bool"
    and keys :: "'s \<Rightarrow> addr \<Rightarrow> byte list"
    and lookup :: "'s \<Rightarrow> byte list \<Rightarrow> addr option"
    and ins :: "addr \<Rightarrow> 's \<Rightarrow> 's option"
    and del :: "byte list \<Rightarrow> 's \<Rightarrow> 's option"
    and bg :: "'b \<Rightarrow> 's \<Rightarrow> 's option"
  assumes lookup_law: "rep s M \<Longrightarrow> lookup s k = Some (case M k of None \<Rightarrow> NULL | Some x \<Rightarrow> x)"
    and ins_law: "rep s M \<Longrightarrow> it \<noteq> NULL \<Longrightarrow> it \<notin> ran M \<Longrightarrow> M (keys s it) = None \<Longrightarrow>
      \<exists>s'. ins it s = Some s' \<and> rep s' (M(keys s it \<mapsto> it)) \<and> keys s' = keys s"
    and del_law: "rep s M \<Longrightarrow> M k \<noteq> None \<Longrightarrow> \<exists>s'. del k s = Some s' \<and> rep s' (M(k := None)) \<and> keys s' = keys s"
    and bg_law: "rep s M \<Longrightarrow> \<exists>s'. bg b s = Some s' \<and> rep s' M \<and> keys s' = keys s"
begin

lemma exec_history:
  "rep s M \<Longrightarrow> dict_history (keys s) ops M = Some M' \<Longrightarrow>
   \<exists>s'. dict_exec ins del bg ops s = Some s' \<and> rep s' M' \<and> keys s' = keys s"
proof (induction ops arbitrary: s M)
  case (Cons opn ops)
  show ?case
  proof (cases opn)
    case (Insert_item it)
    then obtain s' where s': "ins it s = Some s'" "rep s' (M(keys s it \<mapsto> it))" "keys s' = keys s"
      using Cons.prems ins_law [of s M it] by (auto split: if_splits)
    have hist: "dict_history (keys s') ops (M(keys s it \<mapsto> it)) = Some M'"
      using Cons.prems Insert_item s'(3) by (auto split: if_splits)
    show ?thesis using Cons.IH [OF s'(2) hist] Insert_item s' by auto
  next
    case (Delete_key k)
    then obtain s' where s': "del k s = Some s'" "rep s' (M(k := None))" "keys s' = keys s"
      using Cons.prems del_law [of s M k] by (auto split: if_splits)
    have hist: "dict_history (keys s') ops (M(k := None)) = Some M'"
      using Cons.prems Delete_key s'(3) by (auto split: if_splits)
    show ?thesis using Cons.IH [OF s'(2) hist] Delete_key s' by auto
  next
    case (Background b)
    then obtain s' where "bg b s = Some s'" "rep s' M" "keys s' = keys s"
      using Cons.prems bg_law [of s M b] by auto
    then show ?thesis using Cons.IH [of s' M] Cons.prems Background by auto
  qed
qed simp

lemma lookup_after:
  assumes "rep s M" "dict_history (keys s) ops M = Some M'"
  shows "\<exists>s'. dict_exec ins del bg ops s = Some s' \<and>
    (\<forall>k. lookup s' k = Some (case M' k of None \<Rightarrow> NULL | Some x \<Rightarrow> x))"
  using exec_history [OF assms] lookup_law by blast

end

end
