(* ===== verification/Assoc.thy ===== *)
theory Assoc
  imports Dict_Spec
begin

unbundle bit_operations_syntax

text \<open>
  The hash table of memcached (\<open>assoc.c\<close>): chains of items, and the expansion that moves one bucket at
  a time into a table of twice the size while lookups, insertions and deletions go on. The hash
  function is the parameter \<open>hash\<close>, a function of the key's bytes, as every function installed by
  \<open>hash_init\<close> is; the callers pass \<open>hv = hash key\<close>. The asserts are those of the debug build and are
  left out.
\<close>

section \<open>The table\<close>

definition HASHPOWER_MAX :: nat where "HASHPOWER_MAX = 32"

definition hashsize :: "nat \<Rightarrow> u32" where
  "hashsize n = push_bit n 1"

definition hashmask :: "nat \<Rightarrow> u32" where
  "hashmask n = hashsize n - 1"

record assoc =
  hashpower :: nat
  primary_hashtable :: "u32 \<Rightarrow> addr"
  old_hashtable :: "u32 \<Rightarrow> addr"
  expanding :: bool
  started_expanding :: bool
  expand_bucket :: u32

text \<open>A bucket of one of the two tables, and a place that holds an item pointer (\<open>item **\<close>).\<close>

datatype bucket = Primary u32 | Old u32

datatype position = Bucket bucket | HNext addr

definition bucket_head :: "assoc \<Rightarrow> bucket \<Rightarrow> addr" where
  "bucket_head s b = (case b of Primary i \<Rightarrow> primary_hashtable s i | Old i \<Rightarrow> old_hashtable s i)"

definition set_bucket :: "bucket \<Rightarrow> addr \<Rightarrow> assoc \<Rightarrow> assoc" where
  "set_bucket b a s = (case b of
       Primary i \<Rightarrow> s\<lparr>primary_hashtable := (primary_hashtable s)(i := a)\<rparr>
     | Old i \<Rightarrow> s\<lparr>old_hashtable := (old_hashtable s)(i := a)\<rparr>)"

text \<open>The choice made at the start of \<open>assoc_find\<close>, \<open>_hashitem_before\<close> and \<open>assoc_insert\<close>.\<close>

definition bucket_of :: "assoc \<Rightarrow> u32 \<Rightarrow> bucket" where
  "bucket_of s hv =
     (if expanding s \<and> (hv AND hashmask (hashpower s - 1)) \<ge> expand_bucket s
      then Old (hv AND hashmask (hashpower s - 1))
      else Primary (hv AND hashmask (hashpower s)))"

section \<open>Operations\<close>

text \<open>\<open>calloc_ok\<close>: the allocation of the table succeeded; on failure the server exits.\<close>

definition assoc_init :: "nat \<Rightarrow> bool \<Rightarrow> assoc option" where
  "assoc_init hashtable_init calloc_ok =
     (let hp = (if hashtable_init \<noteq> 0 then hashtable_init else 16) in
      if calloc_ok then Some \<lparr>hashpower = hp, primary_hashtable = (\<lambda>_. NULL), old_hashtable = (\<lambda>_. NULL),
          expanding = False, started_expanding = False, expand_bucket = 0\<rparr>
      else None)"

text \<open>The walk along a chain, \<open>None\<close> when it does not end.\<close>

partial_function (option) find_loop :: "heap \<Rightarrow> byte list \<Rightarrow> addr \<Rightarrow> addr option" where
  [code]: "find_loop h k it =
     (if it = NULL then Some NULL
      else if k = key (h it) then Some it
      else find_loop h k (h_next (h it)))"

definition assoc_find :: "heap \<Rightarrow> assoc \<Rightarrow> byte list \<Rightarrow> u32 \<Rightarrow> addr option" where
  "assoc_find h s k hv = find_loop h k (bucket_head s (bucket_of s hv))"

definition deref :: "heap \<Rightarrow> assoc \<Rightarrow> position \<Rightarrow> addr" where
  "deref h s pos = (case pos of Bucket b \<Rightarrow> bucket_head s b | HNext a \<Rightarrow> h_next (h a))"

partial_function (option) before_loop :: "heap \<Rightarrow> assoc \<Rightarrow> byte list \<Rightarrow> position \<Rightarrow> position option" where
  [code]: "before_loop h s k pos =
     (if deref h s pos \<noteq> NULL \<and> k \<noteq> key (h (deref h s pos))
      then before_loop h s k (HNext (deref h s pos))
      else Some pos)"

definition hashitem_before :: "heap \<Rightarrow> assoc \<Rightarrow> byte list \<Rightarrow> u32 \<Rightarrow> position option" where
  "hashitem_before h s k hv = before_loop h s k (Bucket (bucket_of s hv))"

definition assoc_insert :: "addr \<Rightarrow> u32 \<Rightarrow> heap \<times> assoc \<Rightarrow> heap \<times> assoc" where
  "assoc_insert it hv hs =
     (let (h, s) = hs; b = bucket_of s hv
      in (upd it (\<lambda>i. i\<lparr>h_next := bucket_head s b\<rparr>) h, set_bucket b it s))"

definition set_position :: "position \<Rightarrow> addr \<Rightarrow> heap \<times> assoc \<Rightarrow> heap \<times> assoc" where
  "set_position pos a hs = (case pos of
       Bucket b \<Rightarrow> (fst hs, set_bucket b a (snd hs))
     | HNext x \<Rightarrow> (upd x (\<lambda>i. i\<lparr>h_next := a\<rparr>) (fst hs), snd hs))"

definition assoc_delete :: "byte list \<Rightarrow> u32 \<Rightarrow> heap \<times> assoc \<Rightarrow> (heap \<times> assoc) option" where
  "assoc_delete k hv hs =
     (let (h, s) = hs in
      case hashitem_before h s k hv of
        None \<Rightarrow> None
      | Some before \<Rightarrow>
          let it = deref h s before in
          if it \<noteq> NULL then
            let nxt = h_next (h it);
                h = upd it (\<lambda>i. i\<lparr>h_next := NULL\<rparr>) h
            in Some (set_position before nxt (h, s))
          else Some (h, s))"

definition assoc_expand :: "bool \<Rightarrow> assoc \<Rightarrow> assoc" where
  "assoc_expand calloc_ok s =
     (if calloc_ok
      then s\<lparr>old_hashtable := primary_hashtable s, primary_hashtable := (\<lambda>_. NULL), hashpower := hashpower s + 1,
             expanding := True, expand_bucket := 0\<rparr>
      else s)"

definition assoc_start_expand :: "u64 \<Rightarrow> assoc \<Rightarrow> assoc" where
  "assoc_start_expand curr_items s =
     (if started_expanding s then s
      else if curr_items > ucast (hashsize (hashpower s) * 3 div 2) \<and> hashpower s < HASHPOWER_MAX
      then s\<lparr>started_expanding := True\<rparr>
      else s)"

subsection \<open>The maintenance thread\<close>

partial_function (option) move_loop ::
  "(byte list \<Rightarrow> u32) \<Rightarrow> u32 \<Rightarrow> addr \<Rightarrow> heap \<times> (u32 \<Rightarrow> addr) \<Rightarrow> (heap \<times> (u32 \<Rightarrow> addr)) option" where
  [code]: "move_loop hash msk it hp =
     (if it = NULL then Some hp
      else let (h, prim) = hp;
               nxt = h_next (h it);
               b = hash (key (h it)) AND msk;
               h = upd it (\<lambda>i. i\<lparr>h_next := prim b\<rparr>) h
           in move_loop hash msk nxt (h, prim(b := it)))"

text \<open>One round of the inner loop: the lock of the bucket was taken (\<open>lock_ok\<close>), or the thread sleeps.\<close>

definition move_bucket ::
  "(byte list \<Rightarrow> u32) \<Rightarrow> bool \<Rightarrow> heap \<times> assoc \<Rightarrow> (heap \<times> assoc) option" where
  "move_bucket hash lock_ok hs =
     (let (h, s) = hs in
      if lock_ok then
        case move_loop hash (hashmask (hashpower s)) (old_hashtable s (expand_bucket s)) (h, primary_hashtable s) of
          None \<Rightarrow> None
        | Some (h, prim) \<Rightarrow>
            let s = s\<lparr>primary_hashtable := prim, old_hashtable := (old_hashtable s)(expand_bucket s := NULL),
                      expand_bucket := expand_bucket s + 1\<rparr>
            in Some (h, if expand_bucket s = hashsize (hashpower s - 1) then s\<lparr>expanding := False\<rparr> else s)
      else Some (h, s))"

fun bulk_move :: "(byte list \<Rightarrow> u32) \<Rightarrow> bool list \<Rightarrow> heap \<times> assoc \<Rightarrow> (heap \<times> assoc) option" where
  "bulk_move hash [] hs = Some hs"
| "bulk_move hash (lock_ok # locks) hs =
     (if expanding (snd hs)
      then (case move_bucket hash lock_ok hs of None \<Rightarrow> None | Some hs \<Rightarrow> bulk_move hash locks hs)
      else Some hs)"

text \<open>
  A turn of the thread: at most \<open>hash_bulk_move\<close> rounds, the outcomes of the lock attempts in \<open>locks\<close>.
  When there is nothing to move, the thread gets ready for the next signal and waits; when it is
  woken (and not told to stop) it expands the table.
\<close>

definition maintenance_turn :: "(byte list \<Rightarrow> u32) \<Rightarrow> bool list \<Rightarrow> heap \<times> assoc \<Rightarrow> (heap \<times> assoc) option" where
  "maintenance_turn hash locks hs =
     (case bulk_move hash locks hs of
        None \<Rightarrow> None
      | Some (h, s) \<Rightarrow> Some (h, if expanding s then s else s\<lparr>started_expanding := False\<rparr>))"

definition maintenance_wake :: "bool \<Rightarrow> bool \<Rightarrow> assoc \<Rightarrow> assoc" where
  "maintenance_wake run calloc_ok s = (if run then assoc_expand calloc_ok s else s)"

section \<open>The table as a finite map\<close>

abbreviation hn :: "heap \<Rightarrow> addr \<Rightarrow> addr" where "hn h \<equiv> \<lambda>a. h_next (h a)"

definition assoc_lists :: "(byte list \<Rightarrow> u32) \<Rightarrow> heap \<Rightarrow> assoc \<Rightarrow> (bucket \<Rightarrow> addr list) \<Rightarrow> bool" where
  "assoc_lists hash h s L \<longleftrightarrow>
     (\<forall>b. chain (hn h) (bucket_head s b) (L b) \<and> (\<forall>x \<in> set (L b). bucket_of s (hash (key (h x))) = b))"

definition assoc_rep :: "(byte list \<Rightarrow> u32) \<Rightarrow> heap \<Rightarrow> assoc \<Rightarrow> (byte list \<rightharpoonup> addr) \<Rightarrow> bool" where
  "assoc_rep hash h s M \<longleftrightarrow>
     (\<exists>L. assoc_lists hash h s L \<and>
          (\<forall>k x. M k = Some x \<longleftrightarrow> x \<in> set (L (bucket_of s (hash k))) \<and> key (h x) = k))"

definition assoc_wf :: "assoc \<Rightarrow> bool" where
  "assoc_wf s \<longleftrightarrow> hashpower s < 32 \<and>
     (expanding s \<longrightarrow> 0 < hashpower s \<and> expand_bucket s < hashsize (hashpower s - 1))"

text \<open>The operations on the table change no field of an item but its chain pointer.\<close>

definition only_hnext :: "heap \<Rightarrow> heap \<Rightarrow> bool" where
  "only_hnext h h' \<longleftrightarrow> (\<forall>a. \<exists>p. h' a = (h a)\<lparr>h_next := p\<rparr>)"

lemma hnext_self: "\<exists>p. i = i\<lparr>h_next := p\<rparr>"
  by (rule exI [of _ "h_next i"]) simp

lemma only_hnext_refl [simp]: "only_hnext h h"
  by (simp add: only_hnext_def hnext_self)

lemma only_hnext_trans: "only_hnext h h' \<Longrightarrow> only_hnext h' h'' \<Longrightarrow> only_hnext h h''"
  unfolding only_hnext_def by (metis item.surjective item.update_convs(3))

lemma only_hnext_upd [simp]: "only_hnext h (upd x (\<lambda>i. i\<lparr>h_next := p\<rparr>) h)"
  by (auto simp: only_hnext_def upd_apply hnext_self)

lemma only_hnext_fields:
  assumes "only_hnext h h'"
  shows "next (h' a) = next (h a)" "prev (h' a) = prev (h a)" "time (h' a) = time (h a)"
    "exptime (h' a) = exptime (h a)" "nbytes (h' a) = nbytes (h a)" "refcount (h' a) = refcount (h a)"
    "it_flags (h' a) = it_flags (h a)" "slabs_clsid (h' a) = slabs_clsid (h a)" "cas (h' a) = cas (h a)"
    "key (h' a) = key (h a)" "cflags (h' a) = cflags (h a)" "it_data (h' a) = it_data (h a)" "ch_size (h' a) = ch_size (h a)" "ch_used (h' a) = ch_used (h a)"
    "orig_clsid (h' a) = orig_clsid (h a)"
proof -
  obtain p where "h' a = (h a)\<lparr>h_next := p\<rparr>" using assms by (auto simp: only_hnext_def)
  then show "next (h' a) = next (h a)" "prev (h' a) = prev (h a)" "time (h' a) = time (h a)"
    "exptime (h' a) = exptime (h a)" "nbytes (h' a) = nbytes (h a)" "refcount (h' a) = refcount (h a)"
    "it_flags (h' a) = it_flags (h a)" "slabs_clsid (h' a) = slabs_clsid (h a)" "cas (h' a) = cas (h a)"
    "key (h' a) = key (h a)" "cflags (h' a) = cflags (h a)" "it_data (h' a) = it_data (h a)" "ch_size (h' a) = ch_size (h a)" "ch_used (h' a) = ch_used (h a)"
    "orig_clsid (h' a) = orig_clsid (h a)"
    by simp_all
qed

lemma bucket_head_set [simp]: "bucket_head (set_bucket b a s) b' = (if b' = b then a else bucket_head s b')"
  by (auto simp: bucket_head_def set_bucket_def split: bucket.splits)

lemma bucket_of_set [simp]: "bucket_of (set_bucket b a s) hv = bucket_of s hv"
  by (simp add: bucket_of_def set_bucket_def split: bucket.splits)

lemma assoc_wf_set [simp]: "assoc_wf (set_bucket b a s) = assoc_wf s"
  by (simp add: assoc_wf_def set_bucket_def split: bucket.splits)

lemma assoc_listsD:
  assumes "assoc_lists hash h s L"
  shows "chain (hn h) (bucket_head s b) (L b)" "x \<in> set (L b) \<Longrightarrow> bucket_of s (hash (key (h x))) = b"
  using assms by (auto simp: assoc_lists_def)

lemma assoc_repE:
  assumes "assoc_rep hash h s M"
  obtains L where "assoc_lists hash h s L"
    "\<And>k x. M k = Some x \<longleftrightarrow> x \<in> set (L (bucket_of s (hash k))) \<and> key (h x) = k"
  using assms by (auto simp: assoc_rep_def)

text \<open>Membership, whatever the bucket.\<close>

lemma assoc_rep_iff:
  assumes "assoc_lists hash h s L" "\<And>k x. M k = Some x \<longleftrightarrow> x \<in> set (L (bucket_of s (hash k))) \<and> key (h x) = k"
  shows "x \<in> set (L b) \<longleftrightarrow> M (key (h x)) = Some x \<and> bucket_of s (hash (key (h x))) = b"
  using assms(2) [of "key (h x)" x] assoc_listsD(2) [OF assms(1), of x b] by blast

lemma assoc_rep_key:
  assumes "assoc_rep hash h s M" "M k = Some x"
  shows "key (h x) = k \<and> x \<noteq> 0"
proof -
  from assms(1) obtain L where L: "assoc_lists hash h s L"
    and M: "\<And>k x. M k = Some x \<longleftrightarrow> x \<in> set (L (bucket_of s (hash k))) \<and> key (h x) = k"
    by (rule assoc_repE) blast
  show ?thesis using assms(2) chain_nonnull [OF assoc_listsD(1) [OF L]] by (metis M)
qed

text \<open>Only the chain pointers and keys of the linked items matter.\<close>

lemma assoc_rep_frame:
  assumes "assoc_rep hash h s M" "\<And>k x. M k = Some x \<Longrightarrow> h_next (h' x) = h_next (h x) \<and> key (h' x) = key (h x)"
  shows "assoc_rep hash h' s M"
proof -
  from assms(1) obtain L where L: "assoc_lists hash h s L"
    and M: "\<And>k x. M k = Some x \<longleftrightarrow> x \<in> set (L (bucket_of s (hash k))) \<and> key (h x) = k"
    by (rule assoc_repE) blast
  have same: "hn h' x = hn h x \<and> key (h' x) = key (h x)" if "x \<in> set (L b)" for x b
    using assoc_rep_iff [OF L M] assms(2) that by blast
  have "assoc_lists hash h' s L"
    unfolding assoc_lists_def
    using assoc_listsD [OF L] same chain_cong [of "L b" "hn h'" "hn h" for b] by metis
  then show ?thesis unfolding assoc_rep_def by (metis M same)
qed

section \<open>Lookup\<close>

lemma find_loop_chain:
  "chain (hn h) p xs \<Longrightarrow> find_loop h k p = Some (case find (\<lambda>x. k = key (h x)) xs of None \<Rightarrow> NULL | Some x \<Rightarrow> x)"
proof (induction xs arbitrary: p)
  case Nil
  then show ?case by (subst find_loop.simps) simp
next
  case (Cons x xs)
  then show ?case by (subst find_loop.simps) auto
qed

lemma assoc_find_rep:
  assumes "assoc_rep hash h s M"
  shows "assoc_find h s k (hash k) = Some (case M k of None \<Rightarrow> NULL | Some x \<Rightarrow> x)"
proof -
  from assms obtain L where L: "assoc_lists hash h s L"
    and M: "\<And>k x. M k = Some x \<longleftrightarrow> x \<in> set (L (bucket_of s (hash k))) \<and> key (h x) = k"
    by (rule assoc_repE) blast
  let ?xs = "L (bucket_of s (hash k))"
  have "find (\<lambda>x. k = key (h x)) ?xs = M k"
  proof (cases "find (\<lambda>x. k = key (h x)) ?xs")
    case None
    have "M k \<noteq> Some y" for y using None M [of k y] by (auto simp: find_None_iff)
    then show ?thesis using None by (cases "M k") auto
  next
    case (Some x)
    then have "M k = Some x" using M [of k x] by (auto simp: find_Some_iff)
    with Some show ?thesis by simp
  qed
  then show ?thesis
    using find_loop_chain [OF assoc_listsD(1) [OF L, of "bucket_of s (hash k)"], of k] by (simp add: assoc_find_def)
qed

section \<open>Insertion\<close>

lemma assoc_insert_rep:
  assumes "assoc_rep hash h s M" "it \<noteq> NULL" "it \<notin> ran M" "M (key (h it)) = None"
    and "assoc_insert it (hash (key (h it))) (h, s) = (h', s')"
  shows "assoc_rep hash h' s' (M(key (h it) \<mapsto> it))"
proof -
  let ?b = "bucket_of s (hash (key (h it)))"
  from assms(1) obtain L where L: "assoc_lists hash h s L"
    and M: "\<And>k x. M k = Some x \<longleftrightarrow> x \<in> set (L (bucket_of s (hash k))) \<and> key (h x) = k"
    by (rule assoc_repE) blast
  have h': "h' = upd it (\<lambda>i. i\<lparr>h_next := bucket_head s ?b\<rparr>) h" and s': "s' = set_bucket ?b it s"
    using assms(5) by (auto simp: assoc_insert_def Let_def)
  have new: "it \<notin> set (L b)" for b
    using assoc_rep_iff [OF L M, of it b] assms(3) by (auto simp: ran_def)
  have hn': "hn h' = (hn h)(it := bucket_head s ?b)" and k': "\<And>x. key (h' x) = key (h x)"
    by (auto simp: h' upd_def)
  let ?L = "L(?b := it # L ?b)"
  have "assoc_lists hash h' s' ?L"
    unfolding assoc_lists_def hn' k' s'
    using assoc_listsD [OF L] new assms(2) by auto
  moreover have "(M(key (h it) \<mapsto> it)) k = Some x \<longleftrightarrow> x \<in> set (?L (bucket_of s' (hash k))) \<and> key (h' x) = k" for k x
    using M [of k x] new assms(4) M [of "key (h it)" x] by (auto simp: k' s')
  ultimately show ?thesis unfolding assoc_rep_def by blast
qed

section \<open>Deletion\<close>

lemma before_loop_found:
  "chain (hn h) (deref h s pos) (us @ x # vs) \<Longrightarrow> \<forall>u \<in> set us. key (h u) \<noteq> k \<Longrightarrow> key (h x) = k \<Longrightarrow>
   before_loop h s k pos = Some (if us = [] then pos else HNext (last us))"
proof (induction us arbitrary: pos)
  case Nil
  then show ?case by (subst before_loop.simps) auto
next
  case (Cons u us)
  then have d: "deref h s pos = u" "u \<noteq> 0" "chain (hn h) (deref h s (HNext u)) (us @ x # vs)"
    by (auto simp: deref_def)
  then have "before_loop h s k pos = before_loop h s k (HNext u)"
    using Cons.prems by (subst before_loop.simps) auto
  also have "\<dots> = Some (if us = [] then HNext u else HNext (last us))" using Cons d by auto
  finally show ?case by simp
qed

lemma before_loop_missing:
  "chain (hn h) (deref h s pos) us \<Longrightarrow> \<forall>u \<in> set us. key (h u) \<noteq> k \<Longrightarrow>
   \<exists>pos'. before_loop h s k pos = Some pos' \<and> deref h s pos' = NULL"
proof (induction us arbitrary: pos)
  case Nil
  then show ?case by (subst before_loop.simps) auto
next
  case (Cons u us)
  then have d: "deref h s pos = u" "u \<noteq> 0" "chain (hn h) (deref h s (HNext u)) us"
    by (auto simp: deref_def)
  then have "before_loop h s k pos = before_loop h s k (HNext u)"
    using Cons.prems by (subst before_loop.simps) auto
  then show ?case using Cons d by auto
qed

lemma chain_drop_head:
  assumes "chain (hn h) p (x # vs)"
  shows "chain (hn (upd x (\<lambda>i. i\<lparr>h_next := NULL\<rparr>) h)) (h_next (h x)) vs"
proof -
  have "hn (upd x (\<lambda>i. i\<lparr>h_next := NULL\<rparr>) h) = (hn h)(x := NULL)" by (auto simp: upd_def)
  then show ?thesis using assms chain_distinct [OF assms] by auto
qed

lemma chain_drop_inner:
  assumes "chain (hn h) p (us @ u # x # vs)"
  shows "chain (hn (upd u (\<lambda>i. i\<lparr>h_next := h_next (h x)\<rparr>) (upd x (\<lambda>i. i\<lparr>h_next := NULL\<rparr>) h))) p (us @ u # vs)"
proof -
  have d: "distinct (us @ u # x # vs)" using chain_distinct [OF assms] .
  have "hn (upd u (\<lambda>i. i\<lparr>h_next := h_next (h x)\<rparr>) (upd x (\<lambda>i. i\<lparr>h_next := NULL\<rparr>) h)) =
      (hn h)(u := hn h x, x := NULL)"
    using d by (auto simp: upd_def)
  then show ?thesis using chain_remove [OF assms] d by simp
qed

text \<open>What a deletion does to the lists: the item leaves its chain, the other chains stay.\<close>

lemma assoc_delete_lists:
  assumes L: "assoc_lists hash h s L" and b: "b = bucket_of s hv" and Lb: "L b = us @ x # vs"
    and us: "\<forall>u \<in> set us. key (h u) \<noteq> k" and x: "key (h x) = k"
  obtains h' s' where "assoc_delete k hv (h, s) = Some (h', s')" "assoc_lists hash h' s' (L(b := us @ vs))"
    "only_hnext h h'" "\<And>a. a \<notin> set (L b) \<Longrightarrow> h' a = h a"
    "\<And>hv. bucket_of s' hv = bucket_of s hv" "assoc_wf s' = assoc_wf s"
proof -
  have c: "chain (hn h) (bucket_head s b) (us @ x # vs)"
    using assoc_listsD(1) [OF L, of b] by (simp add: Lb)
  have pos: "hashitem_before h s k hv = Some (if us = [] then Bucket b else HNext (last us))"
    using before_loop_found [of h s "Bucket b" us x vs k] c us x by (simp add: hashitem_before_def b deref_def)
  have x0: "x \<noteq> 0" using chain_nonnull [OF c] by auto
  have other: "x \<notin> set (L b')" "us \<noteq> [] \<Longrightarrow> last us \<notin> set (L b')" if "b' \<noteq> b" for b'
  proof -
    have "y \<notin> set (L b')" if "y \<in> set (L b)" for y
      using assoc_listsD(2) [OF L] that \<open>b' \<noteq> b\<close> by metis
    then show "x \<notin> set (L b')" "us \<noteq> [] \<Longrightarrow> last us \<notin> set (L b')" by (auto simp: Lb)
  qed
  show ?thesis
  proof (cases "us = []")
    case True
    let ?h = "upd x (\<lambda>i. i\<lparr>h_next := NULL\<rparr>) h" and ?s = "set_bucket b (h_next (h x)) s"
    have c1: "chain (hn h) (bucket_head s b) (x # vs)" using c True by simp
    then have hd: "bucket_head s b = x" by simp
    have "assoc_delete k hv (h, s) = Some (?h, ?s)"
      using pos True x0 hd by (simp add: assoc_delete_def deref_def set_position_def)
    moreover have "hn ?h = (hn h)(x := NULL)" by (auto simp: upd_def)
    then have "assoc_lists hash ?h ?s (L(b := us @ vs))"
      using chain_drop_head [OF c1] assoc_listsD [OF L] other(1) True Lb
      unfolding assoc_lists_def by (auto simp: upd_apply deref_def)
    ultimately show ?thesis using that [of ?h ?s] by (auto simp: upd_apply Lb)
  next
    case False
    then obtain ws u where us': "us = ws @ [u]" by (metis rev_exhaust)
    let ?h = "upd u (\<lambda>i. i\<lparr>h_next := h_next (h x)\<rparr>) (upd x (\<lambda>i. i\<lparr>h_next := NULL\<rparr>) h)"
    have c2: "chain (hn h) (bucket_head s b) (ws @ u # x # vs)" using c us' by simp
    have ux: "hn h u = x" "u \<noteq> x" using chain_distinct [OF c] us' chain_from [of "hn h" "bucket_head s b" ws u "x # vs"] c by auto
    have "assoc_delete k hv (h, s) = Some (?h, s)"
      using pos us' x0 ux by (simp add: assoc_delete_def deref_def set_position_def)
    moreover have "hn ?h = (hn h)(u := hn h x, x := NULL)" using ux by (auto simp: upd_def)
    then have "assoc_lists hash ?h s (L(b := us @ vs))"
      using chain_drop_inner [OF c2] assoc_listsD [OF L] other us' Lb
      unfolding assoc_lists_def by (auto simp: upd_apply)
    moreover have "only_hnext h ?h" by (rule only_hnext_trans [OF only_hnext_upd only_hnext_upd])
    ultimately show ?thesis using that [of ?h s] us' by (auto simp: upd_apply Lb)
  qed
qed

lemma assoc_delete_rep:
  assumes "assoc_rep hash h s M" "M k = Some x"
  obtains h' s' where "assoc_delete k (hash k) (h, s) = Some (h', s')" "assoc_rep hash h' s' (M(k := None))"
    "only_hnext h h'" "\<And>a. a \<notin> ran M \<Longrightarrow> h' a = h a" "assoc_wf s' = assoc_wf s"
proof -
  from assms(1) obtain L where L: "assoc_lists hash h s L"
    and M: "\<And>k x. M k = Some x \<longleftrightarrow> x \<in> set (L (bucket_of s (hash k))) \<and> key (h x) = k"
    by (rule assoc_repE) blast
  let ?b = "bucket_of s (hash k)"
  have xk: "x \<in> set (L ?b)" "key (h x) = k" using assms(2) M by auto
  then obtain us vs where Lb: "L ?b = us @ x # vs" by (auto simp: in_set_conv_decomp)
  have d: "distinct (us @ x # vs)" using chain_distinct [OF assoc_listsD(1) [OF L, of ?b]] Lb by simp
  have uniq: "y = x" if "y \<in> set (L ?b)" "key (h y) = k" for y using M assms(2) that by (metis option.inject)
  then have us: "\<forall>u \<in> set us. key (h u) \<noteq> k" using d Lb by auto
  obtain h' s' where r: "assoc_delete k (hash k) (h, s) = Some (h', s')" "assoc_lists hash h' s' (L(?b := us @ vs))"
      "only_hnext h h'" "\<And>a. a \<notin> set (L ?b) \<Longrightarrow> h' a = h a"
      "\<And>hv. bucket_of s' hv = bucket_of s hv" "assoc_wf s' = assoc_wf s"
    using assoc_delete_lists [OF L refl Lb us xk(2)] by metis
  have k': "key (h' a) = key (h a)" for a using only_hnext_fields [OF r(3)] by simp
  have "(M(k := None)) k' = Some y \<longleftrightarrow>
      y \<in> set ((L(?b := us @ vs)) (bucket_of s' (hash k'))) \<and> key (h' y) = k'" for k' y
    using M [of k' y] uniq [of y] d Lb xk by (auto simp: r(5) k')
  then have "assoc_rep hash h' s' (M(k := None))" using r(2) unfolding assoc_rep_def by blast
  moreover have "h' a = h a" if "a \<notin> ran M" for a
    using r(4) [of a] assoc_rep_iff [OF L M, of a ?b] that by (auto simp: ran_def)
  ultimately show ?thesis using that r by blast
qed

lemma assoc_delete_missing:
  assumes "assoc_rep hash h s M" "M k = None"
  shows "assoc_delete k (hash k) (h, s) = Some (h, s)"
proof -
  from assms(1) obtain L where L: "assoc_lists hash h s L"
    and M: "\<And>k x. M k = Some x \<longleftrightarrow> x \<in> set (L (bucket_of s (hash k))) \<and> key (h x) = k"
    by (rule assoc_repE) blast
  let ?pos = "Bucket (bucket_of s (hash k))"
  have "\<forall>u \<in> set (L (bucket_of s (hash k))). key (h u) \<noteq> k" using assms(2) M [of k] by auto
  then obtain pos where "before_loop h s k ?pos = Some pos" "deref h s pos = NULL"
    using before_loop_missing [of h s ?pos "L (bucket_of s (hash k))" k] assoc_listsD(1) [OF L]
    by (auto simp: deref_def)
  then show ?thesis by (simp add: assoc_delete_def hashitem_before_def)
qed

section \<open>Expansion\<close>

lemma hashmask_mask: "hashmask n = mask n"
  by (simp add: hashmask_def hashsize_def mask_eq_exp_minus_1 push_bit_eq_mult)

lemma hashsize_pos: "n < 32 \<Longrightarrow> 0 < hashsize n" "n < 32 \<Longrightarrow> unat (hashsize n) = 2 ^ n"
proof -
  assume n: "n < 32"
  then have "(2 :: nat) ^ n < 2 ^ 32" by (rule power_strict_increasing) simp
  then show "unat (hashsize n) = 2 ^ n"
    unfolding hashsize_def unsigned_push_bit_eq by (simp add: take_bit_eq_mod push_bit_eq_mult)
  then show "0 < hashsize n" by (simp add: word_less_nat_alt)
qed

lemma and_hashmask_less: "n < 32 \<Longrightarrow> w AND hashmask n < hashsize n"
  by (simp add: word_less_nat_alt hashmask_mask unat_and_mask hashsize_pos)

text \<open>Moving the front bucket changes where its keys are looked for, and nothing else.\<close>

lemma bucket_of_move:
  assumes "assoc_wf s" "expanding s"
    and s': "s' = s\<lparr>primary_hashtable := P, old_hashtable := Q, expand_bucket := expand_bucket s + 1\<rparr> \<or>
      s' = s\<lparr>primary_hashtable := P, old_hashtable := Q, expand_bucket := expand_bucket s + 1, expanding := False\<rparr> \<and>
        expand_bucket s + 1 = hashsize (hashpower s - 1)"
  shows "bucket_of s' hv = (if bucket_of s hv = Old (expand_bucket s) then Primary (hv AND hashmask (hashpower s))
     else bucket_of s hv)"
proof -
  let ?e = "expand_bucket s" and ?o = "hv AND hashmask (hashpower s - 1)"
  have e: "?e < hashsize (hashpower s - 1)" and p: "hashpower s - 1 < 32" using assms(1,2) by (auto simp: assoc_wf_def)
  have o: "?o < hashsize (hashpower s - 1)" using and_hashmask_less [OF p] .
  have "unat ?e + 1 < 4294967296"
    using e unat_u32_less [of "hashsize (hashpower s - 1)"] by (simp add: word_less_nat_alt)
  then have e1: "unat (?e + 1) = unat ?e + 1" by (simp add: unat_word_ariths)
  then have "?o \<ge> ?e + 1 \<longleftrightarrow> ?o \<ge> ?e \<and> ?o \<noteq> ?e"
    by (auto simp: word_le_nat_alt word_less_nat_alt word_unat_eq_iff)
  then show ?thesis
    using s' assms(2) o e by (auto simp: bucket_of_def)
qed

lemma move_loop_chain:
  assumes "chain (hn h) it xs" "\<And>i. chain (hn h) (prim i) (P i)" "\<And>i. set xs \<inter> set (P i) = {}"
  obtains h' prim' where "move_loop hash msk it (h, prim) = Some (h', prim')"
    "\<And>i. chain (hn h') (prim' i) (rev (filter (\<lambda>x. hash (key (h x)) AND msk = i) xs) @ P i)"
    "only_hnext h h'" "\<And>a. a \<notin> set xs \<Longrightarrow> h' a = h a"
  using assms
proof (induction xs arbitrary: h it prim P thesis)
  case Nil
  then show ?case by (auto simp: move_loop.simps [of hash msk 0])
next
  case (Cons x xs)
  let ?b = "hash (key (h x)) AND msk"
  let ?h = "upd x (\<lambda>i. i\<lparr>h_next := prim ?b\<rparr>) h"
  have x: "it = x" "x \<noteq> 0" "x \<notin> set xs" "chain (hn h) (hn h x) xs" "\<And>i. x \<notin> set (P i)"
    using Cons.prems chain_distinct [OF Cons.prems(2)] by auto
  have hn': "hn ?h = (hn h)(x := prim ?b)" by (auto simp: upd_def)
  have key': "key (?h a) = key (h a)" for a by (simp add: upd_apply)
  obtain h' prim' where r: "move_loop hash msk (hn h x) (?h, prim(?b := x)) = Some (h', prim')"
      "\<And>i. chain (hn h') (prim' i) (rev (filter (\<lambda>y. hash (key (?h y)) AND msk = i) xs) @ (P(?b := x # P ?b)) i)"
      "only_hnext ?h h'" "\<And>a. a \<notin> set xs \<Longrightarrow> h' a = ?h a"
  proof (rule Cons.IH [where h = ?h and it = "hn h x" and prim = "prim(?b := x)" and P = "P(?b := x # P ?b)"])
    show "chain (hn ?h) (hn h x) xs" unfolding hn' using x by simp
    show "chain (hn ?h) ((prim(?b := x)) i) ((P(?b := x # P ?b)) i)" for i
      unfolding hn' using x Cons.prems(3) [of i] Cons.prems(3) [of ?b] by simp
    show "set xs \<inter> set ((P(?b := x # P ?b)) i) = {}" for i
      using x Cons.prems(4) by auto
  qed blast
  have "move_loop hash msk it (h, prim) = Some (h', prim')"
    using r(1) x by (subst move_loop.simps) (simp add: Let_def)
  moreover have "chain (hn h') (prim' i) (rev (filter (\<lambda>y. hash (key (h y)) AND msk = i) (x # xs)) @ P i)" for i
    using r(2) [of i] by (auto simp: key')
  moreover have "only_hnext h h'" using only_hnext_trans [OF only_hnext_upd r(3)] .
  moreover have "h' a = h a" if "a \<notin> set (x # xs)" for a
    using r(4) [of a] that by (auto simp: upd_apply)
  ultimately show ?case by (rule Cons.prems(1))
qed

lemma assoc_listsI:
  "(\<And>b. chain (hn h) (bucket_head s b) (L b)) \<Longrightarrow>
   (\<And>b x. x \<in> set (L b) \<Longrightarrow> bucket_of s (hash (key (h x))) = b) \<Longrightarrow> assoc_lists hash h s L"
  by (simp add: assoc_lists_def)

lemma move_bucket_rep:
  assumes "assoc_rep hash h s M" and wf: "assoc_wf s" "expanding s"
  obtains h' s' where "move_bucket hash True (h, s) = Some (h', s')" "assoc_rep hash h' s' M" "assoc_wf s'"
    "only_hnext h h'" "hashpower s' = hashpower s"
    "expand_bucket s' = expand_bucket s + 1" "expanding s' \<longleftrightarrow> expand_bucket s + 1 \<noteq> hashsize (hashpower s - 1)"
proof -
  from assms(1) obtain L where L: "assoc_lists hash h s L"
    and M: "\<And>k x. M k = Some x \<longleftrightarrow> x \<in> set (L (bucket_of s (hash k))) \<and> key (h x) = k"
    by (rule assoc_repE) blast
  let ?e = "expand_bucket s" and ?m = "hashmask (hashpower s)"
  note c = assoc_listsD(1) [OF L] and bk = assoc_listsD(2) [OF L]
  have disj: "set (L (Old ?e)) \<inter> set (L (Primary i)) = {}" for i
    using bk [of _ "Old ?e"] bk [of _ "Primary i"] by fastforce
  obtain h' prim where r: "move_loop hash ?m (old_hashtable s ?e) (h, primary_hashtable s) = Some (h', prim)"
      "\<And>i. chain (hn h') (prim i) (rev (filter (\<lambda>x. hash (key (h x)) AND ?m = i) (L (Old ?e))) @ L (Primary i))"
      "only_hnext h h'" "\<And>a. a \<notin> set (L (Old ?e)) \<Longrightarrow> h' a = h a"
  proof (rule move_loop_chain [of h "old_hashtable s ?e" "L (Old ?e)" "primary_hashtable s" "\<lambda>i. L (Primary i)" hash ?m])
    show "chain (hn h) (old_hashtable s ?e) (L (Old ?e))" using c [of "Old ?e"] by (simp add: bucket_head_def)
    show "chain (hn h) (primary_hashtable s i) (L (Primary i))" for i
      using c [of "Primary i"] by (simp add: bucket_head_def)
  qed (use disj in auto)
  let ?s = "s\<lparr>primary_hashtable := prim, old_hashtable := (old_hashtable s)(?e := NULL), expand_bucket := ?e + 1\<rparr>"
  define s' where "s' = (if ?e + 1 = hashsize (hashpower s - 1) then ?s\<lparr>expanding := False\<rparr> else ?s)"
  have key': "key (h' a) = key (h a)" for a using only_hnext_fields [OF r(3)] by simp
  have mv: "bucket_of s' hv = (if bucket_of s hv = Old ?e then Primary (hv AND ?m) else bucket_of s hv)" for hv
    by (rule bucket_of_move [OF wf]) (auto simp: s'_def)
  let ?L = "\<lambda>b. case b of Primary i \<Rightarrow> rev (filter (\<lambda>x. hash (key (h x)) AND ?m = i) (L (Old ?e))) @ L (Primary i)
     | Old i \<Rightarrow> if i = ?e then [] else L (Old i)"
  have "assoc_lists hash h' s' ?L"
  proof (rule assoc_listsI)
    fix b
    show "chain (hn h') (bucket_head s' b) (?L b)"
    proof (cases b)
      case (Primary i)
      then show ?thesis using r(2) [of i] by (simp add: s'_def bucket_head_def)
    next
      case (Old i)
      have "hn h' x = hn h x" if "x \<in> set (L (Old i))" "i \<noteq> ?e" for x
      proof -
        have "x \<notin> set (L (Old ?e))" using bk [of x "Old i"] bk [of x "Old ?e"] that by auto
        then show ?thesis using r(4) by simp
      qed
      then show ?thesis
        using Old c [of "Old i"] chain_cong [of "L (Old i)" "hn h'" "hn h"] by (auto simp: s'_def bucket_head_def)
    qed
  next
    fix b x assume "x \<in> set (?L b)"
    then show "bucket_of s' (hash (key (h' x))) = b"
      using bk [of x b] bk [of x "Old ?e"] by (auto simp: mv key' split: bucket.splits if_splits)
  qed
  moreover have "M k = Some x \<longleftrightarrow> x \<in> set (?L (bucket_of s' (hash k))) \<and> key (h' x) = k" for k x
  proof (cases "bucket_of s (hash k) = Old ?e")
    case True
    then show ?thesis using M [of k x] bk [of x] by (auto simp: mv key')
  next
    case False
    then show ?thesis using M [of k x] bk [of x] by (auto simp: mv key' split: bucket.splits)
  qed
  ultimately have "assoc_rep hash h' s' M" unfolding assoc_rep_def by blast
  moreover have "assoc_wf s'"
    using wf by (auto simp: assoc_wf_def s'_def intro!: order.not_eq_order_implies_strict inc_le)
  moreover have "move_bucket hash True (h, s) = Some (h', s')" using r(1) by (simp add: move_bucket_def s'_def Let_def)
  ultimately show ?thesis using that r(3) wf(2) by (auto simp: s'_def)
qed

lemma expand_rep:
  assumes "assoc_rep hash h s M" "\<not> expanding s"
  shows "assoc_rep hash h (assoc_expand ok s) M"
proof (cases ok)
  case True
  from assms(1) obtain L where L: "assoc_lists hash h s L"
    and M: "\<And>k x. M k = Some x \<longleftrightarrow> x \<in> set (L (bucket_of s (hash k))) \<and> key (h x) = k"
    by (rule assoc_repE) blast
  let ?L = "\<lambda>b. case b of Primary i \<Rightarrow> [] | Old i \<Rightarrow> L (Primary i)"
  have b: "bucket_of s hv = Primary (hv AND hashmask (hashpower s))"
    "bucket_of (assoc_expand ok s) hv = Old (hv AND hashmask (hashpower s))" for hv
    using assms(2) True by (auto simp: bucket_of_def assoc_expand_def)
  have "assoc_lists hash h (assoc_expand ok s) ?L"
  proof (rule assoc_listsI)
    show "chain (hn h) (bucket_head (assoc_expand ok s) b) (?L b)" for b
      using assoc_listsD(1) [OF L, of "Primary i" for i] True
      by (auto simp: bucket_head_def assoc_expand_def split: bucket.split)
    show "x \<in> set (?L b) \<Longrightarrow> bucket_of (assoc_expand ok s) (hash (key (h x))) = b" for b x
      using assoc_listsD(2) [OF L, of x "Primary i" for i] by (auto simp: b split: bucket.splits)
  qed
  then show ?thesis unfolding assoc_rep_def by (auto simp: M b intro!: exI [of _ ?L])
qed (use assms in \<open>simp add: assoc_expand_def\<close>)

lemma init_rep: "assoc_init n True = Some s \<Longrightarrow> assoc_rep hash h s Map.empty"
  by (auto simp: assoc_init_def assoc_rep_def assoc_lists_def bucket_head_def Let_def
      split: bucket.split intro!: exI [of _ "\<lambda>_. []"])

lemma init_wf: "assoc_init n True = Some s \<Longrightarrow> n < 32 \<Longrightarrow> assoc_wf s"
  by (auto simp: assoc_init_def assoc_wf_def Let_def)

text \<open>A bulk move keeps the map, and ends the expansion when it has enough rounds.\<close>

definition rounds_left :: "assoc \<Rightarrow> nat" where
  "rounds_left s = (if expanding s then unat (hashsize (hashpower s - 1)) - unat (expand_bucket s) else 0)"

lemma rounds_left_pos: "assoc_wf s \<Longrightarrow> expanding s \<Longrightarrow> 0 < rounds_left s"
  by (auto simp: rounds_left_def assoc_wf_def word_less_nat_alt)

lemma bulk_move_rep:
  assumes "assoc_rep hash h s M" "assoc_wf s"
  obtains h' s' where "bulk_move hash locks (h, s) = Some (h', s')" "assoc_rep hash h' s' M" "assoc_wf s'"
    "only_hnext h h'" "rounds_left s' \<le> rounds_left s - length (filter id locks)"
    "hashpower s' = hashpower s"
  using assms
proof (induction locks arbitrary: h s thesis)
  case (Cons l ls)
  show ?case
  proof (cases "expanding s \<and> l")
    case False
    then consider "\<not> expanding s" | "expanding s" "\<not> l" by auto
    then show ?thesis
    proof cases
      case 1
      then show ?thesis by (intro Cons.prems(1) [of h s] Cons.prems(2,3)) (simp_all add: rounds_left_def)
    next
      case 2
      obtain h' s' where "bulk_move hash ls (h, s) = Some (h', s')" "assoc_rep hash h' s' M" "assoc_wf s'"
          "only_hnext h h'" "rounds_left s' \<le> rounds_left s - length (filter id ls)" "hashpower s' = hashpower s"
        by (rule Cons.IH [OF _ Cons.prems(2,3)])
      then show ?thesis using 2 by (intro Cons.prems(1) [of h' s']) (simp_all add: move_bucket_def id_def)
    qed
  next
    case True
    obtain h1 s1 where 1: "move_bucket hash True (h, s) = Some (h1, s1)" "assoc_rep hash h1 s1 M" "assoc_wf s1"
        "only_hnext h h1" "hashpower s1 = hashpower s"
        "expand_bucket s1 = expand_bucket s + 1" "expanding s1 \<longleftrightarrow> expand_bucket s + 1 \<noteq> hashsize (hashpower s - 1)"
      using move_bucket_rep [of hash h s M] Cons.prems True by metis
    have "unat (expand_bucket s) + 1 < 4294967296"
      using Cons.prems(3) True unat_u32_less [of "hashsize (hashpower s - 1)"]
      by (auto simp: assoc_wf_def word_less_nat_alt)
    then have "unat (expand_bucket s + 1) = unat (expand_bucket s) + 1" by (simp add: unat_word_ariths)
    then have left: "rounds_left s1 = rounds_left s - 1"
      using True 1(5-7) by (auto simp: rounds_left_def)
    obtain h2 s2 where 2: "bulk_move hash ls (h1, s1) = Some (h2, s2)" "assoc_rep hash h2 s2 M" "assoc_wf s2"
        "only_hnext h1 h2" "rounds_left s2 \<le> rounds_left s1 - length (filter id ls)"
        "hashpower s2 = hashpower s1"
      by (rule Cons.IH [OF _ 1(2,3)])
    have "only_hnext h h2" using only_hnext_trans [OF 1(4) 2(4)] .
    then show ?thesis using 1 2 True left by (intro Cons.prems(1) [of h2 s2]) (simp_all add: id_def)
  qed
qed auto

section \<open>Interpretation\<close>

text \<open>
  What happens beside the operations of the worker threads. The thread can be woken only while it
  waits, so not during an expansion; the last wake-up, at \<open>hashpower = 31\<close>, is left out: the code would
  then shift by 32, which C does not define.
\<close>

datatype assoc_event = Turn "bool list" | Wake bool bool | Start_expand u64

fun assoc_background :: "(byte list \<Rightarrow> u32) \<Rightarrow> assoc_event \<Rightarrow> heap \<times> assoc \<Rightarrow> (heap \<times> assoc) option" where
  "assoc_background hash (Turn locks) hs = maintenance_turn hash locks hs"
| "assoc_background hash (Wake run ok) (h, s) =
     Some (h, if expanding s \<or> hashpower s \<ge> 31 then s else maintenance_wake run ok s)"
| "assoc_background hash (Start_expand n) (h, s) = Some (h, assoc_start_expand n s)"

definition table_rep :: "(byte list \<Rightarrow> u32) \<Rightarrow> heap \<times> assoc \<Rightarrow> (byte list \<rightharpoonup> addr) \<Rightarrow> bool" where
  "table_rep hash hs M \<longleftrightarrow> assoc_rep hash (fst hs) (snd hs) M \<and> assoc_wf (snd hs)"

definition table_keys :: "heap \<times> assoc \<Rightarrow> addr \<Rightarrow> byte list" where
  "table_keys hs a = key (fst hs a)"

definition table_insert :: "(byte list \<Rightarrow> u32) \<Rightarrow> addr \<Rightarrow> heap \<times> assoc \<Rightarrow> (heap \<times> assoc) option" where
  "table_insert hash it hs = Some (assoc_insert it (hash (key (fst hs it))) hs)"

lemma start_expand_same:
  "assoc_rep hash h (assoc_start_expand n s) M = assoc_rep hash h s M" "assoc_wf (assoc_start_expand n s) = assoc_wf s"
  "assoc_rep hash h (s\<lparr>started_expanding := b\<rparr>) M = assoc_rep hash h s M" "assoc_wf (s\<lparr>started_expanding := b\<rparr>) = assoc_wf s"
  by (simp_all add: assoc_start_expand_def assoc_rep_def assoc_lists_def bucket_of_def assoc_wf_def bucket_head_def
      cong: bucket.case_cong)

interpretation table: item_dict "table_rep hash" table_keys "\<lambda>hs k. assoc_find (fst hs) (snd hs) k (hash k)"
  "table_insert hash" "\<lambda>k. assoc_delete k (hash k)" "assoc_background hash"
proof (unfold_locales, goal_cases)
  case (1 s M k)
  then show ?case by (simp add: table_rep_def assoc_find_rep)
next
  case (2 hs M it)
  obtain h s where hs: "hs = (h, s)" by (cases hs)
  obtain h' s' where r: "assoc_insert it (hash (key (h it))) (h, s) = (h', s')" by fastforce
  then have "s' = set_bucket (bucket_of s (hash (key (h it)))) it s" "\<And>a. key (h' a) = key (h a)"
    by (auto simp: assoc_insert_def Let_def upd_apply)
  then show ?case using 2 r assoc_insert_rep [of hash h s M it h' s']
    by (auto simp: hs table_rep_def table_insert_def table_keys_def fun_eq_iff)
next
  case (3 hs M k)
  obtain h s where hs: "hs = (h, s)" by (cases hs)
  obtain h' s' where "assoc_delete k (hash k) (h, s) = Some (h', s')" "assoc_rep hash h' s' (M(k := None))"
      "only_hnext h h'" "assoc_wf s' = assoc_wf s"
    using 3 by (auto simp: hs table_rep_def elim: assoc_delete_rep)
  then show ?case using 3 only_hnext_fields(10) [of h h'] by (simp add: hs table_rep_def table_keys_def fun_eq_iff)
next
  case (4 hs M b)
  obtain h s where hs: "hs = (h, s)" by (cases hs)
  show ?case
  proof (cases b)
    case (Turn locks)
    obtain h' s' where "bulk_move hash locks (h, s) = Some (h', s')" "assoc_rep hash h' s' M" "assoc_wf s'"
        "only_hnext h h'"
      using bulk_move_rep [of hash h s M locks] 4 unfolding hs table_rep_def fst_conv snd_conv by metis
    then show ?thesis
      using only_hnext_fields(10) [of h h'] Turn
      by (auto simp: hs maintenance_turn_def table_rep_def table_keys_def fun_eq_iff start_expand_same)
  next
    case (Wake run ok)
    then show ?thesis
      using 4 expand_rep [of hash h s M ok]
      by (auto simp: hs table_rep_def table_keys_def maintenance_wake_def assoc_expand_def assoc_wf_def hashsize_pos)
  next
    case (Start_expand n)
    then show ?thesis using 4 by (simp add: hs table_rep_def table_keys_def fun_eq_iff start_expand_same)
  qed
qed

section \<open>Properties\<close>

text \<open>
  C14. The hash table is a dictionary under every interleaving of insertions, deletions, turns of the
  maintenance thread (with whatever lock attempts failing), wake-ups (with the allocation failing or
  not) and expansion requests, for every hash function: each operation returns, and a lookup in the
  resulting table gives the item last inserted and not deleted under that key, or \<open>NULL\<close>.
\<close>

theorem assoc_history:
  assumes "assoc_init n True = Some s" "n < 32" and "dict_history (\<lambda>a. key (h a)) ops Map.empty = Some M"
  shows "\<exists>h' s'. dict_exec (table_insert hash) (\<lambda>k. assoc_delete k (hash k)) (assoc_background hash) ops (h, s) =
      Some (h', s') \<and> (\<forall>k. assoc_find h' s' k (hash k) = Some (case M k of None \<Rightarrow> NULL | Some x \<Rightarrow> x))"
proof -
  have "table_rep hash (h, s) Map.empty" using assms(1,2) by (simp add: table_rep_def init_rep init_wf)
  moreover have "dict_history (table_keys (h, s)) ops Map.empty = Some M"
    using assms(3) by (simp add: table_keys_def [abs_def])
  ultimately show ?thesis using table.lookup_after [of hash "(h, s)" Map.empty ops M] by auto
qed

definition sample_items :: heap where
  "sample_items = (\<lambda>a. \<lparr>next = 0, prev = 0, h_next = 0, time = 0, exptime = 0, nbytes = 2, refcount = 1,
     it_flags = 0, slabs_clsid = 1, cas = 0, key = [of_nat a], cflags = 0, it_data = [13, 10],
     ch_size = 0, ch_used = 0, orig_clsid = 0\<rparr>)"

theorem assoc_history_witness:
  "\<exists>h' s'. dict_exec (table_insert (\<lambda>k. of_nat (length k))) (\<lambda>k. assoc_delete k (of_nat (length k)))
       (assoc_background (\<lambda>k. of_nat (length k)))
       [Insert_item 1, Insert_item 2, Background (Wake True True), Insert_item 3, Delete_key [1],
        Background (Turn [True, False, True])]
       (sample_items, \<lparr>hashpower = 1, primary_hashtable = (\<lambda>_. NULL), old_hashtable = (\<lambda>_. NULL),
          expanding = False, started_expanding = False, expand_bucket = 0\<rparr>) = Some (h', s') \<and>
     assoc_find h' s' [1] 1 = Some NULL \<and> assoc_find h' s' [2] 1 = Some 2"
proof -
  have init: "assoc_init 1 True = Some \<lparr>hashpower = 1, primary_hashtable = (\<lambda>_. NULL), old_hashtable = (\<lambda>_. NULL),
      expanding = False, started_expanding = False, expand_bucket = 0\<rparr>"
    by (simp add: assoc_init_def)
  let ?ops = "[Insert_item 1, Insert_item 2, Background (Wake True True), Insert_item 3, Delete_key [1],
      Background (Turn [True, False, True])]"
  have hist: "dict_history (\<lambda>a. key (sample_items a)) ?ops Map.empty = Some [[2] \<mapsto> 2, [3] \<mapsto> 3]"
    by (auto simp: sample_items_def ran_def)
  obtain h' s' where r: "dict_exec (table_insert (\<lambda>k. of_nat (length k))) (\<lambda>k. assoc_delete k (of_nat (length k)))
       (assoc_background (\<lambda>k. of_nat (length k))) ?ops (sample_items, \<lparr>hashpower = 1, primary_hashtable = (\<lambda>_. NULL),
       old_hashtable = (\<lambda>_. NULL), expanding = False, started_expanding = False, expand_bucket = 0\<rparr>) = Some (h', s')"
    and f: "\<And>k. assoc_find h' s' k (of_nat (length k)) =
       Some (case [[2] \<mapsto> 2, [3] \<mapsto> 3] k of None \<Rightarrow> NULL | Some x \<Rightarrow> x)"
    using assoc_history [OF init _ hist, of "\<lambda>k. of_nat (length k)"] by auto
  show ?thesis using r f [of "[1]"] f [of "[2]"] by auto
qed

text \<open>
  C33. An expansion ends: whatever rounds fail to get their lock, once as many rounds have succeeded as
  there are buckets left (at most half the new table), the table is no longer expanding, and it still
  holds the same items.
\<close>

theorem expansion_ends:
  assumes "table_rep hash (h, s) M" and "rounds_left s \<le> length (filter id locks)"
  shows "\<exists>h' s'. bulk_move hash locks (h, s) = Some (h', s') \<and> \<not> expanding s' \<and> table_rep hash (h', s') M"
proof -
  obtain h' s' where r: "bulk_move hash locks (h, s) = Some (h', s')" "assoc_rep hash h' s' M" "assoc_wf s'"
      "rounds_left s' \<le> rounds_left s - length (filter id locks)"
    using bulk_move_rep [of hash h s M locks] assms(1) unfolding table_rep_def fst_conv snd_conv by metis
  moreover have "\<not> expanding s'" using r(3,4) assms(2) rounds_left_pos [of s'] by auto
  ultimately show ?thesis by (auto simp: table_rep_def)
qed

theorem expansion_ends_witness:
  "\<exists>h' s'. bulk_move (\<lambda>_. 0) [True, False, True] (sample_items, \<lparr>hashpower = 2, primary_hashtable = (\<lambda>_. NULL),
     old_hashtable = (\<lambda>_. NULL), expanding = True, started_expanding = False, expand_bucket = 0\<rparr>) = Some (h', s') \<and>
     \<not> expanding s'"
proof -
  let ?s = "\<lparr>hashpower = 2, primary_hashtable = (\<lambda>_. NULL), old_hashtable = (\<lambda>_. NULL), expanding = True,
     started_expanding = False, expand_bucket = 0\<rparr> :: assoc"
  have "table_rep (\<lambda>_. 0) (sample_items, ?s) Map.empty"
    by (auto simp: table_rep_def assoc_rep_def assoc_lists_def assoc_wf_def bucket_head_def hashsize_pos
        split: bucket.split intro!: exI [of _ "\<lambda>_. []"])
  moreover have "rounds_left ?s \<le> length (filter id [True, False, True])"
    by (simp add: rounds_left_def hashsize_pos)
  ultimately show ?thesis using expansion_ends by blast
qed

end
