(* ===== verification/Cache_Pool.thy ===== *)
theory Cache_Pool
  imports Item
begin

text \<open>
  The object cache of memcached (\<open>cache.c\<close>): a stack of free objects in front of \<open>malloc\<close>, and in the
  debug build (\<open>nd = False\<close>, no \<open>NDEBUG\<close>) a pattern before and behind each object that is checked when the
  object comes back. The results of \<open>malloc\<close>, \<open>realloc\<close> and the constructor are arguments of the
  operations; the callbacks themselves and the mutex around each operation are not modelled.
  The counters \<open>freetotal\<close> and \<open>freecurr\<close> are C integers that count pointers in one array; they are natural numbers here.
\<close>

section \<open>The cache\<close>

record cache_t =
  ptr :: "nat \<Rightarrow> addr"
  bufsize :: nat
  freetotal :: nat
  freecurr :: nat
  has_constructor :: bool
  has_destructor :: bool

definition initial_pool_size :: nat where "initial_pool_size = 64"

text \<open>The eight bytes of \<open>redzone_pattern\<close> on a little-endian host.\<close>

definition redzone_pattern :: "byte list" where
  "redzone_pattern = [0xbe, 0xba, 0xfe, 0xca, 0xef, 0xbe, 0xad, 0xde]"

definition cache_create :: "bool \<Rightarrow> nat \<Rightarrow> bool \<Rightarrow> bool \<Rightarrow> bool \<Rightarrow> cache_t option" where
  "cache_create nd bs constructor destructor alloc_ok =
     (if alloc_ok
      then Some \<lparr>ptr = (\<lambda>_. NULL), bufsize = (if nd then bs else bs + 2 * 8), freetotal = initial_pool_size,
                 freecurr = 0, has_constructor = constructor, has_destructor = destructor\<rparr>
      else None)"

definition get_object :: "bool \<Rightarrow> addr \<Rightarrow> addr" where
  "get_object nd p = (if nd then p else p + 8)"

text \<open>The objects destroyed, in order: each is passed to the destructor and freed.\<close>

fun cache_destroy :: "nat \<Rightarrow> (nat \<Rightarrow> addr) \<Rightarrow> addr list" where
  "cache_destroy 0 p = []"
| "cache_destroy (Suc n) p = p n # cache_destroy n p"

text \<open>\<open>malloced\<close> is what \<open>malloc\<close> returns when it is called, \<open>constructed\<close> whether the constructor succeeds.\<close>

definition do_cache_alloc :: "bool \<Rightarrow> addr \<Rightarrow> bool \<Rightarrow> cache_t \<times> mem \<Rightarrow> addr \<times> cache_t \<times> mem" where
  "do_cache_alloc nd malloced constructed cm =
     (let (c, m) = cm;
          (ret, obj, c) =
            (if freecurr c > 0
             then let n = freecurr c - 1; ret = ptr c n in (ret, get_object nd ret, c\<lparr>freecurr := n\<rparr>)
             else if malloced \<noteq> NULL
             then (malloced, if has_constructor c \<and> \<not> constructed then NULL else get_object nd malloced, c)
             else (NULL, NULL, c));
          m = (if \<not> nd \<and> obj \<noteq> NULL
               then mem_write (mem_write m ret redzone_pattern) (ret + 8 + (bufsize c - 2 * 8)) redzone_pattern
               else m)
      in (obj, c, m))"

text \<open>What becomes of the object given back.\<close>

datatype free_result = Pooled | Freed | Redzone_after | Redzone_before

definition do_cache_free :: "bool \<Rightarrow> bool \<Rightarrow> addr \<Rightarrow> cache_t \<times> mem \<Rightarrow> free_result \<times> cache_t" where
  "do_cache_free nd realloc_ok obj cm =
     (let (c, m) = cm in
      if \<not> nd \<and> mem_read m (obj + bufsize c - 2 * 8) 8 \<noteq> redzone_pattern then (Redzone_after, c)
      else if \<not> nd \<and> mem_read m (obj - 8) 8 \<noteq> redzone_pattern then (Redzone_before, c)
      else let p = (if nd then obj else obj - 8) in
        if freecurr c < freetotal c
        then (Pooled, c\<lparr>ptr := (ptr c)(freecurr c := p), freecurr := freecurr c + 1\<rparr>)
        else if realloc_ok
        then (Pooled, c\<lparr>freetotal := freetotal c * 2, ptr := (ptr c)(freecurr c := p), freecurr := freecurr c + 1\<rparr>)
        else (Freed, c))"

section \<open>The pool\<close>

definition pool :: "cache_t \<Rightarrow> addr list" where
  "pool c = map (ptr c) [0..<freecurr c]"

definition cache_wf :: "cache_t \<Rightarrow> bool" where
  "cache_wf c \<longleftrightarrow> freecurr c \<le> freetotal c \<and> 0 < freetotal c"

lemma pool_pop: "freecurr c = Suc n \<Longrightarrow> pool c = pool (c\<lparr>freecurr := n\<rparr>) @ [ptr c n]"
  by (simp add: pool_def)

lemma pool_push:
  "freecurr c = n \<Longrightarrow> pool (c\<lparr>freetotal := t, ptr := (ptr c)(n := p), freecurr := Suc n\<rparr>) = pool c @ [p]"
  "freecurr c = n \<Longrightarrow> pool (c\<lparr>ptr := (ptr c)(n := p), freecurr := Suc n\<rparr>) = pool c @ [p]"
  by (auto simp: pool_def intro!: map_cong)

lemma cache_destroy_pool: "cache_destroy (freecurr c) (ptr c) = rev (pool c)"
proof -
  have "cache_destroy n p = rev (map p [0..<n])" for n p by (induction n) auto
  then show ?thesis by (simp add: pool_def)
qed

text \<open>
  The clients of a cache: an object is taken, or one that was taken is given back. The addresses are
  those of the blocks; \<open>used\<close> are the blocks in the clients' hands. \<open>malloc\<close> returns a block that is
  neither in the pool nor in use, or \<open>NULL\<close>.
\<close>

inductive cache_sys :: "cache_t \<times> addr set \<Rightarrow> bool" where
  create: "cache_create True bs con des True = Some c \<Longrightarrow> cache_sys (c, {})"
| alloc: "cache_sys (c, used) \<Longrightarrow> malloced \<notin> used \<Longrightarrow> malloced \<notin> set (pool c) \<Longrightarrow>
    do_cache_alloc True malloced constructed (c, m) = (obj, c', m') \<Longrightarrow>
    cache_sys (c', if obj = NULL then used else insert obj used)"
| free: "cache_sys (c, used) \<Longrightarrow> obj \<in> used \<Longrightarrow> do_cache_free True realloc_ok obj (c, m) = (r, c') \<Longrightarrow>
    cache_sys (c', used - {obj})"

lemma cache_sys_inv:
  "cache_sys cu \<Longrightarrow> distinct (pool (fst cu)) \<and> set (pool (fst cu)) \<inter> snd cu = {} \<and>
     0 \<notin> set (pool (fst cu)) \<and> 0 \<notin> snd cu \<and> cache_wf (fst cu)"
proof (induction rule: cache_sys.induct)
  case (create bs con des c)
  then show ?case by (auto simp: cache_create_def pool_def cache_wf_def initial_pool_size_def)
next
  case (alloc c used malloced constructed m obj c' m')
  show ?case
  proof (cases "freecurr c")
    case 0
    then show ?thesis using alloc
      by (auto simp: do_cache_alloc_def get_object_def Let_def pool_def split: if_splits)
  next
    case (Suc n)
    then have "obj = ptr c n" "c' = c\<lparr>freecurr := n\<rparr>"
      using alloc.hyps(4) by (auto simp: do_cache_alloc_def get_object_def Let_def)
    then show ?thesis using alloc.IH pool_pop [OF Suc] Suc by (auto simp: cache_wf_def)
  qed
next
  case (free c used obj realloc_ok m r c')
  then have "c' = c \<or> pool c' = pool c @ [obj] \<and> cache_wf c'"
    using pool_push by (auto simp: do_cache_free_def Let_def cache_wf_def split: if_splits)
  then show ?case using free by auto
qed

text \<open>
  C34. In every state that clients of a cache can reach, the pool holds no object twice and none that is
  in use, so an allocation never hands out an object somebody already has; nothing is lost on a
  successful free, and the next allocation returns the object freed last.
\<close>

theorem cache_never_shares:
  assumes "cache_sys (c, used)" and "malloced \<notin> used" "malloced \<notin> set (pool c)"
    and "do_cache_alloc True malloced constructed (c, m) = (obj, c', m')"
  shows "obj \<notin> used \<and> obj \<notin> set (pool c') \<and> set (pool c) \<subseteq> insert obj (set (pool c')) \<and>
    (\<forall>x \<in> used. do_cache_free True realloc_ok x (c, m) = (Pooled, c1) \<longrightarrow>
       fst (do_cache_alloc True malloced constructed (c1, m)) = x)"
proof -
  note inv = cache_sys_inv [OF assms(1), simplified]
  have "obj \<notin> used \<and> obj \<notin> set (pool c') \<and> set (pool c) \<subseteq> insert obj (set (pool c'))"
  proof (cases "freecurr c")
    case 0
    then have p: "pool c = []" "pool c' = []"
      using assms(4) by (auto simp: pool_def do_cache_alloc_def Let_def split: if_splits)
    moreover have "obj = 0 \<or> obj = malloced"
      using assms(4) 0 by (auto simp: do_cache_alloc_def get_object_def Let_def split: if_splits)
    ultimately show ?thesis using assms(2) inv by auto
  next
    case (Suc n)
    then have "obj = ptr c n" "c' = c\<lparr>freecurr := n\<rparr>"
      using assms(4) by (auto simp: do_cache_alloc_def get_object_def Let_def)
    then show ?thesis using inv pool_pop [OF Suc] by auto
  qed
  moreover have "fst (do_cache_alloc True malloced constructed (c1, m)) = x"
    if "do_cache_free True realloc_ok x (c, m) = (Pooled, c1)" for x
    using that by (auto simp: do_cache_free_def do_cache_alloc_def get_object_def Let_def split: if_splits)
  ultimately show ?thesis by blast
qed

section \<open>The guards of the debug build\<close>

lemma debug_alloc_guards:
  assumes "bufsize c = bs + 2 * 8" and "do_cache_alloc False malloced constructed (c, m) = (obj, c', m')" "obj \<noteq> NULL"
  shows "mem_read m' (obj + bs) 8 = redzone_pattern" "mem_read m' (obj - 8) 8 = redzone_pattern" "8 \<le> obj"
    "bufsize c' = bs + 2 * 8"
proof -
  have l: "length redzone_pattern = 8" by (simp add: redzone_pattern_def)
  obtain ret where r: "obj = ret + 8" "bufsize c' = bufsize c"
      "m' = mem_write (mem_write m ret redzone_pattern) (ret + 8 + bs) redzone_pattern"
    using assms by (auto simp: do_cache_alloc_def get_object_def Let_def split: if_splits)
  show "mem_read m' (obj + bs) 8 = redzone_pattern"
    using mem_read_write_same [of _ "ret + 8 + bs" redzone_pattern] by (simp add: r l)
  show "mem_read m' (obj - 8) 8 = redzone_pattern"
    using mem_read_write_same [of m ret redzone_pattern] by (simp add: r l mem_read_write_disjoint)
  show "8 \<le> obj" "bufsize c' = bs + 2 * 8" using r assms(1) by simp_all
qed

lemma mem_read_changed: "i < n \<Longrightarrow> b \<noteq> m (a + i) \<Longrightarrow> mem_read (m(a + i := b)) a n \<noteq> mem_read m a n"
  by (metis fun_upd_same mem_read_nth)

lemma mem_read_upd_out: "x < a \<or> a + n \<le> x \<Longrightarrow> mem_read (m(x := b)) a n = mem_read m a n"
  by (rule mem_read_cong) auto

text \<open>
  The guards of the debug build: when a client writes only into its object (\<open>bs\<close> bytes from the
  address it got), the object is accepted back; when it changes a byte right behind or right before its
  object, the damage is reported and the object is not put into the pool.
\<close>

theorem redzone_guards:
  assumes "bufsize c = bs + 2 * 8" and "do_cache_alloc False malloced constructed (c, m) = (obj, c', m')"
    and "obj \<noteq> NULL"
  shows "(length data = bs \<longrightarrow>
       fst (do_cache_free False realloc_ok obj (c', mem_write m' obj data)) \<in> {Pooled, Freed}) \<and>
    (i < 8 \<and> b \<noteq> m' (obj + bs + i) \<longrightarrow>
       do_cache_free False realloc_ok obj (c', m'(obj + bs + i := b)) = (Redzone_after, c')) \<and>
    (i < 8 \<and> b \<noteq> m' (obj - 8 + i) \<longrightarrow>
       do_cache_free False realloc_ok obj (c', m'(obj - 8 + i := b)) = (Redzone_before, c'))"
proof (intro conjI impI)
  note g = debug_alloc_guards [OF assms]
  have at: "obj + bufsize c' - 2 * 8 = obj + bs" using g by simp
  show "fst (do_cache_free False realloc_ok obj (c', mem_write m' obj data)) \<in> {Pooled, Freed}" if "length data = bs"
    using g that by (simp add: do_cache_free_def mem_read_write_disjoint Let_def)
  show "do_cache_free False realloc_ok obj (c', m'(obj + bs + i := b)) = (Redzone_after, c')"
    if "i < 8 \<and> b \<noteq> m' (obj + bs + i)"
  proof -
    have "mem_read (m'(obj + bs + i := b)) (obj + bs) 8 \<noteq> redzone_pattern"
      using mem_read_changed [of i 8 b m' "obj + bs"] that g(1) by simp
    then show ?thesis unfolding do_cache_free_def using at by (simp add: Let_def)
  qed
  show "do_cache_free False realloc_ok obj (c', m'(obj - 8 + i := b)) = (Redzone_before, c')"
    if "i < 8 \<and> b \<noteq> m' (obj - 8 + i)"
  proof -
    have "mem_read (m'(obj - 8 + i := b)) (obj + bs) 8 = redzone_pattern"
      using g that by (subst mem_read_upd_out) auto
    moreover have "mem_read (m'(obj - 8 + i := b)) (obj - 8) 8 \<noteq> redzone_pattern"
      using mem_read_changed [of i 8 b m' "obj - 8"] that g(2) by simp
    ultimately show ?thesis unfolding do_cache_free_def using at by (simp add: Let_def)
  qed
qed

section \<open>Witnesses\<close>

definition sample_cache :: cache_t where
  "sample_cache = \<lparr>ptr = (\<lambda>_. NULL), bufsize = 24, freetotal = 64, freecurr = 0, has_constructor = False,
     has_destructor = False\<rparr>"

theorem cache_never_shares_witness:
  "fst (do_cache_alloc True 200 True (sample_cache, \<lambda>_. 0)) \<notin> {100 :: addr}"
proof -
  have "cache_sys (sample_cache, {})"
    by (rule cache_sys.create [of 24 False False]) (simp add: cache_create_def sample_cache_def initial_pool_size_def)
  from cache_sys.alloc [OF this, of 100 True "\<lambda>_. 0" 100 sample_cache "\<lambda>_. 0"]
  have used: "cache_sys (sample_cache, {100})"
    by (simp add: pool_def sample_cache_def do_cache_alloc_def get_object_def)
  show ?thesis
    using cache_never_shares [OF used, of 200 True "\<lambda>_. 0" 200 sample_cache "\<lambda>_. 0"]
    by (simp add: pool_def sample_cache_def do_cache_alloc_def get_object_def)
qed

theorem redzone_guards_witness:
  "fst (do_cache_free False True 108 (sample_cache,
     (snd (snd (do_cache_alloc False 100 True (sample_cache, \<lambda>_. 0))))(118 := 0))) = Redzone_after"
proof -
  let ?r = "do_cache_alloc False 100 True (sample_cache, \<lambda>_. 0)"
  have "fst ?r = 108" "fst (snd ?r) = sample_cache"
    by (simp_all add: sample_cache_def do_cache_alloc_def get_object_def Let_def)
  then have r: "?r = (108, sample_cache, snd (snd ?r))" by (simp add: prod_eq_iff)
  have "snd (snd ?r) 118 = 0xfe"
    by (simp add: sample_cache_def do_cache_alloc_def get_object_def Let_def mem_write_def redzone_pattern_def)
  then show ?thesis
    using redzone_guards [of sample_cache 8, OF _ r, of "[]" True 2 0] by (simp add: sample_cache_def)
qed

end
