(* ===== verification/Slab_Automove.thy ===== *)
theory Slab_Automove
  imports Prelude
begin

text \<open>
  The slab page mover's decision (\<open>slab_automove.c\<close>): from the statistics of two successive runs and a
  sliding window of observations per slab class, choose a class to take a page from and one to give it
  to (\<open>-1\<close>, \<open>-1\<close>: nothing to do; destination \<open>0\<close>: the global pool). The floating-point comparison
  \<open>youngest_age < (double)oldest_age * max_age_ratio\<close> is the parameter \<open>younger\<close>, a function of the two
  ages; the comparison with 2.5 pages is exact and is written with integers.
\<close>

section \<open>Statistics and windows\<close>

definition MAX_NUMBER_OF_SLAB_CLASSES :: nat where "MAX_NUMBER_OF_SLAB_CLASSES = 64"

record item_stats_automove =
  i_evicted :: int
  i_outofmemory :: int
  i_age :: u32

record slab_stats_automove =
  chunks_per_page :: u32
  chunk_size :: u32
  free_chunks :: int
  total_pages :: int

record window_data =
  age :: u64
  dirty :: u64
  evicted :: u64

record slab_automove =
  window :: "nat \<Rightarrow> window_data"
  window_size :: u32
  window_cur :: u32
  iam_before :: "nat \<Rightarrow> item_stats_automove"
  sam_before :: "nat \<Rightarrow> slab_stats_automove"

definition zero_window :: window_data where
  "zero_window = \<lparr>age = 0, dirty = 0, evicted = 0\<rparr>"

definition slab_automove_init ::
  "u32 \<Rightarrow> (nat \<Rightarrow> item_stats_automove) \<Rightarrow> (nat \<Rightarrow> slab_stats_automove) \<Rightarrow> slab_automove" where
  "slab_automove_init ws iam sam =
     \<lparr>window = (\<lambda>_. zero_window), window_size = ws, window_cur = 0, iam_before = iam, sam_before = sam\<rparr>"

definition add_window :: "window_data \<Rightarrow> window_data \<Rightarrow> window_data" where
  "add_window w d = \<lparr>age = age w + age d, dirty = dirty w + dirty d, evicted = evicted w + evicted d\<rparr>"

definition window_sum :: "(nat \<Rightarrow> window_data) \<Rightarrow> nat \<Rightarrow> nat \<Rightarrow> window_data" where
  "window_sum wd off n = fold (\<lambda>x w. add_window w (wd (off + x))) [0..<n] zero_window"

section \<open>One run\<close>

record am_loop =
  l_window :: "nat \<Rightarrow> window_data"
  l_oldest :: int
  l_oldest_age :: u64
  l_youngest :: int
  l_youngest_age :: u64
  l_youngest_evicting :: bool
  l_src :: int
  l_dst :: int

definition slot :: "slab_automove \<Rightarrow> nat \<Rightarrow> nat" where
  "slot a n = n * unat (window_size a) + unat (window_cur a mod window_size a)"

text \<open>The new observation of a class.\<close>

definition observe :: "slab_automove \<Rightarrow> (nat \<Rightarrow> item_stats_automove) \<Rightarrow> (nat \<Rightarrow> slab_stats_automove) \<Rightarrow>
    nat \<Rightarrow> window_data" where
  "observe a iam sam n =
     (let ev = i_evicted (iam n) - i_evicted (iam_before a n) > 0 \<or>
               i_outofmemory (iam n) - i_outofmemory (iam_before a n) > 0;
          dt = ev \<or> total_pages (sam n) - total_pages (sam_before a n) > 0
      in \<lparr>age = ucast (i_age (iam n)), dirty = (if dt then 1 else 0), evicted = (if ev then 1 else 0)\<rparr>)"

text \<open>The body of the loop over the classes; \<open>True\<close> when it ends with \<open>break\<close>.\<close>

definition am_class :: "slab_automove \<Rightarrow> (nat \<Rightarrow> item_stats_automove) \<Rightarrow> (nat \<Rightarrow> slab_stats_automove) \<Rightarrow>
    nat \<Rightarrow> am_loop \<Rightarrow> am_loop \<times> bool" where
  "am_class a iam sam n l =
     (let wd0 = (l_window l)(slot a n := zero_window);
          w_sum = window_sum wd0 (n * unat (window_size a)) (unat (window_size a));
          wd = observe a iam sam n;
          ag = age w_sum div ucast (window_size a);
          is_oldest = ag > l_oldest_age l \<and> total_pages (sam n) > 2;
          is_youngest = ag < l_youngest_age l \<and> evicted w_sum > ucast (window_size a div 2)
      in if free_chunks (sam n) * 2 > uint (chunks_per_page (sam n)) * 5 \<and> dirty w_sum = 0
         then (l\<lparr>l_window := wd0(slot a n := wd), l_src := int n, l_dst := 0\<rparr>, True)
         else (\<lparr>l_window = wd0(slot a n := wd),
                l_oldest = (if is_oldest then int n else l_oldest l),
                l_oldest_age = (if is_oldest then ag else l_oldest_age l),
                l_youngest = (if is_youngest then int n else l_youngest l),
                l_youngest_age = (if is_youngest then ag else l_youngest_age l),
                l_youngest_evicting = (if is_youngest then evicted wd \<noteq> 0 else l_youngest_evicting l),
                l_src = l_src l, l_dst = l_dst l\<rparr>, False))"

fun am_classes :: "slab_automove \<Rightarrow> (nat \<Rightarrow> item_stats_automove) \<Rightarrow> (nat \<Rightarrow> slab_stats_automove) \<Rightarrow>
    nat list \<Rightarrow> am_loop \<Rightarrow> am_loop" where
  "am_classes a iam sam [] l = l"
| "am_classes a iam sam (n # ns) l =
     (let (l, stop) = am_class a iam sam n l in if stop then l else am_classes a iam sam ns l)"

definition slab_automove_run :: "(u64 \<Rightarrow> u64 \<Rightarrow> bool) \<Rightarrow> (nat \<Rightarrow> item_stats_automove) \<Rightarrow>
    (nat \<Rightarrow> slab_stats_automove) \<Rightarrow> slab_automove \<Rightarrow> slab_automove \<times> int \<times> int" where
  "slab_automove_run younger iam sam a =
     (let a = a\<lparr>window_cur := window_cur a + 1\<rparr>;
          l = am_classes a iam sam [1..<MAX_NUMBER_OF_SLAB_CLASSES]
                \<lparr>l_window = window a, l_oldest = -1, l_oldest_age = 0, l_youngest = -1, l_youngest_age = - 1,
                 l_youngest_evicting = False, l_src = -1, l_dst = -1\<rparr>;
          a = a\<lparr>window := l_window l, iam_before := iam, sam_before := sam\<rparr>
      in if l_youngest l \<noteq> -1 \<and> l_oldest l \<noteq> -1 \<and> window_cur a > window_size a \<and>
            younger (l_youngest_age l) (l_oldest_age l) \<and> l_youngest_evicting l
         then (a, l_oldest l, l_youngest l)
         else (a, l_src l, l_dst l))"

section \<open>What a decision means\<close>

text \<open>
  The observations of a class that a run looks at: the whole window but the slot about to be written.
\<close>

definition past :: "slab_automove \<Rightarrow> nat \<Rightarrow> window_data list" where
  "past a n = map (\<lambda>i. if i = unat (window_cur a mod window_size a) then zero_window
     else window a (n * unat (window_size a) + i)) [0..<unat (window_size a)]"

definition flags_ok :: "window_data \<Rightarrow> bool" where
  "flags_ok w \<longleftrightarrow> dirty w \<le> 1 \<and> evicted w \<le> 1"

definition am_wf :: "slab_automove \<Rightarrow> bool" where
  "am_wf a \<longleftrightarrow> window_size a \<noteq> 0 \<and> (\<forall>i. flags_ok (window a i))"

definition avg_age :: "slab_automove \<Rightarrow> nat \<Rightarrow> u64" where
  "avg_age a n = sum_list (map age (past a n)) div ucast (window_size a)"

definition times_evicting :: "slab_automove \<Rightarrow> nat \<Rightarrow> nat" where
  "times_evicting a n = length (filter (\<lambda>w. evicted w = 1) (past a n))"

definition reclaimable :: "slab_automove \<Rightarrow> (nat \<Rightarrow> slab_stats_automove) \<Rightarrow> nat \<Rightarrow> bool" where
  "reclaimable a sam n \<longleftrightarrow> free_chunks (sam n) * 2 > uint (chunks_per_page (sam n)) * 5 \<and>
     (\<forall>w \<in> set (past a n). dirty w = 0)"

definition source_ok :: "(nat \<Rightarrow> slab_stats_automove) \<Rightarrow> nat \<Rightarrow> bool" where
  "source_ok sam n \<longleftrightarrow> total_pages (sam n) > 2"

definition starving :: "slab_automove \<Rightarrow> (nat \<Rightarrow> item_stats_automove) \<Rightarrow> nat \<Rightarrow> bool" where
  "starving a iam n \<longleftrightarrow> times_evicting a n > unat (window_size a) div 2 \<and>
     (i_evicted (iam n) > i_evicted (iam_before a n) \<or> i_outofmemory (iam n) > i_outofmemory (iam_before a n))"

section \<open>Sums\<close>

lemma window_sum_fields:
  "age (window_sum wd off n) = (\<Sum>i \<leftarrow> [0..<n]. age (wd (off + i)))"
  "dirty (window_sum wd off n) = (\<Sum>i \<leftarrow> [0..<n]. dirty (wd (off + i)))"
  "evicted (window_sum wd off n) = (\<Sum>i \<leftarrow> [0..<n]. evicted (wd (off + i)))"
proof -
  have "age (fold (\<lambda>x w. add_window w (wd (off + x))) xs w) = age w + (\<Sum>i \<leftarrow> xs. age (wd (off + i))) \<and>
    dirty (fold (\<lambda>x w. add_window w (wd (off + x))) xs w) = dirty w + (\<Sum>i \<leftarrow> xs. dirty (wd (off + i))) \<and>
    evicted (fold (\<lambda>x w. add_window w (wd (off + x))) xs w) = evicted w + (\<Sum>i \<leftarrow> xs. evicted (wd (off + i)))" for xs w
    by (induction xs arbitrary: w) (auto simp: add_window_def)
  then show "age (window_sum wd off n) = (\<Sum>i \<leftarrow> [0..<n]. age (wd (off + i)))"
    "dirty (window_sum wd off n) = (\<Sum>i \<leftarrow> [0..<n]. dirty (wd (off + i)))"
    "evicted (window_sum wd off n) = (\<Sum>i \<leftarrow> [0..<n]. evicted (wd (off + i)))"
    by (simp_all add: window_sum_def zero_window_def)
qed

text \<open>A sum of flags counts them: there are fewer than \<open>2^32\<close>, so it cannot wrap.\<close>

lemma le_one_cases: "x \<le> 1 \<longleftrightarrow> x = 0 \<or> x = 1" for x :: "'a :: len word"
proof -
  have "unat x \<le> 1 \<longleftrightarrow> unat x = 0 \<or> unat x = 1" by linarith
  then show ?thesis by (simp only: word_le_nat_alt word_unat_eq_iff unsigned_0 unsigned_1)
qed

lemma sum_flags:
  assumes "\<forall>x \<in> set xs. x \<le> 1" "length xs < 2 ^ LENGTH('a)"
  shows "unat (sum_list xs :: 'a :: len word) = length (filter (\<lambda>x. x = 1) xs)"
  using assms
proof (induction xs)
  case (Cons x xs)
  have l: "Suc (length (filter (\<lambda>x. x = 1) xs)) < 2 ^ LENGTH('a)"
    by (rule le_less_trans [OF Suc_le_mono [THEN iffD2, OF length_filter_le]]) (use Cons.prems(2) in simp)
  have IH: "unat (sum_list xs) = length (filter (\<lambda>x. x = 1) xs)" using Cons by simp
  have "unat (1 + sum_list xs) = Suc (unat (sum_list xs))" using l IH by (simp add: unat_word_ariths)
  then show ?case using Cons.prems IH by (auto simp: le_one_cases)
qed simp

section \<open>The loop over the classes\<close>

text \<open>The loop sees, of a class not yet visited, the window as it was before the run.\<close>

definition untouched :: "slab_automove \<Rightarrow> nat \<Rightarrow> am_loop \<Rightarrow> bool" where
  "untouched a n l \<longleftrightarrow> (\<forall>i < unat (window_size a). l_window l (n * unat (window_size a) + i) =
     window a (n * unat (window_size a) + i))"

lemma cur_less: "window_size a \<noteq> 0 \<Longrightarrow> unat (window_cur a mod window_size a) < unat (window_size a)"
  by (simp add: unat_mod unat_gt_0)

lemma slot_other:
  assumes "window_size a \<noteq> 0" "i < unat (window_size a)" "n' \<noteq> n"
  shows "n' * unat (window_size a) + i \<noteq> slot a n"
proof
  assume e: "n' * unat (window_size a) + i = slot a n"
  have "slot a n div unat (window_size a) = n" using cur_less [OF assms(1)] assms(1)
    by (simp add: slot_def unat_gt_0)
  moreover have "(n' * unat (window_size a) + i) div unat (window_size a) = n'" using assms by (simp add: unat_gt_0)
  ultimately show False using assms(3) e by simp
qed

lemma past_sum:
  assumes "untouched a n l" "window_size a \<noteq> 0"
  shows "map (\<lambda>i. ((l_window l)(slot a n := zero_window)) (n * unat (window_size a) + i)) [0..<unat (window_size a)] = past a n"
  using assms by (auto simp: past_def untouched_def slot_def)

lemma past_flags: "am_wf a \<Longrightarrow> w \<in> set (past a n) \<Longrightarrow> flags_ok w"
  by (auto simp: past_def am_wf_def flags_ok_def zero_window_def split: if_splits)

lemma length_past [simp]: "length (past a n) = unat (window_size a)"
  by (simp add: past_def)

lemma class_sums:
  assumes "am_wf a" "untouched a n l"
  defines "w \<equiv> window_sum ((l_window l)(slot a n := zero_window)) (n * unat (window_size a)) (unat (window_size a))"
  shows "age w div ucast (window_size a) = avg_age a n" "dirty w = 0 \<longleftrightarrow> (\<forall>x \<in> set (past a n). dirty x = 0)"
    "unat (evicted w) = times_evicting a n"
proof -
  have ws: "window_size a \<noteq> 0" using assms(1) by (simp add: am_wf_def)
  have fld: "(\<Sum>i \<leftarrow> [0..<unat (window_size a)]. f (((l_window l)(slot a n := zero_window)) (n * unat (window_size a) + i)))
      = sum_list (map f (past a n))" for f :: "window_data \<Rightarrow> u64"
    unfolding past_sum [OF assms(2) ws, symmetric] by (simp add: comp_def)
  show "age w div ucast (window_size a) = avg_age a n"
    unfolding w_def avg_age_def window_sum_fields fld ..
  have len: "length (map f (past a n)) < 2 ^ LENGTH(64)" for f :: "window_data \<Rightarrow> u64"
    using unat_u32_less [of "window_size a"] by simp
  have fl: "\<forall>x \<in> set (map dirty (past a n)). x \<le> 1" "\<forall>x \<in> set (map evicted (past a n)). x \<le> 1"
    using past_flags [OF assms(1)] by (auto simp: flags_ok_def)
  have "unat (dirty w) = length (filter (\<lambda>x. x = 1) (map dirty (past a n)))"
    using sum_flags [OF fl(1) len] unfolding w_def window_sum_fields fld .
  then have "dirty w = 0 \<longleftrightarrow> filter (\<lambda>x. x = 1) (map dirty (past a n)) = []"
    by (metis length_0_conv unat_eq_zero)
  also have "\<dots> \<longleftrightarrow> (\<forall>x \<in> set (past a n). dirty x = 0)"
    using fl(1) by (auto simp: filter_empty_conv le_one_cases)
  finally show "dirty w = 0 \<longleftrightarrow> (\<forall>x \<in> set (past a n). dirty x = 0)" .
  show "unat (evicted w) = times_evicting a n"
    using sum_flags [OF fl(2) len] unfolding w_def window_sum_fields fld times_evicting_def
    by (simp add: filter_map comp_def)
qed

definition am_inv :: "slab_automove \<Rightarrow> (nat \<Rightarrow> item_stats_automove) \<Rightarrow> (nat \<Rightarrow> slab_stats_automove) \<Rightarrow> am_loop \<Rightarrow> bool" where
  "am_inv a iam sam l \<longleftrightarrow> (\<forall>i. flags_ok (l_window l i)) \<and>
     (l_oldest l = -1 \<or> (\<exists>n. l_oldest l = int n \<and> n \<in> {1..<64} \<and> source_ok sam n \<and> l_oldest_age l = avg_age a n)) \<and>
     (l_youngest l = -1 \<or> (\<exists>n. l_youngest l = int n \<and> n \<in> {1..<64} \<and> l_youngest_age l = avg_age a n \<and>
        (l_youngest_evicting l \<longrightarrow> starving a iam n))) \<and>
     (l_src l = -1 \<and> l_dst l = -1 \<or> (\<exists>n. l_src l = int n \<and> l_dst l = 0 \<and> n \<in> {1..<64} \<and> reclaimable a sam n))"

lemma observe_flags: "flags_ok (observe a iam sam n)"
  "evicted (observe a iam sam n) \<noteq> 0 \<longleftrightarrow>
     i_evicted (iam n) > i_evicted (iam_before a n) \<or> i_outofmemory (iam n) > i_outofmemory (iam_before a n)"
  by (auto simp: observe_def flags_ok_def Let_def)

lemma am_class_inv:
  assumes "am_wf a" "untouched a n l" "am_inv a iam sam l" "n \<in> {1..<64}" "am_class a iam sam n l = (l', stop)"
  shows "am_inv a iam sam l' \<and> (\<forall>n'. n' \<noteq> n \<longrightarrow> untouched a n' l \<longrightarrow> untouched a n' l')"
proof -
  note sums = class_sums [OF assms(1,2)]
  have half: "evicted (window_sum ((l_window l)(slot a n := zero_window)) (n * unat (window_size a)) (unat (window_size a))) >
      ucast (window_size a div 2) \<longleftrightarrow> times_evicting a n > unat (window_size a) div 2"
    using sums(3) unat_u32_less [of "window_size a div 2"]
    by (simp add: word_less_nat_alt unat_ucast unat_div)
  have win: "l_window l' = (l_window l)(slot a n := observe a iam sam n)"
    using assms(5) by (auto simp: am_class_def Let_def split: if_splits)
  then have "untouched a n' l'" if "n' \<noteq> n" "untouched a n' l" for n'
    using that slot_other [of a _ n' n] assms(1) by (auto simp: untouched_def am_wf_def)
  moreover have fl: "\<forall>i. flags_ok (l_window l' i)"
    using assms(3) observe_flags(1) by (simp add: am_inv_def win)
  moreover have o: "l_oldest l' = l_oldest l \<and> l_oldest_age l' = l_oldest_age l \<or>
      l_oldest l' = int n \<and> source_ok sam n \<and> l_oldest_age l' = avg_age a n"
    using assms(5) by (auto simp: am_class_def Let_def sums source_ok_def split: if_splits)
  moreover have y: "l_youngest l' = l_youngest l \<and> l_youngest_age l' = l_youngest_age l \<and>
        l_youngest_evicting l' = l_youngest_evicting l \<or>
      l_youngest l' = int n \<and> l_youngest_age l' = avg_age a n \<and> (l_youngest_evicting l' \<longrightarrow> starving a iam n)"
    using assms(5) by (auto simp: am_class_def Let_def sums half starving_def observe_flags split: if_splits)
  moreover have sd: "l_src l' = l_src l \<and> l_dst l' = l_dst l \<or> l_src l' = int n \<and> l_dst l' = 0 \<and> reclaimable a sam n"
    using assms(5) by (auto simp: am_class_def Let_def sums reclaimable_def split: if_splits)
  moreover have "am_inv a iam sam l'"
    using assms(3) unfolding am_inv_def
  proof (elim conjE, intro conjI, goal_cases)
    case 2
    then show ?case using o assms(4) by auto
  next
    case 3
    then show ?case using y assms(4) by auto
  next
    case 4
    then show ?case using sd assms(4) by auto
  qed (use fl in simp)
  ultimately show ?thesis by blast
qed

lemma am_classes_inv:
  "am_wf a \<Longrightarrow> \<forall>n \<in> set ns. untouched a n l \<and> n \<in> {1..<64} \<Longrightarrow> distinct ns \<Longrightarrow> am_inv a iam sam l \<Longrightarrow>
   am_inv a iam sam (am_classes a iam sam ns l)"
proof (induction ns arbitrary: l)
  case (Cons n ns)
  obtain l' stop where r: "am_class a iam sam n l = (l', stop)" by fastforce
  have n: "untouched a n l" "n \<in> {1..<64}" using Cons.prems(2) by auto
  note step = am_class_inv [OF Cons.prems(1) n(1) Cons.prems(4) n(2) r]
  show ?case
  proof (cases stop)
    case False
    have "\<forall>n' \<in> set ns. untouched a n' l' \<and> n' \<in> {1..<64}" using step Cons.prems(2,3) by auto
    then show ?thesis using Cons.IH [of l'] step Cons.prems r False by simp
  qed (use step r in simp)
qed simp

section \<open>Properties\<close>

text \<open>
  C35. A decision of the page mover is justified by what was observed. When a class gives a page to the
  global pool, it has more than two and a half pages of free chunks and no observation in its window is
  marked dirty. When a page goes from one class to another, the window has filled once, the source has
  more than two pages, the destination ran out of memory or evicted since the last run and in more than
  half of its window, and the average ages are outside the ratio (so the classes differ). In every case
  the state stays well formed for the next run.
\<close>

theorem slab_automove_sound:
  assumes "am_wf a" and "slab_automove_run younger iam sam a = (a', src, dst)" and "\<And>x. \<not> younger x x"
  shows "am_wf a' \<and>
    (let b = a\<lparr>window_cur := window_cur a + 1\<rparr> in
     src = -1 \<and> dst = -1 \<or>
     (\<exists>n \<in> {1..<64}. src = int n \<and> dst = 0 \<and> reclaimable b sam n) \<or>
     (\<exists>n \<in> {1..<64}. \<exists>k \<in> {1..<64}. src = int n \<and> dst = int k \<and> n \<noteq> k \<and> source_ok sam n \<and> starving b iam k \<and>
        younger (avg_age b k) (avg_age b n) \<and> window_size b < window_cur b))"
proof -
  let ?b = "a\<lparr>window_cur := window_cur a + 1\<rparr>"
  let ?l0 = "\<lparr>l_window = window ?b, l_oldest = -1, l_oldest_age = 0, l_youngest = -1, l_youngest_age = - 1,
                 l_youngest_evicting = False, l_src = -1, l_dst = -1\<rparr>"
  define l where "l = am_classes ?b iam sam [1..<MAX_NUMBER_OF_SLAB_CLASSES] ?l0"
  have wf: "am_wf ?b" using assms(1) by (simp add: am_wf_def)
  have inv: "am_inv ?b iam sam l"
    unfolding l_def MAX_NUMBER_OF_SLAB_CLASSES_def
    using wf by (intro am_classes_inv) (auto simp: untouched_def am_inv_def am_wf_def)
  have res: "(a', src, dst) = (?b\<lparr>window := l_window l, iam_before := iam, sam_before := sam\<rparr>,
     if l_youngest l \<noteq> -1 \<and> l_oldest l \<noteq> -1 \<and> window_cur ?b > window_size ?b \<and>
        younger (l_youngest_age l) (l_oldest_age l) \<and> l_youngest_evicting l
     then (l_oldest l, l_youngest l) else (l_src l, l_dst l))"
    using assms(2) unfolding slab_automove_run_def Let_def l_def [symmetric] by (auto split: if_splits)
  have "am_wf a'" using res inv wf by (simp add: am_wf_def am_inv_def)
  moreover have "src = -1 \<and> dst = -1 \<or>
     (\<exists>n \<in> {1..<64}. src = int n \<and> dst = 0 \<and> reclaimable ?b sam n) \<or>
     (\<exists>n \<in> {1..<64}. \<exists>k \<in> {1..<64}. src = int n \<and> dst = int k \<and> n \<noteq> k \<and> source_ok sam n \<and> starving ?b iam k \<and>
        younger (avg_age ?b k) (avg_age ?b n) \<and> window_size ?b < window_cur ?b)"
  proof (cases "l_youngest l \<noteq> -1 \<and> l_oldest l \<noteq> -1 \<and> window_cur ?b > window_size ?b \<and>
      younger (l_youngest_age l) (l_oldest_age l) \<and> l_youngest_evicting l")
    case True
    then obtain n k where "l_oldest l = int n" "n \<in> {1..<64}" "source_ok sam n" "l_oldest_age l = avg_age ?b n"
        "l_youngest l = int k" "k \<in> {1..<64}" "l_youngest_age l = avg_age ?b k" "starving ?b iam k"
      using inv unfolding am_inv_def by metis
    moreover from this True assms(3) have "n \<noteq> k" by auto
    moreover have "src = l_oldest l" "dst = l_youngest l" using res True by auto
    ultimately show ?thesis using True by auto
  next
    case False
    then have "src = l_src l" "dst = l_dst l" using res by (auto simp only: if_False prod.inject)
    then show ?thesis using inv unfolding am_inv_def by auto
  qed
  ultimately show ?thesis by (simp add: Let_def)
qed

definition sample_slabs :: "nat \<Rightarrow> slab_stats_automove" where
  "sample_slabs n = \<lparr>chunks_per_page = 100, chunk_size = 96, free_chunks = (if n = 3 then 251 else 10), total_pages = 4\<rparr>"

definition sample_ages :: "nat \<Rightarrow> item_stats_automove" where
  "sample_ages n = \<lparr>i_evicted = 0, i_outofmemory = 0, i_age = 7\<rparr>"

theorem slab_automove_sound_witness:
  "\<exists>a' src dst. slab_automove_run (\<lambda>x y. x < y) sample_ages sample_slabs
     (slab_automove_init 2 sample_ages sample_slabs) = (a', src, dst) \<and> am_wf a'"
proof -
  have wf: "am_wf (slab_automove_init 2 sample_ages sample_slabs)"
    by (simp add: am_wf_def slab_automove_init_def flags_ok_def zero_window_def)
  obtain a' src dst where r: "slab_automove_run (\<lambda>x y. x < y) sample_ages sample_slabs
     (slab_automove_init 2 sample_ages sample_slabs) = (a', src, dst)"
    by (metis prod.exhaust)
  show ?thesis using slab_automove_sound [OF wf r] r by auto
qed

end
