(* ===== verification/Slab_Automove_Ext.thy ===== *)
theory Slab_Automove_Ext
  imports Slab_Automove
begin

text \<open>
  The page mover for servers with external storage (\<open>slab_automove_extstore.c\<close>). Beside the windows of
  the classes it watches the global page pool, and it computes how many chunks each class should keep
  free. The products with \<open>free_ratio\<close>, truncated to an unsigned int, are the parameter \<open>scale\<close>, and the
  comparison of ages with \<open>max_age_ratio\<close> is the parameter \<open>younger\<close>, as in \<open>Slab_Automove\<close>.
\<close>

section \<open>State\<close>

record window_data_x = window_data +
  excess_free :: u32
  relaxed :: u32

record window_global =
  pool_low :: u32
  pool_high :: u32

record automove_x =
  x_window :: "nat \<Rightarrow> window_data_x"
  x_global :: "nat \<Rightarrow> window_global"
  x_size :: u32
  x_cur :: u32
  item_size :: u32
  last_memcheck_run :: u32
  pool_filled_once :: bool
  free_mem :: "nat \<Rightarrow> u32"
  ext_free_memchunks :: "nat \<Rightarrow> u32"
  x_iam_before :: "nat \<Rightarrow> item_stats_automove"
  x_sam_before :: "nat \<Rightarrow> slab_stats_automove"

definition zero_window_x :: window_data_x where
  "zero_window_x = \<lparr>age = 0, dirty = 0, evicted = 0, excess_free = 0, relaxed = 0\<rparr>"

definition zero_global :: window_global where
  "zero_global = \<lparr>pool_low = 0, pool_high = 0\<rparr>"

definition slab_automove_extstore_init ::
  "u32 \<Rightarrow> u32 \<Rightarrow> (nat \<Rightarrow> u32) \<Rightarrow> (nat \<Rightarrow> item_stats_automove) \<Rightarrow> (nat \<Rightarrow> slab_stats_automove) \<Rightarrow> automove_x" where
  "slab_automove_extstore_init ws ext_item_size memchunks iam sam =
     \<lparr>x_window = (\<lambda>_. zero_window_x), x_global = (\<lambda>_. zero_global), x_size = ws, x_cur = 0,
      item_size = ext_item_size, last_memcheck_run = 0, pool_filled_once = False, free_mem = (\<lambda>_. 0),
      ext_free_memchunks = memchunks, x_iam_before = iam, x_sam_before = sam\<rparr>"

definition add_window_x :: "window_data_x \<Rightarrow> window_data_x \<Rightarrow> window_data_x" where
  "add_window_x w d = \<lparr>age = age w + age d, dirty = dirty w + dirty d, evicted = evicted w + evicted d,
     excess_free = excess_free w + excess_free d, relaxed = relaxed w + relaxed d\<rparr>"

definition window_sum_x :: "(nat \<Rightarrow> window_data_x) \<Rightarrow> nat \<Rightarrow> nat \<Rightarrow> window_data_x" where
  "window_sum_x wd off n = fold (\<lambda>x w. add_window_x w (wd (off + x))) [0..<n] zero_window_x"

definition window_global_sum :: "(nat \<Rightarrow> window_global) \<Rightarrow> nat \<Rightarrow> window_global" where
  "window_global_sum wg n =
     fold (\<lambda>x w. \<lparr>pool_low = pool_low w + pool_low (wg x), pool_high = pool_high w + pool_high (wg x)\<rparr>)
       [0..<n] zero_global"

section \<open>Operations\<close>

text \<open>\<open>count\<close> and \<open>limit_reached\<close>: the size of the global pool and the flag that come with it.\<close>

definition global_pool_check :: "u32 \<Rightarrow> bool \<Rightarrow> automove_x \<Rightarrow> automove_x" where
  "global_pool_check count limit_reached a =
     (let fr = free_mem a 0;
          i = unat (x_cur a mod x_size a);
          a = a\<lparr>x_global := (x_global a)(i := zero_global)\<rparr>
      in if \<not> limit_reached then a
         else if count < fr div 2
         then a\<lparr>x_global := (x_global a)(i := zero_global\<lparr>pool_low := 1\<rparr>), pool_filled_once := True\<rparr>
         else if count > fr then a\<lparr>x_global := (x_global a)(i := zero_global\<lparr>pool_high := 1\<rparr>)\<rparr>
         else a\<lparr>pool_filled_once := True\<rparr>)"

text \<open>How many chunks a class should hold free: the ratio of its chunks, and at least 1.5 pages.\<close>

definition hold_free :: "(int \<Rightarrow> u32) \<Rightarrow> slab_stats_automove \<Rightarrow> u32" where
  "hold_free scale sam =
     (let hf = scale (total_pages sam * uint (chunks_per_page sam)) in
      if uint (chunks_per_page sam) * 3 > uint hf * 2 then word_of_int (uint (chunks_per_page sam) * 3 div 2) else hf)"

definition memcheck_class :: "(int \<Rightarrow> u32) \<Rightarrow> (nat \<Rightarrow> slab_stats_automove) \<Rightarrow> nat \<Rightarrow> automove_x \<times> u32 \<Rightarrow> automove_x \<times> u32" where
  "memcheck_class scale sam n at =
     (let (a, total) = at; hf = hold_free scale (sam n) in
      (a\<lparr>free_mem := (free_mem a)(n := hf),
         ext_free_memchunks := (if ext_free_memchunks a n \<noteq> hf \<and> pool_filled_once a
           then (ext_free_memchunks a)(n := hf) else ext_free_memchunks a)\<rparr>,
       total + word_of_int (total_pages (sam n))))"

definition memcheck :: "(int \<Rightarrow> u32) \<Rightarrow> u32 \<Rightarrow> (nat \<Rightarrow> slab_stats_automove) \<Rightarrow> automove_x \<Rightarrow> automove_x" where
  "memcheck scale current_time sam a =
     (if current_time < last_memcheck_run a + 60 then a
      else let a = a\<lparr>last_memcheck_run := current_time\<rparr>;
               (a, total) = fold (memcheck_class scale sam) [1..<MAX_NUMBER_OF_SLAB_CLASSES] (a, 0);
               total = total + word_of_int (total_pages (sam 0))
           in a\<lparr>free_mem := (free_mem a)(0 := scale (uint total))\<rparr>)"

definition x_slot :: "automove_x \<Rightarrow> nat \<Rightarrow> nat" where
  "x_slot a n = n * unat (x_size a) + unat (x_cur a mod x_size a)"

definition get_window_data :: "automove_x \<Rightarrow> nat \<Rightarrow> window_data_x" where
  "get_window_data a n = x_window a (x_slot a n)"

definition observe_x :: "automove_x \<Rightarrow> (nat \<Rightarrow> item_stats_automove) \<Rightarrow> (nat \<Rightarrow> slab_stats_automove) \<Rightarrow>
    nat \<Rightarrow> window_data_x" where
  "observe_x a iam sam n =
     (let ev = i_evicted (iam n) - i_evicted (x_iam_before a n) > 0 \<or>
               i_outofmemory (iam n) - i_outofmemory (x_iam_before a n) > 0;
          dt = ev \<or> total_pages (sam n) - total_pages (x_sam_before a n) > 0;
          ex = free_chunks (sam n) > uint (free_mem a n * 2) \<and> free_mem a n > 0
      in \<lparr>age = ucast (i_age (iam n)), dirty = (if dt then 1 else 0), evicted = (if ev then 1 else 0),
          excess_free = (if ex then 1 else 0), relaxed = 0\<rparr>)"

record x_loop =
  xl_window :: "nat \<Rightarrow> window_data_x"
  xl_oldest :: int
  xl_oldest_age :: u64
  xl_youngest :: int
  xl_youngest_age :: u64
  xl_too_free :: bool
  xl_src :: int
  xl_dst :: int

definition small_slab :: "automove_x \<Rightarrow> nat \<Rightarrow> bool" where
  "small_slab a n = (chunk_size (x_sam_before a n) < item_size a)"

definition x_class :: "automove_x \<Rightarrow> (nat \<Rightarrow> item_stats_automove) \<Rightarrow> (nat \<Rightarrow> slab_stats_automove) \<Rightarrow>
    nat \<Rightarrow> x_loop \<Rightarrow> x_loop" where
  "x_class a iam sam n l =
     (let small = small_slab a n;
          w_sum = window_sum_x (xl_window l) (n * unat (x_size a)) (unat (x_size a));
          wd = observe_x a iam sam n;
          free_enough = free_chunks (sam n) > uint (free_mem a n);
          ag = age w_sum div ucast (x_size a);
          reclaim = free_chunks (sam n) * 2 > uint (chunks_per_page (sam n)) * 5 \<and> dirty w_sum = 0 \<and>
            (small \<or> excess_free w_sum \<ge> x_size a);
          is_oldest = \<not> small \<and> ag > xl_oldest_age l \<and> total_pages (sam n) > 2;
          is_youngest = \<not> small \<and> ag < xl_youngest_age l \<and> total_pages (sam n) \<noteq> 0 \<and>
            excess_free w_sum < x_size a \<and> \<not> (relaxed w_sum \<noteq> 0 \<and> free_enough)
      in \<lparr>xl_window = (xl_window l)(x_slot a n := wd),
          xl_oldest = (if is_oldest then int n else xl_oldest l),
          xl_oldest_age = (if is_oldest then ag else xl_oldest_age l),
          xl_youngest = (if is_youngest then int n else xl_youngest l),
          xl_youngest_age = (if is_youngest then ag else xl_youngest_age l),
          xl_too_free = (reclaim \<or> xl_too_free l),
          xl_src = (if reclaim then int n else xl_src l),
          xl_dst = (if reclaim then 0 else xl_dst l)\<rparr>)"

definition relax :: "nat \<Rightarrow> automove_x \<Rightarrow> automove_x" where
  "relax n a = a\<lparr>x_window := (x_window a)(x_slot a n := (get_window_data a n)\<lparr>relaxed := 1\<rparr>)\<rparr>"

definition slab_automove_extstore_run ::
  "(u64 \<Rightarrow> u64 \<Rightarrow> bool) \<Rightarrow> (int \<Rightarrow> u32) \<Rightarrow> u32 \<Rightarrow> u32 \<Rightarrow> bool \<Rightarrow> (nat \<Rightarrow> item_stats_automove) \<Rightarrow>
   (nat \<Rightarrow> slab_stats_automove) \<Rightarrow> automove_x \<Rightarrow> automove_x \<times> int \<times> int" where
  "slab_automove_extstore_run younger scale current_time count limit_reached iam sam a =
     (let a = global_pool_check count limit_reached a;
          wg_sum = window_global_sum (x_global a) (unat (x_size a));
          a = a\<lparr>x_cur := x_cur a + 1\<rparr>;
          a = memcheck scale current_time sam a;
          l = fold (x_class a iam sam) [1..<MAX_NUMBER_OF_SLAB_CLASSES]
                \<lparr>xl_window = x_window a, xl_oldest = -1, xl_oldest_age = 0, xl_youngest = -1, xl_youngest_age = - 1,
                 xl_too_free = False, xl_src = -1, xl_dst = -1\<rparr>;
          a = a\<lparr>x_window := xl_window l, x_iam_before := iam, x_sam_before := sam\<rparr>;
          y = nat (xl_youngest l);
          absorbed = free_chunks (sam y) \<le> uint (free_mem a y)
      in if x_cur a < x_size a then (a, xl_src l, xl_dst l)
         else if pool_high wg_sum \<ge> x_size a \<and> pool_low wg_sum = 0 \<and> xl_youngest l \<noteq> -1
         then (relax y a, if absorbed then (0, xl_youngest l) else (xl_src l, xl_dst l))
         else if \<not> xl_too_free l \<and> pool_low wg_sum \<noteq> 0 \<and> xl_oldest l \<noteq> -1
         then (a, xl_oldest l, 0)
         else if \<not> xl_too_free l \<and> xl_youngest l \<noteq> -1 \<and> xl_oldest l \<noteq> -1 \<and> xl_youngest l \<noteq> xl_oldest l \<and>
                 younger (xl_youngest_age l) (xl_oldest_age l)
         then (relax y a, if absorbed then (0, xl_youngest l) else (xl_src l, xl_dst l))
         else (a, xl_src l, xl_dst l))"

section \<open>What a decision means\<close>

definition past_x :: "automove_x \<Rightarrow> nat \<Rightarrow> window_data_x list" where
  "past_x a n = map (\<lambda>i. x_window a (n * unat (x_size a) + i)) [0..<unat (x_size a)]"

definition past_global :: "automove_x \<Rightarrow> window_global list" where
  "past_global a = map (x_global a) [0..<unat (x_size a)]"

definition flags_ok_x :: "window_data_x \<Rightarrow> bool" where
  "flags_ok_x w \<longleftrightarrow> dirty w \<le> 1 \<and> excess_free w \<le> 1"

definition x_wf :: "automove_x \<Rightarrow> bool" where
  "x_wf a \<longleftrightarrow> x_size a \<noteq> 0 \<and> (\<forall>i. flags_ok_x (x_window a i)) \<and> (\<forall>i. pool_high (x_global a i) \<le> 1)"

definition avg_age_x :: "automove_x \<Rightarrow> nat \<Rightarrow> u64" where
  "avg_age_x a n = sum_list (map age (past_x a n)) div ucast (x_size a)"

text \<open>A class with pages to spare: free chunks, a clean window and, for large chunks, free all along.\<close>

definition spare :: "automove_x \<Rightarrow> (nat \<Rightarrow> slab_stats_automove) \<Rightarrow> nat \<Rightarrow> bool" where
  "spare a sam n \<longleftrightarrow> free_chunks (sam n) * 2 > uint (chunks_per_page (sam n)) * 5 \<and>
     (\<forall>w \<in> set (past_x a n). dirty w = 0) \<and> (small_slab a n \<or> (\<forall>w \<in> set (past_x a n). excess_free w = 1))"

definition old_source :: "automove_x \<Rightarrow> (nat \<Rightarrow> slab_stats_automove) \<Rightarrow> nat \<Rightarrow> bool" where
  "old_source a sam n \<longleftrightarrow> \<not> small_slab a n \<and> total_pages (sam n) > 2"

definition wants_pages :: "automove_x \<Rightarrow> (nat \<Rightarrow> slab_stats_automove) \<Rightarrow> nat \<Rightarrow> bool" where
  "wants_pages a sam n \<longleftrightarrow> \<not> small_slab a n \<and> total_pages (sam n) \<noteq> 0 \<and>
     (\<exists>w \<in> set (past_x a n). excess_free w = 0)"

section \<open>Sums\<close>

lemma window_sum_x_fields:
  "age (window_sum_x wd off n) = (\<Sum>i \<leftarrow> [0..<n]. age (wd (off + i)))"
  "dirty (window_sum_x wd off n) = (\<Sum>i \<leftarrow> [0..<n]. dirty (wd (off + i)))"
  "excess_free (window_sum_x wd off n) = (\<Sum>i \<leftarrow> [0..<n]. excess_free (wd (off + i)))"
proof -
  have "age (fold (\<lambda>x w. add_window_x w (wd (off + x))) xs w) = age w + (\<Sum>i \<leftarrow> xs. age (wd (off + i))) \<and>
    dirty (fold (\<lambda>x w. add_window_x w (wd (off + x))) xs w) = dirty w + (\<Sum>i \<leftarrow> xs. dirty (wd (off + i))) \<and>
    excess_free (fold (\<lambda>x w. add_window_x w (wd (off + x))) xs w) =
      excess_free w + (\<Sum>i \<leftarrow> xs. excess_free (wd (off + i)))" for xs w
    by (induction xs arbitrary: w) (auto simp: add_window_x_def)
  then show "age (window_sum_x wd off n) = (\<Sum>i \<leftarrow> [0..<n]. age (wd (off + i)))"
    "dirty (window_sum_x wd off n) = (\<Sum>i \<leftarrow> [0..<n]. dirty (wd (off + i)))"
    "excess_free (window_sum_x wd off n) = (\<Sum>i \<leftarrow> [0..<n]. excess_free (wd (off + i)))"
    by (simp_all add: window_sum_x_def zero_window_x_def)
qed

lemma window_global_sum_fields:
  "pool_low (window_global_sum wg n) = (\<Sum>i \<leftarrow> [0..<n]. pool_low (wg i))"
  "pool_high (window_global_sum wg n) = (\<Sum>i \<leftarrow> [0..<n]. pool_high (wg i))"
proof -
  have "pool_low (fold (\<lambda>x w. \<lparr>pool_low = pool_low w + pool_low (wg x), pool_high = pool_high w + pool_high (wg x)\<rparr>) xs w) =
      pool_low w + (\<Sum>i \<leftarrow> xs. pool_low (wg i)) \<and>
    pool_high (fold (\<lambda>x w. \<lparr>pool_low = pool_low w + pool_low (wg x), pool_high = pool_high w + pool_high (wg x)\<rparr>) xs w) =
      pool_high w + (\<Sum>i \<leftarrow> xs. pool_high (wg i))" for xs w
    by (induction xs arbitrary: w) auto
  then show "pool_low (window_global_sum wg n) = (\<Sum>i \<leftarrow> [0..<n]. pool_low (wg i))"
    "pool_high (window_global_sum wg n) = (\<Sum>i \<leftarrow> [0..<n]. pool_high (wg i))"
    by (simp_all add: window_global_sum_def zero_global_def)
qed

text \<open>Sums of flags over a window: zero when none is set, the size of the window when all are.\<close>

lemma flag_sum_zero:
  assumes "\<forall>x \<in> set xs. x \<le> 1" "length xs < 2 ^ LENGTH('a)"
  shows "(sum_list xs :: 'a :: len word) = 0 \<longleftrightarrow> (\<forall>x \<in> set xs. x = 0)"
proof -
  have "sum_list xs = 0 \<longleftrightarrow> filter (\<lambda>x. x = 1) xs = []"
    using sum_flags [OF assms] by (metis length_0_conv unat_eq_zero)
  then show ?thesis using assms(1) by (auto simp: filter_empty_conv le_one_cases)
qed

lemma flag_sum_full:
  assumes "\<forall>x \<in> set xs. x \<le> 1" "length xs = unat (n :: u32)"
  shows "n \<le> sum_list xs \<longleftrightarrow> (\<forall>x \<in> set xs. x = 1)"
proof -
  have "length xs < 2 ^ LENGTH(32)" using assms(2) unat_u32_less [of n] by simp
  then have "n \<le> sum_list xs \<longleftrightarrow> length xs \<le> length (filter (\<lambda>x. x = 1) xs)"
    using sum_flags [OF assms(1)] assms(2) by (simp add: word_le_nat_alt)
  also have "\<dots> \<longleftrightarrow> filter (\<lambda>x. x = 1) xs = xs"
    using length_filter_le [of "\<lambda>x. x = 1" xs] by (metis filter_id_conv le_antisym length_filter_less linorder_not_less order_refl)
  finally show ?thesis by (simp add: filter_id_conv)
qed

definition untouched_x :: "automove_x \<Rightarrow> nat \<Rightarrow> x_loop \<Rightarrow> bool" where
  "untouched_x a n l \<longleftrightarrow> (\<forall>i < unat (x_size a). xl_window l (n * unat (x_size a) + i) =
     x_window a (n * unat (x_size a) + i))"

lemma class_sums_x:
  assumes "x_wf a" "untouched_x a n l"
  defines "w \<equiv> window_sum_x (xl_window l) (n * unat (x_size a)) (unat (x_size a))"
  shows "age w div ucast (x_size a) = avg_age_x a n" "dirty w = 0 \<longleftrightarrow> (\<forall>x \<in> set (past_x a n). dirty x = 0)"
    "x_size a \<le> excess_free w \<longleftrightarrow> (\<forall>x \<in> set (past_x a n). excess_free x = 1)"
proof -
  have p: "map (\<lambda>i. xl_window l (n * unat (x_size a) + i)) [0..<unat (x_size a)] = past_x a n"
    using assms(2) by (auto simp: past_x_def untouched_x_def)
  have fld: "(\<Sum>i \<leftarrow> [0..<unat (x_size a)]. f (xl_window l (n * unat (x_size a) + i))) = sum_list (map f (past_x a n))"
    for f :: "window_data_x \<Rightarrow> 'b :: len word"
    unfolding p [symmetric] by (simp add: comp_def)
  have fl: "\<forall>x \<in> set (map dirty (past_x a n)). x \<le> 1" "\<forall>x \<in> set (map excess_free (past_x a n)). x \<le> 1"
    using assms(1) by (auto simp: past_x_def x_wf_def flags_ok_x_def)
  have len: "length (map dirty (past_x a n)) < 2 ^ LENGTH(64)"
    using unat_u32_less [of "x_size a"] by (simp add: past_x_def)
  show "age w div ucast (x_size a) = avg_age_x a n"
    unfolding w_def avg_age_x_def window_sum_x_fields fld ..
  show "dirty w = 0 \<longleftrightarrow> (\<forall>x \<in> set (past_x a n). dirty x = 0)"
    using flag_sum_zero [OF fl(1) len] unfolding w_def window_sum_x_fields fld by simp
  show "x_size a \<le> excess_free w \<longleftrightarrow> (\<forall>x \<in> set (past_x a n). excess_free x = 1)"
    using flag_sum_full [OF fl(2), of "x_size a"] unfolding w_def window_sum_x_fields fld by (simp add: past_x_def)
qed

section \<open>The loop over the classes\<close>

definition xl_inv :: "automove_x \<Rightarrow> (nat \<Rightarrow> slab_stats_automove) \<Rightarrow> x_loop \<Rightarrow> bool" where
  "xl_inv a sam l \<longleftrightarrow> (\<forall>i. flags_ok_x (xl_window l i)) \<and>
     (xl_oldest l = -1 \<or> (\<exists>n. xl_oldest l = int n \<and> n \<in> {1..<64} \<and> old_source a sam n \<and> xl_oldest_age l = avg_age_x a n)) \<and>
     (xl_youngest l = -1 \<or> (\<exists>n. xl_youngest l = int n \<and> n \<in> {1..<64} \<and> wants_pages a sam n \<and>
        xl_youngest_age l = avg_age_x a n)) \<and>
     (xl_src l = -1 \<and> xl_dst l = -1 \<or> (\<exists>n. xl_src l = int n \<and> xl_dst l = 0 \<and> n \<in> {1..<64} \<and> spare a sam n))"

lemma x_slot_other:
  assumes "x_size a \<noteq> 0" "i < unat (x_size a)" "n' \<noteq> n"
  shows "n' * unat (x_size a) + i \<noteq> x_slot a n"
proof
  assume e: "n' * unat (x_size a) + i = x_slot a n"
  have "x_slot a n div unat (x_size a) = n" using assms(1) by (simp add: x_slot_def unat_gt_0 unat_mod)
  moreover have "(n' * unat (x_size a) + i) div unat (x_size a) = n'" using assms by (simp add: unat_gt_0)
  ultimately show False using assms(3) e by simp
qed

lemma x_class_inv:
  assumes "x_wf a" "untouched_x a n l" "xl_inv a sam l" "n \<in> {1..<64}" and l': "l' = x_class a iam sam n l"
  shows "xl_inv a sam l' \<and> (\<forall>n'. n' \<noteq> n \<longrightarrow> untouched_x a n' l \<longrightarrow> untouched_x a n' l')"
proof -
  let ?w = "window_sum_x (xl_window l) (n * unat (x_size a)) (unat (x_size a))"
  note sums = class_sums_x [OF assms(1,2)]
  have nex: "excess_free ?w < x_size a \<longleftrightarrow> (\<exists>x \<in> set (past_x a n). excess_free x = 0)"
  proof -
    have "\<forall>x \<in> set (past_x a n). excess_free x = 0 \<or> excess_free x = 1"
      using assms(1) by (auto simp: past_x_def x_wf_def flags_ok_x_def le_one_cases)
    then show ?thesis using sums(3) by (metis linorder_not_le zero_neq_one)
  qed
  have win: "xl_window l' = (xl_window l)(x_slot a n := observe_x a iam sam n)"
    by (simp add: l' x_class_def Let_def)
  then have "untouched_x a n' l'" if "n' \<noteq> n" "untouched_x a n' l" for n'
    using that x_slot_other [of a _ n' n] assms(1) by (auto simp: untouched_x_def x_wf_def)
  moreover have fl: "\<forall>i. flags_ok_x (xl_window l' i)"
    using assms(3) by (simp add: xl_inv_def win flags_ok_x_def observe_x_def Let_def)
  moreover have o: "xl_oldest l' = xl_oldest l \<and> xl_oldest_age l' = xl_oldest_age l \<or>
      xl_oldest l' = int n \<and> old_source a sam n \<and> xl_oldest_age l' = avg_age_x a n"
    by (simp add: l' x_class_def Let_def sums old_source_def)
  moreover have y: "xl_youngest l' = xl_youngest l \<and> xl_youngest_age l' = xl_youngest_age l \<or>
      xl_youngest l' = int n \<and> wants_pages a sam n \<and> xl_youngest_age l' = avg_age_x a n"
    by (auto simp: l' x_class_def Let_def sums nex wants_pages_def)
  moreover have sd: "xl_src l' = xl_src l \<and> xl_dst l' = xl_dst l \<or> xl_src l' = int n \<and> xl_dst l' = 0 \<and> spare a sam n"
    by (auto simp: l' x_class_def Let_def sums spare_def)
  moreover have "xl_inv a sam l'"
    using assms(3) unfolding xl_inv_def
  proof (elim conjE, intro conjI, goal_cases)
    case 2
    then show ?case using o assms(4) by auto
  next
    case 3
    then show ?case using y assms(4) by auto
  next
    case 4
    then show ?case using sd assms(4) by auto
  qed (use fl in simp)
  ultimately show ?thesis by blast
qed

lemma x_classes_inv:
  "x_wf a \<Longrightarrow> \<forall>n \<in> set ns. untouched_x a n l \<and> n \<in> {1..<64} \<Longrightarrow> distinct ns \<Longrightarrow> xl_inv a sam l \<Longrightarrow>
   xl_inv a sam (fold (x_class a iam sam) ns l)"
proof (induction ns arbitrary: l)
  case (Cons n ns)
  have n: "untouched_x a n l" "n \<in> {1..<64}" using Cons.prems(2) by auto
  note step = x_class_inv [OF Cons.prems(1) n(1) Cons.prems(4) n(2) refl, of iam]
  have "\<forall>n' \<in> set ns. untouched_x a n' (x_class a iam sam n l) \<and> n' \<in> {1..<64}" using step Cons.prems(2,3) by auto
  then show ?case using Cons.IH [of "x_class a iam sam n l"] step Cons.prems by simp
qed simp

section \<open>The parts around the loop\<close>

lemma pool_check_wf: "x_wf a \<Longrightarrow> x_wf (global_pool_check count lim a)"
  by (auto simp: global_pool_check_def x_wf_def zero_global_def Let_def)

lemma memcheck_classes_frame:
  "x_window (fst (fold (memcheck_class scale sam) ns at)) = x_window (fst at)"
  "x_global (fst (fold (memcheck_class scale sam) ns at)) = x_global (fst at)"
  "x_size (fst (fold (memcheck_class scale sam) ns at)) = x_size (fst at)"
  "x_cur (fst (fold (memcheck_class scale sam) ns at)) = x_cur (fst at)"
  by (induction ns arbitrary: at) (simp_all add: memcheck_class_def Let_def case_prod_beta)

lemma memcheck_frame:
  "x_window (memcheck scale now sam a) = x_window a" "x_global (memcheck scale now sam a) = x_global a"
  "x_size (memcheck scale now sam a) = x_size a" "x_cur (memcheck scale now sam a) = x_cur a"
  by (simp_all add: memcheck_def Let_def case_prod_beta memcheck_classes_frame)

lemma sum_list_zero: "\<forall>w \<in> set ws. f w = 0 \<Longrightarrow> sum_list (map f ws) = (0 :: u32)"
  by (induction ws) auto

lemma relax_wf: "x_wf a \<Longrightarrow> x_wf (relax n a)"
  by (auto simp: x_wf_def relax_def flags_ok_x_def get_window_data_def)

text \<open>The state in which the classes are examined: pool checked, window advanced, free limits computed.\<close>

definition examined :: "(int \<Rightarrow> u32) \<Rightarrow> u32 \<Rightarrow> u32 \<Rightarrow> bool \<Rightarrow> (nat \<Rightarrow> slab_stats_automove) \<Rightarrow> automove_x \<Rightarrow> automove_x" where
  "examined scale now count lim sam a =
     (let g = global_pool_check count lim a in memcheck scale now sam (g\<lparr>x_cur := x_cur g + 1\<rparr>))"

definition pool_was_low :: "automove_x \<Rightarrow> bool" where
  "pool_was_low b \<longleftrightarrow> (\<exists>w \<in> set (past_global b). pool_low w \<noteq> 0)"

definition pool_all_high :: "automove_x \<Rightarrow> bool" where
  "pool_all_high b \<longleftrightarrow> (\<forall>w \<in> set (past_global b). pool_high w = 1)"

lemma examined_wf: "x_wf a \<Longrightarrow> x_wf (examined scale now count lim sam a)"
  using pool_check_wf [of a count lim] by (simp add: examined_def Let_def x_wf_def memcheck_frame)

lemma pool_sums:
  assumes "x_wf b"
  defines "w \<equiv> window_global_sum (x_global b) (unat (x_size b))"
  shows "pool_low w \<noteq> 0 \<Longrightarrow> pool_was_low b" "pool_high w \<ge> x_size b \<Longrightarrow> pool_all_high b"
proof -
  have fld: "(\<Sum>i \<leftarrow> [0..<unat (x_size b)]. f (x_global b i)) = sum_list (map f (past_global b))" for f :: "window_global \<Rightarrow> u32"
    by (simp add: past_global_def comp_def)
  show "pool_low w \<noteq> 0 \<Longrightarrow> pool_was_low b"
    unfolding w_def window_global_sum_fields fld pool_was_low_def
    using sum_list_zero [of "past_global b" pool_low] by blast
  have "\<forall>x \<in> set (map pool_high (past_global b)). x \<le> 1" "length (map pool_high (past_global b)) = unat (x_size b)"
    using assms(1) by (auto simp: past_global_def x_wf_def)
  then show "pool_high w \<ge> x_size b \<Longrightarrow> pool_all_high b"
    using flag_sum_full unfolding w_def window_global_sum_fields fld pool_all_high_def by fastforce
qed

section \<open>Properties\<close>

text \<open>
  C36. The decisions of the page mover with external storage: a class gives a page to the global pool
  only when it has pages to spare (free chunks for more than two and a half pages, a clean window and,
  for large chunks, excess free memory during the whole window) or when the pool was low during the
  window and the class, one of large chunks, has more than two pages; a page goes from the pool to a
  class only when the class holds large chunks, has pages but not more free chunks than it should keep,
  and either the pool was high during the whole window or the class is younger, beyond the ratio, than
  some class with more than two pages. The state stays well formed.
\<close>

theorem slab_automove_extstore_sound:
  assumes "x_wf a" and "slab_automove_extstore_run younger scale now count lim iam sam a = (a', src, dst)"
  shows "x_wf a' \<and>
    (let b = examined scale now count lim sam a in
     src = -1 \<and> dst = -1 \<or>
     (\<exists>n \<in> {1..<64}. src = int n \<and> dst = 0 \<and> (spare b sam n \<or> old_source b sam n \<and> pool_was_low b)) \<or>
     (\<exists>k \<in> {1..<64}. src = 0 \<and> dst = int k \<and> wants_pages b sam k \<and> free_chunks (sam k) \<le> uint (free_mem b k) \<and>
        (pool_all_high b \<or> (\<exists>n \<in> {1..<64}. old_source b sam n \<and> younger (avg_age_x b k) (avg_age_x b n)))))"
proof -
  define b where "b = examined scale now count lim sam a"
  define wg where "wg = window_global_sum (x_global b) (unat (x_size b))"
  define l where "l = fold (x_class b iam sam) [1..<MAX_NUMBER_OF_SLAB_CLASSES]
     \<lparr>xl_window = x_window b, xl_oldest = -1, xl_oldest_age = 0, xl_youngest = -1, xl_youngest_age = - 1,
      xl_too_free = False, xl_src = -1, xl_dst = -1\<rparr>"
  define c where "c = b\<lparr>x_window := xl_window l, x_iam_before := iam, x_sam_before := sam\<rparr>"
  define y where "y = nat (xl_youngest l)"
  have wf: "x_wf b" unfolding b_def using examined_wf [OF assms(1)] .
  have inv: "xl_inv b sam l"
    unfolding l_def MAX_NUMBER_OF_SLAB_CLASSES_def
    using wf by (intro x_classes_inv) (auto simp: untouched_x_def xl_inv_def x_wf_def)
  have wfc: "x_wf c" using wf inv by (simp add: c_def x_wf_def xl_inv_def)
  have gl: "x_global (global_pool_check count lim a) = x_global b" "x_size (global_pool_check count lim a) = x_size b"
    by (simp_all add: b_def examined_def Let_def memcheck_frame)
  have run: "(a', src, dst) =
     (if x_cur c < x_size c then (c, xl_src l, xl_dst l)
      else if pool_high wg \<ge> x_size c \<and> pool_low wg = 0 \<and> xl_youngest l \<noteq> -1
      then (relax y c, if free_chunks (sam y) \<le> uint (free_mem c y) then (0, xl_youngest l) else (xl_src l, xl_dst l))
      else if \<not> xl_too_free l \<and> pool_low wg \<noteq> 0 \<and> xl_oldest l \<noteq> -1 then (c, xl_oldest l, 0)
      else if \<not> xl_too_free l \<and> xl_youngest l \<noteq> -1 \<and> xl_oldest l \<noteq> -1 \<and> xl_youngest l \<noteq> xl_oldest l \<and>
              younger (xl_youngest_age l) (xl_oldest_age l)
      then (relax y c, if free_chunks (sam y) \<le> uint (free_mem c y) then (0, xl_youngest l) else (xl_src l, xl_dst l))
      else (c, xl_src l, xl_dst l))"
    using assms(2)
    unfolding slab_automove_extstore_run_def Let_def gl wg_def [symmetric]
      examined_def [of scale now count lim sam a, unfolded Let_def, folded b_def, symmetric]
      l_def [symmetric] c_def [symmetric] y_def [symmetric] by simp
  have sd: "xl_src l = -1 \<and> xl_dst l = -1 \<or> (\<exists>n \<in> {1..<64}. xl_src l = int n \<and> xl_dst l = 0 \<and> spare b sam n)"
    and ol: "xl_oldest l \<noteq> -1 \<Longrightarrow> \<exists>n \<in> {1..<64}. xl_oldest l = int n \<and> old_source b sam n \<and> xl_oldest_age l = avg_age_x b n"
    and yo: "xl_youngest l \<noteq> -1 \<Longrightarrow> y \<in> {1..<64} \<and> xl_youngest l = int y \<and> wants_pages b sam y \<and> xl_youngest_age l = avg_age_x b y"
    using inv by (auto simp: xl_inv_def y_def)
  have fm: "free_mem c = free_mem b" "x_size c = x_size b" by (simp_all add: c_def)
  have "x_wf a'" using run wfc relax_wf [OF wfc] by (auto split: if_splits)
  moreover have "src = -1 \<and> dst = -1 \<or>
     (\<exists>n \<in> {1..<64}. src = int n \<and> dst = 0 \<and> (spare b sam n \<or> old_source b sam n \<and> pool_was_low b)) \<or>
     (\<exists>k \<in> {1..<64}. src = 0 \<and> dst = int k \<and> wants_pages b sam k \<and> free_chunks (sam k) \<le> uint (free_mem b k) \<and>
        (pool_all_high b \<or> (\<exists>n \<in> {1..<64}. old_source b sam n \<and> younger (avg_age_x b k) (avg_age_x b n))))"
  proof -
    note pl = pool_sums [OF wf, folded wg_def]
    consider (keep) "src = xl_src l" "dst = xl_dst l"
      | (high) "src = 0" "dst = xl_youngest l" "pool_high wg \<ge> x_size b" "xl_youngest l \<noteq> -1"
          "free_chunks (sam y) \<le> uint (free_mem b y)"
      | (low) "src = xl_oldest l" "dst = 0" "pool_low wg \<noteq> 0" "xl_oldest l \<noteq> -1"
      | (ratio) "src = 0" "dst = xl_youngest l" "xl_youngest l \<noteq> -1" "xl_oldest l \<noteq> -1"
          "younger (xl_youngest_age l) (xl_oldest_age l)" "free_chunks (sam y) \<le> uint (free_mem b y)"
      using run unfolding fm by (auto split: if_splits)
    then show ?thesis
    proof cases
      case keep
      then show ?thesis using sd by auto
    next
      case high
      then show ?thesis using yo pl(2) by auto
    next
      case low
      then show ?thesis using ol pl(1) by auto
    next
      case ratio
      then show ?thesis using yo ol by fastforce
    qed
  qed
  ultimately show ?thesis by (simp add: b_def Let_def)
qed

theorem slab_automove_extstore_sound_witness:
  "\<exists>a' src dst. slab_automove_extstore_run (\<lambda>x y. x < y) (\<lambda>n. word_of_int (n div 10)) 100 5 True sample_ages
     sample_slabs (slab_automove_extstore_init 2 512 (\<lambda>_. 0) sample_ages sample_slabs) = (a', src, dst) \<and> x_wf a'"
proof -
  let ?a = "slab_automove_extstore_init 2 512 (\<lambda>_. 0) sample_ages sample_slabs"
  have wf: "x_wf ?a"
    by (simp add: x_wf_def slab_automove_extstore_init_def flags_ok_x_def zero_window_x_def zero_global_def)
  obtain a' src dst where r: "slab_automove_extstore_run (\<lambda>x y. x < y) (\<lambda>n. word_of_int (n div 10)) 100 5 True
     sample_ages sample_slabs ?a = (a', src, dst)"
    by (metis prod.exhaust)
  show ?thesis using slab_automove_extstore_sound [OF wf r] r by auto
qed

end
