(* ===== verification/Slabs.thy ===== *)
theory Slabs
  imports Item "HOL-Library.Monad_Syntax"
begin

unbundle bit_operations_syntax

text \<open>
  The slab allocator of memcached (\<open>slabs.c\<close>). Pages are cut into chunks of the size of their class, the
  free chunks of a class form a doubly linked list. \<open>malloc\<close> and \<open>realloc\<close> are arguments: the address of
  the page that \<open>malloc\<close> would return (\<open>NULL\<close> when it fails), and whether the page table could grow. The
  growth of chunk sizes by a floating-point factor is a parameter of the initialisation. Sizes are
  natural numbers; all of them are far below the range of \<open>size_t\<close>. The statistics output
  (\<open>do_slabs_stats\<close>) and huge pages (\<open>alloc_large_chunk_linux\<close>) are left out.
\<close>

section \<open>Settings and state\<close>

record settings =
  item_size_max :: nat
  slab_chunk_size_max :: nat
  slab_page_size :: nat
  slab_reassign :: bool
  slab_automove_mode :: nat
  chunk_size_min :: nat
  use_cas :: bool
  lru_segmented :: bool
  temp_lru :: bool
  temporary_ttl :: u32
  hot_lru_pct :: nat
  warm_lru_pct :: nat
  tail_repair_time :: u32
  evict_to_free :: bool
  oldest_live :: u32
  oldest_cas :: u64

record slabclass_t =
  sc_size :: nat
  perslab :: nat
  slots :: addr
  sl_curr :: nat
  slab_list :: "addr list"
  list_size :: nat

record slabs =
  slabclass :: "nat \<Rightarrow> slabclass_t"
  mem_limit :: nat
  mem_malloced :: nat
  mem_limit_reached :: bool
  power_largest :: nat
  mem_base :: addr
  mem_current :: addr
  mem_avail :: nat

abbreviation (input) POWER_SMALLEST :: nat where "POWER_SMALLEST \<equiv> 1"
abbreviation (input) SLAB_GLOBAL_PAGE_POOL :: nat where "SLAB_GLOBAL_PAGE_POOL \<equiv> 0"
abbreviation (input) CHUNK_ALIGN_BYTES :: nat where "CHUNK_ALIGN_BYTES \<equiv> 8"

text \<open>The number of pages of a class is the length of its page table.\<close>

definition slabs_of :: "slabs \<Rightarrow> nat \<Rightarrow> nat" where
  "slabs_of s i = length (slab_list (slabclass s i))"

definition upd_class :: "nat \<Rightarrow> (slabclass_t \<Rightarrow> slabclass_t) \<Rightarrow> slabs \<Rightarrow> slabs" where
  "upd_class i f s = s\<lparr>slabclass := (slabclass s)(i := f (slabclass s i))\<rparr>"

section \<open>Size classes\<close>

partial_function (option) clsid_loop :: "slabs \<Rightarrow> nat \<Rightarrow> nat \<Rightarrow> nat option" where
  [code]: "clsid_loop s sz res =
     (if sz > sc_size (slabclass s res)
      then (if res = power_largest s then Some (power_largest s) else clsid_loop s sz (res + 1))
      else Some res)"

definition slabs_clsid_for :: "settings \<Rightarrow> slabs \<Rightarrow> nat \<Rightarrow> nat option" where
  "slabs_clsid_for st s sz =
     (if sz = 0 \<or> sz > item_size_max st then Some 0 else clsid_loop s sz POWER_SMALLEST)"

definition slabs_size :: "slabs \<Rightarrow> nat \<Rightarrow> nat" where
  "slabs_size s clsid = sc_size (slabclass s clsid)"

definition align_chunk :: "nat \<Rightarrow> nat" where
  "align_chunk sz = (if sz mod CHUNK_ALIGN_BYTES \<noteq> 0 then sz + (CHUNK_ALIGN_BYTES - sz mod CHUNK_ALIGN_BYTES) else sz)"

definition empty_class :: slabclass_t where
  "empty_class = \<lparr>sc_size = 0, perslab = 0, slots = NULL, sl_curr = 0, slab_list = [], list_size = 0\<rparr>"

text \<open>
  The loop of \<open>slabs_init\<close> that fills the classes from \<open>i\<close> on. \<open>grow\<close> is \<open>size *= factor\<close>, \<open>big\<close> is
  \<open>size >= settings.slab_chunk_size_max / factor\<close>. With given sizes the list is that array, which ends
  with a zero.
\<close>

function init_classes ::
  "settings \<Rightarrow> (nat \<Rightarrow> nat) \<Rightarrow> (nat \<Rightarrow> bool) \<Rightarrow> nat list option \<Rightarrow> nat \<Rightarrow> nat \<Rightarrow> (nat \<Rightarrow> slabclass_t) \<Rightarrow>
   nat \<times> (nat \<Rightarrow> slabclass_t)" where
  "init_classes st grow big slab_sizes i sz cls =
     (if i < 63
      then let stop = (case slab_sizes of Some zs \<Rightarrow> zs ! (i - 1) = 0 | None \<Rightarrow> big sz);
               sz = (case slab_sizes of Some zs \<Rightarrow> zs ! (i - 1) | None \<Rightarrow> sz);
               asz = align_chunk sz
           in if stop then (i, cls)
              else init_classes st grow big slab_sizes (i + 1) (if slab_sizes = None then grow asz else asz)
                     (cls(i := (cls i)\<lparr>sc_size := asz, perslab := slab_page_size st div asz\<rparr>))
      else (i, cls))"
  by pat_completeness auto
termination
  by (relation "measure (\<lambda>(st, grow, big, ss, i, sz, cls). 63 - i)") auto

declare init_classes.simps [simp del]

section \<open>Memory\<close>

definition memory_allocate :: "addr \<Rightarrow> nat \<Rightarrow> slabs \<Rightarrow> addr \<times> slabs" where
  "memory_allocate malloced sz s =
     (if mem_base s = NULL
      then (malloced, s\<lparr>mem_malloced := mem_malloced s + sz\<rparr>)
      else if sz > mem_avail s then (NULL, s)
      else let asz = align_chunk sz
           in (mem_current s,
               s\<lparr>mem_current := mem_current s + asz,
                 mem_avail := (if asz < mem_avail s then mem_avail s - asz else 0),
                 mem_malloced := mem_malloced s + asz\<rparr>))"

definition get_page_from_global_pool :: "slabs \<Rightarrow> addr \<times> slabs" where
  "get_page_from_global_pool s =
     (let p = slab_list (slabclass s SLAB_GLOBAL_PAGE_POOL) in
      if length p < 1 then (NULL, s)
      else (last p, upd_class SLAB_GLOBAL_PAGE_POOL (\<lambda>c. c\<lparr>slab_list := butlast p\<rparr>) s))"

text \<open>Pages of the global pool are freed while more is allocated than allowed.\<close>

function memory_release_loop :: "settings \<Rightarrow> slabs \<Rightarrow> slabs" where
  "memory_release_loop st s =
     (if mem_malloced s > mem_limit s \<and> slab_list (slabclass s SLAB_GLOBAL_PAGE_POOL) \<noteq> []
      then memory_release_loop st
             ((snd (get_page_from_global_pool s))\<lparr>mem_malloced := mem_malloced s - slab_page_size st\<rparr>)
      else s)"
  by pat_completeness auto
termination
  by (relation "measure (\<lambda>(st, s). length (slab_list (slabclass s SLAB_GLOBAL_PAGE_POOL)))")
    (auto simp: get_page_from_global_pool_def upd_class_def Let_def)

declare memory_release_loop.simps [simp del]

definition memory_release :: "settings \<Rightarrow> slabs \<Rightarrow> slabs" where
  "memory_release st s = (if mem_base s \<noteq> NULL \<or> \<not> slab_reassign st then s else memory_release_loop st s)"

definition do_slabs_adjust_mem_limit :: "settings \<Rightarrow> nat \<Rightarrow> slabs \<Rightarrow> bool \<times> slabs" where
  "do_slabs_adjust_mem_limit st new_mem_limit s =
     (if mem_base s \<noteq> NULL then (False, s)
      else (True, memory_release st (s\<lparr>mem_limit := new_mem_limit, mem_limit_reached := False\<rparr>)))"

definition grow_slab_list :: "bool \<Rightarrow> nat \<Rightarrow> slabs \<Rightarrow> bool \<times> slabs" where
  "grow_slab_list realloc_ok i s =
     (let p = slabclass s i in
      if length (slab_list p) = list_size p
      then (if realloc_ok
            then (True, upd_class i (\<lambda>c. c\<lparr>list_size := (if list_size p \<noteq> 0 then list_size p * 2 else 16)\<rparr>) s)
            else (False, s))
      else (True, s))"

section \<open>Free lists\<close>

text \<open>\<open>it->prev = 0; it->next = p->slots; if (it->next) it->next->prev = it; p->slots = it; p->sl_curr++\<close>\<close>

definition push_free :: "addr \<Rightarrow> nat \<Rightarrow> heap \<times> slabs \<Rightarrow> heap \<times> slabs" where
  "push_free it i hs =
     (let (h, s) = hs; head = slots (slabclass s i);
          h = upd it (\<lambda>x. x\<lparr>prev := NULL, next := head\<rparr>) h;
          h = (if head \<noteq> NULL then upd head (\<lambda>x. x\<lparr>prev := it\<rparr>) h else h)
      in (h, upd_class i (\<lambda>c. c\<lparr>slots := it, sl_curr := sl_curr c + 1\<rparr>) s))"

partial_function (option) free_chunks_loop :: "addr \<Rightarrow> heap \<times> slabs \<Rightarrow> (heap \<times> slabs) option" where
  [code]: "free_chunks_loop chunk hs =
     (if chunk = NULL then Some hs
      else let (h, s) = hs;
               next_chunk = next (h chunk);
               h = upd chunk (\<lambda>x. x\<lparr>it_flags := ITEM_SLABBED\<rparr>) h
           in free_chunks_loop next_chunk (push_free chunk (unat (slabs_clsid (h chunk))) (h, s)))"

definition do_slabs_free_chunked :: "addr \<Rightarrow> heap \<times> slabs \<Rightarrow> (heap \<times> slabs) option" where
  "do_slabs_free_chunked it hs =
     (let (h, s) = hs;
          chunk = ITEM_schunk h it;
          h = upd it (\<lambda>x. x\<lparr>it_flags := ITEM_SLABBED, prev := NULL\<rparr>) h;
          cls = unat (orig_clsid (h chunk));
          rest = next (h chunk);
          h = (if rest \<noteq> NULL then upd rest (\<lambda>x. x\<lparr>prev := NULL\<rparr>) h else h)
      in free_chunks_loop rest (push_free it cls (h, s)))"

definition do_slabs_free :: "addr \<Rightarrow> nat \<Rightarrow> heap \<times> slabs \<Rightarrow> (heap \<times> slabs) option" where
  "do_slabs_free it i hs =
     (let (h, s) = hs in
      if i < POWER_SMALLEST \<or> i > power_largest s then Some hs
      else if \<not> has_flag (h it) ITEM_CHUNKED
      then Some (push_free it i (upd it (\<lambda>x. x\<lparr>it_flags := ITEM_SLABBED, slabs_clsid := of_nat i\<rparr>) h, s))
      else do_slabs_free_chunked it hs)"

text \<open>The chunks of a page, one after the other.\<close>

fun split_slab_page :: "nat \<Rightarrow> nat \<Rightarrow> addr \<Rightarrow> nat \<Rightarrow> heap \<times> slabs \<Rightarrow> (heap \<times> slabs) option" where
  "split_slab_page 0 sz ptr i hs = Some hs"
| "split_slab_page (Suc n) sz ptr i hs = do { hs \<leftarrow> do_slabs_free ptr i hs; split_slab_page n sz (ptr + sz) i hs }"

definition split_slab_page_into_freelist :: "addr \<Rightarrow> nat \<Rightarrow> heap \<times> slabs \<Rightarrow> (heap \<times> slabs) option" where
  "split_slab_page_into_freelist ptr i hs =
     (let p = slabclass (snd hs) i in split_slab_page (perslab p) (sc_size p) ptr i hs)"

definition zero_item :: item where
  "zero_item = \<lparr>next = 0, prev = 0, h_next = 0, time = 0, exptime = 0, nbytes = 0, refcount = 0, it_flags = 0,
     slabs_clsid = 0, cas = 0, key = [], cflags = 0, it_data = [], ch_size = 0, ch_used = 0, orig_clsid = 0\<rparr>"

text \<open>\<open>memset\<close> of a page: every object in it becomes all zeros.\<close>

definition clear_page :: "addr \<Rightarrow> nat \<Rightarrow> heap \<Rightarrow> heap" where
  "clear_page p len h = (\<lambda>a. if p \<le> a \<and> a < p + len then zero_item else h a)"

definition page_len :: "settings \<Rightarrow> slabclass_t \<Rightarrow> nat" where
  "page_len st p =
     (if slab_reassign st \<or> slab_chunk_size_max st \<noteq> slab_page_size st then slab_page_size st
      else sc_size p * perslab p)"

definition do_slabs_newslab :: "settings \<Rightarrow> addr \<Rightarrow> bool \<Rightarrow> nat \<Rightarrow> heap \<times> slabs \<Rightarrow> (bool \<times> heap \<times> slabs) option" where
  "do_slabs_newslab st malloced realloc_ok i hs =
     (let (h, s) = hs; p = slabclass s i; len = page_len st p in
      if mem_limit s \<noteq> 0 \<and> mem_malloced s + len > mem_limit s \<and> slabs_of s i > 0 \<and>
         slabs_of s SLAB_GLOBAL_PAGE_POOL = 0
      then Some (False, h, s\<lparr>mem_limit_reached := True\<rparr>)
      else let (grown, s) = grow_slab_list realloc_ok i s in
        if \<not> grown then Some (False, h, s)
        else let (pooled, s) = get_page_from_global_pool s;
                 (ptr, s) = (if pooled \<noteq> NULL then (pooled, s) else memory_allocate malloced len s)
             in if ptr = NULL then Some (False, h, s)
                else do {
                  (h, s) \<leftarrow> split_slab_page_into_freelist ptr i (clear_page ptr len h, s);
                  Some (True, h, upd_class i (\<lambda>c. c\<lparr>slab_list := slab_list c @ [ptr]\<rparr>) s)
                })"

section \<open>Allocation\<close>

text \<open>Taking the first free chunk of a class.\<close>

definition pop_free :: "nat \<Rightarrow> heap \<times> slabs \<Rightarrow> addr \<times> heap \<times> slabs" where
  "pop_free i hs =
     (let (h, s) = hs; it = slots (slabclass s i); nx = next (h it);
          s = upd_class i (\<lambda>c. c\<lparr>slots := nx\<rparr>) s;
          h = (if nx \<noteq> NULL then upd nx (\<lambda>x. x\<lparr>prev := NULL\<rparr>) h else h);
          h = upd it (\<lambda>x. x\<lparr>it_flags := it_flags x AND NOT ITEM_SLABBED, refcount := 1\<rparr>) h
      in (it, h, upd_class i (\<lambda>c. c\<lparr>sl_curr := sl_curr c - 1\<rparr>) s))"

definition do_slabs_alloc ::
  "settings \<Rightarrow> addr \<Rightarrow> bool \<Rightarrow> nat \<Rightarrow> bool \<Rightarrow> heap \<times> slabs \<Rightarrow> (addr \<times> heap \<times> slabs) option" where
  "do_slabs_alloc st malloced realloc_ok i no_newpage hs =
     (let s = snd hs in
      if i < POWER_SMALLEST \<or> i > power_largest s then Some (NULL, hs)
      else do {
        hs \<leftarrow> (if sl_curr (slabclass s i) = 0 \<and> \<not> no_newpage
               then map_option snd (do_slabs_newslab st malloced realloc_ok i hs)
               else Some hs);
        Some (if sl_curr (slabclass (snd hs) i) \<noteq> 0 then pop_free i hs else (NULL, hs))
      })"

definition slabs_available_chunks :: "slabs \<Rightarrow> nat \<Rightarrow> nat \<times> bool \<times> nat" where
  "slabs_available_chunks s i =
     (sl_curr (slabclass s i), mem_malloced s \<ge> mem_limit s, perslab (slabclass s i))"

definition global_page_pool_size :: "slabs \<Rightarrow> nat \<times> bool" where
  "global_page_pool_size s = (slabs_of s SLAB_GLOBAL_PAGE_POOL, mem_malloced s \<ge> mem_limit s)"

section \<open>Start-up\<close>

text \<open>The global pool is filled with pages; \<open>malloc\<close> gives the result of the \<open>k\<close>-th call.\<close>

partial_function (option) prefill_loop :: "settings \<Rightarrow> (nat \<Rightarrow> addr) \<Rightarrow> nat \<Rightarrow> slabs \<Rightarrow> slabs option" where
  [code]: "prefill_loop st malloc k s =
     (if mem_malloced s < mem_limit s
      then let (ptr, s) = memory_allocate (malloc k) (slab_page_size st) s in
        if ptr \<noteq> NULL
        then prefill_loop st malloc (k + 1)
               (upd_class SLAB_GLOBAL_PAGE_POOL (\<lambda>c. c\<lparr>slab_list := slab_list c @ [ptr]\<rparr>)
                 (snd (grow_slab_list True SLAB_GLOBAL_PAGE_POOL s)))
        else Some s
      else Some s)"

definition slabs_prefill_global :: "settings \<Rightarrow> (nat \<Rightarrow> addr) \<Rightarrow> slabs \<Rightarrow> slabs option" where
  "slabs_prefill_global st malloc s =
     map_option (\<lambda>s. s\<lparr>mem_limit_reached := True\<rparr>) (prefill_loop st malloc 0 s)"

text \<open>One page for each class, from the smallest; \<open>None\<close> when one cannot be had and the server exits.\<close>

fun slabs_preallocate :: "settings \<Rightarrow> (nat \<Rightarrow> addr) \<Rightarrow> nat \<Rightarrow> nat \<Rightarrow> heap \<times> slabs \<Rightarrow> (heap \<times> slabs) option" where
  "slabs_preallocate st malloc i 0 hs = Some hs"
| "slabs_preallocate st malloc i (Suc n) hs =
     (if i < 64 then do {
        (ok, hs) \<leftarrow> do_slabs_newslab st (malloc i) True i hs;
        if ok then slabs_preallocate st malloc (i + 1) n hs else None
      } else Some hs)"

text \<open>
  \<open>base\<close> is the memory found or obtained at start (\<open>NULL\<close>: none), \<open>reuse\<close> whether it holds items of an
  earlier run; \<open>faked\<close> is the value of \<open>T_MEMD_INITIAL_MALLOC\<close>.
\<close>

definition slabs_init ::
  "settings \<Rightarrow> (nat \<Rightarrow> nat) \<Rightarrow> (nat \<Rightarrow> bool) \<Rightarrow> (nat \<Rightarrow> addr) \<Rightarrow> nat \<Rightarrow> bool \<Rightarrow> nat list option \<Rightarrow> addr \<Rightarrow> bool \<Rightarrow> nat \<Rightarrow>
   heap \<Rightarrow> (heap \<times> slabs) option" where
  "slabs_init st grow big malloc limit prealloc slab_sizes base reuse faked h =
     (let used = prealloc \<and> base \<noteq> NULL;
          (largest, cls) = init_classes st grow big slab_sizes POWER_SMALLEST (sizeof_item + chunk_size_min st)
             (\<lambda>_. empty_class);
          cls = cls(largest := (cls largest)\<lparr>sc_size := slab_chunk_size_max st,
                      perslab := slab_page_size st div slab_chunk_size_max st\<rparr>);
          s = \<lparr>slabclass = cls, mem_limit = limit, mem_malloced = faked, mem_limit_reached = False,
               power_largest = largest, mem_base = (if used then base else NULL),
               mem_current = (if used then if reuse then base + limit else base else NULL),
               mem_avail = (if used \<and> \<not> reuse then limit else 0)\<rparr>
      in if used \<and> \<not> reuse then slabs_preallocate st malloc POWER_SMALLEST largest (h, s) else Some (h, s))"

text \<open>Restart: a chunk found in reused memory is put back where it was; the result is its size.\<close>

definition slabs_fixup :: "addr \<Rightarrow> bool \<Rightarrow> heap \<times> slabs \<Rightarrow> nat option \<times> heap \<times> slabs" where
  "slabs_fixup chunk border hs =
     (let (h, s) = hs; i = unat (ITEM_clsid (h chunk)) in
      if i = 0
      then (None, h, upd_class 0 (\<lambda>c. c\<lparr>slab_list := slab_list c @ [chunk]\<rparr>) (snd (grow_slab_list True 0 s)))
      else let s = (if border
                    then upd_class i (\<lambda>c. c\<lparr>slab_list := slab_list c @ [chunk]\<rparr>) (snd (grow_slab_list True i s))
                    else s);
               (h, s) = (if it_flags (h chunk) = ITEM_SLABBED then push_free chunk i (h, s) else (h, s))
           in (Some (sc_size (slabclass s i)), h, s))"

end
