(* ===== verification/Slab_Reassign.thy ===== *)
theory Slab_Reassign
  imports Slabs
begin

text \<open>
  Requests to move a page from one slab class to another (\<open>slabs_reassign\<close> of \<open>slabs.c\<close>), and the state of
  the page mover, \<open>slab_rebal\<close>, with the signal to its thread and the static variable of
  \<open>slabs_reassign_pick_any\<close>.
\<close>

record slab_rebalance =
  slab_start :: addr
  slab_end :: addr
  slab_pos :: addr
  s_clsid :: int
  d_clsid :: int
  busy_items :: u32
  rescues :: u32
  evictions_nomem :: u32
  inline_reclaim :: u32
  chunk_rescues :: u32
  busy_deletes :: u32
  busy_loops :: u32
  rebal_done :: byte
  rebalance_signal :: int
  pick_cur :: int

datatype reassign_result_type =
  REASSIGN_OK | REASSIGN_RUNNING | REASSIGN_BADCLASS | REASSIGN_NOSPARE | REASSIGN_SRC_DST_SAME

fun pick_loop :: "slabs \<Rightarrow> int \<Rightarrow> nat \<Rightarrow> int \<Rightarrow> int \<times> int" where
  "pick_loop s dst 0 cur = (-1, cur)"
| "pick_loop s dst (Suc tries) cur =
     (let cur = cur + 1;
          cur = (if cur > int (power_largest s) then int POWER_SMALLEST else cur)
      in if cur = dst then pick_loop s dst tries cur
         else if slabs_of s (nat cur) > 1 then (cur, cur)
         else pick_loop s dst tries cur)"

definition slabs_reassign_pick_any :: "slabs \<Rightarrow> int \<Rightarrow> slab_rebalance \<Rightarrow> int \<times> slab_rebalance" where
  "slabs_reassign_pick_any s dst r =
     (let (res, cur) = pick_loop s dst (power_largest s - POWER_SMALLEST + 1) (pick_cur r) in (res, r\<lparr>pick_cur := cur\<rparr>))"

definition do_slabs_reassign ::
  "slabs \<Rightarrow> int \<Rightarrow> int \<Rightarrow> slab_rebalance \<Rightarrow> reassign_result_type \<times> slab_rebalance" where
  "do_slabs_reassign s src dst r =
     (if rebalance_signal r \<noteq> 0 then (REASSIGN_RUNNING, r)
      else if src = dst then (REASSIGN_SRC_DST_SAME, r)
      else
        let (src, r) = (if src = -1 then slabs_reassign_pick_any s dst r else (src, r)) in
        if src < int SLAB_GLOBAL_PAGE_POOL \<or> src > int (power_largest s) \<or>
           dst < int SLAB_GLOBAL_PAGE_POOL \<or> dst > int (power_largest s)
        then (REASSIGN_BADCLASS, r)
        else if slabs_of s (nat src) < 2 then (REASSIGN_NOSPARE, r)
        else (REASSIGN_OK, r\<lparr>s_clsid := src, d_clsid := dst, rebalance_signal := 1\<rparr>))"

text \<open>\<open>lock_ok\<close>: the mover's lock was free.\<close>

definition slabs_reassign ::
  "bool \<Rightarrow> slabs \<Rightarrow> int \<Rightarrow> int \<Rightarrow> slab_rebalance \<Rightarrow> reassign_result_type \<times> slab_rebalance" where
  "slabs_reassign lock_ok s src dst r =
     (if \<not> lock_ok then (REASSIGN_RUNNING, r) else do_slabs_reassign s src dst r)"

end
