(* ===== verification/Items.thy ===== *)
theory Items
  imports Assoc Slab_Reassign Bipbuffer Slab_Automove
begin

unbundle bit_operations_syntax

text \<open>
  The items of memcached (\<open>items.c\<close>, default build without external storage): the LRU queues, linking and
  unlinking, reference counts, allocation with eviction, lookup with lazy expiry, the asynchronous
  bumps and the LRU maintainer. The state \<open>mc\<close> has the store of items, the hash table, the slab
  allocator and the statics of the file. Operations are atomic: the code holds the item's lock (or the
  lock of the queue) for each of them. The answers of the environment are arguments: the pages that
  \<open>malloc\<close> returns, and whether a lock that is only tried could be taken. \<open>None\<close> is an operation that does
  not return. Assertions are off (\<open>NDEBUG\<close>), tracing and logging are left out.
\<close>

section \<open>State\<close>

record itemstats_t =
  evicted :: u64
  evicted_nonzero :: u64
  reclaimed :: u64
  outofmemory :: u64
  tailrepairs :: u64
  expired_unfetched :: u64
  evicted_unfetched :: u64
  evicted_active :: u64
  crawler_reclaimed :: u64
  crawler_items_checked :: u64
  lrutail_reflocked :: u64
  moves_to_cold :: u64
  moves_to_warm :: u64
  moves_within_lru :: u64
  direct_reclaims :: u64
  hits_to_hot :: u64
  hits_to_warm :: u64
  hits_to_cold :: u64
  hits_to_temp :: u64
  mem_requested :: u64
  evicted_time :: u32

record lru_bump_buf =
  bump_buf :: bipbuf
  bump_dropped :: u64

text \<open>The bump buffers are in the order of their creation, one for each worker thread; the last seven fields are counters of the threads, four of them for each slab class.\<close>

record mc =
  m_heap :: heap
  m_assoc :: assoc
  m_slabs :: slabs
  m_rebal :: slab_rebalance
  heads :: "byte \<Rightarrow> addr"
  tails :: "byte \<Rightarrow> addr"
  itemstats :: "byte \<Rightarrow> itemstats_t"
  sizes :: "byte \<Rightarrow> u32"
  sizes_bytes :: "byte \<Rightarrow> u64"
  stats_sizes_hist :: "(nat \<Rightarrow> u32) option"
  stats_sizes_cas_min :: u64
  stats_sizes_buckets :: nat
  cas_id :: u64
  current_time :: u32
  curr_bytes :: u64
  curr_items :: u64
  total_items :: u64
  bump_bufs :: "lru_bump_buf list"
  get_flushed :: "nat \<Rightarrow> u64"
  get_expired :: "nat \<Rightarrow> u64"
  cas_misses :: "nat \<Rightarrow> u64"
  cas_hits :: "nat \<Rightarrow> byte \<Rightarrow> u64"
  cas_badval :: "nat \<Rightarrow> byte \<Rightarrow> u64"
  incr_hits :: "nat \<Rightarrow> byte \<Rightarrow> u64"
  decr_hits :: "nat \<Rightarrow> byte \<Rightarrow> u64"

abbreviation (input) HOT_LRU :: byte where "HOT_LRU \<equiv> 0"
abbreviation (input) WARM_LRU :: byte where "WARM_LRU \<equiv> 64"
abbreviation (input) COLD_LRU :: byte where "COLD_LRU \<equiv> 128"
abbreviation (input) TEMP_LRU :: byte where "TEMP_LRU \<equiv> 192"
abbreviation (input) ITEM_UPDATE_INTERVAL :: u32 where "ITEM_UPDATE_INTERVAL \<equiv> 60"
abbreviation (input) LRU_PULL_EVICT :: byte where "LRU_PULL_EVICT \<equiv> 1"
abbreviation (input) LRU_PULL_CRAWL_BLOCKS :: byte where "LRU_PULL_CRAWL_BLOCKS \<equiv> 2"
abbreviation (input) LRU_PULL_RETURN_ITEM :: byte where "LRU_PULL_RETURN_ITEM \<equiv> 4"

definition zero_itemstats :: itemstats_t where
  "zero_itemstats = \<lparr>evicted = 0, evicted_nonzero = 0, reclaimed = 0, outofmemory = 0, tailrepairs = 0,
     expired_unfetched = 0, evicted_unfetched = 0, evicted_active = 0, crawler_reclaimed = 0, crawler_items_checked = 0,
     lrutail_reflocked = 0, moves_to_cold = 0, moves_to_warm = 0, moves_within_lru = 0, direct_reclaims = 0, hits_to_hot = 0, hits_to_warm = 0,
     hits_to_cold = 0, hits_to_temp = 0, mem_requested = 0, evicted_time = 0\<rparr>"

text \<open>\<open>it->f = v\<close> and \<open>itemstats[id].f = v\<close>.\<close>

definition m_upd :: "addr \<Rightarrow> (item \<Rightarrow> item) \<Rightarrow> mc \<Rightarrow> mc" where
  "m_upd it f s = s\<lparr>m_heap := upd it f (m_heap s)\<rparr>"

definition upd_stats :: "byte \<Rightarrow> (itemstats_t \<Rightarrow> itemstats_t) \<Rightarrow> mc \<Rightarrow> mc" where
  "upd_stats i f s = s\<lparr>itemstats := (itemstats s)(i := f (itemstats s i))\<rparr>"

definition refcount_incr :: "addr \<Rightarrow> mc \<Rightarrow> u16 \<times> mc" where
  "refcount_incr it s = (refcount (m_heap s it) + 1, m_upd it (\<lambda>x. x\<lparr>refcount := refcount x + 1\<rparr>) s)"

definition refcount_decr :: "addr \<Rightarrow> mc \<Rightarrow> u16 \<times> mc" where
  "refcount_decr it s = (refcount (m_heap s it) - 1, m_upd it (\<lambda>x. x\<lparr>refcount := refcount x - 1\<rparr>) s)"

section \<open>Statistics and CAS\<close>

definition item_stats_reset :: "mc \<Rightarrow> mc" where
  "item_stats_reset s = s\<lparr>itemstats := (\<lambda>_. zero_itemstats)\<rparr>"

definition do_item_stats_add_crawl :: "byte \<Rightarrow> u64 \<Rightarrow> u64 \<Rightarrow> u64 \<Rightarrow> mc \<Rightarrow> mc" where
  "do_item_stats_add_crawl i recl unfetched chk =
     upd_stats i (\<lambda>x. x\<lparr>crawler_reclaimed := crawler_reclaimed x + recl, expired_unfetched := expired_unfetched x + unfetched,
       crawler_items_checked := crawler_items_checked x + chk\<rparr>)"

definition get_cas_id :: "mc \<Rightarrow> u64 \<times> mc" where
  "get_cas_id s = (cas_id s + 1, s\<lparr>cas_id := cas_id s + 1\<rparr>)"

definition set_cas_id :: "u64 \<Rightarrow> mc \<Rightarrow> mc" where
  "set_cas_id new_cas s = s\<lparr>cas_id := new_cas\<rparr>"

definition item_is_flushed :: "settings \<Rightarrow> u32 \<Rightarrow> item \<Rightarrow> bool" where
  "item_is_flushed st now it =
     (if oldest_live st = 0 \<or> oldest_live st > now then False
      else time it \<le> oldest_live st \<or> (oldest_cas st \<noteq> 0 \<and> ITEM_get_cas it \<noteq> 0 \<and> ITEM_get_cas it < oldest_cas st))"

definition do_get_lru_size :: "mc \<Rightarrow> byte \<Rightarrow> u32" where
  "do_get_lru_size s i = sizes s i"

definition sizes_bucket :: "item \<Rightarrow> nat" where
  "sizes_bucket it = (let ntotal = unat (ITEM_ntotal it) in ntotal div 32 + (if ntotal mod 32 \<noteq> 0 then 1 else 0))"

text \<open>\<open>calloc_ok\<close>: the histogram could be allocated.\<close>

definition item_stats_sizes_init :: "settings \<Rightarrow> bool \<Rightarrow> mc \<Rightarrow> mc" where
  "item_stats_sizes_init st calloc_ok s =
     (if stats_sizes_hist s \<noteq> None then s
      else let (c, s) = (if use_cas st then get_cas_id s else (0, s))
           in s\<lparr>stats_sizes_buckets := item_size_max st div 32 + 1,
                stats_sizes_hist := (if calloc_ok then Some (\<lambda>_. 0) else None), stats_sizes_cas_min := c\<rparr>)"

definition item_stats_sizes_disable :: "mc \<Rightarrow> mc" where
  "item_stats_sizes_disable s = s\<lparr>stats_sizes_hist := None\<rparr>"

definition item_stats_sizes_change :: "u32 \<Rightarrow> addr \<Rightarrow> mc \<Rightarrow> mc" where
  "item_stats_sizes_change d a s =
     (let it = m_heap s a in
      case stats_sizes_hist s of
        None \<Rightarrow> s
      | Some H \<Rightarrow>
          if stats_sizes_cas_min s > ITEM_get_cas it then s
          else if sizes_bucket it < stats_sizes_buckets s
          then s\<lparr>stats_sizes_hist := Some (H(sizes_bucket it := H (sizes_bucket it) + d))\<rparr>
          else s)"

definition item_stats_sizes_add :: "addr \<Rightarrow> mc \<Rightarrow> mc" where
  "item_stats_sizes_add = item_stats_sizes_change 1"

definition item_stats_sizes_remove :: "addr \<Rightarrow> mc \<Rightarrow> mc" where
  "item_stats_sizes_remove = item_stats_sizes_change (-1)"

section \<open>The LRU queues\<close>

definition do_item_link_q :: "addr \<Rightarrow> mc \<Rightarrow> mc" where
  "do_item_link_q it s =
     (let c = slabs_clsid (m_heap s it); first = heads s c;
          h = upd it (\<lambda>x. x\<lparr>prev := NULL, next := first\<rparr>) (m_heap s);
          h = (if first \<noteq> NULL then upd first (\<lambda>x. x\<lparr>prev := it\<rparr>) h else h)
      in s\<lparr>m_heap := h, heads := (heads s)(c := it),
           tails := (if tails s c = NULL then (tails s)(c := it) else tails s),
           sizes := (sizes s)(c := sizes s c + 1),
           sizes_bytes := (sizes_bytes s)(c := sizes_bytes s c + ITEM_ntotal (h it))\<rparr>)"

definition item_link_q_warm :: "addr \<Rightarrow> mc \<Rightarrow> mc" where
  "item_link_q_warm it s =
     (let s = do_item_link_q it s
      in upd_stats (slabs_clsid (m_heap s it)) (\<lambda>x. x\<lparr>moves_to_warm := moves_to_warm x + 1\<rparr>) s)"

text \<open>The links around an object, as \<open>do_item_unlink_q\<close> and \<open>do_item_unlinktail_q\<close> cut it out.\<close>

definition cut_q :: "addr \<Rightarrow> mc \<Rightarrow> mc" where
  "cut_q it s =
     (let x = m_heap s it; c = slabs_clsid x;
          hds = (if heads s c = it then (heads s)(c := next x) else heads s);
          tls = (if tails s c = it then (tails s)(c := prev x) else tails s);
          h = (if next x \<noteq> NULL then upd (next x) (\<lambda>y. y\<lparr>prev := prev (m_heap s it)\<rparr>) (m_heap s) else m_heap s);
          h = (if prev (h it) \<noteq> NULL then upd (prev (h it)) (\<lambda>y. y\<lparr>next := next (h it)\<rparr>) h else h)
      in s\<lparr>m_heap := h, heads := hds, tails := tls\<rparr>)"

definition do_item_unlink_q :: "addr \<Rightarrow> mc \<Rightarrow> mc" where
  "do_item_unlink_q it s =
     (let s = cut_q it s; x = m_heap s it; c = slabs_clsid x
      in s\<lparr>sizes := (sizes s)(c := sizes s c - 1),
           sizes_bytes := (sizes_bytes s)(c := sizes_bytes s c - ITEM_ntotal x)\<rparr>)"

section \<open>Linking and unlinking\<close>

definition item_free :: "addr \<Rightarrow> mc \<Rightarrow> mc option" where
  "item_free it s =
     do { (h, sl) \<leftarrow> do_slabs_free it (unat (ITEM_clsid (m_heap s it))) (m_heap s, m_slabs s);
          Some (s\<lparr>m_heap := h, m_slabs := sl\<rparr>) }"

definition do_item_remove :: "addr \<Rightarrow> mc \<Rightarrow> mc option" where
  "do_item_remove it s = (let (r, s) = refcount_decr it s in if r = 0 then item_free it s else Some s)"

definition do_assoc_insert :: "addr \<Rightarrow> u32 \<Rightarrow> mc \<Rightarrow> mc" where
  "do_assoc_insert it hv s =
     (let (h, a) = assoc_insert it hv (m_heap s, m_assoc s) in s\<lparr>m_heap := h, m_assoc := a\<rparr>)"

definition do_assoc_delete :: "byte list \<Rightarrow> u32 \<Rightarrow> mc \<Rightarrow> mc option" where
  "do_assoc_delete k hv s =
     do { (h, a) \<leftarrow> assoc_delete k hv (m_heap s, m_assoc s); Some (s\<lparr>m_heap := h, m_assoc := a\<rparr>) }"

definition do_item_link :: "settings \<Rightarrow> addr \<Rightarrow> u32 \<Rightarrow> mc \<Rightarrow> mc" where
  "do_item_link st it hv s =
     (let s = m_upd it (\<lambda>x. (set_flag ITEM_LINKED x)\<lparr>time := current_time s\<rparr>) s;
          s = s\<lparr>curr_bytes := curr_bytes s + ITEM_ntotal (m_heap s it), curr_items := curr_items s + 1,
                total_items := total_items s + 1\<rparr>;
          (c, s) = (if use_cas st then get_cas_id s else (0, s));
          s = m_upd it (ITEM_set_cas c) s;
          s = do_assoc_insert it hv s;
          s = do_item_link_q it s;
          s = snd (refcount_incr it s)
      in item_stats_sizes_add it s)"

definition do_item_unlink :: "addr \<Rightarrow> u32 \<Rightarrow> mc \<Rightarrow> mc option" where
  "do_item_unlink it hv s =
     (if has_flag (m_heap s it) ITEM_LINKED then do {
        let s = m_upd it (clear_flag ITEM_LINKED) s;
        let s = s\<lparr>curr_bytes := curr_bytes s - ITEM_ntotal (m_heap s it), curr_items := curr_items s - 1\<rparr>;
        let s = item_stats_sizes_remove it s;
        s \<leftarrow> do_assoc_delete (key (m_heap s it)) hv s;
        do_item_remove it (do_item_unlink_q it s)
      } else Some s)"

text \<open>The same without taking the lock of the queue.\<close>

definition do_item_unlink_nolock :: "addr \<Rightarrow> u32 \<Rightarrow> mc \<Rightarrow> mc option" where
  "do_item_unlink_nolock = do_item_unlink"

text \<open>Restart: an item found in reused memory is entered again.\<close>

definition do_item_link_fixup :: "(byte list \<Rightarrow> u32) \<Rightarrow> addr \<Rightarrow> mc \<Rightarrow> mc" where
  "do_item_link_fixup hash it s =
     (let ntotal = ITEM_ntotal (m_heap s it);
          s = do_assoc_insert it (hash (key (m_heap s it))) s;
          x = m_heap s it; c = slabs_clsid x;
          s = s\<lparr>heads := (if prev x = NULL \<and> heads s c = NULL then (heads s)(c := it) else heads s),
                tails := (if next x = NULL \<and> tails s c = NULL then (tails s)(c := it) else tails s),
                sizes := (sizes s)(c := sizes s c + 1),
                sizes_bytes := (sizes_bytes s)(c := sizes_bytes s c + ntotal),
                curr_bytes := curr_bytes s + ntotal, curr_items := curr_items s + 1, total_items := total_items s + 1\<rparr>
      in item_stats_sizes_add it s)"

definition do_item_update :: "settings \<Rightarrow> addr \<Rightarrow> mc \<Rightarrow> mc" where
  "do_item_update st it s =
     (let x = m_heap s it in
      if lru_segmented st then
        if has_flag x ITEM_LINKED then
          if ITEM_lruid x = COLD_LRU \<and> has_flag x ITEM_ACTIVE then
            let s = m_upd it (\<lambda>x. x\<lparr>time := current_time s\<rparr>) s;
                s = do_item_unlink_q it s;
                s = m_upd it (\<lambda>x. clear_flag ITEM_ACTIVE (x\<lparr>slabs_clsid := ITEM_clsid x OR WARM_LRU\<rparr>)) s
            in item_link_q_warm it s
          else m_upd it (\<lambda>x. x\<lparr>time := current_time s\<rparr>) s
        else s
      else if time x < current_time s - ITEM_UPDATE_INTERVAL then
        if has_flag x ITEM_LINKED then
          do_item_link_q it (do_item_unlink_q it (m_upd it (\<lambda>x. x\<lparr>time := current_time s\<rparr>) s))
        else s
      else s)"

definition do_item_replace :: "settings \<Rightarrow> addr \<Rightarrow> addr \<Rightarrow> u32 \<Rightarrow> mc \<Rightarrow> mc option" where
  "do_item_replace st it new_it hv s =
     do { s \<leftarrow> do_item_unlink it hv s; Some (do_item_link st new_it hv s) }"

definition fill_item_stats_automove :: "mc \<Rightarrow> nat \<Rightarrow> item_stats_automove" where
  "fill_item_stats_automove s n =
     (let hot = of_nat n OR HOT_LRU; cold = of_nat n OR COLD_LRU; t = tails s cold
      in \<lparr>i_evicted = sint (evicted (itemstats s cold)), i_outofmemory = sint (outofmemory (itemstats s hot)),
          i_age = (if t \<noteq> NULL then current_time s - time (m_heap s t) else 0)\<rparr>)"

definition fill_slab_stats_automove :: "slabs \<Rightarrow> nat \<Rightarrow> slab_stats_automove" where
  "fill_slab_stats_automove s n =
     (let p = slabclass s n
      in \<lparr>chunks_per_page = of_nat (perslab p), chunk_size = of_nat (sc_size p), free_chunks = int (sl_curr p),
          total_pages = int (slabs_of s n)\<rparr>)"

end
