(* ===== verification/Items_Lru.thy ===== *)
theory Items_Lru
  imports Items
begin

unbundle bit_operations_syntax

text \<open>
  The operations of \<open>items.c\<close> that are built from linking and unlinking: hits and asynchronous bumps, lookup,
  the walk up a queue's tail, allocation, the LRU maintainer, and the crawler's place in a queue.
\<close>

section \<open>Hits and bumps\<close>

text \<open>
  A bump entry (\<open>lru_bump_entry\<close>) has 16 bytes: the item's address, the hash value, padding. Both fields are
  stored with their low byte first.
\<close>

definition le_bytes :: "nat \<Rightarrow> u64 \<Rightarrow> byte list" where
  "le_bytes n v = map (\<lambda>i. ucast (drop_bit (8 * i) v)) [0..<n]"

fun le_word :: "byte list \<Rightarrow> u64" where
  "le_word [] = 0"
| "le_word (b # bs) = ucast b OR push_bit 8 (le_word bs)"

definition put_bump :: "nat \<Rightarrow> addr \<Rightarrow> u32 \<Rightarrow> mem \<Rightarrow> mem" where
  "put_bump i it hv m = mem_write (mem_write m i (le_bytes 8 (of_nat it))) (i + 8) (le_bytes 4 (ucast hv))"

definition bump_it :: "mem \<Rightarrow> nat \<Rightarrow> addr" where
  "bump_it m i = unat (le_word (mem_read m i 8))"

text \<open>\<open>data\<close>: what \<open>malloc\<close> returned for the buffer, if it did.\<close>

definition item_lru_bump_buf_create :: "mem option \<Rightarrow> mc \<Rightarrow> bool \<times> mc" where
  "item_lru_bump_buf_create data s =
     (case bipbuf_new data (16 * 8192) of
        None \<Rightarrow> (False, s)
      | Some b \<Rightarrow> (True, s\<lparr>bump_bufs := bump_bufs s @ [\<lparr>bump_buf = b, bump_dropped = 0\<rparr>]\<rparr>))"

definition lru_bump_async :: "nat \<Rightarrow> addr \<Rightarrow> u32 \<Rightarrow> mc \<Rightarrow> bool \<times> mc" where
  "lru_bump_async t it hv s =
     (let s = snd (refcount_incr it s); b = bump_bufs s ! t;
          (ret, b) =
            (case bipbuf_request (bump_buf b) 16 of
               None \<Rightarrow> (False, b\<lparr>bump_dropped := bump_dropped b + 1\<rparr>)
             | Some i \<Rightarrow>
                 let (bb, r) = bipbuf_push ((bump_buf b)\<lparr>bb_data := put_bump i it hv (bb_data (bump_buf b))\<rparr>) 16
                 in if r = 0 then (False, b\<lparr>bump_buf := bb, bump_dropped := bump_dropped b + 1\<rparr>)
                    else (True, b\<lparr>bump_buf := bb\<rparr>));
          s = s\<lparr>bump_bufs := (bump_bufs s)[t := b]\<rparr>
      in (ret, if ret then s else snd (refcount_decr it s)))"

text \<open>\<open>t\<close> is the worker thread of the connection.\<close>

definition do_item_bump :: "settings \<Rightarrow> nat \<Rightarrow> addr \<Rightarrow> u32 \<Rightarrow> mc \<Rightarrow> mc" where
  "do_item_bump st t it hv s =
     (let x = m_heap s it in
      if lru_segmented st then
        if \<not> has_flag x ITEM_ACTIVE then
          if \<not> has_flag x ITEM_FETCHED then m_upd it (set_flag ITEM_FETCHED) s
          else let s = m_upd it (set_flag ITEM_ACTIVE) s in
            if ITEM_lruid x \<noteq> COLD_LRU then m_upd it (\<lambda>x. x\<lparr>time := current_time s\<rparr>) s
            else let (ok, s) = lru_bump_async t it hv s
                 in if \<not> ok then m_upd it (clear_flag ITEM_ACTIVE) s else s
        else s
      else do_item_update st it (m_upd it (set_flag ITEM_FETCHED) s))"

partial_function (option) bumps_loop :: "settings \<Rightarrow> mem \<Rightarrow> nat \<Rightarrow> u32 \<Rightarrow> mc \<Rightarrow> mc option" where
  [code]: "bumps_loop st m i todo s =
     (if todo = 0 then Some s
      else do {
        let it = bump_it m i;
        s \<leftarrow> do_item_remove it (do_item_update st it s);
        bumps_loop st m (i + 16) (todo - 16) s
      })"

definition bump_one :: "settings \<Rightarrow> nat \<Rightarrow> mc \<Rightarrow> (bool \<times> mc) option" where
  "bump_one st t s =
     (let bb = bump_buf (bump_bufs s ! t) in
      case bipbuf_peek_all bb of
        None \<Rightarrow> Some (False, s)
      | Some (i, sz) \<Rightarrow> do {
          s \<leftarrow> bumps_loop st (bb_data bb) i sz s;
          let b = bump_bufs s ! t;
          Some (True, s\<lparr>bump_bufs := (bump_bufs s)[t := b\<lparr>bump_buf := fst (bipbuf_poll (bump_buf b) sz)\<rparr>]\<rparr>)
        })"

text \<open>The central list of the buffers has the youngest first.\<close>

fun bump_all :: "settings \<Rightarrow> nat list \<Rightarrow> bool \<times> mc \<Rightarrow> (bool \<times> mc) option" where
  "bump_all st [] bs = Some bs"
| "bump_all st (t # ts) bs = do { (b, s) \<leftarrow> bump_one st t (snd bs); bump_all st ts (fst bs \<or> b, s) }"

definition lru_maintainer_bumps :: "settings \<Rightarrow> mc \<Rightarrow> (bool \<times> mc) option" where
  "lru_maintainer_bumps st s = bump_all st (rev [0..<length (bump_bufs s)]) (False, s)"

definition lru_total_bumps_dropped :: "mc \<Rightarrow> u64" where
  "lru_total_bumps_dropped s = sum_list (map bump_dropped (rev (bump_bufs s)))"

section \<open>Lookup\<close>

definition do_item_get :: "settings \<Rightarrow> nat \<Rightarrow> byte list \<Rightarrow> u32 \<Rightarrow> bool \<Rightarrow> mc \<Rightarrow> (addr \<times> mc) option" where
  "do_item_get st t k hv do_update s =
     do {
       it \<leftarrow> assoc_find (m_heap s) (m_assoc s) k hv;
       if it \<noteq> NULL then do {
         let s = snd (refcount_incr it s);
         if item_is_flushed st (current_time s) (m_heap s it) then do {
           s \<leftarrow> do_item_unlink it hv s;
           s \<leftarrow> do_item_remove it s;
           Some (NULL, s\<lparr>get_flushed := (get_flushed s)(t := get_flushed s t + 1)\<rparr>)
         } else if exptime (m_heap s it) \<noteq> 0 \<and> exptime (m_heap s it) \<le> current_time s then do {
           s \<leftarrow> do_item_unlink it hv s;
           s \<leftarrow> do_item_remove it s;
           Some (NULL, s\<lparr>get_expired := (get_expired s)(t := get_expired s t + 1)\<rparr>)
         } else Some (it, if do_update then do_item_bump st t it hv s else s)
       } else Some (NULL, s)
     }"

definition do_item_touch :: "settings \<Rightarrow> nat \<Rightarrow> byte list \<Rightarrow> u32 \<Rightarrow> u32 \<Rightarrow> mc \<Rightarrow> (addr \<times> mc) option" where
  "do_item_touch st t k etime hv s =
     do {
       (it, s) \<leftarrow> do_item_get st t k hv True s;
       Some (it, if it \<noteq> NULL then m_upd it (\<lambda>x. x\<lparr>exptime := etime\<rparr>) s else s)
     }"

section \<open>The tail of a queue\<close>

text \<open>The local variables of \<open>lru_pull_tail\<close>; \<open>p_ret\<close> is what it stores through \<open>ret_it\<close>.\<close>

record pull =
  p_it :: addr
  p_removed :: int
  p_move :: byte
  p_limit :: u64
  p_ret :: "(addr \<times> u32) option"

text \<open>The arguments of \<open>lru_pull_tail\<close>, and whether the page mover's lock is free (\<open>pa_rebal\<close>).\<close>

record pull_args =
  pa_id :: nat
  pa_lru :: byte
  pa_total_bytes :: u64
  pa_flags :: byte
  pa_max_age :: u32
  pa_rebal :: bool

definition pull_id :: "pull_args \<Rightarrow> byte" where
  "pull_id a = of_nat (pa_id a) OR pa_lru a"

text \<open>The \<open>HOT_LRU\<close> and \<open>WARM_LRU\<close> cases of the switch.\<close>

definition pull_hot_warm :: "settings \<Rightarrow> pull_args \<Rightarrow> addr \<Rightarrow> pull \<Rightarrow> mc \<Rightarrow> (pull \<times> mc) option" where
  "pull_hot_warm st a search p s =
     (let i = pull_id a; x = m_heap s search;
          limit = (if pa_lru a = HOT_LRU then pa_total_bytes a * of_nat (hot_lru_pct st) div 100 else p_limit p);
          limit = (if limit = 0 then pa_total_bytes a * of_nat (warm_lru_pct st) div 100 else limit);
          p = p\<lparr>p_limit := limit\<rparr>
      in if has_flag x ITEM_ACTIVE then
           let s = m_upd search (clear_flag ITEM_ACTIVE) s; p = p\<lparr>p_removed := p_removed p + 1\<rparr> in
           if pa_lru a = WARM_LRU then do {
             let s = upd_stats i (\<lambda>y. y\<lparr>moves_within_lru := moves_within_lru y + 1\<rparr>) s;
             s \<leftarrow> do_item_remove search (do_item_link_q search (do_item_unlink_q search s));
             Some (p, s)
           } else
             let s = upd_stats i (\<lambda>y. y\<lparr>moves_to_warm := moves_to_warm y + 1\<rparr>) s
             in Some (p\<lparr>p_move := WARM_LRU, p_it := search\<rparr>, do_item_unlink_q search s)
         else if sizes_bytes s i > limit \<or> current_time s - time x > pa_max_age a then
           let s = upd_stats i (\<lambda>y. y\<lparr>moves_to_cold := moves_to_cold y + 1\<rparr>) s
           in Some (p\<lparr>p_move := COLD_LRU, p_it := search, p_removed := p_removed p + 1\<rparr>, do_item_unlink_q search s)
         else Some (p\<lparr>p_it := search\<rparr>, s))"

definition evict_stats :: "u32 \<Rightarrow> item \<Rightarrow> itemstats_t \<Rightarrow> itemstats_t" where
  "evict_stats now x y =
     y\<lparr>evicted := evicted y + 1, evicted_time := now - time x,
       evicted_nonzero := evicted_nonzero y + (if exptime x \<noteq> 0 then 1 else 0),
       evicted_unfetched := evicted_unfetched y + (if has_flag x ITEM_FETCHED then 0 else 1),
       evicted_active := evicted_active y + (if has_flag x ITEM_ACTIVE then 1 else 0)\<rparr>"

text \<open>The \<open>COLD_LRU\<close> case.\<close>

definition pull_cold :: "settings \<Rightarrow> pull_args \<Rightarrow> addr \<Rightarrow> u32 \<Rightarrow> pull \<Rightarrow> mc \<Rightarrow> (pull \<times> mc) option" where
  "pull_cold st a search hv p s =
     (let i = pull_id a; x = m_heap s search; p = p\<lparr>p_it := search\<rparr> in
      if pa_flags a AND LRU_PULL_EVICT \<noteq> 0 then
        if \<not> evict_to_free st then Some (p, s)
        else do {
          let s = upd_stats i (evict_stats (current_time s) x) s;
          s \<leftarrow> do_item_unlink_nolock search hv s;
          let s = (if slab_automove_mode st = 2
                   then s\<lparr>m_rebal := snd (slabs_reassign (pa_rebal a) (m_slabs s) (-1) (int (pa_id a)) (m_rebal s))\<rparr> else s);
          Some (p\<lparr>p_removed := p_removed p + 1\<rparr>, s)
        }
      else if pa_flags a AND LRU_PULL_RETURN_ITEM \<noteq> 0 then Some (p\<lparr>p_ret := Some (search, hv)\<rparr>, s)
      else if has_flag x ITEM_ACTIVE \<and> lru_segmented st then
        let s = upd_stats i (\<lambda>y. y\<lparr>moves_to_warm := moves_to_warm y + 1\<rparr>) s;
            s = m_upd search (clear_flag ITEM_ACTIVE) s
        in Some (p\<lparr>p_move := WARM_LRU, p_removed := p_removed p + 1\<rparr>, do_item_unlink_q search s)
      else Some (p, s))"

definition pull_switch :: "settings \<Rightarrow> pull_args \<Rightarrow> addr \<Rightarrow> u32 \<Rightarrow> pull \<Rightarrow> mc \<Rightarrow> (pull \<times> mc) option" where
  "pull_switch st a search hv p s =
     (if pa_lru a = HOT_LRU \<or> pa_lru a = WARM_LRU then pull_hot_warm st a search p s
      else if pa_lru a = COLD_LRU then pull_cold st a search hv p s
      else if pa_lru a = TEMP_LRU then Some (p\<lparr>p_it := search\<rparr>, s)
      else Some (p, s))"

text \<open>One round of the loop for an item whose lock could be taken.\<close>

definition pull_item :: "settings \<Rightarrow> pull_args \<Rightarrow> addr \<Rightarrow> u32 \<Rightarrow> pull \<Rightarrow> mc \<Rightarrow> (pull \<times> mc) option" where
  "pull_item st a search hv p s =
     (let i = pull_id a; (r, s) = refcount_incr search s;
          s = (if r \<noteq> 2 then upd_stats i (\<lambda>y. y\<lparr>lrutail_reflocked := lrutail_reflocked y + 1\<rparr>) s else s);
          x = m_heap s search
      in if r \<noteq> 2 \<and> tail_repair_time st \<noteq> 0 \<and> time x + tail_repair_time st < current_time s then do {
           let s = upd_stats i (\<lambda>y. y\<lparr>tailrepairs := tailrepairs y + 1\<rparr>) s;
           s \<leftarrow> do_item_unlink_nolock search hv (m_upd search (\<lambda>x. x\<lparr>refcount := 1\<rparr>) s);
           Some (p, s)
         } else if (exptime x \<noteq> 0 \<and> exptime x < current_time s) \<or> item_is_flushed st (current_time s) x then do {
           let s = upd_stats i (\<lambda>y. y\<lparr>reclaimed := reclaimed y + 1,
                     expired_unfetched := expired_unfetched y + (if has_flag x ITEM_FETCHED then 0 else 1)\<rparr>) s;
           s \<leftarrow> do_item_unlink_nolock search hv s;
           s \<leftarrow> do_item_remove search s;
           Some (p\<lparr>p_removed := p_removed p + 1\<rparr>, s)
         } else pull_switch st a search hv p s)"

definition is_crawler :: "item \<Rightarrow> bool" where
  "is_crawler x \<longleftrightarrow> nbytes x = 0 \<and> key x = [] \<and> it_flags x = 1"

text \<open>The walk; \<open>lk\<close>: could the lock of an item be taken. A crawler in the way may make it return 0 at once.\<close>

partial_function (option) pull_loop ::
  "settings \<Rightarrow> (byte list \<Rightarrow> u32) \<Rightarrow> (addr \<Rightarrow> bool) \<Rightarrow> pull_args \<Rightarrow> nat \<Rightarrow> addr \<Rightarrow> pull \<Rightarrow> mc \<Rightarrow> (pull \<times> mc) option" where
  [code]: "pull_loop st hash lk a tries search p s =
     (if tries = 0 \<or> search = NULL then Some (p, s)
      else let next_it = prev (m_heap s search); hv = hash (key (m_heap s search)) in
        if is_crawler (m_heap s search) then
          if pa_flags a AND LRU_PULL_CRAWL_BLOCKS \<noteq> 0 then Some (p\<lparr>p_removed := 0\<rparr>, s)
          else pull_loop st hash lk a tries next_it p s
        else if \<not> lk search then pull_loop st hash lk a (tries - 1) next_it p s
        else do {
          (p, s) \<leftarrow> pull_item st a search hv p s;
          if p_it p \<noteq> NULL then Some (p, s) else pull_loop st hash lk a (tries - 1) next_it p s
        })"

definition pull_finish :: "pull_args \<Rightarrow> pull \<Rightarrow> mc \<Rightarrow> mc option" where
  "pull_finish a p s =
     (let it = p_it p in
      if it \<noteq> NULL then
        let s = (if p_move p \<noteq> 0 then do_item_link_q it (m_upd it (\<lambda>x. x\<lparr>slabs_clsid := ITEM_clsid x OR p_move p\<rparr>) s) else s)
        in if pa_flags a AND LRU_PULL_RETURN_ITEM = 0 then do_item_remove it s else Some s
      else Some s)"

text \<open>The result: the number removed, what was stored through \<open>ret_it\<close>, and the state.\<close>

definition lru_pull_tail ::
  "settings \<Rightarrow> (byte list \<Rightarrow> u32) \<Rightarrow> (addr \<Rightarrow> bool) \<Rightarrow> pull_args \<Rightarrow> mc \<Rightarrow> (int \<times> (addr \<times> u32) option \<times> mc) option" where
  "lru_pull_tail st hash lk a s =
     (if pa_id a = 0 then Some (0, None, s)
      else do {
        (p, s) \<leftarrow> pull_loop st hash lk a 5 (tails s (pull_id a))
          \<lparr>p_it = NULL, p_removed = 0, p_move = 0, p_limit = 0, p_ret = None\<rparr> s;
        s \<leftarrow> pull_finish a p s;
        Some (p_removed p, p_ret p, s)
      })"

end
