(* ===== verification/Items_Alloc.thy ===== *)
theory Items_Alloc
  imports Items_Lru
begin

unbundle bit_operations_syntax

text \<open>
  Allocation of items with eviction, the LRU maintainer's work on one class, and the crawler's
  pseudo-item in a queue (\<open>items.c\<close>).
\<close>

section \<open>Allocation\<close>

text \<open>The size of \<open>item_chunk\<close>.\<close>

definition sizeof_chunk :: nat where
  "sizeof_chunk = 48"

text \<open>
  The answers of the environment in the rounds of an allocation: the page \<open>malloc\<close> returns (with the
  allocator's pages as they are then), whether a page table could grow, which item locks can be taken, and whether the page mover's lock is free.
\<close>

record os =
  os_malloc :: "nat \<Rightarrow> slabs \<Rightarrow> addr"
  os_realloc :: "nat \<Rightarrow> bool"
  os_lock :: "nat \<Rightarrow> addr \<Rightarrow> bool"
  os_rebal :: "nat \<Rightarrow> bool"

definition pull_of :: "nat \<Rightarrow> byte \<Rightarrow> byte \<Rightarrow> bool \<Rightarrow> pull_args" where
  "pull_of i lru flags rb = \<lparr>pa_id = i, pa_lru = lru, pa_total_bytes = 0, pa_flags = flags, pa_max_age = 0, pa_rebal = rb\<rparr>"

definition m_slabs_alloc :: "settings \<Rightarrow> addr \<Rightarrow> bool \<Rightarrow> nat \<Rightarrow> mc \<Rightarrow> (addr \<times> mc) option" where
  "m_slabs_alloc st mal rea i s =
     do { (it, h, sl) \<leftarrow> do_slabs_alloc st mal rea i False (m_heap s, m_slabs s); Some (it, s\<lparr>m_heap := h, m_slabs := sl\<rparr>) }"

text \<open>The loop: \<open>n\<close> rounds are left, \<open>i\<close> are done.\<close>

fun alloc_pull_loop ::
  "settings \<Rightarrow> (byte list \<Rightarrow> u32) \<Rightarrow> os \<Rightarrow> nat \<Rightarrow> nat \<Rightarrow> nat \<Rightarrow> mc \<Rightarrow> (addr \<times> nat \<times> mc) option" where
  "alloc_pull_loop st hash os cls 0 i s = Some (NULL, i, s)"
| "alloc_pull_loop st hash os cls (Suc n) i s =
     do {
       s \<leftarrow> (if \<not> lru_segmented st
             then map_option (\<lambda>(_, _, s). s) (lru_pull_tail st hash (os_lock os i) (pull_of cls COLD_LRU 0 (os_rebal os i)) s)
             else Some s);
       (it, s) \<leftarrow> m_slabs_alloc st (os_malloc os i (m_slabs s)) (os_realloc os i) cls s;
       if it = NULL then do {
         (removed, _, s) \<leftarrow> lru_pull_tail st hash (os_lock os i) (pull_of cls COLD_LRU LRU_PULL_EVICT (os_rebal os i)) s;
         if removed \<le> 0 then
           if lru_segmented st then do {
             (_, _, s) \<leftarrow> lru_pull_tail st hash (os_lock os i) (pull_of cls HOT_LRU 0 (os_rebal os i)) s;
             alloc_pull_loop st hash os cls n (i + 1) s
           } else Some (NULL, i, s)
         else alloc_pull_loop st hash os cls n (i + 1) s
       } else Some (it, i, s)
     }"

definition do_item_alloc_pull :: "settings \<Rightarrow> (byte list \<Rightarrow> u32) \<Rightarrow> os \<Rightarrow> nat \<Rightarrow> mc \<Rightarrow> (addr \<times> mc) option" where
  "do_item_alloc_pull st hash os cls s =
     do {
       (it, i, s) \<leftarrow> alloc_pull_loop st hash os cls 10 0 s;
       Some (it, if i > 0 then upd_stats (of_nat cls) (\<lambda>y. y\<lparr>direct_reclaims := direct_reclaims y + of_nat i\<rparr>) s else s)
     }"

text \<open>Another chunk for a large item, behind the chunk \<open>ch\<close>.\<close>

definition do_item_alloc_chunk ::
  "settings \<Rightarrow> (byte list \<Rightarrow> u32) \<Rightarrow> os \<Rightarrow> addr \<Rightarrow> nat \<Rightarrow> mc \<Rightarrow> (addr \<times> mc) option" where
  "do_item_alloc_chunk st hash os ch bytes_remain s =
     do {
       let sz = min (bytes_remain + sizeof_chunk) (slab_chunk_size_max st);
       cls \<leftarrow> slabs_clsid_for st (m_slabs s) sz;
       (nch, s) \<leftarrow> do_item_alloc_pull st hash os cls s;
       if nch = NULL then Some (NULL, s)
       else do {
         let owner = h_next (m_heap s ch);
         let s = m_upd ch (\<lambda>x. x\<lparr>next := nch\<rparr>) s;
         Some (nch, m_upd nch (\<lambda>x. (set_flag ITEM_CHUNK x)\<lparr>h_next := owner, prev := ch, next := NULL, ch_used := 0,
            slabs_clsid := of_nat cls, ch_size := int sz - int sizeof_chunk\<rparr>) s)
       }
     }"

text \<open>The size of the suffix and of the item; the key length is passed in a byte.\<close>

definition item_make_header :: "byte \<Rightarrow> u32 \<Rightarrow> int \<Rightarrow> nat \<times> nat" where
  "item_make_header nkey fl nb =
     (let nsuffix = (if fl = 0 then 0 else 4) in (sizeof_item + unat nkey + nsuffix + nat nb, nsuffix))"

definition item_size_ok :: "settings \<Rightarrow> slabs \<Rightarrow> nat \<Rightarrow> u32 \<Rightarrow> int \<Rightarrow> bool option" where
  "item_size_ok st sl nkey fl nb =
     (if nb < 2 then Some False
      else let ntotal = fst (item_make_header (of_nat (nkey + 1)) fl nb) + (if use_cas st then 8 else 0)
           in map_option (\<lambda>c. c \<noteq> 0) (slabs_clsid_for st sl ntotal))"

text \<open>The queue a new item starts in.\<close>

definition first_lru :: "settings \<Rightarrow> u32 \<Rightarrow> u32 \<Rightarrow> byte" where
  "first_lru st now etime =
     (if temp_lru st \<and> etime - now \<le> temporary_ttl st then TEMP_LRU else if lru_segmented st then HOT_LRU else COLD_LRU)"

text \<open>
  The fields of a new item. The client flags are written when they are not zero; data and CAS value are
  what the memory held. \<open>nkey\<close> is a byte.
\<close>

definition fresh_item :: "settings \<Rightarrow> byte \<Rightarrow> byte list \<Rightarrow> u32 \<Rightarrow> u32 \<Rightarrow> int \<Rightarrow> item \<Rightarrow> item" where
  "fresh_item st cls k fl etime nb x =
     x\<lparr>next := NULL, prev := NULL, h_next := NULL, slabs_clsid := cls,
       it_flags := it_flags x OR (if use_cas st then ITEM_CAS else 0) OR (if fl \<noteq> 0 then ITEM_CFLAGS else 0),
       nbytes := nb, key := take (length k mod 256) k, exptime := etime, cflags := (if fl \<noteq> 0 then fl else cflags x)\<rparr>"

definition do_item_alloc ::
  "settings \<Rightarrow> (byte list \<Rightarrow> u32) \<Rightarrow> os \<Rightarrow> byte list \<Rightarrow> u32 \<Rightarrow> u32 \<Rightarrow> int \<Rightarrow> mc \<Rightarrow> (addr \<times> mc) option" where
  "do_item_alloc st hash os k fl etime nb s =
     (if nb < 2 then Some (NULL, s)
      else do {
        let (ntotal, nsuffix) = item_make_header (of_nat (length k + 1)) fl nb;
        let ntotal = ntotal + (if use_cas st then 8 else 0);
        cls \<leftarrow> slabs_clsid_for st (m_slabs s) ntotal;
        if cls = 0 then Some (NULL, s)
        else do {
          (it, hdr, s) \<leftarrow>
            (if ntotal > slab_chunk_size_max st then do {
               let htotal = length k + 1 + nsuffix + sizeof_item + sizeof_chunk + (if use_cas st then 8 else 0);
               hdr \<leftarrow> slabs_clsid_for st (m_slabs s) htotal;
               (it, s) \<leftarrow> do_item_alloc_pull st hash os hdr s;
               Some (it, hdr, if it \<noteq> NULL then m_upd it (set_flag ITEM_CHUNKED) s else s)
             } else do {
               (it, s) \<leftarrow> do_item_alloc_pull st hash os cls s;
               Some (it, 0, s)
             });
          if it = NULL then Some (NULL, upd_stats (of_nat cls) (\<lambda>y. y\<lparr>outofmemory := outofmemory y + 1\<rparr>) s)
          else do {
            let s = m_upd it (fresh_item st (of_nat cls OR first_lru st (current_time s) etime) k fl etime nb) s;
            let chunk = ITEM_schunk (m_heap s) it;
            let s = (if has_flag (m_heap s it) ITEM_CHUNKED
                     then m_upd chunk (\<lambda>x. x\<lparr>next := NULL, prev := NULL, ch_used := 0, ch_size := 0, h_next := it,
                            orig_clsid := of_nat hdr\<rparr>) s
                     else s);
            Some (it, s)
          }
        }
      })"

section \<open>The LRU maintainer\<close>

text \<open>Up to \<open>n\<close> pulls from the queue of short-lived items, as long as they remove something.\<close>

fun juggle_temp ::
  "settings \<Rightarrow> (byte list \<Rightarrow> u32) \<Rightarrow> (nat \<Rightarrow> addr \<Rightarrow> bool) \<Rightarrow> nat \<Rightarrow> nat \<Rightarrow> int \<times> mc \<Rightarrow> (int \<times> mc) option" where
  "juggle_temp st hash lk cls 0 ds = Some ds"
| "juggle_temp st hash lk cls (Suc n) ds =
     do {
       (removed, _, s) \<leftarrow> lru_pull_tail st hash (lk n) (pull_of cls TEMP_LRU 0 False) (snd ds);
       if removed \<le> 0 then Some (fst ds, s) else juggle_temp st hash lk cls n (fst ds + 1, s)
     }"

text \<open>The ages and the number of bytes that steer the moves between the other queues.\<close>

record juggle =
  j_total_bytes :: u64
  j_hot_age :: u32
  j_warm_age :: u32

definition juggle_args :: "settings \<Rightarrow> (u32 \<Rightarrow> u32) \<Rightarrow> (u32 \<Rightarrow> u32) \<Rightarrow> nat \<Rightarrow> mc \<Rightarrow> juggle" where
  "juggle_args st hot_factor warm_factor cls s =
     (let c = of_nat cls; cold = c OR COLD_LRU; t = tails s cold;
          cold_age = (if t \<noteq> NULL then current_time s - time (m_heap s t) else 0)
      in if lru_segmented st
         then \<lparr>j_total_bytes = sizes_bytes s cold + sizes_bytes s (c OR HOT_LRU) + sizes_bytes s (c OR WARM_LRU),
               j_hot_age = hot_factor cold_age, j_warm_age = warm_factor cold_age\<rparr>
         else \<lparr>j_total_bytes = 0, j_hot_age = 0, j_warm_age = 0\<rparr>)"

definition juggle_pull :: "nat \<Rightarrow> byte \<Rightarrow> u64 \<Rightarrow> u32 \<Rightarrow> pull_args" where
  "juggle_pull cls lru total_bytes max_age =
     \<lparr>pa_id = cls, pa_lru = lru, pa_total_bytes = total_bytes, pa_flags = LRU_PULL_CRAWL_BLOCKS, pa_max_age = max_age, pa_rebal = False\<rparr>"

text \<open>One round; the result is \<open>do_more\<close>. The warm queue is looked at only when the hot one gave nothing.\<close>

definition juggle_round ::
  "settings \<Rightarrow> (byte list \<Rightarrow> u32) \<Rightarrow> (addr \<Rightarrow> bool) \<Rightarrow> nat \<Rightarrow> juggle \<Rightarrow> mc \<Rightarrow> (int \<times> mc) option" where
  "juggle_round st hash lk cls j s =
     do {
       (hot, _, s) \<leftarrow> lru_pull_tail st hash lk (juggle_pull cls HOT_LRU (j_total_bytes j) (j_hot_age j)) s;
       (warm, s) \<leftarrow> (if hot \<noteq> 0 then Some (0, s)
                     else map_option (\<lambda>(r, _, s). (r, s))
                       (lru_pull_tail st hash lk (juggle_pull cls WARM_LRU (j_total_bytes j) (j_warm_age j)) s));
       let do_more = (if hot \<noteq> 0 \<or> warm \<noteq> 0 then 1 else 0);
       if lru_segmented st then do {
         (cold, _, s) \<leftarrow> lru_pull_tail st hash lk (juggle_pull cls COLD_LRU (j_total_bytes j) 0) s;
         Some (do_more + cold, s)
       } else Some (do_more, s)
     }"

fun juggle_rounds ::
  "settings \<Rightarrow> (byte list \<Rightarrow> u32) \<Rightarrow> (nat \<Rightarrow> addr \<Rightarrow> bool) \<Rightarrow> nat \<Rightarrow> juggle \<Rightarrow> nat \<Rightarrow> int \<times> mc \<Rightarrow> (int \<times> mc) option" where
  "juggle_rounds st hash lk cls j 0 ds = Some ds"
| "juggle_rounds st hash lk cls j (Suc n) ds =
     do {
       (do_more, s) \<leftarrow> juggle_round st hash (lk n) cls j (snd ds);
       if do_more = 0 then Some (fst ds, s) else juggle_rounds st hash lk cls j n (fst ds + 1, s)
     }"

text \<open>
  \<open>hot_factor\<close> and \<open>warm_factor\<close> multiply an age with the floating-point settings; \<open>lk\<close> and \<open>lk'\<close> tell which item
  locks can be taken in the rounds of the two loops.
\<close>

definition lru_maintainer_juggle ::
  "settings \<Rightarrow> (byte list \<Rightarrow> u32) \<Rightarrow> (u32 \<Rightarrow> u32) \<Rightarrow> (u32 \<Rightarrow> u32) \<Rightarrow> (nat \<Rightarrow> addr \<Rightarrow> bool) \<Rightarrow> (nat \<Rightarrow> addr \<Rightarrow> bool) \<Rightarrow>
   nat \<Rightarrow> mc \<Rightarrow> (int \<times> mc) option" where
  "lru_maintainer_juggle st hash hot_factor warm_factor lk lk' cls s =
     do {
       (d, s) \<leftarrow> (if temp_lru st then juggle_temp st hash lk cls 500 (0, s) else Some (0, s));
       juggle_rounds st hash lk' cls (juggle_args st hot_factor warm_factor cls s) 500 (d, s)
     }"

section \<open>The crawler in a queue\<close>

text \<open>The crawler's pseudo-item becomes the new tail.\<close>

definition do_item_linktail_q :: "addr \<Rightarrow> mc \<Rightarrow> mc" where
  "do_item_linktail_q it s =
     (let c = slabs_clsid (m_heap s it); t = tails s c;
          h = upd it (\<lambda>x. x\<lparr>prev := t, next := NULL\<rparr>) (m_heap s);
          h = (if t \<noteq> NULL then upd t (\<lambda>x. x\<lparr>next := it\<rparr>) h else h)
      in s\<lparr>m_heap := h, tails := (tails s)(c := it), heads := (if heads s c = NULL then (heads s)(c := it) else heads s)\<rparr>)"

definition do_item_unlinktail_q :: "addr \<Rightarrow> mc \<Rightarrow> mc" where
  "do_item_unlinktail_q = cut_q"

text \<open>The pseudo-item moves one place towards the head; the result is the item it passed, \<open>NULL\<close> at the head.\<close>

definition do_item_crawl_q :: "addr \<Rightarrow> mc \<Rightarrow> addr \<times> mc" where
  "do_item_crawl_q it s =
     (let h = m_heap s; c = slabs_clsid (h it) in
      if prev (h it) = NULL then
        (NULL,
         if next (h it) \<noteq> NULL
         then s\<lparr>heads := (heads s)(c := next (h it)), m_heap := upd (next (h it)) (\<lambda>x. x\<lparr>prev := NULL\<rparr>) h\<rparr>
         else s)
      else
        let p = prev (h it); n = next (h it);
            hds = (if heads s c = p then (heads s)(c := it) else heads s);
            tls = (if tails s c = it then (tails s)(c := p) else tails s);
            h = (if n \<noteq> NULL then upd n (\<lambda>x. x\<lparr>prev := p\<rparr>) (upd p (\<lambda>x. x\<lparr>next := n\<rparr>) h) else upd p (\<lambda>x. x\<lparr>next := NULL\<rparr>) h);
            h = upd it (\<lambda>x. x\<lparr>next := p\<rparr>) h;
            h = upd it (\<lambda>x. x\<lparr>prev := prev (h p)\<rparr>) h;
            h = upd p (\<lambda>x. x\<lparr>prev := it\<rparr>) h;
            h = (if prev (h it) \<noteq> NULL then upd (prev (h it)) (\<lambda>x. x\<lparr>next := it\<rparr>) h else h)
        in (next (h it), s\<lparr>m_heap := h, heads := hds, tails := tls\<rparr>))"

end
