(* ===== verification/Lru_Spec.thy ===== *)
theory Lru_Spec
  imports Item
begin

text \<open>
  What the item layer relies on of the LRU queues: one queue for each class, an object is pushed in
  front of the queue of its class and may be cut out of any place; the tail is what was pushed first and
  is still there. The queues know their lengths.
\<close>

datatype lru_op = Push addr | Cut addr

text \<open>The queues as lists, \<open>None\<close> when a client pushes what is queued or cuts what is not.\<close>

fun lru_lists :: "(addr \<Rightarrow> byte) \<Rightarrow> lru_op list \<Rightarrow> (byte \<Rightarrow> addr list) \<Rightarrow> (byte \<Rightarrow> addr list) option" where
  "lru_lists cls [] Q = Some Q"
| "lru_lists cls (Push it # ops) Q =
     (if it \<noteq> NULL \<and> it \<notin> set (Q (cls it)) then lru_lists cls ops (Q(cls it := it # Q (cls it))) else None)"
| "lru_lists cls (Cut it # ops) Q =
     (if it \<in> set (Q (cls it)) then lru_lists cls ops (Q(cls it := remove1 it (Q (cls it)))) else None)"

text \<open>The same operations on a concrete state.\<close>

definition lru_exec :: "(addr \<Rightarrow> 's \<Rightarrow> 's) \<Rightarrow> (addr \<Rightarrow> 's \<Rightarrow> 's) \<Rightarrow> lru_op list \<Rightarrow> 's \<Rightarrow> 's" where
  "lru_exec push rem = fold (\<lambda>opn. case opn of Push it \<Rightarrow> push it | Cut it \<Rightarrow> rem it)"

lemma lru_exec_simps [simp]:
  "lru_exec push rem [] s = s"
  "lru_exec push rem (Push it # ops) s = lru_exec push rem ops (push it s)"
  "lru_exec push rem (Cut it # ops) s = lru_exec push rem ops (rem it s)"
  by (simp_all add: lru_exec_def)

locale lru_queue =
  fixes rep :: "'s \<Rightarrow> (byte \<Rightarrow> addr list) \<Rightarrow> bool"
    and cls :: "'s \<Rightarrow> addr \<Rightarrow> byte"
    and push :: "addr \<Rightarrow> 's \<Rightarrow> 's"
    and rem :: "addr \<Rightarrow> 's \<Rightarrow> 's"
    and last_of :: "'s \<Rightarrow> byte \<Rightarrow> addr"
    and count :: "'s \<Rightarrow> byte \<Rightarrow> u32"
  assumes push_law: "rep s Q \<Longrightarrow> it \<noteq> NULL \<Longrightarrow> it \<notin> set (Q (cls s it)) \<Longrightarrow>
      rep (push it s) (Q(cls s it := it # Q (cls s it))) \<and> cls (push it s) = cls s"
    and cut_law: "rep s Q \<Longrightarrow> it \<in> set (Q (cls s it)) \<Longrightarrow>
      rep (rem it s) (Q(cls s it := remove1 it (Q (cls s it)))) \<and> cls (rem it s) = cls s"
    and last_law: "rep s Q \<Longrightarrow> last_of s c = (if Q c = [] then NULL else last (Q c))"
    and count_law: "rep s Q \<Longrightarrow> count s c = of_nat (length (Q c))"
begin

lemma exec_lists:
  "rep s Q \<Longrightarrow> lru_lists (cls s) ops Q = Some Q' \<Longrightarrow> rep (lru_exec push rem ops s) Q'"
proof (induction ops arbitrary: s Q)
  case (Cons opn ops)
  show ?case
  proof (cases opn)
    case (Push it)
    then show ?thesis using Cons.prems Cons.IH [of "push it s"] push_law [of s Q it] by (auto split: if_splits)
  next
    case (Cut it)
    then show ?thesis using Cons.prems Cons.IH [of "rem it s"] cut_law [of s Q it] by (auto split: if_splits)
  qed
qed simp

lemma exec_last:
  assumes "rep s Q" "lru_lists (cls s) ops Q = Some Q'"
  shows "last_of (lru_exec push rem ops s) c = (if Q' c = [] then NULL else last (Q' c))"
    "count (lru_exec push rem ops s) c = of_nat (length (Q' c))"
  using exec_lists [OF assms] last_law count_law by auto

end

end
