(* ===== verification/Alloc_Spec.thy ===== *)
theory Alloc_Spec
  imports Item
begin

text \<open>
  What the item layer relies on of the slab allocator: a chunk that is handed out belongs to nobody
  else until it is given back, and the allocator does not touch the chunks that are in use while their
  owners write to them. The environment \<open>e\<close> of an allocation stands for what the operating system
  answers.
\<close>

datatype 'e alloc_op = Take 'e nat | Give addr nat | Write addr "item \<Rightarrow> item"

text \<open>
  The chunks in use after a history of operations: \<open>None\<close> when a client gives back or writes to a chunk it
  does not own, or gives back a large item in pieces, or when an operation does not return.
\<close>

fun alloc_history ::
  "('e \<Rightarrow> nat \<Rightarrow> 's \<Rightarrow> (addr \<times> 's) option) \<Rightarrow> (addr \<Rightarrow> nat \<Rightarrow> 's \<Rightarrow> 's option) \<Rightarrow> (addr \<Rightarrow> (item \<Rightarrow> item) \<Rightarrow> 's \<Rightarrow> 's) \<Rightarrow>
   ('e \<Rightarrow> nat \<Rightarrow> 's \<Rightarrow> bool) \<Rightarrow> (addr \<Rightarrow> 's \<Rightarrow> bool) \<Rightarrow> 'e alloc_op list \<Rightarrow> 's \<Rightarrow> (addr \<times> nat) list \<Rightarrow>
   ('s \<times> (addr \<times> nat) list) option" where
  "alloc_history tk gv wr ok plain [] s U = Some (s, U)"
| "alloc_history tk gv wr ok plain (Take e i # ops) s U =
     (if ok e i s then
        (case tk e i s of None \<Rightarrow> None
         | Some (p, s') \<Rightarrow> alloc_history tk gv wr ok plain ops s' (if p = NULL then U else (p, i) # U))
      else None)"
| "alloc_history tk gv wr ok plain (Give p i # ops) s U =
     (if (p, i) \<in> set U \<and> plain p s then
        (case gv p i s of None \<Rightarrow> None
         | Some s' \<Rightarrow> alloc_history tk gv wr ok plain ops s' (remove1 (p, i) U))
      else None)"
| "alloc_history tk gv wr ok plain (Write p f # ops) s U =
     (if p \<in> fst ` set U then alloc_history tk gv wr ok plain ops (wr p f s) U else None)"

locale chunk_allocator =
  fixes inv :: "'s \<Rightarrow> (addr \<times> nat) set \<Rightarrow> bool"
    and rd :: "'s \<Rightarrow> heap"
    and tk :: "'e \<Rightarrow> nat \<Rightarrow> 's \<Rightarrow> (addr \<times> 's) option"
    and gv :: "addr \<Rightarrow> nat \<Rightarrow> 's \<Rightarrow> 's option"
    and wr :: "addr \<Rightarrow> (item \<Rightarrow> item) \<Rightarrow> 's \<Rightarrow> 's"
    and ok :: "'e \<Rightarrow> nat \<Rightarrow> 's \<Rightarrow> bool"
    and plain :: "addr \<Rightarrow> 's \<Rightarrow> bool"
  assumes take_law: "inv s U \<Longrightarrow> ok e i s \<Longrightarrow>
      \<exists>p s'. tk e i s = Some (p, s') \<and> (if p = NULL then inv s' U else p \<notin> fst ` U \<and> inv s' (insert (p, i) U)) \<and>
        (\<forall>q \<in> fst ` U. rd s' q = rd s q) \<and> (p \<noteq> NULL \<longrightarrow> refcount (rd s' p) = 1 \<and> it_flags (rd s' p) = 0)"
    and give_law: "inv s U \<Longrightarrow> (p, i) \<in> U \<Longrightarrow> plain p s \<Longrightarrow> \<exists>s'. gv p i s = Some s' \<and> inv s' (U - {(p, i)}) \<and>
        (\<forall>q \<in> fst ` U. q \<noteq> p \<longrightarrow> rd s' q = rd s q)"
    and wr_law: "inv s U \<Longrightarrow> p \<in> fst ` U \<Longrightarrow> inv (wr p f s) U \<and> rd (wr p f s) = upd p f (rd s)"
begin

lemma history_inv:
  "alloc_history tk gv wr ok plain ops s U = Some (s', U') \<Longrightarrow> inv s (set U) \<Longrightarrow> distinct (map fst U) \<Longrightarrow>
   inv s' (set U') \<and> distinct (map fst U')"
proof (induction ops arbitrary: s U)
  case (Cons opn ops)
  show ?case
  proof (cases opn)
    case (Take e i)
    then obtain p s1 where r: "tk e i s = Some (p, s1)"
        "if p = NULL then inv s1 (set U) else p \<notin> fst ` set U \<and> inv s1 (insert (p, i) (set U))"
      using Cons.prems take_law [of s "set U" e i] by (auto split: if_splits)
    then show ?thesis
      using Cons.prems Take Cons.IH [of s1 "if p = NULL then U else (p, i) # U"] by (auto split: if_splits)
  next
    case (Give p i)
    then have pi: "(p, i) \<in> set U" "plain p s" using Cons.prems by (auto split: if_splits)
    then obtain s1 where r: "gv p i s = Some s1" "inv s1 (set U - {(p, i)})"
      using Cons.prems give_law [of s "set U" p i] by auto
    have d: "distinct U" "distinct (map fst (remove1 (p, i) U))"
      using Cons.prems(3) by (auto simp: distinct_map distinct_remove1 intro: inj_on_subset)
    have "alloc_history tk gv wr ok plain ops s1 (remove1 (p, i) U) = Some (s', U')"
      using Cons.prems(1) Give pi r by simp
    then show ?thesis using Cons.IH [of s1 "remove1 (p, i) U"] r(2) d by (simp add: set_remove1_eq)
  next
    case (Write p f)
    then show ?thesis using Cons wr_law [of s "set U" p f] by (auto split: if_splits)
  qed
qed simp

text \<open>No operation gets stuck: a history fails only when the client breaks the rules.\<close>

lemma take_returns: "inv s U \<Longrightarrow> ok e i s \<Longrightarrow> tk e i s \<noteq> None"
  using take_law by fastforce

lemma give_returns: "inv s U \<Longrightarrow> (p, i) \<in> U \<Longrightarrow> plain p s \<Longrightarrow> gv p i s \<noteq> None"
  using give_law by fastforce

end

end
