(* ===== verification/Slabs_Inv.thy ===== *)
theory Slabs_Inv
  imports Slabs Alloc_Spec
begin

unbundle bit_operations_syntax

text \<open>
  The invariant of the slab allocator and its preservation. The free lists are well-formed doubly
  linked lists of chunks of their class, the pages do not overlap; a chunk of a page that is on no free
  list is in use, and the allocator does not change it.
\<close>

section \<open>Free lists\<close>

abbreviation nx :: "heap \<Rightarrow> addr \<Rightarrow> addr" where "nx h \<equiv> \<lambda>a. next (h a)"
abbreviation pv :: "heap \<Rightarrow> addr \<Rightarrow> addr" where "pv h \<equiv> \<lambda>a. prev (h a)"

definition free_ok :: "heap \<Rightarrow> slabs \<Rightarrow> (nat \<Rightarrow> addr list) \<Rightarrow> bool" where
  "free_ok h s F \<longleftrightarrow>
     (\<forall>i. (\<exists>t. dll (nx h) (pv h) (slots (slabclass s i)) (F i) t) \<and> sl_curr (slabclass s i) = length (F i)) \<and>
     (\<forall>i j. i \<noteq> j \<longrightarrow> set (F i) \<inter> set (F j) = {}) \<and> (\<forall>i. \<forall>x \<in> set (F i). it_flags (h x) = ITEM_SLABBED)"

definition free_set :: "(nat \<Rightarrow> addr list) \<Rightarrow> addr set" where
  "free_set F = (\<Union>i. set (F i))"

lemma upd_class_apply [simp]:
  "slabclass (upd_class i f s) = (slabclass s)(i := f (slabclass s i))"
  "mem_limit (upd_class i f s) = mem_limit s" "mem_malloced (upd_class i f s) = mem_malloced s"
  "mem_base (upd_class i f s) = mem_base s" "mem_current (upd_class i f s) = mem_current s"
  "mem_avail (upd_class i f s) = mem_avail s" "power_largest (upd_class i f s) = power_largest s"
  by (simp_all add: upd_class_def)

lemma free_okD:
  assumes "free_ok h s F"
  shows "\<exists>t. dll (nx h) (pv h) (slots (slabclass s i)) (F i) t" "sl_curr (slabclass s i) = length (F i)"
    "i \<noteq> j \<Longrightarrow> x \<in> set (F i) \<Longrightarrow> x \<notin> set (F j)" "x \<in> set (F i) \<Longrightarrow> it_flags (h x) = ITEM_SLABBED"
  using assms by (auto simp: free_ok_def)

lemma free_set_iff: "x \<in> free_set F \<longleftrightarrow> (\<exists>i. x \<in> set (F i))"
  by (auto simp: free_set_def)

lemma dll_frame:
  assumes "dll (nx h) (pv h) p xs t" "\<And>x. x \<in> set xs \<Longrightarrow> next (h' x) = next (h x) \<and> prev (h' x) = prev (h x)"
  shows "dll (nx h') (pv h') p xs t"
  using assms dseg_cong [of xs "nx h" "nx h'" "pv h" "pv h'"] by auto

text \<open>The lists only depend on the links of their own objects.\<close>

lemma free_ok_frame:
  assumes "free_ok h s F"
    and "\<And>x. x \<in> free_set F \<Longrightarrow> next (h' x) = next (h x) \<and> prev (h' x) = prev (h x) \<and> it_flags (h' x) = it_flags (h x)"
    and "\<And>i. slots (slabclass s' i) = slots (slabclass s i) \<and> sl_curr (slabclass s' i) = sl_curr (slabclass s i)"
  shows "free_ok h' s' F"
proof -
  have "\<exists>t. dll (nx h') (pv h') (slots (slabclass s i)) (F i) t" for i
  proof -
    obtain t where "dll (nx h) (pv h) (slots (slabclass s i)) (F i) t" using free_okD(1) [OF assms(1)] by blast
    then show ?thesis using dll_frame [of h _ "F i" t h'] assms(2) free_set_iff by blast
  qed
  moreover have "\<forall>i. \<forall>x \<in> set (F i). it_flags (h' x) = ITEM_SLABBED"
    using assms(2) free_okD(4) [OF assms(1)] by (metis free_set_iff)
  ultimately show ?thesis using assms(1,3) by (simp add: free_ok_def)
qed

lemma push_free_ok:
  assumes "free_ok h s F" "it \<noteq> NULL" "it \<notin> free_set F" "it_flags (h it) = ITEM_SLABBED" and r: "push_free it i (h, s) = (h', s')"
  shows "free_ok h' s' (F(i := it # F i))"
    and "\<And>a. a \<noteq> it \<Longrightarrow> a \<notin> free_set F \<Longrightarrow> h' a = h a"
    and "s' = upd_class i (\<lambda>c. c\<lparr>slots := it, sl_curr := sl_curr c + 1\<rparr>) s"
proof -
  let ?p = "slots (slabclass s i)"
  obtain t where t: "dll (nx h) (pv h) ?p (F i) t" using free_okD(1) [OF assms(1)] by blast
  have nit: "it \<notin> set (F j)" for j using assms(3) by (auto simp: free_set_def)
  have p: "?p = (if F i = [] then 0 else hd (F i))" using dll_head [OF t] .
  then have pin: "?p \<noteq> 0 \<Longrightarrow> ?p \<in> set (F i)" by (auto split: if_splits)
  then have pit: "?p \<noteq> it" using nit assms(2) by metis
  have h': "h' = (let h = upd it (\<lambda>x. x\<lparr>prev := NULL, next := ?p\<rparr>) h in
      if ?p \<noteq> NULL then upd ?p (\<lambda>x. x\<lparr>prev := it\<rparr>) h else h)"
    and s': "s' = upd_class i (\<lambda>c. c\<lparr>slots := it, sl_curr := sl_curr c + 1\<rparr>) s"
    using r by (auto simp: push_free_def Let_def)
  then show "s' = upd_class i (\<lambda>c. c\<lparr>slots := it, sl_curr := sl_curr c + 1\<rparr>) s" by simp
  show frame: "\<And>a. a \<noteq> it \<Longrightarrow> a \<notin> free_set F \<Longrightarrow> h' a = h a"
    using pin by (auto simp: h' upd_apply free_set_iff Let_def)
  have n': "nx h' = (nx h)(it := ?p)" using pit by (auto simp: h' upd_apply fun_eq_iff Let_def)
  have p': "pv h' = (if ?p = 0 then (pv h)(it := 0) else (pv h)(it := 0, ?p := it))"
    using pit by (auto simp: h' upd_apply fun_eq_iff Let_def)
  have i: "\<exists>t. dll (nx h') (pv h') it (it # F i) t"
    using dll_push [OF t assms(2) nit] unfolding n' p' by blast
  have j: "\<exists>t. dll (nx h') (pv h') (slots (slabclass s j)) (F j) t" if "j \<noteq> i" for j
  proof -
    obtain u where u: "dll (nx h) (pv h) (slots (slabclass s j)) (F j) u" using free_okD(1) [OF assms(1)] by blast
    have "?p = 0 \<or> ?p \<notin> set (F j)" using pin free_okD(3) [OF assms(1)] that by metis
    then have "dll (nx h') (pv h') (slots (slabclass s j)) (F j) u"
      using u nit [of j] dll_nonnull [OF u] unfolding n' p' by auto
    then show ?thesis by blast
  qed
  have "\<exists>t. dll (nx h') (pv h') (slots (slabclass s' k)) ((F(i := it # F i)) k) t \<and>
      sl_curr (slabclass s' k) = length ((F(i := it # F i)) k)" for k
    using i j [of k] free_okD(2) [OF assms(1)] by (cases "k = i") (simp_all add: s')
  moreover have "it_flags (h' x) = it_flags (h x)" for x by (simp add: h' upd_apply Let_def)
  ultimately show "free_ok h' s' (F(i := it # F i))"
    using free_okD(3,4) [OF assms(1)] nit assms(4) by (auto simp: free_ok_def)
qed

lemma pop_free_ok:
  assumes "free_ok h s F" "F i = x # xs" and r: "pop_free i (h, s) = (p, h', s')"
  shows "p = x" "free_ok h' s' (F(i := xs))" "x \<notin> free_set (F(i := xs))" "x \<noteq> NULL"
    and "\<And>a. a \<notin> free_set F \<Longrightarrow> h' a = h a"
    and "s' = upd_class i (\<lambda>c. c\<lparr>slots := next (h x), sl_curr := sl_curr c - 1\<rparr>) s"
    and "refcount (h' x) = 1 \<and> it_flags (h' x) = 0"
proof -
  obtain t where t: "dll (nx h) (pv h) (slots (slabclass s i)) (x # xs) t" using free_okD(1) [OF assms(1), of i] assms(2) by auto
  then have x: "slots (slabclass s i) = x" "x \<noteq> 0" "prev (h x) = 0" by auto
  have d: "distinct (x # xs)" using dll_distinct [OF t] .
  let ?n = "next (h x)"
  have n: "?n = (if xs = [] then 0 else hd xs)" using t by (cases xs) auto
  have nin: "?n \<noteq> 0 \<Longrightarrow> ?n \<in> set xs" using n by (auto split: if_splits)
  have nx: "?n \<noteq> x" using nin d x(2) by auto
  have h': "h' = upd x (\<lambda>x. x\<lparr>it_flags := it_flags x AND NOT ITEM_SLABBED, refcount := 1\<rparr>)
      (if ?n \<noteq> NULL then upd ?n (\<lambda>x. x\<lparr>prev := NULL\<rparr>) h else h)"
    and s': "s' = upd_class i (\<lambda>c. c\<lparr>slots := ?n, sl_curr := sl_curr c - 1\<rparr>) s" and "p = x"
    using r x by (auto simp: pop_free_def Let_def upd_class_def)
  then show "p = x" "x \<noteq> NULL" "s' = upd_class i (\<lambda>c. c\<lparr>slots := ?n, sl_curr := sl_curr c - 1\<rparr>) s"
    using x by simp_all
  show "\<And>a. a \<notin> free_set F \<Longrightarrow> h' a = h a"
    using nin assms(2) by (auto simp: h' upd_apply free_set_iff) (metis list.set_intros)+
  show "x \<notin> free_set (F(i := xs))"
    using d free_okD(3) [OF assms(1), of i _ x] assms(2) by (auto simp: free_set_iff split: if_splits)
  have n': "nx h' = nx h" using nx by (auto simp: h' upd_apply fun_eq_iff)
  have p': "pv h' = (if ?n = 0 then pv h else (pv h)(?n := prev (h x)))"
    using nx x by (auto simp: h' upd_apply fun_eq_iff)
  have "dll (nx h') (pv h') ?n xs (if t = x then prev (h x) else t)"
    using dll_unlink [of "nx h" "pv h" _ "[]" x xs t] t x unfolding n' p' by auto
  then have i: "\<exists>t. dll (nx h') (pv h') ?n xs t" by blast
  have j: "\<exists>t. dll (nx h') (pv h') (slots (slabclass s j)) (F j) t" if "j \<noteq> i" for j
  proof -
    obtain u where u: "dll (nx h) (pv h) (slots (slabclass s j)) (F j) u" using free_okD(1) [OF assms(1)] by blast
    have "?n = 0 \<or> ?n \<notin> set (F j)" using nin free_okD(3) [OF assms(1), of i j] assms(2) that by (metis list.set_intros(2))
    then have "dll (nx h') (pv h') (slots (slabclass s j)) (F j) u"
      using u unfolding n' p' by auto
    then show ?thesis by blast
  qed
  have "\<exists>t. dll (nx h') (pv h') (slots (slabclass s' k)) ((F(i := xs)) k) t \<and>
      sl_curr (slabclass s' k) = length ((F(i := xs)) k)" for k
    using i j [of k] free_okD(2) [OF assms(1)] assms(2) by (cases "k = i") (simp_all add: s')
  moreover have "it_flags (h' y) = it_flags (h y)" if "y \<noteq> x" for y using that by (simp add: h' upd_apply)
  moreover have "y \<noteq> x" if "y \<in> set ((F(i := xs)) k)" for y k
    using d that free_okD(3) [OF assms(1), of i k x] assms(2) by (auto split: if_splits)
  ultimately show "free_ok h' s' (F(i := xs))"
    unfolding free_ok_def using free_okD(3,4) [OF assms(1)] assms(2)
    by (intro conjI allI impI ballI) (auto split: if_splits, (metis list.set_intros(2))+)
  show "refcount (h' x) = 1 \<and> it_flags (h' x) = 0"
    using nx free_okD(4) [OF assms(1), of x i] assms(2) by (simp add: h' upd_apply)
qed

section \<open>Freeing\<close>

text \<open>Only the free list of the class changes.\<close>

definition only_list :: "nat \<Rightarrow> slabs \<Rightarrow> slabs \<Rightarrow> bool" where
  "only_list i s s' \<longleftrightarrow> (\<exists>a b. s' = upd_class i (\<lambda>c. c\<lparr>slots := a, sl_curr := b\<rparr>) s)"

lemma only_list_trans: "only_list i s s' \<Longrightarrow> only_list i s' s'' \<Longrightarrow> only_list i s s''"
  unfolding only_list_def upd_class_def by (auto; blast)

lemma only_list_refl [simp]: "only_list i s s"
proof -
  have "s = upd_class i (\<lambda>c. c\<lparr>slots := slots (slabclass s i), sl_curr := sl_curr (slabclass s i)\<rparr>) s"
    by (simp add: upd_class_def)
  then show ?thesis unfolding only_list_def by blast
qed

lemma only_list_fields:
  assumes "only_list i s s'"
  shows "sc_size (slabclass s' j) = sc_size (slabclass s j)" "perslab (slabclass s' j) = perslab (slabclass s j)"
    "slab_list (slabclass s' j) = slab_list (slabclass s j)" "list_size (slabclass s' j) = list_size (slabclass s j)"
    "power_largest s' = power_largest s" "mem_base s' = mem_base s" "mem_current s' = mem_current s"
    "mem_avail s' = mem_avail s" "mem_malloced s' = mem_malloced s" "mem_limit s' = mem_limit s"
  using assms by (auto simp: only_list_def)

lemma do_slabs_free_ok:
  assumes "free_ok h s F" "it \<noteq> NULL" "it \<notin> free_set F" "1 \<le> i" "i \<le> power_largest s"
    and plain: "\<not> has_flag (h it) ITEM_CHUNKED"
  obtains h' s' where "do_slabs_free it i (h, s) = Some (h', s')" "free_ok h' s' (F(i := it # F i))"
    "\<And>a. a \<noteq> it \<Longrightarrow> a \<notin> free_set F \<Longrightarrow> h' a = h a" "only_list i s s'"
proof -
  let ?h = "upd it (\<lambda>x. x\<lparr>it_flags := ITEM_SLABBED, slabs_clsid := of_nat i\<rparr>) h"
  obtain h' s' where r: "push_free it i (?h, s) = (h', s')" by fastforce
  have fl: "free_ok ?h s F" by (rule free_ok_frame [OF assms(1)]) (use assms(3) in \<open>auto simp: upd_apply\<close>)
  have "it_flags (?h it) = ITEM_SLABBED" by (simp add: upd_apply)
  note p = push_free_ok [OF fl assms(2,3) this r]
  have "do_slabs_free it i (h, s) = Some (h', s')"
    using assms(4,5) plain r by (simp add: do_slabs_free_def)
  moreover have "only_list i s s'" unfolding only_list_def p(3) by (auto simp: upd_class_def)
  ultimately show ?thesis using that p(1,2) by (simp add: upd_apply)
qed

lemma split_slab_page_ok:
  assumes "free_ok h s F" "ptr \<noteq> NULL" "0 < sz" "1 \<le> i" "i \<le> power_largest s"
    and "\<forall>k < n. ptr + k * sz \<notin> free_set F \<and> \<not> has_flag (h (ptr + k * sz)) ITEM_CHUNKED"
  shows "\<exists>h' s'. split_slab_page n sz ptr i (h, s) = Some (h', s') \<and>
    free_ok h' s' (F(i := rev (map (\<lambda>k. ptr + k * sz) [0..<n]) @ F i)) \<and> only_list i s s' \<and>
    (\<forall>a. a \<notin> free_set F \<longrightarrow> (\<forall>k < n. a \<noteq> ptr + k * sz) \<longrightarrow> h' a = h a)"
  using assms
proof (induction n arbitrary: h s F ptr)
  case 0
  then show ?case by simp
next
  case (Suc n)
  have 0: "ptr \<notin> free_set F" "\<not> has_flag (h ptr) ITEM_CHUNKED" using Suc.prems(6) by force+
  obtain h1 s1 where 1: "do_slabs_free ptr i (h, s) = Some (h1, s1)" "free_ok h1 s1 (F(i := ptr # F i))"
      "\<And>a. a \<noteq> ptr \<Longrightarrow> a \<notin> free_set F \<Longrightarrow> h1 a = h a" "only_list i s s1"
    using do_slabs_free_ok [OF Suc.prems(1,2) 0(1) Suc.prems(4,5) 0(2)] by metis
  let ?F = "F(i := ptr # F i)"
  have fs: "free_set ?F = insert ptr (free_set F)" by (auto simp: free_set_iff split: if_splits)
  have next_chunks: "ptr + sz + k * sz \<notin> free_set ?F \<and> \<not> has_flag (h1 (ptr + sz + k * sz)) ITEM_CHUNKED" if "k < n" for k
  proof -
    have "ptr + Suc k * sz \<notin> free_set F" "\<not> has_flag (h (ptr + Suc k * sz)) ITEM_CHUNKED"
      using Suc.prems(6) that by (meson Suc_less_eq)+
    moreover have "ptr + Suc k * sz = ptr + sz + k * sz" "ptr + sz + k * sz \<noteq> ptr" using Suc.prems(3) by simp_all
    ultimately show ?thesis using 1(3) fs by (simp add: add.assoc)
  qed
  have pl: "power_largest s1 = power_largest s" using only_list_fields [OF 1(4)] by simp
  obtain h2 s2 where 2: "split_slab_page n sz (ptr + sz) i (h1, s1) = Some (h2, s2)"
      "free_ok h2 s2 (?F(i := rev (map (\<lambda>k. ptr + sz + k * sz) [0..<n]) @ ?F i))" "only_list i s1 s2"
      "\<forall>a. a \<notin> free_set ?F \<longrightarrow> (\<forall>k < n. a \<noteq> ptr + sz + k * sz) \<longrightarrow> h2 a = h1 a"
  proof -
    have "ptr + sz \<noteq> NULL" "i \<le> power_largest s1" using Suc.prems(2,5) pl by simp_all
    moreover have "\<forall>k < n. ptr + sz + k * sz \<notin> free_set ?F \<and> \<not> has_flag (h1 (ptr + sz + k * sz)) ITEM_CHUNKED"
      using next_chunks by blast
    ultimately show ?thesis using Suc.IH [OF 1(2) _ Suc.prems(3,4)] that by blast
  qed
  have list: "rev (map (\<lambda>k. ptr + k * sz) [0..<Suc n]) = rev (map (\<lambda>k. ptr + sz + k * sz) [0..<n]) @ [ptr]"
  proof -
    have "map (\<lambda>k. ptr + k * sz) [0..<Suc n] = ptr # map (\<lambda>k. ptr + Suc k * sz) [0..<n]"
      by (simp add: map_upt_Suc del: upt_Suc)
    then show ?thesis by (simp add: add.assoc)
  qed
  have "split_slab_page (Suc n) sz ptr i (h, s) = Some (h2, s2)" using 1(1) 2(1) by simp
  moreover have "free_ok h2 s2 (F(i := rev (map (\<lambda>k. ptr + k * sz) [0..<Suc n]) @ F i))"
    using 2(2) unfolding list by simp
  moreover have "only_list i s s2" using only_list_trans [OF 1(4) 2(3)] .
  moreover have "h2 a = h a" if "a \<notin> free_set F" "\<forall>k < Suc n. a \<noteq> ptr + k * sz" for a
  proof -
    have "a \<noteq> ptr" using that(2) by force
    moreover have "a \<noteq> ptr + sz + k * sz" if "k < n" for k
    proof -
      have "a \<noteq> ptr + Suc k * sz" using \<open>\<forall>k < Suc n. a \<noteq> ptr + k * sz\<close> \<open>k < n\<close> by blast
      then show ?thesis by simp
    qed
    ultimately show ?thesis using 2(4) 1(3) that(1) fs by auto
  qed
  ultimately show ?case by blast
qed

section \<open>Pages\<close>

text \<open>
  The invariant is that of a server whose pages all have the same size, as with the default settings
  (chunks smaller than a page, or page moving enabled).
\<close>

definition page_settings :: "settings \<Rightarrow> bool" where
  "page_settings st \<longleftrightarrow> (slab_reassign st \<or> slab_chunk_size_max st \<noteq> slab_page_size st) \<and>
     0 < slab_page_size st \<and> slab_page_size st mod CHUNK_ALIGN_BYTES = 0"

definition geometry :: "settings \<Rightarrow> slabs \<Rightarrow> bool" where
  "geometry st s \<longleftrightarrow> 1 \<le> power_largest s \<and> power_largest s < 64 \<and> perslab (slabclass s 0) = 0 \<and>
     (\<forall>i. sc_size (slabclass s i) * perslab (slabclass s i) \<le> slab_page_size st) \<and>
     (\<forall>i. 1 \<le> i \<and> i \<le> power_largest s \<longrightarrow> 0 < sc_size (slabclass s i))"

abbreviation pages :: "slabs \<Rightarrow> nat \<Rightarrow> addr set" where "pages s i \<equiv> set (slab_list (slabclass s i))"

definition apart :: "settings \<Rightarrow> addr \<Rightarrow> addr \<Rightarrow> bool" where
  "apart st p q \<longleftrightarrow> p + slab_page_size st \<le> q \<or> q + slab_page_size st \<le> p"

text \<open>A page that overlaps no page of the allocator nor the memory it has not yet handed out.\<close>

definition fresh_page :: "settings \<Rightarrow> slabs \<Rightarrow> addr \<Rightarrow> bool" where
  "fresh_page st s p \<longleftrightarrow> p \<noteq> NULL \<and> p + slab_page_size st \<le> 2 ^ 64 \<and> (\<forall>i. \<forall>q \<in> pages s i. apart st p q) \<and>
     (mem_base s \<noteq> NULL \<longrightarrow> p + slab_page_size st \<le> mem_current s \<or> mem_current s + mem_avail s \<le> p)"

definition pages_ok :: "settings \<Rightarrow> slabs \<Rightarrow> bool" where
  "pages_ok st s \<longleftrightarrow> (\<forall>i. distinct (slab_list (slabclass s i)) \<and> NULL \<notin> pages s i) \<and>
     (\<forall>i j. \<forall>p \<in> pages s i. \<forall>q \<in> pages s j. p \<noteq> q \<or> i \<noteq> j \<longrightarrow> apart st p q) \<and>
     (\<forall>i. \<forall>p \<in> pages s i. p + slab_page_size st \<le> 2 ^ 64) \<and>
     (mem_base s \<noteq> NULL \<longrightarrow> mem_current s \<noteq> NULL \<and> mem_current s + mem_avail s \<le> 2 ^ 64 \<and> (\<forall>i. \<forall>p \<in> pages s i.
        p + slab_page_size st \<le> mem_current s \<or> mem_current s + mem_avail s \<le> p))"

definition chunks :: "slabs \<Rightarrow> nat \<Rightarrow> addr set" where
  "chunks s i = {p + k * sc_size (slabclass s i) | p k. p \<in> pages s i \<and> k < perslab (slabclass s i)}"

definition slabs_inv :: "settings \<Rightarrow> heap \<Rightarrow> slabs \<Rightarrow> (nat \<Rightarrow> addr list) \<Rightarrow> bool" where
  "slabs_inv st h s F \<longleftrightarrow> page_settings st \<and> geometry st s \<and> pages_ok st s \<and> free_ok h s F \<and>
     (\<forall>i. set (F i) \<subseteq> chunks s i)"

text \<open>The chunks handed out, with their classes.\<close>

definition in_use :: "slabs \<Rightarrow> (nat \<Rightarrow> addr list) \<Rightarrow> (addr \<times> nat) set" where
  "in_use s F = {(a, i). a \<in> chunks s i \<and> a \<notin> set (F i)}"

lemma chunk_in_page:
  assumes "geometry st s" "page_settings st" "a \<in> chunks s i"
  obtains p where "p \<in> pages s i" "p \<le> a" "a < p + slab_page_size st"
proof -
  obtain p k where pk: "p \<in> pages s i" "k < perslab (slabclass s i)" "a = p + k * sc_size (slabclass s i)"
    using assms(3) by (auto simp: chunks_def)
  have "k * sc_size (slabclass s i) < slab_page_size st"
  proof (cases "sc_size (slabclass s i) = 0")
    case True
    then show ?thesis using assms(2) by (simp add: page_settings_def)
  next
    case False
    then have "k * sc_size (slabclass s i) < perslab (slabclass s i) * sc_size (slabclass s i)" using pk by simp
    also have "\<dots> \<le> slab_page_size st" using assms(1) by (simp add: geometry_def mult.commute)
    finally show ?thesis .
  qed
  then show ?thesis using that pk by auto
qed

lemma page_interval_disjoint:
  "apart st p q \<Longrightarrow> p \<le> a \<Longrightarrow> a < p + slab_page_size st \<Longrightarrow> q \<le> a \<Longrightarrow> a < q + slab_page_size st \<Longrightarrow> False"
  by (auto simp: apart_def)

lemma chunks_disjoint:
  assumes "geometry st s" "page_settings st" "pages_ok st s" "i \<noteq> j" "a \<in> chunks s i"
  shows "a \<notin> chunks s j"
proof
  assume "a \<in> chunks s j"
  then obtain q where q: "q \<in> pages s j" "q \<le> a" "a < q + slab_page_size st"
    by (rule chunk_in_page [OF assms(1,2)])
  obtain p where p: "p \<in> pages s i" "p \<le> a" "a < p + slab_page_size st"
    by (rule chunk_in_page [OF assms(1,2,5)])
  have "apart st p q" using assms(3,4) p q by (auto simp: pages_ok_def)
  then show False using page_interval_disjoint p q by blast
qed

text \<open>The memory of different chunks does not overlap.\<close>

lemma page_chunks_apart:
  fixes k :: nat
  assumes "k \<noteq> l"
  shows "p + k * c + c \<le> p + l * c \<or> p + l * c + c \<le> p + k * c"
proof (cases "k < l")
  case True
  then have "Suc k * c \<le> l * c" by (intro mult_le_mono1) simp
  then show ?thesis by simp
next
  case False
  then have "Suc l * c \<le> k * c" using assms by (intro mult_le_mono1) simp
  then show ?thesis by simp
qed

lemma chunk_end:
  fixes k :: nat
  assumes "k < n" "c * n \<le> z"
  shows "k * c + c \<le> z"
  using mult_le_mono1 [of "Suc k" n c] assms by (simp add: mult.commute)

lemma chunks_apart:
  assumes "geometry st s" "page_settings st" "pages_ok st s" "a \<in> chunks s i" "b \<in> chunks s j" "a \<noteq> b"
  shows "a + sc_size (slabclass s i) \<le> b \<or> b + sc_size (slabclass s j) \<le> a"
proof -
  obtain p k where p: "p \<in> pages s i" "k < perslab (slabclass s i)" "a = p + k * sc_size (slabclass s i)"
    using assms(4) by (auto simp: chunks_def)
  obtain q l where q: "q \<in> pages s j" "l < perslab (slabclass s j)" "b = q + l * sc_size (slabclass s j)"
    using assms(5) by (auto simp: chunks_def)
  show ?thesis
  proof (cases "p = q \<and> i = j")
    case True
    then show ?thesis using p q assms(6) page_chunks_apart [of k l p "sc_size (slabclass s i)"] by auto
  next
    case False
    then have "apart st p q" using assms(3) p q by (auto simp: pages_ok_def)
    moreover have "k * sc_size (slabclass s i) + sc_size (slabclass s i) \<le> slab_page_size st"
      using chunk_end [OF p(2)] assms(1) by (simp add: geometry_def)
    moreover have "l * sc_size (slabclass s j) + sc_size (slabclass s j) \<le> slab_page_size st"
      using chunk_end [OF q(2)] assms(1) by (simp add: geometry_def)
    ultimately show ?thesis using p q by (auto simp: apart_def)
  qed
qed

lemma fresh_not_chunk:
  assumes "geometry st s" "page_settings st" "fresh_page st s p" "p \<le> a" "a < p + slab_page_size st"
  shows "a \<notin> chunks s i"
proof
  assume "a \<in> chunks s i"
  then obtain q where q: "q \<in> pages s i" "q \<le> a" "a < q + slab_page_size st"
    by (rule chunk_in_page [OF assms(1,2)])
  have "apart st p q" using assms(3) q by (auto simp: fresh_page_def)
  then show False using page_interval_disjoint q assms(4,5) by blast
qed

section \<open>A new page\<close>

text \<open>What the environment answers: the page \<open>malloc\<close> returns overlaps nothing the allocator has.\<close>

definition malloc_ok :: "settings \<Rightarrow> addr \<Rightarrow> slabs \<Rightarrow> bool" where
  "malloc_ok st m s \<longleftrightarrow> (mem_base s = NULL \<and> m \<noteq> NULL \<longrightarrow> fresh_page st s m)"

text \<open>Two states that differ in nothing the chunks and lists depend on.\<close>

definition same_chunks :: "slabs \<Rightarrow> slabs \<Rightarrow> bool" where
  "same_chunks s s' \<longleftrightarrow> power_largest s' = power_largest s \<and>
     (\<forall>i. sc_size (slabclass s' i) = sc_size (slabclass s i) \<and> perslab (slabclass s' i) = perslab (slabclass s i) \<and>
        slots (slabclass s' i) = slots (slabclass s i) \<and> sl_curr (slabclass s' i) = sl_curr (slabclass s i)) \<and>
     (\<forall>i > 0. slab_list (slabclass s' i) = slab_list (slabclass s i))"

lemma same_chunks_trans: "same_chunks s s' \<Longrightarrow> same_chunks s' s'' \<Longrightarrow> same_chunks s s''"
  by (simp add: same_chunks_def)

lemma same_chunks_geometry: "same_chunks s s' \<Longrightarrow> geometry st s' = geometry st s"
  by (simp add: same_chunks_def geometry_def)

lemma same_chunks_chunks:
  assumes "same_chunks s s'" "geometry st s"
  shows "chunks s' i = chunks s i"
proof (cases i)
  case 0
  have "perslab (slabclass s 0) = 0" "perslab (slabclass s' 0) = 0"
    using assms by (simp_all add: same_chunks_def geometry_def)
  then show ?thesis using 0 by (simp add: chunks_def)
next
  case (Suc n)
  then have "slab_list (slabclass s' i) = slab_list (slabclass s i)" using assms(1) by (simp add: same_chunks_def)
  then show ?thesis using assms(1) by (simp add: chunks_def same_chunks_def)
qed

lemma same_chunks_free_ok: "same_chunks s s' \<Longrightarrow> free_ok h s F \<Longrightarrow> free_ok h s' F"
  by (simp add: same_chunks_def free_ok_def)

lemma grow_same:
  assumes "grow_slab_list ok i s = (b, s')"
  shows "same_chunks s s'" "pages_ok st s' = pages_ok st s" "malloc_ok st m s' = malloc_ok st m s"
    "slab_list (slabclass s' j) = slab_list (slabclass s j)"
proof -
  have "s' = s \<or> s' = upd_class i (\<lambda>c. c\<lparr>list_size := (if list_size c \<noteq> 0 then list_size c * 2 else 16)\<rparr>) s"
    using assms by (auto simp: grow_slab_list_def Let_def upd_class_def split: if_splits)
  then have f: "sc_size (slabclass s' j) = sc_size (slabclass s j)" "perslab (slabclass s' j) = perslab (slabclass s j)"
      "slots (slabclass s' j) = slots (slabclass s j)" "sl_curr (slabclass s' j) = sl_curr (slabclass s j)"
      "slab_list (slabclass s' j) = slab_list (slabclass s j)" "power_largest s' = power_largest s"
      "mem_base s' = mem_base s" "mem_current s' = mem_current s" "mem_avail s' = mem_avail s" for j
    by auto
  then show "same_chunks s s'" "pages_ok st s' = pages_ok st s" "malloc_ok st m s' = malloc_ok st m s"
    "slab_list (slabclass s' j) = slab_list (slabclass s j)"
    by (simp_all add: same_chunks_def pages_ok_def malloc_ok_def fresh_page_def)
qed

lemma pages_ok_sub:
  assumes "pages_ok st s" "\<And>i. pages s' i \<subseteq> pages s i" "\<And>i. distinct (slab_list (slabclass s' i))"
    "mem_base s' = mem_base s" "mem_current s' = mem_current s" "mem_avail s' = mem_avail s"
  shows "pages_ok st s'"
proof -
  have "NULL \<notin> pages s' i" for i using assms(1) assms(2) [of i] by (auto simp: pages_ok_def)
  moreover have "apart st p q" if "p \<in> pages s' i" "q \<in> pages s' j" "p \<noteq> q \<or> i \<noteq> j" for i j p q
    using assms(1) subsetD [OF assms(2) that(1)] subsetD [OF assms(2) that(2)] that(3) unfolding pages_ok_def by blast
  moreover have "p + slab_page_size st \<le> 2 ^ 64" if "p \<in> pages s' i" for i p
    using assms(1) subsetD [OF assms(2) that] unfolding pages_ok_def by blast
  moreover have "mem_base s \<noteq> NULL \<longrightarrow> p + slab_page_size st \<le> mem_current s \<or> mem_current s + mem_avail s \<le> p" if "p \<in> pages s' i" for i p
    using assms(1) subsetD [OF assms(2) that] unfolding pages_ok_def by blast
  ultimately show ?thesis using assms(1,3) unfolding pages_ok_def assms(4-6) by blast
qed

lemma pool_page:
  assumes "get_page_from_global_pool s = (p, s')" "pages_ok st s"
  shows "same_chunks s s'" "pages_ok st s'" "p \<noteq> NULL \<Longrightarrow> fresh_page st s' p" "p = NULL \<Longrightarrow> s' = s"
proof -
  let ?l = "slab_list (slabclass s 0)"
  have "(p, s') = (if ?l = [] then (0, s) else (last ?l, upd_class 0 (\<lambda>c. c\<lparr>slab_list := butlast ?l\<rparr>) s))"
    using assms(1) by (simp add: get_page_from_global_pool_def Let_def)
  then consider "?l = []" "p = 0" "s' = s"
    | "?l \<noteq> []" "p = last ?l" "s' = upd_class 0 (\<lambda>c. c\<lparr>slab_list := butlast ?l\<rparr>) s"
    by (auto split: if_splits)
  then have "same_chunks s s' \<and> pages_ok st s' \<and> (p \<noteq> NULL \<longrightarrow> fresh_page st s' p) \<and> (p = NULL \<longrightarrow> s' = s)"
  proof cases
    case 1
    then show ?thesis using assms(2) by (simp add: same_chunks_def)
  next
    case 2
    have sub: "pages s' i \<subseteq> pages s i" for i using 2 by (auto dest: in_set_butlastD)
    have mem: "mem_base s' = mem_base s" "mem_current s' = mem_current s" "mem_avail s' = mem_avail s"
      "power_largest s' = power_largest s" using 2 by simp_all
    have d: "distinct ?l" "0 \<notin> set ?l" using assms(2) by (auto simp: pages_ok_def)
    have p: "p \<in> pages s 0" "p \<notin> pages s' 0" "p \<noteq> 0"
    proof -
      have l: "?l = butlast ?l @ [p]" using 2 by simp
      have "p \<notin> set (butlast ?l)" using d(1) by (subst (asm) l) simp
      then show "p \<in> pages s 0" "p \<notin> pages s' 0" using 2 by auto
      then show "p \<noteq> 0" using d(2) by metis
    qed
    have "apart st p q" if "q \<in> pages s' i" for q i
    proof -
      have "p \<noteq> q \<or> 0 \<noteq> i" using p that by (cases "i = 0") auto
      then show ?thesis using assms(2) p(1) sub that unfolding pages_ok_def by blast
    qed
    then have "fresh_page st s' p"
      using assms(2) p(1,3) unfolding fresh_page_def pages_ok_def mem by blast
    moreover have "pages_ok st s'"
    proof (rule pages_ok_sub [OF assms(2) sub _ mem(1-3)])
      show "distinct (slab_list (slabclass s' i))" for i
        using assms(2) distinct_butlast [OF d(1)] 2(3) by (auto simp: pages_ok_def)
    qed
    moreover have "same_chunks s s'" using 2 by (simp add: same_chunks_def)
    ultimately show ?thesis using p by blast
  qed
  then show "same_chunks s s'" "pages_ok st s'" "p \<noteq> NULL \<Longrightarrow> fresh_page st s' p" "p = NULL \<Longrightarrow> s' = s" by auto
qed

lemma allocated_page:
  assumes "memory_allocate m (slab_page_size st) s = (p, s')" "pages_ok st s" "malloc_ok st m s" "page_settings st"
  shows "same_chunks s s'" "pages_ok st s'" "p \<noteq> NULL \<Longrightarrow> fresh_page st s' p"
proof -
  have al: "align_chunk (slab_page_size st) = slab_page_size st"
    using assms(4) by (simp add: align_chunk_def page_settings_def)
  consider "mem_base s = 0" "p = m" "s' = s\<lparr>mem_malloced := mem_malloced s + slab_page_size st\<rparr>"
    | "p = 0" "s' = s"
    | "mem_base s \<noteq> 0" "p = mem_current s" "slab_page_size st \<le> mem_avail s"
      "s' = s\<lparr>mem_current := mem_current s + slab_page_size st, mem_avail := mem_avail s - slab_page_size st,
         mem_malloced := mem_malloced s + slab_page_size st\<rparr>"
    using assms(1) al by (fastforce simp: memory_allocate_def Let_def split: if_splits)
  then have "same_chunks s s' \<and> pages_ok st s' \<and> (p \<noteq> NULL \<longrightarrow> fresh_page st s' p)"
  proof cases
    case 1
    then show ?thesis using assms(2,3) by (auto simp: same_chunks_def pages_ok_def fresh_page_def malloc_ok_def)
  next
    case 2
    then show ?thesis using assms(2) by (simp add: same_chunks_def)
  next
    case 3
    then have "pages_ok st s'" using assms(2) by (fastforce simp: pages_ok_def)
    moreover have "fresh_page st s' p" if "p \<noteq> 0"
      using assms(2) 3 that by (fastforce simp: pages_ok_def fresh_page_def apart_def)
    ultimately show ?thesis using 3 by (simp add: same_chunks_def)
  qed
  then show "same_chunks s s'" "pages_ok st s'" "p \<noteq> NULL \<Longrightarrow> fresh_page st s' p" by auto
qed

text \<open>A fresh page becomes chunks of the class, all of them free; nothing in use changes.\<close>

lemma add_page:
  assumes inv: "slabs_inv st h s F" and fresh: "fresh_page st s ptr" and i: "1 \<le> i" "i \<le> power_largest s"
  shows "\<exists>h' s1. split_slab_page_into_freelist ptr i (clear_page ptr (slab_page_size st) h, s) = Some (h', s1) \<and>
    only_list i s s1 \<and>
    (let s' = upd_class i (\<lambda>c. c\<lparr>slab_list := slab_list c @ [ptr]\<rparr>) s1;
         F' = F(i := rev (map (\<lambda>k. ptr + k * sc_size (slabclass s i)) [0..<perslab (slabclass s i)]) @ F i)
     in slabs_inv st h' s' F' \<and> in_use s' F' = in_use s F \<and> (\<forall>(a, j) \<in> in_use s F. h' a = h a))"
proof -
  let ?L = "slab_page_size st" and ?sz = "sc_size (slabclass s i)" and ?n = "perslab (slabclass s i)"
  let ?h = "clear_page ptr ?L h"
  let ?new = "map (\<lambda>k. ptr + k * ?sz) [0..<?n]"
  have w: "page_settings st" "geometry st s" "pages_ok st s" "free_ok h s F" "\<And>i. set (F i) \<subseteq> chunks s i"
    using inv by (auto simp: slabs_inv_def)
  have sz: "0 < ?sz" "?sz * ?n \<le> ?L" using w(2) i by (auto simp: geometry_def)
  have inside: "ptr + k * ?sz < ptr + ?L" if "k < ?n" for k
  proof -
    have "k * ?sz < ?n * ?sz" using that sz(1) by simp
    moreover have "?n * ?sz \<le> ?L" using sz(2) by (simp add: mult.commute)
    ultimately show ?thesis by linarith
  qed
  have notfree: "a \<notin> free_set F" if "ptr \<le> a" "a < ptr + ?L" for a
    using fresh_not_chunk [OF w(2,1) fresh that] w(5) by (auto simp: free_set_iff)
  have fl: "free_ok ?h s F" by (rule free_ok_frame [OF w(4)]) (use notfree in \<open>auto simp: clear_page_def\<close>)
  have "ptr \<noteq> 0" using fresh by (simp add: fresh_page_def)
  moreover have "\<forall>k < ?n. ptr + k * ?sz \<notin> free_set F \<and> \<not> has_flag (?h (ptr + k * ?sz)) ITEM_CHUNKED"
    using inside notfree by (auto simp: clear_page_def zero_item_def has_flag_def)
  ultimately obtain h' s1 where r: "split_slab_page ?n ?sz ptr i (?h, s) = Some (h', s1)"
      "free_ok h' s1 (F(i := rev ?new @ F i))" "only_list i s s1"
      "\<forall>a. a \<notin> free_set F \<longrightarrow> (\<forall>k < ?n. a \<noteq> ptr + k * ?sz) \<longrightarrow> h' a = ?h a"
    using split_slab_page_ok [OF fl _ sz(1) i] by blast
  define s' where "s' = upd_class i (\<lambda>c. c\<lparr>slab_list := slab_list c @ [ptr]\<rparr>) s1"
  define F' where "F' = F(i := rev ?new @ F i)"
  note f1 = only_list_fields [OF r(3)]
  have f: "sc_size (slabclass s' j) = sc_size (slabclass s j)" "perslab (slabclass s' j) = perslab (slabclass s j)"
      "slab_list (slabclass s' j) = (if j = i then slab_list (slabclass s i) @ [ptr] else slab_list (slabclass s j))"
      "power_largest s' = power_largest s" "mem_base s' = mem_base s" "mem_current s' = mem_current s"
      "mem_avail s' = mem_avail s" "slots (slabclass s' j) = slots (slabclass s1 j)"
      "sl_curr (slabclass s' j) = sl_curr (slabclass s1 j)" for j
    by (auto simp: s'_def f1)
  have ch: "chunks s' j = (if j = i then chunks s i \<union> set ?new else chunks s j)" for j
    by (auto simp: chunks_def f; blast)
  have "geometry st s'" using w(2) by (simp add: geometry_def f)
  moreover have "pages_ok st s'"
  proof -
    have "\<not> apart st ptr ptr" using w(1) by (auto simp: apart_def page_settings_def)
    then have "ptr \<notin> pages s j" for j using fresh by (auto simp: fresh_page_def)
    then show ?thesis using w(3) fresh unfolding pages_ok_def f fresh_page_def
      by (auto simp: apart_def split: if_splits)
  qed
  moreover have "free_ok h' s' F'" by (rule free_ok_frame [OF r(2) [folded F'_def]]) (simp_all add: f)
  moreover have "set (F' j) \<subseteq> chunks s' j" for j using w(5) [of j] by (auto simp: ch F'_def)
  ultimately have inv': "slabs_inv st h' s' F'" using w(1) by (simp add: slabs_inv_def)
  have new: "x \<notin> chunks s j" if "x \<in> set ?new" for x j
    using fresh_not_chunk [OF w(2,1) fresh] inside that by auto
  have use: "in_use s' F' = in_use s F"
    using new by (auto simp: in_use_def ch F'_def split: if_splits)
  have "h' a = h a" if "(a, j) \<in> in_use s F" for a j
  proof -
    have a: "a \<in> chunks s j" "a \<notin> set (F j)" using that by (auto simp: in_use_def)
    then have "a \<notin> free_set F" using chunks_disjoint [OF w(2,1,3)] w(5) by (auto simp: free_set_iff) (metis subsetD)
    moreover have "\<not> (ptr \<le> a \<and> a < ptr + ?L)" using fresh_not_chunk [OF w(2,1) fresh] a(1) by blast
    moreover have "a \<noteq> ptr + k * ?sz" if "k < ?n" for k
      using fresh_not_chunk [OF w(2,1) fresh, of "ptr + k * ?sz" j] inside [OF that] a(1) by auto
    ultimately have "h' a = clear_page ptr ?L h a" "clear_page ptr ?L h a = h a"
      using r(4) by (auto simp: clear_page_def)
    then show ?thesis by simp
  qed
  then show ?thesis
    using r(1,3) inv' use unfolding split_slab_page_into_freelist_def Let_def s'_def F'_def by auto
qed

text \<open>Two states that agree on the chunks have the same invariant.\<close>

lemma slabs_inv_same:
  assumes "slabs_inv st h s F" "same_chunks s s'" "pages_ok st s'"
  shows "slabs_inv st h s' F" "in_use s' F = in_use s F"
proof -
  have g: "geometry st s" using assms(1) by (simp add: slabs_inv_def)
  then have ch: "chunks s' i = chunks s i" for i using same_chunks_chunks [OF assms(2)] by blast
  show "slabs_inv st h s' F"
    using assms same_chunks_free_ok [OF assms(2)] same_chunks_geometry [OF assms(2)] by (simp add: slabs_inv_def ch)
  show "in_use s' F = in_use s F" by (simp add: in_use_def ch)
qed

lemma newslab_ok:
  assumes inv: "slabs_inv st h s F" and m: "malloc_ok st malloced s" and i: "1 \<le> i" "i \<le> power_largest s"
  shows "\<exists>b h' s' F'. do_slabs_newslab st malloced realloc_ok i (h, s) = Some (b, h', s') \<and> slabs_inv st h' s' F' \<and>
     in_use s' F' = in_use s F \<and> (\<forall>(a, j) \<in> in_use s F. h' a = h a) \<and> power_largest s' = power_largest s"
proof (cases "mem_limit s \<noteq> 0 \<and> mem_malloced s + page_len st (slabclass s i) > mem_limit s \<and> slabs_of s i > 0 \<and>
     slabs_of s SLAB_GLOBAL_PAGE_POOL = 0")
  case True
  have sc: "same_chunks s (s\<lparr>mem_limit_reached := True\<rparr>)" "pages_ok st (s\<lparr>mem_limit_reached := True\<rparr>)"
    using inv by (auto simp: same_chunks_def slabs_inv_def pages_ok_def)
  have r: "do_slabs_newslab st malloced realloc_ok i (h, s) = Some (False, h, s\<lparr>mem_limit_reached := True\<rparr>)"
    using True by (simp add: do_slabs_newslab_def Let_def)
  show ?thesis
    by (rule exI [of _ False], rule exI [of _ h], rule exI [of _ "s\<lparr>mem_limit_reached := True\<rparr>"], rule exI [of _ F])
      (use r slabs_inv_same [OF inv sc] in auto)
next
  case False
  have w: "page_settings st" "pages_ok st s" using inv by (auto simp: slabs_inv_def)
  have len: "page_len st p = slab_page_size st" for p using w(1) by (auto simp: page_len_def page_settings_def)
  obtain g s1 where 1: "grow_slab_list realloc_ok i s = (g, s1)" by fastforce
  note g1 = grow_same [OF 1]
  have p1: "pages_ok st s1" "malloc_ok st malloced s1" using g1(2,3) w(2) m by simp_all
  note i1 = slabs_inv_same [OF inv g1(1) p1(1)]
  obtain pooled s2 where 2: "get_page_from_global_pool s1 = (pooled, s2)" by fastforce
  note g2 = pool_page [OF 2 p1(1)]
  obtain ptr s3 where 3: "(if pooled \<noteq> NULL then (pooled, s2) else memory_allocate malloced (slab_page_size st) s2) = (ptr, s3)"
    by fastforce
  have g3: "same_chunks s2 s3" "pages_ok st s3" "ptr \<noteq> NULL \<Longrightarrow> fresh_page st s3 ptr"
  proof -
    have "same_chunks s2 s3 \<and> pages_ok st s3 \<and> (ptr \<noteq> NULL \<longrightarrow> fresh_page st s3 ptr)"
    proof (cases "pooled = NULL")
      case True
      then have "memory_allocate malloced (slab_page_size st) s2 = (ptr, s3)" "s2 = s1" using 3 g2(4) by auto
      then show ?thesis using allocated_page p1 w(1) by blast
    next
      case False
      then show ?thesis using 3 g2 by (auto simp: same_chunks_def)
    qed
    then show "same_chunks s2 s3" "pages_ok st s3" "ptr \<noteq> NULL \<Longrightarrow> fresh_page st s3 ptr" by auto
  qed
  have s13: "same_chunks s s3" using same_chunks_trans [OF same_chunks_trans [OF g1(1) g2(1)] g3(1)] .
  note i3 = slabs_inv_same [OF inv s13 g3(2)]
  have pl: "power_largest s3 = power_largest s" "power_largest s1 = power_largest s" using s13 g1(1) by (auto simp: same_chunks_def)
  have run: "do_slabs_newslab st malloced realloc_ok i (h, s) =
      (if \<not> g then Some (False, h, s1)
       else if ptr = NULL then Some (False, h, s3)
       else do { (h, s) \<leftarrow> split_slab_page_into_freelist ptr i (clear_page ptr (slab_page_size st) h, s3);
                 Some (True, h, upd_class i (\<lambda>c. c\<lparr>slab_list := slab_list c @ [ptr]\<rparr>) s) })"
    unfolding do_slabs_newslab_def Let_def prod.case if_not_P [OF False] unfolding 1 len prod.case 2 3 by simp
  show ?thesis
  proof (cases "g \<and> ptr \<noteq> NULL")
    case True
    obtain h' s4 where 4: "split_slab_page_into_freelist ptr i (clear_page ptr (slab_page_size st) h, s3) = Some (h', s4)"
      "only_list i s3 s4" "let s' = upd_class i (\<lambda>c. c\<lparr>slab_list := slab_list c @ [ptr]\<rparr>) s4;
           F' = F(i := rev (map (\<lambda>k. ptr + k * sc_size (slabclass s3 i)) [0..<perslab (slabclass s3 i)]) @ F i)
       in slabs_inv st h' s' F' \<and> in_use s' F' = in_use s3 F \<and> (\<forall>(a, j) \<in> in_use s3 F. h' a = h a)"
    proof -
      have "fresh_page st s3 ptr" "i \<le> power_largest s3" using g3(3) True i(2) pl by auto
      then show ?thesis using add_page [OF i3(1) _ i(1)] that by blast
    qed
    have "power_largest s4 = power_largest s3" using only_list_fields [OF 4(2)] by simp
    then show ?thesis using 4 True run i3(2) pl unfolding Let_def by auto
  next
    case False
    then show ?thesis using run i1 i3 pl by (cases g) auto
  qed
qed

section \<open>Allocation and release\<close>

text \<open>A change of one free list.\<close>

lemma slabs_inv_list:
  assumes "slabs_inv st h s F" "only_list i s s'" "free_ok h' s' F'" "\<And>j. set (F' j) \<subseteq> chunks s j"
  shows "slabs_inv st h' s' F'" "chunks s' j = chunks s j"
proof -
  note f = only_list_fields [OF assms(2)]
  show ch: "chunks s' j = chunks s j" for j by (simp add: chunks_def f)
  show "slabs_inv st h' s' F'"
    using assms(1,3,4) by (simp add: slabs_inv_def geometry_def pages_ok_def f ch)
qed

lemma alloc_ok:
  assumes inv: "slabs_inv st h s F" and m: "malloc_ok st malloced s"
  shows "\<exists>p h' s' F'. do_slabs_alloc st malloced realloc_ok i no_newpage (h, s) = Some (p, h', s') \<and>
     slabs_inv st h' s' F' \<and> (\<forall>(a, j) \<in> in_use s F. h' a = h a) \<and> power_largest s' = power_largest s \<and>
     (p \<noteq> NULL \<longrightarrow> 1 \<le> i \<and> i \<le> power_largest s \<and> refcount (h' p) = 1 \<and> it_flags (h' p) = 0) \<and>
     (if p = NULL then in_use s' F' = in_use s F
      else p \<notin> fst ` in_use s F \<and> in_use s' F' = insert (p, i) (in_use s F))"
proof (cases "1 \<le> i \<and> i \<le> power_largest s")
  case False
  then have "do_slabs_alloc st malloced realloc_ok i no_newpage (h, s) = Some (NULL, h, s)"
    by (auto simp: do_slabs_alloc_def Let_def)
  then show ?thesis using inv by auto
next
  case True
  obtain h1 s1 F1 where 1: "(if sl_curr (slabclass s i) = 0 \<and> \<not> no_newpage
        then map_option snd (do_slabs_newslab st malloced realloc_ok i (h, s)) else Some (h, s)) = Some (h1, s1)"
      "slabs_inv st h1 s1 F1" "in_use s1 F1 = in_use s F" "\<forall>(a, j) \<in> in_use s F. h1 a = h a"
      "power_largest s1 = power_largest s"
    using newslab_ok [OF inv m, of i realloc_ok] True inv by (cases "sl_curr (slabclass s i) = 0 \<and> \<not> no_newpage") auto
  have fl: "free_ok h1 s1 F1" and cur: "sl_curr (slabclass s1 i) = length (F1 i)"
    using 1(2) by (auto simp: slabs_inv_def free_ok_def)
  have run: "do_slabs_alloc st malloced realloc_ok i no_newpage (h, s) =
      Some (if F1 i \<noteq> [] then pop_free i (h1, s1) else (NULL, h1, s1))"
    using True 1(1) cur by (auto simp: do_slabs_alloc_def Let_def)
  show ?thesis
  proof (cases "F1 i")
    case Nil
    then show ?thesis using run 1 by auto
  next
    case (Cons x xs)
    obtain p h' s' where r: "pop_free i (h1, s1) = (p, h', s')" by (metis prod.exhaust)
    note pop = pop_free_ok [OF fl Cons r]
    let ?F = "F1(i := xs)"
    have ol: "only_list i s1 s'" unfolding only_list_def pop(6) by (auto simp: upd_class_def)
    have sub: "set (?F j) \<subseteq> chunks s1 j" for j
    proof -
      have "set (F1 j) \<subseteq> chunks s1 j" using 1(2) by (simp add: slabs_inv_def)
      then show ?thesis using Cons by auto
    qed
    have inv': "slabs_inv st h' s' ?F" and ch: "chunks s' j = chunks s1 j" for j
      using slabs_inv_list [OF 1(2) ol pop(2)] sub by blast+
    have "set (F1 i) \<subseteq> chunks s1 i" using 1(2) by (simp add: slabs_inv_def)
    then have x: "x \<in> chunks s1 i" using Cons by simp
    have use: "in_use s' ?F = insert (x, i) (in_use s1 F1)"
      using x pop(3) Cons by (auto simp: in_use_def ch free_set_iff split: if_splits)
    have w: "page_settings st" "geometry st s1" "pages_ok st s1" using 1(2) by (auto simp: slabs_inv_def)
    have new: "x \<notin> fst ` in_use s1 F1"
      using chunks_disjoint [OF w(2,1,3), of i] x Cons by (auto simp: in_use_def) (metis list.set_intros(1))
    note inv'
    moreover have "h' a = h a" if "(a, j) \<in> in_use s F" for a j
    proof -
      have "(a, j) \<in> in_use s1 F1" using that 1(3) by simp
      then have "a \<notin> free_set F1"
        using chunks_disjoint [OF w(2,1,3)] 1(2) by (auto simp: in_use_def free_set_iff slabs_inv_def) (metis subsetD)
      then show ?thesis using pop(5) 1(4) that by auto
    qed
    ultimately show ?thesis using run r Cons use new 1(3,5) pop(1,4,7) True only_list_fields(5) [OF ol] by auto
  qed
qed

lemma free_ok_inv:
  assumes inv: "slabs_inv st h s F" and use: "(p, i) \<in> in_use s F" and i: "1 \<le> i" "i \<le> power_largest s"
    and plain: "\<not> has_flag (h p) ITEM_CHUNKED"
  shows "\<exists>h' s' F'. do_slabs_free p i (h, s) = Some (h', s') \<and> slabs_inv st h' s' F' \<and>
     in_use s' F' = in_use s F - {(p, i)} \<and> power_largest s' = power_largest s \<and> (\<forall>(a, j) \<in> in_use s F. a \<noteq> p \<longrightarrow> h' a = h a)"
proof -
  have w: "page_settings st" "geometry st s" "pages_ok st s" "free_ok h s F" "\<And>i. set (F i) \<subseteq> chunks s i"
    using inv by (auto simp: slabs_inv_def)
  have out: "a \<notin> free_set F" if "(a, j) \<in> in_use s F" for a j
    using chunks_disjoint [OF w(2,1,3)] w(5) that by (auto simp: in_use_def free_set_iff) (metis subsetD)
  have "p \<in> chunks s i" using use by (simp add: in_use_def)
  then have p0: "p \<noteq> NULL"
    using chunk_in_page [OF w(2,1)] w(3) by (metis bot_nat_0.extremum_uniqueI pages_ok_def)
  obtain h' s' where r: "do_slabs_free p i (h, s) = Some (h', s')" "free_ok h' s' (F(i := p # F i))"
      "\<And>a. a \<noteq> p \<Longrightarrow> a \<notin> free_set F \<Longrightarrow> h' a = h a" "only_list i s s'"
    using do_slabs_free_ok [OF w(4) p0 out [OF use] i plain] by metis
  have sub: "set ((F(i := p # F i)) j) \<subseteq> chunks s j" for j using w(5) [of j] \<open>p \<in> chunks s i\<close> by auto
  have inv': "slabs_inv st h' s' (F(i := p # F i))" and ch: "chunks s' j = chunks s j" for j
    using slabs_inv_list [OF inv r(4,2)] sub by blast+
  note inv'
  moreover have "in_use s' (F(i := p # F i)) = in_use s F - {(p, i)}" by (auto simp: in_use_def ch)
  ultimately show ?thesis using r(1,3) out only_list_fields(5) [OF r(4)] by blast
qed

section \<open>Interpretation\<close>

definition alloc_inv :: "settings \<Rightarrow> heap \<times> slabs \<Rightarrow> (addr \<times> nat) set \<Rightarrow> bool" where
  "alloc_inv st hs U \<longleftrightarrow> (\<exists>F. slabs_inv st (fst hs) (snd hs) F \<and> in_use (snd hs) F = U) \<and>
     (\<forall>(p, i) \<in> U. 1 \<le> i \<and> i \<le> power_largest (snd hs))"

record alloc_env =
  env_malloc :: addr
  env_realloc :: bool
  env_no_newpage :: bool

definition slab_take :: "settings \<Rightarrow> alloc_env \<Rightarrow> nat \<Rightarrow> heap \<times> slabs \<Rightarrow> (addr \<times> heap \<times> slabs) option" where
  "slab_take st e i hs = do_slabs_alloc st (env_malloc e) (env_realloc e) i (env_no_newpage e) hs"

definition slab_write :: "addr \<Rightarrow> (item \<Rightarrow> item) \<Rightarrow> heap \<times> slabs \<Rightarrow> heap \<times> slabs" where
  "slab_write p f hs = (upd p f (fst hs), snd hs)"

definition env_ok :: "settings \<Rightarrow> alloc_env \<Rightarrow> nat \<Rightarrow> heap \<times> slabs \<Rightarrow> bool" where
  "env_ok st e i hs \<longleftrightarrow> malloc_ok st (env_malloc e) (snd hs)"

definition not_chunked :: "addr \<Rightarrow> heap \<times> slabs \<Rightarrow> bool" where
  "not_chunked p hs \<longleftrightarrow> \<not> has_flag (fst hs p) ITEM_CHUNKED"

lemma in_use_not_free:
  assumes "slabs_inv st h s F" "(a, j) \<in> in_use s F"
  shows "a \<notin> free_set F"
proof
  assume "a \<in> free_set F"
  then obtain i where "a \<in> set (F i)" by (auto simp: free_set_iff)
  moreover from this have "a \<in> chunks s i" using assms(1) by (auto simp: slabs_inv_def)
  ultimately show False
    using assms chunks_disjoint [of st s i j a] by (cases "i = j") (auto simp: in_use_def slabs_inv_def)
qed

interpretation slab: chunk_allocator "alloc_inv st" fst "slab_take st" do_slabs_free slab_write "env_ok st" not_chunked
proof (unfold_locales, goal_cases)
  case (1 hs U e i)
  obtain h s where hs: "hs = (h, s)" by (cases hs)
  obtain F where F: "slabs_inv st h s F" "in_use s F = U" and r: "\<forall>(p, i) \<in> U. 1 \<le> i \<and> i \<le> power_largest s"
    using 1 by (auto simp: hs alloc_inv_def)
  have m: "malloc_ok st (env_malloc e) s" using 1(2) by (simp add: hs env_ok_def)
  obtain p h' s' F' where a: "slab_take st e i hs = Some (p, h', s')" "slabs_inv st h' s' F'"
      "power_largest s' = power_largest s"
      "p \<noteq> NULL \<longrightarrow> 1 \<le> i \<and> i \<le> power_largest s \<and> refcount (h' p) = 1 \<and> it_flags (h' p) = 0"
      "\<forall>(a, j) \<in> U. h' a = h a"
      "if p = NULL then in_use s' F' = U else p \<notin> fst ` U \<and> in_use s' F' = insert (p, i) U"
    using alloc_ok [OF F(1) m, of "env_realloc e" i "env_no_newpage e"] unfolding hs slab_take_def F(2)
    by (elim exE conjE) blast
  have "alloc_inv st (h', s') (if p = NULL then U else insert (p, i) U)"
    using a r unfolding alloc_inv_def by (auto split: if_splits)
  moreover have "\<forall>q \<in> fst ` U. h' q = h q" using a(5) by auto
  ultimately show ?case using a by (auto simp: hs)
next
  case (2 hs U p i)
  obtain h s where hs: "hs = (h, s)" by (cases hs)
  obtain F where F: "slabs_inv st h s F" "in_use s F = U" and r: "\<forall>(p, i) \<in> U. 1 \<le> i \<and> i \<le> power_largest s"
    using 2 by (auto simp: hs alloc_inv_def)
  have pi: "(p, i) \<in> in_use s F" "1 \<le> i" "i \<le> power_largest s" "\<not> has_flag (h p) ITEM_CHUNKED"
    using 2 F(2) r by (auto simp: hs not_chunked_def)
  obtain h' s' F' where "do_slabs_free p i hs = Some (h', s')" "slabs_inv st h' s' F'"
      "in_use s' F' = U - {(p, i)}" "power_largest s' = power_largest s" "\<forall>(a, j) \<in> U. a \<noteq> p \<longrightarrow> h' a = h a"
    using free_ok_inv [OF F(1) pi] unfolding hs F(2) by (elim exE conjE) blast
  moreover have "alloc_inv st (h', s') (U - {(p, i)})"
    unfolding alloc_inv_def fst_conv snd_conv
  proof (intro conjI exI [of _ F'])
    show "\<forall>(p, i) \<in> U - {(p, i)}. 1 \<le> i \<and> i \<le> power_largest s'" using r calculation(4) by auto
  qed (use calculation in auto)
  moreover have "\<forall>q \<in> fst ` U. q \<noteq> p \<longrightarrow> h' q = h q" using calculation(5) by auto
  ultimately show ?case by (auto simp: hs)
next
  case (3 hs U p f)
  obtain h s where hs: "hs = (h, s)" by (cases hs)
  obtain F where F: "slabs_inv st h s F" "in_use s F = U" and r: "\<forall>(p, i) \<in> U. 1 \<le> i \<and> i \<le> power_largest s"
    using 3 by (auto simp: hs alloc_inv_def)
  have "p \<notin> free_set F" using in_use_not_free [OF F(1)] 3(2) F(2) by auto
  moreover have "free_ok h s F" using F(1) by (simp add: slabs_inv_def)
  ultimately have "free_ok (upd p f h) s F" by (elim free_ok_frame) (auto simp: upd_apply)
  then have "slabs_inv st (upd p f h) s F" using F(1) by (simp add: slabs_inv_def)
  then show ?case
    unfolding hs alloc_inv_def slab_write_def fst_conv snd_conv using F(2) r by (intro conjI exI [of _ F]; simp)
qed

section \<open>Nothing leaks\<close>

lemma take_free:
  assumes "free_ok h s F" "F i = x # xs" "1 \<le> i" "i \<le> power_largest s"
  shows "\<exists>hs'. slab_take st e i (h, s) = Some (x, hs')"
proof -
  obtain p h' s' where p: "pop_free i (h, s) = (p, h', s')" using prod_cases3 by blast
  then have "p = x" using pop_free_ok(1) [OF assms(1,2)] by blast
  moreover have "sl_curr (slabclass s i) \<noteq> 0" using free_okD(2) [OF assms(1), of i] assms(2) by simp
  ultimately show ?thesis using p assms(3,4) by (simp add: slab_take_def do_slabs_alloc_def)
qed

lemma give_take:
  assumes F: "slabs_inv st h s F" and p: "(p, i) \<in> in_use s F" "1 \<le> i" "i \<le> power_largest s" "\<not> has_flag (h p) ITEM_CHUNKED" "p \<noteq> NULL"
    and f: "do_slabs_free p i (h, s) = Some hs'"
  shows "\<exists>hs''. slab_take st e i hs' = Some (p, hs'')"
proof -
  have fo: "free_ok h s F" using F by (simp add: slabs_inv_def)
  obtain h1 s1 where 1: "do_slabs_free p i (h, s) = Some (h1, s1)" "free_ok h1 s1 (F(i := p # F i))" "only_list i s s1"
    using do_slabs_free_ok [OF fo p(5) in_use_not_free [OF F p(1)] p(2,3,4)] by metis
  have "i \<le> power_largest s1" using only_list_fields(5) [OF 1(3)] p(3) by simp
  then show ?thesis using take_free [OF 1(2) _ p(2), of p "F i"] 1(1) f by simp
qed

lemma free_count:
  assumes "slabs_inv st h s F" "in_use s F = U"
  shows "set (F i) = chunks s i - {p. (p, i) \<in> U}" "sl_curr (slabclass s i) = card (chunks s i - {p. (p, i) \<in> U})"
proof -
  show e: "set (F i) = chunks s i - {p. (p, i) \<in> U}" using assms by (auto simp: slabs_inv_def in_use_def)
  have fo: "free_ok h s F" using assms(1) by (simp add: slabs_inv_def)
  then have "distinct (F i)" using free_okD(1) [of h s F i] dll_distinct by blast
  then show "sl_curr (slabclass s i) = card (chunks s i - {p. (p, i) \<in> U})"
    unfolding e [symmetric] using free_okD(2) [OF fo, of i] by (simp add: distinct_card)
qed

section \<open>Start\<close>

lemma init_classes_ok:
  assumes "\<And>x. x \<le> grow x" "0 < sz" "i \<le> 63" "i \<ge> 1"
    and "\<And>j. 1 \<le> j \<Longrightarrow> j < i \<Longrightarrow> 0 < sc_size (cls j) \<and> sc_size (cls j) * perslab (cls j) \<le> slab_page_size st"
    and "\<And>j. j = 0 \<or> i \<le> j \<Longrightarrow> cls j = empty_class" "\<And>j. slots (cls j) = 0 \<and> sl_curr (cls j) = 0 \<and> slab_list (cls j) = []"
    and "init_classes st grow big ss i sz cls = (n, cls')"
  shows "i \<le> n \<and> n \<le> 63 \<and> (\<forall>j. 1 \<le> j \<longrightarrow> j < n \<longrightarrow> 0 < sc_size (cls' j) \<and> sc_size (cls' j) * perslab (cls' j) \<le> slab_page_size st) \<and>
    (\<forall>j. j = 0 \<or> n \<le> j \<longrightarrow> cls' j = empty_class) \<and> (\<forall>j. slots (cls' j) = 0 \<and> sl_curr (cls' j) = 0 \<and> slab_list (cls' j) = [])"
  using assms(2-)
proof (induction "63 - i" arbitrary: i sz cls)
  case 0
  then have i: "i = 63" by simp
  then have "n = i" "cls' = cls"
    using 0(8) by (simp_all add: init_classes.simps [of st grow big ss 63 sz cls])
  then show ?case using 0 i by simp
next
  case (Suc d)
  define sz1 where "sz1 = (case ss of Some zs \<Rightarrow> zs ! (i - 1) | None \<Rightarrow> sz)"
  define stop where "stop = (case ss of Some zs \<Rightarrow> zs ! (i - 1) = 0 | None \<Rightarrow> big sz)"
  define cls1 where "cls1 = cls(i := (cls i)\<lparr>sc_size := align_chunk sz1, perslab := slab_page_size st div align_chunk sz1\<rparr>)"
  have i: "i < 63" using Suc by simp
  have run: "init_classes st grow big ss i sz cls = (if stop then (i, cls)
      else init_classes st grow big ss (i + 1) (if ss = None then grow (align_chunk sz1) else align_chunk sz1) cls1)"
    using i by (simp add: init_classes.simps [of st grow big ss i] stop_def sz1_def cls1_def Let_def)
  show ?case
  proof (cases stop)
    case True
    then show ?thesis using Suc.prems run by auto
  next
    case False
    have "0 < sz1" using False Suc.prems(1) by (auto simp: stop_def sz1_def split: option.splits)
    moreover have "sz1 mod 8 < 8" by simp
    ultimately have a: "0 < align_chunk sz1" unfolding align_chunk_def by (simp add: trans_less_add2)
    then have "0 < (if ss = None then grow (align_chunk sz1) else align_chunk sz1)"
      using assms(1) [of "align_chunk sz1"] by auto
    moreover have "d = 63 - (i + 1)" using Suc.hyps(2) by simp
    moreover have "0 < sc_size (cls1 j) \<and> sc_size (cls1 j) * perslab (cls1 j) \<le> slab_page_size st" if "1 \<le> j" "j < i + 1" for j
      using Suc.prems(4) [of j] that a by (cases "j = i") (auto simp: cls1_def)
    moreover have "cls1 j = empty_class" if "j = 0 \<or> i + 1 \<le> j" for j using Suc.prems(3,5) that by (auto simp: cls1_def)
    moreover have "slots (cls1 j) = 0 \<and> sl_curr (cls1 j) = 0 \<and> slab_list (cls1 j) = []" for j
      using Suc.prems(6) [of j] Suc.prems(6) [of i] by (simp add: cls1_def)
    ultimately show ?thesis
      using Suc.hyps(1) [of "i + 1" "if ss = None then grow (align_chunk sz1) else align_chunk sz1" cls1] i run False Suc.prems(7)
      by auto
  qed
qed

lemma init_inv:
  assumes "page_settings st" "0 < slab_chunk_size_max st" "\<And>x. x \<le> grow x"
    and r: "slabs_init st grow big malloc limit False slab_sizes base reuse faked h = Some (h', s)"
  shows "h' = h" "slabs_inv st h s (\<lambda>_. [])" "in_use s (\<lambda>_. []) = {}"
proof -
  obtain n cls where c: "init_classes st grow big slab_sizes 1 (sizeof_item + chunk_size_min st) (\<lambda>_. empty_class) = (n, cls)"
    by fastforce
  have ok: "1 \<le> n" "n \<le> 63" "\<And>j. 1 \<le> j \<Longrightarrow> j < n \<Longrightarrow> 0 < sc_size (cls j) \<and> sc_size (cls j) * perslab (cls j) \<le> slab_page_size st"
      "\<And>j. j = 0 \<or> n \<le> j \<Longrightarrow> cls j = empty_class" "\<And>j. slots (cls j) = 0 \<and> sl_curr (cls j) = 0 \<and> slab_list (cls j) = []"
    using init_classes_ok [OF assms(3) _ _ _ _ _ _ c] by (auto simp: empty_class_def sizeof_item_def)
  let ?cls = "cls(n := (cls n)\<lparr>sc_size := slab_chunk_size_max st, perslab := slab_page_size st div slab_chunk_size_max st\<rparr>)"
  have h: "h' = h" and cs: "slabclass s = ?cls" and pl: "power_largest s = n" and mb: "mem_base s = 0"
    using r by (auto simp: slabs_init_def c Let_def simp del: One_nat_def)
  then show "h' = h" by simp
  have nol: "slab_list (slabclass s j) = [] \<and> slots (slabclass s j) = 0 \<and> sl_curr (slabclass s j) = 0" for j
    using ok(5) [of j] ok(5) [of n] by (auto simp: cs)
  have ch: "chunks s j = {}" for j using nol [of j] by (simp add: chunks_def)
  have "geometry st s"
    unfolding geometry_def
  proof (intro conjI allI impI)
    show "1 \<le> power_largest s" "power_largest s < 64" using ok(1,2) pl by simp_all
    show "perslab (slabclass s 0) = 0" using ok(1) ok(4) [of 0] by (auto simp: cs empty_class_def)
    show "sc_size (slabclass s i) * perslab (slabclass s i) \<le> slab_page_size st" for i
      using ok(3) [of i] ok(4) [of i] by (cases "i = n"; cases "1 \<le> i \<and> i < n") (auto simp: cs empty_class_def)
    show "0 < sc_size (slabclass s i)" if "1 \<le> i \<and> i \<le> power_largest s" for i
      using ok(3) [of i] that assms(2) by (auto simp: cs pl)
  qed
  moreover have "pages_ok st s" using nol by (simp add: pages_ok_def mb)
  moreover have "free_ok h s (\<lambda>_. [])" using nol by (simp add: free_ok_def)
  ultimately show "slabs_inv st h s (\<lambda>_. [])" using assms(1) by (simp add: slabs_inv_def)
  show "in_use s (\<lambda>_. []) = {}" by (simp add: in_use_def ch)
qed

section \<open>Properties\<close>

text \<open>
  C15. The slab allocator never hands out memory twice. From the start of the server (without
  preallocation), after any history of allocations in any classes, releases and writes to the chunks in
  use, with pages coming from \<open>malloc\<close> or failing to, the memory of any two chunks in the clients' hands does
  not overlap, and no operation gets stuck: every further allocation returns \<open>NULL\<close> or a chunk nobody has,
  every chunk in use can be given back, and neither changes the contents of the other chunks in use. No chunk gets lost: of every class, the free list counts
  exactly the chunks of its pages that are not in use; as long as there is one, an allocation returns such a chunk; and a chunk given back is the one that the
  next allocation in its class returns. The history assumes of \<open>malloc\<close> that a new page overlaps no page the allocator already has, and it gives back only
  chunks that are not parts of a large item.
\<close>

theorem slab_history:
  assumes "page_settings st" "0 < slab_chunk_size_max st" "\<And>x. x \<le> grow x"
    and "slabs_init st grow big malloc limit False slab_sizes base reuse faked h = Some (h0, s0)"
    and "alloc_history (slab_take st) do_slabs_free slab_write (env_ok st) not_chunked ops (h0, s0) [] = Some (hs, U)"
  shows "distinct (map fst U) \<and> NULL \<notin> fst ` set U \<and>
    (\<forall>(p, i) \<in> set U. \<forall>(q, j) \<in> set U. (p, i) \<noteq> (q, j) \<longrightarrow>
       p + slabs_size (snd hs) i \<le> q \<or> q + slabs_size (snd hs) j \<le> p) \<and>
    (\<forall>e i. env_ok st e i hs \<longrightarrow>
       (\<exists>p hs'. slab_take st e i hs = Some (p, hs') \<and> p \<notin> fst ` set U \<and> (\<forall>q \<in> fst ` set U. fst hs' q = fst hs q) \<and>
          (1 \<le> i \<and> i \<le> power_largest (snd hs) \<and> \<not> chunks (snd hs) i \<subseteq> {p. (p, i) \<in> set U} \<longrightarrow> p \<in> chunks (snd hs) i - {p. (p, i) \<in> set U}))) \<and>
    (\<forall>i. sl_curr (slabclass (snd hs) i) = card (chunks (snd hs) i - {p. (p, i) \<in> set U})) \<and>
    (\<forall>(p, i) \<in> set U. not_chunked p hs \<longrightarrow>
       (\<exists>hs'. do_slabs_free p i hs = Some hs' \<and> (\<forall>q \<in> fst ` set U. q \<noteq> p \<longrightarrow> fst hs' q = fst hs q) \<and>
          (\<forall>e. \<exists>hs''. slab_take st e i hs' = Some (p, hs''))))"
proof -
  have "alloc_inv st (h0, s0) (set [])"
    using init_inv [OF assms(1-4)] by (auto simp: alloc_inv_def)
  then have f: "alloc_inv st hs (set U)" "distinct (map fst U)"
    using slab.history_inv [OF assms(5)] by auto
  then obtain F where F: "slabs_inv st (fst hs) (snd hs) F" "in_use (snd hs) F = set U"
    by (auto simp: alloc_inv_def)
  have g: "geometry st (snd hs)" "page_settings st" "pages_ok st (snd hs)" using F(1) by (auto simp: slabs_inv_def)
  have fo: "free_ok (fst hs) (snd hs) F" using F(1) by (simp add: slabs_inv_def)
  have c: "p \<in> chunks (snd hs) i" if "(p, i) \<in> set U" for p i using F(2) that by (auto simp: in_use_def)
  have "p \<noteq> NULL" if pi: "(p, i) \<in> set U" for p i
    using chunk_in_page [OF g(1,2) c [OF pi]] g(3) by (metis bot_nat_0.extremum_uniqueI pages_ok_def)
  then have n: "NULL \<notin> fst ` set U" by fastforce
  have "p + slabs_size (snd hs) i \<le> q \<or> q + slabs_size (snd hs) j \<le> p"
    if "(p, i) \<in> set U" "(q, j) \<in> set U" "(p, i) \<noteq> (q, j)" for p i q j
    using chunks_apart [OF g c c, of p i q j] f(2) that eq_key_imp_eq_value [of U p i j] unfolding slabs_size_def by blast
  moreover have "\<exists>p hs'. slab_take st e i hs = Some (p, hs') \<and> p \<notin> fst ` set U \<and> (\<forall>q \<in> fst ` set U. fst hs' q = fst hs q) \<and>
      (1 \<le> i \<and> i \<le> power_largest (snd hs) \<and> \<not> chunks (snd hs) i \<subseteq> {p. (p, i) \<in> set U} \<longrightarrow> p \<in> chunks (snd hs) i - {p. (p, i) \<in> set U})"
    if ev: "env_ok st e i hs" for e i
  proof -
    obtain p hs' where t: "slab_take st e i hs = Some (p, hs')" "p \<notin> fst ` set U" "\<forall>q \<in> fst ` set U. fst hs' q = fst hs q"
      using slab.take_law [OF f(1) ev] n by (elim exE conjE) (metis (no_types, lifting))
    have "p \<in> chunks (snd hs) i - {p. (p, i) \<in> set U}"
      if r: "1 \<le> i" "i \<le> power_largest (snd hs)" "\<not> chunks (snd hs) i \<subseteq> {p. (p, i) \<in> set U}"
    proof -
      have "F i \<noteq> []" using free_count(1) [OF F, of i] r(3) by auto
      then obtain x xs where x: "F i = x # xs" by (cases "F i") auto
      then have "p = x" using take_free [OF fo x r(1,2), of st e] t(1) by auto
      then show ?thesis using free_count(1) [OF F, of i] x by auto
    qed
    then show ?thesis using t by blast
  qed
  moreover have "\<exists>hs'. do_slabs_free p i hs = Some hs' \<and> (\<forall>q \<in> fst ` set U. q \<noteq> p \<longrightarrow> fst hs' q = fst hs q) \<and>
      (\<forall>e. \<exists>hs''. slab_take st e i hs' = Some (p, hs''))"
    if p: "(p, i) \<in> set U" "not_chunked p hs" for p i
  proof -
    obtain hs' where g: "do_slabs_free p i hs = Some hs'" "\<forall>q \<in> fst ` set U. q \<noteq> p \<longrightarrow> fst hs' q = fst hs q"
      using slab.give_law [OF f(1) p] by blast
    have "1 \<le> i" "i \<le> power_largest (snd hs)" using f(1) p(1) by (auto simp: alloc_inv_def)
    moreover have "p \<noteq> NULL" using n p(1) by force
    ultimately have "\<exists>hs''. slab_take st e i hs' = Some (p, hs'')" for e
      using give_take [OF F(1), of p i hs' e] F(2) p g(1) by (simp add: not_chunked_def)
    then show ?thesis using g by blast
  qed
  moreover note free_count(2) [OF F]
  ultimately show ?thesis using f(2) n by (intro conjI allI impI ballI) (auto simp: case_prod_beta)
qed

lemma clsid_loop_ok:
  assumes "i \<le> power_largest s"
  shows "\<exists>c. clsid_loop s sz i = Some c \<and> i \<le> c \<and> c \<le> power_largest s \<and>
     (sz \<le> sc_size (slabclass s c) \<or> c = power_largest s) \<and> (\<forall>j. i \<le> j \<and> j < c \<longrightarrow> sc_size (slabclass s j) < sz)"
  using assms
proof (induction "power_largest s - i" arbitrary: i)
  case 0
  then show ?case by (subst clsid_loop.simps) auto
next
  case (Suc d)
  then have IH: "\<exists>c. clsid_loop s sz (i + 1) = Some c \<and> i + 1 \<le> c \<and> c \<le> power_largest s \<and>
     (sz \<le> sc_size (slabclass s c) \<or> c = power_largest s) \<and> (\<forall>j. i + 1 \<le> j \<and> j < c \<longrightarrow> sc_size (slabclass s j) < sz)"
    by (intro Suc.hyps(1)) auto
  have i: "i \<noteq> power_largest s" using Suc.hyps(2) by simp
  show ?case
  proof (cases "sz > sc_size (slabclass s i)")
    case True
    then have "clsid_loop s sz i = clsid_loop s sz (i + 1)" using i by (subst clsid_loop.simps) simp
    moreover have "sc_size (slabclass s j) < sz" if "\<forall>j. i + 1 \<le> j \<and> j < c \<longrightarrow> sc_size (slabclass s j) < sz" "i \<le> j" "j < c" for c j
      using that True by (cases "j = i") auto
    ultimately show ?thesis using IH by (metis Suc_eq_plus1 Suc_leD)
  next
    case False
    then have "clsid_loop s sz i = Some i" by (subst clsid_loop.simps) simp
    then show ?thesis using False Suc.prems by auto
  qed
qed

lemma clsid_for_range:
  assumes "1 \<le> power_largest s"
  obtains c where "slabs_clsid_for st s sz = Some c" "c \<le> power_largest s"
proof -
  have "\<exists>c. slabs_clsid_for st s sz = Some c \<and> c \<le> power_largest s"
    using clsid_loop_ok [OF assms, of sz] by (auto simp: slabs_clsid_for_def)
  then show ?thesis using that by blast
qed

text \<open>
  The class chosen for an object: sizes of zero and above the maximal item size get class \<open>0\<close>; any
  other size gets the first class whose chunks are large enough, or the largest class when none is.
\<close>

theorem slabs_clsid_first_fit:
  assumes "1 \<le> power_largest s"
  shows "\<exists>c. slabs_clsid_for st s sz = Some c \<and>
     (if sz = 0 \<or> sz > item_size_max st then c = 0
      else 1 \<le> c \<and> c \<le> power_largest s \<and> (sz \<le> sc_size (slabclass s c) \<or> c = power_largest s) \<and>
        (\<forall>i. 1 \<le> i \<and> i < c \<longrightarrow> sc_size (slabclass s i) < sz))"
  using clsid_loop_ok [of 1 s sz] assms by (auto simp: slabs_clsid_for_def)

section \<open>Witnesses\<close>

definition sample_settings :: settings where
  "sample_settings = \<lparr>item_size_max = 1048576, slab_chunk_size_max = 524288, slab_page_size = 1048576,
     slab_reassign = True, slab_automove_mode = 1, chunk_size_min = 48, use_cas = True, lru_segmented = True,
     temp_lru = False, temporary_ttl = 61, hot_lru_pct = 20, warm_lru_pct = 40, tail_repair_time = 0,
     evict_to_free = True, oldest_live = 0, oldest_cas = 0\<rparr>"

definition tiny :: settings where
  "tiny = sample_settings\<lparr>item_size_max := 256, slab_chunk_size_max := 128, slab_page_size := 256, chunk_size_min := 0\<rparr>"

definition tiny_slabs :: slabs where
  "tiny_slabs = \<lparr>slabclass = (\<lambda>_. empty_class)(1 := empty_class\<lparr>sc_size := 48, perslab := 5\<rparr>,
      2 := empty_class\<lparr>sc_size := 56, perslab := 4\<rparr>, 3 := empty_class\<lparr>sc_size := 128, perslab := 2\<rparr>),
     mem_limit = 4096, mem_malloced = 0, mem_limit_reached = False, power_largest = 3, mem_base = 0, mem_current = 0,
     mem_avail = 0\<rparr>"

lemma tiny_init:
  "slabs_init tiny (\<lambda>x. x + 8) (\<lambda>x. x \<ge> 64) (\<lambda>_. 0) 4096 False None 0 False 0 (\<lambda>_. zero_item) =
     Some (\<lambda>_. zero_item, tiny_slabs)"
  by (simp add: slabs_init_def Let_def init_classes.simps tiny_def sample_settings_def align_chunk_def sizeof_item_def tiny_slabs_def empty_class_def fun_eq_iff)

lemma tiny_chunk: "\<exists>h sl. do_slabs_alloc tiny 4096 True 3 False (\<lambda>_. zero_item, tiny_slabs) = Some (4224, h, sl)"
  by (simp add: do_slabs_alloc_def do_slabs_newslab_def tiny_slabs_def tiny_def sample_settings_def empty_class_def Let_def
      page_len_def grow_slab_list_def slabs_of_def get_page_from_global_pool_def memory_allocate_def split_slab_page_into_freelist_def
      upd_class_def numeral_2_eq_2 do_slabs_free_def push_free_def pop_free_def clear_page_def zero_item_def upd_def has_flag_def)

theorem slab_history_witness:
  "\<exists>hs hs1 hs2. alloc_history (slab_take tiny) do_slabs_free slab_write (env_ok tiny) not_chunked
     [Take \<lparr>env_malloc = 4096, env_realloc = True, env_no_newpage = False\<rparr> 3] (\<lambda>_. zero_item, tiny_slabs) [] = Some (hs, [(4224, 3)]) \<and>
   do_slabs_free 4224 3 hs = Some hs1 \<and>
   slab_take tiny \<lparr>env_malloc = NULL, env_realloc = False, env_no_newpage = True\<rparr> 3 hs1 = Some (4224, hs2)"
proof -
  let ?e = "\<lparr>env_malloc = 4096, env_realloc = True, env_no_newpage = False\<rparr>" and ?s = "(\<lambda>_. zero_item, tiny_slabs)"
  have st: "page_settings tiny" "0 < slab_chunk_size_max tiny" by (simp_all add: tiny_def sample_settings_def page_settings_def)
  have i: "alloc_inv tiny ?s {}" using init_inv [OF st _ tiny_init] by (auto simp: alloc_inv_def)
  have env: "env_ok tiny ?e 3 ?s"
    by (simp add: env_ok_def malloc_ok_def fresh_page_def tiny_slabs_def empty_class_def tiny_def)
  obtain h sl where t: "slab_take tiny ?e 3 ?s = Some (4224, h, sl)" using tiny_chunk by (auto simp: slab_take_def)
  have h: "alloc_history (slab_take tiny) do_slabs_free slab_write (env_ok tiny) not_chunked [Take ?e 3] ?s [] = Some ((h, sl), [(4224, 3)])"
    using env t by simp
  have "it_flags (h 4224) = 0" using slab.take_law [OF i env] t by auto
  then have "not_chunked 4224 (h, sl)" by (simp add: not_chunked_def has_flag_def)
  then have "\<exists>hs1. do_slabs_free 4224 3 (h, sl) = Some hs1 \<and> (\<forall>e. \<exists>hs2. slab_take tiny e 3 hs1 = Some (4224, hs2))"
    using slab_history [OF st _ tiny_init h] by auto
  then show ?thesis using h by blast
qed

theorem slabs_clsid_first_fit_witness:
  "\<exists>c. slabs_clsid_for sample_settings \<lparr>slabclass = (\<lambda>i. empty_class\<lparr>sc_size := 100 * i\<rparr>), mem_limit = 0,
     mem_malloced = 0, mem_limit_reached = False, power_largest = 4, mem_base = 0, mem_current = 0, mem_avail = 0\<rparr>
     150 = Some c \<and> 1 \<le> c \<and> c \<le> 4"
  using slabs_clsid_first_fit [of "\<lparr>slabclass = (\<lambda>i. empty_class\<lparr>sc_size := 100 * i\<rparr>), mem_limit = 0,
     mem_malloced = 0, mem_limit_reached = False, power_largest = 4, mem_base = 0, mem_current = 0, mem_avail = 0\<rparr>"
     sample_settings 150]
  by (auto simp: sample_settings_def)

end
