(* ===== verification/Lru_Queue.thy ===== *)
theory Lru_Queue
  imports Items_Alloc Lru_Spec Slabs_Inv
begin

unbundle bit_operations_syntax

text \<open>
  The LRU queues of \<open>items.c\<close> as lists: what linking, unlinking and the crawler's moves do to them.
\<close>

section \<open>Representation\<close>

definition lru_class :: "heap \<Rightarrow> addr \<Rightarrow> addr \<Rightarrow> byte \<Rightarrow> addr list \<Rightarrow> bool" where
  "lru_class h p t c xs \<longleftrightarrow> dll (nx h) (pv h) p xs t \<and> (\<forall>x \<in> set xs. slabs_clsid (h x) = c)"

definition ntotals :: "heap \<Rightarrow> addr list \<Rightarrow> u64" where
  "ntotals h xs = (\<Sum>x \<leftarrow> xs. ITEM_ntotal (h x))"

definition lru_rep :: "mc \<Rightarrow> (byte \<Rightarrow> addr list) \<Rightarrow> bool" where
  "lru_rep s Q \<longleftrightarrow> (\<forall>c. lru_class (m_heap s) (heads s c) (tails s c) c (Q c) \<and>
     sizes s c = of_nat (length (Q c)) \<and> sizes_bytes s c = ntotals (m_heap s) (Q c))"

lemma lru_repD:
  assumes "lru_rep s Q"
  shows "dll (nx (m_heap s)) (pv (m_heap s)) (heads s c) (Q c) (tails s c)"
    "x \<in> set (Q c) \<Longrightarrow> slabs_clsid (m_heap s x) = c"
    "sizes s c = of_nat (length (Q c))" "sizes_bytes s c = ntotals (m_heap s) (Q c)"
    "distinct (Q c)" "NULL \<notin> set (Q c)"
  using assms dll_distinct dll_nonnull unfolding lru_rep_def lru_class_def by blast+

text \<open>The fields a queue depends on.\<close>

definition q_same :: "item \<Rightarrow> item \<Rightarrow> bool" where
  "q_same x y \<longleftrightarrow> next y = next x \<and> prev y = prev x \<and> slabs_clsid y = slabs_clsid x \<and> ITEM_ntotal y = ITEM_ntotal x"

lemma lru_class_frame:
  assumes "lru_class h p t c xs"
    and "\<And>x. x \<in> set xs \<Longrightarrow> next (h' x) = next (h x) \<and> prev (h' x) = prev (h x) \<and> slabs_clsid (h' x) = slabs_clsid (h x)"
  shows "lru_class h' p t c xs"
  using assms dll_frame [of h p xs t h'] by (auto simp: lru_class_def)

lemma ntotals_frame: "(\<And>x. x \<in> set xs \<Longrightarrow> ITEM_ntotal (h' x) = ITEM_ntotal (h x)) \<Longrightarrow> ntotals h' xs = ntotals h xs"
  by (auto simp: ntotals_def cong: map_cong)

lemma lru_rep_frame:
  assumes "lru_rep s Q" "\<And>c x. x \<in> set (Q c) \<Longrightarrow> q_same (m_heap s x) (m_heap s' x)"
    and "heads s' = heads s" "tails s' = tails s" "sizes s' = sizes s" "sizes_bytes s' = sizes_bytes s"
  shows "lru_rep s' Q"
  unfolding lru_rep_def assms(3-6)
proof (intro allI conjI)
  fix c
  show "lru_class (m_heap s') (heads s c) (tails s c) c (Q c)"
    by (rule lru_class_frame [of "m_heap s"]) (use assms(1,2) in \<open>auto simp: lru_rep_def q_same_def\<close>)
  show "sizes s c = of_nat (length (Q c))" using lru_repD(3) [OF assms(1)] .
  show "sizes_bytes s c = ntotals (m_heap s') (Q c)"
    using lru_repD(4) [OF assms(1)] ntotals_frame [of "Q c" "m_heap s'" "m_heap s"] assms(2) by (simp add: q_same_def)
qed

text \<open>An object is in the queue of its class, or in none.\<close>

lemma lru_rep_other: "lru_rep s Q \<Longrightarrow> x \<in> set (Q c) \<Longrightarrow> c \<noteq> d \<Longrightarrow> x \<notin> set (Q d)"
  using lru_repD(2) by blast

section \<open>Linking\<close>

lemma link_q_fields [simp]:
  "m_assoc (do_item_link_q it s) = m_assoc s" "m_slabs (do_item_link_q it s) = m_slabs s" "m_rebal (do_item_link_q it s) = m_rebal s"
  "itemstats (do_item_link_q it s) = itemstats s" "stats_sizes_hist (do_item_link_q it s) = stats_sizes_hist s"
  "cas_id (do_item_link_q it s) = cas_id s" "current_time (do_item_link_q it s) = current_time s"
  "curr_bytes (do_item_link_q it s) = curr_bytes s" "curr_items (do_item_link_q it s) = curr_items s"
  "total_items (do_item_link_q it s) = total_items s" "bump_bufs (do_item_link_q it s) = bump_bufs s"
  by (simp_all add: do_item_link_q_def Let_def)

lemma cut_q_fields [simp]:
  "m_assoc (cut_q it s) = m_assoc s" "m_slabs (cut_q it s) = m_slabs s" "m_rebal (cut_q it s) = m_rebal s"
  "itemstats (cut_q it s) = itemstats s" "stats_sizes_hist (cut_q it s) = stats_sizes_hist s"
  "cas_id (cut_q it s) = cas_id s" "current_time (cut_q it s) = current_time s"
  "curr_bytes (cut_q it s) = curr_bytes s" "curr_items (cut_q it s) = curr_items s"
  "total_items (cut_q it s) = total_items s" "bump_bufs (cut_q it s) = bump_bufs s"
  "sizes (cut_q it s) = sizes s" "sizes_bytes (cut_q it s) = sizes_bytes s"
  by (simp_all add: cut_q_def Let_def)

lemma unlink_q_fields [simp]:
  "m_assoc (do_item_unlink_q it s) = m_assoc s" "m_slabs (do_item_unlink_q it s) = m_slabs s" "m_rebal (do_item_unlink_q it s) = m_rebal s"
  "itemstats (do_item_unlink_q it s) = itemstats s" "stats_sizes_hist (do_item_unlink_q it s) = stats_sizes_hist s"
  "cas_id (do_item_unlink_q it s) = cas_id s" "current_time (do_item_unlink_q it s) = current_time s"
  "curr_bytes (do_item_unlink_q it s) = curr_bytes s" "curr_items (do_item_unlink_q it s) = curr_items s"
  "total_items (do_item_unlink_q it s) = total_items s" "bump_bufs (do_item_unlink_q it s) = bump_bufs s"
  by (simp_all add: do_item_unlink_q_def Let_def)

lemma unlink_q_cut:
  "m_heap (do_item_unlink_q it s) = m_heap (cut_q it s)" "heads (do_item_unlink_q it s) = heads (cut_q it s)"
  "tails (do_item_unlink_q it s) = tails (cut_q it s)"
  by (simp_all add: do_item_unlink_q_def Let_def)

text \<open>The queue operations change no field of an item but its queue links.\<close>

definition only_links :: "heap \<Rightarrow> heap \<Rightarrow> bool" where
  "only_links h h' \<longleftrightarrow> (\<forall>a. \<exists>p n. h' a = (h a)\<lparr>prev := p, next := n\<rparr>)"

lemma links_self: "\<exists>p n. i = i\<lparr>prev := p, next := n\<rparr>"
  by (intro exI [of _ "prev i"] exI [of _ "next i"]) simp

lemma only_links_trans:
  assumes "only_links h h'" "only_links h' h''"
  shows "only_links h h''"
  unfolding only_links_def
proof
  fix a
  obtain p n p' n' where "h' a = (h a)\<lparr>prev := p, next := n\<rparr>" "h'' a = (h' a)\<lparr>prev := p', next := n'\<rparr>"
    using assms unfolding only_links_def by blast
  then have "h'' a = (h a)\<lparr>prev := p', next := n'\<rparr>" by simp
  then show "\<exists>p n. h'' a = (h a)\<lparr>prev := p, next := n\<rparr>" by blast
qed

lemma only_links_refl [simp]: "only_links h h"
  by (simp add: only_links_def links_self)

lemma only_links_upd: "(\<And>x. \<exists>p n. f x = x\<lparr>prev := p, next := n\<rparr>) \<Longrightarrow> only_links h (upd a f h)"
  by (auto simp: only_links_def upd_apply links_self)

lemma only_links_fields:
  assumes "only_links h h'"
  shows "h_next (h' a) = h_next (h a)" "time (h' a) = time (h a)"
    "exptime (h' a) = exptime (h a)" "nbytes (h' a) = nbytes (h a)" "refcount (h' a) = refcount (h a)"
    "it_flags (h' a) = it_flags (h a)" "slabs_clsid (h' a) = slabs_clsid (h a)" "cas (h' a) = cas (h a)"
    "key (h' a) = key (h a)" "cflags (h' a) = cflags (h a)" "it_data (h' a) = it_data (h a)"
    "ITEM_ntotal (h' a) = ITEM_ntotal (h a)"
proof -
  obtain p n where "h' a = (h a)\<lparr>prev := p, next := n\<rparr>" using assms unfolding only_links_def by blast
  then show "h_next (h' a) = h_next (h a)" "time (h' a) = time (h a)"
    "exptime (h' a) = exptime (h a)" "nbytes (h' a) = nbytes (h a)" "refcount (h' a) = refcount (h a)"
    "it_flags (h' a) = it_flags (h a)" "slabs_clsid (h' a) = slabs_clsid (h a)" "cas (h' a) = cas (h a)"
    "key (h' a) = key (h a)" "cflags (h' a) = cflags (h a)" "it_data (h' a) = it_data (h a)"
    "ITEM_ntotal (h' a) = ITEM_ntotal (h a)"
    by (simp_all add: ITEM_ntotal_def has_flag_def)
qed

lemma links_shape: "\<exists>p n. x\<lparr>prev := q, next := m\<rparr> = x\<lparr>prev := p, next := n\<rparr>"
  "\<exists>p n. x\<lparr>prev := q\<rparr> = x\<lparr>prev := p, next := n\<rparr>" "\<exists>p n. x\<lparr>next := m\<rparr> = x\<lparr>prev := p, next := n\<rparr>"
proof -
  show "\<exists>p n. x\<lparr>prev := q, next := m\<rparr> = x\<lparr>prev := p, next := n\<rparr>" by blast
  show "\<exists>p n. x\<lparr>prev := q\<rparr> = x\<lparr>prev := p, next := n\<rparr>" by (rule exI [of _ q], rule exI [of _ "next x"]) simp
  show "\<exists>p n. x\<lparr>next := m\<rparr> = x\<lparr>prev := p, next := n\<rparr>" by (rule exI [of _ "prev x"], rule exI [of _ m]) simp
qed

lemma link_q_only: "only_links (m_heap s) (m_heap (do_item_link_q it s))"
  unfolding do_item_link_q_def Let_def
  by (auto intro!: only_links_upd only_links_trans [OF only_links_upd only_links_upd] intro: links_shape)

lemma cut_q_only: "only_links (m_heap s) (m_heap (cut_q it s))"
  unfolding cut_q_def Let_def
  by (auto intro!: only_links_upd only_links_trans [OF only_links_upd only_links_upd] intro: links_shape)

lemma lru_link:
  assumes "lru_rep s Q" "it \<noteq> NULL" "it \<notin> set (Q (slabs_clsid (m_heap s it)))"
  defines "c \<equiv> slabs_clsid (m_heap s it)"
  shows "lru_rep (do_item_link_q it s) (Q(c := it # Q c))"
    "\<And>a. a \<noteq> it \<Longrightarrow> a \<notin> set (Q c) \<Longrightarrow> m_heap (do_item_link_q it s) a = m_heap s a"
proof -
  let ?h = "m_heap s" and ?h' = "m_heap (do_item_link_q it s)" and ?p = "heads s c"
  have nin: "it \<notin> set (Q d)" for d using assms(3) lru_repD(2) [OF assms(1)] by (auto simp: c_def)
  note t = lru_repD(1) [OF assms(1), of c]
  have p: "?p = (if Q c = [] then 0 else hd (Q c))" using dll_head [OF t] .
  then have pin: "?p \<noteq> 0 \<Longrightarrow> ?p \<in> set (Q c)" by (auto split: if_splits)
  then have pit: "?p \<noteq> it" using nin assms(2) by metis
  have h': "?h' = (let h = upd it (\<lambda>x. x\<lparr>prev := NULL, next := ?p\<rparr>) ?h in
      if ?p \<noteq> NULL then upd ?p (\<lambda>x. x\<lparr>prev := it\<rparr>) h else h)"
    by (simp add: do_item_link_q_def Let_def c_def)
  show frame: "\<And>a. a \<noteq> it \<Longrightarrow> a \<notin> set (Q c) \<Longrightarrow> ?h' a = ?h a"
    using pin by (auto simp: h' upd_apply Let_def)
  have n': "nx ?h' = (nx ?h)(it := ?p)" using pit by (auto simp: h' upd_apply fun_eq_iff Let_def)
  have p': "pv ?h' = (if ?p = 0 then (pv ?h)(it := 0) else (pv ?h)(it := 0, ?p := it))"
    using pit by (auto simp: h' upd_apply fun_eq_iff Let_def)
  note same = only_links_fields [OF link_q_only [of s it]]
  have hd': "heads (do_item_link_q it s) = (heads s)(c := it)"
    "tails (do_item_link_q it s) = (if tails s c = NULL then (tails s)(c := it) else tails s)"
    "sizes (do_item_link_q it s) = (sizes s)(c := sizes s c + 1)"
    "sizes_bytes (do_item_link_q it s) = (sizes_bytes s)(c := sizes_bytes s c + ITEM_ntotal (?h' it))"
    by (simp_all add: do_item_link_q_def Let_def c_def)
  have nt: "ntotals ?h' xs = ntotals ?h xs" for xs by (rule ntotals_frame) (simp add: same)
  show "lru_rep (do_item_link_q it s) (Q(c := it # Q c))"
    unfolding lru_rep_def
  proof (intro allI conjI)
    fix d
    show "lru_class ?h' (heads (do_item_link_q it s) d) (tails (do_item_link_q it s) d) d ((Q(c := it # Q c)) d)"
    proof (cases "d = c")
      case True
      have "dll (nx ?h') (pv ?h') it (it # Q c) (if tails s c = 0 then it else tails s c)"
        using dll_push [OF t assms(2) nin] unfolding n' p' .
      then show ?thesis using True lru_repD(2) [OF assms(1)] by (auto simp: lru_class_def hd' same c_def)
    next
      case False
      have "it \<notin> set (Q d)" "heads s c \<notin> set (Q d)"
        using nin pin lru_rep_other [OF assms(1), of _ c d] lru_repD(6) [OF assms(1), of d] False by metis+
      then have "nx ?h' x = nx ?h x \<and> pv ?h' x = pv ?h x" if "x \<in> set (Q d)" for x
        using fun_cong [OF n', of x] fun_cong [OF p', of x] that by (auto split: if_splits)
      moreover have "lru_class ?h (heads s d) (tails s d) d (Q d)" using assms(1) by (simp add: lru_rep_def)
      ultimately have "lru_class ?h' (heads s d) (tails s d) d (Q d)" 
        using lru_class_frame [of ?h _ _ d "Q d" ?h'] same(7) by blast
      then show ?thesis using False by (simp add: hd')
    qed
    show "sizes (do_item_link_q it s) d = of_nat (length ((Q(c := it # Q c)) d))"
      using lru_repD(3) [OF assms(1)] by (simp add: hd')
    show "sizes_bytes (do_item_link_q it s) d = ntotals ?h' ((Q(c := it # Q c)) d)"
      using lru_repD(4) [OF assms(1)] nt by (simp add: hd') (simp add: ntotals_def same)
  qed
qed

section \<open>Unlinking\<close>

lemma lru_cut:
  assumes t: "lru_class (m_heap s) (heads s c) (tails s c) c (xs @ it # ys)"
  shows "lru_class (m_heap (cut_q it s)) (heads (cut_q it s) c) (tails (cut_q it s) c) c (xs @ ys)"
    and "\<And>d. d \<noteq> c \<Longrightarrow> heads (cut_q it s) d = heads s d \<and> tails (cut_q it s) d = tails s d"
    and "\<And>a. a \<notin> set xs \<Longrightarrow> a \<notin> set ys \<Longrightarrow> m_heap (cut_q it s) a = m_heap s a"
proof -
  let ?h = "m_heap s" and ?h' = "m_heap (cut_q it s)"
  let ?n = "next (?h it)" and ?p = "prev (?h it)"
  have dl: "dll (nx ?h) (pv ?h) (heads s c) (xs @ it # ys) (tails s c)" and c: "slabs_clsid (?h it) = c"
    using t by (auto simp: lru_class_def)
  obtain l where s1: "dseg (nx ?h) (pv ?h) 0 (heads s c) xs it l" and l: "?p = l" and s2: "dseg (nx ?h) (pv ?h) it ?n ys 0 (tails s c)"
    using dl by (auto simp: dseg_append)
  have d: "distinct (xs @ it # ys)" and nz: "0 \<notin> set (xs @ it # ys)" using dll_distinct [OF dl] dll_nonnull [OF dl] by auto
  have pin: "?p \<noteq> 0 \<Longrightarrow> ?p \<in> set xs" using dseg_last [OF s1] l by (auto split: if_splits)
  have nin: "?n \<noteq> 0 \<Longrightarrow> ?n \<in> set ys" using s2 by (cases ys) auto
  have ne: "?p \<noteq> it" "?n \<noteq> it" "?p = 0 \<or> ?p \<noteq> ?n" using pin nin d nz by auto
  have h': "?h' = (let h = (if ?n \<noteq> NULL then upd ?n (\<lambda>y. y\<lparr>prev := ?p\<rparr>) ?h else ?h) in
      if ?p \<noteq> NULL then upd ?p (\<lambda>y. y\<lparr>next := ?n\<rparr>) h else h)"
    using ne by (auto simp: cut_q_def Let_def upd_apply)
  have n': "nx ?h' = (if ?p = 0 then nx ?h else (nx ?h)(?p := ?n))" using ne by (auto simp: h' Let_def upd_apply fun_eq_iff)
  have p': "pv ?h' = (if ?n = 0 then pv ?h else (pv ?h)(?n := ?p))" using ne by (auto simp: h' Let_def upd_apply fun_eq_iff)
  have e: "heads (cut_q it s) = (if heads s c = it then (heads s)(c := ?n) else heads s)"
    "tails (cut_q it s) = (if tails s c = it then (tails s)(c := ?p) else tails s)"
    by (simp_all add: cut_q_def Let_def c)
  show "\<And>d. d \<noteq> c \<Longrightarrow> heads (cut_q it s) d = heads s d \<and> tails (cut_q it s) d = tails s d" by (simp add: e)
  have "dll (nx ?h') (pv ?h') (if heads s c = it then ?n else heads s c) (xs @ ys) (if tails s c = it then ?p else tails s c)"
    using dll_unlink [OF dl] unfolding n' p' by simp
  then show "lru_class ?h' (heads (cut_q it s) c) (tails (cut_q it s) c) c (xs @ ys)"
    using t only_links_fields(7) [OF cut_q_only [of s it]] by (auto simp: lru_class_def e)
  show "?h' a = ?h a" if "a \<notin> set xs" "a \<notin> set ys" for a
    using pin nin that by (auto simp: h' Let_def upd_apply)
qed

lemma lru_unlink:
  assumes "lru_rep s Q" "it \<in> set (Q c)"
  shows "lru_rep (do_item_unlink_q it s) (Q(c := remove1 it (Q c)))"
    "\<And>a. a \<notin> set (remove1 it (Q c)) \<Longrightarrow> m_heap (do_item_unlink_q it s) a = m_heap s a"
proof -
  let ?s = "do_item_unlink_q it s" and ?h = "m_heap s" and ?h' = "m_heap (cut_q it s)"
  have c: "slabs_clsid (?h it) = c" using lru_repD(2) [OF assms] .
  obtain xs ys where Q: "Q c = xs @ it # ys" "it \<notin> set xs" using assms(2) by (meson split_list_first)
  then have rm: "remove1 it (Q c) = xs @ ys" by (simp add: remove1_append)
  have cl: "lru_class ?h (heads s c) (tails s c) c (xs @ it # ys)" using assms(1) Q(1) by (metis lru_rep_def)
  note cut = lru_cut [OF cl]
  note same = only_links_fields [OF cut_q_only [of s it]]
  have nt: "ntotals ?h' zs = ntotals ?h zs" for zs by (rule ntotals_frame) (simp add: same)
  show "\<And>a. a \<notin> set (remove1 it (Q c)) \<Longrightarrow> m_heap ?s a = ?h a" using cut(3) by (simp add: rm unlink_q_cut)
  show "lru_rep ?s (Q(c := remove1 it (Q c)))"
    unfolding lru_rep_def
  proof (intro allI conjI)
    fix d
    show "lru_class (m_heap ?s) (heads ?s d) (tails ?s d) d ((Q(c := remove1 it (Q c))) d)"
    proof (cases "d = c")
      case True
      then show ?thesis using cut(1) by (simp add: rm unlink_q_cut)
    next
      case False
      have "x \<notin> set (Q c)" if "x \<in> set (Q d)" for x using lru_rep_other [OF assms(1) that] False by blast
      then have "?h' x = ?h x" if "x \<in> set (Q d)" for x using cut(3) that Q by auto
      moreover have "lru_class ?h (heads s d) (tails s d) d (Q d)" using assms(1) by (simp add: lru_rep_def)
      ultimately have "lru_class ?h' (heads s d) (tails s d) d (Q d)"
        using lru_class_frame [of ?h _ _ d "Q d" ?h'] by auto
      then show ?thesis using False cut(2) by (simp add: unlink_q_cut)
    qed
    show "sizes ?s d = of_nat (length ((Q(c := remove1 it (Q c))) d))"
      using lru_repD(3) [OF assms(1)] c same(7) by (simp add: do_item_unlink_q_def Let_def Q remove1_append)
    show "sizes_bytes ?s d = ntotals (m_heap ?s) ((Q(c := remove1 it (Q c))) d)"
      using lru_repD(4) [OF assms(1)] nt c same(7,12) by (simp add: do_item_unlink_q_def Let_def Q remove1_append ntotals_def)
  qed
qed

interpretation lru: lru_queue lru_rep "\<lambda>s a. slabs_clsid (m_heap s a)" do_item_link_q do_item_unlink_q tails sizes
proof
  fix s Q it c
  assume rep: "lru_rep s Q"
  let ?c = "slabs_clsid (m_heap s it)"
  show "lru_rep (do_item_link_q it s) (Q(?c := it # Q ?c)) \<and>
      (\<lambda>a. slabs_clsid (m_heap (do_item_link_q it s) a)) = (\<lambda>a. slabs_clsid (m_heap s a))"
    if "it \<noteq> NULL" "it \<notin> set (Q ?c)"
    using lru_link(1) [OF rep that] only_links_fields(7) [OF link_q_only [of s it]] by simp
  show "lru_rep (do_item_unlink_q it s) (Q(?c := remove1 it (Q ?c))) \<and>
      (\<lambda>a. slabs_clsid (m_heap (do_item_unlink_q it s) a)) = (\<lambda>a. slabs_clsid (m_heap s a))"
    if "it \<in> set (Q ?c)"
    using lru_unlink(1) [OF rep that] only_links_fields(7) [OF cut_q_only [of s it]] by (simp add: unlink_q_cut)
  show "tails s c = (if Q c = [] then NULL else last (Q c))" using dseg_last [OF lru_repD(1) [OF rep]] .
  show "sizes s c = of_nat (length (Q c))" using lru_repD(3) [OF rep] .
qed

end
