(* ===== verification/Items_Inv.thy ===== *)
theory Items_Inv
  imports Lru_Queue
begin

unbundle bit_operations_syntax

text \<open>
  The state of the cache is consistent: hash table, LRU queues, slab allocator, reference counts and
  statistics agree on the items there are. \<open>M\<close> maps the keys to the linked items, \<open>Q\<close> has the queues, \<open>R\<close> the
  number of references the clients hold.
\<close>

section \<open>Flags\<close>

lemma has_flag_set: "has_flag (set_flag f x) g \<longleftrightarrow> has_flag x g \<or> f AND g \<noteq> 0"
  by (simp add: has_flag_def set_flag_def bit.conj_disj_distrib2 or_eq_0_iff)

lemma has_flag_clear: "f AND g = 0 \<Longrightarrow> has_flag (clear_flag f x) g = has_flag x g"
proof -
  assume "f AND g = 0"
  then have "bit (f AND g) n = False" for n by simp
  then have "(it_flags x AND NOT f) AND g = it_flags x AND g" by (intro bit_word_eqI) (auto simp: bit_simps)
  then show ?thesis by (simp add: has_flag_def clear_flag_def)
qed

lemma has_flag_clear_same [simp]: "\<not> has_flag (clear_flag f x) f"
  by (simp add: has_flag_def clear_flag_def and.assoc)

lemma flag_fields [simp]:
  "next (set_flag f x) = next x" "prev (set_flag f x) = prev x" "h_next (set_flag f x) = h_next x"
  "time (set_flag f x) = time x" "exptime (set_flag f x) = exptime x" "nbytes (set_flag f x) = nbytes x"
  "refcount (set_flag f x) = refcount x" "slabs_clsid (set_flag f x) = slabs_clsid x" "key (set_flag f x) = key x"
  "cas (set_flag f x) = cas x" "it_data (set_flag f x) = it_data x" "cflags (set_flag f x) = cflags x"
  "next (clear_flag f x) = next x" "prev (clear_flag f x) = prev x" "h_next (clear_flag f x) = h_next x"
  "time (clear_flag f x) = time x" "exptime (clear_flag f x) = exptime x" "nbytes (clear_flag f x) = nbytes x"
  "refcount (clear_flag f x) = refcount x" "slabs_clsid (clear_flag f x) = slabs_clsid x" "key (clear_flag f x) = key x"
  "cas (clear_flag f x) = cas x" "it_data (clear_flag f x) = it_data x" "cflags (clear_flag f x) = cflags x"
  by (simp_all add: set_flag_def clear_flag_def)

lemma clsid_flag [simp]:
  "ITEM_clsid (set_flag f x) = ITEM_clsid x" "ITEM_clsid (clear_flag f x) = ITEM_clsid x"
  "ITEM_lruid (set_flag f x) = ITEM_lruid x" "ITEM_lruid (clear_flag f x) = ITEM_lruid x"
  by (simp_all add: ITEM_clsid_def ITEM_lruid_def)

lemma set_cas_fields [simp]:
  "next (ITEM_set_cas v x) = next x" "prev (ITEM_set_cas v x) = prev x" "h_next (ITEM_set_cas v x) = h_next x"
  "time (ITEM_set_cas v x) = time x" "exptime (ITEM_set_cas v x) = exptime x" "nbytes (ITEM_set_cas v x) = nbytes x"
  "refcount (ITEM_set_cas v x) = refcount x" "slabs_clsid (ITEM_set_cas v x) = slabs_clsid x" "key (ITEM_set_cas v x) = key x"
  "it_flags (ITEM_set_cas v x) = it_flags x" "it_data (ITEM_set_cas v x) = it_data x" "cflags (ITEM_set_cas v x) = cflags x"
  by (simp_all add: ITEM_set_cas_def)

text \<open>What the size of an item depends on.\<close>

lemma ntotal_cong:
  "key y = key x \<Longrightarrow> nbytes y = nbytes x \<Longrightarrow> has_flag y ITEM_CFLAGS = has_flag x ITEM_CFLAGS \<Longrightarrow>
   has_flag y ITEM_CAS = has_flag x ITEM_CAS \<Longrightarrow> ITEM_ntotal y = ITEM_ntotal x"
  by (simp add: ITEM_ntotal_def)

section \<open>The invariant\<close>

definition held :: "(byte list \<rightharpoonup> addr) \<Rightarrow> (addr \<Rightarrow> nat) \<Rightarrow> addr set" where
  "held M R = ran M \<union> {x. 0 < R x}"

definition chunks_held :: "heap \<Rightarrow> addr set \<Rightarrow> (addr \<times> nat) set" where
  "chunks_held h H = (\<lambda>x. (x, unat (ITEM_clsid (h x)))) ` H"

definition item_ok :: "(byte list \<rightharpoonup> addr) \<Rightarrow> (addr \<Rightarrow> nat) \<Rightarrow> heap \<Rightarrow> addr \<Rightarrow> bool" where
  "item_ok M R h x \<longleftrightarrow> unat (refcount (h x)) = (if x \<in> ran M then 1 else 0) + R x \<and>
     (has_flag (h x) ITEM_LINKED \<longleftrightarrow> x \<in> ran M) \<and> \<not> has_flag (h x) ITEM_CHUNKED \<and> 2 \<le> nbytes (h x)"

definition store_inv ::
  "settings \<Rightarrow> (byte list \<Rightarrow> u32) \<Rightarrow> mc \<Rightarrow> (byte list \<rightharpoonup> addr) \<Rightarrow> (byte \<Rightarrow> addr list) \<Rightarrow> (addr \<Rightarrow> nat) \<Rightarrow> bool" where
  "store_inv st hash s M Q R \<longleftrightarrow>
     assoc_rep hash (m_heap s) (m_assoc s) M \<and> assoc_wf (m_assoc s) \<and> lru_rep s Q \<and> (\<Union>c. set (Q c)) = ran M \<and>
     alloc_inv st (m_heap s, m_slabs s) (chunks_held (m_heap s) (held M R)) \<and>
     (\<forall>x \<in> held M R. item_ok M R (m_heap s) x) \<and>
     curr_items s = of_nat (card (ran M)) \<and> curr_bytes s = (\<Sum>x \<in> ran M. ITEM_ntotal (m_heap s x))"

lemma store_invD:
  assumes "store_inv st hash s M Q R"
  shows "assoc_rep hash (m_heap s) (m_assoc s) M" "assoc_wf (m_assoc s)" "lru_rep s Q" "(\<Union>c. set (Q c)) = ran M"
    "alloc_inv st (m_heap s, m_slabs s) (chunks_held (m_heap s) (held M R))"
    "\<And>x. x \<in> held M R \<Longrightarrow> item_ok M R (m_heap s) x"
    "curr_items s = of_nat (card (ran M))" "curr_bytes s = (\<Sum>x \<in> ran M. ITEM_ntotal (m_heap s x))"
  using assms by (auto simp: store_inv_def)

lemma ran_held: "x \<in> ran M \<Longrightarrow> x \<in> held M R"
  by (simp add: held_def)

lemma linked_queue:
  assumes "store_inv st hash s M Q R" "x \<in> ran M"
  shows "x \<in> set (Q (slabs_clsid (m_heap s x)))"
proof -
  obtain c where "x \<in> set (Q c)" using store_invD(4) [OF assms(1)] assms(2) by blast
  then show ?thesis using lru_repD(2) [OF store_invD(3) [OF assms(1)]] by metis
qed

lemma finite_linked: "store_inv st hash s M Q R \<Longrightarrow> finite (ran M)"
  using store_invD(4) by (metis finite_UN finite_class.finite_UNIV List.finite_set)

lemma held_nonnull:
  assumes "store_inv st hash s M Q R" "x \<in> held M R"
  shows "x \<noteq> NULL"
proof -
  obtain F where F: "slabs_inv st (m_heap s) (m_slabs s) F" "in_use (m_slabs s) F = chunks_held (m_heap s) (held M R)"
    using store_invD(5) [OF assms(1)] by (auto simp: alloc_inv_def)
  obtain i where "x \<in> chunks (m_slabs s) i" using F(2) assms(2) by (auto simp: in_use_def chunks_held_def)
  then show ?thesis
    using F(1) chunk_in_page [of st "m_slabs s" x i] unfolding slabs_inv_def
    by (metis bot_nat_0.extremum_uniqueI pages_ok_def)
qed

lemma chunks_held_cong: "(\<And>x. x \<in> H \<Longrightarrow> ITEM_clsid (h' x) = ITEM_clsid (h x)) \<Longrightarrow> chunks_held h' H = chunks_held h H"
  by (simp add: chunks_held_def cong: image_cong)

lemma fst_chunks_held [simp]: "fst ` chunks_held h H = H"
  by (auto simp: chunks_held_def image_image)

text \<open>The allocator does not depend on the contents of the chunks in use.\<close>

lemma alloc_inv_frame:
  assumes "alloc_inv st (h, sl) U" "\<And>a. a \<notin> fst ` U \<Longrightarrow> h' a = h a"
  shows "alloc_inv st (h', sl) U"
proof -
  obtain F where F: "slabs_inv st h sl F" "in_use sl F = U" and r: "\<forall>(p, i) \<in> U. 1 \<le> i \<and> i \<le> power_largest sl"
    using assms(1) by (auto simp: alloc_inv_def)
  have "h' x = h x" if "x \<in> free_set F" for x
    using in_use_not_free [OF F(1)] F(2) that assms(2) [of x] by (metis imageE prod.collapse)
  then have "free_ok h' sl F" using F(1) by (intro free_ok_frame [of h sl F h' sl]) (auto simp: slabs_inv_def)
  then have "slabs_inv st h' sl F" using F(1) by (simp add: slabs_inv_def)
  then show ?thesis using F(2) r by (auto simp: alloc_inv_def)
qed

text \<open>Only these fields of the state matter.\<close>

definition mc_same :: "mc \<Rightarrow> mc \<Rightarrow> bool" where
  "mc_same s s' \<longleftrightarrow> m_assoc s' = m_assoc s \<and> m_slabs s' = m_slabs s \<and> heads s' = heads s \<and> tails s' = tails s \<and>
     sizes s' = sizes s \<and> sizes_bytes s' = sizes_bytes s \<and> curr_items s' = curr_items s \<and> curr_bytes s' = curr_bytes s"

text \<open>A change of the items' contents that the structures do not see, with a change of the references.\<close>

lemma store_heap:
  assumes inv: "store_inv st hash s M Q R" and same: "mc_same s s'"
    and out: "\<And>a. a \<notin> held M R \<Longrightarrow> m_heap s' a = m_heap s a"
    and lk: "\<And>a. a \<in> ran M \<Longrightarrow> h_next (m_heap s' a) = h_next (m_heap s a) \<and> key (m_heap s' a) = key (m_heap s a) \<and>
       q_same (m_heap s a) (m_heap s' a)"
    and cl: "\<And>a. a \<in> held M R \<Longrightarrow> ITEM_clsid (m_heap s' a) = ITEM_clsid (m_heap s a)"
    and held: "held M R' = held M R" and ok: "\<And>x. x \<in> held M R \<Longrightarrow> item_ok M R' (m_heap s') x"
  shows "store_inv st hash s' M Q R'"
proof -
  note i = store_invD [OF inv]
  have e: "m_assoc s' = m_assoc s" "m_slabs s' = m_slabs s" "heads s' = heads s" "tails s' = tails s"
     "sizes s' = sizes s" "sizes_bytes s' = sizes_bytes s" "curr_items s' = curr_items s" "curr_bytes s' = curr_bytes s"
    using same by (auto simp: mc_same_def)
  have "assoc_rep hash (m_heap s') (m_assoc s') M"
    unfolding e by (rule assoc_rep_frame [OF i(1)]) (use lk in \<open>auto simp: ran_def\<close>)
  moreover have "lru_rep s' Q"
    by (rule lru_rep_frame [OF i(3)]) (use e lk i(4) in auto)
  moreover have "alloc_inv st (m_heap s', m_slabs s') (chunks_held (m_heap s') (held M R'))"
    unfolding e held using alloc_inv_frame [OF i(5)] out chunks_held_cong [of "held M R" "m_heap s'" "m_heap s"] cl by simp
  moreover have "(\<Sum>x \<in> ran M. ITEM_ntotal (m_heap s' x)) = (\<Sum>x \<in> ran M. ITEM_ntotal (m_heap s x))"
    by (rule sum.cong) (use lk in \<open>auto simp: q_same_def\<close>)
  ultimately show ?thesis using i ok unfolding store_inv_def e held by simp
qed

lemma store_cong: "store_inv st hash s M Q R \<Longrightarrow> mc_same s s' \<Longrightarrow> m_heap s' = m_heap s \<Longrightarrow> store_inv st hash s' M Q R"
  using store_heap [of st hash s M Q R s' R] store_invD(6) [of st hash s M Q R] by (simp add: q_same_def)

lemma mc_same_simps [simp]:
  "mc_same s (m_upd it f s)" "mc_same s (upd_stats i g s)" "mc_same s (item_stats_sizes_change d it s)"
  "mc_same s (s\<lparr>get_flushed := gf\<rparr>)" "mc_same s (s\<lparr>get_expired := gf\<rparr>)" "mc_same s (s\<lparr>bump_bufs := bb\<rparr>)" "mc_same s (s\<lparr>m_rebal := rb\<rparr>)"
  by (simp_all add: mc_same_def m_upd_def upd_stats_def item_stats_sizes_change_def Let_def split: option.splits)

lemma mc_same_trans: "mc_same s s' \<Longrightarrow> mc_same s' s'' \<Longrightarrow> mc_same s s''"
  by (simp add: mc_same_def)

lemma stats_heap [simp]:
  "m_heap (upd_stats i g s) = m_heap s" "m_heap (item_stats_sizes_change d it s) = m_heap s"
  "m_heap (m_upd it f s) = upd it f (m_heap s)"
  by (simp_all add: m_upd_def upd_stats_def item_stats_sizes_change_def Let_def split: option.splits)

text \<open>A write to fields that none of the structures uses.\<close>

definition harmless :: "(item \<Rightarrow> item) \<Rightarrow> bool" where
  "harmless f \<longleftrightarrow> (\<forall>x. key (f x) = key x \<and> h_next (f x) = h_next x \<and> next (f x) = next x \<and> prev (f x) = prev x \<and>
     slabs_clsid (f x) = slabs_clsid x \<and> refcount (f x) = refcount x \<and> nbytes (f x) = nbytes x \<and>
     (\<forall>g \<in> {ITEM_LINKED, ITEM_CHUNKED, ITEM_CAS, ITEM_CFLAGS}. has_flag (f x) g = has_flag x g))"

lemma harmless_write:
  assumes "store_inv st hash s M Q R" "it \<in> held M R" "harmless f"
  shows "store_inv st hash (m_upd it f s) M Q R"
proof (rule store_heap [OF assms(1)])
  note f = assms(3) [unfolded harmless_def, rule_format]
  have nt: "ITEM_ntotal (f x) = ITEM_ntotal x" for x by (rule ntotal_cong) (use f [of x] in auto)
  fix a
  show "a \<in> ran M \<Longrightarrow> h_next (m_heap (m_upd it f s) a) = h_next (m_heap s a) \<and> key (m_heap (m_upd it f s) a) = key (m_heap s a) \<and>
       q_same (m_heap s a) (m_heap (m_upd it f s) a)"
    using f [of "m_heap s it"] nt by (simp add: upd_apply q_same_def)
  show "ITEM_clsid (m_heap (m_upd it f s) a) = ITEM_clsid (m_heap s a)"
    using f [of "m_heap s it"] by (simp add: upd_apply ITEM_clsid_def)
  show "item_ok M R (m_heap (m_upd it f s)) a" if "a \<in> held M R"
    using store_invD(6) [OF assms(1) that] f [of "m_heap s it"] unfolding item_ok_def by (cases "a = it") (simp_all add: upd_apply)
qed (use assms(2) in \<open>auto simp: upd_apply\<close>)

section \<open>References\<close>

text \<open>What no operation changes of an item somebody holds: its key and its value.\<close>

definition keeps :: "mc \<Rightarrow> mc \<Rightarrow> addr set \<Rightarrow> bool" where
  "keeps s s' H \<longleftrightarrow> current_time s' = current_time s \<and> bump_bufs s' = bump_bufs s \<and> (\<forall>x \<in> H.
     key (m_heap s' x) = key (m_heap s x) \<and> it_data (m_heap s' x) = it_data (m_heap s x) \<and>
     FLAGS_CONV (m_heap s' x) = FLAGS_CONV (m_heap s x) \<and> nbytes (m_heap s' x) = nbytes (m_heap s x))"

lemma keeps_refl [simp]: "keeps s s H"
  by (simp add: keeps_def)

lemma keeps_trans: "keeps s s' H \<Longrightarrow> keeps s' s'' H' \<Longrightarrow> H'' \<subseteq> H \<Longrightarrow> H'' \<subseteq> H' \<Longrightarrow> keeps s s'' H''"
  unfolding keeps_def by (metis subsetD)

lemma keeps_sub: "keeps s s' H \<Longrightarrow> H' \<subseteq> H \<Longrightarrow> keeps s s' H'"
  by (auto simp: keeps_def)

text \<open>Operations that change no more than this of the items.\<close>

lemma keepsI:
  assumes "current_time s' = current_time s \<and> bump_bufs s' = bump_bufs s"
    and "\<And>x. x \<in> H \<Longrightarrow> key (m_heap s' x) = key (m_heap s x) \<and> it_data (m_heap s' x) = it_data (m_heap s x) \<and>
      cflags (m_heap s' x) = cflags (m_heap s x) \<and> nbytes (m_heap s' x) = nbytes (m_heap s x) \<and>
      has_flag (m_heap s' x) ITEM_CFLAGS = has_flag (m_heap s x) ITEM_CFLAGS"
  shows "keeps s s' H"
  using assms by (auto simp: keeps_def FLAGS_CONV_def)

lemma store_refcount:
  assumes "store_inv st hash s M Q R" "it \<in> held M R" "it \<in> ran M \<or> 0 < n"
    and "unat v = (if it \<in> ran M then 1 else 0) + n"
  shows "store_inv st hash (m_upd it (\<lambda>x. x\<lparr>refcount := v\<rparr>) s) M Q (R(it := n))"
    "keeps s (m_upd it (\<lambda>x. x\<lparr>refcount := v\<rparr>) s) UNIV"
proof -
  let ?s = "m_upd it (\<lambda>x. x\<lparr>refcount := v\<rparr>) s"
  have f: "has_flag (x\<lparr>refcount := v\<rparr>) g = has_flag x g" for x g by (simp add: has_flag_def)
  show "store_inv st hash ?s M Q (R(it := n))"
  proof (rule store_heap [OF assms(1)])
    show "held M (R(it := n)) = held M R" using assms(2,3) by (auto simp: held_def)
    fix a
    show "a \<in> ran M \<Longrightarrow> h_next (m_heap ?s a) = h_next (m_heap s a) \<and> key (m_heap ?s a) = key (m_heap s a) \<and> q_same (m_heap s a) (m_heap ?s a)"
      using ntotal_cong [of "(m_heap s it)\<lparr>refcount := v\<rparr>" "m_heap s it"] by (simp add: upd_apply q_same_def f)
    show "ITEM_clsid (m_heap ?s a) = ITEM_clsid (m_heap s a)" by (simp add: upd_apply ITEM_clsid_def)
    show "a \<in> held M R \<Longrightarrow> item_ok M (R(it := n)) (m_heap ?s) a"
      using store_invD(6) [OF assms(1), of a] assms(4) unfolding item_ok_def by (cases "a = it") (simp_all add: upd_apply f)
    show "a \<notin> held M R \<Longrightarrow> m_heap ?s a = m_heap s a" using assms(2) by (auto simp: upd_apply)
  qed simp
  show "keeps s ?s UNIV" by (rule keepsI) (simp_all add: m_upd_def upd_apply f)
qed

lemma store_incr:
  assumes "store_inv st hash s M Q R" "it \<in> held M R" "R it < 65000"
  shows "store_inv st hash (snd (refcount_incr it s)) M Q (R(it := R it + 1))"
    "keeps s (snd (refcount_incr it s)) UNIV" "unat (fst (refcount_incr it s)) = (if it \<in> ran M then 1 else 0) + R it + 1"
proof -
  have r: "unat (refcount (m_heap s it)) = (if it \<in> ran M then 1 else 0) + R it"
    using store_invD(6) [OF assms(1,2)] by (simp add: item_ok_def)
  then have v: "unat (refcount (m_heap s it) + 1) = (if it \<in> ran M then 1 else 0) + (R it + 1)"
    using assms(3) by (simp add: unat_word_ariths)
  have e: "snd (refcount_incr it s) = m_upd it (\<lambda>x. x\<lparr>refcount := refcount (m_heap s it) + 1\<rparr>) s"
    by (simp add: refcount_incr_def m_upd_def upd_def)
  show "store_inv st hash (snd (refcount_incr it s)) M Q (R(it := R it + 1))" "keeps s (snd (refcount_incr it s)) UNIV"
    unfolding e using store_refcount [OF assms(1,2) _ v] by simp_all
  show "unat (fst (refcount_incr it s)) = (if it \<in> ran M then 1 else 0) + R it + 1"
    using v by (simp add: refcount_incr_def)
qed

text \<open>The last reference to an unlinked item: its chunk goes back to the allocator.\<close>

lemma store_free:
  assumes "store_inv st hash s M Q R" "it \<notin> ran M" "0 < R it"
  shows "\<exists>s'. item_free it (m_upd it (\<lambda>x. x\<lparr>refcount := v\<rparr>) s) = Some s' \<and> store_inv st hash s' M Q (R(it := 0)) \<and>
    keeps s s' (held M (R(it := 0)))"
proof -
  note i = store_invD [OF assms(1)]
  let ?s = "m_upd it (\<lambda>x. x\<lparr>refcount := v\<rparr>) s" and ?H = "held M R" and ?R = "R(it := 0)"
  let ?c = "unat (ITEM_clsid (m_heap s it))" and ?U = "chunks_held (m_heap s) (held M R)"
  have it: "it \<in> ?H" using assms(3) by (simp add: held_def)
  have sl: "m_slabs ?s = m_slabs s" by (simp add: m_upd_def)
  have c: "ITEM_clsid (upd it (\<lambda>x. x\<lparr>refcount := v\<rparr>) (m_heap s) it) = ITEM_clsid (m_heap s it)"
    by (simp add: upd_apply ITEM_clsid_def)
  have a: "alloc_inv st (m_heap ?s, m_slabs s) ?U" by (rule alloc_inv_frame [OF i(5)]) (use it in \<open>auto simp: upd_apply\<close>)
  have mem: "(it, ?c) \<in> ?U" using it by (auto simp: chunks_held_def)
  have plain: "not_chunked it (m_heap ?s, m_slabs s)"
    using i(6) [OF it] by (simp add: not_chunked_def upd_apply item_ok_def has_flag_def)
  obtain h' sl' where f: "do_slabs_free it ?c (m_heap ?s, m_slabs s) = Some (h', sl')" "alloc_inv st (h', sl') (?U - {(it, ?c)})"
      "\<And>q. q \<in> ?H \<Longrightarrow> q \<noteq> it \<Longrightarrow> h' q = m_heap ?s q"
    using slab.give_law [OF a mem plain] by auto
  let ?s' = "?s\<lparr>m_heap := h', m_slabs := sl'\<rparr>"
  have H: "held M ?R = ?H - {it}" using assms(2) by (auto simp: held_def)
  have same: "h' x = m_heap s x" if "x \<in> held M ?R" for x using f(3) [of x] that H by (auto simp: upd_apply)
  have rn: "x \<in> held M ?R" if "x \<in> ran M" for x using that assms(2) by (auto simp: held_def)
  have "store_inv st hash ?s' M Q ?R"
    unfolding store_inv_def
  proof (intro conjI ballI)
    show "assoc_rep hash (m_heap ?s') (m_assoc ?s') M"
      using assoc_rep_frame [OF i(1), of h'] same rn ranI [of M] by (simp add: m_upd_def)
    have "h' x = m_heap s x" if "x \<in> set (Q c)" for x c using same rn i(4) that by blast
    then show "lru_rep ?s' Q" by (intro lru_rep_frame [OF i(3)]) (simp_all add: m_upd_def q_same_def)
    have "chunks_held h' (held M ?R) = chunks_held (m_heap s) (?H - {it})"
      unfolding H [symmetric] by (rule chunks_held_cong) (simp add: same)
    also have "\<dots> = ?U - {(it, ?c)}" by (auto simp: chunks_held_def)
    finally show "alloc_inv st (m_heap ?s', m_slabs ?s') (chunks_held (m_heap ?s') (held M ?R))" using f(2) by simp
    show "item_ok M ?R (m_heap ?s') x" if "x \<in> held M ?R" for x
      using i(6) [of x] same [OF that] that H by (auto simp: item_ok_def)
    show "curr_bytes ?s' = (\<Sum>x \<in> ran M. ITEM_ntotal (m_heap ?s' x))"
      using i(8) same rn by (simp add: m_upd_def)
  qed (use i in \<open>simp_all add: m_upd_def\<close>)
  moreover have "item_free it ?s = Some ?s'" using f(1) by (simp add: item_free_def c sl)
  moreover have "keeps s ?s' (held M ?R)" by (rule keepsI) (simp_all add: same m_upd_def)
  ultimately show ?thesis by blast
qed

lemma store_remove:
  assumes "store_inv st hash s M Q R" "0 < R it"
  shows "\<exists>s'. do_item_remove it s = Some s' \<and> store_inv st hash s' M Q (R(it := R it - 1)) \<and>
    keeps s s' (held M (R(it := R it - 1)))"
proof -
  let ?v = "refcount (m_heap s it) - 1"
  have it: "it \<in> held M R" using assms(2) by (simp add: held_def)
  have r: "unat (refcount (m_heap s it)) = (if it \<in> ran M then 1 else 0) + R it"
    using store_invD(6) [OF assms(1) it] by (simp add: item_ok_def)
  then have v: "unat ?v = (if it \<in> ran M then 1 else 0) + (R it - 1)" using assms(2) by (simp add: unat_sub_if_size)
  have e: "do_item_remove it s = (if ?v = 0 then item_free it (m_upd it (\<lambda>x. x\<lparr>refcount := ?v\<rparr>) s)
      else Some (m_upd it (\<lambda>x. x\<lparr>refcount := ?v\<rparr>) s))"
    by (simp add: do_item_remove_def refcount_decr_def m_upd_def upd_def)
  show ?thesis
  proof (cases "?v = 0")
    case True
    then have "it \<notin> ran M" "R it = 1" using v assms(2) by (auto split: if_splits)
    then show ?thesis using store_free [OF assms(1), of it ?v] True by (simp add: e)
  next
    case False
    then have "it \<in> ran M \<or> 0 < R it - 1" using v by (auto simp: word_unat_eq_iff split: if_splits)
    then show ?thesis using store_refcount [OF assms(1) it _ v] False keeps_sub [OF _ subset_UNIV] by (auto simp: e)
  qed
qed

section \<open>Linking and unlinking\<close>

lemma key_linked:
  assumes "store_inv st hash s M Q R" "x \<in> ran M"
  shows "M (key (m_heap s x)) = Some x"
  using assms(2) assoc_rep_key [OF store_invD(1) [OF assms(1)]] by (auto simp: ran_def)

lemma ran_unlink:
  assumes "store_inv st hash s M Q R" "it \<in> ran M"
  shows "ran (M(key (m_heap s it) := None)) = ran M - {it}"
proof -
  note k = key_linked [OF assms]
  have "y \<in> ran M \<and> y \<noteq> it" if "(M(key (m_heap s it) := None)) k' = Some y" for k' y
  proof -
    have "M k' = Some y" "k' \<noteq> key (m_heap s it)" using that by (auto split: if_splits)
    then show ?thesis using assoc_rep_key [OF store_invD(1) [OF assms(1)], of k' y] by (auto simp: ran_def)
  qed
  moreover have "(M(key (m_heap s it) := None)) (key (m_heap s y)) = Some y" if "y \<in> ran M" "y \<noteq> it" for y
    using key_linked [OF assms(1) that(1)] k that(2) by auto
  ultimately have "y \<in> ran (M(key (m_heap s it) := None)) \<longleftrightarrow> y \<in> ran M \<and> y \<noteq> it" for y
    unfolding ran_def [of "M(key (m_heap s it) := None)"] mem_Collect_eq by blast
  then show ?thesis by blast
qed

text \<open>What an operation on the table or on a queue leaves alone.\<close>

lemma only_hnext_ntotal: "only_hnext h h' \<Longrightarrow> ITEM_ntotal (h' a) = ITEM_ntotal (h a)"
  by (rule ntotal_cong) (simp_all add: only_hnext_fields has_flag_def)

lemma lru_rep_hnext: "lru_rep s Q \<Longrightarrow> only_hnext (m_heap s) h \<Longrightarrow> lru_rep (s\<lparr>m_heap := h, m_assoc := a\<rparr>) Q"
  by (rule lru_rep_frame) (simp_all add: q_same_def only_hnext_fields only_hnext_ntotal)

lemma clear_ntotal: "f AND ITEM_CFLAGS = 0 \<Longrightarrow> f AND ITEM_CAS = 0 \<Longrightarrow> ITEM_ntotal (clear_flag f x) = ITEM_ntotal x"
  by (rule ntotal_cong) (simp_all add: has_flag_clear)

lemma set_ntotal: "f AND ITEM_CFLAGS = 0 \<Longrightarrow> f AND ITEM_CAS = 0 \<Longrightarrow> ITEM_ntotal (set_flag f x) = ITEM_ntotal x"
  by (rule ntotal_cong) (simp_all add: has_flag_set)

lemma unlink_stage:
  assumes inv: "store_inv st hash s M Q R" and it: "it \<in> ran M"
  defines "k \<equiv> key (m_heap s it)" and "c \<equiv> slabs_clsid (m_heap s it)"
  shows "\<exists>s1. do_assoc_delete k (hash k)
      (item_stats_sizes_remove it ((m_upd it (clear_flag ITEM_LINKED) s)\<lparr>curr_bytes := curr_bytes s - ITEM_ntotal (m_heap s it),
          curr_items := curr_items s - 1\<rparr>)) = Some s1 \<and>
    store_inv st hash (do_item_unlink_q it s1) (M(k := None)) (Q(c := remove1 it (Q c))) (R(it := R it + 1)) \<and>
    keeps s (do_item_unlink_q it s1) (held M R)"
proof -
  note i = store_invD [OF inv]
  let ?h = "m_heap s" and ?M = "M(k := None)" and ?Q = "Q(c := remove1 it (Q c))" and ?R = "R(it := R it + 1)"
  define s0 where "s0 = item_stats_sizes_remove it ((m_upd it (clear_flag ITEM_LINKED) s)\<lparr>curr_bytes := curr_bytes s - ITEM_ntotal (m_heap s it),
          curr_items := curr_items s - 1\<rparr>)"
  let ?g = "upd it (clear_flag ITEM_LINKED) ?h"
  have s0: "bump_bufs s0 = bump_bufs s" "m_heap s0 = ?g" "m_assoc s0 = m_assoc s" "m_slabs s0 = m_slabs s" "heads s0 = heads s" "tails s0 = tails s"
    "sizes s0 = sizes s" "sizes_bytes s0 = sizes_bytes s" "curr_items s0 = curr_items s - 1"
    "curr_bytes s0 = curr_bytes s - ITEM_ntotal (?h it)" "current_time s0 = current_time s"
    unfolding s0_def item_stats_sizes_remove_def item_stats_sizes_change_def m_upd_def Let_def
    by (auto split: option.splits)
  have q0: "q_same (?h a) (?g a)" for a by (simp add: q_same_def upd_apply clear_ntotal)
  have f0: "key (?g a) = key (?h a)" "h_next (?g a) = h_next (?h a)" "refcount (?g a) = refcount (?h a)"
    "nbytes (?g a) = nbytes (?h a)" "it_data (?g a) = it_data (?h a)" "cflags (?g a) = cflags (?h a)"
    "slabs_clsid (?g a) = slabs_clsid (?h a)" for a by (simp_all add: upd_apply)
  have L0: "lru_rep s0 Q" by (rule lru_rep_frame [OF i(3)]) (simp_all add: s0 q0)
  have "assoc_rep hash ?g (m_assoc s) M" by (rule assoc_rep_frame [OF i(1)]) (simp add: f0)
  then obtain h1 a1 where d: "assoc_delete k (hash k) (?g, m_assoc s) = Some (h1, a1)" "assoc_rep hash h1 a1 ?M"
      "only_hnext ?g h1" "\<And>a. a \<notin> ran M \<Longrightarrow> h1 a = ?g a" "assoc_wf a1 = assoc_wf (m_assoc s)"
    using assoc_delete_rep [of hash ?g "m_assoc s" M k it] key_linked [OF inv it] by (metis k_def)
  define s1 where "s1 = s0\<lparr>m_heap := h1, m_assoc := a1\<rparr>"
  have L1: "lru_rep s1 Q" using lru_rep_hnext [OF L0, of h1 a1] d(3) by (simp add: s0 s1_def)
  have cl1: "slabs_clsid (h1 it) = c" using only_hnext_fields(8) [OF d(3)] f0 by (simp add: c_def)
  have itq: "it \<in> set (Q c)" using linked_queue [OF inv it] by (simp add: c_def)
  note u = lru_unlink [OF L1 itq]
  let ?s2 = "do_item_unlink_q it s1"
  let ?h2 = "m_heap ?s2"
  have ol: "only_links h1 ?h2" using cut_q_only [of s1 it] by (simp add: s1_def unlink_q_cut)
  note f2 = only_links_fields [OF ol] and f1 = only_hnext_fields [OF d(3)]
  have fl: "it_flags (?h2 a) = it_flags (?g a)" for a by (simp only: f1 f2)
  have nt: "ITEM_ntotal (?h2 a) = ITEM_ntotal (?h a)" for a
    using only_hnext_ntotal [OF d(3)] f2(12) q0 by (simp add: q_same_def)
  have ff: "key (?h2 a) = key (?h a)" "refcount (?h2 a) = refcount (?h a)" "nbytes (?h2 a) = nbytes (?h a)"
    "it_data (?h2 a) = it_data (?h a)" "cflags (?h2 a) = cflags (?h a)" "slabs_clsid (?h2 a) = slabs_clsid (?h a)" for a
    by (simp_all only: f0 f1 f2)
  have hf: "has_flag (?h2 a) g = has_flag (?h a) g" if "ITEM_LINKED AND g = 0 \<or> a \<noteq> it" for a g
    using that fl [of a] has_flag_clear [of ITEM_LINKED g "?h it"] by (auto simp: has_flag_def upd_apply)
  have nl: "\<not> has_flag (?h2 it) ITEM_LINKED" using fl [of it] has_flag_clear_same [of ITEM_LINKED "?h it"] by (simp add: has_flag_def upd_apply)
  have rM: "ran ?M = ran M - {it}" using ran_unlink [OF inv it] by (simp add: k_def)
  have H: "held ?M ?R = held M R" using it by (auto simp: held_def rM)
  have Qran: "set (Q d) \<subseteq> ran M" for d using i(4) by blast
  have out: "?h2 a = ?h a" if "a \<notin> held M R" for a
  proof -
    have "a \<notin> ran M" "a \<noteq> it" using that it by (auto simp: held_def)
    then have "h1 a = ?h a" using d(4) by (simp add: upd_apply)
    moreover have "a \<notin> set (remove1 it (Q c))" using \<open>a \<notin> ran M\<close> Qran by (meson notin_set_remove1 subsetD)
    ultimately show ?thesis using u(2) by (simp add: s1_def)
  qed
  have Q: "set (?Q d) = set (Q d) - {it}" for d
    using lru_repD(5) [OF i(3), of c] lru_rep_other [OF i(3) itq, of d] by (cases "d = c") (auto simp: set_remove1_eq)
  have "store_inv st hash ?s2 ?M ?Q ?R"
    unfolding store_inv_def
  proof (intro conjI ballI)
    have "m_assoc ?s2 = a1" by (simp add: s1_def)
    then show "assoc_rep hash ?h2 (m_assoc ?s2) ?M" using assoc_rep_frame [OF d(2), of ?h2] f2(1,9) by metis
    show "assoc_wf (m_assoc ?s2)" using d(5) i(2) by (simp add: s1_def)
    show "lru_rep ?s2 ?Q" using u(1) .
    show "(\<Union>d. set (?Q d)) = ran ?M" unfolding Q rM using i(4) by blast
    have "chunks_held ?h2 (held M R) = chunks_held ?h (held M R)" by (rule chunks_held_cong) (simp add: ITEM_clsid_def ff)
    then show "alloc_inv st (?h2, m_slabs ?s2) (chunks_held ?h2 (held ?M ?R))"
      unfolding H using alloc_inv_frame [OF i(5), of ?h2] out by (simp add: s1_def s0)
    show "item_ok ?M ?R ?h2 x" if "x \<in> held ?M ?R" for x
      using i(6) [of x] that it nl hf [of ITEM_LINKED x] hf [of ITEM_CHUNKED x] unfolding item_ok_def rM H by (cases "x = it") (auto simp: ff)
    have "card (ran ?M) = card (ran M) - 1" "0 < card (ran M)" unfolding rM using it finite_linked [OF inv] by (auto simp: card_gt_0_iff)
    then show "curr_items ?s2 = of_nat (card (ran ?M))" using i(7) by (simp add: s1_def s0 of_nat_diff)
    have "curr_bytes ?s2 = curr_bytes s - ITEM_ntotal (?h it)" by (simp add: s1_def s0)
    then show "curr_bytes ?s2 = (\<Sum>x \<in> ran ?M. ITEM_ntotal (?h2 x))"
      using i(8) it finite_linked [OF inv] unfolding rM nt by (simp add: sum_diff1)
  qed
  moreover have "do_assoc_delete k (hash k) s0 = Some s1" using d(1) by (simp add: do_assoc_delete_def s0 s1_def)
  moreover have "current_time ?s2 = current_time s \<and> bump_bufs ?s2 = bump_bufs s" by (simp add: s1_def s0)
  then have "keeps s ?s2 (held M R)" by (rule keepsI) (simp add: ff hf)
  ultimately show ?thesis unfolding s0_def by blast
qed

lemma store_unlink:
  assumes inv: "store_inv st hash s M Q R" and it: "it \<in> ran M"
  defines "k \<equiv> key (m_heap s it)" and "c \<equiv> slabs_clsid (m_heap s it)"
  shows "\<exists>s'. do_item_unlink it (hash k) s = Some s' \<and>
    store_inv st hash s' (M(k := None)) (Q(c := remove1 it (Q c))) R \<and> keeps s s' (held (M(k := None)) R)"
proof -
  let ?M = "M(k := None)" and ?Q = "Q(c := remove1 it (Q c))" and ?R = "R(it := R it + 1)"
  obtain s1 where 1: "do_assoc_delete k (hash k)
      (item_stats_sizes_remove it ((m_upd it (clear_flag ITEM_LINKED) s)\<lparr>curr_bytes := curr_bytes s - ITEM_ntotal (m_heap s it),
          curr_items := curr_items s - 1\<rparr>)) = Some s1"
      "store_inv st hash (do_item_unlink_q it s1) ?M ?Q ?R" "keeps s (do_item_unlink_q it s1) (held M R)"
    using unlink_stage [OF inv it] unfolding k_def c_def by (elim exE conjE) blast
  obtain s2 where 2: "do_item_remove it (do_item_unlink_q it s1) = Some s2" "store_inv st hash s2 ?M ?Q R"
      "keeps (do_item_unlink_q it s1) s2 (held ?M R)"
    using store_remove [OF 1(2), of it] by auto
  have l: "has_flag (m_heap s it) ITEM_LINKED"
    using store_invD(6) [OF inv ran_held [OF it]] it by (simp add: item_ok_def)
  have ky: "key (m_heap (item_stats_sizes_remove it ((m_upd it (clear_flag ITEM_LINKED) s)
        \<lparr>curr_bytes := curr_bytes s - ITEM_ntotal (m_heap s it), curr_items := curr_items s - 1\<rparr>)) it) = k"
    by (simp add: k_def item_stats_sizes_remove_def upd_apply)
  have nt: "ITEM_ntotal (clear_flag ITEM_LINKED (m_heap s it)) = ITEM_ntotal (m_heap s it)" by (simp add: clear_ntotal)
  have "do_item_unlink it (hash k) s = Some s2"
    using l 1(1) 2(1) ky nt by (simp add: do_item_unlink_def Let_def upd_apply m_upd_def)
  moreover have "held ?M R \<subseteq> held M R" using ran_unlink [OF inv it] by (auto simp: held_def k_def)
  then have "keeps s s2 (held ?M R)" using keeps_trans [OF 1(3) 2(3)] by blast
  ultimately show ?thesis using 2(2) by blast
qed

lemma unlink_unlinked:
  assumes "store_inv st hash s M Q R" "it \<in> held M R" "it \<notin> ran M"
  shows "do_item_unlink it hv s = Some s"
  using store_invD(6) [OF assms(1,2)] assms(3) by (simp add: do_item_unlink_def item_ok_def)

lemma store_link:
  assumes inv: "store_inv st hash s M Q R" and it: "it \<notin> ran M" "0 < R it" "R it < 65000"
    and free: "M (key (m_heap s it)) = None"
  defines "k \<equiv> key (m_heap s it)" and "c \<equiv> slabs_clsid (m_heap s it)" and "s' \<equiv> do_item_link st it (hash (key (m_heap s it))) s"
  shows "store_inv st hash s' (M(k \<mapsto> it)) (Q(c := it # Q c)) R" "keeps s s' (held (M(k \<mapsto> it)) R)"
proof -
  note i = store_invD [OF inv]
  let ?h = "m_heap s" and ?M = "M(k \<mapsto> it)" and ?Q = "Q(c := it # Q c)"
  have itH: "it \<in> held M R" using it by (simp add: held_def)
  define cs where "cs = (if use_cas st then cas_id s + 1 else 0)"
  define f where "f = (\<lambda>x. ITEM_set_cas cs ((set_flag ITEM_LINKED x)\<lparr>time := current_time s\<rparr>))"
  define s0 where "s0 = s\<lparr>curr_bytes := curr_bytes s + ITEM_ntotal (?h it), curr_items := curr_items s + 1,
     total_items := total_items s + 1, cas_id := (if use_cas st then cas_id s + 1 else cas_id s), m_heap := upd it f ?h\<rparr>"
  have hf: "has_flag (x\<lparr>time := t\<rparr>) g = has_flag x g" "has_flag (ITEM_set_cas v x) g = has_flag x g" for x t g v
    by (simp_all add: has_flag_def)
  have nt: "ITEM_ntotal ((set_flag ITEM_LINKED x)\<lparr>time := t\<rparr>) = ITEM_ntotal x" "ITEM_ntotal (f x) = ITEM_ntotal x" for x t
    by (rule ntotal_cong; simp add: f_def hf has_flag_set)+
  have ff: "key (f x) = key x" "next (f x) = next x" "prev (f x) = prev x" "h_next (f x) = h_next x" "slabs_clsid (f x) = slabs_clsid x"
    "refcount (f x) = refcount x" "nbytes (f x) = nbytes x" "it_data (f x) = it_data x" "cflags (f x) = cflags x"
    "has_flag (f x) g \<longleftrightarrow> has_flag x g \<or> ITEM_LINKED AND g \<noteq> 0" for x g by (simp_all add: f_def hf has_flag_set)
  obtain h1 a1 where ins: "assoc_insert it (hash k) (upd it f ?h, m_assoc s) = (h1, a1)" by fastforce
  define s1 where "s1 = s0\<lparr>m_heap := h1, m_assoc := a1\<rparr>"
  let ?s2 = "do_item_link_q it s1"
  have s': "s' = item_stats_sizes_add it (snd (refcount_incr it ?s2))"
    unfolding s'_def do_item_link_def k_def [symmetric] using ins [unfolded upd_def f_def cs_def]
    by (cases "use_cas st") (simp_all add: Let_def get_cas_id_def m_upd_def upd_def nt do_assoc_insert_def s1_def s0_def)
  have g: "q_same (?h a) (upd it f ?h a)" "key (upd it f ?h a) = key (?h a)" "h_next (upd it f ?h a) = h_next (?h a)" for a
    by (simp_all add: upd_apply q_same_def ff nt)
  have "lru_rep s0 Q" by (rule lru_rep_frame [OF i(3)]) (simp_all add: s0_def g)
  moreover have oh: "only_hnext (upd it f ?h) h1" "assoc_wf a1 = assoc_wf (m_assoc s)"
    using ins only_hnext_upd by (auto simp: assoc_insert_def Let_def)
  ultimately have L1: "lru_rep s1 Q" using lru_rep_hnext [of s0 Q h1 a1] by (simp add: s1_def s0_def)
  have "assoc_rep hash (upd it f ?h) (m_assoc s) M" by (rule assoc_rep_frame [OF i(1)]) (simp add: g)
  then have A1: "assoc_rep hash h1 a1 ?M"
    using assoc_insert_rep [of hash "upd it f ?h" "m_assoc s" M it h1 a1] held_nonnull [OF inv itH] it(1) free ins by (simp add: g k_def)
  note f1 = only_hnext_fields [OF oh(1)]
  have cl: "slabs_clsid (m_heap s1 it) = c" by (simp add: s1_def f1 upd_apply ff c_def)
  have Qran: "set (Q d) \<subseteq> ran M" for d using i(4) by blast
  then have "it \<notin> set (Q (slabs_clsid (m_heap s1 it)))" using it(1) by blast
  note L2 = lru_link [OF L1 held_nonnull [OF inv itH] this, unfolded cl]
  let ?h2 = "m_heap ?s2" and ?h3 = "m_heap s'"
  have h3: "?h3 = upd it (\<lambda>x. x\<lparr>refcount := refcount x + 1\<rparr>) ?h2"
    by (simp add: s' item_stats_sizes_add_def refcount_incr_def)
  have ol: "only_links h1 ?h2" using link_q_only [of s1 it] by (simp add: s1_def)
  note f2 = only_links_fields [OF ol]
  have k3: "key (?h3 a) = key (?h a)" "nbytes (?h3 a) = nbytes (?h a)" "it_data (?h3 a) = it_data (?h a)"
    "cflags (?h3 a) = cflags (?h a)" "slabs_clsid (?h3 a) = slabs_clsid (?h a)" "h_next (?h3 a) = h_next (h1 a)" for a
    by (simp_all add: h3 upd_apply f2 f1 ff)
  have fl: "it_flags (?h3 a) = it_flags (upd it f ?h a)" "refcount (?h3 a) = refcount (?h a) + (if a = it then 1 else 0)" for a
    by (simp_all add: h3 upd_apply f2 f1 ff)
  have hf3: "has_flag (?h3 a) g \<longleftrightarrow> has_flag (?h a) g \<or> a = it \<and> ITEM_LINKED AND g \<noteq> 0" for a g
    using fl(1) [of a] ff(10) [of "?h it" g] by (simp add: has_flag_def upd_apply)
  have nt3: "ITEM_ntotal (?h3 a) = ITEM_ntotal (?h a)" for a by (rule ntotal_cong) (simp_all add: k3 hf3)
  have rM: "ran ?M = insert it (ran M)" using free by (simp add: k_def)
  have H: "held ?M R = held M R" using it by (auto simp: held_def rM)
  have out: "?h3 a = ?h a" if "a \<notin> held M R" for a
  proof -
    have a: "a \<notin> ran M" "a \<noteq> it" using that itH by (auto simp: held_def)
    then have "a \<notin> set (Q c)" using Qran by blast
    then have "?h2 a = h1 a" using L2(2) a by (simp add: s1_def)
    moreover have "h1 a = ?h a" using ins a by (auto simp: assoc_insert_def Let_def upd_apply)
    ultimately show ?thesis using a by (simp add: h3 upd_apply)
  qed
  have e: "m_assoc s' = a1" "m_slabs s' = m_slabs s" "heads s' = heads ?s2" "tails s' = tails ?s2" "sizes s' = sizes ?s2"
    "sizes_bytes s' = sizes_bytes ?s2" "curr_items s' = curr_items s + 1" "curr_bytes s' = curr_bytes s + ITEM_ntotal (?h it)"
    "current_time s' = current_time s" "bump_bufs s' = bump_bufs s"
    by (simp_all add: s' item_stats_sizes_add_def item_stats_sizes_change_def refcount_incr_def m_upd_def Let_def s1_def s0_def split: option.splits)
  have q3: "q_same (?h2 a) (?h3 a)" for a
    using nt3 [of a] f2(12) [of a] only_hnext_ntotal [OF oh(1), of a] g(1) [of a] by (simp add: q_same_def h3 upd_apply)
  show "store_inv st hash s' ?M ?Q R"
    unfolding store_inv_def e
  proof (intro conjI ballI)
    show "assoc_rep hash ?h3 a1 ?M" by (rule assoc_rep_frame [OF A1]) (simp add: k3 f1 g)
    show "assoc_wf a1" using oh(2) i(2) by simp
    show "lru_rep s' ?Q" by (rule lru_rep_frame [OF L2(1)]) (simp_all add: e q3)
    have "set (?Q d) = set (Q d) \<union> (if d = c then {it} else {})" for d by simp
    then show "(\<Union>d. set (?Q d)) = ran ?M" unfolding rM using i(4) by (auto split: if_splits)
    have "chunks_held ?h3 (held M R) = chunks_held ?h (held M R)" by (rule chunks_held_cong) (simp add: ITEM_clsid_def k3)
    then show "alloc_inv st (?h3, m_slabs s) (chunks_held ?h3 (held ?M R))"
      using alloc_inv_frame [OF i(5), of ?h3] out by (simp add: H)
    show "item_ok ?M R ?h3 x" if "x \<in> held ?M R" for x
      using i(6) [of x] that it hf3 [of x] unfolding item_ok_def rM H by (cases "x = it") (simp_all add: k3 fl unat_word_ariths)
    show "curr_items s + 1 = of_nat (card (ran ?M))" using i(7) it(1) finite_linked [OF inv] by (simp add: rM add.commute)
    show "curr_bytes s + ITEM_ntotal (?h it) = (\<Sum>x \<in> ran ?M. ITEM_ntotal (?h3 x))"
      using i(8) it(1) finite_linked [OF inv] by (simp add: rM nt3 add.commute)
  qed
  show "keeps s s' (held ?M R)" by (rule keepsI) (simp_all add: e k3 hf3)
qed

section \<open>Moving between the queues\<close>

text \<open>An item on its way from one queue to another: it is linked but in no queue.\<close>

definition store_out ::
  "settings \<Rightarrow> (byte list \<Rightarrow> u32) \<Rightarrow> mc \<Rightarrow> (byte list \<rightharpoonup> addr) \<Rightarrow> (byte \<Rightarrow> addr list) \<Rightarrow> (addr \<Rightarrow> nat) \<Rightarrow> addr \<Rightarrow> bool" where
  "store_out st hash s M Q R it \<longleftrightarrow> it \<in> ran M \<and>
     assoc_rep hash (m_heap s) (m_assoc s) M \<and> assoc_wf (m_assoc s) \<and> lru_rep s Q \<and> (\<Union>c. set (Q c)) = ran M - {it} \<and>
     alloc_inv st (m_heap s, m_slabs s) (chunks_held (m_heap s) (held M R)) \<and>
     (\<forall>x \<in> held M R. item_ok M R (m_heap s) x) \<and>
     curr_items s = of_nat (card (ran M)) \<and> curr_bytes s = (\<Sum>x \<in> ran M. ITEM_ntotal (m_heap s x))"

text \<open>Only the queue links change: everything but the queues stays as it is.\<close>

lemma links_rest:
  assumes ol: "only_links (m_heap s) (m_heap s')" and e: "m_assoc s' = m_assoc s" "m_slabs s' = m_slabs s"
      "curr_items s' = curr_items s" "curr_bytes s' = curr_bytes s"
    and out: "\<And>a. a \<notin> held M R \<Longrightarrow> m_heap s' a = m_heap s a"
    and i: "assoc_rep hash (m_heap s) (m_assoc s) M" "alloc_inv st (m_heap s, m_slabs s) (chunks_held (m_heap s) (held M R))"
      "\<forall>x \<in> held M R. item_ok M R (m_heap s) x" "curr_bytes s = (\<Sum>x \<in> ran M. ITEM_ntotal (m_heap s x))"
  shows "assoc_rep hash (m_heap s') (m_assoc s') M" "alloc_inv st (m_heap s', m_slabs s') (chunks_held (m_heap s') (held M R))"
    "\<forall>x \<in> held M R. item_ok M R (m_heap s') x" "curr_bytes s' = (\<Sum>x \<in> ran M. ITEM_ntotal (m_heap s' x))"
proof -
  note f = only_links_fields [OF ol]
  show "assoc_rep hash (m_heap s') (m_assoc s') M" unfolding e by (rule assoc_rep_frame [OF i(1)]) (simp add: f)
  have "chunks_held (m_heap s') (held M R) = chunks_held (m_heap s) (held M R)" by (rule chunks_held_cong) (simp add: ITEM_clsid_def f)
  then show "alloc_inv st (m_heap s', m_slabs s') (chunks_held (m_heap s') (held M R))"
    using alloc_inv_frame [OF i(2)] out by (simp add: e)
  show "\<forall>x \<in> held M R. item_ok M R (m_heap s') x" using i(3) by (simp add: item_ok_def has_flag_def f)
  show "curr_bytes s' = (\<Sum>x \<in> ran M. ITEM_ntotal (m_heap s' x))" using i(4) by (simp add: e f)
qed

lemma links_keeps: "only_links (m_heap s) (m_heap s') \<Longrightarrow> current_time s' = current_time s \<and> bump_bufs s' = bump_bufs s \<Longrightarrow> keeps s s' UNIV"
  by (rule keepsI) (simp_all add: only_links_fields has_flag_def)

lemma store_out_q:
  assumes inv: "store_inv st hash s M Q R" and it: "it \<in> ran M"
  defines "c \<equiv> slabs_clsid (m_heap s it)"
  shows "store_out st hash (do_item_unlink_q it s) M (Q(c := remove1 it (Q c))) R it" "keeps s (do_item_unlink_q it s) UNIV"
proof -
  note i = store_invD [OF inv]
  let ?s = "do_item_unlink_q it s" and ?Q = "Q(c := remove1 it (Q c))"
  have itq: "it \<in> set (Q c)" using linked_queue [OF inv it] by (simp add: c_def)
  note u = lru_unlink [OF i(3) itq]
  have ol: "only_links (m_heap s) (m_heap ?s)" using cut_q_only by (simp add: unlink_q_cut)
  then show "keeps s ?s UNIV" by (rule links_keeps) simp
  have "m_heap ?s a = m_heap s a" if "a \<notin> held M R" for a
  proof (rule u(2))
    show "a \<notin> set (remove1 it (Q c))" using that i(4) by (auto simp: held_def dest: notin_set_remove1)
  qed
  moreover have "\<forall>x \<in> held M R. item_ok M R (m_heap s) x" using i(6) by blast
  ultimately have r: "assoc_rep hash (m_heap ?s) (m_assoc ?s) M" "alloc_inv st (m_heap ?s, m_slabs ?s) (chunks_held (m_heap ?s) (held M R))"
      "\<forall>x \<in> held M R. item_ok M R (m_heap ?s) x" "curr_bytes ?s = (\<Sum>x \<in> ran M. ITEM_ntotal (m_heap ?s x))"
    using links_rest [OF ol _ _ _ _ _ i(1,5) _ i(8)] by simp_all
  have Q: "set (?Q d) = set (Q d) - {it}" for d
    using lru_repD(5) [OF i(3), of c] lru_rep_other [OF i(3) itq, of d] by (cases "d = c") (auto simp: set_remove1_eq)
  have "(\<Union>d. set (?Q d)) = ran M - {it}" unfolding Q using i(4) by blast
  then show "store_out st hash ?s M ?Q R it"
    unfolding store_out_def using r i(2,7) u(1) it by (intro conjI) simp_all
qed

lemma store_in_q:
  assumes out: "store_out st hash s M Q R it" and nn: "it \<noteq> NULL"
  defines "c \<equiv> slabs_clsid (m_heap s it)"
  shows "store_inv st hash (do_item_link_q it s) M (Q(c := it # Q c)) R" "keeps s (do_item_link_q it s) UNIV"
proof -
  let ?s = "do_item_link_q it s" and ?Q = "Q(c := it # Q c)"
  have i: "it \<in> ran M" "assoc_rep hash (m_heap s) (m_assoc s) M" "assoc_wf (m_assoc s)" "lru_rep s Q" "(\<Union>c. set (Q c)) = ran M - {it}"
    "alloc_inv st (m_heap s, m_slabs s) (chunks_held (m_heap s) (held M R))" "\<forall>x \<in> held M R. item_ok M R (m_heap s) x"
    "curr_items s = of_nat (card (ran M))" "curr_bytes s = (\<Sum>x \<in> ran M. ITEM_ntotal (m_heap s x))"
    using out by (auto simp: store_out_def)
  have nq: "it \<notin> set (Q d)" for d using i(5) by blast
  note l = lru_link [OF i(4) nn, folded c_def]
  note ol = link_q_only [of s it]
  then show "keeps s ?s UNIV" by (rule links_keeps) simp
  have "m_heap ?s a = m_heap s a" if "a \<notin> held M R" for a
  proof (rule l(2))
    show "it \<notin> set (Q c)" "a \<noteq> it" "a \<notin> set (Q c)" using nq that i(1,5) by (auto simp: held_def)
  qed
  note r = links_rest [OF ol _ _ _ _ this i(2,6,7,9)]
  have "set (?Q d) = set (Q d) \<union> (if d = c then {it} else {})" for d by simp
  then have "(\<Union>d. set (?Q d)) = ran M" using i(1,5) by (auto split: if_splits)
  then show "store_inv st hash ?s M ?Q R"
    unfolding store_inv_def using r i(3,8) l(1) nq by simp
qed

text \<open>A write to the item on its way, to its class byte among others.\<close>

lemma store_out_write:
  assumes out: "store_out st hash s M Q R it"
    and f: "\<And>x. key (f x) = key x \<and> h_next (f x) = h_next x \<and> ITEM_clsid (f x) = ITEM_clsid x \<and> refcount (f x) = refcount x \<and>
      nbytes (f x) = nbytes x \<and> it_data (f x) = it_data x \<and> cflags (f x) = cflags x \<and>
      (\<forall>g \<in> {ITEM_LINKED, ITEM_CHUNKED, ITEM_CAS, ITEM_CFLAGS}. has_flag (f x) g = has_flag x g)"
  shows "store_out st hash (m_upd it f s) M Q R it" "keeps s (m_upd it f s) UNIV"
proof -
  have i: "it \<in> ran M" "assoc_rep hash (m_heap s) (m_assoc s) M" "assoc_wf (m_assoc s)" "lru_rep s Q" "(\<Union>c. set (Q c)) = ran M - {it}"
    "alloc_inv st (m_heap s, m_slabs s) (chunks_held (m_heap s) (held M R))" "\<forall>x \<in> held M R. item_ok M R (m_heap s) x"
    "curr_items s = of_nat (card (ran M))" "curr_bytes s = (\<Sum>x \<in> ran M. ITEM_ntotal (m_heap s x))"
    using out by (auto simp: store_out_def)
  let ?s = "m_upd it f s"
  have e: "m_assoc ?s = m_assoc s" "m_slabs ?s = m_slabs s" "curr_items ?s = curr_items s" "curr_bytes ?s = curr_bytes s"
    "current_time ?s = current_time s" "bump_bufs ?s = bump_bufs s" "heads ?s = heads s" "tails ?s = tails s" "sizes ?s = sizes s" "sizes_bytes ?s = sizes_bytes s"
    by (simp_all add: m_upd_def)
  have nt: "ITEM_ntotal (f x) = ITEM_ntotal x" for x by (rule ntotal_cong) (use f [of x] in auto)
  note fi = f [of "m_heap s it"]
  show "keeps s ?s UNIV" by (rule keepsI) (use fi in \<open>auto simp: e upd_apply\<close>)
  have A: "assoc_rep hash (m_heap ?s) (m_assoc s) M" by (rule assoc_rep_frame [OF i(2)]) (use fi in \<open>simp add: upd_apply\<close>)
  have L: "lru_rep ?s Q"
  proof (rule lru_rep_frame [OF i(4)])
    fix c x assume "x \<in> set (Q c)"
    then have "x \<noteq> it" using i(5) by blast
    then show "q_same (m_heap s x) (m_heap ?s x)" by (simp add: upd_apply q_same_def)
  qed (simp_all add: e)
  have "chunks_held (m_heap ?s) (held M R) = chunks_held (m_heap s) (held M R)"
    by (rule chunks_held_cong) (use fi in \<open>simp add: upd_apply\<close>)
  moreover have "m_heap ?s a = m_heap s a" if "a \<notin> held M R" for a using that ran_held [OF i(1), of R] by (auto simp: upd_apply)
  ultimately have "alloc_inv st (m_heap ?s, m_slabs s) (chunks_held (m_heap ?s) (held M R))"
    using alloc_inv_frame [OF i(6), of "m_heap ?s"] by simp
  moreover have "item_ok M R (m_heap ?s) x" if "x \<in> held M R" for x
    using i(7) that fi unfolding item_ok_def by (cases "x = it") (simp_all add: upd_apply)
  moreover have "(\<Sum>x \<in> ran M. ITEM_ntotal (m_heap ?s x)) = (\<Sum>x \<in> ran M. ITEM_ntotal (m_heap s x))"
    by (rule sum.cong) (simp_all add: upd_apply nt)
  ultimately show "store_out st hash ?s M Q R it" unfolding store_out_def e using i A L by simp
qed

end
