(* ===== verification/Items_Ops.thy ===== *)
theory Items_Ops
  imports Items_Inv
begin

unbundle bit_operations_syntax

text \<open>
  The operations of \<open>items.c\<close> that combine linking, unlinking and reference counts keep the state consistent
  and return: updates, the walk up the tail of a queue, allocation with eviction.
\<close>

section \<open>Harmless writes\<close>

lemma flag_time [simp]: "has_flag (x\<lparr>time := t\<rparr>) g = has_flag x g" "has_flag (x\<lparr>exptime := t\<rparr>) g = has_flag x g"
  "has_flag (x\<lparr>refcount := r\<rparr>) g = has_flag x g" "has_flag (x\<lparr>slabs_clsid := c\<rparr>) g = has_flag x g"
  "has_flag (x\<lparr>it_data := d\<rparr>) g = has_flag x g"
  by (simp_all add: has_flag_def)

lemma harmless_writes [simp]:
  "harmless (\<lambda>x. x\<lparr>time := t\<rparr>)" "harmless (\<lambda>x. x\<lparr>exptime := t\<rparr>)" "harmless (\<lambda>x. x\<lparr>it_data := d\<rparr>)"
  "harmless (set_flag ITEM_ACTIVE)" "harmless (set_flag ITEM_FETCHED)" "harmless (clear_flag ITEM_ACTIVE)"
  by (simp_all add: harmless_def has_flag_set has_flag_clear)

lemma keeps_write:
  assumes "harmless f" "\<And>x. it_data (f x) = it_data x \<and> cflags (f x) = cflags x"
  shows "keeps s (m_upd it f s) H"
proof (rule keepsI)
  note f = assms(1) [unfolded harmless_def, rule_format]
  show "current_time (m_upd it f s) = current_time s \<and> bump_bufs (m_upd it f s) = bump_bufs s" by (simp add: m_upd_def)
  show "key (m_heap (m_upd it f s) x) = key (m_heap s x) \<and> it_data (m_heap (m_upd it f s) x) = it_data (m_heap s x) \<and>
      cflags (m_heap (m_upd it f s) x) = cflags (m_heap s x) \<and> nbytes (m_heap (m_upd it f s) x) = nbytes (m_heap s x) \<and>
      has_flag (m_heap (m_upd it f s) x) ITEM_CFLAGS = has_flag (m_heap s x) ITEM_CFLAGS" for x
    using f [of "m_heap s it"] assms(2) by (simp add: upd_apply)
qed

lemma time_stats [simp]: "current_time (upd_stats i g s) = current_time s" "current_time (m_upd it f s) = current_time s"
  "bump_bufs (upd_stats i g s) = bump_bufs s" "bump_bufs (m_upd it f s) = bump_bufs s"
  by (simp_all add: upd_stats_def m_upd_def)

text \<open>Changing the queue in the class byte keeps the slab class.\<close>

lemma clsid_requeue: "m AND NOT 192 = 0 \<Longrightarrow> ITEM_clsid (x\<lparr>slabs_clsid := ITEM_clsid x OR m\<rparr>) = ITEM_clsid x"
proof -
  assume m: "m AND NOT 192 = 0"
  have "bit (m AND NOT 192) n = False" for n unfolding m by simp
  then have "((slabs_clsid x AND NOT 192) OR m) AND NOT 192 = slabs_clsid x AND NOT 192"
    by (intro bit_word_eqI) (auto simp: bit_simps)
  then show ?thesis by (simp add: ITEM_clsid_def)
qed

section \<open>Updates\<close>

lemma store_warm: "store_inv st hash (do_item_link_q it s) M Q R \<Longrightarrow> store_inv st hash (item_link_q_warm it s) M Q R"
  unfolding item_link_q_warm_def Let_def by (erule store_cong) simp_all

lemma store_update:
  assumes inv: "store_inv st hash s M Q R" and it: "it \<in> held M R"
  shows "\<exists>Q'. store_inv st hash (do_item_update st it s) M Q' R" "keeps s (do_item_update st it s) UNIV"
proof -
  let ?x = "m_heap s it" and ?t = "m_upd it (\<lambda>x. x\<lparr>time := current_time s\<rparr>) s"
  have l: "has_flag ?x ITEM_LINKED \<longleftrightarrow> it \<in> ran M" using store_invD(6) [OF inv it] by (simp add: item_ok_def)
  have nn: "it \<noteq> NULL" using held_nonnull [OF inv it] .
  have t: "store_inv st hash ?t M Q R" "keeps s ?t UNIV"
    using harmless_write [OF inv it, of "\<lambda>x. x\<lparr>time := current_time s\<rparr>"] keeps_write [of "\<lambda>x. x\<lparr>time := current_time s\<rparr>"] by simp_all
  let ?c = "slabs_clsid (m_heap ?t it)"
  let ?f = "\<lambda>x. clear_flag ITEM_ACTIVE (x\<lparr>slabs_clsid := ITEM_clsid x OR WARM_LRU\<rparr>)"
  have o: "store_out st hash (do_item_unlink_q it ?t) M (Q(?c := remove1 it (Q ?c))) R it" "keeps s (do_item_unlink_q it ?t) UNIV" if "it \<in> ran M"
    using store_out_q [OF t(1) that] keeps_trans [OF t(2)] by simp_all
  have w: "store_out st hash (m_upd it ?f (do_item_unlink_q it ?t)) M (Q(?c := remove1 it (Q ?c))) R it"
      "keeps s (m_upd it ?f (do_item_unlink_q it ?t)) UNIV" if "it \<in> ran M"
  proof -
    have "ITEM_clsid (?f x) = ITEM_clsid x" for x using clsid_requeue [of WARM_LRU x] by simp
    then show "store_out st hash (m_upd it ?f (do_item_unlink_q it ?t)) M (Q(?c := remove1 it (Q ?c))) R it"
        "keeps s (m_upd it ?f (do_item_unlink_q it ?t)) UNIV"
      using store_out_write [OF o(1) [OF that], of ?f] keeps_trans [OF o(2) [OF that]] by (simp_all add: has_flag_clear)
  qed
  have "(\<exists>Q'. store_inv st hash (do_item_update st it s) M Q' R) \<and> keeps s (do_item_update st it s) UNIV"
  proof (cases "it \<in> ran M")
    case False
    then show ?thesis using inv l by (auto simp: do_item_update_def Let_def)
  next
    case True
    note in1 = store_in_q [OF w(1) [OF True] nn] and in2 = store_in_q [OF o(1) [OF True] nn]
    have k: "keeps s (do_item_link_q it (m_upd it ?f (do_item_unlink_q it ?t))) UNIV" "keeps s (do_item_link_q it (do_item_unlink_q it ?t)) UNIV"
      using keeps_trans [OF w(2) [OF True] in1(2)] keeps_trans [OF o(2) [OF True] in2(2)] by simp_all
    have "\<exists>Q'. store_inv st hash (item_link_q_warm it (m_upd it ?f (do_item_unlink_q it ?t))) M Q' R"
      using store_warm [OF in1(1)] by blast
    moreover have "keeps s (item_link_q_warm it (m_upd it ?f (do_item_unlink_q it ?t))) UNIV"
      using k(1) by (simp add: item_link_q_warm_def Let_def keeps_def)
    ultimately show ?thesis
      using True l inv t in2(1) k(2) unfolding do_item_update_def Let_def by (auto simp: Let_def)
  qed
  then show "\<exists>Q'. store_inv st hash (do_item_update st it s) M Q' R" "keeps s (do_item_update st it s) UNIV" by blast+
qed

section \<open>The tail of a queue\<close>

text \<open>The item the walk stopped at: it has a reference more, and may be on its way to another queue.\<close>

definition pulled ::
  "settings \<Rightarrow> (byte list \<Rightarrow> u32) \<Rightarrow> mc \<Rightarrow> (byte list \<rightharpoonup> addr) \<Rightarrow> (byte \<Rightarrow> addr list) \<Rightarrow> (addr \<Rightarrow> nat) \<Rightarrow> addr \<Rightarrow> byte \<Rightarrow> bool" where
  "pulled st hash s M Q R x mv \<longleftrightarrow>
     (if mv = 0 then store_inv st hash s M Q (R(x := R x + 1))
      else mv AND NOT 192 = 0 \<and> x \<noteq> NULL \<and> store_out st hash s M Q (R(x := R x + 1)) x)"

lemma release_ref:
  assumes "store_inv st hash s M Q (R(x := R x + 1))"
  shows "\<exists>s'. do_item_remove x s = Some s' \<and> store_inv st hash s' M Q R \<and> keeps s s' (held M R)"
  using store_remove [OF assms, of x] by simp

lemma pull_finish_ok:
  assumes fl: "pa_flags a AND LRU_PULL_RETURN_ITEM = 0" and p: "pulled st hash s M Q R (p_it p) (p_move p)" "p_it p \<noteq> NULL"
  shows "\<exists>s' Q'. pull_finish a p s = Some s' \<and> store_inv st hash s' M Q' R \<and> keeps s s' (held M R)"
proof (cases "p_move p = 0")
  case True
  then show ?thesis using p fl release_ref [of st hash s M Q R "p_it p"] by (auto simp: pulled_def pull_finish_def)
next
  case False
  let ?f = "\<lambda>x. x\<lparr>slabs_clsid := ITEM_clsid x OR p_move p\<rparr>" and ?x = "p_it p"
  let ?s1 = "m_upd ?x ?f s"
  have o: "store_out st hash s M Q (R(?x := R ?x + 1)) ?x" "p_move p AND NOT 192 = 0" using p False by (auto simp: pulled_def)
  have w: "store_out st hash ?s1 M Q (R(?x := R ?x + 1)) ?x" "keeps s ?s1 UNIV"
    by (rule store_out_write [OF o(1)]; use clsid_requeue [OF o(2)] in simp)+
  note q = store_in_q [OF w(1) p(2)]
  obtain s' where s': "do_item_remove ?x (do_item_link_q ?x ?s1) = Some s'"
      "store_inv st hash s' M (Q(slabs_clsid (m_heap ?s1 ?x) := ?x # Q (slabs_clsid (m_heap ?s1 ?x)))) R"
      "keeps (do_item_link_q ?x ?s1) s' (held M R)"
    using release_ref [OF q(1)] by blast
  have "keeps s s' (held M R)" using keeps_trans [OF keeps_trans [OF w(2) q(2)] s'(3)] by blast
  then show ?thesis using s' False p(2) fl by (auto simp: pull_finish_def Let_def)
qed

text \<open>An item is unlinked for good; the caller's reference goes too.\<close>

lemma unlink_and_release:
  assumes inv: "store_inv st hash s M Q (R(x := R x + 1))" and x: "x \<in> ran M"
  defines "k \<equiv> key (m_heap s x)" and "c \<equiv> slabs_clsid (m_heap s x)"
  shows "\<exists>s1 s'. do_item_unlink x (hash k) s = Some s1 \<and> do_item_remove x s1 = Some s' \<and>
    store_inv st hash s1 (M(k := None)) (Q(c := remove1 x (Q c))) (R(x := R x + 1)) \<and>
    store_inv st hash s' (M(k := None)) (Q(c := remove1 x (Q c))) R \<and> keeps s s' (held (M(k := None)) R) \<and>
    keeps s s1 (held (M(k := None)) R)"
proof -
  let ?M = "M(k := None)" and ?Q = "Q(c := remove1 x (Q c))"
  obtain s1 where 1: "do_item_unlink x (hash k) s = Some s1" "store_inv st hash s1 ?M ?Q (R(x := R x + 1))"
      "keeps s s1 (held ?M (R(x := R x + 1)))"
    using store_unlink [OF inv x] unfolding k_def c_def by blast
  obtain s' where 2: "do_item_remove x s1 = Some s'" "store_inv st hash s' ?M ?Q R" "keeps s1 s' (held ?M R)"
    using release_ref [OF 1(2)] by blast
  have sub: "held ?M R \<subseteq> held ?M (R(x := R x + 1))" by (auto simp: held_def)
  then have "keeps s s' (held ?M R)" using keeps_trans [OF 1(3) 2(3)] by blast
  moreover have "keeps s s1 (held ?M R)" using keeps_sub [OF 1(3) sub] .
  ultimately show ?thesis using 1 2 by blast
qed

lemma mapped_key:
  assumes "store_inv st hash s M Q R" "M k = Some x"
  shows "key (m_heap s x) = k"
  using store_invD(1) [OF assms(1)] assms(2) by (auto elim: assoc_repE)

text \<open>What an eviction may do to the cache: items of \<open>K\<close> stay.\<close>

definition evicts :: "addr set \<Rightarrow> (byte list \<rightharpoonup> addr) \<Rightarrow> (byte list \<rightharpoonup> addr) \<Rightarrow> bool" where
  "evicts K M M' \<longleftrightarrow> M' \<subseteq>\<^sub>m M \<and> (\<forall>k x. x \<in> K \<longrightarrow> M k = Some x \<longrightarrow> M' k = Some x)"

lemma evicts_refl: "evicts K M M"
  by (simp add: evicts_def)

lemma evicts_trans: "evicts K M2 M3 \<Longrightarrow> evicts K M1 M2 \<Longrightarrow> evicts K M1 M3"
  unfolding evicts_def using map_le_trans by blast

lemma evicts_le: "evicts K M M' \<Longrightarrow> M' \<subseteq>\<^sub>m M"
  by (simp add: evicts_def)

lemma evicts_mono: "evicts K M M' \<Longrightarrow> K' \<subseteq> K \<Longrightarrow> evicts K' M M'"
  unfolding evicts_def by blast

lemma unlink_le: "M(k := None) \<subseteq>\<^sub>m M"
  by (simp add: map_le_def)

lemma evicts_unlink:
  assumes "store_inv st hash s M Q R" "x \<in> ran M"
  shows "evicts (- {x}) M (M(key (m_heap s x) := None))"
proof -
  obtain k where "M k = Some x" using assms(2) by (auto simp: ran_def)
  then have "M (key (m_heap s x)) = Some x" using mapped_key [OF assms(1)] by auto
  then show ?thesis by (auto simp: evicts_def unlink_le)
qed

definition pull_good ::
  "settings \<Rightarrow> (byte list \<Rightarrow> u32) \<Rightarrow> pull_args \<Rightarrow> addr \<Rightarrow> mc \<Rightarrow> (byte list \<rightharpoonup> addr) \<Rightarrow> (byte \<Rightarrow> addr list) \<Rightarrow> (addr \<Rightarrow> nat) \<Rightarrow>
   (pull \<times> mc) option \<Rightarrow> bool" where
  "pull_good st hash a search s M Q R r \<longleftrightarrow> (\<exists>p' s' M' Q'. r = Some (p', s') \<and> evicts (- {search}) M M' \<and> keeps s s' (held M' R) \<and>
     (if p_it p' = NULL then store_inv st hash s' M' Q' R \<and> p_move p' = 0 \<and> set (Q (pull_id a)) - {search} \<subseteq> set (Q' (pull_id a))
      else p_it p' = search \<and> pulled st hash s' M' Q' R search (p_move p')))"

lemma pull_goodI:
  assumes "r = Some (p', s')" "evicts (- {search}) M M'" "keeps s s' (held M' R)"
    and "if p_it p' = NULL then store_inv st hash s' M' Q' R \<and> p_move p' = 0 \<and> set (Q (pull_id a)) - {search} \<subseteq> set (Q' (pull_id a))
      else p_it p' = search \<and> pulled st hash s' M' Q' R search (p_move p')"
  shows "pull_good st hash a search s M Q R r"
  using assms unfolding pull_good_def by blast

lemma rest_queue: "set xs - {x} \<subseteq> set (remove1 x xs)"
  by (metis Diff_iff in_set_remove1 singletonI subsetI)

lemma pull_hot_warm_ok:
  assumes inv: "store_inv st hash s M Q (R(search := R search + 1))" and m: "search \<in> ran M"
    and cl: "slabs_clsid (m_heap s search) = pull_id a" and p: "p_it p = NULL" "p_move p = 0"
  shows "pull_good st hash a search s M Q R (pull_hot_warm st a search p s)"
proof -
  let ?R = "R(search := R search + 1)" and ?i = "pull_id a"
  have h: "search \<in> held M ?R" using ran_held [OF m] .
  have nn: "search \<noteq> NULL" using held_nonnull [OF inv h] .
  let ?c = "m_upd search (clear_flag ITEM_ACTIVE) s"
  have c: "store_inv st hash (upd_stats ?i g ?c) M Q ?R" "keeps s (upd_stats ?i g ?c) UNIV" for g
  proof -
    show "store_inv st hash (upd_stats ?i g ?c) M Q ?R"
      using store_cong [OF harmless_write [OF inv h, of "clear_flag ITEM_ACTIVE"]] by simp
    have "keeps s ?c UNIV" by (rule keeps_write) simp_all
    then show "keeps s (upd_stats ?i g ?c) UNIV" by (simp add: keeps_def)
  qed
  have cc: "slabs_clsid (m_heap (upd_stats ?i g ?c) search) = ?i" for g using cl by (simp add: upd_apply)
  have d: "store_inv st hash (upd_stats ?i g s) M Q ?R" for g using store_cong [OF inv] by simp
  note oc = store_out_q [OF c(1) m, unfolded cc] and od = store_out_q [OF d m, unfolded stats_heap cl]
  define p1 where "p1 = p\<lparr>p_limit := (let limit = (if pa_lru a = HOT_LRU then pa_total_bytes a * of_nat (hot_lru_pct st) div 100 else p_limit p)
    in if limit = 0 then pa_total_bytes a * of_nat (warm_lru_pct st) div 100 else limit)\<rparr>"
  have p1: "p_it p1 = NULL" "p_move p1 = 0" using p by (simp_all add: p1_def)
  consider (within) "has_flag (m_heap s search) ITEM_ACTIVE" "pa_lru a = WARM_LRU"
    | (warm) "has_flag (m_heap s search) ITEM_ACTIVE" "pa_lru a \<noteq> WARM_LRU"
    | (cold) "\<not> has_flag (m_heap s search) ITEM_ACTIVE" "sizes_bytes s ?i > p_limit p1 \<or> current_time s - time (m_heap s search) > pa_max_age a"
    | (stay) "\<not> has_flag (m_heap s search) ITEM_ACTIVE" "\<not> (sizes_bytes s ?i > p_limit p1 \<or> current_time s - time (m_heap s search) > pa_max_age a)"
    by blast
  then show ?thesis
  proof cases
    case within
    let ?s = "upd_stats ?i (\<lambda>y. y\<lparr>moves_within_lru := moves_within_lru y + 1\<rparr>) ?c"
    note o = oc [of "\<lambda>y. y\<lparr>moves_within_lru := moves_within_lru y + 1\<rparr>"]
    have "slabs_clsid (m_heap (do_item_unlink_q search ?s) search) = ?i"
      using only_links_fields(7) [OF cut_q_only [of ?s search], of search] cc by (simp add: unlink_q_cut)
    note q = store_in_q [OF o(1) nn, unfolded this]
    obtain s' where s': "do_item_remove search (do_item_link_q search (do_item_unlink_q search ?s)) = Some s'"
        "store_inv st hash s' M (Q(?i := search # remove1 search (Q ?i))) R"
        "keeps (do_item_link_q search (do_item_unlink_q search ?s)) s' (held M R)"
      using release_ref [OF q(1)] by auto
    have k: "keeps s s' (held M R)"
      using keeps_trans [OF keeps_trans [OF keeps_trans [OF c(2) o(2)] q(2)] s'(3)] by blast
    show ?thesis
    proof (rule pull_goodI [OF _ evicts_refl k])
      show "pull_hot_warm st a search p s = Some (p1\<lparr>p_removed := p_removed p1 + 1\<rparr>, s')"
        using within s'(1) by (simp add: pull_hot_warm_def p1_def Let_def)
      have "set (Q ?i) - {search} \<subseteq> set (search # remove1 search (Q ?i))" by (auto simp: in_set_remove1)
      then show "if p_it (p1\<lparr>p_removed := p_removed p1 + 1\<rparr>) = NULL then store_inv st hash s' M (Q(?i := search # remove1 search (Q ?i))) R \<and>
          p_move (p1\<lparr>p_removed := p_removed p1 + 1\<rparr>) = 0 \<and> set (Q ?i) - {search} \<subseteq> set ((Q(?i := search # remove1 search (Q ?i))) ?i)
        else p_it (p1\<lparr>p_removed := p_removed p1 + 1\<rparr>) = search \<and>
          pulled st hash s' M (Q(?i := search # remove1 search (Q ?i))) R search (p_move (p1\<lparr>p_removed := p_removed p1 + 1\<rparr>))"
        using s'(2) p1 by simp
    qed
  next
    case warm
    let ?g = "\<lambda>y. y\<lparr>moves_to_warm := moves_to_warm y + 1\<rparr>"
    show ?thesis
      by (rule pull_goodI [where p' = "p1\<lparr>p_removed := p_removed p1 + 1, p_move := WARM_LRU, p_it := search\<rparr>" and
            s' = "do_item_unlink_q search (upd_stats ?i ?g ?c)" and M' = M and Q' = "Q(?i := remove1 search (Q ?i))"])
        (use evicts_refl warm nn oc [of ?g] keeps_trans [OF c(2) [of ?g] oc(2) [of ?g]] in \<open>simp_all add: pull_hot_warm_def p1_def Let_def pulled_def\<close>)
  next
    case cold
    let ?g = "\<lambda>y. y\<lparr>moves_to_cold := moves_to_cold y + 1\<rparr>"
    have k: "keeps s (do_item_unlink_q search (upd_stats ?i ?g s)) (held M R)"
      using od(2) [of ?g] by (simp add: keeps_def)
    show ?thesis
      by (rule pull_goodI [where p' = "p1\<lparr>p_move := COLD_LRU, p_it := search, p_removed := p_removed p1 + 1\<rparr>" and
            s' = "do_item_unlink_q search (upd_stats ?i ?g s)" and M' = M and Q' = "Q(?i := remove1 search (Q ?i))"])
        (use evicts_refl cold nn od [of ?g] k in \<open>simp_all add: pull_hot_warm_def p1_def Let_def pulled_def\<close>)
  next
    case stay
    show ?thesis
      by (rule pull_goodI [where p' = "p1\<lparr>p_it := search\<rparr>" and s' = s and M' = M and Q' = Q])
        (use evicts_refl stay nn p1 inv in \<open>simp_all add: pull_hot_warm_def p1_def Let_def pulled_def\<close>)
  qed
qed

lemma pull_cold_ok:
  assumes inv: "store_inv st hash s M Q (R(search := R search + 1))" and m: "search \<in> ran M"
    and cl: "slabs_clsid (m_heap s search) = pull_id a" and p: "p_it p = NULL" "p_move p = 0" and hv: "hv = hash (key (m_heap s search))"
    and fl: "pa_flags a AND LRU_PULL_RETURN_ITEM = 0"
  shows "pull_good st hash a search s M Q R (pull_cold st a search hv p s)"
proof -
  let ?R = "R(search := R search + 1)" and ?i = "pull_id a" and ?p = "p\<lparr>p_it := search\<rparr>"
  have h: "search \<in> held M ?R" using ran_held [OF m] .
  have nn: "search \<noteq> NULL" using held_nonnull [OF inv h] .
  have stay: "pull_good st hash a search s M Q R (Some (?p, s))"
    by (rule pull_goodI [where p' = ?p and s' = s and M' = M and Q' = Q]) (use nn p inv evicts_refl in \<open>simp_all add: pulled_def\<close>)
  consider (noevict) "pa_flags a AND LRU_PULL_EVICT \<noteq> 0" "\<not> evict_to_free st"
    | (evict) "pa_flags a AND LRU_PULL_EVICT \<noteq> 0" "evict_to_free st"
    | (move) "pa_flags a AND LRU_PULL_EVICT = 0" "has_flag (m_heap s search) ITEM_ACTIVE \<and> lru_segmented st"
    | (rest) "pa_flags a AND LRU_PULL_EVICT = 0" "\<not> (has_flag (m_heap s search) ITEM_ACTIVE \<and> lru_segmented st)"
    by blast
  then show ?thesis
  proof cases
    case noevict
    then show ?thesis using stay by (simp add: pull_cold_def Let_def)
  next
    case evict
    let ?k = "key (m_heap s search)" and ?s = "upd_stats ?i (evict_stats (current_time s) (m_heap s search)) s"
    have i: "store_inv st hash ?s M Q ?R" using store_cong [OF inv] by simp
    obtain s1 where 1: "do_item_unlink search (hash ?k) ?s = Some s1" "store_inv st hash s1 (M(?k := None)) (Q(?i := remove1 search (Q ?i))) ?R"
        "keeps ?s s1 (held (M(?k := None)) ?R)"
      using store_unlink [OF i m] cl by auto
    define s2 where "s2 = (if slab_automove_mode st = 2
       then s1\<lparr>m_rebal := snd (slabs_reassign (pa_rebal a) (m_slabs s1) (-1) (int (pa_id a)) (m_rebal s1))\<rparr> else s1)"
    have i2: "store_inv st hash s2 (M(?k := None)) (Q(?i := remove1 search (Q ?i))) ?R"
      by (rule store_cong [OF 1(2)]) (simp_all add: s2_def mc_same_def)
    have "held (M(?k := None)) R \<subseteq> held (M(?k := None)) ?R" by (auto simp: held_def)
    then have "keeps s s1 (held (M(?k := None)) R)" using keeps_sub [OF 1(3)] by (simp add: keeps_def)
    then have k: "keeps s s2 (held (M(?k := None)) R)" by (simp add: keeps_def s2_def)
    show ?thesis
      by (rule pull_goodI [where p' = "?p\<lparr>p_removed := p_removed p + 1\<rparr>" and s' = s2 and M' = "M(?k := None)" and Q' = "Q(?i := remove1 search (Q ?i))"])
        (use evict nn p k i2 1(1) evicts_unlink [OF inv m] in \<open>simp_all add: pulled_def pull_cold_def Let_def do_item_unlink_nolock_def hv s2_def\<close>)
  next
    case move
    let ?s = "m_upd search (clear_flag ITEM_ACTIVE) (upd_stats ?i (\<lambda>y. y\<lparr>moves_to_warm := moves_to_warm y + 1\<rparr>) s)"
    have u: "store_inv st hash (upd_stats ?i (\<lambda>y. y\<lparr>moves_to_warm := moves_to_warm y + 1\<rparr>) s) M Q ?R" using store_cong [OF inv] by simp
    have i: "store_inv st hash ?s M Q ?R" by (rule harmless_write [OF u h]) simp
    have "slabs_clsid (m_heap ?s search) = ?i" using cl by (simp add: upd_apply)
    note o = store_out_q [OF i m, unfolded this]
    have "keeps (upd_stats ?i (\<lambda>y. y\<lparr>moves_to_warm := moves_to_warm y + 1\<rparr>) s) ?s UNIV" by (rule keeps_write) simp_all
    then have "keeps s ?s UNIV" by (simp add: keeps_def)
    then have k: "keeps s (do_item_unlink_q search ?s) (held M R)" using keeps_trans [OF _ o(2)] by blast
    show ?thesis
      by (rule pull_goodI [where p' = "?p\<lparr>p_move := WARM_LRU, p_removed := p_removed p + 1\<rparr>" and s' = "do_item_unlink_q search ?s" and M' = M and
            Q' = "Q(?i := remove1 search (Q ?i))"])
        (use evicts_refl move nn p k o(1) fl in \<open>simp_all add: pulled_def pull_cold_def Let_def\<close>)
  next
    case rest
    then show ?thesis using stay fl by (auto simp: pull_cold_def Let_def)
  qed
qed

text \<open>
  The four queues, the flags without \<open>LRU_PULL_RETURN_ITEM\<close> (it is for external storage only), no repair of
  leaked reference counts (off by default; the source warns that it may corrupt memory).
\<close>

definition pull_ok :: "settings \<Rightarrow> pull_args \<Rightarrow> bool" where
  "pull_ok st a \<longleftrightarrow> pa_lru a \<in> {HOT_LRU, WARM_LRU, COLD_LRU, TEMP_LRU} \<and> pa_flags a AND LRU_PULL_RETURN_ITEM = 0 \<and> tail_repair_time st = 0"

lemma pull_item_ok:
  assumes inv: "store_inv st hash s M Q R" and m: "search \<in> set (Q (pull_id a))" and ok: "pull_ok st a"
    and r: "R search < 65000" and p: "p_it p = NULL" "p_move p = 0" and hv: "hv = hash (key (m_heap s search))"
  shows "pull_good st hash a search s M Q R (pull_item st a search hv p s)"
proof -
  let ?R = "R(search := R search + 1)" and ?i = "pull_id a"
  have ran: "search \<in> ran M" using store_invD(4) [OF inv] m by blast
  have cl: "slabs_clsid (m_heap s search) = ?i" using lru_repD(2) [OF store_invD(3) [OF inv] m] .
  define s0 where "s0 = snd (refcount_incr search s)"
  define s1 where "s1 = (if fst (refcount_incr search s) \<noteq> 2
     then upd_stats ?i (\<lambda>y. y\<lparr>lrutail_reflocked := lrutail_reflocked y + 1\<rparr>) s0 else s0)"
  note inc = store_incr [OF inv ran_held [OF ran] r, folded s0_def]
  have hs: "m_heap s1 = m_heap s0" by (simp add: s1_def)
  have i1: "store_inv st hash s1 M Q ?R" by (rule store_cong [OF inc(1)]) (simp_all add: s1_def mc_same_def [of s0 s0])
  have k1: "keeps s s1 UNIV" using inc(2) hs by (simp add: keeps_def s1_def)
  have cl1: "slabs_clsid (m_heap s1 search) = ?i" and ky: "key (m_heap s1 search) = key (m_heap s search)"
    using cl by (simp_all add: hs s0_def refcount_incr_def upd_apply)
  have lift: "pull_good st hash a search s M Q R res" if g: "pull_good st hash a search s1 M Q R res" for res
    using g keeps_trans [OF k1] unfolding pull_good_def by (elim exE conjE) (metis (no_types, lifting) subset_UNIV subset_refl)
  let ?gone = "(exptime (m_heap s1 search) \<noteq> 0 \<and> exptime (m_heap s1 search) < current_time s1) \<or> item_is_flushed st (current_time s1) (m_heap s1 search)"
  have run: "pull_item st a search hv p s =
     (if ?gone then do {
        let s2 = upd_stats ?i (\<lambda>y. y\<lparr>reclaimed := reclaimed y + 1,
            expired_unfetched := expired_unfetched y + (if has_flag (m_heap s1 search) ITEM_FETCHED then 0 else 1)\<rparr>) s1;
        s3 \<leftarrow> do_item_unlink search hv s2;
        s4 \<leftarrow> do_item_remove search s3;
        Some (p\<lparr>p_removed := p_removed p + 1\<rparr>, s4)
      } else pull_switch st a search hv p s1)"
    using ok by (simp only: pull_item_def pull_ok_def Let_def case_prod_beta s0_def [symmetric] s1_def [symmetric]
        simp_thms if_False do_item_unlink_nolock_def)
  show ?thesis
  proof (cases ?gone)
    case True
    define s2 where "s2 = upd_stats ?i (\<lambda>y. y\<lparr>reclaimed := reclaimed y + 1,
            expired_unfetched := expired_unfetched y + (if has_flag (m_heap s1 search) ITEM_FETCHED then 0 else 1)\<rparr>) s1"
    have i2: "store_inv st hash s2 M Q ?R" by (rule store_cong [OF i1]) (simp_all add: s2_def)
    have h2: "m_heap s2 = m_heap s1" by (simp add: s2_def)
    let ?k = "key (m_heap s search)"
    obtain s3 s4 where u: "do_item_unlink search (hash ?k) s2 = Some s3" "do_item_remove search s3 = Some s4"
        "store_inv st hash s4 (M(?k := None)) (Q(?i := remove1 search (Q ?i))) R" "keeps s2 s4 (held (M(?k := None)) R)"
      using unlink_and_release [OF i2 ran] unfolding h2 cl1 ky by blast
    have k: "keeps s1 s4 (held (M(?k := None)) R)" using u(4) by (simp add: keeps_def s2_def)
    have "pull_good st hash a search s1 M Q R (Some (p\<lparr>p_removed := p_removed p + 1\<rparr>, s4))"
      by (rule pull_goodI [where p' = "p\<lparr>p_removed := p_removed p + 1\<rparr>" and s' = s4 and M' = "M(?k := None)" and Q' = "Q(?i := remove1 search (Q ?i))"])
        (use p k u(3) evicts_unlink [OF inv ran] rest_queue [of "Q ?i" search] in simp_all)
    then show ?thesis using lift run True u(1,2) by (simp add: s2_def hv Let_def)
  next
    case False
    have "pull_good st hash a search s1 M Q R (Some (p\<lparr>p_it := search\<rparr>, s1))"
      by (rule pull_goodI [where p' = "p\<lparr>p_it := search\<rparr>" and s' = s1 and M' = M and Q' = Q])
        (use evicts_refl p i1 held_nonnull [OF inv ran_held [OF ran]] in \<open>simp_all add: pulled_def\<close>)
    then have "pull_good st hash a search s1 M Q R (pull_switch st a search hv p s1)"
      using pull_hot_warm_ok [OF i1 ran cl1 p] pull_cold_ok [OF i1 ran cl1 p, of hv] ok hv ky
      by (auto simp: pull_switch_def pull_ok_def)
    then show ?thesis using lift run False by auto
  qed
qed

lemma not_crawler:
  assumes "store_inv st hash s M Q R" "x \<in> set (Q c)"
  shows "\<not> is_crawler (m_heap s x)"
proof -
  have "x \<in> held M R" using assms store_invD(4) [OF assms(1)] by (auto simp: held_def)
  then have "2 \<le> nbytes (m_heap s x)" using store_invD(6) [OF assms(1)] by (simp add: item_ok_def)
  then show ?thesis by (simp add: is_crawler_def)
qed

lemma prev_queue:
  assumes "lru_rep s Q" "x \<in> set (Q c)"
  shows "prev (m_heap s x) = NULL \<or> (prev (m_heap s x) \<in> set (Q c) \<and> prev (m_heap s x) \<noteq> x)"
proof -
  obtain xs ys where Q: "Q c = xs @ x # ys" using assms(2) by (meson split_list)
  note d = lru_repD(1) [OF assms(1), of c, unfolded Q]
  then obtain l where "dseg (nx (m_heap s)) (pv (m_heap s)) 0 (heads s c) xs x l" "prev (m_heap s x) = l"
    by (auto simp: dseg_append)
  then have "prev (m_heap s x) = (if xs = [] then 0 else last xs)" using dseg_last by blast
  moreover have "distinct (xs @ x # ys)" using lru_repD(5) [OF assms(1), of c] Q by simp
  ultimately show ?thesis using Q by (auto split: if_splits)
qed

text \<open>The result of a pull: some items may be gone, nobody's references are.\<close>

definition pull_result ::
  "addr set \<Rightarrow> settings \<Rightarrow> (byte list \<Rightarrow> u32) \<Rightarrow> mc \<Rightarrow> (byte list \<rightharpoonup> addr) \<Rightarrow> (addr \<Rightarrow> nat) \<Rightarrow> mc \<Rightarrow> bool" where
  "pull_result K st hash s M R s' \<longleftrightarrow> (\<exists>M' Q'. store_inv st hash s' M' Q' R \<and> evicts K M M' \<and> keeps s s' (held M' R))"

lemma pull_resultI: "store_inv st hash s' M' Q' R \<Longrightarrow> evicts K M M' \<Longrightarrow> keeps s s' (held M' R) \<Longrightarrow> pull_result K st hash s M R s'"
  unfolding pull_result_def by blast

lemma held_mono: "M' \<subseteq>\<^sub>m M \<Longrightarrow> held M' R \<subseteq> held M R"
  by (auto simp: held_def ran_def map_le_def dom_def) (metis option.distinct(1))

lemma pull_result_trans:
  assumes "pull_result K st hash s M R s'" "\<And>M' Q'. store_inv st hash s' M' Q' R \<Longrightarrow> evicts K M M' \<Longrightarrow> pull_result K st hash s' M' R s''"
  shows "pull_result K st hash s M R s''"
proof -
  obtain M1 Q1 where 1: "store_inv st hash s' M1 Q1 R" "evicts K M M1" "keeps s s' (held M1 R)" using assms(1) by (auto simp: pull_result_def)
  obtain M2 Q2 where 2: "store_inv st hash s'' M2 Q2 R" "evicts K M1 M2" "keeps s' s'' (held M2 R)"
    using assms(2) [OF 1(1,2)] by (auto simp: pull_result_def)
  show ?thesis
    by (rule pull_resultI [OF 2(1) evicts_trans [OF 2(2) 1(2)] keeps_trans [OF 1(3) 2(3) held_mono [OF evicts_le [OF 2(2)]] subset_refl]])
qed

lemma pull_loop_ok:
  assumes "store_inv st hash s M Q R" "search = NULL \<or> search \<in> set (Q (pull_id a))" "pull_ok st a"
    and "\<forall>x. R x < 65000" "p_it p = NULL" "p_move p = 0" and "\<forall>x \<in> K. \<not> lk x"
  shows "\<exists>p' s' M' Q'. pull_loop st hash lk a n search p s = Some (p', s') \<and> evicts K M M' \<and> keeps s s' (held M' R) \<and>
     (if p_it p' = NULL then store_inv st hash s' M' Q' R else pulled st hash s' M' Q' R (p_it p') (p_move p'))"
  using assms
proof (induction n arbitrary: search p s M Q)
  case 0
  then show ?case by (subst pull_loop.simps) (auto intro: evicts_refl)
next
  case (Suc n)
  let ?nx = "prev (m_heap s search)" and ?hv = "hash (key (m_heap s search))"
  show ?case
  proof (cases "search = NULL")
    case True
    then show ?thesis using Suc.prems by (subst pull_loop.simps) (auto intro: evicts_refl)
  next
    case False
    then have m: "search \<in> set (Q (pull_id a))" using Suc.prems(2) by blast
    note nc = not_crawler [OF Suc.prems(1) m] and nq = prev_queue [OF store_invD(3) [OF Suc.prems(1)] m]
    have run: "pull_loop st hash lk a (Suc n) search p s =
       (if \<not> lk search then pull_loop st hash lk a n ?nx p s
        else do { (p, s) \<leftarrow> pull_item st a search ?hv p s;
                  if p_it p \<noteq> NULL then Some (p, s) else pull_loop st hash lk a n ?nx p s })"
      using False nc by (subst pull_loop.simps) (simp add: Let_def cong: if_cong)
    show ?thesis
    proof (cases "lk search")
      case False
      then have "pull_loop st hash lk a (Suc n) search p s = pull_loop st hash lk a n ?nx p s" using run by simp
      then show ?thesis using Suc.IH [OF Suc.prems(1) _ Suc.prems(3-7), of ?nx] nq by metis
    next
      case True
      obtain p1 s1 M1 Q1 where 1: "pull_item st a search ?hv p s = Some (p1, s1)" "evicts K M M1" "keeps s s1 (held M1 R)"
          "if p_it p1 = NULL then store_inv st hash s1 M1 Q1 R \<and> p_move p1 = 0 \<and> set (Q (pull_id a)) - {search} \<subseteq> set (Q1 (pull_id a))
           else p_it p1 = search \<and> pulled st hash s1 M1 Q1 R search (p_move p1)"
      proof -
        have "pull_good st hash a search s M Q R (pull_item st a search ?hv p s)"
          using pull_item_ok [OF Suc.prems(1) m Suc.prems(3) _ Suc.prems(5,6) refl] Suc.prems(4) by blast
        moreover have "evicts K M M'" if "evicts (- {search}) M M'" for M' by (rule evicts_mono [OF that]) (use True Suc.prems(7) in blast)
        ultimately show ?thesis using that unfolding pull_good_def by (elim exE conjE) blast
      qed
      show ?thesis
      proof (cases "p_it p1 = NULL")
        case False
        then show ?thesis
          by (intro exI [of _ p1] exI [of _ s1] exI [of _ M1] exI [of _ Q1]) (use run True 1 in auto)
      next
        case pn: True
        then have i1: "store_inv st hash s1 M1 Q1 R" "p_move p1 = 0" "?nx = NULL \<or> ?nx \<in> set (Q1 (pull_id a))" using 1(4) nq by auto
        obtain p2 s2 M2 Q2 where 2: "pull_loop st hash lk a n ?nx p1 s1 = Some (p2, s2)" "evicts K M1 M2" "keeps s1 s2 (held M2 R)"
            "if p_it p2 = NULL then store_inv st hash s2 M2 Q2 R else pulled st hash s2 M2 Q2 R (p_it p2) (p_move p2)"
          using Suc.IH [OF i1(1,3) Suc.prems(3,4) pn i1(2) Suc.prems(7)] by (elim exE conjE) blast
        show ?thesis
          by (intro exI [of _ p2] exI [of _ s2] exI [of _ M2] exI [of _ Q2])
            (use run True 1 2 pn evicts_trans [OF 2(2) 1(2)] keeps_trans [OF 1(3) 2(3) held_mono [OF evicts_le [OF 2(2)]] subset_refl] in auto)
      qed
    qed
  qed
qed

lemma lru_pull_tail_ok:
  assumes inv: "store_inv st hash s M Q R" and ok: "pull_ok st a" and r: "\<forall>x. R x < 65000" and K: "\<forall>x \<in> K. \<not> lk x"
  shows "\<exists>n ret s'. lru_pull_tail st hash lk a s = Some (n, ret, s') \<and> pull_result K st hash s M R s'"
proof (cases "pa_id a = 0")
  case True
  then show ?thesis using pull_resultI [OF inv evicts_refl] by (simp add: lru_pull_tail_def)
next
  case False
  let ?i = "pull_id a"
  let ?p = "\<lparr>p_it = NULL, p_removed = 0, p_move = 0, p_limit = 0, p_ret = None\<rparr>"
  have "tails s ?i = NULL \<or> tails s ?i \<in> set (Q ?i)"
    using lru.last_law [OF store_invD(3) [OF inv], of ?i] last_in_set [of "Q ?i"] by (auto split: if_splits)
  then obtain p1 s1 M1 Q1 where 1: "pull_loop st hash lk a 5 (tails s ?i) ?p s = Some (p1, s1)" "evicts K M M1" "keeps s s1 (held M1 R)"
      "if p_it p1 = NULL then store_inv st hash s1 M1 Q1 R else pulled st hash s1 M1 Q1 R (p_it p1) (p_move p1)"
    using pull_loop_ok [OF inv _ ok r _ _ K, of "tails s ?i" ?p 5, simplified] by blast
  have "\<exists>s' Q'. pull_finish a p1 s1 = Some s' \<and> store_inv st hash s' M1 Q' R \<and> keeps s1 s' (held M1 R)"
    using 1(4) pull_finish_ok [of a st hash s1 M1 Q1 R p1] ok
    by (cases "p_it p1 = NULL") (auto simp: pull_finish_def pull_ok_def)
  then obtain s' Q' where 2: "pull_finish a p1 s1 = Some s'" "store_inv st hash s' M1 Q' R" "keeps s1 s' (held M1 R)" by blast
  have "pull_result K st hash s M R s'" using pull_resultI [OF 2(2) 1(2)] keeps_trans [OF 1(3) 2(3)] by blast
  then show ?thesis using False 1(1) 2(1) by (simp add: lru_pull_tail_def)
qed

end
