(* ===== verification/Items_New.thy ===== *)
theory Items_New
  imports Items_Ops
begin

unbundle bit_operations_syntax

text \<open>
  Allocation of an item keeps the state consistent: a chunk comes from the slab allocator, if need be after
  evictions, and becomes an item to which the caller holds the only reference. Also the LRU
  maintainer's work on a class.
\<close>

section \<open>A new chunk\<close>

text \<open>The state after a chunk was taken that is not an item yet.\<close>

definition store_new ::
  "settings \<Rightarrow> (byte list \<Rightarrow> u32) \<Rightarrow> mc \<Rightarrow> (byte list \<rightharpoonup> addr) \<Rightarrow> (byte \<Rightarrow> addr list) \<Rightarrow> (addr \<Rightarrow> nat) \<Rightarrow> addr \<Rightarrow> nat \<Rightarrow> bool" where
  "store_new st hash s M Q R it cls \<longleftrightarrow> it \<notin> held M R \<and> it \<noteq> NULL \<and> cls < 64 \<and>
     assoc_rep hash (m_heap s) (m_assoc s) M \<and> assoc_wf (m_assoc s) \<and> lru_rep s Q \<and> (\<Union>c. set (Q c)) = ran M \<and>
     alloc_inv st (m_heap s, m_slabs s) (insert (it, cls) (chunks_held (m_heap s) (held M R))) \<and>
     (\<forall>x \<in> held M R. item_ok M R (m_heap s) x) \<and>
     curr_items s = of_nat (card (ran M)) \<and> curr_bytes s = (\<Sum>x \<in> ran M. ITEM_ntotal (m_heap s x)) \<and>
     refcount (m_heap s it) = 1 \<and> it_flags (m_heap s it) = 0"

lemma alloc_inv_largest: "alloc_inv st (h, sl) U \<Longrightarrow> 1 \<le> power_largest sl \<and> power_largest sl < 64"
  by (auto simp: alloc_inv_def slabs_inv_def geometry_def)

lemma m_slabs_alloc_ok:
  assumes inv: "store_inv st hash s M Q R" and m: "malloc_ok st mal (m_slabs s)"
  shows "\<exists>it s'. m_slabs_alloc st mal rea cls s = Some (it, s') \<and> keeps s s' (held M R) \<and>
    (if it = NULL then store_inv st hash s' M Q R else store_new st hash s' M Q R it cls)"
proof -
  note i = store_invD [OF inv]
  let ?U = "chunks_held (m_heap s) (held M R)"
  let ?e = "\<lparr>env_malloc = mal, env_realloc = rea, env_no_newpage = False\<rparr>"
  have env: "env_ok st ?e cls (m_heap s, m_slabs s)" using m by (simp add: env_ok_def)
  obtain it h sl where t: "slab_take st ?e cls (m_heap s, m_slabs s) = Some (it, h, sl)"
      "if it = NULL then alloc_inv st (h, sl) ?U else it \<notin> held M R \<and> alloc_inv st (h, sl) (insert (it, cls) ?U)"
      "\<forall>q \<in> held M R. h q = m_heap s q" "it \<noteq> NULL \<longrightarrow> refcount (h it) = 1 \<and> it_flags (h it) = 0"
    using slab.take_law [OF i(5) env] unfolding split_paired_Ex fst_chunks_held fst_conv by (elim exE conjE) blast
  let ?s = "s\<lparr>m_heap := h, m_slabs := sl\<rparr>"
  have run: "m_slabs_alloc st mal rea cls s = Some (it, ?s)" using t(1) by (simp add: m_slabs_alloc_def slab_take_def)
  have k: "keeps s ?s (held M R)" using t(3) by (simp add: keeps_def)
  have same: "h x = m_heap s x" if "x \<in> held M R" for x using t(3) that by blast
  have samer: "h x = m_heap s x" if "x \<in> ran M" for x using same ran_held [OF that] by blast
  have A: "assoc_rep hash h (m_assoc s) M" using assoc_rep_frame [OF i(1), of h] samer ranI [of M] by simp
  have "h x = m_heap s x" if "x \<in> set (Q c)" for x c using samer i(4) that by blast
  then have L: "lru_rep ?s Q" by (intro lru_rep_frame [OF i(3)]) (simp_all add: q_same_def)
  have C: "chunks_held h (held M R) = ?U" by (rule chunks_held_cong) (simp add: same)
  have I: "item_ok M R h x" if "x \<in> held M R" for x using i(6) [OF that] same [OF that] by (simp add: item_ok_def)
  have B: "(\<Sum>x \<in> ran M. ITEM_ntotal (h x)) = (\<Sum>x \<in> ran M. ITEM_ntotal (m_heap s x))" by (rule sum.cong) (simp_all add: samer)
  show ?thesis
  proof (cases "it = NULL")
    case True
    then have "store_inv st hash ?s M Q R" unfolding store_inv_def using A L C I B i t(2) by simp
    then show ?thesis using run k True by auto
  next
    case False
    have "1 \<le> cls \<and> cls \<le> power_largest sl" using t(2) False by (auto simp: alloc_inv_def)
    then have "cls < 64" using alloc_inv_largest [of st h sl] t(2) False by fastforce
    then have "store_new st hash ?s M Q R it cls" unfolding store_new_def using A L C I B i t(2,4) False by simp
    then show ?thesis using run k False by auto
  qed
qed

text \<open>The class of a new item, whatever its queue.\<close>

lemma class_bits: "c < 64 \<Longrightarrow> (of_nat c :: byte) AND NOT 192 = of_nat c"
proof -
  assume "c < 64"
  have "NOT 192 = (mask 6 :: byte)" by (simp add: mask_eq_exp_minus_1)
  then have "unat ((of_nat c :: byte) AND NOT 192) = unat (of_nat c :: byte) mod 64" using unat_and_mask [of "of_nat c :: byte" 6] by simp
  also have "\<dots> = unat (of_nat c :: byte)" using \<open>c < 64\<close> by (simp add: unat_of_nat)
  finally show ?thesis by (simp only: word_unat_eq_iff)
qed

lemma class_of_new: "c < 64 \<Longrightarrow> m AND NOT 192 = 0 \<Longrightarrow> ((of_nat c :: byte) OR m) AND NOT 192 = of_nat c"
  using class_bits [of c] by (simp add: bit.conj_disj_distrib2)

lemma store_fresh:
  assumes new: "store_new st hash s M Q R it cls" and nb: "2 \<le> nb" and m: "m AND NOT 192 = 0"
    and f_def: "f = fresh_item st (of_nat cls OR m) k fl etime nb"
  shows "store_inv st hash (m_upd it f s) M Q (R(it := 1))" "keeps s (m_upd it f s) (held M R)"
proof -
  have i: "it \<notin> held M R" "it \<noteq> NULL" "cls < 64" "assoc_rep hash (m_heap s) (m_assoc s) M" "assoc_wf (m_assoc s)" "lru_rep s Q" "(\<Union>c. set (Q c)) = ran M"
    "alloc_inv st (m_heap s, m_slabs s) (insert (it, cls) (chunks_held (m_heap s) (held M R)))" "\<forall>x \<in> held M R. item_ok M R (m_heap s) x"
    "curr_items s = of_nat (card (ran M))" "curr_bytes s = (\<Sum>x \<in> ran M. ITEM_ntotal (m_heap s x))"
    "refcount (m_heap s it) = 1" "it_flags (m_heap s it) = 0"
    using new by (auto simp: store_new_def)
  let ?s = "m_upd it f s" and ?h = "upd it f (m_heap s)"
  have e: "m_heap ?s = ?h" "m_assoc ?s = m_assoc s" "m_slabs ?s = m_slabs s" "heads ?s = heads s" "tails ?s = tails s"
    "sizes ?s = sizes s" "sizes_bytes ?s = sizes_bytes s" "curr_items ?s = curr_items s" "curr_bytes ?s = curr_bytes s"
    by (simp_all add: m_upd_def)
  have nr: "it \<notin> ran M" "R it = 0" using i(1) by (auto simp: held_def)
  have other: "?h x = m_heap s x" if "x \<noteq> it" for x using that by (simp add: upd_apply)
  have H: "held M (R(it := 1)) = insert it (held M R)" by (auto simp: held_def)
  have same: "?h x = m_heap s x" if "x \<in> held M R" for x using other i(1) that by metis
  have samer: "?h x = m_heap s x" if "x \<in> ran M" for x using same ran_held [OF that] by blast
  show "keeps s ?s (held M R)" by (rule keepsI) (simp_all add: same)
  have fx: "refcount (?h it) = 1" "slabs_clsid (?h it) = of_nat cls OR m" "nbytes (?h it) = nb"
    "it_flags (?h it) = (if use_cas st then ITEM_CAS else 0) OR (if fl \<noteq> 0 then ITEM_CFLAGS else 0)"
    using i(12,13) by (simp_all add: upd_apply f_def fresh_item_def)
  have cl: "unat (ITEM_clsid (?h it)) = cls" using class_of_new [OF i(3) m] i(3) by (simp add: ITEM_clsid_def fx unat_of_nat)
  have "assoc_rep hash ?h (m_assoc s) M" using assoc_rep_frame [OF i(4), of ?h] samer ranI [of M] by simp
  moreover have "?h x = m_heap s x" if "x \<in> set (Q c)" for x c using samer i(7) that by blast
  then have "lru_rep ?s Q" by (intro lru_rep_frame [OF i(6)]) (simp_all add: q_same_def e)
  moreover have "chunks_held ?h (insert it (held M R)) = insert (it, cls) (chunks_held ?h (held M R))" using cl by (simp add: chunks_held_def)
  then have "chunks_held ?h (insert it (held M R)) = insert (it, cls) (chunks_held (m_heap s) (held M R))"
    using chunks_held_cong [of "held M R" ?h "m_heap s"] same by simp
  then have "alloc_inv st (?h, m_slabs s) (chunks_held ?h (insert it (held M R)))"
    using alloc_inv_frame [OF i(8), of ?h] other by auto
  moreover have "item_ok M (R(it := 1)) ?h x" if "x \<in> insert it (held M R)" for x
  proof (cases "x = it")
    case True
    have "\<not> has_flag (?h it) ITEM_LINKED \<and> \<not> has_flag (?h it) ITEM_CHUNKED" by (simp add: has_flag_def fx)
    then show ?thesis using True nr nb by (simp add: item_ok_def fx)
  next
    case False
    then show ?thesis using i(9) that same by (auto simp: item_ok_def)
  qed
  moreover have "(\<Sum>x \<in> ran M. ITEM_ntotal (?h x)) = (\<Sum>x \<in> ran M. ITEM_ntotal (m_heap s x))" by (rule sum.cong) (simp_all add: samer)
  ultimately show "store_inv st hash ?s M Q (R(it := 1))" unfolding store_inv_def H e using i(5,7,10,11) by simp
qed

section \<open>Allocation with eviction\<close>

text \<open>\<open>malloc\<close> returns memory that overlaps nothing the allocator has.\<close>

definition os_ok :: "settings \<Rightarrow> os \<Rightarrow> bool" where
  "os_ok st os \<longleftrightarrow> (\<forall>i sl. malloc_ok st (os_malloc os i sl) sl)"

definition small_refs :: "(addr \<Rightarrow> nat) \<Rightarrow> bool" where
  "small_refs R \<longleftrightarrow> (\<forall>x. R x < 65000)"

lemma pull_of_ok: "tail_repair_time st = 0 \<Longrightarrow> lru \<in> {HOT_LRU, COLD_LRU, TEMP_LRU} \<Longrightarrow> flags \<in> {0, LRU_PULL_EVICT} \<Longrightarrow>
   pull_ok st (pull_of c lru flags b)"
  by (auto simp: pull_ok_def pull_of_def)

definition alloc_result ::
  "addr set \<Rightarrow> settings \<Rightarrow> (byte list \<Rightarrow> u32) \<Rightarrow> mc \<Rightarrow> (byte list \<rightharpoonup> addr) \<Rightarrow> (addr \<Rightarrow> nat) \<Rightarrow> nat \<Rightarrow> addr \<Rightarrow> mc \<Rightarrow> bool" where
  "alloc_result K st hash s M R cls it s' \<longleftrightarrow> (\<exists>M' Q'. evicts K M M' \<and> keeps s s' (held M' R) \<and>
     (if it = NULL then store_inv st hash s' M' Q' R else store_new st hash s' M' Q' R it cls))"

lemma alloc_resultI:
  "evicts K M M' \<Longrightarrow> keeps s s' (held M' R) \<Longrightarrow> (if it = NULL then store_inv st hash s' M' Q' R else store_new st hash s' M' Q' R it cls) \<Longrightarrow>
   alloc_result K st hash s M R cls it s'"
  unfolding alloc_result_def by blast

lemma alloc_nullI: "store_inv st hash s' M' Q' R \<Longrightarrow> evicts K M M' \<Longrightarrow> keeps s s' (held M' R) \<Longrightarrow> alloc_result K st hash s M R cls NULL s'"
  unfolding alloc_result_def by auto

lemma alloc_after_pull:
  assumes "pull_result K st hash s M R s1" "\<And>M1 Q1. store_inv st hash s1 M1 Q1 R \<Longrightarrow> alloc_result K st hash s1 M1 R cls it s2"
  shows "alloc_result K st hash s M R cls it s2"
proof -
  obtain M1 Q1 where 1: "store_inv st hash s1 M1 Q1 R" "evicts K M M1" "keeps s s1 (held M1 R)" using assms(1) by (auto simp: pull_result_def)
  obtain M2 Q2 where 2: "evicts K M1 M2" "keeps s1 s2 (held M2 R)"
      "if it = NULL then store_inv st hash s2 M2 Q2 R else store_new st hash s2 M2 Q2 R it cls"
    using assms(2) [OF 1(1)] by (auto simp: alloc_result_def)
  show ?thesis
    by (rule alloc_resultI [OF evicts_trans [OF 2(1) 1(2)] keeps_trans [OF 1(3) 2(2) held_mono [OF evicts_le [OF 2(1)]] subset_refl] 2(3)])
qed

lemma alloc_pull_loop_ok:
  assumes "store_inv st hash s M Q R" "tail_repair_time st = 0" "os_ok st os" "small_refs R" "\<forall>x \<in> K. \<forall>i. \<not> os_lock os i x"
  shows "\<exists>it i' s'. alloc_pull_loop st hash os cls n i s = Some (it, i', s') \<and> alloc_result K st hash s M R cls it s'"
  using assms
proof (induction n arbitrary: i s M Q)
  case 0
  then show ?case using alloc_nullI [OF 0(1) evicts_refl keeps_refl] by auto
next
  case (Suc n)
  let ?pull = "\<lambda>lru fl s. lru_pull_tail st hash (os_lock os i) (pull_of cls lru fl (os_rebal os i)) s"
  have pull: "\<exists>r ret s'. ?pull lru fl s1 = Some (r, ret, s') \<and> pull_result K st hash s1 M1 R s'"
    if "store_inv st hash s1 M1 Q1 R" "lru \<in> {HOT_LRU, COLD_LRU}" "fl \<in> {0, LRU_PULL_EVICT}" for s1 M1 Q1 lru fl
  proof (rule lru_pull_tail_ok [OF that(1)])
    show "pull_ok st (pull_of cls lru fl (os_rebal os i))" using pull_of_ok [OF Suc.prems(2)] that by auto
    show "\<forall>x. R x < 65000" using Suc.prems(4) by (simp add: small_refs_def)
    show "\<forall>x \<in> K. \<not> os_lock os i x" using Suc.prems(5) by blast
  qed
  obtain s1 where 1: "(if \<not> lru_segmented st then map_option (\<lambda>(_, _, s). s) (?pull COLD_LRU 0 s) else Some s) = Some s1"
      "pull_result K st hash s M R s1"
    using pull [OF Suc.prems(1), of COLD_LRU 0] pull_resultI [OF Suc.prems(1) evicts_refl keeps_refl] by (cases "lru_segmented st") auto
  have rest: "\<exists>it i' s'. (do {
       (it, s) \<leftarrow> m_slabs_alloc st (os_malloc os i (m_slabs s1)) (os_realloc os i) cls s1;
       if it = NULL then do {
         (removed, _, s) \<leftarrow> ?pull COLD_LRU LRU_PULL_EVICT s;
         if removed \<le> 0 then
           if lru_segmented st then do { (_, _, s) \<leftarrow> ?pull HOT_LRU 0 s; alloc_pull_loop st hash os cls n (i + 1) s }
           else Some (NULL, i, s)
         else alloc_pull_loop st hash os cls n (i + 1) s
       } else Some (it, i, s) }) = Some (it, i', s') \<and> alloc_result K st hash s1 M1 R cls it s'"
    if i1: "store_inv st hash s1 M1 Q1 R" for M1 Q1
  proof -
    have mo: "malloc_ok st (os_malloc os i (m_slabs s1)) (m_slabs s1)" using Suc.prems(3) by (simp add: os_ok_def)
    obtain it s2 where 2: "m_slabs_alloc st (os_malloc os i (m_slabs s1)) (os_realloc os i) cls s1 = Some (it, s2)"
        "keeps s1 s2 (held M1 R)" "if it = NULL then store_inv st hash s2 M1 Q1 R else store_new st hash s2 M1 Q1 R it cls"
      using m_slabs_alloc_ok [OF i1 mo, of "os_realloc os i" cls] by blast
    show ?thesis
    proof (cases "it = NULL")
      case False
      have "alloc_result K st hash s1 M1 R cls it s2" by (rule alloc_resultI [OF evicts_refl 2(2,3)])
      then show ?thesis using 2(1) False by simp
    next
      case True
      then have i2: "store_inv st hash s2 M1 Q1 R" using 2(3) by simp
      have p2: "pull_result K st hash s1 M1 R s2" by (rule pull_resultI [OF i2 evicts_refl 2(2)])
      obtain r ret s3 where 3: "?pull COLD_LRU LRU_PULL_EVICT s2 = Some (r, ret, s3)" "pull_result K st hash s2 M1 R s3"
        using pull [OF i2, of COLD_LRU LRU_PULL_EVICT] by auto
      obtain M3 Q3 where i3: "store_inv st hash s3 M3 Q3 R" "evicts K M1 M3" "keeps s2 s3 (held M3 R)" using 3(2) by (auto simp: pull_result_def)
      have p3: "pull_result K st hash s1 M1 R s3" by (rule pull_resultI [OF i3(1,2) keeps_trans [OF 2(2) i3(3) held_mono [OF evicts_le [OF i3(2)]] subset_refl]])
      show ?thesis
      proof (cases "r \<le> 0")
        case False
        obtain it' i' s' where l: "alloc_pull_loop st hash os cls n (i + 1) s3 = Some (it', i', s')"
          using Suc.IH [OF i3(1) Suc.prems(2-5), of "i + 1"] by blast
        have "alloc_result K st hash s3 M' R cls it' s'" if "store_inv st hash s3 M' Q' R" for M' Q'
          using Suc.IH [OF that Suc.prems(2-5), of "i + 1"] l by auto
        then have "alloc_result K st hash s1 M1 R cls it' s'" using alloc_after_pull [OF p3] by blast
        then show ?thesis using 2(1) 3(1) True False l by simp
      next
        case r: True
        show ?thesis
        proof (cases "lru_segmented st")
          case False
          have "alloc_result K st hash s1 M1 R cls NULL s3"
            by (rule alloc_nullI [OF i3(1,2) keeps_trans [OF 2(2) i3(3) held_mono [OF evicts_le [OF i3(2)]] subset_refl]])
          then show ?thesis using 2(1) 3(1) True r False by simp
        next
          case seg: True
          obtain r4 ret4 s4 where 4: "?pull HOT_LRU 0 s3 = Some (r4, ret4, s4)" "pull_result K st hash s3 M3 R s4"
            using pull [OF i3(1), of HOT_LRU 0] by auto
          obtain M4 Q4 where i4: "store_inv st hash s4 M4 Q4 R" using 4(2) by (auto simp: pull_result_def)
          obtain it' i' s' where l: "alloc_pull_loop st hash os cls n (i + 1) s4 = Some (it', i', s')"
            using Suc.IH [OF i4 Suc.prems(2-5), of "i + 1"] by blast
          have "alloc_result K st hash s4 M' R cls it' s'" if "store_inv st hash s4 M' Q' R" for M' Q'
            using Suc.IH [OF that Suc.prems(2-5), of "i + 1"] l by auto
          then have "alloc_result K st hash s3 M' R cls it' s'" if "store_inv st hash s3 M' Q' R" for M' Q'
            using alloc_after_pull [of K st hash s3 M' R s4 cls it' s'] pull [OF that, of HOT_LRU 0] 4(1) by auto
          then have "alloc_result K st hash s1 M1 R cls it' s'" using alloc_after_pull [OF p3] by blast
          then show ?thesis using 2(1) 3(1) 4(1) l True r seg by simp
        qed
      qed
    qed
  qed
  obtain M1 Q1 where i1: "store_inv st hash s1 M1 Q1 R" using 1(2) by (auto simp: pull_result_def)
  obtain it i' s' where r: "alloc_pull_loop st hash os cls (Suc n) i s = Some (it, i', s')"
    using rest [OF i1] 1(1) by (auto simp: Let_def)
  have "alloc_result K st hash s1 M' R cls it s'" if "store_inv st hash s1 M' Q' R" for M' Q'
    using rest [OF that] r 1(1) by (auto simp: Let_def)
  then show ?case using r alloc_after_pull [OF 1(2)] by blast
qed

text \<open>The size of an item that fits a chunk: larger ones are split into several chunks.\<close>

definition item_total :: "settings \<Rightarrow> nat \<Rightarrow> u32 \<Rightarrow> int \<Rightarrow> nat" where
  "item_total st nkey fl nb = fst (item_make_header (of_nat (nkey + 1)) fl nb) + (if use_cas st then 8 else 0)"

definition is_item :: "item \<Rightarrow> byte list \<Rightarrow> u32 \<Rightarrow> u32 \<Rightarrow> int \<Rightarrow> bool" where
  "is_item x k fl etime nb \<longleftrightarrow> key x = take (length k mod 256) k \<and> FLAGS_CONV x = fl \<and> exptime x = etime \<and> nbytes x = nb"

definition new_result ::
  "addr set \<Rightarrow> settings \<Rightarrow> (byte list \<Rightarrow> u32) \<Rightarrow> mc \<Rightarrow> (byte list \<rightharpoonup> addr) \<Rightarrow> (addr \<Rightarrow> nat) \<Rightarrow> addr \<Rightarrow> mc \<Rightarrow> bool" where
  "new_result K st hash s M R it s' \<longleftrightarrow> (\<exists>M' Q'. evicts K M M' \<and> keeps s s' (held M' R) \<and>
     (if it = NULL then store_inv st hash s' M' Q' R else it \<notin> held M' R \<and> store_inv st hash s' M' Q' (R(it := 1))))"

lemma new_nullI: "store_inv st hash s' M' Q' R \<Longrightarrow> evicts K M M' \<Longrightarrow> keeps s s' (held M' R) \<Longrightarrow> new_result K st hash s M R NULL s'"
  unfolding new_result_def by auto

lemma first_lru_bits: "first_lru st now etime AND NOT 192 = 0"
  by (simp add: first_lru_def)

lemma do_item_alloc_ok:
  assumes inv: "store_inv st hash s M Q R" and tr: "tail_repair_time st = 0" and os: "os_ok st os" and sm: "small_refs R"
    and K: "\<forall>x \<in> K. \<forall>i. \<not> os_lock os i x" and plain: "item_total st (length k) fl nb \<le> slab_chunk_size_max st"
  shows "\<exists>it s'. do_item_alloc st hash os k fl etime nb s = Some (it, s') \<and> new_result K st hash s M R it s' \<and>
    (it \<noteq> NULL \<longrightarrow> is_item (m_heap s' it) k fl etime nb)"
proof (cases "nb < 2")
  case True
  have "new_result K st hash s M R NULL s" by (rule new_nullI [OF inv evicts_refl keeps_refl])
  then show ?thesis using True by (simp add: do_item_alloc_def)
next
  case False
  note largest = alloc_inv_largest [OF store_invD(5) [OF inv]]
  obtain nt ns where hdr: "item_make_header (of_nat (length k + 1)) fl nb = (nt, ns)" by fastforce
  let ?nt = "nt + (if use_cas st then 8 else 0)"
  have nt: "?nt \<le> slab_chunk_size_max st" using plain hdr by (simp add: item_total_def)
  obtain cls where cls: "slabs_clsid_for st (m_slabs s) ?nt = Some cls"
    using clsid_for_range [of "m_slabs s" st ?nt] largest by blast
  show ?thesis
  proof (cases "cls = 0")
    case True
    have "new_result K st hash s M R NULL s" by (rule new_nullI [OF inv evicts_refl keeps_refl])
    then show ?thesis using True False cls hdr by (simp add: do_item_alloc_def Let_def)
  next
    case c0: False
    obtain it i s1 where l: "alloc_pull_loop st hash os cls 10 0 s = Some (it, i, s1)" "alloc_result K st hash s M R cls it s1"
      using alloc_pull_loop_ok [OF inv tr os sm K, of cls 10 0] by blast
    define s2 where "s2 = (if i > 0 then upd_stats (of_nat cls) (\<lambda>y. y\<lparr>direct_reclaims := direct_reclaims y + of_nat i\<rparr>) s1 else s1)"
    have s2: "m_heap s2 = m_heap s1" "mc_same s1 s2" "current_time s2 = current_time s1 \<and> bump_bufs s2 = bump_bufs s1" by (simp_all add: s2_def mc_same_def [of s1 s1])
    have ap: "do_item_alloc_pull st hash os cls s = Some (it, s2)" using l(1) by (simp add: do_item_alloc_pull_def s2_def)
    obtain M' Q' where r: "evicts K M M'" "keeps s s1 (held M' R)"
        "if it = NULL then store_inv st hash s1 M' Q' R else store_new st hash s1 M' Q' R it cls"
      using l(2) by (auto simp: alloc_result_def)
    have k2: "keeps s s2 (held M' R)" using r(2) s2 by (simp add: keeps_def)
    show ?thesis
    proof (cases "it = NULL")
      case True
      let ?s = "upd_stats (of_nat cls) (\<lambda>y. y\<lparr>outofmemory := outofmemory y + 1\<rparr>) s2"
      have "store_inv st hash s1 M' Q' R" using r(3) True by simp
      then have "store_inv st hash ?s M' Q' R" by (rule store_cong) (use mc_same_trans [OF s2(2)] s2(1) in simp_all)
      moreover have "keeps s ?s (held M' R)" using k2 by (simp add: keeps_def)
      ultimately have "new_result K st hash s M R NULL ?s" unfolding new_result_def using r(1) by auto
      then show ?thesis using True False c0 cls hdr nt ap by (simp add: do_item_alloc_def Let_def)
    next
      case it: False
      have "store_new st hash s1 M' Q' R it cls" using r(3) it by simp
      then have n: "store_new st hash s2 M' Q' R it cls"
        using s2 lru_rep_frame [of s1 Q' s2] by (simp add: store_new_def mc_same_def q_same_def)
      define f where "f = fresh_item st (of_nat cls OR first_lru st (current_time s2) etime) k fl etime nb"
      have fr: "store_inv st hash (m_upd it f s2) M' Q' (R(it := 1))" "keeps s2 (m_upd it f s2) (held M' R)"
        using store_fresh [OF n _ first_lru_bits f_def] False by simp_all
      have nh: "it \<notin> held M' R" "it_flags (m_heap s2 it) = 0" using n by (auto simp: store_new_def)
      have "new_result K st hash s M R it (m_upd it f s2)"
        unfolding new_result_def using r(1) keeps_trans [OF k2 fr(2)] fr(1) nh(1) it by auto
      moreover have nc: "\<not> has_flag (m_heap (m_upd it f s2) it) ITEM_CHUNKED"
        using nh(2) by (simp add: has_flag_def upd_apply f_def fresh_item_def)
      moreover have "is_item (m_heap (m_upd it f s2) it) k fl etime nb"
        using nh(2) by (simp add: is_item_def upd_apply f_def fresh_item_def FLAGS_CONV_def has_flag_def)
      moreover have "do_item_alloc st hash os k fl etime nb s = Some (it, m_upd it f s2)"
        using it False c0 cls hdr nt ap nc by (simp add: do_item_alloc_def Let_def f_def [symmetric])
      ultimately show ?thesis by blast
    qed
  qed
qed

section \<open>The LRU maintainer\<close>

lemma pull_result_refl: "store_inv st hash s M Q R \<Longrightarrow> pull_result {} st hash s M R s"
  by (rule pull_resultI [OF _ evicts_refl keeps_refl])

lemma pull_chain:
  assumes "pull_result {} st hash s M R s1" "small_refs R" "pull_ok st a"
  shows "\<exists>n ret s2. lru_pull_tail st hash lk a s1 = Some (n, ret, s2) \<and> pull_result {} st hash s M R s2"
proof -
  obtain M1 Q1 where i1: "store_inv st hash s1 M1 Q1 R" using assms(1) by (auto simp: pull_result_def)
  have r: "\<forall>x. R x < 65000" using assms(2) by (simp add: small_refs_def)
  obtain n ret s2 where p: "lru_pull_tail st hash lk a s1 = Some (n, ret, s2)"
    using lru_pull_tail_ok [OF i1 assms(3) r, of "{}" lk] by blast
  have "pull_result {} st hash s1 M' R s2" if "store_inv st hash s1 M' Q' R" for M' Q'
    using lru_pull_tail_ok [OF that assms(3) r, of "{}" lk] p by auto
  then show ?thesis using p pull_result_trans [OF assms(1)] by blast
qed

lemma juggle_temp_ok:
  assumes "pull_result {} st hash s M R (snd ds)" "tail_repair_time st = 0" "small_refs R"
  shows "\<exists>d s'. juggle_temp st hash lk cls n ds = Some (d, s') \<and> pull_result {} st hash s M R s'"
  using assms(1)
proof (induction n arbitrary: ds)
  case 0
  then show ?case by (cases ds) simp
next
  case (Suc n)
  obtain r ret s2 where p: "lru_pull_tail st hash (lk n) (pull_of cls TEMP_LRU 0 False) (snd ds) = Some (r, ret, s2)" "pull_result {} st hash s M R s2"
    using pull_chain [OF Suc.prems assms(3) pull_of_ok [OF assms(2)]] by blast
  then show ?case using Suc.IH [of "(fst ds + 1, s2)"] by (cases "r \<le> 0") auto
qed

lemma juggle_pull_ok: "tail_repair_time st = 0 \<Longrightarrow> lru \<in> {HOT_LRU, WARM_LRU, COLD_LRU} \<Longrightarrow> pull_ok st (juggle_pull cls lru b ag)"
  by (auto simp: pull_ok_def juggle_pull_def)

lemma juggle_round_ok:
  assumes "pull_result {} st hash s M R s1" "tail_repair_time st = 0" "small_refs R"
  shows "\<exists>d s'. juggle_round st hash lk cls j s1 = Some (d, s') \<and> pull_result {} st hash s M R s'"
proof -
  note jp = juggle_pull_ok [OF assms(2)]
  obtain hot ret s2 where 1: "lru_pull_tail st hash lk (juggle_pull cls HOT_LRU (j_total_bytes j) (j_hot_age j)) s1 = Some (hot, ret, s2)"
      "pull_result {} st hash s M R s2"
    using pull_chain [OF assms(1,3) jp] by blast
  obtain warm ret2 s3 where 2: "lru_pull_tail st hash lk (juggle_pull cls WARM_LRU (j_total_bytes j) (j_warm_age j)) s2 = Some (warm, ret2, s3)"
      "pull_result {} st hash s M R s3"
    using pull_chain [OF 1(2) assms(3) jp] by blast
  define s4 where "s4 = (if hot \<noteq> 0 then s2 else s3)"
  have 4: "pull_result {} st hash s M R s4" using 1 2 by (simp add: s4_def)
  obtain cold ret5 s5 where 5: "lru_pull_tail st hash lk (juggle_pull cls COLD_LRU (j_total_bytes j) 0) s4 = Some (cold, ret5, s5)"
      "pull_result {} st hash s M R s5"
    using pull_chain [OF 4 assms(3) jp] by blast
  show ?thesis using 1 2 4 5 by (cases "hot = 0"; cases "lru_segmented st") (auto simp: juggle_round_def s4_def)
qed

lemma juggle_rounds_ok:
  assumes "pull_result {} st hash s M R (snd ds)" "tail_repair_time st = 0" "small_refs R"
  shows "\<exists>d s'. juggle_rounds st hash lk cls j n ds = Some (d, s') \<and> pull_result {} st hash s M R s'"
  using assms(1)
proof (induction n arbitrary: ds)
  case 0
  then show ?case by (cases ds) simp
next
  case (Suc n)
  obtain d s2 where "juggle_round st hash (lk n) cls j (snd ds) = Some (d, s2)" "pull_result {} st hash s M R s2"
    using juggle_round_ok [OF Suc.prems assms(2,3)] by blast
  then show ?case using Suc.IH [of "(fst ds + 1, s2)"] by (cases "d = 0") auto
qed

lemma lru_maintainer_juggle_ok:
  assumes inv: "store_inv st hash s M Q R" and tr: "tail_repair_time st = 0" and sm: "small_refs R"
  shows "\<exists>d s'. lru_maintainer_juggle st hash fh fw lk lk' cls s = Some (d, s') \<and> pull_result {} st hash s M R s'"
proof -
  note r0 = pull_result_refl [OF inv]
  obtain d s1 where 1: "(if temp_lru st then juggle_temp st hash lk cls 500 (0, s) else Some (0, s)) = Some (d, s1)" "pull_result {} st hash s M R s1"
    using juggle_temp_ok [OF _ tr sm, of hash s M "(0, s)" lk cls 500] r0 by (cases "temp_lru st") auto
  show ?thesis
    using juggle_rounds_ok [OF _ tr sm, of hash s M "(d, s1)" lk' cls "juggle_args st fh fw cls s1" 500] 1
    by (auto simp: lru_maintainer_juggle_def)
qed

end
