(* ===== verification/Items_Bump.thy ===== *)
theory Items_Bump
  imports Items_New
begin

unbundle bit_operations_syntax

text \<open>
  The buffers of asynchronous bumps: each entry holds a reference to its item until the LRU maintainer has
  moved the item. With them the whole state is consistent (\<open>cache_inv\<close>), and hits, lookups and the
  maintainer keep it so.
\<close>

section \<open>Entries\<close>

lemma bit_le_word: "bit (le_word (map (\<lambda>i. ucast (drop_bit (8 * (i + j)) v)) [0..<n])) m \<longleftrightarrow> m < 8 * n \<and> m < 64 \<and> bit v (m + 8 * j)"
proof (induction n arbitrary: j m)
  case (Suc n)
  have e: "map (\<lambda>i. ucast (drop_bit (8 * (i + j)) v)) [0..<Suc n] =
      (ucast (drop_bit (8 * j) v) :: byte) # map (\<lambda>i. ucast (drop_bit (8 * (i + Suc j)) v)) [0..<n]"
    by (simp add: map_upt_Suc algebra_simps del: upt_Suc)
  show ?case
    unfolding e using Suc.IH [of "Suc j" "m - 8"]
    by (cases "m < 8") (auto simp: bit_simps algebra_simps)
qed simp

lemma le_word_bytes: "le_word (le_bytes 8 v) = v"
  using bit_le_word [of 0 v 8] by (intro bit_word_eqI) (simp add: le_bytes_def)

lemma length_le_bytes [simp]: "length (le_bytes n v) = n"
  by (simp add: le_bytes_def)

function ents :: "byte list \<Rightarrow> addr list" where
  "ents bs = (if length bs < 16 then [] else unat (le_word (take 8 bs)) # ents (drop 16 bs))"
  by pat_completeness auto
termination
  by (relation "measure length") auto

declare ents.simps [simp del]

lemma ents_Nil [simp]: "ents [] = []"
  by (simp add: ents.simps)

lemma ents_Cons: "length x = 16 \<Longrightarrow> ents (x @ ys) = unat (le_word (take 8 x)) # ents ys"
  by (subst ents.simps) simp

lemma split16:
  assumes "16 dvd length xs" "xs \<noteq> []"
  obtains x ys where "xs = x @ ys" "length x = 16" "16 dvd length ys"
proof -
  have "16 \<le> length xs" using dvd_imp_le [OF assms(1)] assms(2) by simp
  then show ?thesis using that [of "take 16 xs" "drop 16 xs"] assms(1) by (simp add: dvd_minus_self)
qed

lemma ents_append: "16 dvd length xs \<Longrightarrow> ents (xs @ ys) = ents xs @ ents ys"
proof (induction xs rule: length_induct)
  case (1 xs)
  show ?case
  proof (cases "xs = []")
    case False
    obtain x zs where x: "xs = x @ zs" "length x = 16" "16 dvd length zs" by (rule split16 [OF 1(2) False])
    then have "ents (zs @ ys) = ents zs @ ents ys" using 1 by simp
    then show ?thesis using x ents_Cons [of x "zs @ ys"] ents_Cons [of x zs] by simp
  qed simp
qed

text \<open>The cursors of a bump buffer are multiples of the size of an entry.\<close>

definition buf_ok :: "bipbuf \<Rightarrow> bool" where
  "buf_ok b \<longleftrightarrow> bip_inv b \<and> 16 dvd unat (bb_size b) \<and> 16 dvd unat (bb_a_start b) \<and> 16 dvd unat (bb_a_end b) \<and> 16 dvd unat (bb_b_end b)"

lemma length_front: "length (bip_front b) = unat (bb_a_end b) - unat (bb_a_start b)"
  by (simp add: bip_front_def)

lemma front_dvd: "buf_ok b \<Longrightarrow> 16 dvd length (bip_front b)"
  by (simp add: buf_ok_def length_front)

definition bump_count :: "mc \<Rightarrow> addr \<Rightarrow> nat" where
  "bump_count s x = (\<Sum>b \<leftarrow> bump_bufs s. count_list (ents (bip_contents (bump_buf b))) x)"

definition bufs_ok :: "mc \<Rightarrow> bool" where
  "bufs_ok s \<longleftrightarrow> (\<forall>b \<in> set (bump_bufs s). buf_ok (bump_buf b))"

lemma sum_list_update_nat:
  "i < length xs \<Longrightarrow> f (xs ! i) + sum_list (map f (xs[i := y])) = sum_list (map f xs) + (f y :: nat)"
  by (induction xs arbitrary: i) (auto simp: nth_Cons split: nat.splits)

text \<open>A new entry.\<close>

lemma push_entry:
  assumes b: "buf_ok b" and room: "16 \<le> bip_room b" and it: "it < 2 ^ 64"
    and b'_def: "b' = b\<lparr>bb_data := put_bump (bip_tail b) it hv (bb_data b)\<rparr>"
  shows "\<exists>c. bipbuf_push b' 16 = (c, 16) \<and> buf_ok c \<and> ents (bip_contents c) = ents (bip_contents b) @ [it]"
proof -
  have inv: "bip_inv b" using b by (simp add: buf_ok_def)
  let ?m = "put_bump (bip_tail b) it hv (bb_data b)" and ?t = "bip_tail b"
  have pb: "?m = mem_write (bb_data b) ?t (le_bytes 8 (of_nat it) @ le_bytes 4 (ucast hv))"
    unfolding put_bump_def by (simp add: mem_write_append [symmetric])
  have inv': "bip_inv b'" using inv by (simp add: bip_inv_def b'_def)
  have r': "bip_room b' = bip_room b" "bip_tail b' = ?t" by (simp_all add: bip_room_def bip_tail_def b'_def)
  have len: "length (le_bytes 8 (of_nat it) @ le_bytes 4 (ucast hv)) \<le> bip_room b" using room by simp
  have c: "bip_contents b' = bip_contents b"
    unfolding b'_def pb using contents_write [OF inv len] .
  obtain d where d: "bipbuf_push b' 16 = (d, 16)" "bip_inv d"
      "bip_contents d = bip_contents b' @ mem_read (bb_data b') ?t 16" "bb_size d = bb_size b'"
    using push_eq [OF inv', of 16] room r' by auto
  have "mem_read ?m ?t 16 = mem_read ?m ?t 8 @ mem_read ?m (?t + 8) 8" using mem_read_add [of ?m ?t 8 8] by simp
  moreover have "mem_read ?m ?t 8 = le_bytes 8 (of_nat it)"
  proof (rule mem_read_eqI)
    show "?m (?t + i) = le_bytes 8 (of_nat it) ! i" if "i < 8" for i using that by (simp add: pb nth_append)
  qed simp
  ultimately have e: "ents (mem_read ?m ?t 16) = [it]"
    using ents_Cons [of "mem_read ?m ?t 16" "[]"] it by (simp add: le_word_bytes unat_of_nat)
  have dv: "16 dvd length (bip_contents b)"
    using b by (simp add: bip_contents_def buf_ok_def length_front)
  have "ents (bip_contents d) = ents (bip_contents b) @ [it]" using d(3) c e ents_append [OF dv] by (simp add: b'_def)
  moreover have "buf_ok d"
  proof -
    have w: "unat (bb_size b) < 2 ^ 31" "unat (bb_a_end b) \<le> unat (bb_size b)" "unat (bb_b_end b) \<le> unat (bb_a_start b)" "unat (bb_a_start b) \<le> unat (bb_a_end b)"
      using inv unat_word_sizes(5) [OF inv] by (auto simp: bip_inv_def)
    have "unat (bb_b_end b + 16) = unat (bb_b_end b) + 16" if "bb_b_inuse b"
      using room that w by (intro unat_plus [of _ 16, simplified]) (simp add: bip_room_def)
    moreover have "unat (bb_a_end b + 16) = unat (bb_a_end b) + 16" if "\<not> bb_b_inuse b"
      using room that w by (intro unat_plus [of _ 16, simplified]) (simp add: bip_room_def)
    moreover have "d = check_for_switch_to_b (if bb_b_inuse b then b'\<lparr>bb_b_end := bb_b_end b + 16\<rparr> else b'\<lparr>bb_a_end := bb_a_end b + 16\<rparr>)"
      using d(1) by (auto simp: bipbuf_push_def Let_def b'_def split: if_splits)
    ultimately show ?thesis using b d(2,4) by (auto simp: buf_ok_def check_for_switch_to_b_def b'_def)
  qed
  ultimately show ?thesis using d(1) by blast
qed

text \<open>The reader takes the whole front.\<close>

lemma poll_front:
  assumes b: "buf_ok b" and p: "bipbuf_peek_all b = Some (i, sz)"
  shows "i = unat (bb_a_start b)" "unat sz = length (bip_front b)" "buf_ok (fst (bipbuf_poll b sz))"
    "ents (bip_contents b) = ents (bip_front b) @ ents (bip_contents (fst (bipbuf_poll b sz)))"
proof -
  have inv: "bip_inv b" using b by (simp add: buf_ok_def)
  have ne: "\<not> bipbuf_is_empty b" and sz: "sz = bb_a_end b - bb_a_start b" and i: "i = unat (bb_a_start b)"
    using p by (auto simp: bipbuf_peek_all_def split: if_splits)
  have le: "unat (bb_a_start b) \<le> unat (bb_a_end b)" using inv by (simp add: bip_inv_def)
  show "i = unat (bb_a_start b)" by (rule i)
  show l: "unat sz = length (bip_front b)" using le by (simp add: sz length_front unat_diff)
  obtain d where d: "bipbuf_poll b sz = (d, Some (unat (bb_a_start b)))" "bip_inv d" "bip_contents d = drop (unat sz) (bip_contents b)" "bb_size d = bb_size b"
    using poll_eq [OF inv, of sz] l front_empty [OF inv] ne by auto
  have "bip_contents b = bip_front b @ bip_contents d" using d(3) l by (simp add: bip_contents_def)
  then show "ents (bip_contents b) = ents (bip_front b) @ ents (bip_contents (fst (bipbuf_poll b sz)))"
    using ents_append [OF front_dvd [OF b]] d(1) by simp
  have "bb_a_start b + sz = bb_a_end b" by (simp add: sz)
  moreover have "\<not> bb_size b < ucast (bb_a_end b)"
    using unat_word_sizes(1) [OF inv] inv by (simp add: word_less_nat_alt bip_inv_def)
  ultimately have "d = check_for_switch_to_b (if bb_b_inuse b
      then b\<lparr>bb_a_start := 0, bb_a_end := bb_b_end b, bb_b_end := 0, bb_b_inuse := False\<rparr> else b\<lparr>bb_a_start := 0, bb_a_end := 0\<rparr>)"
    using d(1) ne by (auto simp: bipbuf_poll_def Let_def split: if_splits)
  then show "buf_ok (fst (bipbuf_poll b sz))"
    using b d(1,2,4) by (auto simp: buf_ok_def check_for_switch_to_b_def)
qed

section \<open>The whole state\<close>

definition all_refs :: "mc \<Rightarrow> (addr \<Rightarrow> nat) \<Rightarrow> addr \<Rightarrow> nat" where
  "all_refs s R x = R x + bump_count s x"

definition cache_inv ::
  "settings \<Rightarrow> (byte list \<Rightarrow> u32) \<Rightarrow> mc \<Rightarrow> (byte list \<rightharpoonup> addr) \<Rightarrow> (byte \<Rightarrow> addr list) \<Rightarrow> (addr \<Rightarrow> nat) \<Rightarrow> bool" where
  "cache_inv st hash s M Q R \<longleftrightarrow> store_inv st hash s M Q (all_refs s R) \<and> bufs_ok s"

text \<open>The values of the items somebody holds, with the bump buffers free to change.\<close>

definition vals :: "mc \<Rightarrow> mc \<Rightarrow> addr set \<Rightarrow> bool" where
  "vals s s' H \<longleftrightarrow> current_time s' = current_time s \<and> length (bump_bufs s') = length (bump_bufs s) \<and> (\<forall>x \<in> H.
     key (m_heap s' x) = key (m_heap s x) \<and> it_data (m_heap s' x) = it_data (m_heap s x) \<and>
     FLAGS_CONV (m_heap s' x) = FLAGS_CONV (m_heap s x) \<and> nbytes (m_heap s' x) = nbytes (m_heap s x))"

lemma keeps_vals: "keeps s s' H \<Longrightarrow> H' \<subseteq> H \<Longrightarrow> vals s s' H'"
  by (auto simp: keeps_def vals_def)

lemma vals_refl [simp]: "vals s s H"
  by (simp add: vals_def)

lemma vals_trans: "vals s s' H \<Longrightarrow> vals s' s'' H' \<Longrightarrow> H'' \<subseteq> H \<Longrightarrow> H'' \<subseteq> H' \<Longrightarrow> vals s s'' H''"
  unfolding vals_def by (metis subsetD)

lemma bump_same: "bump_bufs s' = bump_bufs s \<Longrightarrow> bump_count s' = bump_count s \<and> bufs_ok s' = bufs_ok s \<and> all_refs s' = all_refs s"
  by (simp add: bump_count_def bufs_ok_def all_refs_def fun_eq_iff)

lemma keeps_bump: "keeps s s' H \<Longrightarrow> bump_count s' = bump_count s \<and> bufs_ok s' = bufs_ok s \<and> all_refs s' = all_refs s"
  by (rule bump_same) (simp add: keeps_def)

lemma refs_incr: "all_refs s (R(x := R x + 1)) = (all_refs s R)(x := all_refs s R x + 1)"
  by (auto simp: all_refs_def)

lemma refs_decr: "0 < R x \<Longrightarrow> all_refs s (R(x := R x - 1)) = (all_refs s R)(x := all_refs s R x - 1)"
  by (auto simp: all_refs_def)

lemma cache_lift:
  assumes "cache_inv st hash s M Q R" "store_inv st hash s' M' Q' (all_refs s R')" "keeps s s' H"
  shows "cache_inv st hash s' M' Q' R'"
  using assms keeps_bump [OF assms(3)] by (simp add: cache_inv_def)

lemma cache_remove:
  assumes inv: "cache_inv st hash s M Q R" and r: "0 < R it"
  shows "\<exists>s'. do_item_remove it s = Some s' \<and> cache_inv st hash s' M Q (R(it := R it - 1)) \<and>
    keeps s s' (held M (all_refs s (R(it := R it - 1))))"
proof -
  have i: "store_inv st hash s M Q (all_refs s R)" using inv by (simp add: cache_inv_def)
  have "0 < all_refs s R it" using r by (simp add: all_refs_def)
  from store_remove [OF i this] obtain s' where "do_item_remove it s = Some s'"
      "store_inv st hash s' M Q (all_refs s (R(it := R it - 1)))" "keeps s s' (held M (all_refs s (R(it := R it - 1))))"
    unfolding refs_decr [where R = R and x = it and s = s, OF r] by blast
  then show ?thesis using cache_lift [OF inv] by blast
qed

lemma held_bound:
  assumes "store_inv st hash s M Q R" "x \<in> held M R"
  shows "x < 2 ^ 64"
proof -
  obtain F where F: "slabs_inv st (m_heap s) (m_slabs s) F" "in_use (m_slabs s) F = chunks_held (m_heap s) (held M R)"
    using store_invD(5) [OF assms(1)] by (auto simp: alloc_inv_def)
  obtain i where c: "x \<in> chunks (m_slabs s) i" using F(2) assms(2) by (auto simp: in_use_def chunks_held_def)
  have g: "geometry st (m_slabs s)" "page_settings st" "pages_ok st (m_slabs s)" using F(1) by (auto simp: slabs_inv_def)
  obtain p where "p \<in> pages (m_slabs s) i" "x < p + slab_page_size st" by (rule chunk_in_page [OF g(1,2) c])
  moreover from this have "p + slab_page_size st \<le> 2 ^ 64" using g(3) by (auto simp: pages_ok_def)
  ultimately show ?thesis by linarith
qed

text \<open>An asynchronous bump: the entry takes a reference, or nothing changes.\<close>

lemma cache_bump_async:
  assumes inv: "cache_inv st hash s M Q R" and it: "it \<in> held M (all_refs s R)" and r: "all_refs s R it < 65000"
    and t: "t < length (bump_bufs s)"
  shows "\<exists>ok s'. lru_bump_async t it hv s = (ok, s') \<and> cache_inv st hash s' M Q R \<and> vals s s' UNIV \<and>
    held M (all_refs s R) \<subseteq> held M (all_refs s' R) \<and> (\<forall>x. bump_count s' x \<le> bump_count s x + (if x = it then 1 else 0))"
proof -
  have i: "store_inv st hash s M Q (all_refs s R)" and bo: "bufs_ok s" using inv by (auto simp: cache_inv_def)
  let ?b = "bump_bufs s ! t" and ?s = "snd (refcount_incr it s)"
  let ?R = "(all_refs s R)(it := all_refs s R it + 1)"
  note inc = store_incr [OF i it r]
  have bs: "bump_bufs ?s = bump_bufs s" using inc(2) by (simp add: keeps_def)
  have b: "buf_ok (bump_buf ?b)" using bo t by (auto simp: bufs_ok_def)
  then have bi: "bip_inv (bump_buf ?b)" by (simp add: buf_ok_def)
  have it64: "it < 2 ^ 64" using held_bound [OF i it] .
  show ?thesis
  proof (cases "16 \<le> bip_room (bump_buf ?b)")
    case True
    let ?p = "(bump_buf ?b)\<lparr>bb_data := put_bump (bip_tail (bump_buf ?b)) it hv (bb_data (bump_buf ?b))\<rparr>"
    obtain c where c: "bipbuf_push ?p 16 = (c, 16)" "buf_ok c" "ents (bip_contents c) = ents (bip_contents (bump_buf ?b)) @ [it]"
      using push_entry [OF b True it64 refl] by blast
    let ?s' = "?s\<lparr>bump_bufs := (bump_bufs s)[t := ?b\<lparr>bump_buf := c\<rparr>]\<rparr>"
    have "bipbuf_request (bump_buf ?b) 16 = Some (bip_tail (bump_buf ?b))" using request_eq [OF bi, of 16] True by simp
    then have run: "lru_bump_async t it hv s = (True, ?s')" using c(1) by (simp add: lru_bump_async_def Let_def bs)
    have cnt: "bump_count ?s' x = bump_count s x + (if x = it then 1 else 0)" for x
      using sum_list_update_nat [OF t, of "\<lambda>b. count_list (ents (bip_contents (bump_buf b))) x" "?b\<lparr>bump_buf := c\<rparr>"] c(3)
      by (simp add: bump_count_def split: if_splits)
    have ar: "all_refs ?s' R = ?R" by (auto simp: all_refs_def cnt fun_eq_iff)
    have "store_inv st hash ?s' M Q ?R" by (rule store_cong [OF inc(1)]) simp_all
    moreover have "bufs_ok ?s'" using bo c(2) t by (auto simp: bufs_ok_def dest!: subsetD [OF set_update_subset_insert])
    ultimately have "cache_inv st hash ?s' M Q R" by (simp add: cache_inv_def ar)
    moreover have "vals s ?s' UNIV" using inc(2) by (simp add: keeps_def vals_def)
    moreover have "held M (all_refs s R) \<subseteq> held M (all_refs ?s' R)" by (auto simp: ar held_def)
    ultimately show ?thesis using run cnt by auto
  next
    case False
    let ?s1 = "?s\<lparr>bump_bufs := (bump_bufs s)[t := ?b\<lparr>bump_dropped := bump_dropped ?b + 1\<rparr>]\<rparr>"
    let ?s' = "snd (refcount_decr it ?s1)"
    have "bipbuf_request (bump_buf ?b) 16 = None" using request_eq [OF bi, of 16] False by simp
    then have run: "lru_bump_async t it hv s = (False, ?s')" by (simp add: lru_bump_async_def Let_def bs)
    have e: "m_heap ?s' = m_heap s" by (simp add: refcount_decr_def refcount_incr_def m_upd_def upd_def fun_eq_iff)
    have same: "mc_same s ?s'" by (simp add: refcount_decr_def refcount_incr_def m_upd_def mc_same_def)
    have bb: "bump_bufs ?s' = (bump_bufs s)[t := ?b\<lparr>bump_dropped := bump_dropped ?b + 1\<rparr>]" by (simp add: refcount_decr_def m_upd_def)
    have cnt: "bump_count ?s' x = bump_count s x" for x
      using sum_list_update_nat [OF t, of "\<lambda>b. count_list (ents (bip_contents (bump_buf b))) x" "?b\<lparr>bump_dropped := bump_dropped ?b + 1\<rparr>"]
      by (simp add: bump_count_def bb)
    have ar: "all_refs ?s' R = all_refs s R" by (simp add: all_refs_def cnt fun_eq_iff)
    have "store_inv st hash ?s' M Q (all_refs s R)" by (rule store_cong [OF i same e])
    moreover have "bufs_ok ?s'" using bo b by (auto simp: bufs_ok_def bb dest!: subsetD [OF set_update_subset_insert])
    ultimately have "cache_inv st hash ?s' M Q R" by (simp add: cache_inv_def ar)
    moreover have "vals s ?s' UNIV" by (simp add: vals_def e bb) (simp add: refcount_decr_def refcount_incr_def m_upd_def)
    ultimately show ?thesis using run ar cnt by auto
  qed
qed

end
