(* ===== verification/Items_Get.thy ===== *)
theory Items_Get
  imports Items_Bump
begin

unbundle bit_operations_syntax

text \<open>
  The whole state (\<open>cache_ok\<close>) under the operations of a client and of the LRU maintainer: hits, lookup with lazy
  expiry, touch, linking, replacing, unlinking, releasing, allocation, the maintainer's work on a class and on
  the bump buffers.
\<close>

definition cache_ok :: "settings \<Rightarrow> (byte list \<Rightarrow> u32) \<Rightarrow> mc \<Rightarrow> (byte list \<rightharpoonup> addr) \<Rightarrow> (addr \<Rightarrow> nat) \<Rightarrow> bool" where
  "cache_ok st hash s M R \<longleftrightarrow> (\<exists>Q. cache_inv st hash s M Q R)"

text \<open>An operation leads to a consistent state and keeps what the items are that exist before and after.\<close>

definition moved ::
  "settings \<Rightarrow> (byte list \<Rightarrow> u32) \<Rightarrow> mc \<Rightarrow> (byte list \<rightharpoonup> addr) \<Rightarrow> (addr \<Rightarrow> nat) \<Rightarrow>
   mc \<Rightarrow> (byte list \<rightharpoonup> addr) \<Rightarrow> (addr \<Rightarrow> nat) \<Rightarrow> bool" where
  "moved st hash s M R s' M' R' \<longleftrightarrow> cache_ok st hash s' M' R' \<and> vals s s' (held M R \<inter> held M' R')"

lemma movedI: "cache_inv st hash s' M' Q' R' \<Longrightarrow> vals s s' (held M R \<inter> held M' R') \<Longrightarrow> moved st hash s M R s' M' R'"
  unfolding moved_def cache_ok_def by blast

lemma vals_sub: "vals s s' H \<Longrightarrow> H' \<subseteq> H \<Longrightarrow> vals s s' H'"
  by (auto simp: vals_def)

lemma cache_okD: "cache_ok st hash s M R \<Longrightarrow> \<exists>Q. store_inv st hash s M Q (all_refs s R) \<and> bufs_ok s"
  by (auto simp: cache_ok_def cache_inv_def)

lemma held_refs: "held M R \<subseteq> held M (all_refs s R)"
  by (auto simp: held_def all_refs_def)

text \<open>A step of the store that leaves the bump buffers alone.\<close>

lemma store_moved:
  assumes "cache_inv st hash s M Q R" "store_inv st hash s' M' Q' (all_refs s R')" "keeps s s' (held M' (all_refs s R'))"
  shows "moved st hash s M R s' M' R'"
  using cache_lift [OF assms] keeps_vals [OF assms(3), of "held M R \<inter> held M' R'"] held_refs [of M' R' s]
  by (blast intro: movedI)

section \<open>Hits\<close>

lemma cache_harmless:
  assumes "cache_inv st hash s M Q R" "it \<in> held M (all_refs s R)" "harmless f" "\<And>x. it_data (f x) = it_data x \<and> cflags (f x) = cflags x"
  shows "cache_inv st hash (m_upd it f s) M Q R" "vals s (m_upd it f s) UNIV"
proof -
  have i: "store_inv st hash s M Q (all_refs s R)" using assms(1) by (simp add: cache_inv_def)
  note k = keeps_write [OF assms(3,4), of s it UNIV]
  show "cache_inv st hash (m_upd it f s) M Q R" by (rule cache_lift [OF assms(1) harmless_write [OF i assms(2,3)] k])
  show "vals s (m_upd it f s) UNIV" by (rule keeps_vals [OF k subset_refl])
qed

lemma cache_update:
  assumes inv: "cache_inv st hash s M Q R" and it: "it \<in> held M (all_refs s R)"
  shows "\<exists>Q'. cache_inv st hash (do_item_update st it s) M Q' R" "keeps s (do_item_update st it s) UNIV"
proof -
  have i: "store_inv st hash s M Q (all_refs s R)" using inv by (simp add: cache_inv_def)
  note u = store_update [OF i it]
  show "keeps s (do_item_update st it s) UNIV" by (rule u(2))
  show "\<exists>Q'. cache_inv st hash (do_item_update st it s) M Q' R" using u(1) cache_lift [OF inv _ u(2)] by blast
qed

lemma cache_bump:
  assumes inv: "cache_inv st hash s M Q R" and it: "it \<in> held M (all_refs s R)" and r: "all_refs s R it < 65000"
    and t: "t < length (bump_bufs s)"
  shows "(\<exists>Q'. cache_inv st hash (do_item_bump st t it hv s) M Q' R) \<and> vals s (do_item_bump st t it hv s) UNIV"
proof -
  let ?A = "set_flag ITEM_ACTIVE" and ?F = "set_flag ITEM_FETCHED" and ?C = "clear_flag ITEM_ACTIVE"
  have hs: "harmless ?A" "harmless ?F" "harmless ?C" by simp_all
  have fd: "it_data (?A x) = it_data x \<and> cflags (?A x) = cflags x" "it_data (?F x) = it_data x \<and> cflags (?F x) = cflags x"
    "it_data (?C x) = it_data x \<and> cflags (?C x) = cflags x" for x by simp_all
  note F = cache_harmless [OF inv it hs(2) fd(2)]
  note A = cache_harmless [OF inv it hs(1) fd(1)]
  have ar: "all_refs (m_upd it f s) R = all_refs s R" for f using bump_same [of "m_upd it f s" s] by simp
  have itA: "it \<in> held M (all_refs (m_upd it f s) R)" for f using it by (simp add: ar)
  note T = cache_harmless [OF A(1) itA, of "\<lambda>x. x\<lparr>time := current_time s\<rparr>", simplified]
  obtain ok s1 where 1: "lru_bump_async t it hv (m_upd it ?A s) = (ok, s1)" "cache_inv st hash s1 M Q R"
      "vals (m_upd it ?A s) s1 UNIV" "held M (all_refs (m_upd it ?A s) R) \<subseteq> held M (all_refs s1 R)"
    using cache_bump_async [OF A(1) itA, of t hv] r t by (auto simp: ar)
  have it1: "it \<in> held M (all_refs s1 R)" using 1(4) itA by blast
  note C = cache_harmless [OF 1(2) it1 hs(3) fd(3)]
  have v1: "vals s s1 UNIV" by (rule vals_trans [OF A(2) 1(3)]) simp_all
  have vC: "vals s (m_upd it ?C s1) UNIV" by (rule vals_trans [OF v1 C(2)]) simp_all
  have vT: "vals s (m_upd it (\<lambda>x. x\<lparr>time := current_time s\<rparr>) (m_upd it ?A s)) UNIV" by (rule vals_trans [OF A(2) T(2)]) simp_all
  note U = cache_update [OF F(1) itA]
  have vU: "vals s (do_item_update st it (m_upd it ?F s)) UNIV" by (rule vals_trans [OF F(2) keeps_vals [OF U(2) subset_refl]]) simp_all
  consider "\<not> lru_segmented st" | "lru_segmented st" "has_flag (m_heap s it) ITEM_ACTIVE"
    | "lru_segmented st" "\<not> has_flag (m_heap s it) ITEM_ACTIVE" "\<not> has_flag (m_heap s it) ITEM_FETCHED"
    | "lru_segmented st" "\<not> has_flag (m_heap s it) ITEM_ACTIVE" "has_flag (m_heap s it) ITEM_FETCHED" "ITEM_lruid (m_heap s it) \<noteq> COLD_LRU"
    | "lru_segmented st" "\<not> has_flag (m_heap s it) ITEM_ACTIVE" "has_flag (m_heap s it) ITEM_FETCHED" "ITEM_lruid (m_heap s it) = COLD_LRU"
    by blast
  then show ?thesis
  proof cases
    case 1
    then have "do_item_bump st t it hv s = do_item_update st it (m_upd it ?F s)" by (simp add: do_item_bump_def)
    then show ?thesis using U(1) vU by simp
  next
    case 2
    then have "do_item_bump st t it hv s = s" by (simp add: do_item_bump_def)
    then show ?thesis using inv by auto
  next
    case 3
    then have "do_item_bump st t it hv s = m_upd it ?F s" by (simp add: do_item_bump_def)
    then show ?thesis using F by auto
  next
    case 4
    then have "do_item_bump st t it hv s = m_upd it (\<lambda>x. x\<lparr>time := current_time s\<rparr>) (m_upd it ?A s)"
      by (simp add: do_item_bump_def Let_def)
    then show ?thesis using T(1) vT by auto
  next
    case 5
    then have "do_item_bump st t it hv s = (if \<not> ok then m_upd it ?C s1 else s1)"
      using 1(1) by (simp add: do_item_bump_def Let_def)
    then show ?thesis using 1(2) C(1) v1 vC by (cases ok) auto
  qed
qed

section \<open>Lookup\<close>

definition item_dead :: "settings \<Rightarrow> u32 \<Rightarrow> item \<Rightarrow> bool" where
  "item_dead st now x \<longleftrightarrow> item_is_flushed st now x \<or> (exptime x \<noteq> 0 \<and> exptime x \<le> now)"

lemma mapped_held: "M k = Some x \<Longrightarrow> x \<in> ran M \<and> x \<in> held M R"
  by (auto simp: held_def ran_def)

lemma dead_incr [simp]: "item_dead st now (x\<lparr>refcount := r\<rparr>) = item_dead st now x"
  "item_is_flushed st now (x\<lparr>refcount := r\<rparr>) = item_is_flushed st now x"
  by (simp_all add: item_dead_def item_is_flushed_def ITEM_get_cas_def)

lemma cache_get_none: "cache_inv st hash s M Q R \<Longrightarrow> M k = None \<Longrightarrow> do_item_get st t k (hash k) u s = Some (NULL, s)"
  using assoc_find_rep [OF store_invD(1), of st hash s M Q "all_refs s R" k] by (simp add: do_item_get_def cache_inv_def)

lemma cache_get_some:
  assumes "cache_inv st hash s M Q R" "M k = Some x"
  shows "do_item_get st t k (hash k) u s =
    (let s1 = snd (refcount_incr x s) in
     if item_is_flushed st (current_time s) (m_heap s x) then do {
       s \<leftarrow> do_item_unlink x (hash k) s1; s \<leftarrow> do_item_remove x s;
       Some (NULL, s\<lparr>get_flushed := (get_flushed s)(t := get_flushed s t + 1)\<rparr>) }
     else if exptime (m_heap s x) \<noteq> 0 \<and> exptime (m_heap s x) \<le> current_time s then do {
       s \<leftarrow> do_item_unlink x (hash k) s1; s \<leftarrow> do_item_remove x s;
       Some (NULL, s\<lparr>get_expired := (get_expired s)(t := get_expired s t + 1)\<rparr>) }
     else Some (x, if u then do_item_bump st t x (hash k) s1 else s1))"
proof -
  have i: "store_inv st hash s M Q (all_refs s R)" using assms(1) by (simp add: cache_inv_def)
  have nn: "x \<noteq> NULL" using held_nonnull [OF i] mapped_held [of M k x, OF assms(2)] by blast
  have e: "m_heap (snd (refcount_incr x s)) x = (m_heap s x)\<lparr>refcount := refcount (m_heap s x) + 1\<rparr>"
    "current_time (snd (refcount_incr x s)) = current_time s"
    by (simp_all add: refcount_incr_def upd_apply)
  show ?thesis
    using assoc_find_rep [OF store_invD(1) [OF i], of k] assms(2) nn by (simp add: do_item_get_def e Let_def)
qed

lemma cache_get_dead:
  assumes inv: "cache_inv st hash s M Q R" and k: "M k = Some x" and r: "small_refs (all_refs s R)"
    and d: "item_dead st (current_time s) (m_heap s x)"
  shows "\<exists>s'. do_item_get st t k (hash k) u s = Some (NULL, s') \<and> moved st hash s M R s' (M(k := None)) R \<and> bump_bufs s' = bump_bufs s"
proof -
  have i: "store_inv st hash s M Q (all_refs s R)" using inv by (simp add: cache_inv_def)
  have x: "x \<in> ran M" "x \<in> held M (all_refs s R)" using mapped_held [of M k x, OF k] by blast+
  have r65: "all_refs s R x < 65000" using r by (simp add: small_refs_def)
  note inc = store_incr [OF i x(2) r65]
  let ?s1 = "snd (refcount_incr x s)"
  have ky: "key (m_heap ?s1 x) = k" using mapped_key [OF inc(1) k] .
  obtain s2 s3 Q3 where s3: "do_item_unlink x (hash k) ?s1 = Some s2" "do_item_remove x s2 = Some s3"
      "store_inv st hash s3 (M(k := None)) Q3 (all_refs s R)" "keeps ?s1 s3 (held (M(k := None)) (all_refs s R))"
    using unlink_and_release [OF inc(1) x(1)] unfolding ky by blast
  have kp: "keeps s s3 (held (M(k := None)) (all_refs s R))" using keeps_trans [OF inc(2) s3(4)] by blast
  have mv: "moved st hash s M R (s3\<lparr>get_flushed := f, get_expired := g\<rparr>) (M(k := None)) R" for f g
  proof (rule store_moved [OF inv])
    show "store_inv st hash (s3\<lparr>get_flushed := f, get_expired := g\<rparr>) (M(k := None)) Q3 (all_refs s R)"
      by (rule store_cong [OF s3(3)]) (simp_all add: mc_same_def)
    show "keeps s (s3\<lparr>get_flushed := f, get_expired := g\<rparr>) (held (M(k := None)) (all_refs s R))" using kp by (simp add: keeps_def)
  qed
  have bb: "bump_bufs s3 = bump_bufs s" using kp by (simp add: keeps_def)
  have mv1: "moved st hash s M R (s3\<lparr>get_flushed := f\<rparr>) (M(k := None)) R" for f using mv [where f = f and g = "get_expired s3"] by simp
  have mv2: "moved st hash s M R (s3\<lparr>get_expired := g\<rparr>) (M(k := None)) R" for g using mv [where f = "get_flushed s3" and g = g] by simp
  show ?thesis
  proof (cases "item_is_flushed st (current_time s) (m_heap s x)")
    case True
    then show ?thesis unfolding cache_get_some [OF inv k] using s3(1,2) mv1 bb by simp
  next
    case False
    then show ?thesis unfolding cache_get_some [OF inv k] using s3(1,2) mv2 bb d by (simp add: item_dead_def)
  qed
qed

lemma cache_incr:
  assumes inv: "cache_inv st hash s M Q R" and x: "x \<in> held M (all_refs s R)" and r: "all_refs s R x < 65000"
  shows "cache_inv st hash (snd (refcount_incr x s)) M Q (R(x := R x + 1))" "keeps s (snd (refcount_incr x s)) UNIV"
proof -
  have i: "store_inv st hash s M Q (all_refs s R)" using inv by (simp add: cache_inv_def)
  note inc = store_incr [OF i x r]
  show "keeps s (snd (refcount_incr x s)) UNIV" by (rule inc(2))
  show "cache_inv st hash (snd (refcount_incr x s)) M Q (R(x := R x + 1))"
    by (rule cache_lift [OF inv _ inc(2)]) (use inc(1) in \<open>unfold refs_incr\<close>)
qed

lemma cache_get_live:
  assumes inv: "cache_inv st hash s M Q R" and k: "M k = Some x" and r: "all_refs s R x < 64000"
    and d: "\<not> item_dead st (current_time s) (m_heap s x)" and t: "t < length (bump_bufs s)"
  shows "\<exists>s'. do_item_get st t k (hash k) u s = Some (x, s') \<and> moved st hash s M R s' M (R(x := R x + 1)) \<and> (\<not> u \<longrightarrow> bump_bufs s' = bump_bufs s)"
proof -
  have x: "x \<in> ran M" "x \<in> held M (all_refs s R)" using mapped_held [of M k x, OF k] by blast+
  let ?s1 = "snd (refcount_incr x s)" and ?R = "R(x := R x + 1)"
  have "all_refs s R x < 65000" using r by simp
  note inc = cache_incr [OF inv x(2) this]
  have b1: "bump_bufs ?s1 = bump_bufs s" using inc(2) by (simp add: keeps_def)
  have ar: "all_refs ?s1 ?R x = all_refs s R x + 1" using bump_same [OF b1] by (simp add: all_refs_def)
  have v1: "vals s ?s1 UNIV" by (rule keeps_vals [OF inc(2) subset_refl])
  have B: "(\<exists>Q'. cache_inv st hash (do_item_bump st t x (hash k) ?s1) M Q' ?R) \<and> vals ?s1 (do_item_bump st t x (hash k) ?s1) UNIV"
    by (rule cache_bump [OF inc(1)]) (use mapped_held [of M k x, OF k] ar r t b1 in simp_all)
  then have vB: "vals s (do_item_bump st t x (hash k) ?s1) UNIV" using vals_trans [OF v1] by blast
  have "moved st hash s M R (if u then do_item_bump st t x (hash k) ?s1 else ?s1) M ?R"
    using B inc(1) vals_sub [OF vB subset_UNIV] vals_sub [OF v1 subset_UNIV] by (auto intro: movedI)
  then show ?thesis unfolding cache_get_some [OF inv k] Let_def using d b1 by (auto simp: item_dead_def)
qed

section \<open>The operations of the clients\<close>

lemma moved_trans:
  assumes "moved st hash s M R s1 M1 R1" "moved st hash s1 M1 R1 s2 M2 R2" "held M R \<inter> held M2 R2 \<subseteq> held M1 R1"
  shows "moved st hash s M R s2 M2 R2"
  using assms vals_trans [of s s1 "held M R \<inter> held M1 R1" s2 "held M1 R1 \<inter> held M2 R2" "held M R \<inter> held M2 R2"]
  unfolding moved_def by blast

lemma moved_refl: "cache_ok st hash s M R \<Longrightarrow> moved st hash s M R s M R"
  by (simp add: moved_def)

lemma moved_ok: "moved st hash s M R s' M' R' \<Longrightarrow> cache_ok st hash s' M' R'"
  by (simp add: moved_def)

lemma moved_remove:
  assumes "cache_ok st hash s M R" "0 < R it"
  shows "\<exists>s'. do_item_remove it s = Some s' \<and> moved st hash s M R s' M (R(it := R it - 1))"
proof -
  obtain Q where Q: "cache_inv st hash s M Q R" using assms(1) by (auto simp: cache_ok_def)
  obtain s' where s': "do_item_remove it s = Some s'" "cache_inv st hash s' M Q (R(it := R it - 1))"
      "keeps s s' (held M (all_refs s (R(it := R it - 1))))"
    using cache_remove [OF Q assms(2)] by blast
  have "vals s s' (held M R \<inter> held M (R(it := R it - 1)))"
    using keeps_vals [OF s'(3)] held_refs [of M "R(it := R it - 1)" s] by blast
  then show ?thesis using s'(1) movedI [OF s'(2)] by blast
qed

lemma moved_unlink:
  assumes "cache_ok st hash s M R" "M k = Some it"
  shows "\<exists>s'. do_item_unlink it (hash k) s = Some s' \<and> moved st hash s M R s' (M(k := None)) R"
proof -
  obtain Q where Q: "cache_inv st hash s M Q R" using assms(1) by (auto simp: cache_ok_def)
  then have i: "store_inv st hash s M Q (all_refs s R)" by (simp add: cache_inv_def)
  have it: "it \<in> ran M" using assms(2) by (auto simp: ran_def)
  obtain s' Q' where s': "do_item_unlink it (hash k) s = Some s'" "store_inv st hash s' (M(k := None)) Q' (all_refs s R)"
      "keeps s s' (held (M(k := None)) (all_refs s R))"
    using store_unlink [OF i it] unfolding mapped_key [OF i assms(2)] by blast
  then show ?thesis using store_moved [OF Q] by blast
qed

lemma moved_unlink_other:
  assumes "cache_ok st hash s M R" "0 < R it" "it \<notin> ran M"
  shows "do_item_unlink it hv s = Some s"
proof -
  obtain Q where i: "store_inv st hash s M Q (all_refs s R)" using cache_okD [OF assms(1)] by blast
  show ?thesis by (rule unlink_unlinked [OF i _ assms(3)]) (use assms(2) in \<open>simp add: held_def all_refs_def\<close>)
qed

lemma moved_link:
  assumes "cache_ok st hash s M R" "it \<notin> ran M" "0 < R it" "all_refs s R it < 65000" "M (key (m_heap s it)) = None"
  defines "k \<equiv> key (m_heap s it)"
  shows "moved st hash s M R (do_item_link st it (hash k) s) (M(k \<mapsto> it)) R"
proof -
  obtain Q where Q: "cache_inv st hash s M Q R" using assms(1) by (auto simp: cache_ok_def)
  then have i: "store_inv st hash s M Q (all_refs s R)" by (simp add: cache_inv_def)
  have r: "0 < all_refs s R it" using assms(3) by (simp add: all_refs_def)
  show ?thesis unfolding k_def by (rule store_moved [OF Q store_link [OF i assms(2) r assms(4,5)]])
qed

lemma held_refsI: "0 < R it \<Longrightarrow> it \<in> held M R"
  by (simp add: held_def)

lemma moved_key: "moved st hash s M R s' M' R' \<Longrightarrow> 0 < R it \<Longrightarrow> 0 < R' it \<Longrightarrow> key (m_heap s' it) = key (m_heap s it)"
  by (simp add: moved_def vals_def held_def)

lemma unlink_bufs:
  assumes "cache_ok st hash s M R" "M k = Some it" "do_item_unlink it (hash k) s = Some s'"
  shows "all_refs s' R' = all_refs s R'"
proof -
  obtain Q where Q: "cache_inv st hash s M Q R" using assms(1) by (auto simp: cache_ok_def)
  then have i: "store_inv st hash s M Q (all_refs s R)" by (simp add: cache_inv_def)
  have it: "it \<in> ran M" using assms(2) by (auto simp: ran_def)
  have "keeps s s' (held (M(k := None)) (all_refs s R))"
    using store_unlink [OF i it] assms(3) unfolding mapped_key [OF i assms(2)] by auto
  then show ?thesis using keeps_bump [of s s'] by simp
qed

lemma cache_inj: "cache_ok st hash s M R \<Longrightarrow> M k = Some x \<Longrightarrow> M k' = Some x \<Longrightarrow> k = k'"
  by (auto dest!: cache_okD dest: mapped_key)

lemma ran_mono_del: "ran (M(k := None)) \<subseteq> ran M"
  by (auto simp: ran_def)

lemma moved_replace:
  assumes ok: "cache_ok st hash s M R" and o: "M k = Some old" "0 < R old" and n: "it \<notin> ran M" "0 < R it" "all_refs s R it < 65000" "key (m_heap s it) = k"
  shows "\<exists>s'. do_item_replace st old it (hash k) s = Some s' \<and> moved st hash s M R s' (M(k \<mapsto> it)) R"
proof -
  obtain s1 where 1: "do_item_unlink old (hash k) s = Some s1" "moved st hash s M R s1 (M(k := None)) R"
    using moved_unlink [of st hash s M R k old, OF ok o(1)] by blast
  have k1: "key (m_heap s1 it) = k" using moved_key [OF 1(2) n(2,2)] n(4) by simp
  have nr: "it \<notin> ran (M(k := None))" using n(1) ran_mono_del [of M k] by blast
  have r1: "all_refs s1 R it < 65000" unfolding unlink_bufs [of st hash s M R k old s1, OF ok o(1) 1(1)] by (rule n(3))
  have "(M(k := None)) (key (m_heap s1 it)) = None" by (simp add: k1)
  from moved_link [OF moved_ok [OF 1(2)] nr n(2) r1 this]
  have "moved st hash s1 (M(k := None)) R (do_item_link st it (hash k) s1) (M(k \<mapsto> it)) R" by (simp only: k1 fun_upd_upd)
  moreover have "held M R \<inter> held (M(k \<mapsto> it)) R \<subseteq> held (M(k := None)) R"
    using n(2) ran_map_upd [of "M(k := None)" k it] by (auto simp: held_def)
  ultimately have "moved st hash s M R (do_item_link st it (hash k) s1) (M(k \<mapsto> it)) R" by (rule moved_trans [OF 1(2)])
  then show ?thesis using 1(1) by (simp add: do_item_replace_def)
qed

text \<open>What a lookup finds.\<close>

definition live :: "settings \<Rightarrow> mc \<Rightarrow> (byte list \<rightharpoonup> addr) \<Rightarrow> byte list \<rightharpoonup> addr" where
  "live st s M k = (case M k of None \<Rightarrow> None | Some x \<Rightarrow> if item_dead st (current_time s) (m_heap s x) then None else Some x)"

definition few_refs :: "(addr \<Rightarrow> nat) \<Rightarrow> bool" where
  "few_refs R \<longleftrightarrow> (\<forall>x. R x < 64000)"

definition plus_ref :: "addr option \<Rightarrow> (addr \<Rightarrow> nat) \<Rightarrow> addr \<Rightarrow> nat" where
  "plus_ref x R = (case x of None \<Rightarrow> R | Some x \<Rightarrow> R(x := R x + 1))"

definition addr_of :: "addr option \<Rightarrow> addr" where
  "addr_of x = (case x of None \<Rightarrow> NULL | Some x \<Rightarrow> x)"

lemma few_small: "few_refs R \<Longrightarrow> small_refs R"
  unfolding few_refs_def small_refs_def by (intro allI, drule spec, erule less_trans) simp

lemma moved_get:
  assumes ok: "cache_ok st hash s M R" and r: "few_refs (all_refs s R)" and t: "t < length (bump_bufs s)"
  shows "\<exists>s'. do_item_get st t k (hash k) u s = Some (addr_of (live st s M k), s') \<and>
    moved st hash s M R s' (M(k := live st s M k)) (plus_ref (live st s M k) R) \<and> (\<not> u \<longrightarrow> bump_bufs s' = bump_bufs s)"
proof -
  obtain Q where Q: "cache_inv st hash s M Q R" using ok by (auto simp: cache_ok_def)
  show ?thesis
  proof (cases "M k")
    case None
    then have "M(k := live st s M k) = M" by (auto simp: live_def)
    then show ?thesis using cache_get_none [OF Q None] moved_refl [OF ok] None by (simp add: live_def plus_ref_def addr_of_def)
  next
    case (Some x)
    show ?thesis
    proof (cases "item_dead st (current_time s) (m_heap s x)")
      case True
      then show ?thesis
        using cache_get_dead [where x = x and k = k, OF Q Some few_small [OF r] True, of t u] Some by (auto simp: live_def plus_ref_def addr_of_def)
    next
      case False
      have rx: "all_refs s R x < 64000" using r by (simp add: few_refs_def)
      have "M(k := live st s M k) = M" using Some False by (auto simp: live_def)
      then show ?thesis
        using cache_get_live [where x = x and k = k, OF Q Some rx False t, of u] Some False by (auto simp: live_def plus_ref_def addr_of_def)
    qed
  qed
qed

lemma moved_harmless:
  assumes "moved st hash s M R s1 M1 R1" "it \<in> held M1 R1" "harmless f" "\<And>x. it_data (f x) = it_data x \<and> cflags (f x) = cflags x"
  shows "moved st hash s M R (m_upd it f s1) M1 R1"
proof -
  obtain Q where Q: "cache_inv st hash s1 M1 Q R1" using assms(1) by (auto simp: moved_def cache_ok_def)
  have it: "it \<in> held M1 (all_refs s1 R1)" using assms(2) held_refs by blast
  note h = cache_harmless [OF Q it assms(3,4)]
  have "moved st hash s1 M1 R1 (m_upd it f s1) M1 R1" by (rule movedI [OF h(1) vals_sub [OF h(2) subset_UNIV]])
  then show ?thesis using moved_trans [OF assms(1)] by blast
qed

lemma live_some: "live st s M k = Some x \<Longrightarrow> M k = Some x"
  by (auto simp: live_def split: option.splits if_splits)

lemma live_nonnull: "cache_ok st hash s M R \<Longrightarrow> live st s M k = Some x \<Longrightarrow> x \<noteq> NULL"
  using held_nonnull mapped_held [of M k x] cache_okD [of st hash s M R] live_some [of st s M k x] by metis

lemma moved_touch:
  assumes ok: "cache_ok st hash s M R" and r: "few_refs (all_refs s R)" and t: "t < length (bump_bufs s)"
  shows "\<exists>s'. do_item_touch st t k etime (hash k) s = Some (addr_of (live st s M k), s') \<and>
    moved st hash s M R s' (M(k := live st s M k)) (plus_ref (live st s M k) R)"
proof -
  obtain s1 where 1: "do_item_get st t k (hash k) True s = Some (addr_of (live st s M k), s1)"
      "moved st hash s M R s1 (M(k := live st s M k)) (plus_ref (live st s M k) R)"
    using moved_get [OF assms, of k True] by blast
  show ?thesis
  proof (cases "live st s M k")
    case None
    then show ?thesis using 1 by (simp add: do_item_touch_def addr_of_def)
  next
    case (Some x)
    then have "x \<in> held (M(k := live st s M k)) (plus_ref (live st s M k) R)" by (simp add: held_def plus_ref_def)
    then have "moved st hash s M R (m_upd x (\<lambda>x. x\<lparr>exptime := etime\<rparr>) s1) (M(k := live st s M k)) (plus_ref (live st s M k) R)"
      by (rule moved_harmless [OF 1(2)]) simp_all
    then show ?thesis using 1(1) Some live_nonnull [OF ok Some] by (simp add: do_item_touch_def addr_of_def)
  qed
qed

section \<open>Eviction and allocation\<close>

lemma pull_moved:
  assumes "cache_ok st hash s M R" "\<And>Q. store_inv st hash s M Q (all_refs s R) \<Longrightarrow> pull_result {} st hash s M (all_refs s R) s'"
  shows "\<exists>M'. M' \<subseteq>\<^sub>m M \<and> moved st hash s M R s' M' R"
proof -
  obtain Q where Q: "cache_inv st hash s M Q R" using assms(1) by (auto simp: cache_ok_def)
  then have "store_inv st hash s M Q (all_refs s R)" by (simp add: cache_inv_def)
  from assms(2) [OF this] obtain M' Q' where "store_inv st hash s' M' Q' (all_refs s R)" "M' \<subseteq>\<^sub>m M" "keeps s s' (held M' (all_refs s R))"
    by (auto simp: pull_result_def evicts_def)
  then show ?thesis using store_moved [OF Q] by blast
qed

lemma moved_juggle:
  assumes ok: "cache_ok st hash s M R" and tr: "tail_repair_time st = 0" and r: "few_refs (all_refs s R)"
  shows "\<exists>d s' M'. lru_maintainer_juggle st hash fh fw lk lk' cls s = Some (d, s') \<and> M' \<subseteq>\<^sub>m M \<and> moved st hash s M R s' M' R"
proof -
  note j = lru_maintainer_juggle_ok [OF _ tr few_small [OF r], of hash s M _ fh fw lk lk' cls]
  obtain d s' where s': "lru_maintainer_juggle st hash fh fw lk lk' cls s = Some (d, s')" using cache_okD [OF ok] j by blast
  have "pull_result {} st hash s M (all_refs s R) s'" if "store_inv st hash s M Q (all_refs s R)" for Q
    using j [OF that] s' by auto
  then show ?thesis using pull_moved [OF ok] s' by blast
qed

text \<open>Items whose lock somebody holds: no \<open>item_trylock\<close> succeeds on them.\<close>

definition locked :: "os \<Rightarrow> addr set" where
  "locked os = {x. \<forall>i. \<not> os_lock os i x}"

lemma moved_alloc:
  assumes ok: "cache_ok st hash s M R" and tr: "tail_repair_time st = 0" and os: "os_ok st os" and r: "few_refs (all_refs s R)"
    and plain: "item_total st (length k) fl nb \<le> slab_chunk_size_max st"
  shows "\<exists>it s' M'. do_item_alloc st hash os k fl etime nb s = Some (it, s') \<and> evicts (locked os) M M' \<and> bump_bufs s' = bump_bufs s \<and>
    (if it = NULL then moved st hash s M R s' M' R
     else it \<notin> ran M' \<and> R it = 0 \<and> bump_count s it = 0 \<and> is_item (m_heap s' it) k fl etime nb \<and> moved st hash s M' R s' M' (R(it := 1)))"
proof -
  obtain Q where Q: "cache_inv st hash s M Q R" using ok by (auto simp: cache_ok_def)
  then have i: "store_inv st hash s M Q (all_refs s R)" by (simp add: cache_inv_def)
  have lk: "\<forall>x \<in> locked os. \<forall>i. \<not> os_lock os i x" by (simp add: locked_def)
  obtain it s' where s': "do_item_alloc st hash os k fl etime nb s = Some (it, s')" "new_result (locked os) st hash s M (all_refs s R) it s'"
      "it \<noteq> NULL \<longrightarrow> is_item (m_heap s' it) k fl etime nb"
    using do_item_alloc_ok [OF i tr os few_small [OF r] lk plain] by blast
  obtain M' Q' where M': "evicts (locked os) M M'" "keeps s s' (held M' (all_refs s R))"
      "if it = NULL then store_inv st hash s' M' Q' (all_refs s R)
       else it \<notin> held M' (all_refs s R) \<and> store_inv st hash s' M' Q' ((all_refs s R)(it := 1))"
    using s'(2) by (auto simp: new_result_def)
  have bb: "bump_bufs s' = bump_bufs s" using M'(2) by (simp add: keeps_def)
  show ?thesis
  proof (cases "it = NULL")
    case True
    then have "moved st hash s M R s' M' R" using store_moved [OF Q] M' by simp
    then show ?thesis using s'(1) True M'(1) bb by auto
  next
    case False
    then have n: "it \<notin> ran M'" "R it = 0" "bump_count s it = 0" using M'(3) by (auto simp: held_def all_refs_def)
    then have ar: "all_refs s (R(it := 1)) = (all_refs s R)(it := 1)" by (auto simp: all_refs_def)
    have ci: "cache_inv st hash s' M' Q' (R(it := 1))" by (rule cache_lift [OF Q _ M'(2)]) (use M'(3) False ar in simp)
    have "held M' R \<inter> held M' (R(it := 1)) \<subseteq> held M' (all_refs s R)" by (auto simp: held_def all_refs_def)
    then have "moved st hash s M' R s' M' (R(it := 1))" using movedI [OF ci] keeps_vals [OF M'(2)] by blast
    then show ?thesis using s'(1,3) False M'(1) bb n by auto
  qed
qed

section \<open>The maintainer and the bump buffers\<close>

definition minus_refs :: "(addr \<Rightarrow> nat) \<Rightarrow> addr list \<Rightarrow> addr \<Rightarrow> nat" where
  "minus_refs R xs x = R x - count_list xs x"

lemma ents_read:
  assumes "16 \<le> n"
  shows "ents (mem_read m i n) = bump_it m i # ents (mem_read m (i + 16) (n - 16))"
proof -
  have "mem_read m i n = mem_read m i 16 @ mem_read m (i + 16) (n - 16)" using mem_read_add [of m i 16 "n - 16"] assms by simp
  moreover have "take 8 (mem_read m i 16) = mem_read m i 8" using mem_read_add [of m i 8 8] by simp
  ultimately show ?thesis using ents_Cons [of "mem_read m i 16" "mem_read m (i + 16) (n - 16)"] by (simp add: bump_it_def)
qed

lemma bumps_loop_ok:
  assumes "store_inv st hash s M Q R" "unat todo = 16 * n" "\<forall>x. count_list (ents (mem_read m i (unat todo))) x \<le> R x"
  shows "\<exists>s' Q'. bumps_loop st m i todo s = Some s' \<and> store_inv st hash s' M Q' (minus_refs R (ents (mem_read m i (unat todo)))) \<and>
    keeps s s' (held M (minus_refs R (ents (mem_read m i (unat todo)))))"
  using assms
proof (induction n arbitrary: s Q R i todo)
  case 0
  then have "todo = 0" by (simp add: unat_eq_0)
  then show ?case using 0(1) by (subst bumps_loop.simps) (auto simp: minus_refs_def [abs_def])
next
  case (Suc n)
  let ?it = "bump_it m i" and ?xs = "ents (mem_read m (i + 16) (unat (todo - 16)))"
  have t16: "unat (todo - 16) = unat todo - 16" using Suc.prems(2) by (simp add: unat_sub_if_size)
  have xs: "ents (mem_read m i (unat todo)) = ?it # ?xs" using ents_read [of "unat todo" m i] Suc.prems(2) t16 by simp
  have c: "count_list (?it # ?xs) x \<le> R x" for x using Suc.prems(3) xs by simp
  have r: "0 < R ?it" using c [of ?it] by simp
  then have it: "?it \<in> held M R" by (simp add: held_def)
  obtain Q1 where 1: "store_inv st hash (do_item_update st ?it s) M Q1 R" "keeps s (do_item_update st ?it s) UNIV"
    using store_update [OF Suc.prems(1) it] by blast
  obtain s2 where 2: "do_item_remove ?it (do_item_update st ?it s) = Some s2" "store_inv st hash s2 M Q1 (R(?it := R ?it - 1))"
      "keeps (do_item_update st ?it s) s2 (held M (R(?it := R ?it - 1)))"
    using store_remove [OF 1(1) r] by blast
  have n16: "unat (todo - 16) = 16 * n" using t16 Suc.prems(2) by simp
  have c2: "\<forall>x. count_list ?xs x \<le> (R(?it := R ?it - 1)) x"
  proof
    fix x show "count_list ?xs x \<le> (R(?it := R ?it - 1)) x" using c [of x] by (cases "x = ?it") auto
  qed
  have mr: "minus_refs (R(?it := R ?it - 1)) ?xs = minus_refs R (?it # ?xs)" by (auto simp: minus_refs_def fun_eq_iff)
  obtain s' Q' where 3: "bumps_loop st m (i + 16) (todo - 16) s2 = Some s'" "store_inv st hash s' M Q' (minus_refs R (?it # ?xs))"
      "keeps s2 s' (held M (minus_refs R (?it # ?xs)))"
    using Suc.IH [OF 2(2) n16 c2] unfolding mr by blast
  have "todo \<noteq> 0" using Suc.prems(2) by auto
  then have run: "bumps_loop st m i todo s = Some s'" by (subst bumps_loop.simps) (simp add: 2(1) 3(1))
  have sub: "held M (minus_refs R (?it # ?xs)) \<subseteq> held M (R(?it := R ?it - 1))" by (auto simp: held_def minus_refs_def split: if_splits)
  have "keeps s s' (held M (minus_refs R (?it # ?xs)))"
    by (rule keeps_trans [OF keeps_trans [OF 1(2) 2(3) subset_UNIV subset_refl] 3(3) sub subset_refl])
  then show ?case unfolding xs using run 3(2) by blast
qed

text \<open>One buffer: the entries of its front leave it, their references are released.\<close>

lemma bump_one_ok:
  assumes inv: "cache_inv st hash s M Q R" and t: "t < length (bump_bufs s)"
  shows "\<exists>b s'. bump_one st t s = Some (b, s') \<and> moved st hash s M R s' M R \<and> (\<forall>x. bump_count s' x \<le> bump_count s x)"
proof -
  let ?b = "bump_buf (bump_bufs s ! t)"
  have i: "store_inv st hash s M Q (all_refs s R)" and bo: "bufs_ok s" using inv by (auto simp: cache_inv_def)
  have b: "buf_ok ?b" using bo t by (auto simp: bufs_ok_def)
  show ?thesis
  proof (cases "bipbuf_peek_all ?b")
    case None
    then show ?thesis using moved_refl [of st hash s M R] inv by (auto simp: bump_one_def cache_ok_def)
  next
    case (Some p)
    obtain j sz where p: "bipbuf_peek_all ?b = Some (j, sz)" using Some by (cases p) auto
    note f = poll_front [OF b p]
    let ?xs = "ents (bip_front ?b)" and ?b' = "fst (bipbuf_poll ?b sz)" and ?R = "all_refs s R"
    have front: "bip_front ?b = mem_read (bb_data ?b) j (unat sz)" using f(1,2) by (simp add: bip_front_def length_front)
    have cf: "count_list (ents (bip_contents ?b)) x = count_list ?xs x + count_list (ents (bip_contents ?b')) x" for x
      by (simp add: f(4))
    have le: "count_list (ents (bip_contents ?b)) x \<le> bump_count s x" for x
      using member_le_sum_list [of "count_list (ents (bip_contents ?b)) x" "map (\<lambda>b. count_list (ents (bip_contents (bump_buf b))) x) (bump_bufs s)"] t
      by (force simp: bump_count_def)
    have cx: "count_list ?xs x \<le> ?R x" for x using cf [of x] le [of x] by (simp add: all_refs_def)
    obtain n where n: "unat sz = 16 * n" using front_dvd [OF b] f(2) by (metis dvd_def)
    obtain s1 Q1 where 1: "bumps_loop st (bb_data ?b) j sz s = Some s1" "store_inv st hash s1 M Q1 (minus_refs ?R ?xs)"
        "keeps s s1 (held M (minus_refs ?R ?xs))"
      using bumps_loop_ok [OF i n, of "bb_data ?b" j] cx unfolding front by blast
    have bb: "bump_bufs s1 = bump_bufs s" using 1(3) by (simp add: keeps_def)
    let ?c = "(bump_bufs s ! t)\<lparr>bump_buf := ?b'\<rparr>"
    let ?s' = "s1\<lparr>bump_bufs := (bump_bufs s)[t := ?c]\<rparr>"
    have run: "bump_one st t s = Some (True, ?s')" using 1(1) bb by (simp add: bump_one_def Let_def p)
    have cnt: "bump_count s x = bump_count ?s' x + count_list ?xs x" for x
      using sum_list_update_nat [OF t, of "\<lambda>b. count_list (ents (bip_contents (bump_buf b))) x" ?c] cf [of x]
      by (simp add: bump_count_def)
    have ar: "all_refs ?s' R = minus_refs ?R ?xs" by (simp add: all_refs_def minus_refs_def cnt fun_eq_iff)
    have "store_inv st hash ?s' M Q1 (all_refs ?s' R)" unfolding ar by (rule store_cong [OF 1(2)]) simp_all
    moreover have "bufs_ok ?s'" using bo f(3) t by (auto simp: bufs_ok_def dest!: subsetD [OF set_update_subset_insert])
    ultimately have ci: "cache_inv st hash ?s' M Q1 R" by (simp add: cache_inv_def)
    have "held M R \<inter> held M R \<subseteq> held M (minus_refs ?R ?xs)"
      unfolding ar [symmetric] using held_refs [of M R ?s'] by simp
    then have "vals s s1 (held M R \<inter> held M R)" using keeps_vals [OF 1(3)] by blast
    then have "vals s ?s' (held M R \<inter> held M R)" by (simp add: vals_def bb)
    then have "moved st hash s M R ?s' M R" by (rule movedI [OF ci])
    then show ?thesis using run cnt by auto
  qed
qed

lemma bump_all_ok:
  assumes "moved st hash s M R (snd bs) M R" "\<forall>t \<in> set ts. t < length (bump_bufs (snd bs))"
  shows "\<exists>b s'. bump_all st ts bs = Some (b, s') \<and> moved st hash s M R s' M R \<and> (\<forall>x. bump_count s' x \<le> bump_count (snd bs) x)"
  using assms
proof (induction ts arbitrary: bs)
  case Nil
  then show ?case by (cases bs) simp
next
  case (Cons t ts)
  obtain Q where Q: "cache_inv st hash (snd bs) M Q R" using Cons.prems(1) by (auto simp: moved_def cache_ok_def)
  have tl: "t < length (bump_bufs (snd bs))" using Cons.prems(2) by simp
  obtain b1 s1 where 1: "bump_one st t (snd bs) = Some (b1, s1)" "moved st hash (snd bs) M R s1 M R" "\<forall>x. bump_count s1 x \<le> bump_count (snd bs) x"
    using bump_one_ok [OF Q, of t] tl by blast
  have l: "length (bump_bufs s1) = length (bump_bufs (snd bs))" using 1(2) by (simp add: moved_def vals_def)
  have "moved st hash s M R s1 M R" by (rule moved_trans [OF Cons.prems(1) 1(2)]) blast
  then obtain b s' where "bump_all st ts (fst bs \<or> b1, s1) = Some (b, s')" "moved st hash s M R s' M R" "\<forall>x. bump_count s' x \<le> bump_count s1 x"
    using Cons.IH [of "(fst bs \<or> b1, s1)"] Cons.prems(2) l by auto
  then show ?case using 1(1,3) by (auto intro: le_trans)
qed

lemma moved_bumps:
  assumes "cache_ok st hash s M R"
  shows "\<exists>b s'. lru_maintainer_bumps st s = Some (b, s') \<and> moved st hash s M R s' M R \<and> (\<forall>x. bump_count s' x \<le> bump_count s x)"
  using bump_all_ok [of st hash s M R "(False, s)" "rev [0..<length (bump_bufs s)]"] moved_refl [OF assms]
  by (simp add: lru_maintainer_bumps_def)

end
