(* ===== verification/Store.thy ===== *)
theory Store
  imports Items_Alloc Util
begin

unbundle bit_operations_syntax

text \<open>
  What a client command does to the cache (\<open>memcached.c\<close>, \<open>thread.c\<close>): storing with the semantics of set, add,
  replace, append, prepend and cas, arithmetic on a stored number, bounded lookups, and the functions of \<open>thread.c\<close>
  that take the item's lock around an operation. A connection gives the number \<open>t\<close> of its worker thread.

  The data of an object is the list of the bytes written to it so far.
\<close>

datatype store_item_type = NOT_STORED | STORED | EXISTS | NOT_FOUND | TOO_LARGE | NO_MEMORY

datatype nread = NREAD_ADD | NREAD_SET | NREAD_REPLACE | NREAD_APPEND | NREAD_PREPEND | NREAD_CAS

datatype delta_result_type = DELTA_OK | NON_NUMERIC | EOM | DELTA_ITEM_NOT_FOUND | DELTA_ITEM_CAS_MISMATCH

section \<open>Copying data\<close>

text \<open>\<open>memcpy(d + i, bs, length bs)\<close>.\<close>

definition poke :: "nat \<Rightarrow> byte list \<Rightarrow> byte list \<Rightarrow> byte list" where
  "poke i bs d = take i d @ bs @ drop (i + length bs) d"

definition item_bytes :: "item \<Rightarrow> nat \<Rightarrow> byte list" where
  "item_bytes x n = take n (it_data x)"

partial_function (option) advance_chunk :: "heap \<Rightarrow> addr \<Rightarrow> addr option" where
  [code]: "advance_chunk h dch =
     (if ch_size (h dch) = ch_used (h dch) \<and> next (h dch) \<noteq> NULL then advance_chunk h (next (h dch)) else Some dch)"

text \<open>\<open>todo\<close> bytes are added to the chunk \<open>dch\<close>.\<close>

definition fill_chunk :: "addr \<Rightarrow> byte list \<Rightarrow> int \<Rightarrow> mc \<Rightarrow> mc" where
  "fill_chunk dch bs todo = m_upd dch (\<lambda>x. x\<lparr>it_data := poke (nat (ch_used x)) bs (it_data x), ch_used := ch_used x + todo\<rparr>)"

text \<open>A full chunk gets a successor; \<open>NULL\<close> when there is none. \<open>oss\<close>: the answers of the environment to the \<open>n\<close>-th request.\<close>

definition next_dch ::
  "settings \<Rightarrow> (byte list \<Rightarrow> u32) \<Rightarrow> (nat \<Rightarrow> os) \<Rightarrow> nat \<Rightarrow> addr \<Rightarrow> int \<Rightarrow> mc \<Rightarrow> (addr \<times> nat \<times> mc) option" where
  "next_dch st hash oss n dch remain s =
     (if ch_size (m_heap s dch) = ch_used (m_heap s dch)
      then do { (tch, s) \<leftarrow> do_item_alloc_chunk st hash (oss n) dch (nat remain) s; Some (tch, n + 1, s) }
      else Some (dch, n, s))"

partial_function (option) copy_from_chunks ::
  "settings \<Rightarrow> (byte list \<Rightarrow> u32) \<Rightarrow> (nat \<Rightarrow> os) \<Rightarrow> nat \<Rightarrow> addr \<Rightarrow> addr \<Rightarrow> int \<Rightarrow> int \<Rightarrow> mc \<Rightarrow> (bool \<times> nat \<times> mc) option" where
  [code]: "copy_from_chunks st hash oss n dch sch copied remain s =
     (if sch \<noteq> NULL \<and> dch \<noteq> NULL \<and> remain \<noteq> 0 then do {
        let d = m_heap s dch;
        let x = m_heap s sch;
        let todo = (if ch_size d - ch_used d < ch_used x - copied then ch_size d - ch_used d else ch_used x - copied);
        let todo = (if remain < todo then remain else todo);
        let s = fill_chunk dch (take (nat todo) (drop (nat copied) (it_data x))) todo s;
        let copied = copied + todo;
        let remain = remain - todo;
        (tch, n, s) \<leftarrow> next_dch st hash oss n dch remain s;
        if tch = NULL then Some (False, n, s)
        else if copied = ch_used (m_heap s sch)
             then copy_from_chunks st hash oss n tch (next (m_heap s sch)) 0 remain s
             else copy_from_chunks st hash oss n tch sch copied remain s
      } else Some (True, n, s))"

partial_function (option) copy_from_plain ::
  "settings \<Rightarrow> (byte list \<Rightarrow> u32) \<Rightarrow> (nat \<Rightarrow> os) \<Rightarrow> nat \<Rightarrow> addr \<Rightarrow> addr \<Rightarrow> int \<Rightarrow> int \<Rightarrow> mc \<Rightarrow> (bool \<times> nat \<times> mc) option" where
  [code]: "copy_from_plain st hash oss n dch s_it len cnt s =
     (if len > cnt \<and> dch \<noteq> NULL then do {
        let d = m_heap s dch;
        let todo = (if ch_size d - ch_used d < len - cnt then ch_size d - ch_used d else len - cnt);
        let s = fill_chunk dch (take (nat todo) (drop (nat cnt) (it_data (m_heap s s_it)))) todo s;
        let cnt = cnt + todo;
        (tch, n, s) \<leftarrow> next_dch st hash oss n dch (len - cnt) s;
        if tch = NULL then Some (False, n, s) else copy_from_plain st hash oss n tch s_it len cnt s
      } else Some (True, n, s))"

text \<open>The result \<open>False\<close> is the return value \<open>-1\<close>.\<close>

definition store_item_copy_chunks ::
  "settings \<Rightarrow> (byte list \<Rightarrow> u32) \<Rightarrow> (nat \<Rightarrow> os) \<Rightarrow> nat \<Rightarrow> addr \<Rightarrow> addr \<Rightarrow> int \<Rightarrow> mc \<Rightarrow> (bool \<times> nat \<times> mc) option" where
  "store_item_copy_chunks st hash oss n d_it s_it len s =
     do {
       dch \<leftarrow> advance_chunk (m_heap s) (ITEM_schunk (m_heap s) d_it);
       if has_flag (m_heap s s_it) ITEM_CHUNKED
       then copy_from_chunks st hash oss n dch (ITEM_schunk (m_heap s) s_it) 0 len s
       else copy_from_plain st hash oss n dch s_it len 0 s
     }"

text \<open>\<open>first\<close> without its line end, then \<open>second\<close>.\<close>

definition copy_two ::
  "settings \<Rightarrow> (byte list \<Rightarrow> u32) \<Rightarrow> (nat \<Rightarrow> os) \<Rightarrow> addr \<Rightarrow> addr \<Rightarrow> addr \<Rightarrow> mc \<Rightarrow> (bool \<times> mc) option" where
  "copy_two st hash oss new_it fst_it snd_it s =
     (let a = m_heap s fst_it; b = m_heap s snd_it in
      if has_flag (m_heap s new_it) ITEM_CHUNKED then do {
        (ok, n, s) \<leftarrow> store_item_copy_chunks st hash oss 0 new_it fst_it (nbytes a - 2) s;
        if \<not> ok then Some (False, s)
        else do { (ok, n, s) \<leftarrow> store_item_copy_chunks st hash oss n new_it snd_it (nbytes b) s; Some (ok, s) }
      } else
        Some (True, m_upd new_it (\<lambda>x. x\<lparr>it_data := poke (nat (nbytes a - 2)) (item_bytes b (nat (nbytes b)))
           (poke 0 (item_bytes a (nat (nbytes a))) (it_data x))\<rparr>) s))"

definition store_item_copy_data ::
  "settings \<Rightarrow> (byte list \<Rightarrow> u32) \<Rightarrow> (nat \<Rightarrow> os) \<Rightarrow> nread \<Rightarrow> addr \<Rightarrow> addr \<Rightarrow> addr \<Rightarrow> mc \<Rightarrow> (bool \<times> mc) option" where
  "store_item_copy_data st hash oss comm old_it new_it add_it =
     (if comm = NREAD_APPEND then copy_two st hash oss new_it old_it add_it else copy_two st hash oss new_it add_it old_it)"

section \<open>Storing\<close>

text \<open>The counters of a thread.\<close>

definition bump2 :: "nat \<Rightarrow> byte \<Rightarrow> (nat \<Rightarrow> byte \<Rightarrow> u64) \<Rightarrow> nat \<Rightarrow> byte \<Rightarrow> u64" where
  "bump2 t c f = f(t := (f t)(c := f t c + 1))"

text \<open>The results: what is reported, the item that is stored, the item made here (or \<open>NULL\<close>), the state.\<close>

definition store_cas :: "settings \<Rightarrow> nat \<Rightarrow> bool \<Rightarrow> addr \<Rightarrow> addr \<Rightarrow> u32 \<Rightarrow> mc \<Rightarrow> (store_item_type \<times> addr \<times> addr \<times> mc) option" where
  "store_cas st t set_stale it old_it hv s =
     (let x = m_heap s it; old = m_heap s old_it; hit = (\<lambda>s. s\<lparr>cas_hits := bump2 t (ITEM_clsid old) (cas_hits s)\<rparr>) in
      if old_it = NULL then Some (NOT_FOUND, it, NULL, s\<lparr>cas_misses := (cas_misses s)(t := cas_misses s t + 1)\<rparr>)
      else if ITEM_get_cas x = ITEM_get_cas old then do {
        s \<leftarrow> do_item_replace st old_it it hv (hit s);
        Some (STORED, it, NULL, s)
      } else if set_stale \<and> ITEM_get_cas x < ITEM_get_cas old then do {
        let s = m_upd it (\<lambda>x. set_flag ITEM_STALE (x\<lparr>exptime := exptime old\<rparr>)) s;
        let s = (if has_flag old ITEM_TOKEN_SENT then m_upd it (set_flag ITEM_TOKEN_SENT) s else s);
        s \<leftarrow> do_item_replace st old_it it hv (hit s);
        Some (STORED, it, NULL, s)
      } else Some (EXISTS, it, NULL, s\<lparr>cas_badval := bump2 t (ITEM_clsid old) (cas_badval s)\<rparr>))"

text \<open>
  Append and prepend make a new item; the first component of the result is \<open>stored\<close>, the second \<open>failed_alloc\<close>.
  When the copy fails the code calls \<open>item_remove\<close>, which waits for the item's lock that the caller holds: it does not return.
\<close>

definition store_combine ::
  "settings \<Rightarrow> (byte list \<Rightarrow> u32) \<Rightarrow> os \<Rightarrow> (nat \<Rightarrow> os) \<Rightarrow> nread \<Rightarrow> addr \<Rightarrow> addr \<Rightarrow> mc \<Rightarrow>
   (store_item_type \<times> bool \<times> addr \<times> addr \<times> mc) option" where
  "store_combine st hash os oss comm it old_it s =
     (let x = m_heap s it; old = m_heap s old_it in
      if ITEM_get_cas x \<noteq> 0 \<and> ITEM_get_cas x \<noteq> ITEM_get_cas old then Some (EXISTS, False, it, NULL, s)
      else do {
        (new_it, s) \<leftarrow> do_item_alloc st hash os (key x) (FLAGS_CONV old) (exptime old) (nbytes x + nbytes old - 2) s;
        if new_it = NULL then Some (NOT_STORED, True, it, NULL, s)
        else do {
          (ok, s) \<leftarrow> store_item_copy_data st hash oss comm old_it new_it it s;
          if ok then Some (NOT_STORED, False, new_it, new_it, s) else None
        }
      })"

definition store_value ::
  "settings \<Rightarrow> (byte list \<Rightarrow> u32) \<Rightarrow> os \<Rightarrow> (nat \<Rightarrow> os) \<Rightarrow> nread \<Rightarrow> addr \<Rightarrow> addr \<Rightarrow> u32 \<Rightarrow> mc \<Rightarrow>
   (store_item_type \<times> addr \<times> addr \<times> mc) option" where
  "store_value st hash os oss comm it old_it hv s =
     do {
       (stored, failed_alloc, it, new_it, s) \<leftarrow>
         (if comm = NREAD_APPEND \<or> comm = NREAD_PREPEND then store_combine st hash os oss comm it old_it s
          else Some (NOT_STORED, False, it, NULL, s));
       if stored = NOT_STORED \<and> \<not> failed_alloc then do {
         s \<leftarrow> (if old_it \<noteq> NULL then do_item_replace st old_it it hv s else Some (do_item_link st it hv s));
         Some (STORED, it, new_it, s)
       } else Some (stored, it, new_it, s)
     }"

text \<open>The second result is the new value of \<open>c->cas\<close>, when it is set.\<close>

definition do_store_item ::
  "settings \<Rightarrow> (byte list \<Rightarrow> u32) \<Rightarrow> os \<Rightarrow> (nat \<Rightarrow> os) \<Rightarrow> nat \<Rightarrow> bool \<Rightarrow> addr \<Rightarrow> nread \<Rightarrow> u32 \<Rightarrow> mc \<Rightarrow>
   (store_item_type \<times> u64 option \<times> mc) option" where
  "do_store_item st hash os oss t set_stale it comm hv s =
     do {
       (old_it, s) \<leftarrow> do_item_get st t (key (m_heap s it)) hv False s;
       (stored, it, new_it, s) \<leftarrow>
         (if old_it \<noteq> NULL \<and> comm = NREAD_ADD then Some (NOT_STORED, it, NULL, do_item_update st old_it s)
          else if old_it = NULL \<and> comm \<in> {NREAD_REPLACE, NREAD_APPEND, NREAD_PREPEND} then Some (NOT_STORED, it, NULL, s)
          else if comm = NREAD_CAS then store_cas st t set_stale it old_it hv s
          else store_value st hash os oss comm it old_it hv s);
       s \<leftarrow> (if old_it \<noteq> NULL then do_item_remove old_it s else Some s);
       s \<leftarrow> (if new_it \<noteq> NULL then do_item_remove new_it s else Some s);
       Some (stored, if stored = STORED then Some (ITEM_get_cas (m_heap s it)) else None, s)
     }"

section \<open>Arithmetic\<close>

text \<open>
  The value is read as a C string that starts with the data; \<open>beyond\<close> is what the memory behind it holds. The
  last results are the text of the new number and the CAS value stored through \<open>cas\<close>.
\<close>

definition delta_value :: "bool \<Rightarrow> u64 \<Rightarrow> u64 \<Rightarrow> u64" where
  "delta_value incr delta v = (if incr then v + delta else if delta > v then 0 else v - delta)"

definition delta_in_place :: "settings \<Rightarrow> addr \<Rightarrow> byte list \<Rightarrow> mc \<Rightarrow> mc" where
  "delta_in_place st it buf s =
     (let s = item_stats_sizes_remove it s;
          (c, s) = (if use_cas st then get_cas_id s else (0, s));
          s = m_upd it (ITEM_set_cas c) s;
          s = item_stats_sizes_add it s;
          n = nat (nbytes (m_heap s it)) - length buf - 2;
          s = m_upd it (\<lambda>x. x\<lparr>it_data := poke (length buf) (replicate n 32) (poke 0 buf (it_data x))\<rparr>) s
      in do_item_update st it s)"

definition delta_replace ::
  "settings \<Rightarrow> (byte list \<Rightarrow> u32) \<Rightarrow> os \<Rightarrow> addr \<Rightarrow> byte list \<Rightarrow> u32 \<Rightarrow> mc \<Rightarrow> (bool \<times> mc) option" where
  "delta_replace st hash os it buf hv s =
     do {
       let x = m_heap s it;
       (new_it, s) \<leftarrow> do_item_alloc st hash os (key x) (FLAGS_CONV x) (exptime x) (int (length buf) + 2) s;
       if new_it = NULL then do { s \<leftarrow> do_item_remove it s; Some (False, s) }
       else do {
         let s = m_upd new_it (\<lambda>y. y\<lparr>it_data := poke (length buf) [13, 10] (poke 0 buf (it_data y))\<rparr>) s;
         s \<leftarrow> do_item_replace st it new_it hv s;
         let s = m_upd it (ITEM_set_cas (if use_cas st then ITEM_get_cas (m_heap s new_it) else 0)) s;
         s \<leftarrow> do_item_remove new_it s;
         Some (True, s)
       }
     }"

text \<open>\<open>cas\<close> is \<open>*cas\<close>, if the pointer is not null.\<close>

definition do_add_delta ::
  "settings \<Rightarrow> (byte list \<Rightarrow> u32) \<Rightarrow> os \<Rightarrow> (addr \<Rightarrow> byte list) \<Rightarrow> nat \<Rightarrow> byte list \<Rightarrow> bool \<Rightarrow> u64 \<Rightarrow> u64 option \<Rightarrow> u32 \<Rightarrow> mc \<Rightarrow>
   (delta_result_type \<times> byte list \<times> u64 option \<times> mc) option" where
  "do_add_delta st hash os beyond t k incr delta cs hv s =
     do {
       (it, s) \<leftarrow> do_item_get st t k hv False s;
       if it = NULL then Some (DELTA_ITEM_NOT_FOUND, [], cs, s)
       else let x = m_heap s it in
         if nbytes x \<le> 2 \<or> has_flag x ITEM_CHUNKED then do { s \<leftarrow> do_item_remove it s; Some (NON_NUMERIC, [], cs, s) }
         else if (case cs of None \<Rightarrow> False | Some c \<Rightarrow> c \<noteq> 0 \<and> ITEM_get_cas x \<noteq> c)
         then do { s \<leftarrow> do_item_remove it s; Some (DELTA_ITEM_CAS_MISMATCH, [], cs, s) }
         else case safe_strtoull (takeWhile (\<lambda>b. b \<noteq> 0) (item_bytes x (nat (nbytes x)) @ beyond it)) of
           None \<Rightarrow> do { s \<leftarrow> do_item_remove it s; Some (NON_NUMERIC, [], cs, s) }
         | Some v \<Rightarrow> do {
             let buf = itoa_u64 (delta_value incr delta v) [];
             let s = (if incr then s\<lparr>incr_hits := bump2 t (ITEM_clsid x) (incr_hits s)\<rparr>
                      else s\<lparr>decr_hits := bump2 t (ITEM_clsid x) (decr_hits s)\<rparr>);
             if int (length buf) + 2 \<le> nbytes x \<and> refcount x = 2 then do {
               let s = delta_in_place st it buf s;
               let c = map_option (\<lambda>_. ITEM_get_cas (m_heap s it)) cs;
               s \<leftarrow> do_item_remove it s;
               Some (DELTA_OK, buf, c, s)
             } else if refcount x > 1 then do {
               (ok, s) \<leftarrow> delta_replace st hash os it buf hv s;
               if \<not> ok then Some (EOM, buf, cs, s)
               else do {
                 let c = map_option (\<lambda>_. ITEM_get_cas (m_heap s it)) cs;
                 s \<leftarrow> do_item_remove it s;
                 Some (DELTA_OK, buf, c, s)
               }
             } else do {
               s \<leftarrow> (if refcount x = 1 then do_item_remove it s else Some s);
               Some (DELTA_ITEM_NOT_FOUND, buf, cs, s)
             }
           }
     }"

section \<open>The operations under the item's lock\<close>

definition item_alloc ::
  "settings \<Rightarrow> (byte list \<Rightarrow> u32) \<Rightarrow> os \<Rightarrow> byte list \<Rightarrow> u32 \<Rightarrow> u32 \<Rightarrow> int \<Rightarrow> mc \<Rightarrow> (addr \<times> mc) option" where
  "item_alloc st hash os k fl etime nb s = do_item_alloc st hash os k fl etime nb s"

definition item_get :: "settings \<Rightarrow> (byte list \<Rightarrow> u32) \<Rightarrow> nat \<Rightarrow> byte list \<Rightarrow> bool \<Rightarrow> mc \<Rightarrow> (addr \<times> mc) option" where
  "item_get st hash t k do_update s = do_item_get st t k (hash k) do_update s"

definition item_touch :: "settings \<Rightarrow> (byte list \<Rightarrow> u32) \<Rightarrow> nat \<Rightarrow> byte list \<Rightarrow> u32 \<Rightarrow> mc \<Rightarrow> (addr \<times> mc) option" where
  "item_touch st hash t k etime s = do_item_touch st t k etime (hash k) s"

definition item_link :: "settings \<Rightarrow> (byte list \<Rightarrow> u32) \<Rightarrow> addr \<Rightarrow> mc \<Rightarrow> mc" where
  "item_link st hash it s = do_item_link st it (hash (key (m_heap s it))) s"

definition item_remove :: "addr \<Rightarrow> mc \<Rightarrow> mc option" where
  "item_remove it s = do_item_remove it s"

definition item_unlink :: "(byte list \<Rightarrow> u32) \<Rightarrow> addr \<Rightarrow> mc \<Rightarrow> mc option" where
  "item_unlink hash it s = do_item_unlink it (hash (key (m_heap s it))) s"

definition add_delta ::
  "settings \<Rightarrow> (byte list \<Rightarrow> u32) \<Rightarrow> os \<Rightarrow> (addr \<Rightarrow> byte list) \<Rightarrow> nat \<Rightarrow> byte list \<Rightarrow> bool \<Rightarrow> u64 \<Rightarrow> u64 option \<Rightarrow> mc \<Rightarrow>
   (delta_result_type \<times> byte list \<times> u64 option \<times> mc) option" where
  "add_delta st hash os beyond t k incr delta cs s = do_add_delta st hash os beyond t k incr delta cs (hash k) s"

definition store_item ::
  "settings \<Rightarrow> (byte list \<Rightarrow> u32) \<Rightarrow> os \<Rightarrow> (nat \<Rightarrow> os) \<Rightarrow> nat \<Rightarrow> bool \<Rightarrow> addr \<Rightarrow> nread \<Rightarrow> mc \<Rightarrow>
   (store_item_type \<times> u64 option \<times> mc) option" where
  "store_item st hash os oss t set_stale it comm s =
     do_store_item st hash os oss t set_stale it comm (hash (key (m_heap s it))) s"

text \<open>\<open>IT_REFCOUNT_LIMIT\<close> bounds the references that readers hold.\<close>

definition limited_get ::
  "settings \<Rightarrow> (byte list \<Rightarrow> u32) \<Rightarrow> nat \<Rightarrow> byte list \<Rightarrow> u32 \<Rightarrow> bool \<Rightarrow> bool \<Rightarrow> mc \<Rightarrow> (addr \<times> mc) option" where
  "limited_get st hash t k etime should_touch do_update s =
     do {
       (it, s) \<leftarrow> (if should_touch then item_touch st hash t k etime s else item_get st hash t k do_update s);
       if it \<noteq> NULL \<and> refcount (m_heap s it) > 60000 then do { s \<leftarrow> item_remove it s; Some (NULL, s) }
       else Some (it, s)
     }"

definition limited_get_locked ::
  "settings \<Rightarrow> (byte list \<Rightarrow> u32) \<Rightarrow> nat \<Rightarrow> byte list \<Rightarrow> bool \<Rightarrow> mc \<Rightarrow> (addr \<times> mc) option" where
  "limited_get_locked st hash t k do_update s =
     do {
       (it, s) \<leftarrow> do_item_get st t k (hash k) do_update s;
       if it \<noteq> NULL \<and> refcount (m_heap s it) > 60000 then do { s \<leftarrow> do_item_remove it s; Some (NULL, s) }
       else Some (it, s)
     }"

end
