(* ===== verification/Store_Ok.thy ===== *)
theory Store_Ok
  imports Items_Get Store
begin

unbundle bit_operations_syntax

text \<open>
  Storing and arithmetic keep the cache consistent, return, and do to the map of keys to items what the
  commands promise.
\<close>

section \<open>Shared steps\<close>

definition item_value :: "item \<Rightarrow> byte list" where
  "item_value x = item_bytes x (nat (nbytes x))"

definition full_data :: "item \<Rightarrow> bool" where
  "full_data x \<longleftrightarrow> nat (nbytes x) \<le> length (it_data x)"

lemma vals_value: "vals s s' H \<Longrightarrow> x \<in> H \<Longrightarrow> item_value (m_heap s' x) = item_value (m_heap s x) \<and>
    FLAGS_CONV (m_heap s' x) = FLAGS_CONV (m_heap s x) \<and> key (m_heap s' x) = key (m_heap s x) \<and> full_data (m_heap s' x) = full_data (m_heap s x)"
  by (simp add: vals_def item_value_def item_bytes_def full_data_def)

lemma moved_value:
  "moved st hash s M R s' M' R' \<Longrightarrow> x \<in> held M R \<Longrightarrow> x \<in> held M' R' \<Longrightarrow> item_value (m_heap s' x) = item_value (m_heap s x) \<and>
    FLAGS_CONV (m_heap s' x) = FLAGS_CONV (m_heap s x) \<and> key (m_heap s' x) = key (m_heap s x) \<and> full_data (m_heap s' x) = full_data (m_heap s x)"
  using vals_value [of s s' "held M R \<inter> held M' R'" x] by (simp add: moved_def)

text \<open>A lookup without a bump that finds an item only counts a reference.\<close>

lemma get_found:
  assumes "cache_ok st hash s M R" "live st s M k = Some x"
  shows "do_item_get st t k (hash k) False s = Some (x, snd (refcount_incr x s))"
proof -
  obtain Q where Q: "cache_inv st hash s M Q R" using assms(1) by (auto simp: cache_ok_def)
  have k: "M k = Some x" and d: "\<not> item_dead st (current_time s) (m_heap s x)"
    using assms(2) by (auto simp: live_def split: option.splits if_splits)
  show ?thesis unfolding cache_get_some [where x = x and k = k, OF Q k] Let_def using d by (auto simp: item_dead_def)
qed

lemma moved_incr:
  assumes ok: "cache_ok st hash s M R" and x: "x \<in> held M R" and r: "all_refs s R x < 65000"
  shows "moved st hash s M R (snd (refcount_incr x s)) M (R(x := R x + 1))"
proof -
  obtain Q where Q: "cache_inv st hash s M Q R" using ok by (auto simp: cache_ok_def)
  have "x \<in> held M (all_refs s R)" using x held_refs by blast
  note inc = cache_incr [OF Q this r]
  show ?thesis by (rule movedI [OF inc(1) keeps_vals [OF inc(2) subset_UNIV]])
qed

lemma moved_update:
  assumes ok: "cache_ok st hash s M R" and x: "x \<in> held M R"
  shows "moved st hash s M R (do_item_update st x s) M R"
proof -
  obtain Q where Q: "cache_inv st hash s M Q R" using ok by (auto simp: cache_ok_def)
  have xh: "x \<in> held M (all_refs s R)" using x held_refs by blast
  obtain Q' where "cache_inv st hash (do_item_update st x s) M Q' R" using cache_update(1) [OF Q xh] by blast
  then show ?thesis by (rule movedI [OF _ keeps_vals [OF cache_update(2) [OF Q xh] subset_UNIV]])
qed

text \<open>Counters that no structure uses.\<close>

lemma ok_counters:
  assumes ok: "cache_ok st hash s M R" and c: "mc_same s s'" "m_heap s' = m_heap s" "bump_bufs s' = bump_bufs s" "current_time s' = current_time s"
  shows "moved st hash s M R s' M R"
proof -
  obtain Q where Q: "cache_inv st hash s M Q R" using ok by (auto simp: cache_ok_def)
  then have i: "store_inv st hash s M Q (all_refs s R)" by (simp add: cache_inv_def)
  show ?thesis by (rule store_moved [OF Q store_cong [OF i c(1,2)]]) (simp add: keeps_def c)
qed

text \<open>Replacing an item that may have been unlinked in the meantime.\<close>

lemma ran_upd_sub: "x \<in> ran (M(k \<mapsto> y)) \<Longrightarrow> x = y \<or> x \<in> ran M"
  by (auto simp: ran_def split: if_splits)

lemma moved_replace_any:
  assumes ok: "cache_ok st hash s M R" and o: "M k = Some old \<or> M k = None" "0 < R old" "key (m_heap s old) = k"
    and n: "it \<notin> ran M" "0 < R it" "all_refs s R it < 65000" "key (m_heap s it) = k"
  shows "\<exists>s'. do_item_replace st old it (hash k) s = Some s' \<and> moved st hash s M R s' (M(k \<mapsto> it)) R"
proof (cases "M k")
  case (Some y)
  then show ?thesis using moved_replace [of st hash s M R k old it, OF ok _ o(2) n] o(1) by simp
next
  case None
  have nr: "old \<notin> ran M"
  proof
    assume "old \<in> ran M"
    then obtain k' where k': "M k' = Some old" by (auto simp: ran_def)
    then show False using cache_okD [OF ok] mapped_key [of st hash s M _ _ k' old] o(3) None by auto
  qed
  show ?thesis
    using moved_link [OF ok n(1,2,3)] moved_unlink_other [OF ok o(2) nr, of "hash k"] None n(4) by (simp add: do_item_replace_def)
qed

text \<open>The reference of the lookup is released.\<close>

lemma release_moved:
  assumes "moved st hash s M0 R s2 M2 (R(x := R x + 1))"
  shows "\<exists>s3. do_item_remove x s2 = Some s3 \<and> moved st hash s M0 R s3 M2 R"
proof -
  obtain s3 where s3: "do_item_remove x s2 = Some s3" "moved st hash s2 M2 (R(x := R x + 1)) s3 M2 R"
    using moved_remove [OF moved_ok [OF assms], of x] by auto
  have "moved st hash s M0 R s3 M2 R" by (rule moved_trans [OF assms s3(2)]) (auto simp: held_def)
  then show ?thesis using s3(1) by blast
qed

section \<open>Storing over an item\<close>

text \<open>A state after the lookup of a live item \<open>x\<close>, and an item \<open>it\<close> that is not linked.\<close>

definition over ::
  "settings \<Rightarrow> (byte list \<Rightarrow> u32) \<Rightarrow> mc \<Rightarrow> (byte list \<rightharpoonup> addr) \<Rightarrow> (addr \<Rightarrow> nat) \<Rightarrow> addr \<Rightarrow> addr \<Rightarrow> mc \<Rightarrow> bool" where
  "over st hash s M R x it s1 \<longleftrightarrow> moved st hash s M R s1 M (R(x := R x + 1)) \<and> M (key (m_heap s it)) = Some x \<and>
     it \<notin> ran M \<and> 0 < R it \<and> all_refs s1 R it < 65000 \<and> x \<noteq> NULL"

lemma overD:
  assumes "over st hash s M R x it s1"
  shows "moved st hash s M R s1 M (R(x := R x + 1))" "M (key (m_heap s it)) = Some x" "it \<notin> ran M" "0 < R it"
    "all_refs s1 R it < 65000" "x \<noteq> NULL" "it \<noteq> x" "key (m_heap s1 it) = key (m_heap s it)"
proof -
  show m: "moved st hash s M R s1 M (R(x := R x + 1))" and x: "M (key (m_heap s it)) = Some x" and n: "it \<notin> ran M" and r: "0 < R it"
    and "all_refs s1 R it < 65000" "x \<noteq> NULL" using assms by (auto simp: over_def)
  show "it \<noteq> x" using x n by (auto simp: ran_def)
  show "key (m_heap s1 it) = key (m_heap s it)" using moved_key [OF m r] r by simp
qed

lemma over_replace:
  assumes "over st hash s M R x it s1"
  defines "k \<equiv> key (m_heap s it)"
  shows "\<exists>s2 s3. do_item_replace st x it (hash k) s1 = Some s2 \<and> do_item_remove x s2 = Some s3 \<and> moved st hash s M R s3 (M(k \<mapsto> it)) R"
proof -
  note o = overD [OF assms(1)]
  have r1: "0 < (R(x := R x + 1)) x" "0 < (R(x := R x + 1)) it" using o(4) by auto
  have r2: "all_refs s1 (R(x := R x + 1)) it < 65000" using o(5,7) by (simp add: all_refs_def)
  have xk: "M k = Some x" using o(2) by (simp add: k_def)
  have kk: "key (m_heap s1 it) = k" using o(8) by (simp add: k_def)
  obtain s2 where s2: "do_item_replace st x it (hash k) s1 = Some s2"
      "moved st hash s1 M (R(x := R x + 1)) s2 (M(k \<mapsto> it)) (R(x := R x + 1))"
    using moved_replace [of st hash s1 M "R(x := R x + 1)" k x it, OF moved_ok [OF o(1)] xk r1(1) o(3) r1(2) r2 kk] by blast
  have "moved st hash s M R s2 (M(k \<mapsto> it)) (R(x := R x + 1))" by (rule moved_trans [OF o(1) s2(2)]) (auto simp: held_def)
  then show ?thesis using release_moved s2(1) by blast
qed

lemma over_write:
  assumes "over st hash s M R x it s1" "moved st hash s1 M (R(x := R x + 1)) s2 M (R(x := R x + 1))" "bump_bufs s2 = bump_bufs s1"
  shows "over st hash s M R x it s2"
proof -
  note o = overD [OF assms(1)]
  have m: "moved st hash s M R s2 M (R(x := R x + 1))" by (rule moved_trans [OF o(1) assms(2)]) (auto simp: held_def)
  show ?thesis using m o bump_same [OF assms(3)] by (simp add: over_def)
qed

lemma over_get:
  assumes ok: "cache_ok st hash s M R" and it: "it \<notin> ran M" "0 < R it" and r: "\<forall>x. all_refs s R x < 63000"
    and x: "live st s M (key (m_heap s it)) = Some x"
  shows "over st hash s M R x it (snd (refcount_incr x s))"
proof -
  have k: "M (key (m_heap s it)) = Some x" using live_some [OF x] .
  have r65: "all_refs s R y < 65000" for y using r less_trans [of "all_refs s R y" 63000 65000] by simp
  have "x \<in> held M R" using k by (auto simp: held_def ran_def)
  then have m: "moved st hash s M R (snd (refcount_incr x s)) M (R(x := R x + 1))" by (rule moved_incr [OF ok _ r65])
  have b: "bump_bufs (snd (refcount_incr x s)) = bump_bufs s" by (simp add: refcount_incr_def)
  show ?thesis using m k it r65 bump_same [OF b] live_nonnull [OF ok x] by (simp add: over_def)
qed

lemma over_counters:
  assumes "over st hash s M R x it s1" "mc_same s1 s2" "m_heap s2 = m_heap s1" "bump_bufs s2 = bump_bufs s1" "current_time s2 = current_time s1"
  shows "over st hash s M R x it s2"
  by (rule over_write [OF assms(1) ok_counters [OF moved_ok [OF overD(1) [OF assms(1)]] assms(2-5)] assms(4)])

lemma over_harmless:
  assumes "over st hash s M R x it s1" "harmless f" "\<And>y. it_data (f y) = it_data y \<and> cflags (f y) = cflags y"
  shows "over st hash s M R x it (m_upd it f s1)"
proof (rule over_write [OF assms(1)])
  note o = overD [OF assms(1)]
  have "it \<in> held M (R(x := R x + 1))" using o(4) by (simp add: held_def)
  then show "moved st hash s1 M (R(x := R x + 1)) (m_upd it f s1) M (R(x := R x + 1))"
    by (rule moved_harmless [OF moved_refl [OF moved_ok [OF o(1)]] _ assms(2,3)])
qed simp

lemma stale_writes [simp]: "harmless (\<lambda>y. set_flag ITEM_STALE (y\<lparr>exptime := e\<rparr>))" "harmless (set_flag ITEM_TOKEN_SENT)"
  by (simp_all add: harmless_def has_flag_set)

definition cas_accepts :: "bool \<Rightarrow> item \<Rightarrow> item \<Rightarrow> bool" where
  "cas_accepts set_stale x old \<longleftrightarrow> ITEM_get_cas x = ITEM_get_cas old \<or> (set_stale \<and> ITEM_get_cas x < ITEM_get_cas old)"

lemma store_cas_ok:
  assumes ov: "over st hash s M R x it s1"
  defines "k \<equiv> key (m_heap s it)"
  shows "\<exists>s2 s3. store_cas st t ss it x (hash k) s1 =
      Some (if cas_accepts ss (m_heap s1 it) (m_heap s1 x) then STORED else EXISTS, it, NULL, s2) \<and> do_item_remove x s2 = Some s3 \<and>
    moved st hash s M R s3 (if cas_accepts ss (m_heap s1 it) (m_heap s1 x) then M(k \<mapsto> it) else M) R"
proof -
  note o = overD [OF ov]
  let ?hit = "\<lambda>s. s\<lparr>cas_hits := bump2 t (ITEM_clsid (m_heap s1 x)) (cas_hits s)\<rparr>"
  let ?w = "m_upd it (\<lambda>y. set_flag ITEM_STALE (y\<lparr>exptime := exptime (m_heap s1 x)\<rparr>)) s1"
  let ?w2 = "if has_flag (m_heap s1 x) ITEM_TOKEN_SENT then m_upd it (set_flag ITEM_TOKEN_SENT) ?w else ?w"
  have hit: "over st hash s M R x it (?hit s')" if "over st hash s M R x it s'" for s'
    by (rule over_counters [OF that]) (simp_all add: mc_same_def)
  have w: "over st hash s M R x it ?w" by (rule over_harmless [OF ov]) simp_all
  have "over st hash s M R x it (m_upd it (set_flag ITEM_TOKEN_SENT) ?w)" by (rule over_harmless [OF w]) simp_all
  with w have w2: "over st hash s M R x it ?w2" by simp
  consider "ITEM_get_cas (m_heap s1 it) = ITEM_get_cas (m_heap s1 x)"
    | "ITEM_get_cas (m_heap s1 it) \<noteq> ITEM_get_cas (m_heap s1 x)" "ss \<and> ITEM_get_cas (m_heap s1 it) < ITEM_get_cas (m_heap s1 x)"
    | "ITEM_get_cas (m_heap s1 it) \<noteq> ITEM_get_cas (m_heap s1 x)" "\<not> (ss \<and> ITEM_get_cas (m_heap s1 it) < ITEM_get_cas (m_heap s1 x))"
    by blast
  then show ?thesis
  proof cases
    case 1
    obtain s2 s3 where s2: "do_item_replace st x it (hash k) (?hit s1) = Some s2" "do_item_remove x s2 = Some s3" "moved st hash s M R s3 (M(k \<mapsto> it)) R"
      using over_replace [OF hit [OF ov]] unfolding k_def by blast
    have "store_cas st t ss it x (hash k) s1 = Some (STORED, it, NULL, s2)" using 1 o(6) s2(1) by (simp add: store_cas_def)
    then show ?thesis using s2 1 by (auto simp: cas_accepts_def)
  next
    case 2
    obtain s2 s3 where s2: "do_item_replace st x it (hash k) (?hit ?w2) = Some s2" "do_item_remove x s2 = Some s3" "moved st hash s M R s3 (M(k \<mapsto> it)) R"
      using over_replace [OF hit [OF w2]] unfolding k_def by blast
    have "store_cas st t ss it x (hash k) s1 = Some (STORED, it, NULL, s2)" using 2 o(6) s2(1) by (simp add: store_cas_def Let_def)
    then show ?thesis using s2 2 by (auto simp: cas_accepts_def)
  next
    case 3
    let ?s2 = "s1\<lparr>cas_badval := bump2 t (ITEM_clsid (m_heap s1 x)) (cas_badval s1)\<rparr>"
    have "over st hash s M R x it ?s2" by (rule over_counters [OF ov]) (simp_all add: mc_same_def)
    then obtain s3 where s3: "do_item_remove x ?s2 = Some s3" "moved st hash s M R s3 M R" using release_moved overD(1) by blast
    have "store_cas st t ss it x (hash k) s1 = Some (EXISTS, it, NULL, ?s2)" using 3 o(6) by (auto simp: store_cas_def Let_def)
    then show ?thesis using s3 3 by (auto simp: cas_accepts_def)
  qed
qed

section \<open>Append and prepend\<close>

definition combined :: "nread \<Rightarrow> byte list \<Rightarrow> byte list \<Rightarrow> byte list" where
  "combined comm old add = (if comm = NREAD_APPEND then take (length old - 2) old @ add else take (length add - 2) add @ old)"

lemma ok_item:
  assumes "cache_ok st hash s M R" "x \<in> held M R"
  shows "\<not> has_flag (m_heap s x) ITEM_CHUNKED \<and> 2 \<le> nbytes (m_heap s x)"
  using cache_okD [OF assms(1)] assms(2) held_refs [of M R s] store_invD(6) by (fastforce simp: item_ok_def)

lemma write_data:
  assumes ok: "cache_ok st hash s M R" and x: "x \<in> held M R"
    and s'_def: "s' = m_upd x (\<lambda>y. y\<lparr>it_data := f (it_data y)\<rparr>) s"
  shows "cache_ok st hash s' M R" "vals s s' (- {x})" "bump_bufs s' = bump_bufs s"
proof -
  obtain Q where Q: "cache_inv st hash s M Q R" using ok by (auto simp: cache_ok_def)
  then have i: "store_inv st hash s M Q (all_refs s R)" by (simp add: cache_inv_def)
  have xh: "x \<in> held M (all_refs s R)" using x held_refs by blast
  have h: "harmless (\<lambda>y. y\<lparr>it_data := f (it_data y)\<rparr>)" by (simp add: harmless_def has_flag_def)
  have si: "store_inv st hash s' M Q (all_refs s R)" unfolding s'_def by (rule harmless_write [OF i xh h])
  show b: "bump_bufs s' = bump_bufs s" by (simp add: s'_def)
  show "cache_ok st hash s' M R" using si Q bump_same [OF b] by (auto simp: cache_ok_def cache_inv_def)
  show "vals s s' (- {x})" by (simp add: vals_def s'_def upd_apply)
qed

lemma flags_data [simp]: "FLAGS_CONV (x\<lparr>it_data := d\<rparr>) = FLAGS_CONV x"
  by (simp add: FLAGS_CONV_def)

lemma poke_two:
  assumes "length a = na" "2 \<le> na" "length b = nb"
  shows "take (na + nb - 2) (poke (na - 2) b (poke 0 a d)) = take (na - 2) a @ b"
  using assms by (simp add: poke_def)

lemma value_length: "full_data x \<Longrightarrow> length (item_value x) = nat (nbytes x)"
  by (simp add: full_data_def item_value_def item_bytes_def)

lemma full_by_value: "length (item_value x) = nat (nbytes x) \<Longrightarrow> full_data x"
  by (simp add: full_data_def item_value_def item_bytes_def)

lemma length_combined:
  "length a = na \<Longrightarrow> length b = nb \<Longrightarrow> 2 \<le> na \<Longrightarrow> 2 \<le> nb \<Longrightarrow> length (combined comm a b) = na + nb - 2"
  by (auto simp: combined_def)

lemma copy_data_plain:
  assumes new: "\<not> has_flag (m_heap s new) ITEM_CHUNKED" "nbytes (m_heap s new) = nbytes (m_heap s it) + nbytes (m_heap s x) - 2"
    and a: "full_data (m_heap s x)" "2 \<le> nbytes (m_heap s x)" and b: "full_data (m_heap s it)" "2 \<le> nbytes (m_heap s it)"
  shows "\<exists>f. store_item_copy_data st hash oss comm x new it s = Some (True, m_upd new (\<lambda>y. y\<lparr>it_data := f (it_data y)\<rparr>) s) \<and>
    item_value ((m_heap s new)\<lparr>it_data := f (it_data (m_heap s new))\<rparr>) = combined comm (item_value (m_heap s x)) (item_value (m_heap s it))"
proof -
  let ?A = "item_value (m_heap s x)" and ?B = "item_value (m_heap s it)"
  let ?na = "nat (nbytes (m_heap s x))" and ?nb = "nat (nbytes (m_heap s it))"
  note len = value_length [OF a(1)] value_length [OF b(1)]
  have n: "nat (nbytes (m_heap s new)) = ?na + ?nb - 2" "nat (nbytes (m_heap s x) - 2) = ?na - 2" "nat (nbytes (m_heap s it) - 2) = ?nb - 2"
    using new(2) a(2) b(2) by (auto simp: nat_add_distrib nat_diff_distrib)
  show ?thesis
  proof (cases "comm = NREAD_APPEND")
    case True
    let ?f = "\<lambda>d. poke (?na - 2) ?B (poke 0 ?A d)"
    have "take (?na + ?nb - 2) (?f (it_data (m_heap s new))) = take (?na - 2) ?A @ ?B" by (rule poke_two) (use len a(2) in auto)
    then have "item_value ((m_heap s new)\<lparr>it_data := ?f (it_data (m_heap s new))\<rparr>) = combined comm ?A ?B"
      using True len n(1) by (simp add: item_value_def [of "m_heap s new \<lparr>it_data := _\<rparr>"] item_bytes_def combined_def)
    moreover have "store_item_copy_data st hash oss comm x new it s = Some (True, m_upd new (\<lambda>y. y\<lparr>it_data := ?f (it_data y)\<rparr>) s)"
      using True new(1) n by (simp add: store_item_copy_data_def copy_two_def item_value_def Let_def)
    ultimately show ?thesis by (intro exI [where x = ?f] conjI)
  next
    case False
    let ?f = "\<lambda>d. poke (?nb - 2) ?A (poke 0 ?B d)"
    have "take (?nb + ?na - 2) (?f (it_data (m_heap s new))) = take (?nb - 2) ?B @ ?A" by (rule poke_two) (use len b(2) in auto)
    then have "item_value ((m_heap s new)\<lparr>it_data := ?f (it_data (m_heap s new))\<rparr>) = combined comm ?A ?B"
      using False len n(1) by (simp add: item_value_def [of "m_heap s new \<lparr>it_data := _\<rparr>"] item_bytes_def combined_def add.commute)
    moreover have "store_item_copy_data st hash oss comm x new it s = Some (True, m_upd new (\<lambda>y. y\<lparr>it_data := ?f (it_data y)\<rparr>) s)"
      using False new(1) n by (simp add: store_item_copy_data_def copy_two_def item_value_def Let_def)
    ultimately show ?thesis by (intro exI [where x = ?f] conjI)
  qed
qed

text \<open>What a combining store did: nothing because of the CAS value or for lack of memory, or it made the item \<open>new\<close>.\<close>

definition combine_made ::
  "settings \<Rightarrow> (byte list \<Rightarrow> u32) \<Rightarrow> mc \<Rightarrow> (byte list \<rightharpoonup> addr) \<Rightarrow> (addr \<Rightarrow> nat) \<Rightarrow> nread \<Rightarrow> addr \<Rightarrow> addr \<Rightarrow> addr \<Rightarrow> mc \<Rightarrow> (byte list \<rightharpoonup> addr) \<Rightarrow> bool" where
  "combine_made st hash s M R comm x it new s2 M2 \<longleftrightarrow> M2 \<subseteq>\<^sub>m M \<and> new \<noteq> NULL \<and> new \<notin> ran M2 \<and> R new = 0 \<and> bump_count s2 new = 0 \<and>
     cache_ok st hash s2 M2 (R(new := 1)) \<and> vals s s2 (held M2 R) \<and> key (m_heap s2 new) = key (m_heap s it) \<and>
     FLAGS_CONV (m_heap s2 new) = FLAGS_CONV (m_heap s x) \<and> full_data (m_heap s2 new) \<and>
     item_value (m_heap s2 new) = combined comm (item_value (m_heap s x)) (item_value (m_heap s it))"

lemma store_combine_ok:
  assumes ok: "cache_ok st hash s M R" and x: "0 < R x" and it: "0 < R it" and few: "few_refs (all_refs s R)"
    and tr: "tail_repair_time st = 0" and os: "os_ok st os" and kl: "length (key (m_heap s it)) < 256"
    and plain: "item_total st (length (key (m_heap s it))) (FLAGS_CONV (m_heap s x)) (nbytes (m_heap s it) + nbytes (m_heap s x) - 2) \<le> slab_chunk_size_max st"
    and full: "full_data (m_heap s x)" "full_data (m_heap s it)"
    and cs: "\<not> (ITEM_get_cas (m_heap s it) \<noteq> 0 \<and> ITEM_get_cas (m_heap s it) \<noteq> ITEM_get_cas (m_heap s x))"
  shows "(\<exists>s2 M2. store_combine st hash os oss comm it x s = Some (NOT_STORED, True, it, NULL, s2) \<and> evicts (locked os) M M2 \<and> moved st hash s M R s2 M2 R) \<or>
    (\<exists>new s2 M2. store_combine st hash os oss comm it x s = Some (NOT_STORED, False, new, new, s2) \<and> combine_made st hash s M R comm x it new s2 M2)"
proof -
  let ?k = "key (m_heap s it)" and ?nb = "nbytes (m_heap s it) + nbytes (m_heap s x) - 2" and ?fl = "FLAGS_CONV (m_heap s x)"
  obtain new s2 M2 where a: "do_item_alloc st hash os ?k ?fl (exptime (m_heap s x)) ?nb s = Some (new, s2)" "evicts (locked os) M M2" "bump_bufs s2 = bump_bufs s"
      "if new = NULL then moved st hash s M R s2 M2 R
       else new \<notin> ran M2 \<and> R new = 0 \<and> bump_count s new = 0 \<and> is_item (m_heap s2 new) ?k ?fl (exptime (m_heap s x)) ?nb \<and> moved st hash s M2 R s2 M2 (R(new := 1))"
    using moved_alloc [OF ok tr os few plain] by blast
  show ?thesis
  proof (cases "new = NULL")
    case True
    then have "store_combine st hash os oss comm it x s = Some (NOT_STORED, True, it, NULL, s2)" using a(1) cs by (auto simp: store_combine_def Let_def)
    then show ?thesis using a(2,4) True by auto
  next
    case False
    then have n: "new \<notin> ran M2" "R new = 0" "bump_count s new = 0" "is_item (m_heap s2 new) ?k ?fl (exptime (m_heap s x)) ?nb"
        "moved st hash s M2 R s2 M2 (R(new := 1))" using a(4) by auto
    note ok2 = moved_ok [OF n(5)]
    have nx: "new \<noteq> x" "new \<noteq> it" using n(2) x it by auto
    have h: "y \<in> held M2 R" "y \<in> held M2 (R(new := 1))" if "y = x \<or> y = it" for y using that x it by (auto simp: held_def)
    have v: "vals s s2 (held M2 R)" using n(1,2,5) by (auto simp: moved_def vals_def held_def)
    have same: "nbytes (m_heap s2 y) = nbytes (m_heap s y)" "it_data (m_heap s2 y) = it_data (m_heap s y)" if "y = x \<or> y = it" for y
      using v h(1) [OF that] by (auto simp: vals_def)
    have sv: "item_value (m_heap s2 y) = item_value (m_heap s y)" if "y = x \<or> y = it" for y
      using same [OF that] by (simp add: item_value_def item_bytes_def)
    have nc: "\<not> has_flag (m_heap s2 new) ITEM_CHUNKED" using ok_item [OF ok2, of new] by (simp add: held_def)
    have nb: "nbytes (m_heap s2 new) = nbytes (m_heap s2 it) + nbytes (m_heap s2 x) - 2" using n(4) same by (simp add: is_item_def)
    have fd: "full_data (m_heap s2 x)" "2 \<le> nbytes (m_heap s2 x)" "full_data (m_heap s2 it)" "2 \<le> nbytes (m_heap s2 it)"
      using full same ok_item [OF ok2 h(2)] by (auto simp: full_data_def)
    obtain f where f: "store_item_copy_data st hash oss comm x new it s2 = Some (True, m_upd new (\<lambda>y. y\<lparr>it_data := f (it_data y)\<rparr>) s2)"
        "item_value ((m_heap s2 new)\<lparr>it_data := f (it_data (m_heap s2 new))\<rparr>) = combined comm (item_value (m_heap s2 x)) (item_value (m_heap s2 it))"
      using copy_data_plain [OF nc nb fd] by blast
    define s3 where "s3 = m_upd new (\<lambda>y. y\<lparr>it_data := f (it_data y)\<rparr>) s2"
    have "new \<in> held M2 (R(new := 1))" by (simp add: held_def)
    note w = write_data [OF ok2 this s3_def]
    have run: "store_combine st hash os oss comm it x s = Some (NOT_STORED, False, new, new, s3)"
      using a(1) cs f(1) False by (auto simp: store_combine_def Let_def s3_def)
    have hn: "new \<notin> held M2 R" using n(1,2) by (simp add: held_def)
    have v3: "vals s s3 (held M2 R)" by (rule vals_trans [OF v w(2)]) (use hn in auto)
    have kn: "key (m_heap s3 new) = ?k" "FLAGS_CONV (m_heap s3 new) = ?fl"
      using n(4) kl by (simp_all add: s3_def upd_apply is_item_def)
    have vn: "item_value (m_heap s3 new) = combined comm (item_value (m_heap s x)) (item_value (m_heap s it))"
      using f(2) sv by (simp add: s3_def upd_apply)
    have lv: "length (item_value (m_heap s3 new)) = nat (nbytes (m_heap s it)) + nat (nbytes (m_heap s x)) - 2"
      unfolding vn using length_combined [OF value_length [OF full(1)] value_length [OF full(2)]] fd same by (simp add: add.commute)
    have fn: "full_data (m_heap s3 new)"
      by (rule full_by_value) (use lv n(4) fd(2,4) same in \<open>simp add: s3_def upd_apply is_item_def nat_add_distrib nat_diff_distrib\<close>)
    have "bump_count s3 new = 0" using n(3) bump_same [of s3 s] w(3) a(3) by simp
    then have "combine_made st hash s M R comm x it new s3 M2"
      using evicts_le [OF a(2)] False n(1,2) w(1) v3 kn vn fn by (simp add: combine_made_def)
    then show ?thesis using run by blast
  qed
qed

lemma map_le_none: "M2 \<subseteq>\<^sub>m M \<Longrightarrow> M k = Some x \<Longrightarrow> M2 k = Some x \<or> M2 k = None"
  by (cases "M2 k") (auto simp: map_le_def dom_def)

text \<open>The new item takes the place of the old one; both references are released.\<close>

lemma combine_finish:
  assumes ov: "over st hash s M R x it s1" and c: "combine_made st hash s1 M (R(x := R x + 1)) comm x it new s2 M2"
  defines "k \<equiv> key (m_heap s it)"
  shows "\<exists>s3 s4 s5. do_item_replace st x new (hash k) s2 = Some s3 \<and> do_item_remove x s3 = Some s4 \<and> do_item_remove new s4 = Some s5 \<and>
    moved st hash s M2 R s5 (M2(k \<mapsto> new)) R \<and> FLAGS_CONV (m_heap s5 new) = FLAGS_CONV (m_heap s1 x) \<and> full_data (m_heap s5 new) \<and>
    item_value (m_heap s5 new) = combined comm (item_value (m_heap s1 x)) (item_value (m_heap s1 it))"
proof -
  note o = overD [OF ov]
  let ?R1 = "R(x := R x + 1)" let ?R2 = "?R1(new := 1)" let ?M' = "M2(k \<mapsto> new)"
  have c': "M2 \<subseteq>\<^sub>m M" "new \<noteq> NULL" "new \<notin> ran M2" "?R1 new = 0" "bump_count s2 new = 0" "cache_ok st hash s2 M2 ?R2" "vals s1 s2 (held M2 ?R1)"
      "key (m_heap s2 new) = key (m_heap s1 it)" "FLAGS_CONV (m_heap s2 new) = FLAGS_CONV (m_heap s1 x)"
      "item_value (m_heap s2 new) = combined comm (item_value (m_heap s1 x)) (item_value (m_heap s1 it))" "full_data (m_heap s2 new)"
    using c by (auto simp: combine_made_def)
  have nx: "new \<noteq> x" "new \<noteq> it" "R new = 0" using c'(4) o(4) by (auto split: if_splits)
  have kx: "key (m_heap s1 x) = k" using cache_okD [OF moved_ok [OF o(1)]] mapped_key [of st hash s1 M _ _ k x] o(2) by (auto simp: k_def)
  have kx2: "key (m_heap s2 x) = k" using c'(7) kx by (simp add: vals_def held_def)
  have kn: "key (m_heap s2 new) = k" using c'(8) o(8) by (simp add: k_def)
  have m2: "M2 k = Some x \<or> M2 k = None" by (rule map_le_none [OF c'(1)]) (use o(2) k_def in simp)
  have r: "0 < ?R2 x" "0 < ?R2 new" "all_refs s2 ?R2 new < 65000" using nx c'(5) by (auto simp: all_refs_def)
  obtain s3 where 3: "do_item_replace st x new (hash k) s2 = Some s3" "moved st hash s2 M2 ?R2 s3 ?M' ?R2"
    using moved_replace_any [of st hash s2 M2 ?R2 k x new, OF c'(6) m2 r(1) kx2 c'(3) r(2,3) kn] by blast
  obtain s4 where 4: "do_item_remove x s3 = Some s4" "moved st hash s3 ?M' ?R2 s4 ?M' (?R2(x := ?R2 x - 1))"
    using moved_remove [OF moved_ok [OF 3(2)] r(1)] by blast
  have R4: "?R2(x := ?R2 x - 1) = R(new := 1)" using nx by (auto simp: fun_eq_iff)
  obtain s5 where 5: "do_item_remove new s4 = Some s5" "moved st hash s4 ?M' (R(new := 1)) s5 ?M' ((R(new := 1))(new := 0))"
    using moved_remove [OF moved_ok [OF 4(2)], of new] unfolding R4 by auto
  have R5: "(R(new := 1))(new := 0) = R" using nx(3) by (auto simp: fun_eq_iff)
  have m25: "moved st hash s2 M2 ?R2 s5 ?M' R"
  proof (rule moved_trans [OF moved_trans [OF 3(2) 4(2) [unfolded R4]] 5(2) [unfolded R5]])
    show "held M2 ?R2 \<inter> held ?M' (R(new := 1)) \<subseteq> held ?M' ?R2" "held M2 ?R2 \<inter> held ?M' R \<subseteq> held ?M' (R(new := 1))"
      using nx by (auto simp: held_def split: if_splits)
  qed
  have "vals s s5 (held M2 R \<inter> held ?M' R)"
  proof (rule vals_trans [OF vals_trans [OF _ c'(7)]])
    show "vals s s1 (held M R \<inter> held M ?R1)" using o(1) by (simp add: moved_def)
    show "held M2 R \<subseteq> held M R \<inter> held M ?R1" using held_mono [OF c'(1), of R] by (auto simp: held_def split: if_splits)
    show "vals s2 s5 (held M2 ?R2 \<inter> held ?M' R)" using m25 by (simp add: moved_def)
  qed (use nx in \<open>auto simp: held_def split: if_splits\<close>)
  then have "moved st hash s M2 R s5 ?M' R" using m25 by (simp add: moved_def)
  moreover have "new \<in> held M2 ?R2" "new \<in> held ?M' R" using ranI [of ?M' k new] by (auto simp: held_def)
  then have "item_value (m_heap s5 new) = item_value (m_heap s2 new) \<and> FLAGS_CONV (m_heap s5 new) = FLAGS_CONV (m_heap s2 new) \<and>
      full_data (m_heap s5 new) = full_data (m_heap s2 new)"
    using moved_value [OF m25] by blast
  ultimately show ?thesis using 3(1) 4(1) 5(1) c'(9,10,11) by simp
qed

section \<open>The commands\<close>

text \<open>What a store does to the map, for the live item \<open>L\<close> under the key \<open>k\<close>; the items of \<open>K\<close> are never evicted.\<close>

definition store_outcome ::
  "addr set \<Rightarrow> mc \<Rightarrow> (byte list \<rightharpoonup> addr) \<Rightarrow> (byte list \<rightharpoonup> addr) \<Rightarrow> (addr \<Rightarrow> nat) \<Rightarrow> addr option \<Rightarrow> bool \<Rightarrow> addr \<Rightarrow> nread \<Rightarrow> store_item_type \<Rightarrow> mc \<Rightarrow> (byte list \<rightharpoonup> addr) \<Rightarrow> bool" where
  "store_outcome K s M M0 R L set_stale it comm res s' M' \<longleftrightarrow>
     (let k = key (m_heap s it); x = m_heap s (addr_of L); y = m_heap s it; M1 = M(k := L) in
      case comm of
        NREAD_SET \<Rightarrow> res = STORED \<and> M' = M1(k \<mapsto> it)
      | NREAD_ADD \<Rightarrow> if L = None then res = STORED \<and> M' = M1(k \<mapsto> it) else res = NOT_STORED \<and> M' = M1
      | NREAD_REPLACE \<Rightarrow> if L = None then res = NOT_STORED \<and> M' = M1 else res = STORED \<and> M' = M1(k \<mapsto> it)
      | NREAD_CAS \<Rightarrow> if L = None then res = NOT_FOUND \<and> M' = M1
                     else if cas_accepts set_stale y x then res = STORED \<and> M' = M1(k \<mapsto> it) else res = EXISTS \<and> M' = M1
      | _ \<Rightarrow> if L = None then res = NOT_STORED \<and> M' = M1
             else if ITEM_get_cas y \<noteq> 0 \<and> ITEM_get_cas y \<noteq> ITEM_get_cas x then res = EXISTS \<and> M' = M1
             else (res = NOT_STORED \<and> evicts K M1 M') \<or>
               (res = STORED \<and> M0 \<subseteq>\<^sub>m M1 \<and> (\<exists>new. new \<notin> ran M0 \<and> R new = 0 \<and> M' = M0(k \<mapsto> new) \<and> FLAGS_CONV (m_heap s' new) = FLAGS_CONV x \<and> full_data (m_heap s' new) \<and>
                  item_value (m_heap s' new) = combined comm (item_value x) (item_value y))))"

text \<open>The requirements of a combining store: it fits into one chunk and the data was written.\<close>

definition combine_fits :: "settings \<Rightarrow> item \<Rightarrow> item \<Rightarrow> bool" where
  "combine_fits st x y \<longleftrightarrow> item_total st (length (key y)) (FLAGS_CONV x) (nbytes y + nbytes x - 2) \<le> slab_chunk_size_max st \<and>
     length (key y) < 256 \<and> full_data x \<and> full_data y"

text \<open>The map before the command without what was evicted to make room for a new item.\<close>

definition survivors :: "(byte list \<rightharpoonup> addr) \<Rightarrow> (byte list \<rightharpoonup> addr) \<Rightarrow> nread \<Rightarrow> store_item_type \<Rightarrow> bool" where
  "survivors M0 M comm res \<longleftrightarrow> M0 \<subseteq>\<^sub>m M \<and> ((comm = NREAD_APPEND \<or> comm = NREAD_PREPEND) \<and> res = STORED \<or> M0 = M)"

lemma refs_few: "\<forall>x. R x < 63000 \<Longrightarrow> few_refs R"
  unfolding few_refs_def by (erule all_forward, erule less_trans) simp

lemma store_absent:
  assumes ok: "cache_ok st hash s M R" and it: "it \<notin> ran M" "0 < R it" and r: "\<forall>x. all_refs s R x < 63000" and t: "t < length (bump_bufs s)"
    and L: "live st s M (key (m_heap s it)) = None"
  shows "\<exists>res c s' M'. do_store_item st hash os oss t ss it comm (hash (key (m_heap s it))) s = Some (res, c, s') \<and>
    moved st hash s M R s' M' R \<and> store_outcome (locked os) s M M R None ss it comm res s' M'"
proof -
  let ?k = "key (m_heap s it)" let ?M = "M(?k := None)"
  obtain s1 where 1: "do_item_get st t ?k (hash ?k) False s = Some (NULL, s1)" "moved st hash s M R s1 ?M R" "bump_bufs s1 = bump_bufs s"
    using moved_get [OF ok refs_few [OF r] t, of ?k False] unfolding L addr_of_def plus_ref_def by auto
  have k1: "key (m_heap s1 it) = ?k" using moved_key [OF 1(2) it(2,2)] .
  have nr: "it \<notin> ran ?M" using it(1) ran_mono_del [of M ?k] by blast
  have "all_refs s R it < 65000" using spec [OF r, of it] by simp
  then have r1: "all_refs s1 R it < 65000" using bump_same [OF 1(3)] by simp
  have free: "?M (key (m_heap s1 it)) = None" by (simp add: k1)
  have "moved st hash s1 ?M R (do_item_link st it (hash ?k) s1) (M(?k \<mapsto> it)) R"
    using moved_link [OF moved_ok [OF 1(2)] nr it(2) r1 free] by (simp only: k1 fun_upd_upd)
  then have link: "moved st hash s M R (do_item_link st it (hash ?k) s1) (M(?k \<mapsto> it)) R"
  proof (rule moved_trans [OF 1(2)])
    show "held M R \<inter> held (M(?k \<mapsto> it)) R \<subseteq> held ?M R" using it(2) ran_map_upd [of ?M ?k it] by (auto simp: held_def)
  qed
  let ?s2 = "s1\<lparr>cas_misses := (cas_misses s1)(t := cas_misses s1 t + 1)\<rparr>"
  have "moved st hash s1 ?M R ?s2 ?M R" by (rule ok_counters [OF moved_ok [OF 1(2)]]) (simp_all add: mc_same_def)
  then have miss: "moved st hash s M R ?s2 ?M R" by (rule moved_trans [OF 1(2)]) blast
  show ?thesis
    by (cases comm) (use 1(1,2) link miss in \<open>auto simp: do_store_item_def store_cas_def store_value_def store_outcome_def Let_def\<close>)
qed

lemma incr_same:
  "ITEM_get_cas (m_heap (snd (refcount_incr x s)) y) = ITEM_get_cas (m_heap s y)"
  "FLAGS_CONV (m_heap (snd (refcount_incr x s)) y) = FLAGS_CONV (m_heap s y)"
  "item_value (m_heap (snd (refcount_incr x s)) y) = item_value (m_heap s y)"
  "nbytes (m_heap (snd (refcount_incr x s)) y) = nbytes (m_heap s y)"
  "full_data (m_heap (snd (refcount_incr x s)) y) = full_data (m_heap s y)"
  "key (m_heap (snd (refcount_incr x s)) y) = key (m_heap s y)"
  by (simp_all add: refcount_incr_def upd_apply ITEM_get_cas_def FLAGS_CONV_def item_value_def item_bytes_def full_data_def)

lemma incr_few: "\<forall>x. all_refs s R x < 63000 \<Longrightarrow> few_refs (all_refs (snd (refcount_incr x s)) (R(x := R x + 1)))"
proof -
  assume r: "\<forall>x. all_refs s R x < 63000"
  have "bump_bufs (snd (refcount_incr x s)) = bump_bufs s" by (simp add: refcount_incr_def)
  then have le: "all_refs (snd (refcount_incr x s)) (R(x := R x + 1)) y \<le> all_refs s R y + 1" for y using bump_same [of "snd (refcount_incr x s)" s] by (simp add: all_refs_def)
  have "all_refs (snd (refcount_incr x s)) (R(x := R x + 1)) y < 64000" for y using le [of y] spec [OF r, of y] by linarith
  then show ?thesis by (simp add: few_refs_def)
qed

lemma store_combining:
  assumes ok: "cache_ok st hash s M R" and it: "it \<notin> ran M" "0 < R it" and r: "\<forall>x. all_refs s R x < 63000"
    and L: "live st s M (key (m_heap s it)) = Some x" and tr: "tail_repair_time st = 0" and os: "os_ok st os"
    and cm: "comm = NREAD_APPEND \<or> comm = NREAD_PREPEND" and fits: "combine_fits st (m_heap s x) (m_heap s it)"
  shows "\<exists>res c s' M' M0. do_store_item st hash os oss t ss it comm (hash (key (m_heap s it))) s = Some (res, c, s') \<and>
    survivors M0 M comm res \<and> moved st hash s M0 R s' M' R \<and> store_outcome (locked os) s M M0 R (Some x) ss it comm res s' M'"
proof -
  let ?k = "key (m_heap s it)" and ?s1 = "snd (refcount_incr x s)" let ?R1 = "R(x := R x + 1)"
  have xk: "M ?k = Some x" using live_some [OF L] .
  then have M1: "M(?k \<mapsto> x) = M" by auto
  note ov = over_get [OF ok it r L]
  note o = overD [OF ov]
  have get: "do_item_get st t ?k (hash ?k) False s = Some (x, ?s1)" by (rule get_found [OF ok L])
  have cms: "comm \<noteq> NREAD_ADD" "comm \<noteq> NREAD_CAS" "comm \<noteq> NREAD_SET" using cm by auto
  have run: "do_store_item st hash os oss t ss it comm (hash ?k) s =
      do { (stored, it', new_it, s2) \<leftarrow> store_value st hash os oss comm it x (hash ?k) ?s1;
           s3 \<leftarrow> do_item_remove x s2;
           s4 \<leftarrow> (if new_it \<noteq> NULL then do_item_remove new_it s3 else Some s3);
           Some (stored, if stored = STORED then Some (ITEM_get_cas (m_heap s4 it')) else None, s4) }"
    using cms o(6) by (simp add: do_store_item_def get)
  let ?bad = "ITEM_get_cas (m_heap s it) \<noteq> 0 \<and> ITEM_get_cas (m_heap s it) \<noteq> ITEM_get_cas (m_heap s x)"
  have out: "store_outcome (locked os) s M M0 R (Some x) ss it comm res s' M' \<longleftrightarrow>
      (if ?bad then res = EXISTS \<and> M' = M
       else (res = NOT_STORED \<and> evicts (locked os) M M') \<or>
         (res = STORED \<and> M0 \<subseteq>\<^sub>m M \<and> (\<exists>new. new \<notin> ran M0 \<and> R new = 0 \<and> M' = M0(?k \<mapsto> new) \<and> FLAGS_CONV (m_heap s' new) = FLAGS_CONV (m_heap s x) \<and> full_data (m_heap s' new) \<and>
            item_value (m_heap s' new) = combined comm (item_value (m_heap s x)) (item_value (m_heap s it)))))" for M0 res s' M'
    by (rule disjE [OF cm]; simp add: store_outcome_def Let_def addr_of_def M1)
  have sv: "survivors M M comm res" "M2 \<subseteq>\<^sub>m M \<Longrightarrow> survivors M2 M comm STORED" for M2 res using cm by (auto simp: survivors_def)
  show ?thesis
  proof (cases ?bad)
    case True
    then have "store_value st hash os oss comm it x (hash ?k) ?s1 = Some (EXISTS, it, NULL, ?s1)"
      using cm by (simp add: store_value_def store_combine_def Let_def incr_same)
    moreover obtain s3 where "do_item_remove x ?s1 = Some s3" "moved st hash s M R s3 M R" using release_moved [OF o(1)] by blast
    ultimately show ?thesis using True sv(1) by (auto simp: run out)
  next
    case False
    have c: "(\<exists>s2 M2. store_combine st hash os oss comm it x ?s1 = Some (NOT_STORED, True, it, NULL, s2) \<and> evicts (locked os) M M2 \<and> moved st hash ?s1 M ?R1 s2 M2 ?R1) \<or>
        (\<exists>new s2 M2. store_combine st hash os oss comm it x ?s1 = Some (NOT_STORED, False, new, new, s2) \<and> combine_made st hash ?s1 M ?R1 comm x it new s2 M2)"
      by (rule store_combine_ok [OF moved_ok [OF o(1)] _ _ incr_few [OF r] tr os])
        (use o(4) fits False in \<open>auto simp: combine_fits_def incr_same\<close>)
    show ?thesis
    proof (rule disjE [OF c], goal_cases)
      case 1
      then obtain s2 M2 where s2: "store_combine st hash os oss comm it x ?s1 = Some (NOT_STORED, True, it, NULL, s2)" "evicts (locked os) M M2" "moved st hash ?s1 M ?R1 s2 M2 ?R1" by blast
      then have "store_value st hash os oss comm it x (hash ?k) ?s1 = Some (NOT_STORED, it, NULL, s2)" using cm by (auto simp: store_value_def)
      moreover have "moved st hash s M R s2 M2 ?R1" by (rule moved_trans [OF o(1) s2(3)]) (auto simp: held_def split: if_splits)
      then obtain s3 where "do_item_remove x s2 = Some s3" "moved st hash s M R s3 M2 R" using release_moved by blast
      ultimately show ?case using s2(2) False sv(1) by (auto simp: run out)
    next
      case 2
      then obtain new s2 M2 where s2: "store_combine st hash os oss comm it x ?s1 = Some (NOT_STORED, False, new, new, s2)"
          "combine_made st hash ?s1 M ?R1 comm x it new s2 M2" by blast
      obtain s3 s4 s5 where f: "do_item_replace st x new (hash ?k) s2 = Some s3" "do_item_remove x s3 = Some s4" "do_item_remove new s4 = Some s5"
          "moved st hash s M2 R s5 (M2(?k \<mapsto> new)) R" "FLAGS_CONV (m_heap s5 new) = FLAGS_CONV (m_heap s x)" "full_data (m_heap s5 new)"
          "item_value (m_heap s5 new) = combined comm (item_value (m_heap s x)) (item_value (m_heap s it))"
        using combine_finish [OF ov s2(2)] unfolding incr_same by blast
      have m: "M2 \<subseteq>\<^sub>m M" "new \<noteq> NULL" "new \<notin> ran M2" "R new = 0" using s2(2) by (auto simp: combine_made_def split: if_splits)
      have "store_value st hash os oss comm it x (hash ?k) ?s1 = Some (STORED, new, new, s3)" using cm s2(1) f(1) o(6) by (auto simp: store_value_def)
      then have "do_store_item st hash os oss t ss it comm (hash ?k) s = Some (STORED, Some (ITEM_get_cas (m_heap s5 new)), s5)"
        using f(2,3) m(2) by (simp add: run)
      moreover have "store_outcome (locked os) s M M2 R (Some x) ss it comm STORED s5 (M2(?k \<mapsto> new))" using False m f(5,6,7) by (auto simp: out)
      ultimately show ?case using f(4) sv(2) [OF m(1)] by blast
    qed
  qed
qed

lemma store_present:
  assumes ok: "cache_ok st hash s M R" and it: "it \<notin> ran M" "0 < R it" and r: "\<forall>x. all_refs s R x < 63000"
    and L: "live st s M (key (m_heap s it)) = Some x" and tr: "tail_repair_time st = 0" and os: "os_ok st os"
    and fits: "comm = NREAD_APPEND \<or> comm = NREAD_PREPEND \<Longrightarrow> combine_fits st (m_heap s x) (m_heap s it)"
  shows "\<exists>res c s' M' M0. do_store_item st hash os oss t ss it comm (hash (key (m_heap s it))) s = Some (res, c, s') \<and>
    survivors M0 M comm res \<and> moved st hash s M0 R s' M' R \<and> store_outcome (locked os) s M M0 R (Some x) ss it comm res s' M'"
proof -
  let ?k = "key (m_heap s it)" and ?s1 = "snd (refcount_incr x s)"
  have xk: "M ?k = Some x" using live_some [OF L] .
  then have M1: "M(?k \<mapsto> x) = M" by auto
  note ov = over_get [OF ok it r L]
  note o = overD [OF ov]
  have get: "do_item_get st t ?k (hash ?k) False s = Some (x, ?s1)" by (rule get_found [OF ok L])
  have sv: "\<exists>M0. survivors M0 M cm res \<and> moved st hash s M0 R s' M' R" if "moved st hash s M R s' M' R" for cm res s' M'
    using that by (intro exI [of _ M]) (simp add: survivors_def)
  note D = do_store_item_def store_outcome_def Let_def get addr_of_def M1 o(6)
  show ?thesis
  proof (cases comm)
    case NREAD_ADD
    obtain Q where "moved st hash ?s1 M (R(x := R x + 1)) (do_item_update st x ?s1) M (R(x := R x + 1))"
      using moved_update [OF moved_ok [OF o(1)], of x] by (auto simp: held_def)
    then have "moved st hash s M R (do_item_update st x ?s1) M (R(x := R x + 1))"
      by (rule moved_trans [OF o(1)]) blast
    then obtain s3 where "do_item_remove x (do_item_update st x ?s1) = Some s3" "moved st hash s M R s3 M R" using release_moved by blast
    then show ?thesis using NREAD_ADD by (auto simp: D intro!: sv)
  next
    case NREAD_CAS
    obtain s2 s3 where "store_cas st t ss it x (hash ?k) ?s1 =
        Some (if cas_accepts ss (m_heap s it) (m_heap s x) then STORED else EXISTS, it, NULL, s2)" "do_item_remove x s2 = Some s3"
        "moved st hash s M R s3 (if cas_accepts ss (m_heap s it) (m_heap s x) then M(?k \<mapsto> it) else M) R"
      using store_cas_ok [OF ov, of t ss] by (auto simp: cas_accepts_def incr_same)
    then show ?thesis using NREAD_CAS by (cases "cas_accepts ss (m_heap s it) (m_heap s x)") (auto simp: D intro!: sv)
  next
    case NREAD_SET
    then show ?thesis using over_replace [OF ov] by (auto simp: D store_value_def intro!: sv)
  next
    case NREAD_REPLACE
    then show ?thesis using over_replace [OF ov] by (auto simp: D store_value_def intro!: sv)
  next
    case NREAD_APPEND
    then show ?thesis using store_combining [OF ok it r L tr os, of comm] fits by blast
  next
    case NREAD_PREPEND
    then show ?thesis using store_combining [OF ok it r L tr os, of comm] fits by blast
  qed
qed

end
