(* ===== verification/Store_Delta.thy ===== *)
theory Store_Delta
  imports Store_Ok
begin

unbundle bit_operations_syntax

text \<open>
  Arithmetic on stored numbers: the text of the new number, in place only when nobody else holds the item, in a
  new item otherwise.
\<close>

section \<open>Numbers in values\<close>

lemma length_decimal: "n < 10 ^ m \<Longrightarrow> 0 < m \<Longrightarrow> length (decimal n) \<le> m"
proof (induction n arbitrary: m rule: decimal.induct)
  case (1 n)
  show ?case
  proof (cases "n < 10")
    case True
    then show ?thesis using 1 by (simp add: decimal.simps [of n])
  next
    case False
    then obtain j where j: "m = Suc j" "0 < j" using 1 by (cases m; cases "m - 1") auto
    then have "n div 10 < 10 ^ j" using 1 by (simp add: less_mult_imp_div_less)
    then have "length (decimal (n div 10)) \<le> j" using 1(1) False j(2) by blast
    then show ?thesis using False j(1) by (simp add: decimal.simps [of n])
  qed
qed

lemma length_number: "length (itoa_u64 v []) \<le> 20"
  using length_decimal [of "unat v" 20] unat_u64_less [of v] by (simp add: itoa_u64_eq)

text \<open>A value as the arithmetic commands leave it.\<close>

definition number_text :: "u64 \<Rightarrow> nat \<Rightarrow> byte list" where
  "number_text w n = decimal (unat w) @ replicate n 32 @ [13, 10]"

lemma scan_number_text:
  assumes "scan_digits 10 r n = (n, r)"
  shows "scan_number 10 (decimal n @ r) = Some (False, n, r)"
proof -
  obtain b cs where b: "decimal n = of_nat (48 + b) # cs" "b < 10" using decimal_start by blast
  have "has_digit 10 (decimal n @ r)" using b digit_char_val(2) [OF b(2)] by (simp add: has_digit_def del: of_nat_add)
  moreover have "scan_digits 10 (decimal n @ r) 0 = (n, r)" using scan_decimal [of n r 0] assms by simp
  moreover have "dropWhile isspace (decimal n @ r) = decimal n @ r" using b digit_char_val(3) [OF b(2)] by (simp del: of_nat_add)
  ultimately show ?thesis
    using b digit_char_val(4,5) [OF b(2)] by (simp add: scan_number_def Let_def isspace_def del: of_nat_add)
qed

lemma decimal_nonzero: "b \<in> set (decimal n) \<Longrightarrow> b \<noteq> 0"
proof (induction n rule: decimal.induct)
  case (1 n)
  have z: "of_nat (48 + d) \<noteq> (0 :: byte)" if "d < 10" for d :: nat
    using that by (simp add: word_unat_eq_iff unat_of_nat del: of_nat_add)
  show ?case using 1 z [of n] z [of "n mod 10"] by (cases "n < 10") (auto simp: decimal.simps [of n] simp del: of_nat_add)
qed

lemma number_read:
  "safe_strtoull (takeWhile (\<lambda>b. b \<noteq> 0) (number_text w n @ beyond)) =
     (if sint w < 0 \<and> of_char (CHR ''-'') \<in> set (takeWhile (\<lambda>b. b \<noteq> 0) beyond) then None else Some w)"
proof -
  let ?r = "replicate n 32 @ [13, 10] @ takeWhile (\<lambda>b. b \<noteq> 0) beyond"
  have t: "takeWhile (\<lambda>b. b \<noteq> 0) (number_text w n @ beyond) = decimal (unat w) @ ?r"
    using decimal_nonzero [of _ "unat w"] by (simp add: number_text_def takeWhile_append)
  have "scan_digits 10 ?r (unat w) = (unat w, ?r)" by (cases n) (simp_all add: digit_val_def isdigit_def)
  note sc = scan_number_text [OF this]
  have e: "end_ok ?r" by (cases n) (simp_all add: end_ok_def isspace_def)
  show ?thesis
    unfolding t safe_strtoull_def safe_strtoull_base_def sc
    using e decimal_no_minus [of "unat w"] unat_u64_less [of w] by (auto simp: strtoull_val_def)
qed

section \<open>In place\<close>

lemma flag_cas [simp]: "has_flag (ITEM_set_cas v x) g = has_flag x g"
  by (simp add: has_flag_def)

lemma harmless_cas [simp]: "harmless (ITEM_set_cas v)"
  by (simp add: harmless_def)

definition crlf :: "item \<Rightarrow> bool" where
  "crlf x \<longleftrightarrow> full_data x \<and> drop (nat (nbytes x) - 2) (item_value x) = [13, 10]"

lemma poke_number:
  assumes d: "length d \<ge> nb" "length b + 2 \<le> nb" and e: "drop (nb - 2) (take nb d) = [13, 10]"
  shows "take nb (poke (length b) (replicate (nb - length b - 2) 32) (poke 0 b d)) = b @ replicate (nb - length b - 2) 32 @ [13, 10]"
proof -
  let ?n = "nb - length b - 2"
  have "poke (length b) (replicate ?n 32) (poke 0 b d) = b @ replicate ?n 32 @ drop (nb - 2) d"
    using d by (simp add: poke_def)
  moreover have "take 2 (drop (nb - 2) d) = [13, 10]" using e d by (simp add: drop_take)
  moreover have "nb - (length b + ?n) = 2" using d(2) by simp
  ultimately show ?thesis using d(2) by simp
qed

lemma delta_in_place_ok:
  assumes ok: "cache_ok st hash s M R" and x: "x \<in> held M R" and fit: "int (length b) + 2 \<le> nbytes (m_heap s x)" and c: "crlf (m_heap s x)"
  defines "s' \<equiv> delta_in_place st x b s"
  shows "cache_ok st hash s' M R" "vals s s' (- {x})" "FLAGS_CONV (m_heap s' x) = FLAGS_CONV (m_heap s x)"
    "item_value (m_heap s' x) = b @ replicate (nat (nbytes (m_heap s x)) - length b - 2) 32 @ [13, 10]" "bump_bufs s' = bump_bufs s" "full_data (m_heap s' x)"
proof -
  define s1 where "s1 = item_stats_sizes_remove x s"
  define s2 where "s2 = (if use_cas st then snd (get_cas_id s1) else s1)"
  define v where "v = (if use_cas st then cas_id s1 + 1 else 0)"
  define s3 where "s3 = m_upd x (ITEM_set_cas v) s2"
  define s4 where "s4 = item_stats_sizes_add x s3"
  define n where "n = nat (nbytes (m_heap s x)) - length b - 2"
  define f where "f = (\<lambda>d. poke (length b) (replicate n 32) (poke 0 b d))"
  define s5 where "s5 = m_upd x (\<lambda>y. y\<lparr>it_data := f (it_data y)\<rparr>) s4"
  have h2: "m_heap s2 = m_heap s" "bump_bufs s2 = bump_bufs s" "current_time s2 = current_time s" "mc_same s s2"
    by (simp_all add: s2_def s1_def get_cas_id_def item_stats_sizes_remove_def item_stats_sizes_change_def mc_same_def Let_def split: option.splits)
  have m2: "moved st hash s M R s2 M R" by (rule ok_counters [OF ok h2(4,1,2,3)])
  have m3: "moved st hash s M R s3 M R" unfolding s3_def by (rule moved_harmless [OF m2 x]) simp_all
  have h4: "m_heap s4 = m_heap s3" "bump_bufs s4 = bump_bufs s3" "current_time s4 = current_time s3" "mc_same s3 s4"
    by (simp_all add: s4_def item_stats_sizes_add_def item_stats_sizes_change_def mc_same_def Let_def split: option.splits)
  have ok4: "cache_ok st hash s4 M R" by (rule moved_ok [OF ok_counters [OF moved_ok [OF m3] h4(4,1,2,3)]])
  note w = write_data [OF ok4 x s5_def]
  have hx: "m_heap s5 x = (ITEM_set_cas v (m_heap s x))\<lparr>it_data := f (it_data (m_heap s x))\<rparr>"
    by (simp add: s5_def h4 s3_def h2 upd_apply)
  have run: "s' = do_item_update st x s5"
    by (auto simp: s'_def delta_in_place_def Let_def s5_def s4_def s3_def s2_def s1_def v_def n_def f_def get_cas_id_def upd_apply
        item_stats_sizes_add_def item_stats_sizes_remove_def split: prod.splits)
  note u = moved_update [OF w(1) x]
  show "cache_ok st hash s' M R" unfolding run by (rule moved_ok [OF u])
  obtain Q where Q: "cache_inv st hash s5 M Q R" using w(1) by (auto simp: cache_ok_def)
  have xh: "x \<in> held M (all_refs s5 R)" using x held_refs by blast
  note k = cache_update(2) [OF Q xh]
  show b': "bump_bufs s' = bump_bufs s" using k w(3) h4 h2 by (simp add: run keeps_def s3_def)
  have v5: "vals s s5 (- {x})" by (simp add: vals_def s5_def s3_def h4 h2 upd_apply)
  show "vals s s' (- {x})" unfolding run by (rule vals_trans [OF v5 keeps_vals [OF k subset_refl]]) simp_all
  have e: "FLAGS_CONV (m_heap s' x) = FLAGS_CONV (m_heap s5 x)" "item_value (m_heap s' x) = item_value (m_heap s5 x)"
    using vals_value [OF keeps_vals [OF k subset_refl], of x] by (simp_all add: run)
  show "FLAGS_CONV (m_heap s' x) = FLAGS_CONV (m_heap s x)" unfolding e hx by (simp add: FLAGS_CONV_def)
  have "item_value (m_heap s5 x) = take (nat (nbytes (m_heap s x))) (f (it_data (m_heap s x)))"
    by (simp add: hx item_value_def item_bytes_def)
  also have "\<dots> = b @ replicate n 32 @ [13, 10]"
    unfolding f_def n_def using c fit by (intro poke_number) (auto simp: crlf_def full_data_def item_value_def item_bytes_def)
  finally have v5: "item_value (m_heap s5 x) = b @ replicate n 32 @ [13, 10]" .
  have "full_data (m_heap s5 x)" by (rule full_by_value) (use v5 fit in \<open>simp add: hx n_def\<close>)
  then show "full_data (m_heap s' x)" using vals_value [OF keeps_vals [OF k subset_refl], of x] by (simp add: run)
  show "item_value (m_heap s' x) = b @ replicate (nat (nbytes (m_heap s x)) - length b - 2) 32 @ [13, 10]" using v5 by (simp add: e n_def)
qed

section \<open>In a new item\<close>

definition delta_made ::
  "settings \<Rightarrow> (byte list \<Rightarrow> u32) \<Rightarrow> mc \<Rightarrow> (byte list \<rightharpoonup> addr) \<Rightarrow> (addr \<Rightarrow> nat) \<Rightarrow> addr \<Rightarrow> byte list \<Rightarrow> byte list \<Rightarrow> addr \<Rightarrow> mc \<Rightarrow> (byte list \<rightharpoonup> addr) \<Rightarrow> bool" where
  "delta_made st hash s M R x k b new s' M2 \<longleftrightarrow> M2 \<subseteq>\<^sub>m M \<and> new \<notin> ran M2 \<and> R new = 0 \<and> cache_ok st hash s' (M2(k \<mapsto> new)) R \<and>
     vals s s' (held M2 R) \<and> FLAGS_CONV (m_heap s' new) = FLAGS_CONV (m_heap s x) \<and> item_value (m_heap s' new) = b @ [13, 10] \<and> full_data (m_heap s' new)"

lemma delta_replace_ok:
  assumes ok: "cache_ok st hash s M R" and xk: "M k = Some x" and rx: "0 < R x" and few: "few_refs (all_refs s R)"
    and tr: "tail_repair_time st = 0" and os: "os_ok st os" and kl: "length k < 256"
    and plain: "item_total st (length k) (FLAGS_CONV (m_heap s x)) (int (length b) + 2) \<le> slab_chunk_size_max st"
  shows "(\<exists>s' M2. delta_replace st hash os x b (hash k) s = Some (False, s') \<and> evicts (locked os) M M2 \<and> moved st hash s M R s' M2 (R(x := R x - 1))) \<or>
    (\<exists>new s' M2. delta_replace st hash os x b (hash k) s = Some (True, s') \<and> delta_made st hash s M R x k b new s' M2)"
proof -
  let ?fl = "FLAGS_CONV (m_heap s x)" and ?nb = "int (length b) + 2"
  have kx: "key (m_heap s x) = k" using cache_okD [OF ok] mapped_key [of st hash s M _ _ k x] xk by auto
  obtain new s2 M2 where a: "do_item_alloc st hash os k ?fl (exptime (m_heap s x)) ?nb s = Some (new, s2)" "evicts (locked os) M M2" "bump_bufs s2 = bump_bufs s"
      "if new = NULL then moved st hash s M R s2 M2 R
       else new \<notin> ran M2 \<and> R new = 0 \<and> bump_count s new = 0 \<and> is_item (m_heap s2 new) k ?fl (exptime (m_heap s x)) ?nb \<and> moved st hash s M2 R s2 M2 (R(new := 1))"
    using moved_alloc [OF ok tr os few plain] by blast
  show ?thesis
  proof (cases "new = NULL")
    case True
    then have m: "moved st hash s M R s2 M2 R" using a(4) by simp
    obtain s3 where s3: "do_item_remove x s2 = Some s3" "moved st hash s2 M2 R s3 M2 (R(x := R x - 1))"
      using moved_remove [OF moved_ok [OF m] rx] by blast
    have "moved st hash s M R s3 M2 (R(x := R x - 1))" by (rule moved_trans [OF m s3(2)]) (auto simp: held_def split: if_splits)
    then show ?thesis using True a(1,2) s3(1) by (auto simp: delta_replace_def kx)
  next
    case False
    let ?R2 = "R(new := 1)" let ?M' = "M2(k \<mapsto> new)"
    have n: "new \<notin> ran M2" "R new = 0" "bump_count s new = 0" "is_item (m_heap s2 new) k ?fl (exptime (m_heap s x)) ?nb"
        "moved st hash s M2 R s2 M2 ?R2" using False a(4) by auto
    have nx: "new \<noteq> x" using n(2) rx by auto
    define f where "f = (\<lambda>d. poke (length b) [13, 10] (poke 0 b d))"
    define s3 where "s3 = m_upd new (\<lambda>y. y\<lparr>it_data := f (it_data y)\<rparr>) s2"
    have "new \<in> held M2 ?R2" by (simp add: held_def)
    note w = write_data [OF moved_ok [OF n(5)] this s3_def]
    have v2: "vals s s2 (held M2 R)" using n(1,2,5) by (auto simp: moved_def vals_def held_def)
    have hn: "new \<notin> held M2 R" using n(1,2) by (simp add: held_def)
    have v3: "vals s s3 (held M2 R)" by (rule vals_trans [OF v2 w(2)]) (use hn in auto)
    have kn: "key (m_heap s3 new) = k" "FLAGS_CONV (m_heap s3 new) = ?fl" "item_value (m_heap s3 new) = b @ [13, 10]" "full_data (m_heap s3 new)"
      using n(4) kl by (simp_all add: s3_def upd_apply is_item_def item_value_def item_bytes_def f_def poke_def nat_add_distrib full_data_def)
    have kx3: "key (m_heap s3 x) = k" using v3 rx kx by (simp add: vals_def held_def)
    have m2: "M2 k = Some x \<or> M2 k = None" by (rule map_le_none [OF evicts_le [OF a(2)] xk])
    have "bump_count s3 new = 0" using n(3) bump_same [of s3 s] w(3) a(3) by simp
    then have r: "0 < ?R2 x" "0 < ?R2 new" "all_refs s3 ?R2 new < 65000" using nx rx by (auto simp: all_refs_def)
    obtain s4 where 4: "do_item_replace st x new (hash k) s3 = Some s4" "moved st hash s3 M2 ?R2 s4 ?M' ?R2"
      using moved_replace_any [of st hash s3 M2 ?R2 k x new, OF w(1) m2 r(1) kx3 n(1) r(2,3) kn(1)] by blast
    define s5 where "s5 = m_upd x (ITEM_set_cas (if use_cas st then ITEM_get_cas (m_heap s4 new) else 0)) s4"
    have 5: "moved st hash s3 M2 ?R2 s5 ?M' ?R2" unfolding s5_def by (rule moved_harmless [OF 4(2)]) (use r(1) in \<open>simp_all add: held_def\<close>)
    obtain s6 where 6: "do_item_remove new s5 = Some s6" "moved st hash s5 ?M' ?R2 s6 ?M' (?R2(new := ?R2 new - 1))"
      using moved_remove [OF moved_ok [OF 5] r(2)] by blast
    have R6: "?R2(new := ?R2 new - 1) = R" using n(2) by (auto simp: fun_eq_iff)
    have m36: "moved st hash s3 M2 ?R2 s6 ?M' R" by (rule moved_trans [OF 5 6(2) [unfolded R6]]) (auto simp: held_def)
    have sub: "held M2 R \<subseteq> held M2 ?R2 \<inter> held ?M' R"
    proof
      fix y assume y: "y \<in> held M2 R"
      have "y \<in> held ?M' R"
      proof (cases "0 < R y")
        case False
        then obtain k' where k': "M2 k' = Some y" using y by (auto simp: held_def ran_def)
        then have "k' \<noteq> k" using m2 rx False by auto
        then have "?M' k' = Some y" using k' by simp
        from ranI [of ?M' k' y, OF this] show ?thesis by (simp add: held_def)
      qed (simp add: held_def)
      then show "y \<in> held M2 ?R2 \<inter> held ?M' R" using y hn by (auto simp: held_def)
    qed
    have "vals s3 s6 (held M2 ?R2 \<inter> held ?M' R)" using m36 by (simp add: moved_def)
    then have "vals s s6 (held M2 R)" by (rule vals_trans [OF v3]) (use sub in auto)
    moreover have "new \<in> held M2 ?R2" "new \<in> held ?M' R" using ranI [of ?M' k new] by (auto simp: held_def)
    note val = moved_value [OF m36 this]
    ultimately have "delta_made st hash s M R x k b new s6 M2"
      using evicts_le [OF a(2)] n(1,2) moved_ok [OF m36] val kn(2,3,4) by (simp add: delta_made_def)
    moreover have "delta_replace st hash os x b (hash k) s = Some (True, s6)"
      using a(1) False 4(1) 6(1) by (simp add: delta_replace_def kx s3_def f_def s5_def)
    ultimately show ?thesis by blast
  qed
qed

section \<open>The command\<close>

definition delta_bad_cas :: "u64 option \<Rightarrow> item \<Rightarrow> bool" where
  "delta_bad_cas cs x \<longleftrightarrow> (case cs of None \<Rightarrow> False | Some c \<Rightarrow> c \<noteq> 0 \<and> ITEM_get_cas x \<noteq> c)"

definition delta_text :: "item \<Rightarrow> byte list \<Rightarrow> byte list" where
  "delta_text x beyond = takeWhile (\<lambda>b. b \<noteq> 0) (item_value x @ beyond)"

text \<open>Counting in natural numbers: up modulo \<open>2 ^ 64\<close>, down to zero.\<close>

definition delta_count :: "bool \<Rightarrow> u64 \<Rightarrow> u64 \<Rightarrow> u64" where
  "delta_count incr delta v = of_nat (if incr then unat v + unat delta else unat v - unat delta)"

lemma delta_counted: "delta_value incr delta v = delta_count incr delta v"
proof (cases "incr \<or> delta > v")
  case True
  then show ?thesis by (auto simp: delta_value_def delta_count_def word_less_nat_alt)
next
  case False
  then have "unat delta \<le> unat v" by (simp add: word_le_nat_alt not_less)
  then have "of_nat (unat v - unat delta) = v - delta" by (simp add: of_nat_diff)
  then show ?thesis using False by (simp add: delta_value_def delta_count_def)
qed

text \<open>The number is overwritten in place when its text fits and nobody, client or bump buffer, holds the item.\<close>

definition delta_room :: "mc \<Rightarrow> (addr \<Rightarrow> nat) \<Rightarrow> addr \<Rightarrow> byte list \<Rightarrow> bool" where
  "delta_room s R x buf \<longleftrightarrow> int (length buf) + 2 \<le> nbytes (m_heap s x) \<and> all_refs s R x = 0"

definition counter_item :: "item \<Rightarrow> item \<Rightarrow> u64 \<Rightarrow> nat \<Rightarrow> bool" where
  "counter_item i i' w n \<longleftrightarrow> FLAGS_CONV i' = FLAGS_CONV i \<and> full_data i' \<and> item_value i' = number_text w n"

definition delta_outcome ::
  "addr set \<Rightarrow> (addr \<Rightarrow> nat) \<Rightarrow> mc \<Rightarrow> (byte list \<rightharpoonup> addr) \<Rightarrow> (byte list \<rightharpoonup> addr) \<Rightarrow> (addr \<Rightarrow> byte list) \<Rightarrow> byte list \<Rightarrow> addr option \<Rightarrow> bool \<Rightarrow> u64 \<Rightarrow> u64 option \<Rightarrow>
   delta_result_type \<Rightarrow> byte list \<Rightarrow> mc \<Rightarrow> (byte list \<rightharpoonup> addr) \<Rightarrow> bool" where
  "delta_outcome K R s M M0 beyond k L incr delta cs res buf s' M' \<longleftrightarrow>
     (case L of None \<Rightarrow> res = DELTA_ITEM_NOT_FOUND \<and> M' = M(k := None)
      | Some x \<Rightarrow> let i = m_heap s x in
          if nbytes i \<le> 2 then res = NON_NUMERIC \<and> M' = M
          else if delta_bad_cas cs i then res = DELTA_ITEM_CAS_MISMATCH \<and> M' = M
          else (case safe_strtoull (delta_text i (beyond x)) of
              None \<Rightarrow> res = NON_NUMERIC \<and> M' = M
            | Some v \<Rightarrow> let w = delta_count incr delta v in
                buf = decimal (unat w) \<and>
                (if delta_room s R x buf then res = DELTA_OK \<and> M' = M \<and> M0 = M(k := None) \<and>
                   counter_item i (m_heap s' x) w (nat (nbytes i) - length buf - 2)
                 else (res = EOM \<and> M0 = M \<and> evicts K M M') \<or>
                   (res = DELTA_OK \<and> (\<exists>y. y \<notin> ran M0 \<and> R y = 0 \<and> M' = M0(k \<mapsto> y) \<and> counter_item i (m_heap s' y) w 0)))))"

text \<open>Items whose data was never written would be read as numbers of garbage: the value is complete and ends its line.\<close>

definition delta_fits :: "settings \<Rightarrow> byte list \<Rightarrow> item \<Rightarrow> bool" where
  "delta_fits st k x \<longleftrightarrow> crlf x \<and> item_total st (length k) (FLAGS_CONV x) 22 \<le> slab_chunk_size_max st"

lemma total_mono: "m \<le> n \<Longrightarrow> item_total st k fl m \<le> item_total st k fl n"
  by (simp add: item_total_def item_make_header_def Let_def nat_mono)

lemma not_here:
  assumes ok: "cache_ok st hash s M R" and x: "M k = Some x" "R x = 0"
  shows "x \<notin> held (M(k := None)) R"
proof
  assume "x \<in> held (M(k := None)) R"
  then obtain k' where k': "(M(k := None)) k' = Some x" using x(2) by (auto simp: held_def ran_def)
  then have "M k' = Some x" "k' \<noteq> k" by (auto split: if_splits)
  then show False using cache_inj [of st hash s M R k' x k] ok x(1) by blast
qed

lemma held_more: "held M R \<subseteq> held M (R(x := R x + 1))"
  by (auto simp: held_def)

lemma incr_refcount:
  assumes "cache_ok st hash s M R" "M k = Some x" "all_refs s R x < 65000"
  shows "unat (refcount (m_heap (snd (refcount_incr x s)) x)) = all_refs s R x + 2"
proof -
  obtain Q where i: "store_inv st hash s M Q (all_refs s R)" using cache_okD [OF assms(1)] by blast
  have x: "x \<in> ran M" "x \<in> held M (all_refs s R)" using mapped_held [of M k x, OF assms(2)] by blast+
  show ?thesis using store_incr(3) [OF i x(2) assms(3)] x(1) by (simp add: refcount_incr_def upd_apply)
qed

lemma delta_found:
  assumes ok: "cache_ok st hash s M R" and r: "\<forall>x. all_refs s R x < 63000" and L: "live st s M k = Some x"
    and tr: "tail_repair_time st = 0" and os: "os_ok st os" and kl: "length k < 256" and fits: "delta_fits st k (m_heap s x)"
  shows "\<exists>res buf c s' M' M0. do_add_delta st hash os beyond t k incr delta cs (hash k) s = Some (res, buf, c, s') \<and>
    M0 \<subseteq>\<^sub>m M \<and> (res = DELTA_OK \<or> M0 = M) \<and> moved st hash s M0 R s' M' R \<and> delta_outcome (locked os) R s M M0 beyond k (Some x) incr delta cs res buf s' M'"
proof -
  let ?s1 = "snd (refcount_incr x s)" let ?R1 = "R(x := R x + 1)" let ?i = "m_heap s x"
  have xk: "M k = Some x" using live_some [OF L] .
  have xn: "x \<noteq> NULL" using live_nonnull [OF ok L] .
  have xh: "x \<in> held M R" using xk by (auto simp: held_def ran_def)
  have r65: "all_refs s R x < 65000" using spec [OF r, of x] by simp
  have get: "do_item_get st t k (hash k) False s = Some (x, ?s1)" by (rule get_found [OF ok L])
  have m1: "moved st hash s M R ?s1 M ?R1" by (rule moved_incr [OF ok xh r65])
  obtain s2 where rel: "do_item_remove x ?s1 = Some s2" "moved st hash s M R s2 M R" using release_moved [OF m1] by blast
  have nc: "\<not> has_flag (m_heap ?s1 x) ITEM_CHUNKED" using ok_item [OF moved_ok [OF m1], of x] by (simp add: held_def)
  have same: "ITEM_clsid (m_heap ?s1 x) = ITEM_clsid ?i" by (simp add: refcount_incr_def upd_apply ITEM_clsid_def)
  have nb: "nbytes (m_heap ?s1 x) = nbytes ?i" by (rule incr_same)
  have bc: "delta_bad_cas cs (m_heap ?s1 x) = delta_bad_cas cs ?i" by (cases cs) (simp_all add: delta_bad_cas_def incr_same)
  have tx: "takeWhile (\<lambda>b. b \<noteq> 0) (item_bytes (m_heap ?s1 x) (nat (nbytes (m_heap ?s1 x))) @ beyond x) = delta_text ?i (beyond x)"
    using incr_same(3) [of x s x] by (simp add: delta_text_def item_value_def)
  note D = do_add_delta_def get Let_def xn nb tx [unfolded nb] nc delta_bad_cas_def [symmetric] bc
  show ?thesis
  proof (cases "nbytes ?i \<le> 2 \<or> delta_bad_cas cs ?i \<or> safe_strtoull (delta_text ?i (beyond x)) = None")
    case True
    then have "do_add_delta st hash os beyond t k incr delta cs (hash k) s =
        Some (if nbytes ?i \<le> 2 then NON_NUMERIC else if delta_bad_cas cs ?i then DELTA_ITEM_CAS_MISMATCH else NON_NUMERIC, [], cs, s2)"
      using rel(1) by (auto simp: D)
    moreover have "delta_outcome (locked os) R s M M beyond k (Some x) incr delta cs
        (if nbytes ?i \<le> 2 then NON_NUMERIC else if delta_bad_cas cs ?i then DELTA_ITEM_CAS_MISMATCH else NON_NUMERIC) [] s2 M"
      using True by (auto simp: delta_outcome_def Let_def)
    ultimately show ?thesis using rel(2) map_le_refl by blast
  next
    case False
    then obtain v where v: "\<not> nbytes ?i \<le> 2" "\<not> delta_bad_cas cs ?i" "safe_strtoull (delta_text ?i (beyond x)) = Some v" by auto
    let ?w = "delta_value incr delta v"
    let ?b = "itoa_u64 ?w []"
    define s2' where "s2' = (if incr then ?s1\<lparr>incr_hits := bump2 t (ITEM_clsid (m_heap ?s1 x)) (incr_hits ?s1)\<rparr>
       else ?s1\<lparr>decr_hits := bump2 t (ITEM_clsid (m_heap ?s1 x)) (decr_hits ?s1)\<rparr>)"
    have h2: "m_heap s2' = m_heap ?s1" "bump_bufs s2' = bump_bufs ?s1" "current_time s2' = current_time ?s1" "mc_same ?s1 s2'"
      by (simp_all add: s2'_def mc_same_def)
    have m12: "moved st hash ?s1 M ?R1 s2' M ?R1" by (rule ok_counters [OF moved_ok [OF m1] h2(4,1,2,3)])
    have m2: "moved st hash s M R s2' M ?R1" by (rule moved_trans [OF m1 m12]) blast
    have c2: "crlf (m_heap s2' x)" "nbytes (m_heap s2' x) = nbytes ?i" "FLAGS_CONV (m_heap s2' x) = FLAGS_CONV ?i"
      using fits by (simp_all add: h2 delta_fits_def crlf_def incr_same)
    have rc: "unat (refcount (m_heap ?s1 x)) = all_refs s R x + 2" by (rule incr_refcount [where k = k, OF ok xk r65])
    have out: "delta_outcome (locked os) R s M M0 beyond k (Some x) incr delta cs res ?b s' M' \<longleftrightarrow>
        (if delta_room s R x ?b then res = DELTA_OK \<and> M' = M \<and> M0 = M(k := None) \<and> counter_item ?i (m_heap s' x) ?w (nat (nbytes ?i) - length ?b - 2)
         else (res = EOM \<and> M0 = M \<and> evicts (locked os) M M') \<or>
           (res = DELTA_OK \<and> (\<exists>y. y \<notin> ran M0 \<and> R y = 0 \<and> M' = M0(k \<mapsto> y) \<and> counter_item ?i (m_heap s' y) ?w 0)))" for M0 res s' M'
      using v by (simp add: delta_outcome_def itoa_u64_eq Let_def delta_counted)
    show ?thesis
    proof (cases "delta_room s R x ?b")
      case room: True
      then have z: "R x = 0" "bump_count s x = 0" by (auto simp: delta_room_def all_refs_def)
      have True: "int (length ?b) + 2 \<le> nbytes ?i \<and> refcount (m_heap ?s1 x) = 2"
        using room rc by (simp add: delta_room_def word_unat_eq_iff)
      have x2: "x \<in> held M ?R1" by (simp add: held_def)
      define s3 where "s3 = delta_in_place st x ?b s2'"
      have fit2: "int (length ?b) + 2 \<le> nbytes (m_heap s2' x)" using True c2(2) by simp
      note d = delta_in_place_ok [OF moved_ok [OF m2] x2 fit2 c2(1), folded s3_def]
      obtain s4 where 4: "do_item_remove x s3 = Some s4" "moved st hash s3 M ?R1 s4 M R"
        using moved_remove [OF d(1), of x] by auto
      let ?M0 = "M(k := None)"
      have nh: "x \<notin> held ?M0 R" by (rule not_here [where k = k, OF ok xk z(1)])
      have sub: "held ?M0 R \<inter> held M R \<subseteq> held M R \<inter> held M ?R1" by (auto simp: held_def split: if_splits)
      have "vals s s2' (held M R \<inter> held M ?R1)" using m2 by (simp add: moved_def)
      from vals_trans [OF this d(2), of "held ?M0 R \<inter> held M R"]
      have v3: "vals s s3 (held ?M0 R \<inter> held M R)" using sub nh by blast
      have "vals s3 s4 (held M ?R1 \<inter> held M R)" using 4(2) by (simp add: moved_def)
      from vals_trans [OF v3 this, of "held ?M0 R \<inter> held M R"]
      have "vals s s4 (held ?M0 R \<inter> held M R)" using sub by blast
      then have mv: "moved st hash s ?M0 R s4 M R" using moved_ok [OF 4(2)] by (simp add: moved_def)
      have run: "do_add_delta st hash os beyond t k incr delta cs (hash k) s =
          Some (DELTA_OK, ?b, map_option (\<lambda>_. ITEM_get_cas (m_heap s3 x)) cs, s4)"
        using v True 4(1) by (simp add: D s3_def s2'_def)
      have e: "item_value (m_heap s4 x) = item_value (m_heap s3 x)" "FLAGS_CONV (m_heap s4 x) = FLAGS_CONV (m_heap s3 x)" "full_data (m_heap s4 x) = full_data (m_heap s3 x)"
        using moved_value [OF 4(2) x2 xh] by auto
      have iv: "item_value (m_heap s4 x) = number_text ?w (nat (nbytes ?i) - length ?b - 2)"
        unfolding e d(4) c2(2) by (simp add: number_text_def itoa_u64_eq)
      have "delta_outcome (locked os) R s M ?M0 beyond k (Some x) incr delta cs DELTA_OK ?b s4 M"
        unfolding out using room iv e(2,3) d(3,6) c2(3) by (simp add: counter_item_def)
      then show ?thesis using run mv unlink_le [of M k] by blast
    next
      case tight: False
      then have False: "\<not> (int (length ?b) + 2 \<le> nbytes ?i \<and> refcount (m_heap ?s1 x) = 2)"
        using rc by (auto simp: delta_room_def word_unat_eq_iff)
      have gt: "refcount (m_heap ?s1 x) > 1" using rc by (simp add: word_less_nat_alt)
      have fr: "few_refs (all_refs s2' ?R1)" using incr_few [OF r, of x] bump_same [OF h2(2)] by simp
      have "item_total st (length k) (FLAGS_CONV (m_heap s2' x)) (int (length ?b) + 2) \<le> item_total st (length k) (FLAGS_CONV ?i) 22"
        unfolding c2(3) using length_number [of ?w] by (intro total_mono) simp
      then have pl: "item_total st (length k) (FLAGS_CONV (m_heap s2' x)) (int (length ?b) + 2) \<le> slab_chunk_size_max st"
        using fits by (simp add: delta_fits_def)
      have rx: "0 < ?R1 x" by simp
      note dr = delta_replace_ok [where k = k, OF moved_ok [OF m2] xk rx fr tr os kl pl]
      have run: "do_add_delta st hash os beyond t k incr delta cs (hash k) s =
          do { (ok, s) \<leftarrow> delta_replace st hash os x ?b (hash k) s2';
               if \<not> ok then Some (EOM, ?b, cs, s)
               else do { let c = map_option (\<lambda>_. ITEM_get_cas (m_heap s x)) cs; s \<leftarrow> do_item_remove x s; Some (DELTA_OK, ?b, c, s) } }"
        using v False gt by (cases "int (length ?b) + 2 \<le> nbytes ?i") (simp_all add: D s2'_def [symmetric])
      show ?thesis
      proof (rule disjE [OF dr], goal_cases)
        case 1
        then obtain s3 M2 where 3: "delta_replace st hash os x ?b (hash k) s2' = Some (False, s3)" "evicts (locked os) M M2" "moved st hash s2' M ?R1 s3 M2 R" by auto
        have "moved st hash s M R s3 M2 R" by (rule moved_trans [OF m2 3(3)]) (auto simp: held_def split: if_splits)
        moreover have "do_add_delta st hash os beyond t k incr delta cs (hash k) s = Some (EOM, ?b, cs, s3)" using 3(1) by (simp add: run)
        moreover have "delta_outcome (locked os) R s M M beyond k (Some x) incr delta cs EOM ?b s3 M2" unfolding out using 3(2) tight by simp
        ultimately show ?case using map_le_refl [of M] by blast
      next
        case 2
        then obtain new s3 M2 where 3: "delta_replace st hash os x ?b (hash k) s2' = Some (True, s3)" "delta_made st hash s2' M ?R1 x k ?b new s3 M2" by blast
        let ?M' = "M2(k \<mapsto> new)"
        have n: "M2 \<subseteq>\<^sub>m M" "new \<notin> ran M2" "?R1 new = 0" "cache_ok st hash s3 ?M' ?R1" "vals s2' s3 (held M2 ?R1)"
            "FLAGS_CONV (m_heap s3 new) = FLAGS_CONV ?i" "item_value (m_heap s3 new) = ?b @ [13, 10]" "full_data (m_heap s3 new)"
          using 3(2) c2(3) by (auto simp: delta_made_def)
        have nn: "R new = 0" using n(3) by (auto split: if_splits)
        have RR: "?R1(x := ?R1 x - 1) = R" by auto
        obtain s4 where 4: "do_item_remove x s3 = Some s4" "moved st hash s3 ?M' ?R1 s4 ?M' R"
          using moved_remove [of st hash s3 ?M' ?R1 x, OF n(4) rx] unfolding RR by blast
        have "vals s s2' (held M R \<inter> held M ?R1)" using m2 by (simp add: moved_def)
        from vals_trans [OF this n(5), of "held M2 R"]
        have v3: "vals s s3 (held M2 R)" using held_mono [OF n(1), of R] held_more [of M R x] held_more [of M2 R x] by blast
        have "vals s3 s4 (held ?M' ?R1 \<inter> held ?M' R)" using 4(2) by (simp add: moved_def)
        from vals_trans [OF v3 this, of "held M2 R \<inter> held ?M' R"]
        have "vals s s4 (held M2 R \<inter> held ?M' R)" using held_more [of ?M' R x] by blast
        then have mv: "moved st hash s M2 R s4 ?M' R" using moved_ok [OF 4(2)] by (simp add: moved_def)
        have nh: "new \<in> held ?M' ?R1" "new \<in> held ?M' R" using ranI [of ?M' k new] by (auto simp: held_def)
        note val = moved_value [OF 4(2) nh]
        have "item_value (m_heap s4 new) = number_text ?w 0" using val n(7) by (simp add: number_text_def itoa_u64_eq)
        then have "delta_outcome (locked os) R s M M2 beyond k (Some x) incr delta cs DELTA_OK ?b s4 ?M'"
          unfolding out using tight n(2,3,6,8) nn val by (auto simp: counter_item_def)
        moreover have "do_add_delta st hash os beyond t k incr delta cs (hash k) s =
            Some (DELTA_OK, ?b, map_option (\<lambda>_. ITEM_get_cas (m_heap s3 x)) cs, s4)" using 3(1) 4(1) by (simp add: run)
        ultimately show ?case using mv n(1) by blast
      qed
    qed
  qed
qed

end
