(* ===== verification/Cache_History.thy ===== *)
theory Cache_History
  imports Store_Delta
begin

unbundle bit_operations_syntax

text \<open>
  All histories of the cache: worker threads allocate, fill, store, look up, touch, count, delete and release
  items; the LRU maintainer and the hash table's maintenance thread run in between; time passes. The second
  component of a state is what the clients hold: the number of references to each item.
\<close>

section \<open>The background threads\<close>

lemma background_rep:
  assumes "assoc_rep hash h a M" "assoc_wf a"
  shows "\<exists>h' a'. assoc_background hash e (h, a) = Some (h', a') \<and> assoc_rep hash h' a' M \<and> assoc_wf a' \<and> only_hnext h h'"
proof (cases e)
  case (Turn locks)
  obtain h' s' where b: "bulk_move hash locks (h, a) = Some (h', s')" "assoc_rep hash h' s' M" "assoc_wf s'" "only_hnext h h'"
    using bulk_move_rep [OF assms, of locks] by metis
  then show ?thesis by (auto simp: Turn maintenance_turn_def start_expand_same)
next
  case (Wake run k)
  then show ?thesis
    using assms expand_rep [of hash h a M k] by (auto simp: maintenance_wake_def assoc_expand_def assoc_wf_def hashsize_pos)
next
  case (Start_expand n)
  then show ?thesis using assms by (simp add: start_expand_same)
qed

lemma alloc_inv_hnext:
  assumes "alloc_inv st (h, sl) U" "only_hnext h h'"
  shows "alloc_inv st (h', sl) U"
proof -
  note f = only_hnext_fields [OF assms(2)]
  have e: "nx h' = nx h" "pv h' = pv h" "\<And>x. it_flags (h' x) = it_flags (h x)" using f by (auto simp: fun_eq_iff)
  have "free_ok h' sl F = free_ok h sl F" for F by (simp add: free_ok_def e)
  then show ?thesis using assms(1) by (simp add: alloc_inv_def slabs_inv_def)
qed

lemma moved_background:
  assumes ok: "cache_ok st hash s M R"
  shows "\<exists>h a. assoc_background hash e (m_heap s, m_assoc s) = Some (h, a) \<and> moved st hash s M R (s\<lparr>m_heap := h, m_assoc := a\<rparr>) M R"
proof -
  obtain Q where Q: "cache_inv st hash s M Q R" using ok by (auto simp: cache_ok_def)
  then have i: "store_inv st hash s M Q (all_refs s R)" by (simp add: cache_inv_def)
  note d = store_invD [OF i]
  obtain h a where b: "assoc_background hash e (m_heap s, m_assoc s) = Some (h, a)" "assoc_rep hash h a M" "assoc_wf a" "only_hnext (m_heap s) h"
    using background_rep [OF d(1,2)] by blast
  note f = only_hnext_fields [OF b(4)]
  let ?s = "s\<lparr>m_heap := h, m_assoc := a\<rparr>" and ?R = "all_refs s R"
  have cl: "ITEM_clsid (h x) = ITEM_clsid (m_heap s x)" "has_flag (h x) g = has_flag (m_heap s x) g" for x g
    using f by (simp_all add: ITEM_clsid_def has_flag_def)
  have "chunks_held h (held M ?R) = chunks_held (m_heap s) (held M ?R)" by (rule chunks_held_cong) (rule cl)
  then have "alloc_inv st (h, m_slabs s) (chunks_held h (held M ?R))" using alloc_inv_hnext [OF d(5) b(4)] by simp
  moreover have "\<forall>x \<in> held M ?R. item_ok M ?R h x" using d(6) f by (simp add: item_ok_def cl)
  moreover have "lru_rep ?s Q" by (rule lru_rep_hnext [OF d(3) b(4)])
  moreover have "(\<Sum>x \<in> ran M. ITEM_ntotal (h x)) = (\<Sum>x \<in> ran M. ITEM_ntotal (m_heap s x))"
    by (simp add: only_hnext_ntotal [OF b(4)])
  ultimately have si: "store_inv st hash ?s M Q ?R" using d b(2,3) by (simp add: store_inv_def)
  have "keeps s ?s (held M ?R)" by (rule keepsI) (use f cl in auto)
  then have "moved st hash s M R ?s M R" by (rule store_moved [OF Q si])
  then show ?thesis using b(1) by blast
qed

lemma ok_tick: "cache_ok st hash s M R \<Longrightarrow> cache_ok st hash (s\<lparr>current_time := t\<rparr>) M R"
proof -
  assume "cache_ok st hash s M R"
  then obtain Q where Q: "store_inv st hash s M Q (all_refs s R)" "bufs_ok s" using cache_okD by blast
  have e: "all_refs (s\<lparr>current_time := t\<rparr>) R = all_refs s R" "bufs_ok (s\<lparr>current_time := t\<rparr>) = bufs_ok s"
    using bump_same [of "s\<lparr>current_time := t\<rparr>" s] by simp_all
  have "store_inv st hash (s\<lparr>current_time := t\<rparr>) M Q (all_refs s R)" by (rule store_cong [OF Q(1)]) (simp_all add: mc_same_def)
  then show ?thesis using Q(2) by (auto simp: cache_ok_def cache_inv_def e)
qed

lemma fresh_buf:
  assumes "bipbuf_new (Some d) (16 * 8192) = Some b"
  shows "buf_ok b" "bip_contents b = []"
proof -
  have b: "b = bipbuf_init d 131072" using assms by (simp add: bipbuf_new_def)
  note g = init_good [of 131072 d, simplified]
  show "bip_contents b = []" using g(2) by (simp add: b)
  show "buf_ok b" using g(1) by (simp add: b buf_ok_def) (simp add: bipbuf_init_def)
qed

lemma ok_worker:
  assumes "cache_ok st hash s M R" "item_lru_bump_buf_create d s = (r, s')"
  shows "cache_ok st hash s' M R" "m_heap s' = m_heap s" "length (bump_bufs s) \<le> length (bump_bufs s')"
proof -
  obtain Q where Q: "store_inv st hash s M Q (all_refs s R)" "bufs_ok s" using cache_okD [OF assms(1)] by blast
  show "m_heap s' = m_heap s" "length (bump_bufs s) \<le> length (bump_bufs s')"
    using assms(2) by (auto simp: item_lru_bump_buf_create_def split: option.splits)
  show "cache_ok st hash s' M R"
  proof (cases d)
    case None
    then show ?thesis using assms by (simp add: item_lru_bump_buf_create_def bipbuf_new_def)
  next
    case (Some m)
    obtain b where b: "bipbuf_new (Some m) (16 * 8192) = Some b" by (simp add: bipbuf_new_def)
    then have s': "s' = s\<lparr>bump_bufs := bump_bufs s @ [\<lparr>bump_buf = b, bump_dropped = 0\<rparr>]\<rparr>"
      using assms(2) Some by (simp add: item_lru_bump_buf_create_def)
    have e: "all_refs s' R = all_refs s R" using fresh_buf(2) [OF b] by (simp add: s' all_refs_def bump_count_def fun_eq_iff)
    have "bufs_ok s'" using Q(2) fresh_buf(1) [OF b] by (auto simp: s' bufs_ok_def)
    moreover have "store_inv st hash s' M Q (all_refs s R)" by (rule store_cong [OF Q(1)]) (simp_all add: s')
    ultimately show ?thesis by (auto simp: cache_ok_def cache_inv_def e)
  qed
qed

section \<open>The start\<close>

text \<open>The statics of \<open>items.c\<close> before anything happened.\<close>

definition mc_start :: "heap \<Rightarrow> assoc \<Rightarrow> slabs \<Rightarrow> slab_rebalance \<Rightarrow> mc" where
  "mc_start h a sl rb = \<lparr>m_heap = h, m_assoc = a, m_slabs = sl, m_rebal = rb, heads = (\<lambda>_. NULL), tails = (\<lambda>_. NULL),
     itemstats = (\<lambda>_. zero_itemstats), sizes = (\<lambda>_. 0), sizes_bytes = (\<lambda>_. 0), stats_sizes_hist = None,
     stats_sizes_cas_min = 0, stats_sizes_buckets = 0, cas_id = 0, current_time = 0, curr_bytes = 0, curr_items = 0,
     total_items = 0, bump_bufs = [], get_flushed = (\<lambda>_. 0), get_expired = (\<lambda>_. 0), cas_misses = (\<lambda>_. 0),
     cas_hits = (\<lambda>_ _. 0), cas_badval = (\<lambda>_ _. 0), incr_hits = (\<lambda>_ _. 0), decr_hits = (\<lambda>_ _. 0)\<rparr>"

lemma start_ok:
  assumes a: "assoc_init p True = Some a" "p < 32" and sl: "alloc_inv st (h, sl) {}"
  shows "cache_ok st hash (mc_start h a sl rb) Map.empty (\<lambda>_. 0)"
proof -
  let ?s = "mc_start h a sl rb"
  have ar: "all_refs ?s (\<lambda>_. 0) = (\<lambda>_. 0)" by (simp add: all_refs_def bump_count_def mc_start_def fun_eq_iff)
  have "lru_rep ?s (\<lambda>_. [])" by (simp add: lru_rep_def lru_class_def ntotals_def mc_start_def)
  then have "store_inv st hash ?s Map.empty (\<lambda>_. []) (\<lambda>_. 0)"
    using init_rep [OF a(1), of hash h] init_wf [OF a] sl by (simp add: store_inv_def mc_start_def held_def chunks_held_def)
  moreover have "bufs_ok ?s" by (simp add: bufs_ok_def mc_start_def)
  ultimately show ?thesis unfolding cache_ok_def cache_inv_def ar by blast
qed

section \<open>Values\<close>

text \<open>The value of a linked item was written completely and ends with a line end.\<close>

definition data_ok :: "mc \<Rightarrow> (byte list \<rightharpoonup> addr) \<Rightarrow> bool" where
  "data_ok s M \<longleftrightarrow> (\<forall>x \<in> ran M. crlf (m_heap s x))"

lemma crlf_value: "crlf x \<longleftrightarrow> full_data x \<and> drop (length (item_value x) - 2) (item_value x) = [13, 10]"
  by (auto simp: crlf_def value_length)

lemma moved_crlf: "moved st hash s M R s' M' R' \<Longrightarrow> x \<in> held M R \<Longrightarrow> x \<in> held M' R' \<Longrightarrow> crlf (m_heap s' x) = crlf (m_heap s x)"
  using moved_value [of st hash s M R s' M' R' x] by (simp add: crlf_value)

lemma data_moved:
  assumes m: "moved st hash s M R s' M' R'" and d: "data_ok s M" and n: "\<And>x. x \<in> ran M' \<Longrightarrow> x \<in> ran M \<or> crlf (m_heap s' x)"
  shows "data_ok s' M'"
  unfolding data_ok_def
proof
  fix x assume x: "x \<in> ran M'"
  show "crlf (m_heap s' x)"
    using n [OF x] moved_crlf [OF m ran_held ran_held [OF x]] d by (auto simp: data_ok_def)
qed

lemma ran_le: "M' \<subseteq>\<^sub>m M \<Longrightarrow> x \<in> ran M' \<Longrightarrow> x \<in> ran M" for M :: "byte list \<rightharpoonup> addr"
  using held_mono [of M' M "\<lambda>_. 0"] by (auto simp: held_def)

lemma data_le: "data_ok s M \<Longrightarrow> M' \<subseteq>\<^sub>m M \<Longrightarrow> data_ok s M'"
  using ran_le [of M' M] by (auto simp: data_ok_def)

lemma crlf_combined:
  "drop (length a - 2) a = [13, 10] \<Longrightarrow> drop (length b - 2) b = [13, 10] \<Longrightarrow> c = combined comm a b \<Longrightarrow> drop (length c - 2) c = [13, 10]"
proof -
  have l: "2 \<le> length x" if "drop (length x - 2) x = [13, 10]" for x :: "byte list"
    using arg_cong [OF that, of length] by simp
  have e: "drop (length (p @ x) - 2) (p @ x) = [13, 10]" if "drop (length x - 2) x = [13, 10]" for p x :: "byte list"
    using that l [OF that] by simp
  show "drop (length a - 2) a = [13, 10] \<Longrightarrow> drop (length b - 2) b = [13, 10] \<Longrightarrow> c = combined comm a b \<Longrightarrow> drop (length c - 2) c = [13, 10]"
    using e [of b "take (length a - 2) a"] e [of a "take (length b - 2) b"] by (simp add: combined_def)
qed

lemma crlf_number: "drop (length (number_text w n) - 2) (number_text w n) = [13, 10]"
  by (simp add: number_text_def)

section \<open>Store and count\<close>

definition refs_ok :: "mc \<Rightarrow> (addr \<Rightarrow> nat) \<Rightarrow> bool" where
  "refs_ok s R \<longleftrightarrow> (\<forall>x. all_refs s R x < 63000)"

text \<open>The item found under a key fits together with what is appended to it.\<close>

definition fits_with :: "settings \<Rightarrow> (byte list \<Rightarrow> u32) \<Rightarrow> mc \<Rightarrow> addr \<Rightarrow> bool" where
  "fits_with st hash s it \<longleftrightarrow> (let y = m_heap s it in length (key y) < 256 \<and>
     (\<forall>x. assoc_find (m_heap s) (m_assoc s) (key y) (hash (key y)) = Some x \<and> x \<noteq> NULL \<longrightarrow>
        item_total st (length (key y)) (FLAGS_CONV (m_heap s x)) (nbytes y + nbytes (m_heap s x) - 2) \<le> slab_chunk_size_max st))"

lemma ran_live: "L = None \<or> M k = L \<Longrightarrow> x \<in> ran (M(k := L)) \<Longrightarrow> x \<in> ran M"
  using ran_mono_del [of M k] by (cases L) (auto simp: fun_upd_idem)

text \<open>Every item linked after a store was linked before, or its value is complete.\<close>

lemma outcome_data:
  assumes out: "store_outcome K s M M0 R L ss it comm res s' M'" and sv: "survivors M0 M comm res" and L: "L = None \<or> M (key (m_heap s it)) = L"
    and d: "data_ok s M" "crlf (m_heap s it)" and it: "it \<in> ran M' \<Longrightarrow> crlf (m_heap s' it)" and x: "x \<in> ran M'"
  shows "x \<in> ran M0 \<or> crlf (m_heap s' x)"
proof -
  let ?k = "key (m_heap s it)" let ?M1 = "M(?k := L)"
  have r1: "y \<in> ran M" if "y \<in> ran ?M1" for y using ran_live [OF L that] .
  have r2: "y = it \<or> y \<in> ran M" if "y \<in> ran (?M1(?k \<mapsto> it))" for y using ran_upd_sub [OF that] r1 by blast
  show ?thesis
  proof (cases "(comm = NREAD_APPEND \<or> comm = NREAD_PREPEND) \<and> res = STORED")
    case False
    then have "M0 = M" using sv by (auto simp: survivors_def)
    moreover have "M' = ?M1 \<or> M' = ?M1(?k \<mapsto> it) \<or> M' \<subseteq>\<^sub>m ?M1"
      using out False by (auto simp: store_outcome_def evicts_def Let_def split: nread.splits if_splits)
    ultimately show ?thesis using x r1 r2 it ran_le [of M' ?M1 x] by blast
  next
    case True
    then obtain y new where n: "L = Some y" "M' = M0(?k \<mapsto> new)" "full_data (m_heap s' new)"
        "item_value (m_heap s' new) = combined comm (item_value (m_heap s y)) (item_value (m_heap s it))"
      using out by (auto simp: store_outcome_def Let_def addr_of_def split: if_splits)
    have "y \<in> ran M" using L n(1) by (auto simp: ran_def)
    then have "crlf (m_heap s y)" using d(1) by (simp add: data_ok_def)
    then have "crlf (m_heap s' new)" using crlf_combined [OF _ _ n(4)] d(2) n(3) by (simp add: crlf_value)
    then show ?thesis using x ran_upd_sub [of x M0 ?k new] n(2) by auto
  qed
qed

lemma store_ok:
  assumes ok: "cache_ok st hash s M R" and d: "data_ok s M" and it: "it \<notin> ran M" "0 < R it" "crlf (m_heap s it)" and r: "refs_ok s R"
    and t: "t < length (bump_bufs s)" and tr: "tail_repair_time st = 0" and os: "os_ok st os"
    and fits: "comm = NREAD_APPEND \<or> comm = NREAD_PREPEND \<Longrightarrow> fits_with st hash s it"
  shows "\<exists>res c s' M' M0. store_item st hash os oss t ss it comm s = Some (res, c, s') \<and>
    survivors M0 M comm res \<and> moved st hash s M0 R s' M' R \<and> data_ok s' M' \<and>
    store_outcome (locked os) s M M0 R (live st s M (key (m_heap s it))) ss it comm res s' M'"
proof -
  let ?k = "key (m_heap s it)" let ?L = "live st s M ?k"
  have r': "\<forall>x. all_refs s R x < 63000" using r by (simp add: refs_ok_def)
  have "\<exists>res c s' M' M0. store_item st hash os oss t ss it comm s = Some (res, c, s') \<and>
    survivors M0 M comm res \<and> moved st hash s M0 R s' M' R \<and> store_outcome (locked os) s M M0 R ?L ss it comm res s' M'"
  proof (cases ?L)
    case None
    have "survivors M M comm res" for res by (simp add: survivors_def)
    then show ?thesis
      unfolding None store_item_def using store_absent [OF ok it(1,2) r' t None, of os oss ss comm] by blast
  next
    case (Some x)
    have xk: "M ?k = Some x" using live_some [OF Some] .
    obtain Q where Q: "store_inv st hash s M Q (all_refs s R)" using cache_okD [OF ok] by blast
    have f: "assoc_find (m_heap s) (m_assoc s) ?k (hash ?k) = Some x" using assoc_find_rep [OF store_invD(1) [OF Q], of ?k] xk by simp
    have "crlf (m_heap s x)" using d xk by (auto simp: data_ok_def ran_def)
    then have "combine_fits st (m_heap s x) (m_heap s it)" if "comm = NREAD_APPEND \<or> comm = NREAD_PREPEND"
      using fits [OF that] f live_nonnull [OF ok Some] it(3) by (simp add: combine_fits_def fits_with_def Let_def crlf_def)
    then show ?thesis
      using store_present [OF ok it(1,2) r' Some tr os, of comm oss t ss] Some by (simp add: store_item_def)
  qed
  then obtain res c s' M' M0 where st: "store_item st hash os oss t ss it comm s = Some (res, c, s')" "survivors M0 M comm res"
      "moved st hash s M0 R s' M' R" "store_outcome (locked os) s M M0 R ?L ss it comm res s' M'" by blast
  have m0: "M0 \<subseteq>\<^sub>m M" using st(2) by (simp add: survivors_def)
  have "data_ok s' M'"
  proof (rule data_moved [OF st(3) data_le [OF d m0]])
    fix x assume x: "x \<in> ran M'"
    have ic: "crlf (m_heap s' it)" if "it \<in> ran M'" using moved_crlf [OF st(3), of it] that it(2,3) by (simp add: held_def)
    show "x \<in> ran M0 \<or> crlf (m_heap s' x)"
      by (rule outcome_data [OF st(4,2) _ d it(3) ic x]) (auto simp: live_def split: option.splits)
  qed
  then show ?thesis using st by blast
qed

text \<open>The same for the arithmetic commands.\<close>

lemma delta_ok:
  assumes ok: "cache_ok st hash s M R" and d: "data_ok s M" and r: "refs_ok s R" and t: "t < length (bump_bufs s)"
    and tr: "tail_repair_time st = 0" and os: "os_ok st os" and kl: "length k < 256" and fit: "item_total st (length k) 1 22 \<le> slab_chunk_size_max st"
  shows "\<exists>res buf c s' M' M0. add_delta st hash os beyond t k incr delta cs s = Some (res, buf, c, s') \<and> M0 \<subseteq>\<^sub>m M \<and>
    moved st hash s M0 R s' M' R \<and> data_ok s' M' \<and> delta_outcome (locked os) R s M M0 beyond k (live st s M k) incr delta cs res buf s' M'"
proof (cases "live st s M k")
  case None
  have few: "few_refs (all_refs s R)" using r refs_few by (simp add: refs_ok_def)
  obtain s1 where 1: "do_item_get st t k (hash k) False s = Some (NULL, s1)" "moved st hash s M R s1 (M(k := None)) R"
    using moved_get [OF ok few t, of k False] None by (auto simp: addr_of_def plus_ref_def)
  have "add_delta st hash os beyond t k incr delta cs s = Some (DELTA_ITEM_NOT_FOUND, [], cs, s1)"
    using 1(1) by (simp add: add_delta_def do_add_delta_def)
  moreover have "data_ok s1 (M(k := None))" by (rule data_moved [OF 1(2) d]) (use ran_mono_del [of M k] in blast)
  moreover have "delta_outcome (locked os) R s M M beyond k (live st s M k) incr delta cs DELTA_ITEM_NOT_FOUND [] s1 (M(k := None))"
    by (simp add: delta_outcome_def None)
  ultimately show ?thesis using 1(2) map_le_refl [of M] by blast
next
  case (Some x)
  have xk: "M k = Some x" using live_some [OF Some] .
  have "item_total st (length k) fl 22 \<le> item_total st (length k) 1 22" for fl by (simp add: item_total_def item_make_header_def Let_def)
  then have f: "delta_fits st k (m_heap s x)" using fit d xk by (auto simp: delta_fits_def data_ok_def ran_def intro: order_trans)
  have r': "\<forall>x. all_refs s R x < 63000" using r by (simp add: refs_ok_def)
  obtain res buf c s' M' M0 where a: "do_add_delta st hash os beyond t k incr delta cs (hash k) s = Some (res, buf, c, s')" "M0 \<subseteq>\<^sub>m M" "res = DELTA_OK \<or> M0 = M"
      "moved st hash s M0 R s' M' R" "delta_outcome (locked os) R s M M0 beyond k (Some x) incr delta cs res buf s' M'"
    using delta_found [OF ok r' Some tr os kl f, of beyond t incr delta cs] by blast
  have "data_ok s' M'"
  proof (rule data_moved [OF a(4) data_le [OF d a(2)]])
    fix y assume y: "y \<in> ran M'"
    show "y \<in> ran M0 \<or> crlf (m_heap s' y)"
    proof (cases "res = DELTA_OK")
      case False
      have "M' \<subseteq>\<^sub>m M" using a(5) False by (auto simp: delta_outcome_def evicts_def Let_def split: if_splits option.splits)
      then show ?thesis using y ran_le [of M' M y] a(3) False by blast
    next
      case True
      have "\<exists>z w n. M' = M0(k \<mapsto> z) \<and> counter_item (m_heap s x) (m_heap s' z) w n"
      proof (cases "M0 = M(k := None) \<and> M' = M \<and> (\<exists>w n. counter_item (m_heap s x) (m_heap s' x) w n)")
        case True
        then have "M' = M0(k \<mapsto> x)" using xk by auto
        then show ?thesis using True by blast
      next
        case False
        then show ?thesis using a(5) True unfolding delta_outcome_def by (auto simp: Let_def split: if_splits option.splits)
      qed
      then obtain z w n where z: "M' = M0(k \<mapsto> z)" "counter_item (m_heap s x) (m_heap s' z) w n" by blast
      then have "crlf (m_heap s' z)" by (simp add: counter_item_def crlf_value crlf_number)
      then show ?thesis using y ran_upd_sub [of y M0 k z] z(1) by auto
    qed
  qed
  then show ?thesis using a by (auto simp: add_delta_def Some)
qed

section \<open>Bounded lookup and deletion\<close>

definition add_ref :: "addr \<Rightarrow> (addr \<Rightarrow> nat) \<Rightarrow> addr \<Rightarrow> nat" where
  "add_ref it R = (if it = NULL then R else R(it := R it + 1))"

lemma limited_get_ok:
  assumes ok: "cache_ok st hash s M R" and r: "refs_ok s R" and t: "t < length (bump_bufs s)"
  shows "\<exists>it s'. limited_get st hash t k etime tch u s = Some (it, s') \<and> (it = addr_of (live st s M k) \<or> it = NULL) \<and>
    moved st hash s M R s' (M(k := live st s M k)) (add_ref it R)"
proof -
  let ?L = "live st s M k" let ?M = "M(k := ?L)"
  have few: "few_refs (all_refs s R)" using r refs_few by (simp add: refs_ok_def)
  have "\<exists>s1. (if tch then item_touch st hash t k etime s else item_get st hash t k u s) = Some (addr_of ?L, s1) \<and>
      moved st hash s M R s1 ?M (plus_ref ?L R)"
    using moved_get [OF ok few t, of k u] moved_touch [OF ok few t, of k etime] by (cases tch) (auto simp: item_touch_def item_get_def)
  then obtain s1 where 1: "(if tch then item_touch st hash t k etime s else item_get st hash t k u s) = Some (addr_of ?L, s1)"
      "moved st hash s M R s1 ?M (plus_ref ?L R)" by blast
  have a: "plus_ref ?L R = add_ref (addr_of ?L) R"
    using live_nonnull [OF ok, of k] by (cases ?L) (auto simp: plus_ref_def addr_of_def add_ref_def)
  show ?thesis
  proof (cases "addr_of ?L \<noteq> NULL \<and> refcount (m_heap s1 (addr_of ?L)) > 60000")
    case False
    then have "limited_get st hash t k etime tch u s = Some (addr_of ?L, s1)" using 1(1) by (auto simp: limited_get_def)
    then show ?thesis using 1(2) a by auto
  next
    case True
    then obtain x where x: "?L = Some x" by (cases ?L) (auto simp: addr_of_def)
    have "moved st hash s M R s1 ?M (R(x := R x + 1))" using 1(2) by (simp add: x plus_ref_def)
    then obtain s2 where 2: "do_item_remove x s1 = Some s2" "moved st hash s M R s2 ?M R" using release_moved by blast
    then have "limited_get st hash t k etime tch u s = Some (NULL, s2)"
      using 1(1) True x by (auto simp: limited_get_def item_remove_def addr_of_def)
    then show ?thesis using 2(2) by (auto simp: add_ref_def)
  qed
qed

lemma unlink_ok:
  assumes ok: "cache_ok st hash s M R" and it: "0 < R it"
  shows "\<exists>s' M'. item_unlink hash it s = Some s' \<and> M' \<subseteq>\<^sub>m M \<and> it \<notin> ran M' \<and> moved st hash s M R s' M' R"
proof (cases "it \<in> ran M")
  case False
  have "item_unlink hash it s = Some s" unfolding item_unlink_def by (rule moved_unlink_other [OF ok it False])
  then show ?thesis using moved_refl [OF ok] False map_le_refl [of M] by blast
next
  case True
  then obtain k where k: "M k = Some it" by (auto simp: ran_def)
  have kk: "key (m_heap s it) = k" using cache_okD [OF ok] mapped_key [of st hash s M _ _ k it] k by auto
  obtain s' where s': "do_item_unlink it (hash k) s = Some s'" "moved st hash s M R s' (M(k := None)) R"
    using moved_unlink [of st hash s M R k it, OF ok k] by blast
  have "it \<notin> ran (M(k := None))"
  proof
    assume "it \<in> ran (M(k := None))"
    then obtain j where "(M(k := None)) j = Some it" by (auto simp: ran_def)
    then have "M j = Some it" "j \<noteq> k" by (auto split: if_splits)
    then show False using cache_inj [of st hash s M R j it k] ok k by blast
  qed
  moreover have "item_unlink hash it s = Some s'" using s'(1) by (simp add: item_unlink_def kk)
  ultimately show ?thesis using s'(2) unlink_le [of M k] by blast
qed

section \<open>Histories\<close>

text \<open>
  A step of the running server: \<open>R\<close> counts the references that clients (connections) hold, \<open>w\<close> is the item whose data the step writes, when it is a client that
  reads a value into an item it has just allocated.
\<close>

inductive cache_step :: "settings \<Rightarrow> (byte list \<Rightarrow> u32) \<Rightarrow> addr \<Rightarrow> mc \<Rightarrow> (addr \<Rightarrow> nat) \<Rightarrow> mc \<Rightarrow> (addr \<Rightarrow> nat) \<Rightarrow> bool" for st hash where
  worker: "item_lru_bump_buf_create d s = (r, s') \<Longrightarrow> cache_step st hash NULL s R s' R"
| tick: "cache_step st hash NULL s R (s\<lparr>current_time := now\<rparr>) R"
| table: "assoc_background hash e (m_heap s, m_assoc s) = Some (h, a) \<Longrightarrow> cache_step st hash NULL s R (s\<lparr>m_heap := h, m_assoc := a\<rparr>) R"
| juggle: "refs_ok s R \<Longrightarrow> lru_maintainer_juggle st hash fh fw lk lk' cls s = Some (d, s') \<Longrightarrow> cache_step st hash NULL s R s' R"
| bumps: "lru_maintainer_bumps st s = Some (b, s') \<Longrightarrow> cache_step st hash NULL s R s' R"
| alloc: "refs_ok s R \<Longrightarrow> os_ok st os \<Longrightarrow> item_total st (length k) fl nb \<le> slab_chunk_size_max st \<Longrightarrow>
    item_alloc st hash os k fl etime nb s = Some (it, s') \<Longrightarrow> cache_step st hash NULL s R s' (add_ref it R)"
| fill: "0 < R it \<Longrightarrow> \<not> has_flag (m_heap s it) ITEM_LINKED \<Longrightarrow> cache_step st hash it s R (m_upd it (\<lambda>x. x\<lparr>it_data := d\<rparr>) s) R"
| store: "refs_ok s R \<Longrightarrow> os_ok st os \<Longrightarrow> t < length (bump_bufs s) \<Longrightarrow> 0 < R it \<Longrightarrow>
    \<not> has_flag (m_heap s it) ITEM_LINKED \<Longrightarrow> crlf (m_heap s it) \<Longrightarrow> fits_with st hash s it \<Longrightarrow>
    store_item st hash os oss t ss it comm s = Some (res, c, s') \<Longrightarrow> cache_step st hash NULL s R s' R"
| get: "refs_ok s R \<Longrightarrow> t < length (bump_bufs s) \<Longrightarrow>
    limited_get st hash t k etime tch u s = Some (it, s') \<Longrightarrow> cache_step st hash NULL s R s' (add_ref it R)"
| delta: "refs_ok s R \<Longrightarrow> os_ok st os \<Longrightarrow> t < length (bump_bufs s) \<Longrightarrow> length k < 256 \<Longrightarrow>
    item_total st (length k) 1 22 \<le> slab_chunk_size_max st \<Longrightarrow>
    add_delta st hash os beyond t k incr dl cs s = Some (res, buf, c, s') \<Longrightarrow> cache_step st hash NULL s R s' R"
| unlink: "0 < R it \<Longrightarrow> item_unlink hash it s = Some s' \<Longrightarrow> cache_step st hash NULL s R s' R"
| remove: "0 < R it \<Longrightarrow> item_remove it s = Some s' \<Longrightarrow> cache_step st hash NULL s R s' (R(it := R it - 1))"

inductive cache_reach :: "settings \<Rightarrow> (byte list \<Rightarrow> u32) \<Rightarrow> mc \<Rightarrow> (addr \<Rightarrow> nat) \<Rightarrow> bool" for st hash where
  start: "assoc_init p True = Some a \<Longrightarrow> p < 32 \<Longrightarrow> alloc_inv st (h, sl) {} \<Longrightarrow> cache_reach st hash (mc_start h a sl rb) (\<lambda>_. 0)"
| step: "cache_reach st hash s R \<Longrightarrow> cache_step st hash w s R s' R' \<Longrightarrow> cache_reach st hash s' R'"

text \<open>Steps during which a client keeps its reference on \<open>x\<close> and writes no data into it.\<close>

inductive cache_run :: "settings \<Rightarrow> (byte list \<Rightarrow> u32) \<Rightarrow> addr \<Rightarrow> mc \<Rightarrow> (addr \<Rightarrow> nat) \<Rightarrow> mc \<Rightarrow> (addr \<Rightarrow> nat) \<Rightarrow> bool" for st hash x s R where
  stay: "cache_run st hash x s R s R"
| more: "cache_run st hash x s R s1 R1 \<Longrightarrow> cache_step st hash w s1 R1 s2 R2 \<Longrightarrow> w \<noteq> x \<Longrightarrow> 0 < R2 x \<Longrightarrow> cache_run st hash x s R s2 R2"

definition good :: "settings \<Rightarrow> (byte list \<Rightarrow> u32) \<Rightarrow> mc \<Rightarrow> (addr \<Rightarrow> nat) \<Rightarrow> (byte list \<rightharpoonup> addr) \<Rightarrow> bool" where
  "good st hash s R M \<longleftrightarrow> cache_ok st hash s M R \<and> data_ok s M"

lemma good_sub:
  assumes "good st hash s R M" "moved st hash s M R s' M' R'" "M' \<subseteq>\<^sub>m M"
  shows "good st hash s' R' M'"
  using assms data_moved [OF assms(2)] ran_le [OF assms(3)] by (auto simp: good_def dest: moved_ok)

lemma unlinked_item:
  assumes "cache_ok st hash s M R" "0 < R it"
  shows "has_flag (m_heap s it) ITEM_LINKED \<longleftrightarrow> it \<in> ran M"
proof -
  obtain Q where "store_inv st hash s M Q (all_refs s R)" using cache_okD [OF assms(1)] by blast
  moreover have "it \<in> held M (all_refs s R)" using assms(2) by (simp add: held_def all_refs_def)
  ultimately have "item_ok M (all_refs s R) (m_heap s) it" by (rule store_invD(6))
  then show ?thesis by (simp add: item_ok_def)
qed

lemma live_le: "M(k := live st s M k) \<subseteq>\<^sub>m M"
  by (auto simp: map_le_def live_def split: option.splits if_splits)

lemma good_alloc:
  assumes g: "good st hash s R M" and r: "refs_ok s R" and os: "os_ok st os" and tr: "tail_repair_time st = 0"
    and plain: "item_total st (length k) fl nb \<le> slab_chunk_size_max st"
  shows "\<exists>it s' M'. item_alloc st hash os k fl etime nb s = Some (it, s') \<and> M' \<subseteq>\<^sub>m M \<and> good st hash s' (add_ref it R) M' \<and>
    vals s s' (held M' R) \<and> (it \<noteq> NULL \<longrightarrow> it \<notin> held M' R \<and> is_item (m_heap s' it) k fl etime nb)"
proof -
  have ok: "cache_ok st hash s M R" and d: "data_ok s M" using g by (auto simp: good_def)
  have few: "few_refs (all_refs s R)" using r refs_few by (simp add: refs_ok_def)
  obtain it s' M' where a: "do_item_alloc st hash os k fl etime nb s = Some (it, s')" "M' \<subseteq>\<^sub>m M"
      "if it = NULL then moved st hash s M R s' M' R
       else it \<notin> ran M' \<and> R it = 0 \<and> bump_count s it = 0 \<and> is_item (m_heap s' it) k fl etime nb \<and> moved st hash s M' R s' M' (R(it := 1))"
    using moved_alloc [OF ok tr os few plain] evicts_le by blast
  show ?thesis
  proof (cases "it = NULL")
    case True
    then have m: "moved st hash s M R s' M' R" using a(3) by simp
    have "vals s s' (held M R \<inter> held M' R)" using m by (simp add: moved_def)
    then have "vals s s' (held M' R)" by (rule vals_sub) (use held_mono [OF a(2), of R] in blast)
    then show ?thesis using good_sub [OF g m a(2)] a(1,2) True by (auto simp: item_alloc_def add_ref_def)
  next
    case False
    then have n: "it \<notin> ran M'" "R it = 0" "is_item (m_heap s' it) k fl etime nb" "moved st hash s M' R s' M' (R(it := 1))" using a(3) by auto
    have "data_ok s' M'" by (rule data_moved [OF n(4) data_le [OF d a(2)]]) blast
    then have "good st hash s' (add_ref it R) M'" using moved_ok [OF n(4)] False n(2) by (simp add: good_def add_ref_def)
    moreover have nh: "it \<notin> held M' R" using n(1,2) by (simp add: held_def)
    have "vals s s' (held M' R \<inter> held M' (R(it := 1)))" using n(4) by (simp add: moved_def)
    then have "vals s s' (held M' R)" by (rule vals_sub) (use nh in \<open>auto simp: held_def\<close>)
    ultimately show ?thesis using a(1,2) n(3) nh by (auto simp: item_alloc_def)
  qed
qed

lemma good_fill:
  assumes "good st hash s R M" "0 < R it" "\<not> has_flag (m_heap s it) ITEM_LINKED"
  shows "good st hash (m_upd it (\<lambda>x. x\<lparr>it_data := d\<rparr>) s) R M"
proof -
  have ok: "cache_ok st hash s M R" and do: "data_ok s M" using assms(1) by (auto simp: good_def)
  have it: "it \<in> held M R" "it \<notin> ran M" using assms(2,3) unlinked_item [OF ok assms(2)] by (auto simp: held_def)
  note w = write_data [OF ok it(1), of "m_upd it (\<lambda>x. x\<lparr>it_data := d\<rparr>) s" "\<lambda>_. d", OF refl]
  have "crlf (m_heap (m_upd it (\<lambda>x. x\<lparr>it_data := d\<rparr>) s) x)" if "x \<in> ran M" for x
    using do that it(2) by (auto simp: data_ok_def upd_apply)
  then show ?thesis using w(1) by (simp add: good_def data_ok_def)
qed

text \<open>The content of an item.\<close>

definition same_item :: "mc \<Rightarrow> mc \<Rightarrow> addr \<Rightarrow> bool" where
  "same_item s s' x \<longleftrightarrow> key (m_heap s' x) = key (m_heap s x) \<and> it_data (m_heap s' x) = it_data (m_heap s x) \<and>
     FLAGS_CONV (m_heap s' x) = FLAGS_CONV (m_heap s x) \<and> nbytes (m_heap s' x) = nbytes (m_heap s x)"

lemma moved_same: "moved st hash s M R s' M' R' \<Longrightarrow> 0 < R x \<Longrightarrow> 0 < R' x \<Longrightarrow> same_item s s' x"
  by (simp add: moved_def vals_def same_item_def held_def)

definition stepped :: "settings \<Rightarrow> (byte list \<Rightarrow> u32) \<Rightarrow> addr \<Rightarrow> mc \<Rightarrow> (addr \<Rightarrow> nat) \<Rightarrow> mc \<Rightarrow> (addr \<Rightarrow> nat) \<Rightarrow> bool" where
  "stepped st hash w s R s' R' \<longleftrightarrow> (\<exists>M'. good st hash s' R' M') \<and> (\<forall>x. x \<noteq> w \<and> 0 < R x \<and> 0 < R' x \<longrightarrow> same_item s s' x)"

lemma steppedI: "good st hash s' R' M' \<Longrightarrow> moved st hash s M R s' M' R' \<Longrightarrow> stepped st hash w s R s' R'"
  unfolding stepped_def using moved_same by blast

lemma stepped_sub: "good st hash s R M \<Longrightarrow> moved st hash s M R s' M' R' \<Longrightarrow> M' \<subseteq>\<^sub>m M \<Longrightarrow> stepped st hash w s R s' R'"
  by (rule steppedI [OF good_sub])

lemma cache_step_good:
  assumes "cache_step st hash w s R s' R'" "good st hash s R M" "tail_repair_time st = 0"
  shows "stepped st hash w s R s' R'"
  using assms(1,2)
proof (induction arbitrary: M)
  case (worker d s r s' R)
  then have g: "cache_ok st hash s M R" "data_ok s M" by (auto simp: good_def)
  have "good st hash s' R M" using ok_worker(1,2) [OF g(1) worker.hyps] g(2) by (simp add: good_def data_ok_def)
  then show ?case using ok_worker(2) [OF g(1) worker.hyps] by (auto simp: stepped_def same_item_def)
next
  case (tick s R now)
  then have "good st hash (s\<lparr>current_time := now\<rparr>) R M" using ok_tick by (fastforce simp: good_def data_ok_def)
  then show ?case by (auto simp: stepped_def same_item_def)
next
  case (table e s h a R)
  then have "moved st hash s M R (s\<lparr>m_heap := h, m_assoc := a\<rparr>) M R" using moved_background [of st hash s M R e] by (auto simp: good_def)
  then show ?case using stepped_sub [OF table.prems] map_le_refl by blast
next
  case (juggle s R fh fw lk lk' cls d s')
  have ok: "cache_ok st hash s M R" using juggle.prems by (simp add: good_def)
  have few: "few_refs (all_refs s R)" using juggle.hyps refs_few by (simp add: refs_ok_def)
  show ?case using moved_juggle [OF ok assms(3) few, of fh fw lk lk' cls] juggle.hyps stepped_sub [OF juggle.prems] by auto
next
  case (bumps s b s' R)
  then have ok: "cache_ok st hash s M R" by (simp add: good_def)
  show ?case using moved_bumps [OF ok] bumps.hyps stepped_sub [OF bumps.prems] map_le_refl by (metis option.inject prod.inject)
next
  case (alloc s R os k fl nb etime it s')
  obtain M' where a: "M' \<subseteq>\<^sub>m M" "good st hash s' (add_ref it R) M'" "vals s s' (held M' R)"
    using good_alloc [where etime = etime, OF alloc.prems alloc.hyps(1,2) assms(3) alloc.hyps(3)] alloc.hyps(4) by auto
  then show ?case by (auto simp: stepped_def same_item_def vals_def held_def)
next
  case (fill R it s d)
  then have "good st hash (m_upd it (\<lambda>x. x\<lparr>it_data := d\<rparr>) s) R M" using good_fill by blast
  then show ?case by (auto simp: stepped_def same_item_def upd_apply)
next
  case (store s R os t it oss ss comm res c s')
  then have ok: "cache_ok st hash s M R" "data_ok s M" by (auto simp: good_def)
  have nl: "it \<notin> ran M" using unlinked_item [OF ok(1) store.hyps(4)] store.hyps(5) by simp
  obtain M' M0 where "moved st hash s M0 R s' M' R" "data_ok s' M'"
    using store_ok [OF ok nl store.hyps(4,6,1,3) assms(3) store.hyps(2), of comm oss ss] store.hyps(7,8) by auto
  then show ?case using steppedI [of st hash s' R M'] moved_ok unfolding good_def by blast
next
  case (get s R t k etime tch u it s')
  then have ok: "cache_ok st hash s M R" by (simp add: good_def)
  have "moved st hash s M R s' (M(k := live st s M k)) (add_ref it R)"
    using limited_get_ok [OF ok get.hyps(1,2), of k etime tch u] get.hyps(3) by auto
  then show ?case using stepped_sub [OF get.prems _ live_le] by blast
next
  case (delta s R os t k beyond incr dl cs res buf c s')
  then have ok: "cache_ok st hash s M R" "data_ok s M" by (auto simp: good_def)
  obtain M' M0 where "moved st hash s M0 R s' M' R" "data_ok s' M'"
    using delta_ok [OF ok delta.hyps(1,3) assms(3) delta.hyps(2,4,5), of beyond incr dl cs] delta.hyps(6) by auto
  then show ?case using steppedI [of st hash s' R M'] moved_ok unfolding good_def by blast
next
  case (unlink R it s s')
  then have ok: "cache_ok st hash s M R" by (simp add: good_def)
  show ?case using unlink_ok [OF ok unlink.hyps(1)] unlink.hyps(2) stepped_sub [OF unlink.prems] by auto
next
  case (remove R it s s')
  then have ok: "cache_ok st hash s M R" by (simp add: good_def)
  have "moved st hash s M R s' M (R(it := R it - 1))" using moved_remove [OF ok remove.hyps(1)] remove.hyps(2) by (auto simp: item_remove_def)
  then show ?case using stepped_sub [OF remove.prems] map_le_refl by blast
qed

lemma reach_good:
  assumes "cache_reach st hash s R" "tail_repair_time st = 0"
  shows "\<exists>M. good st hash s R M"
  using assms(1)
proof (induction)
  case (start p a h sl rb)
  then show ?case using start_ok by (fastforce simp: good_def data_ok_def)
next
  case (step s R w s' R')
  then show ?case using cache_step_good [OF _ _ assms(2)] by (auto simp: stepped_def)
qed

lemma run_same:
  assumes "cache_run st hash x s R s' R'" "good st hash s R M" "tail_repair_time st = 0" "0 < R x"
  shows "same_item s s' x \<and> 0 < R' x \<and> (\<exists>M'. good st hash s' R' M')"
  using assms(1)
proof (induction)
  case stay
  then show ?case using assms(2,4) by (auto simp: same_item_def)
next
  case (more s1 R1 w s2 R2)
  then obtain M1 where "good st hash s1 R1 M1" by blast
  then have "stepped st hash w s1 R1 s2 R2" using cache_step_good [OF more.hyps(2) _ assms(3)] by blast
  then show ?case using more by (auto simp: stepped_def same_item_def)
qed

end
