(* ===== verification/Cache_Props.thy ===== *)
theory Cache_Props
  imports Cache_History
begin

unbundle bit_operations_syntax

text \<open>
  What memcached promises of its cache, over all histories, with concrete instances: a cache of three
  small slab classes with one worker thread.
\<close>

text \<open>
  C4. In every reachable state there is a map of keys to items such that the hash table represents it, the LRU
  queues hold exactly its items, every item is counted by as many references as the clients, the map and the bump
  buffers have, every item that is linked or referenced has a chunk of its own, and all linked values are complete.
\<close>

theorem cache_history:
  assumes "cache_reach st hash s R" "tail_repair_time st = 0"
  shows "\<exists>M Q. cache_inv st hash s M Q R \<and> data_ok s M \<and>
    (\<forall>k. assoc_find (m_heap s) (m_assoc s) k (hash k) = Some (addr_of (M k))) \<and>
    (\<forall>c. distinct (Q c) \<and> set (Q c) = {x \<in> ran M. slabs_clsid (m_heap s x) = c} \<and> tails s c = (if Q c = [] then NULL else last (Q c))) \<and>
    (\<forall>x \<in> held M R. unat (refcount (m_heap s x)) = (if x \<in> ran M then 1 else 0) + R x + bump_count s x) \<and>
    curr_items s = of_nat (card (ran M))"
proof -
  obtain M where g: "good st hash s R M" using reach_good [OF assms] by blast
  then obtain Q where Q: "cache_inv st hash s M Q R" by (auto simp: good_def cache_ok_def)
  then have i: "store_inv st hash s M Q (all_refs s R)" by (simp add: cache_inv_def)
  note d = store_invD [OF i]
  have "assoc_find (m_heap s) (m_assoc s) k (hash k) = Some (addr_of (M k))" for k
    using assoc_find_rep [OF d(1), of k] by (simp add: addr_of_def)
  moreover have "set (Q c) = {x \<in> ran M. slabs_clsid (m_heap s x) = c}" for c
    using d(4) lru_repD(2) [OF d(3)] linked_queue [OF i] by blast
  moreover have "distinct (Q c) \<and> tails s c = (if Q c = [] then NULL else last (Q c))" for c
    using lru_repD(5) [OF d(3)] lru.last_law [OF d(3)] by blast
  moreover have "unat (refcount (m_heap s x)) = (if x \<in> ran M then 1 else 0) + R x + bump_count s x" if "x \<in> held M R" for x
    using d(6) [of x] that held_refs [of M R s] by (auto simp: item_ok_def all_refs_def)
  ultimately show ?thesis using Q g d(7) by (intro exI [of _ M] exI [of _ Q]) (simp add: good_def)
qed

text \<open>
  C18. After any history of the operations of this development, the operations of a worker thread (lookup, allocation, store,
  arithmetic, unlink, release), the LRU maintainer's juggling and bumping and the hash table's background step return: no walk over a
  chain, a queue, a free list or a buffer runs forever. The scope is items that fit one chunk, for allocations,
  arithmetic and, with append and prepend, for the joined item (the joining of larger items deadlocks). The LRU crawler and
  the page mover are not among these operations.
\<close>

theorem cache_returns:
  assumes "cache_reach st hash s R" "tail_repair_time st = 0" "refs_ok s R" "os_ok st os" "t < length (bump_bufs s)"
  shows "(\<exists>r. limited_get st hash t k etime tch u s = Some r) \<and>
    (item_total st (length k) fl nb \<le> slab_chunk_size_max st \<longrightarrow> (\<exists>r. item_alloc st hash os k fl etime nb s = Some r)) \<and>
    (0 < R it \<and> \<not> has_flag (m_heap s it) ITEM_LINKED \<and> crlf (m_heap s it) \<and>
       (comm = NREAD_APPEND \<or> comm = NREAD_PREPEND \<longrightarrow> fits_with st hash s it) \<longrightarrow>
       (\<exists>r. store_item st hash os oss t ss it comm s = Some r)) \<and>
    (length k < 256 \<and> item_total st (length k) 1 22 \<le> slab_chunk_size_max st \<longrightarrow>
       (\<exists>r. add_delta st hash os beyond t k incr dl cs s = Some r)) \<and>
    (0 < R it \<longrightarrow> (\<exists>r. item_unlink hash it s = Some r) \<and> (\<exists>r. item_remove it s = Some r)) \<and>
    (\<exists>r. lru_maintainer_juggle st hash fh fw lk lk' cls s = Some r) \<and> (\<exists>r. lru_maintainer_bumps st s = Some r) \<and>
    (\<exists>r. assoc_background hash e (m_heap s, m_assoc s) = Some r)"
proof -
  obtain M where g: "good st hash s R M" using reach_good [OF assms(1,2)] by blast
  then have ok: "cache_ok st hash s M R" "data_ok s M" by (auto simp: good_def)
  have few: "few_refs (all_refs s R)" using assms(3) refs_few by (simp add: refs_ok_def)
  have "\<exists>r. limited_get st hash t k etime tch u s = Some r" using limited_get_ok [OF ok(1) assms(3,5)] by blast
  moreover have "\<exists>r. item_alloc st hash os k fl etime nb s = Some r" if "item_total st (length k) fl nb \<le> slab_chunk_size_max st"
    using good_alloc [OF g assms(3,4,2) that] by blast
  moreover have "\<exists>r. store_item st hash os oss t ss it comm s = Some r"
    if "0 < R it" "\<not> has_flag (m_heap s it) ITEM_LINKED" "crlf (m_heap s it)" "comm = NREAD_APPEND \<or> comm = NREAD_PREPEND \<longrightarrow> fits_with st hash s it"
    using store_ok [OF ok _ that(1,3) assms(3,5,2,4), of comm oss ss] that(4) unlinked_item [OF ok(1) that(1)] that(2) by blast
  moreover have "\<exists>r. add_delta st hash os beyond t k incr dl cs s = Some r" if "length k < 256" "item_total st (length k) 1 22 \<le> slab_chunk_size_max st"
    using delta_ok [OF ok assms(3,5,2,4) that] by blast
  moreover have "(\<exists>r. item_unlink hash it s = Some r) \<and> (\<exists>r. item_remove it s = Some r)" if "0 < R it"
    using unlink_ok [OF ok(1) that] moved_remove [OF ok(1) that] unfolding item_remove_def by blast
  moreover have "\<exists>r. lru_maintainer_juggle st hash fh fw lk lk' cls s = Some r" using moved_juggle [OF ok(1) assms(2) few] by blast
  moreover have "\<exists>r. lru_maintainer_bumps st s = Some r" using moved_bumps [OF ok(1)] by blast
  moreover have "\<exists>r. assoc_background hash e (m_heap s, m_assoc s) = Some r" using moved_background [OF ok(1)] by blast
  ultimately show ?thesis by blast
qed

text \<open>
  C9. What the store commands do, for an item \<open>it\<close> with a complete value that its client holds and that is not linked, in a cache
  whose items fit one chunk each; for append and prepend the joined item has to fit one chunk, too (\<open>fits_with\<close>): the copy
  into chunked items is outside this statement.
  Dead items (expired or flushed) count as absent and leave the table. Set always stores, add only when the key is
  absent, replace only when it is present, cas only when the CAS value is the current one (or, in the mode for stale values, a lower
  one). Append and prepend link a new item whose value is the old and the new one joined, or report that there is no memory (then the
  old item stays as long as its lock is held, as it is), or a CAS mismatch. No other key changes, except for evictions that append and prepend cause; no item held by a client
  changes its key, flags or value.
\<close>

theorem store_item_outcome:
  assumes "cache_ok st hash s M R" "data_ok s M" "it \<notin> ran M" "0 < R it" "crlf (m_heap s it)" "refs_ok s R"
    and "t < length (bump_bufs s)" "tail_repair_time st = 0" "os_ok st os"
    and "comm = NREAD_APPEND \<or> comm = NREAD_PREPEND \<Longrightarrow> fits_with st hash s it"
  shows "\<exists>res c s' M' M0. store_item st hash os oss t ss it comm s = Some (res, c, s') \<and>
    survivors M0 M comm res \<and> moved st hash s M0 R s' M' R \<and> data_ok s' M' \<and>
    store_outcome (locked os) s M M0 R (live st s M (key (m_heap s it))) ss it comm res s' M'"
  by (rule store_ok [OF assms])

text \<open>
  C12. What increment and decrement do: the number that the value begins with grows modulo \<open>2 ^ 64\<close> or shrinks down to \<open>0\<close>, the key
  then has an item with the same client flags whose value is the decimal text of the new number. When the text fits the old value and
  nobody holds the item, the value is overwritten in place and padded, the command succeeds and no link changes; otherwise the key gets a new item, so
  what a client holds never changes, or there is no memory for one. A missing key, a value without a number, a too short value and a
  wrong CAS value are reported and leave the links as they are (a dead item is unlinked). Missing memory is reported after the
  allocation has evicted what it could, never the counter itself while its lock is held, as it is.
\<close>

theorem add_delta_outcome:
  assumes "cache_ok st hash s M R" "data_ok s M" "refs_ok s R" "t < length (bump_bufs s)" "tail_repair_time st = 0" "os_ok st os"
    and "length k < 256" "item_total st (length k) 1 22 \<le> slab_chunk_size_max st"
  shows "\<exists>res buf c s' M' M0. add_delta st hash os beyond t k incr delta cs s = Some (res, buf, c, s') \<and> M0 \<subseteq>\<^sub>m M \<and>
    moved st hash s M0 R s' M' R \<and> data_ok s' M' \<and> delta_outcome (locked os) R s M M0 beyond k (live st s M k) incr delta cs res buf s' M'"
  by (rule delta_ok [OF assms])

text \<open>
  C25. The text that increment and decrement leave is read back as the same number by the next of them, whatever follows
  it in memory, as long as the number is below \<open>2 ^ 63\<close>. From there on the check for a minus sign runs behind the
  end of the value: a minus sign that happens to be there before the next zero byte makes the stored counter unreadable.
\<close>

theorem counter_read_back:
  "(sint w \<ge> 0 \<longrightarrow> safe_strtoull (takeWhile (\<lambda>b. b \<noteq> 0) (number_text w n @ beyond)) = Some w) \<and>
   (sint w < 0 \<longrightarrow> safe_strtoull (takeWhile (\<lambda>b. b \<noteq> 0) (number_text w n @ beyond)) =
      (if of_char (CHR ''-'') \<in> set (takeWhile (\<lambda>b. b \<noteq> 0) beyond) then None else Some w))"
  by (auto simp: number_read)

text \<open>
  C13. A bounded lookup returns; an item it returns is the one linked under the key, is neither expired nor flushed, and keeps its
  value; without a bump and with few references every live item is found. A dead item is unlinked on the way. The
  caller of a successful lookup has one more reference, nothing else changes for the clients.
\<close>

theorem limited_get_outcome:
  assumes ok: "cache_ok st hash s M R" and r: "refs_ok s R" and t: "t < length (bump_bufs s)"
  shows "\<exists>it s'. limited_get st hash t k etime tch u s = Some (it, s') \<and>
    (it \<noteq> NULL \<longrightarrow> M k = Some it \<and> \<not> item_dead st (current_time s) (m_heap s it) \<and> key (m_heap s' it) = k \<and>
       item_value (m_heap s' it) = item_value (m_heap s it)) \<and>
    (\<not> tch \<and> \<not> u \<and> (\<forall>x. all_refs s R x < 59000) \<longrightarrow> it = addr_of (live st s M k)) \<and>
    moved st hash s M R s' (M(k := live st s M k)) (add_ref it R)"
proof -
  let ?L = "live st s M k"
  obtain it s' where g: "limited_get st hash t k etime tch u s = Some (it, s')" "it = addr_of ?L \<or> it = NULL"
      "moved st hash s M R s' (M(k := ?L)) (add_ref it R)"
    using limited_get_ok [OF assms] by blast
  have "M k = Some it \<and> \<not> item_dead st (current_time s) (m_heap s it) \<and> key (m_heap s' it) = k \<and>
      item_value (m_heap s' it) = item_value (m_heap s it)" if n: "it \<noteq> NULL"
  proof -
    have L: "?L = Some it" using g(2) n by (cases ?L) (auto simp: addr_of_def)
    have k: "M k = Some it" "\<not> item_dead st (current_time s) (m_heap s it)"
      using L by (auto simp: live_def split: option.splits if_splits)
    have kk: "key (m_heap s it) = k" using cache_okD [OF ok] mapped_key [of st hash s M _ _ k it] k(1) by auto
    have "it \<in> held M R" "it \<in> held (M(k := ?L)) (add_ref it R)" using k(1) n by (auto simp: held_def ran_def add_ref_def)
    then show ?thesis using k moved_value [OF g(3), of it] kk by simp
  qed
  moreover have "it = addr_of ?L" if u: "\<not> tch" "\<not> u" "\<forall>x. all_refs s R x < 59000"
  proof (cases ?L)
    case None
    then show ?thesis using g(2) by (auto simp: addr_of_def)
  next
    case (Some x)
    have "all_refs s R x < 65000" using spec [OF u(3), of x] by simp
    then have "unat (refcount (m_heap (snd (refcount_incr x s)) x)) = all_refs s R x + 2"
      using incr_refcount [where k = k, OF ok live_some [OF Some]] by blast
    then have "\<not> 60000 < refcount (m_heap (snd (refcount_incr x s)) x)" using spec [OF u(3), of x] by (simp add: word_less_nat_alt)
    then show ?thesis using g(1) get_found [OF ok Some, of t] u(1,2) by (simp add: limited_get_def item_get_def Some addr_of_def)
  qed
  ultimately show ?thesis using g(1,3) by blast
qed

text \<open>
  C23. The LRU queues under any sequence of pushes and cuts, wherever in a queue an item is: the links in the items represent
  the lists that result, the tail is the item pushed first among those still queued, and the counters are the lengths.
\<close>

theorem lru_history:
  assumes "lru_rep s Q" "lru_lists (\<lambda>a. slabs_clsid (m_heap s a)) ops Q = Some Q'"
  shows "lru_rep (lru_exec do_item_link_q do_item_unlink_q ops s) Q' \<and>
    tails (lru_exec do_item_link_q do_item_unlink_q ops s) c = (if Q' c = [] then NULL else last (Q' c)) \<and>
    sizes (lru_exec do_item_link_q do_item_unlink_q ops s) c = of_nat (length (Q' c))"
  using lru.exec_lists [OF assms] lru.exec_last [OF assms] by blast

text \<open>
  C24. What an allocation delivers: unless there is no memory, an item of the requested shape (its key, client flags, expiry time, value
  length), in a chunk that no client and no linked item uses, held once by the caller. Linked items may be evicted for it; those that stay
  and whatever clients hold keep key, flags and value.
\<close>

theorem item_alloc_typed:
  assumes "good st hash s R M" "refs_ok s R" "os_ok st os" "tail_repair_time st = 0" "length k < 256"
    and "item_total st (length k) fl nb \<le> slab_chunk_size_max st"
  shows "\<exists>it s' M'. item_alloc st hash os k fl etime nb s = Some (it, s') \<and> M' \<subseteq>\<^sub>m M \<and> good st hash s' (add_ref it R) M' \<and>
    vals s s' (held M' R) \<and>
    (it \<noteq> NULL \<longrightarrow> it \<notin> held M' R \<and> key (m_heap s' it) = k \<and> FLAGS_CONV (m_heap s' it) = fl \<and> exptime (m_heap s' it) = etime \<and>
       nbytes (m_heap s' it) = nb)"
  using good_alloc [OF assms(1-4,6), of etime] assms(5) unfolding is_item_def by (metis mod_less take_all_iff order_refl)

section \<open>Witnesses\<close>

definition w_assoc :: assoc where
  "w_assoc = the (assoc_init 4 True)"

definition w_rebal :: slab_rebalance where
  "w_rebal = \<lparr>slab_start = 0, slab_end = 0, slab_pos = 0, s_clsid = 0, d_clsid = 0, busy_items = 0, rescues = 0, evictions_nomem = 0,
     inline_reclaim = 0, chunk_rescues = 0, busy_deletes = 0, busy_loops = 0, rebal_done = 0, rebalance_signal = 0, pick_cur = 0\<rparr>"

definition w_os :: os where
  "w_os = \<lparr>os_malloc = (\<lambda>_ sl. if fresh_page tiny sl 4096 then 4096 else NULL), os_realloc = (\<lambda>_. True),
     os_lock = (\<lambda>_ _. True), os_rebal = (\<lambda>_. False)\<rparr>"

definition w_hash :: "byte list \<Rightarrow> u32" where
  "w_hash k = (case k of [] \<Rightarrow> 0 | c # _ \<Rightarrow> ucast c)"

definition w_start :: mc where
  "w_start = snd (item_lru_bump_buf_create (Some (\<lambda>_. 0)) (mc_start (\<lambda>_. zero_item) w_assoc tiny_slabs w_rebal))"

lemma w_settings: "page_settings tiny" "0 < slab_chunk_size_max tiny" "tail_repair_time tiny = 0"
  by (simp_all add: tiny_def sample_settings_def page_settings_def)

lemma w_os_ok: "os_ok tiny w_os"
  by (simp add: os_ok_def w_os_def malloc_ok_def)

lemma w_bufs: "length (bump_bufs w_start) = 1" "bump_count w_start x = 0"
  using fresh_buf(2) [of "\<lambda>_. 0"]
  by (simp_all add: w_start_def item_lru_bump_buf_create_def mc_start_def bipbuf_new_def bump_count_def)

lemma w_reach: "cache_reach tiny w_hash w_start (\<lambda>_. 0)"
proof -
  have "alloc_inv tiny (\<lambda>_. zero_item, tiny_slabs) {}"
    using init_inv [OF w_settings(1,2) _ tiny_init] by (auto simp: alloc_inv_def)
  moreover have "assoc_init 4 True = Some w_assoc" by (simp add: w_assoc_def assoc_init_def Let_def)
  ultimately have "cache_reach tiny w_hash (mc_start (\<lambda>_. zero_item) w_assoc tiny_slabs w_rebal) (\<lambda>_. 0)"
    by (intro cache_reach.start [where p = 4]) simp_all
  then show ?thesis unfolding w_start_def by (rule cache_reach.step [OF _ cache_step.worker [OF prod.collapse [symmetric]]])
qed

lemma w_fresh: "fresh_page tiny tiny_slabs 4096"
  by (simp add: fresh_page_def tiny_slabs_def empty_class_def tiny_def)

lemma w_class: "slabs_clsid_for tiny tiny_slabs 61 = Some 3"
  by (simp add: slabs_clsid_for_def tiny_def sample_settings_def tiny_slabs_def empty_class_def clsid_loop.simps)

lemma w_state: "m_heap w_start = (\<lambda>_. zero_item)" "m_slabs w_start = tiny_slabs"
  by (simp_all add: w_start_def item_lru_bump_buf_create_def mc_start_def bipbuf_new_def)

lemma w_alloc: "\<exists>s. item_alloc tiny w_hash w_os [97] 0 0 3 w_start = Some (4224, s)"
proof -
  obtain h sl where c: "do_slabs_alloc tiny 4096 True 3 False (\<lambda>_. zero_item, tiny_slabs) = Some (4224, h, sl)" using tiny_chunk by blast
  have m: "m_slabs_alloc tiny 4096 True 3 w_start = Some (4224, w_start\<lparr>m_heap := h, m_slabs := sl\<rparr>)"
    by (simp add: m_slabs_alloc_def w_state c)
  have "alloc_pull_loop tiny w_hash w_os 3 10 0 w_start = Some (4224, 0, w_start\<lparr>m_heap := h, m_slabs := sl\<rparr>)"
    using alloc_pull_loop.simps(2) [of tiny w_hash w_os 3 9 0 w_start] m w_fresh
    by (simp add: w_os_def w_state tiny_def sample_settings_def)
  then have "do_item_alloc_pull tiny w_hash w_os 3 w_start = Some (4224, w_start\<lparr>m_heap := h, m_slabs := sl\<rparr>)"
    by (simp add: do_item_alloc_pull_def)
  then show ?thesis
    using w_class by (simp add: item_alloc_def do_item_alloc_def item_make_header_def sizeof_item_def w_state Let_def)
      (simp add: tiny_def sample_settings_def)
qed

abbreviation (input) w_refs :: "addr \<Rightarrow> nat" where
  "w_refs \<equiv> (\<lambda>_. 0)(4224 := 1)"

text \<open>The item \<open>a\<close> with the value \<open>5\<close>, ready to be stored.\<close>

lemma w_empty: "good tiny w_hash w_start (\<lambda>_. 0) Map.empty"
proof -
  have a: "alloc_inv tiny (\<lambda>_. zero_item, tiny_slabs) {}"
    using init_inv [OF w_settings(1,2) _ tiny_init] by (auto simp: alloc_inv_def)
  have "cache_ok tiny w_hash (mc_start (\<lambda>_. zero_item) w_assoc tiny_slabs w_rebal) Map.empty (\<lambda>_. 0)"
    by (rule start_ok [OF _ _ a, of 4]) (simp_all add: w_assoc_def assoc_init_def Let_def)
  then have "cache_ok tiny w_hash w_start Map.empty (\<lambda>_. 0)"
    using ok_worker(1) [OF _ prod.collapse [symmetric]] by (simp only: w_start_def)
  then show ?thesis by (simp add: good_def data_ok_def)
qed

lemma w_item: "\<exists>s. cache_reach tiny w_hash s w_refs \<and> good tiny w_hash s w_refs Map.empty \<and> key (m_heap s 4224) = [97] \<and>
   nbytes (m_heap s 4224) = 3 \<and> it_data (m_heap s 4224) = [53, 13, 10] \<and> exptime (m_heap s 4224) = 0 \<and>
   length (bump_bufs s) = 1 \<and> (\<forall>x. bump_count s x = 0) \<and> FLAGS_CONV (m_heap s 4224) = 0"
proof -
  have r0: "refs_ok w_start (\<lambda>_. 0)" by (simp add: refs_ok_def all_refs_def w_bufs)
  have plain: "item_total tiny (length [97 :: byte]) 0 3 \<le> slab_chunk_size_max tiny"
    by (simp add: item_total_def item_make_header_def sizeof_item_def tiny_def sample_settings_def)
  obtain s where s: "item_alloc tiny w_hash w_os [97] 0 0 3 w_start = Some (4224, s)" using w_alloc by blast
  obtain M' where M': "M' \<subseteq>\<^sub>m Map.empty" "good tiny w_hash s (add_ref 4224 (\<lambda>_. 0)) M'" "is_item (m_heap s 4224) [97] 0 0 3"
    using good_alloc [OF w_empty r0 w_os_ok w_settings(3) plain, of 0] s by auto
  have ar: "add_ref 4224 (\<lambda>_. 0) = w_refs" by (simp add: add_ref_def)
  have re: "cache_reach tiny w_hash s w_refs" using cache_reach.step [OF w_reach cache_step.alloc [OF r0 w_os_ok plain s]] by (simp only: ar)
  have "M' = Map.empty" using M'(1) by (auto simp: map_le_def fun_eq_iff dom_def)
  then have g: "good tiny w_hash s w_refs Map.empty" using M'(2) by (simp only: ar)
  then have nl: "\<not> has_flag (m_heap s 4224) ITEM_LINKED" using unlinked_item [of tiny w_hash s Map.empty w_refs 4224] by (simp add: good_def)
  have "few_refs (all_refs w_start (\<lambda>_. 0))" by (simp add: few_refs_def all_refs_def w_bufs)
  then have bb: "bump_bufs s = bump_bufs w_start"
    using moved_alloc [OF _ w_settings(3) w_os_ok _ plain, of w_hash w_start Map.empty "\<lambda>_. 0" 0] w_empty s by (auto simp: good_def item_alloc_def)
  let ?s = "m_upd 4224 (\<lambda>x. x\<lparr>it_data := [53, 13, 10]\<rparr>) s"
  have "good tiny w_hash ?s w_refs Map.empty" by (rule good_fill [OF g _ nl]) simp
  moreover have "cache_reach tiny w_hash ?s w_refs" by (rule cache_reach.step [OF re cache_step.fill [OF _ nl]]) simp
  moreover have "key (m_heap ?s 4224) = [97]" "nbytes (m_heap ?s 4224) = 3" "it_data (m_heap ?s 4224) = [53, 13, 10]" "exptime (m_heap ?s 4224) = 0"
      "FLAGS_CONV (m_heap ?s 4224) = 0"
    using M'(3) by (auto simp: is_item_def upd_apply FLAGS_CONV_def has_flag_def split: if_splits)
  moreover have "length (bump_bufs ?s) = 1" "\<forall>x. bump_count ?s x = 0"
    using w_bufs bump_same [of ?s w_start] bb by simp_all
  ultimately show ?thesis by blast
qed

lemma w_crlf: "nbytes x = 3 \<Longrightarrow> it_data x = [53, 13, 10] \<Longrightarrow> crlf x \<and> item_value x = number_text 5 0"
  by (simp add: crlf_def full_data_def item_value_def item_bytes_def number_text_def decimal.simps)

lemma link_exptime: "exptime (m_heap (do_item_link st it hv s) x) = exptime (m_heap s x)"
  by (simp add: do_item_link_def do_item_link_q_def do_assoc_insert_def assoc_insert_def Let_def item_stats_sizes_add_def refcount_incr_def
      get_cas_id_def upd_apply split: prod.splits)

text \<open>The same item, stored.\<close>

lemma w_linked: "\<exists>s. good tiny w_hash s w_refs [[97] \<mapsto> 4224] \<and> live tiny s [[97] \<mapsto> 4224] [97] = Some 4224 \<and>
   nbytes (m_heap s 4224) = 3 \<and> item_value (m_heap s 4224) = number_text 5 0 \<and> length (bump_bufs s) = 1 \<and> refs_ok s w_refs \<and> (\<forall>x. bump_count s x = 0) \<and>
   FLAGS_CONV (m_heap s 4224) = 0"
proof -
  obtain s where s: "good tiny w_hash s w_refs Map.empty" "key (m_heap s 4224) = [97]" "nbytes (m_heap s 4224) = 3"
      "it_data (m_heap s 4224) = [53, 13, 10]" "exptime (m_heap s 4224) = 0" "length (bump_bufs s) = 1" "\<forall>x. bump_count s x = 0"
      "FLAGS_CONV (m_heap s 4224) = 0"
    using w_item by blast
  have ok: "cache_ok tiny w_hash s Map.empty w_refs" using s(1) by (simp add: good_def)
  let ?s = "do_item_link tiny 4224 (w_hash [97]) s" let ?M = "[[97] \<mapsto> 4224] :: byte list \<rightharpoonup> addr"
  have r: "all_refs s w_refs 4224 < 65000" using s(7) by (simp add: all_refs_def)
  have m: "moved tiny w_hash s Map.empty w_refs ?s ?M w_refs" using moved_link [OF ok _ _ r] s(2) by simp
  have h: "4224 \<in> held Map.empty w_refs" "4224 \<in> held ?M w_refs" by (auto simp: held_def)
  note v = moved_value [OF m h]
  obtain Q where "cache_inv tiny w_hash s Map.empty Q w_refs" using ok by (auto simp: cache_ok_def)
  then have i: "store_inv tiny w_hash s Map.empty Q (all_refs s w_refs)" by (simp add: cache_inv_def)
  have p: "0 < all_refs s w_refs 4224" by (simp add: all_refs_def)
  have bs: "bump_bufs ?s = bump_bufs s" using store_link(2) [OF i _ p r] s(2) by (simp add: keeps_def)
  have "nbytes (m_heap ?s 4224) = 3" "FLAGS_CONV (m_heap ?s 4224) = 0" using m h s(3,8) by (simp_all add: moved_def vals_def)
  moreover have "item_value (m_heap ?s 4224) = number_text 5 0" "crlf (m_heap ?s 4224)"
    using v w_crlf [OF s(3,4)] unfolding crlf_value by metis+
  moreover have "good tiny w_hash ?s w_refs ?M" using moved_ok [OF m] \<open>crlf (m_heap ?s 4224)\<close> by (simp add: good_def data_ok_def)
  moreover have "live tiny ?s ?M [97] = Some 4224"
    using s(5) by (simp add: live_def item_dead_def item_is_flushed_def link_exptime tiny_def sample_settings_def)
  moreover have "refs_ok ?s w_refs" using bump_same [OF bs] s(7) by (simp add: refs_ok_def all_refs_def)
  moreover have "length (bump_bufs ?s) = 1" "\<forall>x. bump_count ?s x = 0" using bump_same [OF bs] s(6,7) bs by simp_all
  ultimately show ?thesis by blast
qed

theorem cache_history_witness:
  "\<exists>s M Q. cache_reach tiny w_hash s w_refs \<and> cache_inv tiny w_hash s M Q w_refs \<and> 1 \<le> unat (refcount (m_heap s 4224))"
proof -
  obtain s where s: "cache_reach tiny w_hash s w_refs" using w_item by blast
  obtain M Q where "cache_inv tiny w_hash s M Q w_refs"
      "\<forall>x \<in> held M w_refs. unat (refcount (m_heap s x)) = (if x \<in> ran M then 1 else 0) + w_refs x + bump_count s x"
    using cache_history [OF s w_settings(3)] by blast
  moreover from this(2) have "1 \<le> unat (refcount (m_heap s 4224))" by (simp add: held_def)
  ultimately show ?thesis using s by blast
qed

theorem cache_returns_witness:
  "\<exists>s. cache_reach tiny w_hash s w_refs \<and> (\<exists>r. limited_get tiny w_hash 0 [97] 0 True True s = Some r) \<and>
     (\<exists>r. item_alloc tiny w_hash w_os [98] 0 0 3 s = Some r) \<and> (\<exists>r. store_item tiny w_hash w_os (\<lambda>_. w_os) 0 False 4224 NREAD_APPEND s = Some r) \<and>
     (\<exists>r. add_delta tiny w_hash w_os (\<lambda>_. []) 0 [97] True 37 None s = Some r) \<and>
     (\<exists>r. item_unlink w_hash 4224 s = Some r) \<and> (\<exists>r. item_remove 4224 s = Some r) \<and>
     (\<exists>r. lru_maintainer_juggle tiny w_hash id id (\<lambda>_ _. True) (\<lambda>_ _. True) 3 s = Some r) \<and> (\<exists>r. lru_maintainer_bumps tiny s = Some r) \<and>
     (\<exists>r. assoc_background w_hash (Wake True True) (m_heap s, m_assoc s) = Some r)"
proof -
  obtain s where s: "cache_reach tiny w_hash s w_refs" "good tiny w_hash s w_refs Map.empty" "nbytes (m_heap s 4224) = 3"
      "it_data (m_heap s 4224) = [53, 13, 10]" "key (m_heap s 4224) = [97]" "length (bump_bufs s) = 1" "\<forall>x. bump_count s x = 0"
    using w_item by blast
  have r: "refs_ok s w_refs" using s(7) by (simp add: refs_ok_def all_refs_def)
  have u: "\<not> has_flag (m_heap s 4224) ITEM_LINKED" using unlinked_item [of tiny w_hash s Map.empty w_refs 4224] s(2) by (simp add: good_def)
  obtain Q where Q: "store_inv tiny w_hash s Map.empty Q (all_refs s w_refs)" using cache_okD [of tiny w_hash s Map.empty w_refs] s(2) by (auto simp: good_def)
  have f: "fits_with tiny w_hash s 4224"
    using assoc_find_rep [OF store_invD(1) [OF Q], of "[97]"] s(5) by (simp add: fits_with_def)
  note m = item_total_def item_make_header_def sizeof_item_def tiny_def sample_settings_def
  show ?thesis
    using cache_returns [OF s(1) w_settings(3) r w_os_ok, of 0] s(1,6) u f w_crlf [OF s(3,4)] by (intro exI [of _ s]) (simp add: m)
qed

theorem store_item_outcome_witness:
  "\<exists>s c s' M'. good tiny w_hash s w_refs Map.empty \<and> store_item tiny w_hash w_os (\<lambda>_. w_os) 0 False 4224 NREAD_SET s = Some (STORED, c, s') \<and>
     cache_ok tiny w_hash s' M' w_refs \<and> M' [97] = Some 4224"
proof -
  obtain s where s: "good tiny w_hash s w_refs Map.empty" "key (m_heap s 4224) = [97]" "nbytes (m_heap s 4224) = 3"
      "it_data (m_heap s 4224) = [53, 13, 10]" "length (bump_bufs s) = 1" "\<forall>x. bump_count s x = 0"
    using w_item by blast
  have "refs_ok s w_refs" using s(6) by (simp add: refs_ok_def all_refs_def)
  then obtain res c s' M' M0 where "store_item tiny w_hash w_os (\<lambda>_. w_os) 0 False 4224 NREAD_SET s = Some (res, c, s')"
      "moved tiny w_hash s M0 w_refs s' M' w_refs"
      "store_outcome (locked w_os) s Map.empty M0 w_refs (live tiny s Map.empty (key (m_heap s 4224))) False 4224 NREAD_SET res s' M'"
    using store_item_outcome [of tiny w_hash s Map.empty w_refs 4224 0 w_os NREAD_SET "\<lambda>_. w_os" False] s w_settings(3) w_os_ok w_crlf [OF s(3,4)]
    by (auto simp: good_def)
  then show ?thesis using s(1,2) moved_ok by (fastforce simp: store_outcome_def Let_def)
qed

text \<open>The stored item when its client has released it.\<close>

lemma w_idle: "\<exists>s. good tiny w_hash s (\<lambda>_. 0) [[97] \<mapsto> 4224] \<and> live tiny s [[97] \<mapsto> 4224] [97] = Some 4224 \<and>
   nbytes (m_heap s 4224) = 3 \<and> item_value (m_heap s 4224) = number_text 5 0 \<and> length (bump_bufs s) = 1 \<and> (\<forall>x. bump_count s x = 0)"
proof -
  let ?M = "[[97] \<mapsto> 4224] :: byte list \<rightharpoonup> addr"
  obtain s where s: "good tiny w_hash s w_refs ?M" "live tiny s ?M [97] = Some 4224"
      "nbytes (m_heap s 4224) = 3" "item_value (m_heap s 4224) = number_text 5 0" "length (bump_bufs s) = 1" "\<forall>x. bump_count s x = 0"
    using w_linked by blast
  have ok: "cache_ok tiny w_hash s ?M w_refs" using s(1) by (simp add: good_def)
  obtain s' where s': "do_item_remove 4224 s = Some s'" "moved tiny w_hash s ?M w_refs s' ?M (w_refs(4224 := w_refs 4224 - 1))"
    using moved_remove [OF ok, of 4224] by auto
  have z: "w_refs(4224 := w_refs 4224 - 1) = (\<lambda>_. 0)" by auto
  obtain Q where Q: "store_inv tiny w_hash s ?M Q (all_refs s w_refs)" using cache_okD [OF ok] by blast
  have "4224 \<in> held ?M (all_refs s w_refs)" by (simp add: held_def)
  then have "unat (refcount (m_heap s 4224)) = 2" using store_invD(6) [OF Q] s(6) by (simp add: item_ok_def all_refs_def)
  then have "refcount (m_heap s 4224) = 2" by (simp add: word_unat_eq_iff)
  then have e: "s' = m_upd 4224 (\<lambda>x. x\<lparr>refcount := refcount x - 1\<rparr>) s" using s'(1) by (simp add: do_item_remove_def refcount_decr_def)
  have "good tiny w_hash s' (\<lambda>_. 0) ?M" using good_sub [OF s(1) s'(2) map_le_refl] by (simp only: z)
  moreover have "live tiny s' ?M [97] = Some 4224"
    using s(2) by (simp add: e live_def item_dead_def item_is_flushed_def upd_apply tiny_def sample_settings_def split: if_splits)
  moreover have "nbytes (m_heap s' 4224) = 3" "item_value (m_heap s' 4224) = number_text 5 0" "bump_bufs s' = bump_bufs s"
    using s(3,4) by (simp_all add: e upd_apply item_value_def item_bytes_def)
  ultimately show ?thesis using s(5,6) bump_same [of s' s] by auto
qed

theorem add_delta_outcome_witness:
  "\<exists>s c s'. add_delta tiny w_hash w_os (\<lambda>_. []) 0 [97] True 4 None s = Some (DELTA_OK, bytes ''9'', c, s') \<and>
     cache_ok tiny w_hash s' [[97] \<mapsto> 4224] (\<lambda>_. 0) \<and> item_value (m_heap s' 4224) = bytes ''9'' @ [13, 10]"
proof -
  let ?M = "[[97] \<mapsto> 4224] :: byte list \<rightharpoonup> addr" let ?R = "(\<lambda>_. 0) :: addr \<Rightarrow> nat"
  obtain s where s: "good tiny w_hash s ?R ?M" "live tiny s ?M [97] = Some 4224"
      "nbytes (m_heap s 4224) = 3" "item_value (m_heap s 4224) = number_text 5 0" "length (bump_bufs s) = 1" "\<forall>x. bump_count s x = 0"
    using w_idle by blast
  have f: "length [97 :: byte] < 256" "item_total tiny (length [97 :: byte]) 1 22 \<le> slab_chunk_size_max tiny"
    by (simp_all add: item_total_def item_make_header_def sizeof_item_def tiny_def sample_settings_def)
  have r: "refs_ok s ?R" using s(6) by (simp add: refs_ok_def all_refs_def)
  obtain res buf c s' M' M0 where a: "add_delta tiny w_hash w_os (\<lambda>_. []) 0 [97] True 4 None s = Some (res, buf, c, s')"
      "moved tiny w_hash s M0 ?R s' M' ?R"
      "delta_outcome (locked w_os) ?R s ?M M0 (\<lambda>_. []) [97] (live tiny s ?M [97]) True 4 None res buf s' M'"
    using add_delta_outcome [OF _ _ r _ w_settings(3) w_os_ok f, of w_hash ?M 0 "\<lambda>_. []" True 4 None] s(1,5)
    by (auto simp: good_def)
  have n: "safe_strtoull (delta_text (m_heap s 4224) []) = Some 5"
    using number_read [of 5 0 "[]"] by (simp add: delta_text_def s(4))
  have "decimal 9 = bytes ''9''" by (simp add: decimal.simps bytes_def)
  then have b: "buf = bytes ''9''" using a(3) s(2,3) n by (simp add: delta_outcome_def delta_bad_cas_def delta_count_def Let_def)
  then have "delta_room s ?R 4224 buf" using s(3,6) by (simp add: delta_room_def all_refs_def bytes_def)
  then have "res = DELTA_OK" "M' = ?M" "counter_item (m_heap s 4224) (m_heap s' 4224) 9 0"
    using a(3) s(2,3) n b by (simp_all add: delta_outcome_def delta_bad_cas_def delta_count_def Let_def bytes_def)
  moreover from this(3) have "item_value (m_heap s' 4224) = bytes ''9'' @ [13, 10]" by (simp add: counter_item_def number_text_def decimal.simps bytes_def)
  ultimately show ?thesis using a(1) b moved_ok [OF a(2)] by blast
qed

theorem counter_read_back_witness:
  "safe_strtoull (takeWhile (\<lambda>b. b \<noteq> 0) (number_text 41 1 @ bytes ''-'')) = Some 41 \<and>
   safe_strtoull (takeWhile (\<lambda>b. b \<noteq> 0) (number_text (- 1) 0 @ bytes ''-'')) = None"
  using counter_read_back [of 41 1 "bytes ''-''"] counter_read_back [of "- 1" 0 "bytes ''-''"]
  by (simp add: bytes_def)

theorem limited_get_outcome_witness:
  "\<exists>s s'. good tiny w_hash s w_refs [[97] \<mapsto> 4224] \<and> limited_get tiny w_hash 0 [97] 0 False False s = Some (4224, s') \<and>
     item_value (m_heap s' 4224) = number_text 5 0"
proof -
  obtain s where s: "good tiny w_hash s w_refs [[97] \<mapsto> 4224]" "live tiny s [[97] \<mapsto> 4224] [97] = Some 4224"
      "item_value (m_heap s 4224) = number_text 5 0" "length (bump_bufs s) = 1" "refs_ok s w_refs" "\<forall>x. bump_count s x = 0"
    using w_linked by blast
  have "\<forall>x. all_refs s w_refs x < 59000" using s(6) by (simp add: all_refs_def)
  then show ?thesis
    using limited_get_outcome [of tiny w_hash s "[[97] \<mapsto> 4224]" w_refs 0 "[97]" 0 False False] s by (auto simp: good_def addr_of_def)
qed

theorem lru_history_witness:
  "tails (lru_exec do_item_link_q do_item_unlink_q [Push 100, Push 200, Push 300, Cut 100] w_start) 0 = 200"
proof -
  have "lru_rep w_start (\<lambda>_. [])"
    by (simp add: lru_rep_def lru_class_def ntotals_def w_start_def mc_start_def item_lru_bump_buf_create_def bipbuf_new_def)
  moreover have "lru_lists (\<lambda>a. slabs_clsid (m_heap w_start a)) [Push 100, Push 200, Push 300, Cut 100] (\<lambda>_. []) =
      Some ((\<lambda>_. [])(0 := [300, 200]))"
    by (simp add: w_state zero_item_def fun_eq_iff)
  ultimately show ?thesis using lru_history [of w_start "\<lambda>_. []" "[Push 100, Push 200, Push 300, Cut 100]" "(\<lambda>_. [])(0 := [300, 200])" 0] by simp
qed

theorem item_alloc_typed_witness:
  "\<exists>s M'. item_alloc tiny w_hash w_os [97] 0 0 3 w_start = Some (4224, s) \<and> good tiny w_hash s (add_ref 4224 (\<lambda>_. 0)) M' \<and>
     key (m_heap s 4224) = [97] \<and> nbytes (m_heap s 4224) = 3"
proof -
  have "refs_ok w_start (\<lambda>_. 0)" by (simp add: refs_ok_def all_refs_def w_bufs)
  moreover have "item_total tiny (length [97 :: byte]) 0 3 \<le> slab_chunk_size_max tiny"
    by (simp add: item_total_def item_make_header_def sizeof_item_def tiny_def sample_settings_def)
  ultimately show ?thesis using item_alloc_typed [OF w_empty _ w_os_ok w_settings(3), of "[97]" 0 3 0] w_alloc by auto
qed

end
