(* ===== verification/Prefix_Stats.thy ===== *)
theory Prefix_Stats
  imports Itoa "HOL-Library.Monad_Syntax"
begin

text \<open>
  The detailed statistics of memcached (\<open>stats.c\<close>): gets, hits, sets and deletes are counted for each
  prefix of a key up to the delimiter, in a hash table of 256 lists. The hash function, the delimiter and the
  results of the allocations are arguments. A pointer to an entry is its list and its place in it. The totals and the position in the dump are of
  type \<open>int\<close>, 32-bit words here that wrap around; where they enter the size of the buffer (a \<open>size_t\<close>) they are sign-extended.
\<close>

section \<open>The table\<close>

record prefix_entry =
  prefix :: "byte list"
  prefix_len :: nat
  num_gets :: u64
  num_sets :: u64
  num_deletes :: u64
  num_hits :: u64

record prefix_table =
  prefix_stats :: "nat \<Rightarrow> prefix_entry list"
  num_prefixes :: "32 word"
  total_prefix_size :: "32 word"

definition PREFIX_HASH_SIZE :: nat where "PREFIX_HASH_SIZE = 256"

definition stats_prefix_init :: "prefix_table \<Rightarrow> prefix_table" where
  "stats_prefix_init s = s\<lparr>prefix_stats := (\<lambda>_. [])\<rparr>"

definition stats_prefix_clear :: "prefix_table \<Rightarrow> prefix_table" where
  "stats_prefix_clear s = s\<lparr>prefix_stats := (\<lambda>_. []), num_prefixes := 0, total_prefix_size := 0\<rparr>"

text \<open>The first loop: the place of the delimiter, \<open>None\<close> when the key has none before its end.\<close>

fun delimiter_at :: "byte \<Rightarrow> byte list \<Rightarrow> nat \<Rightarrow> nat option" where
  "delimiter_at d [] i = None"
| "delimiter_at d (b # bs) i = (if b = 0 then None else if b = d then Some i else delimiter_at d bs (i + 1))"

text \<open>\<open>strncmp(a, b, n) == 0\<close> for strings given without the zero that ends them.\<close>

definition strncmp_eq :: "byte list \<Rightarrow> byte list \<Rightarrow> nat \<Rightarrow> bool" where
  "strncmp_eq a b n \<longleftrightarrow> take n (takeWhile (\<lambda>c. c \<noteq> 0) a) = take n (takeWhile (\<lambda>c. c \<noteq> 0) b)"

fun prefix_loop :: "byte list \<Rightarrow> nat \<Rightarrow> prefix_entry list \<Rightarrow> nat \<Rightarrow> nat option" where
  "prefix_loop k n [] i = None"
| "prefix_loop k n (p # ps) i = (if strncmp_eq (prefix p) k n then Some i else prefix_loop k n ps (i + 1))"

definition stats_prefix_find ::
  "byte \<Rightarrow> (byte list \<Rightarrow> u32) \<Rightarrow> bool \<Rightarrow> bool \<Rightarrow> byte list \<Rightarrow> prefix_table \<Rightarrow> (nat \<times> nat) option \<times> prefix_table" where
  "stats_prefix_find d hash calloc_ok malloc_ok k s =
     (case delimiter_at d k 0 of
        None \<Rightarrow> (None, s)
      | Some n \<Rightarrow>
          let hv = unat (hash (take n k)) mod PREFIX_HASH_SIZE in
          case prefix_loop k n (prefix_stats s hv) 0 of
            Some i \<Rightarrow> (Some (hv, i), s)
          | None \<Rightarrow>
              if \<not> calloc_ok then (None, s)
              else if \<not> malloc_ok then (None, s)
              else let p = \<lparr>prefix = take n k, prefix_len = n, num_gets = 0, num_sets = 0, num_deletes = 0, num_hits = 0\<rparr>
                in (Some (hv, 0), s\<lparr>prefix_stats := (prefix_stats s)(hv := p # prefix_stats s hv),
                      num_prefixes := num_prefixes s + 1, total_prefix_size := total_prefix_size s + of_nat n\<rparr>))"

definition upd_prefix :: "(nat \<times> nat) option \<Rightarrow> (prefix_entry \<Rightarrow> prefix_entry) \<Rightarrow> prefix_table \<Rightarrow> prefix_table" where
  "upd_prefix pfs f s =
     (case pfs of None \<Rightarrow> s
      | Some (hv, i) \<Rightarrow> s\<lparr>prefix_stats := (prefix_stats s)(hv := (prefix_stats s hv)[i := f (prefix_stats s hv ! i)])\<rparr>)"

definition stats_prefix_record_get ::
  "byte \<Rightarrow> (byte list \<Rightarrow> u32) \<Rightarrow> bool \<Rightarrow> bool \<Rightarrow> byte list \<Rightarrow> bool \<Rightarrow> prefix_table \<Rightarrow> prefix_table" where
  "stats_prefix_record_get d hash cok mok k is_hit s =
     (let (pfs, s) = stats_prefix_find d hash cok mok k s
      in upd_prefix pfs (\<lambda>p. p\<lparr>num_gets := num_gets p + 1, num_hits := (if is_hit then num_hits p + 1 else num_hits p)\<rparr>) s)"

definition stats_prefix_record_delete ::
  "byte \<Rightarrow> (byte list \<Rightarrow> u32) \<Rightarrow> bool \<Rightarrow> bool \<Rightarrow> byte list \<Rightarrow> prefix_table \<Rightarrow> prefix_table" where
  "stats_prefix_record_delete d hash cok mok k s =
     (let (pfs, s) = stats_prefix_find d hash cok mok k s in upd_prefix pfs (\<lambda>p. p\<lparr>num_deletes := num_deletes p + 1\<rparr>) s)"

definition stats_prefix_record_set ::
  "byte \<Rightarrow> (byte list \<Rightarrow> u32) \<Rightarrow> bool \<Rightarrow> bool \<Rightarrow> byte list \<Rightarrow> prefix_table \<Rightarrow> prefix_table" where
  "stats_prefix_record_set d hash cok mok k s =
     (let (pfs, s) = stats_prefix_find d hash cok mok k s in upd_prefix pfs (\<lambda>p. p\<lparr>num_sets := num_sets p + 1\<rparr>) s)"

section \<open>The dump\<close>

text \<open>The text of one entry: the format with its five directives filled in.\<close>

definition prefix_format :: "byte list" where
  "prefix_format = bytes ''PREFIX %s get %llu hit %llu set %llu del %llu'' @ [CR, LF]"

definition prefix_line :: "prefix_entry \<Rightarrow> byte list" where
  "prefix_line p = bytes ''PREFIX '' @ takeWhile (\<lambda>c. c \<noteq> 0) (prefix p) @ bytes '' get '' @ decimal (unat (num_gets p)) @
     bytes '' hit '' @ decimal (unat (num_hits p)) @ bytes '' set '' @ decimal (unat (num_sets p)) @
     bytes '' del '' @ decimal (unat (num_deletes p)) @ [CR, LF]"

definition dump_size :: "prefix_table \<Rightarrow> u64" where
  "dump_size s = of_nat (length prefix_format) + scast (total_prefix_size s) +
     scast (num_prefixes s) * (of_nat (length prefix_format) - 2 + 4 * (20 - 4)) + 6"

text \<open>
  \<open>snprintf(buf + pos, size - pos, \<dots>)\<close> writes at most \<open>size - pos\<close> bytes, the last of them a zero, and returns the
  length of the whole text. The buffer is the list of the bytes before \<open>pos\<close>, as far as they were written; \<open>None\<close> when the
  assertion on \<open>total_written\<close> stops the server.
\<close>

type_synonym dump = "byte list \<times> 32 word \<times> u64"

definition put_line :: "u64 \<Rightarrow> prefix_entry \<Rightarrow> dump option \<Rightarrow> dump option" where
  "put_line sz p bp = do {
     (buf, pos, total_written) \<leftarrow> bp;
     let l = prefix_line p;
     let written = of_nat (length l);
     if total_written + written < sz
     then Some (buf @ take (unat (sz - scast pos) - 1) l, pos + ucast written, total_written + written)
     else None
   }"

fun dump_buckets :: "u64 \<Rightarrow> prefix_table \<Rightarrow> nat list \<Rightarrow> dump option \<Rightarrow> dump option" where
  "dump_buckets sz s [] bp = bp"
| "dump_buckets sz s (i # is) bp = dump_buckets sz s is (fold (put_line sz) (prefix_stats s i) bp)"

text \<open>
  The result: \<open>None\<close> when the assertion fails, no buffer without memory, otherwise the bytes for the client, how many of them there are, and the end
  of the last write (\<open>END\<close> with its terminator), which must not be behind the end of the buffer.
\<close>

definition stats_prefix_dump :: "bool \<Rightarrow> prefix_table \<Rightarrow> (byte list \<times> 32 word \<times> int) option option" where
  "stats_prefix_dump malloc_ok s =
     (if \<not> malloc_ok then Some None
      else do {
        (buf, pos, total_written) \<leftarrow> dump_buckets (dump_size s) s [0..<PREFIX_HASH_SIZE] (Some ([], 0, 0));
        Some (Some (buf @ bytes ''END'' @ [CR, LF], pos + 5, sint pos + 6))
      })"

section \<open>The table stays well formed\<close>

definition all_entries :: "prefix_table \<Rightarrow> prefix_entry list" where
  "all_entries s = concat (map (prefix_stats s) [0..<PREFIX_HASH_SIZE])"

definition prefix_wf :: "prefix_table \<Rightarrow> bool" where
  "prefix_wf s \<longleftrightarrow> num_prefixes s = of_int (\<Sum>i<PREFIX_HASH_SIZE. int (length (prefix_stats s i))) \<and>
     total_prefix_size s = of_int (\<Sum>i<PREFIX_HASH_SIZE. int (sum_list (map prefix_len (prefix_stats s i)))) \<and>
     (\<forall>i<PREFIX_HASH_SIZE. \<forall>p \<in> set (prefix_stats s i). prefix_len p = length (prefix p) \<and> 0 \<notin> set (prefix p))"

lemma sum_upd: "j < n \<Longrightarrow> (\<Sum>i<n. f ((g(j := x)) i)) = (\<Sum>i<n. f (g i)) + (f x - f (g j))" for f :: "'a \<Rightarrow> int" and j n :: nat
proof -
  assume j: "j < n"
  have "(\<Sum>i \<in> {..<n} - {j}. f ((g(j := x)) i)) = (\<Sum>i \<in> {..<n} - {j}. f (g i))" by (rule sum.cong) auto
  then show ?thesis using j by (simp add: sum.remove [of "{..<n}" j])
qed

lemma sum_concat: "int (sum_list (map h (concat (map f [0..<n])))) = (\<Sum>i<n. int (sum_list (map h (f i))))"
  by (induction n) (simp_all add: lessThan_Suc)

lemma entries_wf:
  assumes "prefix_wf s"
  shows "num_prefixes s = of_nat (length (all_entries s))" "total_prefix_size s = of_nat (sum_list (map prefix_len (all_entries s)))"
    "\<forall>p \<in> set (all_entries s). prefix_len p = length (prefix p)"
proof -
  have "int (length (all_entries s)) = (\<Sum>i<PREFIX_HASH_SIZE. int (length (prefix_stats s i)))"
    using sum_concat [of "\<lambda>_. 1" "prefix_stats s" PREFIX_HASH_SIZE] by (simp add: all_entries_def sum_list_triv)
  then show "num_prefixes s = of_nat (length (all_entries s))" using assms by (metis prefix_wf_def of_int_of_nat_eq)
  have "int (sum_list (map prefix_len (all_entries s))) = (\<Sum>i<PREFIX_HASH_SIZE. int (sum_list (map prefix_len (prefix_stats s i))))"
    by (simp add: all_entries_def sum_concat)
  then show "total_prefix_size s = of_nat (sum_list (map prefix_len (all_entries s)))" using assms by (metis prefix_wf_def of_int_of_nat_eq)
  show "\<forall>p \<in> set (all_entries s). prefix_len p = length (prefix p)" using assms by (auto simp: prefix_wf_def all_entries_def)
qed

lemma delimiter_atD:
  "delimiter_at d k i = Some n \<Longrightarrow> i \<le> n \<and> n - i < length k \<and> k ! (n - i) = d \<and> (\<forall>b \<in> set (take (n - i) k). b \<noteq> 0 \<and> b \<noteq> d)"
proof (induction d k i rule: delimiter_at.induct)
  case (2 d b bs i)
  show ?case
  proof (cases "b = 0 \<or> b = d")
    case True
    then show ?thesis using 2(2) by (auto split: if_splits)
  next
    case False
    then have r: "delimiter_at d bs (i + 1) = Some n" using 2(2) by simp
    have "n - i = Suc (n - (i + 1))" "i + 1 \<le> n" using 2(1) [OF _ _ r] False by auto
    then show ?thesis using 2(1) [OF _ _ r] False by auto
  qed
qed simp

lemma found_prefix:
  assumes "delimiter_at d k 0 = Some n"
  shows "length (take n k) = n" "0 \<notin> set (take n k)" "take n (takeWhile (\<lambda>c. c \<noteq> 0) k) = take n k"
proof -
  have f: "n < length k" "\<forall>b \<in> set (take n k). b \<noteq> 0" using delimiter_atD [OF assms] by auto
  then show "length (take n k) = n" "0 \<notin> set (take n k)" by auto
  have "takeWhile (\<lambda>c. c \<noteq> 0) k = takeWhile (\<lambda>c. c \<noteq> 0) (take n k @ drop n k)" by simp
  also have "\<dots> = take n k @ takeWhile (\<lambda>c. c \<noteq> 0) (drop n k)" using f(2) by (intro takeWhile_append2) auto
  finally show "take n (takeWhile (\<lambda>c. c \<noteq> 0) k) = take n k" using f(1) by simp
qed

lemma no_zero [simp]: "0 \<notin> set p \<Longrightarrow> takeWhile (\<lambda>c. c \<noteq> 0) p = p"
  by (simp add: takeWhile_eq_all_conv) metis

lemma prefix_loopD: "prefix_loop k n ps i = Some j \<Longrightarrow> i \<le> j \<and> j - i < length ps \<and> strncmp_eq (prefix (ps ! (j - i))) k n"
proof (induction k n ps i rule: prefix_loop.induct)
  case (2 k n p ps i)
  then show ?case by (cases "strncmp_eq (prefix p) k n") (fastforce simp: nth_Cons' Suc_diff_le)+
qed simp

lemma prefix_loop_None: "prefix_loop k n ps i = None \<longleftrightarrow> (\<forall>p \<in> set ps. \<not> strncmp_eq (prefix p) k n)"
  by (induction k n ps i rule: prefix_loop.induct) auto

section \<open>The dump fits\<close>

lemma decimal_le: "n < 10 ^ Suc m \<Longrightarrow> length (decimal n) \<le> Suc m"
proof (induction m arbitrary: n)
  case 0
  then show ?case by (simp add: decimal.simps)
next
  case (Suc m)
  then have "n div 10 < 10 ^ Suc m" by (simp add: less_mult_imp_div_less)
  then show ?case using Suc.IH [of "n div 10"] by (subst decimal.simps) simp
qed

lemma decimal_u64: "length (decimal (unat (w :: u64))) \<le> 20"
  using decimal_le [of "unat w" 19] unat_u64_less [of w] by simp

lemma line_le: "length (prefix_line p) \<le> length (prefix p) + 109"
  using decimal_u64 [of "num_gets p"] decimal_u64 [of "num_hits p"] decimal_u64 [of "num_sets p"] decimal_u64 [of "num_deletes p"]
    length_takeWhile_le [of "\<lambda>c. c \<noteq> 0" "prefix p"]
  by (simp add: prefix_line_def)

definition text_len :: "prefix_entry list \<Rightarrow> nat" where
  "text_len ps = sum_list (map (length \<circ> prefix_line) ps)"

lemma text_len_simps [simp]: "text_len [] = 0" "text_len (p # ps) = length (prefix_line p) + text_len ps"
    "text_len (ps @ qs) = text_len ps + text_len qs"
  by (simp_all add: text_len_def)

text \<open>A position that is still small, as the two types of the code hold it.\<close>

definition dump_at :: "byte list \<Rightarrow> nat \<Rightarrow> dump" where
  "dump_at buf n = (buf, of_nat n, of_nat n)"

lemma small_words:
  assumes "n < 2 ^ 31"
  shows "unat (of_nat n :: u64) = n" "(scast (of_nat n :: 32 word) :: u64) = of_nat n" "sint (of_nat n :: 32 word) = int n"
    "(ucast (of_nat n :: u64) :: 32 word) = of_nat n"
proof -
  show "unat (of_nat n :: u64) = n" using assms by (simp add: unat_of_nat)
  show s: "sint (of_nat n :: 32 word) = int n" using assms by (simp add: signed_of_nat signed_take_bit_int_eq_self)
  then show "(scast (of_nat n :: 32 word) :: u64) = of_nat n" by (metis of_int_of_nat_eq of_int_sint)
  show "(ucast (of_nat n :: u64) :: 32 word) = of_nat n" using assms by (simp add: unsigned_of_nat take_bit_nat_eq_self)
qed

lemma put_one:
  assumes "unat sz < 2 ^ 31" "n + length (prefix_line p) < unat sz"
  shows "put_line sz p (Some (dump_at buf n)) = Some (dump_at (buf @ prefix_line p) (n + length (prefix_line p)))"
proof -
  let ?l = "length (prefix_line p)"
  have n: "n < 2 ^ 31" "?l < 2 ^ 31" "n + ?l < 2 ^ 31" using assms by simp_all
  have lt: "of_nat n + of_nat ?l < sz" using assms(2) small_words(1) [OF n(3)] by (simp add: word_less_nat_alt)
  have "of_nat n \<le> sz" using assms(2) small_words(1) [OF n(1)] by (simp add: word_le_nat_alt)
  then have "unat (sz - scast (of_nat n :: 32 word)) = unat sz - n" using small_words(1,2) [OF n(1)] by (simp add: unat_sub)
  then show ?thesis using lt assms(2) small_words(4) [OF n(2)] by (simp add: put_line_def dump_at_def Let_def)
qed

lemma put_lines:
  assumes "unat sz < 2 ^ 31"
  shows "n + text_len ps < unat sz \<Longrightarrow> fold (put_line sz) ps (Some (dump_at buf n)) = Some (dump_at (buf @ concat (map prefix_line ps)) (n + text_len ps))"
proof (induction ps arbitrary: buf n)
  case (Cons p ps)
  then show ?case using put_one [OF assms, of n p buf] by (simp add: add.assoc)
qed simp

lemma dump_lines:
  assumes "unat sz < 2 ^ 31"
  shows "n + text_len (concat (map (prefix_stats s) is)) < unat sz \<Longrightarrow> dump_buckets sz s is (Some (dump_at buf n)) =
     Some (dump_at (buf @ concat (map prefix_line (concat (map (prefix_stats s) is)))) (n + text_len (concat (map (prefix_stats s) is))))"
proof (induction "is" arbitrary: buf n)
  case (Cons i "is")
  then show ?case using put_lines [OF assms, of n "prefix_stats s i" buf] by (simp add: add.assoc)
qed simp

lemma text_le:
  assumes "\<forall>p \<in> set ps. prefix_len p = length (prefix p)"
  shows "text_len ps \<le> sum_list (map prefix_len ps) + 109 * length ps"
  using assms
proof (induction ps)
  case (Cons p ps)
  then show ?case using line_le [of p] by simp
qed simp

lemma prefix_init_wf: "prefix_wf (stats_prefix_init (stats_prefix_clear s))" "prefix_wf (stats_prefix_clear s)"
  by (simp_all add: prefix_wf_def stats_prefix_init_def stats_prefix_clear_def)

text \<open>A list of the table is replaced.\<close>

lemma bucket_wf:
  assumes wf: "prefix_wf s" and hv: "hv < PREFIX_HASH_SIZE" and l: "\<forall>p \<in> set l. prefix_len p = length (prefix p) \<and> 0 \<notin> set (prefix p)"
    and s': "prefix_stats s' = (prefix_stats s)(hv := l)"
      "num_prefixes s' = num_prefixes s + of_int (int (length l) - int (length (prefix_stats s hv)))"
      "total_prefix_size s' = total_prefix_size s + of_int (int (sum_list (map prefix_len l)) - int (sum_list (map prefix_len (prefix_stats s hv))))"
  shows "prefix_wf s'"
proof -
  have "num_prefixes s' = of_int (\<Sum>i<PREFIX_HASH_SIZE. int (length (prefix_stats s' i)))"
    unfolding s'(1,2) sum_upd [OF hv, of "\<lambda>l. int (length l)"] using wf by (simp add: prefix_wf_def)
  moreover have "total_prefix_size s' = of_int (\<Sum>i<PREFIX_HASH_SIZE. int (sum_list (map prefix_len (prefix_stats s' i))))"
    unfolding s'(1,3) sum_upd [OF hv, of "\<lambda>l. int (sum_list (map prefix_len l))"] using wf by (simp add: prefix_wf_def)
  moreover have "\<forall>i<PREFIX_HASH_SIZE. \<forall>p \<in> set (prefix_stats s' i). prefix_len p = length (prefix p) \<and> 0 \<notin> set (prefix p)"
    using wf l by (simp add: prefix_wf_def s'(1))
  ultimately show ?thesis by (simp add: prefix_wf_def)
qed

text \<open>What a lookup leaves: the pointer is inside the table; the entry it points to has a prefix that the prefix of the key begins with.\<close>

lemma find_wf:
  assumes wf: "prefix_wf s" and f: "stats_prefix_find d hash cok mok k s = (pfs, s')"
  shows "prefix_wf s' \<and> (\<forall>hv i. pfs = Some (hv, i) \<longrightarrow> hv < PREFIX_HASH_SIZE \<and> i < length (prefix_stats s' hv))"
proof (cases "delimiter_at d k 0")
  case None
  then show ?thesis using assms by (simp add: stats_prefix_find_def)
next
  case (Some n)
  let ?hv = "unat (hash (take n k)) mod PREFIX_HASH_SIZE"
  have hv: "?hv < PREFIX_HASH_SIZE" by (simp add: PREFIX_HASH_SIZE_def)
  note fp = found_prefix [OF Some]
  show ?thesis
  proof (cases "prefix_loop k n (prefix_stats s ?hv) 0")
    case None
    have old: "\<forall>p \<in> set (prefix_stats s ?hv). prefix_len p = length (prefix p) \<and> 0 \<notin> set (prefix p)"
      using wf hv by (simp add: prefix_wf_def)
    show ?thesis
    proof (cases "cok \<and> mok")
      case True
      then have "prefix_wf s'" using f Some None hv fp old
        by (intro bucket_wf [OF wf hv, of "\<lparr>prefix = take n k, prefix_len = n, num_gets = 0, num_sets = 0, num_deletes = 0, num_hits = 0\<rparr> # prefix_stats s ?hv"])
          (auto simp: stats_prefix_find_def Let_def)
      then show ?thesis using f True None hv \<open>delimiter_at d k 0 = Some n\<close> by (auto simp: stats_prefix_find_def Let_def)
    next
      case False
      then show ?thesis using f wf None \<open>delimiter_at d k 0 = Some n\<close> by (auto simp: stats_prefix_find_def Let_def split: if_splits)
    qed
  next
    case (Some i)
    then show ?thesis using assms \<open>delimiter_at d k 0 = Some n\<close> hv prefix_loopD [OF Some] by (auto simp: stats_prefix_find_def)
  qed
qed

lemma upd_wf:
  assumes "prefix_wf s" "\<forall>hv i. pfs = Some (hv, i) \<longrightarrow> hv < PREFIX_HASH_SIZE \<and> i < length (prefix_stats s hv)"
    and "\<And>p. prefix (f p) = prefix p" "\<And>p. prefix_len (f p) = prefix_len p"
  shows "prefix_wf (upd_prefix pfs f s)"
proof (cases pfs)
  case (Some hi)
  obtain hv i where hi: "hi = (hv, i)" by force
  then have b: "hv < PREFIX_HASH_SIZE" "i < length (prefix_stats s hv)" using assms(2) Some by auto
  let ?l = "(prefix_stats s hv)[i := f (prefix_stats s hv ! i)]"
  have m: "map prefix_len ?l = map prefix_len (prefix_stats s hv)" by (rule nth_equalityI) (use b(2) in \<open>auto simp: nth_list_update assms(4)\<close>)
  have "\<exists>q \<in> set (prefix_stats s hv). prefix p = prefix q \<and> prefix_len p = prefix_len q" if "p \<in> set ?l" for p
    using set_update_subset_insert [of "prefix_stats s hv" i] that b(2) assms(3,4) nth_mem by fastforce
  then have "\<forall>p \<in> set ?l. prefix_len p = length (prefix p) \<and> 0 \<notin> set (prefix p)"
    using assms(1) b(1) unfolding prefix_wf_def by metis
  then show ?thesis using m by (intro bucket_wf [OF assms(1) b(1), of ?l]) (simp_all add: upd_prefix_def Some hi)
qed (simp add: upd_prefix_def assms(1))

section \<open>The counters count\<close>

datatype prefix_event = Prefix_get "byte list" bool | Prefix_set "byte list" | Prefix_delete "byte list"

fun event_key :: "prefix_event \<Rightarrow> byte list" where
  "event_key (Prefix_get k hit) = k"
| "event_key (Prefix_set k) = k"
| "event_key (Prefix_delete k) = k"

text \<open>An event with the results that its two allocations would have.\<close>

type_synonym prefix_call = "bool \<times> bool \<times> prefix_event"

fun prefix_step :: "byte \<Rightarrow> (byte list \<Rightarrow> u32) \<Rightarrow> prefix_call \<Rightarrow> prefix_table \<Rightarrow> prefix_table" where
  "prefix_step d hash (cok, mok, Prefix_get k hit) s = stats_prefix_record_get d hash cok mok k hit s"
| "prefix_step d hash (cok, mok, Prefix_set k) s = stats_prefix_record_set d hash cok mok k s"
| "prefix_step d hash (cok, mok, Prefix_delete k) s = stats_prefix_record_delete d hash cok mok k s"

definition event_upd :: "prefix_event \<Rightarrow> prefix_entry \<Rightarrow> prefix_entry" where
  "event_upd e = (case e of
      Prefix_get k hit \<Rightarrow> (\<lambda>p. p\<lparr>num_gets := num_gets p + 1, num_hits := (if hit then num_hits p + 1 else num_hits p)\<rparr>)
    | Prefix_set k \<Rightarrow> (\<lambda>p. p\<lparr>num_sets := num_sets p + 1\<rparr>)
    | Prefix_delete k \<Rightarrow> (\<lambda>p. p\<lparr>num_deletes := num_deletes p + 1\<rparr>))"

lemma prefix_step_find:
  "prefix_step d hash (cok, mok, e) s = (let (pfs, s) = stats_prefix_find d hash cok mok (event_key e) s in upd_prefix pfs (event_upd e) s)"
  by (cases e) (simp_all add: stats_prefix_record_get_def stats_prefix_record_set_def stats_prefix_record_delete_def event_upd_def)

lemma event_upd_prefix [simp]: "prefix (event_upd e p) = prefix p" "prefix_len (event_upd e p) = prefix_len p"
  by (simp_all add: event_upd_def split: prefix_event.splits)

lemma prefix_step_wf: "prefix_wf s \<Longrightarrow> prefix_wf (prefix_step d hash x s)"
  by (cases x) (auto simp: prefix_step_find split: prod.splits dest: find_wf intro!: upd_wf)

lemma prefix_run_wf: "prefix_wf s \<Longrightarrow> prefix_wf (fold (prefix_step d hash) evs s)"
  by (induction evs arbitrary: s) (simp_all add: prefix_step_wf)

definition key_prefix :: "byte \<Rightarrow> byte list \<Rightarrow> byte list option" where
  "key_prefix d k = map_option (\<lambda>n. take n k) (delimiter_at d k 0)"

definition prefix_bucket :: "(byte list \<Rightarrow> u32) \<Rightarrow> byte list \<Rightarrow> nat" where
  "prefix_bucket hash p = unat (hash p) mod PREFIX_HASH_SIZE"

definition entry_of :: "(byte list \<Rightarrow> u32) \<Rightarrow> prefix_table \<Rightarrow> byte list \<Rightarrow> prefix_entry option" where
  "entry_of hash s p = List.find (\<lambda>e. prefix e = p) (prefix_stats s (prefix_bucket hash p))"

definition fresh_entry :: "byte list \<Rightarrow> prefix_entry" where
  "fresh_entry p = \<lparr>prefix = p, prefix_len = length p, num_gets = 0, num_sets = 0, num_deletes = 0, num_hits = 0\<rparr>"

text \<open>No prefix in use begins with another one of the same list: the comparison stops at the length of the shorter one.\<close>

definition no_alias :: "(byte list \<Rightarrow> u32) \<Rightarrow> byte list set \<Rightarrow> bool" where
  "no_alias hash P \<longleftrightarrow> (\<forall>p \<in> P. \<forall>q \<in> P. prefix_bucket hash p = prefix_bucket hash q \<and> take (length q) p = q \<longrightarrow> p = q)"

definition prefixes_in :: "(byte list \<Rightarrow> u32) \<Rightarrow> byte list set \<Rightarrow> prefix_table \<Rightarrow> bool" where
  "prefixes_in hash P s \<longleftrightarrow> (\<forall>i. \<forall>e \<in> set (prefix_stats s i). prefix e \<in> P \<and> 0 \<notin> set (prefix e) \<and> prefix_bucket hash (prefix e) = i)"

lemma prefix_loop_split:
  "prefix_loop k n ps i = Some j \<Longrightarrow>
   \<exists>us e vs. ps = us @ e # vs \<and> j = i + length us \<and> strncmp_eq (prefix e) k n \<and> (\<forall>u \<in> set us. \<not> strncmp_eq (prefix u) k n)"
proof (induction k n ps i rule: prefix_loop.induct)
  case (2 k n p ps i)
  show ?case
  proof (cases "strncmp_eq (prefix p) k n")
    case True
    then show ?thesis using 2(2) by (intro exI [of _ "[]"] exI [of _ p] exI [of _ ps]) simp
  next
    case False
    then obtain us e vs where "ps = us @ e # vs" "j = i + 1 + length us" "strncmp_eq (prefix e) k n" "\<forall>u \<in> set us. \<not> strncmp_eq (prefix u) k n"
      using 2 by auto
    then show ?thesis using False by (intro exI [of _ "p # us"] exI [of _ e] exI [of _ vs]) simp
  qed
qed simp

lemma match_exact:
  assumes "no_alias hash P" "prefixes_in hash P s" "delimiter_at d k 0 = Some n" "take n k \<in> P"
    and "e \<in> set (prefix_stats s (prefix_bucket hash (take n k)))"
  shows "strncmp_eq (prefix e) k n \<longleftrightarrow> prefix e = take n k"
proof -
  note fp = found_prefix [OF assms(3)]
  have e: "prefix e \<in> P" "0 \<notin> set (prefix e)" "prefix_bucket hash (prefix e) = prefix_bucket hash (take n k)"
    using assms(2,5) by (auto simp: prefixes_in_def)
  have "strncmp_eq (prefix e) k n \<longleftrightarrow> take n (prefix e) = take n k" using e(2) fp(3) by (simp add: strncmp_eq_def)
  then show ?thesis using assms(1,4) e fp(1) unfolding no_alias_def by (metis take_all_iff order_refl)
qed

lemma find_append: "List.find P (us @ vs) = (case List.find P us of None \<Rightarrow> List.find P vs | Some x \<Rightarrow> Some x)"
  by (induction us) auto

lemma find_fresh: "(\<And>x. P (f x) = P x) \<Longrightarrow> List.find P (us @ f e # vs) = (if List.find P us = None \<and> P e then Some (f e) else List.find P (us @ e # vs))"
  by (auto simp: find_append split: option.splits)

lemma step_entry:
  assumes na: "no_alias hash P" and inv: "prefixes_in hash P s" and P: "\<forall>p. key_prefix d (event_key e) = Some p \<longrightarrow> p \<in> P"
  shows "prefixes_in hash P (prefix_step d hash (cok, mok, e) s) \<and> entry_of hash (prefix_step d hash (cok, mok, e) s) q =
     (if key_prefix d (event_key e) = Some q \<and> (entry_of hash s q \<noteq> None \<or> cok \<and> mok)
      then Some (event_upd e (case entry_of hash s q of None \<Rightarrow> fresh_entry q | Some p \<Rightarrow> p)) else entry_of hash s q)"
proof (cases "delimiter_at d (event_key e) 0")
  case None
  then show ?thesis using inv by (simp add: prefix_step_find stats_prefix_find_def upd_prefix_def key_prefix_def)
next
  case (Some n)
  let ?k = "event_key e" let ?p = "take n ?k" let ?b = "prefix_bucket hash ?p"
  have p: "key_prefix d ?k = Some ?p" "?p \<in> P" using Some P by (auto simp: key_prefix_def)
  note m = match_exact [OF na inv Some p(2)] and fp = found_prefix [OF Some]
  show ?thesis
  proof (cases "prefix_loop ?k n (prefix_stats s ?b) 0")
    case None
    have no: "\<forall>x \<in> set (prefix_stats s ?b). prefix x \<noteq> ?p" using None m by (auto simp: prefix_loop_None)
    then have en: "entry_of hash s ?p = None" by (simp add: entry_of_def find_None_iff)
    show ?thesis
    proof (cases "cok \<and> mok")
      case False
      then have "prefix_step d hash (cok, mok, e) s = s"
        using Some None by (auto simp: prefix_step_find stats_prefix_find_def upd_prefix_def Let_def prefix_bucket_def)
      then show ?thesis using inv p(1) en False by auto
    next
      case True
      have s': "prefix_step d hash (cok, mok, e) s = s\<lparr>prefix_stats := (prefix_stats s)(?b := event_upd e (fresh_entry ?p) # prefix_stats s ?b),
          num_prefixes := num_prefixes s + 1, total_prefix_size := total_prefix_size s + of_nat n\<rparr>"
        using Some None fp(1) True by (simp add: prefix_step_find stats_prefix_find_def upd_prefix_def fresh_entry_def Let_def prefix_bucket_def)
      have "prefixes_in hash P (prefix_step d hash (cok, mok, e) s)"
        using inv p(2) fp(2) unfolding s' by (auto simp: prefixes_in_def fresh_entry_def)
      moreover have "entry_of hash (prefix_step d hash (cok, mok, e) s) q = (if ?p = q then Some (event_upd e (fresh_entry ?p)) else entry_of hash s q)"
        unfolding s' using fp(1) by (auto simp: entry_of_def fresh_entry_def)
      ultimately show ?thesis using p(1) en True by auto
    qed
  next
    case (Some j)
    obtain us x vs where l: "prefix_stats s ?b = us @ x # vs" "j = length us" "strncmp_eq (prefix x) ?k n"
        "\<forall>u \<in> set us. \<not> strncmp_eq (prefix u) ?k n"
      using prefix_loop_split [OF Some] by auto
    then have x: "prefix x = ?p" "\<forall>u \<in> set us. prefix u \<noteq> ?p" using m by auto
    have s': "prefix_step d hash (cok, mok, e) s = s\<lparr>prefix_stats := (prefix_stats s)(?b := us @ event_upd e x # vs)\<rparr>"
      using Some \<open>delimiter_at d ?k 0 = Some n\<close> l(1,2)
      by (simp add: prefix_step_find stats_prefix_find_def upd_prefix_def Let_def prefix_bucket_def)
    have fu: "List.find (\<lambda>y. prefix y = ?p) us = None" using x(2) by (auto simp: find_None_iff)
    then have ff: "List.find (\<lambda>y. prefix y = q) (us @ event_upd e x # vs) =
        (if ?p = q then Some (event_upd e x) else List.find (\<lambda>y. prefix y = q) (us @ x # vs))"
      using find_fresh [of "\<lambda>y. prefix y = q" "event_upd e" us x vs] x(1) by auto
    have "entry_of hash s ?p = Some x" using l(1) x fu by (simp add: entry_of_def find_append)
    moreover have "prefixes_in hash P (prefix_step d hash (cok, mok, e) s)" unfolding s' prefixes_in_def
    proof (intro allI ballI)
      fix i y assume y: "y \<in> set (prefix_stats (s\<lparr>prefix_stats := (prefix_stats s)(?b := us @ event_upd e x # vs)\<rparr>) i)"
      then have "\<exists>z \<in> set (prefix_stats s i). prefix y = prefix z" using l(1) by (auto split: if_splits)
      then show "prefix y \<in> P \<and> 0 \<notin> set (prefix y) \<and> prefix_bucket hash (prefix y) = i" using inv by (auto simp: prefixes_in_def)
    qed
    moreover have "entry_of hash (prefix_step d hash (cok, mok, e) s) q = (if ?p = q then Some (event_upd e x) else entry_of hash s q)"
      unfolding s' using ff l(1) by (simp add: entry_of_def)
    ultimately show ?thesis using p(1) by auto
  qed
qed

definition tally :: "byte \<Rightarrow> (prefix_event \<Rightarrow> bool) \<Rightarrow> byte list \<Rightarrow> prefix_event list \<Rightarrow> u64" where
  "tally d sel p evs = of_nat (length (filter (\<lambda>e. sel e \<and> key_prefix d (event_key e) = Some p) evs))"

lemma tally_snoc: "tally d sel p (evs @ [e]) = tally d sel p evs + (if sel e \<and> key_prefix d (event_key e) = Some p then 1 else 0)"
  by (simp add: tally_def)

fun is_get :: "prefix_event \<Rightarrow> bool" where "is_get (Prefix_get k hit) = True" | "is_get e = False"
fun is_hit :: "prefix_event \<Rightarrow> bool" where "is_hit (Prefix_get k hit) = hit" | "is_hit e = False"
fun is_set :: "prefix_event \<Rightarrow> bool" where "is_set (Prefix_set k) = True" | "is_set e = False"
fun is_delete :: "prefix_event \<Rightarrow> bool" where "is_delete (Prefix_delete k) = True" | "is_delete e = False"

definition counted :: "byte \<Rightarrow> byte list \<Rightarrow> prefix_event list \<Rightarrow> prefix_entry" where
  "counted d p evs = \<lparr>prefix = p, prefix_len = length p, num_gets = tally d is_get p evs, num_sets = tally d is_set p evs,
     num_deletes = tally d is_delete p evs, num_hits = tally d is_hit p evs\<rparr>"

lemma counted_snoc: "key_prefix d (event_key e) = Some p \<Longrightarrow> counted d p (evs @ [e]) = event_upd e (counted d p evs)"
    "key_prefix d (event_key e) \<noteq> Some p \<Longrightarrow> counted d p (evs @ [e]) = counted d p evs"
  by (cases e; simp add: counted_def tally_snoc event_upd_def)+

lemma counted_none: "\<forall>e \<in> set evs. key_prefix d (event_key e) \<noteq> Some p \<Longrightarrow> counted d p evs = fresh_entry p"
  by (simp add: counted_def fresh_entry_def tally_def filter_empty_conv)

text \<open>
  The events that are recorded: those whose prefix has an entry already, and the others whose allocations succeed.
\<close>

definition record_event :: "byte \<Rightarrow> prefix_call \<Rightarrow> prefix_event list \<Rightarrow> prefix_event list" where
  "record_event d x seen = (let (cok, mok, e) = x in
     if cok \<and> mok \<or> (\<exists>a \<in> set seen. key_prefix d (event_key a) = key_prefix d (event_key e)) then seen @ [e] else seen)"

definition recorded :: "byte \<Rightarrow> prefix_call list \<Rightarrow> prefix_event list" where
  "recorded d xs = fold (record_event d) xs []"

lemma recorded_sub: "set (recorded d xs) \<subseteq> (\<lambda>(_, _, e). e) ` set xs"
  by (induction xs rule: rev_induct) (auto simp: recorded_def record_event_def Let_def split: prod.splits if_splits)

lemma run_entries:
  assumes "no_alias hash P" "\<forall>(cok, mok, e) \<in> set xs. \<forall>p. key_prefix d (event_key e) = Some p \<longrightarrow> p \<in> P" "\<forall>i. prefix_stats s i = []"
  shows "prefixes_in hash P (fold (prefix_step d hash) xs s) \<and>
    entry_of hash (fold (prefix_step d hash) xs s) q =
      (if \<exists>e \<in> set (recorded d xs). key_prefix d (event_key e) = Some q then Some (counted d q (recorded d xs)) else None)"
  using assms(2)
proof (induction xs rule: rev_induct)
  case Nil
  then show ?case using assms(3) by (simp add: prefixes_in_def entry_of_def recorded_def)
next
  case (snoc x xs)
  obtain cok mok e where x: "x = (cok, mok, e)" using prod_cases3 by blast
  let ?s = "fold (prefix_step d hash) xs s" and ?r = "recorded d xs"
  have i: "prefixes_in hash P ?s" "entry_of hash ?s q = (if \<exists>a \<in> set ?r. key_prefix d (event_key a) = Some q then Some (counted d q ?r) else None)"
    using snoc by auto
  have "\<forall>p. key_prefix d (event_key e) = Some p \<longrightarrow> p \<in> P" using snoc.prems x by simp
  note st = step_entry [OF assms(1) i(1) this, of cok mok q]
  have r: "recorded d (xs @ [x]) = record_event d x ?r" by (simp add: recorded_def)
  show ?case
  proof (cases "key_prefix d (event_key e) = Some q \<and> (cok \<and> mok \<or> (\<exists>a \<in> set ?r. key_prefix d (event_key a) = Some q))")
    case True
    then have "record_event d x ?r = ?r @ [e]" by (simp add: record_event_def x)
    moreover have "(case entry_of hash ?s q of None \<Rightarrow> fresh_entry q | Some p \<Rightarrow> p) = counted d q ?r" using i(2) counted_none [of ?r d q] by auto
    ultimately show ?thesis using st i(2) True counted_snoc(1) [of d e q ?r] r x by auto
  next
    case False
    then have "record_event d x ?r = ?r \<or> record_event d x ?r = ?r @ [e] \<and> key_prefix d (event_key e) \<noteq> Some q"
      by (auto simp: record_event_def x)
    moreover have n: "entry_of hash (prefix_step d hash x ?s) q = entry_of hash ?s q" using st i(2) False x by auto
    ultimately show ?thesis
    proof (elim disjE conjE)
      assume "record_event d x ?r = ?r"
      then show ?thesis using st i(2) n r x by simp
    next
      assume a: "record_event d x ?r = ?r @ [e]" "key_prefix d (event_key e) \<noteq> Some q"
      then show ?thesis using st i(2) n r x counted_snoc(2) [OF a(2), of ?r] by simp
    qed
  qed
qed

section \<open>Properties\<close>

text \<open>
  C38. After any sequence of gets, sets and deletes on an empty table, and when no prefix in use begins with another one
  of the same hash list, the table has exactly one entry for each prefix of a recorded event, and its counters are the numbers of recorded events with that prefix
  (modulo \<open>2 ^ 64\<close>). An event is recorded unless it needs a new entry and one of the two allocations fails. Keys without a delimiter have no
  prefix and are not counted.
\<close>

theorem prefix_counts:
  assumes "no_alias hash {p. \<exists>(cok, mok, e) \<in> set xs. key_prefix d (event_key e) = Some p}"
  shows "entry_of hash (fold (prefix_step d hash) xs (stats_prefix_clear s)) q =
     (if \<exists>e \<in> set (recorded d xs). key_prefix d (event_key e) = Some q then Some (counted d q (recorded d xs)) else None)"
proof -
  have "\<forall>(cok, mok, e) \<in> set xs. \<forall>p. key_prefix d (event_key e) = Some p \<longrightarrow> p \<in> {p. \<exists>(cok, mok, e) \<in> set xs. key_prefix d (event_key e) = Some p}" by blast
  then show ?thesis using run_entries [OF assms, of xs d "stats_prefix_clear s" q] by (simp add: stats_prefix_clear_def)
qed

definition sample_prefixes :: prefix_table where
  "sample_prefixes = \<lparr>prefix_stats = (\<lambda>_. []), num_prefixes = 0, total_prefix_size = 0\<rparr>"

text \<open>The first get finds no memory for its entry, the last one does not need any.\<close>

definition sample_calls :: "prefix_call list" where
  "sample_calls = [(True, False, Prefix_get (bytes ''a:0'') True), (True, True, Prefix_get (bytes ''a:1'') True), (True, True, Prefix_set (bytes ''a:2'')),
     (True, True, Prefix_get (bytes ''bc:1'') False), (False, False, Prefix_get (bytes ''a:3'') False), (True, True, Prefix_get (bytes ''x'') True)]"

theorem prefix_counts_witness:
  "entry_of (\<lambda>k. of_nat (length k)) (fold (prefix_step 58 (\<lambda>k. of_nat (length k))) sample_calls (stats_prefix_clear sample_prefixes)) (bytes ''a'') =
   Some \<lparr>prefix = bytes ''a'', prefix_len = 1, num_gets = 2, num_sets = 1, num_deletes = 0, num_hits = 1\<rparr>"
proof -
  have "no_alias (\<lambda>k. of_nat (length k)) {p. \<exists>(cok, mok, e) \<in> set sample_calls. key_prefix 58 (event_key e) = Some p}"
    by (auto simp: sample_calls_def no_alias_def key_prefix_def prefix_bucket_def PREFIX_HASH_SIZE_def)
  then show ?thesis
    using prefix_counts [of "\<lambda>k. of_nat (length k)" sample_calls 58 sample_prefixes "bytes ''a''"]
    by (simp add: sample_calls_def recorded_def record_event_def key_prefix_def counted_def tally_def)
qed

text \<open>The size of the dump, counted without wrap-around.\<close>

definition true_size :: "prefix_table \<Rightarrow> nat" where
  "true_size s = sum_list (map prefix_len (all_entries s)) + 109 * length (all_entries s) + 53"

lemma dump_size_true:
  assumes "prefix_wf s" "true_size s < 2 ^ 31"
  shows "unat (dump_size s) = true_size s"
proof -
  note w = entries_wf [OF assms(1)]
  have f: "length prefix_format = 47" by (simp add: prefix_format_def)
  have b: "sum_list (map prefix_len (all_entries s)) < 2 ^ 31" "length (all_entries s) < 2 ^ 31" using assms(2) by (simp_all add: true_size_def)
  have "dump_size s = of_nat (true_size s)"
    unfolding dump_size_def w(1,2) small_words(2) [OF b(1)] small_words(2) [OF b(2)] f by (simp add: true_size_def mult.commute)
  then show ?thesis using small_words(1) [OF assms(2)] by simp
qed

text \<open>
  C39. The buffer for the dump of the statistics is large enough, as long as the size it takes is below \<open>2 ^ 31\<close> (the code counts with the type \<open>int\<close>): the assertion in
  the loop holds, nothing is cut off, the text has one complete line for each prefix, and the final write with its terminator ends inside the buffer.
\<close>

theorem prefix_dump_fits:
  assumes "prefix_wf s" and "true_size s < 2 ^ 31"
  shows "\<exists>last. stats_prefix_dump True s =
      Some (Some (concat (map prefix_line (all_entries s)) @ bytes ''END'' @ [CR, LF], of_nat (length (concat (map prefix_line (all_entries s))) + 5), last)) \<and>
    last \<le> uint (dump_size s)"
proof -
  note w = entries_wf [OF assms(1)] and d = dump_size_true [OF assms]
  have t: "text_len (all_entries s) + 53 \<le> unat (dump_size s)" using text_le [OF w(3)] by (simp add: d true_size_def)
  have "unat (dump_size s) < 2 ^ 31" using assms(2) d by simp
  then have b: "dump_buckets (dump_size s) s [0..<PREFIX_HASH_SIZE] (Some (dump_at [] 0)) =
      Some (dump_at (concat (map prefix_line (all_entries s))) (text_len (all_entries s)))"
    using dump_lines [of "dump_size s" 0 s "[0..<PREFIX_HASH_SIZE]" "[]"] t by (simp add: all_entries_def)
  have l: "text_len (all_entries s) = length (concat (map prefix_line (all_entries s)))" by (simp add: text_len_def length_concat)
  have "text_len (all_entries s) < 2 ^ 31" using t d assms(2) by simp
  from small_words(3) [OF this] have "sint (of_nat (text_len (all_entries s)) :: 32 word) + 6 \<le> int (unat (dump_size s))" using t by linarith
  then have "sint (of_nat (text_len (all_entries s)) :: 32 word) + 6 \<le> uint (dump_size s)" by (simp only: uint_nat)
  then show ?thesis using b l by (simp add: stats_prefix_dump_def dump_at_def)
qed

theorem prefix_dump_fits_witness:
  "\<exists>last. last \<le> uint (dump_size (prefix_step 58 (\<lambda>_. 0) (True, True, Prefix_set (bytes ''a:1'')) (stats_prefix_clear sample_prefixes))) \<and>
     stats_prefix_dump True (prefix_step 58 (\<lambda>_. 0) (True, True, Prefix_set (bytes ''a:1'')) (stats_prefix_clear sample_prefixes)) =
       Some (Some (bytes ''PREFIX a get 0 hit 0 set 1 del 0'' @ [CR, LF] @ bytes ''END'' @ [CR, LF], 39, last))"
proof -
  let ?s = "prefix_step 58 (\<lambda>_. 0) (True, True, Prefix_set (bytes ''a:1'')) (stats_prefix_clear sample_prefixes)"
  have p: "prefix_stats ?s = (\<lambda>_. [])(0 := [\<lparr>prefix = bytes ''a'', prefix_len = 1, num_gets = 0, num_sets = 1, num_deletes = 0, num_hits = 0\<rparr>])"
    by (simp add: stats_prefix_record_set_def stats_prefix_find_def stats_prefix_clear_def upd_prefix_def)
  have a: "all_entries ?s = [\<lparr>prefix = bytes ''a'', prefix_len = 1, num_gets = 0, num_sets = 1, num_deletes = 0, num_hits = 0\<rparr>]"
    unfolding all_entries_def p PREFIX_HASH_SIZE_def by (simp add: upt_conv_Cons)
  then have "true_size ?s < 2 ^ 31" by (simp add: true_size_def del: prefix_step.simps)
  then obtain last where f: "stats_prefix_dump True ?s = Some (Some (concat (map prefix_line (all_entries ?s)) @ bytes ''END'' @ [CR, LF],
      of_nat (length (concat (map prefix_line (all_entries ?s))) + 5), last))" "last \<le> uint (dump_size ?s)"
    using prefix_dump_fits [OF prefix_step_wf [OF prefix_init_wf(2)], of 58 "\<lambda>_. 0" "(True, True, Prefix_set (bytes ''a:1''))" sample_prefixes] by blast
  have d: "decimal 0 = bytes ''0''" "decimal (Suc 0) = bytes ''1''" by (subst decimal.simps, simp)+
  have "concat (map prefix_line (all_entries ?s)) = bytes ''PREFIX a get 0 hit 0 set 1 del 0'' @ [CR, LF]"
    unfolding a by (simp add: prefix_line_def d)
  then show ?thesis using f by (intro exI [of _ last]) (simp del: prefix_step.simps)
qed

end
