(* ===== verification/Conn.thy ===== *)
theory Conn
  imports Store Cache_Pool
begin

text \<open>
  A connection of memcached and how it assembles what it sends (\<open>memcached.c\<close>): scatter/gather lists that point
  to constant text, to keys and to values inside items (nothing is copied), for UDP cut into datagrams of at most
  1400 bytes with a header each. \<open>iov_bytes\<close> is what the kernel finds at such a pointer when the message is sent. The
  answers of \<open>realloc\<close> are an argument: \<open>ok n\<close> for the \<open>n\<close>-th request of the connection (counted by \<open>asked\<close>). Tracing is left out.
\<close>

section \<open>The connection\<close>

datatype conn_states = conn_listening | conn_new_cmd | conn_waiting | conn_read | conn_parse_cmd | conn_write | conn_nread
  | conn_swallow | conn_closing | conn_mwrite | conn_closed | conn_watch | conn_max_state

datatype network_transport = local_transport | tcp_transport | udp_transport

text \<open>What \<open>iov_base\<close> points to: nothing yet, constant text or a buffer of the connection, the key or the data of an item or chunk.\<close>

datatype iov_src = No_base | Text "byte list" | Key_of addr | Data_of addr

record iovec =
  iov_base :: iov_src
  iov_off :: nat
  iov_len :: int

text \<open>The counters of the connection's worker thread that the text protocol changes, and the global \<open>malloc_fails\<close>.\<close>

record thread_stats =
  get_cmds :: u64
  get_misses :: u64
  touch_cmds :: u64
  touch_misses :: u64
  delete_misses :: u64
  incr_misses :: u64
  decr_misses :: u64
  flush_cmds :: u64
  set_cmds :: "byte \<Rightarrow> u64"
  touch_hits :: "byte \<Rightarrow> u64"
  delete_hits :: "byte \<Rightarrow> u64"
  lru_hits :: "byte \<Rightarrow> u64"
  bytes_read :: u64
  bytes_written :: u64
  conn_yields :: u64
  malloc_fails :: u64

text \<open>
  The input buffer is the bytes that are still to be parsed (\<open>rbytes\<close> bytes from \<open>rcurr\<close>), \<open>wbuf\<close> the \<open>wbytes\<close> bytes to write;
  the lists have their used elements only (\<open>msgused\<close>, \<open>ileft\<close>, \<open>suffixleft\<close>). \<open>ritem\<close> is the place in the data of \<open>c_item\<close>.
\<close>

record conn =
  c_state :: conn_states
  write_and_go :: conn_states
  c_transport :: network_transport
  noreply :: bool
  set_stale :: bool
  mset_res :: bool
  rbuf :: "byte list"
  rsize :: nat
  wbuf :: "byte list"
  wsize :: nat
  c_item :: addr
  ritem :: nat
  rlbytes :: int
  cmd :: nread
  sbytes :: int
  msglist :: "iovec list list"
  msgsize :: nat
  msgcurr :: nat
  msgbytes :: int
  iovused :: nat
  iovsize :: nat
  hdrsize :: nat
  request_id :: nat
  ilist :: "addr list"
  isize :: nat
  suffixlist :: "addr list"
  suffixsize :: nat
  suffix_cache :: cache_t
  asked :: nat
  c_stats :: thread_stats

abbreviation (input) IOV_MAX :: nat where "IOV_MAX \<equiv> 1024"
abbreviation (input) UDP_MAX_PAYLOAD_SIZE :: int where "UDP_MAX_PAYLOAD_SIZE \<equiv> 1400"
abbreviation (input) UDP_HEADER_SIZE :: int where "UDP_HEADER_SIZE \<equiv> 8"
abbreviation (input) is_udp :: "conn \<Rightarrow> bool" where "is_udp c \<equiv> c_transport c = udp_transport"

fun src_bytes :: "heap \<Rightarrow> iov_src \<Rightarrow> byte list" where
  "src_bytes h No_base = []"
| "src_bytes h (Text bs) = bs"
| "src_bytes h (Key_of a) = key (h a)"
| "src_bytes h (Data_of a) = it_data (h a)"

text \<open>
  An element sends \<open>iov_len\<close> bytes from its place in the source, whatever is behind the source (shown as zeros: the theorems on replies
  prove that nothing behind a source is ever sent).
\<close>

definition peek :: "byte list \<Rightarrow> nat \<Rightarrow> nat \<Rightarrow> byte list" where
  "peek bs off n = map (\<lambda>i. if i < length bs then bs ! i else 0) [off..<off + n]"

definition iov_bytes :: "heap \<Rightarrow> iovec \<Rightarrow> byte list" where
  "iov_bytes h v = peek (src_bytes h (iov_base v)) (iov_off v) (nat (iov_len v))"

definition conn_set_state :: "conn_states \<Rightarrow> conn \<Rightarrow> conn" where
  "conn_set_state st c = (if st \<noteq> c_state c then c\<lparr>c_state := st\<rparr> else c)"

definition upd_tstats :: "(thread_stats \<Rightarrow> thread_stats) \<Rightarrow> conn \<Rightarrow> conn" where
  "upd_tstats f c = c\<lparr>c_stats := f (c_stats c)\<rparr>"

definition count_read :: "nat \<Rightarrow> conn \<Rightarrow> conn" where
  "count_read n c = upd_tstats (\<lambda>s. s\<lparr>bytes_read := bytes_read s + of_nat n\<rparr>) c"

text \<open>One request to \<open>malloc\<close> or \<open>realloc\<close>; a refused one is counted.\<close>

definition ask :: "(nat \<Rightarrow> bool) \<Rightarrow> conn \<Rightarrow> bool \<times> conn" where
  "ask ok c = (let r = ok (asked c); c = c\<lparr>asked := asked c + 1\<rparr>
     in (r, if r then c else upd_tstats (\<lambda>s. s\<lparr>malloc_fails := malloc_fails s + 1\<rparr>) c))"

section \<open>Messages\<close>

definition ensure_iov_space :: "(nat \<Rightarrow> bool) \<Rightarrow> conn \<Rightarrow> bool \<times> conn" where
  "ensure_iov_space ok c =
     (if iovused c \<ge> iovsize c then
        let (r, c) = ask ok c in (r, if r then c\<lparr>iovsize := iovsize c * 2\<rparr> else c)
      else (True, c))"

text \<open>An element is added to the message that is being assembled.\<close>

definition push_iov :: "iovec \<Rightarrow> conn \<Rightarrow> conn" where
  "push_iov v c = c\<lparr>msglist := butlast (msglist c) @ [last (msglist c) @ [v]], msgbytes := msgbytes c + iov_len v, iovused := iovused c + 1\<rparr>"

text \<open>
  \<open>add_msghdr\<close>. On UDP it calls \<open>add_iov(c, NULL, UDP_HEADER_SIZE)\<close>, which finds an empty message and so neither starts
  another message nor splits the header.
\<close>

definition add_msghdr :: "(nat \<Rightarrow> bool) \<Rightarrow> conn \<Rightarrow> bool \<times> conn" where
  "add_msghdr ok c =
     (let (r, c) = (if msgsize c = length (msglist c)
          then let (r, c) = ask ok c in (r, if r then c\<lparr>msgsize := msgsize c * 2\<rparr> else c) else (True, c))
      in if \<not> r then (False, c)
         else let c = c\<lparr>msglist := msglist c @ [[]], msgbytes := 0\<rparr> in
           if is_udp c then
             let (r, c) = ensure_iov_space ok c
             in if \<not> r then (False, c) else (True, push_iov \<lparr>iov_base = No_base, iov_off = 0, iov_len = UDP_HEADER_SIZE\<rparr> c)
           else (True, c))"

text \<open>The loop for UDP. The result of \<open>add_msghdr\<close> is ignored.\<close>

partial_function (option) add_iov_udp :: "(nat \<Rightarrow> bool) \<Rightarrow> iov_src \<Rightarrow> nat \<Rightarrow> int \<Rightarrow> conn \<Rightarrow> (bool \<times> conn) option" where
  [code]: "add_iov_udp ok src off len c =
     (let c = (if length (last (msglist c)) = IOV_MAX \<or> msgbytes c \<ge> UDP_MAX_PAYLOAD_SIZE then snd (add_msghdr ok c) else c);
          (r, c) = ensure_iov_space ok c
      in if \<not> r then Some (False, c)
         else
           let leftover = (if len + msgbytes c > UDP_MAX_PAYLOAD_SIZE then len + msgbytes c - UDP_MAX_PAYLOAD_SIZE else 0);
               len = len - leftover;
               c = push_iov \<lparr>iov_base = src, iov_off = off, iov_len = len\<rparr> c
           in if leftover > 0 then add_iov_udp ok src (off + nat len) leftover c else Some (True, c))"

definition add_iov :: "(nat \<Rightarrow> bool) \<Rightarrow> iov_src \<Rightarrow> int \<Rightarrow> conn \<Rightarrow> (bool \<times> conn) option" where
  "add_iov ok src len c =
     (if is_udp c then add_iov_udp ok src 0 len c
      else
        let c = (if length (last (msglist c)) = IOV_MAX then snd (add_msghdr ok c) else c);
            (r, c) = ensure_iov_space ok c
        in Some (if \<not> r then (False, c) else (True, push_iov \<lparr>iov_base = src, iov_off = 0, iov_len = len\<rparr> c)))"

partial_function (option) add_chunked_item_iovs :: "(nat \<Rightarrow> bool) \<Rightarrow> heap \<Rightarrow> addr \<Rightarrow> int \<Rightarrow> conn \<Rightarrow> (bool \<times> conn) option" where
  [code]: "add_chunked_item_iovs ok h ch len c =
     (if ch = NULL then Some (True, c)
      else do {
        let todo = (if len > ch_used (h ch) then ch_used (h ch) else len);
        (r, c) \<leftarrow> add_iov ok (Data_of ch) todo c;
        if \<not> r then Some (False, c) else add_chunked_item_iovs ok h (next (h ch)) (len - todo) c
      })"

text \<open>The header of datagram \<open>i\<close> of \<open>n\<close>; bytes are stored modulo 256.\<close>

definition udp_header :: "nat \<Rightarrow> nat \<Rightarrow> nat \<Rightarrow> byte list" where
  "udp_header req i n = map of_nat [req div 256, req mod 256, i div 256, i mod 256, n div 256, n mod 256, 0, 0]"

definition build_udp_headers :: "(nat \<Rightarrow> bool) \<Rightarrow> conn \<Rightarrow> bool \<times> conn" where
  "build_udp_headers ok c =
     (let n = length (msglist c);
          (r, c) = (if n > hdrsize c then let (r, c) = ask ok c in (r, if r then c\<lparr>hdrsize := n * 2\<rparr> else c) else (True, c))
      in if \<not> r then (False, c)
         else (True, c\<lparr>msglist := map (\<lambda>(i, m). m[0 := \<lparr>iov_base = Text (udp_header (request_id c) i n), iov_off = 0, iov_len = UDP_HEADER_SIZE\<rparr>])
                (enumerate 0 (msglist c))\<rparr>))"

section \<open>Lines\<close>

definition out_string :: "(nat \<Rightarrow> bool) \<Rightarrow> byte list \<Rightarrow> conn \<Rightarrow> conn" where
  "out_string ok str c =
     (if noreply c then conn_set_state conn_new_cmd (c\<lparr>noreply := False\<rparr>)
      else
        let c = snd (add_msghdr ok (c\<lparr>msgcurr := 0, msglist := [], iovused := 0\<rparr>));
            str = (if length str + 2 > wsize c then bytes ''SERVER_ERROR output line too long'' else str)
        in (conn_set_state conn_write (c\<lparr>wbuf := str @ [CR, LF]\<rparr>))\<lparr>write_and_go := conn_new_cmd\<rparr>)"

text \<open>Text connections only: \<open>out_of_memory\<close> is \<open>out_string\<close> for them.\<close>

definition out_errstring :: "(nat \<Rightarrow> bool) \<Rightarrow> byte list \<Rightarrow> conn \<Rightarrow> conn" where
  "out_errstring ok str c = out_string ok str (c\<lparr>noreply := False\<rparr>)"

section \<open>What is sent\<close>

text \<open>The fields that assembling a message does not touch.\<close>

definition rest_of :: "conn \<Rightarrow> conn" where
  "rest_of c = c\<lparr>msglist := [], msgsize := 0, msgbytes := 0, iovused := 0, iovsize := 0, asked := 0\<rparr>"

lemma rest_ofD:
  assumes "rest_of c' = rest_of c"
  shows "c_state c' = c_state c" "c_transport c' = c_transport c" "noreply c' = noreply c" "c_item c' = c_item c" "ilist c' = ilist c"
    "c_stats c' = c_stats c" "wsize c' = wsize c" "request_id c' = request_id c" "hdrsize c' = hdrsize c" "msgcurr c' = msgcurr c"
    "isize c' = isize c" "suffixlist c' = suffixlist c" "suffixsize c' = suffixsize c" "suffix_cache c' = suffix_cache c" "rbuf c' = rbuf c"
    "write_and_go c' = write_and_go c" "wbuf c' = wbuf c"
  using arg_cong [OF assms, of c_state] arg_cong [OF assms, of c_transport] arg_cong [OF assms, of noreply] arg_cong [OF assms, of c_item]
    arg_cong [OF assms, of ilist] arg_cong [OF assms, of c_stats] arg_cong [OF assms, of wsize] arg_cong [OF assms, of request_id]
    arg_cong [OF assms, of hdrsize] arg_cong [OF assms, of msgcurr] arg_cong [OF assms, of isize] arg_cong [OF assms, of suffixlist]
    arg_cong [OF assms, of suffixsize] arg_cong [OF assms, of suffix_cache] arg_cong [OF assms, of rbuf] arg_cong [OF assms, of write_and_go]
    arg_cong [OF assms, of wbuf]
  by (simp_all add: rest_of_def)

definition msg_len :: "iovec list \<Rightarrow> int" where
  "msg_len m = sum_list (map iov_len m)"

text \<open>The elements behind the header, and what they send all together.\<close>

definition msg_body :: "conn \<Rightarrow> iovec list \<Rightarrow> iovec list" where
  "msg_body c m = (if is_udp c then tl m else m)"

definition sent :: "heap \<Rightarrow> conn \<Rightarrow> byte list" where
  "sent h c = concat (map (\<lambda>m. concat (map (iov_bytes h) (msg_body c m))) (msglist c))"

definition msg_ok :: "conn \<Rightarrow> iovec list \<Rightarrow> bool" where
  "msg_ok c m \<longleftrightarrow> length m \<le> IOV_MAX \<and> (\<forall>v \<in> set m. 0 \<le> iov_len v) \<and>
     (is_udp c \<longrightarrow> m \<noteq> [] \<and> iov_len (hd m) = UDP_HEADER_SIZE \<and> msg_len m \<le> UDP_MAX_PAYLOAD_SIZE)"

definition out_ok :: "conn \<Rightarrow> bool" where
  "out_ok c \<longleftrightarrow> msglist c \<noteq> [] \<and> (\<forall>m \<in> set (msglist c). msg_ok c m) \<and> msgbytes c = msg_len (last (msglist c))"

lemma length_peek [simp]: "length (peek bs off n) = n"
  by (simp add: peek_def)

lemma peek_add: "peek bs off (n + m) = peek bs off n @ peek bs (off + n) m"
  using upt_add_eq_append [of off "off + n" m] by (simp add: peek_def add.assoc)

lemma peek_whole [simp]: "n \<le> length bs \<Longrightarrow> peek bs 0 n = take n bs"
  by (rule nth_equalityI) (auto simp: peek_def)

lemma ask_ok [simp]: "\<forall>n. ok n \<Longrightarrow> ask ok c = (True, c\<lparr>asked := asked c + 1\<rparr>)"
  by (simp add: ask_def)

lemma space_ok: "\<forall>n. ok n \<Longrightarrow> \<exists>c'. ensure_iov_space ok c = (True, c') \<and> rest_of c' = rest_of c \<and> msglist c' = msglist c \<and> msgbytes c' = msgbytes c"
  by (simp add: ensure_iov_space_def rest_of_def)

lemma msghdr_ok:
  assumes "\<forall>n. ok n"
  shows "\<exists>c' m. add_msghdr ok c = (True, c') \<and> rest_of c' = rest_of c \<and> msglist c' = msglist c @ [m] \<and> msg_body c m = [] \<and> msg_ok c m \<and>
    msgbytes c' = msg_len m \<and> length m \<le> 1 \<and> msg_len m \<le> 8"
proof -
  obtain c1 where c1: "(if msgsize c = length (msglist c) then let (r, c) = ask ok c in (r, if r then c\<lparr>msgsize := msgsize c * 2\<rparr> else c) else (True, c)) = (True, c1)"
      "rest_of c1 = rest_of c" "msglist c1 = msglist c"
  proof (cases "msgsize c = length (msglist c)")
    case True
    then show ?thesis using assms that [of "c\<lparr>asked := asked c + 1, msgsize := msgsize c * 2\<rparr>"] by (simp add: rest_of_def)
  qed (use that [of c] in simp)
  let ?c = "c1\<lparr>msglist := msglist c1 @ [[]], msgbytes := 0\<rparr>"
  obtain c2 where c2: "ensure_iov_space ok ?c = (True, c2)" "rest_of c2 = rest_of ?c" "msglist c2 = msglist c1 @ [[]]" "msgbytes c2 = 0"
    using space_ok [OF assms, of ?c] by auto
  have r: "rest_of ?c = rest_of c" using c1(2) by (simp add: rest_of_def)
  show ?thesis
  proof (cases "is_udp c")
    case True
    let ?v = "\<lparr>iov_base = No_base, iov_off = 0, iov_len = 8\<rparr>"
    have "add_msghdr ok c = (True, push_iov ?v c2)"
      using True c1 c2 rest_ofD(2) [OF c1(2)] by (simp add: add_msghdr_def)
    moreover have "rest_of (push_iov ?v c2) = rest_of c" using c2(2) r by (simp add: push_iov_def rest_of_def)
    moreover have "msglist (push_iov ?v c2) = msglist c @ [[?v]]" using c2(3) c1(3) by (simp add: push_iov_def)
    ultimately show ?thesis using True c2(4) by (intro exI [of _ "push_iov ?v c2"] exI [of _ "[?v]"]) (simp add: msg_body_def msg_ok_def msg_len_def push_iov_def)
  next
    case False
    then have "add_msghdr ok c = (True, ?c)" using c1 rest_ofD(2) [OF c1(2)] by (simp add: add_msghdr_def)
    then show ?thesis using False c1(3) r by (intro exI [of _ ?c] exI [of _ "[]"]) (simp add: msg_body_def msg_ok_def msg_len_def)
  qed
qed

lemma sent_msgs: "is_udp c' = is_udp c \<Longrightarrow> msglist c' = msglist c @ [m] \<Longrightarrow> sent h c' = sent h c @ concat (map (iov_bytes h) (msg_body c m))"
  by (simp add: sent_def msg_body_def)

lemma msg_ok_cong: "is_udp c' = is_udp c \<Longrightarrow> msg_ok c' m = msg_ok c m"
  by (simp add: msg_ok_def)

text \<open>An element is added to a message with room for it.\<close>

lemma push_sent:
  assumes c: "out_ok c" and v: "0 \<le> iov_len v" "length (last (msglist c)) < IOV_MAX" "is_udp c \<longrightarrow> msgbytes c + iov_len v \<le> UDP_MAX_PAYLOAD_SIZE"
  shows "out_ok (push_iov v c)" "sent h (push_iov v c) = sent h c @ iov_bytes h v" "rest_of (push_iov v c) = rest_of c"
proof -
  obtain ms m where m: "msglist c = ms @ [m]" using c by (metis out_ok_def append_butlast_last_id)
  have mb: "msgbytes c = msg_len m" "msg_ok c m" "\<forall>x \<in> set ms. msg_ok c x" using c m by (auto simp: out_ok_def)
  have p: "msglist (push_iov v c) = ms @ [m @ [v]]" "c_transport (push_iov v c) = c_transport c" "msgbytes (push_iov v c) = msgbytes c + iov_len v"
    using m by (simp_all add: push_iov_def)
  have "msg_ok c (m @ [v])" using mb v m by (auto simp: msg_ok_def msg_len_def)
  then show "out_ok (push_iov v c)" using mb p v by (auto simp: out_ok_def msg_ok_def msg_len_def)
  have "msg_body c (m @ [v]) = msg_body c m @ [v]" using mb(2) by (auto simp: msg_body_def msg_ok_def)
  then show "sent h (push_iov v c) = sent h c @ iov_bytes h v" using p m by (simp add: sent_def msg_body_def)
  show "rest_of (push_iov v c) = rest_of c" by (simp add: rest_of_def push_iov_def)
qed

lemma room_ok:
  assumes ok: "\<forall>n. ok n" and c: "out_ok c"
  defines "full \<equiv> length (last (msglist c)) = IOV_MAX \<or> is_udp c \<and> msgbytes c \<ge> UDP_MAX_PAYLOAD_SIZE"
  shows "\<exists>c'. ensure_iov_space ok (if full then snd (add_msghdr ok c) else c) = (True, c') \<and> out_ok c' \<and> (\<forall>h. sent h c' = sent h c) \<and>
    rest_of c' = rest_of c \<and> length (last (msglist c')) < IOV_MAX \<and> (is_udp c \<longrightarrow> msgbytes c' < UDP_MAX_PAYLOAD_SIZE)"
proof -
  obtain c1 where c1: "(if full then snd (add_msghdr ok c) else c) = c1" "out_ok c1" "\<forall>h. sent h c1 = sent h c" "rest_of c1 = rest_of c"
      "length (last (msglist c1)) < IOV_MAX" "is_udp c \<longrightarrow> msgbytes c1 < UDP_MAX_PAYLOAD_SIZE"
  proof (cases full)
    case True
    obtain c' m where m: "add_msghdr ok c = (True, c')" "rest_of c' = rest_of c" "msglist c' = msglist c @ [m]" "msg_body c m = []" "msg_ok c m"
        "msgbytes c' = msg_len m" "length m \<le> 1" "msg_len m \<le> 8"
      using msghdr_ok [OF ok, of c] by blast
    have t: "is_udp c' = is_udp c" using rest_ofD(2) [OF m(2)] by simp
    have "out_ok c'" using c m t by (auto simp: out_ok_def msg_ok_cong [OF t])
    then show ?thesis using that [of c'] True m sent_msgs [OF t m(3)] by simp
  next
    case False
    have "length (last (msglist c)) \<le> IOV_MAX" using c by (auto simp: out_ok_def msg_ok_def)
    then show ?thesis using that [of c] False c by (auto simp: full_def)
  qed
  obtain c2 where c2: "ensure_iov_space ok c1 = (True, c2)" "rest_of c2 = rest_of c1" "msglist c2 = msglist c1" "msgbytes c2 = msgbytes c1"
    using space_ok [OF ok] by blast
  have t: "is_udp c2 = is_udp c1" using rest_ofD(2) [OF c2(2)] by simp
  have "out_ok c2" using c1(2) c2 by (simp add: out_ok_def msg_ok_cong [OF t])
  moreover have "\<forall>h. sent h c2 = sent h c" using c1(3) c2(3) t by (simp add: sent_def msg_body_def)
  ultimately show ?thesis using c1 c2 by simp
qed

lemma add_iov_udp_sent:
  assumes ok: "\<forall>n. ok n"
  shows "out_ok c \<Longrightarrow> is_udp c \<Longrightarrow> 0 \<le> len \<Longrightarrow> \<exists>c'. add_iov_udp ok src off len c = Some (True, c') \<and> out_ok c' \<and> rest_of c' = rest_of c \<and>
    (\<forall>h. sent h c' = sent h c @ peek (src_bytes h src) off (nat len))"
proof (induction "nat len" arbitrary: len off c rule: less_induct)
  case less
  obtain c1 where c1: "ensure_iov_space ok (if length (last (msglist c)) = IOV_MAX \<or> msgbytes c \<ge> UDP_MAX_PAYLOAD_SIZE then snd (add_msghdr ok c) else c) = (True, c1)"
      "out_ok c1" "\<forall>h. sent h c1 = sent h c" "rest_of c1 = rest_of c" "length (last (msglist c1)) < IOV_MAX" "msgbytes c1 < UDP_MAX_PAYLOAD_SIZE"
    using room_ok [OF ok less.prems(1), unfolded less.prems(2) simp_thms] by blast
  have u: "is_udp c1" using rest_ofD(2) [OF c1(4)] less.prems(2) by simp
  define left where "left = (if len + msgbytes c1 > UDP_MAX_PAYLOAD_SIZE then len + msgbytes c1 - UDP_MAX_PAYLOAD_SIZE else 0)"
  have l: "0 \<le> left" "left \<le> len" "left = 0 \<or> left < len" "msgbytes c1 + (len - left) \<le> UDP_MAX_PAYLOAD_SIZE"
    using c1(6) less.prems(3) by (auto simp: left_def)
  let ?c = "push_iov \<lparr>iov_base = src, iov_off = off, iov_len = len - left\<rparr> c1"
  have p: "out_ok ?c" "\<And>h. sent h ?c = sent h c @ peek (src_bytes h src) off (nat (len - left))" "rest_of ?c = rest_of c"
    using push_sent [OF c1(2), of "\<lparr>iov_base = src, iov_off = off, iov_len = len - left\<rparr>"] c1 l by (simp_all add: iov_bytes_def)
  have up: "is_udp ?c" using u by (simp add: push_iov_def)
  note step = add_iov_udp.simps [of ok src off len c, unfolded Let_def c1(1) prod.case not_True_eq_False if_False, folded left_def]
  show ?case
  proof (cases "left > 0")
    case False
    then have "left = 0" using l by simp
    then show ?thesis using step p by simp
  next
    case True
    then have n: "nat left < nat len" "nat len = nat (len - left) + nat left" using l by auto
    obtain c' where c': "add_iov_udp ok src (off + nat (len - left)) left ?c = Some (True, c')" "out_ok c'" "rest_of c' = rest_of ?c"
        "\<forall>h. sent h c' = sent h ?c @ peek (src_bytes h src) (off + nat (len - left)) (nat left)"
      using less.hyps [OF n(1) p(1) up l(1)] by blast
    have "\<forall>h. sent h c' = sent h c @ peek (src_bytes h src) off (nat len)"
      unfolding n(2) peek_add using c'(4) p(2) by simp
    then show ?thesis using step True c' p(3) by simp
  qed
qed

text \<open>
  Adding an element sends its bytes behind those before, whatever the transport and wherever the
  datagrams are cut; the datagrams stay within their bounds, and nothing else of the connection changes.
\<close>

lemma add_iov_sent:
  assumes ok: "\<forall>n. ok n" and c: "out_ok c" and len: "0 \<le> len"
  shows "\<exists>c'. add_iov ok src len c = Some (True, c') \<and> out_ok c' \<and> rest_of c' = rest_of c \<and>
    (\<forall>h. sent h c' = sent h c @ peek (src_bytes h src) 0 (nat len))"
proof (cases "is_udp c")
  case True
  then show ?thesis using add_iov_udp_sent [OF ok c True len, of src 0] by (simp add: add_iov_def)
next
  case False
  obtain c1 where c1: "ensure_iov_space ok (if length (last (msglist c)) = IOV_MAX then snd (add_msghdr ok c) else c) = (True, c1)"
      "out_ok c1" "\<forall>h. sent h c1 = sent h c" "rest_of c1 = rest_of c" "length (last (msglist c1)) < IOV_MAX"
    using room_ok [OF ok c] False by auto
  have t: "\<not> is_udp c1" using rest_ofD(2) [OF c1(4)] False by simp
  let ?c = "push_iov \<lparr>iov_base = src, iov_off = 0, iov_len = len\<rparr> c1"
  have "add_iov ok src len c = Some (True, ?c)" using False c1(1) by (simp add: add_iov_def Let_def)
  then show ?thesis using push_sent [OF c1(2), of "\<lparr>iov_base = src, iov_off = 0, iov_len = len\<rparr>"] c1 len t by (simp add: iov_bytes_def)
qed

end
