(* ===== verification/Tokenize.thy ===== *)
theory Tokenize
  imports Util
begin

text \<open>
  The tokenizer of the text protocol (\<open>memcached.c\<close>). A token is the zero-terminated string its pointer leads to
  after the tokenizer replaced the space behind it (\<open>None\<close> is \<open>NULL\<close>), with its length. The command is given
  without the zero that ends it.
\<close>

section \<open>The tokenizer\<close>

record token_t =
  tok_value :: "byte list option"
  tok_length :: nat

abbreviation (input) MAX_TOKENS :: nat where "MAX_TOKENS \<equiv> 8"
abbreviation (input) KEY_MAX_LENGTH :: nat where "KEY_MAX_LENGTH \<equiv> 250"

text \<open>The loop: what \<open>e\<close> has still to pass, the bytes from \<open>s\<close> to \<open>e\<close>, the tokens so far. The result has the bytes from \<open>s\<close> to \<open>e\<close>, and the rest at \<open>e\<close>.\<close>

fun tokenize_loop :: "nat \<Rightarrow> byte list \<Rightarrow> byte list \<Rightarrow> token_t list \<Rightarrow> token_t list \<times> byte list \<times> byte list" where
  "tokenize_loop mx [] cur ts = (ts, cur, [])"
| "tokenize_loop mx (b # rest) cur ts =
     (if b = SP then
        if cur \<noteq> [] then
          let ts = ts @ [\<lparr>tok_value = Some cur, tok_length = length cur\<rparr>] in
          if length ts = mx - 1 then (ts, [], rest) else tokenize_loop mx rest [] ts
        else tokenize_loop mx rest [] ts
      else tokenize_loop mx rest (cur @ [b]) ts)"

definition tokenize_command :: "byte list \<Rightarrow> nat \<Rightarrow> token_t list" where
  "tokenize_command command max_tokens =
     (let (ts, cur, rest) = tokenize_loop max_tokens command [] [];
          ts = (if cur \<noteq> [] then ts @ [\<lparr>tok_value = Some cur, tok_length = length cur\<rparr>] else ts)
      in ts @ [\<lparr>tok_value = (if rest = [] then None else Some rest), tok_length = 0\<rparr>])"

section \<open>What the tokens are\<close>

text \<open>The words of a line, and how they come in groups.\<close>

fun words_from :: "byte list \<Rightarrow> byte list \<Rightarrow> byte list list" where
  "words_from cur [] = (if cur = [] then [] else [cur])"
| "words_from cur (b # bs) = (if b = SP then (if cur = [] then words_from [] bs else cur # words_from [] bs) else words_from (cur @ [b]) bs)"

definition line_words :: "byte list \<Rightarrow> byte list list" where
  "line_words = words_from []"

definition word_token :: "byte list \<Rightarrow> token_t" where
  "word_token w = \<lparr>tok_value = Some w, tok_length = length w\<rparr>"

definition rest_token :: "byte list \<Rightarrow> token_t" where
  "rest_token r = \<lparr>tok_value = (if r = [] then None else Some r), tok_length = 0\<rparr>"

definition split_words :: "nat \<Rightarrow> nat \<Rightarrow> byte list list \<Rightarrow> nat \<Rightarrow> byte list list \<Rightarrow> byte list \<Rightarrow> byte list \<Rightarrow> bool" where
  "split_words mx n words len ws cur rest \<longleftrightarrow> words = ws @ (if cur = [] then [] else [cur]) @ line_words rest \<and>
     n + length ws \<le> mx - 1 \<and> (rest \<noteq> [] \<longrightarrow> cur = [] \<and> n + length ws = mx - 1) \<and> (cur \<noteq> [] \<longrightarrow> n + length ws < mx - 1) \<and>
     (rest \<noteq> [] \<longrightarrow> length rest < len)"

lemma split_words_len: "split_words mx n words len ws cur rest \<Longrightarrow> len \<le> len' \<Longrightarrow> split_words mx n words len' ws cur rest"
  by (auto simp: split_words_def)

lemma split_words_Cons: "split_words mx (Suc n) words len ws cur rest \<Longrightarrow> split_words mx n (w # words) (Suc len) (w # ws) cur rest"
  by (auto simp: split_words_def)

lemma tokenize_loop_words:
  "length ts < mx - 1 \<Longrightarrow> \<exists>ws cur' rest. tokenize_loop mx bs cur ts = (ts @ map word_token ws, cur', rest) \<and>
    split_words mx (length ts) (words_from cur bs) (length bs) ws cur' rest"
proof (induction bs arbitrary: cur ts)
  case Nil
  then show ?case by (simp add: line_words_def split_words_def)
next
  case (Cons b bs)
  consider "b \<noteq> SP" | "b = SP" "cur = []" | "b = SP" "cur \<noteq> []" by blast
  then show ?case
  proof cases
    case 1
    then show ?thesis using Cons.IH [OF Cons.prems, of "cur @ [b]"] split_words_len [of mx _ _ "length bs" _ _ _ "length (b # bs)"] by simp blast
  next
    case 2
    then show ?thesis using Cons.IH [OF Cons.prems, of "[]"] split_words_len [of mx _ _ "length bs" _ _ _ "length (b # bs)"] by simp blast
  next
    case 3
    show ?thesis
    proof (cases "length ts + 1 = mx - 1")
      case True
      then show ?thesis using 3
        by (intro exI [of _ "[cur]"] exI [of _ "[]"] exI [of _ bs]) (simp add: word_token_def line_words_def split_words_def)
    next
      case False
      then have "length (ts @ [word_token cur]) < mx - 1" using Cons.prems by simp
      from Cons.IH [OF this, of "[]"] obtain ws cur' rest where
        "tokenize_loop mx bs [] (ts @ [word_token cur]) = ((ts @ [word_token cur]) @ map word_token ws, cur', rest)"
        "split_words mx (Suc (length ts)) (words_from [] bs) (length bs) ws cur' rest"
        by auto
      then show ?thesis using 3 False split_words_Cons
        by (intro exI [of _ "cur # ws"] exI [of _ cur'] exI [of _ rest]) (simp add: word_token_def)
    qed
  qed
qed

text \<open>
  The tokens are the first words of the line, at most \<open>max_tokens - 1\<close> of them, and a last token that leads to the rest of the line; so the
  array of \<open>max_tokens\<close> tokens never overflows, and repeated calls on the rest deliver all words.
\<close>

lemma tokenize_words:
  assumes "1 < mx"
  shows "\<exists>ws rest. tokenize_command command mx = map word_token ws @ [rest_token rest] \<and> line_words command = ws @ line_words rest \<and>
    length ws \<le> mx - 1 \<and> (rest \<noteq> [] \<longrightarrow> length ws = mx - 1 \<and> length rest < length command)"
proof -
  obtain ws cur rest where t: "tokenize_loop mx command [] [] = (map word_token ws, cur, rest)"
      "line_words command = ws @ (if cur = [] then [] else [cur]) @ line_words rest"
      "length ws \<le> mx - 1" "rest \<noteq> [] \<longrightarrow> cur = [] \<and> length ws = mx - 1" "cur \<noteq> [] \<longrightarrow> length ws < mx - 1" "rest \<noteq> [] \<longrightarrow> length rest < length command"
    using tokenize_loop_words [of "[]" mx command "[]"] assms by (auto simp: line_words_def split_words_def)
  show ?thesis
  proof (cases "cur = []")
    case True
    then show ?thesis using t by (intro exI [of _ ws] exI [of _ rest]) (auto simp: tokenize_command_def rest_token_def)
  next
    case False
    then show ?thesis using t by (intro exI [of _ "ws @ [cur]"] exI [of _ rest]) (auto simp: tokenize_command_def rest_token_def word_token_def)
  qed
qed

lemma words_good: "w \<in> set (words_from cur bs) \<Longrightarrow> SP \<notin> set cur \<Longrightarrow> w \<noteq> [] \<and> SP \<notin> set w \<and> set w \<subseteq> set cur \<union> set bs"
proof (induction cur bs rule: words_from.induct)
  case (2 cur b bs)
  then show ?case by (cases "b = SP"; cases "cur = []") (auto split: if_splits)
qed (auto split: if_splits)

lemma line_words_good: "w \<in> set (line_words bs) \<Longrightarrow> w \<noteq> [] \<and> SP \<notin> set w \<and> set w \<subseteq> set bs"
  using words_good [of w "[]" bs] by (auto simp: line_words_def)

text \<open>A line that is put together from words, with any number of spaces between them, has these words.\<close>

lemma words_from_word: "SP \<notin> set w \<Longrightarrow> words_from cur (w @ bs) = words_from (cur @ w) bs"
  by (induction w arbitrary: cur) auto

lemma line_words_simps [simp]: "line_words [] = []" "line_words (SP # bs) = line_words bs"
  by (simp_all add: line_words_def)

lemma line_words_Cons: "SP \<notin> set w \<Longrightarrow> w \<noteq> [] \<Longrightarrow> line_words (w @ SP # bs) = w # line_words bs"
    "SP \<notin> set w \<Longrightarrow> w \<noteq> [] \<Longrightarrow> line_words w = [w]"
  using words_from_word [of w "[]" "SP # bs"] words_from_word [of w "[]" "[]"] by (simp_all add: line_words_def)

end
