(* ===== verification/Text_Get.thy ===== *)
theory Text_Get
  imports Conn Tokenize Prefix_Stats
begin

text \<open>
  The retrieval commands of the text protocol (\<open>memcached.c\<close>: get, gets, gat, gats), from the tokens of the
  command line to the messages of the reply. Items are not copied: the reply points into them, the connection
  holds a reference on each and gives it back when the reply is written.
\<close>

section \<open>Server and environment\<close>

text \<open>The globals that commands use besides the cache.\<close>

record server =
  srv_mc :: mc
  srv_settings :: settings
  srv_prefixes :: prefix_table
  detail_enabled :: bool
  prefix_delimiter :: byte
  flush_enabled :: bool
  process_started :: int

text \<open>
  What a command gets from its surroundings: the hash function, the number of the worker thread, the answers of \<open>realloc\<close> and \<open>malloc\<close> to the
  connection, those to the allocation of items, and the memory behind a value.
\<close>

record cenv =
  e_hash :: "byte list \<Rightarrow> u32"
  e_thread :: nat
  e_ok :: "nat \<Rightarrow> bool"
  e_blk :: "nat \<Rightarrow> addr"
  e_os :: os
  e_oss :: "nat \<Rightarrow> os"
  e_beyond :: "addr \<Rightarrow> byte list"

definition REALTIME_MAXDELTA :: int where "REALTIME_MAXDELTA = 60 * 60 * 24 * 30"

definition realtime :: "server \<Rightarrow> int \<Rightarrow> u32" where
  "realtime srv x =
     (if x = 0 then 0
      else if x > REALTIME_MAXDELTA then
        if x \<le> process_started srv then 1 else word_of_int (x - process_started srv)
      else word_of_int (x + uint (current_time (srv_mc srv))))"

text \<open>The statistics of prefixes, if they are switched on; their two allocations are requests of the connection.\<close>

definition record_prefix ::
  "(byte \<Rightarrow> (byte list \<Rightarrow> u32) \<Rightarrow> bool \<Rightarrow> bool \<Rightarrow> prefix_table \<Rightarrow> prefix_table) \<Rightarrow> cenv \<Rightarrow> conn \<times> server \<Rightarrow> conn \<times> server" where
  "record_prefix rec e cs =
     (let (c, srv) = cs in
      if detail_enabled srv
      then (c\<lparr>asked := asked c + 2\<rparr>,
            srv\<lparr>srv_prefixes := rec (prefix_delimiter srv) (e_hash e) (e_ok e (asked c)) (e_ok e (asked c + 1)) (srv_prefixes srv)\<rparr>)
      else (c, srv))"

section \<open>Building the reply\<close>

definition make_ascii_get_suffix :: "item \<Rightarrow> bool \<Rightarrow> int \<Rightarrow> byte list" where
  "make_ascii_get_suffix it return_cas nb =
     (let p = [SP];
          p = (if has_flag it ITEM_CFLAGS then itoa_u32 (cflags it) p else p @ [of_char (CHR ''0'')]);
          p = itoa_u32 (word_of_int (nb - 2)) (p @ [SP]);
          p = (if return_cas then itoa_u64 (ITEM_get_cas it) (p @ [SP]) else p)
      in p @ [CR, LF])"

definition ascii_get_expand_ilist :: "(nat \<Rightarrow> bool) \<Rightarrow> nat \<Rightarrow> conn \<Rightarrow> bool \<times> conn" where
  "ascii_get_expand_ilist ok i c =
     (if i \<ge> isize c then let (r, c) = ask ok c in (r, if r then c\<lparr>isize := isize c * 2\<rparr> else c) else (True, c))"

text \<open>The buffer for a suffix, \<open>NULL\<close> when there is none; the pool of buffers is the thread's.\<close>

definition ascii_get_suffix_buf :: "cenv \<Rightarrow> nat \<Rightarrow> conn \<Rightarrow> addr \<times> conn" where
  "ascii_get_suffix_buf e i c =
     (let (r, c) = (if i \<ge> suffixsize c
          then let (r, c) = ask (e_ok e) c in (r, if r then c\<lparr>suffixsize := suffixsize c * 2\<rparr> else c) else (True, c))
      in if \<not> r then (NULL, c)
         else
           let malloced = (if e_ok e (asked c) then e_blk e (asked c) else NULL);
               (obj, pl, _) = do_cache_alloc True malloced True (suffix_cache c, \<lambda>_. 0);
               c = c\<lparr>suffix_cache := pl, asked := asked c + 1\<rparr>
           in if obj = NULL
              then (NULL, out_string (e_ok e) (bytes ''SERVER_ERROR out of memory making CAS suffix'')
                      (upd_tstats (\<lambda>s. s\<lparr>malloc_fails := malloc_fails s + 1\<rparr>) c))
              else (obj, c))"

fun release_all :: "addr list \<Rightarrow> mc \<Rightarrow> mc option" where
  "release_all [] s = Some s"
| "release_all (it # its) s = do { s \<leftarrow> item_remove it s; release_all its s }"

fun free_suffixes :: "(nat \<Rightarrow> bool) \<Rightarrow> addr list \<Rightarrow> conn \<Rightarrow> conn" where
  "free_suffixes ok [] c = c"
| "free_suffixes ok (b # bs) c =
     free_suffixes ok bs (c\<lparr>suffix_cache := snd (do_cache_free True (ok (asked c)) b (suffix_cache c, \<lambda>_. 0)), asked := asked c + 1\<rparr>)"

definition conn_release_items :: "cenv \<Rightarrow> conn \<times> server \<Rightarrow> (conn \<times> server) option" where
  "conn_release_items e cs =
     (let (c, srv) = cs in do {
        s \<leftarrow> (if c_item c \<noteq> NULL then item_remove (c_item c) (srv_mc srv) else Some (srv_mc srv));
        s \<leftarrow> release_all (ilist c) s;
        let c = free_suffixes (e_ok e) (suffixlist c) (c\<lparr>c_item := NULL\<rparr>);
        Some (c\<lparr>ilist := [], suffixlist := []\<rparr>, srv\<lparr>srv_mc := s\<rparr>)
      })"

section \<open>The command\<close>

text \<open>The variables of the loop: the items and suffix buffers so far are \<open>i\<close> and \<open>si\<close> in number.\<close>

record get_vars =
  gv_conn :: conn
  gv_srv :: server
  gv_items :: "addr list"
  gv_suffixes :: "addr list"
  fail_length :: bool

text \<open>The four elements of a hit; the result of adding the data of an item that is not chunked is ignored.\<close>

definition add_value :: "cenv \<Rightarrow> addr \<Rightarrow> byte list \<Rightarrow> heap \<Rightarrow> conn \<Rightarrow> (bool \<times> conn) option" where
  "add_value e it suffix h c =
     (let ok = e_ok e; x = h it in do {
        (r, c) \<leftarrow> add_iov ok (Text (bytes ''VALUE '')) 6 c;
        if \<not> r then Some (False, c) else do {
          (r, c) \<leftarrow> add_iov ok (Key_of it) (int (length (key x))) c;
          if \<not> r then Some (False, c) else do {
            (r, c) \<leftarrow> add_iov ok (Text suffix) (int (length suffix)) c;
            if \<not> r then Some (False, c)
            else if \<not> has_flag x ITEM_CHUNKED then do { (_, c) \<leftarrow> add_iov ok (Data_of it) (nbytes x) c; Some (True, c) }
            else add_chunked_item_iovs ok h (ITEM_schunk h it) (nbytes x) c
          }
        }
      })"

definition get_stats :: "bool \<Rightarrow> addr \<Rightarrow> heap \<Rightarrow> thread_stats \<Rightarrow> thread_stats" where
  "get_stats should_touch it h s =
     (if it \<noteq> NULL then
        if should_touch
        then s\<lparr>touch_cmds := touch_cmds s + 1, touch_hits := (touch_hits s)(ITEM_clsid (h it) := touch_hits s (ITEM_clsid (h it)) + 1)\<rparr>
        else s\<lparr>lru_hits := (lru_hits s)(slabs_clsid (h it) := lru_hits s (slabs_clsid (h it)) + 1), get_cmds := get_cmds s + 1\<rparr>
      else
        if should_touch then s\<lparr>touch_cmds := touch_cmds s + 1, touch_misses := touch_misses s + 1\<rparr>
        else s\<lparr>get_misses := get_misses s + 1, get_cmds := get_cmds s + 1\<rparr>)"

text \<open>A hit that cannot be sent: its reference is given back and the loop stops.\<close>

definition get_give_up :: "addr \<Rightarrow> conn \<Rightarrow> get_vars \<Rightarrow> (bool \<times> get_vars) option" where
  "get_give_up it c v =
     do { s \<leftarrow> item_remove it (srv_mc (gv_srv v));
          Some (False, v\<lparr>gv_conn := c, gv_srv := (gv_srv v)\<lparr>srv_mc := s\<rparr>\<rparr>) }"

definition get_hit :: "cenv \<Rightarrow> bool \<Rightarrow> bool \<Rightarrow> addr \<Rightarrow> get_vars \<Rightarrow> (bool \<times> get_vars) option" where
  "get_hit e return_cas should_touch it v =
     (let h = m_heap (srv_mc (gv_srv v));
          (r, c) = ascii_get_expand_ilist (e_ok e) (length (gv_items v)) (gv_conn v)
      in if \<not> r then get_give_up it c v
         else
           let (suffix, c) = ascii_get_suffix_buf e (length (gv_suffixes v)) c
           in if suffix = NULL then get_give_up it c v
              else do {
                let v = v\<lparr>gv_suffixes := gv_suffixes v @ [suffix]\<rparr>;
                (r, c) \<leftarrow> add_value e it (make_ascii_get_suffix (h it) return_cas (nbytes (h it))) h c;
                if \<not> r then get_give_up it c v
                else Some (True, v\<lparr>gv_conn := upd_tstats (get_stats should_touch it h) c, gv_items := gv_items v @ [it]\<rparr>)
              })"

text \<open>One key; the first component says whether the loop goes on.\<close>

definition get_key :: "cenv \<Rightarrow> bool \<Rightarrow> bool \<Rightarrow> u32 \<Rightarrow> byte list \<Rightarrow> get_vars \<Rightarrow> (bool \<times> get_vars) option" where
  "get_key e return_cas should_touch etime k v =
     (if length k > KEY_MAX_LENGTH then Some (False, v\<lparr>fail_length := True\<rparr>)
      else do {
        (it, s) \<leftarrow> limited_get (srv_settings (gv_srv v)) (e_hash e) (e_thread e) k etime should_touch True (srv_mc (gv_srv v));
        let (c, srv) = record_prefix (\<lambda>d hash a b. stats_prefix_record_get d hash a b k (it \<noteq> NULL)) e (gv_conn v, (gv_srv v)\<lparr>srv_mc := s\<rparr>);
        let v = v\<lparr>gv_conn := c, gv_srv := srv\<rparr>;
        if it \<noteq> NULL then get_hit e return_cas should_touch it v
        else Some (True, v\<lparr>gv_conn := upd_tstats (get_stats should_touch NULL (m_heap s)) c\<rparr>)
      })"

text \<open>
  The loop over the tokens. \<open>key_token->value\<close> when it ends is the second component: that of the key at which it stopped,
  or that of the last token.
\<close>

fun get_tokens :: "cenv \<Rightarrow> bool \<Rightarrow> bool \<Rightarrow> u32 \<Rightarrow> token_t list \<Rightarrow> get_vars \<Rightarrow> (bool \<times> byte list option \<times> get_vars) option" where
  "get_tokens e rc tch etime [] v = Some (True, None, v)"
| "get_tokens e rc tch etime (tk # tks) v =
     (if tok_length tk = 0 then Some (True, tok_value tk, v)
      else do {
        (r, v) \<leftarrow> get_key e rc tch etime (take (tok_length tk) (the (tok_value tk))) v;
        if r then get_tokens e rc tch etime tks v else Some (False, tok_value tk, v)
      })"

partial_function (option) get_groups ::
  "cenv \<Rightarrow> bool \<Rightarrow> bool \<Rightarrow> u32 \<Rightarrow> token_t list \<Rightarrow> get_vars \<Rightarrow> (byte list option \<times> get_vars) option" where
  [code]: "get_groups e rc tch etime tks v =
     do {
       (r, kt, v) \<leftarrow> get_tokens e rc tch etime tks v;
       if \<not> r then Some (kt, v)
       else case kt of
         None \<Rightarrow> Some (None, v)
       | Some rest \<Rightarrow>
           let tks = tokenize_command rest MAX_TOKENS in
           if tok_value (hd tks) = None then Some (None, v) else get_groups e rc tch etime tks v
     }"

definition get_stop :: "cenv \<Rightarrow> byte list option \<Rightarrow> get_vars \<Rightarrow> (conn \<times> server) option" where
  "get_stop e kt v =
     (let ok = e_ok e; c = (gv_conn v)\<lparr>ilist := gv_items v, suffixlist := gv_suffixes v\<rparr>; srv = gv_srv v in do {
        (r, c) \<leftarrow> (if kt \<noteq> None then Some (False, c)
          else do {
            (r, c) \<leftarrow> add_iov ok (Text (bytes ''END'' @ [CR, LF])) 5 c;
            Some (if \<not> r then (False, c) else if is_udp c then build_udp_headers ok c else (True, c)) });
        if r then Some ((conn_set_state conn_mwrite c)\<lparr>msgcurr := 0\<rparr>, srv)
        else conn_release_items e (out_string ok
               (if fail_length v then bytes ''CLIENT_ERROR bad command line format''
                else bytes ''SERVER_ERROR out of memory writing get response'') c, srv)
      })"

definition process_get_command :: "cenv \<Rightarrow> token_t list \<Rightarrow> bool \<Rightarrow> bool \<Rightarrow> conn \<times> server \<Rightarrow> (conn \<times> server) option" where
  "process_get_command e tks return_cas should_touch cs =
     (let (c, srv) = cs;
          v = \<lparr>gv_conn = c, gv_srv = srv, gv_items = [], gv_suffixes = [], fail_length = False\<rparr>
      in if should_touch then
           case safe_strtol (the (tok_value (tks ! 1))) of
             None \<Rightarrow> Some (out_string (e_ok e) (bytes ''CLIENT_ERROR invalid exptime argument'') c, srv)
           | Some x \<Rightarrow> do { (kt, v) \<leftarrow> get_groups e return_cas True (realtime srv (sint x)) (drop 2 tks) v; get_stop e kt v }
         else do { (kt, v) \<leftarrow> get_groups e return_cas False 0 (drop 1 tks) v; get_stop e kt v })"

end
