(* ===== verification/Text_Get_Ok.thy ===== *)
theory Text_Get_Ok
  imports Text_Get Cache_History
begin

unbundle bit_operations_syntax

text \<open>
  What a retrieval command replies. A lookup changes the age of no other item, so all keys of a command are looked up as of
  its start; each hit adds its header line, its key and its value to the reply, and the connection keeps a reference on it.
\<close>

section \<open>Lookups and the age of items\<close>

definition dates :: "item \<Rightarrow> u32 \<times> u32 \<times> u64" where
  "dates x = (exptime x, time x, ITEM_get_cas x)"

definition dated :: "mc \<Rightarrow> mc \<Rightarrow> addr \<Rightarrow> bool" where
  "dated s s' it \<longleftrightarrow> current_time s' = current_time s \<and> (\<forall>x. x \<noteq> it \<longrightarrow> dates (m_heap s' x) = dates (m_heap s x))"

lemma dated_refl [simp]: "dated s s it"
  by (simp add: dated_def)

lemma dated_trans: "dated s s' it \<Longrightarrow> dated s' s'' it \<Longrightarrow> dated s s'' it"
  by (simp add: dated_def)

lemma dated_upd [simp]: "dated s (m_upd it f s) it"
  by (simp add: dated_def upd_apply)

lemma dated_links: "only_links (m_heap s) (m_heap s') \<Longrightarrow> current_time s' = current_time s \<Longrightarrow> dated s s' it"
  by (simp add: dated_def dates_def ITEM_get_cas_def has_flag_def only_links_fields)

lemma dated_hnext: "only_hnext (m_heap s) (m_heap s') \<Longrightarrow> current_time s' = current_time s \<Longrightarrow> dated s s' it"
  by (simp add: dated_def dates_def ITEM_get_cas_def has_flag_def only_hnext_fields)

lemma dead_dated: "dated s s' it \<Longrightarrow> x \<noteq> it \<Longrightarrow> item_dead st (current_time s') (m_heap s' x) = item_dead st (current_time s) (m_heap s x)"
  by (simp add: dated_def dates_def item_dead_def item_is_flushed_def)

lemma delete_hnext: "assoc_delete k hv (h, a) = Some (h', a') \<Longrightarrow> only_hnext h h'"
  unfolding assoc_delete_def set_position_def Let_def
  by (auto intro: only_hnext_trans [OF only_hnext_upd only_hnext_upd] split: option.splits if_splits position.splits)

lemma free_dated:
  assumes "item_free it s = Some s'" "\<not> has_flag (m_heap s it) ITEM_CHUNKED"
  shows "dated s s' it"
  using assms
  by (auto simp: item_free_def do_slabs_free_def push_free_def Let_def dated_def dates_def ITEM_get_cas_def has_flag_def upd_apply
      split: if_splits bind_splits)

lemma remove_dated: "do_item_remove it s = Some s' \<Longrightarrow> \<not> has_flag (m_heap s it) ITEM_CHUNKED \<Longrightarrow> dated s s' it"
  using free_dated [of it "snd (refcount_decr it s)" s'] dated_trans [OF dated_upd, of it _ s s']
  by (auto simp: do_item_remove_def refcount_decr_def has_flag_def upd_apply split: if_splits)

lemma remove_plain: "do_item_remove it s = Some s' \<Longrightarrow> \<not> has_flag (m_heap s it) ITEM_CHUNKED \<Longrightarrow> \<not> has_flag (m_heap s' it) ITEM_CHUNKED"
  by (auto simp: do_item_remove_def refcount_decr_def item_free_def do_slabs_free_def push_free_def Let_def has_flag_def upd_apply
      split: if_splits bind_splits)

lemma unlink_dated:
  assumes "do_item_unlink it hv s = Some s'" "\<not> has_flag (m_heap s it) ITEM_CHUNKED"
  shows "dated s s' it \<and> \<not> has_flag (m_heap s' it) ITEM_CHUNKED"
proof (cases "has_flag (m_heap s it) ITEM_LINKED")
  case False
  then show ?thesis using assms by (simp add: do_item_unlink_def)
next
  case True
  let ?s1 = "m_upd it (clear_flag ITEM_LINKED) s"
  let ?s2 = "item_stats_sizes_remove it (?s1\<lparr>curr_bytes := curr_bytes ?s1 - ITEM_ntotal (m_heap ?s1 it), curr_items := curr_items ?s1 - 1\<rparr>)"
  have s2: "m_heap ?s2 = m_heap ?s1" "current_time ?s2 = current_time s"
    by (simp_all add: item_stats_sizes_remove_def item_stats_sizes_change_def Let_def split: option.splits)
  obtain s3 where s3: "do_assoc_delete (key (m_heap ?s2 it)) hv ?s2 = Some s3" "do_item_remove it (do_item_unlink_q it s3) = Some s'"
    using assms(1) [unfolded do_item_unlink_def Let_def if_P [OF True] bind_eq_Some_conv] by blast
  have h3: "only_hnext (m_heap ?s2) (m_heap s3)" "current_time s3 = current_time ?s2"
    using s3(1) delete_hnext by (auto simp: do_assoc_delete_def split: bind_splits)
  let ?s4 = "do_item_unlink_q it s3"
  have h4: "only_links (m_heap s3) (m_heap ?s4)" "current_time ?s4 = current_time s3"
    using cut_q_only [of s3 it] by (simp_all add: do_item_unlink_q_def cut_q_def Let_def)
  have "it_flags (m_heap ?s4 it) = it_flags (clear_flag ITEM_LINKED (m_heap s it))"
    using only_links_fields(6) [OF h4(1), of it] only_hnext_fields [OF h3(1), of it] s2(1) by (simp add: upd_apply)
  then have "has_flag (m_heap ?s4 it) ITEM_CHUNKED = has_flag (clear_flag ITEM_LINKED (m_heap s it)) ITEM_CHUNKED" by (simp only: has_flag_def)
  then have "\<not> has_flag (m_heap ?s4 it) ITEM_CHUNKED" using assms(2) by (simp add: has_flag_clear)
  then have "dated ?s4 s' it" "\<not> has_flag (m_heap s' it) ITEM_CHUNKED" using remove_dated [OF s3(2)] remove_plain [OF s3(2)] by auto
  moreover have "dated s ?s2 it" using s2 by (simp add: dated_def upd_apply)
  ultimately show ?thesis using dated_trans dated_hnext [OF h3, of it] dated_links [OF h4, of it] by blast
qed

lemma incr_dated: "dated s (snd (refcount_incr it s)) it"
  by (simp add: refcount_incr_def)

lemma update_dated: "dated s (do_item_update st it s) it"
proof -
  have q: "dated s (do_item_unlink_q it s) it" "dated s (do_item_link_q it s) it" "dated s (item_link_q_warm it s) it" for s
  proof -
    show "dated s (do_item_unlink_q it s) it"
      using cut_q_only [of s it] by (intro dated_links) (simp_all add: do_item_unlink_q_def cut_q_def Let_def)
    show l: "dated s (do_item_link_q it s) it" using link_q_only [of s it] by (intro dated_links) (simp_all add: do_item_link_q_def Let_def)
    show "dated s (item_link_q_warm it s) it" using l by (simp add: item_link_q_warm_def Let_def dated_def upd_stats_def)
  qed
  have u: "dated s s1 it \<Longrightarrow> dated s (m_upd it f s1) it" for f s1 using dated_trans dated_upd by blast
  have a: "dated s s1 it \<Longrightarrow> dated s (do_item_unlink_q it s1) it" "dated s s1 it \<Longrightarrow> dated s (do_item_link_q it s1) it"
    "dated s s1 it \<Longrightarrow> dated s (item_link_q_warm it s1) it" for s1 using dated_trans q by blast+
  show ?thesis unfolding do_item_update_def Let_def by (simp add: u a)
qed

lemma async_dated: "dated s (snd (lru_bump_async t it hv s)) it"
  unfolding lru_bump_async_def Let_def refcount_incr_def refcount_decr_def
  by (auto simp: dated_def upd_apply split: option.splits prod.splits)

lemma bump_dated: "dated s (do_item_bump st t it hv s) it"
proof -
  have u: "dated s s1 it \<Longrightarrow> dated s (m_upd it f s1) it" for f s1 using dated_trans dated_upd by blast
  have a: "dated s s1 it \<Longrightarrow> lru_bump_async t it hv s1 = (b, s2) \<Longrightarrow> dated s s2 it" for s1 b s2
    using dated_trans [of s s1 it s2] async_dated [of s1 t it hv] by simp
  have "dated s (do_item_update st it (m_upd it (set_flag ITEM_FETCHED) s)) it" using dated_trans dated_upd update_dated by blast
  then show ?thesis unfolding do_item_bump_def Let_def by (auto simp: u split: prod.splits dest: a [OF dated_upd])
qed

lemma bump_counts:
  assumes inv: "cache_inv st hash s M Q R" and it: "it \<in> held M (all_refs s R)" and r: "all_refs s R it < 65000"
    and t: "t < length (bump_bufs s)"
  shows "bump_count (do_item_bump st t it hv s) x \<le> bump_count s x + (if x = it then 1 else 0)"
proof -
  let ?A = "set_flag ITEM_ACTIVE" and ?F = "set_flag ITEM_FETCHED"
  have b: "bump_count (m_upd it f s') = bump_count s'" for f s' using bump_same [of "m_upd it f s'" s'] by simp
  have ar: "all_refs (m_upd it f s) R = all_refs s R" for f using bump_same [of "m_upd it f s" s] by simp
  note A = cache_harmless [OF inv it, of ?A, simplified]
  note F = cache_harmless [OF inv it, of ?F, simplified]
  have itA: "it \<in> held M (all_refs (m_upd it f s) R)" for f using it by (simp add: ar)
  obtain ok s1 where 1: "lru_bump_async t it hv (m_upd it ?A s) = (ok, s1)"
      "\<forall>x. bump_count s1 x \<le> bump_count (m_upd it ?A s) x + (if x = it then 1 else 0)"
    using cache_bump_async [OF A(1) itA, of t hv] r t by (auto simp: ar)
  have "bump_count (do_item_update st it (m_upd it ?F s)) = bump_count s"
    using keeps_bump [OF cache_update(2) [OF F(1) itA]] b by simp
  moreover have "bump_count s1 x \<le> bump_count s x + (if x = it then 1 else 0)" using spec [OF 1(2), of x] by (simp only: b)
  ultimately show ?thesis using 1(1) by (cases "x = it") (simp_all add: do_item_bump_def Let_def b)
qed

lemma dead_dated_get:
  assumes "do_item_unlink x hv (snd (refcount_incr x s)) = Some s2" "do_item_remove x s2 = Some s3" "\<not> has_flag (m_heap s x) ITEM_CHUNKED"
  shows "dated s s3 x"
proof -
  have "\<not> has_flag (m_heap (snd (refcount_incr x s)) x) ITEM_CHUNKED" using assms(3) by (simp add: refcount_incr_def has_flag_def upd_apply)
  note u = unlink_dated [OF assms(1) this]
  show ?thesis using dated_trans [OF incr_dated] dated_trans u remove_dated [OF assms(2)] by blast
qed

text \<open>A lookup with few references on the items finds every live item.\<close>

lemma get_few:
  assumes "\<forall>x. all_refs s R x < 59000"
  shows "few_refs (all_refs s R)" "all_refs s R x < 65000" "refs_ok s R"
proof -
  have "all_refs s R y < n" if "59000 \<le> n" for y n using less_le_trans [OF spec [OF assms] that] .
  then show "few_refs (all_refs s R)" "all_refs s R x < 65000" "refs_ok s R" by (simp_all add: few_refs_def refs_ok_def)
qed

lemma get_dated:
  assumes ok: "cache_ok st hash s M R" and r: "\<forall>x. all_refs s R x < 59000" and t: "t < length (bump_bufs s)"
    and get: "do_item_get st t k (hash k) True s = Some (it, s')"
  shows "dated s s' (addr_of (M k)) \<and> (\<forall>x. bump_count s' x \<le> bump_count s x + 1)"
proof -
  obtain Q where Q: "cache_inv st hash s M Q R" using ok by (auto simp: cache_ok_def)
  show ?thesis
  proof (cases "M k")
    case None
    then show ?thesis using cache_get_none [OF Q None] get by (simp add: addr_of_def)
  next
    case (Some x)
    let ?s1 = "snd (refcount_incr x s)"
    have x: "x \<in> held M (all_refs s R)" using mapped_held [of M k x, OF Some] by simp
    have nc: "\<not> has_flag (m_heap s x) ITEM_CHUNKED" using Q x by (auto simp: cache_inv_def item_ok_def dest: store_invD(6))
    show ?thesis
    proof (cases "item_dead st (current_time s) (m_heap s x)")
      case True
      obtain s2 s3 where s3: "do_item_unlink x (hash k) ?s1 = Some s2" "do_item_remove x s2 = Some s3"
          "m_heap s' = m_heap s3" "current_time s' = current_time s3"
        using get True unfolding cache_get_some [where x = x and k = k, OF Q Some] Let_def
        by (auto simp: item_dead_def split: if_splits bind_splits)
      have "bump_bufs s' = bump_bufs s"
        using cache_get_dead [where x = x and k = k, OF Q Some few_small [OF get_few(1) [OF r]] True, of t True] get by auto
      then show ?thesis using bump_same [of s' s] dead_dated_get [OF s3(1,2) nc] s3(3,4) Some by (simp add: dated_def addr_of_def)
    next
      case False
      note inc = cache_incr [OF Q x get_few(2) [OF r]]
      have b1: "bump_count ?s1 = bump_count s" "length (bump_bufs ?s1) = length (bump_bufs s)"
        using keeps_bump [OF inc(2)] inc(2) by (auto simp: keeps_def)
      have s': "s' = do_item_bump st t x (hash k) ?s1"
        using get False unfolding cache_get_some [where x = x and k = k, OF Q Some] Let_def by (auto simp: item_dead_def split: if_splits)
      have a1: "all_refs ?s1 (R(x := R x + 1)) x = all_refs s R x + 1" using b1(1) by (simp add: all_refs_def)
      have "x \<in> held M (all_refs ?s1 (R(x := R x + 1)))" using mapped_held [of M k x, OF Some] by simp
      moreover have "all_refs ?s1 (R(x := R x + 1)) x < 65000" using spec [OF r, of x] by (simp only: a1)
      ultimately have "bump_count s' y \<le> bump_count s y + 1" for y
        using bump_counts [OF inc(1), of x t "hash k" y] t b1 unfolding s' by (auto split: if_splits)
      then show ?thesis using dated_trans [OF incr_dated bump_dated] Some by (auto simp: s' addr_of_def)
    qed
  qed
qed

lemma get_step:
  assumes ok: "cache_ok st hash s M R" and r: "\<forall>x. all_refs s R x < 59000" and t: "t < length (bump_bufs s)" and L: "L = live st s M k"
  shows "\<exists>s'. limited_get st hash t k etime False True s = Some (addr_of L, s') \<and> moved st hash s M R s' (M(k := L)) (add_ref (addr_of L) R) \<and>
    dated s s' (addr_of (M k)) \<and> (\<forall>x. bump_count s' x \<le> bump_count s x + 1)"
proof -
  obtain s' where s': "do_item_get st t k (hash k) True s = Some (addr_of L, s')" "moved st hash s M R s' (M(k := L)) (plus_ref L R)"
    using moved_get [OF ok get_few(1) [OF r] t, of k True] unfolding L by blast
  have pr: "plus_ref L R = add_ref (addr_of L) R"
    using live_nonnull [OF ok, of k] unfolding L by (cases "live st s M k") (auto simp: plus_ref_def add_ref_def addr_of_def)
  note d = get_dated [OF ok r t s'(1)]
  have "refcount (m_heap s' x) \<le> 60000" if x: "L = Some x" for x
  proof -
    obtain Q where i: "store_inv st hash s' (M(k := L)) Q (all_refs s' (plus_ref L R))" using cache_okD [OF moved_ok [OF s'(2)]] by blast
    have xr: "x \<in> ran (M(k := L))" "x \<in> held (M(k := L)) (all_refs s' (plus_ref L R))" using x by (auto simp: held_def ran_def)
    have "unat (refcount (m_heap s' x)) = 1 + (R x + 1 + bump_count s' x)"
      using store_invD(6) [OF i xr(2)] xr(1) x by (simp add: item_ok_def all_refs_def plus_ref_def)
    also have "\<dots> \<le> 3 + all_refs s R x" using spec [OF conjunct2 [OF d], of x] by (simp add: all_refs_def)
    also have "\<dots> \<le> 60000" using spec [OF r, of x] by simp
    finally show ?thesis by (simp add: word_le_nat_alt)
  qed
  then have "\<not> (addr_of L \<noteq> NULL \<and> refcount (m_heap s' (addr_of L)) > 60000)" by (cases L) (auto simp: addr_of_def not_less)
  then have "limited_get st hash t k etime False True s = Some (addr_of L, s')" using s'(1) unfolding limited_get_def item_get_def by auto
  then show ?thesis using s'(2) d unfolding pr by blast
qed

section \<open>One hit\<close>

text \<open>What the retrieval of keys leaves of a connection, besides its messages and lists.\<close>

definition cframe :: "conn \<Rightarrow> conn \<Rightarrow> bool" where
  "cframe c c' \<longleftrightarrow> c_transport c' = c_transport c \<and> noreply c' = noreply c \<and> c_item c' = c_item c \<and> request_id c' = request_id c \<and>
     hdrsize c' = hdrsize c \<and> rbuf c' = rbuf c \<and> wsize c' = wsize c \<and> ilist c' = ilist c \<and> suffixlist c' = suffixlist c"

lemma cframe_refl [simp]: "cframe c c"
  by (simp add: cframe_def)

lemma cframe_trans: "cframe c c' \<Longrightarrow> cframe c' c'' \<Longrightarrow> cframe c c''"
  by (simp add: cframe_def)

lemma cframe_rest: "rest_of c' = rest_of c \<Longrightarrow> cframe c c'"
  unfolding cframe_def by (intro conjI rest_ofD)

definition same_out :: "conn \<Rightarrow> conn \<Rightarrow> bool" where
  "same_out c c' \<longleftrightarrow> msglist c' = msglist c \<and> msgbytes c' = msgbytes c \<and> cframe c c'"

lemma same_outD: "same_out c c' \<Longrightarrow> out_ok c' = out_ok c" "same_out c c' \<Longrightarrow> sent h c' = sent h c" "same_out c c' \<Longrightarrow> cframe c c'"
  by (simp_all add: same_out_def out_ok_def msg_ok_def sent_def msg_body_def cframe_def)

lemma same_out_upd [simp]: "same_out c (upd_tstats f c)" "same_out c (c\<lparr>asked := n\<rparr>)"
  by (simp_all add: same_out_def cframe_def upd_tstats_def)

lemma pool_upd [simp]: "suffix_cache (upd_tstats f c) = suffix_cache c"
  by (simp add: upd_tstats_def)

definition pool_ok :: "conn \<Rightarrow> bool" where
  "pool_ok c \<longleftrightarrow> NULL \<notin> set (pool (suffix_cache c))"

lemma expand_ok: "\<forall>n. ok n \<Longrightarrow> \<exists>c'. ascii_get_expand_ilist ok i c = (True, c') \<and> same_out c c' \<and> suffix_cache c' = suffix_cache c"
  by (simp add: ascii_get_expand_ilist_def same_out_def cframe_def)

lemma suffix_ok:
  assumes ok: "\<forall>n. e_ok e n" "\<forall>n. e_blk e n \<noteq> NULL" and p: "pool_ok c"
  shows "\<exists>obj c'. ascii_get_suffix_buf e i c = (obj, c') \<and> obj \<noteq> NULL \<and> same_out c c' \<and> pool_ok c'"
proof -
  obtain c1 where c1: "(if i \<ge> suffixsize c then let (r, c) = ask (e_ok e) c in (r, if r then c\<lparr>suffixsize := suffixsize c * 2\<rparr> else c) else (True, c)) = (True, c1)"
      "same_out c c1" "suffix_cache c1 = suffix_cache c"
    using ok(1) by (cases "i \<ge> suffixsize c") (auto simp: same_out_def cframe_def)
  have "\<exists>obj pl m. do_cache_alloc True (e_blk e (asked c1)) True (suffix_cache c1, \<lambda>_. 0) = (obj, pl, m) \<and> obj \<noteq> NULL \<and> NULL \<notin> set (pool pl)"
  proof (cases "freecurr (suffix_cache c1)")
    case 0
    then show ?thesis using ok(2) p c1(3) by (simp add: do_cache_alloc_def get_object_def pool_ok_def Let_def)
  next
    case (Suc n)
    then show ?thesis using p c1(3) pool_pop [OF Suc] by (auto simp: do_cache_alloc_def get_object_def pool_ok_def Let_def)
  qed
  then obtain obj pl m where a: "do_cache_alloc True (e_blk e (asked c1)) True (suffix_cache c1, \<lambda>_. 0) = (obj, pl, m)" "obj \<noteq> NULL" "NULL \<notin> set (pool pl)"
    by blast
  have "ascii_get_suffix_buf e i c = (obj, c1\<lparr>suffix_cache := pl, asked := asked c1 + 1\<rparr>)"
    unfolding ascii_get_suffix_buf_def c1(1) using a(1,2) ok(1) by (simp add: Let_def)
  then show ?thesis using a(2,3) c1(2) by (auto simp: same_out_def cframe_def pool_ok_def)
qed

definition get_block :: "heap \<Rightarrow> nat \<Rightarrow> nat \<Rightarrow> byte list \<Rightarrow> addr \<Rightarrow> byte list" where
  "get_block h nk nb line it = bytes ''VALUE '' @ peek (key (h it)) 0 nk @ line @ peek (it_data (h it)) 0 nb"

lemma add_text:
  assumes "\<forall>n. ok n" "out_ok c" "len = int (length bs)"
  shows "\<exists>c'. add_iov ok (Text bs) len c = Some (True, c') \<and> out_ok c' \<and> rest_of c' = rest_of c \<and> (\<forall>h. sent h c' = sent h c @ bs)"
  using add_iov_sent [OF assms(1,2), of len "Text bs"] assms(3) by simp

lemma value_ok:
  assumes ok: "\<forall>n. e_ok e n" and c: "out_ok c" and x: "\<not> has_flag (h it) ITEM_CHUNKED" "0 \<le> nbytes (h it)"
  shows "\<exists>c'. add_value e it line h c = Some (True, c') \<and> out_ok c' \<and> rest_of c' = rest_of c \<and>
    (\<forall>h'. sent h' c' = sent h' c @ get_block h' (length (key (h it))) (nat (nbytes (h it))) line it)"
proof -
  obtain c1 where c1: "add_iov (e_ok e) (Text (bytes ''VALUE '')) 6 c = Some (True, c1)" "out_ok c1" "rest_of c1 = rest_of c"
      "\<forall>h. sent h c1 = sent h c @ bytes ''VALUE ''"
    using add_text [OF ok c, of 6 "bytes ''VALUE ''"] by auto
  obtain c2 where c2: "add_iov (e_ok e) (Key_of it) (int (length (key (h it)))) c1 = Some (True, c2)" "out_ok c2" "rest_of c2 = rest_of c1"
      "\<forall>h'. sent h' c2 = sent h' c1 @ peek (key (h' it)) 0 (length (key (h it)))"
    using add_iov_sent [OF ok c1(2), of "int (length (key (h it)))" "Key_of it"] by auto
  obtain c3 where c3: "add_iov (e_ok e) (Text line) (int (length line)) c2 = Some (True, c3)" "out_ok c3" "rest_of c3 = rest_of c2"
      "\<forall>h'. sent h' c3 = sent h' c2 @ line"
    using add_text [OF ok c2(2) refl] by blast
  obtain c4 where c4: "add_iov (e_ok e) (Data_of it) (nbytes (h it)) c3 = Some (True, c4)" "out_ok c4" "rest_of c4 = rest_of c3"
      "\<forall>h'. sent h' c4 = sent h' c3 @ peek (it_data (h' it)) 0 (nat (nbytes (h it)))"
    using add_iov_sent [OF ok c3(2) x(2), of "Data_of it"] by auto
  have "add_value e it line h c = Some (True, c4)"
    unfolding add_value_def Let_def c1(1) bind.bind_lunit prod.case not_True_eq_False if_False c2(1) c3(1) c4(1) using x(1) by simp
  then show ?thesis using c1 c2 c3 c4 by (simp add: get_block_def)
qed

text \<open>The loop's variables: the connection can send, and the pool of suffix buffers is sound.\<close>

definition vars_ok :: "get_vars \<Rightarrow> bool" where
  "vars_ok v \<longleftrightarrow> out_ok (gv_conn v) \<and> pool_ok (gv_conn v)"

lemma hit_ok:
  assumes ok: "\<forall>n. e_ok e n" "\<forall>n. e_blk e n \<noteq> NULL" and v: "vars_ok v"
    and x: "h = m_heap (srv_mc (gv_srv v))" "\<not> has_flag (h it) ITEM_CHUNKED" "0 \<le> nbytes (h it)"
  shows "\<exists>v'. get_hit e rc tch it v = Some (True, v') \<and> vars_ok v' \<and> gv_srv v' = gv_srv v \<and> gv_items v' = gv_items v @ [it] \<and>
    fail_length v' = fail_length v \<and> cframe (gv_conn v) (gv_conn v') \<and>
    (\<forall>h'. sent h' (gv_conn v') = sent h' (gv_conn v) @
       get_block h' (length (key (h it))) (nat (nbytes (h it))) (make_ascii_get_suffix (h it) rc (nbytes (h it))) it)"
proof -
  obtain c1 where c1: "ascii_get_expand_ilist (e_ok e) (length (gv_items v)) (gv_conn v) = (True, c1)" "same_out (gv_conn v) c1"
      "suffix_cache c1 = suffix_cache (gv_conn v)"
    using expand_ok [OF ok(1)] by blast
  have "pool_ok c1" using v c1(3) by (simp add: vars_ok_def pool_ok_def)
  then obtain obj c2 where c2: "ascii_get_suffix_buf e (length (gv_suffixes v)) c1 = (obj, c2)" "obj \<noteq> NULL" "same_out c1 c2" "pool_ok c2"
    using suffix_ok [OF ok] by blast
  have o2: "out_ok c2" using v same_outD(1) [OF c1(2)] same_outD(1) [OF c2(3)] by (simp add: vars_ok_def)
  let ?l = "make_ascii_get_suffix (h it) rc (nbytes (h it))"
  obtain c3 where c3: "add_value e it ?l h c2 = Some (True, c3)" "out_ok c3" "rest_of c3 = rest_of c2"
      "\<forall>h'. sent h' c3 = sent h' c2 @ get_block h' (length (key (h it))) (nat (nbytes (h it))) ?l it"
    using value_ok [OF ok(1) o2, of h it ?l] x(2,3) by blast
  let ?c = "upd_tstats (get_stats tch it h) c3"
  let ?v = "v\<lparr>gv_suffixes := gv_suffixes v @ [obj], gv_conn := ?c, gv_items := gv_items v @ [it]\<rparr>"
  have "get_hit e rc tch it v = Some (True, ?v)"
    unfolding get_hit_def Let_def x(1) [symmetric] c1(1) prod.case c2(1) using c2(2) c3(1) by simp
  moreover have "vars_ok ?v" using c2(4) c3(2) rest_ofD(14) [OF c3(3)] same_outD(1) [OF same_out_upd(1) [of c3]] by (simp add: vars_ok_def pool_ok_def)
  moreover have "cframe (gv_conn v) ?c"
    using same_outD(3) [OF c1(2)] same_outD(3) [OF c2(3)] cframe_rest [OF c3(3)] same_outD(3) [OF same_out_upd(1) [of c3]] cframe_trans by blast
  moreover have "sent h' ?c = sent h' (gv_conn v) @ get_block h' (length (key (h it))) (nat (nbytes (h it))) ?l it" for h'
    using c3(4) same_outD(2) [OF c1(2)] same_outD(2) [OF c2(3)] same_outD(2) [OF same_out_upd(1)] by simp
  ultimately show ?thesis by (intro exI [of _ ?v]) simp
qed

section \<open>All keys of a line\<close>

fun get_list :: "cenv \<Rightarrow> bool \<Rightarrow> bool \<Rightarrow> u32 \<Rightarrow> byte list list \<Rightarrow> get_vars \<Rightarrow> (bool \<times> get_vars) option" where
  "get_list e rc tch etime [] v = Some (True, v)"
| "get_list e rc tch etime (k # ks) v = do { (r, v) \<leftarrow> get_key e rc tch etime k v; if r then get_list e rc tch etime ks v else Some (False, v) }"

lemma get_list_append:
  "get_list e rc tch etime (ks @ ks') v =
     do { (r, v) \<leftarrow> get_list e rc tch etime ks v; if r then get_list e rc tch etime ks' v else Some (False, v) }"
proof (induction ks arbitrary: v)
  case (Cons k ks)
  then show ?case by (cases "get_key e rc tch etime k v") (auto split: if_splits)
qed simp

lemma tokens_list:
  assumes "\<forall>w \<in> set ws. w \<noteq> []"
  shows "get_list e rc tch etime ws v = Some (True, v') \<Longrightarrow>
      get_tokens e rc tch etime (map word_token ws @ [rest_token rest]) v = Some (True, tok_value (rest_token rest), v')"
    "get_list e rc tch etime ws v = Some (False, v') \<Longrightarrow>
      \<exists>w. get_tokens e rc tch etime (map word_token ws @ [rest_token rest]) v = Some (False, Some w, v')"
  using assms
proof (induction ws arbitrary: v)
  case Nil
  {
    case 1
    then show ?case by (simp add: rest_token_def)
  next
    case 2
    then show ?case by simp
  }
next
  case (Cons w ws)
  {
    case 1
    then show ?case using Cons.IH(1) by (auto simp: word_token_def split: bind_splits if_splits)
  next
    case 2
    then show ?case using Cons.IH(2) by (auto simp: word_token_def split: bind_splits if_splits)
  }
qed

text \<open>The tokens of a line come in groups; the loop over the groups looks up all words of the line.\<close>

lemma groups_list:
  assumes "\<forall>w \<in> set ws. w \<noteq> []"
  shows "get_list e rc tch etime (ws @ line_words rest) v = Some (r, v') \<Longrightarrow>
    \<exists>kt. get_groups e rc tch etime (map word_token ws @ [rest_token rest]) v = Some (kt, v') \<and> (kt = None \<longleftrightarrow> r)"
  using assms
proof (induction "length rest" arbitrary: ws rest v rule: less_induct)
  case less
  obtain r1 v1 where 1: "get_list e rc tch etime ws v = Some (r1, v1)" "if r1 then get_list e rc tch etime (line_words rest) v1 = Some (r, v') else \<not> r \<and> v' = v1"
    using less.prems(1) by (auto simp: get_list_append split: bind_splits if_splits)
  show ?case
  proof (cases r1)
    case False
    obtain w where "get_tokens e rc tch etime (map word_token ws @ [rest_token rest]) v = Some (False, Some w, v1)"
      using tokens_list(2) [OF less.prems(2), of e rc tch etime v v1 rest] 1(1) False by auto
    then show ?thesis using 1(2) False by (subst get_groups.simps) simp
  next
    case True
    then have t: "get_tokens e rc tch etime (map word_token ws @ [rest_token rest]) v = Some (True, tok_value (rest_token rest), v1)"
      using tokens_list(1) [OF less.prems(2)] 1(1) by simp
    show ?thesis
    proof (cases "rest = []")
      case True
      then show ?thesis using t 1(2) \<open>r1\<close> by (subst get_groups.simps) (simp add: rest_token_def)
    next
      case False
      obtain ws2 rest2 where 2: "tokenize_command rest MAX_TOKENS = map word_token ws2 @ [rest_token rest2]" "line_words rest = ws2 @ line_words rest2"
          "rest2 \<noteq> [] \<longrightarrow> length ws2 = 7 \<and> length rest2 < length rest"
        using tokenize_words [of MAX_TOKENS rest] by auto
      have w2: "\<forall>w \<in> set ws2. w \<noteq> []" using line_words_good [of _ rest] 2(2) by auto
      have step: "get_groups e rc tch etime (map word_token ws @ [rest_token rest]) v =
          (if tok_value (hd (map word_token ws2 @ [rest_token rest2])) = None then Some (None, v1)
           else get_groups e rc tch etime (map word_token ws2 @ [rest_token rest2]) v1)"
        using t False 2(1) by (subst get_groups.simps) (simp add: rest_token_def Let_def)
      show ?thesis
      proof (cases "ws2 = []")
        case True
        then have "rest2 = []" using 2(3) by auto
        then show ?thesis using step True 1(2) \<open>r1\<close> 2(2) by (simp add: rest_token_def)
      next
        case False
        then have hd2: "tok_value (hd (map word_token ws2 @ [rest_token rest2])) \<noteq> None" by (cases ws2) (simp_all add: word_token_def)
        have l2: "length rest2 < length rest" using 2(3) \<open>rest \<noteq> []\<close> by (cases "rest2 = []") auto
        show ?thesis using step hd2 less.hyps [OF l2 _ w2] 1(2) \<open>r1\<close> 2(2) by simp
      qed
    qed
  qed
qed

text \<open>The hits of a list of keys, and the text of a hit.\<close>

fun hits :: "(byte list \<rightharpoonup> addr) \<Rightarrow> byte list list \<Rightarrow> addr list" where
  "hits L [] = []"
| "hits L (k # ks) = (case L k of None \<Rightarrow> hits L ks | Some x \<Rightarrow> x # hits L ks)"

definition value_text :: "bool \<Rightarrow> item \<Rightarrow> byte list" where
  "value_text rc i = bytes ''VALUE '' @ key i @ SP # decimal (unat (FLAGS_CONV i)) @ SP # decimal (unat (word_of_int (nbytes i - 2) :: u32)) @
     (if rc then SP # decimal (unat (ITEM_get_cas i)) else []) @ [CR, LF] @ item_value i"

lemma suffix_text:
  "make_ascii_get_suffix i rc nb = SP # decimal (unat (FLAGS_CONV i)) @ SP # decimal (unat (word_of_int (nb - 2) :: u32)) @
     (if rc then SP # decimal (unat (ITEM_get_cas i)) else []) @ [CR, LF]"
  by (simp add: make_ascii_get_suffix_def itoa_u32_eq itoa_u64_eq FLAGS_CONV_def Let_def decimal.simps [of 0])

lemma block_text:
  assumes "key (h it) = key i" "nat (nbytes i) \<le> length (it_data (h it))" "take (nat (nbytes i)) (it_data (h it)) = item_value i"
  shows "get_block h (length (key i)) (nat (nbytes i)) (make_ascii_get_suffix i rc (nbytes i)) it = value_text rc i"
  using assms by (simp add: get_block_def value_text_def suffix_text)

lemma value_text_cong:
  assumes "key i' = key i" "FLAGS_CONV i' = FLAGS_CONV i" "nbytes i' = nbytes i" "it_data i' = it_data i" "rc \<longrightarrow> ITEM_get_cas i' = ITEM_get_cas i"
  shows "value_text rc i' = value_text rc i"
  using assms by (simp add: value_text_def item_value_def item_bytes_def)

lemma hits_cong: "(\<And>k. k \<in> set ks \<Longrightarrow> L k = L' k) \<Longrightarrow> hits L ks = hits L' ks"
  by (induction ks) (auto split: option.splits)

lemma hits_iff: "x \<in> set (hits L ks) \<longleftrightarrow> (\<exists>k \<in> set ks. L k = Some x)"
  by (induction ks) (auto split: option.splits)

text \<open>One key: a live item is added to the reply, a dead one leaves the table.\<close>

lemma key_ok:
  fixes v :: get_vars
  defines "s \<equiv> srv_mc (gv_srv v)" and "st \<equiv> srv_settings (gv_srv v)"
  assumes env: "\<forall>n. e_ok e n" "\<forall>n. e_blk e n \<noteq> NULL" and v: "vars_ok v"
    and ok: "cache_ok st (e_hash e) s M R" and r: "\<forall>x. all_refs s R x < 59000" and t: "e_thread e < length (bump_bufs s)"
    and k: "length k \<le> KEY_MAX_LENGTH"
  shows "\<exists>v' s'. get_key e rc False etime k v = Some (True, v') \<and> vars_ok v' \<and> fail_length v' = fail_length v \<and> cframe (gv_conn v) (gv_conn v') \<and>
    srv_mc (gv_srv v') = s' \<and> srv_settings (gv_srv v') = st \<and>
    moved st (e_hash e) s M R s' (M(k := live st s M k)) (add_ref (addr_of (live st s M k)) R) \<and>
    dated s s' (addr_of (M k)) \<and> (\<forall>x. bump_count s' x \<le> bump_count s x + 1) \<and>
    gv_items v' = gv_items v @ hits (live st s M) [k] \<and>
    (\<forall>h. (\<forall>x. live st s M k = Some x \<longrightarrow> key (h x) = key (m_heap s' x) \<and> nat (nbytes (m_heap s' x)) \<le> length (it_data (h x)) \<and>
         take (nat (nbytes (m_heap s' x))) (it_data (h x)) = item_value (m_heap s' x)) \<longrightarrow>
       sent h (gv_conn v') = sent h (gv_conn v) @ concat (map (\<lambda>x. value_text rc (m_heap s' x)) (hits (live st s M) [k])))"
proof -
  let ?L = "live st s M k"
  obtain s' where s': "limited_get st (e_hash e) (e_thread e) k etime False True s = Some (addr_of ?L, s')"
      "moved st (e_hash e) s M R s' (M(k := ?L)) (add_ref (addr_of ?L) R)" "dated s s' (addr_of (M k))" "\<forall>x. bump_count s' x \<le> bump_count s x + 1"
    using get_step [OF ok r t refl] by blast
  obtain c srv where cs: "record_prefix (\<lambda>d hash a b. stats_prefix_record_get d hash a b k (addr_of ?L \<noteq> NULL)) e (gv_conn v, (gv_srv v)\<lparr>srv_mc := s'\<rparr>) = (c, srv)"
    by force
  have c: "same_out (gv_conn v) c" "suffix_cache c = suffix_cache (gv_conn v)" "srv_mc srv = s'" "srv_settings srv = st"
    using cs by (auto simp: record_prefix_def same_out_def cframe_def st_def split: if_splits)
  let ?v = "v\<lparr>gv_conn := c, gv_srv := srv\<rparr>"
  have v1: "vars_ok ?v" using v same_outD(1) [OF c(1)] c(2) by (simp add: vars_ok_def pool_ok_def)
  have g: "get_key e rc False etime k v =
      (if addr_of ?L \<noteq> NULL then get_hit e rc False (addr_of ?L) ?v
       else Some (True, ?v\<lparr>gv_conn := upd_tstats (get_stats False NULL (m_heap s')) c\<rparr>))"
    using k s'(1) cs by (simp add: get_key_def s_def st_def)
  show ?thesis
  proof (cases ?L)
    case None
    let ?v' = "?v\<lparr>gv_conn := upd_tstats (get_stats False NULL (m_heap s')) c\<rparr>"
    have "get_key e rc False etime k v = Some (True, ?v')" using g None by (simp add: addr_of_def)
    moreover have "vars_ok ?v'" using v1 same_outD(1) [OF same_out_upd(1) [of c]] by (simp add: vars_ok_def pool_ok_def)
    moreover have "cframe (gv_conn v) (gv_conn ?v')" using same_outD(3) [OF c(1)] same_outD(3) [OF same_out_upd(1) [of c]] cframe_trans by simp
    moreover have "sent h (gv_conn ?v') = sent h (gv_conn v)" for h using same_outD(2) [OF c(1)] same_outD(2) [OF same_out_upd(1) [of c]] by simp
    ultimately show ?thesis using s'(2-4) c(3,4) None by (intro exI [of _ ?v'] exI [of _ s']) simp
  next
    case (Some x)
    have nn: "addr_of ?L = x" "x \<noteq> NULL" using Some live_nonnull [OF ok Some] by (auto simp: addr_of_def)
    obtain Q where i: "store_inv st (e_hash e) s' (M(k := ?L)) Q (all_refs s' (add_ref (addr_of ?L) R))"
      using cache_okD [OF moved_ok [OF s'(2)]] by blast
    have "x \<in> held (M(k := ?L)) (all_refs s' (add_ref (addr_of ?L) R))" using Some by (auto simp: held_def ran_def)
    then have x: "\<not> has_flag (m_heap s' x) ITEM_CHUNKED" "0 \<le> nbytes (m_heap s' x)"
      using store_invD(6) [OF i, of x] by (auto simp: item_ok_def)
    obtain v' where v': "get_hit e rc False x ?v = Some (True, v')" "vars_ok v'" "gv_srv v' = srv" "gv_items v' = gv_items v @ [x]"
        "fail_length v' = fail_length v" "cframe c (gv_conn v')"
        "\<forall>h. sent h (gv_conn v') = sent h c @ get_block h (length (key (m_heap s' x))) (nat (nbytes (m_heap s' x))) (make_ascii_get_suffix (m_heap s' x) rc (nbytes (m_heap s' x))) x"
      using hit_ok [OF env v1, of "m_heap s'" x rc False] x c(3) by auto
    have "sent h (gv_conn v') = sent h (gv_conn v) @ value_text rc (m_heap s' x)"
      if "key (h x) = key (m_heap s' x)" "nat (nbytes (m_heap s' x)) \<le> length (it_data (h x))" "take (nat (nbytes (m_heap s' x))) (it_data (h x)) = item_value (m_heap s' x)" for h
      using v'(7) same_outD(2) [OF c(1)] block_text [of h x, OF that] by simp
    moreover have "cframe (gv_conn v) (gv_conn v')" using same_outD(3) [OF c(1)] v'(6) cframe_trans by blast
    ultimately show ?thesis using g nn v' s'(2-4) c(3,4) Some by (intro exI [of _ v'] exI [of _ s']) simp
  qed
qed

lemma live_other:
  assumes ok: "cache_ok st hash s M R" and d: "dated s s' (addr_of (M k))" and k: "k' \<noteq> k" and m: "M' k' = M k'"
  shows "live st s' M' k' = live st s M k'"
proof (cases "M k'")
  case None
  then show ?thesis using m by (simp add: live_def)
next
  case (Some y)
  obtain Q where i: "store_inv st hash s M Q (all_refs s R)" using cache_okD [OF ok] by blast
  have "y \<noteq> addr_of (M k)"
  proof (cases "M k")
    case None
    then show ?thesis using held_nonnull [OF i] mapped_held [of M k' y, OF Some] by (auto simp: addr_of_def)
  next
    case (Some x)
    then show ?thesis using mapped_key [where k = k and x = x, OF i] mapped_key [where k = k' and x = y, OF i] \<open>M k' = Some y\<close> k by (auto simp: addr_of_def)
  qed
  then show ?thesis using dead_dated [OF d] Some m by (simp add: live_def)
qed

definition looked_up :: "settings \<Rightarrow> mc \<Rightarrow> (byte list \<rightharpoonup> addr) \<Rightarrow> byte list list \<Rightarrow> byte list \<rightharpoonup> addr" where
  "looked_up st s M ks = (\<lambda>k. if k \<in> set ks then live st s M k else M k)"

definition hold :: "addr list \<Rightarrow> (addr \<Rightarrow> nat) \<Rightarrow> addr \<Rightarrow> nat" where
  "hold xs R = (\<lambda>x. R x + count_list xs x)"

definition readable :: "heap \<Rightarrow> heap \<Rightarrow> addr list \<Rightarrow> bool" where
  "readable h' h xs \<longleftrightarrow> (\<forall>x \<in> set xs. key (h x) = key (h' x) \<and> nat (nbytes (h' x)) \<le> length (it_data (h x)) \<and>
     take (nat (nbytes (h' x))) (it_data (h x)) = item_value (h' x))"

definition undated :: "mc \<Rightarrow> mc \<Rightarrow> (byte list \<rightharpoonup> addr) \<Rightarrow> byte list list \<Rightarrow> bool" where
  "undated s s' M ks \<longleftrightarrow> current_time s' = current_time s \<and>
     (\<forall>y. y \<noteq> NULL \<and> (\<forall>k \<in> set ks. M k \<noteq> Some y) \<longrightarrow> dates (m_heap s' y) = dates (m_heap s y))"

lemma list_ok:
  fixes v :: get_vars
  assumes env: "\<forall>n. e_ok e n" "\<forall>n. e_blk e n \<noteq> NULL"
  shows "vars_ok v \<Longrightarrow> srv_mc (gv_srv v) = s \<Longrightarrow> srv_settings (gv_srv v) = st \<Longrightarrow> cache_ok st (e_hash e) s M R \<Longrightarrow>
    \<forall>x. all_refs s R x + 2 * length ks < 59000 \<Longrightarrow> e_thread e < length (bump_bufs s) \<Longrightarrow> \<forall>k \<in> set ks. length k \<le> KEY_MAX_LENGTH \<Longrightarrow> distinct ks \<Longrightarrow>
    \<exists>v' s'. get_list e rc False etime ks v = Some (True, v') \<and> vars_ok v' \<and> fail_length v' = fail_length v \<and> cframe (gv_conn v) (gv_conn v') \<and>
    srv_mc (gv_srv v') = s' \<and> srv_settings (gv_srv v') = st \<and>
    moved st (e_hash e) s M R s' (looked_up st s M ks) (hold (hits (live st s M) ks) R) \<and> undated s s' M ks \<and>
    gv_items v' = gv_items v @ hits (live st s M) ks \<and>
    (\<forall>h. readable (m_heap s') h (hits (live st s M) ks) \<longrightarrow>
       sent h (gv_conn v') = sent h (gv_conn v) @ concat (map (\<lambda>x. value_text rc (m_heap s' x)) (hits (live st s M) ks)))"
proof (induction ks arbitrary: v s M R)
  case Nil
  then show ?case using moved_refl [OF Nil(4)] by (intro exI [of _ v] exI [of _ s]) (simp add: looked_up_def hold_def undated_def)
next
  case (Cons k ks)
  let ?L = "live st s M"
  have r: "\<forall>x. all_refs s R x < 59000" using Cons.prems(5) by (metis add_lessD1)
  obtain v1 s1 where 1: "get_key e rc False etime k v = Some (True, v1)" "vars_ok v1" "fail_length v1 = fail_length v" "cframe (gv_conn v) (gv_conn v1)"
      "srv_mc (gv_srv v1) = s1" "srv_settings (gv_srv v1) = st" "moved st (e_hash e) s M R s1 (M(k := ?L k)) (add_ref (addr_of (?L k)) R)"
      "dated s s1 (addr_of (M k))" "\<forall>x. bump_count s1 x \<le> bump_count s x + 1" "gv_items v1 = gv_items v @ hits ?L [k]"
      "\<forall>h. (\<forall>x. ?L k = Some x \<longrightarrow> key (h x) = key (m_heap s1 x) \<and> nat (nbytes (m_heap s1 x)) \<le> length (it_data (h x)) \<and>
           take (nat (nbytes (m_heap s1 x))) (it_data (h x)) = item_value (m_heap s1 x)) \<longrightarrow>
         sent h (gv_conn v1) = sent h (gv_conn v) @ concat (map (\<lambda>x. value_text rc (m_heap s1 x)) (hits ?L [k]))"
    using key_ok [OF env Cons.prems(1), of M R k rc etime] Cons.prems(2-7) r by auto
  let ?M1 = "M(k := ?L k)" and ?R1 = "add_ref (addr_of (?L k)) R"
  have ok1: "cache_ok st (e_hash e) s1 ?M1 ?R1" using moved_ok [OF 1(7)] .
  have live1: "live st s1 ?M1 k' = ?L k'" if "k' \<in> set ks" for k'
    using live_other [OF Cons.prems(4) 1(8), of k' ?M1] that Cons.prems(8) by auto
  have h1: "hits (live st s1 ?M1) ks = hits ?L ks" by (rule hits_cong [OF live1])
  have R1: "?R1 x \<le> R x + 1" for x by (simp add: add_ref_def)
  have r1: "\<forall>x. all_refs s1 ?R1 x + 2 * length ks < 59000"
  proof
    fix x
    have "all_refs s1 ?R1 x \<le> all_refs s R x + 2" using R1 [of x] spec [OF 1(9), of x] by (simp add: all_refs_def)
    then show "all_refs s1 ?R1 x + 2 * length ks < 59000" using spec [OF Cons.prems(5), of x] by simp
  qed
  have t1: "e_thread e < length (bump_bufs s1)" using 1(7) Cons.prems(6) by (simp add: moved_def vals_def)
  have kd: "\<forall>k \<in> set ks. length k \<le> KEY_MAX_LENGTH" "distinct ks" using Cons.prems(7,8) by simp_all
  obtain v' s' where 2: "get_list e rc False etime ks v1 = Some (True, v')" "vars_ok v'" "fail_length v' = fail_length v1" "cframe (gv_conn v1) (gv_conn v')"
      "srv_mc (gv_srv v') = s'" "srv_settings (gv_srv v') = st"
      "moved st (e_hash e) s1 ?M1 ?R1 s' (looked_up st s1 ?M1 ks) (hold (hits ?L ks) ?R1)" "undated s1 s' ?M1 ks"
      "gv_items v' = gv_items v1 @ hits ?L ks"
      "\<forall>h. readable (m_heap s') h (hits ?L ks) \<longrightarrow>
         sent h (gv_conn v') = sent h (gv_conn v1) @ concat (map (\<lambda>x. value_text rc (m_heap s' x)) (hits ?L ks))"
    using Cons.IH [OF 1(2,5,6) ok1 r1 t1 kd, unfolded h1] by blast
  let ?M2 = "looked_up st s M (k # ks)" and ?R2 = "hold (hits ?L (k # ks)) R"
  have M2: "looked_up st s1 ?M1 ks = ?M2" using live1 by (auto simp: looked_up_def fun_eq_iff)
  have R2: "hold (hits ?L ks) ?R1 = ?R2"
    using live_nonnull [OF Cons.prems(4), of k] by (cases "?L k") (auto simp: hold_def add_ref_def addr_of_def fun_eq_iff)
  note m2 = 2(7) [unfolded M2 R2]
  have mv: "moved st (e_hash e) s M R s' ?M2 ?R2"
  proof (rule moved_trans [OF 1(7) m2])
    have l: "y \<in> ran ?M1" if "?L k' = Some y" for k' y using that live_some [OF that] by (intro ranI [of _ k']) auto
    have "y \<in> ran ?M1" if "?M2 k' = Some y" for k' y
      using that l [of k' y] ranI [of ?M1 k' y] by (auto simp: looked_up_def split: if_splits)
    moreover have "y \<in> ran ?M1 \<or> 0 < ?R1 y" if "0 < ?R2 y" for y
    proof (cases "y \<in> set (hits ?L (k # ks))")
      case True
      then obtain k' where "?L k' = Some y" unfolding hits_iff by blast
      then show ?thesis using l by blast
    next
      case False
      then have "0 < R y" using that count_notin [OF False] by (simp only: hold_def)
      then show ?thesis by (simp add: add_ref_def)
    qed
    ultimately show "held M R \<inter> held ?M2 ?R2 \<subseteq> held ?M1 ?R1" by (auto simp: held_def ran_def [of ?M2])
  qed
  have ud: "undated s s' M (k # ks)" unfolding undated_def
  proof (intro conjI allI impI)
    show "current_time s' = current_time s" using 1(8) 2(8) by (simp add: dated_def undated_def)
    fix y assume y: "y \<noteq> NULL \<and> (\<forall>k' \<in> set (k # ks). M k' \<noteq> Some y)"
    then have "\<forall>k' \<in> set ks. ?M1 k' \<noteq> Some y" using Cons.prems(8) by auto
    moreover have "y \<noteq> addr_of (M k)" using y by (cases "M k") (auto simp: addr_of_def)
    ultimately show "dates (m_heap s' y) = dates (m_heap s y)" using y 1(8) 2(8) by (simp add: dated_def undated_def)
  qed
  have "sent h (gv_conn v') = sent h (gv_conn v) @ concat (map (\<lambda>x. value_text rc (m_heap s' x)) (hits ?L (k # ks)))"
    if rd: "readable (m_heap s') h (hits ?L (k # ks))" for h
  proof (cases "?L k")
    case None
    then show ?thesis using 1(11) 2(10) rd by simp
  next
    case (Some x)
    have xm: "M k = Some x" "x \<noteq> NULL" using live_some [OF Some] live_nonnull [OF Cons.prems(4) Some] by auto
    obtain Q where i: "store_inv st (e_hash e) s M Q (all_refs s R)" using cache_okD [OF Cons.prems(4)] by blast
    have "\<forall>k' \<in> set ks. ?M1 k' \<noteq> Some x"
      using mapped_key [where x = x and k = k, OF i xm(1)] mapped_key [where x = x, OF i] Cons.prems(8) by auto
    then have ca: "ITEM_get_cas (m_heap s' x) = ITEM_get_cas (m_heap s1 x)" using 2(8) xm(2) by (simp add: undated_def dates_def)
    have "x \<in> held ?M1 ?R1" "x \<in> held ?M2 ?R2" using Some by (auto simp: held_def hold_def ran_def)
    then have e: "key (m_heap s' x) = key (m_heap s1 x)" "it_data (m_heap s' x) = it_data (m_heap s1 x)"
        "FLAGS_CONV (m_heap s' x) = FLAGS_CONV (m_heap s1 x)" "nbytes (m_heap s' x) = nbytes (m_heap s1 x)"
      using m2 by (auto simp: moved_def vals_def)
    have vt: "value_text rc (m_heap s' x) = value_text rc (m_heap s1 x)" by (rule value_text_cong) (simp_all add: e ca)
    have "item_value (m_heap s' x) = item_value (m_heap s1 x)" by (simp add: item_value_def item_bytes_def e)
    then have "key (h x) = key (m_heap s1 x) \<and> nat (nbytes (m_heap s1 x)) \<le> length (it_data (h x)) \<and>
        take (nat (nbytes (m_heap s1 x))) (it_data (h x)) = item_value (m_heap s1 x)"
      using rd Some e by (simp add: readable_def)
    then have "sent h (gv_conn v1) = sent h (gv_conn v) @ value_text rc (m_heap s1 x)" using spec [OF 1(11), of h] Some by simp
    then show ?thesis using 2(10) rd Some vt by (simp add: readable_def)
  qed
  then show ?case using 1(1,3,4,10) 2(1-6,9) mv ud cframe_trans
    by (intro exI [of _ v'] exI [of _ s']) (auto split: option.splits)
qed

section \<open>The reply\<close>

text \<open>What the socket gets, one list of bytes for each message.\<close>

definition datagrams :: "heap \<Rightarrow> conn \<Rightarrow> byte list list" where
  "datagrams h c = map (\<lambda>m. concat (map (iov_bytes h) m)) (msglist c)"

text \<open>The headers are numbered, the bodies together are what is sent, and no datagram is too long.\<close>

definition udp_framed :: "heap \<Rightarrow> conn \<Rightarrow> bool" where
  "udp_framed h c \<longleftrightarrow> (\<exists>bodies. concat bodies = sent h c \<and>
     datagrams h c = map (\<lambda>(i, b). udp_header (request_id c) i (length bodies) @ b) (enumerate 0 bodies) \<and>
     (\<forall>d \<in> set (datagrams h c). length d \<le> 1400))"

lemma bytes_le: "\<forall>v \<in> set m. 0 \<le> iov_len v \<Longrightarrow> int (length (concat (map (iov_bytes h) m))) \<le> msg_len m"
proof (induction m)
  case (Cons v m)
  have "length (iov_bytes h v) \<le> nat (iov_len v)" by (simp add: iov_bytes_def)
  then have "int (length (iov_bytes h v)) \<le> iov_len v" using Cons.prems by (simp add: le_nat_iff)
  then show ?case using Cons by (simp add: msg_len_def)
qed (simp add: msg_len_def)

definition msgs_ok :: "conn \<Rightarrow> bool" where
  "msgs_ok c \<longleftrightarrow> (\<forall>m \<in> set (msglist c). \<forall>v \<in> set m. 0 \<le> iov_len v)"

text \<open>The messages that are not sent yet start with the header of their datagram.\<close>

definition header_iov :: "nat \<Rightarrow> nat \<Rightarrow> nat \<Rightarrow> iovec" where
  "header_iov req i n = \<lparr>iov_base = Text (udp_header req i n), iov_off = 0, iov_len = 8\<rparr>"

definition headed :: "conn \<Rightarrow> bool" where
  "headed c \<longleftrightarrow> (\<forall>i < length (msglist c). msglist c ! i \<noteq> [] \<longrightarrow> msglist c ! i ! 0 = header_iov (request_id c) i (length (msglist c)))"

lemma out_msgs_ok: "out_ok c \<Longrightarrow> msgs_ok c"
  by (simp add: out_ok_def msg_ok_def msgs_ok_def)

lemma headers_ok:
  assumes ok: "\<forall>n. ok n" and c: "out_ok c" and u: "is_udp c"
  shows "\<exists>c'. build_udp_headers ok c = (True, c') \<and> cframe (c\<lparr>hdrsize := hdrsize c'\<rparr>) c' \<and> (\<forall>h. sent h c' = sent h c) \<and> (\<forall>h. udp_framed h c') \<and>
    msgs_ok c' \<and> headed c' \<and> (\<forall>m \<in> set (msglist c'). m \<noteq> [])"
proof -
  let ?n = "length (msglist c)"
  let ?hd = "\<lambda>i. \<lparr>iov_base = Text (udp_header (request_id c) i ?n), iov_off = 0, iov_len = 8\<rparr>"
  let ?ms = "map (\<lambda>(i, m). m[0 := ?hd i]) (enumerate 0 (msglist c))"
  obtain c1 where c1: "(if ?n > hdrsize c then let (r, c) = ask ok c in (r, if r then c\<lparr>hdrsize := ?n * 2\<rparr> else c) else (True, c)) = (True, c1)"
      "msglist c1 = msglist c" "request_id c1 = request_id c" "cframe (c\<lparr>hdrsize := hdrsize c1\<rparr>) c1"
    using ok by (cases "?n > hdrsize c") (auto simp: cframe_def)
  let ?c = "c1\<lparr>msglist := ?ms\<rparr>"
  have b: "build_udp_headers ok c = (True, ?c)" unfolding build_udp_headers_def Let_def c1(1) [unfolded Let_def] prod.case using c1(2,3) by simp
  have tr: "c_transport c1 = udp_transport" using c1(4) u by (simp add: cframe_def)
  have ne: "m \<noteq> []" if "m \<in> set (msglist c)" for m using c u that by (auto simp: out_ok_def msg_ok_def)
  have tl: "map tl ?ms = map tl (msglist c)"
    by (rule nth_equalityI) (auto simp: nth_enumerate_eq intro!: nth_equalityI simp: nth_tl)
  have s: "sent h ?c = sent h c" for h
  proof -
    have "sent h ?c = concat (map (\<lambda>m. concat (map (iov_bytes h) m)) (map tl ?ms))" using tr by (simp add: sent_def msg_body_def comp_def)
    then show ?thesis unfolding tl using u by (simp add: sent_def msg_body_def comp_def)
  qed
  let ?bodies = "\<lambda>h. map (\<lambda>m. concat (map (iov_bytes h) (tl m))) (msglist c)"
  have d: "datagrams h ?c = map (\<lambda>(i, b). udp_header (request_id c) i ?n @ b) (enumerate 0 (?bodies h))" for h
  proof (rule nth_equalityI)
    fix i assume i: "i < length (datagrams h ?c)"
    then have i': "i < ?n" by (simp add: datagrams_def)
    obtain v m where m: "msglist c ! i = v # m" using ne [of "msglist c ! i"] i' by (metis neq_Nil_conv nth_mem)
    show "datagrams h ?c ! i = map (\<lambda>(i, b). udp_header (request_id c) i ?n @ b) (enumerate 0 (?bodies h)) ! i"
      using i' m by (simp add: datagrams_def nth_enumerate_eq iov_bytes_def udp_header_def)
  qed (simp add: datagrams_def)
  have le: "length x \<le> 1400" if x: "x \<in> set (datagrams h ?c)" for h x
  proof -
    obtain i where i: "i < ?n" "x = udp_header (request_id c) i ?n @ concat (map (iov_bytes h) (tl (msglist c ! i)))"
      using x unfolding d by (auto simp: in_set_enumerate_eq)
    obtain v m where m: "msglist c ! i = v # m" using ne [of "msglist c ! i"] i by (metis neq_Nil_conv nth_mem)
    have mo: "msg_ok c (v # m)" using c i(1) m nth_mem by (fastforce simp: out_ok_def)
    then have "int (length (concat (map (iov_bytes h) m))) \<le> msg_len m" by (intro bytes_le) (simp add: msg_ok_def)
    then show ?thesis using mo u i(2) m by (simp add: msg_ok_def msg_len_def udp_header_def)
  qed
  have "udp_framed h ?c" for h
    unfolding udp_framed_def using d [of h] le [of _ h] s [of h] u c1(3)
    by (intro exI [of _ "?bodies h"]) (simp add: sent_def [of h c] msg_body_def)
  moreover have "cframe (c\<lparr>hdrsize := hdrsize ?c\<rparr>) ?c" using c1(4) by (simp add: cframe_def)
  moreover have "msgs_ok ?c" using out_msgs_ok [OF c] by (auto simp: msgs_ok_def in_set_enumerate_eq dest!: set_update_subset_insert [THEN subsetD])
  moreover have "headed ?c" using ne c1(3) by (auto simp: headed_def header_iov_def nth_enumerate_eq)
  moreover have "\<forall>m \<in> set (msglist ?c). m \<noteq> []" using ne by (auto simp: in_set_enumerate_eq)
  ultimately show ?thesis using b s by blast
qed

definition end_text :: "byte list" where
  "end_text = bytes ''END'' @ [CR, LF]"

lemma length_end [simp]: "length end_text = 5"
  by (simp add: end_text_def)

text \<open>
  The command get (and gets, with \<open>rc\<close>) for the words \<open>ks\<close> behind the first of a line: the connection turns to sending the text of all live items
  among them in the order of the line, and \<open>END\<close>. Every item of the reply is held until the reply is sent.
\<close>

lemma process_get_ok:
  assumes env: "\<forall>n. e_ok e n" "\<forall>n. e_blk e n \<noteq> NULL" and c: "out_ok c" "pool_ok c"
    and s: "srv_mc srv = s" "srv_settings srv = st" and ok: "cache_ok st (e_hash e) s M R"
    and r: "\<forall>x. all_refs s R x + 2 * length ks < 59000" and t: "e_thread e < length (bump_bufs s)"
    and ks: "line_words line = w # ks" "\<forall>k \<in> set ks. length k \<le> KEY_MAX_LENGTH" "distinct ks"
  shows "\<exists>c' srv' s'. process_get_command e (tokenize_command line MAX_TOKENS) rc False (c, srv) = Some (c', srv') \<and>
    c_state c' = conn_mwrite \<and> ilist c' = hits (live st s M) ks \<and> srv_mc srv' = s' \<and> srv_settings srv' = st \<and> c_item c' = c_item c \<and>
    msgs_ok c' \<and> msgcurr c' = 0 \<and> rbuf c' = rbuf c \<and> noreply c' = noreply c \<and>
    moved st (e_hash e) s M R s' (looked_up st s M ks) (hold (hits (live st s M) ks) R) \<and> is_udp c' = is_udp c \<and> request_id c' = request_id c \<and>
    (\<forall>h. readable (m_heap s') h (hits (live st s M) ks) \<longrightarrow>
       sent h c' = sent h c @ concat (map (\<lambda>x. value_text rc (m_heap s' x)) (hits (live st s M) ks)) @ end_text) \<and>
    (is_udp c \<longrightarrow> (\<forall>h. udp_framed h c') \<and> headed c' \<and> (\<forall>m \<in> set (msglist c'). m \<noteq> []))"
proof -
  obtain ws rest where tk: "tokenize_command line MAX_TOKENS = map word_token ws @ [rest_token rest]" "line_words line = ws @ line_words rest"
      "rest \<noteq> [] \<longrightarrow> length ws = 7"
    using tokenize_words [of MAX_TOKENS line] by auto
  have "ws \<noteq> []" using tk(2,3) ks(1) by (cases "rest = []") auto
  then obtain ws' where ws: "ws = w # ws'" "ks = ws' @ line_words rest" using tk(2) ks(1) by (cases ws) auto
  let ?v = "\<lparr>gv_conn = c, gv_srv = srv, gv_items = [], gv_suffixes = [], fail_length = False\<rparr>"
  let ?H = "hits (live st s M) ks"
  have v: "vars_ok ?v" using c by (simp add: vars_ok_def)
  obtain v' s' where l: "get_list e rc False 0 ks ?v = Some (True, v')" "vars_ok v'" "cframe c (gv_conn v')"
      "srv_mc (gv_srv v') = s'" "srv_settings (gv_srv v') = st" "moved st (e_hash e) s M R s' (looked_up st s M ks) (hold ?H R)" "gv_items v' = ?H"
      "\<forall>h. readable (m_heap s') h ?H \<longrightarrow> sent h (gv_conn v') = sent h c @ concat (map (\<lambda>x. value_text rc (m_heap s' x)) ?H)"
    using list_ok [OF env v, of s st M R ks rc 0] s ok r t ks(2,3) by auto
  have "\<forall>w \<in> set ws'. w \<noteq> []" using line_words_good [of _ line] ks(1) ws(2) by auto
  then obtain kt where g: "get_groups e rc False 0 (map word_token ws' @ [rest_token rest]) ?v = Some (kt, v')" "kt = None"
    using groups_list [of ws' e rc False 0 rest ?v True v'] l(1) ws(2) by auto
  let ?c = "(gv_conn v')\<lparr>ilist := gv_items v', suffixlist := gv_suffixes v'\<rparr>"
  have o: "out_ok ?c" "sent h ?c = sent h (gv_conn v')" for h
    using l(2) by (simp_all add: vars_ok_def out_ok_def msg_ok_def sent_def msg_body_def)
  obtain c1 where c1: "add_iov (e_ok e) (Text end_text) 5 ?c = Some (True, c1)" "out_ok c1" "rest_of c1 = rest_of ?c" "\<forall>h. sent h c1 = sent h ?c @ end_text"
    using add_text [OF env(1) o(1), of 5 end_text] by auto
  note f1 = rest_ofD [OF c1(3)]
  have u1: "is_udp c1 = is_udp c" "request_id c1 = request_id c" "c_item c1 = c_item c" "rbuf c1 = rbuf c" "noreply c1 = noreply c"
    using f1 l(3) by (auto simp: cframe_def)
  obtain c2 where c2: "(if is_udp c1 then build_udp_headers (e_ok e) c1 else (True, c1)) = (True, c2)" "\<forall>h. sent h c2 = sent h c1"
      "is_udp c \<longrightarrow> (\<forall>h. udp_framed h c2) \<and> headed c2 \<and> (\<forall>m \<in> set (msglist c2). m \<noteq> [])" "ilist c2 = ?H" "is_udp c2 = is_udp c" "request_id c2 = request_id c" "c_item c2 = c_item c" "rbuf c2 = rbuf c" "noreply c2 = noreply c" "msgs_ok c2"
  proof (cases "is_udp c")
    case True
    obtain c' where "build_udp_headers (e_ok e) c1 = (True, c')" "cframe (c1\<lparr>hdrsize := hdrsize c'\<rparr>) c'" "\<forall>h. sent h c' = sent h c1" "\<forall>h. udp_framed h c'" "msgs_ok c'" "headed c'" "\<forall>m \<in> set (msglist c'). m \<noteq> []"
      using headers_ok [OF env(1) c1(2)] True u1(1) by auto
    then show ?thesis using that [of c'] True u1 f1(5) l(7) by (simp add: cframe_def)
  next
    case False
    then show ?thesis using that [of c1] u1 f1(5) l(7) out_msgs_ok [OF c1(2)] by simp
  qed
  let ?c' = "(conn_set_state conn_mwrite c2)\<lparr>msgcurr := 0\<rparr>"
  have "get_stop e kt v' = Some (?c', gv_srv v')"
    unfolding get_stop_def Let_def g(2) using c1(1) c2(1) by (simp add: end_text_def)
  then have "process_get_command e (tokenize_command line MAX_TOKENS) rc False (c, srv) = Some (?c', gv_srv v')"
    using g(1) by (simp add: process_get_command_def tk(1) ws(1))
  moreover have "sent h ?c' = sent h c2" "udp_framed h ?c' = udp_framed h c2" "headed ?c' = headed c2" "msglist ?c' = msglist c2" for h
    by (simp_all add: conn_set_state_def sent_def msg_body_def udp_framed_def datagrams_def headed_def)
  moreover have "c_state ?c' = conn_mwrite" "ilist ?c' = ?H" "is_udp ?c' = is_udp c" "request_id ?c' = request_id c" "c_item ?c' = c_item c"
      "msgs_ok ?c'" "msgcurr ?c' = 0" "rbuf ?c' = rbuf c" "noreply ?c' = noreply c"
    using c2(4-10) by (simp_all add: conn_set_state_def msgs_ok_def)
  ultimately show ?thesis using l(4-8) c2(2,3) c1(4) o(2)
    by (intro exI [of _ ?c'] exI [of _ "gv_srv v'"] exI [of _ s']) simp
qed

end
