(* ===== verification/Text_Commands.thy ===== *)
theory Text_Commands
  imports Text_Get
begin

text \<open>
  The commands of the text protocol that change the cache (\<open>memcached.c\<close>): the storage commands with the reading of their
  value, touch, incr and decr, delete and flush_all, and the choice of the command by the words of a line. Connections are text connections;
  reading a value from the socket is an event with the bytes that arrived.
\<close>

section \<open>Replies\<close>

definition out_mstring :: "bool \<Rightarrow> conn \<Rightarrow> conn" where
  "out_mstring use_noreply c =
     (if noreply c \<and> use_noreply then conn_set_state conn_new_cmd (c\<lparr>noreply := False\<rparr>)
      else (conn_set_state conn_write (c\<lparr>wbuf := wbuf c @ [CR, LF]\<rparr>))\<lparr>write_and_go := conn_new_cmd\<rparr>)"

definition set_noreply_maybe :: "token_t list \<Rightarrow> conn \<Rightarrow> bool \<times> conn" where
  "set_noreply_maybe tks c =
     (let c = (if tok_value (tks ! (length tks - 2)) = Some (bytes ''noreply'') then c\<lparr>noreply := True\<rparr> else c)
      in (noreply c, c))"

definition token :: "token_t list \<Rightarrow> nat \<Rightarrow> byte list" where
  "token tks i = the (tok_value (tks ! i))"

section \<open>Storage commands\<close>

abbreviation (input) INT_MAX :: int where "INT_MAX \<equiv> 2147483647"

definition bad_format :: "cenv \<Rightarrow> conn \<Rightarrow> conn" where
  "bad_format e = out_string (e_ok e) (bytes ''CLIENT_ERROR bad command line format'')"

text \<open>No item: the client is told why, its value will be swallowed, and a set removes the old item.\<close>

definition update_failed :: "cenv \<Rightarrow> byte list \<Rightarrow> u32 \<Rightarrow> int \<Rightarrow> nread \<Rightarrow> conn \<times> server \<Rightarrow> (conn \<times> server) option" where
  "update_failed e k fl vlen comm cs =
     (let (c, srv) = cs; st = srv_settings srv; s = srv_mc srv in do {
        size_ok \<leftarrow> item_size_ok st (m_slabs s) (length k) fl vlen;
        let c = out_string (e_ok e) (if \<not> size_ok then bytes ''SERVER_ERROR object too large for cache''
                  else bytes ''SERVER_ERROR out of memory storing object'') c;
        let c = c\<lparr>write_and_go := conn_swallow, sbytes := vlen\<rparr>;
        s \<leftarrow> (if comm = NREAD_SET then do {
            (it, s) \<leftarrow> item_get st (e_hash e) (e_thread e) k False s;
            if it \<noteq> NULL then do { s \<leftarrow> item_unlink (e_hash e) it s; item_remove it s } else Some s
          } else Some s);
        Some (c, srv\<lparr>srv_mc := s\<rparr>)
      })"

text \<open>The item is there: the connection reads the value into it.\<close>

definition update_reads :: "addr \<Rightarrow> u64 \<Rightarrow> nread \<Rightarrow> conn \<times> server \<Rightarrow> conn \<times> server" where
  "update_reads it req_cas comm cs =
     (let (c, srv) = cs; s = m_upd it (ITEM_set_cas req_cas) (srv_mc srv); x = m_heap s it
      in (conn_set_state conn_nread (c\<lparr>c_item := it, ritem := (if has_flag x ITEM_CHUNKED then ITEM_schunk (m_heap s) it else 0),
            rlbytes := nbytes x, cmd := comm\<rparr>),
          srv\<lparr>srv_mc := s\<rparr>))"

definition process_update_command :: "cenv \<Rightarrow> token_t list \<Rightarrow> nread \<Rightarrow> bool \<Rightarrow> conn \<times> server \<Rightarrow> (conn \<times> server) option" where
  "process_update_command e tks comm handle_cas cs =
     (let (c, srv) = cs; c = snd (set_noreply_maybe tks c); k = token tks 1 in
      if tok_length (tks ! 1) > KEY_MAX_LENGTH then Some (bad_format e c, srv)
      else case (safe_strtoul (token tks 2), safe_strtol (token tks 3), safe_strtol (token tks 4)) of
        (Some fl, Some exptime_int, Some vl) \<Rightarrow>
          let ex = (if sint exptime_int < 0 then REALTIME_MAXDELTA + 1 else sint exptime_int);
              cas_arg = (if handle_cas then safe_strtoull (token tks 5) else Some 0);
              vlen = sint vl
          in (case cas_arg of
                None \<Rightarrow> Some (bad_format e c, srv)
              | Some req_cas \<Rightarrow>
                  if vlen < 0 \<or> vlen > INT_MAX - 2 then Some (bad_format e c, srv)
                  else do {
                    let vlen = vlen + 2;
                    let (c, srv) = record_prefix (\<lambda>d hash a b. stats_prefix_record_set d hash a b k) e (c, srv);
                    (it, s) \<leftarrow> item_alloc (srv_settings srv) (e_hash e) (e_os e) k fl (realtime srv ex) vlen (srv_mc srv);
                    let srv = srv\<lparr>srv_mc := s\<rparr>;
                    if it = NULL then update_failed e k fl vlen comm (c, srv)
                    else Some (update_reads it req_cas comm (c, srv))
                  })
      | _ \<Rightarrow> Some (bad_format e c, srv))"

text \<open>Bytes for the value of an item that is not chunked, from the input buffer.\<close>

definition nread_copy :: "conn \<times> server \<Rightarrow> conn \<times> server" where
  "nread_copy cs =
     (let (c, srv) = cs; tocopy = (if int (length (rbuf c)) > rlbytes c then nat (rlbytes c) else length (rbuf c))
      in (c\<lparr>ritem := ritem c + tocopy, rlbytes := rlbytes c - int tocopy, rbuf := drop tocopy (rbuf c)\<rparr>,
          srv\<lparr>srv_mc := m_upd (c_item c) (\<lambda>x. x\<lparr>it_data := poke (ritem c) (take tocopy (rbuf c)) (it_data x)\<rparr>) (srv_mc srv)\<rparr>))"

text \<open>Bytes \<open>bs\<close> (at most \<open>rlbytes\<close>) that arrive from the socket.\<close>

definition nread_bytes :: "byte list \<Rightarrow> conn \<times> server \<Rightarrow> conn \<times> server" where
  "nread_bytes bs cs =
     (let (c, srv) = cs
      in ((count_read (length bs) c)\<lparr>ritem := ritem c + length bs, rlbytes := rlbytes c - int (length bs)\<rparr>,
          srv\<lparr>srv_mc := m_upd (c_item c) (\<lambda>x. x\<lparr>it_data := poke (ritem c) bs (it_data x)\<rparr>) (srv_mc srv)\<rparr>))"

text \<open>The value ends its line; \<open>ritem\<close> is the last chunk of a chunked item.\<close>

definition value_valid :: "conn \<Rightarrow> heap \<Rightarrow> bool" where
  "value_valid c h =
     (let x = h (c_item c) in
      if \<not> has_flag x ITEM_CHUNKED then take 2 (drop (nat (nbytes x) - 2) (it_data x)) = [CR, LF]
      else let ch = h (ritem c); used = nat (ch_used ch) in
        (if used > 1 then [it_data ch ! (used - 2), it_data ch ! (used - 1)]
         else [it_data (h (prev ch)) ! (nat (ch_used (h (prev ch))) - 1), it_data ch ! (used - 1)]) = [CR, LF])"

text \<open>The first three bytes of the buffer are the return code of a meta command.\<close>

definition meta_code :: "string \<Rightarrow> conn \<Rightarrow> conn" where
  "meta_code code c = c\<lparr>wbuf := bytes code @ drop 3 (wbuf c)\<rparr>"

definition store_reply :: "cenv \<Rightarrow> store_item_type \<Rightarrow> conn \<Rightarrow> conn" where
  "store_reply e ret c =
     (if mset_res c then
        (case ret of
           STORED \<Rightarrow> out_mstring True (meta_code ''ST '' c)
         | EXISTS \<Rightarrow> out_mstring False (meta_code ''EX '' c)
         | NOT_FOUND \<Rightarrow> out_mstring False (meta_code ''NF '' c)
         | NOT_STORED \<Rightarrow> out_mstring False (meta_code ''NS '' c)
         | _ \<Rightarrow> out_string (e_ok e) (bytes ''SERVER_ERROR Unhandled storage type.'') (c\<lparr>noreply := False\<rparr>))
      else
        out_string (e_ok e) (case ret of
           STORED \<Rightarrow> bytes ''STORED''
         | EXISTS \<Rightarrow> bytes ''EXISTS''
         | NOT_FOUND \<Rightarrow> bytes ''NOT_FOUND''
         | NOT_STORED \<Rightarrow> bytes ''NOT_STORED''
         | _ \<Rightarrow> bytes ''SERVER_ERROR Unhandled storage type.'') c)"

definition complete_nread_ascii :: "cenv \<Rightarrow> conn \<times> server \<Rightarrow> (conn \<times> server) option" where
  "complete_nread_ascii e cs =
     (let (c, srv) = cs; it = c_item c; s = srv_mc srv; cls = ITEM_clsid (m_heap s it);
          c = upd_tstats (\<lambda>ts. ts\<lparr>set_cmds := (set_cmds ts)(cls := set_cmds ts cls + 1)\<rparr>) c
      in do {
        (c, s) \<leftarrow> (if \<not> value_valid c (m_heap s)
           then Some (out_string (e_ok e) (bytes ''CLIENT_ERROR bad data chunk'') (if mset_res c then c\<lparr>noreply := False\<rparr> else c), s)
           else do {
             (ret, _, s) \<leftarrow> store_item (srv_settings srv) (e_hash e) (e_os e) (e_oss e) (e_thread e) (set_stale c) it (cmd c) s;
             Some (store_reply e ret c, s)
           });
        s \<leftarrow> item_remove it s;
        Some (c\<lparr>set_stale := False, mset_res := False, c_item := NULL\<rparr>, srv\<lparr>srv_mc := s\<rparr>)
      })"

section \<open>Other commands\<close>

definition process_touch_command :: "cenv \<Rightarrow> token_t list \<Rightarrow> conn \<times> server \<Rightarrow> (conn \<times> server) option" where
  "process_touch_command e tks cs =
     (let (c, srv) = cs; c = snd (set_noreply_maybe tks c); k = token tks 1 in
      if tok_length (tks ! 1) > KEY_MAX_LENGTH then Some (bad_format e c, srv)
      else case safe_strtol (token tks 2) of
        None \<Rightarrow> Some (out_string (e_ok e) (bytes ''CLIENT_ERROR invalid exptime argument'') c, srv)
      | Some x \<Rightarrow> do {
          (it, s) \<leftarrow> item_touch (srv_settings srv) (e_hash e) (e_thread e) k (realtime srv (sint x)) (srv_mc srv);
          let c = upd_tstats (get_stats True it (m_heap s)) c;
          if it \<noteq> NULL then do {
            s \<leftarrow> item_remove it s;
            Some (out_string (e_ok e) (bytes ''TOUCHED'') c, srv\<lparr>srv_mc := s\<rparr>)
          } else Some (out_string (e_ok e) (bytes ''NOT_FOUND'') c, srv\<lparr>srv_mc := s\<rparr>)
        })"

definition process_arithmetic_command :: "cenv \<Rightarrow> token_t list \<Rightarrow> bool \<Rightarrow> conn \<times> server \<Rightarrow> (conn \<times> server) option" where
  "process_arithmetic_command e tks incr cs =
     (let (c, srv) = cs; c = snd (set_noreply_maybe tks c); k = token tks 1; out = (\<lambda>str. out_string (e_ok e) str) in
      if tok_length (tks ! 1) > KEY_MAX_LENGTH then Some (bad_format e c, srv)
      else case safe_strtoull (token tks 2) of
        None \<Rightarrow> Some (out (bytes ''CLIENT_ERROR invalid numeric delta argument'') c, srv)
      | Some delta \<Rightarrow> do {
          (res, buf, _, s) \<leftarrow> add_delta (srv_settings srv) (e_hash e) (e_os e) (e_beyond e) (e_thread e) k incr delta None (srv_mc srv);
          Some (case res of
              DELTA_OK \<Rightarrow> out buf c
            | NON_NUMERIC \<Rightarrow> out (bytes ''CLIENT_ERROR cannot increment or decrement non-numeric value'') c
            | EOM \<Rightarrow> out (bytes ''SERVER_ERROR out of memory'') c
            | DELTA_ITEM_NOT_FOUND \<Rightarrow> out (bytes ''NOT_FOUND'')
                (upd_tstats (\<lambda>ts. if incr then ts\<lparr>incr_misses := incr_misses ts + 1\<rparr> else ts\<lparr>decr_misses := decr_misses ts + 1\<rparr>) c)
            | DELTA_ITEM_CAS_MISMATCH \<Rightarrow> c, srv\<lparr>srv_mc := s\<rparr>)
        })"

definition delete_key :: "cenv \<Rightarrow> byte list \<Rightarrow> conn \<times> server \<Rightarrow> (conn \<times> server) option" where
  "delete_key e k cs =
     (let (c, srv) = cs in do {
        (it, s) \<leftarrow> do_item_get (srv_settings srv) (e_thread e) k (e_hash e k) False (srv_mc srv);
        if it \<noteq> NULL then do {
          let cls = ITEM_clsid (m_heap s it);
          let c = upd_tstats (\<lambda>ts. ts\<lparr>delete_hits := (delete_hits ts)(cls := delete_hits ts cls + 1)\<rparr>) c;
          s \<leftarrow> do_item_unlink it (e_hash e k) s;
          s \<leftarrow> do_item_remove it s;
          Some (out_string (e_ok e) (bytes ''DELETED'') c, srv\<lparr>srv_mc := s\<rparr>)
        } else Some (out_string (e_ok e) (bytes ''NOT_FOUND'') (upd_tstats (\<lambda>ts. ts\<lparr>delete_misses := delete_misses ts + 1\<rparr>) c), srv\<lparr>srv_mc := s\<rparr>)
      })"

definition process_delete_command :: "cenv \<Rightarrow> token_t list \<Rightarrow> conn \<times> server \<Rightarrow> (conn \<times> server) option" where
  "process_delete_command e tks cs =
     (let (c, srv) = cs; n = length tks; k = token tks 1;
          hold_is_zero = (tok_value (tks ! 2) = Some (bytes ''0''));
          (sets_noreply, c) = (if n > 3 then set_noreply_maybe tks c else (False, c))
      in if n > 3 \<and> \<not> (n = 4 \<and> (hold_is_zero \<or> sets_noreply) \<or> n = 5 \<and> hold_is_zero \<and> sets_noreply)
         then Some (out_string (e_ok e) (bytes ''CLIENT_ERROR bad command line format.  Usage: delete <key> [noreply]'') c, srv)
         else if tok_length (tks ! 1) > KEY_MAX_LENGTH then Some (bad_format e c, srv)
         else delete_key e k (record_prefix (\<lambda>d hash a b. stats_prefix_record_delete d hash a b k) e (c, srv)))"

text \<open>\<open>strtol(str, NULL, 10)\<close>, and whether it sets \<open>errno\<close> to \<open>ERANGE\<close>.\<close>

definition strtol10 :: "byte list \<Rightarrow> int \<times> bool" where
  "strtol10 str = (case scan_number 10 str of None \<Rightarrow> (0, False) | Some (neg, v, r) \<Rightarrow> (let (l, er) = strtoll_val neg v in (sint l, er)))"

text \<open>flush_all; \<open>stale\<close>: an earlier call left \<open>ERANGE\<close> in \<open>errno\<close>, which nothing resets.\<close>

definition process_flush_all :: "cenv \<Rightarrow> bool \<Rightarrow> token_t list \<Rightarrow> conn \<times> server \<Rightarrow> conn \<times> server" where
  "process_flush_all e stale tks cs =
     (let (c, srv) = cs; c = snd (set_noreply_maybe tks c); c = upd_tstats (\<lambda>ts. ts\<lparr>flush_cmds := flush_cmds ts + 1\<rparr>) c;
          out = (\<lambda>str. out_string (e_ok e) (bytes str) c); st = srv_settings srv; s = srv_mc srv
      in if \<not> flush_enabled srv then (out ''CLIENT_ERROR flush_all not allowed'', srv)
         else
           let (ex, er) = (if length tks \<noteq> (if noreply c then 3 else 2) then strtol10 (token tks 1) else (0, False))
           in if length tks \<noteq> (if noreply c then 3 else 2) \<and> (er \<or> stale) then (out ''CLIENT_ERROR bad command line format'', srv)
              else
                let new_oldest = (if ex > 0 then realtime srv ex else current_time s);
                    (st, s) = (if use_cas st then
                        let st = st\<lparr>oldest_live := new_oldest - 1\<rparr> in
                        if oldest_live st \<le> current_time s then let (c, s) = get_cas_id s in (st\<lparr>oldest_cas := c\<rparr>, s) else (st, s)
                      else (st\<lparr>oldest_live := new_oldest\<rparr>, s))
                in (out ''OK'', srv\<lparr>srv_settings := st, srv_mc := s\<rparr>))"

section \<open>The choice of a command\<close>

datatype slabs_command = Slabs_reassign | Slabs_automove | Slabs_error
datatype crawler_command = Crawl | Metadump | Tocrawl | Crawler_sleep | Crawler_enable | Crawler_disable | Crawler_error

datatype command = Cmd_get bool bool | Cmd_update nread bool | Cmd_arithmetic bool | Cmd_mget | Cmd_mset | Cmd_mdelete | Cmd_mn | Cmd_meta
  | Cmd_delete | Cmd_touch | Cmd_stats | Cmd_flush_all | Cmd_version | Cmd_quit | Cmd_shutdown | Cmd_slabs slabs_command
  | Cmd_crawler crawler_command | Cmd_watch | Cmd_memlimit | Cmd_verbosity | Cmd_lru | Cmd_http | Cmd_unknown

text \<open>\<open>strcmp(tokens[i].value, w) == 0\<close>.\<close>

definition token_is :: "token_t list \<Rightarrow> nat \<Rightarrow> string \<Rightarrow> bool" where
  "token_is tks i w \<longleftrightarrow> tok_value (tks ! i) = Some (bytes w)"

definition update_kind :: "token_t list \<Rightarrow> nread option" where
  "update_kind tks =
     (if token_is tks 0 ''add'' then Some NREAD_ADD
      else if token_is tks 0 ''set'' then Some NREAD_SET
      else if token_is tks 0 ''replace'' then Some NREAD_REPLACE
      else if token_is tks 0 ''prepend'' then Some NREAD_PREPEND
      else if token_is tks 0 ''append'' then Some NREAD_APPEND
      else None)"

definition dispatch_slabs :: "token_t list \<Rightarrow> slabs_command" where
  "dispatch_slabs tks =
     (if length tks = 5 \<and> token_is tks 1 ''reassign'' then Slabs_reassign
      else if length tks \<ge> 4 \<and> token_is tks 1 ''automove'' then Slabs_automove
      else Slabs_error)"

definition dispatch_crawler :: "token_t list \<Rightarrow> crawler_command" where
  "dispatch_crawler tks =
     (let n = length tks in
      if n = 4 \<and> token_is tks 1 ''crawl'' then Crawl
      else if n = 4 \<and> token_is tks 1 ''metadump'' then Metadump
      else if n = 4 \<and> token_is tks 1 ''tocrawl'' then Tocrawl
      else if n = 4 \<and> token_is tks 1 ''sleep'' then Crawler_sleep
      else if n = 3 \<and> token_is tks 1 ''enable'' then Crawler_enable
      else if n = 3 \<and> token_is tks 1 ''disable'' then Crawler_disable
      else Crawler_error)"

text \<open>The commands behind the retrieval, storage and meta commands.\<close>

definition dispatch_admin :: "token_t list \<Rightarrow> command" where
  "dispatch_admin tks =
     (let n = length tks; is = token_is tks 0 in
      if n = 2 \<and> is ''version'' then Cmd_version
      else if n = 2 \<and> is ''quit'' then Cmd_quit
      else if n = 2 \<and> is ''shutdown'' then Cmd_shutdown
      else if n > 1 \<and> is ''slabs'' then Cmd_slabs (dispatch_slabs tks)
      else if n > 1 \<and> is ''lru_crawler'' then Cmd_crawler (dispatch_crawler tks)
      else if n > 1 \<and> is ''watch'' then Cmd_watch
      else if (n = 3 \<or> n = 4) \<and> is ''cache_memlimit'' then Cmd_memlimit
      else if (n = 3 \<or> n = 4) \<and> is ''verbosity'' then Cmd_verbosity
      else if n \<ge> 3 \<and> is ''lru'' then Cmd_lru
      else if n \<ge> 2 \<and> strncmp_eq (token tks (n - 2)) (bytes ''HTTP/'') 5 then Cmd_http
      else Cmd_unknown)"

definition dispatch :: "token_t list \<Rightarrow> command" where
  "dispatch tks =
     (let n = length tks; is = token_is tks 0 in
      if n \<ge> 3 \<and> (is ''get'' \<or> is ''bget'') then Cmd_get False False
      else if (n = 6 \<or> n = 7) \<and> update_kind tks \<noteq> None then Cmd_update (the (update_kind tks)) False
      else if (n = 7 \<or> n = 8) \<and> is ''cas'' then Cmd_update NREAD_CAS True
      else if (n = 4 \<or> n = 5) \<and> is ''incr'' then Cmd_arithmetic True
      else if n \<ge> 3 \<and> is ''gets'' then Cmd_get True False
      else if n \<ge> 3 \<and> is ''mg'' then Cmd_mget
      else if n \<ge> 3 \<and> is ''ms'' then Cmd_mset
      else if n \<ge> 3 \<and> is ''md'' then Cmd_mdelete
      else if n \<ge> 2 \<and> is ''mn'' then Cmd_mn
      else if n \<ge> 2 \<and> is ''me'' then Cmd_meta
      else if (n = 4 \<or> n = 5) \<and> is ''decr'' then Cmd_arithmetic False
      else if n \<ge> 3 \<and> n \<le> 5 \<and> is ''delete'' then Cmd_delete
      else if (n = 4 \<or> n = 5) \<and> is ''touch'' then Cmd_touch
      else if n \<ge> 4 \<and> is ''gat'' then Cmd_get False True
      else if n \<ge> 4 \<and> is ''gats'' then Cmd_get True True
      else if n \<ge> 2 \<and> is ''stats'' then Cmd_stats
      else if n \<ge> 2 \<and> n \<le> 4 \<and> is ''flush_all'' then Cmd_flush_all
      else dispatch_admin tks)"

text \<open>The pages of a class are asked for; \<open>slabs_reassign\<close> decides (the lock of the page mover: \<open>free\<close>).\<close>

definition process_slabs_reassign :: "cenv \<Rightarrow> bool \<Rightarrow> bool \<Rightarrow> token_t list \<Rightarrow> conn \<times> server \<Rightarrow> conn \<times> server" where
  "process_slabs_reassign e stale free tks cs =
     (let (c, srv) = cs; out = (\<lambda>str. out_string (e_ok e) (bytes str) c); st = srv_settings srv; s = srv_mc srv in
      if \<not> slab_reassign st then (out ''CLIENT_ERROR slab reassignment disabled'', srv)
      else
        let (src, er1) = strtol10 (token tks 2); (dst, er2) = strtol10 (token tks 3) in
        if er1 \<or> er2 \<or> stale then (out ''CLIENT_ERROR bad command line format'', srv)
        else
          let (rv, rb) = slabs_reassign free (m_slabs s) (signed_take_bit 31 src) (signed_take_bit 31 dst) (m_rebal s)
          in (case rv of
                REASSIGN_OK \<Rightarrow> out ''OK''
              | REASSIGN_RUNNING \<Rightarrow> out ''BUSY currently processing reassign request''
              | REASSIGN_BADCLASS \<Rightarrow> out ''BADCLASS invalid src or dst class id''
              | REASSIGN_NOSPARE \<Rightarrow> out ''NOSPARE source class has no spare pages''
              | REASSIGN_SRC_DST_SAME \<Rightarrow> out ''SAME src and dst class are identical'',
              srv\<lparr>srv_mc := s\<lparr>m_rebal := rb\<rparr>\<rparr>))"

text \<open>The result of a command line: the command was carried out here, or it belongs to a handler outside this theory.\<close>

datatype outcome = Handled "conn \<times> server" | Elsewhere command "token_t list" "conn \<times> server"

text \<open>\<open>stale\<close> and \<open>free\<close> as above.\<close>

definition process_command :: "cenv \<Rightarrow> bool \<Rightarrow> bool \<Rightarrow> byte list \<Rightarrow> conn \<times> server \<Rightarrow> outcome option" where
  "process_command e stale free line cs =
     (let (c, srv) = cs; (r, c) = add_msghdr (e_ok e) (c\<lparr>msgcurr := 0, msglist := [], iovused := 0\<rparr>);
          out = (\<lambda>str. Some (Handled (out_string (e_ok e) (bytes str) c, srv)))
      in if \<not> r then out ''SERVER_ERROR out of memory preparing response''
         else
           let tks = tokenize_command line MAX_TOKENS in
           (case dispatch tks of
              Cmd_get return_cas should_touch \<Rightarrow> map_option Handled (process_get_command e tks return_cas should_touch (c, srv))
            | Cmd_update comm handle_cas \<Rightarrow> map_option Handled (process_update_command e tks comm handle_cas (c, srv))
            | Cmd_arithmetic incr \<Rightarrow> map_option Handled (process_arithmetic_command e tks incr (c, srv))
            | Cmd_delete \<Rightarrow> map_option Handled (process_delete_command e tks (c, srv))
            | Cmd_touch \<Rightarrow> map_option Handled (process_touch_command e tks (c, srv))
            | Cmd_flush_all \<Rightarrow> Some (Handled (process_flush_all e stale tks (c, srv)))
            | Cmd_mn \<Rightarrow> out ''EN''
            | Cmd_quit \<Rightarrow> Some (Handled (conn_set_state conn_closing c, srv))
            | Cmd_slabs Slabs_reassign \<Rightarrow> Some (Handled (process_slabs_reassign e stale free tks (c, srv)))
            | Cmd_slabs Slabs_error \<Rightarrow> out ''ERROR''
            | Cmd_crawler Crawler_error \<Rightarrow> out ''ERROR''
            | Cmd_http \<Rightarrow> Some (Handled (conn_set_state conn_closing c, srv))
            | Cmd_unknown \<Rightarrow> out ''ERROR''
            | other \<Rightarrow> Some (Elsewhere other tks (c, srv))))"

text \<open>
  A line of the input: the bytes up to a newline, without the carriage return before it, and as a string (up to a zero byte). \<open>None\<close> in the first component: more
  input is needed. Without a newline in 1024 bytes only the retrieval of many keys may go on.
\<close>

fun newline_at :: "byte list \<Rightarrow> nat option" where
  "newline_at [] = None"
| "newline_at (b # bs) = (if b = LF then Some 0 else map_option Suc (newline_at bs))"

definition try_read_command_ascii :: "cenv \<Rightarrow> bool \<Rightarrow> bool \<Rightarrow> conn \<times> server \<Rightarrow> outcome option option" where
  "try_read_command_ascii e stale free cs =
     (let (c, srv) = cs; inp = rbuf c in
      if inp = [] then Some None
      else case newline_at inp of
        None \<Rightarrow>
          if length inp > 1024 then
            let ptr = dropWhile (\<lambda>b. b = SP) inp in
            if length inp - length ptr > 100 \<or> (\<not> strncmp_eq ptr (bytes ''get '') 4 \<and> \<not> strncmp_eq ptr (bytes ''gets '') 5)
            then Some (Some (Handled (conn_set_state conn_closing c, srv)))
            else Some None
          else Some None
      | Some el \<Rightarrow> do {
          let line = take (if el > 1 \<and> inp ! (el - 1) = CR then el - 1 else el) inp;
          r \<leftarrow> process_command e stale free (takeWhile (\<lambda>b. b \<noteq> 0) line) (c, srv);
          let consume = (\<lambda>(c, srv). (c\<lparr>rbuf := drop (el + 1) inp\<rparr>, srv));
          Some (Some (case r of Handled cs \<Rightarrow> Handled (consume cs) | Elsewhere other tks cs \<Rightarrow> Elsewhere other tks (consume cs)))
        })"

end
