(* ===== verification/Text_Store_Ok.thy ===== *)
theory Text_Store_Ok
  imports Text_Commands Cache_History
begin

unbundle bit_operations_syntax

text \<open>
  A storage command from its line to its reply: the item is allocated, its value arrives in pieces while other threads work,
  and the completed item is stored under its key.
\<close>

section \<open>The value arrives\<close>

text \<open>
  The bytes \<open>bs\<close> of the value have arrived since \<open>cs\<close>, from the input buffer and from the socket; in between other threads worked. They
  neither write into the item of the connection nor link it, and the connection keeps its references.
\<close>

inductive uploading ::
  "cenv \<Rightarrow> settings \<Rightarrow> conn \<times> server \<Rightarrow> (addr \<Rightarrow> nat) \<Rightarrow> byte list \<Rightarrow> conn \<times> server \<Rightarrow> (addr \<Rightarrow> nat) \<Rightarrow> bool" for e st cs R where
  nothing: "uploading e st cs R [] cs R"
| buffered: "uploading e st cs R bs (c, srv) R' \<Longrightarrow> uploading e st cs R (bs @ take (nat (rlbytes c)) (rbuf c)) (nread_copy (c, srv)) R'"
| received: "uploading e st cs R bs (c, srv) R' \<Longrightarrow> int (length p) \<le> rlbytes c \<Longrightarrow> uploading e st cs R (bs @ p) (nread_bytes p (c, srv)) R'"
| others: "uploading e st cs R bs (c, srv) R' \<Longrightarrow> cache_step st (e_hash e) w (srv_mc srv) R' s' R'' \<Longrightarrow> w \<noteq> c_item c \<Longrightarrow>
    R'' (c_item c) = R' (c_item c) \<Longrightarrow> \<not> has_flag (m_heap s' (c_item c)) ITEM_LINKED \<Longrightarrow>
    uploading e st cs R bs (c, srv\<lparr>srv_mc := s'\<rparr>) R''"

text \<open>An item that is being filled, with \<open>bs\<close> already there.\<close>

definition filling :: "cenv \<Rightarrow> settings \<Rightarrow> item \<Rightarrow> byte list \<Rightarrow> conn \<Rightarrow> mc \<Rightarrow> (addr \<Rightarrow> nat) \<Rightarrow> bool" where
  "filling e st i bs c s R \<longleftrightarrow> (\<exists>M. good st (e_hash e) s R M) \<and> 0 < R (c_item c) \<and> \<not> has_flag (m_heap s (c_item c)) ITEM_LINKED \<and>
     (let x = m_heap s (c_item c) in key x = key i \<and> FLAGS_CONV x = FLAGS_CONV i \<and> nbytes x = nbytes i \<and> take (length bs) (it_data x) = bs) \<and>
     ritem c = length bs \<and> rlbytes c = nbytes i - int (length bs) \<and> 0 \<le> rlbytes c"

lemma fill_piece:
  assumes f: "filling e st i bs c s R" and p: "int (length p) \<le> rlbytes c"
    and c': "c_item c' = c_item c" "ritem c' = ritem c + length p" "rlbytes c' = rlbytes c - int (length p)"
  shows "filling e st i (bs @ p) c' (m_upd (c_item c) (\<lambda>x. x\<lparr>it_data := poke (ritem c) p (it_data x)\<rparr>) s) R"
proof -
  let ?it = "c_item c"
  obtain M where g: "good st (e_hash e) s R M" "0 < R ?it" "\<not> has_flag (m_heap s ?it) ITEM_LINKED" using f by (auto simp: filling_def)
  let ?d = "poke (ritem c) p (it_data (m_heap s ?it))"
  have e: "m_upd ?it (\<lambda>x. x\<lparr>it_data := poke (ritem c) p (it_data x)\<rparr>) s = m_upd ?it (\<lambda>x. x\<lparr>it_data := ?d\<rparr>) s"
    by (simp add: m_upd_def upd_def)
  have "good st (e_hash e) (m_upd ?it (\<lambda>x. x\<lparr>it_data := ?d\<rparr>) s) R M" by (rule good_fill [OF g])
  moreover have b: "take (length bs) (it_data (m_heap s ?it)) = bs" using f by (simp add: filling_def Let_def)
  moreover have "length (take (length bs) (it_data (m_heap s ?it))) = length bs" by (simp only: b)
  moreover have "has_flag (x\<lparr>it_data := d\<rparr>) fl = has_flag x fl" for x d fl by (simp add: has_flag_def)
  ultimately show ?thesis unfolding e using f c' p g(2,3)
    by (auto simp: filling_def Let_def upd_apply poke_def FLAGS_CONV_def has_flag_def)
qed

text \<open>What the arrival of bytes leaves of the connection and of the server.\<close>

definition same_but_input :: "conn \<times> server \<Rightarrow> conn \<times> server \<Rightarrow> bool" where
  "same_but_input cs cs' \<longleftrightarrow> (case (cs, cs') of ((c, srv), (c', srv')) \<Rightarrow>
     c'\<lparr>ritem := 0, rlbytes := 0, rbuf := [], c_stats := c_stats c\<rparr> = c\<lparr>ritem := 0, rlbytes := 0, rbuf := []\<rparr> \<and> srv'\<lparr>srv_mc := srv_mc srv\<rparr> = srv)"

lemma same_but_inputD:
  assumes "same_but_input (c, srv) (c', srv')"
  shows "c_item c' = c_item c" "cmd c' = cmd c" "noreply c' = noreply c" "mset_res c' = mset_res c" "set_stale c' = set_stale c" "wsize c' = wsize c"
    "srv_settings srv' = srv_settings srv" "c_transport c' = c_transport c"
proof -
  have c: "c'\<lparr>ritem := 0, rlbytes := 0, rbuf := [], c_stats := c_stats c\<rparr> = c\<lparr>ritem := 0, rlbytes := 0, rbuf := []\<rparr>" and s: "srv'\<lparr>srv_mc := srv_mc srv\<rparr> = srv"
    using assms by (simp_all add: same_but_input_def)
  show "c_item c' = c_item c" "cmd c' = cmd c" "noreply c' = noreply c" "mset_res c' = mset_res c" "set_stale c' = set_stale c" "wsize c' = wsize c"
    "c_transport c' = c_transport c"
    using arg_cong [OF c, of c_item] arg_cong [OF c, of cmd] arg_cong [OF c, of noreply] arg_cong [OF c, of mset_res] arg_cong [OF c, of set_stale]
      arg_cong [OF c, of wsize] arg_cong [OF c, of c_transport] by simp_all
  show "srv_settings srv' = srv_settings srv" using arg_cong [OF s, of srv_settings] by simp
qed

lemma filling_step:
  assumes f: "filling e st i bs c s R" and st: "cache_step st (e_hash e) w s R s' R'" "w \<noteq> c_item c" "R' (c_item c) = R (c_item c)"
    "\<not> has_flag (m_heap s' (c_item c)) ITEM_LINKED" and tr: "tail_repair_time st = 0"
  shows "filling e st i bs c s' R'"
proof -
  obtain M where g: "good st (e_hash e) s R M" "0 < R (c_item c)" using f by (auto simp: filling_def)
  have "stepped st (e_hash e) w s R s' R'" by (rule cache_step_good [OF st(1) g(1) tr])
  then have "\<exists>M'. good st (e_hash e) s' R' M'" "same_item s s' (c_item c)" using g(2) st(2,3) by (simp_all add: stepped_def)
  then show ?thesis using f st(3,4) by (simp add: filling_def same_item_def Let_def)
qed

lemma uploading_filling:
  assumes "uploading e st (c, srv) R bs cs' R'" "filling e st i [] c (srv_mc srv) R" "tail_repair_time st = 0"
  shows "\<exists>c' srv'. cs' = (c', srv') \<and> filling e st i bs c' (srv_mc srv') R' \<and> R' (c_item c) = R (c_item c) \<and> same_but_input (c, srv) (c', srv')"
  using assms(1)
proof (induction)
  case nothing
  then show ?case using assms(2) by (simp add: same_but_input_def)
next
  case (buffered bs c1 srv1 R')
  then have f: "filling e st i bs c1 (srv_mc srv1) R'" and r: "R' (c_item c) = R (c_item c)" and sb: "same_but_input (c, srv) (c1, srv1)" by auto
  let ?p = "take (nat (rlbytes c1)) (rbuf c1)"
  have "0 \<le> rlbytes c1" using f by (simp add: filling_def)
  then have n: "(if int (length (rbuf c1)) > rlbytes c1 then nat (rlbytes c1) else length (rbuf c1)) = length ?p" "int (length ?p) \<le> rlbytes c1" by auto
  have t: "take (length ?p) (rbuf c1) = ?p" by (simp add: min_def)
  let ?c = "c1\<lparr>ritem := ritem c1 + length ?p, rlbytes := rlbytes c1 - int (length ?p), rbuf := drop (length ?p) (rbuf c1)\<rparr>"
  let ?s = "m_upd (c_item c1) (\<lambda>x. x\<lparr>it_data := poke (ritem c1) ?p (it_data x)\<rparr>) (srv_mc srv1)"
  have "nread_copy (c1, srv1) = (?c, srv1\<lparr>srv_mc := ?s\<rparr>)" unfolding nread_copy_def Let_def prod.case n(1) t ..
  moreover have "filling e st i (bs @ ?p) ?c ?s R'" by (rule fill_piece [OF f n(2)]) simp_all
  moreover have "same_but_input (c, srv) (?c, srv1\<lparr>srv_mc := ?s\<rparr>)" using sb by (simp add: same_but_input_def)
  ultimately show ?case using r by simp
next
  case (received bs c1 srv1 R' p)
  then have f: "filling e st i bs c1 (srv_mc srv1) R'" and r: "R' (c_item c) = R (c_item c)" and sb: "same_but_input (c, srv) (c1, srv1)" by auto
  let ?c = "(count_read (length p) c1)\<lparr>ritem := ritem c1 + length p, rlbytes := rlbytes c1 - int (length p)\<rparr>"
  let ?s = "m_upd (c_item c1) (\<lambda>x. x\<lparr>it_data := poke (ritem c1) p (it_data x)\<rparr>) (srv_mc srv1)"
  have "nread_bytes p (c1, srv1) = (?c, srv1\<lparr>srv_mc := ?s\<rparr>)" unfolding nread_bytes_def Let_def prod.case ..
  moreover have "filling e st i (bs @ p) ?c ?s R'" by (rule fill_piece [OF f received.hyps(2)]) (simp_all add: count_read_def upd_tstats_def)
  moreover have "same_but_input (c, srv) (?c, srv1\<lparr>srv_mc := ?s\<rparr>)" using sb by (simp add: same_but_input_def count_read_def upd_tstats_def)
  ultimately show ?case using r by simp
next
  case (others bs c1 srv1 R' w s' R'')
  then have f: "filling e st i bs c1 (srv_mc srv1) R'" and r: "R' (c_item c) = R (c_item c)" and sb: "same_but_input (c, srv) (c1, srv1)" by auto
  have "filling e st i bs c1 s' R''" by (rule filling_step [OF f others.hyps(2-5) assms(3)])
  moreover have "R'' (c_item c) = R (c_item c)" using others.hyps(4) r same_but_inputD(1) [OF sb] by simp
  ultimately show ?case using sb by (simp add: same_but_input_def)
qed

section \<open>Removing an item\<close>

text \<open>A key is looked up and its item, if it has a live one, is unlinked and released: the key is free, and nothing else changed.\<close>

lemma get_and_unlink:
  assumes ok: "cache_ok st hash s M R" and r: "few_refs (all_refs s R)" and t: "t < length (bump_bufs s)"
    and it_def: "it = addr_of (live st s M k)"
  shows "\<exists>s1. do_item_get st t k (hash k) False s = Some (it, s1) \<and>
    (if it = NULL then moved st hash s M R s1 (M(k := None)) R
     else key (m_heap s1 it) = k \<and>
       (\<exists>s2 s3. do_item_unlink it (hash k) s1 = Some s2 \<and> do_item_remove it s2 = Some s3 \<and> moved st hash s M R s3 (M(k := None)) R))"
proof -
  let ?L = "live st s M k"
  obtain s1 where s1: "do_item_get st t k (hash k) False s = Some (it, s1)" "moved st hash s M R s1 (M(k := ?L)) (plus_ref ?L R)"
    using moved_get [OF ok r t, of k False] by (auto simp: it_def)
  show ?thesis
  proof (cases ?L)
    case None
    then show ?thesis using s1 by (simp add: it_def addr_of_def plus_ref_def)
  next
    case (Some x)
    let ?R = "R(x := R x + 1)"
    have x: "it = x" "x \<noteq> NULL" "M k = Some x" using Some live_nonnull [OF ok Some] live_some [OF Some] by (simp_all add: it_def addr_of_def)
    have Mk: "M(k := ?L) = M" using Some x(3) by (simp add: fun_upd_idem)
    have m1: "moved st hash s M R s1 M ?R" using s1(2) Some Mk by (simp add: plus_ref_def)
    have kx: "key (m_heap s1 x) = k" using cache_okD [OF moved_ok [OF m1]] mapped_key [of st hash s1 M _ _ k x] x(3) by auto
    obtain s2 where s2: "do_item_unlink x (hash k) s1 = Some s2" "moved st hash s1 M ?R s2 (M(k := None)) ?R"
      using moved_unlink [of st hash s1 M ?R k x, OF moved_ok [OF m1] x(3)] by blast
    have l: "M(k := None) \<subseteq>\<^sub>m M" by (auto simp: map_le_def)
    have m2: "moved st hash s M R s2 (M(k := None)) ?R"
      by (rule moved_trans [OF m1 s2(2)]) (use held_mono [OF l, of ?R] in blast)
    obtain s3 where s3: "do_item_remove x s2 = Some s3" "moved st hash s M R s3 (M(k := None)) R" using release_moved [OF m2] by blast
    show ?thesis using s1(1) s2(1) s3 x kx by simp
  qed
qed

section \<open>Lines and replies\<close>

lemma short_line:
  assumes "length (line_words line) < 7"
  shows "tokenize_command line MAX_TOKENS = map word_token (line_words line) @ [rest_token []]"
proof -
  obtain ws rest where "tokenize_command line MAX_TOKENS = map word_token ws @ [rest_token rest]" "line_words line = ws @ line_words rest"
      "rest \<noteq> [] \<longrightarrow> length ws = 7"
    using tokenize_words [of MAX_TOKENS line] by auto
  then show ?thesis using assms by (cases "rest = []") auto
qed

lemma word_tokens:
  assumes "i < length ws"
  shows "token (map word_token ws @ [t]) i = ws ! i" "tok_length ((map word_token ws @ [t]) ! i) = length (ws ! i)"
    "token_is (map word_token ws @ [t]) i w \<longleftrightarrow> ws ! i = bytes w"
  using assms by (simp_all add: token_def token_is_def word_token_def nth_append)

lemma start_ok_msg:
  assumes "\<forall>n. ok n"
  shows "\<exists>c1. add_msghdr ok (c\<lparr>msgcurr := 0, msglist := [], iovused := 0\<rparr>) = (True, c1) \<and> out_ok c1 \<and> (\<forall>h. sent h c1 = []) \<and>
    rest_of c1 = rest_of (c\<lparr>msgcurr := 0\<rparr>)"
proof -
  let ?c = "c\<lparr>msgcurr := 0, msglist := [], iovused := 0\<rparr>"
  obtain c1 m where m: "add_msghdr ok ?c = (True, c1)" "rest_of c1 = rest_of ?c" "msglist c1 = msglist ?c @ [m]" "msg_body ?c m = []" "msg_ok ?c m"
      "msgbytes c1 = msg_len m"
    using msghdr_ok [OF assms, of ?c] by blast
  have t: "c_transport c1 = c_transport ?c" by (rule rest_ofD(2) [OF m(2)])
  have "out_ok c1" using m(3,5,6) t by (simp add: out_ok_def msg_ok_def)
  moreover have "sent h c1 = []" for h using m(3,4) t by (simp add: sent_def msg_body_def)
  moreover have "rest_of ?c = rest_of (c\<lparr>msgcurr := 0\<rparr>)" by (simp add: rest_of_def)
  ultimately show ?thesis using m(1,2) by auto
qed

text \<open>A line is the reply, unless the client asked for none.\<close>

definition replied :: "byte list \<Rightarrow> bool \<Rightarrow> conn \<Rightarrow> bool" where
  "replied str quiet c \<longleftrightarrow> \<not> (quiet \<and> noreply c) \<and>
     (if quiet then c_state c = conn_new_cmd else c_state c = conn_write \<and> wbuf c = str @ [CR, LF] \<and> write_and_go c = conn_new_cmd)"

lemma msghdr_frame:
  "wsize (snd (add_msghdr ok c)) = wsize c" "mset_res (snd (add_msghdr ok c)) = mset_res c" "set_stale (snd (add_msghdr ok c)) = set_stale c"
  "c_item (snd (add_msghdr ok c)) = c_item c" "noreply (snd (add_msghdr ok c)) = noreply c" "rbuf (snd (add_msghdr ok c)) = rbuf c"
  by (simp_all add: add_msghdr_def ensure_iov_space_def ask_def push_iov_def upd_tstats_def Let_def split: prod.splits)

lemma out_frame:
  "wsize (out_string ok str c) = wsize c" "mset_res (out_string ok str c) = mset_res c" "set_stale (out_string ok str c) = set_stale c"
  "c_item (out_string ok str c) = c_item c" "\<not> noreply (out_string ok str c)" "c_state (out_string ok str c) \<noteq> conn_nread"
  "rbuf (out_string ok str c) = rbuf c"
  by (auto simp: out_string_def Let_def conn_set_state_def msghdr_frame)

lemma out_replied: "length str + 2 \<le> wsize c \<Longrightarrow> replied str (noreply c) (out_string ok str c)"
  by (simp add: replied_def out_string_def Let_def msghdr_frame conn_set_state_def)

lemma first_token: "token_is (map word_token (v # ws) @ [t]) 0 w \<longleftrightarrow> v = bytes w"
  by (simp add: token_is_def word_token_def)

lemma dispatch_words:
  "length ws = 4 \<or> length ws = 5 \<Longrightarrow> dispatch (map word_token (bytes ''set'' # ws) @ [t]) = Cmd_update NREAD_SET False"
  "1 \<le> length ws \<and> length ws \<le> 3 \<Longrightarrow> dispatch (map word_token (bytes ''delete'' # ws) @ [t]) = Cmd_delete"
  "ws \<noteq> [] \<Longrightarrow> dispatch (map word_token (bytes ''get'' # ws) @ [t]) = Cmd_get False False"
  "ws \<noteq> [] \<Longrightarrow> dispatch (map word_token (bytes ''gets'' # ws) @ [t]) = Cmd_get True False"
  using length_greater_0_conv [of ws]
  by (auto simp: dispatch_def update_kind_def first_token Let_def simp del: list.map append_Cons length_greater_0_conv)

section \<open>Delete\<close>

lemma record_frame:
  assumes "record_prefix rec e (c, srv) = (c', srv')"
  shows "srv_mc srv' = srv_mc srv" "srv_settings srv' = srv_settings srv" "\<exists>n. c' = c\<lparr>asked := n\<rparr>" "process_started srv' = process_started srv"
  using assms by (auto simp: record_prefix_def split: if_splits intro: exI [of _ "asked c"])

text \<open>The words that may follow the key of a delete.\<close>

definition delete_options :: "byte list list \<Rightarrow> bool" where
  "delete_options ws \<longleftrightarrow> ws = [] \<or> ws = [bytes ''0''] \<or> ws = [bytes ''noreply''] \<or> ws = [bytes ''0'', bytes ''noreply'']"

lemma delete_ok:
  assumes c: "\<not> noreply c" "12 \<le> wsize c" and s: "srv_mc srv = s" "srv_settings srv = st"
    and ok: "cache_ok st (e_hash e) s M R" and r: "few_refs (all_refs s R)" and t: "e_thread e < length (bump_bufs s)"
    and ws: "delete_options ws" "length k \<le> KEY_MAX_LENGTH"
  shows "\<exists>c' srv' s'. process_delete_command e (map word_token (w # k # ws) @ [rest_token []]) (c, srv) = Some (c', srv') \<and> srv_mc srv' = s' \<and>
    srv_settings srv' = st \<and> moved st (e_hash e) s M R s' (M(k := None)) R \<and>
    replied (if live st s M k = None then bytes ''NOT_FOUND'' else bytes ''DELETED'') (bytes ''noreply'' \<in> set ws) c'"
proof -
  let ?tks = "map word_token (w # k # ws) @ [rest_token []]" and ?it = "addr_of (live st s M k)" and ?q = "bytes ''noreply'' \<in> set ws"
  have tk: "token ?tks 1 = k" "tok_length (?tks ! 1) = length k" by (simp_all add: token_def word_token_def)
  let ?c0 = "c\<lparr>noreply := ?q\<rparr>"
  have n0: "c\<lparr>noreply := False\<rparr> = c" using c(1) by simp
  obtain c1 srv1 where r1: "record_prefix (\<lambda>d hash a b. stats_prefix_record_delete d hash a b k) e (?c0, srv) = (c1, srv1)" by fastforce
  note f = record_frame [OF r1]
  obtain n where n: "c1 = ?c0\<lparr>asked := n\<rparr>" using f(3) by blast
  have sn: "(if length ?tks > 3 then set_noreply_maybe ?tks c else (False, c)) = (?q, ?c0)"
    using ws(1) n0 c(1) by (auto simp: delete_options_def set_noreply_maybe_def word_token_def)
  have "\<not> (length ?tks > 3 \<and> \<not> (length ?tks = 4 \<and> (tok_value (?tks ! 2) = Some (bytes ''0'') \<or> ?q) \<or>
      length ?tks = 5 \<and> tok_value (?tks ! 2) = Some (bytes ''0'') \<and> ?q))"
    using ws(1) by (auto simp: delete_options_def word_token_def)
  then have d: "process_delete_command e ?tks (c, srv) = delete_key e k (c1, srv1)"
    unfolding process_delete_command_def Let_def prod.case sn tk using ws(2) r1 by (simp only: if_False if_P not_less [symmetric])
  have g: "cache_ok st (e_hash e) (srv_mc srv1) M R" "few_refs (all_refs (srv_mc srv1) R)" "e_thread e < length (bump_bufs (srv_mc srv1))"
    "srv_mc srv1 = s" "srv_settings srv1 = st"
    using ok r t s f by simp_all
  have rp: "replied str ?q (out_string (e_ok e) str (upd_tstats u c1))" if "length str \<le> 10" for str u
    using out_replied [of str "upd_tstats u c1" "e_ok e"] that c(2) by (simp add: n upd_tstats_def)
  obtain s1 where s1: "do_item_get st (e_thread e) k (e_hash e k) False s = Some (?it, s1)"
      "if ?it = NULL then moved st (e_hash e) s M R s1 (M(k := None)) R
       else \<exists>s2 s3. do_item_unlink ?it (e_hash e k) s1 = Some s2 \<and> do_item_remove ?it s2 = Some s3 \<and> moved st (e_hash e) s M R s3 (M(k := None)) R"
    using get_and_unlink [OF ok r t refl, of k] by (auto split: if_splits)
  show ?thesis
  proof (cases "live st s M k")
    case None
    then have "?it = NULL" by (simp add: addr_of_def)
    then show ?thesis using d s1 rp [of "bytes ''NOT_FOUND''"] None unfolding delete_key_def
      by (simp add: g(4,5))
  next
    case (Some x)
    then have x: "?it = x" "x \<noteq> NULL" using live_nonnull [OF ok Some] by (simp_all add: addr_of_def)
    then obtain s2 s3 where "do_item_unlink x (e_hash e k) s1 = Some s2" "do_item_remove x s2 = Some s3" "moved st (e_hash e) s M R s3 (M(k := None)) R"
      using s1(2) by auto
    then show ?thesis using d s1(1) rp [of "bytes ''DELETED''"] Some x unfolding delete_key_def
      by (simp add: g(4,5) Let_def)
  qed
qed

section \<open>The line of a storage command\<close>

text \<open>The words of a storage command: client flags, expiry time and length of the value are numbers.\<close>

definition update_words :: "byte list list \<Rightarrow> byte list \<Rightarrow> u32 \<Rightarrow> int \<Rightarrow> int \<Rightarrow> bool \<Rightarrow> bool" where
  "update_words ws k fl ex vlen quiet \<longleftrightarrow> (\<exists>w f x n. ws = [w, k, f, x, n] @ (if quiet then [bytes ''noreply''] else []) \<and> length k \<le> KEY_MAX_LENGTH \<and>
     safe_strtoul f = Some fl \<and> map_option sint (safe_strtol x) = Some ex \<and> map_option sint (safe_strtol n) = Some vlen \<and>
     n \<noteq> bytes ''noreply'' \<and> 0 \<le> vlen \<and> vlen \<le> INT_MAX - 2)"

lemma cas_harmless: "harmless (ITEM_set_cas v)" "it_data (ITEM_set_cas v x) = it_data x" "cflags (ITEM_set_cas v x) = cflags x"
  "exptime (ITEM_set_cas v x) = exptime x" "FLAGS_CONV (ITEM_set_cas v x) = FLAGS_CONV x"
  by (simp_all add: harmless_def ITEM_set_cas_def has_flag_def FLAGS_CONV_def)

lemma good_cas:
  assumes "good st hash s R M" "0 < R it"
  shows "good st hash (m_upd it (ITEM_set_cas v) s) R M"
proof -
  have ok: "cache_ok st hash s M R" and d: "data_ok s M" using assms(1) by (auto simp: good_def)
  have h: "it \<in> held M R" using assms(2) by (simp add: held_def)
  have "moved st hash s M R (m_upd it (ITEM_set_cas v) s) M R"
    by (rule moved_harmless [OF moved_refl [OF ok] h]) (simp_all add: cas_harmless)
  then show ?thesis using good_sub [OF assms(1)] map_le_refl by blast
qed

text \<open>
  With memory for it the connection has a new item of its own and reads the value into it. Without, a set removes the item that the key had, and a client
  that waits for a reply is told and its value is skipped. With \<open>noreply\<close> nothing is sent, and nothing is skipped: the connection goes on with the next command,
  which it takes from the bytes of the value.
\<close>

definition update_begun :: "cenv \<Rightarrow> settings \<Rightarrow> byte list \<Rightarrow> u32 \<Rightarrow> int \<Rightarrow> bool \<Rightarrow> nread \<Rightarrow> conn \<Rightarrow> mc \<Rightarrow> (addr \<Rightarrow> nat) \<Rightarrow> (byte list \<rightharpoonup> addr) \<Rightarrow> bool" where
  "update_begun e st k fl vlen quiet comm c s R M \<longleftrightarrow> c_state c = conn_nread \<and> c_item c \<noteq> NULL \<and> R (c_item c) = 0 \<and> cmd c = comm \<and> noreply c = quiet \<and>
     (\<exists>i. key i = k \<and> FLAGS_CONV i = fl \<and> nbytes i = vlen + 2 \<and> filling e st i [] c s (add_ref (c_item c) R)) \<and>
     (\<exists>M'. M' \<subseteq>\<^sub>m M \<and> good st (e_hash e) s (add_ref (c_item c) R) M')"

definition refusals :: "byte list set" where
  "refusals = {bytes ''SERVER_ERROR object too large for cache'', bytes ''SERVER_ERROR out of memory storing object''}"

definition update_refused ::
  "cenv \<Rightarrow> settings \<Rightarrow> byte list \<Rightarrow> int \<Rightarrow> bool \<Rightarrow> byte list \<Rightarrow> nread \<Rightarrow> conn \<Rightarrow> mc \<Rightarrow> (addr \<Rightarrow> nat) \<Rightarrow> (byte list \<rightharpoonup> addr) \<Rightarrow> bool" where
  "update_refused e st k vlen quiet input comm c s R M \<longleftrightarrow> \<not> noreply c \<and> rbuf c = input \<and>
     (if quiet then c_state c = conn_new_cmd
      else c_state c = conn_write \<and> write_and_go c = conn_swallow \<and> sbytes c = vlen + 2 \<and>
        (43 \<le> wsize c \<longrightarrow> (\<exists>msg \<in> refusals. wbuf c = msg @ [CR, LF]))) \<and>
     (\<exists>M'. M' \<subseteq>\<^sub>m M \<and> good st (e_hash e) s R M' \<and> (comm = NREAD_SET \<longrightarrow> M' k = None))"

lemma refused_line:
  assumes "msg \<in> refusals"
  shows "c_state (out_string ok msg c) = (if noreply c then conn_new_cmd else conn_write)"
    "\<not> noreply c \<Longrightarrow> 43 \<le> wsize c \<Longrightarrow> wbuf (out_string ok msg c) = msg @ [CR, LF]"
proof -
  have "length msg + 2 \<le> 43" using assms by (auto simp: refusals_def bytes_def)
  then show "c_state (out_string ok msg c) = (if noreply c then conn_new_cmd else conn_write)"
    "\<not> noreply c \<Longrightarrow> 43 \<le> wsize c \<Longrightarrow> wbuf (out_string ok msg c) = msg @ [CR, LF]"
    by (auto simp: out_string_def Let_def conn_set_state_def msghdr_frame)
qed

lemma failed_ok:
  assumes g: "good st (e_hash e) s R M" and r: "refs_ok s R" and t: "e_thread e < length (bump_bufs s)" and s: "srv_mc srv = s" "srv_settings srv = st"
  shows "\<exists>c' srv' s'. update_failed e k fl (vlen + 2) comm (c, srv) = Some (c', srv') \<and> srv_mc srv' = s' \<and> srv_settings srv' = st \<and>
    update_refused e st k vlen (noreply c) (rbuf c) comm c' s' R M \<and> mset_res c' = mset_res c \<and> set_stale c' = set_stale c \<and> wsize c' = wsize c"
proof -
  have ok: "cache_ok st (e_hash e) s M R" using g by (simp add: good_def)
  have few: "few_refs (all_refs s R)" using r refs_few by (simp add: refs_ok_def)
  obtain Q where i: "store_inv st (e_hash e) s M Q (all_refs s R)" using cache_okD [OF ok] by blast
  have "\<exists>c. slabs_clsid_for st (m_slabs s) n = Some c" for n
    using clsid_for_range [OF alloc_inv_largest [OF store_invD(5) [OF i], THEN conjunct1], of st n] by blast
  then have "item_size_ok st (m_slabs s) (length k) fl (vlen + 2) \<noteq> None" by (auto simp: item_size_ok_def Let_def)
  then obtain b where b: "item_size_ok st (m_slabs s) (length k) fl (vlen + 2) = Some b" by blast
  let ?it = "addr_of (live st s M k)"
  have gone: "\<exists>M'. M' \<subseteq>\<^sub>m M \<and> good st (e_hash e) s' R M' \<and> (comm = NREAD_SET \<longrightarrow> M' k = None)"
    if "moved st (e_hash e) s M R s' (M(k := None)) R" for s'
    using good_sub [OF g that] by (intro exI [of _ "M(k := None)"]) (simp add: map_le_def)
  obtain s' where s': "(if comm = NREAD_SET then do {
            (it, s) \<leftarrow> item_get st (e_hash e) (e_thread e) k False s;
            if it \<noteq> NULL then do { s \<leftarrow> item_unlink (e_hash e) it s; item_remove it s } else Some s
          } else Some s) = Some s'" "\<exists>M'. M' \<subseteq>\<^sub>m M \<and> good st (e_hash e) s' R M' \<and> (comm = NREAD_SET \<longrightarrow> M' k = None)"
  proof (cases "comm = NREAD_SET")
    case True
    obtain s1 where s1: "do_item_get st (e_thread e) k (e_hash e k) False s = Some (?it, s1)"
        "if ?it = NULL then moved st (e_hash e) s M R s1 (M(k := None)) R
         else key (m_heap s1 ?it) = k \<and>
           (\<exists>s2 s3. do_item_unlink ?it (e_hash e k) s1 = Some s2 \<and> do_item_remove ?it s2 = Some s3 \<and> moved st (e_hash e) s M R s3 (M(k := None)) R)"
      using get_and_unlink [OF ok few t refl, of k] by blast
    show ?thesis
    proof (cases "?it = NULL")
      case True
      then show ?thesis using that [of s1] s1 gone [of s1] \<open>comm = NREAD_SET\<close> by (simp add: item_get_def)
    next
      case False
      then obtain s2 s3 where "do_item_unlink ?it (e_hash e k) s1 = Some s2" "do_item_remove ?it s2 = Some s3"
          "moved st (e_hash e) s M R s3 (M(k := None)) R" "key (m_heap s1 ?it) = k"
        using s1(2) by auto
      then show ?thesis using that [of s3] s1(1) False gone [of s3] \<open>comm = NREAD_SET\<close>
        by (simp add: item_get_def item_unlink_def item_remove_def)
    qed
  next
    case False
    have "\<exists>M'. M' \<subseteq>\<^sub>m M \<and> good st (e_hash e) s R M' \<and> (comm = NREAD_SET \<longrightarrow> M' k = None)" using False g map_le_refl by blast
    then show ?thesis using that [of s] False by simp
  qed
  let ?msg = "if \<not> b then bytes ''SERVER_ERROR object too large for cache'' else bytes ''SERVER_ERROR out of memory storing object''"
  have msg: "?msg \<in> refusals" by (simp add: refusals_def)
  show ?thesis unfolding update_failed_def Let_def prod.case s b bind.simps s'(1)
    using s s'(2) msg refused_line [OF msg, where ok = "e_ok e" and c = c] by (auto simp: update_refused_def out_frame)
qed

lemma item_plain:
  assumes "cache_ok st hash s M R" "0 < R it"
  shows "\<not> has_flag (m_heap s it) ITEM_CHUNKED" "2 \<le> nbytes (m_heap s it)"
proof -
  obtain Q where "store_inv st hash s M Q (all_refs s R)" using cache_okD [OF assms(1)] by blast
  then have "item_ok M (all_refs s R) (m_heap s) it" by (rule store_invD(6)) (use assms(2) in \<open>simp add: held_def all_refs_def\<close>)
  then show "\<not> has_flag (m_heap s it) ITEM_CHUNKED" "2 \<le> nbytes (m_heap s it)" by (simp_all add: item_ok_def)
qed

text \<open>The time of expiry of an accepted line, and what the line does with the outcome of the allocation.\<close>

definition line_exptime :: "server \<Rightarrow> int \<Rightarrow> u32" where
  "line_exptime srv ex = realtime srv (if ex < 0 then REALTIME_MAXDELTA + 1 else ex)"

lemma update_steps:
  assumes c: "\<not> noreply c" and s: "srv_mc srv = s" "srv_settings srv = st" and ws: "update_words ws k fl ex vlen quiet"
    and a: "item_alloc st (e_hash e) (e_os e) k fl (line_exptime srv ex) (vlen + 2) s = Some (it, s1)"
  shows "\<exists>m srv1. srv_settings srv1 = st \<and> process_update_command e (map word_token ws @ [rest_token []]) comm False (c, srv) =
    (let cs = (c\<lparr>noreply := quiet, asked := m\<rparr>, srv1\<lparr>srv_mc := s1\<rparr>) in
     if it = NULL then update_failed e k fl (vlen + 2) comm cs else Some (update_reads it 0 comm cs))"
proof -
  let ?tks = "map word_token ws @ [rest_token []]" and ?c0 = "c\<lparr>noreply := quiet\<rparr>"
  obtain w f x n xi ni where w: "ws = [w, k, f, x, n] @ (if quiet then [bytes ''noreply''] else [])" "length k \<le> KEY_MAX_LENGTH"
      "safe_strtoul f = Some fl" "safe_strtol x = Some xi" "safe_strtol n = Some ni" "sint ni = vlen" "n \<noteq> bytes ''noreply''" "0 \<le> vlen" "vlen \<le> INT_MAX - 2"
      "sint xi = ex"
    using ws by (auto simp: update_words_def)
  have tk: "token ?tks 1 = k" "tok_length (?tks ! 1) = length k" "token ?tks 2 = f" "token ?tks 3 = x" "token ?tks 4 = n"
    using w(1) by (simp_all add: token_def word_token_def)
  have n0: "c\<lparr>noreply := False\<rparr> = c" using c by simp
  have sn: "snd (set_noreply_maybe ?tks c) = ?c0"
    using w(1,7) n0 by (cases quiet) (simp_all add: set_noreply_maybe_def word_token_def)
  obtain c1 srv1 where r1: "record_prefix (\<lambda>d hash a b. stats_prefix_record_set d hash a b k) e (?c0, srv) = (c1, srv1)" by fastforce
  note fr = record_frame [OF r1]
  obtain m where m: "c1 = ?c0\<lparr>asked := m\<rparr>" using fr(3) by blast
  have rt: "realtime srv1 (if ex < 0 then REALTIME_MAXDELTA + 1 else ex) = line_exptime srv ex" using fr by (simp add: line_exptime_def realtime_def)
  have "\<not> (vlen < 0 \<or> vlen > INT_MAX - 2)" "\<not> KEY_MAX_LENGTH < length k" using w(2,8,9) by auto
  then have "process_update_command e ?tks comm False (c, srv) =
      (if it = NULL then update_failed e k fl (vlen + 2) comm (c1, srv1\<lparr>srv_mc := s1\<rparr>) else Some (update_reads it 0 comm (c1, srv1\<lparr>srv_mc := s1\<rparr>)))"
    unfolding process_update_command_def Let_def prod.case sn tk w(3-5) option.case w(6,10) r1 fr s rt
      using a by (simp add: s fr)
  then show ?thesis using fr(2) s(2) by (intro exI [of _ m] exI [of _ srv1]) (simp add: Let_def m)
qed

lemma update_ok:
  assumes env: "os_ok st (e_os e)" "tail_repair_time st = 0" "e_thread e < length (bump_bufs s)" and c: "\<not> noreply c"
    and s: "srv_mc srv = s" "srv_settings srv = st" and g: "good st (e_hash e) s R M" and r: "refs_ok s R"
    and ws: "update_words ws k fl ex vlen quiet" and plain: "item_total st (length k) fl (vlen + 2) \<le> slab_chunk_size_max st"
  shows "\<exists>c' srv' s'. process_update_command e (map word_token ws @ [rest_token []]) comm False (c, srv) = Some (c', srv') \<and> srv_mc srv' = s' \<and>
    srv_settings srv' = st \<and> mset_res c' = mset_res c \<and> set_stale c' = set_stale c \<and> wsize c' = wsize c \<and>
    (update_begun e st k fl vlen quiet comm c' s' R M \<or> update_refused e st k vlen quiet (rbuf c) comm c' s' R M)"
proof -
  let ?tks = "map word_token ws @ [rest_token []]" and ?et = "line_exptime srv ex"
  have w: "length k \<le> KEY_MAX_LENGTH" "0 \<le> vlen" using ws by (auto simp: update_words_def)
  obtain it s1 M' where a: "item_alloc st (e_hash e) (e_os e) k fl ?et (vlen + 2) s = Some (it, s1)" "M' \<subseteq>\<^sub>m M"
      "good st (e_hash e) s1 (add_ref it R) M'" "it \<noteq> NULL \<longrightarrow> it \<notin> held M' R \<and> is_item (m_heap s1 it) k fl ?et (vlen + 2)"
    using good_alloc [OF g r env(1,2) plain] by blast
  obtain m srv1 where st1: "srv_settings srv1 = st" and p0: "process_update_command e ?tks comm False (c, srv) =
      (let cs = (c\<lparr>noreply := quiet, asked := m\<rparr>, srv1\<lparr>srv_mc := s1\<rparr>) in
       if it = NULL then update_failed e k fl (vlen + 2) comm cs else Some (update_reads it 0 comm cs))"
    using update_steps [OF c s ws a(1)] by blast
  define c1 where m: "c1 = c\<lparr>noreply := quiet, asked := m\<rparr>"
  let ?srv = "srv1\<lparr>srv_mc := s1\<rparr>"
  note p = p0 [unfolded Let_def, folded m]
  have "few_refs (all_refs s R)" using r refs_few by (simp add: refs_ok_def)
  then have bb: "bump_bufs s1 = bump_bufs s"
    using moved_alloc [OF _ env(2,1) _ plain, of "e_hash e" s M R ?et] g a(1) by (auto simp: good_def item_alloc_def)
  have sv: "srv_settings ?srv = st" "srv_mc ?srv = s1" using st1 by simp_all
  show ?thesis
  proof (cases "it = NULL")
    case True
    have g1: "good st (e_hash e) s1 R M'" using a(3) True by (simp add: add_ref_def)
    have "refs_ok s1 R" using r bump_same [OF bb] by (simp add: refs_ok_def)
    moreover have "e_thread e < length (bump_bufs s1)" using env(3) bb by simp
    ultimately obtain c' srv' s' where f: "update_failed e k fl (vlen + 2) comm (c1, ?srv) = Some (c', srv')" "srv_mc srv' = s'" "srv_settings srv' = st"
        "update_refused e st k vlen (noreply c1) (rbuf c1) comm c' s' R M'" "mset_res c' = mset_res c1" "set_stale c' = set_stale c1" "wsize c' = wsize c1"
      using failed_ok [OF g1 _ _ sv(2,1)] by blast
    have "update_refused e st k vlen (noreply c1) (rbuf c1) comm c' s' R M" using f(4) a(2) map_le_trans unfolding update_refused_def by blast
    then have "update_refused e st k vlen quiet (rbuf c) comm c' s' R M" by (simp add: m)
    moreover have "mset_res c' = mset_res c" "set_stale c' = set_stale c" "wsize c' = wsize c" using f(5-7) m by simp_all
    ultimately show ?thesis using p True f(1-3) by auto
  next
    case False
    let ?s = "m_upd it (ITEM_set_cas 0) s1" and ?x = "m_heap s1 it"
    have h: "it \<notin> held M' R" "is_item ?x k fl ?et (vlen + 2)" using a(4) False by auto
    have R0: "R it = 0" "it \<notin> ran M'" using h(1) by (auto simp: held_def)
    have i: "key ?x = k" "FLAGS_CONV ?x = fl" "nbytes ?x = vlen + 2" using h(2) w(1) by (simp_all add: is_item_def)
    have p1: "0 < add_ref it R it" using False by (simp add: add_ref_def)
    have gs: "good st (e_hash e) ?s (add_ref it R) M'" by (rule good_cas [OF a(3) p1])
    then have nl: "\<not> has_flag (m_heap ?s it) ITEM_LINKED" using unlinked_item [of st "e_hash e" ?s M' "add_ref it R" it] p1 R0(2) by (simp add: good_def)
    have nc: "\<not> has_flag (m_heap ?s it) ITEM_CHUNKED" using item_plain(1) [of st "e_hash e" ?s M' "add_ref it R" it] gs p1 by (simp add: good_def)
    have si: "key (m_heap ?s it) = k" "FLAGS_CONV (m_heap ?s it) = fl" "nbytes (m_heap ?s it) = vlen + 2"
      using i by (simp_all add: upd_apply cas_harmless(5))
    let ?c = "conn_set_state conn_nread (c1\<lparr>c_item := it, ritem := 0, rlbytes := vlen + 2, cmd := comm\<rparr>)"
    have u: "update_reads it 0 comm (c1, ?srv) = (?c, ?srv\<lparr>srv_mc := ?s\<rparr>)" using nc si(3) by (simp add: update_reads_def Let_def)
    have fc: "c_item ?c = it" "ritem ?c = 0" "rlbytes ?c = vlen + 2" "cmd ?c = comm" "c_state ?c = conn_nread" "noreply ?c = quiet"
        "mset_res ?c = mset_res c" "set_stale ?c = set_stale c" "wsize ?c = wsize c"
      by (simp_all add: conn_set_state_def m)
    have "filling e st (m_heap ?s it) [] ?c ?s (add_ref it R)"
      unfolding filling_def Let_def fc using gs p1 nl w(2) si(3) by auto
    then have "update_begun e st k fl vlen quiet comm ?c ?s R M"
      unfolding update_begun_def fc using R0(1) False si gs a(2) by blast
    then show ?thesis using p False u fc sv(1) by simp
  qed
qed

section \<open>The value is complete\<close>

text \<open>The line for each result of a store.\<close>

definition store_text :: "store_item_type \<Rightarrow> byte list" where
  "store_text res = (case res of STORED \<Rightarrow> bytes ''STORED'' | EXISTS \<Rightarrow> bytes ''EXISTS'' | NOT_FOUND \<Rightarrow> bytes ''NOT_FOUND''
     | NOT_STORED \<Rightarrow> bytes ''NOT_STORED'' | _ \<Rightarrow> bytes ''SERVER_ERROR Unhandled storage type.'')"

lemma outcome_later:
  assumes out: "store_outcome K s M M0 R L ss it comm res s1 M'" and m: "moved st hash s1 M' R1 s2 M' R2"
  shows "store_outcome K s M M0 R L ss it comm res s2 M'"
proof -
  have v: "FLAGS_CONV (m_heap s2 x) = FLAGS_CONV (m_heap s1 x)" "full_data (m_heap s2 x) = full_data (m_heap s1 x)"
      "item_value (m_heap s2 x) = item_value (m_heap s1 x)" if "x \<in> ran M'" for x
    using moved_value [OF m ran_held [OF that] ran_held [OF that]] by auto
  have n: "FLAGS_CONV (m_heap s2 new) = FLAGS_CONV (m_heap s1 new)" "full_data (m_heap s2 new) = full_data (m_heap s1 new)"
      "item_value (m_heap s2 new) = item_value (m_heap s1 new)" if "M' = M0(k \<mapsto> new)" for k new
    using that v [OF ranI [of M' k new]] by simp_all
  show ?thesis using out unfolding store_outcome_def Let_def by (cases comm) (auto simp: n split: if_splits)
qed

lemma complete_ok:
  assumes f: "filling e st i bs c s R" "rlbytes c = 0" and g: "good st (e_hash e) s R M" and s: "srv_mc srv = s" "srv_settings srv = st"
    and env: "os_ok st (e_os e)" "tail_repair_time st = 0" "e_thread e < length (bump_bufs s)" and r: "refs_ok s R"
    and c: "\<not> mset_res c" "41 \<le> wsize c"
    and fits: "cmd c = NREAD_APPEND \<or> cmd c = NREAD_PREPEND \<Longrightarrow> fits_with st (e_hash e) s (c_item c)"
  defines "it \<equiv> c_item c"
  shows "\<exists>c' srv' s' res M' M0. complete_nread_ascii e (c, srv) = Some (c', srv') \<and> srv_mc srv' = s' \<and> srv_settings srv' = st \<and> c_item c' = NULL \<and>
    (if drop (length bs - 2) bs = [CR, LF]
     then survivors M0 M (cmd c) res \<and> store_outcome (locked (e_os e)) s M M0 R (live st s M (key i)) (set_stale c) it (cmd c) res s' M' \<and> data_ok s' M' \<and>
       moved st (e_hash e) s M0 R s' M' (R(it := R it - 1)) \<and> replied (store_text res) (noreply c) c'
     else moved st (e_hash e) s M R s' M (R(it := R it - 1)) \<and> replied (bytes ''CLIENT_ERROR bad data chunk'') (noreply c) c')"
proof -
  have ok: "cache_ok st (e_hash e) s M R" "data_ok s M" using g by (auto simp: good_def)
  have f': "0 < R it" "\<not> has_flag (m_heap s it) ITEM_LINKED" "key (m_heap s it) = key i" "nbytes (m_heap s it) = nbytes i"
      "take (length bs) (it_data (m_heap s it)) = bs" "nbytes i = int (length bs)"
    using f by (auto simp: filling_def it_def Let_def)
  note p = item_plain [OF ok(1) f'(1)]
  have nl: "it \<notin> ran M" using unlinked_item [OF ok(1) f'(1)] f'(2) by simp
  have "length (take (length bs) (it_data (m_heap s it))) = length bs" by (simp only: f'(5))
  then have l: "2 \<le> length bs" "length bs \<le> length (it_data (m_heap s it))" using p(2) f'(4,6) by simp_all
  have vv: "item_value (m_heap s it) = bs" using f' by (simp add: item_value_def item_bytes_def)
  define u where "u = (\<lambda>ts :: thread_stats. let cls = ITEM_clsid (m_heap s it) in ts\<lparr>set_cmds := (set_cmds ts)(cls := set_cmds ts cls + 1)\<rparr>)"
  let ?c = "upd_tstats u c"
  have fc: "c_item ?c = it" "cmd ?c = cmd c" "mset_res ?c = mset_res c" "noreply ?c = noreply c" "wsize ?c = wsize c" "set_stale ?c = set_stale c"
    by (simp_all add: upd_tstats_def it_def)
  have cr: "crlf (m_heap s it) \<longleftrightarrow> drop (length bs - 2) bs = [CR, LF]"
    using l vv f'(4,6) by (simp add: crlf_def full_data_def)
  have "take 2 (drop (length bs - 2) (it_data (m_heap s it))) = drop (length bs - 2) (take (length bs) (it_data (m_heap s it)))"
    using l by (simp add: drop_take)
  then have vd: "value_valid ?c (m_heap s) \<longleftrightarrow> drop (length bs - 2) bs = [CR, LF]"
    unfolding value_valid_def fc Let_def using p(1) f'(4-6) by simp
  have rep: "length str \<le> 39 \<Longrightarrow> replied str (noreply c) ((out_string (e_ok e) str ?c)\<lparr>set_stale := False, mset_res := False, c_item := NULL\<rparr>)" for str
    using out_replied [of str ?c "e_ok e"] c(2) by (simp add: fc replied_def)
  note cd = complete_nread_ascii_def [of e "(c, srv)", unfolded Let_def prod.case s, folded it_def, folded u_def [unfolded Let_def]]
  show ?thesis
  proof (cases "drop (length bs - 2) bs = [CR, LF]")
    case False
    obtain s' where s': "do_item_remove it s = Some s'" "moved st (e_hash e) s M R s' M (R(it := R it - 1))"
      using moved_remove [OF ok(1) f'(1)] by blast
    then show ?thesis using False vd c(1) cd rep [of "bytes ''CLIENT_ERROR bad data chunk''"] s
      by (simp add: fc item_remove_def)
  next
    case True
    have cl: "crlf (m_heap s it)" using cr True by simp
    obtain res cas s1 M' M0 where st: "store_item st (e_hash e) (e_os e) (e_oss e) (e_thread e) (set_stale c) it (cmd c) s = Some (res, cas, s1)"
        "survivors M0 M (cmd c) res" "moved st (e_hash e) s M0 R s1 M' R" "data_ok s1 M'"
        "store_outcome (locked (e_os e)) s M M0 R (live st s M (key i)) (set_stale c) it (cmd c) res s1 M'"
      using store_ok [OF ok nl f'(1) cl r env(3,2,1), of "cmd c" "e_oss e" "set_stale c"] fits unfolding f'(3) it_def [symmetric] by blast
    obtain s' where s': "do_item_remove it s1 = Some s'" "moved st (e_hash e) s1 M' R s' M' (R(it := R it - 1))"
      using moved_remove [of st "e_hash e" s1 M' R it] moved_ok [OF st(3)] f'(1) by blast
    have "moved st (e_hash e) s M0 R s' M' (R(it := R it - 1))"
      by (rule moved_trans [OF st(3) s'(2)]) (auto simp: held_def split: if_splits)
    moreover have "data_ok s' M'" by (rule data_moved [OF s'(2) st(4)]) blast
    moreover have "store_outcome (locked (e_os e)) s M M0 R (live st s M (key i)) (set_stale c) it (cmd c) res s' M'" by (rule outcome_later [OF st(5) s'(2)])
    moreover have "store_reply e res ?c = out_string (e_ok e) (store_text res) ?c" using c(1) by (simp add: store_reply_def fc store_text_def)
    moreover have "replied (store_text res) (noreply c) ((out_string (e_ok e) (store_text res) ?c)\<lparr>set_stale := False, mset_res := False, c_item := NULL\<rparr>)"
      by (rule rep) (simp add: store_text_def split: store_item_type.splits)
    ultimately show ?thesis using True vd cd st(1,2) s'(1) s by (simp add: fc item_remove_def) blast
  qed
qed

end
