(* ===== verification/Text_Props.thy ===== *)
theory Text_Props
  imports Text_Get_Ok Text_Store_Ok Cache_Props
begin

unbundle bit_operations_syntax

text \<open>
  What the text protocol promises: the replies of get, set and delete, from the line of the command to the bytes for the socket, with
  other threads at work in between.
\<close>

section \<open>Splitting a line\<close>

text \<open>
  C37. The tokens of a command line are its first words, at most \<open>max_tokens - 1\<close> of them, and a last token that leads to the rest of the line; the array
  of \<open>max_tokens\<close> tokens never overflows, and tokenizing the rest again delivers the remaining words.
\<close>

theorem tokenize_command_words:
  assumes "1 < mx"
  shows "\<exists>ws rest. tokenize_command command mx = map word_token ws @ [rest_token rest] \<and> line_words command = ws @ line_words rest \<and>
    length (tokenize_command command mx) \<le> mx \<and> (rest \<noteq> [] \<longrightarrow> length ws = mx - 1 \<and> length rest < length command)"
proof -
  obtain ws rest where "tokenize_command command mx = map word_token ws @ [rest_token rest]" "line_words command = ws @ line_words rest"
      "length ws \<le> mx - 1" "rest \<noteq> [] \<longrightarrow> length ws = mx - 1 \<and> length rest < length command"
    using tokenize_words [OF assms, of command] by blast
  then show ?thesis using assms by (intro exI [of _ ws] exI [of _ rest]) auto
qed

section \<open>Commands\<close>

text \<open>Memory for the connection is there, and the allocator of items gets fresh pages.\<close>

definition env_ok :: "cenv \<Rightarrow> settings \<Rightarrow> bool" where
  "env_ok e st \<longleftrightarrow> (\<forall>n. e_ok e n) \<and> (\<forall>n. e_blk e n \<noteq> NULL) \<and> os_ok st (e_os e) \<and> tail_repair_time st = 0"

definition serving :: "cenv \<Rightarrow> settings \<Rightarrow> server \<Rightarrow> (addr \<Rightarrow> nat) \<Rightarrow> (byte list \<rightharpoonup> addr) \<Rightarrow> bool" where
  "serving e st srv R M \<longleftrightarrow> srv_settings srv = st \<and> good st (e_hash e) (srv_mc srv) R M \<and> e_thread e < length (bump_bufs (srv_mc srv)) \<and>
     refs_ok (srv_mc srv) R"

lemma servingD:
  assumes "serving e st srv R M"
  shows "srv_settings srv = st" "good st (e_hash e) (srv_mc srv) R M" "cache_ok st (e_hash e) (srv_mc srv) M R" "data_ok (srv_mc srv) M"
    "e_thread e < length (bump_bufs (srv_mc srv))" "refs_ok (srv_mc srv) R" "few_refs (all_refs (srv_mc srv) R)"
  using assms refs_few [of "all_refs (srv_mc srv) R"] by (simp_all add: serving_def good_def refs_ok_def)

lemma command_start:
  assumes "\<forall>n. e_ok e n"
  shows "\<exists>c1. out_ok c1 \<and> (\<forall>h. sent h c1 = []) \<and> rest_of c1 = rest_of (c\<lparr>msgcurr := 0\<rparr>) \<and>
    (\<forall>stale free line. process_command e stale free line (c, srv) =
      (case dispatch (tokenize_command line MAX_TOKENS) of
         Cmd_get rc tch \<Rightarrow> map_option Handled (process_get_command e (tokenize_command line MAX_TOKENS) rc tch (c1, srv))
       | Cmd_update comm hc \<Rightarrow> map_option Handled (process_update_command e (tokenize_command line MAX_TOKENS) comm hc (c1, srv))
       | Cmd_delete \<Rightarrow> map_option Handled (process_delete_command e (tokenize_command line MAX_TOKENS) (c1, srv))
       | _ \<Rightarrow> process_command e stale free line (c, srv)))"
proof -
  obtain c1 where c1: "add_msghdr (e_ok e) (c\<lparr>msgcurr := 0, msglist := [], iovused := 0\<rparr>) = (True, c1)" "out_ok c1" "\<forall>h. sent h c1 = []"
      "rest_of c1 = rest_of (c\<lparr>msgcurr := 0\<rparr>)"
    using start_ok_msg [OF assms] by blast
  show ?thesis
    by (rule exI [of _ c1]) (use c1 in \<open>simp add: process_command_def Let_def split: command.splits\<close>)
qed

lemma rest_of_start:
  assumes "rest_of c1 = rest_of (c\<lparr>msgcurr := 0\<rparr>)"
  shows "noreply c1 = noreply c" "wsize c1 = wsize c" "mset_res c1 = mset_res c" "set_stale c1 = set_stale c" "c_transport c1 = c_transport c"
    "suffix_cache c1 = suffix_cache c" "request_id c1 = request_id c" "c_item c1 = c_item c" "rbuf c1 = rbuf c"
  using rest_ofD [OF assms] arg_cong [OF assms, of mset_res] arg_cong [OF assms, of set_stale] by (simp_all add: rest_of_def)

text \<open>A reply that is held can be read as long as it is held.\<close>

lemma run_readable:
  assumes g: "good st hash s (hold xs R) M" and tr: "tail_repair_time st = 0" and run: "\<forall>x \<in> set xs. cache_run st hash x s (hold xs R) s' R'" and xs: "set xs \<subseteq> ran M"
  shows "readable (m_heap s) (m_heap s') xs"
  unfolding readable_def
proof
  fix x assume x: "x \<in> set xs"
  then have "0 < count_list xs x" using count_list_0_iff [of xs x] by simp
  then have "0 < hold xs R x" by (simp add: hold_def)
  then have "same_item s s' x" using run_same [OF _ g tr] run x by blast
  moreover have "full_data (m_heap s x)" using g x xs by (auto simp: good_def data_ok_def crlf_def)
  ultimately show "key (m_heap s' x) = key (m_heap s x) \<and> nat (nbytes (m_heap s x)) \<le> length (it_data (m_heap s' x)) \<and>
      take (nat (nbytes (m_heap s x))) (it_data (m_heap s' x)) = item_value (m_heap s x)"
    by (simp add: same_item_def item_value_def item_bytes_def full_data_def)
qed

lemma hits_held: "x \<in> set (hits (live st s M) ks) \<Longrightarrow> x \<in> held M R \<and> x \<in> held M' (hold (hits (live st s M) ks) R)"
  using live_some [of st s M _ x] count_list_0_iff [of "hits (live st s M) ks" x] by (auto simp: hits_iff held_def ran_def hold_def)

text \<open>The connection when a retrieval command has its reply.\<close>

definition get_frame :: "conn \<Rightarrow> conn \<Rightarrow> bool" where
  "get_frame c c' \<longleftrightarrow> msgs_ok c' \<and> msgcurr c' = 0 \<and> rbuf c' = rbuf c \<and> noreply c' = noreply c \<and> c_item c' = c_item c \<and> is_udp c' = is_udp c \<and>
     request_id c' = request_id c \<and> (is_udp c \<longrightarrow> (\<forall>h. udp_framed h c') \<and> headed c' \<and> (\<forall>m \<in> set (msglist c'). m \<noteq> []))"

lemma get_ok:
  assumes env: "env_ok e st" and srv: "serving e st srv R M" and c: "pool_ok c"
    and r: "\<forall>x. all_refs (srv_mc srv) R x + 2 * length ks < 59000"
    and line: "line_words line = (if rc then bytes ''gets'' else bytes ''get'') # ks" "ks \<noteq> []" "\<forall>k \<in> set ks. length k \<le> KEY_MAX_LENGTH" "distinct ks"
  shows "\<exists>c' srv'. process_command e stale free line (c, srv) = Some (Handled (c', srv')) \<and> c_state c' = conn_mwrite \<and> get_frame c c' \<and>
    srv_settings srv' = st \<and> (\<forall>x \<in> set (ilist c'). full_data (m_heap (srv_mc srv') x)) \<and>
    (\<forall>h. readable (m_heap (srv_mc srv')) h (ilist c') \<longrightarrow> sent h c' = concat (map (\<lambda>x. value_text rc (m_heap (srv_mc srv') x)) (ilist c')) @ end_text) \<and>
    ilist c' = hits (live st (srv_mc srv) M) ks \<and>
    good st (e_hash e) (srv_mc srv') (hold (ilist c') R) (looked_up st (srv_mc srv) M ks) \<and>
    (\<forall>x \<in> set (ilist c'). value_text False (m_heap (srv_mc srv') x) = value_text False (m_heap (srv_mc srv) x)) \<and>
    (\<forall>s'' R''. (\<forall>x \<in> set (ilist c'). cache_run st (e_hash e) x (srv_mc srv') (hold (ilist c') R) s'' R'') \<longrightarrow>
       sent (m_heap s'') c' = concat (map (\<lambda>x. value_text rc (m_heap (srv_mc srv') x)) (ilist c')) @ end_text \<and>
       (is_udp c \<longrightarrow> udp_framed (m_heap s'') c'))"
proof -
  let ?s = "srv_mc srv" let ?H = "hits (live st ?s M) ks"
  note sd = servingD [OF srv]
  have e: "\<forall>n. e_ok e n" "\<forall>n. e_blk e n \<noteq> NULL" "tail_repair_time st = 0" using env by (auto simp: env_ok_def)
  obtain c1 where c1: "out_ok c1" "\<forall>h. sent h c1 = []" "rest_of c1 = rest_of (c\<lparr>msgcurr := 0\<rparr>)"
      "process_command e stale free line (c, srv) =
        (case dispatch (tokenize_command line MAX_TOKENS) of
           Cmd_get rc tch \<Rightarrow> map_option Handled (process_get_command e (tokenize_command line MAX_TOKENS) rc tch (c1, srv))
         | _ \<Rightarrow> process_command e stale free line (c, srv))"
    using command_start [OF e(1), of c srv] by (auto split: command.splits)
  note f = rest_of_start [OF c1(3)]
  have p1: "pool_ok c1" using c f(6) by (simp add: pool_ok_def)
  obtain ws rest where tk: "tokenize_command line MAX_TOKENS = map word_token ws @ [rest_token rest]" "line_words line = ws @ line_words rest"
      "rest \<noteq> [] \<longrightarrow> length ws = 7"
    using tokenize_words [of MAX_TOKENS line] by auto
  have "ws \<noteq> []" using tk(2,3) line(1) by (cases "rest = []") auto
  then obtain ws' where w: "ws = (if rc then bytes ''gets'' else bytes ''get'') # ws'" "ks = ws' @ line_words rest"
    using tk(2) line(1) by (cases ws) auto
  then have ws: "ws = (if rc then bytes ''gets'' else bytes ''get'') # ws'" "ws' \<noteq> []" using tk(3) line(2) by (cases "rest = []", auto)+
  have d: "dispatch (tokenize_command line MAX_TOKENS) = Cmd_get rc False"
    unfolding tk(1) ws(1) using dispatch_words(3,4) [OF ws(2), of "rest_token rest"] by (cases rc) simp_all
  obtain c' srv' s' where g: "process_get_command e (tokenize_command line MAX_TOKENS) rc False (c1, srv) = Some (c', srv')" "c_state c' = conn_mwrite" "ilist c' = ?H"
      "srv_mc srv' = s'" "moved st (e_hash e) ?s M R s' (looked_up st ?s M ks) (hold ?H R)" "is_udp c' = is_udp c1"
      "\<forall>h. readable (m_heap s') h ?H \<longrightarrow> sent h c' = sent h c1 @ concat (map (\<lambda>x. value_text rc (m_heap s' x)) ?H) @ end_text"
      "is_udp c1 \<longrightarrow> (\<forall>h. udp_framed h c')" "get_frame c1 c'" "srv_settings srv' = st"
    unfolding get_frame_def using process_get_ok [OF e(1,2) c1(1) p1 refl sd(1,3) r sd(5) line(1,3,4), of rc] by blast
  have l: "looked_up st ?s M ks \<subseteq>\<^sub>m M" using live_some [of st ?s M] by (auto simp: looked_up_def map_le_def dom_def)
  have gd: "good st (e_hash e) s' (hold ?H R) (looked_up st ?s M ks)" by (rule good_sub [OF sd(2) g(5) l])
  have hit: "set ?H \<subseteq> ran (looked_up st ?s M ks)" by (auto simp: hits_iff looked_up_def ran_def)
  have vt: "value_text False (m_heap s' x) = value_text False (m_heap ?s x)" if "x \<in> set ?H" for x
  proof -
    have "key (m_heap s' x) = key (m_heap ?s x)" "it_data (m_heap s' x) = it_data (m_heap ?s x)"
        "FLAGS_CONV (m_heap s' x) = FLAGS_CONV (m_heap ?s x)" "nbytes (m_heap s' x) = nbytes (m_heap ?s x)"
      using g(5) hits_held [OF that, of R] by (auto simp: moved_def vals_def)
    then show ?thesis by (intro value_text_cong) simp_all
  qed
  have "sent (m_heap s'') c' = concat (map (\<lambda>x. value_text rc (m_heap s' x)) ?H) @ end_text"
    if "\<forall>x \<in> set ?H. cache_run st (e_hash e) x s' (hold ?H R) s'' R''" for s'' R''
    using g(7) run_readable [OF gd e(3) that hit] c1(2) by simp
  moreover have "\<forall>x \<in> set ?H. full_data (m_heap s' x)" using gd hit by (auto simp: good_def data_ok_def crlf_def)
  moreover have "\<forall>h. readable (m_heap s') h ?H \<longrightarrow> sent h c' = concat (map (\<lambda>x. value_text rc (m_heap s' x)) ?H) @ end_text" using g(7) c1(2) by simp
  moreover have "get_frame c c'" using g(9) f(1,5,7,8) rest_ofD(15) [OF c1(3)] by (simp add: get_frame_def)
  ultimately show ?thesis using c1(4) d g(1-4) gd vt g(8,10) f(5) by auto
qed

text \<open>
  C7. Retrieval. The line of a get (with \<open>rc\<close> of a gets) for different keys makes the connection send, for every key in the order of the line that has a live
  item, its header line, client flags, length, with gets its CAS value, and its value, and then \<open>END\<close>. The connection holds every item of the
  reply; whatever other threads do until it is sent, the bytes that go to the socket are those of the moment of the lookup. On UDP
  the reply is cut into datagrams of at most 1400 bytes with consecutive numbers.
\<close>

theorem get_command_reply:
  assumes env: "env_ok e st" and srv: "serving e st srv R M" and c: "pool_ok c"
    and r: "\<forall>x. all_refs (srv_mc srv) R x + 2 * length ks < 59000"
    and line: "line_words line = (if rc then bytes ''gets'' else bytes ''get'') # ks" "ks \<noteq> []" "\<forall>k \<in> set ks. length k \<le> KEY_MAX_LENGTH" "distinct ks"
  shows "\<exists>c' srv'. process_command e stale free line (c, srv) = Some (Handled (c', srv')) \<and> c_state c' = conn_mwrite \<and>
    ilist c' = hits (live st (srv_mc srv) M) ks \<and>
    good st (e_hash e) (srv_mc srv') (hold (ilist c') R) (looked_up st (srv_mc srv) M ks) \<and>
    (\<forall>x \<in> set (ilist c'). value_text False (m_heap (srv_mc srv') x) = value_text False (m_heap (srv_mc srv) x)) \<and>
    (\<forall>s'' R''. (\<forall>x \<in> set (ilist c'). cache_run st (e_hash e) x (srv_mc srv') (hold (ilist c') R) s'' R'') \<longrightarrow>
       sent (m_heap s'') c' = concat (map (\<lambda>x. value_text rc (m_heap (srv_mc srv') x)) (ilist c')) @ end_text \<and>
       (is_udp c \<longrightarrow> udp_framed (m_heap s'') c'))"
  using get_ok [OF assms, of stale free] by blast

lemma short_command:
  assumes e: "\<forall>n. e_ok e n" and line: "line_words line = ws" "length ws < 7"
  shows "\<exists>c1. out_ok c1 \<and> rest_of c1 = rest_of (c\<lparr>msgcurr := 0\<rparr>) \<and>
    (\<forall>comm hc. dispatch (map word_token ws @ [rest_token []]) = Cmd_update comm hc \<longrightarrow>
      process_command e stale free line (c, srv) = map_option Handled (process_update_command e (map word_token ws @ [rest_token []]) comm hc (c1, srv))) \<and>
    (dispatch (map word_token ws @ [rest_token []]) = Cmd_delete \<longrightarrow>
      process_command e stale free line (c, srv) = map_option Handled (process_delete_command e (map word_token ws @ [rest_token []]) (c1, srv)))"
proof -
  have t: "tokenize_command line MAX_TOKENS = map word_token ws @ [rest_token []]" using short_line [of line] line by simp
  obtain c1 where c1: "out_ok c1" "rest_of c1 = rest_of (c\<lparr>msgcurr := 0\<rparr>)"
      "process_command e stale free line (c, srv) =
        (case dispatch (map word_token ws @ [rest_token []]) of
           Cmd_get rc tch \<Rightarrow> map_option Handled (process_get_command e (map word_token ws @ [rest_token []]) rc tch (c1, srv))
         | Cmd_update comm hc \<Rightarrow> map_option Handled (process_update_command e (map word_token ws @ [rest_token []]) comm hc (c1, srv))
         | Cmd_delete \<Rightarrow> map_option Handled (process_delete_command e (map word_token ws @ [rest_token []]) (c1, srv))
         | _ \<Rightarrow> process_command e stale free line (c, srv))"
    using command_start [OF e, of c srv] unfolding t [symmetric] by blast
  show ?thesis by (intro exI [of _ c1] conjI allI impI c1(1,2)) (use c1(3) in simp_all)
qed

text \<open>
  C17. Deletion. The line of a delete (also with the old time argument 0, also without reply) unlinks the live item of the key, or an expired or flushed one on the
  way; the client is told which it was, no other key changes, and whatever clients hold stays as it is.
\<close>

theorem delete_command_outcome:
  assumes env: "env_ok e st" and srv: "serving e st srv R M" and c: "\<not> noreply c" "12 \<le> wsize c"
    and line: "line_words line = bytes ''delete'' # k # ws" "delete_options ws" "length k \<le> KEY_MAX_LENGTH"
  shows "\<exists>c' srv'. process_command e stale free line (c, srv) = Some (Handled (c', srv')) \<and>
    moved st (e_hash e) (srv_mc srv) M R (srv_mc srv') (M(k := None)) R \<and> good st (e_hash e) (srv_mc srv') R (M(k := None)) \<and>
    replied (if live st (srv_mc srv) M k = None then bytes ''NOT_FOUND'' else bytes ''DELETED'') (bytes ''noreply'' \<in> set ws) c'"
proof -
  note sd = servingD [OF srv]
  let ?ws = "bytes ''delete'' # k # ws"
  have e: "\<forall>n. e_ok e n" using env by (simp add: env_ok_def)
  have n: "length ?ws < 7" "1 \<le> length (k # ws) \<and> length (k # ws) \<le> 3" using line(2) by (auto simp: delete_options_def)
  obtain c1 where c1: "rest_of c1 = rest_of (c\<lparr>msgcurr := 0\<rparr>)"
      "process_command e stale free line (c, srv) = map_option Handled (process_delete_command e (map word_token ?ws @ [rest_token []]) (c1, srv))"
    using short_command [OF e line(1) n(1), of c stale free srv] dispatch_words(2) [OF n(2), of "rest_token []"] by blast
  note f = rest_of_start [OF c1(1)]
  have c': "\<not> noreply c1" "12 \<le> wsize c1" using c f by simp_all
  obtain c' srv' s' where d: "process_delete_command e (map word_token ?ws @ [rest_token []]) (c1, srv) = Some (c', srv')" "srv_mc srv' = s'"
      "moved st (e_hash e) (srv_mc srv) M R s' (M(k := None)) R"
      "replied (if live st (srv_mc srv) M k = None then bytes ''NOT_FOUND'' else bytes ''DELETED'') (bytes ''noreply'' \<in> set ws) c'"
    using delete_ok [OF c' refl sd(1,3,7,5) line(2,3)] by blast
  have "M(k := None) \<subseteq>\<^sub>m M" by (auto simp: map_le_def)
  then have "good st (e_hash e) s' R (M(k := None))" by (rule good_sub [OF sd(2) d(3)])
  then show ?thesis using c1(2) d by simp
qed

text \<open>The value of an upload is stored.\<close>

lemma upload_complete:
  assumes env: "env_ok e st" and b: "update_begun e st k fl vlen quiet NREAD_SET c1 (srv_mc srv1) R M0" "\<not> mset_res c1" "41 \<le> wsize c1"
    and up: "uploading e st (c1, srv1) (add_ref (c_item c1) R) bs (c2, srv2) R2" "rlbytes c2 = 0" and srv: "serving e st srv2 R2 M"
  defines "it \<equiv> c_item c1"
  shows "\<exists>c3 srv3. complete_nread_ascii e (c2, srv2) = Some (c3, srv3) \<and> srv_settings srv3 = st \<and> length bs = nat (vlen + 2) \<and> R2 it = 1 \<and>
    (if drop (length bs - 2) bs = [CR, LF]
     then good st (e_hash e) (srv_mc srv3) (R2(it := 0)) (M(k \<mapsto> it)) \<and> replied (bytes ''STORED'') quiet c3 \<and>
       item_value (m_heap (srv_mc srv3) it) = bs \<and> FLAGS_CONV (m_heap (srv_mc srv3) it) = fl \<and> nbytes (m_heap (srv_mc srv3) it) = vlen + 2
     else good st (e_hash e) (srv_mc srv3) (R2(it := 0)) M \<and> replied (bytes ''CLIENT_ERROR bad data chunk'') quiet c3)"
proof -
  note sd = servingD [OF srv]
  have e: "\<forall>n. e_ok e n" "os_ok st (e_os e)" "tail_repair_time st = 0" using env by (auto simp: env_ok_def)
  obtain i where i: "key i = k" "FLAGS_CONV i = fl" "nbytes i = vlen + 2" "filling e st i [] c1 (srv_mc srv1) (add_ref it R)"
    using b(1) by (auto simp: update_begun_def it_def)
  have b': "it \<noteq> NULL" "R it = 0" "cmd c1 = NREAD_SET" "noreply c1 = quiet" using b(1) by (simp_all add: update_begun_def it_def)
  obtain f2: "filling e st i bs c2 (srv_mc srv2) R2" and R2: "R2 it = 1" and sb: "same_but_input (c1, srv1) (c2, srv2)"
    using uploading_filling [OF up(1) i(4) [unfolded it_def] e(3)] b' by (auto simp: it_def add_ref_def)
  note f = same_but_inputD [OF sb]
  have c2: "\<not> mset_res c2" "41 \<le> wsize c2" "c_item c2 = it" "cmd c2 = NREAD_SET" "noreply c2 = quiet" using f b b' by (simp_all add: it_def)
  have fits: "cmd c2 = NREAD_APPEND \<or> cmd c2 = NREAD_PREPEND \<Longrightarrow> fits_with st (e_hash e) (srv_mc srv2) (c_item c2)" using c2(4) by simp
  have len: "int (length bs) = vlen + 2" using f2 up(2) i(3) by (simp add: filling_def)
  have nl: "nat (vlen + 2) = length bs" using len by simp
  have h: "it \<in> held M R2" "it \<in> held (M(k \<mapsto> it)) (R2(it := R2 it - 1))" using R2 ranI [of "M(k \<mapsto> it)" k it] by (simp_all add: held_def)
  have v2: "item_value (m_heap (srv_mc srv2) it) = bs" "FLAGS_CONV (m_heap (srv_mc srv2) it) = fl" "key (m_heap (srv_mc srv2) it) = k"
      "nbytes (m_heap (srv_mc srv2) it) = vlen + 2"
    using f2 nl i c2(3) by (simp_all add: filling_def Let_def item_value_def item_bytes_def)
  obtain c3 srv3 s3 res M' M0 where d: "complete_nread_ascii e (c2, srv2) = Some (c3, srv3)" "srv_mc srv3 = s3" "srv_settings srv3 = st"
      "if drop (length bs - 2) bs = [CR, LF]
       then survivors M0 M NREAD_SET res \<and> store_outcome (locked (e_os e)) (srv_mc srv2) M M0 R2 (live st (srv_mc srv2) M k) (set_stale c2) it NREAD_SET res s3 M' \<and>
         data_ok s3 M' \<and> moved st (e_hash e) (srv_mc srv2) M0 R2 s3 M' (R2(it := R2 it - 1)) \<and> replied (store_text res) quiet c3
       else moved st (e_hash e) (srv_mc srv2) M R2 s3 M (R2(it := R2 it - 1)) \<and> replied (bytes ''CLIENT_ERROR bad data chunk'') quiet c3"
    using complete_ok [OF f2 up(2) sd(2) refl sd(1) e(2,3) sd(5,6) c2(1,2) fits] unfolding c2(3-5) i(1) by blast
  show ?thesis
  proof (cases "drop (length bs - 2) bs = [CR, LF]")
    case True
    then have t: "survivors M0 M NREAD_SET res" "store_outcome (locked (e_os e)) (srv_mc srv2) M M0 R2 (live st (srv_mc srv2) M k) (set_stale c2) it NREAD_SET res s3 M'"
        "data_ok s3 M'" "moved st (e_hash e) (srv_mc srv2) M0 R2 s3 M' (R2(it := R2 it - 1))" "replied (store_text res) quiet c3"
      using d(4) by auto
    have m: "M0 = M" "res = STORED" "M' = M(k \<mapsto> it)" using t(1,2) v2(3) by (auto simp: survivors_def store_outcome_def Let_def)
    note mv = t(4) [unfolded m]
    have "good st (e_hash e) s3 (R2(it := 0)) (M(k \<mapsto> it))" using moved_ok [OF mv] t(3) m(3) R2 by (simp add: good_def)
    moreover have "item_value (m_heap s3 it) = bs" "FLAGS_CONV (m_heap s3 it) = fl" using moved_value [OF mv h] v2 by simp_all
    moreover have "nbytes (m_heap s3 it) = vlen + 2" using mv h v2(4) by (simp add: moved_def vals_def)
    moreover have "replied (bytes ''STORED'') quiet c3" using t(5) m(2) by (simp add: store_text_def)
    ultimately show ?thesis using True d(1-3) len R2 by auto
  next
    case False
    then have t: "moved st (e_hash e) (srv_mc srv2) M R2 s3 M (R2(it := R2 it - 1))" "replied (bytes ''CLIENT_ERROR bad data chunk'') quiet c3" using d(4) by auto
    have "good st (e_hash e) s3 (R2(it := 0)) M" using good_sub [OF sd(2) t(1) map_le_refl] R2 by simp
    then show ?thesis using False t(2) d(1-3) len R2 by auto
  qed
qed

lemma set_begins:
  assumes env: "env_ok e st" and srv: "serving e st srv R M" and c: "\<not> noreply c" "\<not> mset_res c" "41 \<le> wsize c"
    and line: "line_words line = bytes ''set'' # ws" "update_words (bytes ''set'' # ws) k fl ex vlen quiet"
    and plain: "item_total st (length k) fl (vlen + 2) \<le> slab_chunk_size_max st"
  shows "\<exists>c1 srv1. process_command e stale free line (c, srv) = Some (Handled (c1, srv1)) \<and> \<not> mset_res c1 \<and> 41 \<le> wsize c1 \<and> srv_settings srv1 = st \<and>
    (update_refused e st k vlen quiet (rbuf c) NREAD_SET c1 (srv_mc srv1) R M \<or> update_begun e st k fl vlen quiet NREAD_SET c1 (srv_mc srv1) R M)"
proof -
  note sd = servingD [OF srv]
  have e: "\<forall>n. e_ok e n" "os_ok st (e_os e)" "tail_repair_time st = 0" using env by (auto simp: env_ok_def)
  let ?ws = "bytes ''set'' # ws"
  have n: "length ?ws < 7" "length ws = 4 \<or> length ws = 5" using line(2) by (auto simp: update_words_def split: if_splits)
  obtain c0 where c0: "rest_of c0 = rest_of (c\<lparr>msgcurr := 0\<rparr>)"
      "process_command e stale free line (c, srv) = map_option Handled (process_update_command e (map word_token ?ws @ [rest_token []]) NREAD_SET False (c0, srv))"
    using short_command [OF e(1) line(1) n(1), of c stale free srv] dispatch_words(1) [OF n(2), of "rest_token []"] by blast
  note f = rest_of_start [OF c0(1)]
  have nr: "\<not> noreply c0" using c f by simp
  obtain c1 srv1 where d: "process_update_command e (map word_token ?ws @ [rest_token []]) NREAD_SET False (c0, srv) = Some (c1, srv1)"
      "mset_res c1 = mset_res c0" "wsize c1 = wsize c0" "srv_settings srv1 = st"
      "update_begun e st k fl vlen quiet NREAD_SET c1 (srv_mc srv1) R M \<or> update_refused e st k vlen quiet (rbuf c0) NREAD_SET c1 (srv_mc srv1) R M"
    using update_ok [OF e(2,3) sd(5) nr refl sd(1,2,6) line(2) plain, of NREAD_SET] by blast
  then show ?thesis using c0(2) f c by (intro exI [of _ c1] exI [of _ srv1]) auto
qed

text \<open>
  C8. Storage. The line of a set with numbers for client flags, expiry time and length either is refused for want of memory, or gives the connection an item of its
  own. When it is refused an old item of the key is removed; a client that waits for a reply gets an error line and the bytes of its value will be skipped, but after \<open>noreply\<close>
  nothing is sent and the connection reads its next command from the bytes of the value. When it is accepted, then, however the bytes of the value arrive and whatever
  other threads do meanwhile, once the announced number of bytes is there: if they end with a line end, the key leads to that item with exactly these bytes and
  flags and all other keys are as before; otherwise nothing is stored. The client is told, unless it asked for no reply, and the item is released.
\<close>

theorem set_command_outcome:
  assumes env: "env_ok e st" and srv: "serving e st srv R M" and c: "\<not> noreply c" "\<not> mset_res c" "41 \<le> wsize c"
    and line: "line_words line = bytes ''set'' # ws" "update_words (bytes ''set'' # ws) k fl ex vlen quiet"
    and plain: "item_total st (length k) fl (vlen + 2) \<le> slab_chunk_size_max st"
  shows "\<exists>c1 srv1. process_command e stale free line (c, srv) = Some (Handled (c1, srv1)) \<and>
    (update_refused e st k vlen quiet (rbuf c) NREAD_SET c1 (srv_mc srv1) R M \<or>
     update_begun e st k fl vlen quiet NREAD_SET c1 (srv_mc srv1) R M \<and>
     (\<forall>bs c2 srv2 R2 M2. uploading e st (c1, srv1) (add_ref (c_item c1) R) bs (c2, srv2) R2 \<and> rlbytes c2 = 0 \<and> serving e st srv2 R2 M2 \<longrightarrow>
       (\<exists>c3 srv3. complete_nread_ascii e (c2, srv2) = Some (c3, srv3) \<and> length bs = nat (vlen + 2) \<and>
         (if drop (length bs - 2) bs = [CR, LF]
          then good st (e_hash e) (srv_mc srv3) (R2(c_item c1 := 0)) (M2(k \<mapsto> c_item c1)) \<and> replied (bytes ''STORED'') quiet c3 \<and>
            item_value (m_heap (srv_mc srv3) (c_item c1)) = bs \<and> FLAGS_CONV (m_heap (srv_mc srv3) (c_item c1)) = fl \<and>
            nbytes (m_heap (srv_mc srv3) (c_item c1)) = vlen + 2
          else good st (e_hash e) (srv_mc srv3) (R2(c_item c1 := 0)) M2 \<and> replied (bytes ''CLIENT_ERROR bad data chunk'') quiet c3))))"
proof -
  obtain c1 srv1 where c1: "process_command e stale free line (c, srv) = Some (Handled (c1, srv1))" "\<not> mset_res c1" "41 \<le> wsize c1"
      "update_refused e st k vlen quiet (rbuf c) NREAD_SET c1 (srv_mc srv1) R M \<or> update_begun e st k fl vlen quiet NREAD_SET c1 (srv_mc srv1) R M"
    using set_begins [OF assms] by blast
  show ?thesis using c1(1,4) upload_complete [OF env _ c1(2,3)] by (intro exI [of _ c1] exI [of _ srv1]) blast
qed

lemma stored_text:
  assumes "nbytes i = vlen + 2" "0 \<le> vlen" "vlen \<le> INT_MAX - 2" "item_value i = v @ [CR, LF]"
  shows "value_text False i = bytes ''VALUE '' @ key i @ SP # decimal (unat (FLAGS_CONV i)) @ SP # decimal (nat vlen) @ [CR, LF] @ v @ [CR, LF]"
proof -
  have "unat (word_of_int vlen :: u32) = nat vlen" using assms(2,3) by (simp add: unat_eq_nat_uint uint_word_of_int_eq take_bit_int_eq_self)
  then show ?thesis using assms(1,4) by (simp add: value_text_def)
qed

text \<open>
  C5. Store and fetch. When a set was accepted and its value has arrived, a get for the key on any connection, after the store and before anything else touches
  the cache, replies the stored value with its client flags and length, and nothing more, unless the item has already expired or been flushed.
\<close>

theorem set_then_get_text:
  assumes env: "env_ok e st" "env_ok e' st" "e_hash e' = e_hash e"
    and srv: "serving e st srv R M" and c: "\<not> noreply c" "\<not> mset_res c" "41 \<le> wsize c"
    and line: "line_words line = bytes ''set'' # ws" "update_words (bytes ''set'' # ws) k fl ex vlen quiet"
    and plain: "item_total st (length k) fl (vlen + 2) \<le> slab_chunk_size_max st"
    and set: "process_command e stale free line (c, srv) = Some (Handled (c1, srv1))" "c_state c1 = conn_nread"
    and up: "uploading e st (c1, srv1) (add_ref (c_item c1) R) (v @ [CR, LF]) (c2, srv2) R2" "rlbytes c2 = 0" "serving e st srv2 R2 M2"
    and stored: "complete_nread_ascii e (c2, srv2) = Some (c3, srv3)"
    and get: "pool_ok c4" "line_words line' = [bytes ''get'', k]" "e_thread e' < length (bump_bufs (srv_mc srv3))"
      "\<forall>x. all_refs (srv_mc srv3) (R2(c_item c1 := 0)) x < 58000"
    and alive: "\<not> item_dead st (current_time (srv_mc srv3)) (m_heap (srv_mc srv3) (c_item c1))"
  shows "\<exists>c5 srv5. process_command e' stale' free' line' (c4, srv3) = Some (Handled (c5, srv5)) \<and> c_state c5 = conn_mwrite \<and>
    sent (m_heap (srv_mc srv5)) c5 =
      bytes ''VALUE '' @ k @ SP # decimal (unat fl) @ SP # decimal (nat vlen) @ [CR, LF] @ v @ [CR, LF] @ end_text"
proof -
  let ?it = "c_item c1" let ?M = "M2(k \<mapsto> ?it)" and ?R = "R2(?it := 0)"
  have nr: "\<not> update_refused e st k vlen quiet (rbuf c) NREAD_SET c1 (srv_mc srv1) R M" using set(2) by (simp add: update_refused_def)
  have b: "update_begun e st k fl vlen quiet NREAD_SET c1 (srv_mc srv1) R M" "\<not> mset_res c1" "41 \<le> wsize c1"
    using set_begins [OF env(1) srv c line plain, of stale free] set(1) nr by auto
  have vl: "length (v @ [CR, LF]) = nat (vlen + 2)" and s3: "srv_settings srv3 = st" "good st (e_hash e) (srv_mc srv3) ?R ?M"
      "item_value (m_heap (srv_mc srv3) ?it) = v @ [CR, LF]" "FLAGS_CONV (m_heap (srv_mc srv3) ?it) = fl" "nbytes (m_heap (srv_mc srv3) ?it) = vlen + 2"
    using upload_complete [OF env(1) b up] stored by simp_all
  have lk: "line_words line' = (if False then bytes ''gets'' else bytes ''get'') # [k]" "[k] \<noteq> []" "\<forall>k \<in> set [k]. length k \<le> KEY_MAX_LENGTH" "distinct [k]"
    using get(2) line(2) by (auto simp: update_words_def)
  have sv: "serving e' st srv3 ?R ?M" using s3 get(3,4) less_trans [OF spec [OF get(4)], of 63000] env(3) by (simp add: serving_def refs_ok_def)
  have r: "\<forall>x. all_refs (srv_mc srv3) ?R x + 2 * length [k] < 59000" 
  proof
    fix x show "all_refs (srv_mc srv3) ?R x + 2 * length [k] < 59000" using spec [OF get(4), of x] by simp
  qed
  have L: "hits (live st (srv_mc srv3) ?M) [k] = [?it]" using alive by (simp add: live_def)
  obtain c5 srv5 where g: "process_command e' stale' free' line' (c4, srv3) = Some (Handled (c5, srv5))" "c_state c5 = conn_mwrite" "ilist c5 = [?it]"
      "value_text False (m_heap (srv_mc srv5) ?it) = value_text False (m_heap (srv_mc srv3) ?it)"
      "\<forall>s'' R''. cache_run st (e_hash e') ?it (srv_mc srv5) (hold [?it] ?R) s'' R'' \<longrightarrow>
         sent (m_heap s'') c5 = value_text False (m_heap (srv_mc srv5) ?it) @ end_text"
    using get_ok [OF env(2) sv get(1) r lk, of stale' free'] unfolding L by auto
  have "sent (m_heap (srv_mc srv5)) c5 = value_text False (m_heap (srv_mc srv3) ?it) @ end_text" using g(4,5) cache_run.stay by metis
  moreover have "key (m_heap (srv_mc srv3) ?it) = k"
    using cache_okD [of st "e_hash e" "srv_mc srv3" ?M ?R] mapped_key [of st "e_hash e" "srv_mc srv3" ?M _ _ k ?it] s3(2) by (auto simp: good_def)
  moreover have "0 \<le> vlen" "vlen \<le> INT_MAX - 2" using line(2) by (auto simp: update_words_def)
  ultimately show ?thesis using stored_text [of "m_heap (srv_mc srv3) ?it" vlen v] s3(3-5) g(1,2) by simp
qed

section \<open>Witnesses\<close>

theorem tokenize_command_words_witness:
  "length (tokenize_command (bytes ''get a b'') 3) \<le> 3 \<and> line_words (bytes ''get a b'') = [bytes ''get'', bytes ''a'', bytes ''b'']"
  using tokenize_command_words [of 3 "bytes ''get a b''"] by (auto simp: line_words_def)

definition w_env :: cenv where
  "w_env = \<lparr>e_hash = w_hash, e_thread = 0, e_ok = (\<lambda>_. True), e_blk = (\<lambda>_. 64), e_os = w_os, e_oss = (\<lambda>_. w_os), e_beyond = (\<lambda>_. [])\<rparr>"

definition w_srv :: "mc \<Rightarrow> server" where
  "w_srv s = \<lparr>srv_mc = s, srv_settings = tiny, srv_prefixes = \<lparr>prefix_stats = (\<lambda>_. []), num_prefixes = 0, total_prefix_size = 0\<rparr>, detail_enabled = False, prefix_delimiter = 58, flush_enabled = True,
     process_started = 0\<rparr>"

definition w_stats :: thread_stats where
  "w_stats = \<lparr>get_cmds = 0, get_misses = 0, touch_cmds = 0, touch_misses = 0, delete_misses = 0, incr_misses = 0, decr_misses = 0, flush_cmds = 0,
     set_cmds = (\<lambda>_. 0), touch_hits = (\<lambda>_. 0), delete_hits = (\<lambda>_. 0), lru_hits = (\<lambda>_. 0), bytes_read = 0, bytes_written = 0, conn_yields = 0, malloc_fails = 0\<rparr>"

definition w_conn :: conn where
  "w_conn = \<lparr>c_state = conn_new_cmd, write_and_go = conn_new_cmd, c_transport = udp_transport, noreply = False, set_stale = False, mset_res = False,
     rbuf = [], rsize = 2048, wbuf = [], wsize = 2048, c_item = NULL, ritem = 0, rlbytes = 0, cmd = NREAD_ADD, sbytes = 0, msglist = [], msgsize = 10, msgcurr = 0,
     msgbytes = 0, iovused = 0, iovsize = 400, hdrsize = 0, request_id = 7, ilist = [], isize = 200, suffixlist = [], suffixsize = 20,
     suffix_cache = the (cache_create True 50 False False True), asked = 0, c_stats = w_stats\<rparr>"

lemma w_env_ok: "env_ok w_env tiny"
  by (simp add: env_ok_def w_env_def w_os_ok w_settings(3))

lemma w_conn_ok: "pool_ok w_conn" "\<not> noreply w_conn" "\<not> mset_res w_conn" "wsize w_conn = 2048"
  by (simp_all add: w_conn_def pool_ok_def pool_def cache_create_def)

lemma w_serving:
  assumes "good tiny w_hash s R M" "length (bump_bufs s) = 1" "\<forall>x. bump_count s x = 0" "\<forall>x. R x < 58000"
  shows "serving w_env tiny (w_srv s) R M" "\<forall>x. all_refs s R x < 58000"
proof -
  have ar: "all_refs s R = R" using assms(3) by (simp add: all_refs_def fun_eq_iff)
  have "R x < 63000" for x by (rule less_trans [OF spec [OF assms(4)]]) simp
  then show "serving w_env tiny (w_srv s) R M" "\<forall>x. all_refs s R x < 58000"
    using assms by (simp_all add: serving_def w_srv_def w_env_def refs_ok_def ar)
qed

theorem get_command_reply_witness:
  "\<exists>s c' srv'. live tiny s [[97] \<mapsto> 4224] [97] = Some 4224 \<and> item_value (m_heap s 4224) = bytes ''5'' @ [CR, LF] \<and>
     process_command w_env False True (bytes ''get a b'') (w_conn, w_srv s) = Some (Handled (c', srv')) \<and>
     sent (m_heap (srv_mc srv')) c' = value_text False (m_heap s 4224) @ end_text \<and> udp_framed (m_heap (srv_mc srv')) c'"
proof -
  obtain s where s: "good tiny w_hash s w_refs [[97] \<mapsto> 4224]" "live tiny s [[97] \<mapsto> 4224] [97] = Some 4224"
      "item_value (m_heap s 4224) = number_text 5 0" "length (bump_bufs s) = 1" "\<forall>x. bump_count s x = 0"
    using w_linked by blast
  have sv: "serving w_env tiny (w_srv s) w_refs [[97] \<mapsto> 4224]" "\<forall>x. all_refs s w_refs x < 58000" using w_serving [OF s(1,4,5)] by simp_all
  have r: "\<forall>x. all_refs (srv_mc (w_srv s)) w_refs x + 2 * length [[97 :: byte], [98]] < 59000"
  proof
    fix x show "all_refs (srv_mc (w_srv s)) w_refs x + 2 * length [[97 :: byte], [98]] < 59000" using spec [OF sv(2), of x] by (simp add: w_srv_def)
  qed
  have l: "line_words (bytes ''get a b'') = (if False then bytes ''gets'' else bytes ''get'') # [[97], [98]]" by (simp add: line_words_def)
  have L: "hits (live tiny (srv_mc (w_srv s)) [[97] \<mapsto> 4224]) [[97], [98]] = [4224]" using s(2) by (simp add: w_srv_def) (simp add: live_def)
  have u: "is_udp w_conn" by (simp add: w_conn_def)
  obtain c' srv' where g: "process_command w_env False True (bytes ''get a b'') (w_conn, w_srv s) = Some (Handled (c', srv'))" "ilist c' = [4224]"
      "value_text False (m_heap (srv_mc srv') 4224) = value_text False (m_heap s 4224)"
      "\<forall>s'' R''. cache_run tiny w_hash 4224 (srv_mc srv') (hold [4224] w_refs) s'' R'' \<longrightarrow>
         sent (m_heap s'') c' = value_text False (m_heap (srv_mc srv') 4224) @ end_text \<and> udp_framed (m_heap s'') c'"
    using get_command_reply [OF w_env_ok sv(1) w_conn_ok(1) r l, of False True] unfolding L by (auto simp: u w_srv_def [of s] w_env_def)
  have "sent (m_heap (srv_mc srv')) c' = value_text False (m_heap s 4224) @ end_text \<and> udp_framed (m_heap (srv_mc srv')) c'"
    using g(3) spec [OF spec [OF g(4), of "srv_mc srv'"], of "hold [4224] w_refs"] cache_run.stay by auto
  moreover have "item_value (m_heap s 4224) = bytes ''5'' @ [CR, LF]" using s(3) by (simp add: number_text_def decimal.simps)
  ultimately show ?thesis using s(2) g(1) by blast
qed

theorem delete_command_outcome_witness:
  "\<exists>s c' srv'. live tiny s [[97] \<mapsto> 4224] [97] = Some 4224 \<and> good tiny w_hash (srv_mc srv') w_refs Map.empty \<and>
     process_command w_env False True (bytes ''delete a 0'') (w_conn, w_srv s) = Some (Handled (c', srv')) \<and> wbuf c' = bytes ''DELETED'' @ [CR, LF]"
proof -
  obtain s where s: "good tiny w_hash s w_refs [[97] \<mapsto> 4224]" "live tiny s [[97] \<mapsto> 4224] [97] = Some 4224" "length (bump_bufs s) = 1" "\<forall>x. bump_count s x = 0"
    using w_linked by blast
  have sv: "serving w_env tiny (w_srv s) w_refs [[97] \<mapsto> 4224]" using w_serving [OF s(1,3,4)] by simp
  have l: "line_words (bytes ''delete a 0'') = bytes ''delete'' # [97] # [bytes ''0'']" "delete_options [bytes ''0'']" "length [97 :: byte] \<le> KEY_MAX_LENGTH"
    by (simp_all add: line_words_def delete_options_def)
  have w: "12 \<le> wsize w_conn" by (simp add: w_conn_ok)
  have "e_hash w_env = w_hash" "srv_mc (w_srv s) = s" "bytes ''noreply'' \<noteq> bytes ''0''" by (simp_all add: w_env_def w_srv_def)
  then show ?thesis
    using delete_command_outcome [OF w_env_ok sv w_conn_ok(2) w l, of False True] s(2)
    by (fastforce simp: replied_def simp del: bytes_simps)
qed

text \<open>The line \<open>set a 0 0 1\<close> on the empty cache: the item is the first chunk of the first page.\<close>

definition w_set :: "byte list" where
  "w_set = bytes ''set a 0 0 1''"

lemma w_set_words: "line_words w_set = bytes ''set'' # [[97], bytes ''0'', bytes ''0'', bytes ''1'']"
    "update_words (bytes ''set'' # [[97], bytes ''0'', bytes ''0'', bytes ''1'']) [97] 0 0 1 False"
proof -
  have n: "bytes ''0'' = decimal 0" "bytes ''1'' = decimal 1" by (simp_all add: decimal.simps)
  have "safe_strtoul (decimal 0) = Some 0" "safe_strtol (decimal 0) = Some 0" "safe_strtol (decimal 1) = Some 1"
    by (simp_all add: safe_strtoul_def safe_strtol_def scan_number_decimal strtoull_val_def strtoll_val_def end_ok_def)
  then have "safe_strtoul (bytes ''0'') = Some 0" "safe_strtol (bytes ''0'') = Some 0" "safe_strtol (bytes ''1'') = Some 1" by (simp_all only: n)
  then show "update_words (bytes ''set'' # [[97], bytes ''0'', bytes ''0'', bytes ''1'']) [97] 0 0 1 False"
    by (simp add: update_words_def)
  show "line_words w_set = bytes ''set'' # [[97], bytes ''0'', bytes ''0'', bytes ''1'']" by (simp add: line_words_def w_set_def)
qed

lemma w_plain: "item_total tiny (length [97 :: byte]) 0 (1 + 2) \<le> slab_chunk_size_max tiny"
  by (simp add: item_total_def item_make_header_def sizeof_item_def tiny_def sample_settings_def)

lemma w_serving_start: "serving w_env tiny (w_srv w_start) (\<lambda>_. 0) Map.empty"
  using w_serving(1) [OF w_empty] w_bufs by simp

text \<open>The item is allocated, so the connection reads.\<close>

lemma w_accepted_on:
  "\<exists>c1 srv1. process_command w_env False True w_set (w_conn\<lparr>c_transport := tr\<rparr>, w_srv w_start) = Some (Handled (c1, srv1)) \<and> c_state c1 = conn_nread \<and>
     c_item c1 = 4224 \<and> c_transport c1 = tr \<and> exptime (m_heap (srv_mc srv1) 4224) = 0 \<and> bump_bufs (srv_mc srv1) = bump_bufs w_start"
proof -
  let ?ws = "bytes ''set'' # [[97], bytes ''0'', bytes ''0'', bytes ''1'']"
  have e: "\<forall>n. e_ok w_env n" by (simp add: w_env_def)
  have n: "length ?ws < 7" "length [[97], bytes ''0'', bytes ''0'', bytes ''1''] = 4 \<or> length [[97], bytes ''0'', bytes ''0'', bytes ''1''] = 5" by simp_all
  obtain c0 where r0': "rest_of c0 = rest_of (w_conn\<lparr>c_transport := tr, msgcurr := 0\<rparr>)" and c0: "process_command w_env False True w_set (w_conn\<lparr>c_transport := tr\<rparr>, w_srv w_start) =
      map_option Handled (process_update_command w_env (map word_token ?ws @ [rest_token []]) NREAD_SET False (c0, w_srv w_start))"
    using short_command [OF e w_set_words(1) n(1), of "w_conn\<lparr>c_transport := tr\<rparr>" False True "w_srv w_start"] dispatch_words(1) [OF n(2), of "rest_token []"] by blast
  obtain s1 where a: "item_alloc tiny w_hash w_os [97] 0 0 3 w_start = Some (4224, s1)" using w_alloc by blast
  have r0: "refs_ok w_start (\<lambda>_. 0)" by (simp add: refs_ok_def all_refs_def w_bufs)
  have i: "is_item (m_heap s1 4224) [97] 0 0 3" using good_alloc [OF w_empty r0 w_os_ok w_settings(3) w_plain, of 0] a by auto
  have "few_refs (all_refs w_start (\<lambda>_. 0))" by (simp add: few_refs_def all_refs_def w_bufs)
  then have bb: "bump_bufs s1 = bump_bufs w_start"
    using moved_alloc [OF _ w_settings(3) w_os_ok _ w_plain, of w_hash w_start Map.empty "\<lambda>_. 0" 0] w_empty a by (auto simp: good_def item_alloc_def)
  have et: "line_exptime (w_srv w_start) 0 = 0" by (simp add: line_exptime_def realtime_def)
  have al: "item_alloc tiny (e_hash w_env) (e_os w_env) [97] 0 (line_exptime (w_srv w_start) 0) (1 + 2) w_start = Some (4224, s1)"
    using a by (simp add: et w_env_def)
  have nr: "\<not> noreply c0" "srv_mc (w_srv w_start) = w_start" "srv_settings (w_srv w_start) = tiny"
    using rest_of_start(1) [OF r0'] by (simp_all add: w_srv_def w_conn_def)
  obtain m srv1 where u: "process_update_command w_env (map word_token ?ws @ [rest_token []]) NREAD_SET False (c0, w_srv w_start) =
      Some (update_reads 4224 0 NREAD_SET (c0\<lparr>noreply := False, asked := m\<rparr>, srv1\<lparr>srv_mc := s1\<rparr>))"
    using update_steps [OF nr w_set_words(2) al, of NREAD_SET] by auto
  have "c_transport c0 = tr" using rest_ofD(2) [OF r0'] by simp
  then show ?thesis unfolding c0 u using i bb
    by (simp add: update_reads_def Let_def conn_set_state_def upd_apply cas_harmless is_item_def)
qed

lemma w_accepted:
  "\<exists>c1 srv1. process_command w_env False True w_set (w_conn, w_srv w_start) = Some (Handled (c1, srv1)) \<and> c_state c1 = conn_nread \<and>
     c_item c1 = 4224 \<and> exptime (m_heap (srv_mc srv1) 4224) = 0 \<and> bump_bufs (srv_mc srv1) = bump_bufs w_start"
proof -
  have "w_conn\<lparr>c_transport := udp_transport\<rparr> = w_conn" by (simp add: w_conn_def)
  then show ?thesis using w_accepted_on [of udp_transport] by auto
qed

text \<open>What storing under a free key leaves of the item and of the bump buffers.\<close>

lemma remove_frame:
  assumes "do_item_remove it s = Some s'" "\<not> has_flag (m_heap s it) ITEM_CHUNKED"
  shows "exptime (m_heap s' x) = exptime (m_heap s x)" "bump_bufs s' = bump_bufs s"
  using assms
  by (auto simp: do_item_remove_def refcount_decr_def item_free_def do_slabs_free_def push_free_def Let_def has_flag_def upd_apply
      split: if_splits bind_splits)

lemma w_completed:
  assumes g: "good tiny w_hash s R Map.empty" and s: "srv_mc srv = s" "srv_settings srv = tiny" "c_item c = 4224" "cmd c = NREAD_SET" and r: "0 < R 4224" "all_refs s R 4224 < 65000"
    and compl: "complete_nread_ascii w_env (c, srv) = Some (c', srv')"
  shows "exptime (m_heap (srv_mc srv') 4224) = exptime (m_heap s 4224)" "bump_bufs (srv_mc srv') = bump_bufs s"
proof -
  let ?k = "key (m_heap s 4224)" let ?s1 = "do_item_link tiny 4224 (w_hash ?k) s"
  have ok: "cache_ok tiny w_hash s Map.empty R" using g by (simp add: good_def)
  obtain Q where Q: "cache_inv tiny w_hash s Map.empty Q R" using ok by (auto simp: cache_ok_def)
  have nc: "\<not> has_flag (m_heap s 4224) ITEM_CHUNKED" by (rule item_plain(1) [OF ok r(1)])
  have st: "\<exists>ca. store_item tiny w_hash w_os (\<lambda>_. w_os) 0 ss 4224 NREAD_SET s = Some (STORED, ca, ?s1)" for ss
    using cache_get_none [OF Q, where k = ?k and t = 0 and u = False] by (simp add: store_item_def do_store_item_def store_value_def)
  have m: "moved tiny w_hash s Map.empty R ?s1 (Map.empty(?k \<mapsto> 4224)) R" using moved_link [OF ok _ r] by simp
  have nc1: "\<not> has_flag (m_heap ?s1 4224) ITEM_CHUNKED" by (rule item_plain(1) [OF moved_ok [OF m] r(1)])
  have p: "0 < all_refs s R 4224" using r(1) by (simp add: all_refs_def)
  have bs: "bump_bufs ?s1 = bump_bufs s" using store_link(2) [of tiny w_hash s Map.empty Q "all_refs s R" 4224] p r(2) Q by (simp add: cache_inv_def keeps_def)
  have "\<exists>s0 \<in> {s, ?s1}. do_item_remove 4224 s0 = Some (srv_mc srv')"
    using compl st [of "set_stale c"] s
    by (auto simp: complete_nread_ascii_def Let_def item_remove_def w_env_def upd_tstats_def split: if_splits bind_splits)
  then show "exptime (m_heap (srv_mc srv') 4224) = exptime (m_heap s 4224)" "bump_bufs (srv_mc srv') = bump_bufs s"
    using remove_frame [of 4224 s] remove_frame [of 4224 ?s1] nc nc1 link_exptime [of tiny 4224 "w_hash ?k" s]
      bs by auto
qed

text \<open>The value \<open>5\<close> arrives and is stored.\<close>

lemma w_uploaded:
  "\<exists>c1 srv1 c2 srv2. process_command w_env False True w_set (w_conn, w_srv w_start) = Some (Handled (c1, srv1)) \<and> c_state c1 = conn_nread \<and>
     c_item c1 = 4224 \<and> uploading w_env tiny (c1, srv1) (add_ref (c_item c1) (\<lambda>_. 0)) (bytes ''5'' @ [CR, LF]) (c2, srv2) w_refs \<and> rlbytes c2 = 0 \<and>
     serving w_env tiny srv2 w_refs Map.empty \<and> c_item c2 = 4224 \<and> cmd c2 = NREAD_SET \<and> exptime (m_heap (srv_mc srv2) 4224) = 0 \<and>
     bump_bufs (srv_mc srv2) = bump_bufs w_start"
proof -
  obtain c1 srv1 where 1: "process_command w_env False True w_set (w_conn, w_srv w_start) = Some (Handled (c1, srv1))" "c_state c1 = conn_nread"
      "c_item c1 = 4224" "exptime (m_heap (srv_mc srv1) 4224) = 0" "bump_bufs (srv_mc srv1) = bump_bufs w_start"
    using w_accepted by blast
  have w: "41 \<le> wsize w_conn" by (simp add: w_conn_ok)
  have b: "update_begun w_env tiny [97] 0 1 False NREAD_SET c1 (srv_mc srv1) (\<lambda>_. 0) Map.empty" "srv_settings srv1 = tiny"
    using set_begins [OF w_env_ok w_serving_start w_conn_ok(2,3) w w_set_words w_plain, of False True] 1(1,2) by (auto simp: update_refused_def)
  let ?v = "bytes ''5'' @ [CR, LF]" and ?s1 = "srv_mc srv1"
  obtain c2 srv2 where 2: "nread_bytes ?v (c1, srv1) = (c2, srv2)" by fastforce
  have ar: "add_ref 4224 (\<lambda>_. 0) = w_refs" by (simp add: add_ref_def)
  obtain i M where i: "nbytes i = 3" "filling w_env tiny i [] c1 ?s1 w_refs" "M \<subseteq>\<^sub>m Map.empty" "good tiny w_hash ?s1 w_refs M" "cmd c1 = NREAD_SET"
    using b(1) ar 1(3) by (auto simp: update_begun_def w_env_def)
  have M: "M = Map.empty" using i(3) by (auto simp: map_le_def fun_eq_iff dom_def)
  have l: "int (length ?v) \<le> rlbytes c1" "rlbytes c1 = 3" using i(1,2) by (simp_all add: filling_def)
  have up: "uploading w_env tiny (c1, srv1) w_refs ?v (c2, srv2) w_refs"
    using uploading.received [OF uploading.nothing l(1), of w_env tiny srv1 w_refs] 2 by simp
  have s2: "srv_mc srv2 = m_upd 4224 (\<lambda>x. x\<lparr>it_data := poke (ritem c1) ?v (it_data (m_heap ?s1 4224))\<rparr>) ?s1" "srv_settings srv2 = tiny"
      "c_item c2 = 4224" "cmd c2 = NREAD_SET" "rlbytes c2 = 0"
    using 2 1(3) b(2) i(5) l(2) by (auto simp: nread_bytes_def m_upd_def upd_def fun_eq_iff count_read_def upd_tstats_def)
  have nl: "\<not> has_flag (m_heap ?s1 4224) ITEM_LINKED" using i(2) 1(3) by (simp add: filling_def)
  have g2: "good tiny w_hash (srv_mc srv2) w_refs Map.empty" unfolding s2(1) by (rule good_fill [OF i(4) [unfolded M] _ nl]) simp
  have bb: "bump_bufs (srv_mc srv2) = bump_bufs w_start" using 1(5) by (simp add: s2(1))
  have "exptime (m_heap (srv_mc srv2) 4224) = 0" using 1(4) by (simp add: s2(1) upd_apply)
  moreover have "serving w_env tiny srv2 w_refs Map.empty"
    using g2 bb w_bufs bump_same [OF bb] s2(2) by (simp add: serving_def w_env_def refs_ok_def all_refs_def)
  ultimately show ?thesis using 1 up s2(3-5) bb ar by (intro exI [of _ c1] exI [of _ srv1] exI [of _ c2] exI [of _ srv2]) simp
qed

theorem set_command_outcome_witness:
  "\<exists>c1 srv1 c2 srv2 c3 srv3. process_command w_env False True w_set (w_conn, w_srv w_start) = Some (Handled (c1, srv1)) \<and>
     uploading w_env tiny (c1, srv1) (add_ref (c_item c1) (\<lambda>_. 0)) (bytes ''5'' @ [CR, LF]) (c2, srv2) w_refs \<and>
     complete_nread_ascii w_env (c2, srv2) = Some (c3, srv3) \<and> item_value (m_heap (srv_mc srv3) 4224) = bytes ''5'' @ [CR, LF] \<and>
     wbuf c3 = bytes ''STORED'' @ [CR, LF]"
proof -
  obtain c1 srv1 c2 srv2 where u: "process_command w_env False True w_set (w_conn, w_srv w_start) = Some (Handled (c1, srv1))" "c_state c1 = conn_nread"
      "c_item c1 = 4224" "uploading w_env tiny (c1, srv1) (add_ref (c_item c1) (\<lambda>_. 0)) (bytes ''5'' @ [CR, LF]) (c2, srv2) w_refs" "rlbytes c2 = 0"
      "serving w_env tiny srv2 w_refs Map.empty"
    using w_uploaded by blast
  have w: "41 \<le> wsize w_conn" by (simp add: w_conn_ok)
  have nr: "\<not> update_refused w_env tiny [97] 1 False (rbuf w_conn) NREAD_SET c1 (srv_mc srv1) (\<lambda>_. 0) Map.empty" using u(2) by (simp add: update_refused_def)
  have "\<exists>c3 srv3. complete_nread_ascii w_env (c2, srv2) = Some (c3, srv3) \<and> replied (bytes ''STORED'') False c3 \<and>
      item_value (m_heap (srv_mc srv3) 4224) = bytes ''5'' @ [CR, LF]"
    using set_command_outcome [OF w_env_ok w_serving_start w_conn_ok(2,3) w w_set_words w_plain, of False True] u nr by fastforce
  then show ?thesis using u(1,4) by (auto simp: replied_def)
qed

theorem set_then_get_text_witness:
  "\<exists>srv3 c5 srv5. process_command w_env False True (bytes ''get a'') (w_conn, srv3) = Some (Handled (c5, srv5)) \<and>
     sent (m_heap (srv_mc srv5)) c5 = bytes ''VALUE a 0 1'' @ [CR, LF] @ bytes ''5'' @ [CR, LF] @ bytes ''END'' @ [CR, LF]"
proof -
  obtain c1 srv1 c2 srv2 where u: "process_command w_env False True w_set (w_conn, w_srv w_start) = Some (Handled (c1, srv1))" "c_state c1 = conn_nread"
      "c_item c1 = 4224" "uploading w_env tiny (c1, srv1) (add_ref (c_item c1) (\<lambda>_. 0)) (bytes ''5'' @ [CR, LF]) (c2, srv2) w_refs" "rlbytes c2 = 0"
      "serving w_env tiny srv2 w_refs Map.empty" "c_item c2 = 4224" "cmd c2 = NREAD_SET" "exptime (m_heap (srv_mc srv2) 4224) = 0"
      "bump_bufs (srv_mc srv2) = bump_bufs w_start"
    using w_uploaded by blast
  have w: "41 \<le> wsize w_conn" by (simp add: w_conn_ok)
  note sd = servingD [OF u(6)]
  have b: "update_begun w_env tiny [97] 0 1 False NREAD_SET c1 (srv_mc srv1) (\<lambda>_. 0) Map.empty" "\<not> mset_res c1" "41 \<le> wsize c1"
    using set_begins [OF w_env_ok w_serving_start w_conn_ok(2,3) w w_set_words w_plain, of False True] u(1,2) by (auto simp: update_refused_def)
  obtain c3 srv3 where c: "complete_nread_ascii w_env (c2, srv2) = Some (c3, srv3)" using upload_complete [OF w_env_ok b u(4-6)] by blast
  have g: "good tiny w_hash (srv_mc srv2) w_refs Map.empty" using sd(2) by (simp add: w_env_def)
  have bc: "bump_count (srv_mc srv2) x = 0" for x using bump_same [OF u(10)] w_bufs by simp
  note f = w_completed [OF g refl sd(1) u(7,8) _ _ c]
  have e3: "exptime (m_heap (srv_mc srv3) 4224) = 0" "bump_bufs (srv_mc srv3) = bump_bufs w_start" using f u(9,10) bc by (simp_all add: all_refs_def)
  have bc3: "bump_count (srv_mc srv3) x = 0" for x using bump_same [OF e3(2)] w_bufs by simp
  have th: "e_thread w_env < length (bump_bufs (srv_mc srv3))" using e3(2) w_bufs by (simp add: w_env_def)
  have rf: "\<forall>x. all_refs (srv_mc srv3) (w_refs(c_item c1 := 0)) x < 58000" using bc3 by (simp add: all_refs_def)
  have al: "\<not> item_dead tiny (current_time (srv_mc srv3)) (m_heap (srv_mc srv3) (c_item c1))"
    using e3(1) u(3) by (simp add: item_dead_def item_is_flushed_def tiny_def sample_settings_def)
  have lw: "line_words (bytes ''get a'') = [bytes ''get'', [97]]" by (simp add: line_words_def)
  show ?thesis
    using set_then_get_text [OF w_env_ok w_env_ok refl w_serving_start w_conn_ok(2,3) w w_set_words w_plain u(1,2,4-6) c w_conn_ok(1) lw th rf al, of False True]
    by (auto simp: end_text_def decimal.simps)
qed

end
