(* ===== verification/Text_Udp.thy ===== *)
theory Text_Udp
  imports Text_Props
begin

unbundle bit_operations_syntax

text \<open>A reply over UDP that fits in one datagram is sent in one.\<close>

section \<open>One datagram\<close>

text \<open>The reply is one message so far, with \<open>n\<close> elements of \<open>b\<close> bytes.\<close>

definition single :: "conn \<Rightarrow> nat \<Rightarrow> int \<Rightarrow> bool" where
  "single c n b \<longleftrightarrow> is_udp c \<and> (\<exists>m. msglist c = [m] \<and> length m = n) \<and> msgbytes c = b"

lemma single_same: "same_out c c' \<Longrightarrow> single c' n b = single c n b"
  by (simp add: same_out_def single_def cframe_def)

lemma single_add:
  assumes "\<forall>n. ok n" "single c n b" "n < IOV_MAX" "b < UDP_MAX_PAYLOAD_SIZE" "b + len \<le> UDP_MAX_PAYLOAD_SIZE"
    and "add_iov ok src len c = Some (r, c')"
  shows "r \<and> single c' (n + 1) (b + len)"
proof -
  obtain m where m: "msglist c = [m]" "length m = n" "msgbytes c = b" "is_udp c" using assms(2) by (auto simp: single_def)
  obtain c1 where c1: "ensure_iov_space ok c = (True, c1)" "rest_of c1 = rest_of c" "msglist c1 = msglist c" "msgbytes c1 = msgbytes c"
    using space_ok [OF assms(1)] by blast
  have "add_iov ok src len c = Some (True, push_iov \<lparr>iov_base = src, iov_off = 0, iov_len = len\<rparr> c1)"
    using m assms(3-5) c1 by (simp add: add_iov_def add_iov_udp.simps [of ok src 0 len c])
  then show ?thesis using assms(6) m c1 rest_ofD(2) [OF c1(2)] by (auto simp: single_def push_iov_def)
qed

text \<open>The elements of one value.\<close>

lemma single_value:
  assumes ok: "\<forall>n. e_ok e n" and c: "single c n b" "n < 1000" and x: "\<not> has_flag (h it) ITEM_CHUNKED" "0 \<le> nbytes (h it)"
    and fits: "b + 6 + int (length (key (h it))) + int (length line) + nbytes (h it) < UDP_MAX_PAYLOAD_SIZE"
    and add: "add_value e it line h c = Some (r, c')"
  shows "r \<and> single c' (n + 4) (b + 6 + int (length (key (h it))) + int (length line) + nbytes (h it))"
proof -
  let ?k = "int (length (key (h it)))" and ?l = "int (length line)"
  obtain r1 c1 where 1: "add_iov (e_ok e) (Text (bytes ''VALUE '')) 6 c = Some (r1, c1)" using add by (auto simp: add_value_def Let_def split: bind_splits)
  have s1: "r1 \<and> single c1 (n + 1) (b + 6)" by (rule single_add [OF ok c(1) _ _ _ 1]) (use c(2) fits x(2) in auto)
  obtain r2 c2 where 2: "add_iov (e_ok e) (Key_of it) ?k c1 = Some (r2, c2)" using add 1 s1 by (auto simp: add_value_def Let_def split: bind_splits)
  have s2: "r2 \<and> single c2 (n + 1 + 1) (b + 6 + ?k)" by (rule single_add [OF ok conjunct2 [OF s1] _ _ _ 2]) (use c(2) fits x(2) in auto)
  obtain r3 c3 where 3: "add_iov (e_ok e) (Text line) ?l c2 = Some (r3, c3)" using add 1 s1 2 s2 by (auto simp: add_value_def Let_def split: bind_splits)
  have s3: "r3 \<and> single c3 (n + 1 + 1 + 1) (b + 6 + ?k + ?l)" by (rule single_add [OF ok conjunct2 [OF s2] _ _ _ 3]) (use c(2) fits x(2) in auto)
  obtain r4 where 4: "add_iov (e_ok e) (Data_of it) (nbytes (h it)) c3 = Some (r4, c')" "r"
    using add 1 s1 2 s2 3 s3 x(1) by (auto simp: add_value_def Let_def split: bind_splits)
  have "r4 \<and> single c' (n + 1 + 1 + 1 + 1) (b + 6 + ?k + ?l + nbytes (h it))" by (rule single_add [OF ok conjunct2 [OF s3] _ _ _ 4(1)]) (use c(2) fits x(2) in auto)
  then show ?thesis using 4(2) by (simp add: numeral_eq_Suc)
qed

lemma single_hit:
  assumes ok: "\<forall>n. e_ok e n" "\<forall>n. e_blk e n \<noteq> NULL" and v: "single (gv_conn v) n b" "n < 1000" "pool_ok (gv_conn v)"
    and x: "h = m_heap (srv_mc (gv_srv v))" "\<not> has_flag (h it) ITEM_CHUNKED" "0 \<le> nbytes (h it)"
    and l: "l = int (length (key (h it))) + int (length (make_ascii_get_suffix (h it) rc (nbytes (h it)))) + nbytes (h it)"
    and fits: "b + 6 + l < UDP_MAX_PAYLOAD_SIZE" and hit: "get_hit e rc tch it v = Some (r, v')"
  shows "r \<and> single (gv_conn v') (n + 4) (b + 6 + l)"
proof -
  obtain c1 where c1: "ascii_get_expand_ilist (e_ok e) (length (gv_items v)) (gv_conn v) = (True, c1)" "same_out (gv_conn v) c1"
      "suffix_cache c1 = suffix_cache (gv_conn v)"
    using expand_ok [OF ok(1)] by blast
  have "pool_ok c1" using v c1(3) by (simp add: pool_ok_def)
  then obtain obj c2 where c2: "ascii_get_suffix_buf e (length (gv_suffixes v)) c1 = (obj, c2)" "obj \<noteq> NULL" "same_out c1 c2"
    using suffix_ok [OF ok] by blast
  have s2: "single c2 n b" using v(1) single_same [OF c1(2)] single_same [OF c2(3)] by simp
  let ?l = "make_ascii_get_suffix (h it) rc (nbytes (h it))"
  obtain r3 c3 where c3: "add_value e it ?l h c2 = Some (r3, c3)"
    using hit unfolding get_hit_def Let_def x(1) [symmetric] c1(1) prod.case c2(1) using c2(2) by (auto split: bind_splits)
  have s3: "r3 \<and> single c3 (n + 4) (b + 6 + l)" using single_value [OF ok(1) s2 v(2) x(2,3) _ c3] fits l by (simp add: add.assoc)
  have "r \<and> gv_conn v' = upd_tstats (get_stats tch it h) c3"
    using hit s3 unfolding get_hit_def Let_def x(1) [symmetric] c1(1) prod.case c2(1) using c2(2) c3 by auto
  then show ?thesis using s3 single_same [OF same_out_upd(1) [of c3]] by simp
qed

lemma single_start:
  assumes "\<forall>n. ok n" "is_udp c"
  shows "\<exists>c1. add_msghdr ok (c\<lparr>msgcurr := 0, msglist := [], iovused := 0\<rparr>) = (True, c1) \<and> single c1 1 8 \<and> suffix_cache c1 = suffix_cache c"
proof -
  let ?c = "c\<lparr>msgcurr := 0, msglist := [], iovused := 0\<rparr>"
  obtain c1 m where m: "add_msghdr ok ?c = (True, c1)" "rest_of c1 = rest_of ?c" "msglist c1 = msglist ?c @ [m]" "msg_ok ?c m" "msgbytes c1 = msg_len m" "length m \<le> 1"
    using msghdr_ok [OF assms(1), of ?c] by blast
  obtain v where v: "m = [v]" using m(4,6) assms(2) by (cases m) (auto simp: msg_ok_def)
  then have "single c1 1 8" using m(3-5) rest_ofD(2) [OF m(2)] assms(2) by (simp add: single_def msg_ok_def msg_len_def)
  then show ?thesis using m(1) rest_ofD(14) [OF m(2)] by simp
qed

text \<open>The end of the reply.\<close>

lemma single_stop:
  assumes ok: "\<forall>n. e_ok e n" and v: "single (gv_conn v) n b" "n < 1000" "b + 5 < UDP_MAX_PAYLOAD_SIZE" and stop: "get_stop e None v = Some (c', srv')"
  shows "length (msglist c') = 1"
proof -
  let ?c = "(gv_conn v)\<lparr>ilist := gv_items v, suffixlist := gv_suffixes v\<rparr>"
  have s: "single ?c n b" using v(1) by (simp add: single_def)
  obtain r c1 where c1: "add_iov (e_ok e) (Text (bytes ''END'' @ [CR, LF])) 5 ?c = Some (r, c1)"
    using stop unfolding get_stop_def Let_def by (auto split: bind_splits)
  have s1: "r \<and> single c1 (n + 1) (b + 5)" by (rule single_add [OF ok s _ _ _ c1]) (use v(2,3) in auto)
  then have u: "r" "is_udp c1" "length (msglist c1) = 1" by (auto simp: single_def)
  obtain c2 where c2: "build_udp_headers (e_ok e) c1 = (True, c2)" "length (msglist c2) = length (msglist c1)"
    using ok unfolding build_udp_headers_def Let_def by (cases "length (msglist c1) > hdrsize c1") auto
  have "c' = (conn_set_state conn_mwrite c2)\<lparr>msgcurr := 0\<rparr>"
    using stop unfolding get_stop_def Let_def using c1 u(1,2) c2(1) by simp
  then show ?thesis using c2(2) u(3) by (simp add: conn_set_state_def)
qed

lemma one_datagram:
  assumes env: "env_ok e st" and srv: "serving e st srv R M" and c: "pool_ok c" "is_udp c"
    and r: "\<forall>x. all_refs (srv_mc srv) R x < 59000"
    and line: "line_words line = [bytes ''get'', k]" "k \<noteq> []" "length k \<le> KEY_MAX_LENGTH"
    and x: "live st (srv_mc srv) M k = Some x" "length (value_text False (m_heap (srv_mc srv) x)) \<le> 1300"
    and get: "process_command e stale free line (c, srv) = Some (Handled (c', srv'))"
  shows "length (msglist c') = 1"
proof -
  note sd = servingD [OF srv]
  have e: "\<forall>n. e_ok e n" "\<forall>n. e_blk e n \<noteq> NULL" using env by (auto simp: env_ok_def)
  let ?s = "srv_mc srv" let ?ws = "[bytes ''get'', k]"
  obtain c1 where c1: "add_msghdr (e_ok e) (c\<lparr>msgcurr := 0, msglist := [], iovused := 0\<rparr>) = (True, c1)" "single c1 1 8" "suffix_cache c1 = suffix_cache c"
    using single_start [OF e(1) c(2)] by blast
  have tk: "tokenize_command line MAX_TOKENS = map word_token ?ws @ [rest_token []]" using short_line [of line] line(1) by simp
  have d: "dispatch (map word_token ?ws @ [rest_token []]) = Cmd_get False False" using dispatch_words(3) [of "[k]" "rest_token []"] by simp
  let ?v = "\<lparr>gv_conn = c1, gv_srv = srv, gv_items = [], gv_suffixes = [], fail_length = False\<rparr>"
  have p: "process_get_command e (map word_token ?ws @ [rest_token []]) False False (c1, srv) = Some (c', srv')"
    using get c1(1) d unfolding process_command_def by (simp add: tk)
  obtain kt v where g: "get_groups e False False 0 [word_token k, rest_token []] ?v = Some (kt, v)" "get_stop e kt v = Some (c', srv')"
    using p by (auto simp: process_get_command_def split: bind_splits)
  obtain b v1 where k1: "get_key e False False 0 k ?v = Some (b, v1)"
    using g(1) line(2) by (auto simp: get_groups.simps word_token_def split: bind_splits)
  have xm: "M k = Some x" "x \<noteq> NULL" using live_some [OF x(1)] live_nonnull [OF sd(3) x(1)] by auto
  obtain s' where s': "limited_get st (e_hash e) (e_thread e) k 0 False True ?s = Some (x, s')" "moved st (e_hash e) ?s M R s' (M(k := Some x)) (add_ref x R)"
    using get_step [OF sd(3) r sd(5) x(1) [symmetric], of 0] by (auto simp: addr_of_def)
  let ?x = "m_heap s' x"
  have h: "x \<in> held M R" "x \<in> held (M(k := Some x)) (add_ref x R)" using xm by (auto simp: held_def add_ref_def ran_def)
  have same: "key ?x = key (m_heap ?s x)" "it_data ?x = it_data (m_heap ?s x)" "FLAGS_CONV ?x = FLAGS_CONV (m_heap ?s x)" "nbytes ?x = nbytes (m_heap ?s x)"
    using s'(2) h by (auto simp: moved_def vals_def)
  have pl: "\<not> has_flag ?x ITEM_CHUNKED" "2 \<le> nbytes ?x" using item_plain [OF moved_ok [OF s'(2)], of x] xm(2) by (simp_all add: add_ref_def)
  have "crlf (m_heap ?s x)" using sd(4) xm(1) by (auto simp: data_ok_def ran_def)
  then have "full_data (m_heap ?s x)" by (simp add: crlf_def)
  then have vl: "int (length (item_value (m_heap ?s x))) = nbytes ?x" using value_length same(4) pl(2) by simp
  let ?l = "int (length (key ?x)) + int (length (make_ascii_get_suffix ?x False (nbytes ?x))) + nbytes ?x"
  have l: "6 + ?l = int (length (value_text False (m_heap ?s x)))" using vl same by (simp add: value_text_def suffix_text)
  obtain c2 srv2 where r2: "record_prefix (\<lambda>d hash a b. stats_prefix_record_get d hash a b k (x \<noteq> NULL)) e (c1, srv\<lparr>srv_mc := s'\<rparr>) = (c2, srv2)" by fastforce
  note f = record_frame [OF r2]
  obtain n where n: "c2 = c1\<lparr>asked := n\<rparr>" using f(3) by blast
  let ?v2 = "?v\<lparr>gv_conn := c2, gv_srv := srv2\<rparr>"
  have hit: "get_hit e False False x ?v2 = Some (b, v1)"
    using k1 line(3) s'(1) r2 xm(2) sd(1) unfolding get_key_def Let_def by simp
  have s2: "single (gv_conn ?v2) 1 8" "pool_ok (gv_conn ?v2)" using c1(2,3) c(1) by (simp_all add: n single_def pool_ok_def)
  have "b \<and> single (gv_conn v1) (1 + 4) (8 + 6 + ?l)"
    by (rule single_hit [OF e s2(1) _ s2(2) _ _ _ refl _ hit]) (use f(1) pl l x(2) in auto)
  then have 3: "b" "single (gv_conn v1) 5 (14 + ?l)" by simp_all
  have "kt = None \<and> v = v1" using g(1) k1 3(1) line(2) by (simp add: get_groups.simps word_token_def rest_token_def)
  then show ?thesis using single_stop [OF e(1) 3(2), of c' srv'] g(2) l x(2) by simp
qed

end
