(* ===== verification/Drive.thy ===== *)
theory Drive
  imports Text_Commands
begin

text \<open>
  The state machine of a text connection (\<open>memcached.c\<close>: \<open>drive_machine\<close> and what it calls): reading commands and values from the
  socket, swallowing values, sending replies, closing. What the socket does is an argument: what arrives from the client, in which pieces,
  how much each call for sending accepts, and whether libevent takes a change of the awaited events. Listening sockets, binary
  requests and external storage are left out.
\<close>

section \<open>The socket\<close>

text \<open>An empty piece stands for a call that finds nothing (\<open>EAGAIN\<close>).\<close>

datatype arrival = Arrived "byte list" | Closed | Broken

datatype acceptance = Accepts nat | Blocks | Refuses

datatype read_outcome = Got "byte list" | Eof | Again | Failed

record sock =
  sk_in :: "arrival list"
  sk_accepts :: "acceptance list"
  sk_out :: "byte list list"

text \<open>\<open>read\<close> of at most \<open>n\<close> bytes from a stream, and \<open>recvfrom\<close>, which cuts a datagram that is too long.\<close>

fun take_in :: "nat \<Rightarrow> arrival list \<Rightarrow> read_outcome \<times> arrival list" where
  "take_in n [] = (Again, [])"
| "take_in n (Closed # a) = (Eof, Closed # a)"
| "take_in n (Broken # a) = (Failed, Broken # a)"
| "take_in n (Arrived bs # a) =
     (if bs = [] then (Again, a)
      else if n = 0 then (Eof, Arrived bs # a)
      else (Got (take n bs), if n < length bs then Arrived (drop n bs) # a else a))"

fun recv_in :: "nat \<Rightarrow> arrival list \<Rightarrow> read_outcome \<times> arrival list" where
  "recv_in n [] = (Again, [])"
| "recv_in n (Arrived bs # a) = (if bs = [] then Again else Got (take n bs), a)"
| "recv_in n (Closed # a) = (Eof, a)"
| "recv_in n (Broken # a) = (Failed, a)"

definition sock_read :: "conn \<Rightarrow> nat \<Rightarrow> sock \<Rightarrow> read_outcome \<times> sock" where
  "sock_read c n k = (let (r, a) = (if is_udp c then recv_in else take_in) n (sk_in k) in (r, k\<lparr>sk_in := a\<rparr>))"

text \<open>\<open>sendmsg\<close> of the bytes \<open>bs\<close>: how many it took. It never takes more than there are.\<close>

definition sock_send :: "byte list \<Rightarrow> sock \<Rightarrow> nat option option \<times> sock" where
  "sock_send bs k =
     (case sk_accepts k of
        [] \<Rightarrow> (Some None, k)
      | a # as \<Rightarrow>
          (case a of
             Accepts n \<Rightarrow> (Some (Some (min n (length bs))), k\<lparr>sk_accepts := as, sk_out := sk_out k @ [take n bs]\<rparr>)
           | Blocks \<Rightarrow> (Some None, k\<lparr>sk_accepts := as\<rparr>)
           | Refuses \<Rightarrow> (None, k\<lparr>sk_accepts := as\<rparr>)))"

section \<open>Reading\<close>

datatype try_read_result = READ_DATA_RECEIVED | READ_NO_DATA_RECEIVED | READ_ERROR | READ_MEMORY_ERROR

text \<open>
  A datagram replaces what is in the input buffer; of one that is refused the buffer keeps bytes too, but they are never parsed, as the next
  datagram replaces them.
\<close>

definition try_read_udp :: "(nat \<Rightarrow> bool) \<Rightarrow> conn \<times> sock \<Rightarrow> try_read_result \<times> conn \<times> sock" where
  "try_read_udp ok ck =
     (let (c, k) = ck; (r, a) = recv_in (rsize c) (sk_in k); k = k\<lparr>sk_in := a\<rparr> in
      case r of
        Got bs \<Rightarrow>
          if length bs > 8 then
            let c = (count_read (length bs) c)\<lparr>request_id := unat (bs ! 0) * 256 + unat (bs ! 1)\<rparr> in
            if bs ! 4 \<noteq> 0 \<or> bs ! 5 \<noteq> 1
            then (READ_NO_DATA_RECEIVED, out_string ok (bytes ''SERVER_ERROR multi-packet request not supported'') c, k)
            else (READ_DATA_RECEIVED, c\<lparr>rbuf := drop 8 bs\<rparr>, k)
          else (READ_NO_DATA_RECEIVED, c, k)
      | _ \<Rightarrow> (READ_NO_DATA_RECEIVED, c, k))"

text \<open>Room in the input buffer, or the result to return; \<open>n\<close> counts the allocations.\<close>

definition make_room :: "(nat \<Rightarrow> bool) \<Rightarrow> nat \<Rightarrow> try_read_result \<Rightarrow> conn \<Rightarrow> (try_read_result \<times> conn) + (nat \<times> conn)" where
  "make_room ok n gotdata c =
     (if length (rbuf c) \<ge> rsize c then
        if n = 4 then Inl (gotdata, c)
        else let (r, c) = ask ok c in
          if \<not> r
          then Inl (READ_MEMORY_ERROR, (out_string ok (bytes ''SERVER_ERROR out of memory reading request'') (c\<lparr>rbuf := []\<rparr>))\<lparr>write_and_go := conn_closing\<rparr>)
          else Inr (n + 1, c\<lparr>rsize := rsize c * 2\<rparr>)
      else Inr (n, c))"

definition in_size :: "arrival list \<Rightarrow> nat" where
  "in_size a = sum_list (map (\<lambda>x. case x of Arrived bs \<Rightarrow> Suc (length bs) | _ \<Rightarrow> 1) a)"

lemma take_in_less: "take_in n a = (Got bs, a') \<Longrightarrow> in_size a' < in_size a"
  by (induction n a rule: take_in.induct) (auto simp: in_size_def split: if_splits)

text \<open>One round of the loop: the result, or what the next round starts from.\<close>

definition net_round :: "(nat \<Rightarrow> bool) \<Rightarrow> nat \<Rightarrow> try_read_result \<Rightarrow> conn \<Rightarrow> arrival list \<Rightarrow>
    (try_read_result \<times> conn \<times> arrival list) + (nat \<times> conn \<times> arrival list)" where
  "net_round ok n gotdata c a =
     (case make_room ok n gotdata c of
        Inl (r, c) \<Rightarrow> Inl (r, c, a)
      | Inr (n, c) \<Rightarrow>
          let avail = rsize c - length (rbuf c) in
          (case take_in avail a of
             (Got bs, a) \<Rightarrow>
               let c = count_read (length bs) (c\<lparr>rbuf := rbuf c @ bs\<rparr>) in
               if length bs = avail then Inr (n, c, a) else Inl (READ_DATA_RECEIVED, c, a)
           | (Eof, a) \<Rightarrow> Inl (READ_ERROR, c, a)
           | (Again, a) \<Rightarrow> Inl (gotdata, c, a)
           | (Failed, a) \<Rightarrow> Inl (READ_ERROR, c, a)))"

lemma net_round_less: "net_round ok n g c a = Inr (n', c', a') \<Longrightarrow> in_size a' < in_size a"
  by (auto simp: net_round_def Let_def split: sum.splits prod.splits read_outcome.splits if_splits dest: take_in_less)

function net_loop :: "(nat \<Rightarrow> bool) \<Rightarrow> nat \<Rightarrow> try_read_result \<Rightarrow> conn \<Rightarrow> arrival list \<Rightarrow> try_read_result \<times> conn \<times> arrival list" where
  "net_loop ok n gotdata c a =
     (case net_round ok n gotdata c a of Inl r \<Rightarrow> r | Inr (n, c, a) \<Rightarrow> net_loop ok n READ_DATA_RECEIVED c a)"
  by pat_completeness auto
termination
  by (relation "measure (\<lambda>(ok, n, g, c, a). in_size a)") (auto dest: net_round_less)

definition try_read_network :: "(nat \<Rightarrow> bool) \<Rightarrow> conn \<times> sock \<Rightarrow> try_read_result \<times> conn \<times> sock" where
  "try_read_network ok ck =
     (let (c, k) = ck; (r, c, a) = net_loop ok 0 READ_NO_DATA_RECEIVED c (sk_in k) in (r, c, k\<lparr>sk_in := a\<rparr>))"

text \<open>
  Filling the chunks of a large item; \<open>ritem\<close> is the chunk. A full chunk that has a successor is left, but its own (no) room is
  used for this round, as in the code. \<open>n\<close> counts the allocations.
\<close>

datatype chunk_read = Filled int | Chunk_eof | Chunk_again | Chunk_error | Chunk_oom

partial_function (option) read_into_chunked_item ::
  "cenv \<Rightarrow> settings \<Rightarrow> nat \<Rightarrow> int \<Rightarrow> conn \<times> mc \<times> sock \<Rightarrow> (chunk_read \<times> conn \<times> mc \<times> sock) option" where
  [code]: "read_into_chunked_item e st n amount csk =
     (let (c, s, k) = csk; ca = ritem c; ch = m_heap s ca; full = (ch_size ch = ch_used ch) in
      if rlbytes c \<le> 0 then Some (Filled amount, c, s, k)
      else if full \<and> next ch = NULL then do {
        (nch, s) \<leftarrow> do_item_alloc_chunk st (e_hash e) (e_oss e n) ca (nat (rlbytes c)) s;
        if nch = NULL then Some (Chunk_oom, c\<lparr>ritem := NULL\<rparr>, s, k)
        else read_into_chunked_item e st (n + 1) amount (c\<lparr>ritem := nch\<rparr>, s, k)
      }
      else
        let c = (if full then c\<lparr>ritem := next ch\<rparr> else c); unused = ch_size ch - ch_used ch;
            fill = (\<lambda>bs. m_upd ca (\<lambda>x. x\<lparr>it_data := poke (nat (ch_used x)) bs (it_data x), ch_used := ch_used x + int (length bs)\<rparr>) s)
        in if rbuf c \<noteq> [] then
             let tocopy = nat (min (min (int (length (rbuf c))) (rlbytes c)) unused);
                 s = fill (take tocopy (rbuf c));
                 c = c\<lparr>rlbytes := rlbytes c - int tocopy, rbuf := drop tocopy (rbuf c)\<rparr>
             in if rlbytes c = 0 then Some (Filled (int tocopy), c, s, k) else read_into_chunked_item e st n (int tocopy) (c, s, k)
           else
             let (r, k) = sock_read c (nat (if unused > rlbytes c then rlbytes c else unused)) k in
             (case r of
                Got bs \<Rightarrow> read_into_chunked_item e st n (amount + int (length bs))
                  ((count_read (length bs) c)\<lparr>rlbytes := rlbytes c - int (length bs)\<rparr>, fill bs, k)
              | Eof \<Rightarrow> Some (Chunk_eof, c, s, k)
              | Again \<Rightarrow> Some (Chunk_again, c, s, k)
              | Failed \<Rightarrow> Some (Chunk_error, c, s, k)))"

section \<open>Sending\<close>

datatype transmit_result = TRANSMIT_COMPLETE | TRANSMIT_INCOMPLETE | TRANSMIT_SOFT_ERROR | TRANSMIT_HARD_ERROR

text \<open>The elements that are left of a message of which \<open>res\<close> bytes were sent.\<close>

fun drop_sent :: "int \<Rightarrow> iovec list \<Rightarrow> iovec list" where
  "drop_sent res [] = []"
| "drop_sent res (v # m) =
     (if res \<ge> iov_len v then drop_sent (res - iov_len v) m
      else if res > 0 then v\<lparr>iov_off := iov_off v + nat res, iov_len := iov_len v - res\<rparr> # m
      else v # m)"

definition transmit :: "bool \<Rightarrow> heap \<Rightarrow> conn \<times> sock \<Rightarrow> transmit_result \<times> conn \<times> sock" where
  "transmit ev_ok h ck =
     (let (c, k) = ck;
          c = (if msgcurr c < length (msglist c) \<and> msglist c ! msgcurr c = [] then c\<lparr>msgcurr := msgcurr c + 1\<rparr> else c)
      in if msgcurr c < length (msglist c) then
           let m = msglist c ! msgcurr c; (r, k) = sock_send (concat (map (iov_bytes h) m)) k in
           (case r of
              Some (Some res) \<Rightarrow>
                (TRANSMIT_INCOMPLETE,
                 (upd_tstats (\<lambda>s. s\<lparr>bytes_written := bytes_written s + of_nat res\<rparr>) c)\<lparr>msglist := (msglist c)[msgcurr c := drop_sent (int res) m]\<rparr>, k)
            | Some None \<Rightarrow> if \<not> ev_ok then (TRANSMIT_HARD_ERROR, conn_set_state conn_closing c, k) else (TRANSMIT_SOFT_ERROR, c, k)
            | None \<Rightarrow> (TRANSMIT_HARD_ERROR, conn_set_state (if is_udp c then conn_read else conn_closing) c, k))
         else (TRANSMIT_COMPLETE, c, k))"

section \<open>Between commands\<close>

text \<open>A buffer that is allowed to stay large when \<open>realloc\<close> fails.\<close>

definition shrunk :: "(nat \<Rightarrow> bool) \<Rightarrow> bool \<Rightarrow> (conn \<Rightarrow> conn) \<Rightarrow> conn \<Rightarrow> conn" where
  "shrunk ok big f c = (if big then let c' = c\<lparr>asked := asked c + 1\<rparr> in if ok (asked c) then f c' else c' else c)"

definition conn_shrink :: "(nat \<Rightarrow> bool) \<Rightarrow> conn \<Rightarrow> conn" where
  "conn_shrink ok c =
     (if is_udp c then c
      else
        let c = shrunk ok (rsize c > 8192 \<and> length (rbuf c) < 2048) (rsize_update (\<lambda>_. 2048)) c;
            c = shrunk ok (isize c > 400) (isize_update (\<lambda>_. 200)) c;
            c = shrunk ok (msgsize c > 100) (msgsize_update (\<lambda>_. 10)) c
        in shrunk ok (iovsize c > 600) (iovsize_update (\<lambda>_. 400)) c)"

text \<open>The command code is reset too; no text command reads it before it is set.\<close>

definition reset_cmd_handler :: "cenv \<Rightarrow> conn \<times> server \<Rightarrow> (conn \<times> server) option" where
  "reset_cmd_handler e cs =
     (let (c, srv) = cs in do {
        s \<leftarrow> (if c_item c \<noteq> NULL then item_remove (c_item c) (srv_mc srv) else Some (srv_mc srv));
        let c = conn_shrink (e_ok e) (c\<lparr>c_item := NULL\<rparr>);
        Some (conn_set_state (if rbuf c \<noteq> [] then conn_parse_cmd else conn_waiting) c, srv\<lparr>srv_mc := s\<rparr>)
      })"

definition conn_cleanup :: "cenv \<Rightarrow> conn \<times> server \<Rightarrow> (conn \<times> server) option" where
  "conn_cleanup e cs =
     do { (c, srv) \<leftarrow> conn_release_items e cs; Some (if is_udp c then conn_set_state conn_read c else c, srv) }"

definition conn_close :: "cenv \<Rightarrow> conn \<times> server \<Rightarrow> (conn \<times> server) option" where
  "conn_close e cs = do { (c, srv) \<leftarrow> conn_cleanup e cs; Some (conn_set_state conn_closed c, srv) }"

section \<open>The machine\<close>

text \<open>
  One round of the loop of \<open>drive_machine\<close>, by the state of the connection. It goes on, or stops and waits for an event, or has a command
  that is modelled elsewhere; \<open>Aborts\<close> are the states that the code does not expect. The last component of the machine is \<open>nreqs\<close>.
\<close>

datatype driven = Goes_on | Stops | Leaves command "token_t list" | Aborts

type_synonym machine = "conn \<times> server \<times> sock \<times> int"

definition close_or_stop :: "bool \<Rightarrow> conn \<Rightarrow> driven \<times> conn" where
  "close_or_stop ev_ok c = (if \<not> ev_ok then (Goes_on, conn_set_state conn_closing c) else (Stops, c))"

definition drive_waiting :: "bool \<Rightarrow> machine \<Rightarrow> driven \<times> machine" where
  "drive_waiting ev_ok x =
     (let (c, rest) = x in
      if \<not> ev_ok then (Goes_on, conn_set_state conn_closing c, rest) else (Stops, conn_set_state conn_read c, rest))"

definition drive_read :: "cenv \<Rightarrow> machine \<Rightarrow> driven \<times> machine" where
  "drive_read e x =
     (let (c, srv, k, nreqs) = x;
          (r, c, k) = (if is_udp c then try_read_udp (e_ok e) (c, k) else try_read_network (e_ok e) (c, k));
          c = (case r of
                 READ_NO_DATA_RECEIVED \<Rightarrow> conn_set_state conn_waiting c
               | READ_DATA_RECEIVED \<Rightarrow> conn_set_state conn_parse_cmd c
               | READ_ERROR \<Rightarrow> conn_set_state conn_closing c
               | READ_MEMORY_ERROR \<Rightarrow> c)
      in (Goes_on, c, srv, k, nreqs))"

definition drive_parse :: "cenv \<Rightarrow> bool \<Rightarrow> bool \<Rightarrow> machine \<Rightarrow> (driven \<times> machine) option" where
  "drive_parse e stale free x =
     (let (c, srv, k, nreqs) = x in do {
        r \<leftarrow> try_read_command_ascii e stale free (c, srv);
        Some (case r of
            None \<Rightarrow> (Goes_on, conn_set_state conn_waiting c, srv, k, nreqs)
          | Some (Handled (c, srv)) \<Rightarrow> (Goes_on, c, srv, k, nreqs)
          | Some (Elsewhere other tks (c, srv)) \<Rightarrow> (Leaves other tks, c, srv, k, nreqs))
      })"

definition drive_new_cmd :: "cenv \<Rightarrow> bool \<Rightarrow> machine \<Rightarrow> (driven \<times> machine) option" where
  "drive_new_cmd e ev_ok x =
     (let (c, srv, k, nreqs) = x; nreqs = nreqs - 1 in
      if nreqs \<ge> 0 then do { (c, srv) \<leftarrow> reset_cmd_handler e (c, srv); Some (Goes_on, c, srv, k, nreqs) }
      else
        let c = upd_tstats (\<lambda>s. s\<lparr>conn_yields := conn_yields s + 1\<rparr>) c;
            (d, c) = (if rbuf c \<noteq> [] then close_or_stop ev_ok c else (Stops, c))
        in Some (d, c, srv, k, nreqs))"

text \<open>The value of an item that is not chunked: first from the input buffer, then from the socket.\<close>

definition drive_nread_plain :: "bool \<Rightarrow> machine \<Rightarrow> driven \<times> machine" where
  "drive_nread_plain ev_ok x =
     (let (c, srv, k, nreqs) = x; (c, srv) = (if rbuf c \<noteq> [] then nread_copy (c, srv) else (c, srv)) in
      if rlbytes c = 0 then (Goes_on, c, srv, k, nreqs)
      else
        let (r, k) = sock_read c (nat (rlbytes c)) k in
        (case r of
           Got bs \<Rightarrow> let (c, srv) = nread_bytes bs (c, srv) in (Goes_on, c, srv, k, nreqs)
         | Again \<Rightarrow> let (d, c) = close_or_stop ev_ok c in (d, c, srv, k, nreqs)
         | _ \<Rightarrow> (Goes_on, conn_set_state conn_closing c, srv, k, nreqs)))"

definition drive_nread_chunked :: "cenv \<Rightarrow> bool \<Rightarrow> machine \<Rightarrow> (driven \<times> machine) option" where
  "drive_nread_chunked e ev_ok x =
     (let (c, srv, k, nreqs) = x in do {
        (r, c, s, k) \<leftarrow> read_into_chunked_item e (srv_settings srv) 0 0 (c, srv_mc srv, k);
        let srv = srv\<lparr>srv_mc := s\<rparr>;
        let (d, c) = (case r of
            Filled amount \<Rightarrow> (Goes_on, if amount > 0 then c else conn_set_state conn_closing c)
          | Chunk_again \<Rightarrow> close_or_stop ev_ok c
          | Chunk_oom \<Rightarrow> (Goes_on, (out_string (e_ok e) (bytes ''SERVER_ERROR Out of memory during read'') c)
              \<lparr>sbytes := rlbytes c, write_and_go := conn_swallow, set_stale := False, mset_res := False\<rparr>)
          | _ \<Rightarrow> (Goes_on, conn_set_state conn_closing c));
        Some (d, c, srv, k, nreqs)
      })"

definition drive_nread :: "cenv \<Rightarrow> bool \<Rightarrow> machine \<Rightarrow> (driven \<times> machine) option" where
  "drive_nread e ev_ok x =
     (let (c, srv, k, nreqs) = x in
      if rlbytes c = 0 then do { (c, srv) \<leftarrow> complete_nread_ascii e (c, srv); Some (Goes_on, c, srv, k, nreqs) }
      else if rlbytes c < 0 then Some (Goes_on, conn_set_state conn_closing c, srv, k, nreqs)
      else if c_item c = NULL \<or> \<not> has_flag (m_heap (srv_mc srv) (c_item c)) ITEM_CHUNKED then Some (drive_nread_plain ev_ok x)
      else drive_nread_chunked e ev_ok x)"

definition drive_swallow :: "bool \<Rightarrow> machine \<Rightarrow> driven \<times> machine" where
  "drive_swallow ev_ok x =
     (let (c, srv, k, nreqs) = x in
      if sbytes c \<le> 0 then (Goes_on, conn_set_state conn_new_cmd c, srv, k, nreqs)
      else if rbuf c \<noteq> [] then
        let tocopy = (if int (length (rbuf c)) > sbytes c then nat (sbytes c) else length (rbuf c))
        in (Goes_on, c\<lparr>sbytes := sbytes c - int tocopy, rbuf := drop tocopy (rbuf c)\<rparr>, srv, k, nreqs)
      else
        let (r, k) = sock_read c (if int (rsize c) > sbytes c then nat (sbytes c) else rsize c) k in
        (case r of
           Got bs \<Rightarrow> (Goes_on, (count_read (length bs) c)\<lparr>sbytes := sbytes c - int (length bs)\<rparr>, srv, k, nreqs)
         | Again \<Rightarrow> let (d, c) = close_or_stop ev_ok c in (d, c, srv, k, nreqs)
         | _ \<Rightarrow> (Goes_on, conn_set_state conn_closing c, srv, k, nreqs)))"

definition drive_mwrite :: "cenv \<Rightarrow> bool \<Rightarrow> machine \<Rightarrow> (driven \<times> machine) option" where
  "drive_mwrite e ev_ok x =
     (let (c, srv, k, nreqs) = x; (r, c) = (if is_udp c \<and> msgcurr c = 0 then build_udp_headers (e_ok e) c else (True, c)) in
      if \<not> r then Some (Goes_on, conn_set_state conn_closing c, srv, k, nreqs)
      else
        let (r, c, k) = transmit ev_ok (m_heap (srv_mc srv)) (c, k) in
        (case r of
           TRANSMIT_COMPLETE \<Rightarrow>
             if c_state c = conn_mwrite then do {
               (c, srv) \<leftarrow> conn_release_items e (c, srv);
               Some (Goes_on, conn_set_state conn_new_cmd c, srv, k, nreqs)
             } else if c_state c = conn_write then Some (Goes_on, conn_set_state (write_and_go c) c, srv, k, nreqs)
             else Some (Goes_on, conn_set_state conn_closing c, srv, k, nreqs)
         | TRANSMIT_SOFT_ERROR \<Rightarrow> Some (Stops, c, srv, k, nreqs)
         | _ \<Rightarrow> Some (Goes_on, c, srv, k, nreqs)))"

definition drive_write :: "cenv \<Rightarrow> bool \<Rightarrow> machine \<Rightarrow> (driven \<times> machine) option" where
  "drive_write e ev_ok x =
     (let (c, srv, k, nreqs) = x in do {
        (r, c) \<leftarrow> (if iovused c = 0 \<or> is_udp c \<and> iovused c = 1 then add_iov (e_ok e) (Text (wbuf c)) (int (length (wbuf c))) c else Some (True, c));
        if \<not> r then Some (Goes_on, conn_set_state conn_closing c, srv, k, nreqs) else drive_mwrite e ev_ok (c, srv, k, nreqs)
      })"

definition drive_step :: "cenv \<Rightarrow> bool \<Rightarrow> bool \<Rightarrow> bool \<Rightarrow> machine \<Rightarrow> (driven \<times> machine) option" where
  "drive_step e stale free ev_ok x =
     (let (c, srv, k, nreqs) = x in
      case c_state c of
        conn_waiting \<Rightarrow> Some (drive_waiting ev_ok x)
      | conn_read \<Rightarrow> Some (drive_read e x)
      | conn_parse_cmd \<Rightarrow> drive_parse e stale free x
      | conn_new_cmd \<Rightarrow> drive_new_cmd e ev_ok x
      | conn_nread \<Rightarrow> drive_nread e ev_ok x
      | conn_swallow \<Rightarrow> Some (drive_swallow ev_ok x)
      | conn_write \<Rightarrow> drive_write e ev_ok x
      | conn_mwrite \<Rightarrow> drive_mwrite e ev_ok x
      | conn_closing \<Rightarrow> do { (c, srv) \<leftarrow> (if is_udp c then conn_cleanup e (c, srv) else conn_close e (c, srv)); Some (Stops, c, srv, k, nreqs) }
      | conn_watch \<Rightarrow> Some (Stops, x)
      | _ \<Rightarrow> Some (Aborts, x))"

text \<open>An event: the machine runs until it stops, with a fresh allowance of commands.\<close>

partial_function (option) drive_loop :: "cenv \<Rightarrow> bool \<Rightarrow> bool \<Rightarrow> bool \<Rightarrow> machine \<Rightarrow> (driven \<times> machine) option" where
  [code]: "drive_loop e stale free ev_ok x =
     do { (d, x) \<leftarrow> drive_step e stale free ev_ok x; if d = Goes_on then drive_loop e stale free ev_ok x else Some (d, x) }"

definition drive_machine :: "cenv \<Rightarrow> bool \<Rightarrow> bool \<Rightarrow> bool \<Rightarrow> int \<Rightarrow> conn \<times> server \<times> sock \<Rightarrow> (driven \<times> machine) option" where
  "drive_machine e stale free ev_ok reqs_per_event csk = (let (c, srv, k) = csk in drive_loop e stale free ev_ok (c, srv, k, reqs_per_event))"

end
