(* ===== verification/Drive_Ok.thy ===== *)
theory Drive_Ok
  imports Drive Text_Props
begin

text \<open>
  What the state machine of a connection does: a reply reaches the client once, complete and in order, however the socket takes it; the
  lines of a request do not depend on the pieces in which they arrive.
\<close>

section \<open>Sending\<close>

text \<open>What is left to send, and a measure of it.\<close>

definition pending :: "heap \<Rightarrow> conn \<Rightarrow> byte list" where
  "pending h c = concat (map (\<lambda>m. concat (map (iov_bytes h) m)) (drop (msgcurr c) (msglist c)))"

definition msg_weight :: "iovec list \<Rightarrow> nat" where
  "msg_weight m = nat (msg_len m) + (if m = [] then 1 else 2)"

definition unsent :: "conn \<Rightarrow> nat" where
  "unsent c = sum_list (map msg_weight (drop (msgcurr c) (msglist c)))"

lemma length_iov [simp]: "length (iov_bytes h v) = nat (iov_len v)"
  by (simp add: iov_bytes_def)

lemma msg_len_nonneg: "\<forall>v \<in> set m. 0 \<le> iov_len v \<Longrightarrow> 0 \<le> msg_len m"
  unfolding msg_len_def by (rule sum_list_nonneg) auto

lemma length_msg: "\<forall>v \<in> set m. 0 \<le> iov_len v \<Longrightarrow> int (length (concat (map (iov_bytes h) m))) = msg_len m"
  by (induction m) (auto simp: msg_len_def)

lemma iov_part:
  assumes "0 \<le> r" "r \<le> iov_len v"
  shows "iov_bytes h (v\<lparr>iov_off := iov_off v + nat r, iov_len := iov_len v - r\<rparr>) = drop (nat r) (iov_bytes h v)"
proof -
  have "nat (iov_len v) = nat r + nat (iov_len v - r)" using assms by simp
  then have "iov_bytes h v = peek (src_bytes h (iov_base v)) (iov_off v) (nat r) @ peek (src_bytes h (iov_base v)) (iov_off v + nat r) (nat (iov_len v - r))"
    by (simp add: iov_bytes_def peek_add)
  then show ?thesis by (simp add: iov_bytes_def)
qed

lemma drop_sent_bytes:
  assumes "\<forall>v \<in> set m. 0 \<le> iov_len v" "0 \<le> r" "r \<le> msg_len m"
  shows "concat (map (iov_bytes h) (drop_sent r m)) = drop (nat r) (concat (map (iov_bytes h) m)) \<and> (\<forall>v \<in> set (drop_sent r m). 0 \<le> iov_len v) \<and>
    msg_len (drop_sent r m) = msg_len m - r \<and> (msg_len m = r \<longrightarrow> drop_sent r m = [])"
  using assms
proof (induction r m rule: drop_sent.induct)
  case (2 r v m)
  have m0: "0 \<le> msg_len m" using 2(2) msg_len_nonneg by simp
  have l: "msg_len (v # m) = iov_len v + msg_len m" by (simp add: msg_len_def)
  show ?case
  proof (cases "r \<ge> iov_len v")
    case True
    have "nat r = nat (iov_len v) + nat (r - iov_len v)" using True 2(2) by auto
    then show ?thesis using 2(1) [OF True] 2(2-4) True l by simp
  next
    case False
    then show ?thesis using 2(2-4) iov_part [of r v h] l m0 by (auto simp: msg_len_def)
  qed
qed (simp add: msg_len_def)

lemma drop_Suc_nth: "i < length xs \<Longrightarrow> drop i xs = xs ! i # drop (Suc i) xs"
  by (simp add: Cons_nth_drop_Suc)

lemma send_nothing:
  assumes "\<nexists>a as. sk_accepts k = Accepts a # as"
  shows "\<exists>b k1. sock_send bs k = (if b then Some None else None, k1) \<and> sk_in k1 = sk_in k \<and> sk_out k1 = sk_out k"
proof (cases "sk_accepts k")
  case Nil
  then show ?thesis by (intro exI [of _ True]) (simp add: sock_send_def)
next
  case (Cons a as)
  then show ?thesis using assms by (intro exI [of _ "a = Blocks"]) (cases a, auto simp: sock_send_def)
qed

text \<open>The fields that sending leaves alone.\<close>

definition send_frame :: "conn \<Rightarrow> conn \<Rightarrow> bool" where
  "send_frame c c' \<longleftrightarrow> c_transport c' = c_transport c \<and> rbuf c' = rbuf c \<and> ilist c' = ilist c \<and> suffixlist c' = suffixlist c \<and> c_item c' = c_item c \<and>
     write_and_go c' = write_and_go c"

text \<open>
  One call of \<open>transmit\<close>: the socket takes the next bytes of the reply, and the rest is what remains, in whatever state the items are when it is sent.
\<close>

lemma transmit_step:
  assumes "transmit ev_ok h (c, k) = (r, c', k')" "msgs_ok c"
  shows "\<exists>n out. msgs_ok c' \<and> send_frame c c' \<and> sk_in k' = sk_in k \<and> sk_out k' = sk_out k @ out \<and> concat out = take n (pending h c) \<and>
    (\<forall>h. pending h c' = drop n (pending h c)) \<and> (r = TRANSMIT_COMPLETE \<longrightarrow> out = [] \<and> (\<forall>h. pending h c = [])) \<and>
    (r \<noteq> TRANSMIT_HARD_ERROR \<longrightarrow> c_state c' = c_state c) \<and> (r = TRANSMIT_HARD_ERROR \<and> \<not> is_udp c \<longrightarrow> c_state c' = conn_closing) \<and>
    (\<forall>a as. sk_accepts k = Accepts (Suc a) # as \<and> r \<noteq> TRANSMIT_COMPLETE \<longrightarrow> r = TRANSMIT_INCOMPLETE \<and> sk_accepts k' = as \<and> unsent c' < unsent c)"
proof -
  define c1 where "c1 = (if msgcurr c < length (msglist c) \<and> msglist c ! msgcurr c = [] then c\<lparr>msgcurr := msgcurr c + 1\<rparr> else c)"
  have p1: "pending h c1 = pending h c" for h by (auto simp: c1_def pending_def drop_Suc_nth [of "msgcurr c"])
  have u1: "unsent c1 \<le> unsent c" by (auto simp: c1_def unsent_def drop_Suc_nth [of "msgcurr c"])
  have f1: "send_frame c c1" "msglist c1 = msglist c" "c_state c1 = c_state c" "is_udp c1 = is_udp c" by (auto simp: c1_def send_frame_def)
  have m1: "msgs_ok c1" using assms(2) f1(2) by (simp add: msgs_ok_def)
  note t = assms(1) [unfolded transmit_def Let_def prod.case, folded c1_def]
  show ?thesis
  proof (cases "msgcurr c1 < length (msglist c1)")
    case False
    then have "r = TRANSMIT_COMPLETE" "c' = c1" "k' = k" using t by auto
    moreover have "pending h c = []" for h using False p1 [of h] by (simp add: pending_def)
    ultimately show ?thesis using m1 f1 by (intro exI [of _ 0] exI [of _ "[]"]) (simp add: p1)
  next
    case True
    let ?m = "msglist c1 ! msgcurr c1" let ?b = "\<lambda>h. concat (map (iov_bytes h) ?m)"
    have mm: "\<forall>v \<in> set ?m. 0 \<le> iov_len v" using m1 nth_mem [OF True] by (simp only: msgs_ok_def) blast
    have d: "drop (msgcurr c1) (msglist c1) = ?m # drop (Suc (msgcurr c1)) (msglist c1)" using drop_Suc_nth [OF True] .
    let ?rest = "\<lambda>h. concat (map (\<lambda>m. concat (map (iov_bytes h) m)) (drop (Suc (msgcurr c1)) (msglist c1)))"
    have pd: "pending h c = ?b h @ ?rest h" for h using p1 [of h] d by (simp add: pending_def)
    note t = t [unfolded if_P [OF True]]
    show ?thesis
    proof (cases "\<exists>a as. sk_accepts k = Accepts a # as")
      case False
      then obtain k1 b where k1: "sock_send (?b h) k = (if b then Some None else None, k1)" "sk_in k1 = sk_in k" "sk_out k1 = sk_out k"
        using send_nothing [of k "?b h"] by blast
      note t = t [unfolded k1(1) prod.case]
      have "r \<noteq> TRANSMIT_COMPLETE \<and> k' = k1 \<and> (r \<noteq> TRANSMIT_HARD_ERROR \<longrightarrow> c' = c1)" using t by (cases b; cases ev_ok) auto
      moreover have hard: "r = TRANSMIT_HARD_ERROR \<and> \<not> is_udp c \<longrightarrow> c_state c' = conn_closing"
        using t f1(4) by (cases b; cases ev_ok) (auto simp: conn_set_state_def)
      moreover have "\<exists>s. c' = conn_set_state s c1"
      proof (cases "b \<and> ev_ok")
        case True
        then show ?thesis using t by (intro exI [of _ "c_state c1"]) (simp add: conn_set_state_def)
      next
        case False
        then show ?thesis using t by (cases b) auto
      qed
      ultimately obtain s where s: "r \<noteq> TRANSMIT_COMPLETE" "sk_in k' = sk_in k" "sk_out k' = sk_out k" "c' = conn_set_state s c1" "r \<noteq> TRANSMIT_HARD_ERROR \<longrightarrow> c' = c1"
        using k1(2,3) by blast
      have "msgs_ok c'" "send_frame c c'" "pending h c' = pending h c" for h
        using m1 f1 p1 [of h] s(4) by (auto simp: conn_set_state_def msgs_ok_def send_frame_def pending_def)
      then show ?thesis using s f1 False hard by (intro exI [of _ 0] exI [of _ "[]"]) auto
    next
      case True
      then obtain a as where a: "sk_accepts k = Accepts a # as" by blast
      define n where "n = min a (length (?b h))"
      have e: "r = TRANSMIT_INCOMPLETE" "msglist c' = (msglist c1)[msgcurr c1 := drop_sent (int n) ?m]" "msgcurr c' = msgcurr c1"
          "k' = k\<lparr>sk_accepts := as, sk_out := sk_out k @ [take a (?b h)]\<rparr>" "send_frame c1 c'" "c_state c' = c_state c1"
        using t a by (auto simp: sock_send_def n_def send_frame_def upd_tstats_def)
      have n: "int n \<le> msg_len ?m" using length_msg [OF mm, of h] by (simp add: n_def)
      note ds = drop_sent_bytes [OF mm _ n]
      have "drop (msgcurr c') (msglist c') = drop_sent (int n) ?m # drop (Suc (msgcurr c1)) (msglist c1)"
        using e(2,3) \<open>msgcurr c1 < length (msglist c1)\<close> by (simp add: drop_Suc_nth)
      note d' = this
      have len: "length (?b h') = length (?b h)" for h' using length_msg [OF mm, of h] length_msg [OF mm, of h'] by simp
      have p': "pending h c' = drop n (pending h c)" for h using d' ds [of h] n pd len [of h] by (simp add: pending_def n_def)
      have mo: "msgs_ok c'"
        using m1 ds [of h] unfolding msgs_ok_def e(2) by (metis (no_types, lifting) in_set_conv_nth length_list_update nth_list_update_eq nth_list_update_neq of_nat_0_le_iff)
      have "unsent c' < unsent c" if "a = Suc b" for b
      proof (cases "?m = []")
        case True
        then have "unsent c1 < unsent c" using \<open>msgcurr c1 < length (msglist c1)\<close>
          by (auto simp: c1_def unsent_def drop_Suc_nth [of "msgcurr c"] msg_weight_def split: if_splits)
        moreover have "unsent c' = unsent c1" unfolding unsent_def d d' using True by simp
        ultimately show ?thesis by simp
      next
        case False
        define L where "L = length (?b h)"
        have "n = min a L" "int L = msg_len ?m" using length_msg [OF mm, of h] by (simp_all only: n_def L_def)
        then have "msg_len ?m = 0 \<or> 0 < n" using that by (cases "L = 0") auto
        then have "msg_weight (drop_sent (int n) ?m) < msg_weight ?m" using ds [of h] n False by (auto simp: msg_weight_def)
        then show ?thesis using u1 by (simp add: unsent_def d d')
      qed
      moreover have "send_frame c c'" using f1(1) e(5) by (simp add: send_frame_def)
      moreover have "take a (?b h) = take n (pending h c)" using pd by (simp add: n_def min_def)
      ultimately show ?thesis using mo p' e(1,4,6) f1(3) a by (intro exI [of _ n] exI [of _ "[take a (?b h)]"]) auto
    qed
  qed
qed

text \<open>What the connection holds is given back.\<close>

lemma release_all_ok:
  assumes "good st hash s R M" "\<forall>x. count_list xs x \<le> R x"
  shows "\<exists>s'. release_all xs s = Some s' \<and> good st hash s' (\<lambda>x. R x - count_list xs x) M"
  using assms
proof (induction xs arbitrary: s R)
  case (Cons y ys)
  have c: "cache_ok st hash s M R" using Cons.prems(1) by (simp add: good_def)
  have y: "0 < R y" using Cons.prems(2) [rule_format, of y] by simp
  obtain s1 where s1: "do_item_remove y s = Some s1" "moved st hash s M R s1 M (R(y := R y - 1))" using moved_remove [OF c y] by blast
  have g1: "good st hash s1 (R(y := R y - 1)) M" using good_sub [OF Cons.prems(1) s1(2) map_le_refl] .
  have le: "\<forall>x. count_list ys x \<le> (R(y := R y - 1)) x"
  proof
    fix x show "count_list ys x \<le> (R(y := R y - 1)) x" using Cons.prems(2) [rule_format, of x] by (cases "x = y") auto
  qed
  have "(\<lambda>x. (R(y := R y - 1)) x - count_list ys x) = (\<lambda>x. R x - count_list (y # ys) x)" by auto
  then show ?case using Cons.IH [OF g1 le] s1(1) by (auto simp: item_remove_def)
qed simp

lemma free_suffixes_frame: "\<exists>p n. free_suffixes ok bs c = c\<lparr>suffix_cache := p, asked := n\<rparr>"
proof (induction bs arbitrary: c)
  case Nil
  then show ?case by (intro exI [of _ "suffix_cache c"] exI [of _ "asked c"]) simp
next
  case (Cons b bs)
  show ?case using Cons [of "c\<lparr>suffix_cache := snd (do_cache_free True (ok (asked c)) b (suffix_cache c, \<lambda>_. 0)), asked := asked c + 1\<rparr>"] by auto
qed

lemma release_items_ok:
  assumes "good st hash (srv_mc srv) R M" "\<forall>x. count_list (ilist c) x \<le> R x" "c_item c = NULL"
  shows "\<exists>c' s'. conn_release_items e (c, srv) = Some (c', srv\<lparr>srv_mc := s'\<rparr>) \<and> good st hash s' (\<lambda>x. R x - count_list (ilist c) x) M \<and>
    rbuf c' = rbuf c \<and> c_item c' = NULL \<and> ilist c' = [] \<and> c_transport c' = c_transport c"
proof -
  obtain s' where s': "release_all (ilist c) (srv_mc srv) = Some s'" "good st hash s' (\<lambda>x. R x - count_list (ilist c) x) M"
    using release_all_ok [OF assms(1,2)] by blast
  obtain p n where f: "free_suffixes (e_ok e) (suffixlist c) (c\<lparr>c_item := NULL\<rparr>) = c\<lparr>c_item := NULL, suffix_cache := p, asked := n\<rparr>"
    using free_suffixes_frame by blast
  have "conn_release_items e (c, srv) = Some (c\<lparr>c_item := NULL, suffix_cache := p, asked := n, ilist := [], suffixlist := []\<rparr>, srv\<lparr>srv_mc := s'\<rparr>)"
    unfolding conn_release_items_def Let_def prod.case f using s'(1) assms(3) by simp
  then show ?thesis using s'(2) by (intro exI [of _ "c\<lparr>c_item := NULL, suffix_cache := p, asked := n, ilist := [], suffixlist := []\<rparr>"] exI [of _ s']) simp
qed

text \<open>A round of a stream connection that has a reply with values.\<close>

lemma mwrite_step:
  assumes c: "c_state c = conn_mwrite" "\<not> is_udp c" "msgs_ok c" "c_item c = NULL"
    and g: "good st hash (srv_mc srv) R M" "\<forall>x. count_list (ilist c) x \<le> R x"
  shows "\<exists>d c' srv' k' n out. drive_step e stale free ev_ok (c, srv, k, nreqs) = Some (d, c', srv', k', nreqs) \<and> rbuf c' = rbuf c \<and> sk_in k' = sk_in k \<and>
    sk_out k' = sk_out k @ out \<and> concat out = take n (pending (m_heap (srv_mc srv)) c) \<and>
    (c_state c' = conn_mwrite \<and> srv' = srv \<and> msgs_ok c' \<and> send_frame c c' \<and> (\<forall>h. pending h c' = drop n (pending h c)) \<or>
     c_state c' = conn_new_cmd \<and> d = Goes_on \<and> (\<forall>h. pending h c = []) \<and> good st hash (srv_mc srv') (\<lambda>x. R x - count_list (ilist c) x) M \<or>
     c_state c' = conn_closing \<and> srv' = srv) \<and>
    (\<forall>a as. sk_accepts k = Accepts (Suc a) # as \<longrightarrow> d = Goes_on \<and> (c_state c' = conn_new_cmd \<or> sk_accepts k' = as \<and> c_state c' = conn_mwrite \<and> unsent c' < unsent c))"
proof -
  let ?h = "m_heap (srv_mc srv)"
  obtain r c' k' where t: "transmit ev_ok ?h (c, k) = (r, c', k')" by (metis prod_cases3)
  obtain n out where s: "msgs_ok c'" "send_frame c c'" "sk_in k' = sk_in k" "sk_out k' = sk_out k @ out" "concat out = take n (pending ?h c)"
      "\<forall>h. pending h c' = drop n (pending h c)" "r = TRANSMIT_COMPLETE \<longrightarrow> out = [] \<and> (\<forall>h. pending h c = [])"
      "r \<noteq> TRANSMIT_HARD_ERROR \<longrightarrow> c_state c' = c_state c" "r = TRANSMIT_HARD_ERROR \<and> \<not> is_udp c \<longrightarrow> c_state c' = conn_closing"
      "\<forall>a as. sk_accepts k = Accepts (Suc a) # as \<and> r \<noteq> TRANSMIT_COMPLETE \<longrightarrow> r = TRANSMIT_INCOMPLETE \<and> sk_accepts k' = as \<and> unsent c' < unsent c"
    using transmit_step [OF t c(3)] by blast
  note fr = s(2) [unfolded send_frame_def]
  note D = drive_step_def drive_mwrite_def Let_def prod.case c(1)
  show ?thesis
  proof (cases "r = TRANSMIT_COMPLETE")
    case True
    have g': "\<forall>x. count_list (ilist c') x \<le> R x" "c_item c' = NULL" using g(2) fr c(4) by simp_all
    obtain c2 s2 where r2: "conn_release_items e (c', srv) = Some (c2, srv\<lparr>srv_mc := s2\<rparr>)" "good st hash s2 (\<lambda>x. R x - count_list (ilist c') x) M" "rbuf c2 = rbuf c'"
      using release_items_ok [OF g(1) g'] by blast
    have cs: "c_state c' = conn_mwrite" using s(8) True c(1) by simp
    have "drive_step e stale free ev_ok (c, srv, k, nreqs) = Some (Goes_on, conn_set_state conn_new_cmd c2, srv\<lparr>srv_mc := s2\<rparr>, k', nreqs)"
      unfolding D using t True cs r2(1) c(2) by simp
    then show ?thesis using True s r2(2,3) fr
      by (intro exI [of _ Goes_on] exI [of _ "conn_set_state conn_new_cmd c2"] exI [of _ "srv\<lparr>srv_mc := s2\<rparr>"] exI [of _ k'] exI [of _ n] exI [of _ out])
        (simp add: conn_set_state_def)
  next
    case False
    have cs: "c_state c' = conn_mwrite \<or> c_state c' = conn_closing" using s(8,9) c(1,2) by (cases "r = TRANSMIT_HARD_ERROR") simp_all
    have "drive_step e stale free ev_ok (c, srv, k, nreqs) = Some (if r = TRANSMIT_SOFT_ERROR then Stops else Goes_on, c', srv, k', nreqs)"
      unfolding D using t False c(2) by (cases r) simp_all
    then show ?thesis using False s fr cs c(1)
      by (intro exI [of _ "if r = TRANSMIT_SOFT_ERROR then Stops else Goes_on"] exI [of _ c'] exI [of _ srv] exI [of _ k'] exI [of _ n] exI [of _ out]) auto
  qed
qed

section \<open>A reply on its way\<close>

text \<open>The connection sends, other threads work; they leave the references of the connection alone and do not write into the items of its reply.\<close>

inductive replying :: "cenv \<Rightarrow> settings \<Rightarrow> machine \<Rightarrow> (addr \<Rightarrow> nat) \<Rightarrow> machine \<Rightarrow> (addr \<Rightarrow> nat) \<Rightarrow> bool" for e st x R where
  start: "replying e st x R x R"
| drive: "replying e st x R y R1 \<Longrightarrow> drive_step e stale free ev_ok y = Some (d, y') \<Longrightarrow> c_state (fst y') = conn_mwrite \<Longrightarrow> replying e st x R y' R1"
| others: "replying e st x R (c, srv, k, n) R1 \<Longrightarrow> cache_step st (e_hash e) w (srv_mc srv) R1 s' R2 \<Longrightarrow> w \<notin> set (ilist c) \<Longrightarrow>
    \<forall>x. count_list (ilist c) x \<le> R2 x \<Longrightarrow> replying e st x R (c, srv\<lparr>srv_mc := s'\<rparr>, k, n) R2"

lemma same_readable:
  assumes "\<forall>x \<in> set xs. same_item s s' x \<and> full_data (m_heap s x)"
  shows "readable (m_heap s) (m_heap s') xs"
  using assms by (simp add: readable_def same_item_def full_data_def item_value_def item_bytes_def)

text \<open>What holds while a reply is sent: \<open>txs\<close> is the whole reply behind what was sent before it.\<close>

definition reply_inv :: "cenv \<Rightarrow> settings \<Rightarrow> addr list \<Rightarrow> mc \<Rightarrow> byte list \<Rightarrow> byte list \<Rightarrow> machine \<Rightarrow> (addr \<Rightarrow> nat) \<Rightarrow> bool" where
  "reply_inv e st xs s0 txs inp x R \<longleftrightarrow> (let (c, srv, k, n) = x in
     c_state c = conn_mwrite \<and> \<not> is_udp c \<and> msgs_ok c \<and> c_item c = NULL \<and> ilist c = xs \<and> rbuf c = inp \<and> (\<exists>M. good st (e_hash e) (srv_mc srv) R M) \<and>
     (\<forall>x. count_list xs x \<le> R x) \<and> (\<forall>x \<in> set xs. same_item s0 (srv_mc srv) x) \<and>
     (\<exists>p. concat (sk_out k) @ p = txs \<and> (\<forall>h. readable (m_heap s0) h xs \<longrightarrow> pending h c = p)))"

lemma reply_inv_step:
  assumes inv: "reply_inv e st xs s0 txs inp (c, srv, k, n) R" and full: "\<forall>x \<in> set xs. full_data (m_heap s0 x)"
  shows "\<exists>d c' srv' k'. drive_step e stale free ev_ok (c, srv, k, n) = Some (d, c', srv', k', n) \<and> rbuf c' = inp \<and> (\<exists>p. concat (sk_out k') @ p = txs) \<and>
    (c_state c' = conn_mwrite \<longrightarrow> reply_inv e st xs s0 txs inp (c', srv', k', n) R) \<and>
    (c_state c' = conn_new_cmd \<longrightarrow> concat (sk_out k') = txs \<and> (\<exists>M. good st (e_hash e) (srv_mc srv') (\<lambda>x. R x - count_list xs x) M)) \<and>
    (c_state c' = conn_mwrite \<or> c_state c' = conn_new_cmd \<or> c_state c' = conn_closing) \<and>
    (\<forall>a as. sk_accepts k = Accepts (Suc a) # as \<longrightarrow> d = Goes_on \<and> (c_state c' = conn_new_cmd \<or> sk_accepts k' = as \<and> c_state c' = conn_mwrite \<and> unsent c' < unsent c))"
proof -
  obtain M p where i: "c_state c = conn_mwrite" "\<not> is_udp c" "msgs_ok c" "c_item c = NULL" "ilist c = xs" "rbuf c = inp" "good st (e_hash e) (srv_mc srv) R M"
      "\<forall>x. count_list (ilist c) x \<le> R x" "\<forall>x \<in> set xs. same_item s0 (srv_mc srv) x" "concat (sk_out k) @ p = txs"
      "\<forall>h. readable (m_heap s0) h xs \<longrightarrow> pending h c = p"
    using inv by (auto simp: reply_inv_def)
  have p: "pending (m_heap (srv_mc srv)) c = p" using i(9,11) full same_readable [of xs s0 "srv_mc srv"] by blast
  obtain d c' srv' k' m out where s: "drive_step e stale free ev_ok (c, srv, k, n) = Some (d, c', srv', k', n)" "rbuf c' = rbuf c" "sk_out k' = sk_out k @ out"
      "concat out = take m (pending (m_heap (srv_mc srv)) c)"
      "c_state c' = conn_mwrite \<and> srv' = srv \<and> msgs_ok c' \<and> send_frame c c' \<and> (\<forall>h. pending h c' = drop m (pending h c)) \<or>
       c_state c' = conn_new_cmd \<and> d = Goes_on \<and> (\<forall>h. pending h c = []) \<and> good st (e_hash e) (srv_mc srv') (\<lambda>x. R x - count_list (ilist c) x) M \<or>
       c_state c' = conn_closing \<and> srv' = srv"
      "\<forall>a as. sk_accepts k = Accepts (Suc a) # as \<longrightarrow> d = Goes_on \<and> (c_state c' = conn_new_cmd \<or> sk_accepts k' = as \<and> c_state c' = conn_mwrite \<and> unsent c' < unsent c)"
    using mwrite_step [OF i(1-4,7,8), of e stale free ev_ok k n] by blast
  have o: "concat (sk_out k') @ drop m p = txs" using s(3,4) i(10) p by simp
  have "reply_inv e st xs s0 txs inp (c', srv', k', n) R" if cs: "c_state c' = conn_mwrite"
  proof -
    have e: "srv' = srv" "msgs_ok c'" "send_frame c c'" "\<forall>h. pending h c' = drop m (pending h c)" using s(5) cs by auto
    have "\<exists>p. concat (sk_out k') @ p = txs \<and> (\<forall>h. readable (m_heap s0) h xs \<longrightarrow> pending h c' = p)"
      using o e(4) i(11) by (intro exI [of _ "drop m p"]) simp
    then show ?thesis using e i cs s(2) unfolding reply_inv_def by (auto simp: send_frame_def)
  qed
  moreover have "concat (sk_out k') = txs \<and> (\<exists>M. good st (e_hash e) (srv_mc srv') (\<lambda>x. R x - count_list xs x) M)" if cs: "c_state c' = conn_new_cmd"
    using s(5) cs o p i(5) by auto
  moreover have "\<exists>p. concat (sk_out k') @ p = txs" using o by blast
  ultimately show ?thesis using s i(6) by (intro exI [of _ d] exI [of _ c'] exI [of _ srv'] exI [of _ k']) blast
qed

lemma replying_inv:
  assumes "replying e st x R y R'" "reply_inv e st xs s0 txs inp x R" "\<forall>x \<in> set xs. full_data (m_heap s0 x)" "tail_repair_time st = 0"
  shows "reply_inv e st xs s0 txs inp y R'"
  using assms(1,2)
proof (induction)
  case (drive y R1 stale free ev_ok d y')
  obtain c srv k n where y: "y = (c, srv, k, n)" by (metis prod_cases4)
  obtain c' srv' k' where "drive_step e stale free ev_ok y = Some (d, c', srv', k', n)" "c_state c' = conn_mwrite \<longrightarrow> reply_inv e st xs s0 txs inp (c', srv', k', n) R1"
    using reply_inv_step [OF drive.IH [OF drive.prems, unfolded y] assms(3), of stale free ev_ok] drive.hyps(2) unfolding y by auto
  then show ?case using drive.hyps(2,3) by auto
next
  case (others c srv k n R1 w s' R2)
  have i: "reply_inv e st xs s0 txs inp (c, srv, k, n) R1" using others by blast
  then obtain M where g: "good st (e_hash e) (srv_mc srv) R1 M" and xs: "ilist c = xs" by (auto simp: reply_inv_def)
  have st: "stepped st (e_hash e) w (srv_mc srv) R1 s' R2" by (rule cache_step_good [OF others.hyps(2) g assms(4)])
  have "same_item s0 s' x" if x: "x \<in> set xs" for x
  proof -
    have "0 < count_list xs x" using x count_list_0_iff [of xs x] by simp
    then have "0 < R1 x" "0 < R2 x" using i others.hyps(4) xs by (auto simp: reply_inv_def intro: less_le_trans)
    then have "same_item (srv_mc srv) s' x" using st x others.hyps(3) xs by (auto simp: stepped_def)
    moreover have "same_item s0 (srv_mc srv) x" using i x by (simp add: reply_inv_def)
    ultimately show ?thesis by (simp add: same_item_def)
  qed
  moreover have "\<exists>M. good st (e_hash e) s' R2 M" using st by (simp add: stepped_def)
  ultimately show ?case using i others.hyps(4) xs by (simp add: reply_inv_def)
qed

section \<open>A command in the input buffer\<close>

lemma newline_at_first: "LF \<notin> set a \<Longrightarrow> newline_at (a @ LF # b) = Some (length a)"
  by (induction a) auto

lemma parse_step:
  assumes c: "c_state c = conn_parse_cmd" and buf: "rbuf c = line @ [CR, LF] @ rest" "LF \<notin> set line" "0 \<notin> set line" "line \<noteq> []"
    and p: "process_command e stale free line (c, srv) = Some (Handled (c1, srv1))"
  shows "drive_step e stale free ev_ok (c, srv, k, n) = Some (Goes_on, c1\<lparr>rbuf := rest\<rparr>, srv1, k, n)"
proof -
  have nl: "newline_at (rbuf c) = Some (Suc (length line))" using newline_at_first [of "line @ [CR]" rest] buf by simp
  have tw: "takeWhile (\<lambda>b. b \<noteq> 0) line = line" using buf(3) by (rule no_zero)
  have tk: "take (if Suc (length line) > 1 \<and> rbuf c ! (Suc (length line) - 1) = CR then Suc (length line) - 1 else Suc (length line)) (rbuf c) = line"
    using buf(1,4) by (simp add: nth_append)
  have ne: "rbuf c \<noteq> []" and dr: "drop (Suc (Suc (length line))) (rbuf c) = rest" using buf(1) by simp_all
  have "try_read_command_ascii e stale free (c, srv) = Some (Some (Handled (c1\<lparr>rbuf := rest\<rparr>, srv1)))"
    unfolding try_read_command_ascii_def Let_def prod.case nl option.case tk tw p if_not_P [OF ne] by (simp add: dr)
  then show ?thesis using c by (simp add: drive_step_def drive_parse_def)
qed

text \<open>
  C6. A get on a stream connection, to the last byte. The line is taken out of the input buffer; the reply is the text of all live items in the order of the
  line and \<open>END\<close>. Then, in whatever portions the socket takes it and whatever other threads do meanwhile, the client gets a prefix of exactly these
  bytes; when the connection turns to the next command it has got all of them, the references to the items are given back, and the input behind the line
  is untouched. Each time the socket takes a byte or more, less is left to send.
\<close>

theorem get_over_stream:
  assumes env: "env_ok e st" and srv: "serving e st srv R M" and c: "pool_ok c" "\<not> is_udp c" "c_item c = NULL" "c_state c = conn_parse_cmd"
    and r: "\<forall>x. all_refs (srv_mc srv) R x + 2 * length ks < 59000"
    and line: "line_words line = bytes ''get'' # ks" "ks \<noteq> []" "\<forall>k \<in> set ks. length k \<le> KEY_MAX_LENGTH" "distinct ks"
    and buf: "rbuf c = line @ [CR, LF] @ rest" "LF \<notin> set line" "0 \<notin> set line"
    and whole: "txs = concat (map (\<lambda>x. value_text False (m_heap (srv_mc srv) x)) (hits (live st (srv_mc srv) M) ks)) @ end_text"
  shows "\<exists>c1 srv1. drive_step e stale free ev_ok (c, srv, k, n) = Some (Goes_on, c1, srv1, k, n) \<and> c_state c1 = conn_mwrite \<and>
    (\<forall>c2 srv2 k2 R2 stale2 free2 ev2. replying e st (c1, srv1, k, n) (hold (ilist c1) R) (c2, srv2, k2, n) R2 \<longrightarrow>
      (\<exists>d c3 srv3 k3. drive_step e stale2 free2 ev2 (c2, srv2, k2, n) = Some (d, c3, srv3, k3, n) \<and> rbuf c3 = rest \<and>
        (\<exists>p. concat (sk_out k3) @ p = concat (sk_out k) @ txs) \<and>
        (c_state c3 = conn_new_cmd \<longrightarrow> concat (sk_out k3) = concat (sk_out k) @ txs \<and>
          (\<exists>M. good st (e_hash e) (srv_mc srv3) (\<lambda>x. R2 x - count_list (ilist c1) x) M)) \<and>
        (\<forall>a as. sk_accepts k2 = Accepts (Suc a) # as \<longrightarrow> c_state c3 = conn_new_cmd \<or> c_state c3 = conn_mwrite \<and> unsent c3 < unsent c2)))"
proof -
  let ?H = "hits (live st (srv_mc srv) M) ks"
  have lw: "line_words line = (if False then bytes ''gets'' else bytes ''get'') # ks" using line(1) by simp
  obtain c1 srv1 where g: "process_command e stale free line (c, srv) = Some (Handled (c1, srv1))" "c_state c1 = conn_mwrite" "get_frame c c1"
      "\<forall>x \<in> set (ilist c1). full_data (m_heap (srv_mc srv1) x)" "ilist c1 = ?H"
      "\<forall>h. readable (m_heap (srv_mc srv1)) h (ilist c1) \<longrightarrow> sent h c1 = concat (map (\<lambda>x. value_text False (m_heap (srv_mc srv1) x)) (ilist c1)) @ end_text"
      "good st (e_hash e) (srv_mc srv1) (hold (ilist c1) R) (looked_up st (srv_mc srv) M ks)"
      "\<forall>x \<in> set (ilist c1). value_text False (m_heap (srv_mc srv1) x) = value_text False (m_heap (srv_mc srv) x)"
    using get_ok [OF env srv c(1) r lw line(2-4), of stale free] by blast
  have ne: "line \<noteq> []" using line(1) by (auto simp: line_words_simps)
  let ?c = "c1\<lparr>rbuf := rest\<rparr>"
  have st: "drive_step e stale free ev_ok (c, srv, k, n) = Some (Goes_on, ?c, srv1, k, n)" by (rule parse_step [OF c(4) buf ne g(1)])
  have f: "msgs_ok ?c" "msgcurr ?c = 0" "c_item ?c = NULL" "\<not> is_udp ?c" "c_state ?c = conn_mwrite" "ilist ?c = ?H"
    using g(2,3,5) c by (simp_all add: get_frame_def msgs_ok_def)
  have vt: "concat (map (\<lambda>x. value_text False (m_heap (srv_mc srv1) x)) ?H) = concat (map (\<lambda>x. value_text False (m_heap (srv_mc srv) x)) ?H)"
    using g(5,8) by (intro arg_cong [of _ _ concat] map_cong) simp_all
  have pd: "pending h ?c = txs" if "readable (m_heap (srv_mc srv1)) h ?H" for h
    using g(5,6) that vt f(2,4) unfolding whole by (simp add: pending_def sent_def msg_body_def)
  have inv: "reply_inv e st ?H (srv_mc srv1) (concat (sk_out k) @ txs) rest (?c, srv1, k, n) (hold ?H R)"
    unfolding reply_inv_def Let_def prod.case using f g(5,7) pd by (auto simp: hold_def same_item_def)
  have full: "\<forall>x \<in> set ?H. full_data (m_heap (srv_mc srv1) x)" using g(4,5) by simp
  have tr: "tail_repair_time st = 0" using env by (simp add: env_ok_def)
  show ?thesis
  proof (intro exI [of _ ?c] exI [of _ srv1] conjI allI impI st f(5))
    fix c2 srv2 k2 R2 stale2 free2 ev2
    assume run: "replying e st (?c, srv1, k, n) (hold (ilist ?c) R) (c2, srv2, k2, n) R2"
    have i: "reply_inv e st ?H (srv_mc srv1) (concat (sk_out k) @ txs) rest (c2, srv2, k2, n) R2"
      by (rule replying_inv [OF run [unfolded f(6)] inv full tr])
    show "\<exists>d c3 srv3 k3. drive_step e stale2 free2 ev2 (c2, srv2, k2, n) = Some (d, c3, srv3, k3, n) \<and> rbuf c3 = rest \<and>
        (\<exists>p. concat (sk_out k3) @ p = concat (sk_out k) @ txs) \<and>
        (c_state c3 = conn_new_cmd \<longrightarrow> concat (sk_out k3) = concat (sk_out k) @ txs \<and>
          (\<exists>M. good st (e_hash e) (srv_mc srv3) (\<lambda>x. R2 x - count_list (ilist ?c) x) M)) \<and>
        (\<forall>a as. sk_accepts k2 = Accepts (Suc a) # as \<longrightarrow> c_state c3 = conn_new_cmd \<or> c_state c3 = conn_mwrite \<and> unsent c3 < unsent c2)"
      unfolding f(6) using reply_inv_step [OF i full, of stale2 free2 ev2] by blast
  qed
qed

text \<open>A stream connection with a command in its buffer, and a socket that takes three bytes and then blocks.\<close>

definition w_tcp :: conn where
  "w_tcp = w_conn\<lparr>c_transport := tcp_transport, c_state := conn_parse_cmd, rbuf := bytes ''get a b'' @ [CR, LF]\<rparr>"

definition w_sock :: sock where
  "w_sock = \<lparr>sk_in = [], sk_accepts = [Accepts 3, Blocks], sk_out = []\<rparr>"

theorem get_over_stream_witness:
  "\<exists>s c1 srv1 d c3 srv3 k3 p. live tiny s [[97] \<mapsto> 4224] [97] = Some 4224 \<and>
     drive_step w_env False True True (w_tcp, w_srv s, w_sock, 20) = Some (Goes_on, c1, srv1, w_sock, 20) \<and> c_state c1 = conn_mwrite \<and>
     drive_step w_env False True True (c1, srv1, w_sock, 20) = Some (d, c3, srv3, k3, 20) \<and> rbuf c3 = [] \<and>
     concat (sk_out k3) @ p = value_text False (m_heap s 4224) @ end_text \<and> (c_state c3 = conn_new_cmd \<or> unsent c3 < unsent c1)"
proof -
  obtain s where s: "good tiny w_hash s w_refs [[97] \<mapsto> 4224]" "live tiny s [[97] \<mapsto> 4224] [97] = Some 4224"
      "length (bump_bufs s) = 1" "\<forall>x. bump_count s x = 0"
    using w_linked by blast
  have sv: "serving w_env tiny (w_srv s) w_refs [[97] \<mapsto> 4224]" "\<forall>x. all_refs s w_refs x < 58000" using w_serving [OF s(1,3,4)] by simp_all
  have r: "\<forall>x. all_refs (srv_mc (w_srv s)) w_refs x + 2 * length [[97 :: byte], [98]] < 59000"
  proof
    fix x show "all_refs (srv_mc (w_srv s)) w_refs x + 2 * length [[97 :: byte], [98]] < 59000" using spec [OF sv(2), of x] by (simp add: w_srv_def)
  qed
  have L: "hits (live tiny (srv_mc (w_srv s)) [[97] \<mapsto> 4224]) [[97], [98]] = [4224]" using s(2) by (simp add: w_srv_def) (simp add: live_def)
  have c: "pool_ok w_tcp" "\<not> is_udp w_tcp" "c_item w_tcp = NULL" "c_state w_tcp = conn_parse_cmd" "rbuf w_tcp = bytes ''get a b'' @ [CR, LF] @ []"
    using w_conn_ok(1) by (simp_all add: w_tcp_def w_conn_def pool_ok_def)
  have l: "line_words (bytes ''get a b'') = bytes ''get'' # [[97], [98]]" by (simp add: line_words_def)
  have k: "sk_accepts w_sock = [Accepts (Suc 2), Blocks]" "sk_out w_sock = []" by (simp_all add: w_sock_def)
  have ks: "[[97 :: byte], [98]] \<noteq> []" "\<forall>k \<in> set [[97 :: byte], [98]]. length k \<le> KEY_MAX_LENGTH" "distinct [[97 :: byte], [98]]"
      "LF \<notin> set (bytes ''get a b'')" "0 \<notin> set (bytes ''get a b'')"
    by simp_all
  have w: "concat (map (\<lambda>x. value_text False (m_heap (srv_mc (w_srv s)) x)) [4224]) @ end_text = value_text False (m_heap s 4224) @ end_text"
    by (simp add: w_srv_def)
  obtain c1 srv1 where g: "drive_step w_env False True True (w_tcp, w_srv s, w_sock, 20) = Some (Goes_on, c1, srv1, w_sock, 20)" "c_state c1 = conn_mwrite"
      "\<exists>d c3 srv3 k3. drive_step w_env False True True (c1, srv1, w_sock, 20) = Some (d, c3, srv3, k3, 20) \<and> rbuf c3 = [] \<and>
        (\<exists>p. concat (sk_out k3) @ p = concat (sk_out w_sock) @ value_text False (m_heap s 4224) @ end_text) \<and>
        (\<forall>a as. sk_accepts w_sock = Accepts (Suc a) # as \<longrightarrow> c_state c3 = conn_new_cmd \<or> c_state c3 = conn_mwrite \<and> unsent c3 < unsent c1)"
    using get_over_stream [OF w_env_ok sv(1) c(1-4) r l ks(1-3) c(5) ks(4,5) refl, of False True True w_sock 20, unfolded L w] replying.start by blast
  then show ?thesis using s(2) k by fastforce
qed

end
