(* ===== verification/Drive_Read.thy ===== *)
theory Drive_Read
  imports Drive_Ok
begin

text \<open>A command line reaches the parser complete, in whatever pieces it arrives.\<close>

section \<open>What arrives\<close>

fun arrived :: "arrival list \<Rightarrow> byte list" where
  "arrived (Arrived bs # a) = bs @ arrived a"
| "arrived _ = []"

text \<open>The client does not close the connection, and the connection does not break.\<close>

definition staying :: "arrival list \<Rightarrow> bool" where
  "staying a \<longleftrightarrow> (\<forall>x \<in> set a. \<exists>bs. x = Arrived bs)"

text \<open>Reading changes the input buffer, the state and the counters only.\<close>

definition upto_input :: "conn \<Rightarrow> conn \<Rightarrow> bool" where
  "upto_input c c' \<longleftrightarrow> (\<exists>x b z m t. c' = c\<lparr>c_state := x, rbuf := b, rsize := z, asked := m, c_stats := t\<rparr>)"

lemma upto_input_refl [simp]: "upto_input c c"
  unfolding upto_input_def by (intro exI [of _ "c_state c"] exI [of _ "rbuf c"] exI [of _ "rsize c"] exI [of _ "asked c"] exI [of _ "c_stats c"]) simp

lemma upto_inputI: "upto_input c (c\<lparr>c_state := x, rbuf := b, rsize := z, asked := m, c_stats := t\<rparr>)"
  unfolding upto_input_def by blast

lemma upto_input_trans:
  assumes "upto_input c c'" "upto_input c' c''"
  shows "upto_input c c''"
proof -
  obtain x b z m t where 1: "c' = c\<lparr>c_state := x, rbuf := b, rsize := z, asked := m, c_stats := t\<rparr>" using assms(1) unfolding upto_input_def by blast
  obtain x' b' z' m' t' where 2: "c'' = c'\<lparr>c_state := x', rbuf := b', rsize := z', asked := m', c_stats := t'\<rparr>" using assms(2) unfolding upto_input_def by blast
  have "c'' = c\<lparr>c_state := x', rbuf := b', rsize := z', asked := m', c_stats := t'\<rparr>" using 1 2 by simp
  then show ?thesis unfolding upto_input_def by blast
qed

lemma upto_input_same: "upto_input c c' \<Longrightarrow> c_transport c' = c_transport c"
  by (auto simp: upto_input_def)

lemma upto_state: "upto_input c (conn_set_state x c)"
proof -
  have "conn_set_state x c = c\<lparr>c_state := x, rbuf := rbuf c, rsize := rsize c, asked := asked c, c_stats := c_stats c\<rparr>" by (simp add: conn_set_state_def)
  then show ?thesis by (metis upto_inputI)
qed

lemma take_in_staying:
  assumes "staying a" "0 < n"
  shows "(\<exists>bs a'. take_in n a = (Got bs, a') \<and> bs \<noteq> [] \<and> length bs \<le> n \<and> arrived a = bs @ arrived a' \<and> staying a' \<and> in_size a' < in_size a) \<or>
    (\<exists>a'. take_in n a = (Again, a') \<and> arrived a' = arrived a \<and> staying a' \<and> in_size a' \<le> in_size a \<and> (a \<noteq> [] \<longrightarrow> in_size a' < in_size a))"
proof (cases a)
  case (Cons x xs)
  then obtain bs where x: "x = Arrived bs" "staying xs" using assms(1) by (auto simp: staying_def)
  show ?thesis
  proof (cases "bs = []")
    case True
    then show ?thesis using Cons x by (simp add: in_size_def)
  next
    case False
    have d: "in_size (Arrived (drop n bs) # xs) < in_size (Arrived bs # xs)" if "n < length bs" using that assms(2) by (simp add: in_size_def)
    have l: "in_size xs < in_size (Arrived bs # xs)" by (simp add: in_size_def)
    have "take_in n a = (Got (take n bs), if n < length bs then Arrived (drop n bs) # xs else xs)" using Cons x False assms(2) by simp
    moreover have "arrived a = take n bs @ arrived (if n < length bs then Arrived (drop n bs) # xs else xs)" using Cons x by simp
    moreover have "staying (if n < length bs then Arrived (drop n bs) # xs else xs)" using x(2) by (simp add: staying_def)
    ultimately show ?thesis using False assms(2) d l Cons x(1) by (intro disjI1 exI [of _ "take n bs"] exI [of _ "if n < length bs then Arrived (drop n bs) # xs else xs"]) auto
  qed
qed (simp add: staying_def)

section \<open>The read loop\<close>

lemma room_made:
  assumes "\<forall>n. ok n" "0 < rsize c" "length (rbuf c) \<le> rsize c"
  shows "n = 4 \<and> make_room ok n g c = Inl (g, c) \<or>
    (\<exists>n' c'. make_room ok n g c = Inr (n', c') \<and> upto_input c c' \<and> c_state c' = c_state c \<and> rbuf c' = rbuf c \<and> length (rbuf c') < rsize c' \<and> 0 < rsize c')"
proof (cases "length (rbuf c) \<ge> rsize c")
  case True
  have "c\<lparr>asked := asked c + 1, rsize := rsize c * 2\<rparr> = c\<lparr>c_state := c_state c, rbuf := rbuf c, rsize := rsize c * 2, asked := asked c + 1, c_stats := c_stats c\<rparr>"
    by simp
  then have "upto_input c (c\<lparr>asked := asked c + 1, rsize := rsize c * 2\<rparr>)" by (simp only: upto_inputI)
  then show ?thesis using True assms by (auto simp: make_room_def)
next
  case False
  then show ?thesis using assms(2) by (auto simp: make_room_def)
qed

lemma net_loop_ok:
  assumes ok: "\<forall>n. ok n"
  shows "0 < rsize c \<Longrightarrow> length (rbuf c) \<le> rsize c \<Longrightarrow> staying a \<Longrightarrow> n = 4 \<longrightarrow> g = READ_DATA_RECEIVED \<Longrightarrow>
    \<exists>r c' a' bs. net_loop ok n g c a = (r, c', a') \<and> upto_input c c' \<and> c_state c' = c_state c \<and> 0 < rsize c' \<and> length (rbuf c') \<le> rsize c' \<and> staying a' \<and>
      rbuf c' = rbuf c @ bs \<and> arrived a = bs @ arrived a' \<and> (if bs = [] then r = g else r = READ_DATA_RECEIVED) \<and>
      in_size a' \<le> in_size a \<and> (a \<noteq> [] \<and> n \<noteq> 4 \<longrightarrow> in_size a' < in_size a)"
proof (induction "in_size a" arbitrary: n g c a rule: less_induct)
  case less
  consider "n = 4" "make_room ok n g c = Inl (g, c)"
    | n' c1 where "make_room ok n g c = Inr (n', c1)" "upto_input c c1" "c_state c1 = c_state c" "rbuf c1 = rbuf c" "length (rbuf c1) < rsize c1" "0 < rsize c1"
    using room_made [OF ok less.prems(1,2), of n g] by blast
  then show ?case
  proof cases
    case 1
    then have "net_loop ok n g c a = (g, c, a)" by (subst net_loop.simps) (simp add: net_round_def)
    then show ?thesis using less.prems 1 by (intro exI [of _ g] exI [of _ c] exI [of _ a] exI [of _ "[]"]) simp
  next
    case 2
    have av: "0 < rsize c1 - length (rbuf c1)" using 2(5) by simp
    show ?thesis using take_in_staying [OF less.prems(3) av]
    proof
      assume "\<exists>a'. take_in (rsize c1 - length (rbuf c1)) a = (Again, a') \<and> arrived a' = arrived a \<and> staying a' \<and> in_size a' \<le> in_size a \<and> (a \<noteq> [] \<longrightarrow> in_size a' < in_size a)"
      then obtain a' where a': "take_in (rsize c1 - length (rbuf c1)) a = (Again, a')" "arrived a' = arrived a" "staying a'" "in_size a' \<le> in_size a"
          "a \<noteq> [] \<longrightarrow> in_size a' < in_size a"
        by blast
      have "net_loop ok n g c a = (g, c1, a')" by (subst net_loop.simps) (simp add: net_round_def Let_def 2(1) a'(1))
      then show ?thesis using less.prems a' 2 by (intro exI [of _ g] exI [of _ c1] exI [of _ a'] exI [of _ "[]"]) simp
    next
      assume "\<exists>bs a'. take_in (rsize c1 - length (rbuf c1)) a = (Got bs, a') \<and> bs \<noteq> [] \<and> length bs \<le> rsize c1 - length (rbuf c1) \<and> arrived a = bs @ arrived a' \<and>
        staying a' \<and> in_size a' < in_size a"
      then obtain bs a' where b: "take_in (rsize c1 - length (rbuf c1)) a = (Got bs, a')" "bs \<noteq> []" "length bs \<le> rsize c1 - length (rbuf c1)"
          "arrived a = bs @ arrived a'" "staying a'" "in_size a' < in_size a"
        by blast
      let ?c = "count_read (length bs) (c1\<lparr>rbuf := rbuf c1 @ bs\<rparr>)"
      have "?c = c1\<lparr>c_state := c_state c1, rbuf := rbuf c1 @ bs, rsize := rsize c1, asked := asked c1, c_stats := c_stats ?c\<rparr>"
        by (simp add: count_read_def upd_tstats_def)
      then have u1: "upto_input c1 ?c" by (metis upto_inputI)
      have c: "upto_input c1 ?c" "c_state ?c = c_state c" "rbuf ?c = rbuf c @ bs" "0 < rsize ?c" "length (rbuf ?c) \<le> rsize ?c"
        using 2 b(3) u1 by (simp_all add: count_read_def upd_tstats_def)
      have u: "upto_input c ?c" using upto_input_trans [OF 2(2) c(1)] .
      show ?thesis
      proof (cases "length bs = rsize c1 - length (rbuf c1)")
        case False
        then have "net_loop ok n g c a = (READ_DATA_RECEIVED, ?c, a')" by (subst net_loop.simps) (simp add: net_round_def Let_def 2(1) b(1))
        then show ?thesis using b u c by (intro exI [of _ READ_DATA_RECEIVED] exI [of _ ?c] exI [of _ a'] exI [of _ bs]) simp
      next
        case True
        then have e: "net_loop ok n g c a = net_loop ok n' READ_DATA_RECEIVED ?c a'"
          using net_loop.simps [of ok n g c a] by (simp add: net_round_def Let_def 2(1) b(1))
        obtain r c' a'' bs' where i: "net_loop ok n' READ_DATA_RECEIVED ?c a' = (r, c', a'')" "upto_input ?c c'" "c_state c' = c_state ?c" "0 < rsize c'"
            "length (rbuf c') \<le> rsize c'" "staying a''" "rbuf c' = rbuf ?c @ bs'" "arrived a' = bs' @ arrived a''"
            "if bs' = [] then r = READ_DATA_RECEIVED else r = READ_DATA_RECEIVED" "in_size a'' \<le> in_size a'"
          using less.hyps [OF b(6) c(4,5) b(5), of n' READ_DATA_RECEIVED] by blast
        then show ?thesis using e b u c upto_input_trans [OF u i(2)]
          by (intro exI [of _ r] exI [of _ c'] exI [of _ a''] exI [of _ "bs @ bs'"]) simp
      qed
    qed
  qed
qed

section \<open>Until a line is there\<close>

text \<open>Rounds of the machine, over the events that wake it up again.\<close>

inductive driving :: "cenv \<Rightarrow> machine \<Rightarrow> machine \<Rightarrow> bool" for e where
  here: "driving e x x"
| round: "drive_step e stale free True x = Some (d, y) \<Longrightarrow> d = Goes_on \<or> d = Stops \<Longrightarrow> driving e y z \<Longrightarrow> driving e x z"

lemma read_step:
  assumes "\<forall>n. e_ok e n" "c_state c = conn_read" "\<not> is_udp c" "0 < rsize c" "length (rbuf c) \<le> rsize c" "staying (sk_in k)"
  shows "\<exists>c' k' bs. drive_step e stale free ev_ok (c, srv, k, n) = Some (Goes_on, c', srv, k', n) \<and> upto_input c c' \<and> 0 < rsize c' \<and>
    length (rbuf c') \<le> rsize c' \<and> staying (sk_in k') \<and> rbuf c' = rbuf c @ bs \<and> arrived (sk_in k) = bs @ arrived (sk_in k') \<and>
    c_state c' = (if bs = [] then conn_waiting else conn_parse_cmd) \<and> (sk_in k \<noteq> [] \<longrightarrow> in_size (sk_in k') < in_size (sk_in k))"
proof -
  obtain r c1 a bs where l: "net_loop (e_ok e) 0 READ_NO_DATA_RECEIVED c (sk_in k) = (r, c1, a)" "upto_input c c1" "0 < rsize c1" "length (rbuf c1) \<le> rsize c1"
      "staying a" "rbuf c1 = rbuf c @ bs" "arrived (sk_in k) = bs @ arrived a" "if bs = [] then r = READ_NO_DATA_RECEIVED else r = READ_DATA_RECEIVED"
      "sk_in k \<noteq> [] \<longrightarrow> in_size a < in_size (sk_in k)"
    using net_loop_ok [OF assms(1,4,5,6), of 0 READ_NO_DATA_RECEIVED] by auto
  let ?c = "conn_set_state (if bs = [] then conn_waiting else conn_parse_cmd) c1"
  have "drive_step e stale free ev_ok (c, srv, k, n) = Some (Goes_on, ?c, srv, k\<lparr>sk_in := a\<rparr>, n)"
    using l(1,8) assms(2,3) by (cases "bs = []") (simp_all add: drive_step_def drive_read_def try_read_network_def)
  moreover have "upto_input c ?c" using upto_input_trans [OF l(2) upto_state] .
  ultimately show ?thesis using l(3-7,9) by (intro exI [of _ ?c] exI [of _ "k\<lparr>sk_in := a\<rparr>"] exI [of _ bs]) (simp add: conn_set_state_def)
qed

lemma newline_at_none: "LF \<notin> set bs \<Longrightarrow> newline_at bs = None"
  by (induction bs) auto

lemma wait_step:
  assumes "c_state c = conn_parse_cmd" "LF \<notin> set (rbuf c)" "length (rbuf c) \<le> 1024"
  shows "drive_step e stale free ev_ok (c, srv, k, n) = Some (Goes_on, conn_set_state conn_waiting c, srv, k, n)"
  using assms newline_at_none [OF assms(2)] by (simp add: drive_step_def drive_parse_def try_read_command_ascii_def Let_def)

lemma prefix_no_lf:
  assumes "a @ b = l @ LF # m" "LF \<notin> set a"
  shows "length a \<le> length l" "b \<noteq> []"
proof -
  show "length a \<le> length l"
  proof (rule ccontr)
    assume "\<not> length a \<le> length l"
    then have "LF = a ! length l" using arg_cong [OF assms(1), of "\<lambda>x. x ! length l"] by (simp add: nth_append)
    then show False using assms(2) \<open>\<not> length a \<le> length l\<close> by (metis not_le nth_mem)
  qed
  then show "b \<noteq> []" using arg_cong [OF assms(1), of length] by auto
qed

lemma line_arrives:
  assumes ok: "\<forall>n. e_ok e n" and l: "length line \<le> 1024"
  shows "c_state c = conn_read \<Longrightarrow> \<not> is_udp c \<Longrightarrow> 0 < rsize c \<Longrightarrow> length (rbuf c) \<le> rsize c \<Longrightarrow> staying (sk_in k) \<Longrightarrow> LF \<notin> set (rbuf c) \<Longrightarrow>
    rbuf c @ arrived (sk_in k) = line @ LF # rest \<Longrightarrow>
    \<exists>c' k'. driving e (c, srv, k, n) (c', srv, k', n) \<and> c_state c' = conn_parse_cmd \<and> upto_input c c' \<and> LF \<in> set (rbuf c') \<and>
      rbuf c' @ arrived (sk_in k') = line @ LF # rest"
proof (induction "in_size (sk_in k)" arbitrary: c k rule: less_induct)
  case less
  have ne: "arrived (sk_in k) \<noteq> []" using prefix_no_lf(2) [OF less.prems(7,6)] .
  then have k0: "sk_in k \<noteq> []" by auto
  obtain c1 k1 bs where s: "drive_step e False True True (c, srv, k, n) = Some (Goes_on, c1, srv, k1, n)" "upto_input c c1" "0 < rsize c1"
      "length (rbuf c1) \<le> rsize c1" "staying (sk_in k1)" "rbuf c1 = rbuf c @ bs" "arrived (sk_in k) = bs @ arrived (sk_in k1)"
      "c_state c1 = (if bs = [] then conn_waiting else conn_parse_cmd)" "in_size (sk_in k1) < in_size (sk_in k)"
    using read_step [OF ok less.prems(1-5), of False True True srv n] k0 by blast
  have b1: "rbuf c1 @ arrived (sk_in k1) = line @ LF # rest" using less.prems(7) s(6,7) by simp
  show ?case
  proof (cases "LF \<in> set (rbuf c1)")
    case True
    then have "bs \<noteq> []" using s(6) less.prems(6) by auto
    then show ?thesis using True s b1 driving.round [OF s(1) _ driving.here] by (intro exI [of _ c1] exI [of _ k1]) simp
  next
    case False
    have len: "length (rbuf c1) \<le> 1024" using prefix_no_lf(1) [OF b1 False] l by simp
    let ?w = "conn_set_state conn_waiting c1"
    let ?c = "conn_set_state conn_read ?w"
    have st: "c_state ?w = conn_waiting" by (simp add: conn_set_state_def)
    have w: "drive_step e False True True (?w, srv, k1, n) = Some (Stops, ?c, srv, k1, n)"
      unfolding drive_step_def Let_def prod.case st by (simp add: drive_waiting_def)
    have u: "upto_input c ?c" using upto_input_trans [OF s(2) upto_input_trans [OF upto_state upto_state]] .
    have f: "c_state ?c = conn_read" "rsize ?c = rsize c1" "rbuf ?c = rbuf c1" by (simp_all add: conn_set_state_def)
    have t: "\<not> is_udp ?c" using upto_input_same [OF u] less.prems(2) by simp
    obtain c' k' where i: "driving e (?c, srv, k1, n) (c', srv, k', n)" "c_state c' = conn_parse_cmd" "upto_input ?c c'" "LF \<in> set (rbuf c')"
        "rbuf c' @ arrived (sk_in k') = line @ LF # rest"
      using less.hyps [OF s(9) f(1) t _ _ s(5)] s(3,4) f False b1 by auto
    have "driving e (?w, srv, k1, n) (c', srv, k', n)" using driving.round [OF w _ i(1)] by simp
    moreover have "driving e (c1, srv, k1, n) (c', srv, k', n)"
    proof (cases "bs = []")
      case True
      then show ?thesis using s(8) calculation by (simp add: conn_set_state_def)
    next
      case False
      then show ?thesis using driving.round [OF wait_step [OF _ \<open>LF \<notin> set (rbuf c1)\<close> len] _ calculation] s(8) by simp
    qed
    ultimately show ?thesis using driving.round [OF s(1)] i upto_input_trans [OF u i(3)] by (intro exI [of _ c'] exI [of _ k']) simp
  qed
qed

lemma lf_split:
  assumes "a @ b = l @ LF # m" "LF \<notin> set l" "LF \<in> set a"
  shows "\<exists>u. a = l @ LF # u \<and> u @ b = m"
proof -
  obtain u v where a: "a = u @ LF # v" "LF \<notin> set u" using split_list_first [OF assms(3)] by blast
  have "takeWhile (\<lambda>x. x \<noteq> LF) (u @ LF # v @ b) = u" "takeWhile (\<lambda>x. x \<noteq> LF) (l @ LF # m) = l"
    using a(2) assms(2) by (simp_all add: takeWhile_tail) (metis takeWhile_eq_all_conv append_Nil2)+
  then have "u = l" using assms(1) a(1) by simp
  then show ?thesis using assms(1) a(1) by simp
qed

text \<open>
  C19. A line in pieces. When the bytes that are in the buffer and that will arrive start with a line of less than 1024 bytes, then in whatever pieces they
  arrive and however often nothing is there yet, the machine comes to parse that line: the command is carried out with exactly its bytes, and the
  bytes behind it remain, in the buffer and on their way. Until then nothing but the input buffer has changed.
\<close>

theorem line_in_pieces:
  assumes ok: "\<forall>n. e_ok e n" and c: "c_state c = conn_waiting \<or> c_state c = conn_read" "\<not> is_udp c" "0 < rsize c" "length (rbuf c) \<le> rsize c"
    and k: "staying (sk_in k)" "LF \<notin> set (rbuf c)" "rbuf c @ arrived (sk_in k) = line @ [CR, LF] @ rest"
    and line: "LF \<notin> set line" "0 \<notin> set line" "line \<noteq> []" "length line < 1024"
  shows "\<exists>c' k'. driving e (c, srv, k, n) (c', srv, k', n) \<and> upto_input c c' \<and> c_state c' = conn_parse_cmd \<and>
    (\<forall>stale free ev_ok c1 srv1. process_command e stale free line (c', srv) = Some (Handled (c1, srv1)) \<longrightarrow>
      (\<exists>left. drive_step e stale free ev_ok (c', srv, k', n) = Some (Goes_on, c1\<lparr>rbuf := left\<rparr>, srv1, k', n) \<and> left @ arrived (sk_in k') = rest))"
proof -
  let ?c = "conn_set_state conn_read c"
  have f: "c_state ?c = conn_read" "\<not> is_udp ?c" "0 < rsize ?c" "length (rbuf ?c) \<le> rsize ?c" "LF \<notin> set (rbuf ?c)"
      "rbuf ?c @ arrived (sk_in k) = (line @ [CR]) @ LF # rest"
    using c k by (simp_all add: conn_set_state_def)
  obtain c' k' where a: "driving e (?c, srv, k, n) (c', srv, k', n)" "c_state c' = conn_parse_cmd" "upto_input ?c c'" "LF \<in> set (rbuf c')"
      "rbuf c' @ arrived (sk_in k') = (line @ [CR]) @ LF # rest"
    using line_arrives [OF ok _ f(1-4) k(1) f(5,6), of srv n] line(4) by auto
  have "driving e (c, srv, k, n) (c', srv, k', n)"
  proof (cases "c_state c = conn_read")
    case True
    then show ?thesis using a(1) by (simp add: conn_set_state_def)
  next
    case False
    then have w: "c_state c = conn_waiting" using c(1) by simp
    have "drive_step e False True True (c, srv, k, n) = Some (Stops, ?c, srv, k, n)" unfolding drive_step_def Let_def prod.case w by (simp add: drive_waiting_def)
    then show ?thesis using driving.round [OF _ _ a(1)] by simp
  qed
  moreover obtain left where b: "rbuf c' = line @ [CR, LF] @ left" "left @ arrived (sk_in k') = rest"
    using lf_split [OF a(5) _ a(4)] line(1) by auto
  ultimately show ?thesis using a(2) upto_input_trans [OF upto_state a(3)] parse_step [OF a(2) b(1) line(1,2,3)] b(2) by blast
qed

definition w_pieces :: sock where
  "w_pieces = \<lparr>sk_in = [Arrived (bytes ''ge''), Arrived [], Arrived (bytes ''t a'' @ [CR]), Arrived (LF # bytes ''get'')], sk_accepts = [], sk_out = []\<rparr>"

theorem line_in_pieces_witness:
  "\<exists>s c' k'. live tiny s [[97] \<mapsto> 4224] [97] = Some 4224 \<and>
     driving w_env (w_tcp\<lparr>c_state := conn_waiting, rbuf := []\<rparr>, w_srv s, w_pieces, 20) (c', w_srv s, k', 20) \<and> c_state c' = conn_parse_cmd \<and>
     (\<forall>c1 srv1. process_command w_env False True (bytes ''get a'') (c', w_srv s) = Some (Handled (c1, srv1)) \<longrightarrow>
       (\<exists>left. drive_step w_env False True True (c', w_srv s, k', 20) = Some (Goes_on, c1\<lparr>rbuf := left\<rparr>, srv1, k', 20) \<and>
         left @ arrived (sk_in k') = bytes ''get''))"
proof -
  let ?c = "w_tcp\<lparr>c_state := conn_waiting, rbuf := []\<rparr>"
  have e: "\<forall>n. e_ok w_env n" using w_env_ok by (simp add: env_ok_def)
  have c: "c_state ?c = conn_waiting \<or> c_state ?c = conn_read" "\<not> is_udp ?c" "0 < rsize ?c" "length (rbuf ?c) \<le> rsize ?c" "LF \<notin> set (rbuf ?c)"
    by (simp_all add: w_tcp_def w_conn_def)
  have k: "staying (sk_in w_pieces)" "rbuf ?c @ arrived (sk_in w_pieces) = bytes ''get a'' @ [CR, LF] @ bytes ''get''"
    by (simp_all add: w_pieces_def staying_def)
  have l: "LF \<notin> set (bytes ''get a'')" "0 \<notin> set (bytes ''get a'')" "bytes ''get a'' \<noteq> []" "length (bytes ''get a'') < 1024" by simp_all
  obtain s where s: "live tiny s [[97] \<mapsto> 4224] [97] = Some 4224" using w_linked by blast
  show ?thesis using s line_in_pieces [OF e c(1-4) k(1) c(5) k(2) l, of "w_srv s" 20] by blast
qed

section \<open>Requests in several datagrams\<close>

text \<open>
  C40. A request that says it comes in several datagrams is refused, and the refusal is lost: the line is assembled, but then the machine waits for the next
  request instead of sending, so that nothing is written.
\<close>

theorem multi_packet_unanswered:
  assumes ok: "\<forall>n. e_ok e n" and c: "c_state c = conn_read" "is_udp c" "\<not> noreply c" "100 \<le> wsize c"
    and d: "sk_in k = Arrived d # a" "8 < length d" "length d \<le> rsize c" "d ! 4 \<noteq> 0 \<or> d ! 5 \<noteq> 1"
  shows "\<exists>c1 c2 k'. drive_step e stale free ev_ok (c, srv, k, n) = Some (Goes_on, c1, srv, k', n) \<and>
    wbuf c1 = bytes ''SERVER_ERROR multi-packet request not supported'' @ [CR, LF] \<and> write_and_go c1 = conn_new_cmd \<and> c_state c1 = conn_waiting \<and>
    drive_step e stale free True (c1, srv, k', n) = Some (Stops, c2, srv, k', n) \<and> c_state c2 = conn_read \<and>
    sk_in k' = a \<and> sk_out k' = sk_out k"
proof -
  let ?c0 = "(count_read (length d) c)\<lparr>request_id := unat (d ! 0) * 256 + unat (d ! 1)\<rparr>"
  let ?str = "bytes ''SERVER_ERROR multi-packet request not supported''"
  have nr: "\<not> noreply ?c0" "49 \<le> wsize ?c0" using c by (simp_all add: count_read_def upd_tstats_def)
  let ?c1 = "out_string (e_ok e) ?str ?c0" let ?k = "k\<lparr>sk_in := a\<rparr>"
  have o: "wbuf ?c1 = ?str @ [CR, LF]" "write_and_go ?c1 = conn_new_cmd"
    using out_replied [of ?str ?c0 "e_ok e"] nr by (simp_all add: replied_def)
  have "take (rsize c) d = d" "d \<noteq> []" using d(2,3) by auto
  then have "try_read_udp (e_ok e) (c, k) = (READ_NO_DATA_RECEIVED, ?c1, ?k)" using d(1,2,4) by (auto simp: try_read_udp_def)
  then have s: "drive_step e stale free ev_ok (c, srv, k, n) = Some (Goes_on, conn_set_state conn_waiting ?c1, srv, ?k, n)"
    using c(1,2) by (simp add: drive_step_def drive_read_def)
  let ?w = "conn_set_state conn_waiting ?c1"
  have st: "c_state ?w = conn_waiting" by (simp add: conn_set_state_def)
  have "drive_step e stale free True (?w, srv, ?k, n) = Some (Stops, conn_set_state conn_read ?w, srv, ?k, n)"
    unfolding drive_step_def Let_def prod.case st by (simp add: drive_waiting_def)
  then show ?thesis using s st o
    by (intro exI [of _ ?w] exI [of _ "conn_set_state conn_read ?w"] exI [of _ ?k]) (simp add: conn_set_state_def)
qed

text \<open>A datagram that is the first of two.\<close>

definition w_two :: sock where
  "w_two = \<lparr>sk_in = [Arrived ([0, 7, 0, 0, 0, 2, 0, 0] @ bytes ''get a'')], sk_accepts = [Accepts 1400], sk_out = []\<rparr>"

theorem multi_packet_unanswered_witness:
  "\<exists>s c1 c2 k'. drive_step w_env False True True (w_conn\<lparr>c_state := conn_read\<rparr>, w_srv s, w_two, 20) = Some (Goes_on, c1, w_srv s, k', 20) \<and>
     wbuf c1 = bytes ''SERVER_ERROR multi-packet request not supported'' @ [CR, LF] \<and>
     drive_step w_env False True True (c1, w_srv s, k', 20) = Some (Stops, c2, w_srv s, k', 20) \<and> c_state c2 = conn_read \<and> sk_out k' = []"
proof -
  let ?c = "w_conn\<lparr>c_state := conn_read\<rparr>" and ?d = "[0, 7, 0, 0, 0, 2, 0, 0] @ bytes ''get a'' :: byte list"
  have e: "\<forall>n. e_ok w_env n" using w_env_ok by (simp add: env_ok_def)
  have c: "c_state ?c = conn_read" "is_udp ?c" "\<not> noreply ?c" "100 \<le> wsize ?c" by (simp_all add: w_conn_def)
  have d: "sk_in w_two = Arrived ?d # []" "8 < length ?d" "length ?d \<le> rsize ?c" "?d ! 4 \<noteq> 0 \<or> ?d ! 5 \<noteq> 1" by (simp_all add: w_two_def w_conn_def)
  have o: "sk_out w_two = []" by (simp add: w_two_def)
  show ?thesis using multi_packet_unanswered [OF e c d, of False True True _ 20] o by metis
qed

end
