(* ===== verification/Drive_Value.thy ===== *)
theory Drive_Value
  imports Drive_Read
begin

text \<open>The value of a storage command reaches its item complete, in whatever pieces it arrives: the machine's steps are those of an upload.\<close>

definition input_left :: "conn \<Rightarrow> sock \<Rightarrow> nat" where
  "input_left c k = in_size (sk_in k) + length (rbuf c)"

lemma copy_eq:
  assumes "0 \<le> rlbytes c"
  defines "q \<equiv> take (nat (rlbytes c)) (rbuf c)"
  shows "nread_copy (c, srv) = (c\<lparr>ritem := ritem c + length q, rlbytes := rlbytes c - int (length q), rbuf := drop (length q) (rbuf c)\<rparr>,
    srv\<lparr>srv_mc := m_upd (c_item c) (\<lambda>x. x\<lparr>it_data := poke (ritem c) q (it_data x)\<rparr>) (srv_mc srv)\<rparr>)"
proof -
  have n: "(if int (length (rbuf c)) > rlbytes c then nat (rlbytes c) else length (rbuf c)) = length q" using assms by auto
  have t: "take (length q) (rbuf c) = q" by (simp add: q_def min_def)
  show ?thesis unfolding nread_copy_def Let_def prod.case n t ..
qed

lemma copy_chunked: "nread_copy (c, srv) = (c', srv') \<Longrightarrow> c_item c' = c_item c \<and> c_state c' = c_state c \<and> c_transport c' = c_transport c \<and>
    has_flag (m_heap (srv_mc srv') (c_item c)) f = has_flag (m_heap (srv_mc srv) (c_item c)) f"
  by (auto simp: nread_copy_def Let_def upd_apply has_flag_def)

lemma bytes_chunked: "nread_bytes bs (c, srv) = (c', srv') \<Longrightarrow> c_item c' = c_item c \<and> c_state c' = c_state c \<and> c_transport c' = c_transport c \<and> rbuf c' = rbuf c \<and>
    rlbytes c' = rlbytes c - int (length bs) \<and> has_flag (m_heap (srv_mc srv') (c_item c)) f = has_flag (m_heap (srv_mc srv) (c_item c)) f"
  by (auto simp: nread_bytes_def Let_def upd_apply has_flag_def count_read_def upd_tstats_def)

text \<open>From the input buffer: it is used up, or the value is complete.\<close>

lemma copy_step:
  assumes up: "uploading e st cs R bs (c, srv) R'" and c: "0 < rlbytes c" "rbuf c @ a = p @ rest" "int (length p) = rlbytes c"
  shows "\<exists>c1 srv1 q p'. (if rbuf c \<noteq> [] then nread_copy (c, srv) else (c, srv)) = (c1, srv1) \<and> uploading e st cs R (bs @ q) (c1, srv1) R' \<and> p = q @ p' \<and>
    rbuf c1 @ a = p' @ rest \<and> int (length p') = rlbytes c1 \<and> c_item c1 = c_item c \<and> c_state c1 = c_state c \<and> c_transport c1 = c_transport c \<and> length (rbuf c1) \<le> length (rbuf c) \<and>
    (rbuf c \<noteq> [] \<longrightarrow> length (rbuf c1) < length (rbuf c)) \<and> (rlbytes c1 \<noteq> 0 \<longrightarrow> rbuf c1 = []) \<and>
    has_flag (m_heap (srv_mc srv1) (c_item c)) ITEM_CHUNKED = has_flag (m_heap (srv_mc srv) (c_item c)) ITEM_CHUNKED"
proof (cases "rbuf c = []")
  case True
  then show ?thesis using assms by (intro exI [of _ c] exI [of _ srv] exI [of _ "[]"] exI [of _ p]) simp
next
  case False
  let ?q = "take (nat (rlbytes c)) (rbuf c)"
  obtain c1 srv1 where 1: "nread_copy (c, srv) = (c1, srv1)" by fastforce
  have e: "rbuf c1 = drop (length ?q) (rbuf c)" "rlbytes c1 = rlbytes c - int (length ?q)" using 1 copy_eq [of c srv] c(1) by auto
  have n: "nat (rlbytes c) = length p" using c(3) by simp
  have "p = take (length p) (rbuf c @ a)" using c(2) by simp
  then have p: "p = ?q @ take (length p - length (rbuf c)) a" using n by simp
  have "drop (length p) (rbuf c @ a) = rest" using c(2) by simp
  then have r: "drop (length p) (rbuf c) @ drop (length p - length (rbuf c)) a = rest" by simp
  have b: "rbuf c1 @ a = take (length p - length (rbuf c)) a @ rest"
  proof (cases "length (rbuf c) \<le> length p")
    case True
    then have "rbuf c1 = []" "rest = drop (length p - length (rbuf c)) a" using e(1) n r by simp_all
    then show ?thesis by simp
  next
    case False
    then show ?thesis using r e(1) n by simp
  qed
  have "int (length p) = int (length ?q) + int (length (take (length p - length (rbuf c)) a))" using arg_cong [OF p, of length] by simp
  then have l: "int (length (take (length p - length (rbuf c)) a)) = rlbytes c1" using e(2) c(3) by simp
  have u: "uploading e st cs R (bs @ ?q) (c1, srv1) R'" using uploading.buffered [OF up] 1 by simp
  have "rlbytes c1 \<noteq> 0 \<longrightarrow> rbuf c1 = []" using e n c(3) by auto
  moreover have "length (rbuf c1) < length (rbuf c)" using e(1) False c(1) by auto
  ultimately show ?thesis using False 1 u p b l copy_chunked [OF 1]
    by (intro exI [of _ c1] exI [of _ srv1] exI [of _ ?q] exI [of _ "take (length p - length (rbuf c)) a"]) auto
qed

lemma nread_step:
  assumes up: "uploading e st cs R bs (c, srv) R'" and c: "c_state c = conn_nread" "0 < rlbytes c" "\<not> has_flag (m_heap (srv_mc srv) (c_item c)) ITEM_CHUNKED" "\<not> is_udp c"
    and k: "staying (sk_in k)" "rbuf c @ arrived (sk_in k) = p @ rest" "int (length p) = rlbytes c"
  shows "\<exists>d c' srv' k' q p'. drive_step e stale free True (c, srv, k, n) = Some (d, c', srv', k', n) \<and> (d = Goes_on \<or> d = Stops) \<and>
    uploading e st cs R (bs @ q) (c', srv') R' \<and> p = q @ p' \<and> rbuf c' @ arrived (sk_in k') = p' @ rest \<and> int (length p') = rlbytes c' \<and>
    c_state c' = conn_nread \<and> staying (sk_in k') \<and> \<not> has_flag (m_heap (srv_mc srv') (c_item c')) ITEM_CHUNKED \<and> \<not> is_udp c' \<and> input_left c' k' < input_left c k"
proof -
  obtain c1 srv1 q p1 where 1: "(if rbuf c \<noteq> [] then nread_copy (c, srv) else (c, srv)) = (c1, srv1)" "uploading e st cs R (bs @ q) (c1, srv1) R'" "p = q @ p1"
      "rbuf c1 @ arrived (sk_in k) = p1 @ rest" "int (length p1) = rlbytes c1" "c_item c1 = c_item c" "c_state c1 = c_state c" "length (rbuf c1) \<le> length (rbuf c)"
      "rbuf c \<noteq> [] \<longrightarrow> length (rbuf c1) < length (rbuf c)" "rlbytes c1 \<noteq> 0 \<longrightarrow> rbuf c1 = []"
      "has_flag (m_heap (srv_mc srv1) (c_item c)) ITEM_CHUNKED = has_flag (m_heap (srv_mc srv) (c_item c)) ITEM_CHUNKED" "c_transport c1 = c_transport c"
    using copy_step [OF up c(2) k(2,3)] by blast
  have nn: "rlbytes c \<noteq> 0" "\<not> rlbytes c < 0" using c(2) by simp_all
  have d: "drive_step e stale free True (c, srv, k, n) = Some (drive_nread_plain True (c, srv, k, n))"
    unfolding drive_step_def drive_nread_def Let_def prod.case c(1) using nn c(3) by simp
  note P = drive_nread_plain_def [of True "(c, srv, k, n)", unfolded Let_def prod.case 1(1)]
  show ?thesis
  proof (cases "rlbytes c1 = 0")
    case True
    then have "rbuf c \<noteq> []" using 1(1) c(2) by (auto split: if_splits)
    then have "input_left c1 k < input_left c k" using 1(9) by (simp add: input_left_def)
    moreover have "drive_nread_plain True (c, srv, k, n) = (Goes_on, c1, srv1, k, n)" using True by (simp add: P)
    ultimately show ?thesis using d 1 c k(1)
      by (intro exI [of _ Goes_on] exI [of _ c1] exI [of _ srv1] exI [of _ k] exI [of _ q] exI [of _ p1]) simp
  next
    case False
    then have a: "rbuf c1 = []" "0 < nat (rlbytes c1)" "arrived (sk_in k) = p1 @ rest" "p1 \<noteq> []" using 1(4,5,10) by auto
    then have ne: "sk_in k \<noteq> []" by auto
    show ?thesis using take_in_staying [OF k(1) a(2)]
    proof
      assume "\<exists>a'. take_in (nat (rlbytes c1)) (sk_in k) = (Again, a') \<and> arrived a' = arrived (sk_in k) \<and> staying a' \<and> in_size a' \<le> in_size (sk_in k) \<and>
        (sk_in k \<noteq> [] \<longrightarrow> in_size a' < in_size (sk_in k))"
      then obtain a' where t: "take_in (nat (rlbytes c1)) (sk_in k) = (Again, a')" "arrived a' = arrived (sk_in k)" "staying a'" "in_size a' < in_size (sk_in k)"
        using ne by blast
      have "drive_nread_plain True (c, srv, k, n) = (Stops, c1, srv1, k\<lparr>sk_in := a'\<rparr>, n)"
        using False t(1) using 1(12) c(4) by (simp add: P sock_read_def close_or_stop_def)
      then show ?thesis using d 1 c t a
        by (intro exI [of _ Stops] exI [of _ c1] exI [of _ srv1] exI [of _ "k\<lparr>sk_in := a'\<rparr>"] exI [of _ q] exI [of _ p1]) (simp add: input_left_def)
    next
      assume "\<exists>b a'. take_in (nat (rlbytes c1)) (sk_in k) = (Got b, a') \<and> b \<noteq> [] \<and> length b \<le> nat (rlbytes c1) \<and> arrived (sk_in k) = b @ arrived a' \<and>
        staying a' \<and> in_size a' < in_size (sk_in k)"
      then obtain b a' where t: "take_in (nat (rlbytes c1)) (sk_in k) = (Got b, a')" "length b \<le> nat (rlbytes c1)" "arrived (sk_in k) = b @ arrived a'"
          "staying a'" "in_size a' < in_size (sk_in k)"
        by blast
      obtain c2 srv2 where 2: "nread_bytes b (c1, srv1) = (c2, srv2)" by fastforce
      note f = bytes_chunked [OF 2, of ITEM_CHUNKED]
      have "drive_nread_plain True (c, srv, k, n) = (Goes_on, c2, srv2, k\<lparr>sk_in := a'\<rparr>, n)" using False t(1) 2 1(12) c(4) by (simp add: P sock_read_def)
      moreover have lb: "int (length b) \<le> rlbytes c1" using t(2) a(2) by simp
      moreover have u: "uploading e st cs R ((bs @ q) @ b) (c2, srv2) R'" using uploading.received [OF 1(2) lb] 2 by simp
      moreover have p1: "b @ arrived a' = p1 @ rest" "length b \<le> length p1" using t(3) a(3) lb 1(5) by auto
      then have "p1 = b @ drop (length b) p1" "arrived a' = drop (length b) p1 @ rest" by (auto simp: append_eq_append_conv2)
      ultimately show ?thesis using d 1 c t a f
        by (intro exI [of _ Goes_on] exI [of _ c2] exI [of _ srv2] exI [of _ "k\<lparr>sk_in := a'\<rparr>"] exI [of _ "q @ b"] exI [of _ "drop (length b) p1"])
          (auto simp: input_left_def)
    qed
  qed
qed

lemma value_arrives:
  assumes "uploading e st cs R bs (c, srv) R'" "c_state c = conn_nread" "0 \<le> rlbytes c" "\<not> has_flag (m_heap (srv_mc srv) (c_item c)) ITEM_CHUNKED"
    "\<not> is_udp c" and "staying (sk_in k)" "rbuf c @ arrived (sk_in k) = p @ rest" "int (length p) = rlbytes c"
  shows "\<exists>c' srv' k'. driving e (c, srv, k, n) (c', srv', k', n) \<and> uploading e st cs R (bs @ p) (c', srv') R' \<and> rlbytes c' = 0 \<and> c_state c' = conn_nread \<and>
    rbuf c' @ arrived (sk_in k') = rest"
  using assms
proof (induction "input_left c k" arbitrary: bs c srv k p rule: less_induct)
  case less
  show ?case
  proof (cases "rlbytes c = 0")
    case True
    then show ?thesis using less.prems by (intro exI [of _ c] exI [of _ srv] exI [of _ k]) (simp add: driving.here)
  next
    case False
    then have pos: "0 < rlbytes c" using less.prems(3) by simp
    obtain d c' srv' k' q p' where s: "drive_step e False True True (c, srv, k, n) = Some (d, c', srv', k', n)" "d = Goes_on \<or> d = Stops"
        "uploading e st cs R (bs @ q) (c', srv') R'" "p = q @ p'" "rbuf c' @ arrived (sk_in k') = p' @ rest" "int (length p') = rlbytes c'"
        "c_state c' = conn_nread" "staying (sk_in k')" "\<not> has_flag (m_heap (srv_mc srv') (c_item c')) ITEM_CHUNKED" "\<not> is_udp c'" "input_left c' k' < input_left c k"
      using nread_step [OF less.prems(1,2) pos less.prems(4-8), of False True n] by blast
    have "0 \<le> rlbytes c'" using s(6) by (metis of_nat_0_le_iff)
    then obtain c2 srv2 k2 where i: "driving e (c', srv', k', n) (c2, srv2, k2, n)" "uploading e st cs R ((bs @ q) @ p') (c2, srv2) R'" "rlbytes c2 = 0"
        "c_state c2 = conn_nread" "rbuf c2 @ arrived (sk_in k2) = rest"
      using less.hyps [OF s(11,3,7) _ s(9,10,8,5,6)] by blast
    then show ?thesis using driving.round [OF s(1,2) i(1)] s(4) by (intro exI [of _ c2] exI [of _ srv2] exI [of _ k2]) simp
  qed
qed

text \<open>
  C20. A value in pieces. A TCP connection that reads the value of a storage command into an item that fits one chunk takes exactly the announced number of bytes, in
  whatever pieces they are in the buffer and on their way; its steps are those of an upload, what is behind the value stays, and the next step completes the
  command. (Of a datagram, \<open>read\<close> loses what it does not take; there the value has to be in the datagram of the command.)
\<close>

theorem value_in_pieces:
  assumes "c_state c = conn_nread" "0 \<le> rlbytes c" "\<not> has_flag (m_heap (srv_mc srv) (c_item c)) ITEM_CHUNKED" "\<not> is_udp c"
    and "staying (sk_in k)" "rbuf c @ arrived (sk_in k) = v @ rest" "int (length v) = rlbytes c"
  shows "\<exists>c' srv' k'. driving e (c, srv, k, n) (c', srv', k', n) \<and> uploading e st (c, srv) R v (c', srv') R \<and> rlbytes c' = 0 \<and>
    rbuf c' @ arrived (sk_in k') = rest \<and>
    (\<forall>stale free ev_ok c3 srv3. complete_nread_ascii e (c', srv') = Some (c3, srv3) \<longrightarrow>
      drive_step e stale free ev_ok (c', srv', k', n) = Some (Goes_on, c3, srv3, k', n))"
proof -
  obtain c' srv' k' where a: "driving e (c, srv, k, n) (c', srv', k', n)" "uploading e st (c, srv) R ([] @ v) (c', srv') R" "rlbytes c' = 0"
      "c_state c' = conn_nread" "rbuf c' @ arrived (sk_in k') = rest"
    using value_arrives [OF uploading.nothing assms] by blast
  have "drive_step e stale free ev_ok (c', srv', k', n) = Some (Goes_on, c3, srv3, k', n)" if "complete_nread_ascii e (c', srv') = Some (c3, srv3)" for stale free ev_ok c3 srv3
    unfolding drive_step_def drive_nread_def Let_def prod.case a(4) using a(3) that by simp
  then show ?thesis using a by (intro exI [of _ c'] exI [of _ srv'] exI [of _ k']) simp
qed

definition w_tail :: sock where
  "w_tail = \<lparr>sk_in = [Arrived [], Arrived (LF # bytes ''get'')], sk_accepts = [], sk_out = []\<rparr>"

theorem value_in_pieces_witness:
  "\<exists>c1 srv1 c' srv' k'. process_command w_env False True w_set (w_conn\<lparr>c_transport := tcp_transport\<rparr>, w_srv w_start) = Some (Handled (c1, srv1)) \<and>
     driving w_env (c1\<lparr>rbuf := bytes ''5'' @ [CR]\<rparr>, srv1, w_tail, 20) (c', srv', k', 20) \<and>
     uploading w_env tiny (c1\<lparr>rbuf := bytes ''5'' @ [CR]\<rparr>, srv1) w_refs (bytes ''5'' @ [CR, LF]) (c', srv') w_refs \<and> rlbytes c' = 0 \<and>
     rbuf c' @ arrived (sk_in k') = bytes ''get''"
proof -
  let ?t = "w_conn\<lparr>c_transport := tcp_transport\<rparr>"
  obtain c1 srv1 where 1: "process_command w_env False True w_set (w_conn\<lparr>c_transport := tcp_transport\<rparr>, w_srv w_start) = Some (Handled (c1, srv1))" "c_state c1 = conn_nread" "c_item c1 = 4224"
      "c_transport c1 = tcp_transport"
    using w_accepted_on [of tcp_transport] by blast
  have w: "\<not> noreply ?t" "\<not> mset_res ?t" "41 \<le> wsize ?t" by (simp_all add: w_conn_def)
  have "update_begun w_env tiny [97] 0 1 False NREAD_SET c1 (srv_mc srv1) (\<lambda>_. 0) Map.empty"
    using set_begins [OF w_env_ok w_serving_start w w_set_words w_plain, of False True] 1(1,2) by (auto simp: update_refused_def)
  then obtain i M where i: "nbytes i = 3" "filling w_env tiny i [] c1 (srv_mc srv1) (add_ref 4224 (\<lambda>_. 0))" "good tiny w_hash (srv_mc srv1) (add_ref 4224 (\<lambda>_. 0)) M"
    using 1(3) by (auto simp: update_begun_def w_env_def)
  have nc: "\<not> has_flag (m_heap (srv_mc srv1) 4224) ITEM_CHUNKED" using item_plain(1) [of tiny w_hash "srv_mc srv1" M "add_ref 4224 (\<lambda>_. 0)" 4224] i(3) by (simp add: good_def add_ref_def)
  let ?c = "c1\<lparr>rbuf := bytes ''5'' @ [CR]\<rparr>"
  have c: "c_state ?c = conn_nread" "0 \<le> rlbytes ?c" "\<not> has_flag (m_heap (srv_mc srv1) (c_item ?c)) ITEM_CHUNKED" "\<not> is_udp ?c" "int (length (bytes ''5'' @ [CR, LF])) = rlbytes ?c"
    using 1(2,3,4) nc i(1,2) by (simp_all add: filling_def)
  have k: "staying (sk_in w_tail)" "rbuf ?c @ arrived (sk_in w_tail) = (bytes ''5'' @ [CR, LF]) @ bytes ''get''" by (simp_all add: w_tail_def staying_def)
  show ?thesis using 1(1) value_in_pieces [OF c(1-4) k c(5), of w_env 20 tiny w_refs] by blast
qed

end
