(* ===== verification/Text_Admin.thy ===== *)
theory Text_Admin
  imports Text_Commands
begin

unbundle bit_operations_syntax

text \<open>
  The commands of the text protocol that change settings (\<open>memcached.c\<close>): verbosity, slabs automove, cache_memlimit, lru, lru_crawler, watch, version and
  shutdown. Floating-point numbers are of any type \<open>'d\<close>: \<open>strtod\<close> of the C library (value, \<open>ERANGE\<close>, what is behind the number; \<open>None\<close> without a number)
  and the comparison with zero are arguments, as are the version text and the answers of the crawler thread and of the logger.
\<close>

record 'd admin =
  shutdown_command :: bool
  verbose :: nat
  automove_ratio :: 'd
  hot_max_factor :: 'd
  warm_max_factor :: 'd
  lru_maintainer_thread :: bool
  lru_crawler :: bool
  dump_enabled :: bool
  lru_crawler_tocrawl :: u32
  lru_crawler_sleep :: u32

datatype crawler_result_type = CRAWLER_OK | CRAWLER_RUNNING | CRAWLER_BADCLASS | CRAWLER_NOTSTARTED | CRAWLER_ERROR

datatype logger_add_watcher_ret = LOGGER_ADD_WATCHER_TOO_MANY | LOGGER_ADD_WATCHER_OK | LOGGER_ADD_WATCHER_FAILED

record 'd outside =
  o_strtod :: "byte list \<Rightarrow> ('d \<times> bool \<times> byte list) option"
  o_positive :: "'d \<Rightarrow> bool"
  o_version :: "byte list"
  o_crawl :: "byte list \<Rightarrow> bool \<Rightarrow> crawler_result_type"
  o_start_crawler :: bool
  o_stop_crawler :: bool
  o_watch :: "16 word \<Rightarrow> logger_add_watcher_ret"

definition safe_strtod :: "'d outside \<Rightarrow> byte list \<Rightarrow> 'd option" where
  "safe_strtod wo str =
     (case o_strtod wo str of
        None \<Rightarrow> None
      | Some (d, erange, r) \<Rightarrow> if erange then None else if end_ok r then Some d else None)"

text \<open>\<open>strtoul(str, NULL, 10)\<close>, stored in an \<open>unsigned int\<close>.\<close>

definition strtoul10 :: "byte list \<Rightarrow> u32" where
  "strtoul10 str = (case scan_number 10 str of None \<Rightarrow> 0 | Some (neg, v, r) \<Rightarrow> ucast (fst (strtoull_val neg v)))"

type_synonym 'd admin_state = "conn \<times> server \<times> 'd admin"

section \<open>The commands\<close>

definition process_verbosity_command :: "cenv \<Rightarrow> token_t list \<Rightarrow> 'd admin_state \<Rightarrow> 'd admin_state" where
  "process_verbosity_command e tks csa =
     (let (c, srv, a) = csa; c = snd (set_noreply_maybe tks c); level = strtoul10 (token tks 1)
      in (out_string (e_ok e) (bytes ''OK'') c, srv, a\<lparr>verbose := (if level > 2 then 2 else unat level)\<rparr>))"

definition process_slabs_automove_command :: "cenv \<Rightarrow> 'd outside \<Rightarrow> token_t list \<Rightarrow> 'd admin_state \<Rightarrow> 'd admin_state" where
  "process_slabs_automove_command e wo tks csa =
     (let (c, srv, a) = csa; c = snd (set_noreply_maybe tks c); out = (\<lambda>str. out_string (e_ok e) (bytes str) c) in
      if token_is tks 2 ''ratio'' then
        (case (if length tks < 5 then None else safe_strtod wo (token tks 3)) of
           None \<Rightarrow> (out ''ERROR'', srv, a)
         | Some ratio \<Rightarrow> (out ''OK'', srv, a\<lparr>automove_ratio := ratio\<rparr>))
      else
        let level = strtoul10 (token tks 2) in
        if level = 0 then (out ''OK'', srv\<lparr>srv_settings := (srv_settings srv)\<lparr>slab_automove_mode := 0\<rparr>\<rparr>, a)
        else if level = 1 \<or> level = 2 then (out ''OK'', srv\<lparr>srv_settings := (srv_settings srv)\<lparr>slab_automove_mode := unat level\<rparr>\<rparr>, a)
        else (out ''ERROR'', srv, a))"

text \<open>The flags of the log entries a watcher wants: bits 9, 6, 2, 3 and 1; \<open>None\<close> for an unknown word.\<close>

definition watch_flag :: "byte list \<Rightarrow> (16 word) option" where
  "watch_flag w =
     (if w = bytes ''rawcmds'' then Some 512 else if w = bytes ''evictions'' then Some 64 else if w = bytes ''fetchers'' then Some 4
      else if w = bytes ''mutations'' then Some 8 else if w = bytes ''sysevents'' then Some 2 else None)"

fun watch_flags :: "byte list list \<Rightarrow> 16 word \<Rightarrow> (16 word) option" where
  "watch_flags [] f = Some f"
| "watch_flags (w # ws) f = (case watch_flag w of None \<Rightarrow> None | Some g \<Rightarrow> watch_flags ws (f OR g))"

definition process_watch_command :: "cenv \<Rightarrow> 'd outside \<Rightarrow> token_t list \<Rightarrow> 'd admin_state \<Rightarrow> 'd admin_state" where
  "process_watch_command e wo tks csa =
     (let (c, srv, a) = csa; c = snd (set_noreply_maybe tks c); out = (\<lambda>str. out_string (e_ok e) (bytes str) c);
          f = (if length tks > 2 then watch_flags (map (\<lambda>t. the (tok_value t)) (take (length tks - 2) (drop 1 tks))) 0 else Some 4)
      in (case f of
            None \<Rightarrow> out ''ERROR''
          | Some f \<Rightarrow>
              (case o_watch wo f of
                 LOGGER_ADD_WATCHER_TOO_MANY \<Rightarrow> out ''WATCHER_TOO_MANY log watcher limit reached''
               | LOGGER_ADD_WATCHER_FAILED \<Rightarrow> out ''WATCHER_FAILED failed to add log watcher''
               | LOGGER_ADD_WATCHER_OK \<Rightarrow> conn_set_state conn_watch c), srv, a))"

definition process_memlimit_command :: "cenv \<Rightarrow> token_t list \<Rightarrow> 'd admin_state \<Rightarrow> 'd admin_state" where
  "process_memlimit_command e tks csa =
     (let (c, srv, a) = csa; c = snd (set_noreply_maybe tks c); out = (\<lambda>str. out_string (e_ok e) (bytes str) c); s = srv_mc srv in
      case safe_strtoul (token tks 1) of
        None \<Rightarrow> (out ''ERROR'', srv, a)
      | Some memlimit \<Rightarrow>
          if memlimit < 8 then (out ''MEMLIMIT_TOO_SMALL cannot set maxbytes to less than 8m'', srv, a)
          else if memlimit > 1000000000 then (out ''MEMLIMIT_ADJUST_FAILED input value is megabytes not bytes'', srv, a)
          else
            let (r, sl) = do_slabs_adjust_mem_limit (srv_settings srv) (unat memlimit * 1024 * 1024) (m_slabs s);
                srv = srv\<lparr>srv_mc := s\<lparr>m_slabs := sl\<rparr>\<rparr>
            in if r then (out ''OK'', srv, a) else (out ''MEMLIMIT_ADJUST_FAILED out of bounds or unable to adjust'', srv, a))"

definition lru_tune :: "'d outside \<Rightarrow> token_t list \<Rightarrow> server \<times> 'd admin \<Rightarrow> string \<times> server \<times> 'd admin" where
  "lru_tune wo tks sa =
     (let (srv, a) = sa in
      case (safe_strtoul (token tks 2), safe_strtoul (token tks 3), safe_strtod wo (token tks 4), safe_strtod wo (token tks 5)) of
        (Some pct_hot, Some pct_warm, Some hot_factor, Some factor) \<Rightarrow>
          if pct_hot + pct_warm > 80 then (''ERROR hot and warm pcts must not exceed 80'', srv, a)
          else if \<not> o_positive wo factor \<or> \<not> o_positive wo hot_factor then (''ERROR hot/warm age factors must be greater than 0'', srv, a)
          else (''OK'', srv\<lparr>srv_settings := (srv_settings srv)\<lparr>hot_lru_pct := unat pct_hot, warm_lru_pct := unat pct_warm\<rparr>\<rparr>,
                a\<lparr>hot_max_factor := hot_factor, warm_max_factor := factor\<rparr>)
      | _ \<Rightarrow> (''ERROR'', srv, a))"

definition process_lru_command :: "cenv \<Rightarrow> 'd outside \<Rightarrow> token_t list \<Rightarrow> 'd admin_state \<Rightarrow> 'd admin_state" where
  "process_lru_command e wo tks csa =
     (let (c, srv, a) = csa; c = snd (set_noreply_maybe tks c); n = length tks; st = srv_settings srv;
          (str, srv, a) =
            (if token_is tks 1 ''tune'' \<and> n \<ge> 7 then lru_tune wo tks (srv, a)
             else if token_is tks 1 ''mode'' \<and> n \<ge> 4 \<and> lru_maintainer_thread a then
               if token_is tks 2 ''flat'' then (''OK'', srv\<lparr>srv_settings := st\<lparr>lru_segmented := False\<rparr>\<rparr>, a)
               else if token_is tks 2 ''segmented'' then (''OK'', srv\<lparr>srv_settings := st\<lparr>lru_segmented := True\<rparr>\<rparr>, a)
               else (''ERROR'', srv, a)
             else if token_is tks 1 ''temp_ttl'' \<and> n \<ge> 4 \<and> lru_maintainer_thread a then
               (case safe_strtol (token tks 2) of
                  None \<Rightarrow> (''ERROR'', srv, a)
                | Some ttl \<Rightarrow>
                    if sint ttl < 0 then (''OK'', srv\<lparr>srv_settings := st\<lparr>temp_lru := False\<rparr>\<rparr>, a)
                    else (''OK'', srv\<lparr>srv_settings := st\<lparr>temp_lru := True, temporary_ttl := ttl\<rparr>\<rparr>, a))
             else (''ERROR'', srv, a))
      in (out_string (e_ok e) (bytes str) c, srv, a))"

text \<open>The crawler: \<open>o_crawl\<close> answers for a list of classes and for a dump (\<open>True\<close>) or a search for expired items.\<close>

definition crawl_text :: "crawler_result_type \<Rightarrow> string" where
  "crawl_text r =
     (case r of
        CRAWLER_OK \<Rightarrow> ''OK'' | CRAWLER_RUNNING \<Rightarrow> ''BUSY currently processing crawler request'' | CRAWLER_BADCLASS \<Rightarrow> ''BADCLASS invalid class id''
      | CRAWLER_NOTSTARTED \<Rightarrow> ''NOTSTARTED no items to crawl'' | CRAWLER_ERROR \<Rightarrow> ''ERROR an unknown error happened'')"

definition process_crawler :: "cenv \<Rightarrow> 'd outside \<Rightarrow> crawler_command \<Rightarrow> token_t list \<Rightarrow> 'd admin_state \<Rightarrow> 'd admin_state" where
  "process_crawler e wo cmnd tks csa =
     (let (c, srv, a) = csa; out = (\<lambda>str. out_string (e_ok e) (bytes str) c) in
      case cmnd of
        Crawl \<Rightarrow>
          (if \<not> lru_crawler a then out ''CLIENT_ERROR lru crawler disabled'' else out (crawl_text (o_crawl wo (token tks 2) False)), srv, a)
      | Metadump \<Rightarrow>
          (if \<not> lru_crawler a then out ''CLIENT_ERROR lru crawler disabled''
           else if \<not> dump_enabled a then out ''ERROR metadump not allowed''
           else let r = o_crawl wo (token tks 2) True; c = out (crawl_text r) in if r = CRAWLER_OK then conn_set_state conn_watch c else c, srv, a)
      | Tocrawl \<Rightarrow>
          (case safe_strtoul (token tks 2) of
             None \<Rightarrow> (out ''CLIENT_ERROR bad command line format'', srv, a)
           | Some tocrawl \<Rightarrow> (out ''OK'', srv, a\<lparr>lru_crawler_tocrawl := tocrawl\<rparr>))
      | Crawler_sleep \<Rightarrow>
          (case safe_strtoul (token tks 2) of
             None \<Rightarrow> (out ''CLIENT_ERROR bad command line format'', srv, a)
           | Some tosleep \<Rightarrow>
               if tosleep > 1000000 then (out ''CLIENT_ERROR sleep must be one second or less'', srv, a)
               else (out ''OK'', srv, a\<lparr>lru_crawler_sleep := tosleep\<rparr>))
      | Crawler_enable \<Rightarrow> (if o_start_crawler wo then out ''OK'' else out ''ERROR failed to start lru crawler thread'', srv, a)
      | Crawler_disable \<Rightarrow> (if o_stop_crawler wo then out ''OK'' else out ''ERROR failed to stop lru crawler thread'', srv, a)
      | Crawler_error \<Rightarrow> (out ''ERROR'', srv, a))"

text \<open>What \<open>process_command\<close> does with the commands that change settings; \<open>None\<close> for those that are not modelled.\<close>

definition process_admin :: "cenv \<Rightarrow> 'd outside \<Rightarrow> command \<Rightarrow> token_t list \<Rightarrow> 'd admin_state \<Rightarrow> 'd admin_state option" where
  "process_admin e wo cmnd tks csa =
     (let (c, srv, a) = csa in
      case cmnd of
        Cmd_version \<Rightarrow> Some (out_string (e_ok e) (bytes ''VERSION '' @ o_version wo) c, srv, a)
      | Cmd_shutdown \<Rightarrow>
          Some (if shutdown_command a then conn_set_state conn_closing c else out_string (e_ok e) (bytes ''ERROR: shutdown not enabled'') c, srv, a)
      | Cmd_slabs Slabs_automove \<Rightarrow> Some (process_slabs_automove_command e wo tks csa)
      | Cmd_crawler cmnd \<Rightarrow> Some (process_crawler e wo cmnd tks csa)
      | Cmd_watch \<Rightarrow> Some (process_watch_command e wo tks csa)
      | Cmd_memlimit \<Rightarrow> Some (process_memlimit_command e tks csa)
      | Cmd_verbosity \<Rightarrow> Some (process_verbosity_command e tks csa)
      | Cmd_lru \<Rightarrow> Some (process_lru_command e wo tks csa)
      | _ \<Rightarrow> None)"

section \<open>Settings stay within their bounds\<close>

text \<open>
  The bounds that the commands check: verbosity, the mode of the page mover, the pause of the crawler. The percentages of the LRU queues are
  within 80 only when their sum does not exceed 32 bits.
\<close>

definition admin_ok :: "server \<Rightarrow> 'd admin \<Rightarrow> bool" where
  "admin_ok srv a \<longleftrightarrow> verbose a \<le> 2 \<and> slab_automove_mode (srv_settings srv) \<le> 2 \<and> lru_crawler_sleep a \<le> 1000000"

lemma admin_ok_kept:
  assumes "admin_ok srv a" "process_admin e wo cmnd tks (c, srv, a) = Some (c', srv', a')"
  shows "admin_ok srv' a'"
proof -
  have l: "unat l \<le> 2" if "\<not> l > 2" for l :: u32 using that by (simp add: word_less_nat_alt word_le_nat_alt not_less)
  show ?thesis
    using assms l
    by (auto simp: process_admin_def process_verbosity_command_def process_slabs_automove_command_def process_watch_command_def process_memlimit_command_def
        process_lru_command_def lru_tune_def process_crawler_def admin_ok_def Let_def
        split: command.splits slabs_command.splits crawler_command.splits option.splits if_splits prod.splits)
qed

text \<open>The sum of the percentages is computed in 32 bits: 4294967295 and 1 pass the check.\<close>

lemma lru_tune_wraps:
  assumes "safe_strtoul (token tks 2) = Some (- 1)" "safe_strtoul (token tks 3) = Some 1"
    "safe_strtod wo (token tks 4) = Some x" "safe_strtod wo (token tks 5) = Some y" "o_positive wo x" "o_positive wo y"
  shows "\<exists>srv' a'. lru_tune wo tks (srv, a) = (''OK'', srv', a') \<and> hot_lru_pct (srv_settings srv') = 4294967295"
  using assms by (simp add: lru_tune_def unsigned_minus_1_eq_mask mask_eq_exp_minus_1)

end
