(* ===== verification/Spec2Isabelle.thy ===== *)
theory Spec2Isabelle
  imports Bmc_Samples Bmc_Checksum Bmc_User Bipbuffer Util Hashes Assoc Cache_Pool Slab_Automove_Ext Cache_Props Prefix_Stats Text_Udp Drive_Value Text_Admin
begin

text \<open>
  BMC, an in-kernel cache for memcached, and the memcached it accelerates (\<open>src/bmc-cache_NC\<close>).

  \<^bold>\<open>The program.\<close> A client asks memcached over UDP (\<open>get\<close>) and writes over TCP (\<open>set\<close>). BMC (\<open>bmc/bmc_kern.c\<close>) is a chain of eBPF programs
  on the path of every packet. On reception it answers a GET from an array of cached replies when it can, invalidates the entry of a key when it
  sees a set, and otherwise passes the packet on; on transmission it stores the replies of memcached. Behind it memcached (\<open>memcached-sr\<close>) reads command
  lines, looks keys up in a chained hash table whose items lie in slabs and hang in LRU queues, and writes its reply as a list of pieces that is
  cut into datagrams on UDP. Maintenance threads grow the hash table, shuffle the LRU queues and ask for slab pages to be moved.

  \<^bold>\<open>The theories\<close>, in the order of the calls, with the sources they model.

  \<^item> \<open>Prelude\<close>: integer types (\<open>byte\<close>, \<open>u32\<close>, \<open>u64\<close>), memories as functions from addresses to bytes, facts on bounded scans.
  \<^item> \<open>Bmc_Common\<close>, \<open>Bmc_Xdp\<close>, \<open>Bmc_Tc\<close> (\<open>bmc_common.h\<close>, \<open>bmc_kern.c\<close>): the maps of BMC as one record, one function for each program, its
    loops with their bounds, tail calls by a runner that counts them as the kernel does. The kernel's helpers (\<open>bpf_ops\<close>) are an argument.
    \<open>Bmc_Loops\<close>, \<open>Bmc_Get\<close>, \<open>Bmc_Serve\<close>, \<open>Bmc_Run\<close>, \<open>Bmc_Invalidate\<close>, \<open>Bmc_Update\<close>, \<open>Bmc_Frame\<close>, \<open>Bmc_Checksum\<close> show what loops, programs and
    whole runs do; \<open>Cache_Spec\<close> is the contract of a look-aside cache whose server also changes values unseen (delete, incr, expiry, sets over UDP),
    and \<open>Bmc_Coherence\<close> interprets it on BMC's own programs: an answer is a value the server has had since the last set over TCP, and a value the server
    dropped unseen is still served (\<open>expired_still_served\<close>).
    \<open>Bmc_Samples\<close> has concrete packets. \<open>Bmc_User\<close> (\<open>bmc_user.c\<close>): options, counters, report, and the loop that waits for
    signals and sets the alarm for the next one.
  \<^item> \<open>Bipbuffer\<close>, \<open>Itoa\<close>, \<open>Util\<close>, \<open>Hashes\<close>, \<open>Cache_Pool\<close> (\<open>bipbuffer.c\<close>, \<open>itoa_ljust.c\<close>, \<open>util.c\<close>, \<open>jenkins_hash.c\<close>, \<open>murmur3_hash.c\<close>, \<open>hash.c\<close>,
    \<open>cache.c\<close>): the routines below the cache. \<open>Fifo_Spec\<close> is the contract of the bip buffer, whose reader looks at a run of bytes (\<open>bipbuf_peek_all\<close>)
    and takes any part of it.
  \<^item> \<open>Item\<close> (\<open>memcached.h\<close>): items as records in a heap of addresses. \<open>Assoc\<close> (\<open>assoc.c\<close>): the hash table with its incremental expansion,
    an instance of the dictionary of \<open>Dict_Spec\<close>. \<open>Slabs\<close>, \<open>Slabs_Inv\<close>, \<open>Slab_Reassign\<close> (\<open>slabs.c\<close>): size classes, pages, free lists, requests to move
    a page, an instance of \<open>Alloc_Spec\<close>. \<open>Slab_Automove\<close>, \<open>Slab_Automove_Ext\<close>: the decisions of the two page movers.
  \<^item> \<open>Lru_Spec\<close>, \<open>Lru_Queue\<close>, \<open>Items\<close>, \<open>Items_Alloc\<close>, \<open>Items_Lru\<close> (\<open>items.c\<close>): the state \<open>mc\<close> of the cache (heap, hash table, slabs, queues, counters,
    time) and the operations on it: allocation with eviction, linking, reference counts, lookups with lazy expiry, bumps, the maintainer's work.
    \<open>Items_Inv\<close>, \<open>Items_Ops\<close>, \<open>Items_Bump\<close>, \<open>Items_Get\<close>, \<open>Items_New\<close> show that they keep the invariant \<open>cache_inv\<close>, and return;
    an allocation may evict keys, never those of items the worker has locked (\<open>evicts\<close>, \<open>locked\<close>).
  \<^item> \<open>Store\<close> (\<open>memcached.c\<close>, \<open>thread.c\<close>): \<open>do_store_item\<close>, \<open>do_add_delta\<close>, \<open>limited_get\<close> and the wrappers that take the item lock;
    \<open>Store_Ok\<close>, \<open>Store_Delta\<close> show their effect on the map of keys to items. \<open>Cache_History\<close> has all sequences of operations of the workers and of the
    maintenance threads as an inductive relation, \<open>Cache_Props\<close> what holds after all of them.
  \<^item> \<open>Prefix_Stats\<close> (\<open>stats.c\<close>): the counters for each prefix of a key, and the text that reports them, with totals of 32 bits.
  \<^item> \<open>Conn\<close> (\<open>memcached.c\<close>): a connection, the messages of its reply, their cutting into datagrams. \<open>Tokenize\<close>: the words of a command line.
    \<open>Text_Get\<close>: get, gets, gat, gats. \<open>Text_Commands\<close>: the storage commands with the reading of their values, touch, incr, decr,
    delete, flush_all, the dispatcher \<open>process_command\<close> and the line scanner. \<open>Text_Admin\<close>: the commands that change settings.
    \<open>Text_Get_Ok\<close>, \<open>Text_Store_Ok\<close>, \<open>Text_Udp\<close> show the replies, \<open>Text_Props\<close> has the promises of the protocol.
  \<^item> \<open>Drive\<close> (\<open>memcached.c\<close>): the state machine of a connection (\<open>drive_machine\<close>) with reading, swallowing, sending in portions and closing. What
    the socket delivers and accepts is an argument; a read from a UDP socket loses the rest of its datagram. \<open>Drive_Ok\<close> shows that a reply is sent whole and in order, \<open>Drive_Read\<close> that a line and
    \<open>Drive_Value\<close> that a value arrive whole, in whatever pieces they come.

  \<^bold>\<open>How the parts meet.\<close> The abstract contracts are the locales of \<open>Cache_Spec\<close>, \<open>Fifo_Spec\<close>, \<open>Dict_Spec\<close>, \<open>Alloc_Spec\<close> and \<open>Lru_Spec\<close>. Each is interpreted
  on the code's model by the component that provides it, and the client's theorems about histories come from it. The invariant of the cache ties the
  components together: there is one map of keys to items that the hash table represents, whose items are exactly those in the LRU queues, each in
  a chunk of its own with a reference count that is the number of its holders. The text protocol is proved above that invariant, with steps of
  other threads allowed wherever the code gives up the thread. The theorem of this theory joins both programs: the bytes that memcached's
  get command sends are the bytes that BMC serves later.

  \<^bold>\<open>Bounds and assumptions.\<close>
  \<^item> C arithmetic keeps its width where it can overflow: hashes, CAS numbers, counters, times and reference counts are words.
    Reference counts have 16 bits; theorems on lookups and stores assume fewer than about 60000 references to an item, far below the
    overflow, and \<open>cache_run\<close> keeps that bound as an assumption on the number of clients.
  \<^item> The kernel allows a limited number of tail calls in a row (33). The limit is a field of \<open>bpf_ops\<close>; the theorems state how many a request needs, and
    what happens when there are too few.
  \<^item> The hash table's power is at most 31, the largest size for which the bucket masks are right.
  \<^item> Loops without a bound of their own (chains, queues, free lists, pages) are partial functions into \<open>option\<close>. That they return in every reachable
    state is proved (\<open>cache_returns\<close>, \<open>slab_history\<close>), and the theorems on commands state the result, not only what it would be.
    \<open>cache_returns\<close> is about single-chunk items, and appends and prepends whose result fits one chunk; the crawler and the thread that moves pages are not in it.
  \<^item> The totals of the prefix statistics are C integers. That the report fits its buffer is proved for a report below \<open>2 ^ 31\<close> bytes.
  \<^item> Results of \<open>malloc\<close> and \<open>realloc\<close> are arguments. The model has the branches of their failure; theorems that need the memory say so (\<open>env_ok\<close>).
    The repair of leaked references (\<open>tail_repair_time\<close>) is modelled and switched off in the invariant, as it frees items that are in use.
  \<^item> Chunked items (values over several chunks) are modelled in the store path and excluded from the invariant, which needs the slab sizes to be
    large enough for whole items.
  \<^item> A thread's operation on a key is atomic: memcached holds the item lock of the key. BMC's programs are atomic with respect to one cache entry,
    as the code locks the entry.

  \<^bold>\<open>What is not modelled\<close>, and why. The binary protocol and the meta commands parse other encodings of the same operations. The \<open>stats\<close> command and log
  entries are text output. Listening sockets, libevent, signals, threads and the start of the processes (\<open>main\<close>,
  \<open>thread.c\<close> but for its wrappers, \<open>daemon.c\<close>, \<open>*_priv.c\<close>, libbpf calls) are system calls whose results are inputs here. External storage
  (\<open>extstore.c\<close>, \<open>storage.c\<close>), restartable memory (\<open>restart.c\<close>), TLS and SASL are optional parts around files and third-party libraries. The
  crawler (\<open>crawler.c\<close>) and the thread that empties a slab page are left out; the requests to them and the crawler's place in a queue are
  modelled. Floating-point numbers occur in settings only; their conversion (\<open>strtod\<close>) is an argument. The unit tests at the end of the sources are
  left out.
\<close>

section \<open>BMC in front of memcached\<close>

text \<open>A frame on its way out: memcached's datagram \<open>d\<close> behind the Ethernet, IP and UDP headers.\<close>

definition carries :: "sk_buff \<Rightarrow> byte list \<Rightarrow> bool" where
  "carries skb d \<longleftrightarrow> skb_end skb = skb_data skb + 42 + length d \<and> skb_len skb = 42 + length d \<and>
     skb_mem skb (skb_data skb + ETH_LEN + 9) = 17 \<and> be16 (skb_mem skb) (skb_data skb + ETH_LEN + IP_LEN) = 11211 \<and>
     mem_read (skb_mem skb) (skb_data skb + 42) (length d) = d"

lemma carries_reply:
  assumes "carries skb (udp_header req i n @ pl)" "length pl \<le> BMC_MAX_CACHE_DATA_SIZE"
  shows "reply_skb skb pl"
proof -
  have l: "length (udp_header req i n) = 8" by (simp add: udp_header_def)
  have "mem_read (skb_mem skb) (skb_data skb + 42) (8 + length pl) = udp_header req i n @ pl" using assms(1) l by (simp add: carries_def)
  then have "drop 8 (mem_read (skb_mem skb) (skb_data skb + 42) (8 + length pl)) = pl" using l by simp
  then have "mem_read (skb_mem skb) (skb_data skb + 50) (length pl) = pl"
    by (simp add: mem_read_def drop_map add.commute add.left_commute)
  then show ?thesis using assms l by (simp add: carries_def reply_skb_def)
qed

lemma decimal_no_lf: "LF \<notin> set (decimal n)"
proof -
  have d: "(of_nat (48 + b) :: byte) \<noteq> LF" if "b < 10" for b
  proof
    assume "(of_nat (48 + b) :: byte) = LF"
    then have "unat (of_nat (48 + b) :: byte) = 10" by (simp only:) simp
    then show False using that by (simp add: unat_of_nat del: of_nat_add)
  qed
  show ?thesis
  proof (induction n rule: decimal.induct)
    case (1 n)
    then show ?case using d [of n] d [of "n mod 10"] by (cases "n < 10") (auto simp: decimal.simps [of n] simp del: of_nat_add)
  qed
qed

text \<open>
  C1. A value travels through both caches. Memcached answers a get over UDP in one datagram with a live item whose value has no newline; the datagram
  passes BMC's transmit chain, at whatever later time it is sent; then BMC answers the next GET for that key with exactly the bytes of memcached's reply.
\<close>

theorem memcached_reply_served:
  assumes env: "env_ok e st" and srv: "serving e st srv R M" and c: "pool_ok c" "is_udp c"
    and r: "\<forall>x. all_refs (srv_mc srv) R x + 2 < 59000"
    and line: "line_words line = [bytes ''get'', k]" "wf_key k" "LF \<notin> set k"
    and x: "live st (srv_mc srv) M k = Some x" "item_value (m_heap (srv_mc srv) x) = v @ [CR, LF]" "LF \<notin> set v"
    and get: "process_command e stale free line (c, srv) = Some (Handled (c', srv'))"
    and later: "cache_run st (e_hash e) x (srv_mc srv') (hold [x] R) s'' R''"
    and out: "d \<in> set (datagrams (m_heap s'') c')" "carries skb d" "length (value_text False (m_heap (srv_mc srv) x)) \<le> 995"
    and bmc: "bpf_ops_ok ops" "3 \<le> op_tail_call_limit ops" "\<not> slot_hit b k" "get_one ctx k"
      "reply_fits ctx [(k, value_text False (m_heap (srv_mc srv) x))]"
  shows "\<exists>b' ctx'. bmc_run_xdp ops (fst (bmc_run_tc ops b skb)) ctx = (b', ctx', XDP_TX) \<and>
    pkt_end ctx' = pkt_data ctx' + HDRS_LEN + length (drop 8 d) \<and>
    mem_read (pkt_mem ctx') (pkt_data ctx' + HDRS_LEN) (length (drop 8 d)) = drop 8 d \<and>
    drop 8 d = value_text False (m_heap (srv_mc srv) x) @ END_LINE"
proof -
  let ?s = "srv_mc srv" let ?t = "value_text False (m_heap ?s x)"
  have lk: "line_words line = (if False then bytes ''gets'' else bytes ''get'') # [k]" "[k] \<noteq> []" "\<forall>k \<in> set [k]. length k \<le> KEY_MAX_LENGTH" "distinct [k]"
    using line(1,2) by (auto simp: wf_key_def)
  have r': "\<forall>x. all_refs ?s R x + 2 * length [k] < 59000" using r by simp
  have L: "hits (live st ?s M) [k] = [x]" using x(1) by simp
  have g0: "value_text False (m_heap (srv_mc srv') x) = ?t" "\<forall>s'' R''. cache_run st (e_hash e) x (srv_mc srv') (hold [x] R) s'' R'' \<longrightarrow>
      sent (m_heap s'') c' = value_text False (m_heap (srv_mc srv') x) @ end_text \<and> udp_framed (m_heap s'') c'"
    using get_ok [OF env srv c(1) r' lk, of stale free] get c(2) unfolding L by auto
  have g: "value_text False (m_heap (srv_mc srv') x) = ?t" "sent (m_heap s'') c' = value_text False (m_heap (srv_mc srv') x) @ end_text" "udp_framed (m_heap s'') c'"
    using g0(1) spec [OF spec [OF g0(2), of s''], of R''] later by auto
  obtain bodies where b: "concat bodies = sent (m_heap s'') c'"
      "datagrams (m_heap s'') c' = map (\<lambda>(i, b). udp_header (request_id c') i (length bodies) @ b) (enumerate 0 bodies)"
    using g(3) by (auto simp: udp_framed_def)
  have k: "k \<noteq> []" "length k \<le> KEY_MAX_LENGTH" using line(2) by (auto simp: wf_key_def)
  have "\<forall>y. all_refs ?s R y < 59000" using r add_lessD1 by blast
  then have "length (msglist c') = 1" using one_datagram [OF env srv c _ line(1) k x(1) _ get] out(3) by simp
  then have one: "length (datagrams (m_heap s'') c') = 1" by (simp add: datagrams_def)
  then have "length bodies = 1" using b(2) by (metis length_map length_enumerate)
  then obtain pl where pl: "bodies = [pl]" by (cases bodies) auto
  have d: "d = udp_header (request_id c') 0 1 @ pl" "pl = ?t @ END_LINE" using b out(1) pl g(1,2) by (simp_all add: end_text_def)
  have h: "length (udp_header (request_id c') 0 1) = 8" by (simp add: udp_header_def)
  have "length pl \<le> 1000" using d(2) out(3) by simp
  then have skb: "reply_skb skb pl" using carries_reply out(2) d(1) by simp
  have kx: "key (m_heap ?s x) = k" using servingD(3) [OF srv] live_some [OF x(1)] cache_okD mapped_key [where x = x and k = k] by metis
  define a where "a = bytes ''VALUE '' @ k @ SP # decimal (unat (FLAGS_CONV (m_heap ?s x))) @ SP # decimal (unat (word_of_int (nbytes (m_heap ?s x) - 2) :: u32)) @ [CR]"
  have t: "?t = a @ LF # (v @ [CR]) @ [LF]" using x(2) kx by (simp add: value_text_def a_def)
  have na: "LF \<notin> set a" "LF \<notin> set (v @ [CR])" using line(3) x(3) decimal_no_lf by (simp_all add: a_def)
  have up: "upto_lf 2 pl = ?t" using upto_lf_two [OF na, of END_LINE] by (simp add: d(2) t)
  have "value_reply k pl" using line(2,3) na by (simp add: value_reply_def d(2) t) (simp add: a_def)
  then show ?thesis using reply_get_ok [OF bmc(1,2) skb _ bmc(3,4)] bmc(5) up d h by simp
qed

section \<open>An instance\<close>

text \<open>A frame with the datagram \<open>d\<close>.\<close>

definition s_datagram :: "byte list \<Rightarrow> sk_buff" where
  "s_datagram d = \<lparr>skb_mem = mem_write (s_headers 17 [0x2b, 0xcb] [0, 0]) 298 d, skb_data = 256, skb_end = 298 + length d, skb_len = 42 + length d\<rparr>"

lemma s_datagram_carries: "carries (s_datagram d) d"
  using mem_read_write_same [of "s_headers 17 [0x2b, 0xcb] [0, 0]" 298 d]
  by (simp add: carries_def s_datagram_def be16_def s_headers_def mem_write_def)

theorem memcached_reply_served_witness:
  "\<exists>s c' srv' d b' ctx'. process_command w_env False True (bytes ''get a'') (w_conn, w_srv s) = Some (Handled (c', srv')) \<and>
     datagrams (m_heap (srv_mc srv')) c' = [d] \<and>
     bmc_run_xdp ref_ops (fst (bmc_run_tc ref_ops s_empty (s_datagram d))) (s_get [bytes ''a'']) = (b', ctx', XDP_TX) \<and>
     mem_read (pkt_mem ctx') (pkt_data ctx' + HDRS_LEN) 21 = bytes ''VALUE a 0 1'' @ [CR, LF] @ bytes ''5'' @ [CR, LF] @ bytes ''END'' @ [CR, LF]"
proof -
  obtain s where s: "good tiny w_hash s w_refs [[97] \<mapsto> 4224]" "live tiny s [[97] \<mapsto> 4224] [97] = Some 4224" "nbytes (m_heap s 4224) = 3"
      "item_value (m_heap s 4224) = number_text 5 0" "length (bump_bufs s) = 1" "\<forall>x. bump_count s x = 0" "FLAGS_CONV (m_heap s 4224) = 0"
    using w_linked by blast
  have sv: "serving w_env tiny (w_srv s) w_refs [[97] \<mapsto> 4224]" "\<forall>x. all_refs s w_refs x < 58000" using w_serving [OF s(1,5,6)] by simp_all
  have ms: "srv_mc (w_srv s) = s" by (simp add: w_srv_def)
  have r: "\<forall>x. all_refs (srv_mc (w_srv s)) w_refs x + 2 < 59000" "\<forall>x. all_refs (srv_mc (w_srv s)) w_refs x + 2 * length [[97 :: byte]] < 59000"
      "\<forall>x. all_refs (srv_mc (w_srv s)) w_refs x < 59000"
    using s(6) by (simp_all add: all_refs_def ms)
  have u: "is_udp w_conn" by (simp add: w_conn_def)
  have l: "line_words (bytes ''get a'') = [bytes ''get'', [97]]" by (simp add: line_words_def)
  have l': "line_words (bytes ''get a'') = (if False then bytes ''gets'' else bytes ''get'') # [[97]]" using l by simp
  obtain c' srv' where g: "process_command w_env False True (bytes ''get a'') (w_conn, w_srv s) = Some (Handled (c', srv'))"
    using get_ok [OF w_env_ok sv(1) w_conn_ok(1) r(2) l', of False True] by auto
  have v: "item_value (m_heap (srv_mc (w_srv s)) 4224) = bytes ''5'' @ [CR, LF]" using s(4) by (simp add: number_text_def decimal.simps ms)
  have k: "key (m_heap s 4224) = [97]"
    using cache_okD [of tiny w_hash s "[[97] \<mapsto> 4224]" w_refs] mapped_key [of tiny w_hash s "[[97] \<mapsto> 4224]" _ _ "[97]" 4224] s(1) by (auto simp: good_def)
  have t: "value_text False (m_heap (srv_mc (w_srv s)) 4224) = bytes ''VALUE a 0 1'' @ [CR, LF] @ bytes ''5'' @ [CR, LF]"
    using v k s(3,7) by (simp add: value_text_def decimal.simps ms)
  have x: "live tiny (srv_mc (w_srv s)) [[97] \<mapsto> 4224] [97] = Some 4224" using s(2) by (simp add: ms)
  have "length (msglist c') = 1" using one_datagram [OF w_env_ok sv(1) w_conn_ok(1) u r(3) l _ _ x _ g] t by simp
  then obtain d where d: "datagrams (m_heap (srv_mc srv')) c' = [d]" by (auto simp: datagrams_def length_Suc_conv)
  have key: "s_key_ok [97]" "bytes ''a'' = [97]" by (simp_all add: s_key_defs)
  have wk: "wf_key [97]" "LF \<notin> set [97]" using key(1) by (simp_all add: s_key_ok_def)
  have fit: "reply_fits (s_get [[97]]) [([97], value_text False (m_heap (srv_mc (w_srv s)) 4224))]"
    using s_get_one(2) [OF key(1), of "[97]"] t by (simp add: reply_fits_def s_reply_def)
  have in_d: "d \<in> set (datagrams (m_heap (srv_mc srv')) c')" using d by simp
  have nv: "LF \<notin> set (bytes ''5'')" "length (value_text False (m_heap (srv_mc (w_srv s)) 4224)) \<le> 995" "3 \<le> op_tail_call_limit ref_ops" using t by simp_all
  obtain b' ctx' where b: "bmc_run_xdp ref_ops (fst (bmc_run_tc ref_ops s_empty (s_datagram d))) (s_get [[97]]) = (b', ctx', XDP_TX)"
      "mem_read (pkt_mem ctx') (pkt_data ctx' + HDRS_LEN) (length (drop 8 d)) = drop 8 d"
      "drop 8 d = value_text False (m_heap (srv_mc (w_srv s)) 4224) @ END_LINE"
    using memcached_reply_served [OF w_env_ok sv(1) w_conn_ok(1) u r(1) l wk x v nv(1) g cache_run.stay in_d s_datagram_carries nv(2) ref_ops_ok nv(3) s_empty_miss
        s_get_one(1) [OF key(1)] fit] by blast
  have "length (drop 8 d) = 21" "drop 8 d = bytes ''VALUE a 0 1'' @ [CR, LF] @ bytes ''5'' @ [CR, LF] @ END_LINE" using b(3) t by simp_all
  then show ?thesis using g d b(1,2) key(2) by metis
qed

end
